(* ===== verification/Prelude.thy ===== *)
theory Prelude
  imports Main "HOL-Library.Word"
begin

text \<open>
  Shared vocabulary of the development: the machine integers of the code, the results of code
  that may abort, the loop combinators, the ordered \<^verbatim>\<open>std::map\<close> and the contract every
  message-driven component satisfies.

  The C++ code aborts the process at a failed \<^verbatim>\<open>ASSERT\<close>, at a \<^verbatim>\<open>Panic\<close> and at
  \<^verbatim>\<open>NOT_REACHABLE\<close>; each of these is an \<open>Inl\<close> result here, and a normal return is an
  \<open>Inr\<close> result.  Two further outcomes of the C++ text have constructors of their own:
  undefined behaviour of the language (dereferencing the end iterator of an empty container, for
  instance) and a counting loop that never ends because its bound is the largest 64-bit value.
\<close>

section \<open>Machine integers\<close>

type_synonym u64 = "64 word"
type_synonym u32 = "32 word"

section \<open>Results of code that may abort\<close>

datatype error =
    AssertFailed
  | Panicked
  | NotReachable
  | UndefinedBehaviour
  | Diverges

type_synonym 'a result = "error + 'a"

text \<open>\<open>check b e k\<close> runs \<open>k\<close> where \<open>b\<close> holds and aborts with \<open>e\<close> elsewhere; \<open>rbind\<close> is
  sequencing.\<close>

definition check :: "bool \<Rightarrow> error \<Rightarrow> 'a result \<Rightarrow> 'a result" where
  "check b e k = (if b then k else Inl e)"

definition rbind :: "'a result \<Rightarrow> ('a \<Rightarrow> 'b result) \<Rightarrow> 'b result" where
  "rbind m k = (case m of Inl e \<Rightarrow> Inl e | Inr x \<Rightarrow> k x)"

primrec fold_r :: "('s \<Rightarrow> 'x \<Rightarrow> 's result) \<Rightarrow> 's \<Rightarrow> 'x list \<Rightarrow> 's result" where
  "fold_r f s [] = Inr s"
| "fold_r f s (x # xs) = rbind (f s x) (\<lambda>s'. fold_r f s' xs)"

primrec map_r :: "('x \<Rightarrow> 'y result) \<Rightarrow> 'x list \<Rightarrow> 'y list result" where
  "map_r f [] = Inr []"
| "map_r f (x # xs) = rbind (f x) (\<lambda>y. rbind (map_r f xs) (\<lambda>ys. Inr (y # ys)))"

lemma check_Inr [simp]: "check b e k = Inr y \<longleftrightarrow> b \<and> k = Inr y"
  by (simp add: check_def)

lemma check_simps [simp]: "check True e k = k" "check False e k = Inl e"
  by (simp_all add: check_def)

lemma rbind_Inr [simp]: "rbind m k = Inr y \<longleftrightarrow> (\<exists>x. m = Inr x \<and> k x = Inr y)"
  by (cases m) (auto simp: rbind_def)

lemma rbind_simps [simp]: "rbind (Inl e) k = Inl e" "rbind (Inr x) k = k x"
  by (simp_all add: rbind_def)

lemma rbind_id: "rbind m Inr = m"
  by (cases m) simp_all

lemma rbind_cong [fundef_cong]:
  "\<lbrakk> m = m'; \<And>x. m' = Inr x \<Longrightarrow> k x = k' x \<rbrakk> \<Longrightarrow> rbind m k = rbind m' k'"
  by (cases m') (auto simp: rbind_def)

lemma check_cong [fundef_cong]:
  "\<lbrakk> b = b'; e = e'; b' \<Longrightarrow> k = k' \<rbrakk> \<Longrightarrow> check b e k = check b' e' k'"
  by (simp add: check_def)

text \<open>A loop keeps what its body keeps.\<close>

lemma fold_r_invariant:
  assumes "P s" and "fold_r f s xs = Inr s'"
    and "\<And>s x s'. \<lbrakk> P s; x \<in> set xs; f s x = Inr s' \<rbrakk> \<Longrightarrow> P s'"
  shows "P s'"
  using assms
proof (induction xs arbitrary: s)
  case Nil
  then show ?case by simp
next
  case (Cons x xs)
  from Cons.prems(2) obtain t where "f s x = Inr t" and rest: "fold_r f t xs = Inr s'"
    by auto
  with Cons.prems(1,3) have "P t" by (metis list.set_intros(1))
  then show ?case
    using rest by (rule Cons.IH) (use Cons.prems(3) in \<open>auto intro: list.set_intros(2)\<close>)
qed

lemma fold_r_append [simp]:
  "fold_r f s (xs @ ys) = rbind (fold_r f s xs) (\<lambda>s'. fold_r f s' ys)"
proof (induction xs arbitrary: s)
  case (Cons x xs)
  then show ?case by (cases "f s x") simp_all
qed simp

text \<open>Some calls are free of undefined behaviour only in one mode of their component.  \<open>ends b r Q\<close> says how such a
  call may end: it returns a value that satisfies \<open>Q\<close> or, unless \<open>b\<close> holds, runs into undefined behaviour; it
  fails no assertion and does not panic.\<close>

definition ends :: "bool \<Rightarrow> 'a result \<Rightarrow> ('a \<Rightarrow> bool) \<Rightarrow> bool" where
  "ends b r Q \<longleftrightarrow> (case r of Inl e \<Rightarrow> \<not> b \<and> e = UndefinedBehaviour | Inr y \<Rightarrow> Q y)"

lemma ends_simps [simp]:
  "ends b (Inr y) Q = Q y" "ends b (Inl e) Q \<longleftrightarrow> \<not> b \<and> e = UndefinedBehaviour"
  by (simp_all add: ends_def)

lemma ends_iff: "ends b r Q \<longleftrightarrow> (\<exists>y. r = Inr y \<and> Q y) \<or> \<not> b \<and> r = Inl UndefinedBehaviour"
  by (cases r) auto

lemma ends_returns: "\<lbrakk> ends b r Q; r = Inr y \<rbrakk> \<Longrightarrow> Q y"
  by simp

lemma ends_total: "\<lbrakk> ends b r Q; b \<rbrakk> \<Longrightarrow> \<exists>y. r = Inr y \<and> Q y"
  by (cases r) auto

lemma ends_mono:
  "\<lbrakk> ends b r Q; \<And>y. \<lbrakk> r = Inr y; Q y \<rbrakk> \<Longrightarrow> R y; c \<Longrightarrow> b \<rbrakk> \<Longrightarrow> ends c r R"
  by (cases r) auto

lemma ends_rbind:
  "\<lbrakk> ends b m Q; \<And>x. \<lbrakk> m = Inr x; Q x \<rbrakk> \<Longrightarrow> ends b (k x) R \<rbrakk> \<Longrightarrow> ends b (rbind m k) R"
  by (cases m) auto

lemma ends_check: "\<lbrakk> c; ends b k R \<rbrakk> \<Longrightarrow> ends b (check c e k) R"
  by simp

lemma ends_fold_r:
  assumes "P s" and "\<And>s x. \<lbrakk> P s; x \<in> set xs \<rbrakk> \<Longrightarrow> ends b (f s x) P"
  shows "ends b (fold_r f s xs) P"
  using assms
proof (induction xs arbitrary: s)
  case (Cons x xs)
  have "ends b (f s x) P" using Cons.prems by simp
  then have "ends b (rbind (f s x) (\<lambda>t. fold_r f t xs)) P"
    by (rule ends_rbind) (rule Cons.IH, assumption, simp add: Cons.prems(2))
  then show ?case by simp
qed simp

text \<open>A loop that aborts does so in one of its rounds, after the rounds before it have returned.\<close>

lemma fold_r_Inl:
  "fold_r f s xs = Inl e \<Longrightarrow> \<exists>ys x zs t. xs = ys @ x # zs \<and> fold_r f s ys = Inr t \<and> f t x = Inl e"
proof (induction xs arbitrary: s)
  case (Cons x xs)
  show ?case
  proof (cases "f s x")
    case (Inl d)
    then show ?thesis using Cons.prems by (intro exI [of _ "[]"] exI [of _ x] exI [of _ xs] exI [of _ s]) simp
  next
    case (Inr t)
    then obtain ys y zs u where "xs = ys @ y # zs" "fold_r f t ys = Inr u" "f u y = Inl e"
      using Cons.IH [of t] Cons.prems by auto
    then show ?thesis using Inr by (intro exI [of _ "x # ys"] exI [of _ y] exI [of _ zs] exI [of _ u]) simp
  qed
qed simp

lemma map_r_Inr_iff:
  "map_r f xs = Inr ys \<longleftrightarrow> length ys = length xs \<and> (\<forall>i<length xs. f (xs ! i) = Inr (ys ! i))"
proof (induction xs arbitrary: ys)
  case Nil
  then show ?case by auto
next
  case (Cons x xs)
  then show ?case
    by (cases ys) (auto simp: nth_Cons All_less_Suc2 split: nat.splits)
qed

section \<open>Counting loops over operation numbers\<close>

text \<open>
  \<open>op_range a b\<close> lists what \<^verbatim>\<open>for (opnum_t i = a; i < b; i++)\<close> visits.  The code's loops with
  \<^verbatim>\<open>i <= b\<close> visit \<open>op_range_le a b\<close>; when \<open>b\<close> is the largest 64-bit value the condition
  never fails and the loop does not end.
\<close>

definition op_range :: "u64 \<Rightarrow> u64 \<Rightarrow> u64 list" where
  "op_range a b = map word_of_nat [unat a..<unat b]"

definition op_range_le :: "u64 \<Rightarrow> u64 \<Rightarrow> u64 list result" where
  "op_range_le a b = (if b = - 1 then Inl Diverges else Inr (op_range a (b + 1)))"

lemma length_op_range [simp]: "length (op_range a b) = unat b - unat a"
  by (simp add: op_range_def)

lemma nth_op_range: "i < unat b - unat a \<Longrightarrow> op_range a b ! i = a + word_of_nat i"
  by (simp add: op_range_def)

lemma unat_u64_bound: "unat (x :: u64) < 2 ^ 64"
  using unsigned_less [of x] by simp

lemma u64_eqI: "unat (x :: u64) = unat y \<Longrightarrow> x = y"
  by (metis unsigned_word_eqI)

lemma u64_not_max: "(x :: u64) \<noteq> - 1 \<longleftrightarrow> unat x + 1 < 2 ^ 64"
proof -
  have max: "unat (- 1 :: u64) = 2 ^ 64 - 1"
    by (simp add: unsigned_minus_1_eq_mask mask_eq_exp_minus_1)
  have "x = - 1 \<longleftrightarrow> unat x = unat (- 1 :: u64)" by (metis unsigned_word_eqI)
  then show ?thesis unfolding max using unat_u64_bound [of x] by linarith
qed

lemma unat_add_of_nat:
  fixes a :: u64
  assumes "unat a + i < 2 ^ 64"
  shows "unat (a + word_of_nat i) = unat a + i"
proof -
  have "i < 2 ^ 64" using assms by simp
  then have "unat (word_of_nat i :: u64) = i"
    by (simp add: unat_of_nat)
  then show ?thesis using assms by (simp add: unat_word_ariths)
qed

lemma set_op_range [simp]: "set (op_range a b) = {i. a \<le> i \<and> i < b}"
proof (intro set_eqI iffI)
  fix x
  assume "x \<in> set (op_range a b)"
  then obtain k where k: "unat a \<le> k" "k < unat b" and x: "x = word_of_nat k"
    by (auto simp: op_range_def)
  have "k < 2 ^ 64" using k(2) unat_u64_bound [of b] by simp
  then have "unat x = k" using x by (simp add: unat_of_nat)
  then show "x \<in> {i. a \<le> i \<and> i < b}" using k by (simp add: word_le_nat_alt word_less_nat_alt)
next
  fix x
  assume "x \<in> {i. a \<le> i \<and> i < b}"
  then have "unat x \<in> set [unat a..<unat b]" by (simp add: word_le_nat_alt word_less_nat_alt)
  moreover have "x = word_of_nat (unat x)" by simp
  ultimately show "x \<in> set (op_range a b)" unfolding op_range_def by (metis image_eqI list.set_map)
qed

lemma op_range_empty [simp]: "b \<le> a \<Longrightarrow> op_range a b = []"
  by (simp add: op_range_def word_le_nat_alt)

lemma unat_Suc_less:
  fixes a b :: u64
  assumes "a < b"
  shows "unat (a + 1) = Suc (unat a)"
proof -
  have "unat a + 1 < 2 ^ 64"
    using assms unat_u64_bound [of b] by (simp add: word_less_nat_alt)
  then show ?thesis using unat_add_of_nat [of a 1] by simp
qed

lemma op_range_Cons: "a < b \<Longrightarrow> op_range a b = a # op_range (a + 1) b"
  by (simp add: op_range_def unat_Suc_less upt_conv_Cons word_less_nat_alt)

lemma op_range_le_Inr:
  "op_range_le a b = Inr xs \<longleftrightarrow> b \<noteq> - 1 \<and> xs = op_range a (b + 1)"
  by (auto simp: op_range_le_def)

section \<open>The ordered map of the standard library\<close>

text \<open>
  A \<^verbatim>\<open>std::map\<close> that the code iterates over is an association list in increasing key order:
  iteration order is list order, \<^verbatim>\<open>m[k] = v\<close> is \<open>smap_put\<close>, \<^verbatim>\<open>find\<close> is \<^const>\<open>map_of\<close>
  and \<^verbatim>\<open>size\<close> is \<^const>\<open>length\<close>.
\<close>

fun smap_put :: "'k::linorder \<Rightarrow> 'v \<Rightarrow> ('k \<times> 'v) list \<Rightarrow> ('k \<times> 'v) list" where
  "smap_put k v [] = [(k, v)]"
| "smap_put k v ((k', v') # m) =
     (if k < k' then (k, v) # (k', v') # m
      else if k = k' then (k, v) # m
      else (k', v') # smap_put k v m)"

definition smap_ok :: "('k::linorder \<times> 'v) list \<Rightarrow> bool" where
  "smap_ok m \<longleftrightarrow> sorted_wrt (<) (map fst m)"

lemma smap_ok_Nil [simp]: "smap_ok []"
  by (simp add: smap_ok_def)

lemma smap_put_keys [simp]: "fst ` set (smap_put k v m) = insert k (fst ` set m)"
  by (induction k v m rule: smap_put.induct) auto

lemma smap_ok_Cons: "smap_ok (p # m) \<longleftrightarrow> (\<forall>k \<in> fst ` set m. fst p < k) \<and> smap_ok m"
  by (simp add: smap_ok_def)

lemma smap_ok_put [simp]: "smap_ok m \<Longrightarrow> smap_ok (smap_put k v m)"
proof (induction k v m rule: smap_put.induct)
  case (2 k v k' v' m)
  show ?case
  proof (cases "k < k'")
    case True
    with "2.prems" show ?thesis by (force simp: smap_ok_Cons)
  next
    case False
    show ?thesis
    proof (cases "k = k'")
      case True
      with "2.prems" show ?thesis by (simp add: smap_ok_Cons)
    next
      case neq: False
      from "2.prems" have ok: "smap_ok m" and above: "\<forall>x \<in> fst ` set m. k' < x"
        by (auto simp: smap_ok_Cons)
      from False neq ok have "smap_ok (smap_put k v m)" by (rule "2.IH")
      moreover from above False neq have "\<forall>x \<in> fst ` set (smap_put k v m). k' < x"
        unfolding smap_put_keys by auto
      ultimately show ?thesis using False neq by (simp del: smap_put_keys add: smap_ok_Cons)
    qed
  qed
qed (simp add: smap_ok_def)

lemma map_of_smap_put [simp]: "map_of (smap_put k v m) = (map_of m)(k \<mapsto> v)"
  by (induction k v m rule: smap_put.induct) (auto simp: fun_eq_iff)

lemma set_smap_put_subset: "set (smap_put k v m) \<subseteq> insert (k, v) (set m)"
  by (induction k v m rule: smap_put.induct) auto

lemma smap_put_mem: "(k, v) \<in> set (smap_put k v m)"
  by (induction k v m rule: smap_put.induct) auto

lemma smap_ok_length: "smap_ok m \<Longrightarrow> length m = card (fst ` set m)"
  by (metis smap_ok_def strict_sorted_iff distinct_card length_map set_map)

lemma smap_map_of: "\<lbrakk> smap_ok m; (k, v) \<in> set m \<rbrakk> \<Longrightarrow> map_of m k = Some v"
  by (simp add: smap_ok_def strict_sorted_iff)

lemma smap_put_not_Nil [simp]: "smap_put k v m \<noteq> []"
  by (cases "(k, v, m)" rule: smap_put.cases) auto

section \<open>Message-driven components\<close>

text \<open>
  A component takes one message or timer event after another.  \<open>fold_r\<close> is its run;
  \<open>accepts\<close> says that every event of the run satisfies what the component expects of it in the
  state it arrives in.  A component whose single step keeps an invariant keeps it over every run.
\<close>

primrec accepts :: "('s \<Rightarrow> 'm \<Rightarrow> 's result) \<Rightarrow> ('s \<Rightarrow> 'm \<Rightarrow> bool) \<Rightarrow> 's \<Rightarrow> 'm list \<Rightarrow> bool" where
  "accepts f ok s [] = True"
| "accepts f ok s (m # ms) =
     (ok s m \<and> (case f s m of Inl _ \<Rightarrow> True | Inr s' \<Rightarrow> accepts f ok s' ms))"

text \<open>The events before one that is reached are accepted, and so is that one.\<close>

lemma accepts_split:
  "\<lbrakk> accepts f ok s (ms @ m # ms'); fold_r f s ms = Inr t \<rbrakk> \<Longrightarrow> accepts f ok s ms \<and> ok t m"
  by (induction ms arbitrary: s) auto

locale handler_system =
  fixes handle :: "'s \<Rightarrow> 'm \<Rightarrow> 's result"
    and ok :: "'s \<Rightarrow> 'm \<Rightarrow> bool"
    and inv :: "'s \<Rightarrow> bool"
  assumes handle_inv: "\<lbrakk> inv s; ok s m; handle s m = Inr s' \<rbrakk> \<Longrightarrow> inv s'"
begin

lemma run_inv:
  "\<lbrakk> inv s; accepts handle ok s ms; fold_r handle s ms = Inr s' \<rbrakk> \<Longrightarrow> inv s'"
proof (induction ms arbitrary: s)
  case (Cons m ms)
  then obtain t where "handle s m = Inr t" "fold_r handle t ms = Inr s'" by auto
  with Cons show ?case by (auto intro: handle_inv)
qed simp

end

text \<open>
  A component each of whose steps makes progress in a reflexive and transitive sense makes it over
  every run.
\<close>

locale progress_system = handler_system +
  fixes rel :: "'a \<Rightarrow> 'a \<Rightarrow> bool"
  assumes rel_refl: "rel s s"
    and rel_trans: "\<lbrakk> rel s t; rel t u \<rbrakk> \<Longrightarrow> rel s u"
    and step_rel: "\<lbrakk> inv s; ok s m; handle s m = Inr s' \<rbrakk> \<Longrightarrow> rel s s'"
begin

lemma run_rel:
  "\<lbrakk> inv s; accepts handle ok s ms; fold_r handle s ms = Inr s' \<rbrakk> \<Longrightarrow> rel s s'"
proof (induction ms arbitrary: s)
  case Nil
  then show ?case by (simp add: rel_refl)
next
  case (Cons m ms)
  then obtain t where t: "handle s m = Inr t" "fold_r handle t ms = Inr s'" by auto
  then have "inv t" "rel s t" "accepts handle ok t ms"
    using Cons.prems handle_inv step_rel by auto
  then show ?case using Cons.IH [OF _ _ t(2)] rel_trans by blast
qed

end

text \<open>
  A component whose handler never aborts on what it accepts completes every accepted run.
\<close>

locale total_system = handler_system +
  assumes total: "\<lbrakk> inv s; ok s m \<rbrakk> \<Longrightarrow> \<exists>s'. handle s m = Inr s'"
begin

lemma run_total:
  "\<lbrakk> inv s; accepts handle ok s ms \<rbrakk> \<Longrightarrow> \<exists>s'. fold_r handle s ms = Inr s' \<and> inv s'"
proof (induction ms arbitrary: s)
  case (Cons m ms)
  then have "\<exists>t. handle s m = Inr t" by (intro total) simp_all
  then obtain t where t: "handle s m = Inr t" by blast
  then have "inv t" "accepts handle ok t ms" using Cons.prems handle_inv by auto
  then show ?case using Cons.IH t by simp
qed simp

end

text \<open>
  A component that is free of undefined behaviour only where \<open>b\<close> holds completes every accepted run there, and
  elsewhere completes it or runs into undefined behaviour.
\<close>

locale partial_system = handler_system +
  fixes b :: bool
  assumes step_ends: "\<lbrakk> inv s; ok s m \<rbrakk> \<Longrightarrow> ends b (handle s m) (\<lambda>_. True)"
begin

lemma run_ends: "\<lbrakk> inv s; accepts handle ok s ms \<rbrakk> \<Longrightarrow> ends b (fold_r handle s ms) inv"
proof (induction ms arbitrary: s)
  case (Cons m ms)
  have "ends b (handle s m) (\<lambda>t. inv t \<and> accepts handle ok t ms)"
    by (rule ends_mono [OF step_ends [of s m]]) (use Cons.prems handle_inv in auto)
  then have "ends b (rbind (handle s m) (\<lambda>t. fold_r handle t ms)) inv"
    by (rule ends_rbind) (simp add: Cons.IH)
  then show ?case by simp
qed simp

end

lemma accepts_all: "\<forall>m\<in>set ms. P m \<Longrightarrow> accepts f (\<lambda>_ m. P m) s ms"
  by (induction ms arbitrary: s) (auto split: sum.splits)

end
