(* ===== verification/Configurations.thy ===== *)
theory Configurations
  imports Prelude
begin

text \<open>
  \<^verbatim>\<open>lib/configuration.h\<close> and \<^verbatim>\<open>lib/configuration.cc\<close>: the address of a replica with its
  string form, the description of a replica group, the leader of a view and the two quorum sizes.
  The quorum sizes are shown to intersect the way the replication protocols need, through the
  contract \<open>quorum_system\<close>.  \<^verbatim>\<open>Configuration::Configuration(std::ifstream &, bool)\<close>, the parser of
  the configuration file, is not modelled.  Replica indices are C++ \<^verbatim>\<open>int\<close>s and stay \<open>int\<close>
  here; \<^verbatim>\<open>GetLeaderIndex\<close> divides by \<^verbatim>\<open>n\<close>, so its definition is the code's only for a
  group with at least one replica, which is part of \<open>config_ok\<close>.
\<close>

section \<open>Addresses\<close>

record ReplicaAddress =
  host :: string
  port :: string
  dev :: string

text \<open>\<^verbatim>\<open>std::string::find(c, from)\<close>; \<open>None\<close> is \<^verbatim>\<open>npos\<close>.\<close>

fun find_char :: "char \<Rightarrow> string \<Rightarrow> nat \<Rightarrow> nat option" where
  "find_char c [] i = None"
| "find_char c (x # xs) i =
     (case i of
        0 \<Rightarrow> if x = c then Some 0 else map_option Suc (find_char c xs 0)
      | Suc j \<Rightarrow> map_option Suc (find_char c xs j))"

text \<open>The local lambda of the constructor: the field that starts at \<open>start\<close> and the start of the
  next one.  With no separator left, \<^verbatim>\<open>end\<close> is \<^verbatim>\<open>npos\<close>, so the field is the rest of the string
  and \<^verbatim>\<open>end + 1\<close> wraps around to 0.\<close>

definition parse_field :: "string \<Rightarrow> nat \<Rightarrow> string \<times> nat" where
  "parse_field addr start =
     (case find_char (CHR ''|'') addr start of
        None \<Rightarrow> (drop start addr, 0)
      | Some e \<Rightarrow> (take (e - start) (drop start addr), e + 1))"

definition ReplicaAddress_parse :: "string \<Rightarrow> ReplicaAddress" where
  "ReplicaAddress_parse addr =
     (let (h, s1) = parse_field addr 0;
          (p, s2) = parse_field addr s1;
          (d, s3) = parse_field addr s2
      in \<lparr>host = h, port = p, dev = d\<rparr>)"

definition Serialize :: "ReplicaAddress \<Rightarrow> string" where
  "Serialize a = host a @ ''|'' @ port a @ ''|'' @ dev a"

definition ReplicaAddress_eq :: "ReplicaAddress \<Rightarrow> ReplicaAddress \<Rightarrow> bool" where
  "ReplicaAddress_eq a b \<longleftrightarrow> host a = host b \<and> port a = port b \<and> dev a = dev b"

section \<open>Group configurations\<close>

record Configuration =
  cfg_g :: int
  cfg_n :: int
  cfg_f :: int
  cfg_replicas :: "(int \<times> ReplicaAddress list) list"
  cfg_sequencers :: "ReplicaAddress list"
  cfg_multicast :: "ReplicaAddress option"
  cfg_fc :: "ReplicaAddress option"

text \<open>\<^verbatim>\<open>replicas_.at(group).at(id)\<close>: both lookups throw when out of range, which no caller
  catches.\<close>

definition Configuration_replica :: "Configuration \<Rightarrow> int \<Rightarrow> int \<Rightarrow> ReplicaAddress result" where
  "Configuration_replica c gi i =
     (case map_of (cfg_replicas c) gi of
        None \<Rightarrow> Inl Panicked
      | Some rs \<Rightarrow> if 0 \<le> i \<and> i < int (length rs) then Inr (rs ! nat i) else Inl Panicked)"

definition NumSequencers :: "Configuration \<Rightarrow> int" where
  "NumSequencers c = int (length (cfg_sequencers c))"

text \<open>\<^verbatim>\<open>(unsigned long)index >= size\<close> also catches a negative index.\<close>

definition Configuration_sequencer :: "Configuration \<Rightarrow> int \<Rightarrow> ReplicaAddress result" where
  "Configuration_sequencer c index =
     (if cfg_sequencers c = [] then Inl Panicked
      else let i = (if index < 0 \<or> index \<ge> int (length (cfg_sequencers c))
                    then length (cfg_sequencers c) - 1 else nat index)
           in Inr (cfg_sequencers c ! i))"

definition GetLeaderIndex :: "Configuration \<Rightarrow> u64 \<Rightarrow> int" where
  "GetLeaderIndex c v = uint v mod cfg_n c"

definition QuorumSize :: "Configuration \<Rightarrow> int" where
  "QuorumSize c = cfg_f c + 1"

definition FastQuorumSize :: "Configuration \<Rightarrow> int" where
  "FastQuorumSize c = cfg_f c + (cfg_f c + 1) div 2 + 1"

definition optional_address_eq :: "ReplicaAddress option \<Rightarrow> ReplicaAddress option \<Rightarrow> bool" where
  "optional_address_eq a b =
     (case (a, b) of
        (None, None) \<Rightarrow> True
      | (Some x, Some y) \<Rightarrow> ReplicaAddress_eq x y
      | _ \<Rightarrow> False)"

definition Configuration_eq :: "Configuration \<Rightarrow> Configuration \<Rightarrow> bool" where
  "Configuration_eq c d \<longleftrightarrow>
     cfg_g c = cfg_g d \<and> cfg_n c = cfg_n d \<and> cfg_f c = cfg_f d \<and>
     list_all2 (\<lambda>p q. fst p = fst q \<and> list_all2 ReplicaAddress_eq (snd p) (snd q))
       (cfg_replicas c) (cfg_replicas d) \<and>
     optional_address_eq (cfg_multicast c) (cfg_multicast d) \<and>
     optional_address_eq (cfg_fc c) (cfg_fc d)"

text \<open>What the README asks of a group: \<open>2f + 1\<close> replicas.\<close>

definition config_ok :: "Configuration \<Rightarrow> bool" where
  "config_ok c \<longleftrightarrow> 0 \<le> cfg_f c \<and> cfg_n c = 2 * cfg_f c + 1"

section \<open>Addresses survive printing and parsing\<close>

lemma find_char_append:
  "c \<notin> set xs \<Longrightarrow> find_char c (xs @ c # ys) 0 = Some (length xs)"
  by (induction xs) auto

lemma find_char_None: "c \<notin> set xs \<Longrightarrow> find_char c xs 0 = None"
  by (induction xs) auto

lemma find_char_drop:
  "find_char c (xs @ ys) (length xs + i) = map_option ((+) (length xs)) (find_char c ys i)"
  by (induction xs) (auto simp: option.map_comp comp_def option.map_ident intro: option.map_cong)

lemma parse_field_middle:
  "CHR ''|'' \<notin> set xs \<Longrightarrow>
   parse_field (ws @ xs @ ''|'' @ ys) (length ws) = (xs, length (ws @ xs @ ''|''))"
  using find_char_drop [of "CHR ''|''" ws "xs @ ''|'' @ ys" 0]
  by (simp add: parse_field_def find_char_append)

lemma parse_field_last:
  "CHR ''|'' \<notin> set xs \<Longrightarrow> parse_field (ws @ xs) (length ws) = (xs, 0)"
  using find_char_drop [of "CHR ''|''" ws xs 0]
  by (simp add: parse_field_def find_char_None)

text \<open>Parsing a serialized address gives the address back, for hosts, ports and devices that
  do not contain the separator.\<close>

theorem ReplicaAddress_roundtrip:
  assumes "CHR ''|'' \<notin> set (host a)" and "CHR ''|'' \<notin> set (port a)" and "CHR ''|'' \<notin> set (dev a)"
  shows "ReplicaAddress_parse (Serialize a) = a"
proof -
  have 1: "parse_field (Serialize a) 0 = (host a, length (host a @ ''|''))"
    using parse_field_middle [of "host a" "[]"] assms(1) by (simp add: Serialize_def)
  have 2: "parse_field (Serialize a) (length (host a @ ''|'')) =
           (port a, length ((host a @ ''|'') @ port a @ ''|''))"
    using parse_field_middle [of "port a" "host a @ ''|''" "dev a"] assms(2) by (simp add: Serialize_def)
  have 3: "parse_field (Serialize a) (length ((host a @ ''|'') @ port a @ ''|'')) = (dev a, 0)"
    using parse_field_last [of "dev a" "(host a @ ''|'') @ port a @ ''|''"] assms(3)
    by (simp add: Serialize_def)
  show ?thesis
    unfolding ReplicaAddress_parse_def 1 2 3 Let_def prod.case by simp
qed

text \<open>The hypotheses hold for an ordinary address.\<close>

theorem ReplicaAddress_roundtrip_witness:
  "ReplicaAddress_parse (Serialize \<lparr>host = ''10.0.0.1'', port = ''51000'', dev = ''eth0''\<rparr>) =
     \<lparr>host = ''10.0.0.1'', port = ''51000'', dev = ''eth0''\<rparr>"
  by (rule ReplicaAddress_roundtrip) simp_all

section \<open>Quorums intersect\<close>

lemma GetLeaderIndex_range: "0 < cfg_n c \<Longrightarrow> 0 \<le> GetLeaderIndex c v \<and> GetLeaderIndex c v < cfg_n c"
  by (simp add: GetLeaderIndex_def)

text \<open>
  What a protocol asks of its quorums.  \<open>quorum c\<close> are the sets of replicas that may decide in
  configuration \<open>c\<close>, \<open>fast_quorum c\<close> those that may decide without the leader's help.
\<close>

locale quorum_system =
  fixes ok :: "'c \<Rightarrow> bool"
    and quorum fast_quorum :: "'c \<Rightarrow> 'r set \<Rightarrow> bool"
  assumes quorum_intersect: "\<lbrakk> ok c; quorum c Q; quorum c R \<rbrakk> \<Longrightarrow> Q \<inter> R \<noteq> {}"
    and fast_intersect: "\<lbrakk> ok c; fast_quorum c P; fast_quorum c Q; quorum c R \<rbrakk> \<Longrightarrow> P \<inter> Q \<inter> R \<noteq> {}"
begin

text \<open>A value accepted at most once per replica is decided at most once.\<close>

lemma decided_unique:
  assumes "ok c" and "quorum c {r. vote r = Some x}" and "quorum c {r. vote r = Some y}"
  shows "x = y"
  using quorum_intersect [OF assms] by auto

text \<open>Inside any quorum of survivors, at most one value can still have been decided fast.\<close>

lemma fast_decided_unique:
  assumes "ok c" and "quorum c R"
    and "fast_quorum c P" and "\<forall>r \<in> P \<inter> R. vote r = Some x"
    and "fast_quorum c Q" and "\<forall>r \<in> Q \<inter> R. vote r = Some y"
  shows "x = y"
proof -
  from fast_intersect [OF assms(1,3,5,2)] obtain r where "r \<in> P \<inter> R" "r \<in> Q \<inter> R" by blast
  then have "vote r = Some x" "vote r = Some y" using assms(4,6) by blast+
  then show ?thesis by simp
qed

end

definition config_replicas :: "Configuration \<Rightarrow> int set" where
  "config_replicas c = {0..<cfg_n c}"

definition is_quorum :: "Configuration \<Rightarrow> int set \<Rightarrow> bool" where
  "is_quorum c Q \<longleftrightarrow> Q \<subseteq> config_replicas c \<and> QuorumSize c \<le> int (card Q)"

definition is_fast_quorum :: "Configuration \<Rightarrow> int set \<Rightarrow> bool" where
  "is_fast_quorum c Q \<longleftrightarrow> Q \<subseteq> config_replicas c \<and> FastQuorumSize c \<le> int (card Q)"

lemma card_inter_bound:
  assumes "finite U" and "P \<subseteq> U" and "Q \<subseteq> U"
  shows "card P + card Q \<le> card U + card (P \<inter> Q)"
proof -
  have "finite P" "finite Q" using assms finite_subset by auto
  then have "card P + card Q = card (P \<union> Q) + card (P \<inter> Q)" by (rule card_Un_Int)
  also have "card (P \<union> Q) \<le> card U" using assms by (intro card_mono) auto
  finally show ?thesis by simp
qed

interpretation config_quorums: quorum_system config_ok is_quorum is_fast_quorum
proof
  fix c Q R
  assume c: "config_ok c" and Q: "is_quorum c Q" and R: "is_quorum c R"
  have U: "finite (config_replicas c)" "int (card (config_replicas c)) = cfg_n c"
    using c by (simp_all add: config_replicas_def config_ok_def)
  have "card Q + card R \<le> card (config_replicas c) + card (Q \<inter> R)"
    using Q R U(1) by (intro card_inter_bound) (auto simp: is_quorum_def)
  then have "0 < card (Q \<inter> R)"
    using Q R U(2) c by (simp add: is_quorum_def QuorumSize_def config_ok_def)
  then show "Q \<inter> R \<noteq> {}" by auto
next
  fix c P Q R
  assume c: "config_ok c" and P: "is_fast_quorum c P" and Q: "is_fast_quorum c Q"
    and R: "is_quorum c R"
  have U: "finite (config_replicas c)" "int (card (config_replicas c)) = cfg_n c"
    using c by (simp_all add: config_replicas_def config_ok_def)
  have 1: "card P + card Q \<le> card (config_replicas c) + card (P \<inter> Q)"
    using P Q U(1) by (intro card_inter_bound) (auto simp: is_fast_quorum_def)
  have 2: "card (P \<inter> Q) + card R \<le> card (config_replicas c) + card (P \<inter> Q \<inter> R)"
    using P R U(1) by (intro card_inter_bound) (auto simp: is_fast_quorum_def is_quorum_def)
  have h: "cfg_f c \<le> 2 * ((cfg_f c + 1) div 2)" by linarith
  have "2 * FastQuorumSize c + QuorumSize c \<le> int (card P + card Q + card R)"
    using P Q R by (simp add: is_fast_quorum_def is_quorum_def)
  then have "2 * cfg_n c < int (card P + card Q + card R)"
    using h c by (simp add: FastQuorumSize_def QuorumSize_def config_ok_def)
  then have "0 < card (P \<inter> Q \<inter> R)" using 1 2 U(2) by linarith
  then show "P \<inter> Q \<inter> R \<noteq> {}" by (metis card.empty less_nat_zero_code)
qed

text \<open>In a group of \<open>2f + 1\<close> replicas any two sets of \<^verbatim>\<open>QuorumSize()\<close> replicas share a
  replica, and any two sets of \<^verbatim>\<open>FastQuorumSize()\<close> replicas share a replica inside every set of
  \<^verbatim>\<open>QuorumSize()\<close> replicas: the sizes the code computes are enough for one value to be decided
  per slot, on the normal and on the fast path.\<close>

theorem quorum_sizes_intersect:
  assumes "config_ok c" and "is_quorum c R"
  shows "(is_quorum c Q \<longrightarrow> Q \<inter> R \<noteq> {}) \<and>
         (is_fast_quorum c P \<longrightarrow> is_fast_quorum c P' \<longrightarrow> P \<inter> P' \<inter> R \<noteq> {})"
  using assms config_quorums.quorum_intersect config_quorums.fast_intersect by blast

text \<open>A group of five replicas, two classic and two fast quorums of it.\<close>

theorem quorum_sizes_intersect_witness:
  "let c = \<lparr>cfg_g = 1, cfg_n = 5, cfg_f = 2, cfg_replicas = [], cfg_sequencers = [], cfg_multicast = None, cfg_fc = None\<rparr>
   in config_ok c \<and> is_quorum c {2, 3, 4} \<and> is_quorum c {0, 1, 2} \<and>
      {0, 1, 2} \<inter> {2, 3, 4 :: int} \<noteq> {} \<and>
      is_fast_quorum c {0, 1, 2, 3} \<and> is_fast_quorum c {1, 2, 3, 4} \<and>
      {0, 1, 2, 3} \<inter> {1, 2, 3, 4} \<inter> {2, 3, 4 :: int} \<noteq> {}"
proof -
  define c where "c = \<lparr>cfg_g = 1, cfg_n = 5, cfg_f = 2, cfg_replicas = [], cfg_sequencers = [],
    cfg_multicast = None, cfg_fc = None\<rparr>"
  have c: "config_ok c" by (simp add: config_ok_def c_def)
  have q: "is_quorum c {2, 3, 4}" "is_quorum c {0, 1, 2}"
    by (auto simp: is_quorum_def config_replicas_def QuorumSize_def c_def)
  have fq: "is_fast_quorum c {0, 1, 2, 3}" "is_fast_quorum c {1, 2, 3, 4}"
    by (auto simp: is_fast_quorum_def config_replicas_def FastQuorumSize_def c_def)
  show ?thesis
    using c q fq quorum_sizes_intersect [OF c q(1), of "{0, 1, 2}" "{0, 1, 2, 3}" "{1, 2, 3, 4}"]
    unfolding c_def [symmetric] Let_def by blast
qed

lemma sequencer_in_range:
  "cfg_sequencers c \<noteq> [] \<Longrightarrow> \<exists>a \<in> set (cfg_sequencers c). Configuration_sequencer c i = Inr a"
  by (auto simp: Configuration_sequencer_def Let_def)

end
