(* ===== verification/QuorumSets.thy ===== *)
theory QuorumSets
  imports Prelude
begin

text \<open>
  The message collectors the replicas and clients share: \<^verbatim>\<open>QuorumSet\<close>, \<^verbatim>\<open>ByzantineQuorumSet\<close> and
  \<^verbatim>\<open>ByzantineProtoQuorumSet\<close> of \<^verbatim>\<open>common/quorumset.h\<close> and \<^verbatim>\<open>MessageSet\<close> of
  \<^verbatim>\<open>common/messageset.h\<close>.  The outer container of each is a function from the identifier to the
  inner container: reading a missing identifier with \<^verbatim>\<open>messages[vs]\<close> creates the empty container,
  which no later operation distinguishes from an absent one.  The inner \<^verbatim>\<open>std::map<int, MSGTYPE>\<close> is
  iterated by callers and is the ordered association list of the prelude.  The contract
  \<open>vote_counter\<close> says what a quorum means: enough distinct replicas, however often each of them
  sent its message.
\<close>

section \<open>QuorumSet\<close>

record ('id, 'm) QuorumSet =
  numRequired :: int
  messages :: "'id \<Rightarrow> (int \<times> 'm) list"

definition QuorumSet_new :: "int \<Rightarrow> ('id, 'm) QuorumSet" where
  "QuorumSet_new k = \<lparr>numRequired = k, messages = (\<lambda>_. [])\<rparr>"

definition Clear :: "('id, 'm) QuorumSet \<Rightarrow> ('id, 'm) QuorumSet" where
  "Clear q = q\<lparr>messages := (\<lambda>_. [])\<rparr>"

definition Clear_id :: "('id, 'm) QuorumSet \<Rightarrow> 'id \<Rightarrow> ('id, 'm) QuorumSet" where
  "Clear_id q vs = q\<lparr>messages := (messages q)(vs := [])\<rparr>"

definition GetMessages :: "('id, 'm) QuorumSet \<Rightarrow> 'id \<Rightarrow> (int \<times> 'm) list" where
  "GetMessages q vs = messages q vs"

definition CheckForQuorum :: "('id, 'm) QuorumSet \<Rightarrow> 'id \<Rightarrow> (int \<times> 'm) list option" where
  "CheckForQuorum q vs =
     (if int (length (messages q vs)) \<ge> numRequired q then Some (messages q vs) else None)"

definition AddAndCheckForQuorum ::
  "('id, 'm) QuorumSet \<Rightarrow> 'id \<Rightarrow> int \<Rightarrow> 'm \<Rightarrow> ('id, 'm) QuorumSet \<times> (int \<times> 'm) list option" where
  "AddAndCheckForQuorum q vs replicaIdx msg =
     (let q' = q\<lparr>messages := (messages q)(vs := smap_put replicaIdx msg (messages q vs))\<rparr>
      in (q', CheckForQuorum q' vs))"

definition QuorumSet_Add :: "('id, 'm) QuorumSet \<Rightarrow> 'id \<Rightarrow> int \<Rightarrow> 'm \<Rightarrow> ('id, 'm) QuorumSet" where
  "QuorumSet_Add q vs replicaIdx msg = fst (AddAndCheckForQuorum q vs replicaIdx msg)"

definition quorum_set_ok :: "('id, 'm) QuorumSet \<Rightarrow> bool" where
  "quorum_set_ok q \<longleftrightarrow> (\<forall>vs. smap_ok (messages q vs))"

section \<open>ByzantineQuorumSet\<close>

record ('id, 'm) ByzantineQuorumSet =
  bqs_messages :: "'id \<Rightarrow> 'm \<Rightarrow> int set"
  bqs_numRequired :: int

definition ByzantineQuorumSet_new :: "int \<Rightarrow> ('id, 'm) ByzantineQuorumSet" where
  "ByzantineQuorumSet_new k = \<lparr>bqs_messages = (\<lambda>_ _. {}), bqs_numRequired = k\<rparr>"

definition bqs_Clear :: "('id, 'm) ByzantineQuorumSet \<Rightarrow> ('id, 'm) ByzantineQuorumSet" where
  "bqs_Clear q = q\<lparr>bqs_messages := (\<lambda>_ _. {})\<rparr>"

definition bqs_Clear_id :: "('id, 'm) ByzantineQuorumSet \<Rightarrow> 'id \<Rightarrow> ('id, 'm) ByzantineQuorumSet" where
  "bqs_Clear_id q seqNum = q\<lparr>bqs_messages := (bqs_messages q)(seqNum := (\<lambda>_. {}))\<rparr>"

definition bqs_CheckForQuorum :: "('id, 'm) ByzantineQuorumSet \<Rightarrow> 'id \<Rightarrow> 'm \<Rightarrow> bool" where
  "bqs_CheckForQuorum q seqNum msg \<longleftrightarrow> int (card (bqs_messages q seqNum msg)) \<ge> bqs_numRequired q"

definition bqs_Add ::
  "('id, 'm) ByzantineQuorumSet \<Rightarrow> 'id \<Rightarrow> int \<Rightarrow> 'm \<Rightarrow> ('id, 'm) ByzantineQuorumSet \<times> bool" where
  "bqs_Add q seqNum replicaId msg =
     (let ms = bqs_messages q seqNum;
          q' = q\<lparr>bqs_messages :=
                 (bqs_messages q)(seqNum := ms(msg := insert replicaId (ms msg)))\<rparr>
      in (q', bqs_CheckForQuorum q' seqNum msg))"

text \<open>\<^verbatim>\<open>ByzantineProtoQuorumSet\<close> keys the inner set by the serialized message; serialization is
  protobuf's and is a parameter.\<close>

definition bpqs_CheckForQuorum ::
  "('m \<Rightarrow> string) \<Rightarrow> ('id, string) ByzantineQuorumSet \<Rightarrow> 'id \<Rightarrow> 'm \<Rightarrow> bool" where
  "bpqs_CheckForQuorum ser q seqNum msg = bqs_CheckForQuorum q seqNum (ser msg)"

definition bpqs_Add ::
  "('m \<Rightarrow> string) \<Rightarrow> ('id, string) ByzantineQuorumSet \<Rightarrow> 'id \<Rightarrow> int \<Rightarrow> 'm \<Rightarrow>
   ('id, string) ByzantineQuorumSet \<times> bool" where
  "bpqs_Add ser q seqNum replicaId msg = bqs_Add q seqNum replicaId (ser msg)"

section \<open>MessageSet\<close>

type_synonym 'm shard_messages = "(int \<times> (int \<times> 'm) list) list"

record ('id, 'm) MessageSet =
  replicaRequired :: u32
  ms_messages :: "'id \<Rightarrow> ('m shard_messages \<times> u32) option"

definition MessageSet_new :: "u32 \<Rightarrow> ('id, 'm) MessageSet" where
  "MessageSet_new k = \<lparr>replicaRequired = k, ms_messages = (\<lambda>_. None)\<rparr>"

definition ms_Clear :: "('id, 'm) MessageSet \<Rightarrow> ('id, 'm) MessageSet" where
  "ms_Clear q = q\<lparr>ms_messages := (\<lambda>_. None)\<rparr>"

definition ms_Clear_id :: "('id, 'm) MessageSet \<Rightarrow> 'id \<Rightarrow> ('id, 'm) MessageSet" where
  "ms_Clear_id q vs =
     (case ms_messages q vs of
        None \<Rightarrow> q
      | Some (_, req) \<Rightarrow> q\<lparr>ms_messages := (ms_messages q)(vs \<mapsto> ([], req))\<rparr>)"

definition ms_Remove :: "('id, 'm) MessageSet \<Rightarrow> 'id \<Rightarrow> ('id, 'm) MessageSet" where
  "ms_Remove q vs = q\<lparr>ms_messages := (ms_messages q)(vs := None)\<rparr>"

definition ms_GetMessages :: "('id, 'm) MessageSet \<Rightarrow> 'id \<Rightarrow> 'm shard_messages option" where
  "ms_GetMessages q vs = map_option fst (ms_messages q vs)"

definition ms_CheckForQuorum :: "('id, 'm) MessageSet \<Rightarrow> 'id \<Rightarrow> 'm shard_messages option" where
  "ms_CheckForQuorum q vs =
     (case ms_messages q vs of
        None \<Rightarrow> None
      | Some (vsmessages, required) \<Rightarrow>
          if length vsmessages \<ge> unat required
          then if \<exists>p \<in> set vsmessages. length (snd p) < unat (replicaRequired q)
               then None else Some vsmessages
          else None)"

definition ms_AddAndCheckForQuorum ::
  "('id, 'm) MessageSet \<Rightarrow> 'id \<Rightarrow> int \<Rightarrow> int \<Rightarrow> 'm \<Rightarrow>
   ('id, 'm) MessageSet \<times> 'm shard_messages option" where
  "ms_AddAndCheckForQuorum q vs shard replicaIdx msg =
     (case ms_messages q vs of
        None \<Rightarrow> (q, None)
      | Some (vsmessages, required) \<Rightarrow>
          let old = (case map_of vsmessages shard of None \<Rightarrow> [] | Some m \<Rightarrow> m);
              new = smap_put shard (smap_put replicaIdx msg old) vsmessages;
              q' = q\<lparr>ms_messages := (ms_messages q)(vs \<mapsto> (new, required))\<rparr>
          in (q', ms_CheckForQuorum q' vs))"

definition ms_Add :: "('id, 'm) MessageSet \<Rightarrow> 'id \<Rightarrow> int \<Rightarrow> int \<Rightarrow> 'm \<Rightarrow> ('id, 'm) MessageSet" where
  "ms_Add q vs shard replicaIdx msg = fst (ms_AddAndCheckForQuorum q vs shard replicaIdx msg)"

definition SetShardRequired :: "('id, 'm) MessageSet \<Rightarrow> 'id \<Rightarrow> u32 \<Rightarrow> ('id, 'm) MessageSet" where
  "SetShardRequired q vs num =
     (let cur = (case ms_messages q vs of None \<Rightarrow> [] | Some (m, _) \<Rightarrow> m)
      in q\<lparr>ms_messages := (ms_messages q)(vs \<mapsto> (cur, num))\<rparr>)"

section \<open>The contract of a vote counter\<close>

locale vote_counter =
  fixes inv :: "'q \<Rightarrow> bool"
    and add :: "'q \<Rightarrow> 'id \<Rightarrow> int \<Rightarrow> 'm \<Rightarrow> 'q"
    and voters :: "'q \<Rightarrow> 'id \<Rightarrow> int set"
    and required :: "'q \<Rightarrow> int"
    and reached :: "'q \<Rightarrow> 'id \<Rightarrow> bool"
  assumes inv_add: "inv q \<Longrightarrow> inv (add q i r m)"
    and voters_add: "inv q \<Longrightarrow> voters (add q i r m) j = (if j = i then insert r (voters q i) else voters q j)"
    and required_add: "required (add q i r m) = required q"
    and reached_iff: "inv q \<Longrightarrow> reached q i \<longleftrightarrow> required q \<le> int (card (voters q i))"
    and voters_finite: "inv q \<Longrightarrow> finite (voters q i)"
begin

definition add_all :: "'q \<Rightarrow> 'id \<Rightarrow> (int \<times> 'm) list \<Rightarrow> 'q" where
  "add_all q i ms = foldl (\<lambda>q (r, m). add q i r m) q ms"

lemma add_all_simps:
  "add_all q i [] = q" "add_all q i ((r, m) # ms) = add_all (add q i r m) i ms"
  by (simp_all add: add_all_def)

lemma inv_add_all: "inv q \<Longrightarrow> inv (add_all q i ms)"
  by (induction ms arbitrary: q) (auto simp: add_all_simps inv_add)

lemma required_add_all: "required (add_all q i ms) = required q"
  by (induction ms arbitrary: q) (auto simp: add_all_simps required_add)

lemma voters_add_all: "inv q \<Longrightarrow> voters (add_all q i ms) i = voters q i \<union> fst ` set ms"
proof (induction ms arbitrary: q)
  case (Cons p ms)
  then show ?case by (cases p) (simp add: add_all_simps inv_add voters_add)
qed (simp add: add_all_simps)

text \<open>Starting with no votes, a quorum is reached exactly when enough distinct replicas have sent a
  message: retransmissions do not count.\<close>

lemma quorum_iff_distinct:
  assumes "inv q" and "voters q i = {}"
  shows "reached (add_all q i ms) i \<longleftrightarrow> required q \<le> int (card (fst ` set ms))"
  using assms by (simp add: reached_iff inv_add_all voters_add_all required_add_all)

lemma reached_stays: "\<lbrakk> inv q; reached q i \<rbrakk> \<Longrightarrow> reached (add q j r m) i"
  using card_insert_le [of "voters q i" r]
  by (auto simp: reached_iff inv_add required_add voters_add)

end

lemma quorum_set_ok_new [simp]: "quorum_set_ok (QuorumSet_new k)" "quorum_set_ok (Clear q)"
  by (simp_all add: quorum_set_ok_def QuorumSet_new_def Clear_def)

lemma quorum_set_ok_add [simp]:
  "quorum_set_ok q \<Longrightarrow> quorum_set_ok (fst (AddAndCheckForQuorum q vs r m))"
  by (simp add: quorum_set_ok_def AddAndCheckForQuorum_def Let_def)

interpretation qset: vote_counter quorum_set_ok QuorumSet_Add
  "\<lambda>q i. fst ` set (GetMessages q i)" numRequired "\<lambda>q i. CheckForQuorum q i \<noteq> None"
  by unfold_locales
    (auto simp: quorum_set_ok_def QuorumSet_Add_def AddAndCheckForQuorum_def Let_def
      GetMessages_def CheckForQuorum_def smap_ok_length)

definition byzantine_ok :: "('id, 'm) ByzantineQuorumSet \<Rightarrow> bool" where
  "byzantine_ok q \<longleftrightarrow> (\<forall>s m. finite (bqs_messages q s m))"

definition byzantine_add :: "('id, 'm) ByzantineQuorumSet \<Rightarrow> 'id \<times> 'm \<Rightarrow> int \<Rightarrow> unit \<Rightarrow> ('id, 'm) ByzantineQuorumSet" where
  "byzantine_add q i r u = fst (bqs_Add q (fst i) r (snd i))"

interpretation bqset: vote_counter byzantine_ok byzantine_add
  "\<lambda>q i. bqs_messages q (fst i) (snd i)" bqs_numRequired "\<lambda>q i. bqs_CheckForQuorum q (fst i) (snd i)"
  by unfold_locales
    (auto simp: byzantine_ok_def byzantine_add_def bqs_Add_def Let_def bqs_CheckForQuorum_def
      prod_eq_iff)

text \<open>The latest message of a replica replaces its earlier one, and only the identifier at hand
  changes.\<close>

lemma AddAndCheckForQuorum_messages:
  "messages (fst (AddAndCheckForQuorum q vs r m)) =
     (messages q)(vs := smap_put r m (messages q vs))"
  by (simp add: AddAndCheckForQuorum_def Let_def)

lemma AddAndCheckForQuorum_Some:
  "snd (AddAndCheckForQuorum q vs r m) = Some ms \<longleftrightarrow>
     ms = smap_put r m (messages q vs) \<and> numRequired q \<le> int (length ms)"
  by (auto simp: AddAndCheckForQuorum_def CheckForQuorum_def Let_def)

lemma quorum_at_card:
  assumes "smap_ok (messages q vs)" and "snd (AddAndCheckForQuorum q vs r m) \<noteq> None"
  shows "numRequired q \<le> int (card (insert r (fst ` set (GetMessages q vs))))"
proof -
  have "numRequired q \<le> int (length (smap_put r m (messages q vs)))"
    using assms(2) by (simp add: AddAndCheckForQuorum_def CheckForQuorum_def Let_def split: if_splits)
  then show ?thesis
    using smap_ok_length [OF smap_ok_put [OF assms(1)], of r m] by (simp add: GetMessages_def)
qed

lemma quorum_add_card:
  assumes "quorum_set_ok q" and "snd (AddAndCheckForQuorum q vs r m) \<noteq> None"
  shows "numRequired q \<le> int (card (insert r (fst ` set (GetMessages q vs))))"
  using assms by (intro quorum_at_card) (simp_all add: quorum_set_ok_def)

text \<open>Feeding a list of messages for one identifier into an empty \<^verbatim>\<open>QuorumSet\<close> reports a
  quorum exactly when the messages come from at least \<^verbatim>\<open>numRequired\<close> distinct replicas, and
  what is reported is, for each of these replicas, the message it sent last.\<close>

theorem QuorumSet_counts_replicas:
  "let q = foldl (\<lambda>q (r, m). QuorumSet_Add q i r m) (QuorumSet_new k) ms
   in (CheckForQuorum q i \<noteq> None \<longleftrightarrow> k \<le> int (card (fst ` set ms))) \<and>
      map_of (GetMessages q i) = map_of (rev ms)"
proof -
  have new: "fst ` set (GetMessages (QuorumSet_new k) i) = {}"
    by (simp add: GetMessages_def QuorumSet_new_def)
  have "map_of (GetMessages (foldl (\<lambda>q (r, m). QuorumSet_Add q i r m) q ms) i) =
        map_of (GetMessages q i) ++ map_of (rev ms)" for q :: "('a, 'b) QuorumSet"
    by (induction ms arbitrary: q)
      (auto simp: GetMessages_def QuorumSet_Add_def AddAndCheckForQuorum_messages map_add_assoc
        map_add_upd_left fun_eq_iff map_add_def split: option.splits)
  then show ?thesis
    using qset.quorum_iff_distinct [OF quorum_set_ok_new(1) new, of ms]
    by (simp add: qset.add_all_def Let_def GetMessages_def QuorumSet_new_def)
qed

text \<open>The shards and replicas a \<^verbatim>\<open>MessageSet\<close> has heard from.\<close>

definition heard_from :: "('id, 'm) MessageSet \<Rightarrow> 'id \<Rightarrow> u32 \<Rightarrow> (int \<times> int) set \<Rightarrow> bool" where
  "heard_from q vs k H \<longleftrightarrow>
     (\<exists>ss. ms_messages q vs = Some (ss, k) \<and> smap_ok ss \<and> fst ` set ss = fst ` H \<and>
           (\<forall>s m. (s, m) \<in> set ss \<longrightarrow> smap_ok m \<and> fst ` set m = {r. (s, r) \<in> H}))"

lemma ms_Add_replicaRequired [simp]: "replicaRequired (ms_Add q vs s r m) = replicaRequired q"
  by (auto simp: ms_Add_def ms_AddAndCheckForQuorum_def Let_def split: option.splits)

lemma heard_from_add:
  assumes "heard_from q vs k H"
  shows "heard_from (ms_Add q vs s r m) vs k (insert (s, r) H)"
proof -
  from assms obtain ss where ss: "ms_messages q vs = Some (ss, k)" "smap_ok ss" "fst ` set ss = fst ` H"
    and inner: "\<forall>s m. (s, m) \<in> set ss \<longrightarrow> smap_ok m \<and> fst ` set m = {r. (s, r) \<in> H}"
    unfolding heard_from_def by (elim exE conjE)
  define old where "old = (case map_of ss s of None \<Rightarrow> [] | Some m \<Rightarrow> m)"
  define ss' where "ss' = smap_put s (smap_put r m old) ss"
  have old: "smap_ok old \<and> fst ` set old = {r. (s, r) \<in> H}"
  proof (cases "map_of ss s")
    case None
    then have "s \<notin> fst ` H" using ss(3) by (simp add: map_of_eq_None_iff)
    then show ?thesis using None by (force simp: old_def)
  next
    case (Some m')
    then show ?thesis using inner [rule_format, OF map_of_SomeD [OF Some]] by (simp add: old_def)
  qed
  have "smap_ok m' \<and> fst ` set m' = {x. (s', x) \<in> insert (s, r) H}"
    if mem: "(s', m') \<in> set ss'" for s' m'
  proof -
    have "map_of ss' s' = Some m'"
      using mem ss(2) unfolding ss'_def by (intro smap_map_of) simp_all
    then have "s' = s \<and> m' = smap_put r m old \<or> s' \<noteq> s \<and> (s', m') \<in> set ss"
      by (auto simp: ss'_def map_of_SomeD split: if_splits)
    then show ?thesis
    proof (elim disjE conjE)
      assume "s' = s" "m' = smap_put r m old"
      moreover have "fst ` set (smap_put r m old) = insert r {x. (s, x) \<in> H}"
        unfolding smap_put_keys using old by simp
      moreover have "insert r {x. (s, x) \<in> H} = {x. (s, x) \<in> insert (s, r) H}" by auto
      ultimately show ?thesis using old by simp
    next
      assume "s' \<noteq> s" "(s', m') \<in> set ss"
      then show ?thesis using inner [rule_format, of s' m'] by simp
    qed
  qed
  moreover have "ms_messages (ms_Add q vs s r m) vs = Some (ss', k)"
    using ss(1) by (simp add: ms_Add_def ms_AddAndCheckForQuorum_def Let_def ss'_def old_def)
  ultimately show ?thesis
    using ss by (auto simp: heard_from_def ss'_def)
qed

lemma heard_from_quorum:
  assumes "heard_from q vs k H"
  shows "ms_CheckForQuorum q vs \<noteq> None \<longleftrightarrow>
         unat k \<le> card (fst ` H) \<and>
         (\<forall>s \<in> fst ` H. unat (replicaRequired q) \<le> card {r. (s, r) \<in> H})"
proof -
  from assms obtain ss where ss: "ms_messages q vs = Some (ss, k)" "smap_ok ss" "fst ` set ss = fst ` H"
    and inner: "\<forall>s m. (s, m) \<in> set ss \<longrightarrow> smap_ok m \<and> fst ` set m = {r. (s, r) \<in> H}"
    unfolding heard_from_def by (elim exE conjE)
  have "length ss = card (fst ` H)" using ss by (simp add: smap_ok_length)
  moreover have "(\<exists>p \<in> set ss. length (snd p) < unat (replicaRequired q)) \<longleftrightarrow>
                 (\<exists>s \<in> fst ` set ss. card {r. (s, r) \<in> H} < unat (replicaRequired q))"
  proof -
    have len: "length (snd p) = card {r. (fst p, r) \<in> H}" if "p \<in> set ss" for p
      using inner [rule_format, of "fst p" "snd p"] that by (simp add: smap_ok_length)
    then show ?thesis by auto
  qed
  moreover have "(\<exists>s \<in> fst ` set ss. card {r. (s, r) \<in> H} < unat (replicaRequired q)) \<longleftrightarrow>
                 \<not> (\<forall>s \<in> fst ` H. unat (replicaRequired q) \<le> card {r. (s, r) \<in> H})"
    unfolding ss(3) by (simp only: not_le bex_simps ball_simps)
  ultimately show ?thesis using ss(1) by (simp only: ms_CheckForQuorum_def option.case prod.case) simp
qed

text \<open>A \<^verbatim>\<open>MessageSet\<close> told to wait for \<open>k\<close> shards and fed a list of answers reports a quorum
  exactly when at least \<open>k\<close> distinct shards have answered and every shard that answered has
  answers of at least \<^verbatim>\<open>replicaRequired\<close> distinct replicas.\<close>

theorem MessageSet_counts_shards:
  "let q = foldl (\<lambda>q (s, r, m). ms_Add q vs s r m) (SetShardRequired (MessageSet_new req) vs k) ms;
       H = (\<lambda>(s, r, m). (s, r)) ` set ms
   in ms_CheckForQuorum q vs \<noteq> None \<longleftrightarrow>
      unat k \<le> card (fst ` H) \<and> (\<forall>s \<in> fst ` H. unat req \<le> card {r. (s, r) \<in> H})"
proof -
  have step: "heard_from q vs k H \<Longrightarrow>
      heard_from (foldl (\<lambda>q (s, r, m). ms_Add q vs s r m) q ms) vs k (H \<union> (\<lambda>(s, r, m). (s, r)) ` set ms) \<and>
      replicaRequired (foldl (\<lambda>q (s, r, m). ms_Add q vs s r m) q ms) = replicaRequired q"
    for q :: "('a, 'b) MessageSet" and H
  proof (induction ms arbitrary: q H)
    case (Cons p ms)
    obtain s r m where p: "p = (s, r, m)" by (cases p)
    show ?case using Cons.IH [OF heard_from_add [OF Cons.prems, of s r m]] by (simp add: p)
  qed simp
  have "heard_from (SetShardRequired (MessageSet_new req) vs k :: ('a, 'b) MessageSet) vs k {}"
    by (simp add: heard_from_def SetShardRequired_def MessageSet_new_def)
  from step [OF this] heard_from_quorum show ?thesis
    unfolding Let_def by (fastforce simp: SetShardRequired_def MessageSet_new_def)
qed

text \<open>The answers of two shards with two replicas each reach a quorum of two shards and two
  replicas.\<close>

theorem MessageSet_counts_shards_witness:
  "ms_CheckForQuorum
     (foldl (\<lambda>q (s, r, m). ms_Add q (0::nat) s r m) (SetShardRequired (MessageSet_new 2) 0 2)
        [(0, 0, ''a''), (1, 0, ''b''), (0, 1, ''a''), (1, 2, ''b'')]) 0 \<noteq> None"
proof -
  let ?H = "{(0, 0), (1, 0), (0, 1), (1, 2)} :: (int \<times> int) set"
  have "fst ` ?H = {0, 1}" "{r. (0, r) \<in> ?H} = {0, 1}" "{r. (1, r) \<in> ?H} = {0, 2}" by auto
  then show ?thesis
    using MessageSet_counts_shards
      [of 0 2 2 "[(0, 0, ''a''), (1, 0, ''b''), (0, 1, ''a''), (1, 2, ''b'')]"]
    by (simp add: Let_def)
qed

end
