(* ===== verification/Viewstamps.thy ===== *)
theory Viewstamps
  imports Prelude "HOL-Library.Product_Lexorder"
begin

text \<open>
  The position of an operation: \<^verbatim>\<open>viewstamp_t\<close> of \<^verbatim>\<open>lib/viewstamp.h\<close>, its three-way
  comparison and the comparison operators built on it, and \<^verbatim>\<open>Timestamp\<close> of
  \<^verbatim>\<open>transaction/common\<close>, the version number of the transactional stores.  Both orders are
  shown to be linear, which is what lets the code use them as keys of ordered containers, and both
  types are instances of the library's \<open>linorder\<close> class through the code's own operators.
\<close>

section \<open>Viewstamps\<close>

datatype viewstamp_t = Viewstamp
  (vs_view: u64) (vs_opnum: u64) (vs_sessnum: u64) (vs_msgnum: u64) (vs_shardnum: u32)

definition viewstamp_default :: viewstamp_t where
  "viewstamp_default = Viewstamp 0 0 0 0 0"

definition viewstamp2 :: "u64 \<Rightarrow> u64 \<Rightarrow> viewstamp_t" where
  "viewstamp2 v i = Viewstamp v i 0 0 0"

definition viewstamp4 :: "u64 \<Rightarrow> u64 \<Rightarrow> u64 \<Rightarrow> u64 \<Rightarrow> viewstamp_t" where
  "viewstamp4 v i sn mn = Viewstamp v i sn mn 0"

definition Viewstamp_Compare :: "viewstamp_t \<Rightarrow> viewstamp_t \<Rightarrow> int" where
  "Viewstamp_Compare a b =
     (if vs_view a < vs_view b then - 1
      else if vs_view a > vs_view b then 1
      else if vs_opnum a < vs_opnum b then - 1
      else if vs_opnum a > vs_opnum b then 1
      else if vs_sessnum a < vs_sessnum b then - 1
      else if vs_sessnum a > vs_sessnum b then 1
      else if vs_msgnum a < vs_msgnum b then - 1
      else if vs_msgnum a > vs_msgnum b then 1
      else if vs_shardnum a < vs_shardnum b then - 1
      else if vs_shardnum a > vs_shardnum b then 1
      else 0)"

definition viewstamp_eq :: "viewstamp_t \<Rightarrow> viewstamp_t \<Rightarrow> bool" where
  "viewstamp_eq a b \<longleftrightarrow> Viewstamp_Compare a b = 0"

definition viewstamp_lt :: "viewstamp_t \<Rightarrow> viewstamp_t \<Rightarrow> bool" where
  "viewstamp_lt a b \<longleftrightarrow> Viewstamp_Compare a b < 0"

definition viewstamp_gt :: "viewstamp_t \<Rightarrow> viewstamp_t \<Rightarrow> bool" where
  "viewstamp_gt a b \<longleftrightarrow> viewstamp_lt b a"

definition viewstamp_le :: "viewstamp_t \<Rightarrow> viewstamp_t \<Rightarrow> bool" where
  "viewstamp_le a b \<longleftrightarrow> \<not> viewstamp_gt a b"

definition viewstamp_ge :: "viewstamp_t \<Rightarrow> viewstamp_t \<Rightarrow> bool" where
  "viewstamp_ge a b \<longleftrightarrow> \<not> viewstamp_lt a b"

section \<open>Timestamps\<close>

datatype Timestamp = Timestamp (ts_timestamp: u64) (ts_id: u64)

definition timestamp_eq :: "Timestamp \<Rightarrow> Timestamp \<Rightarrow> bool" where
  "timestamp_eq a b \<longleftrightarrow> ts_timestamp a = ts_timestamp b \<and> ts_id a = ts_id b"

definition timestamp_gt :: "Timestamp \<Rightarrow> Timestamp \<Rightarrow> bool" where
  "timestamp_gt a b \<longleftrightarrow>
     (if ts_timestamp a = ts_timestamp b then ts_id a > ts_id b else ts_timestamp a > ts_timestamp b)"

definition timestamp_lt :: "Timestamp \<Rightarrow> Timestamp \<Rightarrow> bool" where
  "timestamp_lt a b \<longleftrightarrow>
     (if ts_timestamp a = ts_timestamp b then ts_id a < ts_id b else ts_timestamp a < ts_timestamp b)"

definition timestamp_ge :: "Timestamp \<Rightarrow> Timestamp \<Rightarrow> bool" where
  "timestamp_ge a b \<longleftrightarrow>
     (if ts_timestamp a = ts_timestamp b then ts_id a \<ge> ts_id b else ts_timestamp a \<ge> ts_timestamp b)"

definition timestamp_le :: "Timestamp \<Rightarrow> Timestamp \<Rightarrow> bool" where
  "timestamp_le a b \<longleftrightarrow>
     (if ts_timestamp a = ts_timestamp b then ts_id a \<le> ts_id b else ts_timestamp a \<le> ts_timestamp b)"

definition timestamp_isValid :: "Timestamp \<Rightarrow> bool" where
  "timestamp_isValid t \<longleftrightarrow> ts_timestamp t > 0 \<and> ts_id t > 0"

section \<open>Both orders are linear\<close>

lemmas viewstamp_defs =
  Viewstamp_Compare_def viewstamp_eq_def viewstamp_lt_def viewstamp_gt_def
  viewstamp_le_def viewstamp_ge_def

text \<open>The order is the lexicographic order of the five fields.\<close>

definition viewstamp_key :: "viewstamp_t \<Rightarrow> u64 \<times> u64 \<times> u64 \<times> u64 \<times> u32" where
  "viewstamp_key a = (vs_view a, vs_opnum a, vs_sessnum a, vs_msgnum a, vs_shardnum a)"

lemma viewstamp_key_inject: "viewstamp_key a = viewstamp_key b \<longleftrightarrow> a = b"
  by (auto simp: viewstamp_key_def intro: viewstamp_t.expand)

lemma three_way:
  fixes x y :: "'a::linorder" and r :: int
  shows "(if x < y then - 1 else if y < x then 1 else r) < 0 \<longleftrightarrow> x < y \<or> x = y \<and> r < 0"
    and "(if x < y then - 1 else if y < x then 1 else r) = 0 \<longleftrightarrow> x = y \<and> r = 0"
    and "r' = - r \<Longrightarrow> (if y < x then - 1 else if x < y then 1 else r') =
         - (if x < y then - 1 else if y < x then 1 else r)"
  by auto

lemma viewstamp_lt_iff: "viewstamp_lt a b \<longleftrightarrow> viewstamp_key a < viewstamp_key b"
  unfolding viewstamp_lt_def Viewstamp_Compare_def three_way viewstamp_key_def less_prod_simp
  by auto

lemma viewstamp_eq_iff: "viewstamp_eq a b \<longleftrightarrow> a = b"
  unfolding viewstamp_eq_def Viewstamp_Compare_def three_way
  by (auto intro: viewstamp_t.expand)

instantiation viewstamp_t :: linorder
begin

definition less_eq_viewstamp_t :: "viewstamp_t \<Rightarrow> viewstamp_t \<Rightarrow> bool" where
  "less_eq_viewstamp_t = viewstamp_le"

definition less_viewstamp_t :: "viewstamp_t \<Rightarrow> viewstamp_t \<Rightarrow> bool" where
  "less_viewstamp_t = viewstamp_lt"

instance
  by standard
    (auto simp: less_eq_viewstamp_t_def less_viewstamp_t_def viewstamp_le_def viewstamp_gt_def
      viewstamp_lt_iff viewstamp_key_inject not_less simp flip: viewstamp_key_inject)

end

instantiation Timestamp :: linorder
begin

definition less_eq_Timestamp :: "Timestamp \<Rightarrow> Timestamp \<Rightarrow> bool" where
  "less_eq_Timestamp = timestamp_le"

definition less_Timestamp :: "Timestamp \<Rightarrow> Timestamp \<Rightarrow> bool" where
  "less_Timestamp = timestamp_lt"

instance
  by standard
    (auto simp: less_eq_Timestamp_def less_Timestamp_def timestamp_le_def timestamp_lt_def
      intro: Timestamp.expand split: if_splits)

end

text \<open>The operators the class does not name are the class's own.\<close>

lemma viewstamp_ops_order:
  "viewstamp_gt a b \<longleftrightarrow> b < a" "viewstamp_ge a b \<longleftrightarrow> b \<le> a"
  "viewstamp_lt a b \<longleftrightarrow> a < b" "viewstamp_le a b \<longleftrightarrow> a \<le> b"
  by (simp_all add: viewstamp_gt_def viewstamp_ge_def less_viewstamp_t_def viewstamp_le_def
      less_eq_viewstamp_t_def)

text \<open>\<^verbatim>\<open>Viewstamp_Compare\<close> is a linear order: it returns zero exactly for equal
  viewstamps, swapping its arguments negates it, it is transitive, and the five operators
  derived from it are the corresponding relations of that order.\<close>

theorem Viewstamp_Compare_linear:
  "(Viewstamp_Compare a b = 0 \<longleftrightarrow> a = b) \<and>
   Viewstamp_Compare b a = - Viewstamp_Compare a b \<and>
   (Viewstamp_Compare a b < 0 \<longrightarrow> Viewstamp_Compare b c < 0 \<longrightarrow> Viewstamp_Compare a c < 0) \<and>
   (viewstamp_le a b \<longleftrightarrow> viewstamp_lt a b \<or> viewstamp_eq a b) \<and>
   (viewstamp_ge a b \<longleftrightarrow> viewstamp_gt a b \<or> viewstamp_eq a b)"
proof (intro conjI)
  show "Viewstamp_Compare a b = 0 \<longleftrightarrow> a = b"
    using viewstamp_eq_iff by (simp add: viewstamp_eq_def)
  show "Viewstamp_Compare b a = - Viewstamp_Compare a b"
    unfolding Viewstamp_Compare_def by (intro three_way(3)) simp
  show "Viewstamp_Compare a b < 0 \<longrightarrow> Viewstamp_Compare b c < 0 \<longrightarrow> Viewstamp_Compare a c < 0"
    unfolding viewstamp_lt_def [symmetric] viewstamp_ops_order by auto
  show "viewstamp_le a b \<longleftrightarrow> viewstamp_lt a b \<or> viewstamp_eq a b"
    unfolding viewstamp_ops_order viewstamp_eq_iff by auto
  show "viewstamp_ge a b \<longleftrightarrow> viewstamp_gt a b \<or> viewstamp_eq a b"
    unfolding viewstamp_ops_order viewstamp_eq_iff by auto
qed

text \<open>The hypotheses of the transitivity clause hold at three viewstamps that differ in their
  view, operation and message numbers.\<close>

theorem Viewstamp_Compare_linear_witness:
  "Viewstamp_Compare (viewstamp2 1 5) (viewstamp2 2 1) < 0 \<and>
   Viewstamp_Compare (viewstamp2 2 1) (viewstamp4 2 1 0 7) < 0 \<and>
   Viewstamp_Compare (viewstamp2 1 5) (viewstamp4 2 1 0 7) < 0"
proof -
  have "Viewstamp_Compare (viewstamp2 1 5) (viewstamp2 2 1) < 0"
    and "Viewstamp_Compare (viewstamp2 2 1) (viewstamp4 2 1 0 7) < 0"
    by (simp_all add: Viewstamp_Compare_def viewstamp2_def viewstamp4_def)
  then show ?thesis
    using Viewstamp_Compare_linear [of "viewstamp2 1 5" "viewstamp2 2 1" "viewstamp4 2 1 0 7"] by simp
qed

lemma timestamp_ops_order:
  "timestamp_gt a b \<longleftrightarrow> b < a" "timestamp_ge a b \<longleftrightarrow> b \<le> a"
  "timestamp_lt a b \<longleftrightarrow> a < b" "timestamp_le a b \<longleftrightarrow> a \<le> b" "timestamp_eq a b \<longleftrightarrow> a = b"
  by (auto simp: timestamp_gt_def timestamp_ge_def less_Timestamp_def timestamp_lt_def
      less_eq_Timestamp_def timestamp_le_def timestamp_eq_def intro: Timestamp.expand)

end
