(* ===== verification/ReplicaLog.thy ===== *)
theory ReplicaLog
  imports Viewstamps
begin

text \<open>
  The replicated log of \<^verbatim>\<open>common/log.h\<close>, \<^verbatim>\<open>common/log-impl.h\<close> and \<^verbatim>\<open>common/log.cc\<close>: a vector of
  entries whose operation numbers are consecutive from \<^verbatim>\<open>start\<close>.  Every operation of
  \<^verbatim>\<open>class Log\<close> is a definition; the assertions inside them are \<open>AssertFailed\<close> results and the
  index arithmetic is 64-bit arithmetic.  \<open>log_wf\<close> is the representation invariant;
  under it the log is an initial segment of operation numbers (\<open>log_at\<close>), which is the
  contract \<open>op_log\<close> its clients rely on.  SHA-1 is OpenSSL's and is a parameter.  The entry's
  \<^verbatim>\<open>replyMessage\<close> and \<^verbatim>\<open>prevClientReqOpnum\<close>, which the log never reads, are left out.
\<close>

section \<open>Data\<close>

record ShardOp =
  so_shard :: u32
  so_op :: string
  so_msgnum :: u64

record Request =
  req_op :: string
  req_clientid :: u64
  req_clientreqid :: u64
  req_ops :: "ShardOp list"
  req_clientaddr :: string

definition empty_Request :: Request where
  "empty_Request = \<lparr>req_op = '''', req_clientid = 0, req_clientreqid = 0, req_ops = [],
     req_clientaddr = ''''\<rparr>"

datatype LogEntryState =
    LOG_STATE_COMMITTED
  | LOG_STATE_PREPARED
  | LOG_STATE_SPECULATIVE
  | LOG_STATE_FASTPREPARED
  | LOG_STATE_RECEIVED
  | LOG_STATE_NOOP
  | LOG_STATE_EXECUTED
  | LOG_STATE_PREPREPARED
  | LOG_STATE_EMPTY

definition EMPTY_HASH :: string where
  "EMPTY_HASH = replicate 20 (CHR 0x00)"

record LogEntry =
  le_viewstamp :: viewstamp_t
  le_state :: LogEntryState
  le_request :: Request
  le_hash :: string

definition LogEntry_new :: "viewstamp_t \<Rightarrow> LogEntryState \<Rightarrow> Request \<Rightarrow> LogEntry" where
  "LogEntry_new vs st req = \<lparr>le_viewstamp = vs, le_state = st, le_request = req, le_hash = EMPTY_HASH\<rparr>"

text \<open>The form in which entries travel in messages.\<close>

record MsgLogEntry =
  me_view :: u64
  me_opnum :: u64
  me_sessnum :: u64
  me_msgnum :: u64
  me_shardnum :: u32
  me_request :: Request
  me_state :: LogEntryState
  me_hash :: string

record Log =
  entries :: "LogEntry list"
  initialHash :: string
  start :: u64
  useHash :: bool

section \<open>Operations\<close>

definition Log_new :: "bool \<Rightarrow> u64 \<Rightarrow> string \<Rightarrow> Log result" where
  "Log_new h st ih =
     check (st = 1 \<longrightarrow> ih = EMPTY_HASH) AssertFailed
       (Inr \<lparr>entries = [], initialHash = ih, start = st, useHash = h\<rparr>)"

definition LastViewstamp :: "Log \<Rightarrow> viewstamp_t" where
  "LastViewstamp l =
     (if entries l = [] then viewstamp2 0 (start l - 1) else le_viewstamp (last (entries l)))"

definition LastOpnum :: "Log \<Rightarrow> u64" where
  "LastOpnum l = (if entries l = [] then start l - 1 else vs_opnum (le_viewstamp (last (entries l))))"

definition FirstOpnum :: "Log \<Rightarrow> u64" where
  "FirstOpnum l = start l"

definition Log_Empty :: "Log \<Rightarrow> bool" where
  "Log_Empty l \<longleftrightarrow> entries l = []"

definition Log_Last :: "Log \<Rightarrow> LogEntry option" where
  "Log_Last l = (if entries l = [] then None else Some (last (entries l)))"

definition LastHash :: "Log \<Rightarrow> string" where
  "LastHash l = (if entries l = [] then initialHash l else le_hash (last (entries l)))"

text \<open>The eight bytes of a 64-bit integer in memory, least significant first.\<close>

definition u64_bytes :: "u64 \<Rightarrow> string" where
  "u64_bytes x = map (\<lambda>i. char_of (unat (drop_bit (8 * i) x) mod 256)) [0..<8]"

definition ComputeHash :: "(string \<Rightarrow> string) \<Rightarrow> string \<Rightarrow> LogEntry \<Rightarrow> string" where
  "ComputeHash sha1 lastHash e =
     sha1 (lastHash @ u64_bytes (req_clientid (le_request e)) @ u64_bytes (req_clientreqid (le_request e)))"

definition Append :: "(string \<Rightarrow> string) \<Rightarrow> Log \<Rightarrow> LogEntry \<Rightarrow> Log result" where
  "Append sha1 l e =
     check (if entries l = [] then vs_opnum (le_viewstamp e) = start l
            else vs_opnum (le_viewstamp e) = LastOpnum l + 1) AssertFailed
       (let prevHash = LastHash l;
            e' = (if useHash l then e\<lparr>le_hash := ComputeHash sha1 prevHash e\<rparr> else e)
        in Inr (l\<lparr>entries := entries l @ [e']\<rparr>))"

definition Find :: "Log \<Rightarrow> u64 \<Rightarrow> LogEntry option result" where
  "Find l op =
     (if entries l = [] then Inr None
      else if op < start l then Inr None
      else if unat (op - start l) > length (entries l) - 1 then Inr None
      else let e = entries l ! unat (op - start l)
           in check (vs_opnum (le_viewstamp e) = op) AssertFailed (Inr (Some e)))"

definition SetStatus :: "Log \<Rightarrow> u64 \<Rightarrow> LogEntryState \<Rightarrow> (Log \<times> bool) result" where
  "SetStatus l op st =
     rbind (Find l op) (\<lambda>r. case r of
        None \<Rightarrow> Inr (l, False)
      | Some e \<Rightarrow> Inr (l\<lparr>entries := (entries l)[unat (op - start l) := e\<lparr>le_state := st\<rparr>]\<rparr>, True))"

definition SetRequest :: "Log \<Rightarrow> u64 \<Rightarrow> Request \<Rightarrow> (Log \<times> bool) result" where
  "SetRequest l op req =
     check (\<not> useHash l) Panicked
       (rbind (Find l op) (\<lambda>r. case r of
          None \<Rightarrow> Inr (l, False)
        | Some e \<Rightarrow> Inr (l\<lparr>entries := (entries l)[unat (op - start l) := e\<lparr>le_request := req\<rparr>]\<rparr>, True)))"

text \<open>Despite its name, \<^verbatim>\<open>RemoveAfter(op)\<close> removes the entry \<open>op\<close> itself too.\<close>

definition RemoveAfter :: "Log \<Rightarrow> u64 \<Rightarrow> Log result" where
  "RemoveAfter l op =
     (if op > LastOpnum l then Inr l
      else check (unat (op - start l) < length (entries l)) AssertFailed
        (let l' = l\<lparr>entries := take (unat (op - start l)) (entries l)\<rparr>
         in check (LastOpnum l' = op - 1) AssertFailed (Inr l')))"

definition dump_entry :: "LogEntry \<Rightarrow> MsgLogEntry" where
  "dump_entry e =
     \<lparr>me_view = vs_view (le_viewstamp e), me_opnum = vs_opnum (le_viewstamp e),
      me_sessnum = vs_sessnum (le_viewstamp e), me_msgnum = vs_msgnum (le_viewstamp e),
      me_shardnum = vs_shardnum (le_viewstamp e), me_request = le_request e,
      me_state = le_state e, me_hash = le_hash e\<rparr>"

definition Dump :: "Log \<Rightarrow> u64 \<Rightarrow> u64 \<Rightarrow> MsgLogEntry list result" where
  "Dump l from to =
     check (to \<le> LastOpnum l + 1) AssertFailed
       (map_r (\<lambda>i. rbind (Find l i) (\<lambda>r. case r of
                     None \<Rightarrow> Inl AssertFailed | Some e \<Rightarrow> Inr (dump_entry e)))
          (op_range (max from (start l)) to))"

definition Dump_from :: "Log \<Rightarrow> u64 \<Rightarrow> MsgLogEntry list result" where
  "Dump_from l from = Dump l from (LastOpnum l + 1)"

text \<open>The first loop of \<^verbatim>\<open>Install\<close>: the entries from the first divergence on, and the log cut
  there.\<close>

primrec install_scan :: "Log \<Rightarrow> MsgLogEntry list \<Rightarrow> (Log \<times> MsgLogEntry list) result" where
  "install_scan l [] = Inr (l, [])"
| "install_scan l (m # ms) =
     rbind (Find l (me_opnum m)) (\<lambda>r. case r of
        None \<Rightarrow> Inr (l, m # ms)
      | Some e \<Rightarrow>
          if me_view m \<noteq> vs_view (le_viewstamp e)
          then rbind (RemoveAfter l (me_opnum m)) (\<lambda>l'. Inr (l', m # ms))
          else install_scan l ms)"

definition installed_entry :: "MsgLogEntry \<Rightarrow> LogEntry" where
  "installed_entry m =
     LogEntry_new (viewstamp2 (me_view m) (me_opnum m)) LOG_STATE_PREPARED (me_request m)"

definition Install :: "(string \<Rightarrow> string) \<Rightarrow> Log \<Rightarrow> MsgLogEntry list \<Rightarrow> Log result" where
  "Install sha1 l ms =
     rbind (install_scan l ms) (\<lambda>(l', rest).
       fold_r (\<lambda>l m. Append sha1 l (installed_entry m)) l' rest)"

section \<open>The representation invariant\<close>

definition log_wf :: "Log \<Rightarrow> bool" where
  "log_wf l \<longleftrightarrow>
     1 \<le> start l \<and> unat (start l) + length (entries l) \<le> 2 ^ 64 \<and>
     (\<forall>i<length (entries l). vs_opnum (le_viewstamp (entries l ! i)) = start l + word_of_nat i)"

definition log_at :: "Log \<Rightarrow> u64 \<Rightarrow> LogEntry option" where
  "log_at l op =
     (if start l \<le> op \<and> unat op - unat (start l) < length (entries l)
      then Some (entries l ! (unat op - unat (start l))) else None)"

lemma log_wf_new: "1 \<le> st \<Longrightarrow> Log_new h st ih = Inr l \<Longrightarrow> log_wf l"
  using unat_u64_bound [of st] by (auto simp: Log_new_def log_wf_def)

lemma u64_ge_1: "(1 :: u64) \<le> x \<longleftrightarrow> 1 \<le> unat x"
  by (simp add: word_le_nat_alt)

lemma unat_sub_1: "1 \<le> unat (x :: u64) \<Longrightarrow> unat (x - 1) = unat x - 1"
  by (simp add: unat_sub word_le_nat_alt)

lemma unat_LastOpnum:
  assumes "log_wf l"
  shows "unat (LastOpnum l) = unat (start l) + length (entries l) - 1"
proof (cases "entries l = []")
  case True
  with assms show ?thesis by (simp add: LastOpnum_def log_wf_def u64_ge_1 unat_sub_1)
next
  case False
  then have len: "length (entries l) - 1 < length (entries l)" by simp
  have "LastOpnum l = start l + word_of_nat (length (entries l) - 1)"
    using assms False len by (simp add: LastOpnum_def log_wf_def last_conv_nth)
  moreover have "unat (start l + word_of_nat (length (entries l) - 1)) =
      unat (start l) + (length (entries l) - 1)"
    using assms len by (intro unat_add_of_nat) (auto simp: log_wf_def)
  ultimately show ?thesis using False by (simp add: Suc_leI)
qed

lemma log_at_dom:
  assumes "log_wf l"
  shows "log_at l op \<noteq> None \<longleftrightarrow> start l \<le> op \<and> op \<le> LastOpnum l"
proof -
  have "1 \<le> unat (start l)" using assms by (simp add: log_wf_def u64_ge_1)
  then show ?thesis
    using unat_LastOpnum [OF assms] by (auto simp: log_at_def word_le_nat_alt)
qed

lemma log_at_opnum:
  assumes "log_wf l" and "log_at l op = Some e"
  shows "vs_opnum (le_viewstamp e) = op"
proof -
  from assms(2) have le: "start l \<le> op" and i: "unat op - unat (start l) < length (entries l)"
    and e: "e = entries l ! (unat op - unat (start l))" by (auto simp: log_at_def split: if_splits)
  have "vs_opnum (le_viewstamp e) = start l + word_of_nat (unat op - unat (start l))"
    using assms(1) i e by (simp add: log_wf_def)
  also have "\<dots> = op"
    using le by (simp add: word_le_nat_alt of_nat_diff)
  finally show ?thesis .
qed

lemma Find_eq:
  assumes "log_wf l"
  shows "Find l op = Inr (log_at l op)"
proof (cases "start l \<le> op")
  case True
  then have u: "unat (op - start l) = unat op - unat (start l)" by (simp add: unat_sub)
  show ?thesis
  proof (cases "log_at l op")
    case None
    then have "length (entries l) \<le> unat op - unat (start l)"
      using True by (simp add: log_at_def split: if_splits)
    then have "entries l = [] \<or> length (entries l) - 1 < unat (op - start l)"
      using u by (cases "entries l") auto
    then show ?thesis using None True by (auto simp: Find_def)
  next
    case (Some e)
    with True u log_at_opnum [OF assms Some] show ?thesis
      by (auto simp: Find_def log_at_def Let_def split: if_splits)
  qed
next
  case False
  then show ?thesis by (auto simp: Find_def log_at_def)
qed

section \<open>The contract of a log\<close>

text \<open>
  A log is a partial map from an interval of operation numbers that grows at its end and is cut
  from its end.
\<close>

locale op_log =
  fixes inv :: "'l \<Rightarrow> bool"
    and lookup :: "'l \<Rightarrow> u64 \<Rightarrow> 'e option"
    and first_op last_op :: "'l \<Rightarrow> u64"
    and append_op :: "'l \<Rightarrow> 'e \<Rightarrow> 'l result"
    and cut :: "'l \<Rightarrow> u64 \<Rightarrow> 'l result"
  assumes dom: "inv l \<Longrightarrow> lookup l i \<noteq> None \<longleftrightarrow> first_op l \<le> i \<and> i \<le> last_op l"
    and first_append: "append_op l e = Inr l' \<Longrightarrow> first_op l' = first_op l"
    and append_inv: "\<lbrakk> inv l; last_op l \<noteq> - 1; append_op l e = Inr l' \<rbrakk> \<Longrightarrow>
        inv l' \<and> last_op l' = last_op l + 1 \<and> (\<forall>i. i \<le> last_op l \<longrightarrow> lookup l' i = lookup l i)"
    and cut_inv: "\<lbrakk> inv l; cut l i = Inr l' \<rbrakk> \<Longrightarrow>
        inv l' \<and> first_op l' = first_op l \<and> last_op l' = (if last_op l < i then last_op l else i - 1) \<and>
        (\<forall>j. lookup l' j = (if j < i then lookup l j else None))"
begin

lemma append_all:
  assumes "inv l" and "fold_r append_op l es = Inr l'" and "unat (last_op l) + length es < 2 ^ 64"
  shows "inv l' \<and> last_op l' = last_op l + word_of_nat (length es) \<and> first_op l' = first_op l \<and>
         (\<forall>i. i \<le> last_op l \<longrightarrow> lookup l' i = lookup l i)"
  using assms
proof (induction es arbitrary: l)
  case (Cons e es)
  from Cons.prems(2) obtain m where m: "append_op l e = Inr m" and rest: "fold_r append_op m es = Inr l'"
    by auto
  have "last_op l \<noteq> - 1" using Cons.prems(3) unfolding u64_not_max by simp
  with m Cons.prems(1) have step: "inv m" "last_op m = last_op l + 1" "first_op m = first_op l"
    "\<forall>i. i \<le> last_op l \<longrightarrow> lookup m i = lookup l i"
    using append_inv first_append by blast+
  have unat: "unat (last_op m) = unat (last_op l) + 1"
    using Cons.prems(3) step(2) unat_add_of_nat [of "last_op l" 1] by simp
  then have IH: "inv l' \<and> last_op l' = last_op m + word_of_nat (length es) \<and>
      first_op l' = first_op m \<and> (\<forall>i. i \<le> last_op m \<longrightarrow> lookup l' i = lookup m i)"
    using Cons.prems(3) by (intro Cons.IH [OF step(1) rest]) simp
  have "last_op l \<le> last_op m" using unat by (simp add: word_le_nat_alt)
  then show ?case using IH step by (auto simp: add.assoc)
qed simp

end

lemma last_entries_take:
  "\<lbrakk> k \<le> length xs; 0 < k \<rbrakk> \<Longrightarrow> last (take k xs) = xs ! (k - 1)"
  by (subst last_conv_nth) (auto simp: min_def)

lemma Append_Inr:
  assumes "Append sha1 l e = Inr l'"
  shows "\<exists>e'. l' = l\<lparr>entries := entries l @ [e']\<rparr> \<and> le_viewstamp e' = le_viewstamp e \<and>
           le_state e' = le_state e \<and> le_request e' = le_request e \<and> (\<not> useHash l \<longrightarrow> e' = e) \<and>
           (useHash l \<longrightarrow> le_hash e' = ComputeHash sha1 (LastHash l) e)"
  using assms by (auto simp: Append_def Let_def split: if_splits)

lemma Append_wf:
  assumes wf: "log_wf l" and room: "LastOpnum l \<noteq> - 1" and app: "Append sha1 l e = Inr l'"
  shows "log_wf l'" "LastOpnum l' = LastOpnum l + 1" "vs_opnum (le_viewstamp e) = LastOpnum l + 1"
proof -
  obtain e' where l': "l' = l\<lparr>entries := entries l @ [e']\<rparr>" and e': "le_viewstamp e' = le_viewstamp e"
    using Append_Inr [OF app] by auto
  show opn: "vs_opnum (le_viewstamp e) = LastOpnum l + 1"
    using app by (auto simp: Append_def LastOpnum_def split: if_splits)
  then show "LastOpnum l' = LastOpnum l + 1"
    by (simp add: l' LastOpnum_def [of "l\<lparr>entries := _\<rparr>"] e')
  have bound: "unat (start l) + length (entries l) < 2 ^ 64"
    using unat_LastOpnum [OF wf] room unfolding u64_not_max by simp
  have "LastOpnum l + 1 = start l + word_of_nat (length (entries l))"
  proof -
    have "unat (start l) + length (entries l) = unat (LastOpnum l) + 1"
      using unat_LastOpnum [OF wf] wf by (simp add: log_wf_def u64_ge_1)
    then have "(word_of_nat (unat (start l) + length (entries l)) :: u64) = word_of_nat (unat (LastOpnum l) + 1)"
      by (rule arg_cong)
    then show ?thesis by simp
  qed
  then show "log_wf l'"
    using wf bound opn e' by (auto simp: log_wf_def l' nth_append less_Suc_eq)
qed

lemma log_at_append:
  assumes "log_wf l" and "LastOpnum l \<noteq> - 1" and "Append sha1 l e = Inr l'"
  shows "log_at l' i = (if i = LastOpnum l + 1 then Some (last (entries l')) else log_at l i)"
proof -
  obtain e' where l': "l' = l\<lparr>entries := entries l @ [e']\<rparr>"
    using Append_Inr [OF assms(3)] by auto
  have next_op: "unat (LastOpnum l + 1) = unat (start l) + length (entries l)"
    using unat_LastOpnum [OF assms(1)] assms(1,2) unat_add_of_nat [of "LastOpnum l" 1]
    unfolding u64_not_max by (auto simp: log_wf_def u64_ge_1)
  have "i = LastOpnum l + 1 \<longleftrightarrow> unat i = unat (start l) + length (entries l)"
    unfolding next_op [symmetric] by (metis u64_eqI)
  then show ?thesis
    by (auto simp: log_at_def l' nth_append word_le_nat_alt not_less le_Suc_eq less_Suc_eq)
qed

lemma Append_fields:
  assumes "Append sha1 l e = Inr l'"
  shows "start l' = start l" "useHash l' = useHash l" "initialHash l' = initialHash l"
  using Append_Inr [OF assms] by auto

lemma RemoveAfter_fields:
  assumes "RemoveAfter l op = Inr l'"
  shows "start l' = start l" "useHash l' = useHash l" "initialHash l' = initialHash l"
  using assms by (auto simp: RemoveAfter_def Let_def split: if_splits)

lemma RemoveAfter_keep: "LastOpnum l < op \<Longrightarrow> RemoveAfter l op = Inr l"
  by (simp add: RemoveAfter_def)

text \<open>Cutting below the first entry aborts: the subtraction wraps around.\<close>

lemma RemoveAfter_below_start:
  assumes "log_wf l" and "op < start l" and "op \<le> LastOpnum l"
  shows "RemoveAfter l op = Inl AssertFailed"
proof -
  have "unat (op - start l) = 2 ^ 64 - (unat (start l) - unat op)"
    using assms(2) by (simp add: unat_sub_if' word_less_nat_alt)
  moreover have "unat (start l) + length (entries l) \<le> 2 ^ 64"
    using assms(1) by (simp add: log_wf_def)
  ultimately have "\<not> unat (op - start l) < length (entries l)" by simp
  then show ?thesis using assms(3) by (simp add: RemoveAfter_def)
qed

lemma RemoveAfter_cut:
  assumes wf: "log_wf l" and "start l \<le> op" and "op \<le> LastOpnum l"
  shows "RemoveAfter l op = Inr (l\<lparr>entries := take (unat op - unat (start l)) (entries l)\<rparr>)"
proof -
  have u: "unat (op - start l) = unat op - unat (start l)" using assms(2) by (simp add: unat_sub)
  have pos: "1 \<le> unat (start l)" using wf by (simp add: log_wf_def u64_ge_1)
  have lt: "unat op - unat (start l) < length (entries l)"
    using assms(3) unat_LastOpnum [OF wf] pos assms(2) by (simp add: word_le_nat_alt)
  let ?k = "unat op - unat (start l)"
  have last: "LastOpnum (l\<lparr>entries := take ?k (entries l)\<rparr>) = op - 1"
  proof (cases "?k = 0")
    case True
    then have "unat op = unat (start l)" using assms(2) by (simp add: word_le_nat_alt)
    then have "op = start l" by (rule u64_eqI)
    then show ?thesis by (simp add: LastOpnum_def)
  next
    case False
    then have "last (take ?k (entries l)) = entries l ! (?k - 1)"
      using lt by (intro last_entries_take) simp_all
    moreover have "vs_opnum (le_viewstamp (entries l ! (?k - 1))) = start l + word_of_nat (?k - 1)"
      using wf lt by (simp add: log_wf_def)
    moreover have "start l + word_of_nat (?k - 1) = op - 1"
      using False assms(2) by (simp add: of_nat_diff word_le_nat_alt)
    ultimately show ?thesis using False lt by (auto simp: LastOpnum_def)
  qed
  show ?thesis using assms(3) lt last u by (simp add: RemoveAfter_def)
qed

lemma RemoveAfter_wf:
  assumes wf: "log_wf l" and rem: "RemoveAfter l op = Inr l'"
  shows "log_wf l' \<and> start l' = start l \<and>
         LastOpnum l' = (if LastOpnum l < op then LastOpnum l else op - 1) \<and>
         (\<forall>j. log_at l' j = (if j < op then log_at l j else None))"
proof (cases "LastOpnum l < op")
  case True
  then have "l' = l" using rem by (simp add: RemoveAfter_keep)
  moreover have "log_at l j = None" if "\<not> j < op" for j
    using log_at_dom [OF wf, of j] True that by (meson leD le_less_trans not_le)
  ultimately show ?thesis using True wf by auto
next
  case False
  then have le: "op \<le> LastOpnum l" by simp
  have st: "start l \<le> op"
    using RemoveAfter_below_start [OF wf _ le] rem by (cases "op < start l") auto
  have l': "l' = l\<lparr>entries := take (unat op - unat (start l)) (entries l)\<rparr>"
    using RemoveAfter_cut [OF wf st le] rem by simp
  have "LastOpnum l' = op - 1"
    using rem False by (auto simp: RemoveAfter_def Let_def)
  moreover have "log_wf l'" using wf by (auto simp: l' log_wf_def min_def)
  moreover have "log_at l' j = (if j < op then log_at l j else None)" for j
    using st by (auto simp: l' log_at_def word_le_nat_alt word_less_nat_alt)
  ultimately show ?thesis using False l' by simp
qed

interpretation code_log: op_log log_wf log_at start LastOpnum "Append sha1" RemoveAfter
  for sha1 :: "string \<Rightarrow> string"
proof
  fix l :: Log and i
  assume "log_wf l"
  then show "log_at l i \<noteq> None \<longleftrightarrow> start l \<le> i \<and> i \<le> LastOpnum l" by (rule log_at_dom)
next
  fix l l' :: Log and e
  assume "Append sha1 l e = Inr l'"
  then show "start l' = start l" by (rule Append_fields)
next
  fix l l' :: Log and e
  assume *: "log_wf l" "LastOpnum l \<noteq> - 1" "Append sha1 l e = Inr l'"
  have "i \<noteq> LastOpnum l + 1" if "i \<le> LastOpnum l" for i
    using that *(2) unat_add_of_nat [of "LastOpnum l" 1]
    unfolding u64_not_max by (auto simp: word_le_nat_alt)
  then show "log_wf l' \<and> LastOpnum l' = LastOpnum l + 1 \<and>
      (\<forall>i. i \<le> LastOpnum l \<longrightarrow> log_at l' i = log_at l i)"
    using Append_wf [OF *] log_at_append [OF *] by auto
next
  fix l l' :: Log and i
  assume "log_wf l" "RemoveAfter l i = Inr l'"
  then show "log_wf l' \<and> start l' = start l \<and>
      LastOpnum l' = (if LastOpnum l < i then LastOpnum l else i - 1) \<and>
      (\<forall>j. log_at l' j = (if j < i then log_at l j else None))"
    by (rule RemoveAfter_wf)
qed

section \<open>Status changes, dumps and installation\<close>

lemma log_at_update:
  assumes "start l \<le> op" "unat op - unat (start l) < length (entries l)"
  shows "log_at (l\<lparr>entries := (entries l)[unat op - unat (start l) := e]\<rparr>) i =
         (if i = op then Some e else log_at l i)"
proof -
  have "unat i - unat (start l) = unat op - unat (start l) \<longleftrightarrow> i = op" if "start l \<le> i"
    using that assms(1) u64_eqI [of i op] by (auto simp: word_le_nat_alt)
  then show ?thesis using assms by (auto simp: log_at_def nth_list_update)
qed

lemma SetStatus_eq:
  assumes "log_wf l"
  shows "SetStatus l op st =
         (case log_at l op of
            None \<Rightarrow> Inr (l, False)
          | Some e \<Rightarrow> Inr (l\<lparr>entries := (entries l)[unat op - unat (start l) := e\<lparr>le_state := st\<rparr>]\<rparr>, True))"
  by (auto simp: SetStatus_def Find_eq [OF assms] unat_sub log_at_def split: option.splits if_splits)

lemma SetStatus_wf:
  assumes wf: "log_wf l" and set: "SetStatus l op st = Inr (l', b)"
  shows "log_wf l' \<and> start l' = start l \<and> LastOpnum l' = LastOpnum l \<and> length (entries l') = length (entries l) \<and>
         useHash l' = useHash l \<and> b = (log_at l op \<noteq> None) \<and>
         (\<forall>i. log_at l' i = (if i = op then map_option (\<lambda>e. e\<lparr>le_state := st\<rparr>) (log_at l op) else log_at l i))"
proof (cases "log_at l op")
  case None
  with set wf show ?thesis by (simp add: SetStatus_eq)
next
  case (Some e)
  let ?k = "unat op - unat (start l)"
  have k: "start l \<le> op" "?k < length (entries l)" "e = entries l ! ?k"
    using Some by (auto simp: log_at_def split: if_splits)
  have l': "l' = l\<lparr>entries := (entries l)[?k := e\<lparr>le_state := st\<rparr>]\<rparr>" "b = True"
    using set Some wf by (simp_all add: SetStatus_eq)
  have wf': "log_wf l'" using wf k by (auto simp: l' log_wf_def nth_list_update)
  moreover have "LastOpnum l' = LastOpnum l"
  proof -
    have "unat (LastOpnum l') = unat (LastOpnum l)"
      using unat_LastOpnum [OF wf'] unat_LastOpnum [OF wf] by (simp add: l')
    then show ?thesis by (rule u64_eqI)
  qed
  ultimately show ?thesis using k(1,2) Some by (simp add: l' log_at_update)
qed

text \<open>Message entries with consecutive operation numbers from \<open>k\<close> on.\<close>

definition consecutive :: "u64 \<Rightarrow> MsgLogEntry list \<Rightarrow> bool" where
  "consecutive k ms \<longleftrightarrow>
     unat k + length ms < 2 ^ 64 \<and> (\<forall>i<length ms. me_opnum (ms ! i) = k + word_of_nat i)"

lemma consecutive_Nil [simp]: "consecutive k [] \<longleftrightarrow> True"
  using unat_u64_bound [of k] by (simp add: consecutive_def)

lemma consecutive_Cons:
  "consecutive k (m # ms) \<longleftrightarrow>
     me_opnum m = k \<and> consecutive (k + 1) ms \<and> unat k + length (m # ms) < 2 ^ 64"
proof
  assume c: "consecutive k (m # ms)"
  then have b: "unat k + length (m # ms) < 2 ^ 64" by (simp add: consecutive_def)
  have "unat (k + 1) = unat k + 1" using b unat_add_of_nat [of k 1] by simp
  moreover have "me_opnum (ms ! i) = k + 1 + word_of_nat i" if "i < length ms" for i
    using c that unfolding consecutive_def by (auto dest: spec [where x = "Suc i"])
  ultimately show "me_opnum m = k \<and> consecutive (k + 1) ms \<and> unat k + length (m # ms) < 2 ^ 64"
    using c b by (auto simp: consecutive_def dest: spec [where x = 0])
next
  assume "me_opnum m = k \<and> consecutive (k + 1) ms \<and> unat k + length (m # ms) < 2 ^ 64"
  then show "consecutive k (m # ms)"
    by (auto simp: consecutive_def nth_Cons split: nat.splits)
qed

text \<open>The form in which the predicate is evaluated, without the 64-bit bound as a natural number.\<close>

lemma consecutive_code [code]:
  "consecutive k [] = True"
  "consecutive k (m # ms) = (me_opnum m = k \<and> k \<noteq> - 1 \<and> consecutive (k + 1) ms)"
proof -
  have "unat k + length (m # ms) < 2 ^ 64 \<longleftrightarrow> k \<noteq> - 1" if "consecutive (k + 1) ms"
    using that unat_add_of_nat [of k 1] unfolding u64_not_max by (auto simp: consecutive_def)
  then show "consecutive k (m # ms) = (me_opnum m = k \<and> k \<noteq> - 1 \<and> consecutive (k + 1) ms)"
    by (auto simp: consecutive_Cons)
qed simp

lemma consecutive_nth: "\<lbrakk> consecutive k ms; i < length ms \<rbrakk> \<Longrightarrow> me_opnum (ms ! i) = k + word_of_nat i"
  by (simp add: consecutive_def)

lemma Dump_eq:
  assumes wf: "log_wf l" and room: "LastOpnum l \<noteq> - 1" and le: "to \<le> LastOpnum l + 1"
  shows "\<exists>ms. Dump l from to = Inr ms \<and> length ms = unat to - unat (max from (start l)) \<and>
           consecutive (max from (start l)) ms \<and>
           (\<forall>i<length ms. \<exists>e. log_at l (max from (start l) + word_of_nat i) = Some e \<and> ms ! i = dump_entry e)"
proof -
  let ?a = "max from (start l)"
  let ?f = "\<lambda>i. rbind (Find l i) (\<lambda>r. case r of None \<Rightarrow> Inl AssertFailed | Some e \<Rightarrow> Inr (dump_entry e))"
  let ?ms = "map (\<lambda>i. dump_entry (the (log_at l i))) (op_range ?a to)"
  have "\<exists>e. log_at l i = Some e" if "?a \<le> i" "i < to" for i
  proof -
    have "unat (LastOpnum l + 1) = unat (LastOpnum l) + 1"
      using room unat_add_of_nat [of "LastOpnum l" 1] unfolding u64_not_max by simp
    then have "i \<le> LastOpnum l" using that(2) le by (simp add: word_le_nat_alt word_less_nat_alt)
    then show ?thesis using log_at_dom [OF wf, of i] that(1) by auto
  qed
  then have found: "\<exists>e. log_at l (op_range ?a to ! i) = Some e" if "i < unat to - unat ?a" for i
    using nth_mem [of i "op_range ?a to"] that by (simp del: max.bounded_iff)
  then have "map_r ?f (op_range ?a to) = Inr ?ms"
    by (subst map_r_Inr_iff) (fastforce simp: Find_eq [OF wf] simp del: max.bounded_iff)
  moreover have "me_opnum (?ms ! i) = ?a + word_of_nat i" if "i < unat to - unat ?a" for i
    using found [OF that] that log_at_opnum [OF wf] by (auto simp: dump_entry_def nth_op_range)
  moreover have "unat ?a + (unat to - unat ?a) < 2 ^ 64"
    using unat_u64_bound [of to] unat_u64_bound [of ?a] by linarith
  moreover have "\<exists>e. log_at l (?a + word_of_nat i) = Some e \<and> ?ms ! i = dump_entry e"
    if "i < unat to - unat ?a" for i
    using found [OF that] that by (auto simp: nth_op_range)
  ultimately show ?thesis
    using le by (intro exI [of _ ?ms]) (simp add: Dump_def consecutive_def)
qed

text \<open>The scan of \<^verbatim>\<open>Install\<close> stops at some position \<open>j\<close>: before it the views agree; at it the
  log has been cut, unless the messages ended first.\<close>

lemma install_scan_spec:
  assumes "log_wf l" and "consecutive k ms" and "start l \<le> k" and "k \<le> LastOpnum l + 1"
    and "LastOpnum l \<noteq> - 1"
  shows "\<exists>l' j. install_scan l ms = Inr (l', drop j ms) \<and> j \<le> length ms \<and> log_wf l' \<and> start l' = start l \<and>
    useHash l' = useHash l \<and>
    (\<forall>i<j. \<exists>e. log_at l (k + word_of_nat i) = Some e \<and> vs_view (le_viewstamp e) = me_view (ms ! i)) \<and>
    (j = length ms \<and> l' = l \<or>
     j < length ms \<and> LastOpnum l' + 1 = k + word_of_nat j \<and>
     (\<forall>i. log_at l' i = (if i < k + word_of_nat j then log_at l i else None)) \<and>
     (\<forall>e. log_at l (k + word_of_nat j) = Some e \<longrightarrow> vs_view (le_viewstamp e) \<noteq> me_view (ms ! j)))"
  using assms
proof (induction ms arbitrary: k)
  case Nil
  then show ?case by simp
next
  case (Cons m ms)
  have opn: "me_opnum m = k" and rest: "consecutive (k + 1) ms" and b: "unat k + length (m # ms) < 2 ^ 64"
    using Cons.prems(2) by (simp_all add: consecutive_Cons)
  have last1: "unat (LastOpnum l + 1) = unat (LastOpnum l) + 1"
    using Cons.prems(5) unat_add_of_nat [of "LastOpnum l" 1] unfolding u64_not_max by simp
  have k1: "unat (k + 1) = unat k + 1" using b unat_add_of_nat [of k 1] by simp
  show ?case
  proof (cases "log_at l k")
    case None
    then have "LastOpnum l < k" using log_at_dom [OF Cons.prems(1), of k] Cons.prems(3) by auto
    then have eq: "LastOpnum l + 1 = k"
      using Cons.prems(4) last1 u64_eqI [of "LastOpnum l + 1" k]
      by (simp add: word_le_nat_alt word_less_nat_alt)
    have "\<forall>i. log_at l i = (if i < k then log_at l i else None)"
      using log_at_dom [OF Cons.prems(1)] \<open>LastOpnum l < k\<close> by (metis leD le_less_trans not_le)
    then show ?thesis
      using None eq Cons.prems(1) by (intro exI [of _ l] exI [of _ 0]) (simp add: Find_eq opn)
  next
    case (Some e)
    then have kle: "k \<le> LastOpnum l" using log_at_dom [OF Cons.prems(1), of k] by auto
    show ?thesis
    proof (cases "me_view m = vs_view (le_viewstamp e)")
      case True
      have "k + 1 \<le> LastOpnum l + 1" using kle k1 last1 by (simp add: word_le_nat_alt)
      moreover have "start l \<le> k + 1" using Cons.prems(3) k1 by (simp add: word_le_nat_alt)
      ultimately obtain l' j where IH: "install_scan l ms = Inr (l', drop j ms)" "j \<le> length ms" "log_wf l'"
        "start l' = start l" "useHash l' = useHash l"
        "\<forall>i<j. \<exists>e. log_at l (k + 1 + word_of_nat i) = Some e \<and> vs_view (le_viewstamp e) = me_view (ms ! i)"
        "j = length ms \<and> l' = l \<or> j < length ms \<and> LastOpnum l' + 1 = k + 1 + word_of_nat j \<and>
         (\<forall>i. log_at l' i = (if i < k + 1 + word_of_nat j then log_at l i else None)) \<and>
         (\<forall>e. log_at l (k + 1 + word_of_nat j) = Some e \<longrightarrow> vs_view (le_viewstamp e) \<noteq> me_view (ms ! j))"
        using Cons.IH [OF Cons.prems(1) rest _ _ Cons.prems(5)] by blast
      have "\<forall>i<Suc j. \<exists>e. log_at l (k + word_of_nat i) = Some e \<and>
              vs_view (le_viewstamp e) = me_view ((m # ms) ! i)"
        using IH(6) Some True by (auto simp: All_less_Suc2 add.assoc)
      then show ?thesis
        using IH Some True Cons.prems(1)
        by (intro exI [of _ l'] exI [of _ "Suc j"]) (auto simp: Find_eq opn add.assoc)
    next
      case False
      define l' where "l' = l\<lparr>entries := take (unat k - unat (start l)) (entries l)\<rparr>"
      have rem: "RemoveAfter l k = Inr l'"
        using RemoveAfter_cut [OF Cons.prems(1,3) kle] by (simp add: l'_def)
      show ?thesis
        using RemoveAfter_wf [OF Cons.prems(1) rem] RemoveAfter_fields [OF rem] rem Some False kle
          Cons.prems(1)
        by (intro exI [of _ l'] exI [of _ 0]) (auto simp: Find_eq opn)
    qed
  qed
qed

lemma append_installed:
  assumes "log_wf l" and "consecutive (LastOpnum l + 1) ms" and "LastOpnum l \<noteq> - 1" and "\<not> useHash l"
  shows "\<exists>l'. fold_r (\<lambda>l m. Append sha1 l (installed_entry m)) l ms = Inr l' \<and> log_wf l' \<and>
     start l' = start l \<and> useHash l' = useHash l \<and> LastOpnum l' = LastOpnum l + word_of_nat (length ms) \<and>
     (\<forall>i \<le> LastOpnum l. log_at l' i = log_at l i) \<and>
     (\<forall>i<length ms. log_at l' (LastOpnum l + 1 + word_of_nat i) = Some (installed_entry (ms ! i)))"
  using assms
proof (induction ms arbitrary: l)
  case Nil
  then show ?case by simp
next
  case (Cons m ms)
  let ?l = "l\<lparr>entries := entries l @ [installed_entry m]\<rparr>"
  have opn: "me_opnum m = LastOpnum l + 1" and rest: "consecutive (LastOpnum l + 1 + 1) ms"
    and b: "unat (LastOpnum l + 1) + length (m # ms) < 2 ^ 64"
    using Cons.prems(2) by (simp_all add: consecutive_Cons)
  have app: "Append sha1 l (installed_entry m) = Inr ?l"
    using Cons.prems(4) opn by (simp add: Append_def installed_entry_def LogEntry_new_def viewstamp2_def
        LastOpnum_def Let_def)
  note wf = Append_wf [OF Cons.prems(1,3) app] and at = log_at_append [OF Cons.prems(1,3) app]
  have "LastOpnum ?l \<noteq> - 1" using b unfolding wf(2) u64_not_max by simp
  then obtain l' where IH: "fold_r (\<lambda>l m. Append sha1 l (installed_entry m)) ?l ms = Inr l'" "log_wf l'"
    "start l' = start l" "useHash l' = useHash l" "LastOpnum l' = LastOpnum l + 1 + word_of_nat (length ms)"
    "\<forall>i \<le> LastOpnum l + 1. log_at l' i = log_at ?l i"
    "\<forall>i<length ms. log_at l' (LastOpnum l + 1 + 1 + word_of_nat i) = Some (installed_entry (ms ! i))"
    using Cons.IH [of ?l] wf rest Cons.prems(4) by auto
  have le: "i \<le> LastOpnum l \<Longrightarrow> i \<le> LastOpnum l + 1 \<and> i \<noteq> LastOpnum l + 1" for i
    using Cons.prems(3) unat_add_of_nat [of "LastOpnum l" 1]
    unfolding u64_not_max by (auto simp: word_le_nat_alt)
  then have "\<forall>i \<le> LastOpnum l. log_at l' i = log_at l i" using IH(6) at by simp
  moreover have "log_at l' (LastOpnum l + 1) = Some (installed_entry m)" using IH(6) at by simp
  ultimately show ?case
    using IH app by (auto simp: All_less_Suc2 add.assoc)
qed

lemma Install_spec:
  assumes "log_wf l" and "consecutive k ms" and "start l \<le> k" and "k \<le> LastOpnum l + 1"
    and "LastOpnum l \<noteq> - 1" and "\<not> useHash l" and "ms \<noteq> []"
    and short: "LastOpnum l < k + word_of_nat (length ms)"
  shows "\<exists>l'. Install sha1 l ms = Inr l' \<and> log_wf l' \<and> start l' = start l \<and> useHash l' = useHash l \<and>
     LastOpnum l' + 1 = k + word_of_nat (length ms) \<and>
     (\<forall>i<k. log_at l' i = log_at l i) \<and>
     (\<forall>i<length ms. \<exists>e. log_at l' (k + word_of_nat i) = Some e \<and>
        vs_view (le_viewstamp e) = me_view (ms ! i) \<and>
        (e = installed_entry (ms ! i) \<or> log_at l (k + word_of_nat i) = Some e)) \<and>
     (\<forall>i<length ms. (\<forall>i'\<le>i. \<exists>e. log_at l (k + word_of_nat i') = Some e \<and> vs_view (le_viewstamp e) = me_view (ms ! i'))
        \<longrightarrow> log_at l' (k + word_of_nat i) = log_at l (k + word_of_nat i))"
proof -
  have b: "unat k + length ms < 2 ^ 64" using assms(2) by (simp add: consecutive_def)
  have un: "unat (k + word_of_nat i) = unat k + i" if "i \<le> length ms" for i
    using that b by (intro unat_add_of_nat) simp
  from install_scan_spec [OF assms(1-5)] obtain m j where
    scan: "install_scan l ms = Inr (m, drop j ms)" and j: "j \<le> length ms" and m: "log_wf m" "start m = start l"
      "useHash m = useHash l"
    and same: "\<forall>i<j. \<exists>e. log_at l (k + word_of_nat i) = Some e \<and> vs_view (le_viewstamp e) = me_view (ms ! i)"
    and stop: "j = length ms \<and> m = l \<or>
     j < length ms \<and> LastOpnum m + 1 = k + word_of_nat j \<and>
     (\<forall>i. log_at m i = (if i < k + word_of_nat j then log_at l i else None)) \<and>
     (\<forall>e. log_at l (k + word_of_nat j) = Some e \<longrightarrow> vs_view (le_viewstamp e) \<noteq> me_view (ms ! j))"
    by blast
  show ?thesis
  proof (cases "j = length ms")
    case True
    with stop have ml: "m = l" by auto
    have "k + word_of_nat (length ms - 1) \<le> LastOpnum l"
      using same [rule_format, of "length ms - 1"] True assms(7) log_at_dom [OF assms(1)] by auto
    then have "unat (LastOpnum l) + 1 = unat (k + word_of_nat (length ms))"
      using short un [of "length ms - 1"] un [of "length ms"] assms(7)
      by (simp add: word_le_nat_alt word_less_nat_alt Suc_le_eq)
    moreover have "unat (LastOpnum l + 1) = unat (LastOpnum l) + 1"
      using assms(5) unat_add_of_nat [of "LastOpnum l" 1] unfolding u64_not_max by simp
    ultimately have "LastOpnum l + 1 = k + word_of_nat (length ms)" by (intro u64_eqI) simp
    then show ?thesis
      using scan True ml same assms(1) by (intro exI [of _ l]) (auto simp: Install_def)
  next
    case False
    then have jl: "j < length ms" and mlast: "LastOpnum m + 1 = k + word_of_nat j"
      and mat: "\<And>i. log_at m i = (if i < k + word_of_nat j then log_at l i else None)"
      and diverge: "\<forall>e. log_at l (k + word_of_nat j) = Some e \<longrightarrow> vs_view (le_viewstamp e) \<noteq> me_view (ms ! j)"
      using stop by auto
    have kpos: "1 \<le> unat (k + word_of_nat j)"
      using assms(1,3) un [of j] jl by (simp add: log_wf_def word_le_nat_alt)
    have mroom: "LastOpnum m \<noteq> - 1"
    proof
      assume "LastOpnum m = - 1"
      then have "k + word_of_nat j = 0" using mlast by (simp add: eq_neg_iff_add_eq_0)
      with kpos show False by simp
    qed
    have "consecutive (k + word_of_nat j) (drop j ms)"
      using assms(2) jl un [of j] by (auto simp: consecutive_def add.assoc)
    then obtain l' where l': "fold_r (\<lambda>l m. Append sha1 l (installed_entry m)) m (drop j ms) = Inr l'"
      "log_wf l'" "start l' = start m" "useHash l' = useHash m"
      "LastOpnum l' = LastOpnum m + word_of_nat (length ms - j)"
      "\<forall>i \<le> LastOpnum m. log_at l' i = log_at m i"
      "\<forall>i<length ms - j. log_at l' (k + word_of_nat j + word_of_nat i) = Some (installed_entry (drop j ms ! i))"
      using append_installed [OF m(1) _ mroom, of "drop j ms" sha1] m(3) assms(6) by (auto simp: mlast)
    have lastm: "i \<le> LastOpnum m \<longleftrightarrow> i < k + word_of_nat j" for i
      using mlast mroom unat_add_of_nat [of "LastOpnum m" 1] unfolding mlast [symmetric] u64_not_max
      by (simp add: word_le_nat_alt word_less_nat_alt less_Suc_eq_le)
    have low: "log_at l' i = log_at l i" if "i < k + word_of_nat j" for i
      using l'(6) that by (simp add: lastm mat)
    have final: "LastOpnum l' + 1 = k + word_of_nat (length ms)"
    proof -
      have "LastOpnum l' + 1 = (LastOpnum m + 1) + word_of_nat (length ms - j)" using l'(5) by simp
      also have "\<dots> = k + word_of_nat (j + (length ms - j))" unfolding mlast by (simp add: add.assoc)
      finally show ?thesis using jl by simp
    qed
    have below: "log_at l' i = log_at l i" if "i < k" for i
      using low [of i] that un [of j] jl by (simp add: word_less_nat_alt)
    have entry: "\<exists>e. log_at l' (k + word_of_nat i) = Some e \<and> vs_view (le_viewstamp e) = me_view (ms ! i) \<and>
        (e = installed_entry (ms ! i) \<or> log_at l (k + word_of_nat i) = Some e)" if i: "i < length ms" for i
    proof (cases "i < j")
      case True
      then have "k + word_of_nat i < k + word_of_nat j"
        using un [of i] un [of j] jl i by (simp add: word_less_nat_alt)
      then show ?thesis using low same True by auto
    next
      case False
      then have "k + word_of_nat j + word_of_nat (i - j) = (k + word_of_nat i :: u64)"
        by (simp add: add.assoc flip: of_nat_add)
      then have "log_at l' (k + word_of_nat i) = Some (installed_entry (ms ! i))"
        using l'(7) [rule_format, of "i - j"] False i by auto
      then show ?thesis by (simp add: installed_entry_def LogEntry_new_def viewstamp2_def)
    qed
    have agree: "log_at l' (k + word_of_nat i) = log_at l (k + word_of_nat i)" if i: "i < length ms"
      and ag: "\<forall>i'\<le>i. \<exists>e. log_at l (k + word_of_nat i') = Some e \<and> vs_view (le_viewstamp e) = me_view (ms ! i')" for i
    proof -
      have "i < j" using ag diverge by (meson not_le)
      then show ?thesis using low un [of i] un [of j] jl i by (simp add: word_less_nat_alt)
    qed
    show ?thesis
      using scan l' m final below entry agree by (intro exI [of _ l']) (auto simp: Install_def)
  qed
qed

section \<open>Properties of the log\<close>

text \<open>Appending the next operation to a well-formed log succeeds, keeps the log well-formed and
  is what a later \<^verbatim>\<open>Find\<close> of that number returns, while every other \<^verbatim>\<open>Find\<close> is unchanged.\<close>

theorem Append_then_Find:
  assumes wf: "log_wf l" and room: "LastOpnum l \<noteq> - 1" and op: "vs_opnum vs = LastOpnum l + 1"
  shows "\<exists>l' e. Append sha1 l (LogEntry_new vs st req) = Inr l' \<and> log_wf l' \<and>
     LastOpnum l' = LastOpnum l + 1 \<and> LastViewstamp l' = vs \<and>
     Find l' (LastOpnum l + 1) = Inr (Some e) \<and>
     le_viewstamp e = vs \<and> le_state e = st \<and> le_request e = req \<and>
     (\<forall>i. i \<noteq> LastOpnum l + 1 \<longrightarrow> Find l' i = Find l i)"
proof -
  obtain l' where app: "Append sha1 l (LogEntry_new vs st req) = Inr l'"
    using op by (auto simp: Append_def LogEntry_new_def LastOpnum_def Let_def)
  note wf' = Append_wf [OF wf room app] and at = log_at_append [OF wf room app]
  obtain e where "l' = l\<lparr>entries := entries l @ [e]\<rparr>" "le_viewstamp e = vs" "le_state e = st" "le_request e = req"
    using Append_Inr [OF app] by (auto simp: LogEntry_new_def)
  then show ?thesis
    using app wf' at wf by (intro exI [of _ l'] exI [of _ e]) (simp add: Find_eq LastViewstamp_def)
qed

definition sample_log :: "(u64 \<times> u64) list \<Rightarrow> Log" where
  "sample_log vrs = \<lparr>entries = map (\<lambda>(i, v, r). LogEntry_new (viewstamp2 v (word_of_nat i + 1)) LOG_STATE_PREPARED
       (empty_Request\<lparr>req_clientreqid := r\<rparr>)) (zip [0..<length vrs] vrs),
     initialHash = EMPTY_HASH, start = 1, useHash = False\<rparr>"

lemma sample_log_wf: "length vrs < 2 ^ 63 \<Longrightarrow> log_wf (sample_log vrs)"
  by (simp add: log_wf_def sample_log_def LogEntry_new_def viewstamp2_def split: prod.splits)

theorem Append_then_Find_witness:
  "\<exists>l' e. Append id (sample_log [(0, 10), (0, 11)]) (LogEntry_new (viewstamp2 1 3) LOG_STATE_PREPARED empty_Request) = Inr l' \<and>
     log_wf l' \<and> Find l' 3 = Inr (Some e) \<and> le_viewstamp e = viewstamp2 1 3"
proof -
  have last: "LastOpnum (sample_log [(0, 10), (0, 11)]) = 2"
    by (simp add: LastOpnum_def sample_log_def LogEntry_new_def viewstamp2_def)
  have "\<exists>l' e. Append id (sample_log [(0, 10), (0, 11)]) (LogEntry_new (viewstamp2 1 3) LOG_STATE_PREPARED empty_Request) = Inr l' \<and>
     log_wf l' \<and> LastOpnum l' = LastOpnum (sample_log [(0, 10), (0, 11)]) + 1 \<and> LastViewstamp l' = viewstamp2 1 3 \<and>
     Find l' (LastOpnum (sample_log [(0, 10), (0, 11)]) + 1) = Inr (Some e) \<and>
     le_viewstamp e = viewstamp2 1 3 \<and> le_state e = LOG_STATE_PREPARED \<and> le_request e = empty_Request \<and>
     (\<forall>i. i \<noteq> LastOpnum (sample_log [(0, 10), (0, 11)]) + 1 \<longrightarrow>
        Find l' i = Find (sample_log [(0, 10), (0, 11)]) i)"
    by (rule Append_then_Find) (simp_all add: sample_log_wf last viewstamp2_def)
  then show ?thesis by (auto simp: last)
qed

text \<open>\<^verbatim>\<open>RemoveAfter(op)\<close> on a well-formed log that reaches \<open>op\<close> keeps exactly the entries
  strictly below \<open>op\<close>, so the entry \<open>op\<close> goes too and the last operation becomes \<open>op - 1\<close>; beyond
  the end of the log it does nothing; and below the first entry it aborts, because
  \<^verbatim>\<open>op - start\<close> wraps around.\<close>

theorem RemoveAfter_behaviour:
  assumes "log_wf l"
  shows "RemoveAfter l op =
      (if LastOpnum l < op then Inr l
       else if op < start l then Inl AssertFailed
       else Inr (l\<lparr>entries := take (unat op - unat (start l)) (entries l)\<rparr>)) \<and>
    (\<forall>l'. RemoveAfter l op = Inr l' \<longrightarrow> log_wf l' \<and>
       LastOpnum l' = (if LastOpnum l < op then LastOpnum l else op - 1) \<and>
       (\<forall>i. Find l' i = (if i < op then Find l i else Inr None)))"
  using RemoveAfter_wf [OF assms] RemoveAfter_below_start [OF assms, of op] RemoveAfter_cut [OF assms, of op]
  by (auto simp: RemoveAfter_keep Find_eq assms)

theorem RemoveAfter_behaviour_witness:
  "RemoveAfter (sample_log [(0, 10), (0, 11), (1, 12)]) 2 = Inr (sample_log [(0, 10)]) \<and>
   LastOpnum (sample_log [(0, 10)]) = 1 \<and>
   RemoveAfter (sample_log [(0, 10), (0, 11), (1, 12)]) 0 = Inl AssertFailed"
proof -
  let ?l = "sample_log [(0, 10), (0, 11), (1, 12)]"
  have last: "LastOpnum ?l = 3" "start ?l = 1"
    by (simp_all add: LastOpnum_def sample_log_def LogEntry_new_def viewstamp2_def)
  have cut: "?l\<lparr>entries := take 1 (entries ?l)\<rparr> = sample_log [(0, 10)]"
    by (simp add: sample_log_def)
  have wf: "log_wf ?l" by (simp add: sample_log_wf)
  show ?thesis
    using RemoveAfter_behaviour [OF wf, of 2] RemoveAfter_behaviour [OF wf, of 0] cut by (simp add: last)
qed

text \<open>An entry that was dumped and installed, or was there already under the same view, is the sender's.\<close>

lemma installed_matches:
  assumes "\<forall>i<length ms. \<exists>e. log_at src (k + word_of_nat i) = Some e \<and> ms ! i = dump_entry e"
    and "\<forall>i<length ms. \<exists>e. log_at d (k + word_of_nat i) = Some e \<and> vs_view (le_viewstamp e) = me_view (ms ! i) \<and>
        (e = installed_entry (ms ! i) \<or> log_at dst (k + word_of_nat i) = Some e)"
    and match: "\<And>i e e'. \<lbrakk> log_at src i = Some e; log_at dst i = Some e';
        vs_view (le_viewstamp e) = vs_view (le_viewstamp e') \<rbrakk> \<Longrightarrow> le_request e = le_request e'"
    and j: "j < length ms"
  shows "map_option (\<lambda>e. (vs_view (le_viewstamp e), le_request e)) (log_at d (k + word_of_nat j)) =
    map_option (\<lambda>e. (vs_view (le_viewstamp e), le_request e)) (log_at src (k + word_of_nat j))"
proof -
  let ?i = "k + word_of_nat j"
  obtain e where e: "log_at src ?i = Some e" "ms ! j = dump_entry e" using assms(1) j by blast
  obtain e' where e': "log_at d ?i = Some e'" "vs_view (le_viewstamp e') = me_view (ms ! j)"
    "e' = installed_entry (ms ! j) \<or> log_at dst ?i = Some e'" using assms(2) j by blast
  from e'(3) have "le_request e = le_request e'"
  proof
    assume "e' = installed_entry (ms ! j)"
    then show ?thesis by (simp add: e(2) installed_entry_def LogEntry_new_def dump_entry_def)
  next
    assume "log_at dst ?i = Some e'"
    then show ?thesis using match [OF e(1)] e'(2) e(2) by (simp add: dump_entry_def)
  qed
  then show ?thesis using e e' by (simp add: dump_entry_def)
qed

text \<open>C40. State transfer moves a log suffix: installing what another replica dumped from an
  operation the receiver can attach to, after cutting the receiver's log at the sender's end,
  always succeeds and leaves the receiver with the sender's views and requests from that
  operation on and its own entries before it, provided entries of the two logs with the same
  number and view carry the same request.\<close>

theorem Dump_then_Install:
  assumes wf: "log_wf src" "log_wf dst" and st: "start src = start dst" and h: "\<not> useHash dst"
    and room: "LastOpnum src \<noteq> - 1" "LastOpnum dst \<noteq> - 1"
    and fr: "start src \<le> k" "k \<le> LastOpnum src" "k \<le> LastOpnum dst + 1"
    and match: "\<And>i e e'. \<lbrakk> log_at src i = Some e; log_at dst i = Some e';
        vs_view (le_viewstamp e) = vs_view (le_viewstamp e') \<rbrakk> \<Longrightarrow> le_request e = le_request e'"
  shows "\<exists>ms cutdst dst'. Dump_from src k = Inr ms \<and> RemoveAfter dst (LastOpnum src + 1) = Inr cutdst \<and>
     Install sha1 cutdst ms = Inr dst' \<and> log_wf dst' \<and> LastOpnum dst' = LastOpnum src \<and>
     (\<forall>i<k. log_at dst' i = log_at dst i) \<and>
     (\<forall>i. k \<le> i \<longrightarrow> map_option (\<lambda>e. (vs_view (le_viewstamp e), le_request e)) (log_at dst' i) =
                     map_option (\<lambda>e. (vs_view (le_viewstamp e), le_request e)) (log_at src i))"
proof -
  have last1: "unat (LastOpnum src + 1) = unat (LastOpnum src) + 1"
    using room(1) unat_add_of_nat [of "LastOpnum src" 1] unfolding u64_not_max by simp
  have maxk: "max k (start src) = k" using fr(1) by simp
  obtain ms where ms: "Dump_from src k = Inr ms" "length ms = unat (LastOpnum src + 1) - unat k"
    "consecutive k ms" "\<forall>i<length ms. \<exists>e. log_at src (k + word_of_nat i) = Some e \<and> ms ! i = dump_entry e"
    using Dump_eq [OF wf(1) room(1) order_refl, of k] unfolding maxk Dump_from_def [symmetric]
    by (elim exE conjE)
  have end_ms: "k + word_of_nat (length ms) = LastOpnum src + 1"
    using ms(2) last1 fr(2) unat_add_of_nat [of k "length ms"] unat_u64_bound [of "LastOpnum src + 1"]
    by (intro u64_eqI) (simp add: word_le_nat_alt)
  have cut: "start dst \<le> LastOpnum src + 1" using fr st last1 by (simp add: word_le_nat_alt)
  obtain c where c: "RemoveAfter dst (LastOpnum src + 1) = Inr c"
    using RemoveAfter_keep RemoveAfter_cut [OF wf(2) cut] not_le by blast
  note cw = RemoveAfter_wf [OF wf(2) c] and cf = RemoveAfter_fields [OF c]
  have ck: "k \<le> LastOpnum c + 1"
    using cw fr(2,3) last1 by (auto simp: word_le_nat_alt split: if_splits)
  have croom: "LastOpnum c \<noteq> - 1" using cw room by (auto split: if_splits)
  have cshort: "LastOpnum c < k + word_of_nat (length ms)"
    using cw last1 unfolding end_ms by (auto simp: word_less_nat_alt split: if_splits)
  have ne: "ms \<noteq> []" using ms(2) fr(2) last1 by (auto simp: word_le_nat_alt)
  have "start c \<le> k" using fr(1) st cf by simp
  from Install_spec [OF conjunct1 [OF cw] ms(3) this ck croom _ ne cshort, of sha1] cf(2) h
  obtain d where d: "Install sha1 c ms = Inr d" "log_wf d" "start d = start c"
    "LastOpnum d + 1 = k + word_of_nat (length ms)" "\<forall>i<k. log_at d i = log_at c i"
    and entry: "\<forall>i<length ms. \<exists>e. log_at d (k + word_of_nat i) = Some e \<and>
        vs_view (le_viewstamp e) = me_view (ms ! i) \<and>
        (e = installed_entry (ms ! i) \<or> log_at c (k + word_of_nat i) = Some e)" by auto
  have lastd: "LastOpnum d = LastOpnum src" using d(4) end_ms by simp
  have low: "log_at d i = log_at dst i" if "i < k" for i
  proof -
    have "i < LastOpnum src + 1" using that fr(2) last1 by (simp add: word_less_nat_alt word_le_nat_alt)
    then show ?thesis using d(5) that cw by simp
  qed
  have entry': "\<forall>i<length ms. \<exists>e. log_at d (k + word_of_nat i) = Some e \<and> vs_view (le_viewstamp e) = me_view (ms ! i) \<and>
      (e = installed_entry (ms ! i) \<or> log_at dst (k + word_of_nat i) = Some e)"
    using entry cw by (fastforce split: if_splits)
  have high: "map_option (\<lambda>e. (vs_view (le_viewstamp e), le_request e)) (log_at d i) =
      map_option (\<lambda>e. (vs_view (le_viewstamp e), le_request e)) (log_at src i)" if "k \<le> i" for i
  proof (cases "i \<le> LastOpnum src")
    case True
    then have i: "k + word_of_nat (unat i - unat k) = i" and j: "unat i - unat k < length ms"
      using that ms(2) last1 by (simp_all add: word_le_nat_alt)
    show ?thesis using installed_matches [OF ms(4) entry' match j] unfolding i .
  next
    case False
    then have "log_at d i = None" "log_at src i = None"
      using log_at_dom [OF d(2), of i] log_at_dom [OF wf(1), of i] lastd by auto
    then show ?thesis by simp
  qed
  show ?thesis using ms(1) c d(1,2) lastd low high by blast
qed

theorem Dump_then_Install_witness:
  "\<exists>ms c d. Dump_from (sample_log [(0, 10), (0, 11), (1, 12)]) 2 = Inr ms \<and>
     RemoveAfter (sample_log [(0, 10), (0, 11), (0, 9), (0, 8)]) 4 = Inr c \<and> Install id c ms = Inr d \<and> LastOpnum d = 3"
proof -
  let ?s = "sample_log [(0, 10), (0, 11), (1, 12)]"
  let ?d = "sample_log [(0, 10), (0, 11), (0, 9), (0, 8)]"
  have l: "LastOpnum ?s = 3" "LastOpnum ?d = 4" "start ?s = 1" "start ?d = 1"
    by (simp_all add: LastOpnum_def sample_log_def LogEntry_new_def viewstamp2_def)
  have m: "le_request e = le_request e'" if "log_at ?s i = Some e" "log_at ?d i = Some e'"
    "vs_view (le_viewstamp e) = vs_view (le_viewstamp e')" for i e e'
    using that by (auto simp: log_at_def sample_log_def LogEntry_new_def viewstamp2_def less_Suc_eq
        numeral_eq_Suc split: if_splits)
  have "\<exists>ms c d. Dump_from ?s 2 = Inr ms \<and> RemoveAfter ?d (LastOpnum ?s + 1) = Inr c \<and>
     Install id c ms = Inr d \<and> log_wf d \<and> LastOpnum d = LastOpnum ?s \<and>
     (\<forall>i<2. log_at d i = log_at ?d i) \<and>
     (\<forall>i. 2 \<le> i \<longrightarrow> map_option (\<lambda>e. (vs_view (le_viewstamp e), le_request e)) (log_at d i) =
                     map_option (\<lambda>e. (vs_view (le_viewstamp e), le_request e)) (log_at ?s i))"
    by (rule Dump_then_Install) (simp_all add: l m sample_log_wf, simp add: sample_log_def)
  then show ?thesis by (auto simp: l)
qed

end
