(* ===== verification/ReplicaCommon.thy ===== *)
theory ReplicaCommon
  imports Configurations QuorumSets ReplicaLog
begin

text \<open>
  What the replication protocols share: \<^verbatim>\<open>common/replica.h\<close>, \<^verbatim>\<open>common/replica-inl.h\<close> and
  \<^verbatim>\<open>common/replica.cc\<close>.  The application behind \<^verbatim>\<open>AppReplica\<close> is a record of functions over an
  application state of any type; the class's own default bodies are \<open>AppReplica_default\<close>.  The
  \<^verbatim>\<open>void *arg\<close> of \<^verbatim>\<open>ReplicaUpcall\<close> is either null or an \<^verbatim>\<open>UpcallArg\<close>, whose only field says
  whether the caller leads.  A \<^verbatim>\<open>Timeout\<close> of \<^verbatim>\<open>lib/transport.cc\<close> is its \<^verbatim>\<open>Active()\<close> flag: \<^verbatim>\<open>Start\<close> and
  \<^verbatim>\<open>Reset\<close> set it, \<^verbatim>\<open>Stop\<close> clears it, and a firing timeout re-arms itself before its callback.
\<close>

datatype ReplicaStatus =
    STATUS_NORMAL
  | STATUS_VIEW_CHANGE
  | STATUS_RECOVERING
  | STATUS_GAP_COMMIT
  | STATUS_EPOCH_CHANGE

type_synonym TransportAddress = nat

record 'a AppReplica =
  app_LeaderUpcall :: "'a \<Rightarrow> u64 \<Rightarrow> string \<Rightarrow> 'a \<times> bool \<times> string"
  app_ReplicaUpcall :: "'a \<Rightarrow> u64 \<Rightarrow> string \<Rightarrow> bool option \<Rightarrow> 'a \<times> string"
  app_RollbackUpcall :: "'a \<Rightarrow> u64 \<Rightarrow> u64 \<Rightarrow> (u64 \<times> string) list \<Rightarrow> 'a"
  app_CommitUpcall :: "'a \<Rightarrow> u64 \<Rightarrow> 'a"
  app_UnloggedUpcall :: "'a \<Rightarrow> string \<Rightarrow> 'a \<times> string"

definition AppReplica_default :: "'a AppReplica" where
  "AppReplica_default =
     \<lparr>app_LeaderUpcall = (\<lambda>a _ str1. (a, True, str1)),
      app_ReplicaUpcall = (\<lambda>a _ _ _. (a, '''')),
      app_RollbackUpcall = (\<lambda>a _ _ _. a),
      app_CommitUpcall = (\<lambda>a _. a),
      app_UnloggedUpcall = (\<lambda>a _. (a, ''''))\<rparr>"

definition Execute :: "'a AppReplica \<Rightarrow> 'a \<Rightarrow> u64 \<Rightarrow> Request \<Rightarrow> bool option \<Rightarrow> 'a \<times> string" where
  "Execute app a opnum req arg = app_ReplicaUpcall app a opnum (req_op req) arg"

text \<open>The sharded form runs the first operation meant for the shard and replies with the empty string
  when there is none.\<close>

definition Execute_shard :: "'a AppReplica \<Rightarrow> 'a \<Rightarrow> u64 \<Rightarrow> Request \<Rightarrow> u32 \<Rightarrow> bool option \<Rightarrow> 'a \<times> string" where
  "Execute_shard app a opnum req shardnum arg =
     (case find (\<lambda>so. so_shard so = shardnum) (req_ops req) of
        None \<Rightarrow> (a, '''')
      | Some so \<Rightarrow> app_ReplicaUpcall app a opnum (so_op so) arg)"

definition ExecuteUnlogged :: "'a AppReplica \<Rightarrow> 'a \<Rightarrow> string \<Rightarrow> 'a \<times> string" where
  "ExecuteUnlogged app a op = app_UnloggedUpcall app a op"

text \<open>\<^verbatim>\<open>Replica::Rollback\<close> collects the operations to undo, from \<open>current\<close> down to \<open>to + 1\<close>, in an
  ordered map; it dereferences what \<^verbatim>\<open>Find\<close> returns without checking it.\<close>

definition Rollback :: "'a AppReplica \<Rightarrow> 'a \<Rightarrow> u64 \<Rightarrow> u64 \<Rightarrow> Log \<Rightarrow> 'a result" where
  "Rollback app a current to l =
     (if current \<le> to then Inr (app_RollbackUpcall app a current to [])
      else rbind (map_r (\<lambda>x. rbind (Find l x) (\<lambda>r. case r of
                     None \<Rightarrow> Inl UndefinedBehaviour
                   | Some e \<Rightarrow> Inr (x, req_op (le_request e))))
                 (rev (op_range (to + 1) current @ [current])))
             (\<lambda>reqs. Inr (app_RollbackUpcall app a current to (rev reqs))))"

section \<open>A concrete group for the witnesses\<close>

definition sample_config :: "int \<Rightarrow> Configuration" where
  "sample_config f = \<lparr>cfg_g = 1, cfg_n = 2 * f + 1, cfg_f = f, cfg_replicas = [], cfg_sequencers = [],
     cfg_multicast = None, cfg_fc = None\<rparr>"

text \<open>An application that logs the operations it runs.\<close>

definition sample_app :: "string list AppReplica" where
  "sample_app = \<lparr>app_LeaderUpcall = (\<lambda>a _ str1. (a, True, str1)),
     app_ReplicaUpcall = (\<lambda>a _ op _. (a @ [op], ''done '' @ op)),
     app_RollbackUpcall = (\<lambda>a _ _ _. a), app_CommitUpcall = (\<lambda>a _. a), app_UnloggedUpcall = (\<lambda>a _. (a, ''''))\<rparr>"

definition sample_req :: "string \<Rightarrow> u64 \<Rightarrow> u64 \<Rightarrow> Request" where
  "sample_req op c r = empty_Request\<lparr>req_op := op, req_clientid := c, req_clientreqid := r\<rparr>"

end
