(* ===== verification/VRReplica.thy ===== *)
theory VRReplica
  imports ReplicaCommon
begin

text \<open>
  The Viewstamped Replication replica, \<^verbatim>\<open>replication/vr/replica.h\<close> and \<^verbatim>\<open>replication/vr/replica.cc\<close>:
  its state, every message handler, every timeout callback and the helpers they call.  A handler
  takes the replica's state and returns the next one; the messages it sends are appended to the
  field \<open>outbox\<close> in the order the code sends them.

  Two reads of the code go through pointers whose object is gone: \<^verbatim>\<open>HandleDoViewChange\<close> keeps the
  address of a message inside the loop variable \<^verbatim>\<open>kv\<close>, which each iteration destroys, and
  \<^verbatim>\<open>HandleRecoveryResponse\<close> reads the leader's response after \<^verbatim>\<open>EnterView\<close> has cleared the quorum
  that holds it.  Both are undefined behaviour.  The model has an execution that stops there with
  \<open>UndefinedBehaviour\<close> and one that goes on with the contents the object had, which is what a compiled program does
  while nothing has overwritten the storage: the parameters \<open>survives_dvc\<close> and \<open>survives_rr\<close> say which.  Nothing is claimed
  of a program that reads anything else there.
\<close>

section \<open>Messages\<close>

record ReplyMessage =
  rep_view :: u64
  rep_opnum :: u64
  rep_reply :: string
  rep_clientreqid :: u64

datatype ToClientMessage = ToClientReply ReplyMessage | ToClientUnloggedReply string | ToClientNotSet

record PrepareMessage =
  pr_view :: u64
  pr_opnum :: u64
  pr_batchstart :: u64
  pr_request :: "Request list"

record PrepareOKMessage =
  pok_view :: u64
  pok_opnum :: u64
  pok_replicaIdx :: int

record StateTransferMessage =
  st_view :: u64
  st_opnum :: u64
  st_entries :: "MsgLogEntry list"

record StartViewChangeMessage =
  svc_view :: u64
  svc_replicaIdx :: int
  svc_lastCommitted :: u64

record DoViewChangeMessage =
  dvc_view :: u64
  dvc_lastNormalView :: u64
  dvc_lastOp :: u64
  dvc_lastCommitted :: u64
  dvc_entries :: "MsgLogEntry list"
  dvc_replicaIdx :: int

record StartViewMessage =
  sv_view :: u64
  sv_lastOp :: u64
  sv_lastCommitted :: u64
  sv_entries :: "MsgLogEntry list"

record RecoveryResponseMessage =
  rr_view :: u64
  rr_nonce :: u64
  rr_entries :: "MsgLogEntry list"
  rr_lastOp :: u64
  rr_lastCommitted :: u64
  rr_replicaIdx :: int

datatype ToReplicaMessage =
    MsgRequest Request
  | MsgUnloggedRequest string u64 u64
  | MsgPrepare PrepareMessage
  | MsgPrepareOK PrepareOKMessage
  | MsgCommit u64 u64
  | MsgRequestStateTransfer u64 u64
  | MsgStateTransfer StateTransferMessage
  | MsgStartViewChange StartViewChangeMessage
  | MsgDoViewChange DoViewChangeMessage
  | MsgStartView StartViewMessage
  | MsgRecovery int u64
  | MsgRecoveryResponse RecoveryResponseMessage
  | MsgNotSet

datatype destination = ReplicaDest int | AllReplicas | AddressDest TransportAddress

datatype outgoing = OutReplica ToReplicaMessage | OutClient ToClientMessage

section \<open>State\<close>

record ClientTableEntry =
  lastReqId :: u64
  replied :: bool
  reply :: ToClientMessage

definition ClientTableEntry_default :: ClientTableEntry where
  "ClientTableEntry_default = \<lparr>lastReqId = 0, replied = False, reply = ToClientNotSet\<rparr>"

record 'a VRReplica =
  configuration :: Configuration
  replicaIdx :: int
  status :: ReplicaStatus
  view :: u64
  lastCommitted :: u64
  lastOp :: u64
  lastRequestStateTransferView :: u64
  lastRequestStateTransferOpnum :: u64
  recoveryNonce :: u64
  pendingPrepares :: "(TransportAddress \<times> PrepareMessage) list"
  lastPrepare :: "PrepareMessage option"
  batchSize :: u32
  lastBatchEnd :: u64
  batchComplete :: bool
  log :: Log
  clientAddresses :: "u64 \<Rightarrow> TransportAddress option"
  clientTable :: "u64 \<Rightarrow> ClientTableEntry option"
  prepareOKQuorum :: "(viewstamp_t, PrepareOKMessage) QuorumSet"
  startViewChangeQuorum :: "(u64, StartViewChangeMessage) QuorumSet"
  doViewChangeQuorum :: "(u64, DoViewChangeMessage) QuorumSet"
  recoveryResponseQuorum :: "(u64, RecoveryResponseMessage) QuorumSet"
  viewChangeTimeout :: bool
  nullCommitTimeout :: bool
  stateTransferTimeout :: bool
  resendPrepareTimeout :: bool
  closeBatchTimeout :: bool
  recoveryTimeout :: bool
  app_state :: 'a
  outbox :: "(destination \<times> outgoing) list"

text \<open>The parameters: the application, SHA-1 (unused by this replica's log) and the two reads
  through expired pointers.\<close>

record 'a vr_env =
  app :: "'a AppReplica"
  sha1 :: "string \<Rightarrow> string"
  survives_dvc :: "DoViewChangeMessage \<Rightarrow> bool"
  survives_rr :: "RecoveryResponseMessage \<Rightarrow> bool"

section \<open>Helpers\<close>

definition send :: "'a VRReplica \<Rightarrow> destination \<Rightarrow> outgoing \<Rightarrow> 'a VRReplica" where
  "send s d m = s\<lparr>outbox := outbox s @ [(d, m)]\<rparr>"

definition AmLeader :: "'a VRReplica \<Rightarrow> bool" where
  "AmLeader s \<longleftrightarrow> GetLeaderIndex (configuration s) (view s) = replicaIdx s"

definition leader_of :: "'a VRReplica \<Rightarrow> int" where
  "leader_of s = GetLeaderIndex (configuration s) (view s)"

text \<open>\<^verbatim>\<open>clientTable[id]\<close> creates a zeroed entry when there is none.\<close>

definition client_entry :: "'a VRReplica \<Rightarrow> u64 \<Rightarrow> ClientTableEntry" where
  "client_entry s c = (case clientTable s c of None \<Rightarrow> ClientTableEntry_default | Some e \<Rightarrow> e)"

definition put_client :: "'a VRReplica \<Rightarrow> u64 \<Rightarrow> ClientTableEntry \<Rightarrow> 'a VRReplica" where
  "put_client s c e = s\<lparr>clientTable := (clientTable s)(c \<mapsto> e)\<rparr>"

definition UpdateClientTable :: "'a VRReplica \<Rightarrow> Request \<Rightarrow> 'a VRReplica result" where
  "UpdateClientTable s req =
     (let e = client_entry s (req_clientid req)
      in check (lastReqId e \<le> req_clientreqid req) AssertFailed
           (if lastReqId e = req_clientreqid req then Inr (put_client s (req_clientid req) e)
            else Inr (put_client s (req_clientid req)
                        \<lparr>lastReqId = req_clientreqid req, replied = False, reply = ToClientNotSet\<rparr>)))"

definition SendRecoveryMessages :: "'a VRReplica \<Rightarrow> 'a VRReplica" where
  "SendRecoveryMessages s = send s AllReplicas (OutReplica (MsgRecovery (replicaIdx s) (recoveryNonce s)))"

definition RequestStateTransfer :: "'a VRReplica \<Rightarrow> 'a VRReplica" where
  "RequestStateTransfer s =
     (if lastRequestStateTransferOpnum s \<noteq> 0 \<and> lastRequestStateTransferView s = view s \<and>
         lastRequestStateTransferOpnum s = lastCommitted s
      then s
      else send (s\<lparr>lastRequestStateTransferView := view s,
                   lastRequestStateTransferOpnum := lastCommitted s\<rparr>)
             AllReplicas (OutReplica (MsgRequestStateTransfer (view s) (lastCommitted s))))"

definition EnterView :: "'a VRReplica \<Rightarrow> u64 \<Rightarrow> 'a VRReplica" where
  "EnterView s newview =
     (let s1 = s\<lparr>view := newview, status := STATUS_NORMAL, lastBatchEnd := lastOp s,
                 batchComplete := True, recoveryTimeout := False\<rparr>;
          s2 = (if AmLeader s1
                then s1\<lparr>viewChangeTimeout := False, nullCommitTimeout := True\<rparr>
                else s1\<lparr>viewChangeTimeout := True, nullCommitTimeout := False,
                        resendPrepareTimeout := False, closeBatchTimeout := False\<rparr>)
      in s2\<lparr>prepareOKQuorum := Clear (prepareOKQuorum s2),
            startViewChangeQuorum := Clear (startViewChangeQuorum s2),
            doViewChangeQuorum := Clear (doViewChangeQuorum s2),
            recoveryResponseQuorum := Clear (recoveryResponseQuorum s2)\<rparr>)"

definition StartViewChange :: "'a VRReplica \<Rightarrow> u64 \<Rightarrow> 'a VRReplica" where
  "StartViewChange s newview =
     send (s\<lparr>view := newview, status := STATUS_VIEW_CHANGE, viewChangeTimeout := True,
             nullCommitTimeout := False, resendPrepareTimeout := False, closeBatchTimeout := False\<rparr>)
       AllReplicas (OutReplica (MsgStartViewChange
         \<lparr>svc_view = newview, svc_replicaIdx = replicaIdx s, svc_lastCommitted = lastCommitted s\<rparr>))"

definition SendNullCommit :: "'a VRReplica \<Rightarrow> 'a VRReplica result" where
  "SendNullCommit s =
     check (AmLeader s) AssertFailed
       (Inr (send s AllReplicas (OutReplica (MsgCommit (view s) (lastCommitted s)))))"

text \<open>\<^verbatim>\<open>lastPrepare\<close> is an empty protobuf message until the first batch is closed.\<close>

definition ResendPrepare :: "'a VRReplica \<Rightarrow> 'a VRReplica result" where
  "ResendPrepare s =
     check (AmLeader s) AssertFailed
       (if lastOp s = lastCommitted s then Inr s
        else Inr (send s AllReplicas (OutReplica
               (case lastPrepare s of None \<Rightarrow> MsgNotSet | Some p \<Rightarrow> MsgPrepare p))))"

definition CloseBatch :: "'a VRReplica \<Rightarrow> 'a VRReplica result" where
  "CloseBatch s =
     check (AmLeader s) AssertFailed
       (check (lastBatchEnd s < lastOp s) AssertFailed
         (let batchStart = lastBatchEnd s + 1 in
          rbind (op_range_le batchStart (lastOp s)) (\<lambda>is.
          rbind (map_r (\<lambda>i. rbind (Find (log s) i) (\<lambda>r. case r of
                     None \<Rightarrow> Inl AssertFailed
                   | Some e \<Rightarrow>
                       check (vs_view (le_viewstamp e) = view s) AssertFailed
                         (check (vs_opnum (le_viewstamp e) = i) AssertFailed (Inr (le_request e))))) is)
            (\<lambda>reqs.
               let p = \<lparr>pr_view = view s, pr_opnum = lastOp s, pr_batchstart = batchStart, pr_request = reqs\<rparr>
               in Inr (send (s\<lparr>lastPrepare := Some p, lastBatchEnd := lastOp s, batchComplete := False,
                               resendPrepareTimeout := True, closeBatchTimeout := False\<rparr>)
                         AllReplicas (OutReplica (MsgPrepare p)))))))"

text \<open>The body of the loop of \<^verbatim>\<open>CommitUpTo\<close>: the reply it builds, what it records in the client
  table and sends, and the whole body.\<close>

definition commit_reply :: "LogEntry \<Rightarrow> string \<Rightarrow> ToClientMessage" where
  "commit_reply e res = ToClientReply
     \<lparr>rep_view = vs_view (le_viewstamp e), rep_opnum = vs_opnum (le_viewstamp e), rep_reply = res,
      rep_clientreqid = req_clientreqid (le_request e)\<rparr>"

definition record_reply :: "'a VRReplica \<Rightarrow> Request \<Rightarrow> ToClientMessage \<Rightarrow> 'a VRReplica" where
  "record_reply s req m =
     (let cte = client_entry s (req_clientid req);
          s1 = put_client s (req_clientid req)
                 (if lastReqId cte \<le> req_clientreqid req
                  then \<lparr>lastReqId = req_clientreqid req, replied = True, reply = m\<rparr> else cte)
      in case clientAddresses s1 (req_clientid req) of
           None \<Rightarrow> s1
         | Some addr \<Rightarrow> send s1 (AddressDest addr) (OutClient m))"

definition commit_next :: "'a vr_env \<Rightarrow> 'a VRReplica \<Rightarrow> 'a VRReplica result" where
  "commit_next env s =
     (let s1 = s\<lparr>lastCommitted := lastCommitted s + 1\<rparr> in
      rbind (Find (log s1) (lastCommitted s1)) (\<lambda>r. case r of
        None \<Rightarrow> Inl Panicked
      | Some e \<Rightarrow>
          let x = Execute (app env) (app_state s1) (lastCommitted s1) (le_request e) (Some (AmLeader s1))
          in rbind (SetStatus (log s1) (lastCommitted s1) LOG_STATE_COMMITTED) (\<lambda>p.
               Inr (record_reply (s1\<lparr>app_state := fst x, log := fst p\<rparr>) (le_request e)
                      (commit_reply e (snd x))))))"

lemma record_reply_frame [simp]:
  "configuration (record_reply s req m) = configuration s"
  "replicaIdx (record_reply s req m) = replicaIdx s"
  "status (record_reply s req m) = status s"
  "view (record_reply s req m) = view s"
  "lastCommitted (record_reply s req m) = lastCommitted s"
  "lastOp (record_reply s req m) = lastOp s"
  "recoveryNonce (record_reply s req m) = recoveryNonce s"
  "pendingPrepares (record_reply s req m) = pendingPrepares s"
  "lastPrepare (record_reply s req m) = lastPrepare s"
  "lastBatchEnd (record_reply s req m) = lastBatchEnd s"
  "batchComplete (record_reply s req m) = batchComplete s"
  "log (record_reply s req m) = log s"
  "clientAddresses (record_reply s req m) = clientAddresses s"
  "prepareOKQuorum (record_reply s req m) = prepareOKQuorum s"
  "startViewChangeQuorum (record_reply s req m) = startViewChangeQuorum s"
  "doViewChangeQuorum (record_reply s req m) = doViewChangeQuorum s"
  "recoveryResponseQuorum (record_reply s req m) = recoveryResponseQuorum s"
  "app_state (record_reply s req m) = app_state s"
  by (simp_all add: record_reply_def Let_def put_client_def send_def split: option.splits)

lemma commit_next_lastCommitted:
  "commit_next env s = Inr s' \<Longrightarrow> lastCommitted s' = lastCommitted s + 1"
  by (auto simp: commit_next_def Let_def split: option.splits)

function CommitUpTo :: "'a vr_env \<Rightarrow> 'a VRReplica \<Rightarrow> u64 \<Rightarrow> 'a VRReplica result" where
  "CommitUpTo env s up_to =
     (if lastCommitted s < up_to then rbind (commit_next env s) (\<lambda>s'. CommitUpTo env s' up_to) else Inr s)"
  by pat_completeness auto
termination
proof (relation "measure (\<lambda>(env, s, up_to). unat up_to - unat (lastCommitted s))")
  fix env :: "'a vr_env" and s up_to s'
  assume lt: "lastCommitted s < up_to" and step: "commit_next env s = Inr s'"
  have "unat (lastCommitted s') = Suc (unat (lastCommitted s))"
    using unat_Suc_less [OF lt] commit_next_lastCommitted [OF step] by simp
  then show "((env, s', up_to), (env, s, up_to)) \<in> measure (\<lambda>(env, s, up_to). unat up_to - unat (lastCommitted s))"
    using lt by (simp add: word_less_nat_alt)
qed simp

declare CommitUpTo.simps [simp del]

definition SendPrepareOK :: "'a VRReplica \<Rightarrow> u64 \<Rightarrow> 'a VRReplica result" where
  "SendPrepareOK s i =
     (if i \<le> lastCommitted s then Inr s
      else rbind (Find (log s) i) (\<lambda>r. case r of
             None \<Rightarrow> Inl Panicked
           | Some e \<Rightarrow>
               check (le_state e = LOG_STATE_PREPARED) AssertFailed
                 (rbind (UpdateClientTable s (le_request e)) (\<lambda>s.
                    Inr (send s (ReplicaDest (leader_of s)) (OutReplica (MsgPrepareOK
                      \<lparr>pok_view = view s, pok_opnum = i, pok_replicaIdx = replicaIdx s\<rparr>)))))))"

definition SendPrepareOKs :: "'a VRReplica \<Rightarrow> u64 \<Rightarrow> 'a VRReplica result" where
  "SendPrepareOKs s oldLastOp =
     rbind (op_range_le oldLastOp (lastOp s)) (\<lambda>ops. fold_r SendPrepareOK s ops)"

text \<open>\<^verbatim>\<open>std::min_element\<close> over a map, by \<^verbatim>\<open>lastcommitted()\<close>; dereferencing the result is
  undefined for an empty map.\<close>

fun min_committed :: "('m \<Rightarrow> u64) \<Rightarrow> (int \<times> 'm) list \<Rightarrow> u64 result" where
  "min_committed c [] = Inl UndefinedBehaviour"
| "min_committed c [p] = Inr (c (snd p))"
| "min_committed c (p # q # ps) = rbind (min_committed c (q # ps)) (\<lambda>k. Inr (min (c (snd p)) k))"

section \<open>Handlers\<close>

text \<open>The second half of \<^verbatim>\<open>HandleRequest\<close>: a request the client table has not seen.\<close>

definition HandleRequest_new ::
  "'a vr_env \<Rightarrow> 'a VRReplica \<Rightarrow> TransportAddress \<Rightarrow> Request \<Rightarrow> 'a VRReplica result" where
  "HandleRequest_new env s remote req =
     rbind (UpdateClientTable s req) (\<lambda>s1.
       let (a, replicate, res) = app_LeaderUpcall (app env) (app_state s1) (lastCommitted s1) (req_op req);
           s2 = s1\<lparr>app_state := a\<rparr>
       in if \<not> replicate then
            let m = ToClientReply \<lparr>rep_view = 0, rep_opnum = 0, rep_reply = res,
                      rep_clientreqid = req_clientreqid req\<rparr>;
                cte = client_entry s2 (req_clientid req)
            in Inr (send (put_client s2 (req_clientid req) (cte\<lparr>replied := True, reply := m\<rparr>))
                     (AddressDest remote) (OutClient m))
          else
            let request = empty_Request\<lparr>req_op := res, req_clientid := req_clientid req,
                            req_clientreqid := req_clientreqid req\<rparr>;
                s3 = s2\<lparr>lastOp := lastOp s2 + 1\<rparr>
            in rbind (Append (sha1 env) (log s3)
                       (LogEntry_new (viewstamp2 (view s3) (lastOp s3)) LOG_STATE_PREPARED request))
                 (\<lambda>l. let s4 = s3\<lparr>log := l\<rparr> in
                    rbind (if batchComplete s4 \<or> ucast (batchSize s4) < lastOp s4 - lastBatchEnd s4 + 1
                           then CloseBatch s4
                           else Inr (s4\<lparr>closeBatchTimeout := True\<rparr>))
                      (\<lambda>s5. Inr (s5\<lparr>nullCommitTimeout := True\<rparr>))))"

definition HandleRequest ::
  "'a vr_env \<Rightarrow> 'a VRReplica \<Rightarrow> TransportAddress \<Rightarrow> Request \<Rightarrow> 'a VRReplica result" where
  "HandleRequest env s remote req =
     (if status s \<noteq> STATUS_NORMAL then Inr s
      else if \<not> AmLeader s then Inr s
      else
        let cid = req_clientid req; s1 = s\<lparr>clientAddresses := (clientAddresses s)(cid \<mapsto> remote)\<rparr> in
        case clientTable s1 cid of
          Some e \<Rightarrow>
            if req_clientreqid req < lastReqId e then Inr s1
            else if req_clientreqid req = lastReqId e then
              (if replied e then Inr (send s1 (AddressDest remote) (OutClient (reply e))) else Inr s1)
            else HandleRequest_new env s1 remote req
        | None \<Rightarrow> HandleRequest_new env s1 remote req)"

definition HandleUnloggedRequest ::
  "'a vr_env \<Rightarrow> 'a VRReplica \<Rightarrow> TransportAddress \<Rightarrow> string \<Rightarrow> 'a VRReplica result" where
  "HandleUnloggedRequest env s remote op =
     (if status s \<noteq> STATUS_NORMAL then Inr s
      else let (a, res) = ExecuteUnlogged (app env) (app_state s) op
           in Inr (send (s\<lparr>app_state := a\<rparr>) (AddressDest remote) (OutClient (ToClientUnloggedReply res))))"

text \<open>The loop of \<^verbatim>\<open>HandlePrepare\<close>, with its counter \<^verbatim>\<open>op\<close>.\<close>

definition prepare_one ::
  "'a vr_env \<Rightarrow> u64 \<Rightarrow> 'a VRReplica \<times> u64 \<Rightarrow> Request \<Rightarrow> ('a VRReplica \<times> u64) result" where
  "prepare_one env v p req =
     (let (s, op0) = p; op = op0 + 1 in
      if op \<le> lastOp s then Inr (s, op)
      else let s1 = s\<lparr>lastOp := lastOp s + 1\<rparr> in
           rbind (Append (sha1 env) (log s1) (LogEntry_new (viewstamp2 v op) LOG_STATE_PREPARED req)) (\<lambda>l.
           rbind (UpdateClientTable (s1\<lparr>log := l\<rparr>) req) (\<lambda>s2. Inr (s2, op))))"

definition HandlePrepare ::
  "'a vr_env \<Rightarrow> 'a VRReplica \<Rightarrow> TransportAddress \<Rightarrow> PrepareMessage \<Rightarrow> 'a VRReplica result" where
  "HandlePrepare env s remote msg =
     (if status s \<noteq> STATUS_NORMAL then Inr s
      else if pr_view msg < view s then Inr s
      else if pr_view msg > view s then
        (let s1 = RequestStateTransfer s
         in Inr (s1\<lparr>pendingPrepares := pendingPrepares s1 @ [(remote, msg)]\<rparr>))
      else
        check (\<not> AmLeader s) Panicked
        (check (pr_batchstart msg \<le> pr_opnum msg) AssertFailed
        (check (pr_opnum msg - pr_batchstart msg + 1 = word_of_nat (length (pr_request msg))) AssertFailed
          (let s1 = s\<lparr>viewChangeTimeout := True\<rparr>;
               ok = OutReplica (MsgPrepareOK \<lparr>pok_view = pr_view msg, pok_opnum = pr_opnum msg,
                      pok_replicaIdx = replicaIdx s1\<rparr>)
           in if pr_opnum msg \<le> lastOp s1 then Inr (send s1 (ReplicaDest (leader_of s1)) ok)
              else if pr_batchstart msg > lastOp s1 + 1 then
                (let s2 = RequestStateTransfer s1
                 in Inr (s2\<lparr>pendingPrepares := pendingPrepares s2 @ [(remote, msg)]\<rparr>))
              else
                rbind (fold_r (prepare_one env (pr_view msg)) (s1, pr_batchstart msg - 1) (pr_request msg))
                  (\<lambda>(s2, op).
                     check (op = pr_opnum msg) AssertFailed
                       (Inr (send s2 (ReplicaDest (leader_of s2)) ok)))))))"

definition HandlePrepareOK ::
  "'a vr_env \<Rightarrow> 'a VRReplica \<Rightarrow> TransportAddress \<Rightarrow> PrepareOKMessage \<Rightarrow> 'a VRReplica result" where
  "HandlePrepareOK env s remote msg =
     (if status s \<noteq> STATUS_NORMAL then Inr s
      else if pok_view msg < view s then Inr s
      else if pok_view msg > view s then Inr (RequestStateTransfer s)
      else if \<not> AmLeader s then Inr s
      else
        let (q, msgs) = AddAndCheckForQuorum (prepareOKQuorum s)
                          (viewstamp2 (pok_view msg) (pok_opnum msg)) (pok_replicaIdx msg) msg;
            s1 = s\<lparr>prepareOKQuorum := q\<rparr>
        in case msgs of
             None \<Rightarrow> Inr s1
           | Some ms \<Rightarrow>
               rbind (CommitUpTo env s1 (pok_opnum msg)) (\<lambda>s2.
                 if int (length ms) \<ge> QuorumSize (configuration s2) then Inr s2
                 else
                   let s3 = send s2 AllReplicas (OutReplica (MsgCommit (view s2) (lastCommitted s2)));
                       s4 = s3\<lparr>nullCommitTimeout := True\<rparr>
                   in if lastBatchEnd s4 = pok_opnum msg then
                        (let s5 = s4\<lparr>batchComplete := True\<rparr>
                         in if lastOp s5 > lastBatchEnd s5 then CloseBatch s5 else Inr s5)
                      else Inr s4))"

definition HandleCommit ::
  "'a vr_env \<Rightarrow> 'a VRReplica \<Rightarrow> TransportAddress \<Rightarrow> u64 \<Rightarrow> u64 \<Rightarrow> 'a VRReplica result" where
  "HandleCommit env s remote mview mopnum =
     (if status s \<noteq> STATUS_NORMAL then Inr s
      else if mview < view s then Inr s
      else if mview > view s then Inr (RequestStateTransfer s)
      else check (\<not> AmLeader s) Panicked
        (let s1 = s\<lparr>viewChangeTimeout := True\<rparr>
         in if mopnum \<le> lastCommitted s1 then Inr s1
            else if mopnum > lastOp s1 then Inr (RequestStateTransfer s1)
            else CommitUpTo env s1 mopnum))"

definition HandleRequestStateTransfer ::
  "'a VRReplica \<Rightarrow> TransportAddress \<Rightarrow> u64 \<Rightarrow> u64 \<Rightarrow> 'a VRReplica result" where
  "HandleRequestStateTransfer s remote mview mopnum =
     (if status s \<noteq> STATUS_NORMAL then Inr s
      else if mview > view s then Inr (RequestStateTransfer s)
      else rbind (Dump_from (log s) (mopnum + 1)) (\<lambda>es.
             Inr (send s (AddressDest remote) (OutReplica (MsgStateTransfer
               \<lparr>st_view = view s, st_opnum = lastCommitted s, st_entries = es\<rparr>)))))"

text \<open>The loop of \<^verbatim>\<open>HandleStateTransfer\<close>, with its variable \<^verbatim>\<open>oldLastOp\<close>; it dereferences what
  \<^verbatim>\<open>Find\<close> returns without checking it.\<close>

definition transfer_one ::
  "'a vr_env \<Rightarrow> 'a VRReplica \<times> u64 \<Rightarrow> MsgLogEntry \<Rightarrow> ('a VRReplica \<times> u64) result" where
  "transfer_one env p m =
     (let (s, oldLastOp) = p;
          e' = LogEntry_new (viewstamp2 (me_view m) (me_opnum m)) LOG_STATE_PREPARED (me_request m)
      in if me_opnum m \<le> lastCommitted s then Inr (s, oldLastOp)
         else if me_opnum m \<le> lastOp s then
           rbind (Find (log s) (me_opnum m)) (\<lambda>r. case r of
              None \<Rightarrow> Inl UndefinedBehaviour
            | Some e \<Rightarrow>
                check (vs_opnum (le_viewstamp e) = me_opnum m) AssertFailed
                (check (vs_view (le_viewstamp e) \<le> me_view m) AssertFailed
                  (if vs_view (le_viewstamp e) = me_view m
                   then check (le_state e = LOG_STATE_PREPARED) AssertFailed (Inr (s, oldLastOp))
                   else check (le_state e \<noteq> LOG_STATE_COMMITTED) AssertFailed
                     (rbind (RemoveAfter (log s) (me_opnum m)) (\<lambda>l.
                      rbind (Append (sha1 env) l e') (\<lambda>l'.
                        Inr (s\<lparr>lastOp := me_opnum m, log := l'\<rparr>, me_opnum m)))))))
         else
           check (me_opnum m = lastOp s + 1) AssertFailed
             (rbind (Append (sha1 env) (log s) e') (\<lambda>l.
                Inr (s\<lparr>lastOp := lastOp s + 1, log := l\<rparr>, oldLastOp))))"

definition HandleStateTransfer ::
  "'a vr_env \<Rightarrow> 'a VRReplica \<Rightarrow> TransportAddress \<Rightarrow> StateTransferMessage \<Rightarrow> 'a VRReplica result" where
  "HandleStateTransfer env s remote msg =
     (if st_view msg < view s then Inr s
      else
        rbind (fold_r (transfer_one env) (s, lastOp s) (st_entries msg)) (\<lambda>(s1, oldLastOp).
          let s2 = (if st_view msg > view s1 then EnterView s1 (st_view msg) else s1) in
          check (st_opnum msg \<le> lastOp s2) AssertFailed
            (rbind (CommitUpTo env s2 (st_opnum msg)) (\<lambda>s3.
             rbind (SendPrepareOKs s3 oldLastOp) (\<lambda>s4.
               fold_r (\<lambda>s p. HandlePrepare env s (fst p) (snd p)) (s4\<lparr>pendingPrepares := []\<rparr>)
                 (pendingPrepares s4))))))"

text \<open>The common opening of the two view-change handlers: a replica that is not yet changing to the
  message's view starts to.\<close>

definition join_view_change :: "'a VRReplica \<Rightarrow> u64 \<Rightarrow> 'a VRReplica" where
  "join_view_change s v =
     (if status s \<noteq> STATUS_VIEW_CHANGE \<or> v > view s then StartViewChange s v else s)"

text \<open>What \<^verbatim>\<open>HandleStartViewChange\<close> does with a quorum.\<close>

definition SendDoViewChange ::
  "'a VRReplica \<Rightarrow> (int \<times> StartViewChangeMessage) list \<Rightarrow> 'a VRReplica result" where
  "SendDoViewChange s ms =
     (if leader_of s = replicaIdx s then Inr s
      else
        rbind (min_committed svc_lastCommitted ms) (\<lambda>k.
        rbind (Dump_from (log s) (min k (lastCommitted s))) (\<lambda>es.
          Inr (send s (ReplicaDest (leader_of s)) (OutReplica (MsgDoViewChange
            \<lparr>dvc_view = view s, dvc_lastNormalView = vs_view (LastViewstamp (log s)),
             dvc_lastOp = lastOp s, dvc_lastCommitted = lastCommitted s,
             dvc_entries = es, dvc_replicaIdx = replicaIdx s\<rparr>))))))"

definition HandleStartViewChange ::
  "'a VRReplica \<Rightarrow> TransportAddress \<Rightarrow> StartViewChangeMessage \<Rightarrow> 'a VRReplica result" where
  "HandleStartViewChange s remote msg =
     (if svc_view msg < view s then Inr s
      else if svc_view msg = view s \<and> status s \<noteq> STATUS_VIEW_CHANGE then Inr s
      else
        let s1 = join_view_change s (svc_view msg) in
        check (svc_view msg = view s1) AssertFailed
          (let (q, msgs) = AddAndCheckForQuorum (startViewChangeQuorum s1) (svc_view msg) (svc_replicaIdx msg) msg;
               s2 = s1\<lparr>startViewChangeQuorum := q\<rparr>
           in case msgs of None \<Rightarrow> Inr s2 | Some ms \<Rightarrow> SendDoViewChange s2 ms))"

text \<open>The loop of \<^verbatim>\<open>HandleDoViewChange\<close>: \<^verbatim>\<open>latestView\<close>, \<^verbatim>\<open>latestOp\<close> and \<^verbatim>\<open>latestMsg\<close>.\<close>

definition latest_step ::
  "u64 \<times> u64 \<times> DoViewChangeMessage option \<Rightarrow> int \<times> DoViewChangeMessage \<Rightarrow>
   u64 \<times> u64 \<times> DoViewChangeMessage option" where
  "latest_step acc kv =
     (let (lv, lo, lm) = acc; x = snd kv
      in if dvc_lastNormalView x > lv \<or> (dvc_lastNormalView x = lv \<and> dvc_lastOp x > lo)
         then (dvc_lastNormalView x, dvc_lastOp x, Some x) else acc)"

definition select_log ::
  "'a VRReplica \<Rightarrow> (int \<times> DoViewChangeMessage) list \<Rightarrow> u64 \<times> DoViewChangeMessage option" where
  "select_log s ms =
     snd (foldl latest_step (vs_view (LastViewstamp (log s)), vs_opnum (LastViewstamp (log s)), None) ms)"

text \<open>Installing a received log, shared in form by the two view-change handlers.\<close>

definition install_new_log ::
  "'a vr_env \<Rightarrow> 'a VRReplica \<Rightarrow> u64 \<Rightarrow> MsgLogEntry list \<Rightarrow> 'a VRReplica result" where
  "install_new_log env s lastop es =
     check (me_opnum (hd es) \<le> lastCommitted s + 1) Panicked
       (rbind (RemoveAfter (log s) (lastop + 1)) (\<lambda>l.
        rbind (Install (sha1 env) l es) (\<lambda>l'. Inr (s\<lparr>log := l'\<rparr>))))"

text \<open>The selected log is installed; its message is read through the expired pointer.\<close>

definition adopt_log ::
  "'a vr_env \<Rightarrow> 'a VRReplica \<Rightarrow> DoViewChangeMessage \<Rightarrow> DoViewChangeMessage option \<Rightarrow>
   ('a VRReplica \<times> DoViewChangeMessage option) result" where
  "adopt_log env s msg latest =
     (case latest of
        None \<Rightarrow> Inr (s, None)
      | Some x \<Rightarrow>
          check (survives_dvc env x) UndefinedBehaviour
            (if dvc_entries x = []
             then check (lastCommitted s = dvc_lastCommitted msg) AssertFailed
                  (check (dvc_lastOp msg = dvc_lastCommitted msg) AssertFailed (Inr (s, Some x)))
             else rbind (install_new_log env s (dvc_lastOp x) (dvc_entries x))
                    (\<lambda>s'. Inr (s', Some x))))"

text \<open>Entering the view as its leader and announcing the log.\<close>

definition lead_view ::
  "'a vr_env \<Rightarrow> 'a VRReplica \<Rightarrow> u64 \<Rightarrow> u64 \<Rightarrow> u64 \<Rightarrow> DoViewChangeMessage option \<Rightarrow> 'a VRReplica result" where
  "lead_view env s newview minCommitted latestOp latestMsg =
     (let s1 = EnterView s newview
      in check (AmLeader s1) AssertFailed
           (let s2 = s1\<lparr>lastOp := latestOp\<rparr> in
            rbind (case latestMsg of
                     None \<Rightarrow> Inr s2
                   | Some y \<Rightarrow> CommitUpTo env s2 (dvc_lastCommitted y)) (\<lambda>s3.
            rbind (Dump_from (log s3) minCommitted) (\<lambda>es.
              Inr (send s3 AllReplicas (OutReplica (MsgStartView
                \<lparr>sv_view = view s3, sv_lastOp = lastOp s3,
                 sv_lastCommitted = lastCommitted s3, sv_entries = es\<rparr>)))))))"

definition HandleDoViewChange ::
  "'a vr_env \<Rightarrow> 'a VRReplica \<Rightarrow> TransportAddress \<Rightarrow> DoViewChangeMessage \<Rightarrow> 'a VRReplica result" where
  "HandleDoViewChange env s remote msg =
     (if dvc_view msg < view s then Inr s
      else if dvc_view msg = view s \<and> status s \<noteq> STATUS_VIEW_CHANGE then Inr s
      else
        let s1 = join_view_change s (dvc_view msg) in
        check (GetLeaderIndex (configuration s1) (dvc_view msg) = replicaIdx s1) AssertFailed
          (let (q, msgs) = AddAndCheckForQuorum (doViewChangeQuorum s1) (dvc_view msg) (dvc_replicaIdx msg) msg;
               s2 = s1\<lparr>doViewChangeQuorum := q\<rparr>
           in case msgs of
                None \<Rightarrow> Inr s2
              | Some ms \<Rightarrow>
                  let (latestOp, latest) = select_log s2 ms
                  in rbind (adopt_log env s2 msg latest) (\<lambda>(s3, latestMsg).
                     rbind (min_committed svc_lastCommitted
                              (GetMessages (startViewChangeQuorum s3) (view s3))) (\<lambda>minSVC.
                     rbind (min_committed dvc_lastCommitted ms) (\<lambda>minDVC.
                       lead_view env s3 (dvc_view msg) (min (min minSVC minDVC) (lastCommitted s3))
                         latestOp latestMsg)))))"

definition HandleStartView ::
  "'a vr_env \<Rightarrow> 'a VRReplica \<Rightarrow> TransportAddress \<Rightarrow> StartViewMessage \<Rightarrow> 'a VRReplica result" where
  "HandleStartView env s remote msg =
     (if sv_view msg < view s then Inr s
      else if sv_view msg = view s \<and> status s \<noteq> STATUS_VIEW_CHANGE then Inr s
      else
        check (GetLeaderIndex (configuration s) (sv_view msg) \<noteq> replicaIdx s) AssertFailed
          (rbind (if sv_entries msg = []
                  then check (sv_lastCommitted msg = lastCommitted s) AssertFailed
                       (check (sv_lastOp msg = sv_lastCommitted msg) AssertFailed (Inr s))
                  else install_new_log env s (sv_lastOp msg) (sv_entries msg))
            (\<lambda>s1.
               let s2 = EnterView s1 (sv_view msg);
                   oldLastOp = lastOp s2;
                   s3 = s2\<lparr>lastOp := sv_lastOp msg\<rparr>
               in check (\<not> AmLeader s3) AssertFailed
                    (rbind (CommitUpTo env s3 (sv_lastCommitted msg)) (\<lambda>s4.
                       SendPrepareOKs s4 oldLastOp)))))"

definition HandleRecovery ::
  "'a VRReplica \<Rightarrow> TransportAddress \<Rightarrow> int \<Rightarrow> u64 \<Rightarrow> 'a VRReplica result" where
  "HandleRecovery s remote idx nonce =
     (if status s \<noteq> STATUS_NORMAL then Inr s
      else
        let base = \<lparr>rr_view = view s, rr_nonce = nonce, rr_entries = [], rr_lastOp = 0,
                     rr_lastCommitted = 0, rr_replicaIdx = replicaIdx s\<rparr>
        in rbind (if AmLeader s
                  then rbind (Dump_from (log s) 0) (\<lambda>es.
                         Inr (base\<lparr>rr_lastCommitted := lastCommitted s, rr_lastOp := lastOp s,
                                   rr_entries := es\<rparr>))
                  else Inr base)
             (\<lambda>m. Inr (send s (AddressDest remote) (OutReplica (MsgRecoveryResponse m)))))"

text \<open>Recovery completes with the leader's response; its counters are read after \<^verbatim>\<open>EnterView\<close> has
  cleared the quorum.\<close>

definition finish_recovery ::
  "'a vr_env \<Rightarrow> 'a VRReplica \<Rightarrow> RecoveryResponseMessage \<Rightarrow> 'a VRReplica result" where
  "finish_recovery env s x =
     rbind (Install (sha1 env) (log s) (rr_entries x)) (\<lambda>l.
       let s1 = EnterView (s\<lparr>log := l\<rparr>) (rr_view x)
       in check (survives_rr env x) UndefinedBehaviour
            (CommitUpTo env (s1\<lparr>lastOp := rr_lastOp x\<rparr>) (rr_lastCommitted x)))"

definition HandleRecoveryResponse ::
  "'a vr_env \<Rightarrow> 'a VRReplica \<Rightarrow> TransportAddress \<Rightarrow> RecoveryResponseMessage \<Rightarrow> 'a VRReplica result" where
  "HandleRecoveryResponse env s remote msg =
     (if status s \<noteq> STATUS_RECOVERING then Inr s
      else if rr_nonce msg \<noteq> recoveryNonce s then Inr s
      else
        let (q, msgs) = AddAndCheckForQuorum (recoveryResponseQuorum s) (rr_nonce msg) (rr_replicaIdx msg) msg;
            s1 = s\<lparr>recoveryResponseQuorum := q\<rparr>
        in case msgs of
             None \<Rightarrow> Inr s1
           | Some ms \<Rightarrow>
               let highestView = foldl (\<lambda>h kv. if rr_view (snd kv) > h then rr_view (snd kv) else h) 0 ms;
                   leader = GetLeaderIndex (configuration s1) highestView
               in check (leader \<noteq> replicaIdx s1) AssertFailed
                    (case map_of ms leader of
                       None \<Rightarrow> Inr s1
                     | Some x \<Rightarrow>
                         if rr_view x \<noteq> highestView then Inr s1
                         else finish_recovery env s1 x))"

section \<open>Dispatch, timeouts and construction\<close>

definition ReceiveMessage ::
  "'a vr_env \<Rightarrow> 'a VRReplica \<Rightarrow> TransportAddress \<Rightarrow> ToReplicaMessage \<Rightarrow> 'a VRReplica result" where
  "ReceiveMessage env s remote m =
     (case m of
        MsgRequest req \<Rightarrow> HandleRequest env s remote req
      | MsgUnloggedRequest op _ _ \<Rightarrow> HandleUnloggedRequest env s remote op
      | MsgPrepare p \<Rightarrow> HandlePrepare env s remote p
      | MsgPrepareOK p \<Rightarrow> HandlePrepareOK env s remote p
      | MsgCommit v op \<Rightarrow> HandleCommit env s remote v op
      | MsgRequestStateTransfer v op \<Rightarrow> HandleRequestStateTransfer s remote v op
      | MsgStateTransfer st \<Rightarrow> HandleStateTransfer env s remote st
      | MsgStartViewChange svc \<Rightarrow> HandleStartViewChange s remote svc
      | MsgDoViewChange dvc \<Rightarrow> HandleDoViewChange env s remote dvc
      | MsgStartView sv \<Rightarrow> HandleStartView env s remote sv
      | MsgRecovery idx nonce \<Rightarrow> HandleRecovery s remote idx nonce
      | MsgRecoveryResponse rr \<Rightarrow> HandleRecoveryResponse env s remote rr
      | MsgNotSet \<Rightarrow> Inl Panicked)"

datatype VRTimeout =
    ViewChangeTimeout
  | NullCommitTimeout
  | StateTransferTimeout
  | ResendPrepareTimeout
  | CloseBatchTimeout
  | RecoveryTimeout

text \<open>A timeout fires only while it is active; the callbacks are the constructor's lambdas.\<close>

definition HandleTimeout :: "'a VRReplica \<Rightarrow> VRTimeout \<Rightarrow> 'a VRReplica result" where
  "HandleTimeout s t =
     (case t of
        ViewChangeTimeout \<Rightarrow> if viewChangeTimeout s then Inr (StartViewChange s (view s + 1)) else Inr s
      | NullCommitTimeout \<Rightarrow> if nullCommitTimeout s then SendNullCommit s else Inr s
      | StateTransferTimeout \<Rightarrow>
          if stateTransferTimeout s
          then Inr (s\<lparr>lastRequestStateTransferView := 0, lastRequestStateTransferOpnum := 0\<rparr>) else Inr s
      | ResendPrepareTimeout \<Rightarrow> if resendPrepareTimeout s then ResendPrepare s else Inr s
      | CloseBatchTimeout \<Rightarrow> if closeBatchTimeout s then CloseBatch s else Inr s
      | RecoveryTimeout \<Rightarrow> if recoveryTimeout s then Inr (SendRecoveryMessages s) else Inr s)"

text \<open>The constructor; the random nonce is an argument.\<close>

definition VRReplica_new ::
  "Configuration \<Rightarrow> int \<Rightarrow> bool \<Rightarrow> u32 \<Rightarrow> u64 \<Rightarrow> 'a \<Rightarrow> 'a VRReplica result" where
  "VRReplica_new c idx initialize bs nonce a =
     rbind (Log_new False 1 EMPTY_HASH) (\<lambda>l.
       let s = \<lparr>configuration = c, replicaIdx = idx, status = STATUS_NORMAL, view = 0,
                lastCommitted = 0, lastOp = 0, lastRequestStateTransferView = 0,
                lastRequestStateTransferOpnum = 0, recoveryNonce = 0, pendingPrepares = [],
                lastPrepare = None, batchSize = bs, lastBatchEnd = 0, batchComplete = True, log = l,
                clientAddresses = (\<lambda>_. None), clientTable = (\<lambda>_. None),
                prepareOKQuorum = QuorumSet_new (QuorumSize c - 1),
                startViewChangeQuorum = QuorumSet_new (QuorumSize c - 1),
                doViewChangeQuorum = QuorumSet_new (QuorumSize c - 1),
                recoveryResponseQuorum = QuorumSet_new (QuorumSize c),
                viewChangeTimeout = False, nullCommitTimeout = False, stateTransferTimeout = True,
                resendPrepareTimeout = False, closeBatchTimeout = False, recoveryTimeout = False,
                app_state = a, outbox = []\<rparr>
       in if initialize
          then Inr (if AmLeader s then s\<lparr>nullCommitTimeout := True\<rparr> else s\<lparr>viewChangeTimeout := True\<rparr>)
          else Inr (SendRecoveryMessages (s\<lparr>status := STATUS_RECOVERING, recoveryNonce := nonce\<rparr>)
                      \<lparr>recoveryTimeout := True\<rparr>))"

datatype vr_event = Deliver TransportAddress ToReplicaMessage | Fire VRTimeout

definition vr_step :: "'a vr_env \<Rightarrow> 'a VRReplica \<Rightarrow> vr_event \<Rightarrow> 'a VRReplica result" where
  "vr_step env s ev =
     (case ev of Deliver remote m \<Rightarrow> ReceiveMessage env s remote m | Fire t \<Rightarrow> HandleTimeout s t)"

end
