(* ===== verification/VRCommit.thy ===== *)
theory VRCommit
  imports VRReplica
begin

text \<open>
  How the Viewstamped Replication replica executes its log.  \<open>log_inv\<close> ties the counters
  \<^verbatim>\<open>lastOp\<close> and \<^verbatim>\<open>lastCommitted\<close> to the log; under it \<^verbatim>\<open>CommitUpTo\<close> never aborts, runs every operation
  between the old and the new commit point exactly once and in order, and changes nothing else
  (\<open>commit_frame\<close>).  Every handler that commits is analysed through these lemmas.
\<close>

definition log_inv :: "'a VRReplica \<Rightarrow> bool" where
  "log_inv s \<longleftrightarrow>
     log_wf (log s) \<and> start (log s) = 1 \<and> \<not> useHash (log s) \<and> LastOpnum (log s) \<noteq> - 1 \<and>
     lastOp s = LastOpnum (log s) \<and> lastCommitted s \<le> LastOpnum (log s)"

lemma log_invD:
  assumes "log_inv s"
  shows "log_wf (log s)" "start (log s) = 1" "\<not> useHash (log s)" "lastOp s = LastOpnum (log s)"
    "lastOp s \<noteq> - 1" "lastCommitted s \<le> lastOp s"
  using assms unfolding log_inv_def by simp_all

text \<open>\<open>commit_frame s s'\<close>: only what committing touches may differ.\<close>

definition commit_frame :: "'a VRReplica \<Rightarrow> 'a VRReplica \<Rightarrow> bool" where
  "commit_frame s s' \<longleftrightarrow>
     s' = s\<lparr>lastCommitted := lastCommitted s', app_state := app_state s', log := log s',
            clientTable := clientTable s', outbox := outbox s'\<rparr>"

lemma commit_frame_refl [simp]: "commit_frame s s"
  by (simp add: commit_frame_def)

lemma commit_frameD:
  assumes "commit_frame s s'"
  shows "configuration s' = configuration s" "replicaIdx s' = replicaIdx s" "status s' = status s"
    "view s' = view s" "lastOp s' = lastOp s" "recoveryNonce s' = recoveryNonce s"
    "pendingPrepares s' = pendingPrepares s" "lastPrepare s' = lastPrepare s"
    "batchSize s' = batchSize s" "lastBatchEnd s' = lastBatchEnd s"
    "batchComplete s' = batchComplete s" "clientAddresses s' = clientAddresses s"
    "prepareOKQuorum s' = prepareOKQuorum s" "startViewChangeQuorum s' = startViewChangeQuorum s"
    "doViewChangeQuorum s' = doViewChangeQuorum s"
    "recoveryResponseQuorum s' = recoveryResponseQuorum s"
    "AmLeader s' = AmLeader s" "leader_of s' = leader_of s"
  using assms by (cases s; cases s'; simp add: commit_frame_def AmLeader_def leader_of_def)+

lemma commit_frame_trans: "\<lbrakk> commit_frame s t; commit_frame t u \<rbrakk> \<Longrightarrow> commit_frame s u"
  unfolding commit_frame_def by (cases s; cases t; cases u) simp

section \<open>One commit\<close>

definition mark_committed :: "LogEntry \<Rightarrow> LogEntry" where
  "mark_committed e = e\<lparr>le_state := LOG_STATE_COMMITTED\<rparr>"

lemma commit_next_Inr:
  assumes inv: "log_wf (log s)" and step: "commit_next env s = Inr s'"
  shows "\<exists>e. log_at (log s) (lastCommitted s + 1) = Some e \<and> commit_frame s s' \<and>
     lastCommitted s' = lastCommitted s + 1 \<and>
     log_wf (log s') \<and> start (log s') = start (log s) \<and> useHash (log s') = useHash (log s) \<and>
     LastOpnum (log s') = LastOpnum (log s) \<and>
     (\<forall>i. log_at (log s') i =
        (if i = lastCommitted s + 1 then Some (mark_committed e) else log_at (log s) i)) \<and>
     app_state s' = fst (Execute (app env) (app_state s) (lastCommitted s + 1) (le_request e) (Some (AmLeader s))) \<and>
     (\<exists>out. outbox s' = outbox s @ out \<and> (\<forall>p\<in>set out. \<exists>a m. p = (AddressDest a, OutClient m)))"
proof -
  let ?op = "lastCommitted s + 1"
  have am: "AmLeader (s\<lparr>lastCommitted := ?op\<rparr>) = AmLeader s" by (simp add: AmLeader_def)
  obtain e where e: "log_at (log s) ?op = Some e"
    using step by (cases "log_at (log s) ?op") (auto simp: commit_next_def Let_def Find_eq [OF inv])
  obtain l b where set: "SetStatus (log s) ?op LOG_STATE_COMMITTED = Inr (l, b)"
    using e by (auto simp: SetStatus_eq [OF inv])
  let ?x = "Execute (app env) (app_state s) ?op (le_request e) (Some (AmLeader s))"
  have s': "s' = record_reply (s\<lparr>lastCommitted := ?op, app_state := fst ?x, log := l\<rparr>) (le_request e)
      (commit_reply e (snd ?x))"
    using step e set by (simp add: commit_next_def Let_def Find_eq [OF inv] am)
  have frame: "commit_frame s s'"
    by (simp add: s' commit_frame_def record_reply_def Let_def put_client_def send_def split: option.splits)
  have out: "\<exists>out. outbox s' = outbox s @ out \<and> (\<forall>p\<in>set out. \<exists>a m. p = (AddressDest a, OutClient m))"
    by (auto simp: s' record_reply_def Let_def put_client_def send_def split: option.splits)
  show ?thesis
    using SetStatus_wf [OF inv set] e frame out
    by (intro exI [of _ e]) (simp add: s' mark_committed_def)
qed

lemma commit_next_ok:
  assumes inv: "log_wf (log s)" and "log_at (log s) (lastCommitted s + 1) \<noteq> None"
  shows "\<exists>s'. commit_next env s = Inr s'"
  using assms(2) by (auto simp: commit_next_def Let_def Find_eq [OF inv] SetStatus_eq [OF inv])

section \<open>The loop\<close>

lemma CommitUpTo_done: "\<not> lastCommitted s < k \<Longrightarrow> CommitUpTo env s k = Inr s"
  by (simp add: CommitUpTo.simps)

lemma CommitUpTo_step:
  "lastCommitted s < k \<Longrightarrow> CommitUpTo env s k = rbind (commit_next env s) (\<lambda>s'. CommitUpTo env s' k)"
  by (simp add: CommitUpTo.simps [of env s])

text \<open>What one iteration keeps, the loop keeps.\<close>

lemma CommitUpTo_invariant:
  assumes "CommitUpTo env s k = Inr s'" and "P s"
    and "\<And>s s'. \<lbrakk> P s; lastCommitted s < k; commit_next env s = Inr s' \<rbrakk> \<Longrightarrow> P s'"
  shows "P s' \<and> k \<le> lastCommitted s'"
  using assms
proof (induction env s k rule: CommitUpTo.induct)
  case (1 env s k)
  show ?case
  proof (cases "lastCommitted s < k")
    case True
    then obtain t where t: "commit_next env s = Inr t" and rest: "CommitUpTo env t k = Inr s'"
      using "1.prems"(1) by (auto simp: CommitUpTo_step)
    from "1.prems"(2,3) True t have "P t" by blast
    then show ?thesis using "1.IH" [OF True t rest] "1.prems"(3) by blast
  next
    case False
    with "1.prems"(1,2) show ?thesis by (simp add: CommitUpTo_done)
  qed
qed

text \<open>The reference for execution: the state of the application after the operations \<open>ops\<close> of a
  log, one after the other.\<close>

definition run_op :: "'a AppReplica \<Rightarrow> bool \<Rightarrow> Log \<Rightarrow> 'a \<Rightarrow> u64 \<Rightarrow> 'a" where
  "run_op ap ldr l a op =
     (case log_at l op of
        None \<Rightarrow> a
      | Some e \<Rightarrow> fst (Execute ap a op (le_request e) (Some ldr)))"

definition run_ops :: "'a AppReplica \<Rightarrow> bool \<Rightarrow> Log \<Rightarrow> 'a \<Rightarrow> u64 list \<Rightarrow> 'a" where
  "run_ops ap ldr l a ops = foldl (run_op ap ldr l) a ops"

lemma run_ops_cong:
  assumes "\<forall>op\<in>set ops. map_option le_request (log_at l op) = map_option le_request (log_at l' op)"
  shows "run_ops ap ldr l a ops = run_ops ap ldr l' a ops"
  using assms
proof (induction ops arbitrary: a)
  case (Cons op ops)
  then have "run_op ap ldr l a op = run_op ap ldr l' a op"
    by (auto simp: run_op_def split: option.splits)
  with Cons show ?case by (simp add: run_ops_def)
qed (simp add: run_ops_def)

lemma commit_next_log_inv:
  assumes inv: "log_inv s" and step: "commit_next env s = Inr s'"
  shows "log_inv s' \<and> commit_frame s s' \<and> unat (lastCommitted s') = Suc (unat (lastCommitted s))"
proof -
  note I = log_invD [OF inv]
  obtain e where e: "log_at (log s) (lastCommitted s + 1) = Some e" and fr: "commit_frame s s'"
    and c: "lastCommitted s' = lastCommitted s + 1"
    and l: "log_wf (log s')" "start (log s') = start (log s)" "useHash (log s') = useHash (log s)"
      "LastOpnum (log s') = LastOpnum (log s)"
    using commit_next_Inr [OF I(1) step] by (elim exE conjE) simp
  have "lastCommitted s + 1 \<le> lastOp s" using log_at_dom [OF I(1)] e I(4) by fastforce
  moreover have "lastCommitted s \<noteq> - 1" using I(5,6) unfolding u64_not_max word_le_nat_alt by simp
  then have "unat (lastCommitted s') = Suc (unat (lastCommitted s))"
    using c unat_add_of_nat [of "lastCommitted s" 1] unfolding u64_not_max by simp
  ultimately show ?thesis
    using I l c fr commit_frameD(5) [OF fr] unfolding log_inv_def by simp
qed

lemma CommitUpTo_Inr:
  assumes inv: "log_inv s" and run: "CommitUpTo env s k = Inr s'"
  shows "k \<le> lastOp s"
proof -
  have "(log_inv s' \<and> commit_frame s s') \<and> k \<le> lastCommitted s'"
  proof (rule CommitUpTo_invariant [OF run])
    show "log_inv t' \<and> commit_frame s t'"
      if "log_inv t \<and> commit_frame s t" "lastCommitted t < k" "commit_next env t = Inr t'" for t t'
      using commit_next_log_inv [of t env t'] that commit_frame_trans by blast
  qed (simp add: inv)
  then show ?thesis using log_invD(6) commit_frameD(5) by fastforce
qed

lemma CommitUpTo_spec:
  assumes "log_inv s" and "k \<le> lastOp s"
  shows "\<exists>s'. CommitUpTo env s k = Inr s' \<and> log_inv s' \<and> commit_frame s s' \<and>
     lastCommitted s' = max (lastCommitted s) k \<and>
     (\<forall>i. log_at (log s') i = (if lastCommitted s < i \<and> i \<le> k
        then map_option mark_committed (log_at (log s) i) else log_at (log s) i)) \<and>
     app_state s' = run_ops (app env) (AmLeader s) (log s) (app_state s) (op_range (lastCommitted s + 1) (k + 1)) \<and>
     (\<exists>out. outbox s' = outbox s @ out \<and> (\<forall>p\<in>set out. \<exists>a m. p = (AddressDest a, OutClient m)))"
  using assms
proof (induction env s k rule: CommitUpTo.induct)
  case (1 env s k)
  note I = log_invD [OF "1.prems"(1)]
  let ?c = "lastCommitted s"
  have k1: "unat (k + 1) = unat k + 1"
    using "1.prems"(2) I(5) unat_add_of_nat [of k 1] unfolding u64_not_max word_le_nat_alt by simp
  show ?case
  proof (cases "?c < k")
    case False
    then have "op_range (?c + 1) (k + 1) = []" if "?c \<noteq> - 1"
      using that k1 unat_add_of_nat [of ?c 1] unfolding u64_not_max
      by (simp add: op_range_def word_less_nat_alt)
    moreover have "?c \<noteq> - 1" using I(5,6) unfolding u64_not_max word_le_nat_alt by simp
    ultimately show ?thesis
      using False "1.prems"(1) by (auto simp: CommitUpTo_done run_ops_def max_def)
  next
    case True
    have c1: "unat (?c + 1) = Suc (unat ?c)" using True by (rule unat_Suc_less)
    have "1 \<le> ?c + 1" "?c + 1 \<le> LastOpnum (log s)"
      using c1 True "1.prems"(2) I(4) by (simp_all add: word_le_nat_alt word_less_nat_alt)
    then have "log_at (log s) (?c + 1) \<noteq> None" using log_at_dom [OF I(1)] I(2) by simp
    then obtain t where t: "commit_next env s = Inr t" using commit_next_ok [OF I(1)] by blast
    obtain e where e: "log_at (log s) (?c + 1) = Some e"
      and ct: "lastCommitted t = ?c + 1"
      and lt: "\<forall>i. log_at (log t) i = (if i = ?c + 1 then Some (mark_committed e) else log_at (log s) i)"
      and at: "app_state t = fst (Execute (app env) (app_state s) (?c + 1) (le_request e) (Some (AmLeader s)))"
      and ot: "\<exists>out. outbox t = outbox s @ out \<and> (\<forall>p\<in>set out. \<exists>a m. p = (AddressDest a, OutClient m))"
      using commit_next_Inr [OF I(1) t] by (elim exE conjE) simp
    have it: "log_inv t" and ft: "commit_frame s t"
      using commit_next_log_inv [OF "1.prems"(1) t] by simp_all
    have "k \<le> lastOp t" using "1.prems"(2) commit_frameD(5) [OF ft] by simp
    from "1.IH" [OF True t it this] obtain u where
      u: "CommitUpTo env t k = Inr u" "log_inv u" "commit_frame t u"
        "lastCommitted u = max (lastCommitted t) k"
      and lu: "\<forall>i. log_at (log u) i = (if lastCommitted t < i \<and> i \<le> k
        then map_option mark_committed (log_at (log t) i) else log_at (log t) i)"
      and au: "app_state u = run_ops (app env) (AmLeader t) (log t) (app_state t)
                 (op_range (lastCommitted t + 1) (k + 1))"
      and ou: "\<exists>out. outbox u = outbox t @ out \<and> (\<forall>p\<in>set out. \<exists>a m. p = (AddressDest a, OutClient m))"
      by (elim exE conjE) simp
    have "CommitUpTo env s k = Inr u" using True t u(1) by (simp add: CommitUpTo_step)
    moreover have "commit_frame s u" using ft u(3) by (rule commit_frame_trans)
    moreover have "lastCommitted u = max ?c k"
      using u(4) ct True c1 by (auto simp: max_def word_le_nat_alt word_less_nat_alt intro: u64_eqI)
    moreover have "log_at (log u) i = (if ?c < i \<and> i \<le> k
        then map_option mark_committed (log_at (log s) i) else log_at (log s) i)" for i
    proof (cases "i = ?c + 1")
      case i: True
      have "?c < i" "i \<le> k" using i c1 True by (simp_all add: word_le_nat_alt word_less_nat_alt)
      then show ?thesis using i lu lt ct e by simp
    next
      case False
      then have "?c + 1 < i \<longleftrightarrow> ?c < i"
        using c1 u64_eqI [of i "?c + 1"] unfolding word_less_nat_alt by linarith
      then show ?thesis using False lu lt ct by simp
    qed
    moreover have "app_state u = run_ops (app env) (AmLeader s) (log s) (app_state s) (op_range (?c + 1) (k + 1))"
    proof -
      have range: "op_range (?c + 1) (k + 1) = (?c + 1) # op_range (?c + 1 + 1) (k + 1)"
        using c1 k1 True by (intro op_range_Cons) (simp add: word_less_nat_alt)
      have "run_ops (app env) (AmLeader s) (log t) (app_state t) (op_range (?c + 1 + 1) (k + 1)) =
          run_ops (app env) (AmLeader s) (log s) (app_state t) (op_range (?c + 1 + 1) (k + 1))"
        using lt e by (intro run_ops_cong) (auto simp: mark_committed_def)
      then show ?thesis
        using au at e commit_frameD(17) [OF ft] ct unfolding range
        by (simp add: run_ops_def run_op_def)
    qed
    moreover have "\<exists>out. outbox u = outbox s @ out \<and> (\<forall>p\<in>set out. \<exists>a m. p = (AddressDest a, OutClient m))"
      using ot ou by (elim exE conjE) (intro exI conjI, simp, auto)
    ultimately show ?thesis using u(2) by (intro exI [of _ u]) simp
  qed
qed

end
