(* ===== verification/VRInvariant.thy ===== *)
theory VRInvariant
  imports VRCommit
begin

text \<open>
  The invariant of the Viewstamped Replication replica and its preservation by every message and
  every timeout.  Besides \<open>log_inv\<close> it says that every message the replica has sent, or keeps for
  later, is well formed (\<open>msg_wf\<close>), and which timeouts may be running.  What a handler needs of an
  incoming message beyond well-formedness is \<open>vr_expects\<close>: it speaks only of operation
  numbers running out and of a view change not dropping what this replica has committed.
\<close>

section \<open>Well-formed messages\<close>

text \<open>Entries that end at operation \<open>lastop\<close>.\<close>

definition entries_to :: "u64 \<Rightarrow> MsgLogEntry list \<Rightarrow> bool" where
  "entries_to lastop es \<longleftrightarrow>
     lastop \<noteq> - 1 \<and>
     (es \<noteq> [] \<longrightarrow> 1 \<le> me_opnum (hd es) \<and> consecutive (me_opnum (hd es)) es \<and> me_opnum (last es) = lastop)"

definition prepare_wf :: "PrepareMessage \<Rightarrow> bool" where
  "prepare_wf p \<longleftrightarrow>
     1 \<le> pr_batchstart p \<and> pr_batchstart p \<le> pr_opnum p \<and> pr_opnum p \<noteq> - 1 \<and>
     length (pr_request p) = unat (pr_opnum p) - unat (pr_batchstart p) + 1"

definition dvc_wf :: "DoViewChangeMessage \<Rightarrow> bool" where
  "dvc_wf x \<longleftrightarrow> entries_to (dvc_lastOp x) (dvc_entries x) \<and> dvc_lastCommitted x \<le> dvc_lastOp x \<and>
     (dvc_entries x = [] \<longrightarrow> dvc_lastOp x = 0 \<and> dvc_lastNormalView x = 0)"

definition rr_wf :: "RecoveryResponseMessage \<Rightarrow> bool" where
  "rr_wf x \<longleftrightarrow> entries_to (rr_lastOp x) (rr_entries x) \<and> rr_lastCommitted x \<le> rr_lastOp x \<and>
     (rr_entries x = [] \<longrightarrow> rr_lastOp x = 0)"

fun msg_wf :: "ToReplicaMessage \<Rightarrow> bool" where
  "msg_wf (MsgPrepare p) = prepare_wf p"
| "msg_wf (MsgStateTransfer st) = (\<forall>m\<in>set (st_entries st). me_opnum m \<noteq> - 1)"
| "msg_wf (MsgDoViewChange x) = dvc_wf x"
| "msg_wf (MsgStartView sv) =
     (entries_to (sv_lastOp sv) (sv_entries sv) \<and> sv_lastCommitted sv \<le> sv_lastOp sv \<and>
      (sv_entries sv = [] \<longrightarrow> sv_lastOp sv = 0))"
| "msg_wf (MsgRecoveryResponse x) = rr_wf x"
| "msg_wf MsgNotSet = False"
| "msg_wf _ = True"

section \<open>The invariant\<close>

definition msgs_inv :: "'a VRReplica \<Rightarrow> bool" where
  "msgs_inv s \<longleftrightarrow>
     (\<forall>p\<in>set (pendingPrepares s). prepare_wf (snd p)) \<and>
     (\<forall>p. lastPrepare s = Some p \<longrightarrow> prepare_wf p) \<and>
     (\<forall>v. \<forall>p\<in>set (messages (doViewChangeQuorum s) v). dvc_wf (snd p)) \<and>
     (\<forall>v. \<forall>p\<in>set (messages (recoveryResponseQuorum s) v). rr_wf (snd p)) \<and>
     (\<forall>d m. (d, OutReplica m) \<in> set (outbox s) \<longrightarrow> msg_wf m)"

definition timers_inv :: "'a VRReplica \<Rightarrow> bool" where
  "timers_inv s \<longleftrightarrow>
     (nullCommitTimeout s \<or> resendPrepareTimeout s \<or> closeBatchTimeout s \<longrightarrow> AmLeader s) \<and>
     (resendPrepareTimeout s \<longrightarrow> lastPrepare s \<noteq> None)"

definition rest_inv :: "'a VRReplica \<Rightarrow> bool" where
  "rest_inv s \<longleftrightarrow> msgs_inv s \<and> timers_inv s \<and> (status s = STATUS_RECOVERING \<longrightarrow> view s = 0)"

definition vr_inv :: "'a VRReplica \<Rightarrow> bool" where
  "vr_inv s \<longleftrightarrow> log_inv s \<and> rest_inv s"

definition covers :: "'a VRReplica \<Rightarrow> DoViewChangeMessage \<Rightarrow> bool" where
  "covers s x \<longleftrightarrow>
     (vs_view (LastViewstamp (log s)) < dvc_lastNormalView x \<longrightarrow> lastCommitted s \<le> dvc_lastOp x)"

fun vr_expects :: "'a VRReplica \<Rightarrow> ToReplicaMessage \<Rightarrow> bool" where
  "vr_expects s (MsgRequest _) = (lastOp s + 1 \<noteq> - 1)"
| "vr_expects s (MsgStartView sv) =
     ((sv_entries sv = [] \<longrightarrow> lastOp s = 0) \<and> lastCommitted s \<le> sv_lastOp sv)"
| "vr_expects s (MsgDoViewChange x) =
     (covers s x \<and> (\<forall>p\<in>set (messages (doViewChangeQuorum s) (dvc_view x)). covers s (snd p)))"
| "vr_expects s (MsgRecoveryResponse _) = (status s = STATUS_RECOVERING \<longrightarrow> lastOp s = 0)"
| "vr_expects s _ = True"

fun vr_ok :: "'a VRReplica \<Rightarrow> vr_event \<Rightarrow> bool" where
  "vr_ok s (Deliver _ m) = (msg_wf m \<and> vr_expects s m)"
| "vr_ok s (Fire t) = True"

lemmas frame_defs = send_def RequestStateTransfer_def EnterView_def StartViewChange_def put_client_def
  Let_def AmLeader_def leader_of_def

section \<open>Helpers keep the invariant\<close>

lemma log_inv_send [simp]: "log_inv (send s d m) = log_inv s"
  by (simp add: log_inv_def send_def)

lemma rest_inv_send:
  "rest_inv s \<Longrightarrow> (\<And>x. m = OutReplica x \<Longrightarrow> msg_wf x) \<Longrightarrow> rest_inv (send s d m)"
  by (auto simp: rest_inv_def msgs_inv_def timers_inv_def send_def AmLeader_def)

lemma log_inv_RST [simp]: "log_inv (RequestStateTransfer s) = log_inv s"
  by (simp add: log_inv_def frame_defs)

lemma rest_inv_RST: "rest_inv s \<Longrightarrow> rest_inv (RequestStateTransfer s)"
  by (auto simp: rest_inv_def msgs_inv_def timers_inv_def frame_defs)

lemma log_inv_SVC [simp]: "log_inv (StartViewChange s v) = log_inv s"
  by (simp add: log_inv_def frame_defs)

lemma rest_inv_SVC: "rest_inv s \<Longrightarrow> rest_inv (StartViewChange s v)"
  by (auto simp: rest_inv_def msgs_inv_def timers_inv_def frame_defs)

lemma rest_inv_EnterView: "rest_inv s \<Longrightarrow> rest_inv (EnterView s v)"
  by (auto simp: rest_inv_def msgs_inv_def timers_inv_def frame_defs Clear_def)

lemma EnterView_frame [simp]:
  "log (EnterView s v) = log s" "lastOp (EnterView s v) = lastOp s"
  "lastCommitted (EnterView s v) = lastCommitted s" "view (EnterView s v) = v"
  "status (EnterView s v) = STATUS_NORMAL" "app_state (EnterView s v) = app_state s"
  "replicaIdx (EnterView s v) = replicaIdx s" "configuration (EnterView s v) = configuration s"
  "outbox (EnterView s v) = outbox s" "clientTable (EnterView s v) = clientTable s"
  "pendingPrepares (EnterView s v) = pendingPrepares s" "lastBatchEnd (EnterView s v) = lastOp s"
  "batchComplete (EnterView s v)"
  by (simp_all add: frame_defs)

lemma commit_rest_inv:
  assumes fr: "commit_frame s s'" and inv: "rest_inv s"
    and out: "\<exists>out. outbox s' = outbox s @ out \<and> (\<forall>p\<in>set out. \<exists>a m. p = (AddressDest a, OutClient m))"
  shows "rest_inv s'"
proof -
  have t: "nullCommitTimeout s' = nullCommitTimeout s" "resendPrepareTimeout s' = resendPrepareTimeout s"
    "closeBatchTimeout s' = closeBatchTimeout s"
    using fr by (cases s; cases s'; simp add: commit_frame_def)+
  have "(d, OutReplica m) \<in> set (outbox s') \<Longrightarrow> (d, OutReplica m) \<in> set (outbox s)" for d m
    using out by auto
  then show ?thesis
    using inv unfolding rest_inv_def msgs_inv_def timers_inv_def t commit_frameD [OF fr] by blast
qed

lemma CommitUpTo_vr_inv:
  assumes inv: "log_inv s" "rest_inv s" and run: "CommitUpTo env s k = Inr s'"
  shows "log_inv s' \<and> rest_inv s' \<and> commit_frame s s'"
proof -
  obtain t where t: "CommitUpTo env s k = Inr t" "log_inv t" "commit_frame s t"
    and out: "\<exists>out. outbox t = outbox s @ out \<and> (\<forall>p\<in>set out. \<exists>a m. p = (AddressDest a, OutClient m))"
    using CommitUpTo_spec [OF inv(1) CommitUpTo_Inr [OF inv(1) run], of env] by (elim exE conjE) simp
  then show ?thesis using run commit_rest_inv [OF t(3) inv(2) out] by simp
qed

lemma UpdateClientTable_frame:
  assumes "UpdateClientTable s req = Inr s'"
  shows "s' = s\<lparr>clientTable := clientTable s'\<rparr>"
  using assms by (auto simp: UpdateClientTable_def Let_def put_client_def split: if_splits)

lemma UpdateClientTable_fields:
  assumes "UpdateClientTable s req = Inr s'"
  shows "lastOp s' = lastOp s" "log s' = log s" "view s' = view s" "status s' = status s"
    "lastCommitted s' = lastCommitted s" "app_state s' = app_state s" "AmLeader s' = AmLeader s"
    "outbox s' = outbox s" "configuration s' = configuration s" "replicaIdx s' = replicaIdx s"
    "leader_of s' = leader_of s" "lastBatchEnd s' = lastBatchEnd s" "batchComplete s' = batchComplete s"
  using assms
  by (auto simp: UpdateClientTable_def Let_def put_client_def AmLeader_def leader_of_def split: if_splits)

lemma clientTable_inv [simp]:
  "log_inv (s\<lparr>clientTable := x\<rparr>) = log_inv s" "rest_inv (s\<lparr>clientTable := x\<rparr>) = rest_inv s"
  by (simp_all add: log_inv_def rest_inv_def msgs_inv_def timers_inv_def AmLeader_def)

lemma UpdateClientTable_inv:
  assumes "UpdateClientTable s req = Inr s'"
  shows "log_inv s' = log_inv s" "rest_inv s' = rest_inv s"
  using UpdateClientTable_frame [OF assms] clientTable_inv by metis+

section \<open>Logs in messages\<close>

lemma LastViewstamp_opnum: "vs_opnum (LastViewstamp l) = LastOpnum l"
  by (simp add: LastViewstamp_def LastOpnum_def viewstamp2_def)

lemma consecutive_last:
  assumes "consecutive k es" and "es \<noteq> []"
  shows "unat (me_opnum (last es)) = unat k + length es - 1" "me_opnum (hd es) = k"
proof -
  have len: "length es - 1 < length es" using assms(2) by simp
  have "me_opnum (last es) = k + word_of_nat (length es - 1)"
    using consecutive_nth [OF assms(1) len] assms(2) by (simp add: last_conv_nth)
  moreover have "unat k + (length es - 1) < 2 ^ 64" using assms(1) by (auto simp: consecutive_def)
  ultimately show "unat (me_opnum (last es)) = unat k + length es - 1"
    using unat_add_of_nat [of k "length es - 1"] len by simp
  show "me_opnum (hd es) = k" using consecutive_nth [OF assms(1), of 0] assms(2) by (simp add: hd_conv_nth)
qed

lemma Dump_from_wf:
  assumes wf: "log_wf l" "start l = 1" "LastOpnum l \<noteq> - 1" and dump: "Dump_from l k = Inr es"
  shows "entries_to (LastOpnum l) es" "es = [] \<longleftrightarrow> LastOpnum l < max k 1"
    "consecutive (max k 1) es" "\<forall>m\<in>set es. me_opnum m \<noteq> - 1"
    "es \<noteq> [] \<Longrightarrow> me_opnum (hd es) = max k 1"
    "\<forall>i<length es. \<exists>e. log_at l (max k 1 + word_of_nat i) = Some e \<and> es ! i = dump_entry e"
proof -
  let ?a = "max k (1 :: u64)"
  have l1: "unat (LastOpnum l + 1) = unat (LastOpnum l) + 1"
    using wf(3) unat_add_of_nat [of "LastOpnum l" 1] unfolding u64_not_max by simp
  from Dump_eq [OF wf(1,3) order_refl, of k] dump wf(2)
  have len: "length es = unat (LastOpnum l + 1) - unat ?a" and cons: "consecutive ?a es"
    and nth: "\<forall>i<length es. \<exists>e. log_at l (?a + word_of_nat i) = Some e \<and> es ! i = dump_entry e"
    unfolding Dump_from_def by simp_all
  show "consecutive (max k 1) es" by (rule cons)
  show "\<forall>i<length es. \<exists>e. log_at l (max k 1 + word_of_nat i) = Some e \<and> es ! i = dump_entry e" by (rule nth)
  show emp: "es = [] \<longleftrightarrow> LastOpnum l < max k 1"
    using len l1 by (auto simp: word_less_nat_alt)
  show hd: "es \<noteq> [] \<Longrightarrow> me_opnum (hd es) = max k 1" using consecutive_last(2) [OF cons] by blast
  show "entries_to (LastOpnum l) es"
  proof (cases "es = []")
    case False
    have "unat (me_opnum (last es)) = unat (LastOpnum l)"
      using consecutive_last(1) [OF cons False] len l1 False by (cases es) auto
    then have "me_opnum (last es) = LastOpnum l" by (rule u64_eqI)
    with cons hd [OF False] wf(3) False show ?thesis by (simp add: entries_to_def)
  qed (simp add: entries_to_def wf(3))
  show "\<forall>m\<in>set es. me_opnum m \<noteq> - 1"
  proof
    fix m assume "m \<in> set es"
    then obtain i where i: "i < length es" "es ! i = m" by (auto simp: in_set_conv_nth)
    then have "me_opnum m = ?a + word_of_nat i" using consecutive_nth [OF cons] by blast
    moreover have "unat ?a + i < 2 ^ 64 - 1" using i(1) cons unfolding consecutive_def by simp
    ultimately show "me_opnum m \<noteq> - 1" using unat_add_of_nat [of ?a i] unfolding u64_not_max by simp
  qed
qed

text \<open>Installing a received log.\<close>

definition agrees :: "'a VRReplica \<Rightarrow> MsgLogEntry list \<Rightarrow> bool" where
  "agrees s es \<longleftrightarrow>
     (\<forall>m\<in>set es. me_opnum m \<le> lastCommitted s \<longrightarrow>
        (case log_at (log s) (me_opnum m) of
           None \<Rightarrow> False
         | Some e \<Rightarrow> vs_view (le_viewstamp e) = me_view m))"

lemma agreesD:
  "\<lbrakk> agrees s es; m \<in> set es; me_opnum m \<le> lastCommitted s \<rbrakk> \<Longrightarrow>
   \<exists>e. log_at (log s) (me_opnum m) = Some e \<and> vs_view (le_viewstamp e) = me_view m"
  by (fastforce simp: agrees_def split: option.splits)

lemma install_new_log_spec:
  assumes inv: "log_inv s" and es: "entries_to lastop es" "es \<noteq> []" and keep: "lastCommitted s \<le> lastop"
    and inst: "install_new_log env s lastop es = Inr s'"
  shows "s' = s\<lparr>log := log s'\<rparr> \<and> log_inv (s'\<lparr>lastOp := lastop\<rparr>) \<and>
     (\<forall>i<me_opnum (hd es). i \<le> lastop \<longrightarrow> log_at (log s') i = log_at (log s) i) \<and>
     (\<forall>i<length es. \<exists>e. log_at (log s') (me_opnum (hd es) + word_of_nat i) = Some e \<and>
        vs_view (le_viewstamp e) = me_view (es ! i) \<and>
        (e = installed_entry (es ! i) \<or> log_at (log s) (me_opnum (hd es) + word_of_nat i) = Some e)) \<and>
     (agrees s es \<longrightarrow> (\<forall>i \<le> lastCommitted s. log_at (log s') i = log_at (log s) i))"
proof -
  note I = log_invD [OF inv]
  let ?k = "me_opnum (hd es)"
  obtain l l' where pan: "?k \<le> lastCommitted s + 1" and l: "RemoveAfter (log s) (lastop + 1) = Inr l"
    and l': "Install (sha1 env) l es = Inr l'" and s': "s' = s\<lparr>log := l'\<rparr>"
    using inst by (auto simp: install_new_log_def)
  have nm: "lastop \<noteq> - 1" and k1: "1 \<le> ?k" and cons: "consecutive ?k es" and last: "me_opnum (last es) = lastop"
    using es by (simp_all add: entries_to_def)
  have lo1: "unat (lastop + 1) = unat lastop + 1"
    using nm unat_add_of_nat [of lastop 1] unfolding u64_not_max by simp
  have kl: "?k + word_of_nat (length es) = lastop + 1"
  proof (rule u64_eqI)
    have "unat ?k + length es < 2 ^ 64" using cons by (simp add: consecutive_def)
    then show "unat (?k + word_of_nat (length es)) = unat (lastop + 1)"
      using consecutive_last(1) [OF cons es(2)] last lo1 es(2) unat_add_of_nat [of ?k "length es"]
      by (cases es) auto
  qed
  from RemoveAfter_wf [OF I(1) l] have lw: "log_wf l" "start l = 1" and
    ll: "LastOpnum l = (if LastOpnum (log s) < lastop + 1 then LastOpnum (log s) else lastop)"
    and la: "\<forall>j. log_at l j = (if j < lastop + 1 then log_at (log s) j else None)"
    using I(2) by simp_all
  have uh: "\<not> useHash l" using RemoveAfter_fields(2) [OF l] I(3) by simp
  have below: "LastOpnum l \<le> lastop" "LastOpnum l \<noteq> - 1" "lastCommitted s \<le> LastOpnum l"
    using ll lo1 nm I(4,5,6) keep by (auto simp: word_less_nat_alt word_le_nat_alt split: if_splits)
  have kb: "?k \<le> LastOpnum l + 1"
  proof -
    have "unat (LastOpnum l + 1) = unat (LastOpnum l) + 1" "unat (lastCommitted s + 1) = unat (lastCommitted s) + 1"
      using below(2,3) unat_add_of_nat [of "LastOpnum l" 1] unat_add_of_nat [of "lastCommitted s" 1]
      unfolding u64_not_max word_le_nat_alt by simp_all
    then show ?thesis using pan below(3) by (simp add: word_le_nat_alt)
  qed
  have short: "LastOpnum l < ?k + word_of_nat (length es)"
    using below(1) lo1 unfolding kl by (simp add: word_less_nat_alt word_le_nat_alt)
  have st: "start l \<le> ?k" using lw(2) k1 by simp
  from Install_spec [OF lw(1) cons st kb below(2) uh es(2) short, of "sha1 env"] l'
  have w: "log_wf l'" "start l' = 1" "\<not> useHash l'" and lo: "LastOpnum l' + 1 = lastop + 1"
    and low: "\<forall>i<?k. log_at l' i = log_at l i"
    and hi: "\<forall>i<length es. \<exists>e. log_at l' (?k + word_of_nat i) = Some e \<and>
        vs_view (le_viewstamp e) = me_view (es ! i) \<and>
        (e = installed_entry (es ! i) \<or> log_at l (?k + word_of_nat i) = Some e)"
    and ag: "\<forall>i<length es. (\<forall>i'\<le>i. \<exists>e. log_at l (?k + word_of_nat i') = Some e \<and> vs_view (le_viewstamp e) = me_view (es ! i'))
        \<longrightarrow> log_at l' (?k + word_of_nat i) = log_at l (?k + word_of_nat i)"
    using lw(2) uh kl by simp_all
  have keeps: "log_at l' i = log_at (log s) i" if a: "agrees s es" and i: "i \<le> lastCommitted s" for i
  proof (cases "i < ?k")
    case True
    then show ?thesis using low la lo1 i keep by (simp add: word_less_nat_alt word_le_nat_alt)
  next
    case False
    have b: "unat ?k + length es < 2 ^ 64" and len: "unat lastop = unat ?k + length es - 1"
      using cons consecutive_last(1) [OF cons es(2)] last by (auto simp: consecutive_def)
    let ?j = "unat i - unat ?k"
    have j: "?j < length es" using i keep len es(2) False by (cases es) (auto simp: word_le_nat_alt word_less_nat_alt)
    have un: "unat (?k + word_of_nat i') = unat ?k + i'" if "i' < length es" for i'
      using that b by (intro unat_add_of_nat) simp
    have ij: "?k + word_of_nat ?j = i" using un [OF j] False by (intro u64_eqI) (simp add: word_less_nat_alt)
    have "\<exists>e. log_at l (?k + word_of_nat i') = Some e \<and> vs_view (le_viewstamp e) = me_view (es ! i')" if "i' \<le> ?j" for i'
    proof -
      have i': "i' < length es" using that j by simp
      have opn: "me_opnum (es ! i') = ?k + word_of_nat i'" using consecutive_nth [OF cons i'] .
      have "unat (?k + word_of_nat i') \<le> unat i" using un [OF i'] un [OF j] ij that by simp
      then have le: "?k + word_of_nat i' \<le> lastCommitted s" "?k + word_of_nat i' < lastop + 1"
        using i keep lo1 by (simp_all add: word_le_nat_alt word_less_nat_alt)
      then show ?thesis using agreesD [OF a nth_mem [OF i']] opn la by simp
    qed
    then have "log_at l' i = log_at l i" using ag j ij by (metis (no_types, lifting))
    then show ?thesis using la i keep lo1 by (simp add: word_le_nat_alt word_less_nat_alt)
  qed
  have "log_inv (s'\<lparr>lastOp := lastop\<rparr>)" using w lo nm keep by (simp add: log_inv_def s')
  moreover have "log_at l' i = log_at (log s) i" if "i < ?k" "i \<le> lastop" for i
    using that low la lo1 by (simp add: word_less_nat_alt word_le_nat_alt)
  moreover have "log_at l j = Some e \<Longrightarrow> log_at (log s) j = Some e" for j e
    using la by (metis option.distinct(1))
  ultimately show ?thesis using hi keeps unfolding s' by auto
qed

section \<open>Adding prepared operations\<close>

text \<open>One operation appended with the counter: the invariant on the log holds again.\<close>

lemma append_log_inv:
  assumes inv: "log_inv s" and app: "Append h (log s) e = Inr l" and nm: "lastOp s + 1 \<noteq> - 1"
  shows "log_inv (s\<lparr>lastOp := lastOp s + 1, log := l\<rparr>)" "vs_opnum (le_viewstamp e) = lastOp s + 1"
    "log_at l i = (if i = lastOp s + 1 then Some e else log_at (log s) i)"
    "unat (lastOp s + 1) = unat (lastOp s) + 1"
proof -
  note I = log_invD [OF inv]
  have room: "LastOpnum (log s) \<noteq> - 1" using I(4,5) by simp
  note A = Append_wf [OF I(1) room app] Append_fields [OF app]
  have un: "unat (lastOp s + 1) = unat (lastOp s) + 1"
    using I(5) unat_add_of_nat [of "lastOp s" 1] unfolding u64_not_max by simp
  then show "unat (lastOp s + 1) = unat (lastOp s) + 1" .
  have "lastCommitted s \<le> lastOp s + 1" using I(6) un by (simp add: word_le_nat_alt)
  then show "log_inv (s\<lparr>lastOp := lastOp s + 1, log := l\<rparr>)"
    using A I nm by (simp add: log_inv_def)
  show "vs_opnum (le_viewstamp e) = lastOp s + 1" using A(3) I(4) by simp
  have "l = (log s)\<lparr>entries := entries (log s) @ [e]\<rparr>" using Append_Inr [OF app] I(3) by auto
  then show "log_at l i = (if i = lastOp s + 1 then Some e else log_at (log s) i)"
    using log_at_append [OF I(1) room app, of i] I(4) by simp
qed

lemma lastOp_log_rest_inv [simp]: "rest_inv (s\<lparr>lastOp := x, log := l\<rparr>) = rest_inv s"
  "rest_inv (s\<lparr>log := l\<rparr>) = rest_inv s" "rest_inv (s\<lparr>lastOp := x\<rparr>) = rest_inv s"
  by (simp_all add: rest_inv_def msgs_inv_def timers_inv_def AmLeader_def)

text \<open>The loop of \<open>HandlePrepare\<close>: requests up to \<^verbatim>\<open>lastOp\<close> are skipped, the others appended with
  their own operation numbers.\<close>

lemma prepare_one_op: "prepare_one env v (s, op) r = Inr p \<Longrightarrow> snd p = op + 1"
  by (auto simp: prepare_one_def Let_def split: if_splits)

lemma prepare_fold:
  assumes "log_inv s" and "unat op + length reqs < 2 ^ 64 - 1"
    and "fold_r (prepare_one env v) (s, op) reqs = Inr (s', op')" and "op \<le> lastOp s"
  shows "log_inv s' \<and> s' = s\<lparr>lastOp := lastOp s', log := log s', clientTable := clientTable s'\<rparr> \<and>
     op' = op + word_of_nat (length reqs) \<and> lastOp s' = max (lastOp s) op' \<and>
     (\<forall>i \<le> lastOp s. log_at (log s') i = log_at (log s) i) \<and>
     (\<forall>i. lastOp s < i \<and> i \<le> op' \<longrightarrow> log_at (log s') i =
        Some (LogEntry_new (viewstamp2 v i) LOG_STATE_PREPARED (reqs ! (unat i - unat op - 1))))"
  using assms
proof (induction reqs arbitrary: s op)
  case Nil
  then show ?case by (auto simp: max_def)
next
  case (Cons r reqs)
  have op1: "unat (op + 1) = unat op + 1"
    using Cons.prems(2) unat_add_of_nat [of op 1] by simp
  obtain p where p: "prepare_one env v (s, op) r = Inr p"
    and rest_p: "fold_r (prepare_one env v) p reqs = Inr (s', op')"
    using Cons.prems(3) unfolding fold_r.simps rbind_Inr by (elim exE conjE)
  obtain t where tp: "p = (t, op + 1)" using prepare_one_op [OF p] by (cases p) simp
  note t = p [unfolded tp] and rest = rest_p [unfolded tp]
  have step: "log_inv t \<and> t = s\<lparr>lastOp := lastOp t, log := log t, clientTable := clientTable t\<rparr> \<and>
      lastOp t = max (lastOp s) (op + 1) \<and> op + 1 \<le> lastOp t \<and>
      (\<forall>i. log_at (log t) i = (if lastOp s < op + 1 \<and> i = op + 1
         then Some (LogEntry_new (viewstamp2 v i) LOG_STATE_PREPARED r) else log_at (log s) i))"
  proof (cases "op + 1 \<le> lastOp s")
    case True
    then have "t = s" "\<not> lastOp s < op + 1" using t by (simp_all add: prepare_one_def)
    with True Cons.prems(1) show ?thesis by (simp add: max_def)
  next
    case False
    let ?e = "LogEntry_new (viewstamp2 v (op + 1)) LOG_STATE_PREPARED r"
    obtain l where l: "Append (sha1 env) (log s) ?e = Inr l"
      and u: "UpdateClientTable (s\<lparr>lastOp := lastOp s + 1, log := l\<rparr>) r = Inr t"
      using t False by (auto simp: prepare_one_def Let_def)
    have eq: "lastOp s = op" using False Cons.prems(4) op1 by (auto simp: word_le_nat_alt intro: u64_eqI)
    have nm: "lastOp s + 1 \<noteq> - 1" using Cons.prems(2) op1 eq unfolding u64_not_max by simp
    note A = append_log_inv [OF Cons.prems(1) l nm]
    have t': "t = s\<lparr>lastOp := lastOp s + 1, log := l, clientTable := clientTable t\<rparr>"
      using UpdateClientTable_frame [OF u] by simp
    have "log_inv t" using A(1) UpdateClientTable_inv(1) [OF u] by simp
    moreover have "lastOp t = lastOp s + 1" "log t = l"
      using UpdateClientTable_fields [OF u] by simp_all
    moreover have "lastOp s < op + 1" using eq op1 by (simp add: word_less_nat_alt)
    ultimately show ?thesis using t' A(3) eq by (auto simp: max_def)
  qed
  have b: "unat (op + 1) + length reqs < 2 ^ 64 - 1" using Cons.prems(2) op1 by simp
  from step have st: "log_inv t" "op + 1 \<le> lastOp t" by simp_all
  have IH: "log_inv s' \<and> s' = t\<lparr>lastOp := lastOp s', log := log s', clientTable := clientTable s'\<rparr> \<and>
     op' = op + 1 + word_of_nat (length reqs) \<and> lastOp s' = max (lastOp t) op' \<and>
     (\<forall>i \<le> lastOp t. log_at (log s') i = log_at (log t) i) \<and>
     (\<forall>i. lastOp t < i \<and> i \<le> op' \<longrightarrow> log_at (log s') i =
        Some (LogEntry_new (viewstamp2 v i) LOG_STATE_PREPARED (reqs ! (unat i - unat (op + 1) - 1))))"
    by (rule Cons.IH [OF st(1) b rest st(2)])
  have op': "unat op' = unat op + 1 + length reqs"
    using IH op1 b unat_add_of_nat [of "op + 1" "length reqs"] by simp
  have fr: "s' = s\<lparr>lastOp := lastOp s', log := log s', clientTable := clientTable s'\<rparr>"
  proof -
    obtain a b c where "t = s\<lparr>lastOp := a, log := b, clientTable := c\<rparr>" using step by blast
    moreover obtain a b c where "s' = t\<lparr>lastOp := a, log := b, clientTable := c\<rparr>" using IH by blast
    ultimately show ?thesis by simp
  qed
  have mx: "lastOp s' = max (lastOp s) op'"
    using IH step op1 op' by (auto simp: max_def word_le_nat_alt intro: u64_eqI)
  have low: "log_at (log s') i = log_at (log s) i" if "i \<le> lastOp s" for i
  proof -
    have "i \<le> lastOp t" using that step by (auto simp: max_def split: if_splits)
    then show ?thesis using IH step that by auto
  qed
  have high: "log_at (log s') i =
      Some (LogEntry_new (viewstamp2 v i) LOG_STATE_PREPARED ((r # reqs) ! (unat i - unat op - 1)))"
    if i: "lastOp s < i" "i \<le> op'" for i
  proof (cases "lastOp t < i")
    case True
    then have "unat op + 1 < unat i" using st(2) op1 by (simp add: word_less_nat_alt word_le_nat_alt)
    then have "(r # reqs) ! (unat i - unat op - 1) = reqs ! (unat i - unat (op + 1) - 1)"
      using op1 by (cases "unat i - unat op - 1") auto
    then show ?thesis using True IH i by simp
  next
    case False
    then have le: "i \<le> lastOp t" by simp
    then have "i = op + 1" "lastOp s < op + 1"
      using i(1) step Cons.prems(4) op1
      by (auto simp: max_def word_less_nat_alt word_le_nat_alt intro: u64_eqI split: if_splits)
    then show ?thesis using le IH step op1 by simp
  qed
  show ?case using IH fr mx low high by auto
qed

section \<open>The handlers keep the invariant\<close>

lemma CloseBatch_reqs:
  assumes inv: "log_inv s" and run: "CloseBatch s = Inr s'"
  shows "\<exists>p. prepare_wf p \<and> pr_view p = view s \<and> pr_opnum p = lastOp s \<and> pr_batchstart p = lastBatchEnd s + 1 \<and>
     (\<forall>i. lastBatchEnd s < i \<and> i \<le> lastOp s \<longrightarrow> (\<exists>e. log_at (log s) i = Some e \<and>
        vs_view (le_viewstamp e) = view s \<and> le_request e = pr_request p ! (unat i - unat (lastBatchEnd s) - 1))) \<and>
     AmLeader s \<and> lastBatchEnd s < lastOp s \<and>
     s' = send (s\<lparr>lastPrepare := Some p, lastBatchEnd := lastOp s, batchComplete := False,
             resendPrepareTimeout := True, closeBatchTimeout := False\<rparr>) AllReplicas (OutReplica (MsgPrepare p))"
proof -
  note I = log_invD [OF inv]
  let ?b = "lastBatchEnd s + 1"
  let ?f = "\<lambda>i. rbind (Find (log s) i) (\<lambda>r. case r of None \<Rightarrow> Inl AssertFailed
     | Some e \<Rightarrow> check (vs_view (le_viewstamp e) = view s) AssertFailed
                   (check (vs_opnum (le_viewstamp e) = i) AssertFailed (Inr (le_request e))))"
  obtain reqs where ldr: "AmLeader s" and lt: "lastBatchEnd s < lastOp s"
    and reqs: "map_r ?f (op_range ?b (lastOp s + 1)) = Inr reqs"
    and s': "s' = send (s\<lparr>lastPrepare := Some \<lparr>pr_view = view s, pr_opnum = lastOp s, pr_batchstart = ?b, pr_request = reqs\<rparr>,
        lastBatchEnd := lastOp s, batchComplete := False, resendPrepareTimeout := True, closeBatchTimeout := False\<rparr>)
        AllReplicas (OutReplica (MsgPrepare \<lparr>pr_view = view s, pr_opnum = lastOp s, pr_batchstart = ?b, pr_request = reqs\<rparr>))"
    using run I(5) by (auto simp: CloseBatch_def Let_def op_range_le_Inr)
  have b1: "unat ?b = Suc (unat (lastBatchEnd s))" using lt by (rule unat_Suc_less)
  have l1: "unat (lastOp s + 1) = unat (lastOp s) + 1"
    using I(5) unat_add_of_nat [of "lastOp s" 1] unfolding u64_not_max by simp
  have len: "length reqs = unat (lastOp s) - unat ?b + 1"
    and nth: "\<And>j. j < unat (lastOp s + 1) - unat ?b \<Longrightarrow> ?f (?b + word_of_nat j) = Inr (reqs ! j)"
    using reqs lt b1 l1 unfolding map_r_Inr_iff by (auto simp: nth_op_range word_less_nat_alt)
  have "\<exists>e. log_at (log s) i = Some e \<and> vs_view (le_viewstamp e) = view s \<and>
      le_request e = reqs ! (unat i - unat (lastBatchEnd s) - 1)"
    if i: "lastBatchEnd s < i" "i \<le> lastOp s" for i
  proof -
    let ?j = "unat i - unat ?b"
    have j: "?j < unat (lastOp s + 1) - unat ?b" "unat ?b + ?j = unat i"
      using i b1 l1 by (auto simp: word_less_nat_alt word_le_nat_alt)
    have "unat (?b + word_of_nat ?j) = unat i"
      using j(2) unat_u64_bound [of i] by (subst unat_add_of_nat) simp_all
    then have i_eq: "?b + word_of_nat ?j = i" by (rule u64_eqI)
    have "?f i = Inr (reqs ! ?j)" using nth [OF j(1)] unfolding i_eq .
    then show ?thesis using b1 by (auto simp: Find_eq [OF I(1)] split: option.splits)
  qed
  moreover have "prepare_wf \<lparr>pr_view = view s, pr_opnum = lastOp s, pr_batchstart = ?b, pr_request = reqs\<rparr>"
    using len b1 lt I(5) by (simp add: prepare_wf_def word_le_nat_alt word_less_nat_alt)
  ultimately show ?thesis using ldr lt s' by (intro exI conjI) auto
qed

lemma CloseBatch_inv:
  assumes "log_inv s" "rest_inv s" and "CloseBatch s = Inr s'"
  shows "log_inv s' \<and> rest_inv s'"
proof -
  obtain p where p: "prepare_wf p" and ldr: "AmLeader s" and
    s': "s' = send (s\<lparr>lastPrepare := Some p, lastBatchEnd := lastOp s, batchComplete := False,
        resendPrepareTimeout := True, closeBatchTimeout := False\<rparr>) AllReplicas (OutReplica (MsgPrepare p))"
    using CloseBatch_reqs [OF assms(1,3)] by (elim exE conjE) simp
  have "log_inv s'" using log_invD [OF assms(1)] by (auto simp: s' log_inv_def send_def)
  moreover have "rest_inv s'"
    unfolding s' using p ldr assms(2)
    by (intro rest_inv_send) (auto simp: rest_inv_def msgs_inv_def timers_inv_def AmLeader_def)
  ultimately show ?thesis by simp
qed

lemma timer_inv [simp]:
  "log_inv (s\<lparr>nullCommitTimeout := b\<rparr>) = log_inv s" "log_inv (s\<lparr>closeBatchTimeout := b\<rparr>) = log_inv s"
  "log_inv (s\<lparr>viewChangeTimeout := b\<rparr>) = log_inv s" "rest_inv (s\<lparr>viewChangeTimeout := b\<rparr>) = rest_inv s"
  "log_inv (s\<lparr>batchComplete := b\<rparr>) = log_inv s" "rest_inv (s\<lparr>batchComplete := b\<rparr>) = rest_inv s"
  "log_inv (s\<lparr>app_state := a\<rparr>) = log_inv s" "rest_inv (s\<lparr>app_state := a\<rparr>) = rest_inv s"
  "log_inv (s\<lparr>clientAddresses := ca\<rparr>) = log_inv s" "rest_inv (s\<lparr>clientAddresses := ca\<rparr>) = rest_inv s"
  "log_inv (s\<lparr>prepareOKQuorum := q\<rparr>) = log_inv s" "rest_inv (s\<lparr>prepareOKQuorum := q\<rparr>) = rest_inv s"
  "log_inv (s\<lparr>startViewChangeQuorum := sq\<rparr>) = log_inv s" "rest_inv (s\<lparr>startViewChangeQuorum := sq\<rparr>) = rest_inv s"
  "log_inv (s\<lparr>doViewChangeQuorum := dq\<rparr>) = log_inv s" "log_inv (s\<lparr>recoveryResponseQuorum := rq\<rparr>) = log_inv s"
  "log_inv (s\<lparr>pendingPrepares := pp\<rparr>) = log_inv s"
  by (simp_all add: log_inv_def rest_inv_def msgs_inv_def timers_inv_def AmLeader_def)

lemma AmLeader_simps [simp]:
  "AmLeader (s\<lparr>nullCommitTimeout := b\<rparr>) = AmLeader s" "AmLeader (s\<lparr>closeBatchTimeout := b\<rparr>) = AmLeader s"
  "AmLeader (s\<lparr>clientAddresses := ca\<rparr>) = AmLeader s" "AmLeader (s\<lparr>clientTable := ct\<rparr>) = AmLeader s"
  "AmLeader (s\<lparr>app_state := a\<rparr>) = AmLeader s" "AmLeader (s\<lparr>lastOp := x\<rparr>) = AmLeader s"
  "AmLeader (s\<lparr>log := l\<rparr>) = AmLeader s" "AmLeader (s\<lparr>prepareOKQuorum := q\<rparr>) = AmLeader s"
  "AmLeader (s\<lparr>batchComplete := b\<rparr>) = AmLeader s" "AmLeader (send s d m) = AmLeader s"
  by (simp_all add: AmLeader_def send_def)

lemma leader_timer_inv [simp]:
  "AmLeader s \<Longrightarrow> rest_inv (s\<lparr>nullCommitTimeout := True\<rparr>) = (rest_inv s)"
  "AmLeader s \<Longrightarrow> rest_inv (s\<lparr>closeBatchTimeout := True\<rparr>) = (rest_inv s)"
  by (auto simp: rest_inv_def msgs_inv_def timers_inv_def AmLeader_def)

definition assigned_request :: "Request \<Rightarrow> string \<Rightarrow> Request" where
  "assigned_request req res =
     empty_Request\<lparr>req_op := res, req_clientid := req_clientid req, req_clientreqid := req_clientreqid req\<rparr>"

text \<open>What handling a fresh request amounts to: a reply without replication, or one appended entry.\<close>

lemma HandleRequest_new_Inr:
  assumes run: "HandleRequest_new env s remote req = Inr s'"
  shows "\<exists>s1 a rep res. UpdateClientTable s req = Inr s1 \<and>
     app_LeaderUpcall (app env) (app_state s1) (lastCommitted s1) (req_op req) = (a, rep, res) \<and>
     (\<not> rep \<and> (\<exists>m. s' = send (put_client (s1\<lparr>app_state := a\<rparr>) (req_clientid req)
         ((client_entry (s1\<lparr>app_state := a\<rparr>) (req_clientid req))\<lparr>replied := True, reply := m\<rparr>))
         (AddressDest remote) (OutClient m)) \<or>
      rep \<and> (\<exists>l s4. Append (sha1 env) (log s1) (LogEntry_new (viewstamp2 (view s1) (lastOp s1 + 1))
            LOG_STATE_PREPARED (assigned_request req res)) = Inr l \<and>
          (CloseBatch (s1\<lparr>app_state := a, lastOp := lastOp s1 + 1, log := l\<rparr>) = Inr s4 \<or>
           s4 = s1\<lparr>app_state := a, lastOp := lastOp s1 + 1, log := l, closeBatchTimeout := True\<rparr>) \<and>
          s' = s4\<lparr>nullCommitTimeout := True\<rparr>))"
proof -
  obtain s1 where u: "UpdateClientTable s req = Inr s1" using run by (auto simp: HandleRequest_new_def)
  obtain a rep res where up: "app_LeaderUpcall (app env) (app_state s1) (lastCommitted s1) (req_op req) = (a, rep, res)"
    by (cases "app_LeaderUpcall (app env) (app_state s1) (lastCommitted s1) (req_op req)")
  have "\<not> rep \<Longrightarrow> \<exists>m. s' = send (put_client (s1\<lparr>app_state := a\<rparr>) (req_clientid req)
         ((client_entry (s1\<lparr>app_state := a\<rparr>) (req_clientid req))\<lparr>replied := True, reply := m\<rparr>))
         (AddressDest remote) (OutClient m)"
    using run u up by (auto simp: HandleRequest_new_def Let_def)
  moreover have "rep \<Longrightarrow> \<exists>l s4. Append (sha1 env) (log s1) (LogEntry_new (viewstamp2 (view s1) (lastOp s1 + 1))
            LOG_STATE_PREPARED (assigned_request req res)) = Inr l \<and>
          (CloseBatch (s1\<lparr>app_state := a, lastOp := lastOp s1 + 1, log := l\<rparr>) = Inr s4 \<or>
           s4 = s1\<lparr>app_state := a, lastOp := lastOp s1 + 1, log := l, closeBatchTimeout := True\<rparr>) \<and>
          s' = s4\<lparr>nullCommitTimeout := True\<rparr>"
    using run u up by (auto simp: HandleRequest_new_def assigned_request_def Let_def split: if_splits)
  ultimately show ?thesis using u up by blast
qed

lemma HandleRequest_new_inv:
  assumes inv: "log_inv s" "rest_inv s" and nm: "lastOp s + 1 \<noteq> - 1" and ldr: "AmLeader s"
    and run: "HandleRequest_new env s remote req = Inr s'"
  shows "log_inv s' \<and> rest_inv s'"
  using HandleRequest_new_Inr [OF run]
proof (elim exE conjE disjE)
  fix s1 a m
  assume u: "UpdateClientTable s req = Inr s1"
    and s': "s' = send (put_client (s1\<lparr>app_state := a\<rparr>) (req_clientid req)
         ((client_entry (s1\<lparr>app_state := a\<rparr>) (req_clientid req))\<lparr>replied := True, reply := m\<rparr>))
         (AddressDest remote) (OutClient m)"
  show ?thesis unfolding s' put_client_def
    using inv UpdateClientTable_inv [OF u] by (auto intro!: rest_inv_send)
next
  fix s1 :: "'a VRReplica" and a res l s4
  let ?s3 = "s1\<lparr>app_state := a, lastOp := lastOp s1 + 1, log := l\<rparr>"
  assume u: "UpdateClientTable s req = Inr s1"
    and l: "Append (sha1 env) (log s1) (LogEntry_new (viewstamp2 (view s1) (lastOp s1 + 1))
            LOG_STATE_PREPARED (assigned_request req res)) = Inr l" and s': "s' = s4\<lparr>nullCommitTimeout := True\<rparr>"
  note F = UpdateClientTable_fields [OF u] UpdateClientTable_inv [OF u]
  have "log_inv (s1\<lparr>lastOp := lastOp s1 + 1, log := l\<rparr>)"
    using append_log_inv(1) [of s1, OF _ l] inv(1) F nm by simp
  then have i3: "log_inv ?s3" "rest_inv ?s3" "AmLeader ?s3"
    using inv(2) F ldr by (simp_all add: log_inv_def)
  show ?thesis if cb: "CloseBatch ?s3 = Inr s4"
  proof -
    have "AmLeader s4"
      using i3(3) cb CloseBatch_reqs [OF i3(1) cb] by (elim exE conjE) (simp add: AmLeader_def send_def)
    then show ?thesis using CloseBatch_inv [OF i3(1,2) cb] by (simp add: s')
  qed
  show ?thesis if "s4 = s1\<lparr>app_state := a, lastOp := lastOp s1 + 1, log := l, closeBatchTimeout := True\<rparr>"
    using i3 by (simp add: s' that)
qed

lemma HandleRequest_inv:
  assumes inv: "log_inv s" "rest_inv s" and nm: "lastOp s + 1 \<noteq> - 1"
    and run: "HandleRequest env s remote req = Inr s'"
  shows "log_inv s' \<and> rest_inv s'"
proof -
  let ?s1 = "s\<lparr>clientAddresses := (clientAddresses s)(req_clientid req \<mapsto> remote)\<rparr>"
  have i: "log_inv ?s1" "rest_inv ?s1" "lastOp ?s1 + 1 \<noteq> - 1" using inv nm by simp_all
  have "s' = s \<or> s' = ?s1 \<or> (\<exists>m. s' = send ?s1 (AddressDest remote) (OutClient m)) \<or>
        AmLeader ?s1 \<and> HandleRequest_new env ?s1 remote req = Inr s'"
    using run by (auto simp: HandleRequest_def Let_def split: if_splits option.splits)
  then show ?thesis
    using inv i HandleRequest_new_inv [OF i(1-3)] by (auto intro: rest_inv_send)
qed

lemma pending_rest_inv:
  "rest_inv s \<Longrightarrow> prepare_wf m \<Longrightarrow> rest_inv (s\<lparr>pendingPrepares := pendingPrepares s @ [(r, m)]\<rparr>)"
  by (auto simp: rest_inv_def msgs_inv_def timers_inv_def AmLeader_def)

lemma HandlePrepare_cases:
  assumes "HandlePrepare env s remote msg = Inr s'"
  shows "s' = s \<or>
    (\<exists>t. (t = s \<or> t = s\<lparr>viewChangeTimeout := True\<rparr>) \<and> s' = (RequestStateTransfer t)\<lparr>pendingPrepares :=
            pendingPrepares (RequestStateTransfer t) @ [(remote, msg)]\<rparr>) \<or>
    (pr_view msg = view s \<and> status s = STATUS_NORMAL \<and> \<not> AmLeader s \<and> pr_opnum msg \<le> lastOp s \<and>
       (\<exists>m. s' = send (s\<lparr>viewChangeTimeout := True\<rparr>) (ReplicaDest (leader_of s)) (OutReplica (MsgPrepareOK m)))) \<or>
    (pr_view msg = view s \<and> status s = STATUS_NORMAL \<and> \<not> AmLeader s \<and> lastOp s < pr_opnum msg \<and>
       pr_batchstart msg \<le> lastOp s + 1 \<and>
       (\<exists>t. fold_r (prepare_one env (pr_view msg)) (s\<lparr>viewChangeTimeout := True\<rparr>, pr_batchstart msg - 1) (pr_request msg)
              = Inr (t, pr_opnum msg) \<and>
            s' = send t (ReplicaDest (leader_of t)) (OutReplica (MsgPrepareOK
              \<lparr>pok_view = pr_view msg, pok_opnum = pr_opnum msg, pok_replicaIdx = replicaIdx s\<rparr>))))"
proof (cases "status s \<noteq> STATUS_NORMAL \<or> pr_view msg < view s")
  case True
  then have "s' = s" using assms by (auto simp: HandlePrepare_def split: if_splits)
  then show ?thesis by (rule disjI1)
next
  case False
  show ?thesis
  proof (cases "pr_view msg > view s")
    case True
    then have "s' = (RequestStateTransfer s)\<lparr>pendingPrepares :=
        pendingPrepares (RequestStateTransfer s) @ [(remote, msg)]\<rparr>"
      using False assms by (auto simp: HandlePrepare_def Let_def)
    then show ?thesis by blast
  next
    case v: False
    then have eq: "pr_view msg = view s" "status s = STATUS_NORMAL" using False by simp_all
    let ?t = "s\<lparr>viewChangeTimeout := True\<rparr>"
    have ldr: "\<not> AmLeader s" and lo: "leader_of ?t = leader_of s"
      using assms eq by (simp_all add: HandlePrepare_def leader_of_def)
    consider (old) "pr_opnum msg \<le> lastOp s"
      | (gap) "\<not> pr_opnum msg \<le> lastOp s" "lastOp s + 1 < pr_batchstart msg"
      | (new) "\<not> pr_opnum msg \<le> lastOp s" "\<not> lastOp s + 1 < pr_batchstart msg"
      by blast
    then show ?thesis
    proof cases
      case old
      then have "\<exists>m. s' = send ?t (ReplicaDest (leader_of s)) (OutReplica (MsgPrepareOK m))"
        using assms eq ldr lo by (auto simp: HandlePrepare_def Let_def)
      then show ?thesis using eq ldr old by simp
    next
      case gap
      then have "s' = (RequestStateTransfer ?t)\<lparr>pendingPrepares :=
          pendingPrepares (RequestStateTransfer ?t) @ [(remote, msg)]\<rparr>"
        using assms eq by (simp add: HandlePrepare_def Let_def)
      then show ?thesis by blast
    next
      case new
      then have "\<exists>t. fold_r (prepare_one env (pr_view msg)) (?t, pr_batchstart msg - 1) (pr_request msg)
              = Inr (t, pr_opnum msg) \<and>
            s' = send t (ReplicaDest (leader_of t)) (OutReplica (MsgPrepareOK
              \<lparr>pok_view = pr_view msg, pok_opnum = pr_opnum msg, pok_replicaIdx = replicaIdx s\<rparr>))"
        using assms eq ldr by (auto simp: HandlePrepare_def Let_def)
      then show ?thesis using eq ldr new by (simp add: not_le not_less)
    qed
  qed
qed

lemma prepare_fold_pre:
  assumes "log_inv s" and "prepare_wf msg" and "pr_batchstart msg \<le> lastOp s + 1"
  shows "unat (pr_batchstart msg - 1) + length (pr_request msg) < 2 ^ 64 - 1" "pr_batchstart msg - 1 \<le> lastOp s"
    "unat (pr_batchstart msg - 1) + length (pr_request msg) = unat (pr_opnum msg)"
proof -
  note W = assms(2) [unfolded prepare_wf_def]
  have b1: "unat (pr_batchstart msg - 1) = unat (pr_batchstart msg) - 1" "1 \<le> unat (pr_batchstart msg)"
    using W by (simp_all add: unat_sub_1 word_le_nat_alt)
  then show eq: "unat (pr_batchstart msg - 1) + length (pr_request msg) = unat (pr_opnum msg)"
    using W by (auto simp: word_le_nat_alt)
  show "unat (pr_batchstart msg - 1) + length (pr_request msg) < 2 ^ 64 - 1"
    unfolding eq using W u64_not_max [of "pr_opnum msg"] by simp
  have "unat (lastOp s + 1) = unat (lastOp s) + 1"
    using log_invD(5) [OF assms(1)] unat_add_of_nat [of "lastOp s" 1] unfolding u64_not_max by simp
  then show "pr_batchstart msg - 1 \<le> lastOp s" using assms(3) b1 by (simp add: word_le_nat_alt)
qed

lemma HandlePrepare_inv:
  assumes inv: "log_inv s" "rest_inv s" and wf: "prepare_wf msg"
    and run: "HandlePrepare env s remote msg = Inr s'"
  shows "log_inv s' \<and> rest_inv s'"
  using HandlePrepare_cases [OF run]
proof (elim disjE)
  assume "s' = s"
  then show ?thesis using inv by simp
next
  assume "\<exists>t. (t = s \<or> t = s\<lparr>viewChangeTimeout := True\<rparr>) \<and> s' = (RequestStateTransfer t)\<lparr>pendingPrepares :=
            pendingPrepares (RequestStateTransfer t) @ [(remote, msg)]\<rparr>"
  then obtain t where t: "t = s \<or> t = s\<lparr>viewChangeTimeout := True\<rparr>"
    and s': "s' = (RequestStateTransfer t)\<lparr>pendingPrepares := pendingPrepares (RequestStateTransfer t) @ [(remote, msg)]\<rparr>"
    by (elim exE conjE)
  have "log_inv t" "rest_inv t" using t inv by auto
  then show ?thesis unfolding s' using wf by (auto intro: pending_rest_inv rest_inv_RST)
next
  assume "pr_view msg = view s \<and> status s = STATUS_NORMAL \<and> \<not> AmLeader s \<and> pr_opnum msg \<le> lastOp s \<and>
       (\<exists>m. s' = send (s\<lparr>viewChangeTimeout := True\<rparr>) (ReplicaDest (leader_of s)) (OutReplica (MsgPrepareOK m)))"
  then show ?thesis using inv by (auto intro: rest_inv_send)
next
  let ?s = "s\<lparr>viewChangeTimeout := True\<rparr>"
  assume "pr_view msg = view s \<and> status s = STATUS_NORMAL \<and> \<not> AmLeader s \<and> lastOp s < pr_opnum msg \<and>
       pr_batchstart msg \<le> lastOp s + 1 \<and>
       (\<exists>t. fold_r (prepare_one env (pr_view msg)) (?s, pr_batchstart msg - 1) (pr_request msg) = Inr (t, pr_opnum msg) \<and>
            s' = send t (ReplicaDest (leader_of t)) (OutReplica (MsgPrepareOK
              \<lparr>pok_view = pr_view msg, pok_opnum = pr_opnum msg, pok_replicaIdx = replicaIdx s\<rparr>)))"
  then obtain t where bs: "pr_batchstart msg \<le> lastOp s + 1"
    and f: "fold_r (prepare_one env (pr_view msg)) (?s, pr_batchstart msg - 1) (pr_request msg) = Inr (t, pr_opnum msg)"
    and s': "s' = send t (ReplicaDest (leader_of t)) (OutReplica (MsgPrepareOK
              \<lparr>pok_view = pr_view msg, pok_opnum = pr_opnum msg, pok_replicaIdx = replicaIdx s\<rparr>))"
    by (elim exE conjE)
  note P = prepare_fold_pre [OF inv(1) wf bs]
  have i0: "log_inv ?s" "pr_batchstart msg - 1 \<le> lastOp ?s" using inv(1) P(2) by simp_all
  have "log_inv t \<and> t = ?s\<lparr>lastOp := lastOp t, log := log t, clientTable := clientTable t\<rparr>"
    using prepare_fold [OF i0(1) P(1) f i0(2)] by blast
  then obtain a b c where "log_inv t" "t = ?s\<lparr>lastOp := a, log := b, clientTable := c\<rparr>" by blast
  moreover have "rest_inv (?s\<lparr>lastOp := a, log := b, clientTable := c\<rparr>)" using inv(2) by simp
  ultimately show ?thesis unfolding s' by (auto intro: rest_inv_send)
qed

lemma HandlePrepareOK_leader:
  fixes s msg
  defines "add \<equiv> AddAndCheckForQuorum (prepareOKQuorum s) (viewstamp2 (pok_view msg) (pok_opnum msg))
                (pok_replicaIdx msg) msg"
  assumes c: "status s = STATUS_NORMAL" "pok_view msg = view s" "AmLeader s"
    and run: "HandlePrepareOK env s remote msg = Inr s'"
  shows "s' = s\<lparr>prepareOKQuorum := fst add\<rparr> \<or> snd add \<noteq> None \<and>
     (\<exists>t. CommitUpTo env (s\<lparr>prepareOKQuorum := fst add\<rparr>) (pok_opnum msg) = Inr t \<and>
        (s' = t \<or> (let u = (send t AllReplicas (OutReplica (MsgCommit (view t) (lastCommitted t))))\<lparr>nullCommitTimeout := True\<rparr>
            in s' = u \<or> s' = u\<lparr>batchComplete := True\<rparr> \<or> CloseBatch (u\<lparr>batchComplete := True\<rparr>) = Inr s')))"
proof (cases "snd add")
  case None
  then have "s' = s\<lparr>prepareOKQuorum := fst add\<rparr>"
    using run c by (simp add: HandlePrepareOK_def add_def split_beta)
  then show ?thesis by (rule disjI1)
next
  case (Some ms)
  have "rbind (CommitUpTo env (s\<lparr>prepareOKQuorum := fst add\<rparr>) (pok_opnum msg)) (\<lambda>t.
           if int (length ms) \<ge> QuorumSize (configuration t) then Inr t
                 else let s3 = send t AllReplicas (OutReplica (MsgCommit (view t) (lastCommitted t)));
                       s4 = s3\<lparr>nullCommitTimeout := True\<rparr>
                   in if lastBatchEnd s4 = pok_opnum msg then
                        (let s5 = s4\<lparr>batchComplete := True\<rparr>
                         in if lastOp s5 > lastBatchEnd s5 then CloseBatch s5 else Inr s5)
                      else Inr s4) = Inr s'"
    using run c Some unfolding HandlePrepareOK_def add_def
    by (simp add: split_beta Let_def del: rbind_Inr)
  then obtain t where t: "CommitUpTo env (s\<lparr>prepareOKQuorum := fst add\<rparr>) (pok_opnum msg) = Inr t"
    and rest: "(if int (length ms) \<ge> QuorumSize (configuration t) then Inr t
                 else let s3 = send t AllReplicas (OutReplica (MsgCommit (view t) (lastCommitted t)));
                       s4 = s3\<lparr>nullCommitTimeout := True\<rparr>
                   in if lastBatchEnd s4 = pok_opnum msg then
                        (let s5 = s4\<lparr>batchComplete := True\<rparr>
                         in if lastOp s5 > lastBatchEnd s5 then CloseBatch s5 else Inr s5)
                      else Inr s4) = Inr s'"
    unfolding rbind_Inr by (elim exE conjE)
  have "s' = t \<or> (let u = (send t AllReplicas (OutReplica (MsgCommit (view t) (lastCommitted t))))\<lparr>nullCommitTimeout := True\<rparr>
            in s' = u \<or> s' = u\<lparr>batchComplete := True\<rparr> \<or> CloseBatch (u\<lparr>batchComplete := True\<rparr>) = Inr s')"
    using rest by (auto simp: Let_def split: if_splits)
  then show ?thesis using t Some by blast
qed

lemma HandlePrepareOK_cases:
  fixes s msg
  defines "add \<equiv> AddAndCheckForQuorum (prepareOKQuorum s) (viewstamp2 (pok_view msg) (pok_opnum msg))
                (pok_replicaIdx msg) msg"
  assumes run: "HandlePrepareOK env s remote msg = Inr s'"
  shows "s' = s \<or> s' = RequestStateTransfer s \<or> s' = s\<lparr>prepareOKQuorum := fst add\<rparr> \<or>
    (AmLeader s \<and> status s = STATUS_NORMAL \<and> pok_view msg = view s \<and> snd add \<noteq> None \<and>
     (\<exists>t. CommitUpTo env (s\<lparr>prepareOKQuorum := fst add\<rparr>) (pok_opnum msg) = Inr t \<and>
        (s' = t \<or> (let u = (send t AllReplicas (OutReplica (MsgCommit (view t) (lastCommitted t))))\<lparr>nullCommitTimeout := True\<rparr>
            in s' = u \<or> s' = u\<lparr>batchComplete := True\<rparr> \<or> CloseBatch (u\<lparr>batchComplete := True\<rparr>) = Inr s'))))"
proof -
  consider (status) "status s \<noteq> STATUS_NORMAL" | (old) "status s = STATUS_NORMAL" "pok_view msg < view s"
    | (future) "status s = STATUS_NORMAL" "view s < pok_view msg"
    | (backup) "status s = STATUS_NORMAL" "pok_view msg = view s" "\<not> AmLeader s"
    | (leader) "status s = STATUS_NORMAL" "pok_view msg = view s" "AmLeader s"
    using linorder_less_linear by blast
  then show ?thesis
  proof cases
    case leader
    then show ?thesis using HandlePrepareOK_leader [OF leader run] unfolding add_def by blast
  next
    case future
    then have "\<not> pok_view msg < view s" by simp
    with future have "s' = RequestStateTransfer s" using run by (simp add: HandlePrepareOK_def)
    then show ?thesis by simp
  qed (use run in \<open>simp_all add: HandlePrepareOK_def\<close>)
qed

lemma HandlePrepareOK_inv:
  assumes inv: "log_inv s" "rest_inv s" and run: "HandlePrepareOK env s remote msg = Inr s'"
  shows "log_inv s' \<and> rest_inv s'"
  using HandlePrepareOK_cases [OF run]
proof (elim disjE conjE exE)
  let ?s1 = "s\<lparr>prepareOKQuorum := fst (AddAndCheckForQuorum (prepareOKQuorum s)
     (viewstamp2 (pok_view msg) (pok_opnum msg)) (pok_replicaIdx msg) msg)\<rparr>"
  fix t
  assume ldr: "AmLeader s" and t: "CommitUpTo env ?s1 (pok_opnum msg) = Inr t"
  have i: "log_inv t" "rest_inv t" "AmLeader t"
    using CommitUpTo_vr_inv [OF _ _ t] inv commit_frameD(17) [of ?s1 t] ldr by simp_all
  show ?thesis if "s' = t" using i that by simp
  let ?u = "(send t AllReplicas (OutReplica (MsgCommit (view t) (lastCommitted t))))\<lparr>nullCommitTimeout := True\<rparr>"
  have u: "log_inv ?u" "rest_inv ?u" using i by (auto intro: rest_inv_send)
  assume "let u = ?u in s' = u \<or> s' = u\<lparr>batchComplete := True\<rparr> \<or> CloseBatch (u\<lparr>batchComplete := True\<rparr>) = Inr s'"
  then show ?thesis
    unfolding Let_def using u CloseBatch_inv [of "?u\<lparr>batchComplete := True\<rparr>" s'] by (elim disjE) simp_all
qed (use inv in \<open>simp_all add: rest_inv_RST\<close>)

lemma HandleCommit_cases:
  assumes run: "HandleCommit env s remote v op = Inr s'"
  shows "s' = s \<or> s' = RequestStateTransfer s \<or> s' = s\<lparr>viewChangeTimeout := True\<rparr> \<or>
    s' = RequestStateTransfer (s\<lparr>viewChangeTimeout := True\<rparr>) \<or>
    (v = view s \<and> \<not> AmLeader s \<and> op \<le> lastOp s \<and> CommitUpTo env (s\<lparr>viewChangeTimeout := True\<rparr>) op = Inr s')"
  using run by (auto simp: HandleCommit_def Let_def not_less split: if_splits)

lemma HandleCommit_inv:
  assumes inv: "log_inv s" "rest_inv s" and run: "HandleCommit env s remote v op = Inr s'"
  shows "log_inv s' \<and> rest_inv s'"
  using HandleCommit_cases [OF run] inv CommitUpTo_vr_inv [of "s\<lparr>viewChangeTimeout := True\<rparr>" env op s']
  by (elim disjE) (simp_all add: rest_inv_RST)

lemma HandleRequestStateTransfer_inv:
  assumes inv: "log_inv s" "rest_inv s" and run: "HandleRequestStateTransfer s remote v op = Inr s'"
  shows "log_inv s' \<and> rest_inv s'"
proof -
  have "s' = s \<or> s' = RequestStateTransfer s \<or>
     (\<exists>es. Dump_from (log s) (op + 1) = Inr es \<and>
       s' = send s (AddressDest remote) (OutReplica (MsgStateTransfer
          \<lparr>st_view = view s, st_opnum = lastCommitted s, st_entries = es\<rparr>)))"
    using run by (auto simp: HandleRequestStateTransfer_def split: if_splits)
  then show ?thesis
  proof (elim disjE exE conjE)
    fix es
    assume es: "Dump_from (log s) (op + 1) = Inr es" and
      s': "s' = send s (AddressDest remote) (OutReplica (MsgStateTransfer
          \<lparr>st_view = view s, st_opnum = lastCommitted s, st_entries = es\<rparr>))"
    have "\<forall>m\<in>set es. me_opnum m \<noteq> - 1"
      using Dump_from_wf(4) [OF _ _ _ es] log_invD [OF inv(1)] by simp
    then show ?thesis unfolding s' using inv by (auto intro!: rest_inv_send)
  qed (use inv in \<open>simp_all add: rest_inv_RST\<close>)
qed

end
