(* ===== verification/VRViewChange.thy ===== *)
theory VRViewChange
  imports VRInvariant
begin

text \<open>
  The handlers that replace parts of the log, state transfer and view change, keep the invariant;
  then the invariant over whole runs, as an instance of the contract of a message-driven component.
\<close>

section \<open>State transfer\<close>

text \<open>One received entry never disturbs what is committed.\<close>

lemma transfer_one_spec:
  assumes inv: "log_inv s" and nm: "me_opnum m \<noteq> - 1" and run: "transfer_one env (s, old) m = Inr (s', old')"
  shows "log_inv s' \<and> s' = s\<lparr>lastOp := lastOp s', log := log s'\<rparr> \<and>
     (\<forall>i \<le> lastCommitted s. log_at (log s') i = log_at (log s) i)"
proof -
  note I = log_invD [OF inv]
  let ?e = "LogEntry_new (viewstamp2 (me_view m) (me_opnum m)) LOG_STATE_PREPARED (me_request m)"
  consider (old) "me_opnum m \<le> lastCommitted s"
    | (mine) "\<not> me_opnum m \<le> lastCommitted s" "me_opnum m \<le> lastOp s"
    | (new) "\<not> me_opnum m \<le> lastCommitted s" "\<not> me_opnum m \<le> lastOp s" by blast
  then show ?thesis
  proof cases
    case old
    then show ?thesis using run inv by (simp add: transfer_one_def)
  next
    case mine
    obtain e where e: "log_at (log s) (me_opnum m) = Some e"
      using run mine by (cases "log_at (log s) (me_opnum m)") (auto simp: transfer_one_def Find_eq [OF I(1)])
    show ?thesis
    proof (cases "vs_view (le_viewstamp e) = me_view m")
      case True
      then show ?thesis using run mine e inv by (simp add: transfer_one_def Find_eq [OF I(1)])
    next
      case False
      obtain l l' where l: "RemoveAfter (log s) (me_opnum m) = Inr l" and l': "Append (sha1 env) l ?e = Inr l'"
        and s': "s' = s\<lparr>lastOp := me_opnum m, log := l'\<rparr>"
        using run mine e False by (auto simp: transfer_one_def Find_eq [OF I(1)])
      let ?t = "s\<lparr>lastOp := me_opnum m - 1, log := l\<rparr>"
      from RemoveAfter_wf [OF I(1) l] have lw: "log_wf l" "start l = 1" "LastOpnum l = me_opnum m - 1"
        "\<forall>j. log_at l j = (if j < me_opnum m then log_at (log s) j else None)"
        using mine(2) I(2,4) by auto
      have pos: "1 \<le> unat (me_opnum m)" using mine(1) by (auto simp: word_le_nat_alt)
      then have m1: "unat (me_opnum m - 1) = unat (me_opnum m) - 1" by (rule unat_sub_1)
      have "me_opnum m - 1 \<noteq> - 1" "lastCommitted s \<le> me_opnum m - 1"
        using m1 pos mine(1) unat_u64_bound [of "me_opnum m"] unfolding u64_not_max
        by (auto simp: word_le_nat_alt)
      then have "log_inv ?t" using lw RemoveAfter_fields(2) [OF l] I(3) by (simp add: log_inv_def)
      from append_log_inv [OF this, of "sha1 env" ?e l'] l' nm
      have "log_inv s'" "\<forall>i. log_at l' i = (if i = me_opnum m then Some ?e else log_at l i)"
        unfolding s' by simp_all
      moreover have "log_at l' i = log_at (log s) i" if "i \<le> lastCommitted s" for i
        using that mine(1) calculation(2) lw(4) by (auto simp: word_le_nat_alt word_less_nat_alt)
      ultimately show ?thesis unfolding s' by simp
    qed
  next
    case new
    obtain l where eq: "me_opnum m = lastOp s + 1" and l: "Append (sha1 env) (log s) ?e = Inr l"
      and s': "s' = s\<lparr>lastOp := lastOp s + 1, log := l\<rparr>"
      using run new by (auto simp: transfer_one_def)
    note A = append_log_inv [OF inv l] nm [unfolded eq]
    have "log_at l i = log_at (log s) i" if "i \<le> lastCommitted s" for i
      using that new(1) A eq by auto
    then show ?thesis using A unfolding s' by simp
  qed
qed

lemma transfer_fold:
  assumes "log_inv s" and "\<forall>m\<in>set ms. me_opnum m \<noteq> - 1"
    and "fold_r (transfer_one env) (s, old) ms = Inr (s', old')"
  shows "log_inv s' \<and> s' = s\<lparr>lastOp := lastOp s', log := log s'\<rparr> \<and>
     (\<forall>i \<le> lastCommitted s. log_at (log s') i = log_at (log s) i)"
  using assms
proof (induction ms arbitrary: s old)
  case (Cons m ms)
  obtain p where p: "transfer_one env (s, old) m = Inr p" and rest: "fold_r (transfer_one env) p ms = Inr (s', old')"
    using Cons.prems(3) unfolding fold_r.simps rbind_Inr by (elim exE conjE)
  obtain t o' where tp: "p = (t, o')" by (cases p)
  have step: "log_inv t \<and> t = s\<lparr>lastOp := lastOp t, log := log t\<rparr> \<and>
      (\<forall>i \<le> lastCommitted s. log_at (log t) i = log_at (log s) i)"
    using transfer_one_spec [OF Cons.prems(1) _ p [unfolded tp]] Cons.prems(2) by simp
  then have "log_inv t" by simp
  from Cons.IH [OF this _ rest [unfolded tp]] Cons.prems(2)
  have IH: "log_inv s' \<and> s' = t\<lparr>lastOp := lastOp s', log := log s'\<rparr> \<and>
     (\<forall>i \<le> lastCommitted t. log_at (log s') i = log_at (log t) i)" by simp
  obtain a b where t: "t = s\<lparr>lastOp := a, log := b\<rparr>" using step by blast
  obtain c d where s': "s' = t\<lparr>lastOp := c, log := d\<rparr>" using IH by blast
  have "s' = s\<lparr>lastOp := lastOp s', log := log s'\<rparr>" unfolding s' t by simp
  moreover have "lastCommitted t = lastCommitted s" unfolding t by simp
  ultimately show ?case using IH step by simp
qed simp

definition table_frame :: "'a VRReplica \<Rightarrow> 'a VRReplica \<Rightarrow> bool" where
  "table_frame s s' \<longleftrightarrow> s' = s\<lparr>clientTable := clientTable s', outbox := outbox s'\<rparr>"

lemma table_frameD:
  assumes "table_frame s s'"
  shows "log s' = log s" "lastOp s' = lastOp s" "lastCommitted s' = lastCommitted s" "view s' = view s"
    "status s' = status s" "pendingPrepares s' = pendingPrepares s" "app_state s' = app_state s"
    "configuration s' = configuration s" "replicaIdx s' = replicaIdx s"
  using assms unfolding table_frame_def by (cases s; cases s'; simp)+

lemma SendPrepareOK_Inr:
  assumes "\<not> i \<le> lastCommitted t" and step: "SendPrepareOK t i = Inr t'" and wf: "log_wf (log t)"
  shows "\<exists>e u. log_at (log t) i = Some e \<and> le_state e = LOG_STATE_PREPARED \<and>
     UpdateClientTable t (le_request e) = Inr u \<and>
     t' = send u (ReplicaDest (leader_of u)) (OutReplica (MsgPrepareOK
            \<lparr>pok_view = view u, pok_opnum = i, pok_replicaIdx = replicaIdx u\<rparr>))"
proof (cases "log_at (log t) i")
  case None
  then show ?thesis using assms by (simp add: SendPrepareOK_def Find_eq [OF wf])
next
  case (Some e)
  then have "le_state e = LOG_STATE_PREPARED \<and> (\<exists>u. UpdateClientTable t (le_request e) = Inr u \<and>
     t' = send u (ReplicaDest (leader_of u)) (OutReplica (MsgPrepareOK
            \<lparr>pok_view = view u, pok_opnum = i, pok_replicaIdx = replicaIdx u\<rparr>)))"
    using assms by (auto simp: SendPrepareOK_def Find_eq [OF wf])
  then show ?thesis using Some by blast
qed

lemma SendPrepareOKs_inv:
  assumes inv: "log_inv s" "rest_inv s" and run: "SendPrepareOKs s k = Inr s'"
  shows "log_inv s' \<and> rest_inv s' \<and> table_frame s s'"
proof -
  obtain ops where f: "fold_r SendPrepareOK s ops = Inr s'"
    using run unfolding SendPrepareOKs_def rbind_Inr by (elim exE conjE)
  show ?thesis
  proof (rule fold_r_invariant [OF _ f])
    show "log_inv s \<and> rest_inv s \<and> table_frame s s" using inv by (simp add: table_frame_def)
    fix t i t'
    assume P: "log_inv t \<and> rest_inv t \<and> table_frame s t" and step: "SendPrepareOK t i = Inr t'"
    show "log_inv t' \<and> rest_inv t' \<and> table_frame s t'"
    proof (cases "i \<le> lastCommitted t")
      case True
      then show ?thesis using P step by (simp add: SendPrepareOK_def)
    next
      case False
      then obtain e :: LogEntry and u where u: "UpdateClientTable t (le_request e) = Inr u"
        and t': "t' = send u (ReplicaDest (leader_of u)) (OutReplica (MsgPrepareOK
                   \<lparr>pok_view = view u, pok_opnum = i, pok_replicaIdx = replicaIdx u\<rparr>))"
        using SendPrepareOK_Inr [OF False step log_invD(1)] P by blast
      have "log_inv t'" "rest_inv t'"
        unfolding t' using P UpdateClientTable_inv [OF u] by (auto intro: rest_inv_send)
      moreover obtain ct where "u = t\<lparr>clientTable := ct\<rparr>" using UpdateClientTable_frame [OF u] by blast
      moreover obtain ct' ob where "t = s\<lparr>clientTable := ct', outbox := ob\<rparr>" using P unfolding table_frame_def by blast
      ultimately show ?thesis unfolding t' table_frame_def by (simp add: send_def)
    qed
  qed
qed

lemma HandleStateTransfer_Inr:
  assumes run: "HandleStateTransfer env s remote msg = Inr s'" and "\<not> st_view msg < view s"
  shows "\<exists>s1 old s2 s3 s4. fold_r (transfer_one env) (s, lastOp s) (st_entries msg) = Inr (s1, old) \<and>
     s2 = (if st_view msg > view s1 then EnterView s1 (st_view msg) else s1) \<and>
     CommitUpTo env s2 (st_opnum msg) = Inr s3 \<and> SendPrepareOKs s3 old = Inr s4 \<and>
     fold_r (\<lambda>s p. HandlePrepare env s (fst p) (snd p)) (s4\<lparr>pendingPrepares := []\<rparr>) (pendingPrepares s4) = Inr s'"
proof -
  have "rbind (fold_r (transfer_one env) (s, lastOp s) (st_entries msg)) (\<lambda>(s1, oldLastOp).
          let s2 = (if st_view msg > view s1 then EnterView s1 (st_view msg) else s1) in
          check (st_opnum msg \<le> lastOp s2) AssertFailed
            (rbind (CommitUpTo env s2 (st_opnum msg)) (\<lambda>s3.
             rbind (SendPrepareOKs s3 oldLastOp) (\<lambda>s4.
               fold_r (\<lambda>s p. HandlePrepare env s (fst p) (snd p)) (s4\<lparr>pendingPrepares := []\<rparr>)
                 (pendingPrepares s4))))) = Inr s'"
    using run assms(2) by (simp add: HandleStateTransfer_def)
  then obtain p where p: "fold_r (transfer_one env) (s, lastOp s) (st_entries msg) = Inr p"
    and rest: "(\<lambda>(s1, oldLastOp).
          let s2 = (if st_view msg > view s1 then EnterView s1 (st_view msg) else s1) in
          check (st_opnum msg \<le> lastOp s2) AssertFailed
            (rbind (CommitUpTo env s2 (st_opnum msg)) (\<lambda>s3.
             rbind (SendPrepareOKs s3 oldLastOp) (\<lambda>s4.
               fold_r (\<lambda>s p. HandlePrepare env s (fst p) (snd p)) (s4\<lparr>pendingPrepares := []\<rparr>)
                 (pendingPrepares s4))))) p = Inr s'"
    unfolding rbind_Inr by (elim exE conjE)
  obtain s1 old where "p = (s1, old)" by (cases p)
  with p rest show ?thesis by (simp only: Let_def rbind_Inr check_Inr prod.case) blast
qed

lemma HandleStateTransfer_inv:
  assumes inv: "log_inv s" "rest_inv s" and wf: "msg_wf (MsgStateTransfer msg)"
    and run: "HandleStateTransfer env s remote msg = Inr s'"
  shows "log_inv s' \<and> rest_inv s'"
proof (cases "st_view msg < view s")
  case True
  then show ?thesis using run inv by (simp add: HandleStateTransfer_def)
next
  case False
  obtain s1 old s2 s3 s4 where f: "fold_r (transfer_one env) (s, lastOp s) (st_entries msg) = Inr (s1, old)"
    and s2: "s2 = (if st_view msg > view s1 then EnterView s1 (st_view msg) else s1)"
    and c: "CommitUpTo env s2 (st_opnum msg) = Inr s3" and p: "SendPrepareOKs s3 old = Inr s4"
    and g: "fold_r (\<lambda>s p. HandlePrepare env s (fst p) (snd p)) (s4\<lparr>pendingPrepares := []\<rparr>) (pendingPrepares s4) = Inr s'"
    using HandleStateTransfer_Inr [OF run False] by (elim exE conjE)
  have "log_inv s1 \<and> s1 = s\<lparr>lastOp := lastOp s1, log := log s1\<rparr>"
    using transfer_fold [OF inv(1) _ f] wf by simp
  then obtain a b where "log_inv s1" "s1 = s\<lparr>lastOp := a, log := b\<rparr>" by blast
  then have i1: "log_inv s1" "rest_inv s1" using inv(2) by simp_all
  then have i2: "log_inv s2" "rest_inv s2" unfolding s2 by (auto simp: log_inv_def intro: rest_inv_EnterView)
  have "log_inv s3" "rest_inv s3" using CommitUpTo_vr_inv [OF i2 c] by simp_all
  from SendPrepareOKs_inv [OF this p] have i4: "log_inv s4" "rest_inv s4" by simp_all
  show ?thesis
  proof (rule fold_r_invariant [OF _ g])
    show "log_inv (s4\<lparr>pendingPrepares := []\<rparr>) \<and> rest_inv (s4\<lparr>pendingPrepares := []\<rparr>)"
      using i4 by (simp add: rest_inv_def msgs_inv_def timers_inv_def AmLeader_def)
  next
    fix t x t'
    assume t: "log_inv t \<and> rest_inv t" and x: "x \<in> set (pendingPrepares s4)"
      and step: "HandlePrepare env t (fst x) (snd x) = Inr t'"
    have "prepare_wf (snd x)" using i4(2) x by (simp add: rest_inv_def msgs_inv_def)
    with t step show "log_inv t' \<and> rest_inv t'" using HandlePrepare_inv by blast
  qed
qed

section \<open>View change\<close>

lemma min_committed_Inr: "min_committed c ms = Inr k \<Longrightarrow> ms \<noteq> [] \<and> (\<exists>p\<in>set ms. k = c (snd p)) \<and> (\<forall>p\<in>set ms. k \<le> c (snd p))"
proof (induction c ms arbitrary: k rule: min_committed.induct)
  case (3 c p q ps)
  then obtain k' where k': "min_committed c (q # ps) = Inr k'" and k: "k = min (c (snd p)) k'" by auto
  from "3.IH" [OF k'] show ?case using k by (auto simp: min_def)
qed auto

lemma Dump_committed_wf:
  assumes inv: "log_inv s" and dump: "Dump_from (log s) k = Inr es" and k: "k \<le> lastCommitted s"
  shows "entries_to (lastOp s) es" "es = [] \<Longrightarrow> lastOp s = 0" "es = [] \<Longrightarrow> vs_view (LastViewstamp (log s)) = 0"
proof -
  note I = log_invD [OF inv]
  have nm: "LastOpnum (log s) \<noteq> - 1" using I by simp
  note D = Dump_from_wf [OF I(1,2) nm dump]
  show "entries_to (lastOp s) es" using D(1) I(4) by simp
  show z: "lastOp s = 0" if "es = []"
  proof -
    have "LastOpnum (log s) < max k 1" using D(2) that by simp
    then have "unat (lastOp s) < 1"
      using k I(4,6) by (auto simp: max_def word_less_nat_alt word_le_nat_alt split: if_splits)
    then show ?thesis by (simp add: unat_eq_zero)
  qed
  show "vs_view (LastViewstamp (log s)) = 0" if "es = []"
  proof -
    have "unat (LastOpnum (log s)) = 0" using z [OF that] I(4) by simp
    then have "entries (log s) = []" using unat_LastOpnum [OF I(1)] I(2) by simp
    then show ?thesis by (simp add: LastViewstamp_def viewstamp2_def)
  qed
qed

lemma join_inv: "rest_inv s \<Longrightarrow> rest_inv (join_view_change s v)" "log_inv (join_view_change s v) = log_inv s"
  by (simp_all add: join_view_change_def rest_inv_SVC)

lemma join_frame [simp]:
  "log (join_view_change s v) = log s" "lastCommitted (join_view_change s v) = lastCommitted s"
  "lastOp (join_view_change s v) = lastOp s" "doViewChangeQuorum (join_view_change s v) = doViewChangeQuorum s"
  "configuration (join_view_change s v) = configuration s" "replicaIdx (join_view_change s v) = replicaIdx s"
  "app_state (join_view_change s v) = app_state s"
  by (simp_all add: join_view_change_def frame_defs)

lemma SendDoViewChange_inv:
  assumes inv: "log_inv s" "rest_inv s" and run: "SendDoViewChange s ms = Inr s'"
  shows "log_inv s' \<and> rest_inv s'"
proof (cases "leader_of s = replicaIdx s")
  case False
  then obtain k es where es: "Dump_from (log s) (min k (lastCommitted s)) = Inr es"
    and s': "s' = send s (ReplicaDest (leader_of s)) (OutReplica (MsgDoViewChange
            \<lparr>dvc_view = view s, dvc_lastNormalView = vs_view (LastViewstamp (log s)),
             dvc_lastOp = lastOp s, dvc_lastCommitted = lastCommitted s,
             dvc_entries = es, dvc_replicaIdx = replicaIdx s\<rparr>))"
    using run by (auto simp: SendDoViewChange_def)
  then show ?thesis unfolding s' using inv Dump_committed_wf [OF inv(1) es] log_invD(6) [OF inv(1)]
    by (auto intro!: rest_inv_send simp: dvc_wf_def)
qed (use assms in \<open>simp add: SendDoViewChange_def\<close>)

lemma HandleStartViewChange_inv:
  assumes inv: "log_inv s" "rest_inv s" and run: "HandleStartViewChange s remote msg = Inr s'"
  shows "log_inv s' \<and> rest_inv s'"
proof (cases "svc_view msg < view s \<or> svc_view msg = view s \<and> status s \<noteq> STATUS_VIEW_CHANGE")
  case True
  then show ?thesis using run inv by (auto simp: HandleStartViewChange_def split: if_splits)
next
  case False
  define s1 where "s1 = join_view_change s (svc_view msg)"
  define add where "add = AddAndCheckForQuorum (startViewChangeQuorum s1) (svc_view msg) (svc_replicaIdx msg) msg"
  define s2 where "s2 = s1\<lparr>startViewChangeQuorum := fst add\<rparr>"
  have i2: "log_inv s2" "rest_inv s2" using inv join_inv unfolding s2_def s1_def by auto
  have "(case snd add of None \<Rightarrow> Inr s2 | Some ms \<Rightarrow> SendDoViewChange s2 ms) = Inr s'"
    using run False unfolding HandleStartViewChange_def s1_def [symmetric] s2_def add_def Let_def split_beta
    by (auto split: if_splits)
  then show ?thesis using i2 SendDoViewChange_inv [OF i2] by (cases "snd add") auto
qed

text \<open>The loop of \<open>HandleDoViewChange\<close> selects a log that no message of the quorum exceeds in the
  lexicographic order of last normal view and last operation; it keeps its own when nothing is newer.\<close>

definition newer :: "u64 \<times> u64 \<Rightarrow> u64 \<times> u64 \<Rightarrow> bool" where
  "newer p q \<longleftrightarrow> fst p > fst q \<or> fst p = fst q \<and> snd p > snd q"

definition dvc_stamp :: "DoViewChangeMessage \<Rightarrow> u64 \<times> u64" where
  "dvc_stamp x = (dvc_lastNormalView x, dvc_lastOp x)"

lemma newer_trans: "\<lbrakk> newer p q; newer q r \<rbrakk> \<Longrightarrow> newer p r"
  by (auto simp: newer_def)

lemma newer_total: "\<not> newer p q \<Longrightarrow> \<not> newer q r \<Longrightarrow> \<not> newer p r"
  by (auto simp: newer_def)

lemma latest_fold:
  assumes "foldl latest_step (lv, lo, lm) ms = (lv', lo', lm')"
  shows "(lv' = lv \<and> lo' = lo \<and> lm' = lm \<or>
          (\<exists>p\<in>set ms. lm' = Some (snd p) \<and> (lv', lo') = dvc_stamp (snd p) \<and> newer (lv', lo') (lv, lo))) \<and>
         (\<forall>p\<in>set ms. \<not> newer (dvc_stamp (snd p)) (lv', lo')) \<and> \<not> newer (lv, lo) (lv', lo')"
  using assms
proof (induction ms arbitrary: lv lo lm)
  case Nil
  then show ?case by (simp add: newer_def)
next
  case (Cons p ms)
  let ?x = "snd p"
  show ?case
  proof (cases "newer (dvc_stamp ?x) (lv, lo)")
    case True
    then have "foldl latest_step (dvc_lastNormalView ?x, dvc_lastOp ?x, Some ?x) ms = (lv', lo', lm')"
      using Cons.prems by (simp add: latest_step_def [of _ p] Let_def newer_def dvc_stamp_def)
    note IH = Cons.IH [OF this]
    have st: "(dvc_lastNormalView ?x, dvc_lastOp ?x) = dvc_stamp ?x" by (simp add: dvc_stamp_def)
    from IH have nx: "\<not> newer (dvc_stamp ?x) (lv', lo')" and all: "\<forall>p\<in>set ms. \<not> newer (dvc_stamp (snd p)) (lv', lo')"
      and or: "lm' = Some ?x \<and> (lv', lo') = dvc_stamp ?x \<or>
        (\<exists>p\<in>set ms. lm' = Some (snd p) \<and> (lv', lo') = dvc_stamp (snd p) \<and> newer (lv', lo') (dvc_stamp ?x))"
      unfolding st by (auto simp: dvc_stamp_def)
    have new: "newer (lv', lo') (lv, lo)" using or True newer_trans by fastforce
    then have "\<not> newer (lv, lo) (lv', lo')" by (auto simp: newer_def)
    moreover have "\<exists>q\<in>set (p # ms). lm' = Some (snd q) \<and> (lv', lo') = dvc_stamp (snd q) \<and> newer (lv', lo') (lv, lo)"
      using or new by auto
    ultimately show ?thesis using nx all by simp
  next
    case False
    then have "foldl latest_step (lv, lo, lm) ms = (lv', lo', lm')"
      using Cons.prems by (auto simp: latest_step_def [of _ p] Let_def newer_def dvc_stamp_def)
    note IH = Cons.IH [OF this]
    have "\<not> newer (dvc_stamp ?x) (lv', lo')" using IH False newer_total by blast
    then show ?thesis using IH by auto
  qed
qed

lemma select_log_spec:
  assumes inv: "log_inv s" and sel: "select_log s ms = (op, latest)"
  shows "(latest = None \<and> op = lastOp s) \<or>
         (\<exists>p\<in>set ms. latest = Some (snd p) \<and> op = dvc_lastOp (snd p) \<and>
            newer (dvc_stamp (snd p)) (vs_view (LastViewstamp (log s)), lastOp s))"
proof -
  obtain lv where "foldl latest_step (vs_view (LastViewstamp (log s)), vs_opnum (LastViewstamp (log s)), None) ms = (lv, op, latest)"
    using sel unfolding select_log_def by (metis prod.collapse snd_conv)
  from latest_fold [OF this] show ?thesis
    using log_invD(4) [OF inv] by (auto simp: LastViewstamp_opnum dvc_stamp_def)
qed

lemma adopt_log_installs:
  assumes inv: "log_inv s" and run: "adopt_log env s msg latest = Inr (s', latest')"
    and lat: "latest = Some x" and w: "dvc_wf x" and c: "covers s x"
    and new: "newer (dvc_stamp x) (vs_view (LastViewstamp (log s)), lastOp s)"
  shows "install_new_log env s (dvc_lastOp x) (dvc_entries x) = Inr s'" "entries_to (dvc_lastOp x) (dvc_entries x)"
    "dvc_entries x \<noteq> []" "lastCommitted s \<le> dvc_lastOp x" "latest' = Some x"
proof -
  show ne: "dvc_entries x \<noteq> []" using w new by (auto simp: dvc_wf_def newer_def dvc_stamp_def)
  show "lastCommitted s \<le> dvc_lastOp x"
    using new c log_invD(6) [OF inv] by (auto simp: newer_def dvc_stamp_def covers_def)
  show "install_new_log env s (dvc_lastOp x) (dvc_entries x) = Inr s'" "latest' = Some x"
    using run lat ne by (auto simp: adopt_log_def)
  show "entries_to (dvc_lastOp x) (dvc_entries x)" using w by (simp add: dvc_wf_def)
qed

lemma adopt_log_spec:
  assumes inv: "log_inv s" and sel: "select_log s ms = (op, latest)"
    and wf: "\<forall>p\<in>set ms. dvc_wf (snd p)" and cov: "\<forall>p\<in>set ms. covers s (snd p)"
    and run: "adopt_log env s msg latest = Inr (s', latest')"
  shows "s' = s\<lparr>log := log s'\<rparr> \<and> log_inv (s'\<lparr>lastOp := op\<rparr>) \<and> latest' = latest \<and>
     (\<forall>x. latest = Some x \<longrightarrow> dvc_lastCommitted x \<le> op)"
  using select_log_spec [OF inv sel]
proof (elim disjE bexE conjE)
  assume "latest = None" "op = lastOp s"
  then show ?thesis using run inv by (simp add: adopt_log_def)
next
  fix p
  assume p: "p \<in> set ms" and lat: "latest = Some (snd p)" and op: "op = dvc_lastOp (snd p)"
    and new: "newer (dvc_stamp (snd p)) (vs_view (LastViewstamp (log s)), lastOp s)"
  have w: "dvc_wf (snd p)" and c: "covers s (snd p)" using p wf cov by auto
  note A = adopt_log_installs [OF inv run lat w c new]
  have "s' = s\<lparr>log := log s'\<rparr> \<and> log_inv (s'\<lparr>lastOp := dvc_lastOp (snd p)\<rparr>)"
    using install_new_log_spec [OF inv A(2,3,4,1)] by (elim conjE) (rule conjI)
  then show ?thesis using w A(5) lat op by (simp add: dvc_wf_def)
qed

lemma lead_view_inv:
  assumes inv: "log_inv (s\<lparr>lastOp := op\<rparr>)" "rest_inv s" and min: "mc \<le> lastCommitted s"
    and run: "lead_view env s v mc op latest = Inr s'"
  shows "log_inv s' \<and> rest_inv s'"
proof -
  define s2 where "s2 = (EnterView s v)\<lparr>lastOp := op\<rparr>"
  have i2: "log_inv s2" "rest_inv s2"
    using inv unfolding s2_def by (simp_all add: log_inv_def rest_inv_EnterView)
  have "rbind (case latest of None \<Rightarrow> Inr s2 | Some y \<Rightarrow> CommitUpTo env s2 (dvc_lastCommitted y)) (\<lambda>s3.
            rbind (Dump_from (log s3) mc) (\<lambda>es.
              Inr (send s3 AllReplicas (OutReplica (MsgStartView
                \<lparr>sv_view = view s3, sv_lastOp = lastOp s3,
                 sv_lastCommitted = lastCommitted s3, sv_entries = es\<rparr>))))) = Inr s'"
    using run unfolding lead_view_def s2_def Let_def check_Inr by (elim conjE)
  then obtain s3 es where c: "(case latest of None \<Rightarrow> Inr s2 | Some y \<Rightarrow> CommitUpTo env s2 (dvc_lastCommitted y)) = Inr s3"
    and es: "Dump_from (log s3) mc = Inr es"
    and s': "s' = send s3 AllReplicas (OutReplica (MsgStartView
                \<lparr>sv_view = view s3, sv_lastOp = lastOp s3,
                 sv_lastCommitted = lastCommitted s3, sv_entries = es\<rparr>))"
    unfolding rbind_Inr by auto
  have c2: "lastCommitted s2 = lastCommitted s" by (simp add: s2_def)
  have i3: "log_inv s3 \<and> rest_inv s3 \<and> lastCommitted s2 \<le> lastCommitted s3"
  proof (cases latest)
    case None
    then show ?thesis using c i2 by simp
  next
    case (Some y)
    then have r: "CommitUpTo env s2 (dvc_lastCommitted y) = Inr s3" using c by simp
    show ?thesis
      using CommitUpTo_vr_inv [OF i2 r] CommitUpTo_spec [OF i2(1) CommitUpTo_Inr [OF i2(1) r], of env] r by auto
  qed
  then have "mc \<le> lastCommitted s3" using min c2 by (metis order_trans)
  then show ?thesis
    unfolding s' using i3 Dump_committed_wf [of s3 mc es] es log_invD(6) [of s3]
    by (auto intro!: rest_inv_send)
qed

lemma add_dvc_rest_inv:
  assumes "rest_inv s" and "dvc_wf msg" and "AddAndCheckForQuorum (doViewChangeQuorum s) v i msg = (q, ms)"
  shows "rest_inv (s\<lparr>doViewChangeQuorum := q\<rparr>)"
    "ms = Some xs \<Longrightarrow> set xs \<subseteq> insert (i, msg) (set (messages (doViewChangeQuorum s) v))"
proof -
  have q: "messages q = (messages (doViewChangeQuorum s))(v := smap_put i msg (messages (doViewChangeQuorum s) v))"
    and ms: "ms = CheckForQuorum q v"
    using assms(3) by (auto simp: AddAndCheckForQuorum_def Let_def)
  note sub = set_smap_put_subset [of i msg "messages (doViewChangeQuorum s) v"]
  have "dvc_wf (snd p)" if "p \<in> set (messages q w)" for p w
  proof (cases "w = v")
    case True
    then have "p \<in> insert (i, msg) (set (messages (doViewChangeQuorum s) v))" using that sub q by auto
    then show ?thesis using assms(1,2) by (auto simp: rest_inv_def msgs_inv_def)
  next
    case False
    then show ?thesis using assms(1) that q by (auto simp: rest_inv_def msgs_inv_def)
  qed
  then show "rest_inv (s\<lparr>doViewChangeQuorum := q\<rparr>)"
    using assms(1) by (auto simp: rest_inv_def msgs_inv_def timers_inv_def AmLeader_def)
  show "set xs \<subseteq> insert (i, msg) (set (messages (doViewChangeQuorum s) v))" if "ms = Some xs"
    using that ms q sub by (auto simp: CheckForQuorum_def split: if_splits)
qed

lemma HandleDoViewChange_stages:
  assumes inv: "log_inv s" "rest_inv s" and wf: "dvc_wf msg"
    and ex: "vr_expects s (MsgDoViewChange msg)" and run: "HandleDoViewChange env s remote msg = Inr s'"
    and cur: "\<not> (dvc_view msg < view s \<or> dvc_view msg = view s \<and> status s \<noteq> STATUS_VIEW_CHANGE)"
  shows "\<exists>q s2. s2 = (join_view_change s (dvc_view msg))\<lparr>doViewChangeQuorum := q\<rparr> \<and> log_inv s2 \<and> rest_inv s2 \<and>
    (s' = s2 \<or> (\<exists>xs lop latest s3 latest' mc.
       set xs \<subseteq> insert (dvc_replicaIdx msg, msg) (set (messages (doViewChangeQuorum s) (dvc_view msg))) \<and>
       (\<forall>p\<in>set xs. dvc_wf (snd p)) \<and> (\<forall>p\<in>set xs. covers s2 (snd p)) \<and>
       select_log s2 xs = (lop, latest) \<and> adopt_log env s2 msg latest = Inr (s3, latest') \<and>
       mc \<le> lastCommitted s3 \<and> lead_view env s3 (dvc_view msg) mc lop latest' = Inr s'))"
proof -
  define s1 where "s1 = join_view_change s (dvc_view msg)"
  obtain q ms where add: "AddAndCheckForQuorum (doViewChangeQuorum s1) (dvc_view msg) (dvc_replicaIdx msg) msg = (q, ms)"
    by (cases "AddAndCheckForQuorum (doViewChangeQuorum s1) (dvc_view msg) (dvc_replicaIdx msg) msg")
  define s2 where "s2 = s1\<lparr>doViewChangeQuorum := q\<rparr>"
  have i1: "log_inv s1" "rest_inv s1" using inv join_inv unfolding s1_def by auto
  have i2: "log_inv s2" "rest_inv s2" using i1 add_dvc_rest_inv(1) [OF i1(2) wf add] unfolding s2_def by simp_all
  have body: "(case ms of None \<Rightarrow> Inr s2
              | Some ms \<Rightarrow>
                  let (latestOp, latest) = select_log s2 ms
                  in rbind (adopt_log env s2 msg latest) (\<lambda>(s3, latestMsg).
                     rbind (min_committed svc_lastCommitted
                              (GetMessages (startViewChangeQuorum s3) (view s3))) (\<lambda>minSVC.
                     rbind (min_committed dvc_lastCommitted ms) (\<lambda>minDVC.
                       lead_view env s3 (dvc_view msg) (min (min minSVC minDVC) (lastCommitted s3))
                         latestOp latestMsg)))) = Inr s'"
    using run cur add unfolding HandleDoViewChange_def s1_def [symmetric] s2_def Let_def
    by (auto split: if_splits)
  have "s' = s2 \<or> (\<exists>xs lop latest s3 latest' mc.
       set xs \<subseteq> insert (dvc_replicaIdx msg, msg) (set (messages (doViewChangeQuorum s) (dvc_view msg))) \<and>
       (\<forall>p\<in>set xs. dvc_wf (snd p)) \<and> (\<forall>p\<in>set xs. covers s2 (snd p)) \<and>
       select_log s2 xs = (lop, latest) \<and> adopt_log env s2 msg latest = Inr (s3, latest') \<and>
       mc \<le> lastCommitted s3 \<and> lead_view env s3 (dvc_view msg) mc lop latest' = Inr s')"
  proof (cases ms)
    case None
    then show ?thesis using body by simp
  next
    case (Some xs)
    obtain lop latest where sel: "select_log s2 xs = (lop, latest)" by (cases "select_log s2 xs")
    have sub: "set xs \<subseteq> insert (dvc_replicaIdx msg, msg) (set (messages (doViewChangeQuorum s) (dvc_view msg)))"
      using add_dvc_rest_inv(2) [OF i1(2) wf add Some] by (simp add: s1_def)
    have wfs: "\<forall>p\<in>set xs. dvc_wf (snd p)"
    proof
      fix p
      assume "p \<in> set xs"
      then have "p = (dvc_replicaIdx msg, msg) \<or> p \<in> set (messages (doViewChangeQuorum s) (dvc_view msg))"
        using sub by blast
      then show "dvc_wf (snd p)" using wf inv(2) by (auto simp: rest_inv_def msgs_inv_def)
    qed
    have "covers s2 x = covers s x" for x by (simp add: covers_def s2_def s1_def)
    then have cov: "\<forall>p\<in>set xs. covers s2 (snd p)" using sub ex by auto
    from body Some sel obtain s3 latest' minSVC minDVC where
      "adopt_log env s2 msg latest = Inr (s3, latest')"
      and "lead_view env s3 (dvc_view msg) (min (min minSVC minDVC) (lastCommitted s3)) lop latest' = Inr s'"
      by (auto split: prod.splits)
    then show ?thesis using sub wfs cov sel min.cobounded2 by blast
  qed
  with i2 show ?thesis by (metis s1_def s2_def)
qed

lemma HandleDoViewChange_inv:
  assumes inv: "log_inv s" "rest_inv s" and wf: "dvc_wf msg"
    and ex: "vr_expects s (MsgDoViewChange msg)" and run: "HandleDoViewChange env s remote msg = Inr s'"
  shows "log_inv s' \<and> rest_inv s'"
proof (cases "dvc_view msg < view s \<or> dvc_view msg = view s \<and> status s \<noteq> STATUS_VIEW_CHANGE")
  case True
  then show ?thesis using run inv by (auto simp: HandleDoViewChange_def split: if_splits)
next
  case False
  show ?thesis
    using HandleDoViewChange_stages [OF inv wf ex run False]
  proof (elim exE conjE disjE)
    fix s2 xs lop latest s3 latest' mc
    assume i2: "log_inv s2" "rest_inv s2" and wfs: "\<forall>p\<in>set xs. dvc_wf (snd p)" and cov: "\<forall>p\<in>set xs. covers s2 (snd p)"
      and sel: "select_log s2 xs = (lop, latest)" and ad: "adopt_log env s2 msg latest = Inr (s3, latest')"
      and mc: "mc \<le> lastCommitted s3" and lead: "lead_view env s3 (dvc_view msg) mc lop latest' = Inr s'"
    have A: "s3 = s2\<lparr>log := log s3\<rparr> \<and> log_inv (s3\<lparr>lastOp := lop\<rparr>)"
      using adopt_log_spec [OF i2(1) sel wfs cov ad] by (elim conjE) (rule conjI)
    then have "rest_inv s3" using i2(2) lastOp_log_rest_inv(2) by metis
    then show ?thesis using lead_view_inv [OF _ _ mc lead] A by blast
  qed simp
qed

lemma HandleStartView_stages:
  assumes inv: "log_inv s" "rest_inv s" and wf: "msg_wf (MsgStartView msg)"
    and ex: "vr_expects s (MsgStartView msg)" and run: "HandleStartView env s remote msg = Inr s'"
    and cur: "\<not> (sv_view msg < view s \<or> sv_view msg = view s \<and> status s \<noteq> STATUS_VIEW_CHANGE)"
  shows "\<exists>s1 s4. s1 = s\<lparr>log := log s1\<rparr> \<and> log_inv (s1\<lparr>lastOp := sv_lastOp msg\<rparr>) \<and> rest_inv s1 \<and>
     (agrees s (sv_entries msg) \<longrightarrow> (\<forall>i \<le> lastCommitted s. log_at (log s1) i = log_at (log s) i)) \<and>
     CommitUpTo env ((EnterView s1 (sv_view msg))\<lparr>lastOp := sv_lastOp msg\<rparr>) (sv_lastCommitted msg) = Inr s4 \<and>
     SendPrepareOKs s4 (lastOp (EnterView s1 (sv_view msg))) = Inr s'"
proof -
  from run cur obtain s1 where
    s1: "(if sv_entries msg = []
          then check (sv_lastCommitted msg = lastCommitted s) AssertFailed
                 (check (sv_lastOp msg = sv_lastCommitted msg) AssertFailed (Inr s))
          else install_new_log env s (sv_lastOp msg) (sv_entries msg)) = Inr s1"
    and rest: "(let s2 = EnterView s1 (sv_view msg); oldLastOp = lastOp s2; s3 = s2\<lparr>lastOp := sv_lastOp msg\<rparr>
               in check (\<not> AmLeader s3) AssertFailed
                    (rbind (CommitUpTo env s3 (sv_lastCommitted msg)) (\<lambda>s4. SendPrepareOKs s4 oldLastOp))) = Inr s'"
    unfolding HandleStartView_def rbind_Inr check_Inr by (auto simp del: rbind_Inr check_Inr split: if_splits)
      (auto simp: rbind_def split: sum.splits)
  have A: "s1 = s\<lparr>log := log s1\<rparr> \<and> log_inv (s1\<lparr>lastOp := sv_lastOp msg\<rparr>) \<and>
     (agrees s (sv_entries msg) \<longrightarrow> (\<forall>i \<le> lastCommitted s. log_at (log s1) i = log_at (log s) i))"
  proof (cases "sv_entries msg = []")
    case True
    then show ?thesis using s1 inv(1) wf ex by (auto simp: log_inv_def)
  next
    case ne: False
    have es: "entries_to (sv_lastOp msg) (sv_entries msg)" and keep: "lastCommitted s \<le> sv_lastOp msg"
      using wf ex by simp_all
    have inst: "install_new_log env s (sv_lastOp msg) (sv_entries msg) = Inr s1" using s1 ne by simp
    show ?thesis using install_new_log_spec [OF inv(1) es ne keep inst] by blast
  qed
  then have r1: "rest_inv s1" using inv(2) lastOp_log_rest_inv(2) by metis
  from rest obtain s4 where "CommitUpTo env ((EnterView s1 (sv_view msg))\<lparr>lastOp := sv_lastOp msg\<rparr>) (sv_lastCommitted msg) = Inr s4"
    and "SendPrepareOKs s4 (lastOp (EnterView s1 (sv_view msg))) = Inr s'"
    unfolding Let_def check_Inr rbind_Inr by (elim exE conjE)
  with A r1 show ?thesis by blast
qed

lemma HandleStartView_inv:
  assumes inv: "log_inv s" "rest_inv s" and wf: "msg_wf (MsgStartView msg)"
    and ex: "vr_expects s (MsgStartView msg)" and run: "HandleStartView env s remote msg = Inr s'"
  shows "log_inv s' \<and> rest_inv s'"
proof (cases "sv_view msg < view s \<or> sv_view msg = view s \<and> status s \<noteq> STATUS_VIEW_CHANGE")
  case True
  then show ?thesis using run inv by (auto simp: HandleStartView_def split: if_splits)
next
  case False
  obtain s1 s4 where s1: "log_inv (s1\<lparr>lastOp := sv_lastOp msg\<rparr>)" "rest_inv s1"
    and c: "CommitUpTo env ((EnterView s1 (sv_view msg))\<lparr>lastOp := sv_lastOp msg\<rparr>) (sv_lastCommitted msg) = Inr s4"
    and p: "SendPrepareOKs s4 (lastOp (EnterView s1 (sv_view msg))) = Inr s'"
    using HandleStartView_stages [OF inv wf ex run False] by (elim exE conjE)
  let ?s3 = "(EnterView s1 (sv_view msg))\<lparr>lastOp := sv_lastOp msg\<rparr>"
  have i3: "log_inv ?s3" "rest_inv ?s3" using s1 by (simp_all add: log_inv_def rest_inv_EnterView)
  have "log_inv s4" "rest_inv s4" using CommitUpTo_vr_inv [OF i3 c] by simp_all
  then show ?thesis using SendPrepareOKs_inv [OF _ _ p] by blast
qed

lemma HandleRecovery_inv:
  assumes inv: "log_inv s" "rest_inv s" and run: "HandleRecovery s remote idx nonce = Inr s'"
  shows "log_inv s' \<and> rest_inv s'"
proof (cases "status s = STATUS_NORMAL")
  case True
  note I = log_invD [OF inv(1)]
  from run True obtain m where s': "s' = send s (AddressDest remote) (OutReplica (MsgRecoveryResponse m))"
    and m: "(if AmLeader s
        then rbind (Dump_from (log s) 0) (\<lambda>es. Inr \<lparr>rr_view = view s, rr_nonce = nonce, rr_entries = es,
                 rr_lastOp = lastOp s, rr_lastCommitted = lastCommitted s, rr_replicaIdx = replicaIdx s\<rparr>)
        else Inr \<lparr>rr_view = view s, rr_nonce = nonce, rr_entries = [], rr_lastOp = 0,
                     rr_lastCommitted = 0, rr_replicaIdx = replicaIdx s\<rparr>) = Inr m"
    unfolding HandleRecovery_def Let_def by (auto split: if_splits)
  have "rr_wf m"
  proof (cases "AmLeader s")
    case True
    then obtain es where es: "Dump_from (log s) 0 = Inr es"
      and m': "m = \<lparr>rr_view = view s, rr_nonce = nonce, rr_entries = es,
                 rr_lastOp = lastOp s, rr_lastCommitted = lastCommitted s, rr_replicaIdx = replicaIdx s\<rparr>"
      using m by auto
    have "(0 :: u64) \<le> lastCommitted s" by simp
    from Dump_committed_wf [OF inv(1) es this] show ?thesis using I(6) by (simp add: m' rr_wf_def)
  next
    case False
    then show ?thesis using m by (auto simp: rr_wf_def entries_to_def)
  qed
  then show ?thesis unfolding s' using inv by (auto intro!: rest_inv_send)
next
  case False
  then show ?thesis using run inv by (simp add: HandleRecovery_def)
qed

section \<open>Recovery\<close>

lemma Install_empty_first:
  assumes "entries l = []" and "Install h l es = Inr l'" and "es \<noteq> []"
  shows "me_opnum (hd es) = start l"
  using assms by (cases es) (auto simp: Install_def Find_def Append_def installed_entry_def LogEntry_new_def
      viewstamp2_def split: if_splits)

lemma word_of_nat_unat_eq: "word_of_nat (unat x) = (x :: u64)"
  by simp

lemma recover_log:
  assumes inv: "log_inv s" and z: "lastOp s = 0" and wf: "rr_wf x"
    and inst: "Install h (log s) (rr_entries x) = Inr l" and c: "lastCommitted s = 0"
  shows "log_inv (s\<lparr>log := l, lastOp := rr_lastOp x\<rparr>)"
proof -
  note I = log_invD [OF inv]
  let ?es = "rr_entries x"
  have emp: "entries (log s) = []"
    using unat_LastOpnum [OF I(1)] z I(2,4) by simp
  show ?thesis
  proof (cases "?es = []")
    case True
    then have "l = log s" using inst by (simp add: Install_def)
    then show ?thesis using inv z c wf True by (auto simp: rr_wf_def log_inv_def)
  next
    case False
    have k: "me_opnum (hd ?es) = 1" using Install_empty_first [OF emp inst False] I(2) by simp
    have es: "consecutive 1 ?es" "me_opnum (last ?es) = rr_lastOp x" "rr_lastOp x \<noteq> - 1"
      using wf False k by (auto simp: rr_wf_def entries_to_def)
    have lo: "LastOpnum (log s) = 0" using z I(4) by simp
    have len: "length ?es < 2 ^ 64 - 1" using es(1) by (auto simp: consecutive_def)
    have "unat (rr_lastOp x) = length ?es" using consecutive_last(1) [OF es(1) False] es(2) by simp
    then have rl: "word_of_nat (length ?es) = rr_lastOp x" using word_of_nat_unat_eq [of "rr_lastOp x"] by simp
    have "unat (1 + word_of_nat (length ?es) :: u64) = 1 + length ?es"
      using len unat_add_of_nat [of 1 "length ?es"] by simp
    then have short: "LastOpnum (log s) < 1 + word_of_nat (length ?es)" by (simp add: lo word_less_nat_alt)
    have pre: "start (log s) \<le> 1" "1 \<le> LastOpnum (log s) + 1" "LastOpnum (log s) \<noteq> - 1"
      using I(2) lo by simp_all
    from Install_spec [OF I(1) es(1) pre(1-3) I(3) False short, of h] inst
    have "log_wf l" "start l = 1" "\<not> useHash l" "LastOpnum l = rr_lastOp x"
      using I(2,3) rl by auto
    then show ?thesis using es(3) c by (simp add: log_inv_def)
  qed
qed

lemma add_rr_rest_inv:
  assumes "rest_inv s" and "rr_wf msg" and "AddAndCheckForQuorum (recoveryResponseQuorum s) v i msg = (q, ms)"
  shows "rest_inv (s\<lparr>recoveryResponseQuorum := q\<rparr>)" "ms = Some xs \<Longrightarrow> p \<in> set xs \<Longrightarrow> rr_wf (snd p)"
proof -
  have q: "messages q = (messages (recoveryResponseQuorum s))(v := smap_put i msg (messages (recoveryResponseQuorum s) v))"
    and ms: "ms = CheckForQuorum q v"
    using assms(3) by (auto simp: AddAndCheckForQuorum_def Let_def)
  note sub = set_smap_put_subset [of i msg "messages (recoveryResponseQuorum s) v"]
  have wf: "rr_wf (snd p)" if "p \<in> set (messages q w)" for p w
  proof (cases "w = v")
    case True
    then have "p \<in> insert (i, msg) (set (messages (recoveryResponseQuorum s) v))" using that sub q by auto
    then show ?thesis using assms(1,2) by (auto simp: rest_inv_def msgs_inv_def)
  next
    case False
    then show ?thesis using assms(1) that q by (auto simp: rest_inv_def msgs_inv_def)
  qed
  then show "rest_inv (s\<lparr>recoveryResponseQuorum := q\<rparr>)"
    using assms(1) by (auto simp: rest_inv_def msgs_inv_def timers_inv_def AmLeader_def)
  show "rr_wf (snd p)" if "ms = Some xs" "p \<in> set xs"
  proof -
    have "xs = messages q v" using that ms by (auto simp: CheckForQuorum_def split: if_splits)
    then show ?thesis using that wf by blast
  qed
qed

lemma HandleRecoveryResponse_inv:
  assumes inv: "log_inv s" "rest_inv s" and wf: "rr_wf msg"
    and ex: "status s = STATUS_RECOVERING \<longrightarrow> lastOp s = 0"
    and run: "HandleRecoveryResponse env s remote msg = Inr s'"
  shows "log_inv s' \<and> rest_inv s'"
proof (cases "status s \<noteq> STATUS_RECOVERING \<or> rr_nonce msg \<noteq> recoveryNonce s")
  case True
  then show ?thesis using run inv by (auto simp: HandleRecoveryResponse_def split: if_splits)
next
  case False
  obtain q ms where add: "AddAndCheckForQuorum (recoveryResponseQuorum s) (rr_nonce msg) (rr_replicaIdx msg) msg = (q, ms)"
    by (cases "AddAndCheckForQuorum (recoveryResponseQuorum s) (rr_nonce msg) (rr_replicaIdx msg) msg")
  define s1 where "s1 = s\<lparr>recoveryResponseQuorum := q\<rparr>"
  have i1: "log_inv s1" "rest_inv s1" using inv add_rr_rest_inv(1) [OF inv(2) wf add] by (simp_all add: s1_def)
  have z: "lastOp s1 = 0" "lastCommitted s1 = 0"
    using ex False log_invD(6) [OF inv(1)] by (simp_all add: s1_def)
  have "s' = s1 \<or> (\<exists>xs k x. ms = Some xs \<and> map_of xs k = Some x \<and> finish_recovery env s1 x = Inr s')"
    using run False add unfolding HandleRecoveryResponse_def Let_def
    by (auto simp: s1_def [symmetric] split: if_splits option.splits)
  then show ?thesis
  proof (elim disjE exE conjE)
    fix xs k x
    assume xs: "ms = Some xs" "map_of xs k = Some x" and fin: "finish_recovery env s1 x = Inr s'"
    have "rr_wf x" using add_rr_rest_inv(2) [OF inv(2) wf add xs(1) map_of_SomeD [OF xs(2)]] by simp
    obtain l where inst: "Install (sha1 env) (log s1) (rr_entries x) = Inr l"
      and c: "CommitUpTo env ((EnterView (s1\<lparr>log := l\<rparr>) (rr_view x))\<lparr>lastOp := rr_lastOp x\<rparr>) (rr_lastCommitted x) = Inr s'"
      using fin by (auto simp: finish_recovery_def Let_def)
    let ?s3 = "(EnterView (s1\<lparr>log := l\<rparr>) (rr_view x))\<lparr>lastOp := rr_lastOp x\<rparr>"
    have "log_inv (s1\<lparr>log := l, lastOp := rr_lastOp x\<rparr>)"
      using recover_log [OF i1(1) z(1) \<open>rr_wf x\<close> inst z(2)] .
    then have "log_inv ?s3" "rest_inv ?s3"
      using i1(2) by (simp_all add: log_inv_def rest_inv_EnterView)
    then show ?thesis using CommitUpTo_vr_inv [OF _ _ c] by blast
  qed (use i1 in simp)
qed

section \<open>Timeouts, dispatch and whole runs\<close>

lemma HandleTimeout_inv:
  assumes inv: "log_inv s" "rest_inv s" and run: "HandleTimeout s t = Inr s'"
  shows "log_inv s' \<and> rest_inv s'"
proof (cases t)
  case ResendPrepareTimeout
  have "s' = s \<or> (\<exists>p. lastPrepare s = Some p \<and> s' = send s AllReplicas (OutReplica (MsgPrepare p)))"
    using run inv(2) unfolding ResendPrepareTimeout
    by (auto simp: HandleTimeout_def ResendPrepare_def rest_inv_def timers_inv_def split: if_splits)
  then show ?thesis
  proof (elim disjE exE conjE)
    fix p
    assume p: "lastPrepare s = Some p" and s': "s' = send s AllReplicas (OutReplica (MsgPrepare p))"
    have "prepare_wf p" using inv(2) p by (simp add: rest_inv_def msgs_inv_def)
    then show ?thesis unfolding s' using inv by (auto intro: rest_inv_send)
  qed (use inv in simp)
next
  case CloseBatchTimeout
  then have "s' = s \<or> CloseBatch s = Inr s'" using run by (auto simp: HandleTimeout_def split: if_splits)
  then show ?thesis using inv CloseBatch_inv by blast
next
  case StateTransferTimeout
  then have "s' = s \<or> s' = s\<lparr>lastRequestStateTransferView := 0, lastRequestStateTransferOpnum := 0\<rparr>"
    using run by (auto simp: HandleTimeout_def split: if_splits)
  then show ?thesis
    using inv by (elim disjE) (simp_all add: log_inv_def rest_inv_def msgs_inv_def timers_inv_def AmLeader_def)
next
  case RecoveryTimeout
  then have "s' = s \<or> s' = SendRecoveryMessages s" using run by (auto simp: HandleTimeout_def split: if_splits)
  then show ?thesis using inv by (auto simp: SendRecoveryMessages_def intro: rest_inv_send)
next
  case ViewChangeTimeout
  then have "s' = s \<or> s' = StartViewChange s (view s + 1)" using run by (auto simp: HandleTimeout_def split: if_splits)
  then show ?thesis using inv by (auto intro: rest_inv_SVC)
next
  case NullCommitTimeout
  then have "s' = s \<or> s' = send s AllReplicas (OutReplica (MsgCommit (view s) (lastCommitted s)))"
    using run by (auto simp: HandleTimeout_def SendNullCommit_def split: if_splits)
  then show ?thesis using inv by (auto intro: rest_inv_send)
qed

lemma HandleUnloggedRequest_inv:
  assumes inv: "log_inv s" "rest_inv s" and run: "HandleUnloggedRequest env s remote op = Inr s'"
  shows "log_inv s' \<and> rest_inv s'"
  using run inv
  by (auto simp: HandleUnloggedRequest_def split: if_splits prod.splits intro: rest_inv_send)

lemma vr_step_inv:
  assumes inv: "vr_inv s" and ok: "vr_ok s ev" and run: "vr_step env s ev = Inr s'"
  shows "vr_inv s'"
proof -
  have i: "log_inv s" "rest_inv s" using inv by (simp_all add: vr_inv_def)
  have "log_inv s' \<and> rest_inv s'"
  proof (cases ev)
    case (Fire t)
    then show ?thesis using run HandleTimeout_inv [OF i] by (simp add: vr_step_def)
  next
    case (Deliver r m)
    have run': "ReceiveMessage env s r m = Inr s'" and wf: "msg_wf m" and ex: "vr_expects s m"
      using run ok Deliver by (simp_all add: vr_step_def)
    note R = run' [unfolded ReceiveMessage_def]
    show ?thesis
    proof (cases m)
      case (MsgRequest req)
      then show ?thesis using HandleRequest_inv [OF i] R ex by auto
    next
      case (MsgUnloggedRequest op a b)
      then show ?thesis using HandleUnloggedRequest_inv [OF i] R by auto
    next
      case (MsgPrepare p)
      then show ?thesis using HandlePrepare_inv [OF i] R wf by auto
    next
      case (MsgPrepareOK p)
      then show ?thesis using HandlePrepareOK_inv [OF i] R by auto
    next
      case (MsgCommit v op)
      then show ?thesis using HandleCommit_inv [OF i] R by auto
    next
      case (MsgRequestStateTransfer v op)
      then show ?thesis using HandleRequestStateTransfer_inv [OF i] R by auto
    next
      case (MsgStateTransfer x)
      then show ?thesis using HandleStateTransfer_inv [OF i wf [unfolded MsgStateTransfer]] R by simp
    next
      case (MsgStartViewChange x)
      then show ?thesis using HandleStartViewChange_inv [OF i] R by auto
    next
      case (MsgDoViewChange x)
      then show ?thesis
        using HandleDoViewChange_inv [OF i _ ex [unfolded MsgDoViewChange]] R wf by simp
    next
      case (MsgStartView x)
      then show ?thesis
        using HandleStartView_inv [OF i wf [unfolded MsgStartView] ex [unfolded MsgStartView]] R by simp
    next
      case (MsgRecovery idx nonce)
      then show ?thesis using HandleRecovery_inv [OF i] R by auto
    next
      case (MsgRecoveryResponse x)
      then show ?thesis using HandleRecoveryResponse_inv [OF i] R wf ex by auto
    next
      case MsgNotSet
      then show ?thesis using wf by simp
    qed
  qed
  then show ?thesis by (simp add: vr_inv_def)
qed

lemma VRReplica_new_inv:
  assumes "VRReplica_new c idx initialize bs nonce a = Inr s"
  shows "vr_inv s"
  using assms
  by (auto simp: VRReplica_new_def Log_new_def Let_def vr_inv_def log_inv_def rest_inv_def msgs_inv_def timers_inv_def
      log_wf_def LastOpnum_def AmLeader_def QuorumSet_new_def SendRecoveryMessages_def send_def split: if_splits)

end
