(* ===== verification/VRProperties.thy ===== *)
theory VRProperties
  imports VRViewChange
begin

text \<open>
  What the Viewstamped Replication replica guarantees: progress (views and commit points never go
  back and committed operations never change), execution exactly once and in order, at most one
  log entry per client request, quorum-backed commits, and the places where the code aborts or
  loses the connection between its counters and its log.
\<close>

section \<open>Progress\<close>

definition committed_at :: "'a VRReplica \<Rightarrow> u64 \<Rightarrow> (viewstamp_t \<times> Request) option" where
  "committed_at s i = map_option (\<lambda>e. (le_viewstamp e, le_request e)) (log_at (log s) i)"

definition progress :: "'a VRReplica \<Rightarrow> 'a VRReplica \<Rightarrow> bool" where
  "progress s s' \<longleftrightarrow>
     view s \<le> view s' \<and> lastCommitted s \<le> lastCommitted s' \<and>
     (\<forall>i \<le> lastCommitted s. committed_at s' i = committed_at s i)"

lemma progress_refl [simp]: "progress s s"
  by (simp add: progress_def)

lemma progress_trans: "\<lbrakk> progress s t; progress t u \<rbrakk> \<Longrightarrow> progress s u"
  by (auto simp: progress_def)

lemma progressI:
  "\<lbrakk> view s' = view s; lastCommitted s' = lastCommitted s;
     \<And>i. i \<le> lastCommitted s \<Longrightarrow> log_at (log s') i = log_at (log s) i \<rbrakk> \<Longrightarrow> progress s s'"
  by (simp add: progress_def committed_at_def)

lemma CommitUpTo_progress:
  assumes inv: "log_inv s" and run: "CommitUpTo env s k = Inr s'"
  shows "progress s s'"
proof -
  obtain t where t: "CommitUpTo env s k = Inr t" "commit_frame s t" "lastCommitted t = max (lastCommitted s) k"
    and l: "\<forall>i. log_at (log t) i = (if lastCommitted s < i \<and> i \<le> k
        then map_option mark_committed (log_at (log s) i) else log_at (log s) i)"
    using CommitUpTo_spec [OF inv CommitUpTo_Inr [OF inv run], of env] by (elim exE conjE) simp
  then show ?thesis using run commit_frameD(4) [OF t(2)]
    by (auto simp: progress_def committed_at_def)
qed

lemma append_progress:
  assumes "log_inv s" and "Append h (log s) e = Inr l" and "lastOp s + 1 \<noteq> - 1"
  shows "progress s (s\<lparr>lastOp := lastOp s + 1, log := l\<rparr>)"
proof (rule progressI)
  fix i
  assume "i \<le> lastCommitted s"
  then have "unat i < unat (lastOp s + 1)"
    using log_invD(6) [OF assms(1)] append_log_inv(4) [OF assms] by (simp add: word_le_nat_alt)
  then have "i \<noteq> lastOp s + 1" by auto
  then show "log_at (log (s\<lparr>lastOp := lastOp s + 1, log := l\<rparr>)) i = log_at (log s) i"
    using append_log_inv(3) [OF assms] by simp
qed simp_all

lemma CloseBatch_progress:
  assumes "log_inv s" and "CloseBatch s = Inr s'"
  shows "progress s s'"
  using CloseBatch_reqs [OF assms] by (elim exE conjE) (simp add: progress_def committed_at_def send_def)

lemma send_progress [simp]: "progress s (send s d m)"
  by (simp add: progress_def committed_at_def send_def)

lemma RST_progress [simp]: "progress s (RequestStateTransfer s)"
  by (simp add: progress_def committed_at_def frame_defs)

lemma HandleRequest_new_progress:
  assumes inv: "log_inv s" and nm: "lastOp s + 1 \<noteq> - 1" and run: "HandleRequest_new env s remote req = Inr s'"
  shows "progress s s'"
  using HandleRequest_new_Inr [OF run]
proof (elim exE conjE)
  fix s1 a rep res
  assume u: "UpdateClientTable s req = Inr s1"
  note F = UpdateClientTable_fields [OF u]
  have p1: "progress s s1" using F by (intro progressI) simp_all
  have i1: "log_inv s1" using UpdateClientTable_inv(1) [OF u] inv by simp
  assume "\<not> rep \<and> (\<exists>m. s' = send (put_client (s1\<lparr>app_state := a\<rparr>) (req_clientid req)
         ((client_entry (s1\<lparr>app_state := a\<rparr>) (req_clientid req))\<lparr>replied := True, reply := m\<rparr>))
         (AddressDest remote) (OutClient m)) \<or>
      rep \<and> (\<exists>l s4. Append (sha1 env) (log s1) (LogEntry_new (viewstamp2 (view s1) (lastOp s1 + 1))
            LOG_STATE_PREPARED (assigned_request req res)) = Inr l \<and>
          (CloseBatch (s1\<lparr>app_state := a, lastOp := lastOp s1 + 1, log := l\<rparr>) = Inr s4 \<or>
           s4 = s1\<lparr>app_state := a, lastOp := lastOp s1 + 1, log := l, closeBatchTimeout := True\<rparr>) \<and>
          s' = s4\<lparr>nullCommitTimeout := True\<rparr>)"
  then have "progress s1 s'"
  proof (elim disjE conjE exE)
    fix l s4
    let ?s3 = "s1\<lparr>app_state := a, lastOp := lastOp s1 + 1, log := l\<rparr>"
    assume l: "Append (sha1 env) (log s1) (LogEntry_new (viewstamp2 (view s1) (lastOp s1 + 1))
            LOG_STATE_PREPARED (assigned_request req res)) = Inr l" and s': "s' = s4\<lparr>nullCommitTimeout := True\<rparr>"
    have nm1: "lastOp s1 + 1 \<noteq> - 1" using nm F by simp
    have p3: "progress s1 ?s3"
      using append_progress [OF i1 l nm1] by (simp add: progress_def committed_at_def)
    have i3: "log_inv ?s3" using append_log_inv(1) [OF i1 l nm1] by (simp add: log_inv_def)
    have s4: "progress s4 s'" by (simp add: s' progress_def committed_at_def)
    show ?thesis if "CloseBatch ?s3 = Inr s4"
      using p3 CloseBatch_progress [OF i3 that] s4 progress_trans by blast
    show ?thesis if "s4 = s1\<lparr>app_state := a, lastOp := lastOp s1 + 1, log := l, closeBatchTimeout := True\<rparr>"
      using p3 s4 unfolding that by (simp add: progress_def committed_at_def s')
  qed (simp add: put_client_def send_def progress_def committed_at_def)
  then show ?thesis using p1 progress_trans by blast
qed

lemma HandleRequest_progress:
  assumes inv: "log_inv s" and nm: "lastOp s + 1 \<noteq> - 1" and run: "HandleRequest env s remote req = Inr s'"
  shows "progress s s'"
proof -
  let ?s1 = "s\<lparr>clientAddresses := (clientAddresses s)(req_clientid req \<mapsto> remote)\<rparr>"
  have p1: "progress s ?s1" by (simp add: progress_def committed_at_def)
  have "s' = s \<or> s' = ?s1 \<or> (\<exists>m. s' = send ?s1 (AddressDest remote) (OutClient m)) \<or>
        HandleRequest_new env ?s1 remote req = Inr s'"
    using run by (auto simp: HandleRequest_def Let_def split: if_splits option.splits)
  moreover have "progress ?s1 s'" if new: "HandleRequest_new env ?s1 remote req = Inr s'"
    using HandleRequest_new_progress [OF _ _ new] inv nm by simp
  ultimately show ?thesis using p1 progress_trans [OF p1] by (elim disjE) auto
qed

lemma HandlePrepare_progress:
  assumes inv: "log_inv s" and wf: "prepare_wf msg" and run: "HandlePrepare env s remote msg = Inr s'"
  shows "progress s s'"
  using HandlePrepare_cases [OF run]
proof (elim disjE exE conjE)
  let ?s = "s\<lparr>viewChangeTimeout := True\<rparr>"
  fix t
  assume bs: "pr_batchstart msg \<le> lastOp s + 1"
    and f: "fold_r (prepare_one env (pr_view msg)) (?s, pr_batchstart msg - 1) (pr_request msg) = Inr (t, pr_opnum msg)"
    and s': "s' = send t (ReplicaDest (leader_of t)) (OutReplica (MsgPrepareOK
              \<lparr>pok_view = pr_view msg, pok_opnum = pr_opnum msg, pok_replicaIdx = replicaIdx s\<rparr>))"
  note P = prepare_fold_pre [OF inv wf bs]
  have i0: "log_inv ?s" "pr_batchstart msg - 1 \<le> lastOp ?s" using inv P(2) by simp_all
  have "t = ?s\<lparr>lastOp := lastOp t, log := log t, clientTable := clientTable t\<rparr> \<and>
      (\<forall>i \<le> lastOp ?s. log_at (log t) i = log_at (log ?s) i)"
    using prepare_fold [OF i0(1) P(1) f i0(2)] by blast
  then obtain a b c where t: "t = ?s\<lparr>lastOp := a, log := b, clientTable := c\<rparr>"
    and same: "\<forall>i \<le> lastOp s. log_at (log t) i = log_at (log s) i"
    by auto
  have "progress s t"
    using same log_invD(6) [OF inv] by (intro progressI) (auto simp: t)
  then show ?thesis unfolding s' using send_progress progress_trans by blast
qed (auto simp: progress_def committed_at_def frame_defs)

lemma HandlePrepareOK_progress:
  assumes inv: "log_inv s" "rest_inv s" and run: "HandlePrepareOK env s remote msg = Inr s'"
  shows "progress s s'"
  using HandlePrepareOK_cases [OF run]
proof (elim disjE conjE exE)
  let ?s1 = "s\<lparr>prepareOKQuorum := fst (AddAndCheckForQuorum (prepareOKQuorum s)
     (viewstamp2 (pok_view msg) (pok_opnum msg)) (pok_replicaIdx msg) msg)\<rparr>"
  fix t
  assume t: "CommitUpTo env ?s1 (pok_opnum msg) = Inr t"
  have i: "log_inv t" "log_inv ?s1" using CommitUpTo_vr_inv [OF _ _ t] inv by simp_all
  have "progress s ?s1" by (simp add: progress_def committed_at_def)
  then have pt: "progress s t" using CommitUpTo_progress [OF i(2) t] progress_trans by blast
  show ?thesis if "s' = t" using pt that by simp
  let ?u = "(send t AllReplicas (OutReplica (MsgCommit (view t) (lastCommitted t))))\<lparr>nullCommitTimeout := True\<rparr>"
  have u: "log_inv ?u" "progress t ?u" "progress t (?u\<lparr>batchComplete := True\<rparr>)"
    using i by (simp_all add: progress_def committed_at_def send_def log_inv_def)
  assume "let u = ?u in s' = u \<or> s' = u\<lparr>batchComplete := True\<rparr> \<or> CloseBatch (u\<lparr>batchComplete := True\<rparr>) = Inr s'"
  then have "progress t s'"
    unfolding Let_def using u CloseBatch_progress [of "?u\<lparr>batchComplete := True\<rparr>" s'] progress_trans
    by (elim disjE) auto
  then show ?thesis using pt progress_trans by blast
qed (simp_all, simp add: progress_def committed_at_def)

lemma HandleCommit_progress:
  assumes inv: "log_inv s" and run: "HandleCommit env s remote v op = Inr s'"
  shows "progress s s'"
proof -
  let ?t = "s\<lparr>viewChangeTimeout := True\<rparr>"
  have p: "progress s ?t" and i: "log_inv ?t" using inv by (simp_all add: progress_def committed_at_def)
  from HandleCommit_cases [OF run] show ?thesis
  proof (elim disjE conjE)
    assume "s' = RequestStateTransfer ?t"
    then show ?thesis using progress_trans [OF p RST_progress] by simp
  next
    assume "CommitUpTo env ?t op = Inr s'"
    then show ?thesis using progress_trans [OF p CommitUpTo_progress [OF i]] by simp
  qed (use p in simp_all)
qed

lemma table_frame_progress: "table_frame s s' \<Longrightarrow> progress s s'"
  using table_frameD(1,3,4) by (intro progressI) auto

lemma EnterView_progress: "view s \<le> v \<Longrightarrow> progress s (EnterView s v)"
  by (simp add: progress_def committed_at_def)

lemma HandleStateTransfer_progress:
  assumes inv: "log_inv s" "rest_inv s" and wf: "msg_wf (MsgStateTransfer msg)"
    and run: "HandleStateTransfer env s remote msg = Inr s'"
  shows "progress s s'"
proof (cases "st_view msg < view s")
  case True
  then show ?thesis using run by (simp add: HandleStateTransfer_def)
next
  case False
  obtain s1 old s2 s3 s4 where f: "fold_r (transfer_one env) (s, lastOp s) (st_entries msg) = Inr (s1, old)"
    and s2: "s2 = (if st_view msg > view s1 then EnterView s1 (st_view msg) else s1)"
    and c: "CommitUpTo env s2 (st_opnum msg) = Inr s3" and p: "SendPrepareOKs s3 old = Inr s4"
    and g: "fold_r (\<lambda>s p. HandlePrepare env s (fst p) (snd p)) (s4\<lparr>pendingPrepares := []\<rparr>) (pendingPrepares s4) = Inr s'"
    using HandleStateTransfer_Inr [OF run False] by (elim exE conjE)
  have T: "log_inv s1 \<and> s1 = s\<lparr>lastOp := lastOp s1, log := log s1\<rparr> \<and>
      (\<forall>i \<le> lastCommitted s. log_at (log s1) i = log_at (log s) i)"
    using transfer_fold [OF inv(1) _ f] wf by simp
  then obtain a b where s1: "s1 = s\<lparr>lastOp := a, log := b\<rparr>" by blast
  have i1: "log_inv s1" "rest_inv s1" using T inv(2) by (simp, simp add: s1)
  have p1: "progress s s1" using T by (intro progressI) (simp_all add: s1)
  have p2: "progress s1 s2" unfolding s2 using EnterView_progress [of s1 "st_view msg"] by auto
  have i2: "log_inv s2" "rest_inv s2" using i1 unfolding s2 by (auto simp: log_inv_def intro: rest_inv_EnterView)
  have p3: "progress s2 s3" and i3: "log_inv s3" "rest_inv s3"
    using CommitUpTo_progress [OF i2(1) c] CommitUpTo_vr_inv [OF i2 c] by simp_all
  note S = SendPrepareOKs_inv [OF i3 p]
  have p4: "progress s3 (s4\<lparr>pendingPrepares := []\<rparr>)"
    using S table_frame_progress by (auto simp: progress_def committed_at_def)
  have "log_inv s' \<and> rest_inv s' \<and> progress (s4\<lparr>pendingPrepares := []\<rparr>) s'"
  proof (rule fold_r_invariant [OF _ g])
    show "log_inv (s4\<lparr>pendingPrepares := []\<rparr>) \<and> rest_inv (s4\<lparr>pendingPrepares := []\<rparr>) \<and>
        progress (s4\<lparr>pendingPrepares := []\<rparr>) (s4\<lparr>pendingPrepares := []\<rparr>)"
      using S by (simp add: rest_inv_def msgs_inv_def timers_inv_def AmLeader_def)
  next
    fix t x t'
    assume t: "log_inv t \<and> rest_inv t \<and> progress (s4\<lparr>pendingPrepares := []\<rparr>) t" and x: "x \<in> set (pendingPrepares s4)"
      and step: "HandlePrepare env t (fst x) (snd x) = Inr t'"
    have "prepare_wf (snd x)" using S x by (simp add: rest_inv_def msgs_inv_def)
    with t step show "log_inv t' \<and> rest_inv t' \<and> progress (s4\<lparr>pendingPrepares := []\<rparr>) t'"
      using HandlePrepare_inv [of t "snd x" env "fst x" t'] HandlePrepare_progress [of t "snd x" env "fst x" t']
        progress_trans by blast
  qed
  then show ?thesis using p1 p2 p3 p4 progress_trans by metis
qed

lemma join_progress:
  assumes "\<not> v < view s"
  shows "progress s (join_view_change s v)" "view (join_view_change s v) = v \<or> view (join_view_change s v) = view s"
  using assms by (simp_all add: join_view_change_def progress_def committed_at_def frame_defs not_less)

lemma HandleStartViewChange_progress:
  assumes run: "HandleStartViewChange s remote msg = Inr s'"
  shows "progress s s'"
proof (cases "svc_view msg < view s \<or> svc_view msg = view s \<and> status s \<noteq> STATUS_VIEW_CHANGE")
  case True
  then show ?thesis using run by (auto simp: HandleStartViewChange_def split: if_splits)
next
  case False
  define s1 where "s1 = join_view_change s (svc_view msg)"
  define add where "add = AddAndCheckForQuorum (startViewChangeQuorum s1) (svc_view msg) (svc_replicaIdx msg) msg"
  define s2 where "s2 = s1\<lparr>startViewChangeQuorum := fst add\<rparr>"
  have "progress s s1" using False join_progress unfolding s1_def by blast
  then have p2: "progress s s2" by (simp add: s2_def progress_def committed_at_def)
  have "(case snd add of None \<Rightarrow> Inr s2 | Some ms \<Rightarrow> SendDoViewChange s2 ms) = Inr s'"
    using run False unfolding HandleStartViewChange_def s1_def [symmetric] s2_def add_def Let_def split_beta
    by (auto split: if_splits)
  then have "s' = s2 \<or> (\<exists>d m. s' = send s2 d m)"
    by (auto simp: SendDoViewChange_def split: option.splits if_splits)
  then show ?thesis using p2 progress_trans [OF p2 send_progress] by (elim disjE exE) simp_all
qed

text \<open>A view change keeps the committed prefix when the log it installs agrees with it: the views of
  the entries this replica has committed are the views the message gives them.\<close>

fun vr_agrees :: "'a VRReplica \<Rightarrow> vr_event \<Rightarrow> bool" where
  "vr_agrees s (Deliver _ (MsgStartView sv)) = agrees s (sv_entries sv)"
| "vr_agrees s (Deliver _ (MsgDoViewChange x)) =
     (agrees s (dvc_entries x) \<and>
      (\<forall>p\<in>set (messages (doViewChangeQuorum s) (dvc_view x)). agrees s (dvc_entries (snd p))))"
| "vr_agrees s (Fire ViewChangeTimeout) = (view s \<noteq> - 1)"
| "vr_agrees s _ = True"

lemma adopt_log_progress:
  assumes inv: "log_inv s" and sel: "select_log s ms = (op, latest)"
    and wf: "\<forall>p\<in>set ms. dvc_wf (snd p)" and cov: "\<forall>p\<in>set ms. covers s (snd p)"
    and ag: "\<forall>p\<in>set ms. agrees s (dvc_entries (snd p))"
    and run: "adopt_log env s msg latest = Inr (s', latest')"
  shows "progress s s'"
  using select_log_spec [OF inv sel]
proof (elim disjE bexE conjE)
  assume "latest = None" "op = lastOp s"
  then show ?thesis using run by (simp add: adopt_log_def)
next
  fix p
  assume p: "p \<in> set ms" and lat: "latest = Some (snd p)" and op: "op = dvc_lastOp (snd p)"
    and new: "newer (dvc_stamp (snd p)) (vs_view (LastViewstamp (log s)), lastOp s)"
  have w: "dvc_wf (snd p)" and c: "covers s (snd p)" and a: "agrees s (dvc_entries (snd p))"
    using p wf cov ag by auto
  note A = adopt_log_installs [OF inv run lat w c new]
  have "s' = s\<lparr>log := log s'\<rparr> \<and> (\<forall>i \<le> lastCommitted s. log_at (log s') i = log_at (log s) i)"
    using install_new_log_spec [OF inv A(2,3,4,1)] a by blast
  then obtain b where "s' = s\<lparr>log := b\<rparr>" "\<forall>i \<le> lastCommitted s. log_at (log s') i = log_at (log s) i" by blast
  then show ?thesis by (intro progressI) simp_all
qed

lemma lead_view_progress:
  assumes inv: "log_inv (s\<lparr>lastOp := op\<rparr>)" "rest_inv s" and v: "view s \<le> v"
    and run: "lead_view env s v mc op latest = Inr s'"
  shows "progress s s'"
proof -
  define s2 where "s2 = (EnterView s v)\<lparr>lastOp := op\<rparr>"
  have i2: "log_inv s2" using inv unfolding s2_def by (simp add: log_inv_def)
  have p2: "progress s s2" using EnterView_progress [OF v] by (simp add: s2_def progress_def committed_at_def)
  have "rbind (case latest of None \<Rightarrow> Inr s2 | Some y \<Rightarrow> CommitUpTo env s2 (dvc_lastCommitted y)) (\<lambda>s3.
            rbind (Dump_from (log s3) mc) (\<lambda>es.
              Inr (send s3 AllReplicas (OutReplica (MsgStartView
                \<lparr>sv_view = view s3, sv_lastOp = lastOp s3,
                 sv_lastCommitted = lastCommitted s3, sv_entries = es\<rparr>))))) = Inr s'"
    using run unfolding lead_view_def s2_def Let_def check_Inr by (elim conjE)
  then obtain s3 es where c: "(case latest of None \<Rightarrow> Inr s2 | Some y \<Rightarrow> CommitUpTo env s2 (dvc_lastCommitted y)) = Inr s3"
    and s': "s' = send s3 AllReplicas (OutReplica (MsgStartView
                \<lparr>sv_view = view s3, sv_lastOp = lastOp s3,
                 sv_lastCommitted = lastCommitted s3, sv_entries = es\<rparr>))"
    unfolding rbind_Inr by auto
  have "progress s2 s3" using c CommitUpTo_progress [OF i2] by (cases latest) auto
  then show ?thesis using p2 send_progress progress_trans unfolding s' by blast
qed

lemma HandleStartView_progress:
  assumes inv: "log_inv s" "rest_inv s" and wf: "msg_wf (MsgStartView msg)"
    and ex: "vr_expects s (MsgStartView msg)" and ag: "agrees s (sv_entries msg)"
    and run: "HandleStartView env s remote msg = Inr s'"
  shows "progress s s'"
proof (cases "sv_view msg < view s \<or> sv_view msg = view s \<and> status s \<noteq> STATUS_VIEW_CHANGE")
  case True
  then show ?thesis using run by (auto simp: HandleStartView_def split: if_splits)
next
  case False
  obtain s1 s4 where fr: "s1 = s\<lparr>log := log s1\<rparr>" and same: "\<forall>i \<le> lastCommitted s. log_at (log s1) i = log_at (log s) i"
    and i1: "log_inv (s1\<lparr>lastOp := sv_lastOp msg\<rparr>)" "rest_inv s1"
    and c: "CommitUpTo env ((EnterView s1 (sv_view msg))\<lparr>lastOp := sv_lastOp msg\<rparr>) (sv_lastCommitted msg) = Inr s4"
    and p: "SendPrepareOKs s4 (lastOp (EnterView s1 (sv_view msg))) = Inr s'"
    using HandleStartView_stages [OF inv wf ex run False] ag by blast
  obtain b where b: "s1 = s\<lparr>log := b\<rparr>" using fr by blast
  have s1: "progress s s1" "view s1 = view s" using same by (auto simp: b intro: progressI)
  let ?s3 = "(EnterView s1 (sv_view msg))\<lparr>lastOp := sv_lastOp msg\<rparr>"
  have i3: "log_inv ?s3" "rest_inv ?s3" using i1 by (simp_all add: log_inv_def rest_inv_EnterView)
  have "progress s1 ?s3"
    using s1(2) False by (auto simp: progress_def committed_at_def)
  moreover have "progress ?s3 s4" using CommitUpTo_progress [OF i3(1) c] .
  moreover have "log_inv s4" "rest_inv s4" using CommitUpTo_vr_inv [OF i3 c] by simp_all
  then have "progress s4 s'" using SendPrepareOKs_inv [OF _ _ p] table_frame_progress by blast
  ultimately show ?thesis using s1(1) progress_trans by metis
qed

lemma HandleDoViewChange_progress:
  assumes inv: "log_inv s" "rest_inv s" and wf: "dvc_wf msg"
    and ex: "vr_expects s (MsgDoViewChange msg)" and ag: "vr_agrees s (Deliver remote (MsgDoViewChange msg))"
    and run: "HandleDoViewChange env s remote msg = Inr s'"
  shows "progress s s'"
proof (cases "dvc_view msg < view s \<or> dvc_view msg = view s \<and> status s \<noteq> STATUS_VIEW_CHANGE")
  case True
  then show ?thesis using run by (auto simp: HandleDoViewChange_def split: if_splits)
next
  case False
  then have nl: "\<not> dvc_view msg < view s" by simp
  obtain q s2 where s2: "s2 = (join_view_change s (dvc_view msg))\<lparr>doViewChangeQuorum := q\<rparr>"
    and i2: "log_inv s2" "rest_inv s2"
    and alt: "s' = s2 \<or> (\<exists>xs lop latest s3 latest' mc.
       set xs \<subseteq> insert (dvc_replicaIdx msg, msg) (set (messages (doViewChangeQuorum s) (dvc_view msg))) \<and>
       (\<forall>p\<in>set xs. dvc_wf (snd p)) \<and> (\<forall>p\<in>set xs. covers s2 (snd p)) \<and>
       select_log s2 xs = (lop, latest) \<and> adopt_log env s2 msg latest = Inr (s3, latest') \<and>
       mc \<le> lastCommitted s3 \<and> lead_view env s3 (dvc_view msg) mc lop latest' = Inr s')"
    using HandleDoViewChange_stages [OF inv wf ex run False] by (elim exE conjE)
  have p2: "progress s s2" using join_progress(1) [OF nl] by (simp add: s2 progress_def committed_at_def)
  have v2: "view s2 \<le> dvc_view msg" using join_progress(2) [OF nl] nl by (auto simp: s2)
  have ag2: "agrees s2 es = agrees s es" for es by (simp add: s2 agrees_def)
  from alt show ?thesis
  proof (elim disjE exE conjE)
    fix xs lop latest s3 latest' mc
    assume sub: "set xs \<subseteq> insert (dvc_replicaIdx msg, msg) (set (messages (doViewChangeQuorum s) (dvc_view msg)))"
      and wfs: "\<forall>p\<in>set xs. dvc_wf (snd p)" and cov: "\<forall>p\<in>set xs. covers s2 (snd p)"
      and sel: "select_log s2 xs = (lop, latest)" and ad: "adopt_log env s2 msg latest = Inr (s3, latest')"
      and lead: "lead_view env s3 (dvc_view msg) mc lop latest' = Inr s'"
    have "\<forall>p\<in>set xs. agrees s2 (dvc_entries (snd p))" using sub ag unfolding ag2 by auto
    from adopt_log_progress [OF i2(1) sel wfs cov this ad] have p3: "progress s2 s3" .
    have A: "s3 = s2\<lparr>log := log s3\<rparr> \<and> log_inv (s3\<lparr>lastOp := lop\<rparr>)"
      using adopt_log_spec [OF i2(1) sel wfs cov ad] by (elim conjE) (rule conjI)
    then obtain b where b: "s3 = s2\<lparr>log := b\<rparr>" by blast
    have "rest_inv s3" "view s3 \<le> dvc_view msg" using i2(2) v2 by (simp_all add: b)
    then have "progress s3 s'" using lead_view_progress [OF _ _ _ lead] A by blast
    then show ?thesis using p2 p3 progress_trans by blast
  qed (use p2 in simp)
qed

lemma HandleRecoveryResponse_progress:
  assumes inv: "log_inv s" "rest_inv s" and wf: "rr_wf msg"
    and ex: "status s = STATUS_RECOVERING \<longrightarrow> lastOp s = 0"
    and run: "HandleRecoveryResponse env s remote msg = Inr s'"
  shows "progress s s'"
proof (cases "status s = STATUS_RECOVERING")
  case False
  then show ?thesis using run by (simp add: HandleRecoveryResponse_def)
next
  case True
  have z: "view s = 0" "lastCommitted s = 0"
    using True ex inv(2) log_invD(6) [OF inv(1)] by (simp_all add: rest_inv_def)
  have none: "log_at (log t) 0 = None" if "log_inv t" for t :: "'a VRReplica"
    using log_at_dom [OF log_invD(1) [OF that], of 0] log_invD(2) [OF that] by auto
  have "log_inv s'" using HandleRecoveryResponse_inv [OF inv wf ex run] by simp
  then show ?thesis
    using z none [OF inv(1)] none [of s'] by (simp add: progress_def committed_at_def)
qed

lemma HandleTimeout_progress:
  assumes inv: "log_inv s" and run: "HandleTimeout s t = Inr s'" and nv: "t = ViewChangeTimeout \<Longrightarrow> view s \<noteq> - 1"
  shows "progress s s'"
proof (cases t)
  case ViewChangeTimeout
  then have "s' = s \<or> s' = StartViewChange s (view s + 1)" using run by (auto simp: HandleTimeout_def split: if_splits)
  moreover have "view s \<le> view s + 1"
    using nv [OF ViewChangeTimeout] unat_add_of_nat [of "view s" 1] unfolding u64_not_max by (simp add: word_le_nat_alt)
  ultimately show ?thesis by (elim disjE) (simp_all add: progress_def committed_at_def StartViewChange_def send_def)
next
  case CloseBatchTimeout
  then have "s' = s \<or> CloseBatch s = Inr s'" using run by (auto simp: HandleTimeout_def split: if_splits)
  then show ?thesis using inv CloseBatch_progress by auto
next
  case NullCommitTimeout
  then have "s' = s \<or> (\<exists>d m. s' = send s d m)"
    using run by (auto simp: HandleTimeout_def SendNullCommit_def split: if_splits)
  then show ?thesis by auto
next
  case ResendPrepareTimeout
  then have "s' = s \<or> (\<exists>d m. s' = send s d m)"
    using run by (auto simp: HandleTimeout_def ResendPrepare_def split: if_splits)
  then show ?thesis by auto
next
  case StateTransferTimeout
  then have "s' = s \<or> s' = s\<lparr>lastRequestStateTransferView := 0, lastRequestStateTransferOpnum := 0\<rparr>"
    using run by (auto simp: HandleTimeout_def split: if_splits)
  then show ?thesis by (elim disjE) (simp_all add: progress_def committed_at_def)
next
  case RecoveryTimeout
  then have "s' = s \<or> s' = SendRecoveryMessages s" using run by (auto simp: HandleTimeout_def split: if_splits)
  then show ?thesis by (auto simp: SendRecoveryMessages_def)
qed

lemma vr_step_progress:
  assumes inv: "vr_inv s" and ok: "vr_ok s ev" and ag: "vr_agrees s ev"
    and run: "vr_step env s ev = Inr s'"
  shows "progress s s'"
proof -
  have i: "log_inv s" "rest_inv s" using inv by (simp_all add: vr_inv_def)
  show ?thesis
  proof (cases ev)
    case (Fire t)
    have "view s \<noteq> - 1" if "t = ViewChangeTimeout" using ag that Fire by simp
    then show ?thesis using run HandleTimeout_progress [OF i(1)] Fire by (simp add: vr_step_def)
  next
    case (Deliver r m)
    have run': "ReceiveMessage env s r m = Inr s'" and wf: "msg_wf m" and ex: "vr_expects s m"
      using run ok Deliver by (simp_all add: vr_step_def)
    note R = run' [unfolded ReceiveMessage_def] and ag' = ag [unfolded Deliver]
    show ?thesis
    proof (cases m)
      case (MsgRequest req)
      then show ?thesis using HandleRequest_progress [OF i(1)] R ex by auto
    next
      case (MsgUnloggedRequest op a b)
      then show ?thesis using R
        by (auto simp: HandleUnloggedRequest_def progress_def committed_at_def send_def split: if_splits prod.splits)
    next
      case (MsgPrepare p)
      then show ?thesis using HandlePrepare_progress [OF i(1)] R wf by auto
    next
      case (MsgPrepareOK p)
      then show ?thesis using HandlePrepareOK_progress [OF i] R by auto
    next
      case (MsgCommit v op)
      then show ?thesis using HandleCommit_progress [OF i(1)] R by auto
    next
      case (MsgRequestStateTransfer v op)
      then have "s' = s \<or> s' = RequestStateTransfer s \<or> (\<exists>d m. s' = send s d m)"
        using R by (auto simp: HandleRequestStateTransfer_def split: if_splits)
      then show ?thesis by auto
    next
      case (MsgStateTransfer x)
      then show ?thesis using HandleStateTransfer_progress [OF i wf [unfolded MsgStateTransfer]] R by simp
    next
      case (MsgStartViewChange x)
      then show ?thesis using HandleStartViewChange_progress R by auto
    next
      case (MsgDoViewChange x)
      then show ?thesis
        using HandleDoViewChange_progress [OF i _ ex [unfolded MsgDoViewChange] ag' [unfolded MsgDoViewChange]] R wf
        by simp
    next
      case (MsgStartView x)
      then show ?thesis
        using HandleStartView_progress [OF i wf [unfolded MsgStartView] ex [unfolded MsgStartView]] R ag' by simp
    next
      case (MsgRecovery idx nonce)
      then have "s' = s \<or> (\<exists>d m. s' = send s d m)"
        using R by (auto simp: HandleRecovery_def Let_def split: if_splits)
      then show ?thesis by auto
    next
      case (MsgRecoveryResponse x)
      then show ?thesis using HandleRecoveryResponse_progress [OF i] R wf ex by auto
    next
      case MsgNotSet
      then show ?thesis using wf by simp
    qed
  qed
qed

interpretation vr: progress_system "vr_step env" "\<lambda>s ev. vr_ok s ev \<and> vr_agrees s ev" vr_inv progress
  for env :: "'a vr_env"
proof
  fix s s' and m
  assume "vr_inv s" "vr_ok s m \<and> vr_agrees s m" "vr_step env s m = Inr s'"
  then show "vr_inv s'" and "progress s s'" using vr_step_inv vr_step_progress by blast+
qed (simp, rule progress_trans)

interpretation vr_safe: handler_system "vr_step env" "\<lambda>s ev. vr_ok s ev" vr_inv
  for env :: "'a vr_env"
  by unfold_locales (use vr_step_inv in blast)

section \<open>A concrete group for the witnesses\<close>

definition sample_env :: "string list vr_env" where
  "sample_env = \<lparr>app = sample_app, sha1 = id, survives_dvc = (\<lambda>_. True), survives_rr = (\<lambda>_. True)\<rparr>"

definition sample_replica :: "int \<Rightarrow> int \<Rightarrow> string list VRReplica" where
  "sample_replica f idx = projr (VRReplica_new (sample_config f) idx True 1 0 [])"

definition sample_prepare :: "u64 \<Rightarrow> u64 \<Rightarrow> Request list \<Rightarrow> vr_event" where
  "sample_prepare v first reqs = Deliver 0 (MsgPrepare \<lparr>pr_view = v, pr_opnum = first + word_of_nat (length reqs) - 1,
     pr_batchstart = first, pr_request = reqs\<rparr>)"

definition sample_run :: "vr_event list" where
  "sample_run = [sample_prepare 0 1 [sample_req ''a'' 7 1, sample_req ''b'' 8 1], Deliver 0 (MsgCommit 0 1)]"

lemma sample_replica_new: "VRReplica_new (sample_config f) idx True 1 0 [] = Inr (sample_replica f idx)"
  by (simp add: sample_replica_def VRReplica_new_def Log_new_def Let_def)

lemma sample_replica_inv: "vr_inv (sample_replica f idx)"
  using sample_replica_new by (rule VRReplica_new_inv)

definition final :: "string list VRReplica \<Rightarrow> vr_event list \<Rightarrow> string list VRReplica" where
  "final s evs = projr (fold_r (vr_step sample_env) s evs)"

lemma sample_run_ok:
  "fold_r (vr_step sample_env) (sample_replica 1 1) sample_run = Inr (final (sample_replica 1 1) sample_run)"
  "accepts (vr_step sample_env) vr_ok (sample_replica 1 1) sample_run"
  "lastOp (final (sample_replica 1 1) sample_run) = 2"
  "lastCommitted (final (sample_replica 1 1) sample_run) = 1"
  "app_state (final (sample_replica 1 1) sample_run) = [''a'']"
proof -
  have "(case fold_r (vr_step sample_env) (sample_replica 1 1) sample_run of Inl _ \<Rightarrow> False
     | Inr s \<Rightarrow> lastOp s = 2 \<and> lastCommitted s = 1 \<and> app_state s = [''a''])"
    by code_simp
  then show "fold_r (vr_step sample_env) (sample_replica 1 1) sample_run = Inr (final (sample_replica 1 1) sample_run)"
    "lastOp (final (sample_replica 1 1) sample_run) = 2"
    "lastCommitted (final (sample_replica 1 1) sample_run) = 1"
    "app_state (final (sample_replica 1 1) sample_run) = [''a'']"
    unfolding final_def by (auto split: sum.splits)
  show "accepts (vr_step sample_env) vr_ok (sample_replica 1 1) sample_run" by code_simp
qed

section \<open>Properties of whole runs\<close>

text \<open>C1. A replica keeps its counters tied to its log over every run from its constructor whose events are as the
  protocol sends them (\<open>vr_ok\<close>): timeouts at any time and messages in any order that are well formed and pass four conditions of
  \<open>vr_expects\<close>: operation numbers do not run out; a \<^verbatim>\<open>STARTVIEW\<close> has entries unless the receiver's log is empty, and reaches what the receiver
  has committed; a \<^verbatim>\<open>DOVIEWCHANGE\<close> whose log is of a later view, and those counted already, reach what is committed; a recovering replica
  that gets a \<^verbatim>\<open>RECOVERYRESPONSE\<close> has an empty log.  Where the run returns (it stops at the two reads of dead objects unless these
  still have their contents), the log's operation numbers are consecutive from 1,
  \<^verbatim>\<open>lastOp\<close> is the last of them, nothing beyond it is committed, and every message the replica has
  ever sent to another replica is well formed.  Without the second condition this is false (\<open>empty_startview_breaks_log\<close>).\<close>

theorem vr_run_invariant:
  assumes "VRReplica_new c idx initialize bs nonce a = Inr s0"
    and "accepts (vr_step env) vr_ok s0 evs" and "fold_r (vr_step env) s0 evs = Inr s"
  shows "log_wf (log s) \<and> start (log s) = 1 \<and> lastOp s = LastOpnum (log s) \<and> lastCommitted s \<le> lastOp s \<and>
     (\<forall>i. log_at (log s) i \<noteq> None \<longleftrightarrow> 1 \<le> i \<and> i \<le> lastOp s) \<and>
     (\<forall>d m. (d, OutReplica m) \<in> set (outbox s) \<longrightarrow> msg_wf m)"
proof -
  have inv: "vr_inv s"
    using vr_safe.run_inv [OF VRReplica_new_inv [OF assms(1)] assms(2,3)] .
  then have i: "log_inv s" and m: "msgs_inv s" by (simp_all add: vr_inv_def rest_inv_def)
  note I = log_invD [OF i]
  have "\<forall>i. log_at (log s) i \<noteq> None \<longleftrightarrow> 1 \<le> i \<and> i \<le> lastOp s"
    using code_log.dom [OF I(1)] I(2,4) by simp
  then show ?thesis using I m by (auto simp: msgs_inv_def)
qed

theorem vr_run_invariant_witness:
  "lastOp (final (sample_replica 1 1) sample_run) = 2 \<and>
   LastOpnum (log (final (sample_replica 1 1) sample_run)) = 2 \<and>
   log_at (log (final (sample_replica 1 1) sample_run)) 3 = None"
proof -
  have "\<not> (3 :: u64) \<le> 2" by simp
  then show ?thesis
    using vr_run_invariant [OF sample_replica_new sample_run_ok(2,1)] sample_run_ok(3)
    by metis
qed

text \<open>C2. Nothing a replica has committed is lost.  From every state that satisfies the invariant (every state a run of C1
  reaches), over every run of events that pass the conditions of C1 and agree with what this replica has
  committed (\<open>vr_agrees\<close>: where the entries of a \<^verbatim>\<open>STARTVIEW\<close> or of a counted \<^verbatim>\<open>DOVIEWCHANGE\<close> overlap the committed prefix they carry
  the views this replica has there, and the view number is not at its maximum when the view-change timer fires), its view
  and its commit point never go back and no committed operation ever changes: the viewstamp and the
  request at every committed number stay what they were.  The agreement is what quorum intersection gives across replicas and is assumed
  here of views only: the requests are then proved equal, and state transfers, recovery responses, prepares and commits need no
  such assumption.\<close>

theorem vr_committed_stable:
  assumes "vr_inv s"
    and "accepts (vr_step env) (\<lambda>s ev. vr_ok s ev \<and> vr_agrees s ev) s evs"
    and "fold_r (vr_step env) s evs = Inr s'"
  shows "view s \<le> view s' \<and> lastCommitted s \<le> lastCommitted s' \<and>
     (\<forall>i \<le> lastCommitted s. committed_at s' i = committed_at s i)"
  using vr.run_rel [OF assms] by (simp add: progress_def)

definition sample_tail :: "vr_event list" where
  "sample_tail = [sample_prepare 0 3 [sample_req ''c'' 9 1], Deliver 0 (MsgCommit 0 3),
     Deliver 0 (MsgStartViewChange \<lparr>svc_view = 1, svc_replicaIdx = 2, svc_lastCommitted = 3\<rparr>),
     Fire ViewChangeTimeout]"

theorem vr_committed_stable_witness:
  "\<exists>s'. fold_r (vr_step sample_env) (final (sample_replica 1 1) sample_run) sample_tail = Inr s' \<and>
     committed_at s' 1 = committed_at (final (sample_replica 1 1) sample_run) 1 \<and>
     view (final (sample_replica 1 1) sample_run) \<le> view s'"
proof -
  let ?s = "final (sample_replica 1 1) sample_run"
  have inv: "vr_inv ?s"
    using vr_safe.run_inv [OF sample_replica_inv sample_run_ok(2) sample_run_ok(1)] .
  have acc: "accepts (vr_step sample_env) (\<lambda>s ev. vr_ok s ev \<and> vr_agrees s ev) ?s sample_tail"
    and fin: "\<not> (case fold_r (vr_step sample_env) ?s sample_tail of Inl _ \<Rightarrow> True | Inr _ \<Rightarrow> False)"
    by code_simp+
  then obtain s' where run: "fold_r (vr_step sample_env) ?s sample_tail = Inr s'"
    by (cases "fold_r (vr_step sample_env) ?s sample_tail") auto
  have "1 \<le> lastCommitted ?s" using sample_run_ok(4) by simp
  then show ?thesis using vr_committed_stable [OF inv acc run] run by blast
qed

section \<open>Execution\<close>

text \<open>C10. \<^verbatim>\<open>CommitUpTo\<close> up to a logged operation never aborts and always returns; it runs exactly the
  operations between the old commit point and the new one, once each and in the order of the log,
  marks exactly those entries committed, and moves the commit point to the later of the two.\<close>

theorem CommitUpTo_executes_in_order:
  assumes "log_inv s" and "k \<le> lastOp s"
  shows "\<exists>s'. CommitUpTo env s k = Inr s' \<and> log_inv s' \<and> lastCommitted s' = max (lastCommitted s) k \<and>
     app_state s' = run_ops (app env) (AmLeader s) (log s) (app_state s) (op_range (lastCommitted s + 1) (k + 1)) \<and>
     (\<forall>i. log_at (log s') i = (if lastCommitted s < i \<and> i \<le> k
        then map_option mark_committed (log_at (log s) i) else log_at (log s) i))"
  using CommitUpTo_spec [OF assms, of env] by (elim exE conjE) (intro exI conjI; assumption)

theorem CommitUpTo_executes_in_order_witness:
  "\<exists>s'. CommitUpTo sample_env (final (sample_replica 1 1) sample_run) 2 = Inr s' \<and> app_state s' = [''a'', ''b'']"
proof -
  let ?s = "final (sample_replica 1 1) sample_run"
  have inv: "log_inv ?s"
    using vr_safe.run_inv [OF sample_replica_inv sample_run_ok(2) sample_run_ok(1)]
    by (simp add: vr_inv_def)
  have le: "2 \<le> lastOp ?s" using sample_run_ok(3) by simp
  have "run_ops (app sample_env) (AmLeader ?s) (log ?s) (app_state ?s) (op_range (lastCommitted ?s + 1) (2 + 1)) =
      [''a'', ''b'']"
    by code_simp
  then show ?thesis using CommitUpTo_executes_in_order [OF inv le, of sample_env] by auto
qed

lemma duplicate_ignored:
  assumes "clientTable s (req_clientid req) = Some e" and "req_clientreqid req \<le> lastReqId e"
    and "HandleRequest env s remote req = Inr s'"
  shows "log s' = log s \<and> app_state s' = app_state s \<and> lastOp s' = lastOp s"
  using assms by (auto simp: HandleRequest_def Let_def send_def split: if_splits)

lemma UpdateClientTable_records:
  assumes "UpdateClientTable s req = Inr s'"
  shows "\<exists>e. clientTable s' (req_clientid req) = Some e \<and> lastReqId e = req_clientreqid req"
  using assms by (auto simp: UpdateClientTable_def Let_def put_client_def split: if_splits)

lemma CloseBatch_table: "CloseBatch s = Inr s' \<Longrightarrow> clientTable s' = clientTable s"
  by (auto simp: CloseBatch_def Let_def send_def)

lemma HandleRequest_new_records:
  assumes "HandleRequest_new env s remote req = Inr s'"
  shows "\<exists>e. clientTable s' (req_clientid req) = Some e \<and> lastReqId e = req_clientreqid req"
  using HandleRequest_new_Inr [OF assms]
proof (elim exE conjE)
  fix s1 a rep res
  assume u: "UpdateClientTable s req = Inr s1"
  obtain e where e: "clientTable s1 (req_clientid req) = Some e" "lastReqId e = req_clientreqid req"
    using UpdateClientTable_records [OF u] by blast
  show ?thesis if "\<not> rep \<and> (\<exists>m. s' = send (put_client (s1\<lparr>app_state := a\<rparr>) (req_clientid req)
         ((client_entry (s1\<lparr>app_state := a\<rparr>) (req_clientid req))\<lparr>replied := True, reply := m\<rparr>))
         (AddressDest remote) (OutClient m)) \<or>
      rep \<and> (\<exists>l s4. Append (sha1 env) (log s1) (LogEntry_new (viewstamp2 (view s1) (lastOp s1 + 1))
            LOG_STATE_PREPARED (assigned_request req res)) = Inr l \<and>
          (CloseBatch (s1\<lparr>app_state := a, lastOp := lastOp s1 + 1, log := l\<rparr>) = Inr s4 \<or>
           s4 = s1\<lparr>app_state := a, lastOp := lastOp s1 + 1, log := l, closeBatchTimeout := True\<rparr>) \<and>
          s' = s4\<lparr>nullCommitTimeout := True\<rparr>)"
    using that e by (elim disjE conjE exE)
      (auto simp: send_def put_client_def client_entry_def dest: CloseBatch_table)
qed

text \<open>C31. At most once: after the leader has handled a client's request, handling the same request again,
  from whatever address, adds nothing to the log and does not touch the application.\<close>

theorem HandleRequest_at_most_once:
  assumes "status s = STATUS_NORMAL" and "AmLeader s" and first: "HandleRequest env s remote req = Inr s'"
    and again: "HandleRequest env s' remote' req = Inr s''"
  shows "log s'' = log s' \<and> app_state s'' = app_state s' \<and> lastOp s'' = lastOp s'"
proof -
  have "\<exists>e. clientTable s' (req_clientid req) = Some e \<and> req_clientreqid req \<le> lastReqId e"
    using first assms(1,2)
    by (auto simp: HandleRequest_def Let_def send_def split: if_splits option.splits
        dest!: HandleRequest_new_records)
  then show ?thesis using duplicate_ignored [OF _ _ again] by blast
qed

theorem HandleRequest_at_most_once_witness:
  "\<exists>s' s''. HandleRequest sample_env (sample_replica 1 0) 5 (sample_req ''a'' 7 1) = Inr s' \<and>
     HandleRequest sample_env s' 6 (sample_req ''a'' 7 1) = Inr s'' \<and> log s'' = log s' \<and> lastOp s' = 1"
proof -
  have run: "case HandleRequest sample_env (sample_replica 1 0) 5 (sample_req ''a'' 7 1) of Inl _ \<Rightarrow> False
     | Inr s' \<Rightarrow> lastOp s' = 1 \<and> \<not> isl (HandleRequest sample_env s' 6 (sample_req ''a'' 7 1))"
    and st: "status (sample_replica 1 0) = STATUS_NORMAL" and ldr: "AmLeader (sample_replica 1 0)"
    by code_simp+
  obtain s' where s': "HandleRequest sample_env (sample_replica 1 0) 5 (sample_req ''a'' 7 1) = Inr s'" "lastOp s' = 1"
    "\<not> isl (HandleRequest sample_env s' 6 (sample_req ''a'' 7 1))"
    using run by (auto split: sum.splits)
  then obtain s'' where s'': "HandleRequest sample_env s' 6 (sample_req ''a'' 7 1) = Inr s''"
    by (cases "HandleRequest sample_env s' 6 (sample_req ''a'' 7 1)") auto
  show ?thesis using HandleRequest_at_most_once [OF st ldr s'(1) s''] s' s'' by blast
qed


section \<open>Replication\<close>

lemma CloseBatch_committed: "CloseBatch s = Inr s' \<Longrightarrow> lastCommitted s' = lastCommitted s"
  by (auto simp: CloseBatch_def Let_def send_def)

lemma CloseBatch_quorum: "CloseBatch s = Inr s' \<Longrightarrow> prepareOKQuorum s' = prepareOKQuorum s"
  by (auto simp: CloseBatch_def Let_def send_def)

lemma UpdateClientTable_quorum: "UpdateClientTable s req = Inr s' \<Longrightarrow> prepareOKQuorum s' = prepareOKQuorum s"
  by (auto simp: UpdateClientTable_def Let_def put_client_def split: if_splits)

lemma HandleRequest_quorum:
  assumes "HandleRequest env s remote req = Inr s'"
  shows "prepareOKQuorum s' = prepareOKQuorum s"
proof -
  let ?s1 = "s\<lparr>clientAddresses := (clientAddresses s)(req_clientid req \<mapsto> remote)\<rparr>"
  have "s' = s \<or> s' = ?s1 \<or> (\<exists>m. s' = send ?s1 (AddressDest remote) (OutClient m)) \<or>
        HandleRequest_new env ?s1 remote req = Inr s'"
    using assms by (auto simp: HandleRequest_def Let_def split: if_splits option.splits)
  then show ?thesis
  proof (elim disjE exE)
    assume "HandleRequest_new env ?s1 remote req = Inr s'"
    from HandleRequest_new_Inr [OF this] show ?thesis
      by (elim exE conjE disjE) (auto simp: send_def put_client_def dest!: CloseBatch_quorum UpdateClientTable_quorum)
  qed (simp_all add: send_def)
qed

text \<open>C12. A leader's commit point advances on a PREPAREOK only when it has been acknowledged by enough
  distinct replicas: the acknowledgements for that view and operation, the new one included, come
  from at least \<open>numRequired\<close> different replicas, and the operation is in the leader's log.\<close>

theorem commit_needs_quorum:
  assumes "log_inv s" and "rest_inv s" and "quorum_set_ok (prepareOKQuorum s)"
    and run: "HandlePrepareOK env s remote msg = Inr s'" and adv: "lastCommitted s' \<noteq> lastCommitted s"
  shows "AmLeader s \<and> status s = STATUS_NORMAL \<and> pok_view msg = view s \<and>
     lastCommitted s' = pok_opnum msg \<and> pok_opnum msg \<le> lastOp s \<and>
     numRequired (prepareOKQuorum s) \<le> int (card (insert (pok_replicaIdx msg)
       (fst ` set (GetMessages (prepareOKQuorum s) (viewstamp2 (pok_view msg) (pok_opnum msg))))))"
proof -
  let ?vs = "viewstamp2 (pok_view msg) (pok_opnum msg)"
  let ?add = "AddAndCheckForQuorum (prepareOKQuorum s) ?vs (pok_replicaIdx msg) msg"
  let ?s1 = "s\<lparr>prepareOKQuorum := fst ?add\<rparr>"
  have "s' \<noteq> s" "s' \<noteq> RequestStateTransfer s" "s' \<noteq> ?s1" using adv by (auto simp: frame_defs)
  then obtain t where c: "AmLeader s" "status s = STATUS_NORMAL" "pok_view msg = view s" "snd ?add \<noteq> None"
    and t: "CommitUpTo env ?s1 (pok_opnum msg) = Inr t"
    and s': "s' = t \<or> (let u = (send t AllReplicas (OutReplica (MsgCommit (view t) (lastCommitted t))))\<lparr>nullCommitTimeout := True\<rparr>
            in s' = u \<or> s' = u\<lparr>batchComplete := True\<rparr> \<or> CloseBatch (u\<lparr>batchComplete := True\<rparr>) = Inr s')"
    using HandlePrepareOK_cases [OF run] by blast
  have i1: "log_inv ?s1" using assms(1) by simp
  have k: "pok_opnum msg \<le> lastOp s" using CommitUpTo_Inr [OF i1 t] by simp
  have it: "log_inv t" using CommitUpTo_vr_inv [OF i1 _ t] assms(2) by simp
  have ct: "lastCommitted t = max (lastCommitted s) (pok_opnum msg)"
    using CommitUpTo_spec [OF i1 CommitUpTo_Inr [OF i1 t], of env] t by auto
  have "lastCommitted s' = lastCommitted t"
    using s' by (auto simp: Let_def send_def dest: CloseBatch_committed)
  then have "lastCommitted s' = pok_opnum msg" using ct adv by (auto simp: max_def split: if_splits)
  moreover have "numRequired (prepareOKQuorum s) \<le> int (card (insert (pok_replicaIdx msg)
       (fst ` set (GetMessages (prepareOKQuorum s) ?vs))))"
    using c(4) quorum_add_card [OF assms(3)] by blast
  ultimately show ?thesis using c k by simp
qed

theorem commit_needs_quorum_witness:
  "\<exists>s s'. HandlePrepareOK sample_env s 0 \<lparr>pok_view = 0, pok_opnum = 1, pok_replicaIdx = 1\<rparr> = Inr s' \<and>
     lastCommitted s = 0 \<and> lastCommitted s' = 1 \<and> numRequired (prepareOKQuorum s) = 1"
proof -
  let ?s0 = "sample_replica 1 0" and ?ev = "Deliver 5 (MsgRequest (sample_req ''a'' 7 1))"
  let ?m = "\<lparr>pok_view = 0, pok_opnum = 1, pok_replicaIdx = 1\<rparr>"
  have "case vr_step sample_env ?s0 ?ev of Inl _ \<Rightarrow> False
     | Inr s \<Rightarrow> lastCommitted s = 0 \<and> numRequired (prepareOKQuorum s) = 1 \<and>
        (case HandlePrepareOK sample_env s 0 ?m of Inl _ \<Rightarrow> False | Inr s' \<Rightarrow> lastCommitted s' \<noteq> 0)"
    and ok: "vr_ok ?s0 ?ev"
    by code_simp+
  then obtain s s' where s: "vr_step sample_env ?s0 ?ev = Inr s" "lastCommitted s = 0" "numRequired (prepareOKQuorum s) = 1"
    and s': "HandlePrepareOK sample_env s 0 ?m = Inr s'" "lastCommitted s' \<noteq> lastCommitted s"
    by (auto split: sum.splits)
  have i: "log_inv s" "rest_inv s"
    using vr_step_inv [OF sample_replica_inv ok s(1)] by (simp_all add: vr_inv_def)
  have "quorum_set_ok (prepareOKQuorum s)"
    using s(1) by (auto simp: vr_step_def ReceiveMessage_def sample_replica_def VRReplica_new_def Log_new_def Let_def
        QuorumSet_new_def quorum_set_ok_def dest!: HandleRequest_quorum)
  from commit_needs_quorum [OF i this s'] show ?thesis using s s' by auto
qed

text \<open>A backup that accepts a PREPARE for new operations ends with exactly the leader's operation
  number, holds the leader's request at each new number, keeps every older entry, and
  acknowledges to the leader of the view.\<close>

theorem HandlePrepare_appends_batch:
  assumes inv: "log_inv s" and wf: "prepare_wf msg" and st: "status s = STATUS_NORMAL" "pr_view msg = view s"
    and new: "lastOp s < pr_opnum msg" and near: "pr_batchstart msg \<le> lastOp s + 1"
    and run: "HandlePrepare env s remote msg = Inr s'"
  shows "lastOp s' = pr_opnum msg \<and> lastCommitted s' = lastCommitted s \<and>
     (\<forall>i \<le> lastOp s. log_at (log s') i = log_at (log s) i) \<and>
     (\<forall>i. lastOp s < i \<and> i \<le> pr_opnum msg \<longrightarrow> log_at (log s') i =
        Some (LogEntry_new (viewstamp2 (view s) i) LOG_STATE_PREPARED (pr_request msg ! (unat i - unat (pr_batchstart msg))))) \<and>
     (ReplicaDest (leader_of s), OutReplica (MsgPrepareOK
        \<lparr>pok_view = view s, pok_opnum = pr_opnum msg, pok_replicaIdx = replicaIdx s\<rparr>)) \<in> set (outbox s')"
proof -
  let ?s = "s\<lparr>viewChangeTimeout := True\<rparr>"
  have nl: "\<not> pr_view msg < view s" "\<not> view s < pr_view msg" "\<not> pr_opnum msg \<le> lastOp s" "\<not> lastOp s + 1 < pr_batchstart msg"
    using st new near by simp_all
  from run nl st obtain t op where
    f: "fold_r (prepare_one env (pr_view msg)) (?s, pr_batchstart msg - 1) (pr_request msg) = Inr (t, op)"
    and op: "op = pr_opnum msg" and s': "s' = send t (ReplicaDest (leader_of t)) (OutReplica (MsgPrepareOK
              \<lparr>pok_view = pr_view msg, pok_opnum = pr_opnum msg, pok_replicaIdx = replicaIdx s\<rparr>))"
    unfolding HandlePrepare_def Let_def by auto
  note P = prepare_fold_pre [OF inv wf near]
  have i0: "log_inv ?s" "pr_batchstart msg - 1 \<le> lastOp ?s" using inv P(2) by simp_all
  note PF = prepare_fold [OF i0(1) P(1) f i0(2)]
  have fr: "t = ?s\<lparr>lastOp := lastOp t, log := log t, clientTable := clientTable t\<rparr>"
    and lo: "lastOp t = max (lastOp ?s) op" and low: "\<forall>i \<le> lastOp ?s. log_at (log t) i = log_at (log ?s) i"
    and hi: "\<forall>i. lastOp ?s < i \<and> i \<le> op \<longrightarrow> log_at (log t) i = Some (LogEntry_new (viewstamp2 (pr_view msg) i)
        LOG_STATE_PREPARED (pr_request msg ! (unat i - unat (pr_batchstart msg - 1) - 1)))"
    using PF by blast+
  obtain a b c where t: "t = ?s\<lparr>lastOp := a, log := b, clientTable := c\<rparr>" using fr by blast
  have "unat (pr_batchstart msg - 1) = unat (pr_batchstart msg) - 1" "1 \<le> unat (pr_batchstart msg)"
    using wf by (simp_all add: prepare_wf_def word_le_nat_alt unat_sub_1)
  then have ix: "unat i - unat (pr_batchstart msg - 1) - 1 = unat i - unat (pr_batchstart msg)" for i :: u64
    by simp
  show ?thesis
    using lo op new low hi st(2) unfolding ix s' by (simp add: send_def t leader_of_def)
qed

theorem HandlePrepare_appends_batch_witness:
  "\<exists>s'. HandlePrepare sample_env (sample_replica 1 1) 0 \<lparr>pr_view = 0, pr_opnum = 2, pr_batchstart = 1,
        pr_request = [sample_req ''a'' 7 1, sample_req ''b'' 8 1]\<rparr> = Inr s' \<and> lastOp s' = 2 \<and>
     log_at (log s') 2 = Some (LogEntry_new (viewstamp2 0 2) LOG_STATE_PREPARED (sample_req ''b'' 8 1))"
proof -
  let ?m = "\<lparr>pr_view = 0, pr_opnum = 2, pr_batchstart = 1, pr_request = [sample_req ''a'' 7 1, sample_req ''b'' 8 1]\<rparr>"
  let ?s = "sample_replica 1 1"
  have inv: "log_inv ?s" using sample_replica_inv by (simp add: vr_inv_def)
  have wf: "prepare_wf ?m" by code_simp
  have c: "status ?s = STATUS_NORMAL" "pr_view ?m = view ?s" "lastOp ?s < pr_opnum ?m" "pr_batchstart ?m \<le> lastOp ?s + 1"
    "\<not> isl (HandlePrepare sample_env ?s 0 ?m)" and v: "view ?s = 0" and two: "lastOp ?s < 2"
    by code_simp+
  then obtain s' where s': "HandlePrepare sample_env ?s 0 ?m = Inr s'"
    by (cases "HandlePrepare sample_env ?s 0 ?m") auto
  show ?thesis using HandlePrepare_appends_batch [OF inv wf c(1-4) s'] s' v two by auto
qed

text \<open>C13. The log a new leader selects is the most recent one: logs are ordered by view first and operation second, the replica's
  own log counting with the viewstamp of its last entry and the log of a \<^verbatim>\<open>DOVIEWCHANGE\<close> message with the last normal view and the last
  operation the message states.  If the leader keeps its own log, no message of the quorum has a newer one, and the
  operation selected is its own last one; if it adopts the log of a message, that message is in the quorum, its
  log is newer than the leader's, no other message has a newer one, and the operation selected is its last.\<close>

theorem select_log_newest:
  "case select_log s ms of
     (lastop, None) \<Rightarrow> lastop = vs_opnum (LastViewstamp (log s)) \<and>
       (\<forall>p\<in>set ms. \<not> newer (dvc_stamp (snd p)) (vs_view (LastViewstamp (log s)), vs_opnum (LastViewstamp (log s))))
   | (lastop, Some m) \<Rightarrow> m \<in> snd ` set ms \<and> lastop = dvc_lastOp m \<and>
       newer (dvc_stamp m) (vs_view (LastViewstamp (log s)), vs_opnum (LastViewstamp (log s))) \<and>
       (\<forall>p\<in>set ms. \<not> newer (dvc_stamp (snd p)) (dvc_stamp m))"
proof -
  let ?v = "vs_view (LastViewstamp (log s))" and ?o = "vs_opnum (LastViewstamp (log s))"
  obtain lv lastop latest where f: "foldl latest_step (?v, ?o, None) ms = (lv, lastop, latest)"
    by (cases "foldl latest_step (?v, ?o, None) ms")
  then have sel: "select_log s ms = (lastop, latest)" by (simp add: select_log_def)
  note L = latest_fold [OF f]
  show ?thesis
  proof (cases latest)
    case None
    then show ?thesis using L sel by auto
  next
    case (Some m)
    then have "m \<in> snd ` set ms" "(lv, lastop) = dvc_stamp m" "newer (lv, lastop) (?v, ?o)" using L by auto
    then show ?thesis using L sel Some by (simp add: dvc_stamp_def)
  qed
qed

theorem select_log_newest_witness:
  "\<exists>m. select_log (final (sample_replica 1 1) sample_run)
      [(0, \<lparr>dvc_view = 5, dvc_lastNormalView = 0, dvc_lastOp = 1, dvc_lastCommitted = 0, dvc_entries = [], dvc_replicaIdx = 0\<rparr>),
       (2, \<lparr>dvc_view = 5, dvc_lastNormalView = 4, dvc_lastOp = 1, dvc_lastCommitted = 0, dvc_entries = [], dvc_replicaIdx = 2\<rparr>)] = (1, Some m) \<and>
    dvc_replicaIdx m = 2"
proof -
  let ?s = "final (sample_replica 1 1) sample_run"
  let ?ms = "[(0, \<lparr>dvc_view = 5, dvc_lastNormalView = 0, dvc_lastOp = 1, dvc_lastCommitted = 0, dvc_entries = [], dvc_replicaIdx = 0\<rparr>),
       (2, \<lparr>dvc_view = 5, dvc_lastNormalView = 4, dvc_lastOp = 1, dvc_lastCommitted = 0, dvc_entries = [], dvc_replicaIdx = 2\<rparr>)]"
  have v: "vs_view (LastViewstamp (log ?s)) = 0" by code_simp
  obtain lastop latest where sel: "select_log ?s ?ms = (lastop, latest)" by force
  show ?thesis
    using select_log_newest [of ?s ?ms] sel v by (cases latest) (auto simp: newer_def dvc_stamp_def)
qed

text \<open>A batch that is closed carries exactly the requests of the log between the end of the previous
  batch and \<^verbatim>\<open>lastOp\<close>, in order, is sent to all replicas and is the message that retransmission
  will repeat.\<close>

theorem CloseBatch_sends_batch:
  assumes "log_inv s" and "CloseBatch s = Inr s'"
  shows "\<exists>p. (AllReplicas, OutReplica (MsgPrepare p)) \<in> set (outbox s') \<and> lastPrepare s' = Some p \<and>
     pr_view p = view s \<and> pr_opnum p = lastOp s \<and> pr_batchstart p = lastBatchEnd s + 1 \<and>
     length (pr_request p) = unat (lastOp s) - unat (lastBatchEnd s) \<and>
     (\<forall>i. lastBatchEnd s < i \<and> i \<le> lastOp s \<longrightarrow>
        map_option le_request (log_at (log s) i) = Some (pr_request p ! (unat i - unat (lastBatchEnd s) - 1))) \<and>
     lastBatchEnd s' = lastOp s \<and> resendPrepareTimeout s' \<and> \<not> closeBatchTimeout s'"
proof -
  obtain p where p: "prepare_wf p" "pr_view p = view s" "pr_opnum p = lastOp s" "pr_batchstart p = lastBatchEnd s + 1"
    "\<forall>i. lastBatchEnd s < i \<and> i \<le> lastOp s \<longrightarrow> (\<exists>e. log_at (log s) i = Some e \<and>
        vs_view (le_viewstamp e) = view s \<and> le_request e = pr_request p ! (unat i - unat (lastBatchEnd s) - 1))"
    and lt: "lastBatchEnd s < lastOp s"
    and s': "s' = send (s\<lparr>lastPrepare := Some p, lastBatchEnd := lastOp s, batchComplete := False,
             resendPrepareTimeout := True, closeBatchTimeout := False\<rparr>) AllReplicas (OutReplica (MsgPrepare p))"
    using CloseBatch_reqs [OF assms] by (elim exE conjE)
  have "length (pr_request p) = unat (lastOp s) - unat (lastBatchEnd s)"
    using p(1,3,4) lt unat_Suc_less [OF lt] by (auto simp: prepare_wf_def word_less_nat_alt word_le_nat_alt)
  moreover have "\<forall>i. lastBatchEnd s < i \<and> i \<le> lastOp s \<longrightarrow>
        map_option le_request (log_at (log s) i) = Some (pr_request p ! (unat i - unat (lastBatchEnd s) - 1))"
    using p(5) by fastforce
  ultimately show ?thesis using p s' by (intro exI [of _ p]) (simp add: send_def)
qed


theorem CloseBatch_sends_batch_witness:
  "\<exists>(s :: string list VRReplica) s' p. CloseBatch s = Inr s' \<and> lastPrepare s' = Some p \<and> pr_batchstart p = 1 \<and> length (pr_request p) = 2"
proof -
  let ?s = "(final (sample_replica 1 1) sample_run)\<lparr>replicaIdx := 0, lastBatchEnd := 0\<rparr>"
  have "log_inv (final (sample_replica 1 1) sample_run)"
    using vr_safe.run_inv [OF sample_replica_inv sample_run_ok(2) sample_run_ok(1)]
    by (simp add: vr_inv_def)
  then have inv: "log_inv ?s" by (simp add: log_inv_def)
  have "\<not> isl (CloseBatch ?s)" by code_simp
  then obtain s' where s': "CloseBatch ?s = Inr s'" by (cases "CloseBatch ?s") auto
  obtain p where "lastPrepare s' = Some p" "pr_batchstart p = lastBatchEnd ?s + 1"
    "length (pr_request p) = unat (lastOp ?s) - unat (lastBatchEnd ?s)"
    using CloseBatch_sends_batch [OF inv s'] by (elim exE conjE)
  then show ?thesis
    using s' sample_run_ok(3) by (intro exI [of _ ?s] exI [of _ s'] exI [of _ p]) simp
qed

section \<open>Timeouts\<close>

text \<open>In every state the invariant admits, a firing timeout other than the batching one is handled
  without aborting: the assertions in \<^verbatim>\<open>SendNullCommit\<close> and \<^verbatim>\<open>ResendPrepare\<close> cannot fail.\<close>

theorem timeouts_do_not_abort:
  assumes "vr_inv s" and "t \<noteq> CloseBatchTimeout"
  shows "\<exists>s'. HandleTimeout s t = Inr s' \<and> vr_inv s'"
proof -
  have i: "log_inv s" "rest_inv s" using assms(1) by (simp_all add: vr_inv_def)
  have "\<exists>s'. HandleTimeout s t = Inr s'"
    using i(2) assms(2)
    by (cases t) (auto simp: HandleTimeout_def SendNullCommit_def ResendPrepare_def rest_inv_def timers_inv_def)
  then show ?thesis using HandleTimeout_inv [OF i] by (auto simp: vr_inv_def)
qed

theorem timeouts_do_not_abort_witness:
  "nullCommitTimeout (sample_replica 1 0) \<and> (\<exists>s'. HandleTimeout (sample_replica 1 0) NullCommitTimeout = Inr s' \<and> vr_inv s')"
proof -
  have "nullCommitTimeout (sample_replica 1 0)" by code_simp
  then show ?thesis using timeouts_do_not_abort [OF sample_replica_inv, of NullCommitTimeout 1 0] by simp
qed

section \<open>Where the code aborts\<close>

text \<open>A new leader whose log was extended by the view change aborts at the first new client request:
  \<^verbatim>\<open>EnterView\<close> recorded the old \<^verbatim>\<open>lastOp\<close> as the end of the last batch, so the batch it closes
  reaches back to entries of an earlier view and the assertion on their view fails.\<close>

theorem extended_leader_aborts:
  assumes inv: "log_inv s" and ldr: "status s = STATUS_NORMAL" "AmLeader s" and bc: "batchComplete s"
    and behind: "lastBatchEnd s < lastOp s" and old: "log_at (log s) (lastBatchEnd s + 1) = Some e"
      "vs_view (le_viewstamp e) \<noteq> view s"
    and room: "lastOp s + 1 \<noteq> - 1" and fresh: "clientTable s (req_clientid req) = None"
    and rep: "\<forall>a k op. fst (snd (app_LeaderUpcall (app env) a k op))"
  shows "HandleRequest env s remote req = Inl AssertFailed"
proof -
  note I = log_invD [OF inv]
  define s1 where "s1 = s\<lparr>clientAddresses := (clientAddresses s)(req_clientid req \<mapsto> remote)\<rparr>"
  have "\<exists>ct. UpdateClientTable s1 req = Inr (s1\<lparr>clientTable := ct\<rparr>)"
    using fresh by (auto simp: UpdateClientTable_def client_entry_def ClientTableEntry_default_def s1_def put_client_def Let_def)
  then obtain ct where u: "UpdateClientTable s1 req = Inr (s1\<lparr>clientTable := ct\<rparr>)" by blast
  define s2 where "s2 = s1\<lparr>clientTable := ct\<rparr>"
  obtain a res where up: "app_LeaderUpcall (app env) (app_state s2) (lastCommitted s2) (req_op req) = (a, True, res)"
    using rep by (metis prod.collapse)
  let ?e = "LogEntry_new (viewstamp2 (view s2) (lastOp s2 + 1)) LOG_STATE_PREPARED (empty_Request\<lparr>req_op := res,
       req_clientid := req_clientid req, req_clientreqid := req_clientreqid req\<rparr>)"
  have i2: "log_inv s2" using inv by (simp add: s2_def s1_def)
  have "vs_opnum (le_viewstamp ?e) = LastOpnum (log s2) + 1"
    using log_invD(4) [OF i2] by (simp add: LogEntry_new_def viewstamp2_def)
  then obtain l where l: "Append (sha1 env) (log s2) ?e = Inr l"
    by (auto simp: Append_def Let_def LastOpnum_def split: if_splits)
  have nm2: "lastOp s2 + 1 \<noteq> - 1" using room by (simp add: s2_def s1_def)
  let ?s4 = "s2\<lparr>app_state := a, lastOp := lastOp s2 + 1, log := l\<rparr>"
  note A = append_log_inv [OF i2 l nm2]
  have b1: "unat (lastBatchEnd s + 1) = Suc (unat (lastBatchEnd s))" using behind by (rule unat_Suc_less)
  have "lastBatchEnd s + 1 \<noteq> lastOp s + 1" using behind by simp
  then have at: "log_at l (lastBatchEnd s + 1) = Some e" using A(3) old(1) by (simp add: s2_def s1_def)
  have wf4: "log_wf l" using A(1) log_invD(1) by fastforce
  have un: "unat (lastOp s + 1) = unat (lastOp s) + 1" "unat (lastOp s + 1 + 1) = unat (lastOp s) + 2"
    using A(4) room unat_add_of_nat [of "lastOp s + 1" 1] unfolding u64_not_max by (simp_all add: s2_def s1_def)
  have "lastBatchEnd s + 1 < lastOp s + 1 + 1" using b1 un behind by (simp add: word_less_nat_alt)
  then have rng: "op_range (lastBatchEnd s + 1) (lastOp s + 1 + 1) = (lastBatchEnd s + 1) # op_range (lastBatchEnd s + 1 + 1) (lastOp s + 1 + 1)"
    by (rule op_range_Cons)
  have two: "lastOp s + 1 + 1 = 2 + lastOp s" by simp
  have lt: "lastBatchEnd s < lastOp s + 1" using behind un by (simp add: word_less_nat_alt)
  have cb: "CloseBatch ?s4 = Inl AssertFailed"
    using at old(2) room lt ldr(2)
    by (simp add: CloseBatch_def Let_def op_range_le_def s2_def s1_def rng [unfolded two] Find_eq [OF wf4])
  have "HandleRequest_new env s1 remote req = Inl AssertFailed"
    using u up l cb bc by (simp add: HandleRequest_new_def s2_def [symmetric] Let_def) (simp add: s2_def s1_def)
  then show ?thesis using ldr fresh by (simp add: HandleRequest_def s1_def Let_def)
qed

definition catch_up_run :: "vr_event list" where
  "catch_up_run = [Deliver 0 (MsgStartViewChange \<lparr>svc_view = 1, svc_replicaIdx = 2, svc_lastCommitted = 0\<rparr>),
     Deliver 0 (MsgDoViewChange \<lparr>dvc_view = 1, dvc_lastNormalView = 0, dvc_lastOp = 1, dvc_lastCommitted = 0,
       dvc_entries = [dump_entry (LogEntry_new (viewstamp2 0 1) LOG_STATE_PREPARED (sample_req ''a'' 7 1))], dvc_replicaIdx = 2\<rparr>)]"

theorem extended_leader_aborts_witness:
  "accepts (vr_step sample_env) vr_ok (sample_replica 1 1) catch_up_run \<and>
   lastOp (final (sample_replica 1 1) catch_up_run) = 1 \<and>
   HandleRequest sample_env (final (sample_replica 1 1) catch_up_run) 5 (sample_req ''b'' 8 1) = Inl AssertFailed"
proof -
  let ?s = "final (sample_replica 1 1) catch_up_run"
  let ?e = "LogEntry_new (viewstamp2 0 1) LOG_STATE_PREPARED (sample_req ''a'' 7 1)"
  have acc: "accepts (vr_step sample_env) vr_ok (sample_replica 1 1) catch_up_run"
    and run': "\<not> isl (fold_r (vr_step sample_env) (sample_replica 1 1) catch_up_run)"
    by code_simp+
  have run: "fold_r (vr_step sample_env) (sample_replica 1 1) catch_up_run = Inr ?s"
    using run' by (cases "fold_r (vr_step sample_env) (sample_replica 1 1) catch_up_run") (simp_all add: final_def)
  have inv: "log_inv ?s"
    using vr_safe.run_inv [OF sample_replica_inv acc run] by (simp add: vr_inv_def)
  have c: "status ?s = STATUS_NORMAL" "AmLeader ?s" "batchComplete ?s" "lastBatchEnd ?s < lastOp ?s"
    "log_at (log ?s) (lastBatchEnd ?s + 1) = Some ?e" "vs_view (le_viewstamp ?e) \<noteq> view ?s" "lastOp ?s + 1 \<noteq> - 1"
    and lo: "lastOp ?s = 1" and ct: "Option.is_none (clientTable ?s 8)"
    by code_simp+
  have fresh: "clientTable ?s (req_clientid (sample_req ''b'' 8 1)) = None"
    using ct by (simp add: sample_req_def Option.is_none_def)
  have rep: "\<forall>a k op. fst (snd (app_LeaderUpcall (app sample_env) a k op))"
    by (simp add: sample_env_def sample_app_def)
  show ?thesis using extended_leader_aborts [OF inv c(1-7) fresh rep] acc lo by blast
qed

definition empty_view_run :: "vr_event list" where
  "empty_view_run = [sample_prepare 0 1 [sample_req ''a'' 7 1],
     Deliver 0 (MsgStartView \<lparr>sv_view = 1, sv_lastOp = 0, sv_lastCommitted = 0, sv_entries = []\<rparr>)]"

text \<open>A STARTVIEW without entries leaves a backup's uncommitted entries in its log while it resets
  \<^verbatim>\<open>lastOp\<close>; the first PREPARE of the new view then aborts.\<close>

theorem empty_startview_breaks_log:
  "(case fold_r (vr_step sample_env) (sample_replica 2 4) empty_view_run of
      Inl _ \<Rightarrow> False
    | Inr s \<Rightarrow> lastOp s = 0 \<and> LastOpnum (log s) = 1 \<and> status s = STATUS_NORMAL \<and>
        (case vr_step sample_env s (sample_prepare 1 1 [sample_req ''b'' 8 1]) of Inl e \<Rightarrow> e = AssertFailed | Inr _ \<Rightarrow> False))"
  by code_simp

text \<open>A replica that is still recovering, with an empty log, joins a view change and offers that log
  to the new leader.\<close>

theorem recovering_replica_votes:
  "(case VRReplica_new (sample_config 1) 2 False 1 99 ([] :: string list) of
      Inl _ \<Rightarrow> False
    | Inr s \<Rightarrow> status s = STATUS_RECOVERING \<and>
        (case HandleStartViewChange s 0 \<lparr>svc_view = 1, svc_replicaIdx = 1, svc_lastCommitted = 4\<rparr> of
           Inl _ \<Rightarrow> False
         | Inr s' \<Rightarrow> status s' = STATUS_VIEW_CHANGE \<and>
             (ReplicaDest 1, OutReplica (MsgDoViewChange \<lparr>dvc_view = 1, dvc_lastNormalView = 0, dvc_lastOp = 0,
                dvc_lastCommitted = 0, dvc_entries = [], dvc_replicaIdx = 2\<rparr>)) \<in> set (outbox s')))"
  by code_simp

text \<open>A new leader that reaches its DOVIEWCHANGE quorum without having received any STARTVIEWCHANGE
  dereferences the smallest element of an empty set of messages.\<close>

theorem leader_without_startviewchange:
  "vr_step sample_env (sample_replica 1 1) (Deliver 0 (MsgDoViewChange \<lparr>dvc_view = 1, dvc_lastNormalView = 0,
      dvc_lastOp = 0, dvc_lastCommitted = 0, dvc_entries = [], dvc_replicaIdx = 2\<rparr>)) = Inl UndefinedBehaviour"
proof -
  have "case vr_step sample_env (sample_replica 1 1) (Deliver 0 (MsgDoViewChange \<lparr>dvc_view = 1, dvc_lastNormalView = 0,
      dvc_lastOp = 0, dvc_lastCommitted = 0, dvc_entries = [], dvc_replicaIdx = 2\<rparr>)) of
      Inl e \<Rightarrow> e = UndefinedBehaviour | Inr _ \<Rightarrow> False"
    by code_simp
  then show ?thesis by (simp split: sum.splits)
qed

end
