(* ===== verification/NOPaxosReplica.thy ===== *)
theory NOPaxosReplica
  imports ReplicaCommon
begin

text \<open>
  The NOPaxos replica, \<^verbatim>\<open>replication/nopaxos/replica.h\<close> and \<^verbatim>\<open>replication/nopaxos/replica.cc\<close>: its state,
  every message handler, every timeout callback and the helpers they call.  Clients' requests come
  stamped by the network sequencer with a session and a message number; the replica appends them in
  order, and a missing number is a gap that is fetched from others or agreed to be a no-op.

  A definition whose name is also one of the Viewstamped Replication replica's carries the suffix
  \<open>_np\<close>, and the fields of the state carry the prefix \<open>np_\<close>.  The gaps and
  synchronization points (\<^verbatim>\<open>std::set\<close>) are sets; a message lists them in increasing order, as the
  iteration over a \<^verbatim>\<open>std::set\<close> does.  The \<^verbatim>\<open>std::function\<close> run at the end of a state transfer is a datatype
  of the closures the code stores there.  Operation numbers that would wrap past the largest 64-bit
  value end the model's run with \<open>Diverges\<close>.
\<close>

section \<open>Messages\<close>

record ReplyMessage_np =
  nrep_view :: u64
  nrep_sessnum :: u64
  nrep_opnum :: u64
  nrep_clientreqid :: u64
  nrep_replicaidx :: int
  nrep_reply :: "string option"

datatype ToClientMessage_np = NReply ReplyMessage_np | NUnloggedReply string

record RequestMessage =
  rm_sessnum :: u64
  rm_msgnum :: u64
  rm_req :: Request

record GapReplyMessage =
  gr_view :: u64
  gr_sessnum :: u64
  gr_opnum :: u64
  gr_isfound :: bool
  gr_isgap :: bool
  gr_replicaidx :: int
  gr_req :: Request

record StateTransferReplyMessage =
  str_sessnum :: u64
  str_view :: u64
  str_begin :: u64
  str_end :: u64
  str_entries :: "MsgLogEntry list"

record GapCommitReplyMessage =
  gcr_sessnum :: u64
  gcr_view :: u64
  gcr_opnum :: u64
  gcr_replicaidx :: int

record ViewChangeMessage =
  vc_sessnum :: u64
  vc_view :: u64
  vc_lastnormalsessnum :: u64
  vc_lastnormalview :: u64
  vc_lastop :: u64
  vc_committedgaps :: "u64 list"
  vc_replicaidx :: int

record StartViewMessage_np =
  nsv_sessnum :: u64
  nsv_view :: u64
  nsv_lastnormalsessnum :: u64
  nsv_lastnormalview :: u64
  nsv_lastop :: u64
  nsv_committedgaps :: "u64 list"

record StartViewReplyMessage =
  svr_sessnum :: u64
  svr_view :: u64
  svr_replicaidx :: int

record SyncPrepareMessage =
  sp_sessnum :: u64
  sp_view :: u64
  sp_lastop :: u64
  sp_committedgaps :: "u64 list"

record SyncPrepareReplyMessage =
  spr_sessnum :: u64
  spr_view :: u64
  spr_syncpoint :: u64
  spr_replicaidx :: int

text \<open>Messages with session, view and at most one number carry them as arguments, in that order.\<close>

datatype ToReplicaMessage_np =
    NRequest RequestMessage
  | NUnloggedRequest string
  | NGapRequest u64 u64 u64
  | NGapReply GapReplyMessage
  | NStateTransferRequest u64 u64 u64 u64
  | NStateTransferReply StateTransferReplyMessage
  | NGapCommit u64 u64 u64
  | NGapCommitReply GapCommitReplyMessage
  | NViewChangeRequest u64 u64
  | NViewChange ViewChangeMessage
  | NStartView StartViewMessage_np
  | NStartViewReply StartViewReplyMessage
  | NSyncPrepareRequest u64 u64
  | NSyncPrepare SyncPrepareMessage
  | NSyncPrepareReply SyncPrepareReplyMessage
  | NSyncCommit u64 u64 u64
  | NNotSet

datatype destination_np = NToReplica int | NToAll | NToRemote TransportAddress | NToClient string

datatype outgoing_np = NOutReplica ToReplicaMessage_np | NOutClient ToClientMessage_np

section \<open>State\<close>

record ClientTableEntry_np =
  nct_lastReqId :: u64
  nct_reply :: ReplyMessage_np

definition ReplyMessage_np_empty :: ReplyMessage_np where
  "ReplyMessage_np_empty = \<lparr>nrep_view = 0, nrep_sessnum = 0, nrep_opnum = 0, nrep_clientreqid = 0,
     nrep_replicaidx = 0, nrep_reply = None\<rparr>"

datatype transfer_callback = NoCallback | EnterViewCallback | SyncPrepareCallback u64

record 'a NOPaxosReplica =
  np_configuration :: Configuration
  np_replicaIdx :: int
  np_log :: Log
  np_status :: ReplicaStatus
  np_view :: u64
  np_sessnum :: u64
  np_lastOp :: u64
  np_nextMsgnum :: u64
  np_lastNormalView :: u64
  np_lastNormalSessnum :: u64
  np_lastCommittedOp :: u64
  np_lastExecutedOp :: u64
  np_clientTable :: "u64 \<Rightarrow> ClientTableEntry_np option"
  np_pendingRequests :: "RequestMessage list"
  np_pendingRequestsSorted :: bool
  np_gapReplyQuorum :: "(u64, GapReplyMessage) QuorumSet"
  np_gapCommitQuorum :: "(u64, GapCommitReplyMessage) QuorumSet"
  np_viewChangeQuorum :: "(u64 \<times> u64, ViewChangeMessage) QuorumSet"
  np_startViewQuorum :: "(u64 \<times> u64, StartViewReplyMessage) QuorumSet"
  np_syncPrepareQuorum :: "(u64, SyncPrepareReplyMessage) QuorumSet"
  np_committedGaps :: "u64 set"
  np_gapRequestTimeout :: bool
  np_gapCommitTimeout :: bool
  np_viewChangeTimeout :: bool
  np_stateTransferTimeout :: bool
  np_startViewTimeout :: bool
  np_syncTimeout :: bool
  np_leaderSyncHeardTimeout :: bool
  np_stateTransferOpBegin :: u64
  np_stateTransferOpEnd :: u64
  np_stateTransferReplicaIdx :: int
  np_stateTransferCallback :: transfer_callback
  np_startViewLastNormalSessnum :: u64
  np_startViewLastNormalView :: u64
  np_startViewLastOp :: u64
  np_startViewCommittedGaps :: "u64 set"
  np_leaderLastSyncPreparePoint :: u64
  np_leaderLastSyncCommittedGaps :: "u64 set"
  np_receivedSyncPreparePoints :: "u64 set"
  np_receivedSyncCommitPoints :: "u64 set"
  np_app_state :: 'a
  np_outbox :: "(destination_np \<times> outgoing_np) list"

definition MAX_SYNC_TRANSFER_OPS :: u64 where
  "MAX_SYNC_TRANSFER_OPS = 10"

section \<open>Sending\<close>

definition send_np :: "'a NOPaxosReplica \<Rightarrow> destination_np \<Rightarrow> outgoing_np \<Rightarrow> 'a NOPaxosReplica" where
  "send_np s d m = s\<lparr>np_outbox := np_outbox s @ [(d, m)]\<rparr>"

definition AmLeader_np :: "'a NOPaxosReplica \<Rightarrow> bool" where
  "AmLeader_np s \<longleftrightarrow> GetLeaderIndex (np_configuration s) (np_view s) = np_replicaIdx s"

definition to_leader :: "'a NOPaxosReplica \<Rightarrow> ToReplicaMessage_np \<Rightarrow> 'a NOPaxosReplica" where
  "to_leader s m =
     send_np s (NToReplica (GetLeaderIndex (np_configuration s) (np_view s))) (NOutReplica m)"

definition SendGapRequest :: "'a NOPaxosReplica \<Rightarrow> 'a NOPaxosReplica" where
  "SendGapRequest s =
     (let m = NGapRequest (np_sessnum s) (np_view s) (np_lastOp s + 1);
          s1 = (if \<not> AmLeader_np s then to_leader s m else send_np s NToAll (NOutReplica m))
      in s1\<lparr>np_gapRequestTimeout := True\<rparr>)"

definition SendGapCommit :: "'a NOPaxosReplica \<Rightarrow> 'a NOPaxosReplica result" where
  "SendGapCommit s =
     check (AmLeader_np s) AssertFailed
       (check (np_status s = STATUS_GAP_COMMIT) AssertFailed
         (Inr ((send_np s NToAll (NOutReplica (NGapCommit (np_sessnum s) (np_view s) (np_lastOp s))))
                 \<lparr>np_gapCommitTimeout := True\<rparr>)))"

definition SendViewChange :: "'a NOPaxosReplica \<Rightarrow> 'a NOPaxosReplica" where
  "SendViewChange s =
     (let s1 = send_np s NToAll (NOutReplica (NViewChangeRequest (np_sessnum s) (np_view s)));
          s2 = (if \<not> AmLeader_np s1
                then to_leader s1 (NViewChange
                  \<lparr>vc_sessnum = np_sessnum s1, vc_view = np_view s1,
                   vc_lastnormalsessnum = np_lastNormalSessnum s1, vc_lastnormalview = np_lastNormalView s1,
                   vc_lastop = np_lastOp s1, vc_committedgaps = sorted_list_of_set (np_committedGaps s1),
                   vc_replicaidx = np_replicaIdx s1\<rparr>)
                else s1)
      in s2\<lparr>np_viewChangeTimeout := True\<rparr>)"

definition SendStateTransferRequest :: "'a NOPaxosReplica \<Rightarrow> 'a NOPaxosReplica" where
  "SendStateTransferRequest s =
     (send_np s (NToReplica (np_stateTransferReplicaIdx s)) (NOutReplica (NStateTransferRequest
        (np_sessnum s) (np_view s) (np_stateTransferOpBegin s) (np_stateTransferOpEnd s))))
       \<lparr>np_stateTransferTimeout := True\<rparr>"

definition start_view_message :: "'a NOPaxosReplica \<Rightarrow> ToReplicaMessage_np" where
  "start_view_message s = NStartView
     \<lparr>nsv_sessnum = np_sessnum s, nsv_view = np_view s,
      nsv_lastnormalsessnum = np_startViewLastNormalSessnum s,
      nsv_lastnormalview = np_startViewLastNormalView s, nsv_lastop = np_startViewLastOp s,
      nsv_committedgaps = sorted_list_of_set (np_startViewCommittedGaps s)\<rparr>"

definition SendStartView :: "'a NOPaxosReplica \<Rightarrow> 'a NOPaxosReplica result" where
  "SendStartView s =
     check (AmLeader_np s) AssertFailed
       (Inr ((send_np s NToAll (NOutReplica (start_view_message s)))\<lparr>np_startViewTimeout := True\<rparr>))"

definition SendStartViewReply :: "'a NOPaxosReplica \<Rightarrow> 'a NOPaxosReplica result" where
  "SendStartViewReply s =
     check (\<not> AmLeader_np s) AssertFailed
       (check (np_status s \<noteq> STATUS_VIEW_CHANGE) AssertFailed
         (Inr (to_leader s (NStartViewReply
           \<lparr>svr_sessnum = np_sessnum s, svr_view = np_view s, svr_replicaidx = np_replicaIdx s\<rparr>))))"

definition SendSyncPrepare :: "'a NOPaxosReplica \<Rightarrow> 'a NOPaxosReplica result" where
  "SendSyncPrepare s =
     check (AmLeader_np s) AssertFailed
       (let s1 = s\<lparr>np_leaderLastSyncPreparePoint := np_lastOp s,
                   np_leaderLastSyncCommittedGaps := np_committedGaps s\<rparr>
        in Inr (send_np s1 NToAll (NOutReplica (NSyncPrepare
             \<lparr>sp_sessnum = np_sessnum s1, sp_view = np_view s1, sp_lastop = np_lastOp s1,
              sp_committedgaps = sorted_list_of_set (np_leaderLastSyncCommittedGaps s1)\<rparr>))))"

definition SendSyncCommit :: "'a NOPaxosReplica \<Rightarrow> 'a NOPaxosReplica result" where
  "SendSyncCommit s =
     check (AmLeader_np s) AssertFailed
       (Inr (send_np s NToAll (NOutReplica (NSyncCommit (np_sessnum s) (np_view s) (np_lastCommittedOp s)))))"

section \<open>Execution and commitment\<close>

definition client_entry_np :: "'a NOPaxosReplica \<Rightarrow> u64 \<Rightarrow> ClientTableEntry_np" where
  "client_entry_np s c =
     (case np_clientTable s c of
        None \<Rightarrow> \<lparr>nct_lastReqId = 0, nct_reply = ReplyMessage_np_empty\<rparr> | Some e \<Rightarrow> e)"

definition UpdateClientTable_np ::
  "'a NOPaxosReplica \<Rightarrow> Request \<Rightarrow> ReplyMessage_np \<Rightarrow> 'a NOPaxosReplica result" where
  "UpdateClientTable_np s req rep =
     (let e = client_entry_np s (req_clientid req);
          put = (\<lambda>e. s\<lparr>np_clientTable := (np_clientTable s)(req_clientid req \<mapsto> e)\<rparr>)
      in check (nct_lastReqId e \<le> req_clientreqid req) AssertFailed
           (if nct_lastReqId e = req_clientreqid req then Inr (put e)
            else Inr (put (if AmLeader_np s
                           then e\<lparr>nct_lastReqId := req_clientreqid req, nct_reply := rep\<rparr>
                           else e\<lparr>nct_lastReqId := req_clientreqid req\<rparr>))))"

text \<open>The loop body of \<^verbatim>\<open>ExecuteUptoOp\<close> from the client-table lookup on: a stale request is skipped, a
  duplicate gets the stored reply, any other is executed and recorded.  The client is answered only
  by the leader of the entry's view.\<close>

definition stale_request :: "'a NOPaxosReplica \<Rightarrow> Request \<Rightarrow> bool" where
  "stale_request s req \<longleftrightarrow>
     (case np_clientTable s (req_clientid req) of
        None \<Rightarrow> False | Some c \<Rightarrow> req_clientreqid req < nct_lastReqId c)"

definition duplicate_request :: "'a NOPaxosReplica \<Rightarrow> Request \<Rightarrow> bool" where
  "duplicate_request s req \<longleftrightarrow>
     (case np_clientTable s (req_clientid req) of
        None \<Rightarrow> False | Some c \<Rightarrow> req_clientreqid req = nct_lastReqId c)"

definition stored_reply :: "'a NOPaxosReplica \<Rightarrow> Request \<Rightarrow> string" where
  "stored_reply s req =
     (case nrep_reply (nct_reply (client_entry_np s (req_clientid req))) of None \<Rightarrow> '''' | Some r \<Rightarrow> r)"

definition respond_client ::
  "'a NOPaxosReplica \<Rightarrow> u64 \<Rightarrow> LogEntry \<Rightarrow> ReplyMessage_np \<Rightarrow> 'a NOPaxosReplica" where
  "respond_client s op e r =
     (if GetLeaderIndex (np_configuration s) (vs_view (le_viewstamp e)) = np_replicaIdx s
      then send_np s (NToClient (req_clientaddr (le_request e))) (NOutClient (NReply
             (r\<lparr>nrep_clientreqid := req_clientreqid (le_request e), nrep_replicaidx := np_replicaIdx s,
                nrep_view := vs_view (le_viewstamp e), nrep_opnum := op,
                nrep_sessnum := vs_sessnum (le_viewstamp e)\<rparr>)))
      else s)"

definition execute_entry ::
  "'a AppReplica \<Rightarrow> 'a NOPaxosReplica \<Rightarrow> u64 \<Rightarrow> LogEntry \<Rightarrow> 'a NOPaxosReplica result" where
  "execute_entry app s op e =
     (let req = le_request e
      in if stale_request s req then Inr s
         else if duplicate_request s req
         then Inr (respond_client s op e (ReplyMessage_np_empty\<lparr>nrep_reply := Some (stored_reply s req)\<rparr>))
         else
           let x = Execute app (np_app_state s) op req None;
               r = ReplyMessage_np_empty\<lparr>nrep_reply := Some (snd x)\<rparr>
           in rbind (UpdateClientTable_np (s\<lparr>np_app_state := fst x\<rparr>) req r)
                (\<lambda>s'. Inr (respond_client s' op e r)))"

definition execute_op :: "'a AppReplica \<Rightarrow> 'a NOPaxosReplica \<Rightarrow> u64 \<Rightarrow> 'a NOPaxosReplica result" where
  "execute_op app s op =
     check (op \<le> np_lastOp s) AssertFailed
       (rbind (Find (np_log s) op) (\<lambda>r. case r of
          None \<Rightarrow> Inl UndefinedBehaviour
        | Some e \<Rightarrow>
            check (op = vs_opnum (le_viewstamp e)) AssertFailed
              (let s1 = s\<lparr>np_lastExecutedOp := op\<rparr>
               in if le_state e = LOG_STATE_RECEIVED then execute_entry app s1 op e else Inr s1)))"

definition ExecuteUptoOp :: "'a AppReplica \<Rightarrow> 'a NOPaxosReplica \<Rightarrow> u64 \<Rightarrow> 'a NOPaxosReplica result" where
  "ExecuteUptoOp app s opnum =
     (if opnum \<le> np_lastExecutedOp s then Inr s
      else if opnum > np_lastOp s then Inl Panicked
      else rbind (op_range_le (np_lastExecutedOp s + 1) opnum) (\<lambda>ops. fold_r (execute_op app) s ops))"

definition CommitUptoOp :: "'a AppReplica \<Rightarrow> 'a NOPaxosReplica \<Rightarrow> u64 \<Rightarrow> 'a NOPaxosReplica result" where
  "CommitUptoOp app s opnum =
     (if opnum \<le> np_lastCommittedOp s then Inr s
      else if opnum > np_lastOp s then Inl Panicked
      else
        let s1 = s\<lparr>np_lastCommittedOp := opnum\<rparr>
        in rbind (if AmLeader_np s1 then SendSyncCommit s1 else Inr s1)
             (\<lambda>s2. ExecuteUptoOp app s2 opnum))"

section \<open>Views, gaps and the next operation\<close>

definition ClearTimeoutAndQuorums :: "'a NOPaxosReplica \<Rightarrow> 'a NOPaxosReplica" where
  "ClearTimeoutAndQuorums s =
     s\<lparr>np_gapRequestTimeout := False, np_gapReplyQuorum := Clear (np_gapReplyQuorum s),
       np_gapCommitTimeout := False, np_gapCommitQuorum := Clear (np_gapCommitQuorum s),
       np_viewChangeTimeout := False, np_viewChangeQuorum := Clear (np_viewChangeQuorum s),
       np_stateTransferTimeout := False,
       np_startViewTimeout := False, np_startViewQuorum := Clear (np_startViewQuorum s),
       np_syncTimeout := False, np_syncPrepareQuorum := Clear (np_syncPrepareQuorum s),
       np_leaderSyncHeardTimeout := False,
       np_receivedSyncPreparePoints := {}, np_receivedSyncCommitPoints := {},
       np_stateTransferOpBegin := 0, np_stateTransferOpEnd := 0\<rparr>"

definition EnterView_np :: "'a AppReplica \<Rightarrow> 'a NOPaxosReplica \<Rightarrow> u64 \<Rightarrow> u64 \<Rightarrow> 'a NOPaxosReplica result" where
  "EnterView_np app s newsessnum newview =
     check (newsessnum \<ge> np_sessnum s) AssertFailed
       (check (newview \<ge> np_view s) AssertFailed
         (let s1 = (if newsessnum > vs_sessnum (LastViewstamp (np_log s))
                    then s\<lparr>np_nextMsgnum := 1\<rparr> else s);
              s2 = ClearTimeoutAndQuorums (s1\<lparr>np_sessnum := newsessnum, np_view := newview,
                     np_lastNormalSessnum := newsessnum, np_lastNormalView := newview,
                     np_status := STATUS_NORMAL\<rparr>)
          in if AmLeader_np s2
             then rbind (ExecuteUptoOp app s2 (np_lastOp s2)) (\<lambda>s3.
                    check (np_leaderLastSyncPreparePoint s3 \<le> np_lastOp s3) AssertFailed
                      (SendStartView (s3\<lparr>np_syncTimeout := True,
                         np_leaderLastSyncPreparePoint := np_lastOp s3,
                         np_leaderLastSyncCommittedGaps := np_committedGaps s3\<rparr>)))
             else SendStartViewReply (s2\<lparr>np_leaderSyncHeardTimeout := True,
                    np_receivedSyncPreparePoints := insert (np_lastOp s2) (np_receivedSyncPreparePoints s2)\<rparr>)))"

definition ProcessSyncPrepare :: "'a AppReplica \<Rightarrow> 'a NOPaxosReplica \<Rightarrow> u64 \<Rightarrow> 'a NOPaxosReplica result" where
  "ProcessSyncPrepare app s syncpoint =
     check (\<not> AmLeader_np s) AssertFailed
       (if syncpoint \<in> np_receivedSyncCommitPoints s
        then rbind (CommitUptoOp app s syncpoint) (\<lambda>s1.
               Inr (s1\<lparr>np_receivedSyncPreparePoints := np_receivedSyncPreparePoints s1 - {syncpoint},
                       np_receivedSyncCommitPoints := np_receivedSyncCommitPoints s1 - {syncpoint}\<rparr>))
        else Inr (to_leader s (NSyncPrepareReply
               \<lparr>spr_sessnum = np_sessnum s, spr_view = np_view s, spr_syncpoint = syncpoint,
                spr_replicaidx = np_replicaIdx s\<rparr>)))"

text \<open>Calling an empty \<^verbatim>\<open>std::function\<close> throws an exception nobody catches.\<close>

definition run_callback :: "'a AppReplica \<Rightarrow> 'a NOPaxosReplica \<Rightarrow> 'a NOPaxosReplica result" where
  "run_callback app s =
     (case np_stateTransferCallback s of
        NoCallback \<Rightarrow> Inl Panicked
      | EnterViewCallback \<Rightarrow> EnterView_np app s (np_sessnum s) (np_view s)
      | SyncPrepareCallback p \<Rightarrow> ProcessSyncPrepare app s p)"

text \<open>\<^verbatim>\<open>ProcessNextOperation\<close> up to its recursive call, in three stages: the entry is appended, then
  recorded as a gap, executed or acknowledged, then a finished state transfer is completed.  The log
  is created without hashing, so no hash function is consulted when an entry is appended.\<close>

definition settle_entry ::
  "'a AppReplica \<Rightarrow> 'a NOPaxosReplica \<Rightarrow> Request \<Rightarrow> viewstamp_t \<Rightarrow> LogEntryState \<Rightarrow> 'a NOPaxosReplica result" where
  "settle_entry app s request vs st =
     (if st = LOG_STATE_NOOP
      then Inr (s\<lparr>np_committedGaps := insert (np_lastOp s) (np_committedGaps s)\<rparr>)
      else if st = LOG_STATE_RECEIVED
      then (if GetLeaderIndex (np_configuration s) (vs_view vs) = np_replicaIdx s
            then ExecuteUptoOp app s (vs_opnum vs)
            else Inr (send_np s (NToClient (req_clientaddr request)) (NOutClient (NReply
                   \<lparr>nrep_view = vs_view vs, nrep_sessnum = vs_sessnum vs,
                    nrep_opnum = vs_opnum vs, nrep_clientreqid = req_clientreqid request,
                    nrep_replicaidx = np_replicaIdx s, nrep_reply = None\<rparr>))))
      else Inr s)"

definition complete_transfer :: "'a AppReplica \<Rightarrow> 'a NOPaxosReplica \<Rightarrow> u64 \<Rightarrow> 'a NOPaxosReplica result" where
  "complete_transfer app s op =
     (if op = np_stateTransferOpEnd s
      then run_callback app (s\<lparr>np_stateTransferTimeout := False\<rparr>) else Inr s)"

definition entry_state :: "'a NOPaxosReplica \<Rightarrow> u64 \<Rightarrow> LogEntryState \<Rightarrow> LogEntryState" where
  "entry_state s op st = (if op \<in> np_committedGaps s then LOG_STATE_NOOP else st)"

definition stop_gap_request :: "'a NOPaxosReplica \<Rightarrow> 'a NOPaxosReplica" where
  "stop_gap_request s =
     (if np_gapRequestTimeout s
      then s\<lparr>np_gapRequestTimeout := False, np_gapReplyQuorum := Clear (np_gapReplyQuorum s)\<rparr> else s)"

definition append_next ::
  "'a AppReplica \<Rightarrow> 'a NOPaxosReplica \<Rightarrow> Request \<Rightarrow> viewstamp_t \<Rightarrow> LogEntryState \<Rightarrow> 'a NOPaxosReplica result" where
  "append_next app s request vs st0 =
     check (np_lastOp s \<noteq> - 1) Diverges
     (check (vs_opnum vs = np_lastOp s + 1) AssertFailed
       (let s1 = s\<lparr>np_lastOp := vs_opnum vs, np_nextMsgnum := vs_msgnum vs + 1\<rparr>;
            st = entry_state s1 (vs_opnum vs) st0
        in rbind (Append id (np_log s1) (LogEntry_new vs st request)) (\<lambda>l.
           rbind (settle_entry app (stop_gap_request (s1\<lparr>np_log := l\<rparr>)) request vs st) (\<lambda>s2.
             complete_transfer app s2 (vs_opnum vs)))))"

text \<open>Executing changes only the execution point, the application, the client table and what is
  sent.\<close>

definition exec_frame :: "'a NOPaxosReplica \<Rightarrow> 'a NOPaxosReplica \<Rightarrow> bool" where
  "exec_frame s s' \<longleftrightarrow>
     (\<exists>x a c o'. s' = s\<lparr>np_lastExecutedOp := x, np_app_state := a, np_clientTable := c, np_outbox := o'\<rparr>)"

lemma exec_frame_refl: "exec_frame s s"
  unfolding exec_frame_def
  by (intro exI [of _ "np_lastExecutedOp s"] exI [of _ "np_app_state s"] exI [of _ "np_clientTable s"]
      exI [of _ "np_outbox s"]) simp

lemma exec_frame_trans: "\<lbrakk> exec_frame s t; exec_frame t u \<rbrakk> \<Longrightarrow> exec_frame s u"
  unfolding exec_frame_def by (elim exE) (simp, blast)

lemma exec_frame_update:
  "exec_frame s (s\<lparr>np_lastExecutedOp := x\<rparr>)" "exec_frame s (s\<lparr>np_app_state := a\<rparr>)"
  "exec_frame s (s\<lparr>np_clientTable := c\<rparr>)" "exec_frame s (send_np s d m)"
  unfolding exec_frame_def send_np_def
  by (intro exI [of _ "np_lastExecutedOp s"] exI [of _ "np_app_state s"] exI [of _ "np_clientTable s"]
      exI [of _ "np_outbox s"] exI; simp; blast?)+

lemma UpdateClientTable_np_frame: "UpdateClientTable_np s req r = Inr s' \<Longrightarrow> exec_frame s s'"
  by (auto simp: UpdateClientTable_np_def Let_def exec_frame_update split: if_splits)

lemma respond_client_frame: "exec_frame s (respond_client s op e r)"
  by (simp add: respond_client_def exec_frame_update exec_frame_refl)

lemma execute_entry_frame:
  assumes "execute_entry ap s op e = Inr s'"
  shows "exec_frame s s'"
proof (cases "stale_request s (le_request e) \<or> duplicate_request s (le_request e)")
  case True
  then have "s' = s \<or> (\<exists>r. s' = respond_client s op e r)"
    using assms by (auto simp: execute_entry_def Let_def split: if_splits)
  then show ?thesis using exec_frame_refl respond_client_frame by auto
next
  case False
  then obtain a r u where u: "UpdateClientTable_np (s\<lparr>np_app_state := a\<rparr>) (le_request e) r = Inr u"
    and s': "s' = respond_client u op e r"
    using assms by (auto simp: execute_entry_def Let_def)
  have "exec_frame s u"
    by (rule exec_frame_trans [OF exec_frame_update(2) UpdateClientTable_np_frame [OF u]])
  then show ?thesis unfolding s' using respond_client_frame exec_frame_trans by blast
qed

lemma execute_op_Inr:
  assumes "execute_op ap s op = Inr s'"
  shows "\<exists>e. Find (np_log s) op = Inr (Some e) \<and> op \<le> np_lastOp s \<and> op = vs_opnum (le_viewstamp e) \<and>
     (if le_state e = LOG_STATE_RECEIVED
      then execute_entry ap (s\<lparr>np_lastExecutedOp := op\<rparr>) op e = Inr s'
      else s' = s\<lparr>np_lastExecutedOp := op\<rparr>)"
  using assms by (auto simp: execute_op_def Let_def split: option.splits if_splits)

lemma execute_op_frame:
  assumes "execute_op ap s op = Inr s'"
  shows "exec_frame s s'"
proof -
  obtain e :: LogEntry where e: "if le_state e = LOG_STATE_RECEIVED
      then execute_entry ap (s\<lparr>np_lastExecutedOp := op\<rparr>) op e = Inr s'
      else s' = s\<lparr>np_lastExecutedOp := op\<rparr>"
    using execute_op_Inr [OF assms] by (elim exE conjE)
  show ?thesis
  proof (cases "le_state e = LOG_STATE_RECEIVED")
    case True
    then show ?thesis
      using e exec_frame_trans [OF exec_frame_update(1) execute_entry_frame] by simp
  next
    case False
    then show ?thesis using e exec_frame_update(1) by simp
  qed
qed

lemma ExecuteUptoOp_frame:
  assumes "ExecuteUptoOp ap s k = Inr s'"
  shows "exec_frame s s'"
proof (cases "k \<le> np_lastExecutedOp s")
  case True
  then show ?thesis using assms by (simp add: ExecuteUptoOp_def exec_frame_refl)
next
  case False
  then obtain ops where ops: "fold_r (execute_op ap) s ops = Inr s'"
    using assms by (auto simp: ExecuteUptoOp_def split: if_splits)
  show ?thesis
  proof (rule fold_r_invariant [OF exec_frame_refl ops])
    show "exec_frame s t'" if "exec_frame s t" "execute_op ap t x = Inr t'" for t x t'
      using exec_frame_trans [OF that(1) execute_op_frame [OF that(2)]] .
  qed
qed

lemma exec_frameD:
  assumes "exec_frame s s'"
  shows "np_lastOp s' = np_lastOp s" "np_log s' = np_log s" "np_view s' = np_view s" "np_sessnum s' = np_sessnum s"
    "np_configuration s' = np_configuration s" "np_replicaIdx s' = np_replicaIdx s" "np_status s' = np_status s"
    "np_committedGaps s' = np_committedGaps s" "np_nextMsgnum s' = np_nextMsgnum s"
    "np_lastCommittedOp s' = np_lastCommittedOp s" "AmLeader_np s' = AmLeader_np s"
    "np_pendingRequests s' = np_pendingRequests s" "np_stateTransferOpEnd s' = np_stateTransferOpEnd s"
    "np_stateTransferCallback s' = np_stateTransferCallback s"
    "np_leaderLastSyncPreparePoint s' = np_leaderLastSyncPreparePoint s"
    "np_lastNormalView s' = np_lastNormalView s" "np_lastNormalSessnum s' = np_lastNormalSessnum s"
  using assms unfolding exec_frame_def AmLeader_np_def by (elim exE; simp)+

lemma ExecuteUptoOp_lastOp: "ExecuteUptoOp ap s k = Inr s' \<Longrightarrow> np_lastOp s' = np_lastOp s"
  using exec_frameD(1) [OF ExecuteUptoOp_frame] .

lemma EnterView_np_lastOp:
  assumes "EnterView_np ap s x y = Inr s'"
  shows "np_lastOp s' = np_lastOp s"
proof -
  define s2 where "s2 = ClearTimeoutAndQuorums ((if x > vs_sessnum (LastViewstamp (np_log s))
     then s\<lparr>np_nextMsgnum := 1\<rparr> else s)\<lparr>np_sessnum := x, np_view := y,
                     np_lastNormalSessnum := x, np_lastNormalView := y, np_status := STATUS_NORMAL\<rparr>)"
  have lo: "np_lastOp s2 = np_lastOp s" by (simp add: s2_def ClearTimeoutAndQuorums_def)
  show ?thesis
  proof (cases "AmLeader_np s2")
    case True
    then obtain s3 where "ExecuteUptoOp ap s2 (np_lastOp s2) = Inr s3" and
      "SendStartView (s3\<lparr>np_syncTimeout := True, np_leaderLastSyncPreparePoint := np_lastOp s3,
                         np_leaderLastSyncCommittedGaps := np_committedGaps s3\<rparr>) = Inr s'"
      using assms unfolding EnterView_np_def Let_def s2_def [symmetric] by auto
    then show ?thesis
      using lo by (auto simp: SendStartView_def send_np_def dest: ExecuteUptoOp_lastOp)
  next
    case False
    then show ?thesis
      using assms lo unfolding EnterView_np_def Let_def s2_def [symmetric]
      by (auto simp: SendStartViewReply_def to_leader_def send_np_def)
  qed
qed

lemma CommitUptoOp_lastOp:
  assumes "CommitUptoOp ap s k = Inr s'"
  shows "np_lastOp s' = np_lastOp s"
  using assms
  by (auto simp: CommitUptoOp_def Let_def SendSyncCommit_def send_np_def split: if_splits dest!: ExecuteUptoOp_lastOp)

lemma run_callback_lastOp:
  assumes "run_callback ap s = Inr s'"
  shows "np_lastOp s' = np_lastOp s"
  using assms
  by (auto simp: run_callback_def ProcessSyncPrepare_def to_leader_def send_np_def
      split: transfer_callback.splits if_splits dest!: EnterView_np_lastOp CommitUptoOp_lastOp)

lemma append_next_Inr:
  assumes "append_next ap s req vs st0 = Inr s'"
  shows "\<exists>l s2. np_lastOp s \<noteq> - 1 \<and> vs_opnum vs = np_lastOp s + 1 \<and>
     Append id (np_log s) (LogEntry_new vs (entry_state s (vs_opnum vs) st0) req) = Inr l \<and>
     settle_entry ap (stop_gap_request (s\<lparr>np_lastOp := vs_opnum vs, np_nextMsgnum := vs_msgnum vs + 1, np_log := l\<rparr>))
       req vs (entry_state s (vs_opnum vs) st0) = Inr s2 \<and>
     complete_transfer ap s2 (vs_opnum vs) = Inr s'"
proof -
  have st: "entry_state (s\<lparr>np_lastOp := vs_opnum vs, np_nextMsgnum := vs_msgnum vs + 1\<rparr>) = entry_state s"
    by (simp add: entry_state_def fun_eq_iff)
  show ?thesis using assms unfolding append_next_def Let_def st check_Inr rbind_Inr by auto
qed

lemma settle_entry_lastOp: "settle_entry ap s req vs st = Inr s' \<Longrightarrow> np_lastOp s' = np_lastOp s"
  by (auto simp: settle_entry_def send_np_def split: if_splits dest: ExecuteUptoOp_lastOp)

lemma complete_transfer_lastOp: "complete_transfer ap s op = Inr s' \<Longrightarrow> np_lastOp s' = np_lastOp s"
  by (auto simp: complete_transfer_def split: if_splits dest!: run_callback_lastOp)

lemma append_next_lastOp:
  assumes "append_next ap s req vs st = Inr s'"
  shows "np_lastOp s' = np_lastOp s + 1 \<and> np_lastOp s \<noteq> - 1 \<and> vs_opnum vs = np_lastOp s + 1"
  using append_next_Inr [OF assms]
  by (elim exE conjE) (auto simp: stop_gap_request_def dest!: settle_entry_lastOp complete_transfer_lastOp)

text \<open>The recursion of \<^verbatim>\<open>ProcessNextOperation\<close> fills the gaps that follow.\<close>

function ProcessNextOperation ::
  "'a AppReplica \<Rightarrow> 'a NOPaxosReplica \<Rightarrow> Request \<Rightarrow> viewstamp_t \<Rightarrow> LogEntryState \<Rightarrow> 'a NOPaxosReplica result" where
  "ProcessNextOperation app s request vs st =
     rbind (append_next app s request vs st) (\<lambda>s'.
       if np_lastOp s' + 1 \<in> np_committedGaps s'
       then ProcessNextOperation app s' request
              (Viewstamp (vs_view vs) (np_lastOp s' + 1) (vs_sessnum vs) (np_nextMsgnum s') (vs_shardnum vs))
              LOG_STATE_NOOP
       else Inr s')"
  by pat_completeness auto
termination
proof (relation "measure (\<lambda>(app, s, request, vs, st). 2 ^ 64 - unat (np_lastOp s))")
  fix app :: "'a AppReplica" and s request vs st s'
  assume "append_next app s request vs st = Inr s'"
  from append_next_lastOp [OF this]
  have "unat (np_lastOp s') = unat (np_lastOp s) + 1"
    using unat_add_of_nat [of "np_lastOp s" 1] unfolding u64_not_max by simp
  then show "((app, s', request, Viewstamp (vs_view vs) (np_lastOp s' + 1) (vs_sessnum vs) (np_nextMsgnum s') (vs_shardnum vs),
         LOG_STATE_NOOP), (app, s, request, vs, st)) \<in> measure (\<lambda>(app, s, request, vs, st). 2 ^ 64 - unat (np_lastOp s))"
    using unat_u64_bound [of "np_lastOp s"] by simp
qed simp

declare ProcessNextOperation.simps [simp del]

section \<open>Gap agreement and view changes\<close>

text \<open>One round of the loop of \<^verbatim>\<open>InstallCommittedGaps\<close>: a new gap is recorded, appended as a no-op if
  it is the next operation, and an entry already at its place is turned into a no-op.\<close>

definition mark_gap :: "'a NOPaxosReplica \<Rightarrow> u64 \<Rightarrow> 'a NOPaxosReplica result" where
  "mark_gap s gap =
     (if np_lastOp s \<ge> gap then
        rbind (Find (np_log s) gap) (\<lambda>r. case r of
           None \<Rightarrow> Inl UndefinedBehaviour
         | Some e \<Rightarrow>
             if le_state e \<noteq> LOG_STATE_NOOP then
               check (np_lastCommittedOp s < gap) AssertFailed
                 (if np_lastExecutedOp s \<ge> gap then Inl Panicked
                  else rbind (SetStatus (np_log s) gap LOG_STATE_NOOP) (\<lambda>(l, _). Inr (s\<lparr>np_log := l\<rparr>)))
             else Inr s)
      else Inr s)"

definition InstallCommittedGap :: "'a AppReplica \<Rightarrow> 'a NOPaxosReplica \<Rightarrow> u64 \<Rightarrow> 'a NOPaxosReplica result" where
  "InstallCommittedGap app s gap =
     (if gap \<in> np_committedGaps s then Inr s
      else
        let s1 = s\<lparr>np_committedGaps := insert gap (np_committedGaps s)\<rparr> in
        rbind (if np_lastOp s1 + 1 = gap
               then let v = LastViewstamp (np_log s1)
                    in ProcessNextOperation app s1 empty_Request
                         (Viewstamp (vs_view v) (np_lastOp s1 + 1) (vs_sessnum v) (np_nextMsgnum s1) (vs_shardnum v))
                         LOG_STATE_NOOP
               else Inr s1)
          (\<lambda>s2. mark_gap s2 gap))"

definition InstallCommittedGaps :: "'a AppReplica \<Rightarrow> 'a NOPaxosReplica \<Rightarrow> u64 list \<Rightarrow> 'a NOPaxosReplica result" where
  "InstallCommittedGaps app s gaps = fold_r (InstallCommittedGap app) s gaps"

definition StartGapAgreement :: "'a AppReplica \<Rightarrow> 'a NOPaxosReplica \<Rightarrow> 'a NOPaxosReplica result" where
  "StartGapAgreement app s =
     check (AmLeader_np s) AssertFailed
       (let s1 = s\<lparr>np_gapReplyQuorum := Clear (np_gapReplyQuorum s), np_gapRequestTimeout := False,
                   np_status := STATUS_GAP_COMMIT, np_gapCommitQuorum := Clear (np_gapCommitQuorum s)\<rparr>
        in rbind (ProcessNextOperation app s1 empty_Request
                    (viewstamp4 (np_view s1) (np_lastOp s1 + 1) (np_sessnum s1) (np_nextMsgnum s1)) LOG_STATE_NOOP)
             SendGapCommit)"

text \<open>The loop at the end of \<^verbatim>\<open>StartViewChange\<close> removes the largest gap as long as it lies beyond
  \<^verbatim>\<open>lastOp\<close>; what is left is the gaps within the log.\<close>

definition StartViewChange_np :: "'a NOPaxosReplica \<Rightarrow> u64 \<Rightarrow> u64 \<Rightarrow> 'a NOPaxosReplica result" where
  "StartViewChange_np s newsessnum newview =
     check (newsessnum > np_sessnum s \<or> newview > np_view s) AssertFailed
       (let sn = (if newsessnum > np_sessnum s then newsessnum else np_sessnum s);
            vw = (if newview > np_view s then newview else np_view s);
            s1 = (ClearTimeoutAndQuorums s)\<lparr>np_sessnum := sn, np_view := vw\<rparr>;
            s2 = (if sn > vs_sessnum (LastViewstamp (np_log s1)) then s1\<lparr>np_nextMsgnum := 1\<rparr> else s1)
        in Inr (SendViewChange (s2\<lparr>np_status := STATUS_VIEW_CHANGE,
                  np_committedGaps := {g \<in> np_committedGaps s2. g \<le> np_lastOp s2}\<rparr>)))"

definition RewindLogToOpnum :: "'a NOPaxosReplica \<Rightarrow> u64 \<Rightarrow> 'a NOPaxosReplica result" where
  "RewindLogToOpnum s opnum =
     check (opnum \<ge> np_lastCommittedOp s) AssertFailed
       (if opnum < np_lastExecutedOp s then Inl Panicked
        else
          let s1 = s\<lparr>np_lastOp := opnum\<rparr> in
          rbind (RemoveAfter (np_log s1) opnum) (\<lambda>l.
            Inr (s1\<lparr>np_log := l, np_nextMsgnum := vs_msgnum (LastViewstamp l) + 1\<rparr>)))"

definition CheckViewNumAndStatus ::
  "'a NOPaxosReplica \<Rightarrow> u64 \<Rightarrow> u64 \<Rightarrow> ('a NOPaxosReplica \<times> bool) result" where
  "CheckViewNumAndStatus s sn vw =
     (if sn < np_sessnum s \<or> vw < np_view s then Inr (s, False)
      else if sn > np_sessnum s \<or> vw > np_view s
      then rbind (StartViewChange_np s sn vw) (\<lambda>s'. Inr (s', False))
      else Inr (s, np_status s \<noteq> STATUS_VIEW_CHANGE))"

text \<open>The guard every handler of normal operation opens with.\<close>

definition in_view ::
  "'a NOPaxosReplica \<Rightarrow> u64 \<Rightarrow> u64 \<Rightarrow> ('a NOPaxosReplica \<Rightarrow> 'a NOPaxosReplica result) \<Rightarrow> 'a NOPaxosReplica result" where
  "in_view s sn vw k = rbind (CheckViewNumAndStatus s sn vw) (\<lambda>(s', ok). if ok then k s' else Inr s')"

section \<open>Client requests\<close>

definition TryProcessClientRequest ::
  "'a AppReplica \<Rightarrow> 'a NOPaxosReplica \<Rightarrow> RequestMessage \<Rightarrow> ('a NOPaxosReplica \<times> bool) result" where
  "TryProcessClientRequest app s msg =
     (let process = (\<lambda>s. rbind (ProcessNextOperation app s (rm_req msg)
             (viewstamp4 (np_view s) (np_lastOp s + 1) (rm_sessnum msg) (rm_msgnum msg)) LOG_STATE_RECEIVED)
             (\<lambda>s'. Inr (s', True)))
      in if np_status s \<noteq> STATUS_NORMAL then Inr (s, False)
         else if rm_sessnum msg < np_sessnum s then Inr (s, True)
         else if rm_sessnum msg > np_sessnum s
         then rbind (StartViewChange_np s (rm_sessnum msg) (np_view s)) (\<lambda>s'. Inr (s', False))
         else if rm_msgnum msg < np_nextMsgnum s then Inr (s, True)
         else if rm_msgnum msg > np_nextMsgnum s
         then (if np_nextMsgnum s = 1 then process (s\<lparr>np_nextMsgnum := rm_msgnum msg\<rparr>)
               else Inr (if \<not> np_gapRequestTimeout s \<and> \<not> np_gapCommitTimeout s
                         then SendGapRequest s else s, False))
         else process s)"

definition AddPendingRequest :: "'a NOPaxosReplica \<Rightarrow> RequestMessage \<Rightarrow> 'a NOPaxosReplica" where
  "AddPendingRequest s msg =
     (if rm_sessnum msg \<ge> np_sessnum s \<and> rm_msgnum msg \<ge> np_nextMsgnum s
      then s\<lparr>np_pendingRequests := np_pendingRequests s @ [msg], np_pendingRequestsSorted := False\<rparr> else s)"

definition ComparePendingRequests :: "RequestMessage \<Rightarrow> RequestMessage \<Rightarrow> bool" where
  "ComparePendingRequests a b =
     (if rm_sessnum a \<noteq> rm_sessnum b then rm_sessnum a < rm_sessnum b else rm_msgnum a < rm_msgnum b)"

text \<open>\<^verbatim>\<open>std::list::sort\<close> is stable; the key is the pair the comparator orders lexicographically.\<close>

definition pending_key :: "RequestMessage \<Rightarrow> int" where
  "pending_key m = uint (rm_sessnum m) * 2 ^ 64 + uint (rm_msgnum m)"

primrec process_pending ::
  "'a AppReplica \<Rightarrow> 'a NOPaxosReplica \<Rightarrow> RequestMessage list \<Rightarrow> 'a NOPaxosReplica result" where
  "process_pending app s [] = Inr s"
| "process_pending app s (r # rs) =
     rbind (TryProcessClientRequest app s r) (\<lambda>(s', done).
       if done then process_pending app (s'\<lparr>np_pendingRequests := rs\<rparr>) rs else Inr s')"

definition ProcessPendingRequests :: "'a AppReplica \<Rightarrow> 'a NOPaxosReplica \<Rightarrow> 'a NOPaxosReplica result" where
  "ProcessPendingRequests app s =
     (if np_status s \<noteq> STATUS_NORMAL then Inr s
      else if np_pendingRequests s = [] then Inr s
      else
        let s1 = (if \<not> np_pendingRequestsSorted s
                  then s\<lparr>np_pendingRequests := sort_key pending_key (np_pendingRequests s),
                         np_pendingRequestsSorted := True\<rparr>
                  else s)
        in process_pending app s1 (np_pendingRequests s1))"

section \<open>Handlers\<close>

definition HandleClientRequest ::
  "'a AppReplica \<Rightarrow> 'a NOPaxosReplica \<Rightarrow> RequestMessage \<Rightarrow> 'a NOPaxosReplica result" where
  "HandleClientRequest app s msg =
     check (\<not> (rm_sessnum msg = 0 \<and> rm_msgnum msg = 0)) Panicked
       (rbind (TryProcessClientRequest app s msg) (\<lambda>(s', done).
          Inr (if done then s' else AddPendingRequest s' msg)))"

definition HandleUnloggedRequest_np ::
  "'a AppReplica \<Rightarrow> 'a NOPaxosReplica \<Rightarrow> TransportAddress \<Rightarrow> string \<Rightarrow> 'a NOPaxosReplica result" where
  "HandleUnloggedRequest_np app s remote op =
     (let x = ExecuteUnlogged app (np_app_state s) op
      in Inr (send_np (s\<lparr>np_app_state := fst x\<rparr>) (NToRemote remote) (NOutClient (NUnloggedReply (snd x)))))"

definition HandleGapRequest ::
  "'a NOPaxosReplica \<Rightarrow> TransportAddress \<Rightarrow> u64 \<Rightarrow> u64 \<Rightarrow> u64 \<Rightarrow> 'a NOPaxosReplica result" where
  "HandleGapRequest s0 remote sn vw op =
     in_view s0 sn vw (\<lambda>s.
       let rep = (\<lambda>req found gap. Inr (send_np s (NToRemote remote) (NOutReplica (NGapReply
             \<lparr>gr_view = np_view s, gr_sessnum = np_sessnum s, gr_opnum = op, gr_isfound = found,
              gr_isgap = gap, gr_replicaidx = np_replicaIdx s, gr_req = req\<rparr>))))
       in rbind (Find (np_log s) op) (\<lambda>r. case r of
            Some e \<Rightarrow>
              if le_state e = LOG_STATE_RECEIVED then rep (le_request e) True False
              else if le_state e = LOG_STATE_NOOP then rep empty_Request True True
              else Inl NotReachable
          | None \<Rightarrow>
              if np_gapRequestTimeout s \<and> np_lastOp s + 1 = op then rep empty_Request False False
              else Inr s))"

definition HandleGapReply ::
  "'a AppReplica \<Rightarrow> 'a NOPaxosReplica \<Rightarrow> GapReplyMessage \<Rightarrow> 'a NOPaxosReplica result" where
  "HandleGapReply app s0 msg =
     in_view s0 (gr_sessnum msg) (gr_view msg) (\<lambda>s.
       if gr_opnum msg = np_lastOp s + 1 then
         (if np_status s = STATUS_GAP_COMMIT then check (AmLeader_np s) AssertFailed (Inr s)
          else if gr_isfound msg then
            ProcessNextOperation app s (gr_req msg)
              (viewstamp4 (np_view s) (np_lastOp s + 1) (np_sessnum s) (np_nextMsgnum s))
              (if gr_isgap msg then LOG_STATE_NOOP else LOG_STATE_RECEIVED)
          else if AmLeader_np s then
            (let (q, ms) = AddAndCheckForQuorum (np_gapReplyQuorum s) (np_lastOp s + 1) (gr_replicaidx msg) msg;
                 s1 = s\<lparr>np_gapReplyQuorum := q\<rparr>
             in if ms \<noteq> None then StartGapAgreement app s1 else Inr s1)
          else Inr s)
       else Inr s)"

definition HandleGapCommit ::
  "'a AppReplica \<Rightarrow> 'a NOPaxosReplica \<Rightarrow> TransportAddress \<Rightarrow> u64 \<Rightarrow> u64 \<Rightarrow> u64 \<Rightarrow> 'a NOPaxosReplica result" where
  "HandleGapCommit app s0 remote sn vw op =
     in_view s0 sn vw (\<lambda>s.
       check (\<not> AmLeader_np s) AssertFailed
         (if np_lastOp s + 1 < op
          then Inr (s\<lparr>np_committedGaps := insert op (np_committedGaps s)\<rparr>)
          else
            rbind (if np_lastOp s \<ge> op
                   then rbind (SetStatus (np_log s) op LOG_STATE_NOOP) (\<lambda>(l, _).
                          Inr (s\<lparr>np_committedGaps := insert op (np_committedGaps s), np_log := l\<rparr>))
                   else check (np_lastOp s + 1 = op) AssertFailed
                          (ProcessNextOperation app s empty_Request
                             (viewstamp4 (np_view s) (np_lastOp s + 1) (np_sessnum s) (np_nextMsgnum s))
                             LOG_STATE_NOOP))
              (\<lambda>s1. Inr (send_np s1 (NToRemote remote) (NOutReplica (NGapCommitReply
                 \<lparr>gcr_sessnum = np_sessnum s1, gcr_view = np_view s1, gcr_opnum = op,
                  gcr_replicaidx = np_replicaIdx s1\<rparr>))))))"

definition HandleGapCommitReply ::
  "'a NOPaxosReplica \<Rightarrow> GapCommitReplyMessage \<Rightarrow> 'a NOPaxosReplica result" where
  "HandleGapCommitReply s0 msg =
     in_view s0 (gcr_sessnum msg) (gcr_view msg) (\<lambda>s.
       if np_status s \<noteq> STATUS_GAP_COMMIT \<or> \<not> AmLeader_np s then Inr s
       else if gcr_opnum msg = np_lastOp s then
         (let (q, ms) = AddAndCheckForQuorum (np_gapCommitQuorum s) (gcr_opnum msg) (gcr_replicaidx msg) msg
          in Inr (if ms \<noteq> None
                  then s\<lparr>np_status := STATUS_NORMAL, np_gapCommitQuorum := Clear q, np_gapCommitTimeout := False\<rparr>
                  else s\<lparr>np_gapCommitQuorum := q\<rparr>))
       else Inr s)"

definition HandleStateTransferRequest ::
  "'a NOPaxosReplica \<Rightarrow> TransportAddress \<Rightarrow> u64 \<Rightarrow> u64 \<Rightarrow> u64 \<Rightarrow> u64 \<Rightarrow> 'a NOPaxosReplica result" where
  "HandleStateTransferRequest s remote sn vw b e =
     (if sn \<noteq> np_sessnum s \<or> vw \<noteq> np_view s then Inr s
      else if b > np_lastOp s \<or> e > np_lastOp s + 1 then Inr s
      else rbind (Dump (np_log s) b e) (\<lambda>es.
             Inr (send_np s (NToRemote remote) (NOutReplica (NStateTransferReply
               \<lparr>str_sessnum = np_sessnum s, str_view = np_view s, str_begin = b, str_end = e,
                str_entries = es\<rparr>)))))"

text \<open>The loop of \<^verbatim>\<open>HandleStateTransferReply\<close> counts with a signed 32-bit integer; a negative index is
  outside the message.\<close>

definition transfer_entry :: "'a AppReplica \<Rightarrow> 'a NOPaxosReplica \<Rightarrow> MsgLogEntry \<Rightarrow> 'a NOPaxosReplica result" where
  "transfer_entry app s m =
     check (me_opnum m = np_lastOp s + 1) AssertFailed
       (ProcessNextOperation app s (me_request m)
          (viewstamp4 (me_view m) (me_opnum m) (me_sessnum m) (me_msgnum m)) (me_state m))"

definition first_index :: "u64 \<Rightarrow> int" where
  "first_index x = sint (ucast x :: 32 word)"

definition HandleStateTransferReply ::
  "'a AppReplica \<Rightarrow> 'a NOPaxosReplica \<Rightarrow> StateTransferReplyMessage \<Rightarrow> 'a NOPaxosReplica result" where
  "HandleStateTransferReply app s msg =
     (if str_sessnum msg \<noteq> np_sessnum s \<or> str_view msg \<noteq> np_view s then Inr s
      else if str_end msg - 1 \<le> np_lastOp s then Inr s
      else if str_entries msg = [] then Inl UndefinedBehaviour
      else
        check (me_opnum (hd (str_entries msg)) = str_begin msg) AssertFailed
        (check (me_opnum (last (str_entries msg)) = str_end msg - 1) AssertFailed
          (let i = first_index (np_lastOp s + 1 - str_begin msg)
           in if i < 0 then Inl UndefinedBehaviour
              else fold_r (transfer_entry app) s (drop (nat i) (str_entries msg)))))"

definition HandleViewChangeRequest :: "'a NOPaxosReplica \<Rightarrow> u64 \<Rightarrow> u64 \<Rightarrow> 'a NOPaxosReplica result" where
  "HandleViewChangeRequest s sn vw =
     (if sn > np_sessnum s \<or> vw > np_view s then StartViewChange_np s sn vw else Inr s)"

text \<open>The first loop of \<^verbatim>\<open>HandleViewChange\<close>: the latest normal session and view, each with the
  operation count it resets.\<close>

definition latest_normal ::
  "u64 \<times> u64 \<times> u64 \<Rightarrow> int \<times> ViewChangeMessage \<Rightarrow> u64 \<times> u64 \<times> u64" where
  "latest_normal acc kv =
     (let (ls, lv, lo) = acc; x = snd kv;
          (ls', lo') = (if vc_lastnormalsessnum x > ls then (vc_lastnormalsessnum x, 0) else (ls, lo))
      in if vc_lastnormalview x > lv then (ls', vc_lastnormalview x, 0) else (ls', lv, lo'))"

text \<open>The second loop: gaps of the messages of that session and view are installed, and the replica
  with the longest log is remembered.  Installing a gap may complete a state transfer that is still under way,
  whose callback enters the view and clears the quorum set the loop iterates over: the loop
  then reads a message that has been destroyed.  At the head of the loop the replica is in a view change, so
  that has happened exactly when it no longer is.\<close>

definition merge_message ::
  "'a AppReplica \<Rightarrow> u64 \<Rightarrow> u64 \<Rightarrow> 'a NOPaxosReplica \<times> u64 \<times> int \<Rightarrow> int \<times> ViewChangeMessage \<Rightarrow>
   ('a NOPaxosReplica \<times> u64 \<times> int) result" where
  "merge_message app ls lv acc kv =
     (let (s, latestOp, idx) = acc; x = snd kv in
      check (vc_lastnormalsessnum x \<le> ls) AssertFailed
      (check (vc_lastnormalview x \<le> lv) AssertFailed
        (if vc_lastnormalsessnum x = ls \<and> vc_lastnormalview x = lv
         then rbind (InstallCommittedGaps app s (vc_committedgaps x)) (\<lambda>s'.
                check (np_status s' = STATUS_VIEW_CHANGE) UndefinedBehaviour
                  (Inr (if vc_lastop x > latestOp then (s', vc_lastop x, vc_replicaidx x) else (s', latestOp, idx))))
         else Inr (s, latestOp, idx))))"

definition request_transfer :: "'a NOPaxosReplica \<Rightarrow> u64 \<Rightarrow> int \<Rightarrow> transfer_callback \<Rightarrow> 'a NOPaxosReplica" where
  "request_transfer s lastop idx cb =
     s\<lparr>np_stateTransferOpBegin := np_lastOp s + 1, np_stateTransferOpEnd := lastop + 1,
       np_stateTransferReplicaIdx := idx, np_stateTransferCallback := cb\<rparr>"

definition merge_logs ::
  "'a AppReplica \<Rightarrow> 'a NOPaxosReplica \<Rightarrow> (int \<times> ViewChangeMessage) list \<Rightarrow> 'a NOPaxosReplica result" where
  "merge_logs app s ms =
     (let (ls, lv, lo) = foldl latest_normal (np_lastNormalSessnum s, np_lastNormalView s, np_lastOp s) ms in
      rbind (if np_lastNormalSessnum s < ls \<or> np_lastNormalView s < lv
             then rbind (RewindLogToOpnum s (np_lastCommittedOp s)) (\<lambda>s'. Inr (s'\<lparr>np_committedGaps := {}\<rparr>))
             else Inr s) (\<lambda>s1.
      rbind (fold_r (merge_message app ls lv) (s1, lo, - 1) ms) (\<lambda>(s2, latestOp, idx).
        check (np_committedGaps s2 = {} \<or> Max (np_committedGaps s2) \<le> latestOp) AssertFailed
          (let s3 = s2\<lparr>np_startViewLastNormalSessnum := ls, np_startViewLastNormalView := lv,
                       np_startViewLastOp := latestOp, np_startViewCommittedGaps := np_committedGaps s2\<rparr>
           in if idx \<noteq> - 1
              then check (latestOp > np_lastOp s3) AssertFailed
                     (Inr (SendStateTransferRequest (request_transfer s3 latestOp idx EnterViewCallback)))
              else check (latestOp = np_lastOp s3) AssertFailed
                     (EnterView_np app s3 (np_sessnum s3) (np_view s3))))))"

definition HandleViewChange ::
  "'a AppReplica \<Rightarrow> 'a NOPaxosReplica \<Rightarrow> TransportAddress \<Rightarrow> ViewChangeMessage \<Rightarrow> 'a NOPaxosReplica result" where
  "HandleViewChange app s0 remote msg =
     rbind (if vc_sessnum msg > np_sessnum s0 \<or> vc_view msg > np_view s0
            then StartViewChange_np s0 (vc_sessnum msg) (vc_view msg) else Inr s0) (\<lambda>s.
       if vc_sessnum msg < np_sessnum s \<or> vc_view msg < np_view s then Inr s
       else
         check (vc_sessnum msg = np_sessnum s \<and> vc_view msg = np_view s) AssertFailed
         (check (AmLeader_np s) AssertFailed
           (if np_status s \<noteq> STATUS_VIEW_CHANGE
            then Inr (send_np s (NToRemote remote) (NOutReplica (start_view_message s)))
            else
              let (q, msgs) = AddAndCheckForQuorum (np_viewChangeQuorum s) (vc_sessnum msg, vc_view msg)
                                (vc_replicaidx msg) msg;
                  s1 = s\<lparr>np_viewChangeQuorum := q\<rparr>
              in case msgs of None \<Rightarrow> Inr s1 | Some ms \<Rightarrow> merge_logs app s1 ms)))"

text \<open>The two rewinds of \<^verbatim>\<open>HandleStartView\<close>.\<close>

definition rewind_for_view :: "'a NOPaxosReplica \<Rightarrow> StartViewMessage_np \<Rightarrow> 'a NOPaxosReplica result" where
  "rewind_for_view s msg =
     (if np_lastNormalSessnum s < nsv_lastnormalsessnum msg \<or> np_lastNormalView s < nsv_lastnormalview msg
      then RewindLogToOpnum s (np_lastCommittedOp s)
      else
        check (np_lastNormalSessnum s = nsv_lastnormalsessnum msg) AssertFailed
        (check (np_lastNormalView s = nsv_lastnormalview msg) AssertFailed
          (if np_lastOp s > nsv_lastop msg then RewindLogToOpnum s (nsv_lastop msg) else Inr s)))"

definition rewind_last_gap :: "'a NOPaxosReplica \<Rightarrow> StartViewMessage_np \<Rightarrow> 'a NOPaxosReplica result" where
  "rewind_last_gap s msg =
     (if np_lastNormalSessnum s = nsv_lastnormalsessnum msg \<and> np_lastNormalView s = nsv_lastnormalview msg \<and>
         np_committedGaps s \<noteq> {} \<and> nsv_committedgaps msg \<noteq> [] \<and>
         last (nsv_committedgaps msg) < Max (np_committedGaps s)
      then RewindLogToOpnum s (Max (np_committedGaps s) - 1) else Inr s)"

definition HandleStartView_np ::
  "'a AppReplica \<Rightarrow> 'a NOPaxosReplica \<Rightarrow> StartViewMessage_np \<Rightarrow> 'a NOPaxosReplica result" where
  "HandleStartView_np app s msg =
     (if nsv_sessnum msg < np_sessnum s \<or> nsv_view msg < np_view s then Inr s
      else if nsv_sessnum msg = np_sessnum s \<and> nsv_view msg = np_view s \<and> np_status s \<noteq> STATUS_VIEW_CHANGE
      then SendStartViewReply s
      else
        check (GetLeaderIndex (np_configuration s) (nsv_view msg) \<noteq> np_replicaIdx s) AssertFailed
          (rbind (rewind_for_view s msg) (\<lambda>s1.
           rbind (rewind_last_gap s1 msg) (\<lambda>s2.
           rbind (InstallCommittedGaps app (s2\<lparr>np_committedGaps := {}\<rparr>) (nsv_committedgaps msg)) (\<lambda>s3.
             if np_lastOp s3 < nsv_lastop msg
             then let s4 = ClearTimeoutAndQuorums (s3\<lparr>np_sessnum := nsv_sessnum msg, np_view := nsv_view msg,
                             np_status := STATUS_VIEW_CHANGE\<rparr>)
                  in Inr (SendStateTransferRequest (request_transfer s4 (nsv_lastop msg)
                       (GetLeaderIndex (np_configuration s4) (nsv_view msg)) EnterViewCallback))
             else EnterView_np app s3 (nsv_sessnum msg) (nsv_view msg))))))"

definition HandleStartViewReply ::
  "'a AppReplica \<Rightarrow> 'a NOPaxosReplica \<Rightarrow> StartViewReplyMessage \<Rightarrow> 'a NOPaxosReplica result" where
  "HandleStartViewReply app s msg =
     (if svr_sessnum msg \<noteq> np_sessnum s \<or> svr_view msg \<noteq> np_view s then Inr s
      else
        check (np_status s = STATUS_NORMAL) AssertFailed
        (check (AmLeader_np s) AssertFailed
          (if np_startViewTimeout s then
             (let (q, ms) = AddAndCheckForQuorum (np_startViewQuorum s) (svr_sessnum msg, svr_view msg)
                              (svr_replicaidx msg) msg;
                  s1 = s\<lparr>np_startViewQuorum := q\<rparr>
              in if ms \<noteq> None
                 then rbind (CommitUptoOp app s1 (np_startViewLastOp s1)) (\<lambda>s2.
                        Inr (s2\<lparr>np_startViewTimeout := False, np_startViewQuorum := Clear (np_startViewQuorum s2)\<rparr>))
                 else Inr s1)
           else Inr s)))"

definition HandleSyncPrepare ::
  "'a AppReplica \<Rightarrow> 'a NOPaxosReplica \<Rightarrow> SyncPrepareMessage \<Rightarrow> 'a NOPaxosReplica result" where
  "HandleSyncPrepare app s00 msg =
     in_view s00 (sp_sessnum msg) (sp_view msg) (\<lambda>s0.
       let s = s0\<lparr>np_leaderSyncHeardTimeout := True\<rparr> in
       if np_lastCommittedOp s \<ge> sp_lastop msg then Inr s
       else
         check (np_sessnum s = sp_sessnum msg \<and> np_view s = sp_view msg) AssertFailed
         (check (\<not> AmLeader_np s) AssertFailed
           (rbind (InstallCommittedGaps app (s\<lparr>np_receivedSyncPreparePoints :=
                      insert (sp_lastop msg) (np_receivedSyncPreparePoints s)\<rparr>) (sp_committedgaps msg)) (\<lambda>s1.
              if np_lastOp s1 < sp_lastop msg then
                let s2 = request_transfer s1 (sp_lastop msg) (GetLeaderIndex (np_configuration s1) (sp_view msg))
                           (SyncPrepareCallback (sp_lastop msg))
                in Inr (if sp_lastop msg - np_lastOp s2 \<le> MAX_SYNC_TRANSFER_OPS
                        then SendStateTransferRequest s2 else s2)
              else ProcessSyncPrepare app s1 (sp_lastop msg)))))"

definition HandleSyncPrepareReply ::
  "'a AppReplica \<Rightarrow> 'a NOPaxosReplica \<Rightarrow> SyncPrepareReplyMessage \<Rightarrow> 'a NOPaxosReplica result" where
  "HandleSyncPrepareReply app s0 msg =
     in_view s0 (spr_sessnum msg) (spr_view msg) (\<lambda>s.
       check (AmLeader_np s) AssertFailed
         (if np_lastCommittedOp s \<ge> spr_syncpoint msg then Inr s
          else if spr_syncpoint msg \<noteq> np_leaderLastSyncPreparePoint s then Inr s
          else
            let (q, ms) = AddAndCheckForQuorum (np_syncPrepareQuorum s) (spr_syncpoint msg) (spr_replicaidx msg) msg;
                s1 = s\<lparr>np_syncPrepareQuorum := q\<rparr>
            in if ms \<noteq> None then CommitUptoOp app s1 (spr_syncpoint msg) else Inr s1))"

definition HandleSyncCommit ::
  "'a AppReplica \<Rightarrow> 'a NOPaxosReplica \<Rightarrow> u64 \<Rightarrow> u64 \<Rightarrow> u64 \<Rightarrow> 'a NOPaxosReplica result" where
  "HandleSyncCommit app s0 sn vw syncpoint =
     in_view s0 sn vw (\<lambda>s.
       check (\<not> AmLeader_np s) AssertFailed
         (if np_lastCommittedOp s \<ge> syncpoint then Inr s
          else
            check (np_sessnum s = sn \<and> np_view s = vw) AssertFailed
              (let s1 = s\<lparr>np_receivedSyncCommitPoints := insert syncpoint (np_receivedSyncCommitPoints s)\<rparr>
               in if syncpoint \<in> np_receivedSyncPreparePoints s1 then
                    (if np_lastOp s1 \<ge> syncpoint
                     then rbind (CommitUptoOp app s1 syncpoint) (\<lambda>s2.
                            Inr (s2\<lparr>np_receivedSyncPreparePoints := np_receivedSyncPreparePoints s2 - {syncpoint},
                                    np_receivedSyncCommitPoints := np_receivedSyncCommitPoints s2 - {syncpoint}\<rparr>))
                     else Inr s1)
                  else Inr (to_leader s1 (NSyncPrepareRequest (np_sessnum s1) (np_view s1))))))"

definition HandleSyncPrepareRequest ::
  "'a NOPaxosReplica \<Rightarrow> TransportAddress \<Rightarrow> u64 \<Rightarrow> u64 \<Rightarrow> 'a NOPaxosReplica result" where
  "HandleSyncPrepareRequest s0 remote sn vw =
     in_view s0 sn vw (\<lambda>s.
       check (AmLeader_np s) AssertFailed
         (let s1 = send_np s (NToRemote remote) (NOutReplica (NSyncPrepare
                \<lparr>sp_sessnum = np_sessnum s, sp_view = np_view s, sp_lastop = np_leaderLastSyncPreparePoint s,
                 sp_committedgaps = sorted_list_of_set (np_leaderLastSyncCommittedGaps s)\<rparr>))
          in Inr (if np_lastCommittedOp s1 \<ge> np_leaderLastSyncPreparePoint s1
                  then send_np s1 (NToRemote remote) (NOutReplica (NSyncCommit (np_sessnum s1) (np_view s1)
                         (np_leaderLastSyncPreparePoint s1)))
                  else s1)))"

section \<open>Dispatch, timeouts and construction\<close>

definition dispatch_np ::
  "'a AppReplica \<Rightarrow> 'a NOPaxosReplica \<Rightarrow> TransportAddress \<Rightarrow> ToReplicaMessage_np \<Rightarrow> 'a NOPaxosReplica result" where
  "dispatch_np app s remote m =
     (case m of
        NRequest r \<Rightarrow> HandleClientRequest app s r
      | NUnloggedRequest op \<Rightarrow> HandleUnloggedRequest_np app s remote op
      | NGapRequest sn vw op \<Rightarrow> HandleGapRequest s remote sn vw op
      | NGapReply g \<Rightarrow> HandleGapReply app s g
      | NStateTransferRequest sn vw b e \<Rightarrow> HandleStateTransferRequest s remote sn vw b e
      | NStateTransferReply r \<Rightarrow> HandleStateTransferReply app s r
      | NGapCommit sn vw op \<Rightarrow> HandleGapCommit app s remote sn vw op
      | NGapCommitReply g \<Rightarrow> HandleGapCommitReply s g
      | NViewChangeRequest sn vw \<Rightarrow> HandleViewChangeRequest s sn vw
      | NViewChange x \<Rightarrow> HandleViewChange app s remote x
      | NStartView x \<Rightarrow> HandleStartView_np app s x
      | NStartViewReply x \<Rightarrow> HandleStartViewReply app s x
      | NSyncPrepareRequest sn vw \<Rightarrow> HandleSyncPrepareRequest s remote sn vw
      | NSyncPrepare x \<Rightarrow> HandleSyncPrepare app s x
      | NSyncPrepareReply x \<Rightarrow> HandleSyncPrepareReply app s x
      | NSyncCommit sn vw p \<Rightarrow> HandleSyncCommit app s sn vw p
      | NNotSet \<Rightarrow> Inl Panicked)"

definition ReceiveMessage_np ::
  "'a AppReplica \<Rightarrow> 'a NOPaxosReplica \<Rightarrow> TransportAddress \<Rightarrow> ToReplicaMessage_np \<Rightarrow> 'a NOPaxosReplica result" where
  "ReceiveMessage_np app s remote m = rbind (dispatch_np app s remote m) (ProcessPendingRequests app)"

datatype NPTimeout =
    GapRequestTimeout
  | GapCommitTimeout
  | ViewChangeTimeout_np
  | StateTransferTimeout_np
  | StartViewTimeout
  | SyncTimeout
  | LeaderSyncHeardTimeout

definition HandleTimeout_np :: "'a AppReplica \<Rightarrow> 'a NOPaxosReplica \<Rightarrow> NPTimeout \<Rightarrow> 'a NOPaxosReplica result" where
  "HandleTimeout_np app s t =
     (case t of
        GapRequestTimeout \<Rightarrow>
          if np_gapRequestTimeout s
          then (if AmLeader_np s then StartGapAgreement app s else Inr (SendGapRequest s)) else Inr s
      | GapCommitTimeout \<Rightarrow> if np_gapCommitTimeout s then SendGapCommit s else Inr s
      | ViewChangeTimeout_np \<Rightarrow> if np_viewChangeTimeout s then Inr (SendViewChange s) else Inr s
      | StateTransferTimeout_np \<Rightarrow>
          if np_stateTransferTimeout s then Inr (SendStateTransferRequest s) else Inr s
      | StartViewTimeout \<Rightarrow> if np_startViewTimeout s then SendStartView s else Inr s
      | SyncTimeout \<Rightarrow> if np_syncTimeout s then SendSyncPrepare s else Inr s
      | LeaderSyncHeardTimeout \<Rightarrow>
          if np_leaderSyncHeardTimeout s
          then StartViewChange_np s (np_sessnum s) (np_view s + 1) else Inr s)"

definition NOPaxosReplica_new :: "Configuration \<Rightarrow> int \<Rightarrow> 'a \<Rightarrow> 'a NOPaxosReplica result" where
  "NOPaxosReplica_new c idx a =
     rbind (Log_new False 1 EMPTY_HASH) (\<lambda>l.
       let s = \<lparr>np_configuration = c, np_replicaIdx = idx, np_log = l, np_status = STATUS_NORMAL,
                np_view = 0, np_sessnum = 0, np_lastOp = 0, np_nextMsgnum = 1, np_lastNormalView = 0,
                np_lastNormalSessnum = 0, np_lastCommittedOp = 0, np_lastExecutedOp = 0,
                np_clientTable = (\<lambda>_. None), np_pendingRequests = [], np_pendingRequestsSorted = False,
                np_gapReplyQuorum = QuorumSet_new (cfg_n c - 1),
                np_gapCommitQuorum = QuorumSet_new (QuorumSize c - 1),
                np_viewChangeQuorum = QuorumSet_new (QuorumSize c - 1),
                np_startViewQuorum = QuorumSet_new (QuorumSize c - 1),
                np_syncPrepareQuorum = QuorumSet_new (QuorumSize c - 1),
                np_committedGaps = {}, np_gapRequestTimeout = False, np_gapCommitTimeout = False,
                np_viewChangeTimeout = False, np_stateTransferTimeout = False, np_startViewTimeout = False,
                np_syncTimeout = False, np_leaderSyncHeardTimeout = False, np_stateTransferOpBegin = 0,
                np_stateTransferOpEnd = 0, np_stateTransferReplicaIdx = 0, np_stateTransferCallback = NoCallback,
                np_startViewLastNormalSessnum = 0, np_startViewLastNormalView = 0, np_startViewLastOp = 0,
                np_startViewCommittedGaps = {}, np_leaderLastSyncPreparePoint = 0,
                np_leaderLastSyncCommittedGaps = {}, np_receivedSyncPreparePoints = {},
                np_receivedSyncCommitPoints = {}, np_app_state = a, np_outbox = []\<rparr>
       in Inr (if AmLeader_np s then s\<lparr>np_syncTimeout := True\<rparr> else s\<lparr>np_leaderSyncHeardTimeout := True\<rparr>))"

datatype np_event = NDeliver TransportAddress ToReplicaMessage_np | NFire NPTimeout

definition np_step :: "'a AppReplica \<Rightarrow> 'a NOPaxosReplica \<Rightarrow> np_event \<Rightarrow> 'a NOPaxosReplica result" where
  "np_step app s ev =
     (case ev of NDeliver remote m \<Rightarrow> ReceiveMessage_np app s remote m | NFire t \<Rightarrow> HandleTimeout_np app s t)"

end
