(* ===== verification/NOPaxosInvariant.thy ===== *)
theory NOPaxosInvariant
  imports NOPaxosReplica
begin

text \<open>
  What the NOPaxos replica keeps.  \<open>np_core\<close> ties the counters and the set of committed gaps to the
  log; \<open>np_grows\<close> says what never goes back: the session, the view, the last operation, the execution and
  commit points and the client table, and that the log only grows at its end, an entry already there
  changing at most from a received request into a no-op.  Each operation of the replica is shown to keep
  the first and to respect the second; the one exception is \<^verbatim>\<open>RewindLogToOpnum\<close>, whose effect is
  studied in \<open>NOPaxosProperties\<close>.
\<close>

section \<open>Invariant and progress\<close>

definition settled :: "LogEntryState \<Rightarrow> bool" where
  "settled st \<longleftrightarrow> st = LOG_STATE_RECEIVED \<or> st = LOG_STATE_NOOP"

definition log_core :: "Log \<Rightarrow> u64 set \<Rightarrow> bool" where
  "log_core l gaps \<longleftrightarrow>
     log_wf l \<and> start l = 1 \<and> \<not> useHash l \<and>
     (\<forall>i e. log_at l i = Some e \<longrightarrow> settled (le_state e) \<and> (i \<in> gaps \<longrightarrow> le_state e = LOG_STATE_NOOP))"

definition np_core :: "'a NOPaxosReplica \<Rightarrow> bool" where
  "np_core s \<longleftrightarrow>
     log_core (np_log s) (np_committedGaps s) \<and> LastOpnum (np_log s) = np_lastOp s \<and>
     np_lastExecutedOp s \<le> np_lastOp s \<and> np_lastCommittedOp s \<le> np_lastOp s"

definition same_op :: "LogEntry \<Rightarrow> LogEntry \<Rightarrow> bool" where
  "same_op e e' \<longleftrightarrow>
     le_viewstamp e' = le_viewstamp e \<and> le_request e' = le_request e \<and>
     (le_state e' = le_state e \<or> le_state e' = LOG_STATE_NOOP)"

definition log_grows :: "Log \<Rightarrow> Log \<Rightarrow> bool" where
  "log_grows l l' \<longleftrightarrow>
     (\<forall>i e. log_at l i = Some e \<longrightarrow> (\<exists>e'. log_at l' i = Some e' \<and> same_op e e'))"

definition table_grows :: "(u64 \<Rightarrow> ClientTableEntry_np option) \<Rightarrow> (u64 \<Rightarrow> ClientTableEntry_np option) \<Rightarrow> bool" where
  "table_grows t t' \<longleftrightarrow>
     (\<forall>c e. t c = Some e \<longrightarrow> (\<exists>e'. t' c = Some e' \<and> nct_lastReqId e \<le> nct_lastReqId e'))"

definition np_grows :: "'a NOPaxosReplica \<Rightarrow> 'a NOPaxosReplica \<Rightarrow> bool" where
  "np_grows s s' \<longleftrightarrow>
     np_configuration s' = np_configuration s \<and> np_replicaIdx s' = np_replicaIdx s \<and>
     np_sessnum s \<le> np_sessnum s' \<and> np_view s \<le> np_view s' \<and> np_lastOp s \<le> np_lastOp s' \<and>
     np_lastExecutedOp s \<le> np_lastExecutedOp s' \<and> np_lastCommittedOp s \<le> np_lastCommittedOp s' \<and>
     log_grows (np_log s) (np_log s') \<and> table_grows (np_clientTable s) (np_clientTable s')"

lemma same_op_refl [simp]: "same_op e e"
  by (simp add: same_op_def)

lemma log_grows_refl [simp]: "log_grows l l"
  by (auto simp: log_grows_def)

lemma table_grows_refl [simp]: "table_grows t t"
  by (auto simp: table_grows_def)

lemma np_grows_refl [simp]: "np_grows s s"
  by (simp add: np_grows_def)

lemma same_op_trans: "\<lbrakk> same_op a b; same_op b c \<rbrakk> \<Longrightarrow> same_op a c"
  by (auto simp: same_op_def)

lemma log_grows_trans: "\<lbrakk> log_grows a b; log_grows b c \<rbrakk> \<Longrightarrow> log_grows a c"
  unfolding log_grows_def using same_op_trans by meson

lemma table_grows_trans: "\<lbrakk> table_grows a b; table_grows b c \<rbrakk> \<Longrightarrow> table_grows a c"
  unfolding table_grows_def by (meson order_trans)

lemma np_grows_trans: "\<lbrakk> np_grows s t; np_grows t u \<rbrakk> \<Longrightarrow> np_grows s u"
  unfolding np_grows_def by (auto intro: log_grows_trans table_grows_trans order_trans)

text \<open>An advance keeps the invariant and makes progress.\<close>

definition advances :: "'a NOPaxosReplica \<Rightarrow> 'a NOPaxosReplica \<Rightarrow> bool" where
  "advances s s' \<longleftrightarrow> (np_core s \<longrightarrow> np_core s' \<and> np_grows s s')"

lemma advances_refl [simp]: "advances s s"
  by (simp add: advances_def)

lemma advances_trans [trans]: "\<lbrakk> advances s t; advances t u \<rbrakk> \<Longrightarrow> advances s u"
  unfolding advances_def using np_grows_trans by blast

lemma np_coreD:
  assumes "np_core s"
  shows "log_wf (np_log s)" "start (np_log s) = 1" "\<not> useHash (np_log s)" "LastOpnum (np_log s) = np_lastOp s"
    "np_lastExecutedOp s \<le> np_lastOp s" "np_lastCommittedOp s \<le> np_lastOp s"
  using assms by (simp_all add: np_core_def log_core_def)

text \<open>Changes to the fields below leave the invariant alone.\<close>

definition bookkeeping :: "'a NOPaxosReplica \<Rightarrow> 'a NOPaxosReplica \<Rightarrow> bool" where
  "bookkeeping s s' \<longleftrightarrow>
     np_configuration s' = np_configuration s \<and> np_replicaIdx s' = np_replicaIdx s \<and>
     np_sessnum s \<le> np_sessnum s' \<and> np_view s \<le> np_view s' \<and> np_lastOp s' = np_lastOp s \<and>
     np_lastExecutedOp s' = np_lastExecutedOp s \<and> np_lastCommittedOp s' = np_lastCommittedOp s \<and>
     np_log s' = np_log s \<and> np_clientTable s' = np_clientTable s \<and>
     np_committedGaps s' \<subseteq> np_committedGaps s"

lemma bookkeeping_advances: "bookkeeping s s' \<Longrightarrow> advances s s'"
  by (auto simp: bookkeeping_def advances_def np_core_def np_grows_def log_core_def)

lemma bookkeeping_send [simp]:
  "bookkeeping s (send_np s d m)" "bookkeeping s (to_leader s r)" "bookkeeping s (SendGapRequest s)"
  "bookkeeping s (SendStateTransferRequest s)"
  by (simp_all add: bookkeeping_def send_np_def to_leader_def SendGapRequest_def SendStateTransferRequest_def Let_def)

lemma bookkeeping_SendViewChange [simp]: "bookkeeping s (SendViewChange s)"
  by (simp add: bookkeeping_def send_np_def to_leader_def SendViewChange_def Let_def)

lemma SendGapCommit_advances: "SendGapCommit s = Inr s' \<Longrightarrow> advances s s'"
  by (intro bookkeeping_advances) (auto simp: bookkeeping_def SendGapCommit_def send_np_def)

lemma SendStartView_advances: "SendStartView s = Inr s' \<Longrightarrow> advances s s'"
  by (intro bookkeeping_advances) (auto simp: bookkeeping_def SendStartView_def send_np_def)

lemma SendStartViewReply_advances: "SendStartViewReply s = Inr s' \<Longrightarrow> advances s s'"
  by (intro bookkeeping_advances) (auto simp: bookkeeping_def SendStartViewReply_def to_leader_def send_np_def)

lemma SendSyncPrepare_advances: "SendSyncPrepare s = Inr s' \<Longrightarrow> advances s s'"
  by (intro bookkeeping_advances) (auto simp: bookkeeping_def SendSyncPrepare_def Let_def send_np_def)

lemma SendSyncCommit_advances: "SendSyncCommit s = Inr s' \<Longrightarrow> advances s s'"
  by (intro bookkeeping_advances) (auto simp: bookkeeping_def SendSyncCommit_def send_np_def)

lemma ClearTimeoutAndQuorums_advances: "advances s (ClearTimeoutAndQuorums s)"
  by (intro bookkeeping_advances) (simp add: bookkeeping_def ClearTimeoutAndQuorums_def)

section \<open>Execution\<close>

text \<open>The reference for execution: an operation runs when its entry holds a request newer than the last
  one recorded for its client, and is then recorded.\<close>

definition last_reqs :: "'a NOPaxosReplica \<Rightarrow> u64 \<Rightarrow> u64 option" where
  "last_reqs s c = map_option nct_lastReqId (np_clientTable s c)"

definition fresh :: "(u64 \<Rightarrow> u64 option) \<Rightarrow> Request \<Rightarrow> bool" where
  "fresh t req \<longleftrightarrow> (case t (req_clientid req) of None \<Rightarrow> True | Some k \<Rightarrow> k < req_clientreqid req)"

definition exec_ref ::
  "'a AppReplica \<Rightarrow> Log \<Rightarrow> 'a \<times> (u64 \<Rightarrow> u64 option) \<Rightarrow> u64 \<Rightarrow> 'a \<times> (u64 \<Rightarrow> u64 option)" where
  "exec_ref ap l at op =
     (case log_at l op of
        None \<Rightarrow> at
      | Some e \<Rightarrow>
          if le_state e = LOG_STATE_RECEIVED \<and> fresh (snd at) (le_request e)
          then (fst (Execute ap (fst at) op (le_request e) None),
                (snd at)(req_clientid (le_request e) \<mapsto> req_clientreqid (le_request e)))
          else at)"

lemma fresh_iff: "fresh (last_reqs s) req \<longleftrightarrow> \<not> stale_request s req \<and> \<not> duplicate_request s req"
  by (auto simp: fresh_def last_reqs_def stale_request_def duplicate_request_def split: option.splits)

lemma respond_client_fields [simp]:
  "np_app_state (respond_client s op e r) = np_app_state s"
  "np_clientTable (respond_client s op e r) = np_clientTable s"
  "np_lastExecutedOp (respond_client s op e r) = np_lastExecutedOp s"
  by (simp_all add: respond_client_def send_np_def)

lemma UpdateClientTable_np_spec:
  assumes "fresh (last_reqs s) req"
  shows "\<exists>s'. UpdateClientTable_np s req r = Inr s' \<and>
     last_reqs s' = (last_reqs s)(req_clientid req \<mapsto> req_clientreqid req) \<and>
     table_grows (np_clientTable s) (np_clientTable s') \<and> np_app_state s' = np_app_state s \<and>
     np_lastExecutedOp s' = np_lastExecutedOp s"
proof (cases "np_clientTable s (req_clientid req)")
  case None
  then show ?thesis
    by (auto simp: UpdateClientTable_np_def Let_def client_entry_np_def last_reqs_def fun_eq_iff table_grows_def)
next
  case (Some e)
  then have "nct_lastReqId e < req_clientreqid req" using assms by (simp add: fresh_def last_reqs_def)
  then show ?thesis
    using Some
    by (auto simp: UpdateClientTable_np_def Let_def client_entry_np_def last_reqs_def fun_eq_iff table_grows_def)
qed

lemma execute_entry_spec:
  "\<exists>s'. execute_entry ap s op e = Inr s' \<and>
     (np_app_state s', last_reqs s') =
       (if fresh (last_reqs s) (le_request e)
        then (fst (Execute ap (np_app_state s) op (le_request e) None),
              (last_reqs s)(req_clientid (le_request e) \<mapsto> req_clientreqid (le_request e)))
        else (np_app_state s, last_reqs s)) \<and>
     table_grows (np_clientTable s) (np_clientTable s') \<and> np_lastExecutedOp s' = np_lastExecutedOp s"
proof (cases "fresh (last_reqs s) (le_request e)")
  case True
  let ?x = "Execute ap (np_app_state s) op (le_request e) None"
  let ?s = "s\<lparr>np_app_state := fst ?x\<rparr>"
  have lr: "last_reqs ?s = last_reqs s" by (simp add: last_reqs_def fun_eq_iff)
  then have "fresh (last_reqs ?s) (le_request e)" using True by simp
  from UpdateClientTable_np_spec [OF this, of "ReplyMessage_np_empty\<lparr>nrep_reply := Some (snd ?x)\<rparr>"]
  obtain u where u: "UpdateClientTable_np ?s (le_request e) (ReplyMessage_np_empty\<lparr>nrep_reply := Some (snd ?x)\<rparr>) = Inr u"
    "last_reqs u = (last_reqs s)(req_clientid (le_request e) \<mapsto> req_clientreqid (le_request e))"
    "table_grows (np_clientTable s) (np_clientTable u)" "np_app_state u = fst ?x"
    "np_lastExecutedOp u = np_lastExecutedOp s"
    unfolding lr by (elim exE conjE) simp
  show ?thesis
    using True u by (auto simp: execute_entry_def Let_def fresh_iff last_reqs_def fun_eq_iff)
next
  case False
  then show ?thesis
    by (auto simp: execute_entry_def Let_def fresh_iff last_reqs_def fun_eq_iff)
qed

lemma execute_op_spec:
  assumes core: "np_core s" and op: "1 \<le> op" "op \<le> np_lastOp s"
  shows "\<exists>s'. execute_op ap s op = Inr s' \<and> exec_frame s s' \<and> np_lastExecutedOp s' = op \<and>
     (np_app_state s', last_reqs s') = exec_ref ap (np_log s) (np_app_state s, last_reqs s) op \<and>
     table_grows (np_clientTable s) (np_clientTable s')"
proof -
  note C = np_coreD [OF core]
  obtain e where e: "log_at (np_log s) op = Some e"
    using code_log.dom [OF C(1), of op] op C(2,4) by auto
  have opn: "vs_opnum (le_viewstamp e) = op" using log_at_opnum [OF C(1) e] .
  have lr: "last_reqs (s\<lparr>np_lastExecutedOp := op\<rparr>) = last_reqs s" by (simp add: last_reqs_def fun_eq_iff)
  have "\<exists>s'. execute_op ap s op = Inr s' \<and> np_lastExecutedOp s' = op \<and>
     (np_app_state s', last_reqs s') = exec_ref ap (np_log s) (np_app_state s, last_reqs s) op \<and>
     table_grows (np_clientTable s) (np_clientTable s')"
    using execute_entry_spec [of ap "s\<lparr>np_lastExecutedOp := op\<rparr>" op e] e opn op(2) lr
    by (auto simp: execute_op_def Let_def Find_eq [OF C(1)] exec_ref_def)
  then show ?thesis using execute_op_frame by blast
qed

lemma exec_frame_core:
  assumes "exec_frame s s'" and "np_core s" and "np_lastExecutedOp s' \<le> np_lastOp s"
  shows "np_core s'"
  using assms(2,3) by (simp add: np_core_def exec_frameD [OF assms(1)])

lemma exec_frame_grows:
  assumes "exec_frame s s'" and "np_lastExecutedOp s \<le> np_lastExecutedOp s'"
    and "table_grows (np_clientTable s) (np_clientTable s')"
  shows "np_grows s s'"
  using assms(2,3) by (simp add: np_grows_def exec_frameD [OF assms(1)])

lemma execute_ops_spec:
  assumes "np_core s" and "\<forall>op\<in>set ops. 1 \<le> op \<and> op \<le> np_lastOp s"
  shows "\<exists>s'. fold_r (execute_op ap) s ops = Inr s' \<and> exec_frame s s' \<and>
     np_lastExecutedOp s' = (if ops = [] then np_lastExecutedOp s else last ops) \<and>
     (np_app_state s', last_reqs s') = foldl (exec_ref ap (np_log s)) (np_app_state s, last_reqs s) ops \<and>
     table_grows (np_clientTable s) (np_clientTable s')"
  using assms
proof (induction ops arbitrary: s)
  case Nil
  then show ?case by (simp add: exec_frame_refl)
next
  case (Cons op ops)
  from Cons.prems obtain t where t: "execute_op ap s op = Inr t" "exec_frame s t" "np_lastExecutedOp t = op"
    "(np_app_state t, last_reqs t) = exec_ref ap (np_log s) (np_app_state s, last_reqs s) op"
    "table_grows (np_clientTable s) (np_clientTable t)"
    using execute_op_spec [of s op ap] by auto
  have core: "np_core t" using exec_frame_core [OF t(2)] Cons.prems t(3) by simp
  have "\<forall>op\<in>set ops. 1 \<le> op \<and> op \<le> np_lastOp t" using Cons.prems(2) exec_frameD(1) [OF t(2)] by simp
  from Cons.IH [OF core this] obtain u where
    u: "fold_r (execute_op ap) t ops = Inr u" "exec_frame t u"
      "np_lastExecutedOp u = (if ops = [] then np_lastExecutedOp t else last ops)"
      "(np_app_state u, last_reqs u) = foldl (exec_ref ap (np_log t)) (np_app_state t, last_reqs t) ops"
      "table_grows (np_clientTable t) (np_clientTable u)"
    by (elim exE conjE) simp
  have "exec_frame s u" "table_grows (np_clientTable s) (np_clientTable u)"
    using t(2,5) u(2,5) by (blast intro: exec_frame_trans table_grows_trans)+
  then show ?case
    using t u exec_frameD(2) [OF t(2)] by (intro exI [of _ u]) simp
qed

lemma last_op_range:
  assumes "a < b"
  shows "op_range a b \<noteq> []" "last (op_range a b) = b - 1"
proof -
  have ne: "unat a < unat b" using assms by (simp add: word_less_nat_alt)
  then show "op_range a b \<noteq> []" by (simp add: op_range_def)
  have "last (op_range a b) = word_of_nat (unat b - 1)"
    using ne by (simp add: op_range_def last_map)
  then show "last (op_range a b) = b - 1" using ne by (simp add: of_nat_diff)
qed

lemma ExecuteUptoOp_spec:
  assumes core: "np_core s" and k: "k \<le> np_lastOp s" and room: "np_lastOp s \<noteq> - 1"
  shows "\<exists>s'. ExecuteUptoOp ap s k = Inr s' \<and> exec_frame s s' \<and>
     np_lastExecutedOp s' = max (np_lastExecutedOp s) k \<and>
     (np_app_state s', last_reqs s') =
       foldl (exec_ref ap (np_log s)) (np_app_state s, last_reqs s) (op_range (np_lastExecutedOp s + 1) (k + 1)) \<and>
     table_grows (np_clientTable s) (np_clientTable s')"
proof -
  let ?x = "np_lastExecutedOp s"
  have k1: "k \<noteq> - 1" "unat (k + 1) = unat k + 1"
    using k room unat_add_of_nat [of k 1] unfolding u64_not_max word_le_nat_alt by simp_all
  have x1: "unat (?x + 1) = unat ?x + 1"
    using np_coreD(5) [OF core] room unat_add_of_nat [of ?x 1] unfolding u64_not_max word_le_nat_alt by simp
  show ?thesis
  proof (cases "k \<le> ?x")
    case True
    then have "op_range (?x + 1) (k + 1) = []" using k1 x1 by (simp add: op_range_def word_le_nat_alt)
    then show ?thesis using True by (simp add: ExecuteUptoOp_def exec_frame_refl max_def)
  next
    case False
    then have lt: "?x + 1 < k + 1" using k1 x1 by (simp add: word_le_nat_alt word_less_nat_alt)
    have rng: "\<forall>op\<in>set (op_range (?x + 1) (k + 1)). 1 \<le> op \<and> op \<le> np_lastOp s"
      using k x1 k1 by (auto simp: word_le_nat_alt word_less_nat_alt)
    have "ExecuteUptoOp ap s k = fold_r (execute_op ap) s (op_range (?x + 1) (k + 1))"
      using False k k1 by (simp add: ExecuteUptoOp_def op_range_le_def)
    then show ?thesis
      using execute_ops_spec [OF core rng, of ap] last_op_range [OF lt] False by (auto simp: max_def)
  qed
qed

lemma ExecuteUptoOp_advances:
  assumes run: "ExecuteUptoOp ap s k = Inr s'"
  shows "advances s s'"
proof (cases "k \<le> np_lastExecutedOp s \<or> \<not> np_core s")
  case True
  then show ?thesis using run by (auto simp: ExecuteUptoOp_def advances_def)
next
  case False
  then have core: "np_core s" and lt: "np_lastExecutedOp s < k" by auto
  have k: "k \<le> np_lastOp s" "k \<noteq> - 1"
    using run False by (auto simp: ExecuteUptoOp_def op_range_le_def split: if_splits)
  have x1: "unat (np_lastExecutedOp s + 1) = unat (np_lastExecutedOp s) + 1"
    using unat_Suc_less [OF lt] by simp
  have k1: "unat (k + 1) = unat k + 1"
    using k(2) unat_add_of_nat [of k 1] unfolding u64_not_max by simp
  have rng: "\<forall>op\<in>set (op_range (np_lastExecutedOp s + 1) (k + 1)). 1 \<le> op \<and> op \<le> np_lastOp s"
    using k x1 k1 by (auto simp: word_le_nat_alt word_less_nat_alt)
  have lt1: "np_lastExecutedOp s + 1 < k + 1" using lt x1 k1 by (simp add: word_less_nat_alt)
  have fold: "fold_r (execute_op ap) s (op_range (np_lastExecutedOp s + 1) (k + 1)) = Inr s'"
    using run False k by (simp add: ExecuteUptoOp_def op_range_le_def core leD)
  have "exec_frame s s'" "np_lastExecutedOp s' = k" "table_grows (np_clientTable s) (np_clientTable s')"
    using execute_ops_spec [OF core rng, of ap] last_op_range [OF lt1] unfolding fold by auto
  then show ?thesis
    using core k(1) lt exec_frame_core exec_frame_grows unfolding advances_def
    by (metis less_imp_le)
qed

lemma CommitUptoOp_advances:
  assumes run: "CommitUptoOp ap s k = Inr s'"
  shows "advances s s'"
proof (cases "k \<le> np_lastCommittedOp s")
  case True
  then show ?thesis using run by (simp add: CommitUptoOp_def)
next
  case False
  let ?s = "s\<lparr>np_lastCommittedOp := k\<rparr>"
  have k: "k \<le> np_lastOp s" using run False by (auto simp: CommitUptoOp_def split: if_splits)
  have "advances s ?s"
    using k False by (auto simp: advances_def np_core_def np_grows_def)
  moreover have "\<exists>t. advances ?s t \<and> ExecuteUptoOp ap t k = Inr s'"
    using run False k SendSyncCommit_advances [of ?s]
    by (cases "AmLeader_np ?s") (auto simp: CommitUptoOp_def Let_def leD intro: exI [of _ ?s])
  ultimately show ?thesis using ExecuteUptoOp_advances advances_trans by blast
qed

section \<open>Entering a view and appending\<close>

lemma EnterView_np_advances:
  assumes run: "EnterView_np ap s x y = Inr s'"
  shows "advances s s'"
proof -
  define s2 where "s2 = ClearTimeoutAndQuorums ((if x > vs_sessnum (LastViewstamp (np_log s))
     then s\<lparr>np_nextMsgnum := 1\<rparr> else s)\<lparr>np_sessnum := x, np_view := y,
                     np_lastNormalSessnum := x, np_lastNormalView := y, np_status := STATUS_NORMAL\<rparr>)"
  have ge: "np_sessnum s \<le> x" "np_view s \<le> y" using run by (simp_all add: EnterView_np_def)
  have s2: "advances s s2"
    using ge by (intro bookkeeping_advances) (simp add: s2_def bookkeeping_def ClearTimeoutAndQuorums_def)
  show ?thesis
  proof (cases "AmLeader_np s2")
    case True
    then obtain s3 where s3: "ExecuteUptoOp ap s2 (np_lastOp s2) = Inr s3" and
      s': "SendStartView (s3\<lparr>np_syncTimeout := True, np_leaderLastSyncPreparePoint := np_lastOp s3,
                         np_leaderLastSyncCommittedGaps := np_committedGaps s3\<rparr>) = Inr s'"
      using run unfolding EnterView_np_def Let_def s2_def [symmetric] by auto
    have "advances s3 (s3\<lparr>np_syncTimeout := True, np_leaderLastSyncPreparePoint := np_lastOp s3,
                         np_leaderLastSyncCommittedGaps := np_committedGaps s3\<rparr>)"
      by (intro bookkeeping_advances) (simp add: bookkeeping_def)
    then show ?thesis
      using s2 ExecuteUptoOp_advances [OF s3] SendStartView_advances [OF s'] advances_trans by blast
  next
    case False
    let ?s3 = "s2\<lparr>np_leaderSyncHeardTimeout := True,
                    np_receivedSyncPreparePoints := insert (np_lastOp s2) (np_receivedSyncPreparePoints s2)\<rparr>"
    have "SendStartViewReply ?s3 = Inr s'"
      using run False unfolding EnterView_np_def Let_def s2_def [symmetric] by simp
    moreover have "advances s2 ?s3" by (intro bookkeeping_advances) (simp add: bookkeeping_def)
    ultimately show ?thesis using s2 SendStartViewReply_advances advances_trans by blast
  qed
qed

lemma ProcessSyncPrepare_advances:
  assumes run: "ProcessSyncPrepare ap s p = Inr s'"
  shows "advances s s'"
proof (cases "p \<in> np_receivedSyncCommitPoints s")
  case True
  then obtain t where t: "CommitUptoOp ap s p = Inr t"
    and s': "s' = t\<lparr>np_receivedSyncPreparePoints := np_receivedSyncPreparePoints t - {p},
                       np_receivedSyncCommitPoints := np_receivedSyncCommitPoints t - {p}\<rparr>"
    using run by (auto simp: ProcessSyncPrepare_def)
  have "advances t s'" unfolding s' by (intro bookkeeping_advances) (simp add: bookkeeping_def)
  then show ?thesis using CommitUptoOp_advances [OF t] advances_trans by blast
next
  case False
  then show ?thesis
    using run by (auto simp: ProcessSyncPrepare_def intro: bookkeeping_advances)
qed

lemma run_callback_advances: "run_callback ap s = Inr s' \<Longrightarrow> advances s s'"
  by (auto simp: run_callback_def split: transfer_callback.splits
      dest: EnterView_np_advances ProcessSyncPrepare_advances)

lemma complete_transfer_advances:
  assumes "complete_transfer ap s op = Inr s'"
  shows "advances s s'"
proof (cases "op = np_stateTransferOpEnd s")
  case True
  have "advances s (s\<lparr>np_stateTransferTimeout := False\<rparr>)"
    by (intro bookkeeping_advances) (simp add: bookkeeping_def)
  then show ?thesis
    using assms True run_callback_advances advances_trans unfolding complete_transfer_def by metis
next
  case False
  then show ?thesis using assms by (simp add: complete_transfer_def)
qed

lemma entry_state_settled: "settled st \<Longrightarrow> settled (entry_state s op st)"
  by (simp add: settled_def entry_state_def)

text \<open>The state after an entry has been put at the end of the log and, if it is a no-op, recorded as a
  gap.\<close>

lemma appended_advances:
  assumes core: "np_core s" and room: "np_lastOp s \<noteq> - 1" and st: "settled st"
    and app: "Append id (np_log s) (LogEntry_new vs (entry_state s (vs_opnum vs) st) req) = Inr l"
    and gaps: "gaps = np_committedGaps s \<or>
      (entry_state s (vs_opnum vs) st = LOG_STATE_NOOP \<and> gaps = insert (np_lastOp s + 1) (np_committedGaps s))"
  shows "log_core l gaps" "LastOpnum l = np_lastOp s + 1" "log_grows (np_log s) l" "vs_opnum vs = np_lastOp s + 1"
    "log_at l (np_lastOp s + 1) = Some (LogEntry_new vs (entry_state s (vs_opnum vs) st) req)"
proof -
  note C = np_coreD [OF core]
  let ?e = "LogEntry_new vs (entry_state s (vs_opnum vs) st) req"
  have room': "LastOpnum (np_log s) \<noteq> - 1" using room C(4) by simp
  have l: "l = (np_log s)\<lparr>entries := entries (np_log s) @ [?e]\<rparr>" using Append_Inr [OF app] C(3) by auto
  have at: "log_at l i = (if i = np_lastOp s + 1 then Some ?e else log_at (np_log s) i)" for i
    using log_at_append [OF C(1) room' app, of i] C(4) l by simp
  show "vs_opnum vs = np_lastOp s + 1" "LastOpnum l = np_lastOp s + 1"
    using Append_wf [OF C(1) room' app] C(4) by (simp_all add: LogEntry_new_def)
  then have opn: "vs_opnum vs = np_lastOp s + 1" by simp
  show "log_at l (np_lastOp s + 1) = Some ?e" using at by simp
  have old: "log_at (np_log s) (np_lastOp s + 1) = None"
    using code_log.dom [OF C(1), of "np_lastOp s + 1"] C(4) room unat_add_of_nat [of "np_lastOp s" 1]
    unfolding u64_not_max by (auto simp: word_le_nat_alt)
  then show "log_grows (np_log s) l" by (auto simp: log_grows_def at)
  have "settled (le_state e) \<and> (i \<in> gaps \<longrightarrow> le_state e = LOG_STATE_NOOP)" if "log_at l i = Some e" for i e
  proof (cases "i = np_lastOp s + 1")
    case True
    then have "e = ?e" using that at by simp
    then show ?thesis
      using st gaps opn True by (auto simp: LogEntry_new_def entry_state_def settled_def)
  next
    case False
    then show ?thesis using that gaps core by (auto simp: at np_core_def log_core_def)
  qed
  then show "log_core l gaps"
    using Append_wf(1) [OF C(1) room' app] C(2,3) by (simp add: log_core_def l)
qed

lemma append_next_advances:
  assumes run: "append_next ap s req vs st = Inr s'" and st: "settled st"
  shows "advances s s'"
  unfolding advances_def
proof
  assume core: "np_core s"
  let ?st = "entry_state s (vs_opnum vs) st"
  obtain l s2 where room: "np_lastOp s \<noteq> - 1" and opn: "vs_opnum vs = np_lastOp s + 1"
    and app: "Append id (np_log s) (LogEntry_new vs ?st req) = Inr l"
    and settle: "settle_entry ap (stop_gap_request (s\<lparr>np_lastOp := vs_opnum vs, np_nextMsgnum := vs_msgnum vs + 1,
       np_log := l\<rparr>)) req vs ?st = Inr s2"
    and fin: "complete_transfer ap s2 (vs_opnum vs) = Inr s'"
    using append_next_Inr [OF run] by (elim exE conjE)
  define t where
    "t = stop_gap_request (s\<lparr>np_lastOp := vs_opnum vs, np_nextMsgnum := vs_msgnum vs + 1, np_log := l\<rparr>)"
  have next_op: "np_lastOp s \<le> np_lastOp s + 1"
    using room unat_add_of_nat [of "np_lastOp s" 1] unfolding u64_not_max by (simp add: word_le_nat_alt)
  have tf: "np_lastOp t = np_lastOp s + 1" "np_log t = l" "np_committedGaps t = np_committedGaps s"
    "np_configuration t = np_configuration s" "np_replicaIdx t = np_replicaIdx s" "np_sessnum t = np_sessnum s"
    "np_view t = np_view s" "np_lastExecutedOp t = np_lastExecutedOp s"
    "np_lastCommittedOp t = np_lastCommittedOp s" "np_clientTable t = np_clientTable s"
    by (simp_all add: t_def stop_gap_request_def opn)
  have grow: "np_core u \<and> np_grows s u" if "u = t \<or> (?st = LOG_STATE_NOOP \<and>
      u = t\<lparr>np_committedGaps := insert (np_lastOp t) (np_committedGaps t)\<rparr>)" for u
  proof -
    have "np_committedGaps u = np_committedGaps s \<or>
        (?st = LOG_STATE_NOOP \<and> np_committedGaps u = insert (np_lastOp s + 1) (np_committedGaps s))"
      using that tf(1,3) by (elim disjE conjE) simp_all
    note A = appended_advances(1-3) [OF core room st app this]
    have "np_lastExecutedOp s \<le> np_lastOp s + 1" "np_lastCommittedOp s \<le> np_lastOp s + 1"
      using np_coreD(5,6) [OF core] next_op order_trans by blast+
    then show ?thesis
      using that A tf next_op by (elim disjE conjE) (simp_all add: np_core_def np_grows_def)
  qed
  have "?st = LOG_STATE_NOOP \<or> ?st = LOG_STATE_RECEIVED" using entry_state_settled [OF st] by (auto simp: settled_def)
  then have "np_core s2 \<and> np_grows s s2"
  proof
    assume "?st = LOG_STATE_NOOP"
    then show ?thesis using settle [folded t_def] grow [of s2] by (simp add: settle_entry_def)
  next
    assume r: "?st = LOG_STATE_RECEIVED"
    have "advances t s2"
      using settle [folded t_def] r ExecuteUptoOp_advances
      by (auto simp: settle_entry_def intro: bookkeeping_advances split: if_splits)
    then show ?thesis using grow [of t] np_grows_trans by (auto simp: advances_def)
  qed
  then show "np_core s' \<and> np_grows s s'"
    using complete_transfer_advances [OF fin] np_grows_trans by (auto simp: advances_def)
qed

lemma ProcessNextOperation_advances:
  "\<lbrakk> ProcessNextOperation ap s req vs st = Inr s'; settled st \<rbrakk> \<Longrightarrow> advances s s'"
proof (induction ap s req vs st rule: ProcessNextOperation.induct)
  case (1 ap s req vs st)
  obtain t where t: "append_next ap s req vs st = Inr t"
    using "1.prems"(1) by (auto simp: ProcessNextOperation.simps [of ap s])
  have adv: "advances s t" using append_next_advances [OF t "1.prems"(2)] .
  show ?case
  proof (cases "np_lastOp t + 1 \<in> np_committedGaps t")
    case True
    then show ?thesis
      using "1.IH" [OF t True] "1.prems"(1) adv advances_trans t
      by (auto simp: ProcessNextOperation.simps [of ap s] settled_def)
  next
    case False
    then show ?thesis using "1.prems"(1) adv t by (simp add: ProcessNextOperation.simps [of ap s])
  qed
qed

section \<open>Gaps\<close>

lemma SetStatus_noop:
  assumes core: "log_core l gaps" and run: "SetStatus l op LOG_STATE_NOOP = Inr (l', b)"
  shows "log_core l' (insert op gaps)" "LastOpnum l' = LastOpnum l" "log_grows l l'"
proof -
  have wf: "log_wf l" using core by (simp add: log_core_def)
  note S = SetStatus_wf [OF wf run]
  have at: "log_at l' i = (if i = op then map_option (\<lambda>e. e\<lparr>le_state := LOG_STATE_NOOP\<rparr>) (log_at l op) else log_at l i)" for i
    using S by blast
  show "LastOpnum l' = LastOpnum l" using S by blast
  show "log_grows l l'" by (auto simp: log_grows_def at same_op_def)
  have "settled (le_state e) \<and> (i \<in> insert op gaps \<longrightarrow> le_state e = LOG_STATE_NOOP)" if "log_at l' i = Some e" for i e
    using that core by (auto simp: at settled_def log_core_def split: if_splits)
  then show "log_core l' (insert op gaps)" using S core by (simp add: log_core_def)
qed

lemma log_core_mono: "\<lbrakk> log_core l gaps; gaps' \<subseteq> gaps \<rbrakk> \<Longrightarrow> log_core l gaps'"
  by (auto simp: log_core_def)

lemma SetStatus_noop_advances:
  assumes run: "SetStatus (np_log s) op LOG_STATE_NOOP = Inr (l, b)"
  shows "advances s (s\<lparr>np_committedGaps := insert op (np_committedGaps s), np_log := l\<rparr>)"
    "advances s (s\<lparr>np_log := l\<rparr>)"
proof -
  have l: "log_core l (insert op (np_committedGaps s))" "log_core l (np_committedGaps s)"
    "LastOpnum l = LastOpnum (np_log s)" "log_grows (np_log s) l"
    if "np_core s"
  proof -
    have "log_core (np_log s) (np_committedGaps s)" using that by (simp add: np_core_def)
    note S = SetStatus_noop [OF this run]
    show "log_core l (insert op (np_committedGaps s))" "LastOpnum l = LastOpnum (np_log s)" "log_grows (np_log s) l"
      by (fact S)+
    show "log_core l (np_committedGaps s)" using log_core_mono [OF S(1)] by blast
  qed
  show "advances s (s\<lparr>np_committedGaps := insert op (np_committedGaps s), np_log := l\<rparr>)"
    using l(1,3,4) by (simp add: advances_def np_core_def np_grows_def)
  show "advances s (s\<lparr>np_log := l\<rparr>)"
    using l(2-4) by (simp add: advances_def np_core_def np_grows_def)
qed

text \<open>Recording a gap beyond the log.\<close>

lemma future_gap_advances:
  assumes "np_lastOp s < op"
  shows "advances s (s\<lparr>np_committedGaps := insert op (np_committedGaps s)\<rparr>)"
proof -
  have "log_core (np_log s) (insert op (np_committedGaps s))" if core: "np_core s"
  proof -
    have "log_at (np_log s) op = None"
      using code_log.dom [OF np_coreD(1) [OF core], of op] np_coreD(4) [OF core] assms by auto
    then show ?thesis using core by (auto simp: np_core_def log_core_def)
  qed
  then show ?thesis by (auto simp: advances_def np_core_def np_grows_def)
qed

lemma noop_settled [simp]: "settled LOG_STATE_NOOP" "settled LOG_STATE_RECEIVED"
  by (simp_all add: settled_def)

lemma mark_gap_Inr:
  assumes wf: "log_wf (np_log s)" and run: "mark_gap s gap = Inr s'"
  shows "(s' = s \<and> (np_lastOp s < gap \<or> (\<exists>e. log_at (np_log s) gap = Some e \<and> le_state e = LOG_STATE_NOOP))) \<or>
     (\<exists>l b. SetStatus (np_log s) gap LOG_STATE_NOOP = Inr (l, b) \<and> s' = s\<lparr>np_log := l\<rparr>)"
  using run by (auto simp: mark_gap_def Find_eq [OF wf] not_le split: if_splits option.splits)

lemma mark_gap_advances:
  assumes run: "mark_gap s gap = Inr s'"
  shows "advances s s'"
proof (cases "np_core s")
  case True
  show ?thesis
    using mark_gap_Inr [OF np_coreD(1) [OF True] run] SetStatus_noop_advances(2) by auto
qed (simp add: advances_def)

text \<open>A gap at an operation that is already in the log.\<close>

lemma past_gap_advances:
  assumes run: "mark_gap (s\<lparr>np_committedGaps := insert gap (np_committedGaps s)\<rparr>) gap = Inr s'"
    and past: "gap \<le> np_lastOp s"
  shows "advances s s'"
proof (cases "np_core s")
  case True
  let ?s = "s\<lparr>np_committedGaps := insert gap (np_committedGaps s)\<rparr>"
  have wf: "log_wf (np_log ?s)" using np_coreD(1) [OF True] by simp
  from mark_gap_Inr [OF wf run] show ?thesis
  proof (elim disjE exE conjE)
    fix e
    assume eq: "s' = ?s" and e: "log_at (np_log ?s) gap = Some e" "le_state e = LOG_STATE_NOOP"
    have "log_core (np_log s) (insert gap (np_committedGaps s))"
      using e True by (auto simp: np_core_def log_core_def)
    then show ?thesis unfolding eq by (simp add: advances_def np_core_def np_grows_def)
  next
    fix l b
    assume "SetStatus (np_log ?s) gap LOG_STATE_NOOP = Inr (l, b)" "s' = ?s\<lparr>np_log := l\<rparr>"
    then show ?thesis using SetStatus_noop_advances(1) [of s gap l b] by simp
  next
    assume "np_lastOp ?s < gap"
    then show ?thesis using past by (simp add: leD)
  qed
qed (simp add: advances_def)

lemma InstallCommittedGap_advances:
  assumes run: "InstallCommittedGap ap s gap = Inr s'"
  shows "advances s s'"
proof (cases "gap \<in> np_committedGaps s")
  case True
  then show ?thesis using run by (simp add: InstallCommittedGap_def)
next
  case new: False
  define s1 where "s1 = s\<lparr>np_committedGaps := insert gap (np_committedGaps s)\<rparr>"
  let ?v = "LastViewstamp (np_log s1)"
  obtain s2 where s2: "(if np_lastOp s1 + 1 = gap
               then ProcessNextOperation ap s1 empty_Request
                         (Viewstamp (vs_view ?v) (np_lastOp s1 + 1) (vs_sessnum ?v) (np_nextMsgnum s1) (vs_shardnum ?v))
                         LOG_STATE_NOOP
               else Inr s1) = Inr s2"
    and mark: "mark_gap s2 gap = Inr s'"
    using run new unfolding InstallCommittedGap_def Let_def s1_def [symmetric] by auto
  show ?thesis
  proof (cases "np_lastOp s < gap")
    case True
    then have "advances s s1" unfolding s1_def by (rule future_gap_advances)
    moreover have "advances s1 s2"
      using s2 by (auto split: if_splits intro: ProcessNextOperation_advances)
    ultimately show ?thesis using mark_gap_advances [OF mark] advances_trans by blast
  next
    case False
    have "np_lastOp s1 + 1 \<noteq> gap"
    proof
      assume eq: "np_lastOp s1 + 1 = gap"
      then obtain t where "append_next ap s1 empty_Request
          (Viewstamp (vs_view ?v) (np_lastOp s1 + 1) (vs_sessnum ?v) (np_nextMsgnum s1) (vs_shardnum ?v))
          LOG_STATE_NOOP = Inr t"
        using s2 by (auto simp: ProcessNextOperation.simps [of ap s1])
      then have "np_lastOp s1 \<noteq> - 1" using append_next_lastOp by blast
      then show False
        using eq False unat_add_of_nat [of "np_lastOp s1" 1] unfolding u64_not_max
        by (auto simp: s1_def word_less_nat_alt)
    qed
    then have "s2 = s1" using s2 by simp
    then show ?thesis using past_gap_advances mark False unfolding s1_def by (simp add: not_less)
  qed
qed

lemma InstallCommittedGaps_advances:
  assumes "InstallCommittedGaps ap s gaps = Inr s'"
  shows "advances s s'"
proof (rule fold_r_invariant [of "advances s", OF advances_refl assms [unfolded InstallCommittedGaps_def]])
  show "advances s t'" if "advances s t" "InstallCommittedGap ap t x = Inr t'" for t x t'
    using that InstallCommittedGap_advances advances_trans by blast
qed

section \<open>The guards and the client's requests\<close>

lemma StartGapAgreement_advances:
  assumes run: "StartGapAgreement ap s = Inr s'"
  shows "advances s s'"
proof -
  let ?s = "s\<lparr>np_gapReplyQuorum := Clear (np_gapReplyQuorum s), np_gapRequestTimeout := False,
                   np_status := STATUS_GAP_COMMIT, np_gapCommitQuorum := Clear (np_gapCommitQuorum s)\<rparr>"
  have "advances s ?s" by (intro bookkeeping_advances) (simp add: bookkeeping_def)
  moreover have "\<exists>t. advances ?s t \<and> SendGapCommit t = Inr s'"
    using run by (auto simp: StartGapAgreement_def Let_def dest!: ProcessNextOperation_advances)
  ultimately show ?thesis using SendGapCommit_advances advances_trans by blast
qed

lemma bookkeeping_trans: "\<lbrakk> bookkeeping s t; bookkeeping t u \<rbrakk> \<Longrightarrow> bookkeeping s u"
  by (auto simp: bookkeeping_def)

lemma StartViewChange_np_bookkeeping:
  assumes "StartViewChange_np s x y = Inr s'"
  shows "bookkeeping s s'"
proof -
  define t where "t = (if (if x > np_sessnum s then x else np_sessnum s) > vs_sessnum (LastViewstamp (np_log s))
     then ((ClearTimeoutAndQuorums s)\<lparr>np_sessnum := (if x > np_sessnum s then x else np_sessnum s),
             np_view := (if y > np_view s then y else np_view s), np_nextMsgnum := 1\<rparr>)
     else ((ClearTimeoutAndQuorums s)\<lparr>np_sessnum := (if x > np_sessnum s then x else np_sessnum s),
             np_view := (if y > np_view s then y else np_view s)\<rparr>))"
  have log: "np_log (ClearTimeoutAndQuorums s) = np_log s" by (simp add: ClearTimeoutAndQuorums_def)
  have s': "s' = SendViewChange (t\<lparr>np_status := STATUS_VIEW_CHANGE,
                  np_committedGaps := {g \<in> np_committedGaps t. g \<le> np_lastOp t}\<rparr>)"
    using assms by (simp add: StartViewChange_np_def Let_def t_def log)
  have "bookkeeping s (t\<lparr>np_status := STATUS_VIEW_CHANGE,
                  np_committedGaps := {g \<in> np_committedGaps t. g \<le> np_lastOp t}\<rparr>)"
    by (auto simp: bookkeeping_def t_def ClearTimeoutAndQuorums_def)
  then show ?thesis
    unfolding s' using bookkeeping_SendViewChange bookkeeping_trans by blast
qed

lemma StartViewChange_np_advances: "StartViewChange_np s x y = Inr s' \<Longrightarrow> advances s s'"
  using StartViewChange_np_bookkeeping bookkeeping_advances by blast

lemma CheckViewNumAndStatus_advances:
  "CheckViewNumAndStatus s x y = Inr (s', ok) \<Longrightarrow> advances s s'"
  by (auto simp: CheckViewNumAndStatus_def split: if_splits dest: StartViewChange_np_advances)

lemma CheckViewNumAndStatus_ok:
  "CheckViewNumAndStatus s x y = Inr (s', True) \<Longrightarrow>
     s' = s \<and> x = np_sessnum s \<and> y = np_view s \<and> np_status s \<noteq> STATUS_VIEW_CHANGE"
  by (auto simp: CheckViewNumAndStatus_def split: if_splits)

lemma in_view_advances:
  assumes run: "in_view s x y k = Inr s'"
    and k: "\<And>t'. \<lbrakk> k s = Inr t'; x = np_sessnum s; y = np_view s; np_status s \<noteq> STATUS_VIEW_CHANGE \<rbrakk> \<Longrightarrow> advances s t'"
  shows "advances s s'"
proof -
  obtain t ok where t: "CheckViewNumAndStatus s x y = Inr (t, ok)"
    and s': "(if ok then k t else Inr t) = Inr s'"
    using run by (auto simp: in_view_def)
  show ?thesis
  proof (cases ok)
    case True
    then show ?thesis using s' t CheckViewNumAndStatus_ok [of s x y t] k by auto
  next
    case False
    then show ?thesis using s' CheckViewNumAndStatus_advances [OF t] by simp
  qed
qed

lemma TryProcessClientRequest_advances:
  assumes run: "TryProcessClientRequest ap s msg = Inr (s', fin)"
  shows "advances s s'"
proof -
  have proc: "advances s s'"
    if "ProcessNextOperation ap t req vs LOG_STATE_RECEIVED = Inr s'" "t = s\<lparr>np_nextMsgnum := n\<rparr>" for t req vs n
  proof -
    have "advances s t" unfolding that(2) by (intro bookkeeping_advances) (simp add: bookkeeping_def)
    then show ?thesis using ProcessNextOperation_advances [OF that(1)] advances_trans by simp
  qed
  have own: "s\<lparr>np_nextMsgnum := np_nextMsgnum s\<rparr> = s" by simp
  show ?thesis
    using run
    by (auto simp: TryProcessClientRequest_def Let_def split: if_splits
        intro: bookkeeping_advances proc [OF _ refl] proc [OF _ own [symmetric]]
        dest: StartViewChange_np_advances ProcessNextOperation_advances)
qed

lemma AddPendingRequest_advances: "advances s (AddPendingRequest s msg)"
  by (intro bookkeeping_advances) (simp add: bookkeeping_def AddPendingRequest_def)

lemma HandleClientRequest_advances:
  assumes "HandleClientRequest ap s msg = Inr s'"
  shows "advances s s'"
proof -
  obtain t fin where t: "TryProcessClientRequest ap s msg = Inr (t, fin)"
    and s': "s' = (if fin then t else AddPendingRequest t msg)"
    using assms by (auto simp: HandleClientRequest_def)
  show ?thesis
    unfolding s' using TryProcessClientRequest_advances [OF t] AddPendingRequest_advances advances_trans
    by (simp split: if_splits) blast
qed

lemma process_pending_advances:
  "process_pending ap s rs = Inr s' \<Longrightarrow> advances s s'"
proof (induction rs arbitrary: s)
  case (Cons r rs)
  then obtain t fin where t: "TryProcessClientRequest ap s r = Inr (t, fin)"
    and s': "(if fin then process_pending ap (t\<lparr>np_pendingRequests := rs\<rparr>) rs else Inr t) = Inr s'"
    by auto
  have "advances t (t\<lparr>np_pendingRequests := rs\<rparr>)" by (intro bookkeeping_advances) (simp add: bookkeeping_def)
  then show ?case
    using s' Cons.IH [of "t\<lparr>np_pendingRequests := rs\<rparr>"] TryProcessClientRequest_advances [OF t]
    by (cases fin) (auto elim: advances_trans)
qed simp

lemma ProcessPendingRequests_advances:
  assumes "ProcessPendingRequests ap s = Inr s'"
  shows "advances s s'"
proof -
  have sorted: "advances s (s\<lparr>np_pendingRequests := sort_key pending_key (np_pendingRequests s),
                         np_pendingRequestsSorted := True\<rparr>)"
    by (intro bookkeeping_advances) (simp add: bookkeeping_def)
  show ?thesis
    using assms sorted
    by (auto simp: ProcessPendingRequests_def Let_def split: if_splits dest!: process_pending_advances
        elim: advances_trans)
qed

section \<open>Handlers\<close>

lemma HandleGapReply_advances:
  assumes "HandleGapReply ap s msg = Inr s'"
  shows "advances s s'"
  using assms [unfolded HandleGapReply_def]
proof (rule in_view_advances)
  fix t
  let ?q = "AddAndCheckForQuorum (np_gapReplyQuorum s) (np_lastOp s + 1) (gr_replicaidx msg) msg"
  have q: "advances s (s\<lparr>np_gapReplyQuorum := fst ?q\<rparr>)"
    by (intro bookkeeping_advances) (simp add: bookkeeping_def)
  assume "(if gr_opnum msg = np_lastOp s + 1 then
         (if np_status s = STATUS_GAP_COMMIT then check (AmLeader_np s) AssertFailed (Inr s)
          else if gr_isfound msg then
            ProcessNextOperation ap s (gr_req msg)
              (viewstamp4 (np_view s) (np_lastOp s + 1) (np_sessnum s) (np_nextMsgnum s))
              (if gr_isgap msg then LOG_STATE_NOOP else LOG_STATE_RECEIVED)
          else if AmLeader_np s then
            (let (q, ms) = ?q; s1 = s\<lparr>np_gapReplyQuorum := q\<rparr>
             in if ms \<noteq> None then StartGapAgreement ap s1 else Inr s1)
          else Inr s)
       else Inr s) = Inr t"
  then show "advances s t"
    using q by (auto simp: Let_def split: if_splits prod.splits
        intro: ProcessNextOperation_advances dest!: StartGapAgreement_advances elim: advances_trans)
qed

lemma HandleGapCommit_advances:
  assumes "HandleGapCommit ap s remote sn vw op = Inr s'" and room: "np_lastOp s \<noteq> - 1"
  shows "advances s s'"
  using assms(1) [unfolded HandleGapCommit_def]
proof (rule in_view_advances)
  fix t
  let ?reply = "\<lambda>s1. send_np s1 (NToRemote remote) (NOutReplica (NGapCommitReply
                 \<lparr>gcr_sessnum = np_sessnum s1, gcr_view = np_view s1, gcr_opnum = op,
                  gcr_replicaidx = np_replicaIdx s1\<rparr>))"
  assume k: "check (\<not> AmLeader_np s) AssertFailed
         (if np_lastOp s + 1 < op
          then Inr (s\<lparr>np_committedGaps := insert op (np_committedGaps s)\<rparr>)
          else
            rbind (if np_lastOp s \<ge> op
                   then rbind (SetStatus (np_log s) op LOG_STATE_NOOP) (\<lambda>(l, _).
                          Inr (s\<lparr>np_committedGaps := insert op (np_committedGaps s), np_log := l\<rparr>))
                   else check (np_lastOp s + 1 = op) AssertFailed
                          (ProcessNextOperation ap s empty_Request
                             (viewstamp4 (np_view s) (np_lastOp s + 1) (np_sessnum s) (np_nextMsgnum s))
                             LOG_STATE_NOOP))
              (\<lambda>s1. Inr (?reply s1))) = Inr t"
  show "advances s t"
  proof (cases "np_lastOp s + 1 < op")
    case True
    then have "np_lastOp s < op"
      using room unat_add_of_nat [of "np_lastOp s" 1] unfolding u64_not_max by (simp add: word_less_nat_alt)
    then show ?thesis using k True future_gap_advances [of s op] by simp
  next
    case False
    have "\<exists>u. advances s u \<and> t = ?reply u"
      using k False SetStatus_noop_advances(1) [of s op]
      by (auto split: if_splits dest!: ProcessNextOperation_advances)
    then show ?thesis using bookkeeping_advances [OF bookkeeping_send(1)] advances_trans by blast
  qed
qed

lemma HandleGapCommitReply_advances:
  assumes "HandleGapCommitReply s msg = Inr s'"
  shows "advances s s'"
  using assms [unfolded HandleGapCommitReply_def]
proof (rule in_view_advances)
  fix t
  let ?q = "AddAndCheckForQuorum (np_gapCommitQuorum s) (gcr_opnum msg) (gcr_replicaidx msg) msg"
  assume "(if np_status s \<noteq> STATUS_GAP_COMMIT \<or> \<not> AmLeader_np s then Inr s
       else if gcr_opnum msg = np_lastOp s then
         (let (q, ms) = ?q
          in Inr (if ms \<noteq> None
                  then s\<lparr>np_status := STATUS_NORMAL, np_gapCommitQuorum := Clear q, np_gapCommitTimeout := False\<rparr>
                  else s\<lparr>np_gapCommitQuorum := q\<rparr>))
       else Inr s) = Inr t"
  then have "bookkeeping s t"
    by (cases ?q) (auto simp: bookkeeping_def split: if_splits)
  then show "advances s t" by (rule bookkeeping_advances)
qed

lemma HandleGapRequest_advances:
  assumes "HandleGapRequest s remote sn vw op = Inr s'"
  shows "advances s s'"
  using assms [unfolded HandleGapRequest_def]
proof (rule in_view_advances)
  fix t
  define rep where "rep = (\<lambda>req found gap. Inr (send_np s (NToRemote remote) (NOutReplica (NGapReply
             \<lparr>gr_view = np_view s, gr_sessnum = np_sessnum s, gr_opnum = op, gr_isfound = found,
              gr_isgap = gap, gr_replicaidx = np_replicaIdx s, gr_req = req\<rparr>))) :: 'a NOPaxosReplica result)"
  have rep: "advances s u" if "rep req found gap = Inr u" for req found gap u
    using that bookkeeping_advances [OF bookkeeping_send(1)] by (auto simp: rep_def)
  assume "(let rep = (\<lambda>req found gap. Inr (send_np s (NToRemote remote) (NOutReplica (NGapReply
             \<lparr>gr_view = np_view s, gr_sessnum = np_sessnum s, gr_opnum = op, gr_isfound = found,
              gr_isgap = gap, gr_replicaidx = np_replicaIdx s, gr_req = req\<rparr>))))
       in rbind (Find (np_log s) op) (\<lambda>r. case r of
            Some e \<Rightarrow>
              if le_state e = LOG_STATE_RECEIVED then rep (le_request e) True False
              else if le_state e = LOG_STATE_NOOP then rep empty_Request True True
              else Inl NotReachable
          | None \<Rightarrow>
              if np_gapRequestTimeout s \<and> np_lastOp s + 1 = op then rep empty_Request False False
              else Inr s)) = Inr t"
  then obtain r :: "LogEntry option" where "(case r of
            Some e \<Rightarrow>
              if le_state e = LOG_STATE_RECEIVED then rep (le_request e) True False
              else if le_state e = LOG_STATE_NOOP then rep empty_Request True True
              else Inl NotReachable
          | None \<Rightarrow>
              if np_gapRequestTimeout s \<and> np_lastOp s + 1 = op then rep empty_Request False False
              else Inr s) = Inr t"
    unfolding Let_def rep_def [symmetric] rbind_Inr by (elim exE conjE)
  then show "advances s t" by (cases r) (auto split: if_splits dest: rep)
qed

lemma HandleStateTransferRequest_advances:
  "HandleStateTransferRequest s remote sn vw b e = Inr s' \<Longrightarrow> advances s s'"
  by (auto simp: HandleStateTransferRequest_def split: if_splits intro!: bookkeeping_advances)

lemma HandleStateTransferReply_advances:
  assumes run: "HandleStateTransferReply ap s msg = Inr s'"
    and wf: "\<forall>m\<in>set (str_entries msg). settled (me_state m)"
  shows "advances s s'"
proof -
  have "s' = s \<or> (\<exists>i. fold_r (transfer_entry ap) s (drop i (str_entries msg)) = Inr s')"
    using run by (auto simp: HandleStateTransferReply_def Let_def split: if_splits)
  moreover have "advances s s'" if "fold_r (transfer_entry ap) s (drop i (str_entries msg)) = Inr s'" for i
  proof (rule fold_r_invariant [of "advances s", OF advances_refl that])
    fix t x t'
    assume t: "advances s t" "x \<in> set (drop i (str_entries msg))" "transfer_entry ap t x = Inr t'"
    then have "settled (me_state x)" using wf in_set_dropD by fast
    then have "advances t t'" using t(3) ProcessNextOperation_advances by (auto simp: transfer_entry_def)
    then show "advances s t'" using t(1) advances_trans by blast
  qed
  ultimately show ?thesis by auto
qed

lemma HandleViewChangeRequest_advances: "HandleViewChangeRequest s sn vw = Inr s' \<Longrightarrow> advances s s'"
  by (auto simp: HandleViewChangeRequest_def split: if_splits dest: StartViewChange_np_advances)

lemma HandleStartViewReply_advances:
  assumes run: "HandleStartViewReply ap s msg = Inr s'"
  shows "advances s s'"
proof -
  let ?q = "AddAndCheckForQuorum (np_startViewQuorum s) (svr_sessnum msg, svr_view msg) (svr_replicaidx msg) msg"
  let ?s = "s\<lparr>np_startViewQuorum := fst ?q\<rparr>"
  have q: "advances s ?s" by (intro bookkeeping_advances) (simp add: bookkeeping_def)
  have c: "advances t (t\<lparr>np_startViewTimeout := False, np_startViewQuorum := Clear (np_startViewQuorum t)\<rparr>)"
    for t :: "'a NOPaxosReplica"
    by (intro bookkeeping_advances) (simp add: bookkeeping_def)
  have "s' = s \<or> s' = ?s \<or> (\<exists>t. CommitUptoOp ap ?s (np_startViewLastOp ?s) = Inr t \<and>
      s' = t\<lparr>np_startViewTimeout := False, np_startViewQuorum := Clear (np_startViewQuorum t)\<rparr>)"
    using run by (auto simp: HandleStartViewReply_def Let_def split: if_splits prod.splits)
  then show ?thesis
    using q c CommitUptoOp_advances advances_trans by (elim disjE exE conjE) (simp, simp, blast)
qed

lemma HandleSyncPrepareReply_advances:
  assumes "HandleSyncPrepareReply ap s msg = Inr s'"
  shows "advances s s'"
  using assms [unfolded HandleSyncPrepareReply_def]
proof (rule in_view_advances)
  fix t
  let ?q = "AddAndCheckForQuorum (np_syncPrepareQuorum s) (spr_syncpoint msg) (spr_replicaidx msg) msg"
  have q: "advances s (s\<lparr>np_syncPrepareQuorum := fst ?q\<rparr>)"
    by (intro bookkeeping_advances) (simp add: bookkeeping_def)
  assume "check (AmLeader_np s) AssertFailed
         (if np_lastCommittedOp s \<ge> spr_syncpoint msg then Inr s
          else if spr_syncpoint msg \<noteq> np_leaderLastSyncPreparePoint s then Inr s
          else
            let (q, ms) = ?q; s1 = s\<lparr>np_syncPrepareQuorum := q\<rparr>
            in if ms \<noteq> None then CommitUptoOp ap s1 (spr_syncpoint msg) else Inr s1) = Inr t"
  then show "advances s t"
    using q by (auto simp: Let_def split: if_splits prod.splits dest!: CommitUptoOp_advances elim: advances_trans)
qed

lemma request_transfer_advances: "advances s (request_transfer s k i cb)"
  by (intro bookkeeping_advances) (simp add: bookkeeping_def request_transfer_def)

lemma SendStateTransferRequest_advances: "advances s (SendStateTransferRequest s)"
  by (intro bookkeeping_advances) simp

lemma transfer_advances: "advances s (SendStateTransferRequest (request_transfer s k i cb))"
  using request_transfer_advances SendStateTransferRequest_advances advances_trans by blast

lemma HandleSyncPrepare_advances:
  assumes "HandleSyncPrepare ap s msg = Inr s'"
  shows "advances s s'"
  using assms [unfolded HandleSyncPrepare_def]
proof (rule in_view_advances)
  fix t
  define s1 where "s1 = s\<lparr>np_leaderSyncHeardTimeout := True\<rparr>"
  define s2 where "s2 = s1\<lparr>np_receivedSyncPreparePoints := insert (sp_lastop msg) (np_receivedSyncPreparePoints s1)\<rparr>"
  have adv: "advances s s1" "advances s s2"
    by (auto simp: s1_def s2_def bookkeeping_def intro!: bookkeeping_advances)
  assume "(let s = s\<lparr>np_leaderSyncHeardTimeout := True\<rparr> in
       if np_lastCommittedOp s \<ge> sp_lastop msg then Inr s
       else
         check (np_sessnum s = sp_sessnum msg \<and> np_view s = sp_view msg) AssertFailed
         (check (\<not> AmLeader_np s) AssertFailed
           (rbind (InstallCommittedGaps ap (s\<lparr>np_receivedSyncPreparePoints :=
                      insert (sp_lastop msg) (np_receivedSyncPreparePoints s)\<rparr>) (sp_committedgaps msg)) (\<lambda>s1.
              if np_lastOp s1 < sp_lastop msg then
                let s2 = request_transfer s1 (sp_lastop msg) (GetLeaderIndex (np_configuration s1) (sp_view msg))
                           (SyncPrepareCallback (sp_lastop msg))
                in Inr (if sp_lastop msg - np_lastOp s2 \<le> MAX_SYNC_TRANSFER_OPS
                        then SendStateTransferRequest s2 else s2)
              else ProcessSyncPrepare ap s1 (sp_lastop msg))))) = Inr t"
  then have "t = s1 \<or> (\<exists>u. InstallCommittedGaps ap s2 (sp_committedgaps msg) = Inr u \<and>
      (ProcessSyncPrepare ap u (sp_lastop msg) = Inr t \<or>
       (\<exists>k i cb. t = SendStateTransferRequest (request_transfer u k i cb) \<or> t = request_transfer u k i cb)))"
    unfolding Let_def s1_def [symmetric] s2_def [symmetric] by (auto split: if_splits)
  then show "advances s t"
  proof
    assume "\<exists>u. InstallCommittedGaps ap s2 (sp_committedgaps msg) = Inr u \<and>
      (ProcessSyncPrepare ap u (sp_lastop msg) = Inr t \<or>
       (\<exists>k i cb. t = SendStateTransferRequest (request_transfer u k i cb) \<or> t = request_transfer u k i cb))"
    then obtain u where u: "advances s2 u" "advances u t"
      using InstallCommittedGaps_advances ProcessSyncPrepare_advances request_transfer_advances transfer_advances
      by metis
    then show ?thesis using adv(2) advances_trans by blast
  qed (simp add: adv)
qed

lemma HandleSyncCommit_advances:
  assumes "HandleSyncCommit ap s sn vw p = Inr s'"
  shows "advances s s'"
  using assms [unfolded HandleSyncCommit_def]
proof (rule in_view_advances)
  fix t
  define s1 where "s1 = s\<lparr>np_receivedSyncCommitPoints := insert p (np_receivedSyncCommitPoints s)\<rparr>"
  have adv: "advances s s1"
    by (auto simp: s1_def bookkeeping_def intro!: bookkeeping_advances)
  have fin: "advances u (u\<lparr>np_receivedSyncPreparePoints := x, np_receivedSyncCommitPoints := y\<rparr>)"
    for u :: "'a NOPaxosReplica" and x y
    by (intro bookkeeping_advances) (simp add: bookkeeping_def)
  assume "check (\<not> AmLeader_np s) AssertFailed
         (if np_lastCommittedOp s \<ge> p then Inr s
          else
            check (np_sessnum s = sn \<and> np_view s = vw) AssertFailed
              (let s1 = s\<lparr>np_receivedSyncCommitPoints := insert p (np_receivedSyncCommitPoints s)\<rparr>
               in if p \<in> np_receivedSyncPreparePoints s1 then
                    (if np_lastOp s1 \<ge> p
                     then rbind (CommitUptoOp ap s1 p) (\<lambda>s2.
                            Inr (s2\<lparr>np_receivedSyncPreparePoints := np_receivedSyncPreparePoints s2 - {p},
                                    np_receivedSyncCommitPoints := np_receivedSyncCommitPoints s2 - {p}\<rparr>))
                     else Inr s1)
                  else Inr (to_leader s1 (NSyncPrepareRequest (np_sessnum s1) (np_view s1))))) = Inr t"
  then have "t = s \<or> t = s1 \<or> (\<exists>m. t = to_leader s1 m) \<or> (\<exists>u x y. CommitUptoOp ap s1 p = Inr u \<and>
      t = u\<lparr>np_receivedSyncPreparePoints := x, np_receivedSyncCommitPoints := y\<rparr>)"
    unfolding Let_def s1_def [symmetric] by (auto split: if_splits)
  then show "advances s t"
    using adv fin CommitUptoOp_advances advances_trans bookkeeping_advances [OF bookkeeping_send(2)] advances_refl
    by metis
qed

lemma HandleSyncPrepareRequest_advances:
  assumes "HandleSyncPrepareRequest s remote sn vw = Inr s'"
  shows "advances s s'"
  using assms [unfolded HandleSyncPrepareRequest_def]
proof (rule in_view_advances)
  fix t
  assume "check (AmLeader_np s) AssertFailed
         (let s1 = send_np s (NToRemote remote) (NOutReplica (NSyncPrepare
                \<lparr>sp_sessnum = np_sessnum s, sp_view = np_view s, sp_lastop = np_leaderLastSyncPreparePoint s,
                 sp_committedgaps = sorted_list_of_set (np_leaderLastSyncCommittedGaps s)\<rparr>))
          in Inr (if np_lastCommittedOp s1 \<ge> np_leaderLastSyncPreparePoint s1
                  then send_np s1 (NToRemote remote) (NOutReplica (NSyncCommit (np_sessnum s1) (np_view s1)
                         (np_leaderLastSyncPreparePoint s1)))
                  else s1)) = Inr t"
  then have "bookkeeping s t" by (auto simp: Let_def bookkeeping_def send_np_def split: if_splits)
  then show "advances s t" by (rule bookkeeping_advances)
qed

section \<open>What keeps the view\<close>

definition same_view :: "'a NOPaxosReplica \<Rightarrow> 'a NOPaxosReplica \<Rightarrow> bool" where
  "same_view s s' \<longleftrightarrow> np_sessnum s' = np_sessnum s \<and> np_view s' = np_view s"

lemma same_view_trans: "\<lbrakk> same_view s t; same_view t u \<rbrakk> \<Longrightarrow> same_view s u"
  by (simp add: same_view_def)

lemma ExecuteUptoOp_view: "ExecuteUptoOp ap s k = Inr s' \<Longrightarrow> same_view s s'"
  using exec_frameD(3,4) [OF ExecuteUptoOp_frame] by (auto simp: same_view_def)

lemma CommitUptoOp_view: "CommitUptoOp ap s k = Inr s' \<Longrightarrow> same_view s s'"
  by (auto simp: CommitUptoOp_def Let_def SendSyncCommit_def send_np_def same_view_def
      split: if_splits dest!: ExecuteUptoOp_view)

lemma EnterView_np_view:
  assumes "EnterView_np ap s x y = Inr s'"
  shows "np_sessnum s' = x \<and> np_view s' = y"
proof -
  define s2 where "s2 = ClearTimeoutAndQuorums ((if x > vs_sessnum (LastViewstamp (np_log s))
     then s\<lparr>np_nextMsgnum := 1\<rparr> else s)\<lparr>np_sessnum := x, np_view := y,
                     np_lastNormalSessnum := x, np_lastNormalView := y, np_status := STATUS_NORMAL\<rparr>)"
  have lo: "np_sessnum s2 = x" "np_view s2 = y" by (simp_all add: s2_def ClearTimeoutAndQuorums_def)
  have "(\<exists>s3. ExecuteUptoOp ap s2 (np_lastOp s2) = Inr s3 \<and> same_view s3 s') \<or> same_view s2 s'"
    using assms unfolding EnterView_np_def Let_def s2_def [symmetric]
    by (auto simp: SendStartView_def SendStartViewReply_def send_np_def to_leader_def same_view_def split: if_splits)
  then show ?thesis using lo by (auto simp: same_view_def dest!: ExecuteUptoOp_view)
qed

lemma complete_transfer_view:
  assumes "complete_transfer ap s op = Inr s'"
  shows "same_view s s'"
proof -
  have "same_view t t'" if "ProcessSyncPrepare ap t p = Inr t'" for t t' :: "'a NOPaxosReplica" and p
    using that by (auto simp: ProcessSyncPrepare_def to_leader_def send_np_def same_view_def
        split: if_splits dest!: CommitUptoOp_view)
  then show ?thesis
    using assms
    by (fastforce simp: complete_transfer_def run_callback_def same_view_def
        split: if_splits transfer_callback.splits dest: EnterView_np_view)
qed

lemma append_next_view:
  assumes "append_next ap s req vs st = Inr s'"
  shows "same_view s s'"
proof -
  have "same_view t t'" if "settle_entry ap t req vs x = Inr t'" for t t' :: "'a NOPaxosReplica" and x
    using that by (auto simp: settle_entry_def send_np_def same_view_def split: if_splits dest!: ExecuteUptoOp_view)
  then show ?thesis
    using append_next_Inr [OF assms] complete_transfer_view
    by (elim exE conjE) (fastforce simp: same_view_def stop_gap_request_def)
qed

lemma ProcessNextOperation_view: "ProcessNextOperation ap s req vs st = Inr s' \<Longrightarrow> same_view s s'"
proof (induction ap s req vs st rule: ProcessNextOperation.induct)
  case (1 ap s req vs st)
  obtain t where t: "append_next ap s req vs st = Inr t"
    using "1.prems" by (auto simp: ProcessNextOperation.simps [of ap s])
  show ?case
    using "1.IH" [OF t] "1.prems" t append_next_view [OF t] same_view_trans
    by (auto simp: ProcessNextOperation.simps [of ap s] split: if_splits)
qed

lemma InstallCommittedGaps_view:
  assumes "InstallCommittedGaps ap s gaps = Inr s'"
  shows "same_view s s'"
proof (rule fold_r_invariant [of "same_view s", OF _ assms [unfolded InstallCommittedGaps_def]])
  fix t t' x
  assume st: "same_view s t" and run: "InstallCommittedGap ap t x = Inr t'"
  have "same_view u u'" if "mark_gap u x = Inr u'" for u u' :: "'a NOPaxosReplica"
    using that by (auto simp: mark_gap_def same_view_def split: if_splits option.splits)
  then have "same_view t t'"
    using run by (fastforce simp: InstallCommittedGap_def Let_def same_view_def split: if_splits
        dest: ProcessNextOperation_view)
  then show "same_view s t'" using st same_view_trans by blast
qed (simp add: same_view_def)

section \<open>View changes that do not rewind\<close>

text \<open>
  A view change rewinds the log when a message reports a later session or view in which its sender last
  operated normally, and when a STARTVIEW reports a shorter log or fewer gaps than this replica has.
  \<open>no_rewind\<close> excludes exactly these cases.
\<close>

definition older_normal :: "'a NOPaxosReplica \<Rightarrow> ViewChangeMessage \<Rightarrow> bool" where
  "older_normal s x \<longleftrightarrow>
     vc_lastnormalsessnum x \<le> np_lastNormalSessnum s \<and> vc_lastnormalview x \<le> np_lastNormalView s"

definition no_rewind :: "'a NOPaxosReplica \<Rightarrow> ToReplicaMessage_np \<Rightarrow> bool" where
  "no_rewind s m =
     (case m of
        NViewChange x \<Rightarrow>
          older_normal s x \<and>
          (\<forall>p\<in>set (messages (np_viewChangeQuorum s) (vc_sessnum x, vc_view x)). older_normal s (snd p))
      | NStartView x \<Rightarrow>
          nsv_lastnormalsessnum x \<le> np_lastNormalSessnum s \<and> nsv_lastnormalview x \<le> np_lastNormalView s \<and>
          np_lastOp s \<le> nsv_lastop x \<and>
          (np_committedGaps s = {} \<or> nsv_committedgaps x = [] \<or>
           Max (np_committedGaps s) \<le> last (nsv_committedgaps x))
      | _ \<Rightarrow> True)"

lemma latest_normal_older:
  "\<forall>p\<in>set ms. vc_lastnormalsessnum (snd p) \<le> ls \<and> vc_lastnormalview (snd p) \<le> lv \<Longrightarrow>
   foldl latest_normal (ls, lv, lo) ms = (ls, lv, lo)"
  by (induction ms) (auto simp: latest_normal_def leD)

lemma merge_message_advances:
  assumes "merge_message ap ls lv (s, a, i) kv = Inr (s', a', i')"
  shows "advances s s'"
  using assms
  by (auto simp: merge_message_def Let_def split: if_splits dest: InstallCommittedGaps_advances)

lemma merge_messages_advances:
  assumes "fold_r (merge_message ap ls lv) (s, a, i) ms = Inr (s', a', i')"
  shows "advances s s'"
proof -
  have "advances s (fst (s', a', i'))"
  proof (rule fold_r_invariant [of "\<lambda>x. advances s (fst x)", OF _ assms])
    show "advances s (fst y)" if "advances s (fst x)" "merge_message ap ls lv x kv = Inr y" for x kv y
      using that merge_message_advances [of ap ls lv "fst x" "fst (snd x)" "snd (snd x)" kv "fst y" "fst (snd y)" "snd (snd y)"]
        advances_trans by auto
  qed simp
  then show ?thesis by simp
qed

lemma merge_logs_advances:
  assumes run: "merge_logs ap s ms = Inr s'" and old: "\<forall>p\<in>set ms. older_normal s (snd p)"
  shows "advances s s'"
proof -
  let ?ls = "np_lastNormalSessnum s" and ?lv = "np_lastNormalView s"
  have l: "foldl latest_normal (?ls, ?lv, np_lastOp s) ms = (?ls, ?lv, np_lastOp s)"
    using old by (intro latest_normal_older) (auto simp: older_normal_def)
  obtain s2 k i where merge: "fold_r (merge_message ap ?ls ?lv) (s, np_lastOp s, - 1) ms = Inr (s2, k, i)"
    and fin: "let s3 = s2\<lparr>np_startViewLastNormalSessnum := ?ls, np_startViewLastNormalView := ?lv,
                       np_startViewLastOp := k, np_startViewCommittedGaps := np_committedGaps s2\<rparr>
       in s' = SendStateTransferRequest (request_transfer s3 k i EnterViewCallback) \<or>
          EnterView_np ap s3 (np_sessnum s3) (np_view s3) = Inr s'"
    using run unfolding merge_logs_def l by (auto simp: Let_def split: if_splits)
  have "advances s2 (s2\<lparr>np_startViewLastNormalSessnum := ?ls, np_startViewLastNormalView := ?lv,
                       np_startViewLastOp := k, np_startViewCommittedGaps := np_committedGaps s2\<rparr>)"
    by (intro bookkeeping_advances) (simp add: bookkeeping_def)
  then have "advances s2 s'"
    using fin transfer_advances EnterView_np_advances advances_trans unfolding Let_def by blast
  then show ?thesis using merge_messages_advances [OF merge] advances_trans by blast
qed

lemma SendViewChange_fields:
  "np_viewChangeQuorum (SendViewChange s) = np_viewChangeQuorum s"
  "np_lastNormalSessnum (SendViewChange s) = np_lastNormalSessnum s"
  "np_lastNormalView (SendViewChange s) = np_lastNormalView s"
  by (simp_all add: SendViewChange_def Let_def send_np_def to_leader_def)

lemma StartViewChange_np_quorum:
  assumes "StartViewChange_np s x y = Inr s'"
  shows "np_viewChangeQuorum s' = Clear (np_viewChangeQuorum s) \<and>
    np_lastNormalSessnum s' = np_lastNormalSessnum s \<and> np_lastNormalView s' = np_lastNormalView s"
proof -
  obtain t where "s' = SendViewChange t" and "np_viewChangeQuorum t = Clear (np_viewChangeQuorum s)"
    "np_lastNormalSessnum t = np_lastNormalSessnum s" "np_lastNormalView t = np_lastNormalView s"
    using assms unfolding StartViewChange_np_def Let_def check_Inr sum.inject
    by (elim conjE) (rule that [OF sym], assumption, simp_all add: ClearTimeoutAndQuorums_def)
  then show ?thesis by (simp add: SendViewChange_fields)
qed

lemma HandleViewChange_Inr:
  assumes "HandleViewChange ap s remote msg = Inr s'"
  shows "\<exists>t. (t = s \<or> StartViewChange_np s (vc_sessnum msg) (vc_view msg) = Inr t) \<and>
     (bookkeeping t s' \<or>
      merge_logs ap (t\<lparr>np_viewChangeQuorum := fst (AddAndCheckForQuorum (np_viewChangeQuorum t)
           (vc_sessnum msg, vc_view msg) (vc_replicaidx msg) msg)\<rparr>)
        (smap_put (vc_replicaidx msg) msg (messages (np_viewChangeQuorum t) (vc_sessnum msg, vc_view msg))) = Inr s')"
proof -
  have "\<exists>t. (if vc_sessnum msg > np_sessnum s \<or> vc_view msg > np_view s
            then StartViewChange_np s (vc_sessnum msg) (vc_view msg) else Inr s) = Inr t \<and>
     (if vc_sessnum msg < np_sessnum t \<or> vc_view msg < np_view t then Inr t
       else
         check (vc_sessnum msg = np_sessnum t \<and> vc_view msg = np_view t) AssertFailed
         (check (AmLeader_np t) AssertFailed
           (if np_status t \<noteq> STATUS_VIEW_CHANGE
            then Inr (send_np t (NToRemote remote) (NOutReplica (start_view_message t)))
            else
              let (q, msgs) = AddAndCheckForQuorum (np_viewChangeQuorum t) (vc_sessnum msg, vc_view msg)
                                (vc_replicaidx msg) msg;
                  s1 = t\<lparr>np_viewChangeQuorum := q\<rparr>
              in case msgs of None \<Rightarrow> Inr s1 | Some ms \<Rightarrow> merge_logs ap s1 ms))) = Inr s'"
    using assms unfolding HandleViewChange_def rbind_Inr .
  then obtain t where t0: "(if vc_sessnum msg > np_sessnum s \<or> vc_view msg > np_view s
            then StartViewChange_np s (vc_sessnum msg) (vc_view msg) else Inr s) = Inr t"
    and k: "(if vc_sessnum msg < np_sessnum t \<or> vc_view msg < np_view t then Inr t
       else
         check (vc_sessnum msg = np_sessnum t \<and> vc_view msg = np_view t) AssertFailed
         (check (AmLeader_np t) AssertFailed
           (if np_status t \<noteq> STATUS_VIEW_CHANGE
            then Inr (send_np t (NToRemote remote) (NOutReplica (start_view_message t)))
            else
              let (q, msgs) = AddAndCheckForQuorum (np_viewChangeQuorum t) (vc_sessnum msg, vc_view msg)
                                (vc_replicaidx msg) msg;
                  s1 = t\<lparr>np_viewChangeQuorum := q\<rparr>
              in case msgs of None \<Rightarrow> Inr s1 | Some ms \<Rightarrow> merge_logs ap s1 ms))) = Inr s'"
    by (elim exE conjE)
  have t: "t = s \<or> StartViewChange_np s (vc_sessnum msg) (vc_view msg) = Inr t"
    using t0 by (auto split: if_splits)
  have refl: "bookkeeping t t" by (simp add: bookkeeping_def)
  have q: "bookkeeping t (t\<lparr>np_viewChangeQuorum := q\<rparr>)" for q by (simp add: bookkeeping_def)
  have "bookkeeping t s' \<or>
      merge_logs ap (t\<lparr>np_viewChangeQuorum := fst (AddAndCheckForQuorum (np_viewChangeQuorum t)
           (vc_sessnum msg, vc_view msg) (vc_replicaidx msg) msg)\<rparr>)
        (smap_put (vc_replicaidx msg) msg (messages (np_viewChangeQuorum t) (vc_sessnum msg, vc_view msg))) = Inr s'"
    using k refl q
    by (auto simp: AddAndCheckForQuorum_def CheckForQuorum_def Let_def split: if_splits)
  then show ?thesis using t by blast
qed

lemma HandleViewChange_advances:
  assumes run: "HandleViewChange ap s remote msg = Inr s'" and old: "no_rewind s (NViewChange msg)"
  shows "advances s s'"
proof -
  obtain t where t: "t = s \<or> StartViewChange_np s (vc_sessnum msg) (vc_view msg) = Inr t"
    and s': "bookkeeping t s' \<or>
      merge_logs ap (t\<lparr>np_viewChangeQuorum := fst (AddAndCheckForQuorum (np_viewChangeQuorum t)
           (vc_sessnum msg, vc_view msg) (vc_replicaidx msg) msg)\<rparr>)
        (smap_put (vc_replicaidx msg) msg (messages (np_viewChangeQuorum t) (vc_sessnum msg, vc_view msg))) = Inr s'"
    using HandleViewChange_Inr [OF run] by blast
  let ?t = "t\<lparr>np_viewChangeQuorum := fst (AddAndCheckForQuorum (np_viewChangeQuorum t)
           (vc_sessnum msg, vc_view msg) (vc_replicaidx msg) msg)\<rparr>"
  let ?ms = "messages (np_viewChangeQuorum t) (vc_sessnum msg, vc_view msg)"
  have adv: "advances s t" using t StartViewChange_np_advances by auto
  have norm: "np_lastNormalSessnum t = np_lastNormalSessnum s" "np_lastNormalView t = np_lastNormalView s"
    and sub: "set ?ms \<subseteq> set (messages (np_viewChangeQuorum s) (vc_sessnum msg, vc_view msg))"
    using t StartViewChange_np_quorum [of s "vc_sessnum msg" "vc_view msg" t] by (auto simp: Clear_def)
  have "\<forall>p\<in>set (smap_put (vc_replicaidx msg) msg ?ms). older_normal ?t (snd p)"
  proof
    fix p
    assume "p \<in> set (smap_put (vc_replicaidx msg) msg ?ms)"
    then have "p = (vc_replicaidx msg, msg) \<or> p \<in> set (messages (np_viewChangeQuorum s) (vc_sessnum msg, vc_view msg))"
      using sub set_smap_put_subset [of "vc_replicaidx msg" msg ?ms] by blast
    then have "older_normal s (snd p)" using old by (auto simp: no_rewind_def)
    then show "older_normal ?t (snd p)" using norm by (simp add: older_normal_def)
  qed
  moreover have "advances t ?t" by (intro bookkeeping_advances) (simp add: bookkeeping_def)
  ultimately have "advances t s'"
    using s' bookkeeping_advances merge_logs_advances advances_trans by blast
  then show ?thesis using adv advances_trans by blast
qed

lemma HandleStartView_np_advances:
  assumes run: "HandleStartView_np ap s msg = Inr s'" and old: "no_rewind s (NStartView msg)"
  shows "advances s s'"
proof -
  have r1: "rewind_for_view s msg = Inr t \<Longrightarrow> t = s" for t
    using old by (auto simp: rewind_for_view_def no_rewind_def split: if_splits)
  have r2: "rewind_last_gap s msg = Inr t \<Longrightarrow> t = s" for t
    using old by (auto simp: rewind_last_gap_def no_rewind_def simp del: Max.bounded_iff split: if_splits dest: leD)
  let ?s = "s\<lparr>np_committedGaps := {}\<rparr>"
  have gaps: "advances s ?s" by (intro bookkeeping_advances) (simp add: bookkeeping_def)
  have view: "advances t (ClearTimeoutAndQuorums (t\<lparr>np_sessnum := nsv_sessnum msg, np_view := nsv_view msg,
                             np_status := STATUS_VIEW_CHANGE\<rparr>))"
    if "np_sessnum t \<le> nsv_sessnum msg" "np_view t \<le> nsv_view msg" for t :: "'a NOPaxosReplica"
    using that by (intro bookkeeping_advances) (simp add: bookkeeping_def ClearTimeoutAndQuorums_def)
  have "s' = s \<or> SendStartViewReply s = Inr s' \<or>
      (np_sessnum s \<le> nsv_sessnum msg \<and> np_view s \<le> nsv_view msg \<and>
       (\<exists>u. InstallCommittedGaps ap ?s (nsv_committedgaps msg) = Inr u \<and>
         (EnterView_np ap u (nsv_sessnum msg) (nsv_view msg) = Inr s' \<or>
          (\<exists>k i cb. s' = SendStateTransferRequest (request_transfer (ClearTimeoutAndQuorums
             (u\<lparr>np_sessnum := nsv_sessnum msg, np_view := nsv_view msg, np_status := STATUS_VIEW_CHANGE\<rparr>)) k i cb)))))"
    using run by (auto simp: HandleStartView_np_def Let_def not_less split: if_splits dest!: r1 r2)
  then show ?thesis
  proof (elim disjE exE conjE)
    assume le: "np_sessnum s \<le> nsv_sessnum msg" "np_view s \<le> nsv_view msg"
    fix u
    assume u: "InstallCommittedGaps ap ?s (nsv_committedgaps msg) = Inr u"
    have su: "advances s u" using gaps InstallCommittedGaps_advances [OF u] advances_trans by blast
    show ?thesis if "EnterView_np ap u (nsv_sessnum msg) (nsv_view msg) = Inr s'"
      using su EnterView_np_advances [OF that] advances_trans by blast
    show ?thesis if "s' = SendStateTransferRequest (request_transfer (ClearTimeoutAndQuorums
             (u\<lparr>np_sessnum := nsv_sessnum msg, np_view := nsv_view msg, np_status := STATUS_VIEW_CHANGE\<rparr>)) k i cb)"
      for k i cb
    proof -
      have "np_sessnum u \<le> nsv_sessnum msg" "np_view u \<le> nsv_view msg"
        using InstallCommittedGaps_view [OF u] le by (simp_all add: same_view_def)
      from view [OF this] show ?thesis unfolding that using su transfer_advances advances_trans by blast
    qed
  qed (simp_all add: SendStartViewReply_advances)
qed

section \<open>The step\<close>

text \<open>What the replica expects of an event: a log that is not full, state-transfer replies whose entries
  are requests or no-ops, and no rewinding.\<close>

definition np_ok :: "'a NOPaxosReplica \<Rightarrow> np_event \<Rightarrow> bool" where
  "np_ok s ev \<longleftrightarrow> np_lastOp s \<noteq> - 1 \<and>
     (case ev of
        NDeliver remote m \<Rightarrow>
          no_rewind s m \<and>
          (case m of NStateTransferReply r \<Rightarrow> \<forall>e\<in>set (str_entries r). settled (me_state e) | _ \<Rightarrow> True)
      | NFire t \<Rightarrow> True)"

lemmas handler_advances =
  HandleClientRequest_advances HandleGapRequest_advances HandleGapReply_advances
  HandleStateTransferRequest_advances HandleGapCommitReply_advances HandleViewChangeRequest_advances
  HandleStartViewReply_advances HandleSyncPrepareRequest_advances HandleSyncPrepare_advances
  HandleSyncPrepareReply_advances HandleSyncCommit_advances

lemma HandleUnloggedRequest_np_advances: "HandleUnloggedRequest_np ap s remote op = Inr s' \<Longrightarrow> advances s s'"
  by (intro bookkeeping_advances) (auto simp: HandleUnloggedRequest_np_def Let_def bookkeeping_def send_np_def)

lemma dispatch_np_advances:
  assumes "dispatch_np ap s remote m = Inr s'" and "np_ok s (NDeliver remote m)"
  shows "advances s s'"
proof (cases m)
  case (NStateTransferReply r)
  then show ?thesis using assms by (auto simp: dispatch_np_def np_ok_def intro: HandleStateTransferReply_advances)
next
  case (NGapCommit sn vw op)
  then show ?thesis using assms by (auto simp: dispatch_np_def np_ok_def intro: HandleGapCommit_advances)
next
  case (NViewChange x)
  then show ?thesis using assms by (auto simp: dispatch_np_def np_ok_def intro: HandleViewChange_advances)
next
  case (NStartView x)
  then show ?thesis using assms by (auto simp: dispatch_np_def np_ok_def intro: HandleStartView_np_advances)
next
  case (NUnloggedRequest op)
  then show ?thesis using assms(1) by (simp add: dispatch_np_def HandleUnloggedRequest_np_advances)
qed (use assms(1) in \<open>simp_all add: dispatch_np_def handler_advances\<close>)

lemma HandleTimeout_np_advances: "HandleTimeout_np ap s t = Inr s' \<Longrightarrow> advances s s'"
  by (cases t)
    (auto simp: HandleTimeout_np_def split: if_splits
      intro: bookkeeping_advances StartGapAgreement_advances SendGapCommit_advances SendStartView_advances
        SendSyncPrepare_advances StartViewChange_np_advances)

lemma np_step_advances:
  assumes "np_step ap s ev = Inr s'" and "np_ok s ev"
  shows "advances s s'"
proof (cases ev)
  case (NDeliver remote m)
  then obtain t where t: "dispatch_np ap s remote m = Inr t" "ProcessPendingRequests ap t = Inr s'"
    using assms(1) by (auto simp: np_step_def ReceiveMessage_np_def)
  then show ?thesis
    using dispatch_np_advances ProcessPendingRequests_advances assms(2) NDeliver advances_trans by blast
next
  case (NFire t)
  then show ?thesis using assms(1) HandleTimeout_np_advances by (simp add: np_step_def)
qed

lemma NOPaxosReplica_new_core:
  assumes "NOPaxosReplica_new c idx a = Inr s"
  shows "np_core s"
  using assms
  by (auto simp: NOPaxosReplica_new_def Log_new_def Let_def np_core_def log_core_def log_wf_def log_at_def
      LastOpnum_def split: if_splits)

interpretation np: progress_system "np_step ap" np_ok np_core np_grows
  for ap :: "'a AppReplica"
proof
  show "np_core s'" if "np_core s" "np_ok s m" "np_step ap s m = Inr s'" for s s' :: "'a NOPaxosReplica" and m
    using np_step_advances [OF that(3,2)] that(1) by (simp add: advances_def)
  show "np_grows s s'" if "np_core s" "np_ok s m" "np_step ap s m = Inr s'" for s s' :: "'a NOPaxosReplica" and m
    using np_step_advances [OF that(3,2)] that(1) by (simp add: advances_def)
qed (simp, rule np_grows_trans)

end
