(* ===== verification/NOPaxosProperties.thy ===== *)
theory NOPaxosProperties
  imports NOPaxosInvariant "HOL-Library.Multiset"
begin

text \<open>
  Theorems about the NOPaxos replica: its invariant and the stability of its history over runs, the
  ordering of client requests by the sequencer's message numbers, execution at most once and in log
  order, gap agreement and synchronization quorums, the drain of pending requests, and what a
  rewind and a state transfer really do.
\<close>

section \<open>A concrete group for the witnesses\<close>

definition np_replica :: "int \<Rightarrow> string list NOPaxosReplica" where
  "np_replica idx = projr (NOPaxosReplica_new (sample_config 1) idx [])"

lemma np_replica_new: "NOPaxosReplica_new (sample_config 1) idx [] = Inr (np_replica idx)"
  by (simp add: np_replica_def NOPaxosReplica_new_def Log_new_def Let_def)

lemma np_replica_core: "np_core (np_replica idx)"
  using np_replica_new by (rule NOPaxosReplica_new_core)

definition np_request :: "u64 \<Rightarrow> string \<Rightarrow> u64 \<Rightarrow> u64 \<Rightarrow> RequestMessage" where
  "np_request n op c r = \<lparr>rm_sessnum = 0, rm_msgnum = n, rm_req = sample_req op c r\<rparr>"

definition np_final :: "string list NOPaxosReplica \<Rightarrow> np_event list \<Rightarrow> string list NOPaxosReplica" where
  "np_final s evs = projr (fold_r (np_step sample_app) s evs)"

text \<open>A leader receives the first two requests, the second one twice, then one it cannot place yet, and its
  synchronization timer fires.\<close>

definition np_run :: "np_event list" where
  "np_run = [NDeliver 9 (NRequest (np_request 1 ''a'' 7 1)), NDeliver 9 (NRequest (np_request 2 ''b'' 8 1)),
     NDeliver 9 (NRequest (np_request 2 ''b'' 8 1)), NDeliver 9 (NRequest (np_request 4 ''d'' 7 2)), NFire SyncTimeout]"

lemma np_run_ok:
  "fold_r (np_step sample_app) (np_replica 0) np_run = Inr (np_final (np_replica 0) np_run)"
  "accepts (np_step sample_app) np_ok (np_replica 0) np_run"
  "np_lastOp (np_final (np_replica 0) np_run) = 2"
  "np_app_state (np_final (np_replica 0) np_run) = [''a'', ''b'']"
proof -
  have "(case fold_r (np_step sample_app) (np_replica 0) np_run of Inl _ \<Rightarrow> False
     | Inr s \<Rightarrow> np_lastOp s = 2 \<and> np_app_state s = [''a'', ''b''])"
    by code_simp
  then show "fold_r (np_step sample_app) (np_replica 0) np_run = Inr (np_final (np_replica 0) np_run)"
    "np_lastOp (np_final (np_replica 0) np_run) = 2"
    "np_app_state (np_final (np_replica 0) np_run) = [''a'', ''b'']"
    unfolding np_final_def by (auto split: sum.splits)
  show "accepts (np_step sample_app) np_ok (np_replica 0) np_run" by code_simp
qed

section \<open>Whole runs\<close>

text \<open>C3. A NOPaxos replica that starts from its constructor and takes any messages and timeouts that do not
  make it rewind keeps its log well formed and in step with its counters: operation numbers are
  consecutive from 1, \<^verbatim>\<open>lastOp\<close> is the last of them, nothing beyond it is executed or committed,
  every entry is a received request or a no-op, and every committed gap within the log is a no-op.\<close>

theorem np_run_invariant:
  assumes "NOPaxosReplica_new c idx a = Inr s0"
    and "accepts (np_step ap) np_ok s0 evs" and "fold_r (np_step ap) s0 evs = Inr s"
  shows "log_wf (np_log s) \<and> np_lastOp s = LastOpnum (np_log s) \<and>
     np_lastExecutedOp s \<le> np_lastOp s \<and> np_lastCommittedOp s \<le> np_lastOp s \<and>
     (\<forall>i. log_at (np_log s) i \<noteq> None \<longleftrightarrow> 1 \<le> i \<and> i \<le> np_lastOp s) \<and>
     (\<forall>i e. log_at (np_log s) i = Some e \<longrightarrow>
        le_state e = (if i \<in> np_committedGaps s then LOG_STATE_NOOP else le_state e) \<and>
        le_state e \<in> {LOG_STATE_RECEIVED, LOG_STATE_NOOP})"
proof -
  have core: "np_core s"
    using np.run_inv [OF NOPaxosReplica_new_core [OF assms(1)] assms(2,3)] .
  note C = np_coreD [OF core]
  have "\<forall>i. log_at (np_log s) i \<noteq> None \<longleftrightarrow> 1 \<le> i \<and> i \<le> np_lastOp s"
    using code_log.dom [OF C(1)] C(2,4) by simp
  then show ?thesis using C core by (auto simp: np_core_def log_core_def settled_def)
qed

theorem np_run_invariant_witness:
  "np_lastOp (np_final (np_replica 0) np_run) = 2 \<and>
   LastOpnum (np_log (np_final (np_replica 0) np_run)) = 2 \<and>
   log_at (np_log (np_final (np_replica 0) np_run)) 3 = None"
proof -
  have "\<not> (3 :: u64) \<le> 2" by simp
  then show ?thesis
    using np_run_invariant [OF np_replica_new np_run_ok(2,1)] np_run_ok(3) by metis
qed

text \<open>C4. The history of a NOPaxos replica is append-only as long as it does not rewind: over any run the
  session, the view, the last operation, the execution and the commit point never go back, every
  logged operation keeps its viewstamp and its request and changes at most into a no-op, and no client's
  last request number decreases.\<close>

theorem np_history_stable:
  assumes "np_core s" and "accepts (np_step ap) np_ok s evs" and "fold_r (np_step ap) s evs = Inr s'"
  shows "np_sessnum s \<le> np_sessnum s' \<and> np_view s \<le> np_view s' \<and> np_lastOp s \<le> np_lastOp s' \<and>
     np_lastExecutedOp s \<le> np_lastExecutedOp s' \<and> np_lastCommittedOp s \<le> np_lastCommittedOp s' \<and>
     (\<forall>i e. log_at (np_log s) i = Some e \<longrightarrow>
        (\<exists>e'. log_at (np_log s') i = Some e' \<and> le_viewstamp e' = le_viewstamp e \<and>
              le_request e' = le_request e \<and> (le_state e' = le_state e \<or> le_state e' = LOG_STATE_NOOP))) \<and>
     (\<forall>c k. last_reqs s c = Some k \<longrightarrow> (\<exists>k'. last_reqs s' c = Some k' \<and> k \<le> k'))"
proof -
  have g: "np_grows s s'" using np.run_rel [OF assms] .
  have "\<exists>k'. last_reqs s' c = Some k' \<and> k \<le> k'" if "last_reqs s c = Some k" for c k
    using that g unfolding np_grows_def table_grows_def last_reqs_def by fastforce
  then show ?thesis using g by (simp add: np_grows_def log_grows_def same_op_def)
qed

definition np_tail :: "np_event list" where
  "np_tail = [NFire GapRequestTimeout, NDeliver 3 (NGapCommitReply
       \<lparr>gcr_sessnum = 0, gcr_view = 0, gcr_opnum = 3, gcr_replicaidx = 1\<rparr>), NFire SyncTimeout]"

theorem np_history_stable_witness:
  "\<exists>s'. fold_r (np_step sample_app) (np_final (np_replica 0) np_run) np_tail = Inr s' \<and> np_lastOp s' = 4 \<and>
     map_option le_request (log_at (np_log s') 2) =
       map_option le_request (log_at (np_log (np_final (np_replica 0) np_run)) 2)"
proof -
  let ?s = "np_final (np_replica 0) np_run"
  have core: "np_core ?s" using np.run_inv [OF np_replica_core np_run_ok(2,1)] .
  have acc: "accepts (np_step sample_app) np_ok ?s np_tail"
    and fin: "case fold_r (np_step sample_app) ?s np_tail of Inl _ \<Rightarrow> False | Inr s' \<Rightarrow> np_lastOp s' = 4"
    by code_simp+
  then obtain s' where run: "fold_r (np_step sample_app) ?s np_tail = Inr s'" "np_lastOp s' = 4"
    by (auto split: sum.splits)
  have "log_at (np_log ?s) 2 \<noteq> None"
    using code_log.dom [OF np_coreD(1) [OF core], of 2] np_coreD(2,4) [OF core] np_run_ok(3) by simp
  then obtain e where e: "log_at (np_log ?s) 2 = Some e" by blast
  then obtain e' where "log_at (np_log s') 2 = Some e'" "le_request e' = le_request e"
    using np_history_stable [OF core acc run(1)] by blast
  then show ?thesis using run e by auto
qed

section \<open>Execution\<close>

text \<open>C11. \<^verbatim>\<open>ExecuteUptoOp\<close> up to a logged operation never aborts and always returns: it runs, in log order,
  exactly those received requests beyond the execution point that are newer than the last request of
  their client, records them, skips no-ops and duplicates, and moves the execution point to the
  later of the two; log, view and commit point stay.\<close>

theorem ExecuteUptoOp_in_order:
  assumes "np_core s" and "k \<le> np_lastOp s" and "np_lastOp s \<noteq> - 1"
  shows "\<exists>s'. ExecuteUptoOp ap s k = Inr s' \<and> np_core s' \<and>
     np_lastExecutedOp s' = max (np_lastExecutedOp s) k \<and>
     (np_app_state s', last_reqs s') =
       foldl (exec_ref ap (np_log s)) (np_app_state s, last_reqs s) (op_range (np_lastExecutedOp s + 1) (k + 1)) \<and>
     np_log s' = np_log s \<and> np_lastCommittedOp s' = np_lastCommittedOp s \<and> np_view s' = np_view s"
proof -
  obtain s' where s': "ExecuteUptoOp ap s k = Inr s'" "exec_frame s s'"
    "np_lastExecutedOp s' = max (np_lastExecutedOp s) k"
    "(np_app_state s', last_reqs s') =
       foldl (exec_ref ap (np_log s)) (np_app_state s, last_reqs s) (op_range (np_lastExecutedOp s + 1) (k + 1))"
    using ExecuteUptoOp_spec [OF assms, of ap] by (elim exE conjE)
  have "np_core s'" using ExecuteUptoOp_advances [OF s'(1)] assms(1) by (simp add: advances_def)
  then show ?thesis using s' exec_frameD [OF s'(2)] by (intro exI [of _ s']) simp
qed

theorem ExecuteUptoOp_in_order_witness:
  "\<exists>s s'. ExecuteUptoOp sample_app s 3 = Inr s' \<and> np_lastExecutedOp s = 0 \<and> np_lastExecutedOp s' = 3 \<and>
     np_app_state s' = [''a'', ''b'']"
proof -
  let ?evs = "[NDeliver 9 (NRequest (np_request 1 ''a'' 7 1)), NDeliver 9 (NRequest (np_request 2 ''b'' 8 1)),
     NDeliver 9 (NRequest (np_request 3 ''b'' 8 1))]"
  let ?s = "np_final (np_replica 1) ?evs"
  have "case fold_r (np_step sample_app) (np_replica 1) ?evs of Inl _ \<Rightarrow> False
     | Inr s \<Rightarrow> np_lastOp s = 3 \<and> np_lastExecutedOp s = 0 \<and>
         fst (foldl (exec_ref sample_app (np_log s)) (np_app_state s, last_reqs s) (op_range (np_lastExecutedOp s + 1) (3 + 1))) = [''a'', ''b'']"
    and acc: "accepts (np_step sample_app) np_ok (np_replica 1) ?evs"
    by code_simp+
  then obtain s where run: "fold_r (np_step sample_app) (np_replica 1) ?evs = Inr s"
    and s: "np_lastOp s = 3" "np_lastExecutedOp s = 0"
      "fst (foldl (exec_ref sample_app (np_log s)) (np_app_state s, last_reqs s) (op_range (np_lastExecutedOp s + 1) (3 + 1))) = [''a'', ''b'']"
    by (auto split: sum.splits)
  have core: "np_core s" using np.run_inv [OF np_replica_core acc run] .
  have "3 \<le> np_lastOp s" "np_lastOp s \<noteq> - 1" using s(1) by simp_all
  from ExecuteUptoOp_in_order [OF core this, of sample_app] obtain s' where
    e: "ExecuteUptoOp sample_app s 3 = Inr s'" "np_lastExecutedOp s' = max (np_lastExecutedOp s) 3"
    and a: "(np_app_state s', last_reqs s') =
       foldl (exec_ref sample_app (np_log s)) (np_app_state s, last_reqs s) (op_range (np_lastExecutedOp s + 1) (3 + 1))"
    by (elim exE conjE)
  have "np_app_state s' = [''a'', ''b'']" using s(3) unfolding a [symmetric] by simp
  then show ?thesis using s(2) e by (intro exI [of _ s] exI [of _ s']) simp
qed

section \<open>Sequencing\<close>

text \<open>Appending a request the replica knows nothing about yet.\<close>

lemma append_received:
  assumes core: "np_core s" and vs: "vs_opnum vs = np_lastOp s + 1" and room: "np_lastOp s + 1 \<noteq> - 1"
    "np_lastOp s \<noteq> - 1"
    and gap: "np_lastOp s + 1 \<notin> np_committedGaps s" and tr: "np_stateTransferOpEnd s \<noteq> np_lastOp s + 1"
  shows "\<exists>s'. append_next ap s req vs LOG_STATE_RECEIVED = Inr s' \<and> np_core s' \<and> np_grows s s' \<and>
     np_lastOp s' = np_lastOp s + 1 \<and> np_nextMsgnum s' = vs_msgnum vs + 1 \<and>
     np_log s' = (np_log s)\<lparr>entries := entries (np_log s) @ [LogEntry_new vs LOG_STATE_RECEIVED req]\<rparr> \<and>
     log_at (np_log s') (np_lastOp s + 1) = Some (LogEntry_new vs LOG_STATE_RECEIVED req) \<and>
     (\<forall>i \<le> np_lastOp s. log_at (np_log s') i = log_at (np_log s) i) \<and>
     np_status s' = np_status s \<and> np_sessnum s' = np_sessnum s \<and> np_view s' = np_view s \<and>
     np_committedGaps s' = np_committedGaps s \<and> np_stateTransferOpEnd s' = np_stateTransferOpEnd s \<and>
     np_pendingRequests s' = np_pendingRequests s"
proof -
  note C = np_coreD [OF core]
  let ?e = "LogEntry_new vs LOG_STATE_RECEIVED req"
  let ?l = "(np_log s)\<lparr>entries := entries (np_log s) @ [?e]\<rparr>"
  have st: "entry_state s (vs_opnum vs) LOG_STATE_RECEIVED = LOG_STATE_RECEIVED"
    using gap vs by (simp add: entry_state_def)
  have opn: "vs_opnum (le_viewstamp ?e) = LastOpnum (np_log s) + 1" using vs C(4) by (simp add: LogEntry_new_def)
  then have app: "Append id (np_log s) ?e = Inr ?l"
    using C(2,3) by (auto simp: Append_def LastOpnum_def)
  note A = appended_advances [OF core room(2) noop_settled(2), of vs req ?l "np_committedGaps s", unfolded st, OF app]
  define t where "t = stop_gap_request (s\<lparr>np_lastOp := vs_opnum vs, np_nextMsgnum := vs_msgnum vs + 1, np_log := ?l\<rparr>)"
  have t: "np_lastOp t = np_lastOp s + 1" "np_log t = ?l" "np_committedGaps t = np_committedGaps s"
    "np_lastExecutedOp t = np_lastExecutedOp s" "np_lastCommittedOp t = np_lastCommittedOp s"
    "np_nextMsgnum t = vs_msgnum vs + 1" "np_status t = np_status s" "np_sessnum t = np_sessnum s"
    "np_view t = np_view s" "np_stateTransferOpEnd t = np_stateTransferOpEnd s"
    "np_pendingRequests t = np_pendingRequests s"
    by (simp_all add: t_def stop_gap_request_def vs)
  have le: "np_lastOp s \<le> np_lastOp s + 1"
    using room(2) unat_add_of_nat [of "np_lastOp s" 1] unfolding u64_not_max by (simp add: word_le_nat_alt)
  have core_t: "np_core t"
    unfolding np_core_def t using A C(5,6) le by (auto intro: order_trans)
  have "\<exists>u. settle_entry ap t req vs LOG_STATE_RECEIVED = Inr u \<and>
      (exec_frame t u)"
    using ExecuteUptoOp_spec [OF core_t, of "vs_opnum vs" ap] vs t(1) room(1) exec_frame_update(4)
    by (auto simp: settle_entry_def)
  then obtain u where u: "settle_entry ap t req vs LOG_STATE_RECEIVED = Inr u" "exec_frame t u" by blast
  note U = exec_frameD [OF u(2)]
  have fin: "complete_transfer ap u (vs_opnum vs) = Inr u"
    using tr vs U(13) t(10) by (simp add: complete_transfer_def)
  have st': "entry_state (s\<lparr>np_lastOp := vs_opnum vs, np_nextMsgnum := vs_msgnum vs + 1\<rparr>) (vs_opnum vs) LOG_STATE_RECEIVED
      = LOG_STATE_RECEIVED"
    using gap vs by (simp add: entry_state_def)
  have run: "append_next ap s req vs LOG_STATE_RECEIVED = Inr u"
    using room(2) vs u(1) fin unfolding append_next_def Let_def st'
    by (simp add: app t_def vs)
  have adv: "np_core u" "np_grows s u"
    using append_next_advances [OF run noop_settled(2)] core by (simp_all add: advances_def)
  have old: "\<forall>i \<le> np_lastOp s. log_at (np_log u) i = log_at (np_log s) i"
    using code_log.append_inv [OF C(1) _ app] C(4) room(2) U(2) t(2) by simp
  have new: "log_at (np_log u) (np_lastOp s + 1) = Some ?e" using A(5) U(2) t(2) by simp
  show ?thesis
    using run adv old new U t by (intro exI [of _ u]) simp
qed

lemma process_received:
  assumes core: "np_core s" and vs: "vs_opnum vs = np_lastOp s + 1"
    and room: "unat (np_lastOp s) + 2 < 2 ^ 64"
    and gaps: "\<forall>g\<in>np_committedGaps s. g \<le> np_lastOp s" and tr: "np_stateTransferOpEnd s \<noteq> np_lastOp s + 1"
  shows "\<exists>s'. ProcessNextOperation ap s req vs LOG_STATE_RECEIVED = Inr s' \<and> np_core s' \<and> np_grows s s' \<and>
     np_lastOp s' = np_lastOp s + 1 \<and> np_nextMsgnum s' = vs_msgnum vs + 1 \<and>
     np_log s' = (np_log s)\<lparr>entries := entries (np_log s) @ [LogEntry_new vs LOG_STATE_RECEIVED req]\<rparr> \<and>
     log_at (np_log s') (np_lastOp s + 1) = Some (LogEntry_new vs LOG_STATE_RECEIVED req) \<and>
     (\<forall>i \<le> np_lastOp s. log_at (np_log s') i = log_at (np_log s) i) \<and>
     np_status s' = np_status s \<and> np_sessnum s' = np_sessnum s \<and> np_view s' = np_view s \<and>
     np_committedGaps s' = np_committedGaps s \<and> np_stateTransferOpEnd s' = np_stateTransferOpEnd s \<and>
     np_pendingRequests s' = np_pendingRequests s"
proof -
  have u0: "unat (np_lastOp s + 1) = unat (np_lastOp s) + 1"
    using room unat_add_of_nat [of "np_lastOp s" 1] by simp
  then have u1: "unat (np_lastOp s + 1) = unat (np_lastOp s) + 1" "unat (np_lastOp s + 1 + 1) = unat (np_lastOp s) + 2"
    using room unat_add_of_nat [of "np_lastOp s + 1" 1] by simp_all
  have r: "np_lastOp s + 1 \<noteq> - 1" "np_lastOp s \<noteq> - 1" using room u1 unfolding u64_not_max by simp_all
  have g: "np_lastOp s + 1 \<notin> np_committedGaps s" "np_lastOp s + 1 + 1 \<notin> np_committedGaps s"
    using gaps u1 by (auto simp: word_le_nat_alt)
  show ?thesis
    using append_received [OF core vs r g(1) tr, of ap req] g(2)
    by (elim exE conjE) (auto simp: ProcessNextOperation.simps [of ap s])
qed

text \<open>The request with the number the replica waits for, or the first request of a session, is processed.\<close>

lemma next_request_processed:
  assumes core: "np_core s" and st: "np_status s = STATUS_NORMAL" and sess: "rm_sessnum msg = np_sessnum s"
    and room: "unat (np_lastOp s) + 2 < 2 ^ 64" and gaps: "\<forall>g\<in>np_committedGaps s. g \<le> np_lastOp s"
    and tr: "np_stateTransferOpEnd s \<noteq> np_lastOp s + 1"
    and num: "rm_msgnum msg = np_nextMsgnum s \<or> np_nextMsgnum s = 1 \<and> 1 < rm_msgnum msg"
  shows "\<exists>s'. TryProcessClientRequest ap s msg = Inr (s', True) \<and> np_core s' \<and>
     np_lastOp s' = np_lastOp s + 1 \<and> np_nextMsgnum s' = rm_msgnum msg + 1 \<and>
     log_at (np_log s') (np_lastOp s + 1) = Some (LogEntry_new
       (viewstamp4 (np_view s) (np_lastOp s + 1) (rm_sessnum msg) (rm_msgnum msg)) LOG_STATE_RECEIVED (rm_req msg)) \<and>
     (\<forall>i \<le> np_lastOp s. log_at (np_log s') i = log_at (np_log s) i)"
proof -
  let ?vs = "viewstamp4 (np_view s) (np_lastOp s + 1) (rm_sessnum msg) (rm_msgnum msg)"
  have vs: "vs_opnum ?vs = np_lastOp s + 1" "vs_msgnum ?vs = rm_msgnum msg" by (simp_all add: viewstamp4_def)
  let ?t = "s\<lparr>np_nextMsgnum := rm_msgnum msg\<rparr>"
  have t: "np_core ?t" using core by (simp add: np_core_def)
  show ?thesis
  proof (cases "rm_msgnum msg = np_nextMsgnum s")
    case True
    then show ?thesis
      using process_received [OF core vs(1) room gaps tr, of ap "rm_req msg"] st sess vs(2)
      by (elim exE conjE) (simp add: TryProcessClientRequest_def Let_def)
  next
    case False
    then have n: "np_nextMsgnum s = 1" "1 < rm_msgnum msg" "\<not> rm_msgnum msg < 1" using num by auto
    then show ?thesis
      using process_received [OF t, of ?vs ap "rm_req msg"] vs room gaps tr st sess
      by (simp add: TryProcessClientRequest_def Let_def) (elim exE conjE, simp)
  qed
qed

text \<open>A request of a later session makes the replica change views, and waits for the new view unless its number is old.\<close>

lemma later_session_starts_view_change:
  assumes st: "np_status s = STATUS_NORMAL" and sess: "np_sessnum s < rm_sessnum msg"
  shows "\<exists>s'. HandleClientRequest ap s msg = Inr s' \<and> np_status s' = STATUS_VIEW_CHANGE \<and> np_sessnum s' = rm_sessnum msg \<and>
     np_view s' = np_view s \<and> np_log s' = np_log s \<and> np_lastOp s' = np_lastOp s \<and>
     np_nextMsgnum s' = (if vs_sessnum (LastViewstamp (np_log s)) < rm_sessnum msg then 1 else np_nextMsgnum s) \<and>
     np_pendingRequests s' = np_pendingRequests s @ (if np_nextMsgnum s' \<le> rm_msgnum msg then [msg] else [])"
proof -
  define c where "c = (ClearTimeoutAndQuorums s)\<lparr>np_sessnum := rm_sessnum msg, np_view := np_view s\<rparr>"
  define t where "t = (if vs_sessnum (LastViewstamp (np_log s)) < rm_sessnum msg then c\<lparr>np_nextMsgnum := 1\<rparr> else c)"
  define u where "u = SendViewChange (t\<lparr>np_status := STATUS_VIEW_CHANGE, np_committedGaps := {g \<in> np_committedGaps t. g \<le> np_lastOp t}\<rparr>)"
  have c: "np_sessnum c = rm_sessnum msg" "np_view c = np_view s" "np_log c = np_log s" "np_lastOp c = np_lastOp s"
    "np_nextMsgnum c = np_nextMsgnum s" "np_pendingRequests c = np_pendingRequests s"
    by (simp_all add: c_def ClearTimeoutAndQuorums_def)
  have t: "np_sessnum t = rm_sessnum msg" "np_view t = np_view s" "np_log t = np_log s" "np_lastOp t = np_lastOp s"
    "np_nextMsgnum t = (if vs_sessnum (LastViewstamp (np_log s)) < rm_sessnum msg then 1 else np_nextMsgnum s)"
    "np_pendingRequests t = np_pendingRequests s"
    by (simp_all add: t_def c)
  have u: "np_status u = STATUS_VIEW_CHANGE" "np_sessnum u = rm_sessnum msg" "np_view u = np_view s" "np_log u = np_log s"
    "np_lastOp u = np_lastOp s" "np_nextMsgnum u = np_nextMsgnum t" "np_pendingRequests u = np_pendingRequests s"
    by (simp_all add: u_def SendViewChange_def send_np_def to_leader_def Let_def t)
  have cl: "np_log (ClearTimeoutAndQuorums s) = np_log s" by (simp add: ClearTimeoutAndQuorums_def)
  have "StartViewChange_np s (rm_sessnum msg) (np_view s) = Inr u"
    using sess by (simp add: StartViewChange_np_def Let_def u_def t_def c_def cl)
  then have attempt: "TryProcessClientRequest ap s msg = Inr (u, False)"
    using st sess by (simp add: TryProcessClientRequest_def Let_def not_less_iff_gr_or_eq)
  have "rm_sessnum msg \<noteq> 0" using sess by auto
  then have "HandleClientRequest ap s msg = Inr (AddPendingRequest u msg)" by (simp add: HandleClientRequest_def attempt)
  then show ?thesis by (simp add: AddPendingRequest_def u t(5))
qed

text \<open>C32. What a replica in normal operation does with a stamped client request, in every case.  A request
  without a stamp (session 0, number 0) makes it panic.  A request of an earlier session, or of the current one with an old number,
  is dropped.  A request of the current session that is ahead of the next number is put at the end of the pending requests, and the
  replica asks for the missing one unless it is already waiting for a gap.  The one with the next number, and
  any number while the first request of the session is awaited, is
  appended as the next operation, without aborting, under its sequencer stamp, after which the number
  after it is expected.  A request of a later session starts a view change to that session in the same view and is
  put at the end of the pending requests unless its number is old.  (The operation numbers do not run out, the committed gaps
  are filled and no state transfer ends at the next operation.)\<close>

theorem request_sequencing:
  assumes core: "np_core s" and st: "np_status s = STATUS_NORMAL"
    and room: "unat (np_lastOp s) + 2 < 2 ^ 64" and gaps: "\<forall>g\<in>np_committedGaps s. g \<le> np_lastOp s"
    and tr: "np_stateTransferOpEnd s \<noteq> np_lastOp s + 1"
  shows "if rm_sessnum msg = 0 \<and> rm_msgnum msg = 0 then HandleClientRequest ap s msg = Inl Panicked
     else if rm_sessnum msg < np_sessnum s \<or> rm_sessnum msg = np_sessnum s \<and> rm_msgnum msg < np_nextMsgnum s
     then HandleClientRequest ap s msg = Inr s
     else if rm_sessnum msg = np_sessnum s \<and> np_nextMsgnum s < rm_msgnum msg \<and> np_nextMsgnum s \<noteq> 1
     then HandleClientRequest ap s msg =
       Inr ((if np_gapRequestTimeout s \<or> np_gapCommitTimeout s then s else SendGapRequest s)
         \<lparr>np_pendingRequests := np_pendingRequests s @ [msg], np_pendingRequestsSorted := False\<rparr>)
     else \<exists>s'. HandleClientRequest ap s msg = Inr s' \<and>
       (if rm_sessnum msg = np_sessnum s
        then np_core s' \<and> np_lastOp s' = np_lastOp s + 1 \<and> np_nextMsgnum s' = rm_msgnum msg + 1 \<and>
          log_at (np_log s') (np_lastOp s + 1) = Some (LogEntry_new
            (viewstamp4 (np_view s) (np_lastOp s + 1) (rm_sessnum msg) (rm_msgnum msg)) LOG_STATE_RECEIVED (rm_req msg)) \<and>
          (\<forall>i \<le> np_lastOp s. log_at (np_log s') i = log_at (np_log s) i)
        else np_status s' = STATUS_VIEW_CHANGE \<and> np_sessnum s' = rm_sessnum msg \<and> np_view s' = np_view s \<and>
          np_log s' = np_log s \<and> np_lastOp s' = np_lastOp s \<and>
          np_nextMsgnum s' = (if vs_sessnum (LastViewstamp (np_log s)) < rm_sessnum msg then 1 else np_nextMsgnum s) \<and>
          np_pendingRequests s' = np_pendingRequests s @ (if np_nextMsgnum s' \<le> rm_msgnum msg then [msg] else []))"
proof -
  consider (none) "rm_sessnum msg = 0" "rm_msgnum msg = 0"
    | (old) "\<not> (rm_sessnum msg = 0 \<and> rm_msgnum msg = 0)"
        "rm_sessnum msg < np_sessnum s \<or> rm_sessnum msg = np_sessnum s \<and> rm_msgnum msg < np_nextMsgnum s"
    | (ahead) "\<not> (rm_sessnum msg = 0 \<and> rm_msgnum msg = 0)"
        "rm_sessnum msg = np_sessnum s" "np_nextMsgnum s < rm_msgnum msg" "np_nextMsgnum s \<noteq> 1"
    | (fits) "\<not> (rm_sessnum msg = 0 \<and> rm_msgnum msg = 0)"
        "rm_sessnum msg = np_sessnum s" "rm_msgnum msg = np_nextMsgnum s \<or> np_nextMsgnum s = 1 \<and> 1 < rm_msgnum msg"
    | (later) "np_sessnum s < rm_sessnum msg"
    using less_linear [of "rm_sessnum msg" "np_sessnum s"] less_linear [of "rm_msgnum msg" "np_nextMsgnum s"] by metis
  then show ?thesis
  proof cases
    case none
    then show ?thesis by (simp add: HandleClientRequest_def)
  next
    case old
    then have "TryProcessClientRequest ap s msg = Inr (s, True)"
      using st unfolding TryProcessClientRequest_def Let_def by (elim disjE conjE) simp_all
    then have "HandleClientRequest ap s msg = Inr s" using old(1) by (simp add: HandleClientRequest_def)
    then show ?thesis using old by simp
  next
    case ahead
    let ?t = "if np_gapRequestTimeout s \<or> np_gapCommitTimeout s then s else SendGapRequest s"
    have le: "\<not> rm_msgnum msg < np_nextMsgnum s" "np_nextMsgnum s \<le> rm_msgnum msg" using ahead(3) by auto
    have "TryProcessClientRequest ap s msg = Inr (?t, False)"
      using ahead le(1) st by (simp add: TryProcessClientRequest_def Let_def)
    then have run: "HandleClientRequest ap s msg = Inr (AddPendingRequest ?t msg)"
      using ahead(1) by (simp add: HandleClientRequest_def)
    have "np_sessnum ?t = np_sessnum s" "np_nextMsgnum ?t = np_nextMsgnum s" "np_pendingRequests ?t = np_pendingRequests s"
      by (simp_all add: SendGapRequest_def send_np_def to_leader_def Let_def)
    then have "AddPendingRequest ?t msg = ?t\<lparr>np_pendingRequests := np_pendingRequests s @ [msg], np_pendingRequestsSorted := False\<rparr>"
      using ahead(2) le(2) by (simp add: AddPendingRequest_def)
    then show ?thesis using run ahead le by (simp only: if_True if_False simp_thms less_irrefl)
  next
    case fits
    obtain s' where s': "TryProcessClientRequest ap s msg = Inr (s', True)" "np_core s'" "np_lastOp s' = np_lastOp s + 1"
      "np_nextMsgnum s' = rm_msgnum msg + 1"
      "log_at (np_log s') (np_lastOp s + 1) = Some (LogEntry_new
         (viewstamp4 (np_view s) (np_lastOp s + 1) (rm_sessnum msg) (rm_msgnum msg)) LOG_STATE_RECEIVED (rm_req msg))"
      "\<forall>i \<le> np_lastOp s. log_at (np_log s') i = log_at (np_log s) i"
      using next_request_processed [OF core st fits(2) room gaps tr fits(3), of ap] by (elim exE conjE)
    have c: "\<not> (rm_sessnum msg < np_sessnum s \<or> rm_sessnum msg = np_sessnum s \<and> rm_msgnum msg < np_nextMsgnum s)"
      "\<not> (rm_sessnum msg = np_sessnum s \<and> np_nextMsgnum s < rm_msgnum msg \<and> np_nextMsgnum s \<noteq> 1)"
      using fits(2,3) by auto
    have "HandleClientRequest ap s msg = Inr s'" using fits(1) s'(1) by (simp add: HandleClientRequest_def)
    then show ?thesis unfolding if_not_P [OF fits(1)] if_not_P [OF c(1)] if_not_P [OF c(2)] if_P [OF fits(2)] using s' by blast
  next
    case later
    then have "rm_sessnum msg \<noteq> 0" "\<not> rm_sessnum msg < np_sessnum s" "rm_sessnum msg \<noteq> np_sessnum s" by auto
    then show ?thesis using later_session_starts_view_change [OF st later, of ap] by simp
  qed
qed

theorem request_sequencing_witness:
  "(\<exists>s'. HandleClientRequest sample_app (np_replica 0) (np_request 1 ''a'' 7 1) = Inr s' \<and>
      np_lastOp s' = 1 \<and> np_nextMsgnum s' = 2) \<and>
   (\<exists>s'. HandleClientRequest sample_app (np_replica 0) ((np_request 1 ''a'' 7 1)\<lparr>rm_sessnum := 3\<rparr>) = Inr s' \<and>
      np_status s' = STATUS_VIEW_CHANGE \<and> np_sessnum s' = 3)"
proof -
  let ?s = "np_replica 0"
  have s: "np_status ?s = STATUS_NORMAL" "np_sessnum ?s = 0" "np_lastOp ?s = 0" "np_committedGaps ?s = {}"
    "np_stateTransferOpEnd ?s = 0" "np_nextMsgnum ?s = 1" "np_view ?s = 0"
    by (simp_all add: np_replica_def NOPaxosReplica_new_def Log_new_def Let_def)
  note seq = request_sequencing [OF np_replica_core s(1), unfolded s, of _ sample_app, simplified]
  show ?thesis
    using seq [of "np_request 1 ''a'' 7 1"] seq [of "(np_request 1 ''a'' 7 1)\<lparr>rm_sessnum := 3\<rparr>"] by (auto simp: np_request_def)
qed

section \<open>Pending requests\<close>

lemma radix_less:
  fixes x y m n c :: int
  assumes "x < y" and "m < c" and "0 \<le> n" and "0 \<le> m"
  shows "x * c + m < y * c + n"
proof -
  have "(x + 1) * c \<le> y * c" using assms by (intro mult_right_mono) auto
  then show ?thesis using assms by (simp add: algebra_simps)
qed

lemma pending_key_less: "pending_key a < pending_key b \<longleftrightarrow> ComparePendingRequests a b"
proof -
  have b: "0 \<le> uint (rm_msgnum m)" "uint (rm_msgnum m) < 2 ^ 64" for m
    using uint_lt2p [of "rm_msgnum m"] by simp_all
  have eq: "uint (rm_sessnum a) = uint (rm_sessnum b) \<longleftrightarrow> rm_sessnum a = rm_sessnum b"
    by (metis unsigned_word_eqI)
  let ?x = "uint (rm_sessnum a)" and ?y = "uint (rm_sessnum b)"
  let ?less = "?x * 2 ^ 64 + uint (rm_msgnum a) < ?y * 2 ^ 64 + uint (rm_msgnum b)"
  have "?less \<longleftrightarrow> ?x < ?y \<or> ?x = ?y \<and> uint (rm_msgnum a) < uint (rm_msgnum b)"
  proof (cases rule: linorder_cases [of ?x ?y])
    case less
    then have ?less using b [of a] b [of b] by (intro radix_less)
    then show ?thesis using less by simp
  next
    case greater
    then have "?y * 2 ^ 64 + uint (rm_msgnum b) < ?x * 2 ^ 64 + uint (rm_msgnum a)"
      using b [of a] b [of b] by (intro radix_less)
    then show ?thesis using greater by simp
  qed simp
  then show ?thesis
    unfolding pending_key_def ComparePendingRequests_def word_less_def using eq by auto
qed

text \<open>Sorting the pending requests by the key of the model is what \<^verbatim>\<open>std::list::sort\<close> does with
  \<^verbatim>\<open>ComparePendingRequests\<close>: the result holds the same requests, no request comes before one the
  comparator puts first, and requests the comparator cannot tell apart keep their order.\<close>

theorem pending_sort_correct:
  "mset (sort_key pending_key rs) = mset rs \<and>
   sorted_wrt (\<lambda>a b. \<not> ComparePendingRequests b a) (sort_key pending_key rs) \<and>
   filter (\<lambda>r. \<not> ComparePendingRequests r x \<and> \<not> ComparePendingRequests x r) (sort_key pending_key rs) =
     filter (\<lambda>r. \<not> ComparePendingRequests r x \<and> \<not> ComparePendingRequests x r) rs"
proof -
  have "sorted_wrt (\<lambda>a b. pending_key a \<le> pending_key b) (sort_key pending_key rs)"
    using sorted_sort_key [of pending_key rs] by (simp add: sorted_map)
  then have "sorted_wrt (\<lambda>a b. \<not> ComparePendingRequests b a) (sort_key pending_key rs)"
    by (simp add: pending_key_less [symmetric] not_less)
  moreover have same: "(\<not> ComparePendingRequests r x \<and> \<not> ComparePendingRequests x r) \<longleftrightarrow> pending_key r = pending_key x" for r
    unfolding pending_key_less [symmetric] by auto
  moreover have "filter (\<lambda>r. pending_key r = pending_key x) (sort_key pending_key rs) = filter (\<lambda>r. pending_key r = pending_key x) rs"
    using sort_key_stable [of pending_key "pending_key x" rs] by metis
  ultimately show ?thesis by (simp add: same)
qed

lemma try_next:
  assumes core: "np_core s" and st: "np_status s = STATUS_NORMAL" and msg: "rm_sessnum msg = np_sessnum s"
      "rm_msgnum msg = np_nextMsgnum s"
    and room: "unat (np_lastOp s) + 2 < 2 ^ 64" and gaps: "\<forall>g\<in>np_committedGaps s. g \<le> np_lastOp s"
    and tr: "np_stateTransferOpEnd s = 0"
  shows "\<exists>s'. TryProcessClientRequest ap s msg = Inr (s', True) \<and> np_core s' \<and> np_status s' = STATUS_NORMAL \<and>
     np_sessnum s' = np_sessnum s \<and> np_lastOp s' = np_lastOp s + 1 \<and> np_nextMsgnum s' = np_nextMsgnum s + 1 \<and>
     np_committedGaps s' = np_committedGaps s \<and> np_stateTransferOpEnd s' = 0 \<and>
     map_option le_request (log_at (np_log s') (np_lastOp s + 1)) = Some (rm_req msg) \<and>
     (\<forall>i \<le> np_lastOp s. log_at (np_log s') i = log_at (np_log s) i)"
proof -
  let ?vs = "viewstamp4 (np_view s) (np_lastOp s + 1) (rm_sessnum msg) (rm_msgnum msg)"
  have vs: "vs_opnum ?vs = np_lastOp s + 1" "vs_msgnum ?vs = rm_msgnum msg" by (simp_all add: viewstamp4_def)
  have "unat (np_lastOp s + 1) = unat (np_lastOp s) + 1"
    using room unat_add_of_nat [of "np_lastOp s" 1] by simp
  then have "np_lastOp s + 1 \<noteq> 0" by auto
  then have "np_stateTransferOpEnd s \<noteq> np_lastOp s + 1" using tr by simp
  from process_received [OF core vs(1) room gaps this, of ap "rm_req msg"] show ?thesis
    using st msg vs(2) tr
    by (elim exE conjE) (simp add: TryProcessClientRequest_def Let_def LogEntry_new_def)
qed

lemma process_pending_in_order:
  assumes "np_core s" and "np_status s = STATUS_NORMAL"
    and "\<forall>i<length rs. rm_sessnum (rs ! i) = np_sessnum s \<and> rm_msgnum (rs ! i) = np_nextMsgnum s + word_of_nat i"
    and "unat (np_lastOp s) + length rs + 1 < 2 ^ 64" and "\<forall>g\<in>np_committedGaps s. g \<le> np_lastOp s"
    and "np_stateTransferOpEnd s = 0"
  shows "\<exists>s'. process_pending ap s rs = Inr s' \<and> np_core s' \<and>
     np_pendingRequests s' = (if rs = [] then np_pendingRequests s else []) \<and>
     np_lastOp s' = np_lastOp s + word_of_nat (length rs) \<and>
     np_nextMsgnum s' = np_nextMsgnum s + word_of_nat (length rs) \<and>
     (\<forall>i \<le> np_lastOp s. log_at (np_log s') i = log_at (np_log s) i) \<and>
     (\<forall>i<length rs. map_option le_request (log_at (np_log s') (np_lastOp s + 1 + word_of_nat i)) = Some (rm_req (rs ! i)))"
  using assms
proof (induction rs arbitrary: s)
  case (Cons r rs)
  have u1: "unat (np_lastOp s + 1) = unat (np_lastOp s) + 1"
    using Cons.prems(4) unat_add_of_nat [of "np_lastOp s" 1] by simp
  obtain t where t: "TryProcessClientRequest ap s r = Inr (t, True)" "np_core t" "np_status t = STATUS_NORMAL"
    "np_sessnum t = np_sessnum s" "np_lastOp t = np_lastOp s + 1" "np_nextMsgnum t = np_nextMsgnum s + 1"
    "np_committedGaps t = np_committedGaps s" "np_stateTransferOpEnd t = 0"
    and new: "map_option le_request (log_at (np_log t) (np_lastOp s + 1)) = Some (rm_req r)"
    and old: "\<forall>i \<le> np_lastOp s. log_at (np_log t) i = log_at (np_log s) i"
  proof -
    have r: "rm_sessnum r = np_sessnum s" "rm_msgnum r = np_nextMsgnum s"
      using Cons.prems(3) [rule_format, of 0] by simp_all
    have "unat (np_lastOp s) + 2 < 2 ^ 64" using Cons.prems(4) by simp
    from try_next [OF Cons.prems(1,2) r this Cons.prems(5,6), of ap] show thesis
      using that by (elim exE conjE)
  qed
  let ?t = "t\<lparr>np_pendingRequests := rs\<rparr>"
  have "np_core ?t" using t(2) by (simp add: np_core_def)
  moreover have "\<forall>i<length rs. rm_sessnum (rs ! i) = np_sessnum ?t \<and> rm_msgnum (rs ! i) = np_nextMsgnum ?t + word_of_nat i"
    using Cons.prems(3) t(4,6) by (auto simp: All_less_Suc2 algebra_simps)
  moreover have "\<forall>g\<in>np_committedGaps ?t. g \<le> np_lastOp ?t"
    using Cons.prems(5) t(5,7) u1 by (auto simp: word_le_nat_alt)
  ultimately obtain u where u: "process_pending ap ?t rs = Inr u" "np_core u"
      "np_pendingRequests u = []" "np_lastOp u = np_lastOp ?t + word_of_nat (length rs)"
      "np_nextMsgnum u = np_nextMsgnum ?t + word_of_nat (length rs)"
    and oldu: "\<forall>i \<le> np_lastOp ?t. log_at (np_log u) i = log_at (np_log ?t) i"
    and newu: "\<forall>i<length rs. map_option le_request (log_at (np_log u) (np_lastOp ?t + 1 + word_of_nat i)) = Some (rm_req (rs ! i))"
    using Cons.IH [of ?t] t(3,5,8) u1 Cons.prems(4) by (auto split: if_splits)
  have run: "process_pending ap s (r # rs) = Inr u" using t(1) u(1) by simp
  have "np_lastOp s + 1 \<le> np_lastOp ?t" using t(5) by simp
  then have "map_option le_request (log_at (np_log u) (np_lastOp s + 1)) = Some (rm_req r)" using oldu new by simp
  moreover have "log_at (np_log u) i = log_at (np_log s) i" if "i \<le> np_lastOp s" for i
    using that old oldu t(5) u1 by (simp add: word_le_nat_alt)
  ultimately show ?case
    using run u newu t(5,6) by (intro exI [of _ u]) (auto simp: All_less_Suc2 algebra_simps)
qed simp

text \<open>C26. Requests that arrived out of order are processed in the sequencer's order.  A replica in normal operation has buffered
  requests that, once sorted, carry the current session and the message numbers from the next expected one
  on without a hole; it waits for no state transfer, has no committed gap beyond its log, and the operation numbers do not
  run out.  Then \<^verbatim>\<open>ProcessPendingRequests\<close> does not abort, appends every one of them in that order,
  leaves the entries before them as they are and none pending.\<close>

theorem pending_drained:
  assumes "np_core s" and "np_status s = STATUS_NORMAL"
    and "np_pendingRequests s \<noteq> []"
    and "rs = (if np_pendingRequestsSorted s then np_pendingRequests s else sort_key pending_key (np_pendingRequests s))"
    and "\<forall>i<length rs. rm_sessnum (rs ! i) = np_sessnum s \<and> rm_msgnum (rs ! i) = np_nextMsgnum s + word_of_nat i"
    and "unat (np_lastOp s) + length rs + 1 < 2 ^ 64" and "\<forall>g\<in>np_committedGaps s. g \<le> np_lastOp s"
    and "np_stateTransferOpEnd s = 0"
  shows "\<exists>s'. ProcessPendingRequests ap s = Inr s' \<and> np_pendingRequests s' = [] \<and>
     np_lastOp s' = np_lastOp s + word_of_nat (length rs) \<and>
     np_nextMsgnum s' = np_nextMsgnum s + word_of_nat (length rs) \<and>
     (\<forall>i \<le> np_lastOp s. log_at (np_log s') i = log_at (np_log s) i) \<and>
     (\<forall>i<length rs. map_option le_request (log_at (np_log s') (np_lastOp s + 1 + word_of_nat i)) = Some (rm_req (rs ! i)))"
proof -
  let ?s = "s\<lparr>np_pendingRequests := rs, np_pendingRequestsSorted := True\<rparr>"
  have "length rs = length (np_pendingRequests s)" using assms(4) by simp
  then have ne: "rs \<noteq> []" using assms(3) by auto
  have same: "s\<lparr>np_pendingRequestsSorted := True\<rparr> = s" if "np_pendingRequestsSorted s" using that by simp
  have run: "ProcessPendingRequests ap s = process_pending ap ?s rs"
    using assms(2-4) by (simp add: ProcessPendingRequests_def Let_def same)
  have core: "np_core ?s" using assms(1) by (simp add: np_core_def)
  obtain s' where "process_pending ap ?s rs = Inr s'" "np_pendingRequests s' = (if rs = [] then np_pendingRequests ?s else [])"
    "np_lastOp s' = np_lastOp ?s + word_of_nat (length rs)" "np_nextMsgnum s' = np_nextMsgnum ?s + word_of_nat (length rs)"
    "\<forall>i \<le> np_lastOp ?s. log_at (np_log s') i = log_at (np_log ?s) i"
    "\<forall>i<length rs. map_option le_request (log_at (np_log s') (np_lastOp ?s + 1 + word_of_nat i)) = Some (rm_req (rs ! i))"
    using process_pending_in_order [OF core, of rs ap] assms(2,5-8) by (simp del: map_option_eq_Some) (elim exE conjE, simp)
  then show ?thesis using ne run by (intro exI [of _ s']) simp
qed

definition np_pending_state :: "string list NOPaxosReplica" where
  "np_pending_state = (np_final (np_replica 0) [NDeliver 9 (NRequest (np_request 1 ''a'' 7 1))])
     \<lparr>np_pendingRequests := [np_request 3 ''c'' 7 2, np_request 2 ''b'' 8 1], np_pendingRequestsSorted := False\<rparr>"

lemma np_pending_state_core: "np_core np_pending_state"
proof -
  let ?evs = "[NDeliver 9 (NRequest (np_request 1 ''a'' 7 1))]"
  have "\<not> isl (fold_r (np_step sample_app) (np_replica 0) ?evs)"
    and acc: "accepts (np_step sample_app) np_ok (np_replica 0) ?evs"
    by code_simp+
  then have "fold_r (np_step sample_app) (np_replica 0) ?evs = Inr (np_final (np_replica 0) ?evs)"
    unfolding np_final_def by (cases "fold_r (np_step sample_app) (np_replica 0) ?evs") auto
  from np.run_inv [OF np_replica_core acc this] show ?thesis by (simp add: np_pending_state_def np_core_def)
qed

theorem pending_drained_witness:
  "\<exists>s'. ProcessPendingRequests sample_app np_pending_state = Inr s' \<and> np_pendingRequests s' = [] \<and>
     np_lastOp s' = 3 \<and> map_option le_request (log_at (np_log s') 2) = Some (sample_req ''b'' 8 1)"
proof -
  let ?s = np_pending_state and ?rs = "[np_request 2 ''b'' 8 1, np_request 3 ''c'' 7 2]"
  have s: "np_status ?s = STATUS_NORMAL" "np_pendingRequests ?s \<noteq> []"
    "?rs = (if np_pendingRequestsSorted ?s then np_pendingRequests ?s else sort_key pending_key (np_pendingRequests ?s))"
    "\<forall>i<length ?rs. rm_sessnum (?rs ! i) = np_sessnum ?s \<and> rm_msgnum (?rs ! i) = np_nextMsgnum ?s + word_of_nat i"
    "np_lastOp ?s = 1" "\<forall>g\<in>np_committedGaps ?s. g \<le> np_lastOp ?s" "np_stateTransferOpEnd ?s = 0"
    by code_simp+
  have room: "unat (np_lastOp ?s) + length ?rs + 1 < 2 ^ 64" using s(5) by simp
  obtain s' where s': "ProcessPendingRequests sample_app ?s = Inr s'" "np_pendingRequests s' = []"
    "np_lastOp s' = np_lastOp ?s + word_of_nat (length ?rs)"
    "\<forall>i<length ?rs. map_option le_request (log_at (np_log s') (np_lastOp ?s + 1 + word_of_nat i)) = Some (rm_req (?rs ! i))"
    using pending_drained [OF np_pending_state_core s(1-4) room s(6,7), of sample_app] by (elim exE conjE)
  have "map_option le_request (log_at (np_log s') 2) = Some (sample_req ''b'' 8 1)"
    using s'(4) [rule_format, of 0] s(5) by (simp add: np_request_def del: map_option_eq_Some)
  then show ?thesis using s' s(5) by (intro exI [of _ s']) (simp del: map_option_eq_Some)
qed

section \<open>Agreement\<close>

text \<open>C33. Synchronization commits need a quorum: the leader's commit point moves on a SYNCPREPAREREPLY only to
  the last synchronization point it announced, only in its own session and view, and only when the
  replies for that point, the new one included, come from at least \<^verbatim>\<open>numRequired\<close> distinct
  replicas.\<close>

theorem sync_commit_needs_quorum:
  assumes ok: "smap_ok (messages (np_syncPrepareQuorum s) (spr_syncpoint msg))"
    and run: "HandleSyncPrepareReply ap s msg = Inr s'" and adv: "np_lastCommittedOp s' \<noteq> np_lastCommittedOp s"
  shows "AmLeader_np s \<and> spr_sessnum msg = np_sessnum s \<and> spr_view msg = np_view s \<and>
     np_lastCommittedOp s' = spr_syncpoint msg \<and> spr_syncpoint msg = np_leaderLastSyncPreparePoint s \<and>
     np_lastCommittedOp s < spr_syncpoint msg \<and> spr_syncpoint msg \<le> np_lastOp s \<and>
     numRequired (np_syncPrepareQuorum s) \<le> int (card (insert (spr_replicaidx msg)
       (fst ` set (GetMessages (np_syncPrepareQuorum s) (spr_syncpoint msg)))))"
proof -
  let ?add = "AddAndCheckForQuorum (np_syncPrepareQuorum s) (spr_syncpoint msg) (spr_replicaidx msg) msg"
  let ?s = "s\<lparr>np_syncPrepareQuorum := fst ?add\<rparr>"
  have vc: "np_lastCommittedOp t = np_lastCommittedOp s" if "StartViewChange_np s x y = Inr t" for x y t
    using StartViewChange_np_bookkeeping [OF that] by (simp add: bookkeeping_def)
  obtain t chk where t: "CheckViewNumAndStatus s (spr_sessnum msg) (spr_view msg) = Inr (t, chk)"
    using run by (auto simp: HandleSyncPrepareReply_def in_view_def)
  have chk: chk
  proof (rule ccontr)
    assume "\<not> chk"
    then have "s' = t" using run t by (auto simp: HandleSyncPrepareReply_def in_view_def)
    moreover have "t = s \<or> (\<exists>x y. StartViewChange_np s x y = Inr t)"
      using t by (auto simp: CheckViewNumAndStatus_def split: if_splits)
    ultimately show False using adv vc by auto
  qed
  then have v: "t = s" "spr_sessnum msg = np_sessnum s" "spr_view msg = np_view s"
    using CheckViewNumAndStatus_ok t by auto
  have c: "AmLeader_np s \<and> \<not> spr_syncpoint msg \<le> np_lastCommittedOp s \<and>
      spr_syncpoint msg = np_leaderLastSyncPreparePoint s \<and> snd ?add \<noteq> None \<and>
      CommitUptoOp ap ?s (spr_syncpoint msg) = Inr s'"
    using run t chk adv unfolding HandleSyncPrepareReply_def in_view_def v(1)
    by (auto simp: Let_def split: if_splits prod.splits)
  have "np_lastCommittedOp s' = spr_syncpoint msg \<and> spr_syncpoint msg \<le> np_lastOp s"
    using c by (auto simp: CommitUptoOp_def Let_def SendSyncCommit_def send_np_def split: if_splits
        dest!: exec_frameD(10) [OF ExecuteUptoOp_frame])
  then show ?thesis using c v quorum_at_card [OF ok, of "spr_replicaidx msg" msg] by auto
qed

theorem sync_commit_needs_quorum_witness:
  "\<exists>s s'. HandleSyncPrepareReply sample_app s \<lparr>spr_sessnum = 0, spr_view = 0, spr_syncpoint = 2, spr_replicaidx = 1\<rparr> = Inr s' \<and>
     np_lastCommittedOp s = 0 \<and> np_lastCommittedOp s' = 2 \<and> np_leaderLastSyncPreparePoint s = 2"
proof -
  let ?s = "np_final (np_replica 0) np_run"
  let ?m = "\<lparr>spr_sessnum = 0, spr_view = 0, spr_syncpoint = 2, spr_replicaidx = 1\<rparr>"
  have "(case HandleSyncPrepareReply sample_app ?s ?m of Inl _ \<Rightarrow> False | Inr s' \<Rightarrow> np_lastCommittedOp s' \<noteq> 0)"
    and z: "np_lastCommittedOp ?s = 0" and e: "messages (np_syncPrepareQuorum ?s) 2 = []"
    by code_simp+
  then obtain s' where s': "HandleSyncPrepareReply sample_app ?s ?m = Inr s'" "np_lastCommittedOp s' \<noteq> np_lastCommittedOp ?s"
    by (auto split: sum.splits)
  have "smap_ok (messages (np_syncPrepareQuorum ?s) (spr_syncpoint ?m))" using e by simp
  from sync_commit_needs_quorum [OF this s'] show ?thesis using s' z by auto
qed

lemma gap_commit_log:
  assumes run: "ProcessNextOperation ap s req vs LOG_STATE_NOOP = Inr s'" and core: "np_core s"
    and vs: "vs_opnum vs = np_lastOp s + 1"
  shows "\<exists>e. log_at (np_log s') (np_lastOp s + 1) = Some e \<and> le_state e = LOG_STATE_NOOP"
proof -
  obtain t where t: "append_next ap s req vs LOG_STATE_NOOP = Inr t"
    and rest: "t = s' \<or> (\<exists>req vs. ProcessNextOperation ap t req vs LOG_STATE_NOOP = Inr s')"
    using run by (auto simp: ProcessNextOperation.simps [of ap s] split: if_splits)
  let ?st = "entry_state s (vs_opnum vs) LOG_STATE_NOOP"
  have st: "?st = LOG_STATE_NOOP" by (simp add: entry_state_def)
  obtain l s2 where room: "np_lastOp s \<noteq> - 1"
    and app: "Append id (np_log s) (LogEntry_new vs ?st req) = Inr l"
    and settle: "settle_entry ap (stop_gap_request (s\<lparr>np_lastOp := vs_opnum vs, np_nextMsgnum := vs_msgnum vs + 1,
       np_log := l\<rparr>)) req vs ?st = Inr s2"
    and fin: "complete_transfer ap s2 (vs_opnum vs) = Inr t"
    using append_next_Inr [OF t] by (elim exE conjE)
  note A = appended_advances [OF core room noop_settled(1) app, of "insert (np_lastOp s + 1) (np_committedGaps s)"]
  have l: "np_log s2 = l" "np_committedGaps s2 = insert (np_lastOp s + 1) (np_committedGaps s)"
      "np_lastOp s2 = np_lastOp s + 1" "np_lastExecutedOp s2 = np_lastExecutedOp s" "np_lastCommittedOp s2 = np_lastCommittedOp s"
  proof -
    define u where
      "u = stop_gap_request (s\<lparr>np_lastOp := vs_opnum vs, np_nextMsgnum := vs_msgnum vs + 1, np_log := l\<rparr>)"
    have u: "np_log u = l" "np_committedGaps u = np_committedGaps s" "np_lastOp u = np_lastOp s + 1"
      "np_lastExecutedOp u = np_lastExecutedOp s" "np_lastCommittedOp u = np_lastCommittedOp s"
      by (simp_all add: u_def stop_gap_request_def vs)
    have s2: "s2 = u\<lparr>np_committedGaps := insert (np_lastOp u) (np_committedGaps u)\<rparr>"
      using settle unfolding st u_def [symmetric] by (simp add: settle_entry_def)
    show "np_log s2 = l" "np_committedGaps s2 = insert (np_lastOp s + 1) (np_committedGaps s)"
      "np_lastOp s2 = np_lastOp s + 1" "np_lastExecutedOp s2 = np_lastExecutedOp s" "np_lastCommittedOp s2 = np_lastCommittedOp s"
      by (simp_all add: s2 u)
  qed
  have le: "np_lastOp s \<le> np_lastOp s + 1"
    using room unat_add_of_nat [of "np_lastOp s" 1] unfolding u64_not_max by (simp add: word_le_nat_alt)
  have "np_core s2"
    unfolding np_core_def l using A st np_coreD(5,6) [OF core] le by (auto intro: order_trans)
  then have "np_grows s2 t" "np_core t" using complete_transfer_advances [OF fin] by (simp_all add: advances_def)
  moreover have "np_grows t s'" if "np_core t"
    using rest that by (auto simp: advances_def dest!: ProcessNextOperation_advances)
  ultimately have "np_grows s2 s'" using np_grows_trans by blast
  moreover have "log_at (np_log s2) (np_lastOp s + 1) = Some (LogEntry_new vs LOG_STATE_NOOP req)"
    using A(5) st l(1) by simp
  ultimately show ?thesis
    unfolding np_grows_def log_grows_def same_op_def by (fastforce simp: LogEntry_new_def)
qed

text \<open>A backup that acknowledges a GAPCOMMIT holds a no-op at that operation: whatever it had there before
  is replaced, the operation is added if it is the next one, and the acknowledgement goes back to the
  sender.\<close>

theorem gap_commit_installs_noop:
  assumes core: "np_core s" and room: "np_lastOp s \<noteq> - 1" and op: "1 \<le> op" "op \<le> np_lastOp s + 1"
    and st: "np_status s \<noteq> STATUS_VIEW_CHANGE"
    and run: "HandleGapCommit ap s remote (np_sessnum s) (np_view s) op = Inr s'"
  shows "\<not> AmLeader_np s \<and> np_core s' \<and> op \<le> np_lastOp s' \<and>
     (\<exists>e. log_at (np_log s') op = Some e \<and> le_state e = LOG_STATE_NOOP) \<and>
     (NToRemote remote, NOutReplica (NGapCommitReply \<lparr>gcr_sessnum = np_sessnum s', gcr_view = np_view s',
        gcr_opnum = op, gcr_replicaidx = np_replicaIdx s'\<rparr>)) \<in> set (np_outbox s')"
proof -
  note C = np_coreD [OF core]
  let ?reply = "\<lambda>s1. send_np s1 (NToRemote remote) (NOutReplica (NGapCommitReply
                 \<lparr>gcr_sessnum = np_sessnum s1, gcr_view = np_view s1, gcr_opnum = op,
                  gcr_replicaidx = np_replicaIdx s1\<rparr>))"
  have core': "np_core s'" using HandleGapCommit_advances [OF run room] core by (simp add: advances_def)
  have chk: "CheckViewNumAndStatus s (np_sessnum s) (np_view s) = Inr (s, True)"
    using st by (simp add: CheckViewNumAndStatus_def)
  have body: "\<not> AmLeader_np s \<and> (\<exists>u. s' = ?reply u \<and>
      ((op \<le> np_lastOp s \<and> (\<exists>l b. SetStatus (np_log s) op LOG_STATE_NOOP = Inr (l, b) \<and> np_log u = l)) \<or>
       (op = np_lastOp s + 1 \<and> ProcessNextOperation ap s empty_Request
          (viewstamp4 (np_view s) (np_lastOp s + 1) (np_sessnum s) (np_nextMsgnum s)) LOG_STATE_NOOP = Inr u)))"
    using run op(2) unfolding HandleGapCommit_def in_view_def chk
    by (auto simp: leD split: if_splits)
  then obtain u where u: "s' = ?reply u" and
    d: "(op \<le> np_lastOp s \<and> (\<exists>l b. SetStatus (np_log s) op LOG_STATE_NOOP = Inr (l, b) \<and> np_log u = l)) \<or>
       (op = np_lastOp s + 1 \<and> ProcessNextOperation ap s empty_Request
          (viewstamp4 (np_view s) (np_lastOp s + 1) (np_sessnum s) (np_nextMsgnum s)) LOG_STATE_NOOP = Inr u)"
    by blast
  have log: "np_log s' = np_log u" by (simp add: u send_np_def)
  have noop: "\<exists>e. log_at (np_log s') op = Some e \<and> le_state e = LOG_STATE_NOOP"
    using d
  proof (elim disjE conjE exE)
    fix l b
    assume le: "op \<le> np_lastOp s" and set: "SetStatus (np_log s) op LOG_STATE_NOOP = Inr (l, b)" "np_log u = l"
    have "log_at (np_log s) op \<noteq> None" using code_log.dom [OF C(1), of op] C(2,4) op(1) le by simp
    moreover have "log_at l op = map_option (\<lambda>e. e\<lparr>le_state := LOG_STATE_NOOP\<rparr>) (log_at (np_log s) op)"
      using SetStatus_wf [OF C(1) set(1)] by simp
    ultimately show ?thesis using set(2) log by auto
  next
    assume "op = np_lastOp s + 1" "ProcessNextOperation ap s empty_Request
          (viewstamp4 (np_view s) (np_lastOp s + 1) (np_sessnum s) (np_nextMsgnum s)) LOG_STATE_NOOP = Inr u"
    then show ?thesis using gap_commit_log [OF _ core] log by (simp add: viewstamp4_def)
  qed
  moreover have "op \<le> np_lastOp s'"
    using noop code_log.dom [OF np_coreD(1) [OF core'], of op] np_coreD(4) [OF core'] by auto
  ultimately show ?thesis using body core' u by (auto simp: send_np_def)
qed

theorem gap_commit_installs_noop_witness:
  "\<exists>s'. HandleGapCommit sample_app (np_final (np_replica 1) np_run) 4 0 0 2 = Inr s' \<and>
     (\<exists>e. log_at (np_log s') 2 = Some e \<and> le_state e = LOG_STATE_NOOP)"
proof -
  let ?s = "np_final (np_replica 1) np_run"
  have "\<not> isl (fold_r (np_step sample_app) (np_replica 1) np_run)"
    and acc: "accepts (np_step sample_app) np_ok (np_replica 1) np_run"
    and st: "np_status ?s \<noteq> STATUS_VIEW_CHANGE" and v: "np_sessnum ?s = 0" "np_view ?s = 0" "np_lastOp ?s = 2"
    and "\<not> isl (HandleGapCommit sample_app ?s 4 0 0 2)"
    by code_simp+
  then obtain s' where run: "fold_r (np_step sample_app) (np_replica 1) np_run = Inr ?s"
    and s': "HandleGapCommit sample_app ?s 4 (np_sessnum ?s) (np_view ?s) 2 = Inr s'"
    unfolding np_final_def v
    by (cases "fold_r (np_step sample_app) (np_replica 1) np_run"; cases "HandleGapCommit sample_app ?s 4 0 0 2")
      (auto simp: np_final_def)
  have core: "np_core ?s" using np.run_inv [OF np_replica_core acc run] .
  have b: "np_lastOp ?s \<noteq> - 1" "1 \<le> (2 :: u64)" "2 \<le> np_lastOp ?s + 1" using v(3) by simp_all
  show ?thesis using gap_commit_installs_noop [OF core b st s'] s' v by auto
qed

section \<open>Rewinding and state transfer\<close>

text \<open>\<^verbatim>\<open>RewindLogToOpnum(op)\<close> sets \<^verbatim>\<open>lastOp\<close> to \<open>op\<close> but removes the entry \<open>op\<close> as well, so that afterwards
  the log ends one operation earlier than \<^verbatim>\<open>lastOp\<close> says, and the replica aborts when it next has
  an operation to append; rewinding to operation 0, which happens when nothing is
  committed yet, aborts at once.\<close>

theorem rewind_breaks_log:
  assumes core: "np_core s" and op: "np_lastCommittedOp s \<le> op" "np_lastExecutedOp s \<le> op" "op \<le> np_lastOp s"
  shows "(op = 0 \<longrightarrow> RewindLogToOpnum s op = Inl AssertFailed) \<and>
     (op \<noteq> 0 \<longrightarrow> (\<exists>s'. RewindLogToOpnum s op = Inr s' \<and> np_lastOp s' = op \<and> LastOpnum (np_log s') = op - 1 \<and>
        (\<forall>ap req vs st. \<exists>err. ProcessNextOperation ap s' req vs st = Inl err)))"
proof -
  note C = np_coreD [OF core]
  have zero: "RewindLogToOpnum s op = Inl AssertFailed" if "op = 0"
    using that op RemoveAfter_below_start [OF C(1), of op] C(2,4)
    by (simp add: RewindLogToOpnum_def leD)
  have "\<exists>s'. RewindLogToOpnum s op = Inr s' \<and> np_lastOp s' = op \<and> LastOpnum (np_log s') = op - 1 \<and>
        (\<forall>ap req vs st. \<exists>err. ProcessNextOperation ap s' req vs st = Inl err)" if "op \<noteq> 0"
  proof -
    have st: "start (np_log s) \<le> op" using that C(2) by (simp add: word_le_nat_alt unat_gt_0 Suc_leI)
    obtain l where l: "RemoveAfter (np_log s) op = Inr l"
      using RemoveAfter_cut [OF C(1) st] op(3) C(4) by auto
    define s' where "s' = s\<lparr>np_lastOp := op, np_log := l, np_nextMsgnum := vs_msgnum (LastViewstamp l) + 1\<rparr>"
    have run: "RewindLogToOpnum s op = Inr s'"
      using l op by (simp add: RewindLogToOpnum_def s'_def leD)
    have W: "log_wf l" "start l = start (np_log s)" "LastOpnum l = op - 1"
      using RemoveAfter_wf [OF C(1) l] op(3) C(4) by (auto simp: leD)
    have "\<exists>err. ProcessNextOperation ap s' req vs st = Inl err" for ap req vs st
    proof (cases "append_next ap s' req vs st")
      case (Inr t)
      then obtain l' e where "Append id l e = Inr l'" "vs_opnum (le_viewstamp e) = op + 1" "op \<noteq> - 1"
        using append_next_Inr [OF Inr] by (auto simp: s'_def LogEntry_new_def)
      then have "op + 1 = op - 1 + 1"
        using W(2,3) C(2) by (auto simp: Append_def LastOpnum_def split: if_splits)
      then show ?thesis by simp
    qed (simp add: ProcessNextOperation.simps [of ap s'])
    then show ?thesis using run W(3) by (intro exI [of _ s']) (simp add: s'_def)
  qed
  then show ?thesis using zero by blast
qed

theorem rewind_breaks_log_witness:
  "RewindLogToOpnum (np_replica 1) 0 = Inl AssertFailed \<and>
   (\<exists>s'. RewindLogToOpnum (np_pending_state\<lparr>np_lastExecutedOp := 0\<rparr>) 1 = Inr s' \<and> np_lastOp s' = 1 \<and> LastOpnum (np_log s') = 0)"
proof -
  let ?s = "np_pending_state\<lparr>np_lastExecutedOp := 0\<rparr>"
  have s: "np_lastCommittedOp ?s = 0" "np_lastOp ?s = 1" by code_simp+
  have core: "np_core ?s" using np_pending_state_core by (simp add: np_core_def)
  have z: "np_lastCommittedOp (np_replica 1) = 0" "np_lastOp (np_replica 1) = 0" "np_lastExecutedOp (np_replica 1) = 0"
    by (simp_all add: np_replica_def NOPaxosReplica_new_def Log_new_def Let_def)
  show ?thesis
    using rewind_breaks_log [OF np_replica_core [of 1], of 0] rewind_breaks_log [OF core, of 1] s z by auto
qed

definition transfer_entries :: "MsgLogEntry list" where
  "transfer_entries =
     [dump_entry (LogEntry_new (viewstamp4 0 1 0 1) LOG_STATE_RECEIVED (sample_req ''a'' 7 1)),
      dump_entry (LogEntry_new (viewstamp4 0 2 0 2) LOG_STATE_NOOP (sample_req ''b'' 8 1))]"

definition start_view_event :: "u64 list \<Rightarrow> np_event" where
  "start_view_event gaps = NDeliver 1 (NStartView \<lparr>nsv_sessnum = 0, nsv_view = 1, nsv_lastnormalsessnum = 0,
     nsv_lastnormalview = 0, nsv_lastop = 2, nsv_committedgaps = gaps\<rparr>)"

definition transfer_event :: np_event where
  "transfer_event = NDeliver 1 (NStateTransferReply \<lparr>str_sessnum = 0, str_view = 1, str_begin = 1, str_end = 3,
     str_entries = transfer_entries\<rparr>)"

text \<open>A state transfer does not complete the view change that asked for it: the requested range ends
  just before \<^verbatim>\<open>stateTransferOpEnd\<close>, and the completion is tied to appending that operation itself.  A
  backup that has received the whole range is still in the view change with the transfer timer running, the
  retransmitted reply changes nothing, and a client request stays pending.\<close>

theorem transfer_does_not_complete:
  "(case fold_r (np_step sample_app) (np_replica 2) [start_view_event [], transfer_event] of
      Inl _ \<Rightarrow> False
    | Inr s \<Rightarrow> np_lastOp s = 2 \<and> np_startViewLastOp s = 0 \<and> np_status s = STATUS_VIEW_CHANGE \<and> np_stateTransferTimeout s \<and>
        (case fold_r (np_step sample_app) s [NFire StateTransferTimeout_np, transfer_event,
                NDeliver 9 (NRequest (np_request 3 ''c'' 7 2))] of
           Inl _ \<Rightarrow> False
         | Inr s' \<Rightarrow> np_lastOp s' = 2 \<and> np_status s' = STATUS_VIEW_CHANGE \<and> length (np_pendingRequests s') = 1))"
  by code_simp

text \<open>A committed gap inside a state transfer aborts the receiver: appending the entry before the gap already
  appends the gap too, so the next entry of the message no longer is the next operation.\<close>

theorem gap_in_transfer_aborts:
  "(case fold_r (np_step sample_app) (np_replica 2) [start_view_event [2]] of
      Inl _ \<Rightarrow> False
    | Inr s \<Rightarrow> (case np_step sample_app s transfer_event of Inl e \<Rightarrow> e = AssertFailed | Inr _ \<Rightarrow> False))"
  by code_simp

section \<open>At most once\<close>

lemma exec_ref_table:
  assumes "snd at c = Some k"
  shows "\<exists>k'. snd (exec_ref ap l at op) c = Some k' \<and> k \<le> k'"
  using assms by (auto simp: exec_ref_def fresh_def split: option.splits)

lemma exec_refs_table:
  assumes "snd at c = Some k"
  shows "\<exists>k'. snd (foldl (exec_ref ap l) at ops) c = Some k' \<and> k \<le> k'"
  using assms
proof (induction ops arbitrary: at k)
  case (Cons op ops)
  obtain k1 where k1: "snd (exec_ref ap l at op) c = Some k1" "k \<le> k1"
    using exec_ref_table [OF Cons.prems, of ap l op] by blast
  then obtain k2 where "snd (foldl (exec_ref ap l) (exec_ref ap l at op) ops) c = Some k2" "k1 \<le> k2"
    using Cons.IH by blast
  then show ?case using k1(2) order_trans [of k k1 k2] by auto
qed simp

lemma exec_refs_recorded:
  assumes "i \<in> set ops" and "log_at l i = Some e" and "le_state e = LOG_STATE_RECEIVED"
  shows "\<exists>k. snd (foldl (exec_ref ap l) at ops) (req_clientid (le_request e)) = Some k \<and> req_clientreqid (le_request e) \<le> k"
  using assms(1)
proof (induction ops arbitrary: at)
  case (Cons op ops)
  show ?case
  proof (cases "i \<in> set ops")
    case False
    then have "op = i" using Cons.prems by simp
    then have "\<exists>k. snd (exec_ref ap l at op) (req_clientid (le_request e)) = Some k \<and> req_clientreqid (le_request e) \<le> k"
      using assms(2,3) by (cases "snd at (req_clientid (le_request e))") (auto simp: exec_ref_def fresh_def)
    then obtain k where k: "snd (exec_ref ap l at op) (req_clientid (le_request e)) = Some k" "req_clientreqid (le_request e) \<le> k"
      by blast
    then obtain k2 where "snd (foldl (exec_ref ap l) (exec_ref ap l at op) ops) (req_clientid (le_request e)) = Some k2" "k \<le> k2"
      using exec_refs_table by blast
    then show ?thesis using k(2) order_trans [of _ k k2] by auto
  qed (simp add: Cons.IH)
qed simp

text \<open>C28. At most once: when the unexecuted part of the log holds a request of a client that is not a no-op and later an entry of the same
  client that is not newer, such as a retransmission the sequencer stamped again, \<^verbatim>\<open>ExecuteUptoOp\<close> returns both when it stops
  right before the later entry and when it goes on past it, and the later entry leaves the application as it is.\<close>

theorem duplicate_not_executed:
  assumes core: "np_core s" and room: "np_lastOp s \<noteq> - 1"
    and ij: "np_lastExecutedOp s < i" "i < j" "j \<le> np_lastOp s"
    and e: "log_at (np_log s) i = Some e" "le_state e = LOG_STATE_RECEIVED" and e': "log_at (np_log s) j = Some e'"
    and dup: "req_clientid (le_request e') = req_clientid (le_request e)"
      "req_clientreqid (le_request e') \<le> req_clientreqid (le_request e)"
  shows "\<exists>s1 s2. ExecuteUptoOp ap s (j - 1) = Inr s1 \<and> ExecuteUptoOp ap s1 j = Inr s2 \<and>
     np_lastExecutedOp s2 = j \<and> np_app_state s2 = np_app_state s1"
proof -
  have jpos: "unat (j - 1) = unat j - 1" "0 < unat j" using ij(2) unat_sub_1 [of j] by (auto simp: word_less_nat_alt)
  have xi: "np_lastExecutedOp s < j - 1" "j - 1 \<le> np_lastOp s"
    using ij jpos by (auto simp: word_less_nat_alt word_le_nat_alt)
  obtain s1 where s1: "ExecuteUptoOp ap s (j - 1) = Inr s1" "exec_frame s s1"
      "np_lastExecutedOp s1 = max (np_lastExecutedOp s) (j - 1)"
    and a1: "(np_app_state s1, last_reqs s1) = foldl (exec_ref ap (np_log s)) (np_app_state s, last_reqs s)
        (op_range (np_lastExecutedOp s + 1) (j - 1 + 1))"
    using ExecuteUptoOp_spec [OF core xi(2) room, of ap] by (elim exE conjE)
  have core1: "np_core s1" using ExecuteUptoOp_advances [OF s1(1)] core by (simp add: advances_def)
  note F = exec_frameD [OF s1(2)]
  have "i \<in> set (op_range (np_lastExecutedOp s + 1) (j - 1 + 1))"
    using ij unat_Suc_less [OF ij(1)] by (simp add: word_less_nat_alt word_le_nat_alt)
  from exec_refs_recorded [OF this e, of ap "(np_app_state s, last_reqs s)"]
  obtain k where k: "last_reqs s1 (req_clientid (le_request e)) = Some k" "req_clientreqid (le_request e) \<le> k"
    unfolding a1 [symmetric] by auto
  have x1: "np_lastExecutedOp s1 = j - 1" using s1(3) xi(1) by (simp add: max_absorb2 less_imp_le)
  have "j \<le> np_lastOp s1" "np_lastOp s1 \<noteq> - 1" using ij(3) room F(1) by simp_all
  from ExecuteUptoOp_spec [OF core1 this, of ap] obtain s2 where
    s2: "ExecuteUptoOp ap s1 j = Inr s2" "np_lastExecutedOp s2 = max (np_lastExecutedOp s1) j"
    and a2: "(np_app_state s2, last_reqs s2) = foldl (exec_ref ap (np_log s1)) (np_app_state s1, last_reqs s1)
        (op_range (np_lastExecutedOp s1 + 1) (j + 1))"
    by (elim exE conjE)
  have "op_range (np_lastExecutedOp s1 + 1) (j + 1) = [j]"
  proof -
    have j1: "unat (j + 1) = unat j + 1"
      using ij(3) room unat_add_of_nat [of j 1] unfolding u64_not_max word_le_nat_alt by simp
    then show ?thesis by (simp add: x1 op_range_def)
  qed
  moreover have "\<not> fresh (last_reqs s1) (le_request e')"
    using k dup by (simp add: fresh_def leD order_trans)
  ultimately have "np_app_state s2 = np_app_state s1"
    using a2 e' F(2) by (simp add: exec_ref_def)
  moreover have "np_lastExecutedOp s2 = j"
    using s2(2) x1 jpos by (auto simp: max_def word_le_nat_alt)
  ultimately show ?thesis using s1(1) s2(1) by blast
qed

theorem duplicate_not_executed_witness:
  "\<exists>s s1 s2. ExecuteUptoOp sample_app s 2 = Inr s1 \<and> ExecuteUptoOp sample_app s1 3 = Inr s2 \<and>
     np_lastOp s = 3 \<and> np_app_state s2 = np_app_state s1"
proof -
  let ?evs = "[NDeliver 9 (NRequest (np_request 1 ''a'' 7 1)), NDeliver 9 (NRequest (np_request 2 ''b'' 8 1)),
     NDeliver 9 (NRequest (np_request 3 ''b'' 8 1))]"
  have "case fold_r (np_step sample_app) (np_replica 1) ?evs of Inl _ \<Rightarrow> False
     | Inr s \<Rightarrow> np_lastOp s = 3 \<and> np_lastExecutedOp s = 0 \<and>
         (case log_at (np_log s) 2 of None \<Rightarrow> False | Some e \<Rightarrow> le_state e = LOG_STATE_RECEIVED \<and> le_request e = sample_req ''b'' 8 1) \<and>
         (case log_at (np_log s) 3 of None \<Rightarrow> False | Some e \<Rightarrow> le_request e = sample_req ''b'' 8 1)"
    and acc: "accepts (np_step sample_app) np_ok (np_replica 1) ?evs"
    by code_simp+
  then obtain s e e' where run: "fold_r (np_step sample_app) (np_replica 1) ?evs = Inr s"
    and s: "np_lastOp s = 3" "np_lastExecutedOp s = 0"
    and e: "log_at (np_log s) 2 = Some e" "le_state e = LOG_STATE_RECEIVED" "le_request e = sample_req ''b'' 8 1"
    and e': "log_at (np_log s) 3 = Some e'" "le_request e' = sample_req ''b'' 8 1"
    by (auto split: sum.splits option.splits)
  have core: "np_core s" using np.run_inv [OF np_replica_core acc run] .
  show ?thesis
    using duplicate_not_executed [OF core _ _ _ _ e(1,2) e'(1), of sample_app] s e(3) e'(2) by auto
qed

end
