(* ===== verification/Buffers.thy ===== *)
theory Buffers
  imports Prelude
begin

text \<open>
  Byte buffers as the message classes use them: a \<^verbatim>\<open>void *buf\<close> with its size is a list of bytes, an
  access outside of it is undefined behaviour, and an integer stored after \<^verbatim>\<open>htons\<close> or \<^verbatim>\<open>htobe64\<close> is its
  bytes with the most significant one first.  The encoding of a protocol buffer message is a
  parameter: a pair of functions for \<^verbatim>\<open>SerializeToArray\<close> and \<^verbatim>\<open>ParseFromArray\<close>.  Both take the size as a C++ \<^verbatim>\<open>int\<close>, to which
  the code converts a \<^verbatim>\<open>size_t\<close>; packets are shorter than \<open>2 ^ 31\<close> bytes, where the conversion changes nothing, and a size that exceeds the
  packet is undefined behaviour whatever it is converted to.
\<close>

unbundle bit_operations_syntax

type_synonym byte = "8 word"

section \<open>Reading and writing\<close>

definition read_at :: "nat \<Rightarrow> nat \<Rightarrow> byte list \<Rightarrow> byte list result" where
  "read_at off n buf = check (off + n \<le> length buf) UndefinedBehaviour (Inr (take n (drop off buf)))"

definition write_at :: "nat \<Rightarrow> byte list \<Rightarrow> byte list \<Rightarrow> byte list result" where
  "write_at off bs buf =
     check (off + length bs \<le> length buf) UndefinedBehaviour
       (Inr (take off buf @ bs @ drop (off + length bs) buf))"

text \<open>The bytes of an integer in network order, and the integer of such bytes.\<close>

primrec store_be :: "nat \<Rightarrow> 'a::len word \<Rightarrow> byte list" where
  "store_be 0 w = []"
| "store_be (Suc k) w = store_be k (drop_bit 8 w) @ [ucast w]"

definition load_be :: "byte list \<Rightarrow> 'a::len word" where
  "load_be bs = foldl (\<lambda>acc b. push_bit 8 acc OR ucast b) 0 bs"

lemma length_store_be [simp]: "length (store_be k w) = k"
  by (induction k arbitrary: w) simp_all

lemma load_be_snoc: "load_be (bs @ [b]) = push_bit 8 (load_be bs) OR ucast b"
  by (simp add: load_be_def)

lemma load_store_be: "load_be (store_be k w) = take_bit (8 * k) w"
proof (induction k arbitrary: w)
  case 0
  then show ?case by (simp add: load_be_def)
next
  case (Suc k)
  have "push_bit 8 (take_bit (8 * k) (drop_bit 8 w)) OR ucast (ucast w :: byte) = take_bit (8 * Suc k) w"
    by (rule bit_eqI) (auto simp: bit_simps)
  then show ?case by (simp add: load_be_snoc Suc.IH)
qed

lemma load_store_whole: "LENGTH('a) \<le> 8 * k \<Longrightarrow> load_be (store_be k w) = (w :: 'a::len word)"
  by (simp add: load_store_be take_bit_word_eq_self)

lemma load_store_header [simp]:
  "load_be (store_be 2 (h :: 16 word)) = h" "load_be (store_be 8 (m :: 64 word)) = m"
  by (simp_all add: load_store_whole)

lemma read_at_Inr: "read_at off n buf = Inr bs \<longleftrightarrow> off + n \<le> length buf \<and> bs = take n (drop off buf)"
  by (auto simp: read_at_def)

lemma write_at_Inr:
  "write_at off bs buf = Inr buf' \<longleftrightarrow>
     off + length bs \<le> length buf \<and> buf' = take off buf @ bs @ drop (off + length bs) buf"
  by (auto simp: write_at_def)

text \<open>Buffers that are given in pieces.\<close>

lemma read_at_first: "length bs = n \<Longrightarrow> read_at 0 n (bs @ rest) = Inr bs"
  by (simp add: read_at_def)

lemma read_at_piece: "\<lbrakk> length pre = off; length bs = n \<rbrakk> \<Longrightarrow> read_at off n (pre @ bs @ rest) = Inr bs"
  by (auto simp: read_at_def)

lemma read_at_last: "\<lbrakk> length pre = off; length bs = n \<rbrakk> \<Longrightarrow> read_at off n (pre @ bs) = Inr bs"
  using read_at_piece [of pre off bs n "[]"] by simp

lemma write_at_piece:
  "\<lbrakk> length pre = off; length old = length bs \<rbrakk> \<Longrightarrow> write_at off bs (pre @ old @ rest) = Inr (pre @ bs @ rest)"
  by (auto simp: write_at_def)

section \<open>Protocol buffer messages\<close>

record 'm PBCodec =
  SerializeToArray :: "'m \<Rightarrow> byte list"
  ParseFromArray :: "byte list \<Rightarrow> 'm"

definition PBMessage_SerializedSize :: "'m PBCodec \<Rightarrow> 'm \<Rightarrow> nat" where
  "PBMessage_SerializedSize pb m = length (SerializeToArray pb m)"

text \<open>\<^verbatim>\<open>Serialize(p)\<close> and \<^verbatim>\<open>Parse(p, size)\<close> with \<^verbatim>\<open>p\<close> pointing at an offset of a buffer.  The size is a
  \<^verbatim>\<open>size_t\<close> that its caller may have computed by a subtraction that wrapped.\<close>

definition PBMessage_Serialize :: "'m PBCodec \<Rightarrow> 'm \<Rightarrow> nat \<Rightarrow> byte list \<Rightarrow> byte list result" where
  "PBMessage_Serialize pb m off buf = write_at off (SerializeToArray pb m) buf"

definition PBMessage_Parse :: "'m PBCodec \<Rightarrow> byte list \<Rightarrow> nat \<Rightarrow> u64 \<Rightarrow> 'm result" where
  "PBMessage_Parse pb buf off sz = rbind (read_at off (unat sz) buf) (\<lambda>bs. Inr (ParseFromArray pb bs))"

text \<open>What the code relies on: a message read back from its own encoding is that message.\<close>

definition pb_faithful :: "'m PBCodec \<Rightarrow> 'm \<Rightarrow> bool" where
  "pb_faithful pb m \<longleftrightarrow> ParseFromArray pb (SerializeToArray pb m) = m"

end
