(* ===== verification/NOPaxosWire.thy ===== *)
theory NOPaxosWire
  imports NOPaxosReplica Buffers
begin

text \<open>
  How NOPaxos messages travel: the packet format of \<^verbatim>\<open>replication/nopaxos/message.cc\<close>, the sequencer
  of \<^verbatim>\<open>replication/nopaxos/sequencer.cc\<close> and the base class of \<^verbatim>\<open>sequencer/sequencer.cc\<close>.  A packet starts with
  the size of the sequencer's header; where that is not zero a session number and a message number
  follow, which the sequencer fills in and the receiver copies into the request.
\<close>

type_synonym SessNum = "16 word"
type_synonym MsgNum = u64
type_synonym HeaderSize = "16 word"

section \<open>The packet format\<close>

record 'm NOPaxosMessage =
  pm_msg :: 'm
  pm_sequencing :: bool

definition NOPaxosMessage_SerializedSize :: "'m PBCodec \<Rightarrow> 'm NOPaxosMessage \<Rightarrow> nat" where
  "NOPaxosMessage_SerializedSize pb x =
     2 + (if pm_sequencing x then 2 + 8 else 0) + PBMessage_SerializedSize pb (pm_msg x)"

text \<open>\<^verbatim>\<open>Serialize\<close> leaves the bytes of the two numbers as the buffer has them.\<close>

definition NOPaxosMessage_Serialize :: "'m PBCodec \<Rightarrow> 'm NOPaxosMessage \<Rightarrow> byte list \<Rightarrow> byte list result" where
  "NOPaxosMessage_Serialize pb x buf =
     (let header_sz = (if pm_sequencing x then 2 + 8 else 0) :: HeaderSize
      in rbind (write_at 0 (store_be 2 header_sz) buf) (\<lambda>buf'.
           PBMessage_Serialize pb (pm_msg x) (if pm_sequencing x then 2 + 2 + 8 else 2) buf'))"

text \<open>\<open>stamp\<close> is what \<^verbatim>\<open>Parse\<close> does with the numbers, which depends on the dynamic type of the message:
  only a request to a replica takes them, and the cast of a message to a client throws an exception
  nobody catches.\<close>

definition stamp_to_replica :: "SessNum \<Rightarrow> MsgNum \<Rightarrow> ToReplicaMessage_np \<Rightarrow> ToReplicaMessage_np result" where
  "stamp_to_replica sess_num msg_num m =
     (case m of
        NRequest r \<Rightarrow> Inr (NRequest (r\<lparr>rm_sessnum := ucast sess_num, rm_msgnum := msg_num\<rparr>))
      | _ \<Rightarrow> Inl Panicked)"

definition stamp_to_client :: "SessNum \<Rightarrow> MsgNum \<Rightarrow> ToClientMessage_np \<Rightarrow> ToClientMessage_np result" where
  "stamp_to_client sess_num msg_num m = Inl Panicked"

definition NOPaxosMessage_Parse ::
  "'m PBCodec \<Rightarrow> (SessNum \<Rightarrow> MsgNum \<Rightarrow> 'm \<Rightarrow> 'm result) \<Rightarrow> byte list \<Rightarrow> 'm result" where
  "NOPaxosMessage_Parse pb stamp buf =
     rbind (read_at 0 2 buf) (\<lambda>h.
       let header_sz = load_be h :: HeaderSize;
           body = word_of_nat (length buf) - 2 - ucast header_sz
       in if header_sz > 0
          then rbind (read_at 2 2 buf) (\<lambda>sess_num. rbind (read_at 4 8 buf) (\<lambda>msg_num.
                 rbind (PBMessage_Parse pb buf 12 body) (\<lambda>m. stamp (load_be sess_num) (load_be msg_num) m)))
          else PBMessage_Parse pb buf 2 body)"

section \<open>The sequencer\<close>

record NOPaxosSequencer =
  sq_sess_num :: SessNum
  sq_msg_num :: MsgNum
  sq_sent :: "byte list list"

text \<open>\<^verbatim>\<open>SendMessageToAll\<close> of a \<^verbatim>\<open>BufferMessage\<close> copies the buffer as it is.\<close>

definition BufferMessage_Serialize :: "byte list \<Rightarrow> byte list \<Rightarrow> byte list result" where
  "BufferMessage_Serialize src buf = write_at 0 src buf"

definition NOPaxosSequencer_new :: "Configuration \<Rightarrow> int \<Rightarrow> NOPaxosSequencer result" where
  "NOPaxosSequencer_new config i =
     check (i < NumSequencers config) Panicked
       (rbind (Configuration_sequencer config i) (\<lambda>_.
          Inr \<lparr>sq_sess_num = word_of_int i, sq_msg_num = 0, sq_sent = []\<rparr>))"

definition Sequencer_ReceiveMessage :: "NOPaxosSequencer \<Rightarrow> byte list \<Rightarrow> NOPaxosSequencer result" where
  "Sequencer_ReceiveMessage sq buf =
     rbind (read_at 0 2 buf) (\<lambda>h.
       let header_sz = load_be h :: HeaderSize
       in if header_sz > 0
          then let sq' = sq\<lparr>sq_msg_num := sq_msg_num sq + 1\<rparr>
               in rbind (write_at 2 (store_be 2 (sq_sess_num sq)) buf) (\<lambda>buf'.
                  rbind (write_at 4 (store_be 8 (sq_msg_num sq')) buf') (\<lambda>buf''.
                    Inr (sq'\<lparr>sq_sent := sq_sent sq' @ [buf'']\<rparr>)))
          else Inr sq)"

section \<open>Round trips\<close>

text \<open>A packet in pieces: the header size, the place of the two numbers and the encoded message.\<close>

definition frame :: "HeaderSize \<Rightarrow> byte list \<Rightarrow> byte list \<Rightarrow> byte list" where
  "frame h stamp body = store_be 2 h @ stamp @ body"

lemma length_frame [simp]: "length (frame h st body) = 2 + length st + length body"
  by (simp add: frame_def)

lemma take_drop_parts: "a + b \<le> length xs \<Longrightarrow> xs = take a xs @ take b (drop a xs) @ drop (a + b) xs"
  by (metis append_take_drop_id drop_drop add.commute)

lemma Serialize_frame:
  assumes "length buf = NOPaxosMessage_SerializedSize pb x"
  shows "NOPaxosMessage_Serialize pb x buf =
     Inr (if pm_sequencing x then frame 10 (take 10 (drop 2 buf)) (SerializeToArray pb (pm_msg x))
          else frame 0 [] (SerializeToArray pb (pm_msg x)))"
proof -
  let ?n = "if pm_sequencing x then 10 else 0 :: nat"
  let ?h = "store_be 2 (if pm_sequencing x then 10 else 0 :: HeaderSize)"
  define a b c where "a = take 2 buf" and "b = take ?n (drop 2 buf)" and "c = drop (2 + ?n) buf"
  have "length buf = 2 + ?n + length (SerializeToArray pb (pm_msg x))"
    using assms by (simp add: NOPaxosMessage_SerializedSize_def PBMessage_SerializedSize_def)
  then have len: "length a = 2" "length b = ?n" "length c = length (SerializeToArray pb (pm_msg x))"
    and "2 + ?n \<le> length buf"
    unfolding a_def b_def c_def by auto
  from this(4) have buf: "buf = a @ b @ c" unfolding a_def b_def c_def by (rule take_drop_parts)
  have "write_at 0 ?h buf = Inr (?h @ b @ c)"
    using write_at_piece [of "[]" 0 a ?h] len(1) unfolding buf by simp
  moreover have "write_at (if pm_sequencing x then 2 + 2 + 8 else 2) (SerializeToArray pb (pm_msg x)) (?h @ b @ c) =
      Inr (?h @ b @ SerializeToArray pb (pm_msg x))"
    using write_at_piece [of "?h @ b" "if pm_sequencing x then 12 else 2" c _ "[]"] len
    by (cases "pm_sequencing x") simp_all
  ultimately have "NOPaxosMessage_Serialize pb x buf = Inr (?h @ b @ SerializeToArray pb (pm_msg x))"
    by (cases "pm_sequencing x") (simp_all add: NOPaxosMessage_Serialize_def PBMessage_Serialize_def Let_def)
  then show ?thesis by (simp add: frame_def b_def)
qed

text \<open>What reading a packet in pieces does.\<close>

lemma Parse_frame_plain:
  assumes "length body < 2 ^ 32"
  shows "NOPaxosMessage_Parse pb stamp (frame 0 [] body) = Inr (ParseFromArray pb body)"
proof -
  have "unat (word_of_nat (2 + length body) - 2 - ucast (0 :: HeaderSize) :: u64) = length body"
    using assms by (simp add: unat_of_nat)
  moreover have "read_at 2 (length body) (store_be 2 (0 :: HeaderSize) @ body) = Inr body"
    by (rule read_at_last) simp_all
  ultimately show ?thesis
    by (simp add: NOPaxosMessage_Parse_def PBMessage_Parse_def frame_def read_at_first)
qed

lemma Parse_frame_stamped:
  assumes "length body < 2 ^ 32"
  shows "NOPaxosMessage_Parse pb stamp (frame 10 (store_be 2 sess @ store_be 8 num) body) =
     stamp sess num (ParseFromArray pb body)"
proof -
  let ?h = "store_be 2 (10 :: HeaderSize)" and ?s = "store_be 2 (sess :: SessNum)" and ?m = "store_be 8 (num :: MsgNum)"
  have "word_of_nat (12 + length body) - 2 - ucast (10 :: HeaderSize) = (word_of_nat (length body) :: u64)"
    by (simp add: unsigned_numeral)
  then have sz: "unat (word_of_nat (12 + length body) - 2 - ucast (10 :: HeaderSize) :: u64) = length body"
    using assms by (simp add: unat_of_nat)
  have "read_at 2 2 (?h @ ?s @ ?m @ body) = Inr ?s" by (rule read_at_piece) simp_all
  moreover have "read_at 4 8 (?h @ ?s @ ?m @ body) = Inr ?m"
    using read_at_piece [of "?h @ ?s" 4 ?m 8 body] by simp
  moreover have "read_at 12 (length body) (?h @ ?s @ ?m @ body) = Inr body"
    using read_at_last [of "?h @ ?s @ ?m" 12 body] by simp
  ultimately show ?thesis
    using sz by (simp add: NOPaxosMessage_Parse_def PBMessage_Parse_def frame_def read_at_first)
qed

lemma Sequencer_frame:
  assumes "length stamp = 10"
  shows "Sequencer_ReceiveMessage sq (frame 10 stamp body) =
     Inr (sq\<lparr>sq_msg_num := sq_msg_num sq + 1,
             sq_sent := sq_sent sq @ [frame 10 (store_be 2 (sq_sess_num sq) @ store_be 8 (sq_msg_num sq + 1)) body]\<rparr>)"
proof -
  let ?h = "store_be 2 (10 :: HeaderSize)" and ?s = "store_be 2 (sq_sess_num sq)" and ?m = "store_be 8 (sq_msg_num sq + 1)"
  obtain a b where st: "stamp = a @ b" "length a = 2" "length b = 8"
    using that [of "take 2 stamp" "drop 2 stamp"] assms by simp
  have "write_at 2 ?s (?h @ a @ b @ body) = Inr (?h @ ?s @ b @ body)"
    by (rule write_at_piece) (simp_all add: st)
  moreover have "write_at 4 ?m (?h @ ?s @ b @ body) = Inr (?h @ ?s @ ?m @ body)"
    using write_at_piece [of "?h @ ?s" 4 b ?m body] st by simp
  ultimately show ?thesis
    by (simp add: Sequencer_ReceiveMessage_def frame_def read_at_first Let_def st(1))
qed

lemma Sequencer_frame_plain: "Sequencer_ReceiveMessage sq (frame 0 [] body) = Inr sq"
  by (simp add: Sequencer_ReceiveMessage_def frame_def read_at_first)

text \<open>A codec for the examples: a request as the characters of its operation.\<close>

definition text_request :: "string \<Rightarrow> ToReplicaMessage_np" where
  "text_request op = NRequest \<lparr>rm_sessnum = 0, rm_msgnum = 0, rm_req = empty_Request\<lparr>req_op := op\<rparr>\<rparr>"

definition text_codec :: "ToReplicaMessage_np PBCodec" where
  "text_codec =
     \<lparr>SerializeToArray = (\<lambda>m. case m of NRequest r \<Rightarrow> map (\<lambda>c. word_of_nat (of_char c)) (req_op (rm_req r)) | _ \<Rightarrow> []),
      ParseFromArray = (\<lambda>bs. text_request (map (\<lambda>b. char_of (unat b)) bs))\<rparr>"

lemma text_faithful: "pb_faithful text_codec (text_request op)"
proof -
  have "char_of (unat (word_of_nat (of_char c) :: byte)) = c" for c
    using nat_of_char_less_256 [of c] by (simp add: unat_of_nat)
  then show ?thesis by (simp add: pb_faithful_def text_codec_def text_request_def comp_def)
qed

lemma text_size [simp]: "PBMessage_SerializedSize text_codec (text_request op) = length op"
  by (simp add: PBMessage_SerializedSize_def text_codec_def text_request_def)

text \<open>A message that does not go through the sequencer arrives as it was sent: what \<^verbatim>\<open>Serialize\<close> writes into a
  buffer of \<^verbatim>\<open>SerializedSize()\<close> bytes is read back by \<^verbatim>\<open>Parse\<close> as the same message, whatever the buffer
  held before and whatever \<^verbatim>\<open>Parse\<close> would do with a stamp; and the sequencer does not forward such a
  packet.\<close>

theorem plain_message_roundtrip:
  assumes "pb_faithful pb m" and "length buf = NOPaxosMessage_SerializedSize pb \<lparr>pm_msg = m, pm_sequencing = False\<rparr>"
    and "PBMessage_SerializedSize pb m < 2 ^ 32"
  shows "\<exists>packet. NOPaxosMessage_Serialize pb \<lparr>pm_msg = m, pm_sequencing = False\<rparr> buf = Inr packet \<and>
     NOPaxosMessage_Parse pb stamp packet = Inr m \<and> Sequencer_ReceiveMessage sq packet = Inr sq"
  using assms Serialize_frame [OF assms(2)]
  by (simp add: Parse_frame_plain Sequencer_frame_plain PBMessage_SerializedSize_def pb_faithful_def)

theorem plain_message_roundtrip_witness:
  "\<exists>packet. NOPaxosMessage_Serialize text_codec \<lparr>pm_msg = text_request ''get'', pm_sequencing = False\<rparr> [7, 7, 7, 7, 7] = Inr packet \<and>
     NOPaxosMessage_Parse text_codec stamp_to_replica packet = Inr (text_request ''get'') \<and>
     Sequencer_ReceiveMessage \<lparr>sq_sess_num = 3, sq_msg_num = 8, sq_sent = []\<rparr> packet =
       Inr \<lparr>sq_sess_num = 3, sq_msg_num = 8, sq_sent = []\<rparr>"
  by (rule plain_message_roundtrip) (simp_all add: text_faithful NOPaxosMessage_SerializedSize_def)

lemma stamped_request:
  assumes "pb_faithful pb (NRequest r)" and "length buf = NOPaxosMessage_SerializedSize pb \<lparr>pm_msg = NRequest r, pm_sequencing = True\<rparr>"
    and "PBMessage_SerializedSize pb (NRequest r) < 2 ^ 32"
  shows "\<exists>packet sent. NOPaxosMessage_Serialize pb \<lparr>pm_msg = NRequest r, pm_sequencing = True\<rparr> buf = Inr packet \<and>
     Sequencer_ReceiveMessage sq packet =
       Inr (sq\<lparr>sq_msg_num := sq_msg_num sq + 1, sq_sent := sq_sent sq @ [sent]\<rparr>) \<and>
     length sent = length packet \<and>
     NOPaxosMessage_Parse pb stamp_to_replica sent =
       Inr (NRequest (r\<lparr>rm_sessnum := ucast (sq_sess_num sq), rm_msgnum := sq_msg_num sq + 1\<rparr>))"
proof -
  let ?body = "SerializeToArray pb (NRequest r)" and ?st = "take 10 (drop 2 buf)"
  have len: "length ?st = 10" using assms(2) by (simp add: NOPaxosMessage_SerializedSize_def)
  have "length ?body < 2 ^ 32" using assms(3) by (simp add: PBMessage_SerializedSize_def)
  note parse = Parse_frame_stamped [OF this, of pb stamp_to_replica "sq_sess_num sq" "sq_msg_num sq + 1"]
  show ?thesis
    using Serialize_frame [OF assms(2)] Sequencer_frame [OF len, of sq ?body] parse assms(1) len
    by (intro exI [of _ "frame 10 ?st ?body"]
        exI [of _ "frame 10 (store_be 2 (sq_sess_num sq) @ store_be 8 (sq_msg_num sq + 1)) ?body"])
      (simp add: stamp_to_replica_def pb_faithful_def)
qed

text \<open>C36. A sequenced request arrives with the sequencer's stamp and otherwise as it was sent: the packet that
  \<^verbatim>\<open>Serialize\<close> writes, whatever the buffer held before, is forwarded by the sequencer as one packet,
  which \<^verbatim>\<open>Parse\<close> reads as the request with the session number and the next message number of the
  sequencer.\<close>

theorem sequenced_request_roundtrip:
  assumes "pb_faithful pb (NRequest r)" and "length buf = NOPaxosMessage_SerializedSize pb \<lparr>pm_msg = NRequest r, pm_sequencing = True\<rparr>"
    and "PBMessage_SerializedSize pb (NRequest r) < 2 ^ 32"
  shows "\<exists>packet sent. NOPaxosMessage_Serialize pb \<lparr>pm_msg = NRequest r, pm_sequencing = True\<rparr> buf = Inr packet \<and>
     Sequencer_ReceiveMessage sq packet =
       Inr (sq\<lparr>sq_msg_num := sq_msg_num sq + 1, sq_sent := sq_sent sq @ [sent]\<rparr>) \<and>
     length sent = length packet \<and>
     NOPaxosMessage_Parse pb stamp_to_replica sent =
       Inr (NRequest (r\<lparr>rm_sessnum := ucast (sq_sess_num sq), rm_msgnum := sq_msg_num sq + 1\<rparr>))"
  by (rule stamped_request [OF assms])

theorem sequenced_request_roundtrip_witness:
  "\<exists>packet sent. NOPaxosMessage_Serialize text_codec \<lparr>pm_msg = text_request ''put'', pm_sequencing = True\<rparr> (replicate 15 1) = Inr packet \<and>
     Sequencer_ReceiveMessage \<lparr>sq_sess_num = 3, sq_msg_num = 8, sq_sent = []\<rparr> packet =
       Inr \<lparr>sq_sess_num = 3, sq_msg_num = 9, sq_sent = [sent]\<rparr> \<and>
     NOPaxosMessage_Parse text_codec stamp_to_replica sent =
       Inr (NRequest \<lparr>rm_sessnum = 3, rm_msgnum = 9, rm_req = empty_Request\<lparr>req_op := ''put''\<rparr>\<rparr>)"
proof -
  let ?r = "\<lparr>rm_sessnum = 0, rm_msgnum = 0, rm_req = empty_Request\<lparr>req_op := ''put''\<rparr>\<rparr>"
  have "text_request ''put'' = NRequest ?r" by (simp add: text_request_def)
  then show ?thesis
    using sequenced_request_roundtrip [of text_codec ?r "replicate 15 1" "\<lparr>sq_sess_num = 3, sq_msg_num = 8, sq_sent = []\<rparr>"]
      text_faithful [of "''put''"] text_size [of "''put''"]
    by (simp add: NOPaxosMessage_SerializedSize_def) blast
qed

section \<open>Malformed packets\<close>

text \<open>C37. Which packets \<^verbatim>\<open>Parse\<close> reads within bounds.  The size field of the sequencer header is trusted: reading
  stays inside the packet exactly when there is room for the size field and either it is zero, or the
  two numbers fit in the packet and the field is at least their ten bytes and not more than what
  follows it.  Every other packet makes \<^verbatim>\<open>Parse\<close> read beyond the buffer.\<close>

theorem Parse_in_bounds:
  assumes "length buf < 2 ^ 32"
  defines "h \<equiv> load_be (take 2 buf) :: HeaderSize"
  shows "NOPaxosMessage_Parse pb (\<lambda>_ _ m. Inr m) buf \<noteq> Inl UndefinedBehaviour \<longleftrightarrow>
     2 \<le> length buf \<and> (h = 0 \<or> 10 \<le> unat h \<and> unat h + 2 \<le> length buf)"
proof -
  let ?n = "length buf"
  have h16: "unat h < 2 ^ 16" using unsigned_less [of h] by simp
  have uh: "unat (ucast h :: u64) = unat h"
    using h16 by (simp add: unsigned_ucast_eq take_bit_nat_eq_self)
  have "unat (word_of_nat ?n :: u64) = ?n" using assms(1) by (simp add: unat_of_nat)
  then have size: "unat (word_of_nat ?n - 2 - ucast h :: u64) =
      (if 2 + unat h \<le> ?n then ?n - (2 + unat h) else ?n + 2 ^ 64 - (2 + unat h))"
    using assms(1) h16 by (auto simp: unat_sub_if' uh)
  show ?thesis
  proof (cases "2 \<le> ?n")
    case False
    then show ?thesis by (simp add: NOPaxosMessage_Parse_def read_at_def)
  next
    case True
    have h0: "unat h = 0 \<longleftrightarrow> h = 0" by (simp add: unsigned_eq_0_iff)
    have off: "12 + unat (word_of_nat ?n - 2 - ucast h :: u64) \<le> ?n \<longleftrightarrow> 10 \<le> unat h \<and> unat h + 2 \<le> ?n"
      using size h16 True by auto
    show ?thesis
      using True size off h0
      by (auto simp: NOPaxosMessage_Parse_def read_at_def PBMessage_Parse_def Let_def word_neq_0_conv check_def
          simp flip: h_def)
  qed
qed

theorem Parse_in_bounds_witness:
  "NOPaxosMessage_Parse text_codec (\<lambda>_ _ m. Inr m) (frame 10 (replicate 10 0) [103]) \<noteq> Inl UndefinedBehaviour \<and>
   NOPaxosMessage_Parse text_codec (\<lambda>_ _ m. Inr m) (frame 9 (replicate 10 0) [103]) = Inl UndefinedBehaviour"
proof -
  have "length (frame 10 (replicate 10 0) [103]) < 2 ^ 32" "length (frame 9 (replicate 10 0) [103]) < 2 ^ 32"
    by simp_all
  moreover have "load_be (take 2 (frame 10 (replicate 10 0) [103])) = (10 :: HeaderSize)"
    "load_be (take 2 (frame 9 (replicate 10 0) [103])) = (9 :: HeaderSize)"
    by (simp_all add: frame_def)
  ultimately show ?thesis
    using Parse_in_bounds [of "frame 10 (replicate 10 0) [103]" text_codec]
      Parse_in_bounds [of "frame 9 (replicate 10 0) [103]" text_codec] by simp
qed

end
