(* ===== verification/ClientCommon.thy ===== *)
theory ClientCommon
  imports Prelude
begin

text \<open>
  What the clients of \<^verbatim>\<open>replication\<close> share (\<^verbatim>\<open>common/client.h\<close>): a request that waits for its reply, the calls
  an application makes, and the contract of a client that has one request outstanding at a time.

  A continuation (\<^verbatim>\<open>std::function\<close>) is a token of type \<open>'k\<close>.  What a continuation does to the client that runs
  it is the list of public calls it makes, which a parameter gives for the token, the request and
  the reply (\<open>None\<close> where a timeout continuation runs); everything else it does is outside of the
  client.
\<close>

record 'k PendingRequest =
  pr_request :: string
  pr_clientReqId :: u64
  pr_continuation :: 'k
  pr_timeoutContinuation :: "'k option"

definition PendingRequest_new :: "string \<Rightarrow> u64 \<Rightarrow> 'k \<Rightarrow> 'k PendingRequest" where
  "PendingRequest_new request clientReqId continuation =
     \<lparr>pr_request = request, pr_clientReqId = clientReqId, pr_continuation = continuation, pr_timeoutContinuation = None\<rparr>"

datatype 'k client_call =
    CallInvoke string 'k
  | CallInvokeUnlogged int string 'k "'k option"

type_synonym 'k continuations = "'k \<Rightarrow> string \<Rightarrow> string option \<Rightarrow> 'k client_call list"

text \<open>Calls a client accepts: at most one request and one unlogged request, and only where none is pending; \<open>n\<close> is
  the last identifier used.\<close>

definition is_invoke :: "'k client_call \<Rightarrow> bool" where
  "is_invoke c = (case c of CallInvoke _ _ \<Rightarrow> True | CallInvokeUnlogged _ _ _ _ \<Rightarrow> False)"

definition calls_permitted :: "u64 \<Rightarrow> bool \<Rightarrow> bool \<Rightarrow> 'k client_call list \<Rightarrow> bool" where
  "calls_permitted n pending pendingUnlogged cs \<longleftrightarrow>
     length (filter is_invoke cs) \<le> (if pending then 0 else 1) \<and>
     length (filter (Not \<circ> is_invoke) cs) \<le> (if pendingUnlogged then 0 else 1) \<and> uint n + int (length cs) < 2 ^ 64"

lemma calls_permitted_Nil [simp]: "calls_permitted n b u []"
  using uint_lt2p [of n] by (simp add: calls_permitted_def)

lemma u64_next:
  assumes "uint n + 1 < (2 :: int) ^ 64"
  shows "n \<noteq> (- 1 :: u64) \<and> uint (n + 1) = uint n + 1"
proof -
  have "int (unat n + 1) < int (2 ^ 64)" using assms by simp
  then have "unat n + 1 < 2 ^ 64" unfolding of_nat_less_iff .
  then have u: "unat (n + 1) = unat n + 1" and max: "n \<noteq> - 1" using unat_add_of_nat [of n 1] unfolding u64_not_max by simp_all
  show ?thesis using max arg_cong [OF u, of int] by simp
qed

lemma calls_permitted_Cons:
  assumes "calls_permitted n pending pendingUnlogged (c # cs)"
  shows "uint n + 1 < 2 ^ 64" "is_invoke c \<Longrightarrow> \<not> pending \<and> calls_permitted (n + 1) True pendingUnlogged cs"
    "\<not> is_invoke c \<Longrightarrow> \<not> pendingUnlogged \<and> calls_permitted (n + 1) pending True cs"
proof -
  show n: "uint n + 1 < 2 ^ 64" using assms by (simp add: calls_permitted_def)
  show "is_invoke c \<Longrightarrow> \<not> pending \<and> calls_permitted (n + 1) True pendingUnlogged cs"
    "\<not> is_invoke c \<Longrightarrow> \<not> pendingUnlogged \<and> calls_permitted (n + 1) pending True cs"
    using assms u64_next [OF n] by (auto simp: calls_permitted_def split: if_splits)
qed

section \<open>One request at a time\<close>

text \<open>The life of a client's requests, as far as identifiers go: the last identifier used, the identifier
  of the pending request and the identifiers of the requests that were answered.\<close>

type_synonym client_view = "u64 \<times> u64 option \<times> u64 list"

inductive client_move :: "client_view \<Rightarrow> client_view \<Rightarrow> bool" where
  start: "n \<noteq> - 1 \<Longrightarrow> client_move (n, None, ids) (n + 1, Some (n + 1), ids)"
| other: "n \<noteq> - 1 \<Longrightarrow> client_move (n, p, ids) (n + 1, p, ids)"
| answer: "client_move (n, Some i, ids) (n, None, ids @ [i])"

inductive_cases client_moveE: "client_move v w"

definition client_history :: "client_view \<Rightarrow> bool" where
  "client_history v \<longleftrightarrow> (case v of (n, p, ids) \<Rightarrow>
     sorted_wrt (<) ids \<and> (\<forall>i\<in>set ids. i \<le> n) \<and> (\<forall>i. p = Some i \<longrightarrow> i \<le> n \<and> (\<forall>j\<in>set ids. j < i)))"

lemma client_move_history: "\<lbrakk> client_move v w; client_history v \<rbrakk> \<Longrightarrow> client_history w"
proof (induction rule: client_move.induct)
  case (start n ids)
  then have "n < n + 1" using unat_add_of_nat [of n 1] unfolding u64_not_max by (simp add: word_less_nat_alt)
  with start show ?case by (fastforce simp: client_history_def)
next
  case (other n p ids)
  then have "n < n + 1" using unat_add_of_nat [of n 1] unfolding u64_not_max by (simp add: word_less_nat_alt)
  with other show ?case by (fastforce simp: client_history_def)
next
  case (answer n i ids)
  then show ?case by (auto simp: client_history_def sorted_wrt_append)
qed

lemma client_moves_history: "\<lbrakk> client_move\<^sup>*\<^sup>* v w; client_history v \<rbrakk> \<Longrightarrow> client_history w"
  by (induction rule: rtranclp_induct) (auto intro: client_move_history)

lemma client_moves_prefix: "client_move\<^sup>*\<^sup>* v w \<Longrightarrow> \<exists>more. snd (snd w) = snd (snd v) @ more"
  by (induction rule: rtranclp_induct) (auto elim!: client_moveE)

text \<open>The contract of a client: every step is made of such moves.  Then over every run each request is
  answered at most once and requests are answered in the order in which they were invoked.\<close>

locale sequential_client = handler_system handle ok inv
  for handle :: "'s \<Rightarrow> 'm \<Rightarrow> 's result" and ok and inv +
  fixes view_of :: "'s \<Rightarrow> client_view"
  assumes step_moves: "\<lbrakk> inv s; ok s m; handle s m = Inr s' \<rbrakk> \<Longrightarrow> client_move\<^sup>*\<^sup>* (view_of s) (view_of s')"
begin

lemma run_moves:
  "\<lbrakk> inv s; accepts handle ok s ms; fold_r handle s ms = Inr s' \<rbrakk> \<Longrightarrow> client_move\<^sup>*\<^sup>* (view_of s) (view_of s')"
proof (induction ms arbitrary: s)
  case (Cons m ms)
  then obtain t where t: "handle s m = Inr t" "fold_r handle t ms = Inr s'" by auto
  then have "inv t" "accepts handle ok t ms" "client_move\<^sup>*\<^sup>* (view_of s) (view_of t)"
    using Cons.prems handle_inv step_moves by auto
  then show ?case using Cons.IH [OF _ _ t(2)] by simp
qed simp

lemma answered_in_order:
  assumes "inv s" "client_history (view_of s)" "accepts handle ok s ms" "fold_r handle s ms = Inr s'"
  shows "client_history (view_of s') \<and> (\<exists>more. snd (snd (view_of s')) = snd (snd (view_of s)) @ more)"
  using run_moves [OF assms(1,3,4)] assms(2) client_moves_history client_moves_prefix by blast

end

end
