(* ===== verification/NOPaxosClient.thy ===== *)
theory NOPaxosClient
  imports NOPaxosReplica ClientCommon
begin

text \<open>
  The NOPaxos client, \<^verbatim>\<open>replication/nopaxos/client.h\<close> and \<^verbatim>\<open>replication/nopaxos/client.cc\<close>: a request is
  sent to the sequencer (or to the multicast address), and it is answered when a quorum of replicas with
  the leader among them report the same view, session and position in the log.  \<^verbatim>\<open>replyQuorum\<close> is indexed by an
  \<^verbatim>\<open>int\<close>, to which the 64-bit request identifier is converted.

  \<open>nc_answered\<close> records the continuations that were run for replies, and \<open>nc_outbox\<close> what was sent, with
  the flag of \<^verbatim>\<open>NOPaxosMessage\<close> that asks for sequencing; both are histories the code does not keep.
\<close>

datatype client_destination = ToSequencer int | ToMulticast | ToOneReplica int

record 'k NOPaxosClient =
  nc_config :: Configuration
  nc_clientid :: u64
  nc_node_addr :: ReplicaAddress
  nc_lastReqID :: u64
  nc_pendingRequest :: "'k PendingRequest option"
  nc_pendingUnloggedRequest :: "'k PendingRequest option"
  nc_requestTimeout :: bool
  nc_unloggedRequestTimeout :: bool
  nc_replyQuorum :: "(u32, ReplyMessage_np) QuorumSet"
  nc_outbox :: "(client_destination \<times> ToReplicaMessage_np \<times> bool) list"
  nc_answered :: "(u64 \<times> 'k \<times> string \<times> string) list"

definition NOPaxosClient_new :: "Configuration \<Rightarrow> ReplicaAddress \<Rightarrow> u64 \<Rightarrow> 'k NOPaxosClient" where
  "NOPaxosClient_new config addr clientid =
     \<lparr>nc_config = config, nc_clientid = clientid, nc_node_addr = addr, nc_lastReqID = 0,
      nc_pendingRequest = None, nc_pendingUnloggedRequest = None, nc_requestTimeout = False,
      nc_unloggedRequestTimeout = False, nc_replyQuorum = QuorumSet_new (QuorumSize config),
      nc_outbox = [], nc_answered = []\<rparr>"

definition send_nc :: "'k NOPaxosClient \<Rightarrow> client_destination \<Rightarrow> ToReplicaMessage_np \<Rightarrow> bool \<Rightarrow> 'k NOPaxosClient" where
  "send_nc s d m sequencing = s\<lparr>nc_outbox := nc_outbox s @ [(d, m, sequencing)]\<rparr>"

section \<open>Requests\<close>

definition client_request :: "'k NOPaxosClient \<Rightarrow> 'k PendingRequest \<Rightarrow> RequestMessage" where
  "client_request s p =
     \<lparr>rm_sessnum = 0, rm_msgnum = 0,
      rm_req = empty_Request\<lparr>req_op := pr_request p, req_clientid := nc_clientid s,
        req_clientreqid := pr_clientReqId p, req_clientaddr := Serialize (nc_node_addr s)\<rparr>\<rparr>"

definition SendRequest :: "'k NOPaxosClient \<Rightarrow> 'k NOPaxosClient result" where
  "SendRequest s =
     (case nc_pendingRequest s of
        None \<Rightarrow> Inl UndefinedBehaviour
      | Some p \<Rightarrow>
          Inr ((send_nc s (if NumSequencers (nc_config s) > 0 then ToSequencer 0 else ToMulticast)
                  (NRequest (client_request s p)) True)\<lparr>nc_requestTimeout := True\<rparr>))"

definition ResendRequest :: "'k NOPaxosClient \<Rightarrow> 'k NOPaxosClient result" where
  "ResendRequest s = SendRequest s"

definition Invoke :: "'k NOPaxosClient \<Rightarrow> string \<Rightarrow> 'k \<Rightarrow> 'k NOPaxosClient result" where
  "Invoke s request continuation =
     check (nc_pendingRequest s = None) Panicked
       (let n = nc_lastReqID s + 1
        in SendRequest (s\<lparr>nc_lastReqID := n, nc_pendingRequest := Some (PendingRequest_new request n continuation)\<rparr>))"

definition InvokeUnlogged :: "'k NOPaxosClient \<Rightarrow> int \<Rightarrow> string \<Rightarrow> 'k \<Rightarrow> 'k option \<Rightarrow> 'k NOPaxosClient result" where
  "InvokeUnlogged s replicaIdx request continuation timeoutContinuation =
     check (nc_pendingUnloggedRequest s = None) Panicked
       (let n = nc_lastReqID s + 1;
            p = (PendingRequest_new request n continuation)\<lparr>pr_timeoutContinuation := timeoutContinuation\<rparr>;
            s1 = s\<lparr>nc_lastReqID := n, nc_pendingUnloggedRequest := Some p\<rparr>
        in check (\<not> nc_unloggedRequestTimeout s1) AssertFailed
             (Inr (send_nc (s1\<lparr>nc_unloggedRequestTimeout := True\<rparr>) (ToOneReplica replicaIdx) (NUnloggedRequest request) False)))"

definition make_call :: "'k NOPaxosClient \<Rightarrow> 'k client_call \<Rightarrow> 'k NOPaxosClient result" where
  "make_call s c =
     (case c of
        CallInvoke request k \<Rightarrow> Invoke s request k
      | CallInvokeUnlogged i request k kt \<Rightarrow> InvokeUnlogged s i request k kt)"

section \<open>Replies\<close>

definition IsLeader :: "Configuration \<Rightarrow> u64 \<Rightarrow> int \<Rightarrow> bool" where
  "IsLeader config view replicaIdx \<longleftrightarrow> GetLeaderIndex config view = replicaIdx"

definition CompleteOperation :: "'k continuations \<Rightarrow> 'k NOPaxosClient \<Rightarrow> ReplyMessage_np \<Rightarrow> 'k NOPaxosClient result" where
  "CompleteOperation calls s msg =
     (case nrep_reply msg of
        None \<Rightarrow> Inl AssertFailed
      | Some reply \<Rightarrow>
          (case nc_pendingRequest s of
             None \<Rightarrow> Inl UndefinedBehaviour
           | Some req \<Rightarrow>
               let s1 = s\<lparr>nc_requestTimeout := False, nc_pendingRequest := None,
                          nc_answered := nc_answered s @ [(pr_clientReqId req, pr_continuation req, pr_request req, reply)]\<rparr>
               in rbind (fold_r make_call s1 (calls (pr_continuation req) (pr_request req) (Some reply))) (\<lambda>s2.
                    Inr (s2\<lparr>nc_replyQuorum := Clear (nc_replyQuorum s2)\<rparr>))))"

text \<open>The two loops of \<^verbatim>\<open>HandleReply\<close>.  The first one looks for the leader's reply in the latest view: its
  state is \<^verbatim>\<open>leaderIdx\<close> where \<^verbatim>\<open>hasLeader\<close> is set, \<^verbatim>\<open>latestView\<close> and \<^verbatim>\<open>latestSessnum\<close>.  The second one counts
  the replies that match the leader's.\<close>

definition leader_step ::
  "Configuration \<Rightarrow> int option \<times> u64 \<times> u64 \<Rightarrow> int \<times> ReplyMessage_np \<Rightarrow> int option \<times> u64 \<times> u64" where
  "leader_step config st kv =
     (let (leader, latestView, latestSessnum) = st;
          m = snd kv;
          (leader, latestView) = (if nrep_view m > latestView then (None, nrep_view m) else (leader, latestView));
          latestSessnum = (if nrep_sessnum m > latestSessnum then nrep_sessnum m else latestSessnum)
      in if IsLeader config (nrep_view m) (fst kv) \<and> nrep_view m = latestView \<and> nrep_sessnum m = latestSessnum
         then (Some (fst kv), latestView, latestSessnum)
         else (leader, latestView, latestSessnum))"

definition same_slot :: "ReplyMessage_np \<Rightarrow> ReplyMessage_np \<Rightarrow> bool" where
  "same_slot l m \<longleftrightarrow> nrep_view m = nrep_view l \<and> nrep_sessnum m = nrep_sessnum l \<and> nrep_opnum m = nrep_opnum l"

definition matching_step :: "ReplyMessage_np \<Rightarrow> int \<Rightarrow> int \<times> ReplyMessage_np \<Rightarrow> int result" where
  "matching_step l n kv =
     (if same_slot l (snd kv)
      then check (nrep_clientreqid (snd kv) = nrep_clientreqid l) AssertFailed (Inr (n + 1)) else Inr n)"

definition HandleReply :: "'k continuations \<Rightarrow> 'k NOPaxosClient \<Rightarrow> ReplyMessage_np \<Rightarrow> 'k NOPaxosClient result" where
  "HandleReply calls s msg =
     (case nc_pendingRequest s of
        None \<Rightarrow> Inr s
      | Some p \<Rightarrow>
          if nrep_clientreqid msg \<noteq> pr_clientReqId p then Inr s
          else
            let (q, quorum) = AddAndCheckForQuorum (nc_replyQuorum s) (ucast (nrep_clientreqid msg)) (nrep_replicaidx msg) msg;
                s1 = s\<lparr>nc_replyQuorum := q\<rparr>
            in (case quorum of
                  None \<Rightarrow> Inr s1
                | Some msgs \<Rightarrow>
                    (case fst (foldl (leader_step (nc_config s)) (None, 0, 0) msgs) of
                       None \<Rightarrow> Inr s1
                     | Some leaderIdx \<Rightarrow>
                         (case map_of msgs leaderIdx of
                            None \<Rightarrow> Inl Panicked
                          | Some leaderMessage \<Rightarrow>
                              rbind (fold_r (matching_step leaderMessage) 0 msgs) (\<lambda>matching.
                                if matching \<ge> QuorumSize (nc_config s) then CompleteOperation calls s1 leaderMessage
                                else Inr s1)))))"

definition HandleUnloggedReply :: "'k continuations \<Rightarrow> 'k NOPaxosClient \<Rightarrow> string \<Rightarrow> 'k NOPaxosClient result" where
  "HandleUnloggedReply calls s reply =
     (case nc_pendingUnloggedRequest s of
        None \<Rightarrow> Inr s
      | Some req \<Rightarrow>
          fold_r make_call (s\<lparr>nc_unloggedRequestTimeout := False, nc_pendingUnloggedRequest := None\<rparr>)
            (calls (pr_continuation req) (pr_request req) (Some reply)))"

definition UnloggedRequestTimeoutCallback :: "'k continuations \<Rightarrow> 'k NOPaxosClient \<Rightarrow> 'k NOPaxosClient result" where
  "UnloggedRequestTimeoutCallback calls s =
     (case nc_pendingUnloggedRequest s of
        None \<Rightarrow> Inl UndefinedBehaviour
      | Some req \<Rightarrow>
          (case pr_timeoutContinuation req of
             None \<Rightarrow> Inl Panicked
           | Some k \<Rightarrow>
               fold_r make_call (s\<lparr>nc_pendingUnloggedRequest := None, nc_unloggedRequestTimeout := False\<rparr>)
                 (calls k (pr_request req) None)))"

definition ReceiveMessage_nc :: "'k continuations \<Rightarrow> 'k NOPaxosClient \<Rightarrow> ToClientMessage_np option \<Rightarrow> 'k NOPaxosClient result" where
  "ReceiveMessage_nc calls s m =
     (case m of
        Some (NReply r) \<Rightarrow> HandleReply calls s r
      | Some (NUnloggedReply r) \<Rightarrow> HandleUnloggedReply calls s r
      | None \<Rightarrow> Inl Panicked)"

text \<open>What happens to a client: a call of the application, a message, or one of its timers.\<close>

datatype 'k client_event =
    ClientCall "'k client_call"
  | ClientReceive "ToClientMessage_np option"
  | RequestTimer
  | UnloggedTimer

definition client_step :: "'k continuations \<Rightarrow> 'k NOPaxosClient \<Rightarrow> 'k client_event \<Rightarrow> 'k NOPaxosClient result" where
  "client_step calls s ev =
     (case ev of
        ClientCall c \<Rightarrow> make_call s c
      | ClientReceive m \<Rightarrow> ReceiveMessage_nc calls s m
      | RequestTimer \<Rightarrow> if nc_requestTimeout s then ResendRequest s else Inr s
      | UnloggedTimer \<Rightarrow> if nc_unloggedRequestTimeout s then UnloggedRequestTimeoutCallback calls s else Inr s)"

section \<open>The decision of the two loops\<close>

text \<open>The reply the first loop settles on: the one of the leader of the latest view reported, provided that no
  replica with a smaller index reports a later session.  The loop goes through the replies in the order of replica indices and
  forgets a leader it has found only when it sees a later view; a later session at a higher index does not make it forget.\<close>

definition leader_reply :: "Configuration \<Rightarrow> (int \<times> ReplyMessage_np) list \<Rightarrow> int \<Rightarrow> ReplyMessage_np \<Rightarrow> bool" where
  "leader_reply c msgs i m \<longleftrightarrow> (i, m) \<in> set msgs \<and> IsLeader c (nrep_view m) i \<and>
     (\<forall>(j, m')\<in>set msgs. nrep_view m' \<le> nrep_view m \<and> (j < i \<longrightarrow> nrep_sessnum m' \<le> nrep_sessnum m))"

definition latest :: "(ReplyMessage_np \<Rightarrow> u64) \<Rightarrow> (int \<times> ReplyMessage_np) list \<Rightarrow> u64 \<Rightarrow> bool" where
  "latest f msgs v \<longleftrightarrow> (\<forall>(j, m)\<in>set msgs. f m \<le> v) \<and> (v = 0 \<or> (\<exists>(j, m)\<in>set msgs. f m = v))"

lemma latest_le: "latest f msgs v \<Longrightarrow> v \<le> x \<longleftrightarrow> (\<forall>(j, m)\<in>set msgs. f m \<le> x)"
  unfolding latest_def by (auto intro: order_trans)

lemma latest_snoc: "latest f msgs v \<Longrightarrow> latest f (msgs @ [(k, m)]) (if f m > v then f m else v)"
  by (auto simp: latest_def not_less intro: order_trans less_imp_le)

lemma leader_loop:
  assumes "smap_ok msgs"
  shows "\<exists>v n. snd (foldl (leader_step c) (None, 0, 0) msgs) = (v, n) \<and> latest nrep_view msgs v \<and>
     latest nrep_sessnum msgs n \<and>
     (\<forall>i. fst (foldl (leader_step c) (None, 0, 0) msgs) = Some i \<longleftrightarrow> (\<exists>m. leader_reply c msgs i m))"
  using assms
proof (induction msgs rule: rev_induct)
  case Nil
  then show ?case by (simp add: latest_def leader_reply_def)
next
  case (snoc x xs)
  obtain k mk where x: "x = (k, mk)" by (cases x)
  from snoc.prems have ok: "smap_ok xs" and keys: "\<forall>(j, m)\<in>set xs. j < k"
    by (auto simp: smap_ok_def sorted_wrt_append x)
  obtain ld v n where st: "foldl (leader_step c) (None, 0, 0) xs = (ld, v, n)"
    by (metis prod_cases3)
  with snoc.IH [OF ok] have v: "latest nrep_view xs v" and n: "latest nrep_sessnum xs n"
    and ld: "\<And>i. ld = Some i \<longleftrightarrow> (\<exists>m. leader_reply c xs i m)"
    by auto
  let ?w = "if nrep_view mk > v then nrep_view mk else v"
  let ?n = "if nrep_sessnum mk > n then nrep_sessnum mk else n"
  have now: "leader_reply c (xs @ [x]) k mk \<longleftrightarrow> IsLeader c (nrep_view mk) k \<and> nrep_view mk = ?w \<and> nrep_sessnum mk = ?n"
  proof -
    have "leader_reply c (xs @ [x]) k mk \<longleftrightarrow> IsLeader c (nrep_view mk) k \<and>
        (\<forall>(j, m')\<in>set xs. nrep_view m' \<le> nrep_view mk) \<and> (\<forall>(j, m')\<in>set xs. nrep_sessnum m' \<le> nrep_sessnum mk)"
      using keys by (fastforce simp: leader_reply_def x)
    then show ?thesis unfolding latest_le [OF v, symmetric] latest_le [OF n, symmetric] by auto
  qed
  have only: "m = mk" if "leader_reply c (xs @ [x]) k m" for m
    using that keys by (auto simp: leader_reply_def x)
  have later: "leader_reply c (xs @ [x]) i m \<longleftrightarrow> leader_reply c xs i m \<and> nrep_view mk \<le> nrep_view m" if "i \<noteq> k" for i m
    using that keys by (fastforce simp: leader_reply_def x)
  have at_v: "nrep_view m = v" if "leader_reply c xs i m" for i m
  proof -
    have "v \<le> nrep_view m" using that unfolding latest_le [OF v] by (auto simp: leader_reply_def)
    moreover have "nrep_view m \<le> v" using that v by (auto simp: leader_reply_def latest_def)
    ultimately show ?thesis by simp
  qed
  have res: "leader_step c (ld, v, n) x =
      (if leader_reply c (xs @ [x]) k mk then Some k else if nrep_view mk > v then None else ld, ?w, ?n)"
    unfolding now by (auto simp: leader_step_def x Let_def)
  have "fst (leader_step c (ld, v, n) x) = Some i \<longleftrightarrow> (\<exists>m. leader_reply c (xs @ [x]) i m)" for i
  proof (cases "i = k")
    case True
    have "ld \<noteq> Some k" using ld [of k] keys by (fastforce simp: leader_reply_def)
    then show ?thesis using True only by (auto simp: res)
  next
    case False
    have "\<not> (leader_reply c (xs @ [x]) k mk \<and> (\<exists>m. leader_reply c (xs @ [x]) i m))"
    proof
      assume both: "leader_reply c (xs @ [x]) k mk \<and> (\<exists>m. leader_reply c (xs @ [x]) i m)"
      then obtain m where m: "leader_reply c (xs @ [x]) i m" "leader_reply c (xs @ [x]) k mk" by auto
      then have "nrep_view m = nrep_view mk" using order_antisym by (fastforce simp: leader_reply_def x)
      then have "i = k" using m by (simp add: leader_reply_def IsLeader_def)
      then show False using False by simp
    qed
    moreover have "(\<exists>m. leader_reply c (xs @ [x]) i m) \<longleftrightarrow> ld = Some i \<and> nrep_view mk \<le> v"
      unfolding ld using later [OF False] at_v by auto
    ultimately show ?thesis using False by (auto simp: res)
  qed
  moreover have "snd (leader_step c (ld, v, n) x) = (?w, ?n)" by (simp add: res)
  ultimately show ?case
    using latest_snoc [OF v, of k mk] latest_snoc [OF n, of k mk] by (simp add: st x)
qed

text \<open>Counting the matching replies.\<close>

lemma matching_loop:
  assumes "\<forall>(j, m)\<in>set msgs. nrep_clientreqid m = nrep_clientreqid l"
  shows "fold_r (matching_step l) n msgs = Inr (n + int (length (filter (\<lambda>kv. same_slot l (snd kv)) msgs)))"
  using assms by (induction msgs arbitrary: n) (auto simp: matching_step_def)

lemma matching_replicas:
  assumes "smap_ok msgs"
  shows "length (filter (\<lambda>kv. P (snd kv)) msgs) = card {i. \<exists>m. (i, m) \<in> set msgs \<and> P m}"
proof -
  have "distinct (map fst (filter (\<lambda>kv. P (snd kv)) msgs))"
    using assms by (simp add: smap_ok_def strict_sorted_iff distinct_map inj_on_def)
  moreover have "fst ` set (filter (\<lambda>kv. P (snd kv)) msgs) = {i. \<exists>m. (i, m) \<in> set msgs \<and> P m}" by force
  ultimately show ?thesis by (metis distinct_card length_map set_map)
qed

section \<open>The invariant of the client\<close>

text \<open>A timer runs exactly while its request is pending, and the replies collected so far answer the pending
  request; those from a leader carry a result.\<close>

definition client_timers :: "'k NOPaxosClient \<Rightarrow> bool" where
  "client_timers s \<longleftrightarrow>
     (nc_requestTimeout s \<longleftrightarrow> nc_pendingRequest s \<noteq> None) \<and>
     (nc_unloggedRequestTimeout s \<longleftrightarrow> nc_pendingUnloggedRequest s \<noteq> None) \<and>
     quorum_set_ok (nc_replyQuorum s) \<and> numRequired (nc_replyQuorum s) = QuorumSize (nc_config s)"

definition client_replies :: "'k NOPaxosClient \<Rightarrow> bool" where
  "client_replies s \<longleftrightarrow> (\<forall>vs. \<forall>(j, m)\<in>set (messages (nc_replyQuorum s) vs).
     (\<exists>p. nc_pendingRequest s = Some p \<and> nrep_clientreqid m = pr_clientReqId p) \<and>
     (IsLeader (nc_config s) (nrep_view m) j \<longrightarrow> nrep_reply m \<noteq> None))"

definition client_inv :: "'k NOPaxosClient \<Rightarrow> bool" where
  "client_inv s \<longleftrightarrow> client_timers s \<and> client_replies s"

definition client_ids :: "'k NOPaxosClient \<Rightarrow> client_view" where
  "client_ids s = (nc_lastReqID s, map_option pr_clientReqId (nc_pendingRequest s), map fst (nc_answered s))"

text \<open>Calls the client accepts: at most one request and one unlogged request, and only where none is
  pending.\<close>

definition client_permits :: "'k NOPaxosClient \<Rightarrow> 'k client_call list \<Rightarrow> bool" where
  "client_permits s cs \<longleftrightarrow>
     length (filter (\<lambda>c. case c of CallInvoke _ _ \<Rightarrow> True | _ \<Rightarrow> False) cs) \<le> (if nc_pendingRequest s = None then 1 else 0) \<and>
     length (filter (\<lambda>c. case c of CallInvoke _ _ \<Rightarrow> False | _ \<Rightarrow> True) cs) \<le> (if nc_pendingUnloggedRequest s = None then 1 else 0) \<and>
     uint (nc_lastReqID s) + int (length cs) < 2 ^ 64"

text \<open>The client with one more reply recorded, and the replies it then has for that request.\<close>

definition with_reply :: "'k NOPaxosClient \<Rightarrow> ReplyMessage_np \<Rightarrow> 'k NOPaxosClient" where
  "with_reply s msg = s\<lparr>nc_replyQuorum := QuorumSet_Add (nc_replyQuorum s) (ucast (nrep_clientreqid msg)) (nrep_replicaidx msg) msg\<rparr>"

definition replies_with :: "'k NOPaxosClient \<Rightarrow> ReplyMessage_np \<Rightarrow> (int \<times> ReplyMessage_np) list" where
  "replies_with s msg = GetMessages (nc_replyQuorum (with_reply s msg)) (ucast (nrep_clientreqid msg))"

definition client_ok :: "'k continuations \<Rightarrow> 'k NOPaxosClient \<Rightarrow> 'k client_event \<Rightarrow> bool" where
  "client_ok calls s ev \<longleftrightarrow>
     (case ev of
        ClientCall c \<Rightarrow> client_permits s [c]
      | ClientReceive (Some (NReply m)) \<Rightarrow>
          (IsLeader (nc_config s) (nrep_view m) (nrep_replicaidx m) \<longrightarrow> nrep_reply m \<noteq> None) \<and>
          (case nc_pendingRequest s of
             None \<Rightarrow> True
           | Some p \<Rightarrow> \<forall>x\<in>set (replies_with s m). \<forall>r\<in>set_option (nrep_reply (snd x)).
               client_permits (s\<lparr>nc_pendingRequest := None\<rparr>) (calls (pr_continuation p) (pr_request p) (Some r)))
      | ClientReceive (Some (NUnloggedReply r)) \<Rightarrow>
          (case nc_pendingUnloggedRequest s of
             None \<Rightarrow> True
           | Some p \<Rightarrow> client_permits (s\<lparr>nc_pendingUnloggedRequest := None\<rparr>) (calls (pr_continuation p) (pr_request p) (Some r)))
      | ClientReceive None \<Rightarrow> False
      | RequestTimer \<Rightarrow> True
      | UnloggedTimer \<Rightarrow>
          (case nc_pendingUnloggedRequest s of
             None \<Rightarrow> True
           | Some p \<Rightarrow>
               (case pr_timeoutContinuation p of
                  None \<Rightarrow> False
                | Some k \<Rightarrow> client_permits (s\<lparr>nc_pendingUnloggedRequest := None\<rparr>) (calls k (pr_request p) None))))"

lemma make_call_total:
  assumes "client_timers s" and "client_permits s (c # cs)"
  shows "\<exists>s'. make_call s c = Inr s' \<and> client_timers s' \<and> client_permits s' cs \<and>
     client_move (client_ids s) (client_ids s') \<and> nc_answered s' = nc_answered s \<and>
     (client_replies s \<longrightarrow> client_replies s')"
proof -
  have "uint (nc_lastReqID s) + 1 < 2 ^ 64" using assms(2) by (simp add: client_permits_def)
  then have "int (unat (nc_lastReqID s) + 1) < int (2 ^ 64)" by simp
  then have "unat (nc_lastReqID s) + 1 < 2 ^ 64" unfolding of_nat_less_iff .
  then have u: "unat (nc_lastReqID s + 1) = unat (nc_lastReqID s) + 1" and max: "nc_lastReqID s \<noteq> - 1"
    using unat_add_of_nat [of "nc_lastReqID s" 1] unfolding u64_not_max by simp_all
  have n: "uint (nc_lastReqID s + 1) = uint (nc_lastReqID s) + 1" using arg_cong [OF u, of int] by simp
  show ?thesis
  proof (cases c)
    case (CallInvoke request k)
    with assms have "nc_pendingRequest s = None" by (auto simp: client_permits_def split: if_splits)
    then show ?thesis
      using CallInvoke assms n max client_move.start [of "nc_lastReqID s" "map fst (nc_answered s)"]
      by (auto simp: make_call_def Invoke_def SendRequest_def send_nc_def Let_def client_timers_def client_permits_def
          client_ids_def PendingRequest_new_def client_replies_def)
  next
    case (CallInvokeUnlogged i request k kt)
    with assms have "nc_pendingUnloggedRequest s = None" by (auto simp: client_permits_def split: if_splits)
    then show ?thesis
      using CallInvokeUnlogged assms n client_move.other [OF max, of "map_option pr_clientReqId (nc_pendingRequest s)" "map fst (nc_answered s)"]
      by (auto simp: make_call_def InvokeUnlogged_def send_nc_def Let_def client_timers_def client_permits_def
          client_ids_def PendingRequest_new_def client_replies_def split: if_splits)
  qed
qed

lemma Invoke_effect:
  assumes "client_inv s" and "client_history (client_ids s)" and "client_permits s [CallInvoke op k]"
  defines "i \<equiv> nc_lastReqID s + 1"
  shows "\<exists>s'. Invoke s op k = Inr s' \<and> client_inv s' \<and> client_history (client_ids s') \<and>
     nc_pendingRequest s = None \<and> nc_pendingRequest s' = Some (PendingRequest_new op i k) \<and> nc_config s' = nc_config s \<and>
     nc_replyQuorum s' = nc_replyQuorum s \<and> nc_answered s' = nc_answered s \<and> nc_lastReqID s' = i \<and>
     nc_pendingUnloggedRequest s' = nc_pendingUnloggedRequest s \<and>
     map (fst \<circ> snd) (nc_outbox s') =
       map (fst \<circ> snd) (nc_outbox s) @ [NRequest (client_request s (PendingRequest_new op i k))]"
proof -
  have free: "nc_pendingRequest s = None" using assms(3) by (auto simp: client_permits_def split: if_splits)
  obtain t where t: "Invoke s op k = Inr t" "client_timers t" "client_move (client_ids s) (client_ids t)"
    "client_replies s \<longrightarrow> client_replies t"
    using make_call_total [of s "CallInvoke op k" "[]"] assms(1,3) by (auto simp: make_call_def client_inv_def)
  have "client_history (client_ids t)" using client_move_history [OF t(3) assms(2)] .
  then show ?thesis
    using t assms(1) free
    by (auto simp: client_inv_def Invoke_def SendRequest_def send_nc_def Let_def client_request_def i_def)
qed

lemma make_calls_total:
  assumes "client_timers s" and "client_permits s cs"
  shows "\<exists>s'. fold_r make_call s cs = Inr s' \<and> client_timers s' \<and> client_move\<^sup>*\<^sup>* (client_ids s) (client_ids s') \<and>
     nc_answered s' = nc_answered s \<and> (client_replies s \<longrightarrow> client_replies s')"
  using assms
proof (induction cs arbitrary: s)
  case (Cons c cs)
  obtain t where t: "make_call s c = Inr t" "client_timers t" "client_permits t cs"
    "client_move (client_ids s) (client_ids t)" "nc_answered t = nc_answered s" "client_replies s \<longrightarrow> client_replies t"
    using make_call_total [OF Cons.prems] by blast
  with Cons.IH [OF t(2,3)] show ?case by (auto intro: converse_rtranclp_into_rtranclp)
qed auto

section \<open>Replies\<close>

text \<open>When the replies at hand decide a request: the leader of the latest view has replied, no replica with a smaller
  index reports a later session, and a quorum of replicas report the leader's view, session and operation number.\<close>

definition decided :: "Configuration \<Rightarrow> (int \<times> ReplyMessage_np) list \<Rightarrow> ReplyMessage_np \<Rightarrow> bool" where
  "decided c msgs m \<longleftrightarrow> (\<exists>i. leader_reply c msgs i m) \<and>
     QuorumSize c \<le> int (card {j. \<exists>m'. (j, m') \<in> set msgs \<and> same_slot m m'})"

lemma leader_reply_unique:
  assumes "smap_ok msgs" "leader_reply c msgs i m" "leader_reply c msgs j m'"
  shows "i = j \<and> m = m'"
proof -
  have "(i, m) \<in> set msgs" "(j, m') \<in> set msgs" using assms(2,3) by (simp_all add: leader_reply_def)
  then have "nrep_view m \<le> nrep_view m'" "nrep_view m' \<le> nrep_view m"
    using assms(2,3) unfolding leader_reply_def by blast+
  then have "i = j" using assms(2,3) by (simp add: leader_reply_def IsLeader_def)
  moreover have "map_of msgs i = Some m" "map_of msgs j = Some m'"
    using assms by (auto simp: leader_reply_def intro: smap_map_of)
  ultimately show ?thesis by simp
qed

lemma decided_length:
  assumes "smap_ok msgs" "decided c msgs m"
  shows "QuorumSize c \<le> int (length msgs)"
proof -
  have "{j. \<exists>m'. (j, m') \<in> set msgs \<and> same_slot m m'} \<subseteq> fst ` set msgs" by force
  then have "card {j. \<exists>m'. (j, m') \<in> set msgs \<and> same_slot m m'} \<le> length msgs"
    unfolding smap_ok_length [OF assms(1)] by (simp add: card_mono)
  then show ?thesis using assms(2) by (simp add: decided_def)
qed

lemma replies_with_ok:
  assumes "client_inv s" and "nc_pendingRequest s = Some p" and "nrep_clientreqid msg = pr_clientReqId p"
    and "IsLeader (nc_config s) (nrep_view msg) (nrep_replicaidx msg) \<longrightarrow> nrep_reply msg \<noteq> None"
  shows "smap_ok (replies_with s msg) \<and> client_inv (with_reply s msg) \<and>
     (\<forall>(j, m)\<in>set (replies_with s msg). nrep_clientreqid m = pr_clientReqId p)"
proof -
  let ?q = "nc_replyQuorum s" and ?k = "ucast (nrep_clientreqid msg)"
  have rep: "\<exists>p'. Some p = Some p' \<and> nrep_clientreqid m = pr_clientReqId p'"
    "IsLeader (nc_config s) (nrep_view m) j \<longrightarrow> nrep_reply m \<noteq> None" if "(j, m) \<in> set (messages ?q vs)" for j m vs
    using assms(1,2) that by (force simp: client_inv_def client_replies_def)+
  have mem: "(j, m) = (nrep_replicaidx msg, msg) \<or> (j, m) \<in> set (messages ?q vs)"
    if "(j, m) \<in> set (messages (QuorumSet_Add ?q ?k (nrep_replicaidx msg) msg) vs)" for j m vs
    using that set_smap_put_subset [of "nrep_replicaidx msg" msg "messages ?q ?k"]
    by (auto simp: QuorumSet_Add_def AddAndCheckForQuorum_messages split: if_splits)
  have "quorum_set_ok (QuorumSet_Add ?q ?k (nrep_replicaidx msg) msg)"
    using assms(1) by (simp add: client_inv_def client_timers_def QuorumSet_Add_def)
  moreover have "client_replies (with_reply s msg)"
    unfolding client_replies_def with_reply_def using assms(2-4) mem rep by fastforce
  moreover have "client_timers (with_reply s msg)"
    using assms(1) calculation(1) by (simp add: client_inv_def client_timers_def with_reply_def qset.required_add)
  ultimately show ?thesis
    using assms(3) mem rep
    by (fastforce simp: replies_with_def GetMessages_def with_reply_def client_inv_def quorum_set_ok_def)
qed

lemma decided_reply:
  assumes "client_inv s" and "nc_pendingRequest s = Some p" and "nrep_clientreqid msg = pr_clientReqId p"
    and "IsLeader (nc_config s) (nrep_view msg) (nrep_replicaidx msg) \<longrightarrow> nrep_reply msg \<noteq> None"
    and "decided (nc_config s) (replies_with s msg) m"
  shows "\<exists>i r. (i, m) \<in> set (replies_with s msg) \<and> nrep_reply m = Some r"
proof -
  obtain i where "(i, m) \<in> set (replies_with s msg)" "IsLeader (nc_config s) (nrep_view m) i"
    using assms(5) by (auto simp: decided_def leader_reply_def)
  moreover have "client_replies (with_reply s msg)" "nc_config (with_reply s msg) = nc_config s"
    using replies_with_ok [OF assms(1-4)] by (simp_all add: client_inv_def with_reply_def)
  ultimately show ?thesis by (fastforce simp: client_replies_def replies_with_def GetMessages_def)
qed

lemma HandleReply_decides:
  assumes "client_inv s" and "nc_pendingRequest s = Some p" and "nrep_clientreqid msg = pr_clientReqId p"
    and "IsLeader (nc_config s) (nrep_view msg) (nrep_replicaidx msg) \<longrightarrow> nrep_reply msg \<noteq> None"
  shows "(\<exists>m. decided (nc_config s) (replies_with s msg) m \<and>
            HandleReply calls s msg = CompleteOperation calls (with_reply s msg) m) \<or>
     (\<forall>m. \<not> decided (nc_config s) (replies_with s msg) m) \<and> HandleReply calls s msg = Inr (with_reply s msg)"
proof -
  let ?c = "nc_config s" and ?msgs = "replies_with s msg"
  let ?add = "AddAndCheckForQuorum (nc_replyQuorum s) (ucast (nrep_clientreqid msg)) (nrep_replicaidx msg) msg"
  note R = replies_with_ok [OF assms]
  have req: "numRequired (nc_replyQuorum s) = QuorumSize ?c" using assms(1) by (simp add: client_inv_def client_timers_def)
  have add: "?add = (nc_replyQuorum (with_reply s msg), if QuorumSize ?c \<le> int (length ?msgs) then Some ?msgs else None)"
    by (simp add: AddAndCheckForQuorum_def CheckForQuorum_def Let_def with_reply_def QuorumSet_Add_def replies_with_def
        GetMessages_def req)
  have s1: "s\<lparr>nc_replyQuorum := nc_replyQuorum (with_reply s msg)\<rparr> = with_reply s msg" by (simp add: with_reply_def)
  have H: "HandleReply calls s msg =
      (if QuorumSize ?c \<le> int (length ?msgs)
       then (case fst (foldl (leader_step ?c) (None, 0, 0) ?msgs) of
               None \<Rightarrow> Inr (with_reply s msg)
             | Some i \<Rightarrow> (case map_of ?msgs i of
                 None \<Rightarrow> Inl Panicked
               | Some m \<Rightarrow> rbind (fold_r (matching_step m) 0 ?msgs) (\<lambda>matching.
                   if matching \<ge> QuorumSize ?c then CompleteOperation calls (with_reply s msg) m
                   else Inr (with_reply s msg))))
       else Inr (with_reply s msg))"
    unfolding HandleReply_def add Let_def prod.case s1 using assms(2,3) by simp
  from leader_loop [OF R [THEN conjunct1]] have
    ld: "\<And>i. fst (foldl (leader_step ?c) (None, 0, 0) ?msgs) = Some i \<longleftrightarrow> (\<exists>m. leader_reply ?c ?msgs i m)"
    by blast
  show ?thesis
  proof (cases "QuorumSize ?c \<le> int (length ?msgs) \<and> (\<exists>i m. leader_reply ?c ?msgs i m)")
    case True
    then obtain i m where im: "leader_reply ?c ?msgs i m" by blast
    then have i: "fst (foldl (leader_step ?c) (None, 0, 0) ?msgs) = Some i" "map_of ?msgs i = Some m"
      using ld R by (auto simp: leader_reply_def intro: smap_map_of)
    have "\<forall>(j, m')\<in>set ?msgs. nrep_clientreqid m' = nrep_clientreqid m"
    proof -
      have "nrep_clientreqid m = pr_clientReqId p" using R im unfolding leader_reply_def by blast
      then show ?thesis using R by simp
    qed
    from matching_loop [OF this, of 0]
    have match: "fold_r (matching_step m) 0 ?msgs = Inr (int (card {j. \<exists>m'. (j, m') \<in> set ?msgs \<and> same_slot m m'}))"
      using matching_replicas [of ?msgs "same_slot m"] R by simp
    have "decided ?c ?msgs m' \<longleftrightarrow> m' = m \<and> QuorumSize ?c \<le> int (card {j. \<exists>m'. (j, m') \<in> set ?msgs \<and> same_slot m m'})" for m'
      using im leader_reply_unique [of ?msgs ?c] R by (auto simp: decided_def)
    then show ?thesis
      unfolding H using True i match by simp
  next
    case False
    then have "HandleReply calls s msg = Inr (with_reply s msg)"
      unfolding H using ld by (auto split: option.split)
    moreover have "\<forall>m. \<not> decided ?c ?msgs m"
      using False decided_length [OF R [THEN conjunct1]] by (auto simp: decided_def)
    ultimately show ?thesis by blast
  qed
qed

section \<open>Runs of a client\<close>

lemma CompleteOperation_total:
  assumes "client_timers s" and "nc_pendingRequest s = Some p" and "nrep_reply m = Some r"
    and "client_permits (s\<lparr>nc_pendingRequest := None\<rparr>) (calls (pr_continuation p) (pr_request p) (Some r))"
  shows "\<exists>s'. CompleteOperation calls s m = Inr s' \<and> client_inv s' \<and> client_move\<^sup>*\<^sup>* (client_ids s) (client_ids s') \<and>
     nc_answered s' = nc_answered s @ [(pr_clientReqId p, pr_continuation p, pr_request p, r)]"
proof -
  let ?s = "s\<lparr>nc_requestTimeout := False, nc_pendingRequest := None,
              nc_answered := nc_answered s @ [(pr_clientReqId p, pr_continuation p, pr_request p, r)]\<rparr>"
  have "client_timers ?s" using assms(1) by (simp add: client_timers_def)
  moreover have "client_permits ?s (calls (pr_continuation p) (pr_request p) (Some r))"
    using assms(4) by (simp add: client_permits_def)
  ultimately obtain t where t: "fold_r make_call ?s (calls (pr_continuation p) (pr_request p) (Some r)) = Inr t"
    "client_timers t" "client_move\<^sup>*\<^sup>* (client_ids ?s) (client_ids t)" "nc_answered t = nc_answered ?s"
    using make_calls_total by blast
  have "client_move (client_ids s) (client_ids ?s)"
    using client_move.answer [of "nc_lastReqID s" "pr_clientReqId p" "map fst (nc_answered s)"] assms(2)
    by (simp add: client_ids_def)
  then have "client_move\<^sup>*\<^sup>* (client_ids s) (client_ids t)" using t(3) by (rule converse_rtranclp_into_rtranclp)
  moreover have "client_inv (t\<lparr>nc_replyQuorum := Clear (nc_replyQuorum t)\<rparr>)"
    using t(2) by (simp add: client_inv_def client_timers_def client_replies_def Clear_def quorum_set_ok_def)
  ultimately show ?thesis
    using t assms(2,3) by (simp add: CompleteOperation_def Let_def client_ids_def)
qed

lemma HandleReply_total:
  assumes "client_inv s" and "client_ok calls s (ClientReceive (Some (NReply msg)))"
  shows "\<exists>s'. HandleReply calls s msg = Inr s' \<and> client_inv s' \<and> client_move\<^sup>*\<^sup>* (client_ids s) (client_ids s')"
proof (cases "\<exists>p. nc_pendingRequest s = Some p \<and> nrep_clientreqid msg = pr_clientReqId p")
  case True
  then obtain p where p: "nc_pendingRequest s = Some p" "nrep_clientreqid msg = pr_clientReqId p" by blast
  have ok: "IsLeader (nc_config s) (nrep_view msg) (nrep_replicaidx msg) \<longrightarrow> nrep_reply msg \<noteq> None"
    "\<And>i m r. \<lbrakk> (i, m) \<in> set (replies_with s msg); nrep_reply m = Some r \<rbrakk> \<Longrightarrow>
       client_permits (s\<lparr>nc_pendingRequest := None\<rparr>) (calls (pr_continuation p) (pr_request p) (Some r))"
    using assms(2) p(1) by (force simp: client_ok_def)+
  note R = replies_with_ok [OF assms(1) p ok(1)]
  have w: "nc_pendingRequest (with_reply s msg) = Some p" "client_ids (with_reply s msg) = client_ids s"
    "nc_config (with_reply s msg) = nc_config s"
    using p(1) by (simp_all add: with_reply_def client_ids_def)
  from HandleReply_decides [OF assms(1) p ok(1), of calls] show ?thesis
  proof (elim disjE exE conjE)
    fix m
    assume m: "decided (nc_config s) (replies_with s msg) m" "HandleReply calls s msg = CompleteOperation calls (with_reply s msg) m"
    then obtain i r where i: "(i, m) \<in> set (replies_with s msg)" and r: "nrep_reply m = Some r"
      using decided_reply [OF assms(1) p ok(1)] by blast
    have "client_permits ((with_reply s msg)\<lparr>nc_pendingRequest := None\<rparr>) (calls (pr_continuation p) (pr_request p) (Some r))"
      using ok(2) [OF i r] by (simp add: client_permits_def with_reply_def)
    from CompleteOperation_total [where calls = calls, OF _ w(1) r this] R show ?thesis
      unfolding m(2) w(2) [symmetric] by (auto simp: client_inv_def)
  next
    assume "HandleReply calls s msg = Inr (with_reply s msg)"
    then show ?thesis using R w(2) by simp
  qed
next
  case False
  then have "HandleReply calls s msg = Inr s" by (auto simp: HandleReply_def split: option.splits)
  then show ?thesis using assms(1) by simp
qed

lemma unlogged_calls_total:
  assumes "client_inv s" and "client_permits (s\<lparr>nc_pendingUnloggedRequest := None\<rparr>) cs"
  shows "\<exists>s'. fold_r make_call (s\<lparr>nc_unloggedRequestTimeout := False, nc_pendingUnloggedRequest := None\<rparr>) cs = Inr s' \<and>
     client_inv s' \<and> client_move\<^sup>*\<^sup>* (client_ids s) (client_ids s')"
proof -
  let ?s = "s\<lparr>nc_unloggedRequestTimeout := False, nc_pendingUnloggedRequest := None\<rparr>"
  have s: "client_timers ?s" "client_replies ?s" "client_permits ?s cs" "client_ids ?s = client_ids s"
    using assms by (simp_all add: client_inv_def client_timers_def client_replies_def client_permits_def client_ids_def)
  from make_calls_total [OF s(1,3)] show ?thesis
    using s(2,4) by (auto simp: client_inv_def)
qed

lemma client_step_total:
  assumes inv: "client_inv s" and ok: "client_ok calls s ev"
  shows "\<exists>s'. client_step calls s ev = Inr s' \<and> client_inv s' \<and> client_move\<^sup>*\<^sup>* (client_ids s) (client_ids s')"
proof (cases ev)
  case (ClientCall c)
  have "client_timers s" "client_replies s" using inv by (simp_all add: client_inv_def)
  moreover have "client_permits s [c]" using ok ClientCall by (simp add: client_ok_def)
  ultimately show ?thesis
    using make_call_total [of s c "[]"] ClientCall by (auto simp: client_step_def client_inv_def)
next
  case (ClientReceive m)
  show ?thesis
  proof (cases m)
    case None
    then show ?thesis using ok ClientReceive by (simp add: client_ok_def)
  next
    case (Some x)
    show ?thesis
    proof (cases x)
      case (NReply r)
      then show ?thesis
        using HandleReply_total [OF inv, of calls r] ok ClientReceive Some by (simp add: client_step_def ReceiveMessage_nc_def)
    next
      case (NUnloggedReply r)
      then show ?thesis
        using unlogged_calls_total [OF inv] ok ClientReceive Some inv
        by (auto simp: client_step_def ReceiveMessage_nc_def HandleUnloggedReply_def client_ok_def split: option.splits)
    qed
  qed
next
  case RequestTimer
  then show ?thesis
    using inv by (auto simp: client_step_def ResendRequest_def SendRequest_def send_nc_def client_inv_def client_timers_def
        client_replies_def client_ids_def)
next
  case UnloggedTimer
  show ?thesis
  proof (cases "nc_pendingUnloggedRequest s")
    case None
    then show ?thesis using UnloggedTimer inv by (simp add: client_step_def client_inv_def client_timers_def)
  next
    case (Some p)
    have swap: "s\<lparr>nc_pendingUnloggedRequest := None, nc_unloggedRequestTimeout := False\<rparr> =
      s\<lparr>nc_unloggedRequestTimeout := False, nc_pendingUnloggedRequest := None\<rparr>" by simp
    show ?thesis
      using unlogged_calls_total [OF inv] UnloggedTimer Some ok inv
      by (auto simp: client_step_def UnloggedRequestTimeoutCallback_def client_ok_def swap split: option.splits)
  qed
qed

interpretation nc: total_system "client_step calls" "client_ok calls" client_inv for calls
  using client_step_total by unfold_locales fastforce+

interpretation nc_ids: sequential_client "client_step calls" "client_ok calls" client_inv client_ids for calls
  using client_step_total by unfold_locales fastforce+

lemma NOPaxosClient_new_inv: "client_inv (NOPaxosClient_new c a i)" "client_history (client_ids (NOPaxosClient_new c a i))"
  by (simp_all add: client_inv_def client_timers_def client_replies_def client_ids_def NOPaxosClient_new_def client_history_def
      QuorumSet_new_def quorum_set_ok_def)



definition np_leader_reply :: ReplyMessage_np where
  "np_leader_reply = \<lparr>nrep_view = 0, nrep_sessnum = 0, nrep_opnum = 1, nrep_clientreqid = 1, nrep_replicaidx = 0, nrep_reply = Some ''v''\<rparr>"


text \<open>A client that is used as it expects (one request and one unlogged request at a time, a timeout continuation for
  every unlogged request, results in the leaders' replies) never aborts, whatever replies come and whatever calls its
  continuations make, keeps its invariant, and answers every request at most once and in the
  order in which the requests were made.\<close>

theorem client_run:
  assumes "accepts (client_step calls) (client_ok calls) (NOPaxosClient_new c a i) evs"
  shows "\<exists>s. fold_r (client_step calls) (NOPaxosClient_new c a i) evs = Inr s \<and> client_inv s \<and>
     sorted_wrt (<) (map fst (nc_answered s)) \<and>
     (\<forall>p. nc_pendingRequest s = Some p \<longrightarrow> (\<forall>x\<in>set (nc_answered s). fst x < pr_clientReqId p))"
proof -
  obtain s where s: "fold_r (client_step calls) (NOPaxosClient_new c a i) evs = Inr s" "client_inv s"
    using nc.run_total [OF NOPaxosClient_new_inv(1) assms] by blast
  have "client_history (client_ids s)"
    using nc_ids.answered_in_order [OF NOPaxosClient_new_inv assms s(1)] by simp
  then show ?thesis using s by (auto simp: client_history_def client_ids_def)
qed

theorem client_run_witness:
  "\<exists>s. fold_r (client_step (\<lambda>k _ _. if k = 5 then [CallInvoke ''next'' (6 :: nat)] else []))
     (NOPaxosClient_new (sample_config 0) \<lparr>host = ''h'', port = ''1'', dev = ''''\<rparr> 7)
     [ClientCall (CallInvoke ''get'' 5), RequestTimer, ClientReceive (Some (NReply np_leader_reply)),
      ClientReceive (Some (NReply (np_leader_reply\<lparr>nrep_clientreqid := 2\<rparr>)))] = Inr s \<and>
   sorted_wrt (<) (map fst (nc_answered s)) \<and> map fst (nc_answered s) = [1, 2]"
proof -
  let ?k = "\<lambda>k _ _. if k = 5 then [CallInvoke ''next'' (6 :: nat)] else []"
  let ?new = "NOPaxosClient_new (sample_config 0) \<lparr>host = ''h'', port = ''1'', dev = ''''\<rparr> 7 :: nat NOPaxosClient"
  let ?evs = "[ClientCall (CallInvoke ''get'' 5), RequestTimer, ClientReceive (Some (NReply np_leader_reply)),
      ClientReceive (Some (NReply (np_leader_reply\<lparr>nrep_clientreqid := 2\<rparr>)))]"
  have acc: "accepts (client_step ?k) (client_ok ?k) ?new ?evs"
    by code_simp
  have "case fold_r (client_step ?k) ?new ?evs of Inl _ \<Rightarrow> False | Inr s \<Rightarrow> map fst (nc_answered s) = [1, 2]" by code_simp
  then show ?thesis using client_run [OF acc] by auto
qed

end
