(* ===== verification/NOPaxosNetwork.thy ===== *)
theory NOPaxosNetwork
  imports NOPaxosProperties NOPaxosWire NOPaxosClient
begin

text \<open>
  The composition of the NOPaxos packet format, the sequencer and the replica: requests that clients
  serialize, the sequencer stamps and the network delivers in order are appended by every replica that
  is in step with the sequencer, in the sequencer's order.
\<close>

section \<open>Sending and receiving packets\<close>

text \<open>What \<^verbatim>\<open>SendMessageToSequencer(this, 0, NOPaxosMessage(m, true))\<close> puts on the wire, for a buffer with any
  contents, and what \<^verbatim>\<open>NOPaxosReplica::ReceiveMessage\<close> does with a packet.\<close>

definition request_packet :: "ToReplicaMessage_np PBCodec \<Rightarrow> byte list \<Rightarrow> RequestMessage \<Rightarrow> byte list result" where
  "request_packet pb buf r = NOPaxosMessage_Serialize pb \<lparr>pm_msg = NRequest r, pm_sequencing = True\<rparr> buf"

definition ReceivePacket ::
  "ToReplicaMessage_np PBCodec \<Rightarrow> 'a AppReplica \<Rightarrow> 'a NOPaxosReplica \<Rightarrow> byte list \<Rightarrow> 'a NOPaxosReplica result" where
  "ReceivePacket pb app s buf =
     rbind (NOPaxosMessage_Parse pb stamp_to_replica buf) (ReceiveMessage_np app s 0)"

definition sends :: "ToReplicaMessage_np PBCodec \<Rightarrow> RequestMessage \<Rightarrow> byte list \<Rightarrow> bool" where
  "sends pb r buf \<longleftrightarrow> pb_faithful pb (NRequest r) \<and> PBMessage_SerializedSize pb (NRequest r) < 2 ^ 32 \<and>
     length buf = NOPaxosMessage_SerializedSize pb \<lparr>pm_msg = NRequest r, pm_sequencing = True\<rparr>"

text \<open>A replica is in step with the sequencer when it works in the sequencer's session, expects the next
  message number and has nothing outstanding.\<close>

definition in_step :: "NOPaxosSequencer \<Rightarrow> 'a NOPaxosReplica \<Rightarrow> bool" where
  "in_step sq s \<longleftrightarrow> np_core s \<and> np_status s = STATUS_NORMAL \<and> np_sessnum s = ucast (sq_sess_num sq) \<and>
     np_nextMsgnum s = sq_msg_num sq + 1 \<and> np_pendingRequests s = [] \<and>
     (\<forall>g\<in>np_committedGaps s. g \<le> np_lastOp s) \<and> np_stateTransferOpEnd s = 0"

text \<open>The next request is appended, and nothing else happens.\<close>

definition awaits :: "'a NOPaxosReplica \<Rightarrow> RequestMessage \<Rightarrow> bool" where
  "awaits s r \<longleftrightarrow> np_core s \<and> np_status s = STATUS_NORMAL \<and> rm_sessnum r = np_sessnum s \<and>
     rm_msgnum r = np_nextMsgnum s \<and> rm_msgnum r \<noteq> 0 \<and> unat (np_lastOp s) + 2 < 2 ^ 64 \<and>
     (\<forall>g\<in>np_committedGaps s. g \<le> np_lastOp s) \<and> np_stateTransferOpEnd s = 0 \<and> np_pendingRequests s = []"

definition request_stamp :: "'a NOPaxosReplica \<Rightarrow> RequestMessage \<Rightarrow> viewstamp_t" where
  "request_stamp s r = viewstamp4 (np_view s) (np_lastOp s + 1) (rm_sessnum r) (rm_msgnum r)"

lemma request_stamp_simps [simp]:
  "vs_opnum (request_stamp s r) = np_lastOp s + 1" "vs_msgnum (request_stamp s r) = rm_msgnum r"
  "vs_view (request_stamp s r) = np_view s" "vs_sessnum (request_stamp s r) = rm_sessnum r"
  by (simp_all add: request_stamp_def viewstamp4_def)

lemma awaitsD:
  assumes "awaits s r"
  shows "unat (np_lastOp s + 1) = unat (np_lastOp s) + 1" "np_lastOp s + 1 \<noteq> - 1" "np_lastOp s \<noteq> - 1"
    "np_lastOp s + 1 \<noteq> 0" "np_lastOp s + 1 \<notin> np_committedGaps s" "np_lastOp s + 1 + 1 \<notin> np_committedGaps s"
proof -
  have "unat (np_lastOp s + 1) = unat (np_lastOp s) + 1" "unat (np_lastOp s + 1 + 1) = unat (np_lastOp s) + 2"
    using assms unat_add_of_nat [of "np_lastOp s" 1] unat_add_of_nat [of "np_lastOp s + 1" 1] by (simp_all add: awaits_def)
  then show "unat (np_lastOp s + 1) = unat (np_lastOp s) + 1" "np_lastOp s + 1 \<noteq> - 1" "np_lastOp s \<noteq> - 1"
    "np_lastOp s + 1 \<noteq> 0" "np_lastOp s + 1 \<notin> np_committedGaps s" "np_lastOp s + 1 + 1 \<notin> np_committedGaps s"
    using assms unfolding awaits_def u64_not_max by (auto simp: word_le_nat_alt)
qed

lemma next_request:
  assumes "awaits s r"
  shows "\<exists>s'. append_next ap s (rm_req r) (request_stamp s r) LOG_STATE_RECEIVED = Inr s' \<and>
     ReceiveMessage_np ap s remote (NRequest r) = Inr s' \<and> np_core s' \<and> np_status s' = STATUS_NORMAL \<and>
     np_sessnum s' = np_sessnum s \<and> np_lastOp s' = np_lastOp s + 1 \<and> np_nextMsgnum s' = np_nextMsgnum s + 1 \<and>
     np_committedGaps s' = np_committedGaps s \<and> np_stateTransferOpEnd s' = 0 \<and> np_pendingRequests s' = [] \<and>
     np_view s' = np_view s \<and>
     log_at (np_log s') (np_lastOp s + 1) = Some (LogEntry_new (request_stamp s r) LOG_STATE_RECEIVED (rm_req r)) \<and>
     (\<forall>i \<le> np_lastOp s. log_at (np_log s') i = log_at (np_log s) i)"
proof -
  note D = awaitsD [OF assms]
  have A: "np_core s" "np_stateTransferOpEnd s \<noteq> np_lastOp s + 1" using assms D(4) by (simp_all add: awaits_def)
  obtain t where t: "append_next ap s (rm_req r) (request_stamp s r) LOG_STATE_RECEIVED = Inr t" "np_core t"
    "np_lastOp t = np_lastOp s + 1" "np_nextMsgnum t = rm_msgnum r + 1"
    "log_at (np_log t) (np_lastOp s + 1) = Some (LogEntry_new (request_stamp s r) LOG_STATE_RECEIVED (rm_req r))"
    "\<forall>i \<le> np_lastOp s. log_at (np_log t) i = log_at (np_log s) i"
    "np_status t = np_status s" "np_sessnum t = np_sessnum s" "np_view t = np_view s" "np_committedGaps t = np_committedGaps s"
    "np_stateTransferOpEnd t = np_stateTransferOpEnd s" "np_pendingRequests t = np_pendingRequests s"
    using append_received [OF A(1) request_stamp_simps(1) [of s r] D(2,3,5) A(2), of ap "rm_req r"] by (elim exE conjE) simp
  have "ProcessNextOperation ap s (rm_req r) (request_stamp s r) LOG_STATE_RECEIVED = Inr t"
    using t(1,3,10) D(6) by (simp add: ProcessNextOperation.simps [of ap s])
  then have "ReceiveMessage_np ap s remote (NRequest r) = Inr t"
    using assms t(7,12)
    by (auto simp: ReceiveMessage_np_def dispatch_np_def HandleClientRequest_def TryProcessClientRequest_def
        ProcessPendingRequests_def Let_def request_stamp_def awaits_def)
  then show ?thesis using t assms by (simp add: awaits_def)
qed

section \<open>Ordered delivery\<close>

definition sequence_request ::
  "ToReplicaMessage_np PBCodec \<Rightarrow> NOPaxosSequencer \<Rightarrow> RequestMessage \<times> byte list \<Rightarrow> NOPaxosSequencer result" where
  "sequence_request pb sq x = rbind (request_packet pb (snd x) (fst x)) (Sequencer_ReceiveMessage sq)"

lemma sequence_one:
  assumes "sends pb r buf"
  shows "\<exists>sent. sequence_request pb sq (r, buf) =
       Inr (sq\<lparr>sq_msg_num := sq_msg_num sq + 1, sq_sent := sq_sent sq @ [sent]\<rparr>) \<and>
     NOPaxosMessage_Parse pb stamp_to_replica sent =
       Inr (NRequest (r\<lparr>rm_sessnum := ucast (sq_sess_num sq), rm_msgnum := sq_msg_num sq + 1\<rparr>))"
  using stamped_request [of pb r buf sq] assms
  by (auto simp: sends_def sequence_request_def request_packet_def)

lemma deliver_one:
  assumes step: "in_step sq s" and room: "unat (np_lastOp s) + 2 < 2 ^ 64" "unat (sq_msg_num sq) + 1 < 2 ^ 64"
    and parse: "NOPaxosMessage_Parse pb stamp_to_replica sent =
       Inr (NRequest (r\<lparr>rm_sessnum := ucast (sq_sess_num sq), rm_msgnum := sq_msg_num sq + 1\<rparr>))"
  shows "\<exists>s'. ReceivePacket pb ap s sent = Inr s' \<and>
     in_step (sq\<lparr>sq_msg_num := sq_msg_num sq + 1, sq_sent := snt\<rparr>) s' \<and>
     np_lastOp s' = np_lastOp s + 1 \<and> np_view s' = np_view s \<and>
     log_at (np_log s') (np_lastOp s + 1) = Some (LogEntry_new
       (viewstamp4 (np_view s) (np_lastOp s + 1) (ucast (sq_sess_num sq)) (sq_msg_num sq + 1)) LOG_STATE_RECEIVED (rm_req r)) \<and>
     (\<forall>i \<le> np_lastOp s. log_at (np_log s') i = log_at (np_log s) i)"
proof -
  let ?r = "r\<lparr>rm_sessnum := ucast (sq_sess_num sq), rm_msgnum := sq_msg_num sq + 1\<rparr>"
  have u: "unat (np_lastOp s + 1) = unat (np_lastOp s) + 1" "unat (sq_msg_num sq + 1) = unat (sq_msg_num sq) + 1"
    using room unat_add_of_nat [of "np_lastOp s" 1] unat_add_of_nat [of "sq_msg_num sq" 1] by simp_all
  have "rm_msgnum ?r \<noteq> 0" using u(2) by (auto simp: unat_eq_0)
  then have "awaits s ?r" using step room(1) by (simp add: awaits_def in_step_def)
  from next_request [OF this, of ap 0] show ?thesis
    using step parse u(1)
    by (elim exE conjE) (simp add: ReceivePacket_def in_step_def request_stamp_def, fastforce simp: word_le_nat_alt)
qed

text \<open>C29. Ordered delivery.  Requests that clients serialize and the sequencer stamps one after the other all come
  out of the sequencer, and any replica in step with the sequencer that receives its packets in
  order processes them without aborting, stays in step, keeps its log and appends exactly these requests
  in the sequencer's order, each under the sequencer's stamp.  Replicas in step with the same
  sequencer hence agree on the requests they append.\<close>

theorem ordered_delivery:
  assumes "\<forall>x\<in>set rbs. sends pb (fst x) (snd x)" and "in_step sq s"
    and "unat (np_lastOp s) + length rbs + 1 < 2 ^ 64" and "unat (sq_msg_num sq) + length rbs < 2 ^ 64"
  shows "\<exists>sq' sent s'. fold_r (sequence_request pb) sq rbs = Inr sq' \<and> sq_sent sq' = sq_sent sq @ sent \<and>
     length sent = length rbs \<and> fold_r (ReceivePacket pb ap) s sent = Inr s' \<and> in_step sq' s' \<and>
     np_lastOp s' = np_lastOp s + word_of_nat (length rbs) \<and>
     (\<forall>i \<le> np_lastOp s. log_at (np_log s') i = log_at (np_log s) i) \<and>
     (\<forall>i<length rbs. log_at (np_log s') (np_lastOp s + 1 + word_of_nat i) = Some (LogEntry_new
        (viewstamp4 (np_view s) (np_lastOp s + 1 + word_of_nat i) (ucast (sq_sess_num sq)) (sq_msg_num sq + 1 + word_of_nat i))
        LOG_STATE_RECEIVED (rm_req (fst (rbs ! i)))))"
  using assms
proof (induction rbs arbitrary: sq s)
  case (Cons x rbs)
  obtain r buf where x: "x = (r, buf)" by (cases x)
  obtain snt where seq: "sequence_request pb sq (r, buf) =
       Inr (sq\<lparr>sq_msg_num := sq_msg_num sq + 1, sq_sent := sq_sent sq @ [snt]\<rparr>)"
    and parse: "NOPaxosMessage_Parse pb stamp_to_replica snt =
       Inr (NRequest (r\<lparr>rm_sessnum := ucast (sq_sess_num sq), rm_msgnum := sq_msg_num sq + 1\<rparr>))"
    using sequence_one [of pb r buf sq] Cons.prems(1) x by auto
  let ?sq = "sq\<lparr>sq_msg_num := sq_msg_num sq + 1, sq_sent := sq_sent sq @ [snt]\<rparr>"
  have u: "unat (np_lastOp s + 1) = unat (np_lastOp s) + 1" "unat (sq_msg_num sq + 1) = unat (sq_msg_num sq) + 1"
    using Cons.prems(3,4) unat_add_of_nat [of "np_lastOp s" 1] unat_add_of_nat [of "sq_msg_num sq" 1] by simp_all
  obtain t where t: "ReceivePacket pb ap s snt = Inr t" "in_step ?sq t" "np_lastOp t = np_lastOp s + 1" "np_view t = np_view s"
    and new: "log_at (np_log t) (np_lastOp s + 1) = Some (LogEntry_new
       (viewstamp4 (np_view s) (np_lastOp s + 1) (ucast (sq_sess_num sq)) (sq_msg_num sq + 1)) LOG_STATE_RECEIVED (rm_req r))"
    and old: "\<forall>i \<le> np_lastOp s. log_at (np_log t) i = log_at (np_log s) i"
    using deliver_one [OF Cons.prems(2) _ _ parse, of ap] Cons.prems(3,4) by auto
  obtain sq' sent s' where IH: "fold_r (sequence_request pb) ?sq rbs = Inr sq'" "sq_sent sq' = sq_sent sq @ snt # sent"
      "length sent = length rbs" "fold_r (ReceivePacket pb ap) t sent = Inr s'" "in_step sq' s'"
      "np_lastOp s' = np_lastOp t + word_of_nat (length rbs)"
    and oldu: "\<forall>i \<le> np_lastOp t. log_at (np_log s') i = log_at (np_log t) i"
    and newu: "\<forall>i<length rbs. log_at (np_log s') (np_lastOp t + 1 + word_of_nat i) = Some (LogEntry_new
        (viewstamp4 (np_view t) (np_lastOp t + 1 + word_of_nat i) (ucast (sq_sess_num sq)) (sq_msg_num sq + 1 + 1 + word_of_nat i))
        LOG_STATE_RECEIVED (rm_req (fst (rbs ! i))))"
    using Cons.IH [of ?sq t] Cons.prems(1,3,4) t(2,3) u by auto
  have "log_at (np_log s') i = log_at (np_log s) i" if "i \<le> np_lastOp s" for i
    using that old oldu t(3) u by (simp add: word_le_nat_alt)
  then show ?case
    using seq t IH new oldu newu x
    by (intro exI [of _ sq'] exI [of _ "snt # sent"] exI [of _ s']) (auto simp: All_less_Suc2 algebra_simps)
qed auto

theorem ordered_delivery_witness:
  "let sq = \<lparr>sq_sess_num = 0, sq_msg_num = 0, sq_sent = []\<rparr>;
       req = (\<lambda>op. \<lparr>rm_sessnum = 0, rm_msgnum = 0, rm_req = empty_Request\<lparr>req_op := op\<rparr>\<rparr>)
   in \<exists>sq' s'. fold_r (sequence_request text_codec) sq [(req ''a'', replicate 13 9), (req ''bc'', replicate 14 8)] = Inr sq' \<and>
     fold_r (ReceivePacket text_codec sample_app) (np_replica 1) (sq_sent sq') = Inr s' \<and> np_lastOp s' = 2 \<and>
     map_option le_request (log_at (np_log s') 2) = Some (empty_Request\<lparr>req_op := ''bc''\<rparr>)"
proof -
  let ?sq = "\<lparr>sq_sess_num = 0, sq_msg_num = 0, sq_sent = []\<rparr>"
  let ?req = "\<lambda>op. \<lparr>rm_sessnum = 0, rm_msgnum = 0, rm_req = empty_Request\<lparr>req_op := op\<rparr>\<rparr>"
  let ?rbs = "[(?req ''a'', replicate 13 9), (?req ''bc'', replicate 14 8)]"
  have req: "NRequest (?req op) = text_request op" for op by (simp add: text_request_def)
  have sends: "\<forall>x\<in>set ?rbs. sends text_codec (fst x) (snd x)"
    by (simp add: sends_def req text_faithful NOPaxosMessage_SerializedSize_def)
  have s: "np_lastOp (np_replica 1) = 0" "in_step ?sq (np_replica 1)"
    using np_replica_core [of 1]
    by (simp_all add: in_step_def np_replica_def NOPaxosReplica_new_def Log_new_def Let_def)
  have room: "unat (np_lastOp (np_replica 1)) + length ?rbs + 1 < 2 ^ 64" "unat (sq_msg_num ?sq) + length ?rbs < 2 ^ 64"
    by (simp_all add: s(1))
  have "1 < length ?rbs" by simp
  with ordered_delivery [OF sends s(2) room, of sample_app] show ?thesis
    unfolding Let_def by (elim exE conjE) (drule spec [of _ 1], force simp: LogEntry_new_def s(1))
qed

section \<open>Replies\<close>

text \<open>What a replica answers to the next request: the leader executes it and sends the result, a follower only
  reports where it put the request.\<close>

definition slot_reply :: "'a NOPaxosReplica \<Rightarrow> RequestMessage \<Rightarrow> string option \<Rightarrow> ReplyMessage_np" where
  "slot_reply s r res =
     \<lparr>nrep_view = np_view s, nrep_sessnum = rm_sessnum r, nrep_opnum = np_lastOp s + 1,
      nrep_clientreqid = req_clientreqid (rm_req r), nrep_replicaidx = np_replicaIdx s, nrep_reply = res\<rparr>"

definition fresh_request :: "'a NOPaxosReplica \<Rightarrow> Request \<Rightarrow> bool" where
  "fresh_request s req \<longleftrightarrow> np_lastExecutedOp s = np_lastOp s \<and> \<not> stale_request s req \<and> \<not> duplicate_request s req"

lemma execute_next:
  assumes core: "np_core t" and op: "np_lastExecutedOp t + 1 = op" "op = np_lastOp t" "np_lastOp t \<noteq> - 1" "op \<noteq> 0"
    and e: "log_at (np_log t) op = Some e" "le_state e = LOG_STATE_RECEIVED"
    and fresh: "\<not> stale_request t (le_request e)" "\<not> duplicate_request t (le_request e)"
    and leader: "GetLeaderIndex (np_configuration t) (vs_view (le_viewstamp e)) = np_replicaIdx t"
    and run: "ExecuteUptoOp ap t op = Inr t'"
  shows "np_outbox t' = np_outbox t @ [(NToClient (req_clientaddr (le_request e)), NOutClient (NReply
     \<lparr>nrep_view = vs_view (le_viewstamp e), nrep_sessnum = vs_sessnum (le_viewstamp e), nrep_opnum = op,
      nrep_clientreqid = req_clientreqid (le_request e), nrep_replicaidx = np_replicaIdx t,
      nrep_reply = Some (snd (Execute ap (np_app_state t) op (le_request e) None))\<rparr>))]"
proof -
  note C = np_coreD [OF core]
  have u: "unat op = unat (np_lastExecutedOp t) + 1"
    using op unat_add_of_nat [of "np_lastExecutedOp t" 1] C(5) unfolding u64_not_max word_le_nat_alt by simp
  then have lt: "\<not> op \<le> np_lastExecutedOp t" by (simp add: word_le_nat_alt)
  have "unat (op + 1) = unat op + 1" using op(2,3) unat_add_of_nat [of op 1] unfolding u64_not_max by simp
  then have "op_range op (op + 1) = [op]"
    using op_range_Cons [of op "op + 1"] by (simp add: word_less_nat_alt op_range_def)
  then have "execute_op ap t op = Inr t'"
    using run lt op by (auto simp: ExecuteUptoOp_def op_range_le_def)
  then have x: "execute_entry ap (t\<lparr>np_lastExecutedOp := op\<rparr>) op e = Inr t'"
    using e by (auto simp: execute_op_def Let_def Find_eq [OF C(1)])
  have f: "\<not> stale_request (t\<lparr>np_lastExecutedOp := op\<rparr>) (le_request e)" "\<not> duplicate_request (t\<lparr>np_lastExecutedOp := op\<rparr>) (le_request e)"
    using fresh by (simp_all add: stale_request_def duplicate_request_def)
  show ?thesis
    using x f leader
    by (auto simp: execute_entry_def Let_def UpdateClientTable_np_def respond_client_def send_np_def
        ReplyMessage_np_empty_def split: if_splits)
qed

lemma settle_next:
  assumes await: "awaits s r" and run: "append_next ap s (rm_req r) (request_stamp s r) LOG_STATE_RECEIVED = Inr t"
  shows "\<exists>w. settle_entry ap w (rm_req r) (request_stamp s r) LOG_STATE_RECEIVED = Inr t \<and>
     np_outbox w = np_outbox s \<and> np_view w = np_view s \<and> np_lastOp w = np_lastOp s + 1 \<and>
     np_replicaIdx w = np_replicaIdx s \<and> np_configuration w = np_configuration s \<and>
     np_lastExecutedOp w = np_lastExecutedOp s \<and> np_lastCommittedOp w = np_lastCommittedOp s \<and>
     np_app_state w = np_app_state s \<and> np_clientTable w = np_clientTable s"
proof -
  note D = awaitsD [OF await]
  from append_next_Inr [OF run] obtain l u where l:
    "settle_entry ap (stop_gap_request (s\<lparr>np_lastOp := np_lastOp s + 1, np_nextMsgnum := rm_msgnum r + 1, np_log := l\<rparr>))
       (rm_req r) (request_stamp s r) LOG_STATE_RECEIVED = Inr u" "complete_transfer ap u (np_lastOp s + 1) = Inr t"
    using D(5) by (auto simp: entry_state_def)
  let ?w = "stop_gap_request (s\<lparr>np_lastOp := np_lastOp s + 1, np_nextMsgnum := rm_msgnum r + 1, np_log := l\<rparr>)"
  have "np_stateTransferOpEnd u = np_stateTransferOpEnd ?w"
    using l(1) exec_frameD(13) [OF ExecuteUptoOp_frame] by (auto simp: settle_entry_def send_np_def split: if_splits)
  then have "np_stateTransferOpEnd u = 0" using await by (simp add: awaits_def stop_gap_request_def)
  then have "t = u" using l(2) D(4) by (simp add: complete_transfer_def)
  then show ?thesis using l(1) by (intro exI [of _ ?w]) (simp add: stop_gap_request_def)
qed

lemma reply_sent:
  assumes await: "awaits s r" and fresh: "AmLeader_np s \<Longrightarrow> fresh_request s (rm_req r)"
    and run: "ReceiveMessage_np ap s remote (NRequest r) = Inr s'"
  shows "np_outbox s' = np_outbox s @ [(NToClient (req_clientaddr (rm_req r)), NOutClient (NReply (slot_reply s r
     (if AmLeader_np s then Some (snd (Execute ap (np_app_state s) (np_lastOp s + 1) (rm_req r) None)) else None))))]"
proof -
  note D = awaitsD [OF await]
  obtain t where t: "append_next ap s (rm_req r) (request_stamp s r) LOG_STATE_RECEIVED = Inr t" "s' = t" "np_core t"
    "log_at (np_log t) (np_lastOp s + 1) = Some (LogEntry_new (request_stamp s r) LOG_STATE_RECEIVED (rm_req r))"
    using next_request [OF await, of ap remote] run by auto
  obtain w where settle: "settle_entry ap w (rm_req r) (request_stamp s r) LOG_STATE_RECEIVED = Inr t" and
    w: "np_outbox w = np_outbox s" "np_view w = np_view s" "np_lastOp w = np_lastOp s + 1"
    "np_replicaIdx w = np_replicaIdx s" "np_configuration w = np_configuration s" "np_lastExecutedOp w = np_lastExecutedOp s"
    "np_lastCommittedOp w = np_lastCommittedOp s" "np_app_state w = np_app_state s" "np_clientTable w = np_clientTable s"
    using settle_next [OF await t(1)] by (elim exE conjE)
  show ?thesis
  proof (cases "AmLeader_np s")
    case True
    then have ex: "ExecuteUptoOp ap w (np_lastOp s + 1) = Inr t"
      using settle by (simp add: settle_entry_def w AmLeader_np_def)
    note F = exec_frameD [OF ExecuteUptoOp_frame [OF ex]]
    have le: "np_lastOp s \<le> np_lastOp s + 1" using D(1) by (simp add: word_le_nat_alt)
    have "np_lastExecutedOp s \<le> np_lastOp s" "np_lastCommittedOp s \<le> np_lastOp s"
      using await by (simp_all add: awaits_def np_core_def)
    then have core: "np_core w"
      using t(3) F(1,2,8) order_trans [OF _ le] unfolding np_core_def w by simp
    let ?e = "LogEntry_new (request_stamp s r) LOG_STATE_RECEIVED (rm_req r)"
    have e: "le_state ?e = LOG_STATE_RECEIVED" "le_request ?e = rm_req r" "le_viewstamp ?e = request_stamp s r"
      by (simp_all add: LogEntry_new_def)
    have fr: "np_lastExecutedOp w + 1 = np_lastOp s + 1" "\<not> stale_request w (le_request ?e)" "\<not> duplicate_request w (le_request ?e)"
      using fresh [OF True] by (simp_all add: e fresh_request_def w stale_request_def duplicate_request_def)
    have log: "log_at (np_log w) (np_lastOp s + 1) = Some ?e" using t(4) F(2) by simp
    have lead: "GetLeaderIndex (np_configuration w) (vs_view (le_viewstamp ?e)) = np_replicaIdx w"
      using True by (simp add: e w AmLeader_np_def)
    have "np_lastOp w \<noteq> - 1" using D(2) by (simp add: w)
    from execute_next [OF core fr(1) w(3) [symmetric] this D(4) log e(1) fr(2,3) lead ex] show ?thesis
      using True unfolding e w t(2) by (simp add: slot_reply_def)
  next
    case False
    then have "send_np w (NToClient (req_clientaddr (rm_req r))) (NOutClient (NReply (slot_reply s r None))) = t"
      using settle by (simp add: settle_entry_def w(4,5) AmLeader_np_def slot_reply_def)
    then show ?thesis using False w(1) unfolding t(2) by (auto simp: send_np_def)
  qed
qed

section \<open>The whole path\<close>

text \<open>Replies that agree on the slot of a request.\<close>

definition agree :: "Configuration \<Rightarrow> u64 \<Rightarrow> ReplyMessage_np \<Rightarrow> string \<Rightarrow> (int \<times> ReplyMessage_np) list \<Rightarrow> bool" where
  "agree c i slot res msgs \<longleftrightarrow> (\<forall>(j, m)\<in>set msgs. same_slot slot m \<and> nrep_clientreqid m = i \<and>
     (IsLeader c (nrep_view slot) j \<longrightarrow> nrep_reply m = Some res))"

lemma agree_decided:
  assumes "smap_ok msgs" and "agree c i slot res msgs"
  shows "decided c msgs m \<longleftrightarrow> (GetLeaderIndex c (nrep_view slot), m) \<in> set msgs \<and> QuorumSize c \<le> int (card (fst ` set msgs))"
proof -
  have A: "same_slot slot m" if "(j, m) \<in> set msgs" for j m using assms(2) that by (auto simp: agree_def)
  have all: "{j. \<exists>m'. (j, m') \<in> set msgs \<and> same_slot m m'} = fst ` set msgs" if "(k, m) \<in> set msgs" for k
    using A that by (force simp: same_slot_def)
  have "leader_reply c msgs j m \<longleftrightarrow> (j, m) \<in> set msgs \<and> j = GetLeaderIndex c (nrep_view slot)" for j
    using A by (fastforce simp: leader_reply_def IsLeader_def same_slot_def)
  then show ?thesis using all by (auto simp: decided_def)
qed

lemma other_replies_ignored:
  assumes "\<forall>p. nc_pendingRequest s = Some p \<longrightarrow> pr_clientReqId p \<noteq> i" and "\<forall>m\<in>set ms. nrep_clientreqid m = i"
  shows "fold_r (HandleReply calls) s ms = Inr s"
proof -
  have "HandleReply calls s m = Inr s" if "m \<in> set ms" for m
    using assms that by (auto simp: HandleReply_def split: option.splits)
  then show ?thesis by (induction ms) auto
qed

lemma agree_with_reply:
  assumes inv: "client_inv s" and p: "nc_pendingRequest s = Some p" and id: "nrep_clientreqid m = pr_clientReqId p"
    and lead: "IsLeader (nc_config s) (nrep_view m) (nrep_replicaidx m) \<longrightarrow> nrep_reply m \<noteq> None"
    and old: "agree (nc_config s) (pr_clientReqId p) slot res (GetMessages (nc_replyQuorum s) (ucast (pr_clientReqId p)))"
    and m: "same_slot slot m" "IsLeader (nc_config s) (nrep_view slot) (nrep_replicaidx m) \<longrightarrow> nrep_reply m = Some res"
  shows "smap_ok (replies_with s m) \<and> client_inv (with_reply s m) \<and>
     agree (nc_config s) (pr_clientReqId p) slot res (replies_with s m) \<and>
     fst ` set (replies_with s m) = insert (nrep_replicaidx m) (fst ` set (GetMessages (nc_replyQuorum s) (ucast (pr_clientReqId p))))"
proof -
  have put: "replies_with s m = smap_put (nrep_replicaidx m) m (GetMessages (nc_replyQuorum s) (ucast (pr_clientReqId p)))"
    by (simp add: replies_with_def with_reply_def GetMessages_def QuorumSet_Add_def AddAndCheckForQuorum_messages id)
  have "agree (nc_config s) (pr_clientReqId p) slot res (replies_with s m)"
    using old m id set_smap_put_subset [of "nrep_replicaidx m" m "GetMessages (nc_replyQuorum s) (ucast (pr_clientReqId p))"]
    unfolding put agree_def by auto
  then show ?thesis using replies_with_ok [OF inv p id lead] by (simp add: put)
qed

lemma replies_complete:
  assumes "client_inv s" and "client_history (client_ids s)" and p: "nc_pendingRequest s = Some p" "pr_clientReqId p = i"
    and "agree (nc_config s) i slot res (GetMessages (nc_replyQuorum s) (ucast i))"
    and "agree (nc_config s) i slot res (map (\<lambda>m. (nrep_replicaidx m, m)) ms)"
    and "client_permits (s\<lparr>nc_pendingRequest := None\<rparr>) (calls (pr_continuation p) (pr_request p) (Some res))"
    and "let H = fst ` set (GetMessages (nc_replyQuorum s) (ucast i))
         in \<not> (GetLeaderIndex (nc_config s) (nrep_view slot) \<in> H \<and> QuorumSize (nc_config s) \<le> int (card H))"
    and "let H = fst ` set (GetMessages (nc_replyQuorum s) (ucast i)) \<union> nrep_replicaidx ` set ms
         in GetLeaderIndex (nc_config s) (nrep_view slot) \<in> H \<and> QuorumSize (nc_config s) \<le> int (card H)"
  shows "\<exists>s'. fold_r (HandleReply calls) s ms = Inr s' \<and> client_inv s' \<and>
     nc_answered s' = nc_answered s @ [(i, pr_continuation p, pr_request p, res)]"
  using assms
proof (induction ms arbitrary: s)
  case Nil
  then show ?case by (simp add: Let_def)
next
  case (Cons m ms)
  let ?c = "nc_config s" and ?C = "GetMessages (nc_replyQuorum s) (ucast i)" and ?L = "GetLeaderIndex (nc_config s) (nrep_view slot)"
  have m: "same_slot slot m" "nrep_clientreqid m = i" "IsLeader ?c (nrep_view slot) (nrep_replicaidx m) \<longrightarrow> nrep_reply m = Some res"
    and rest: "agree ?c i slot res (map (\<lambda>m. (nrep_replicaidx m, m)) ms)"
    using Cons.prems(6) by (auto simp: agree_def)
  have id: "nrep_clientreqid m = pr_clientReqId p" using m(2) Cons.prems(4) by simp
  have lead: "IsLeader ?c (nrep_view m) (nrep_replicaidx m) \<longrightarrow> nrep_reply m \<noteq> None" using m(1,3) by (simp add: same_slot_def)
  note R = agree_with_reply [OF Cons.prems(1,3) id lead Cons.prems(5) [unfolded Cons.prems(4) [symmetric]]
      m(1) m(3), unfolded Cons.prems(4)]
  have keys: "fst ` set (replies_with s m) = insert (nrep_replicaidx m) (fst ` set ?C)"
    and ag: "agree ?c i slot res (replies_with s m)" using R by blast+
  have dec: "decided ?c (replies_with s m) x \<longleftrightarrow>
      (?L, x) \<in> set (replies_with s m) \<and> QuorumSize ?c \<le> int (card (insert (nrep_replicaidx m) (fst ` set ?C)))" for x
    unfolding agree_decided [OF R [THEN conjunct1] ag] keys ..
  have dec_res: "nrep_reply x = Some res" if "decided ?c (replies_with s m) x" for x
    using that ag unfolding dec by (auto simp: agree_def IsLeader_def)
  show ?case
  proof (cases "\<exists>x. decided ?c (replies_with s m) x")
    case True
    then obtain x where x: "decided ?c (replies_with s m) x" "HandleReply calls s m = CompleteOperation calls (with_reply s m) x"
      using HandleReply_decides [OF Cons.prems(1,3) id lead, of calls] by blast
    have "client_permits ((with_reply s m)\<lparr>nc_pendingRequest := None\<rparr>) (calls (pr_continuation p) (pr_request p) (Some res))"
      using Cons.prems(7) by (simp add: client_permits_def with_reply_def)
    then obtain t where t: "HandleReply calls s m = Inr t" "client_inv t" "client_move\<^sup>*\<^sup>* (client_ids s) (client_ids t)"
      "nc_answered t = nc_answered s @ [(i, pr_continuation p, pr_request p, res)]"
      using CompleteOperation_total [where calls = calls and s = "with_reply s m" and p = p, OF _ _ dec_res [OF x(1)]] R x(2) Cons.prems(3,4)
      by (auto simp: client_inv_def with_reply_def client_ids_def)
    have "client_history (client_ids t)" using client_moves_history [OF t(3) Cons.prems(2)] .
    then have "\<forall>p'. nc_pendingRequest t = Some p' \<longrightarrow> pr_clientReqId p' \<noteq> i"
      using t(4) by (auto simp: client_history_def client_ids_def)
    moreover have "\<forall>m\<in>set ms. nrep_clientreqid m = i" using rest by (auto simp: agree_def)
    ultimately have "fold_r (HandleReply calls) t ms = Inr t" by (rule other_replies_ignored)
    then show ?thesis using t by simp
  next
    case False
    let ?s = "with_reply s m"
    have run: "HandleReply calls s m = Inr ?s"
      using False HandleReply_decides [OF Cons.prems(1,3) id lead, of calls] by blast
    have w: "nc_pendingRequest ?s = Some p" "nc_config ?s = ?c" "client_ids ?s = client_ids s" "nc_answered ?s = nc_answered s"
      "GetMessages (nc_replyQuorum ?s) (ucast i) = replies_with s m"
      using Cons.prems(3) m(2) by (simp_all add: with_reply_def client_ids_def replies_with_def)
    have perm: "client_permits (?s\<lparr>nc_pendingRequest := None\<rparr>) (calls (pr_continuation p) (pr_request p) (Some res))"
      using Cons.prems(7) by (simp add: client_permits_def with_reply_def)
    have "\<not> (?L \<in> fst ` set (replies_with s m) \<and> QuorumSize ?c \<le> int (card (fst ` set (replies_with s m))))"
      using False unfolding dec keys by (metis (no_types, lifting) image_iff keys prod.collapse)
    then have "\<exists>s'. fold_r (HandleReply calls) ?s ms = Inr s' \<and> client_inv s' \<and>
       nc_answered s' = nc_answered ?s @ [(i, pr_continuation p, pr_request p, res)]"
      using Cons.IH [of ?s, unfolded w, OF _ Cons.prems(2) refl Cons.prems(4) ag rest perm] R Cons.prems(9)
      by (auto simp: Let_def keys w)
    then show ?thesis using run w(4) by simp
  qed
qed

text \<open>The replies to clients that a replica sent between two states.\<close>

definition new_replies :: "'a NOPaxosReplica \<Rightarrow> 'a NOPaxosReplica \<Rightarrow> ReplyMessage_np list" where
  "new_replies s s' = List.map_filter (\<lambda>(d, m). case m of NOutClient (NReply r) \<Rightarrow> Some r | _ \<Rightarrow> None)
     (drop (length (np_outbox s)) (np_outbox s'))"

lemma replica_answers:
  assumes step: "in_step sq s" and room: "unat (np_lastOp s) + 2 < 2 ^ 64" "unat (sq_msg_num sq) + 1 < 2 ^ 64"
    and parse: "NOPaxosMessage_Parse pb stamp_to_replica sent =
       Inr (NRequest (r\<lparr>rm_sessnum := ucast (sq_sess_num sq), rm_msgnum := sq_msg_num sq + 1\<rparr>))"
    and fresh: "AmLeader_np s \<Longrightarrow> fresh_request s (rm_req r)"
  shows "\<exists>s'. ReceivePacket pb ap s sent = Inr s' \<and>
     new_replies s s' = [\<lparr>nrep_view = np_view s, nrep_sessnum = ucast (sq_sess_num sq), nrep_opnum = np_lastOp s + 1,
        nrep_clientreqid = req_clientreqid (rm_req r), nrep_replicaidx = np_replicaIdx s,
        nrep_reply = if AmLeader_np s then Some (snd (Execute ap (np_app_state s) (np_lastOp s + 1) (rm_req r) None)) else None\<rparr>]"
proof -
  let ?r = "r\<lparr>rm_sessnum := ucast (sq_sess_num sq), rm_msgnum := sq_msg_num sq + 1\<rparr>"
  have "unat (sq_msg_num sq + 1) = unat (sq_msg_num sq) + 1" using room(2) unat_add_of_nat [of "sq_msg_num sq" 1] by simp
  then have "rm_msgnum ?r \<noteq> 0" by (auto simp: unat_eq_0)
  then have aw: "awaits s ?r" using step room(1) by (simp add: awaits_def in_step_def)
  then obtain s' where s': "ReceiveMessage_np ap s 0 (NRequest ?r) = Inr s'" using next_request by blast
  have "np_outbox s' = np_outbox s @ [(NToClient (req_clientaddr (rm_req ?r)), NOutClient (NReply (slot_reply s ?r
     (if AmLeader_np s then Some (snd (Execute ap (np_app_state s) (np_lastOp s + 1) (rm_req ?r) None)) else None))))]"
    using fresh by (intro reply_sent [OF aw _ s']) simp
  then have "new_replies s s' = [slot_reply s ?r
     (if AmLeader_np s then Some (snd (Execute ap (np_app_state s) (np_lastOp s + 1) (rm_req ?r) None)) else None)]"
    by (simp add: new_replies_def map_filter_simps)
  then show ?thesis using s' parse by (simp add: ReceivePacket_def slot_reply_def)
qed

text \<open>Replicas in normal operation that are in step with the sequencer, and what they answer to one packet.\<close>

definition in_service ::
  "'a AppReplica \<Rightarrow> NOPaxosSequencer \<Rightarrow> Configuration \<Rightarrow> u64 \<Rightarrow> u64 \<Rightarrow> Request \<Rightarrow> string \<Rightarrow> 'a NOPaxosReplica \<Rightarrow> bool" where
  "in_service ap sq c v n req res s \<longleftrightarrow> in_step sq s \<and> np_configuration s = c \<and> np_view s = v \<and> np_lastOp s = n \<and>
     (AmLeader_np s \<longrightarrow> fresh_request s req \<and> snd (Execute ap (np_app_state s) (n + 1) req None) = res)"

lemma group_answers:
  assumes "\<forall>s\<in>set Rs. in_service ap sq c v n (rm_req r) res s" and "unat n + 2 < 2 ^ 64" "unat (sq_msg_num sq) + 1 < 2 ^ 64"
    and parse: "NOPaxosMessage_Parse pb stamp_to_replica sent =
       Inr (NRequest (r\<lparr>rm_sessnum := ucast (sq_sess_num sq), rm_msgnum := sq_msg_num sq + 1\<rparr>))"
  shows "\<exists>Rs'. map_r (\<lambda>s. ReceivePacket pb ap s sent) Rs = Inr Rs' \<and>
     concat (map2 new_replies Rs Rs') = map (\<lambda>s. \<lparr>nrep_view = v, nrep_sessnum = ucast (sq_sess_num sq), nrep_opnum = n + 1,
        nrep_clientreqid = req_clientreqid (rm_req r), nrep_replicaidx = np_replicaIdx s,
        nrep_reply = if GetLeaderIndex c v = np_replicaIdx s then Some res else None\<rparr>) Rs"
  using assms(1)
proof (induction Rs)
  case (Cons s Rs)
  then have s: "in_step sq s" "np_configuration s = c" "np_view s = v" "np_lastOp s = n"
    "AmLeader_np s \<Longrightarrow> fresh_request s (rm_req r)" "AmLeader_np s \<Longrightarrow> snd (Execute ap (np_app_state s) (n + 1) (rm_req r) None) = res"
    by (simp_all add: in_service_def)
  have "unat (np_lastOp s) + 2 < 2 ^ 64" using assms(2) s(4) by simp
  from replica_answers [OF s(1) this assms(3) parse s(5), of ap] obtain s' where
    "ReceivePacket pb ap s sent = Inr s'"
    "new_replies s s' = [\<lparr>nrep_view = v, nrep_sessnum = ucast (sq_sess_num sq), nrep_opnum = n + 1,
        nrep_clientreqid = req_clientreqid (rm_req r), nrep_replicaidx = np_replicaIdx s,
        nrep_reply = if GetLeaderIndex c v = np_replicaIdx s then Some res else None\<rparr>]"
    using s by (auto simp: AmLeader_np_def)
  then show ?case using Cons by fastforce
qed simp

text \<open>C5. A request invoked at a client is answered.  The client serializes the request, the sequencer stamps it, every
  replica of a group that is in step with the sequencer and in the same view and position receives the
  packet, and the client handles their replies in any order: if the leader and a quorum of replicas are among
  them, nothing aborts, and the client's continuation is run exactly once, with the result the leader's
  application returned.\<close>

theorem invoke_answered:
  assumes client: "client_inv s" "client_history (client_ids s)" "client_permits s [CallInvoke op k]" "nc_config s = c"
      "GetMessages (nc_replyQuorum s) (ucast (nc_lastReqID s + 1)) = []"
    and permits: "client_permits (s\<lparr>nc_lastReqID := nc_lastReqID s + 1\<rparr>) (calls k op (Some res))"
    and packet: "r = client_request s (PendingRequest_new op (nc_lastReqID s + 1) k)" "sends pb r buf"
    and group: "\<forall>s\<in>set Rs. in_service ap sq c v n (rm_req r) res s" "unat n + 2 < 2 ^ 64" "unat (sq_msg_num sq) + 1 < 2 ^ 64"
      "GetLeaderIndex c v \<in> np_replicaIdx ` set Rs" "QuorumSize c \<le> int (card (np_replicaIdx ` set Rs))" "0 < QuorumSize c"
  shows "\<exists>s1 sq' sent Rs' s'. Invoke s op k = Inr s1 \<and> map (fst \<circ> snd) (nc_outbox s1) = map (fst \<circ> snd) (nc_outbox s) @ [NRequest r] \<and>
     sequence_request pb sq (r, buf) = Inr sq' \<and> sq_sent sq' = sq_sent sq @ [sent] \<and>
     map_r (\<lambda>s. ReceivePacket pb ap s sent) Rs = Inr Rs' \<and>
     fold_r (HandleReply calls) s1 (concat (map2 new_replies Rs Rs')) = Inr s' \<and>
     nc_answered s' = nc_answered s @ [(nc_lastReqID s + 1, k, op, res)]"
proof -
  let ?i = "nc_lastReqID s + 1"
  let ?p = "PendingRequest_new op ?i k"
  obtain s1 where s1: "Invoke s op k = Inr s1" "client_inv s1" "client_history (client_ids s1)" and
    e: "nc_pendingRequest s = None" "nc_pendingRequest s1 = Some ?p" "nc_config s1 = c" "nc_replyQuorum s1 = nc_replyQuorum s"
    "nc_answered s1 = nc_answered s" "nc_lastReqID s1 = ?i" "nc_pendingUnloggedRequest s1 = nc_pendingUnloggedRequest s"
    "map (fst \<circ> snd) (nc_outbox s1) = map (fst \<circ> snd) (nc_outbox s) @ [NRequest r]"
    using Invoke_effect [OF client(1-3)] unfolding packet(1) client(4) [symmetric] by (elim exE conjE)
  have p: "pr_clientReqId ?p = ?i" "pr_continuation ?p = k" "pr_request ?p = op" by (simp_all add: PendingRequest_new_def)
  obtain sent where sent: "sequence_request pb sq (r, buf) = Inr (sq\<lparr>sq_msg_num := sq_msg_num sq + 1, sq_sent := sq_sent sq @ [sent]\<rparr>)"
    "NOPaxosMessage_Parse pb stamp_to_replica sent = Inr (NRequest (r\<lparr>rm_sessnum := ucast (sq_sess_num sq), rm_msgnum := sq_msg_num sq + 1\<rparr>))"
    using sequence_one [OF packet(2), of sq] by blast
  obtain Rs' where Rs': "map_r (\<lambda>s. ReceivePacket pb ap s sent) Rs = Inr Rs'"
    "concat (map2 new_replies Rs Rs') = map (\<lambda>s. \<lparr>nrep_view = v, nrep_sessnum = ucast (sq_sess_num sq), nrep_opnum = n + 1,
        nrep_clientreqid = req_clientreqid (rm_req r), nrep_replicaidx = np_replicaIdx s,
        nrep_reply = if GetLeaderIndex c v = np_replicaIdx s then Some res else None\<rparr>) Rs"
    using group_answers [OF group(1-3) sent(2)] by blast
  define slot where "slot = ReplyMessage_np_empty\<lparr>nrep_view := v, nrep_sessnum := ucast (sq_sess_num sq), nrep_opnum := n + 1\<rparr>"
  have rid: "req_clientreqid (rm_req r) = ?i" by (simp add: packet(1) client_request_def p)
  have "agree c ?i slot res (map (\<lambda>m. (nrep_replicaidx m, m)) (concat (map2 new_replies Rs Rs')))"
    unfolding Rs'(2) by (auto simp: agree_def same_slot_def slot_def IsLeader_def rid)
  moreover have "nrep_replicaidx ` set (concat (map2 new_replies Rs Rs')) = np_replicaIdx ` set Rs"
    unfolding Rs'(2) by force
  moreover have "agree c ?i slot res (GetMessages (nc_replyQuorum s) (ucast ?i))" by (simp add: client(5) agree_def)
  moreover have "client_permits (s1\<lparr>nc_pendingRequest := None\<rparr>) (calls k op (Some res))"
    using permits e(1) by (simp add: client_permits_def e(6,7))
  ultimately have "\<exists>s'. fold_r (HandleReply calls) s1 (concat (map2 new_replies Rs Rs')) = Inr s' \<and> client_inv s' \<and>
      nc_answered s' = nc_answered s1 @ [(?i, k, op, res)]"
    using replies_complete [of s1 ?p ?i slot res "concat (map2 new_replies Rs Rs')" calls] s1 e p group(4-6) client(5)
    by (simp add: slot_def)
  then show ?thesis using s1(1) sent(1) Rs'(1) e(5,8) by auto
qed

definition path_client :: "nat NOPaxosClient" where
  "path_client = NOPaxosClient_new (sample_config 1) \<lparr>host = ''h'', port = ''1'', dev = ''''\<rparr> 7"

definition path_request :: RequestMessage where
  "path_request = client_request path_client (PendingRequest_new ''get'' 1 5)"

definition path_codec :: "ToReplicaMessage_np PBCodec" where
  "path_codec = \<lparr>SerializeToArray = (\<lambda>_. [1, 2, 3]), ParseFromArray = (\<lambda>_. NRequest path_request)\<rparr>"

theorem invoke_answered_witness:
  "\<exists>s1 sent Rs' s'. Invoke path_client ''get'' 5 = Inr s1 \<and>
     map_r (\<lambda>s. ReceivePacket path_codec sample_app s sent) [np_replica 2, np_replica 0] = Inr Rs' \<and>
     fold_r (HandleReply (\<lambda>_ _ _. [])) s1 (concat (map2 new_replies [np_replica 2, np_replica 0] Rs')) = Inr s' \<and>
     nc_answered s' = [(1, 5, ''get'', ''done get'')]"
proof -
  let ?sq = "\<lparr>sq_sess_num = 0, sq_msg_num = 0, sq_sent = []\<rparr>" and ?Rs = "[np_replica 2, np_replica 0]"
  have c: "client_inv path_client" "client_history (client_ids path_client)" using NOPaxosClient_new_inv by (simp_all add: path_client_def)
  have e: "nc_lastReqID path_client = 0" "nc_config path_client = sample_config 1" "nc_answered path_client = []"
    "nc_pendingRequest path_client = None" "nc_pendingUnloggedRequest path_client = None"
    "GetMessages (nc_replyQuorum path_client) (ucast (nc_lastReqID path_client + 1)) = []"
    by (simp_all add: path_client_def NOPaxosClient_new_def GetMessages_def QuorumSet_new_def)
  have p: "client_permits path_client [CallInvoke ''get'' 5]"
    "client_permits (path_client\<lparr>nc_lastReqID := nc_lastReqID path_client + 1\<rparr>) ((\<lambda>_ _ _. []) 5 ''get'' (Some ''done get''))"
    by (simp_all add: client_permits_def e)
  have r: "path_request = client_request path_client (PendingRequest_new ''get'' (nc_lastReqID path_client + 1) 5)"
    by (simp add: path_request_def e)
  have snd: "sends path_codec path_request (replicate 15 0)"
    by (simp add: sends_def pb_faithful_def path_codec_def PBMessage_SerializedSize_def NOPaxosMessage_SerializedSize_def)
  have "in_service sample_app ?sq (sample_config 1) 0 0 (rm_req path_request) ''done get'' (np_replica i)" for i
    using np_replica_core [of i]
    by (simp add: in_service_def in_step_def np_replica_def NOPaxosReplica_new_def Log_new_def Let_def fresh_request_def
        stale_request_def duplicate_request_def Execute_def sample_app_def path_request_def client_request_def PendingRequest_new_def)
  then have g: "\<forall>s\<in>set ?Rs. in_service sample_app ?sq (sample_config 1) 0 0 (rm_req path_request) ''done get'' s" by simp
  have idx: "np_replicaIdx (np_replica i) = i" for i by (simp add: np_replica_def NOPaxosReplica_new_def Log_new_def Let_def)
  have q: "GetLeaderIndex (sample_config 1) 0 \<in> np_replicaIdx ` set ?Rs"
    "QuorumSize (sample_config 1) \<le> int (card (np_replicaIdx ` set ?Rs))" "0 < QuorumSize (sample_config 1)"
    by (simp_all add: idx GetLeaderIndex_def QuorumSize_def sample_config_def)
  have b: "unat (0 :: u64) + 2 < 2 ^ 64" "unat (sq_msg_num ?sq) + 1 < 2 ^ 64" by simp_all
  show ?thesis
    using invoke_answered [OF c p(1) e(2,6) p(2) r snd g b q] unfolding e(1,3) by (metis add_0 append_Nil)
qed

end
