(* ===== verification/LockServer.thy ===== *)
theory LockServer
  imports Prelude
begin

text \<open>
  The multi-reader, single-writer lock server of the transaction back ends,
  \<^verbatim>\<open>transaction/common/backend/lockserver.h\<close> and \<^verbatim>\<open>lockserver.cc\<close>.  A lock keeps its state, its holders
  (a set), the queue of waiting transactions and, for each of them, whether it waits for a read lock, a write lock
  or both.  \<^verbatim>\<open>locks\<close> is a map from keys to locks in which \<^verbatim>\<open>locks[lock]\<close> creates a fresh lock on first use.

  \<^verbatim>\<open>TryAcquireForWaiters\<close> reads \<^verbatim>\<open>waitQ.front()\<close> after the queue may have become empty, which the standard
  leaves undefined: in the model that read is \<open>UndefinedBehaviour\<close>.  It happens only where the server hands
  released locks to their waiters (\<^verbatim>\<open>retryLock\<close> is off), when a waiter is granted the lock and nobody waits behind it.
\<close>

section \<open>State\<close>

datatype LockState =
    UNLOCKED
  | LOCKED_FOR_READ
  | LOCKED_FOR_WRITE
  | LOCKED_FOR_READ_WRITE

record Waiter =
  wt_read :: bool
  wt_write :: bool

definition Waiter_new :: "bool \<Rightarrow> Waiter" where
  "Waiter_new w = \<lparr>wt_read = \<not> w, wt_write = w\<rparr>"

record Lock =
  lk_state :: LockState
  lk_holders :: "u64 set"
  lk_waitQ :: "u64 list"
  lk_waiters :: "u64 \<Rightarrow> Waiter option"

definition Lock_new :: Lock where
  "Lock_new = \<lparr>lk_state = UNLOCKED, lk_holders = {}, lk_waitQ = [], lk_waiters = (\<lambda>_. None)\<rparr>"

record LockServer =
  retryLock :: bool
  locks :: "string \<Rightarrow> Lock option"
  readers :: u64
  writers :: u64

definition LockServer_new :: "bool \<Rightarrow> LockServer" where
  "LockServer_new retry = \<lparr>retryLock = retry, locks = (\<lambda>_. None), readers = 0, writers = 0\<rparr>"

definition lock_of :: "LockServer \<Rightarrow> string \<Rightarrow> Lock" where
  "lock_of s k = (case locks s k of None \<Rightarrow> Lock_new | Some l \<Rightarrow> l)"

definition put_lock :: "LockServer \<Rightarrow> string \<Rightarrow> Lock \<Rightarrow> LockServer" where
  "put_lock s k l = s\<lparr>locks := (locks s)(k \<mapsto> l)\<rparr>"

section \<open>Operations on one lock\<close>

definition waitForLock :: "Lock \<Rightarrow> u64 \<Rightarrow> bool \<Rightarrow> Lock" where
  "waitForLock l requester w =
     (case lk_waiters l requester of
        Some x \<Rightarrow> l\<lparr>lk_waiters := (lk_waiters l)(requester \<mapsto> (if w then x\<lparr>wt_write := True\<rparr> else x\<lparr>wt_read := True\<rparr>))\<rparr>
      | None \<Rightarrow> l\<lparr>lk_waiters := (lk_waiters l)(requester \<mapsto> Waiter_new w), lk_waitQ := lk_waitQ l @ [requester]\<rparr>)"

definition tryAcquireLock :: "Lock \<Rightarrow> u64 \<Rightarrow> bool \<Rightarrow> (Lock \<times> bool) result" where
  "tryAcquireLock l requester w =
     (case lk_waitQ l of
        [] \<Rightarrow> Inr (l, True)
      | x # q \<Rightarrow>
          if x = requester
          then check (lk_waiters l requester \<noteq> None) AssertFailed
                 (Inr (l\<lparr>lk_waitQ := q, lk_waiters := (lk_waiters l)(requester := None)\<rparr>, True))
          else Inr (waitForLock l requester w, False))"

definition isWriteNext :: "Lock \<Rightarrow> bool result" where
  "isWriteNext l =
     (case lk_waitQ l of
        [] \<Rightarrow> Inr False
      | x # q \<Rightarrow> (case lk_waiters l x of None \<Rightarrow> Inl AssertFailed | Some y \<Rightarrow> Inr (wt_write y)))"

text \<open>The switches of \<^verbatim>\<open>lockForRead\<close> and \<^verbatim>\<open>lockForWrite\<close>: the new lock, what is added to the counter of readers
  or writers, and the result.\<close>

definition read_switch :: "Lock \<Rightarrow> u64 \<Rightarrow> (Lock \<times> u64 \<times> bool) result" where
  "read_switch l requester =
     (case lk_state l of
        UNLOCKED \<Rightarrow>
          rbind (tryAcquireLock l requester False) (\<lambda>(l', got).
            if got then check (lk_holders l' = {}) AssertFailed
                          (Inr (l'\<lparr>lk_state := LOCKED_FOR_READ, lk_holders := insert requester (lk_holders l')\<rparr>, 1, True))
            else Inr (l', 0, False))
      | LOCKED_FOR_READ \<Rightarrow>
          if requester \<in> lk_holders l then Inr (l, 0, True)
          else rbind (isWriteNext l) (\<lambda>wn.
                 if wn then Inr (waitForLock l requester False, 0, False)
                 else Inr (l\<lparr>lk_holders := insert requester (lk_holders l)\<rparr>, 1, True))
      | st \<Rightarrow>
          if requester \<in> lk_holders l
          then Inr (l\<lparr>lk_state := LOCKED_FOR_READ_WRITE\<rparr>, if st = LOCKED_FOR_WRITE then 1 else 0, True)
          else check (card (lk_holders l) = 1) AssertFailed (Inr (waitForLock l requester False, 0, False)))"

definition write_switch :: "Lock \<Rightarrow> u64 \<Rightarrow> (Lock \<times> u64 \<times> bool) result" where
  "write_switch l requester =
     (case lk_state l of
        UNLOCKED \<Rightarrow>
          rbind (tryAcquireLock l requester True) (\<lambda>(l', got).
            if got then check (lk_holders l' = {}) AssertFailed
                          (Inr (l'\<lparr>lk_state := LOCKED_FOR_WRITE, lk_holders := insert requester (lk_holders l')\<rparr>, 1, True))
            else Inr (l', 0, False))
      | LOCKED_FOR_READ \<Rightarrow>
          if card (lk_holders l) = 1 \<and> requester \<in> lk_holders l
          then Inr (l\<lparr>lk_state := LOCKED_FOR_READ_WRITE\<rparr>, 1, True)
          else Inr (waitForLock l requester True, 0, False)
      | _ \<Rightarrow>
          check (card (lk_holders l) = 1) AssertFailed
            (if requester \<in> lk_holders l then Inr (l, 0, True)
             else Inr (waitForLock l requester True, 0, False)))"

section \<open>The server\<close>

definition lockForRead :: "LockServer \<Rightarrow> string \<Rightarrow> u64 \<Rightarrow> (LockServer \<times> bool) result" where
  "lockForRead s k requester =
     rbind (read_switch (lock_of s k) requester) (\<lambda>(l, d, got).
       Inr ((put_lock s k l)\<lparr>readers := readers s + d\<rparr>, got))"

definition lockForWrite :: "LockServer \<Rightarrow> string \<Rightarrow> u64 \<Rightarrow> (LockServer \<times> bool) result" where
  "lockForWrite s k requester =
     rbind (write_switch (lock_of s k) requester) (\<lambda>(l, d, got).
       Inr ((put_lock s k l)\<lparr>writers := writers s + d\<rparr>, got))"

text \<open>One round of the loop of \<^verbatim>\<open>TryAcquireForWaiters\<close> for the front waiter: the new server, the new set of new
  holders and whether the loop goes on.\<close>

definition acquire_for :: "LockServer \<Rightarrow> string \<Rightarrow> u64 \<Rightarrow> Waiter \<Rightarrow> (LockServer \<times> bool) result" where
  "acquire_for s k waiter x =
     rbind (if wt_write x then lockForWrite s k waiter else Inr (s, True)) (\<lambda>(s1, w).
     rbind (if wt_read x then lockForRead s1 k waiter else Inr (s1, True)) (\<lambda>(s2, r). Inr (s2, w \<and> r)))"

definition drop_waiter :: "LockServer \<Rightarrow> string \<Rightarrow> u64 \<Rightarrow> LockServer result" where
  "drop_waiter s k waiter =
     (let l = lock_of s k in
      case lk_waitQ l of
        [] \<Rightarrow> Inl UndefinedBehaviour
      | x # q \<Rightarrow>
          if x = waiter
          then check (lk_waiters l waiter \<noteq> None) AssertFailed
                 (Inr (put_lock s k (l\<lparr>lk_waitQ := q, lk_waiters := (lk_waiters l)(waiter := None)\<rparr>)))
          else Inr s)"

definition waiter_round ::
  "LockServer \<Rightarrow> string \<Rightarrow> u64 set \<Rightarrow> u64 \<Rightarrow> (LockServer \<times> u64 set \<times> bool) result" where
  "waiter_round s k newholders waiter =
     (case lk_waiters (lock_of s k) waiter of
        None \<Rightarrow> Inl AssertFailed
      | Some x \<Rightarrow>
          rbind (acquire_for s k waiter x) (\<lambda>(s1, acquired).
            if acquired
            then rbind (drop_waiter s1 k waiter) (\<lambda>s2. Inr (s2, insert waiter newholders, True))
            else Inr (s1, newholders, False)))"

lemma lock_of_put [simp]: "lock_of (put_lock s k l) j = (if j = k then l else lock_of s j)"
  by (simp add: lock_of_def put_lock_def)

lemma retryLock_put [simp]: "retryLock (put_lock s k l) = retryLock s"
  by (simp add: put_lock_def)

lemma lock_of_counters [simp]:
  "lock_of (s\<lparr>readers := x\<rparr>) k = lock_of s k" "lock_of (s\<lparr>writers := x\<rparr>) k = lock_of s k"
  by (simp_all add: lock_of_def)

lemma waitForLock_holders [simp]:
  "lk_state (waitForLock l r w) = lk_state l" "lk_holders (waitForLock l r w) = lk_holders l"
  by (simp_all add: waitForLock_def split: option.splits)

text \<open>A granted lock leaves the queue as it is or takes the requester from its front.\<close>

lemma read_switch_queue:
  "read_switch l r = Inr (l', d, True) \<Longrightarrow>
     lk_waitQ l' = lk_waitQ l \<or> (lk_waitQ l \<noteq> [] \<and> hd (lk_waitQ l) = r \<and> lk_waitQ l' = tl (lk_waitQ l))"
  by (auto simp: read_switch_def tryAcquireLock_def split: LockState.splits if_splits list.splits)

lemma write_switch_queue:
  "write_switch l r = Inr (l', d, True) \<Longrightarrow>
     lk_waitQ l' = lk_waitQ l \<or> (lk_waitQ l \<noteq> [] \<and> hd (lk_waitQ l) = r \<and> lk_waitQ l' = tl (lk_waitQ l))"
  by (auto simp: write_switch_def tryAcquireLock_def split: LockState.splits if_splits list.splits)

definition popped :: "u64 \<Rightarrow> u64 list \<Rightarrow> u64 list \<Rightarrow> bool" where
  "popped r q q' \<longleftrightarrow> q' = q \<or> (q \<noteq> [] \<and> hd q = r \<and> (\<exists>n>0. q' = drop n q))"

lemma popped_trans: "\<lbrakk> popped r q q'; popped r q' q'' \<rbrakk> \<Longrightarrow> popped r q q''"
  by (auto simp: popped_def)

lemma popped_tl: "q' = q \<or> (q \<noteq> [] \<and> hd q = r \<and> q' = tl q) \<Longrightarrow> popped r q q'"
  by (auto simp: popped_def drop_Suc intro!: exI [of _ "Suc 0"])

lemma popped_rest:
  assumes "popped r (r # q) q'" and "r \<notin> set q" and "q' \<noteq> r # q"
  shows "r \<notin> set q'" "length q' < length (r # q)" "set q' \<subseteq> set q"
proof -
  obtain n where "0 < n" "q' = drop n (r # q)" using assms by (auto simp: popped_def)
  then obtain m where m: "q' = drop m q" by (cases n) auto
  then show "set q' \<subseteq> set q" "length q' < length (r # q)" by (auto simp: set_drop_subset)
  then show "r \<notin> set q'" using assms(2) by blast
qed

lemma lockForRead_popped:
  assumes "lockForRead s k r = Inr (s', True)"
  shows "popped r (lk_waitQ (lock_of s k)) (lk_waitQ (lock_of s' k))"
proof -
  obtain l d where l: "read_switch (lock_of s k) r = Inr (l, d, True)" "lock_of s' k = l"
    using assms by (auto simp: lockForRead_def)
  from read_switch_queue [OF l(1)] show ?thesis unfolding l(2) by (rule popped_tl)
qed

lemma lockForWrite_popped:
  assumes "lockForWrite s k r = Inr (s', True)"
  shows "popped r (lk_waitQ (lock_of s k)) (lk_waitQ (lock_of s' k))"
proof -
  obtain l d where l: "write_switch (lock_of s k) r = Inr (l, d, True)" "lock_of s' k = l"
    using assms by (auto simp: lockForWrite_def)
  from write_switch_queue [OF l(1)] show ?thesis unfolding l(2) by (rule popped_tl)
qed

lemma acquire_for_popped:
  assumes "acquire_for s k r x = Inr (s', True)"
  shows "popped r (lk_waitQ (lock_of s k)) (lk_waitQ (lock_of s' k))"
proof -
  have refl: "popped r q q" for q by (simp add: popped_def)
  show ?thesis
    using assms lockForRead_popped lockForWrite_popped popped_trans refl
    unfolding acquire_for_def by (auto split: if_splits) blast+
qed

lemma waiter_round_shorter:
  assumes q: "lk_waitQ (lock_of s k) = r # q" and run: "waiter_round s k n r = Inr (s', n', True)"
  shows "length (lk_waitQ (lock_of s' k)) < Suc (length q)"
proof -
  obtain x s1 where a: "acquire_for s k r x = Inr (s1, True)" and d: "drop_waiter s1 k r = Inr s'"
    using run by (auto simp: waiter_round_def split: option.splits if_splits)
  have p: "popped r (r # q) (lk_waitQ (lock_of s1 k))" using acquire_for_popped [OF a] q by simp
  show ?thesis
  proof (cases "lk_waitQ (lock_of s1 k) = r # q")
    case True
    then show ?thesis using d by (auto simp: drop_waiter_def Let_def split: if_splits)
  next
    case False
    then obtain n where n: "0 < n" "lk_waitQ (lock_of s1 k) = drop n (r # q)" using p by (auto simp: popped_def)
    then have "length (lk_waitQ (lock_of s1 k)) < Suc (length q)" by simp
    then show ?thesis
      using d by (auto simp: drop_waiter_def Let_def split: list.splits if_splits)
  qed
qed

text \<open>The loop ends: every round that goes on shortens the queue.\<close>

function TryAcquireForWaiters :: "LockServer \<Rightarrow> string \<Rightarrow> u64 set \<Rightarrow> (LockServer \<times> u64 set) result" where
  "TryAcquireForWaiters s k newholders =
     (case lk_waitQ (lock_of s k) of
        [] \<Rightarrow> Inr (s, newholders)
      | waiter # q \<Rightarrow>
          rbind (waiter_round s k newholders waiter) (\<lambda>(s', n', go).
            if go then TryAcquireForWaiters s' k n' else Inr (s', n')))"
  by pat_completeness auto
termination
  by (relation "measure (\<lambda>(s, k, n). length (lk_waitQ (lock_of s k)))")
    (auto dest: waiter_round_shorter)

declare TryAcquireForWaiters.simps [simp del]

definition releaseForRead :: "LockServer \<Rightarrow> string \<Rightarrow> u64 \<Rightarrow> u64 set \<Rightarrow> (LockServer \<times> u64 set) result" where
  "releaseForRead s k holder newholders =
     (case locks s k of
        None \<Rightarrow> Inr (s, newholders)
      | Some l \<Rightarrow>
          if holder \<notin> lk_holders l then Inr (s, newholders)
          else (case lk_state l of
              LOCKED_FOR_READ \<Rightarrow>
                let l1 = l\<lparr>lk_holders := lk_holders l - {holder}\<rparr>;
                    s1 = s\<lparr>readers := readers s - 1\<rparr>
                in if lk_holders l1 = {}
                   then let s2 = put_lock s1 k (l1\<lparr>lk_state := UNLOCKED\<rparr>)
                        in if \<not> retryLock s2 then TryAcquireForWaiters s2 k newholders else Inr (s2, newholders)
                   else Inr (put_lock s1 k l1, newholders)
            | LOCKED_FOR_READ_WRITE \<Rightarrow>
                Inr (put_lock (s\<lparr>readers := readers s - 1\<rparr>) k (l\<lparr>lk_state := LOCKED_FOR_WRITE\<rparr>), newholders)
            | _ \<Rightarrow> Inr (s, newholders)))"

definition releaseForWrite :: "LockServer \<Rightarrow> string \<Rightarrow> u64 \<Rightarrow> u64 set \<Rightarrow> (LockServer \<times> u64 set) result" where
  "releaseForWrite s k holder newholders =
     (case locks s k of
        None \<Rightarrow> Inr (s, newholders)
      | Some l \<Rightarrow>
          if holder \<notin> lk_holders l then Inr (s, newholders)
          else
            let wake = (\<lambda>s2. if \<not> retryLock s2 then TryAcquireForWaiters s2 k newholders else Inr (s2, newholders));
                s1 = s\<lparr>writers := writers s - 1\<rparr>
            in (case lk_state l of
                LOCKED_FOR_WRITE \<Rightarrow>
                  let l1 = l\<lparr>lk_holders := lk_holders l - {holder}\<rparr>
                  in check (lk_holders l1 = {}) AssertFailed (wake (put_lock s1 k (l1\<lparr>lk_state := UNLOCKED\<rparr>)))
              | LOCKED_FOR_READ_WRITE \<Rightarrow>
                  check (card (lk_holders l) = 1) AssertFailed (wake (put_lock s1 k (l\<lparr>lk_state := LOCKED_FOR_READ\<rparr>)))
              | _ \<Rightarrow> Inr (s, newholders)))"

text \<open>The calls a transaction server makes, as events.\<close>

datatype lock_call =
    LockForRead string u64
  | LockForWrite string u64
  | ReleaseForRead string u64
  | ReleaseForWrite string u64

definition lock_step :: "LockServer \<Rightarrow> lock_call \<Rightarrow> LockServer result" where
  "lock_step s c =
     (case c of
        LockForRead k r \<Rightarrow> rbind (lockForRead s k r) (\<lambda>(s', _). Inr s')
      | LockForWrite k r \<Rightarrow> rbind (lockForWrite s k r) (\<lambda>(s', _). Inr s')
      | ReleaseForRead k r \<Rightarrow> rbind (releaseForRead s k r {}) (\<lambda>(s', _). Inr s')
      | ReleaseForWrite k r \<Rightarrow> rbind (releaseForWrite s k r {}) (\<lambda>(s', _). Inr s'))"

section \<open>The invariant of a lock\<close>

text \<open>Nobody holds an unlocked lock, exactly one transaction holds a lock that is locked for writing, and the queue
  lists the waiters once each, each waiting for something.\<close>

definition lock_ok :: "Lock \<Rightarrow> bool" where
  "lock_ok l \<longleftrightarrow>
     (lk_state l = UNLOCKED \<longleftrightarrow> lk_holders l = {}) \<and>
     (lk_state l \<in> {LOCKED_FOR_WRITE, LOCKED_FOR_READ_WRITE} \<longrightarrow> (\<exists>h. lk_holders l = {h})) \<and>
     distinct (lk_waitQ l) \<and> set (lk_waitQ l) = dom (lk_waiters l) \<and>
     (\<forall>r x. lk_waiters l r = Some x \<longrightarrow> wt_read x \<or> wt_write x)"

definition read_held :: "Lock \<Rightarrow> u64 set" where
  "read_held l = (if lk_state l \<in> {LOCKED_FOR_READ, LOCKED_FOR_READ_WRITE} then lk_holders l else {})"

definition write_held :: "Lock \<Rightarrow> u64 set" where
  "write_held l = (if lk_state l \<in> {LOCKED_FOR_WRITE, LOCKED_FOR_READ_WRITE} then lk_holders l else {})"

lemma lock_ok_new: "lock_ok Lock_new"
  by (simp add: lock_ok_def Lock_new_def)

lemma waitForLock_ok: "lock_ok l \<Longrightarrow> lock_ok (waitForLock l r w)"
  by (auto simp: lock_ok_def waitForLock_def Waiter_new_def domI split: option.splits if_splits)

lemma waitForLock_held [simp]:
  "read_held (waitForLock l r w) = read_held l" "write_held (waitForLock l r w) = write_held l"
  by (simp_all add: read_held_def write_held_def)

lemma held_finite [simp]: "finite (read_held l)" "finite (write_held l)"
  by (simp_all add: read_held_def write_held_def)

lemma tryAcquireLock_ok:
  assumes ok: "lock_ok l"
  shows "\<exists>l' got. tryAcquireLock l r w = Inr (l', got) \<and> lock_ok l' \<and> lk_state l' = lk_state l \<and>
     lk_holders l' = lk_holders l \<and> (got \<longleftrightarrow> lk_waitQ l = [] \<or> hd (lk_waitQ l) = r)"
proof (cases "lk_waitQ l")
  case Nil
  then show ?thesis using ok by (auto simp: tryAcquireLock_def)
next
  case (Cons x q)
  have x: "lk_waiters l x \<noteq> None" using ok Cons by (auto simp: lock_ok_def)
  show ?thesis
  proof (cases "x = r")
    case True
    have "lock_ok (l\<lparr>lk_waitQ := q, lk_waiters := (lk_waiters l)(r := None)\<rparr>)"
      using ok Cons True by (auto simp: lock_ok_def)
    then show ?thesis using Cons True x by (auto simp: tryAcquireLock_def)
  next
    case False
    then show ?thesis using Cons waitForLock_ok [OF ok] by (auto simp: tryAcquireLock_def)
  qed
qed

text \<open>What a lock promises its clients, for reads and for writes.\<close>

lemma read_switch_spec:
  assumes ok: "lock_ok l"
  shows "\<exists>l' d got. read_switch l r = Inr (l', d, got) \<and> lock_ok l' \<and> write_held l' = write_held l \<and>
     read_held l' = (if got then insert r (read_held l) else read_held l) \<and>
     (got \<longrightarrow> write_held l \<subseteq> {r}) \<and> word_of_nat (card (read_held l')) = word_of_nat (card (read_held l)) + d"
proof (cases "lk_state l")
  case UNLOCKED
  then have h: "lk_holders l = {}" using ok by (simp add: lock_ok_def)
  obtain l' got where t: "tryAcquireLock l r False = Inr (l', got)" "lock_ok l'" "lk_state l' = UNLOCKED" "lk_holders l' = {}"
    using tryAcquireLock_ok [OF ok, of r False] UNLOCKED h by auto
  show ?thesis
    using UNLOCKED h t by (cases got) (auto simp: read_switch_def lock_ok_def read_held_def write_held_def)
next
  case LOCKED_FOR_READ
  then have h: "lk_holders l \<noteq> {}" using ok by (auto simp: lock_ok_def)
  have "\<exists>b. isWriteNext l = Inr b"
    using ok by (cases "lk_waitQ l") (auto simp: isWriteNext_def lock_ok_def split: option.splits)
  then obtain b where b: "isWriteNext l = Inr b" by blast
  have "lock_ok (l\<lparr>lk_holders := insert r (lk_holders l)\<rparr>)" using ok LOCKED_FOR_READ by (auto simp: lock_ok_def)
  then show ?thesis
    using LOCKED_FOR_READ b ok waitForLock_ok [OF ok, of r False]
    by (cases "r \<in> lk_holders l"; cases b)
      (auto simp: read_switch_def read_held_def write_held_def insert_absorb)
next
  case LOCKED_FOR_WRITE
  then obtain h where h: "lk_holders l = {h}" using ok by (auto simp: lock_ok_def)
  show ?thesis
    using LOCKED_FOR_WRITE h ok waitForLock_ok [OF ok, of r False]
    by (cases "r = h") (auto simp: read_switch_def lock_ok_def read_held_def write_held_def)
next
  case LOCKED_FOR_READ_WRITE
  then obtain h where h: "lk_holders l = {h}" using ok by (auto simp: lock_ok_def)
  show ?thesis
    using LOCKED_FOR_READ_WRITE h ok waitForLock_ok [OF ok, of r False]
    by (cases "r = h") (auto simp: read_switch_def lock_ok_def read_held_def write_held_def)
qed

lemma write_switch_spec:
  assumes ok: "lock_ok l"
  shows "\<exists>l' d got. write_switch l r = Inr (l', d, got) \<and> lock_ok l' \<and> read_held l' = read_held l \<and>
     write_held l' = (if got then {r} else write_held l) \<and>
     (got \<longrightarrow> read_held l \<union> write_held l \<subseteq> {r}) \<and>
     word_of_nat (card (write_held l')) = word_of_nat (card (write_held l)) + d"
proof (cases "lk_state l")
  case UNLOCKED
  then have h: "lk_holders l = {}" using ok by (simp add: lock_ok_def)
  obtain l' got where t: "tryAcquireLock l r True = Inr (l', got)" "lock_ok l'" "lk_state l' = UNLOCKED" "lk_holders l' = {}"
    using tryAcquireLock_ok [OF ok, of r True] UNLOCKED h by auto
  show ?thesis
    using UNLOCKED h t by (cases got) (auto simp: write_switch_def lock_ok_def read_held_def write_held_def)
next
  case LOCKED_FOR_READ
  show ?thesis
  proof (cases "card (lk_holders l) = 1 \<and> r \<in> lk_holders l")
    case True
    then have "lk_holders l = {r}" by (auto simp: card_1_singleton_iff)
    then show ?thesis
      using LOCKED_FOR_READ True ok by (auto simp: write_switch_def lock_ok_def read_held_def write_held_def)
  next
    case False
    then have "write_switch l r = Inr (waitForLock l r True, 0, False)"
      using LOCKED_FOR_READ unfolding write_switch_def by (simp only: LockState.case if_False)
    then show ?thesis using waitForLock_ok [OF ok, of r True] by auto
  qed
next
  case LOCKED_FOR_WRITE
  then obtain h where h: "lk_holders l = {h}" using ok by (auto simp: lock_ok_def)
  show ?thesis
    using LOCKED_FOR_WRITE h ok waitForLock_ok [OF ok, of r True]
    by (cases "r = h") (auto simp: write_switch_def lock_ok_def read_held_def write_held_def)
next
  case LOCKED_FOR_READ_WRITE
  then obtain h where h: "lk_holders l = {h}" using ok by (auto simp: lock_ok_def)
  show ?thesis
    using LOCKED_FOR_READ_WRITE h ok waitForLock_ok [OF ok, of r True]
    by (cases "r = h") (auto simp: write_switch_def lock_ok_def read_held_def write_held_def)
qed

section \<open>The invariant of the server\<close>

text \<open>Every lock is well formed, and the counters count the transactions that hold some lock for reading and for
  writing, modulo the width of the counter.\<close>

definition held_sum :: "(Lock \<Rightarrow> u64 set) \<Rightarrow> LockServer \<Rightarrow> nat" where
  "held_sum f s = (\<Sum>k\<in>dom (locks s). card (f (lock_of s k)))"

definition server_ok :: "LockServer \<Rightarrow> bool" where
  "server_ok s \<longleftrightarrow>
     (\<forall>k. lock_ok (lock_of s k)) \<and> finite (dom (locks s)) \<and>
     readers s = word_of_nat (held_sum read_held s) \<and> writers s = word_of_nat (held_sum write_held s)"

lemma held_new [simp]: "read_held Lock_new = {}" "write_held Lock_new = {}"
  by (simp_all add: read_held_def write_held_def Lock_new_def)

lemma held_sum_counters [simp]:
  "held_sum f (s\<lparr>readers := x\<rparr>) = held_sum f s" "held_sum f (s\<lparr>writers := x\<rparr>) = held_sum f s"
  by (simp_all add: held_sum_def)

lemma held_sum_put:
  assumes fin: "finite (dom (locks s))" and new: "f Lock_new = {}"
  shows "held_sum f (put_lock s k l) + card (f (lock_of s k)) = held_sum f s + card (f l)"
proof -
  let ?D = "dom (locks s)"
  have d: "dom (locks (put_lock s k l)) = insert k ?D" by (auto simp: put_lock_def)
  have rest: "(\<Sum>j\<in>?D - {k}. card (f (lock_of (put_lock s k l) j))) = (\<Sum>j\<in>?D - {k}. card (f (lock_of s j)))"
    by (intro sum.cong) auto
  have "held_sum f (put_lock s k l) = card (f l) + (\<Sum>j\<in>?D - {k}. card (f (lock_of s j)))"
    unfolding held_sum_def d sum.insert_remove [OF fin] rest by simp
  moreover have "held_sum f s = card (f (lock_of s k)) + (\<Sum>j\<in>?D - {k}. card (f (lock_of s j)))"
  proof (cases "k \<in> ?D")
    case True
    then show ?thesis unfolding held_sum_def by (simp add: sum.remove [OF fin True])
  next
    case False
    then have "lock_of s k = Lock_new" by (simp add: lock_of_def domIff)
    then show ?thesis using False new by (simp add: held_sum_def)
  qed
  ultimately show ?thesis by simp
qed

lemma held_word_put:
  fixes d :: u64
  assumes "finite (dom (locks s))" and "f Lock_new = {}"
    and "word_of_nat (card (f l)) = word_of_nat (card (f (lock_of s k))) + d"
  shows "(word_of_nat (held_sum f (put_lock s k l)) :: u64) = word_of_nat (held_sum f s) + d"
proof -
  have "(word_of_nat (held_sum f (put_lock s k l) + card (f (lock_of s k))) :: u64) =
      word_of_nat (held_sum f s + card (f l))"
    using held_sum_put [where f = f and k = k and l = l, OF assms(1,2)] by simp
  then show ?thesis using assms(3) by (simp add: algebra_simps)
qed

lemma server_ok_put:
  assumes ok: "server_ok s" and l: "lock_ok l"
    and r: "word_of_nat (card (read_held l)) = word_of_nat (card (read_held (lock_of s k))) + dr"
    and w: "word_of_nat (card (write_held l)) = word_of_nat (card (write_held (lock_of s k))) + dw"
  shows "server_ok ((put_lock s k l)\<lparr>readers := readers s + dr, writers := writers s + dw\<rparr>)"
proof -
  have fin: "finite (dom (locks s))" using ok by (simp add: server_ok_def)
  have "finite (dom (locks (put_lock s k l)))" using fin by (simp add: put_lock_def)
  then show ?thesis
    using ok l held_word_put [where f = read_held, OF fin _ r] held_word_put [where f = write_held, OF fin _ w]
    by (simp add: server_ok_def)
qed

text \<open>A call that asks for a lock.\<close>

lemma lockForRead_spec:
  assumes ok: "server_ok s"
  shows "\<exists>s' got. lockForRead s k r = Inr (s', got) \<and> server_ok s' \<and> retryLock s' = retryLock s \<and>
     (\<forall>j. j \<noteq> k \<longrightarrow> lock_of s' j = lock_of s j) \<and> write_held (lock_of s' k) = write_held (lock_of s k) \<and>
     read_held (lock_of s' k) = (if got then insert r (read_held (lock_of s k)) else read_held (lock_of s k)) \<and>
     (got \<longrightarrow> write_held (lock_of s k) \<subseteq> {r})"
proof -
  have l: "lock_ok (lock_of s k)" using ok by (simp add: server_ok_def)
  obtain l' d got where S: "read_switch (lock_of s k) r = Inr (l', d, got)" "lock_ok l'"
    "write_held l' = write_held (lock_of s k)"
    "read_held l' = (if got then insert r (read_held (lock_of s k)) else read_held (lock_of s k))"
    "got \<longrightarrow> write_held (lock_of s k) \<subseteq> {r}"
    "word_of_nat (card (read_held l')) = word_of_nat (card (read_held (lock_of s k))) + d"
    using read_switch_spec [OF l, of r] by (elim exE conjE)
  have "server_ok ((put_lock s k l')\<lparr>readers := readers s + d, writers := writers s + 0\<rparr>)"
    using S by (intro server_ok_put [OF ok]) simp_all
  moreover have "(put_lock s k l')\<lparr>readers := readers s + d, writers := writers s + 0\<rparr> = (put_lock s k l')\<lparr>readers := readers s + d\<rparr>"
    by (simp add: put_lock_def)
  ultimately show ?thesis
    using S by (intro exI [of _ "(put_lock s k l')\<lparr>readers := readers s + d\<rparr>"] exI [of _ got])
      (simp add: lockForRead_def)
qed

lemma lockForWrite_spec:
  assumes ok: "server_ok s"
  shows "\<exists>s' got. lockForWrite s k r = Inr (s', got) \<and> server_ok s' \<and> retryLock s' = retryLock s \<and>
     (\<forall>j. j \<noteq> k \<longrightarrow> lock_of s' j = lock_of s j) \<and> read_held (lock_of s' k) = read_held (lock_of s k) \<and>
     write_held (lock_of s' k) = (if got then {r} else write_held (lock_of s k)) \<and>
     (got \<longrightarrow> read_held (lock_of s k) \<union> write_held (lock_of s k) \<subseteq> {r})"
proof -
  have l: "lock_ok (lock_of s k)" using ok by (simp add: server_ok_def)
  obtain l' d got where S: "write_switch (lock_of s k) r = Inr (l', d, got)" "lock_ok l'"
    "read_held l' = read_held (lock_of s k)"
    "write_held l' = (if got then {r} else write_held (lock_of s k))"
    "got \<longrightarrow> read_held (lock_of s k) \<union> write_held (lock_of s k) \<subseteq> {r}"
    "word_of_nat (card (write_held l')) = word_of_nat (card (write_held (lock_of s k))) + d"
    using write_switch_spec [OF l, of r] by (elim exE conjE)
  have "server_ok ((put_lock s k l')\<lparr>readers := readers s + 0, writers := writers s + d\<rparr>)"
    using S by (intro server_ok_put [OF ok]) simp_all
  moreover have "(put_lock s k l')\<lparr>readers := readers s + 0, writers := writers s + d\<rparr> = (put_lock s k l')\<lparr>writers := writers s + d\<rparr>"
    by (simp add: put_lock_def)
  ultimately show ?thesis
    using S by (intro exI [of _ "(put_lock s k l')\<lparr>writers := writers s + d\<rparr>"] exI [of _ got])
      (simp add: lockForWrite_def)
qed

section \<open>Waking up the waiters\<close>

text \<open>What waking up may do to a server: other locks stay, nobody loses a lock.\<close>

definition wakes :: "string \<Rightarrow> LockServer \<Rightarrow> LockServer \<Rightarrow> bool" where
  "wakes k s s' \<longleftrightarrow>
     retryLock s' = retryLock s \<and> (\<forall>j. j \<noteq> k \<longrightarrow> lock_of s' j = lock_of s j) \<and>
     read_held (lock_of s k) \<subseteq> read_held (lock_of s' k) \<and> write_held (lock_of s k) \<subseteq> write_held (lock_of s' k)"

lemma wakes_refl [simp]: "wakes k s s"
  by (simp add: wakes_def)

lemma wakes_trans: "\<lbrakk> wakes k s t; wakes k t u \<rbrakk> \<Longrightarrow> wakes k s u"
  by (auto simp: wakes_def)

lemma lockForRead_wakes:
  assumes "server_ok s"
  shows "\<exists>s' got. lockForRead s k r = Inr (s', got) \<and> server_ok s' \<and> wakes k s s' \<and>
     (got \<longrightarrow> r \<in> read_held (lock_of s' k))"
  using lockForRead_spec [OF assms, of k r] by (elim exE conjE) (auto simp: wakes_def)

lemma lockForWrite_wakes:
  assumes "server_ok s"
  shows "\<exists>s' got. lockForWrite s k r = Inr (s', got) \<and> server_ok s' \<and> wakes k s s' \<and>
     (got \<longrightarrow> r \<in> write_held (lock_of s' k))"
  using lockForWrite_spec [OF assms, of k r] by (elim exE conjE) (auto simp: wakes_def split: if_splits)

lemma acquire_for_spec:
  assumes ok: "server_ok s"
  shows "\<exists>s' got. acquire_for s k r x = Inr (s', got) \<and> server_ok s' \<and> wakes k s s' \<and>
     (got \<longrightarrow> (wt_write x \<longrightarrow> r \<in> write_held (lock_of s' k)) \<and> (wt_read x \<longrightarrow> r \<in> read_held (lock_of s' k)))"
proof -
  obtain s1 w where s1: "(if wt_write x then lockForWrite s k r else Inr (s, True)) = Inr (s1, w)" "server_ok s1"
    "wakes k s s1" "wt_write x \<and> w \<longrightarrow> r \<in> write_held (lock_of s1 k)"
    using lockForWrite_wakes [OF ok, of k r] ok by (cases "wt_write x") auto
  obtain s2 g where s2: "(if wt_read x then lockForRead s1 k r else Inr (s1, True)) = Inr (s2, g)" "server_ok s2"
    "wakes k s1 s2" "wt_read x \<and> g \<longrightarrow> r \<in> read_held (lock_of s2 k)"
    using lockForRead_wakes [OF s1(2), of k r] s1(2) by (cases "wt_read x") auto
  have "acquire_for s k r x = Inr (s2, w \<and> g)" using s1(1) s2(1) by (simp add: acquire_for_def)
  moreover have "wakes k s s2" using s1(3) s2(3) by (rule wakes_trans)
  moreover have "wt_write x \<and> w \<longrightarrow> r \<in> write_held (lock_of s2 k)"
    using s1(4) s2(3) by (auto simp: wakes_def)
  ultimately show ?thesis using s2 by blast
qed

lemma drop_waiter_spec:
  assumes ok: "server_ok s" and q: "popped r (r # q) (lk_waitQ (lock_of s k))" and d: "r \<notin> set q"
  shows "ends False (drop_waiter s k r) (\<lambda>s'. server_ok s' \<and> wakes k s s' \<and>
     lk_holders (lock_of s' k) = lk_holders (lock_of s k) \<and> r \<notin> set (lk_waitQ (lock_of s' k)) \<and>
     set (lk_waitQ (lock_of s' k)) \<subseteq> set q)"
proof -
  let ?l = "lock_of s k"
  have l: "lock_ok ?l" using ok by (simp add: server_ok_def)
  show ?thesis
  proof (cases "lk_waitQ ?l = r # q")
    case True
    let ?l' = "?l\<lparr>lk_waitQ := q, lk_waiters := (lk_waiters ?l)(r := None)\<rparr>"
    have held: "read_held ?l' = read_held ?l" "write_held ?l' = write_held ?l"
      by (simp_all add: read_held_def write_held_def)
    have w: "lk_waiters ?l r \<noteq> None" using l True by (auto simp: lock_ok_def)
    have "lock_ok ?l'" using l True d by (auto simp: lock_ok_def)
    then have "server_ok ((put_lock s k ?l')\<lparr>readers := readers s + 0, writers := writers s + 0\<rparr>)"
      by (intro server_ok_put [OF ok]) (simp_all add: held)
    moreover have "(put_lock s k ?l')\<lparr>readers := readers s + 0, writers := writers s + 0\<rparr> = put_lock s k ?l'"
      by (simp add: put_lock_def)
    moreover have "drop_waiter s k r = Inr (put_lock s k ?l')"
      using True w by (auto simp: drop_waiter_def Let_def)
    ultimately show ?thesis using d by (auto simp: wakes_def held)
  next
    case False
    note P = popped_rest [OF q d False]
    have "drop_waiter s k r \<in> {Inr s, Inl UndefinedBehaviour}"
      using P(1) by (cases "lk_waitQ ?l") (auto simp: drop_waiter_def Let_def)
    then show ?thesis using ok P(1,3) by auto
  qed
qed

lemma front_waiter:
  assumes "lock_ok l" and "lk_waitQ l = r # q"
  shows "r \<notin> set q" and "\<exists>x. lk_waiters l r = Some x \<and> (wt_read x \<or> wt_write x)"
proof -
  have "distinct (r # q)" "r \<in> dom (lk_waiters l)" "\<And>x. lk_waiters l r = Some x \<Longrightarrow> wt_read x \<or> wt_write x"
    using assms by (auto simp: lock_ok_def)
  then show "r \<notin> set q" "\<exists>x. lk_waiters l r = Some x \<and> (wt_read x \<or> wt_write x)" by auto
qed

lemma waiter_round_spec:
  assumes ok: "server_ok s" and q: "lk_waitQ (lock_of s k) = r # q"
  shows "ends False (waiter_round s k n r) (\<lambda>(s', n', go). n' = (if go then insert r n else n) \<and> server_ok s' \<and> wakes k s s' \<and>
     (go \<longrightarrow> r \<in> lk_holders (lock_of s' k) \<and> r \<notin> set (lk_waitQ (lock_of s' k)) \<and> set (lk_waitQ (lock_of s' k)) \<subseteq> set q))"
proof -
  let ?Q = "\<lambda>(s', n', go). n' = (if go then insert r n else n) \<and> server_ok s' \<and> wakes k s s' \<and>
     (go \<longrightarrow> r \<in> lk_holders (lock_of s' k) \<and> r \<notin> set (lk_waitQ (lock_of s' k)) \<and> set (lk_waitQ (lock_of s' k)) \<subseteq> set q)"
  have l: "lock_ok (lock_of s k)" using ok by (simp add: server_ok_def)
  note d = front_waiter(1) [OF l q]
  obtain x where x: "lk_waiters (lock_of s k) r = Some x" "wt_read x \<or> wt_write x" using front_waiter(2) [OF l q] by blast
  obtain s1 got where s1: "acquire_for s k r x = Inr (s1, got)" "server_ok s1" "wakes k s s1"
    "got \<longrightarrow> (wt_write x \<longrightarrow> r \<in> write_held (lock_of s1 k)) \<and> (wt_read x \<longrightarrow> r \<in> read_held (lock_of s1 k))"
    using acquire_for_spec [OF ok, of k r x] by blast
  show ?thesis
  proof (cases got)
    case False
    then show ?thesis using x s1 by (simp add: waiter_round_def)
  next
    case True
    have h: "r \<in> lk_holders (lock_of s1 k)"
      using s1(4) True x(2) by (auto simp: read_held_def write_held_def split: if_splits)
    have "popped r (r # q) (lk_waitQ (lock_of s1 k))" using acquire_for_popped s1(1) True q by metis
    note D = drop_waiter_spec [OF s1(2) this d]
    have "ends False (rbind (drop_waiter s1 k r) (\<lambda>s2. Inr (s2, insert r n, True))) ?Q"
      by (rule ends_rbind [OF D]) (use h wakes_trans [OF s1(3)] in auto)
    then show ?thesis using True x s1(1) by (simp add: waiter_round_def)
  qed
qed

lemma TryAcquireForWaiters_spec:
  assumes "server_ok s"
  shows "ends (lk_waitQ (lock_of s k) = []) (TryAcquireForWaiters s k n) (\<lambda>(s', n'). server_ok s' \<and> wakes k s s' \<and>
     n \<subseteq> n' \<and> n' - n \<subseteq> set (lk_waitQ (lock_of s k)) \<inter> lk_holders (lock_of s' k))"
  using assms
proof (induction s k n rule: TryAcquireForWaiters.induct)
  case (1 s k n)
  show ?case
  proof (cases "lk_waitQ (lock_of s k)")
    case Nil
    then show ?thesis using "1.prems" by (simp add: TryAcquireForWaiters.simps [of s])
  next
    case (Cons r q)
    let ?Q = "\<lambda>(s', n'). server_ok s' \<and> wakes k s s' \<and> n \<subseteq> n' \<and> n' - n \<subseteq> set (r # q) \<inter> lk_holders (lock_of s' k)"
    have "ends False (if go then TryAcquireForWaiters t k m else Inr (t, m)) ?Q"
      if t: "waiter_round s k n r = Inr (t, m, go)" "m = (if go then insert r n else n)" "server_ok t" "wakes k s t"
        "go \<longrightarrow> r \<in> lk_holders (lock_of t k) \<and> r \<notin> set (lk_waitQ (lock_of t k)) \<and> set (lk_waitQ (lock_of t k)) \<subseteq> set q"
      for t m go
    proof (cases go)
      case False
      then show ?thesis using t by simp
    next
      case True
      have lt: "lock_ok (lock_of t k)" using t(3) by (simp add: server_ok_def)
      have held: "r \<in> read_held (lock_of t k) \<union> write_held (lock_of t k)"
        using lt t(5) True by (cases "lk_state (lock_of t k)") (auto simp: lock_ok_def read_held_def write_held_def)
      have keep: "r \<in> lk_holders (lock_of u k)" if "wakes k t u" for u
        using that held by (auto simp: wakes_def read_held_def write_held_def split: if_splits)
      have "ends False (TryAcquireForWaiters t k m) ?Q"
      proof (rule ends_mono)
        show "ends (lk_waitQ (lock_of t k) = []) (TryAcquireForWaiters t k m) (\<lambda>(s', n'). server_ok s' \<and> wakes k t s' \<and>
            m \<subseteq> n' \<and> n' - m \<subseteq> set (lk_waitQ (lock_of t k)) \<inter> lk_holders (lock_of s' k))"
          using "1.IH" [OF Cons t(1) refl refl True t(3)] .
        show "?Q y" if "case y of (s', n') \<Rightarrow> server_ok s' \<and> wakes k t s' \<and>
            m \<subseteq> n' \<and> n' - m \<subseteq> set (lk_waitQ (lock_of t k)) \<inter> lk_holders (lock_of s' k)" for y
          using that keep wakes_trans [OF t(4)] t(2,5) True by (cases y) auto
      qed simp
      then show ?thesis using True by simp
    qed
    note rest = this
    have "ends False (rbind (waiter_round s k n r) (\<lambda>(s', n', go). if go then TryAcquireForWaiters s' k n' else Inr (s', n'))) ?Q"
      by (rule ends_rbind [OF waiter_round_spec [OF "1.prems" Cons]]) (clarsimp simp only: rest split: prod.splits)
    then show ?thesis using Cons by (simp add: TryAcquireForWaiters.simps [of s])
  qed
qed

text \<open>A release first gives up one lock and then may wake waiters up.\<close>

definition gives_up :: "string \<Rightarrow> u64 \<Rightarrow> LockServer \<Rightarrow> LockServer \<Rightarrow> bool" where
  "gives_up k h s s' \<longleftrightarrow>
     retryLock s' = retryLock s \<and> (\<forall>j. j \<noteq> k \<longrightarrow> lock_of s' j = lock_of s j) \<and>
     read_held (lock_of s k) - {h} \<subseteq> read_held (lock_of s' k) \<and>
     write_held (lock_of s k) - {h} \<subseteq> write_held (lock_of s' k)"

lemma wake_spec:
  assumes ok: "server_ok t" and g: "gives_up k h s t"
  shows "ends (retryLock t \<or> lk_waitQ (lock_of t k) = [])
     (if \<not> retryLock t then TryAcquireForWaiters t k n else Inr (t, n)) (\<lambda>(s', n'). server_ok s' \<and> gives_up k h s s')"
proof (cases "retryLock t")
  case True
  then show ?thesis using assms by simp
next
  case False
  have "ends (lk_waitQ (lock_of t k) = []) (TryAcquireForWaiters t k n) (\<lambda>(s', n'). server_ok s' \<and> gives_up k h s s')"
    by (rule ends_mono [OF TryAcquireForWaiters_spec [OF ok, of k n]]) (use g in \<open>auto simp: gives_up_def wakes_def\<close>)
  then show ?thesis using False by simp
qed

lemma server_ok_release:
  assumes ok: "server_ok s" and l: "lock_ok l"
    and r: "word_of_nat (card (read_held (lock_of s k))) = word_of_nat (card (read_held l)) + dr"
    and w: "word_of_nat (card (write_held (lock_of s k))) = word_of_nat (card (write_held l)) + dw"
  shows "server_ok ((put_lock s k l)\<lparr>readers := readers s - dr, writers := writers s - dw\<rparr>)"
  using server_ok_put [OF ok l, of k "- dr" "- dw"] r w by simp

text \<open>The lock a release leaves before it wakes anybody up.\<close>

definition read_released :: "Lock \<Rightarrow> u64 \<Rightarrow> Lock" where
  "read_released l h = (if lk_holders l - {h} = {} then l\<lparr>lk_holders := lk_holders l - {h}, lk_state := UNLOCKED\<rparr>
     else l\<lparr>lk_holders := lk_holders l - {h}\<rparr>)"

definition write_released :: "Lock \<Rightarrow> Lock" where
  "write_released l = (if lk_state l = LOCKED_FOR_WRITE then l\<lparr>lk_holders := {}, lk_state := UNLOCKED\<rparr>
     else l\<lparr>lk_state := LOCKED_FOR_READ\<rparr>)"

lemma read_released_held:
  assumes "lk_state l = LOCKED_FOR_READ"
  shows "read_held l = lk_holders l" "write_held l = {}"
    "read_held (read_released l h) = lk_holders l - {h}" "write_held (read_released l h) = {}"
  using assms by (auto simp: read_released_def read_held_def write_held_def)

lemma put_lock_counters:
  "(put_lock s k l)\<lparr>readers := a, writers := writers s - 0\<rparr> = put_lock (s\<lparr>readers := a\<rparr>) k l"
  "(put_lock s k l)\<lparr>readers := readers s - 0, writers := a\<rparr> = put_lock (s\<lparr>writers := a\<rparr>) k l"
  by (simp_all add: put_lock_def)

lemma read_released_ok:
  assumes ok: "server_ok s" and l: "lock_of s k = l" "lk_state l = LOCKED_FOR_READ" "h \<in> lk_holders l"
  shows "server_ok (put_lock (s\<lparr>readers := readers s - 1\<rparr>) k (read_released l h))"
proof -
  have "card (lk_holders l) = Suc (card (lk_holders l - {h}))"
    using l(3) by (metis card_Suc_Diff1 finite)
  then have c: "word_of_nat (card (lk_holders l)) = (word_of_nat (card (lk_holders l - {h})) + 1 :: u64)"
    by (simp only: of_nat_Suc add.commute)
  have "lock_ok l" using ok l(1) by (auto simp: server_ok_def)
  then have "lock_ok (read_released l h)" using l(2) by (auto simp: read_released_def lock_ok_def)
  then have "server_ok ((put_lock s k (read_released l h))\<lparr>readers := readers s - 1, writers := writers s - 0\<rparr>)"
    using c by (intro server_ok_release [OF ok]) (simp_all add: l(1) read_released_held [OF l(2)])
  then show ?thesis unfolding put_lock_counters .
qed

lemma write_released_ok:
  assumes ok: "server_ok s" and l: "lock_of s k = l" "lk_state l \<in> {LOCKED_FOR_WRITE, LOCKED_FOR_READ_WRITE}"
  shows "server_ok (put_lock (s\<lparr>writers := writers s - 1\<rparr>) k (write_released l))"
proof -
  have lo: "lock_ok l" using ok l(1) by (auto simp: server_ok_def)
  then obtain h where h: "lk_holders l = {h}" using l(2) by (auto simp: lock_ok_def)
  have "lock_ok (write_released l)" using lo l(2) by (auto simp: write_released_def lock_ok_def)
  then have "server_ok ((put_lock s k (write_released l))\<lparr>readers := readers s - 0, writers := writers s - 1\<rparr>)"
    using l(2) h by (intro server_ok_release [OF ok]) (auto simp: l(1) write_released_def read_held_def write_held_def)
  then show ?thesis unfolding put_lock_counters .
qed

lemma mode_released_ok:
  assumes ok: "server_ok s" and l: "lock_of s k = l" "lk_state l = LOCKED_FOR_READ_WRITE"
  shows "server_ok (put_lock (s\<lparr>readers := readers s - 1\<rparr>) k (l\<lparr>lk_state := LOCKED_FOR_WRITE\<rparr>))"
proof -
  have lo: "lock_ok l" using ok l(1) by (auto simp: server_ok_def)
  then obtain h where h: "lk_holders l = {h}" using l(2) by (auto simp: lock_ok_def)
  have "lock_ok (l\<lparr>lk_state := LOCKED_FOR_WRITE\<rparr>)" using lo l(2) by (auto simp: lock_ok_def)
  then have "server_ok ((put_lock s k (l\<lparr>lk_state := LOCKED_FOR_WRITE\<rparr>))\<lparr>readers := readers s - 1, writers := writers s - 0\<rparr>)"
    using l(2) h by (intro server_ok_release [OF ok]) (simp_all add: l(1) read_held_def write_held_def)
  then show ?thesis unfolding put_lock_counters .
qed

text \<open>A release by cases.\<close>

lemma releaseForRead_cases:
  assumes "locks s k = Some l"
  shows "releaseForRead s k h n =
    (if h \<in> lk_holders l \<and> lk_state l = LOCKED_FOR_READ
     then let t = put_lock (s\<lparr>readers := readers s - 1\<rparr>) k (read_released l h)
          in if lk_holders l - {h} = {} then (if \<not> retryLock t then TryAcquireForWaiters t k n else Inr (t, n)) else Inr (t, n)
     else if h \<in> lk_holders l \<and> lk_state l = LOCKED_FOR_READ_WRITE
     then Inr (put_lock (s\<lparr>readers := readers s - 1\<rparr>) k (l\<lparr>lk_state := LOCKED_FOR_WRITE\<rparr>), n)
     else Inr (s, n))"
  using assms by (cases "lk_state l") (simp_all add: releaseForRead_def read_released_def Let_def)

lemma releaseForWrite_cases:
  assumes "locks s k = Some l" and "lock_ok l"
  shows "releaseForWrite s k h n =
    (if h \<in> lk_holders l \<and> lk_state l \<in> {LOCKED_FOR_WRITE, LOCKED_FOR_READ_WRITE}
     then let t = put_lock (s\<lparr>writers := writers s - 1\<rparr>) k (write_released l)
          in if \<not> retryLock t then TryAcquireForWaiters t k n else Inr (t, n)
     else Inr (s, n))"
proof (cases "h \<in> lk_holders l \<and> lk_state l \<in> {LOCKED_FOR_WRITE, LOCKED_FOR_READ_WRITE}")
  case True
  then have "lk_holders l = {h}" using assms(2) by (auto simp: lock_ok_def)
  then show ?thesis using True assms(1) by (auto simp: releaseForWrite_def write_released_def Let_def)
next
  case False
  then show ?thesis using assms(1) by (cases "lk_state l") (auto simp: releaseForWrite_def Let_def)
qed

lemma lock_of_Some: "\<lbrakk> server_ok s; locks s k = Some l \<rbrakk> \<Longrightarrow> lock_of s k = l \<and> lock_ok l"
  by (auto simp: lock_of_def server_ok_def split: option.splits)

lemma releaseForRead_spec:
  assumes ok: "server_ok s"
  shows "ends (retryLock s \<or> lk_waitQ (lock_of s k) = []) (releaseForRead s k h n) (\<lambda>(s', n'). server_ok s' \<and> gives_up k h s s')"
proof (cases "locks s k")
  case None
  then show ?thesis using ok by (simp add: releaseForRead_def gives_up_def)
next
  case (Some l)
  note l = lock_of_Some [OF ok Some]
  consider (R) "h \<in> lk_holders l" "lk_state l = LOCKED_FOR_READ" | (RW) "h \<in> lk_holders l" "lk_state l = LOCKED_FOR_READ_WRITE"
    | (other) "\<not> (h \<in> lk_holders l \<and> lk_state l \<in> {LOCKED_FOR_READ, LOCKED_FOR_READ_WRITE})" by auto
  then show ?thesis
  proof cases
    case R
    let ?t = "put_lock (s\<lparr>readers := readers s - 1\<rparr>) k (read_released l h)"
    have okt: "server_ok ?t" using ok l R by (intro read_released_ok) auto
    have g: "gives_up k h s ?t"
      using l read_released_held [OF R(2)] by (auto simp: gives_up_def)
    have q: "lk_waitQ (read_released l h) = lk_waitQ l" by (simp add: read_released_def)
    show ?thesis
      using wake_spec [OF okt g, of n] okt g R l q by (auto simp: releaseForRead_cases [OF Some] Let_def split: if_splits)
  next
    case RW
    let ?t = "put_lock (s\<lparr>readers := readers s - 1\<rparr>) k (l\<lparr>lk_state := LOCKED_FOR_WRITE\<rparr>)"
    have "lk_holders l = {h}" using l RW by (auto simp: lock_ok_def)
    then have "gives_up k h s ?t" using l RW by (auto simp: gives_up_def read_held_def write_held_def)
    then show ?thesis using mode_released_ok [OF ok _ RW(2)] l RW by (simp add: releaseForRead_cases [OF Some])
  next
    case other
    then have "releaseForRead s k h n = Inr (s, n)" by (auto simp: releaseForRead_cases [OF Some])
    then show ?thesis using ok by (simp add: gives_up_def)
  qed
qed

lemma releaseForWrite_spec:
  assumes ok: "server_ok s"
  shows "ends (retryLock s \<or> lk_waitQ (lock_of s k) = []) (releaseForWrite s k h n) (\<lambda>(s', n'). server_ok s' \<and> gives_up k h s s')"
proof (cases "locks s k")
  case None
  then show ?thesis using ok by (simp add: releaseForWrite_def gives_up_def)
next
  case (Some l)
  note l = lock_of_Some [OF ok Some]
  then have lo: "lock_ok l" by simp
  show ?thesis
  proof (cases "h \<in> lk_holders l \<and> lk_state l \<in> {LOCKED_FOR_WRITE, LOCKED_FOR_READ_WRITE}")
    case False
    then have "releaseForWrite s k h n = Inr (s, n)" unfolding releaseForWrite_cases [OF Some lo] by (simp only: if_False)
    then show ?thesis using ok by (simp add: gives_up_def)
  next
    case True
    let ?t = "put_lock (s\<lparr>writers := writers s - 1\<rparr>) k (write_released l)"
    have x: "lk_holders l = {h}" using l True by (auto simp: lock_ok_def)
    have okt: "server_ok ?t" using ok l True by (intro write_released_ok) auto
    have g: "gives_up k h s ?t" using x l by (auto simp: gives_up_def write_released_def read_held_def write_held_def)
    have "releaseForWrite s k h n = (if \<not> retryLock ?t then TryAcquireForWaiters ?t k n else Inr (?t, n))"
      using True unfolding releaseForWrite_cases [OF Some lo] Let_def by (simp only: if_True simp_thms)
    moreover have "lk_waitQ (write_released l) = lk_waitQ l" by (simp add: write_released_def)
    ultimately show ?thesis using wake_spec [OF okt g, of n] l by simp
  qed
qed

section \<open>The contract of the lock server\<close>

text \<open>Calls that are free of undefined behaviour in either mode: requests, and releases of locks nobody waits for.\<close>

definition uncontended :: "LockServer \<Rightarrow> lock_call \<Rightarrow> bool" where
  "uncontended s c = (case c of
       ReleaseForRead k r \<Rightarrow> lk_waitQ (lock_of s k) = []
     | ReleaseForWrite k r \<Rightarrow> lk_waitQ (lock_of s k) = []
     | _ \<Rightarrow> True)"

lemma lock_step_spec:
  assumes "server_ok s"
  shows "ends (retryLock s \<or> uncontended s c) (lock_step s c) (\<lambda>s'. server_ok s' \<and> retryLock s' = retryLock s)"
proof (cases c)
  case (LockForRead k r)
  then show ?thesis using lockForRead_wakes [OF assms, of k r] by (auto simp: lock_step_def wakes_def)
next
  case (LockForWrite k r)
  then show ?thesis using lockForWrite_wakes [OF assms, of k r] by (auto simp: lock_step_def wakes_def)
next
  case (ReleaseForRead k r)
  then have e: "lock_step s c = rbind (releaseForRead s k r {}) (\<lambda>(s', _). Inr s')"
    "uncontended s c \<longleftrightarrow> lk_waitQ (lock_of s k) = []" by (simp_all add: lock_step_def uncontended_def)
  show ?thesis
    unfolding e by (rule ends_rbind [OF releaseForRead_spec [OF assms]]) (auto simp: gives_up_def)
next
  case (ReleaseForWrite k r)
  then have e: "lock_step s c = rbind (releaseForWrite s k r {}) (\<lambda>(s', _). Inr s')"
    "uncontended s c \<longleftrightarrow> lk_waitQ (lock_of s k) = []" by (simp_all add: lock_step_def uncontended_def)
  show ?thesis
    unfolding e by (rule ends_rbind [OF releaseForWrite_spec [OF assms]]) (auto simp: gives_up_def)
qed

interpretation lock_calls: partial_system lock_step "\<lambda>_ _. True" "\<lambda>s. server_ok s \<and> retryLock s = retry" retry
  for retry :: bool
proof
  show "server_ok s' \<and> retryLock s' = retry" if "server_ok s \<and> retryLock s = retry" "lock_step s c = Inr s'" for s c s'
    using lock_step_spec [of s c] that by simp
  show "ends retry (lock_step s c) (\<lambda>_. True)" if "server_ok s \<and> retryLock s = retry" for s c
    by (rule ends_mono [OF lock_step_spec [of s c]]) (use that in auto)
qed

lemma accepts_any: "accepts f (\<lambda>_ _. True) s ms"
  using accepts_all [of ms "\<lambda>_. True"] by simp

lemma server_ok_new: "server_ok (LockServer_new retry)"
  by (simp add: server_ok_def LockServer_new_def lock_of_def lock_ok_new held_sum_def)

lemma lock_run_ends: "ends retry (fold_r lock_step (LockServer_new retry) cs) (\<lambda>s. server_ok s \<and> retryLock s = retry)"
proof (rule lock_calls.run_ends)
  show "server_ok (LockServer_new retry) \<and> retryLock (LockServer_new retry) = retry"
    using server_ok_new by (simp add: LockServer_new_def)
qed (rule accepts_any)

lemma mutual_exclusion:
  assumes "server_ok s" and "w \<in> write_held (lock_of s k)"
  shows "write_held (lock_of s k) = {w} \<and> read_held (lock_of s k) \<subseteq> {w}"
proof -
  have "lock_ok (lock_of s k)" using assms(1) by (simp add: server_ok_def)
  then show ?thesis
    using assms(2) by (auto simp: lock_ok_def write_held_def read_held_def split: if_splits)
qed

text \<open>C14. The locks exclude each other and the lock server fails no assertion, whatever calls transactions make and in
  any order.  In the state a run reaches, a transaction that holds a lock for writing is the only holder of it,
  every waiter is queued exactly once, and the counters are the numbers of read and write locks held.  When
  blocked transactions retry, every run returns.  When the server hands released locks to their waiters, a run can
  also end in undefined behaviour (the front of an empty queue is read), and only in a release of a lock that
  somebody waits for.\<close>

theorem lock_run_safe:
  "case fold_r lock_step (LockServer_new retry) cs of
     Inr s \<Rightarrow>
       (\<forall>k w. w \<in> write_held (lock_of s k) \<longrightarrow> write_held (lock_of s k) = {w} \<and> read_held (lock_of s k) \<subseteq> {w}) \<and>
       (\<forall>k. distinct (lk_waitQ (lock_of s k)) \<and> set (lk_waitQ (lock_of s k)) = dom (lk_waiters (lock_of s k))) \<and>
       readers s = word_of_nat (\<Sum>k\<in>dom (locks s). card (read_held (lock_of s k))) \<and>
       writers s = word_of_nat (\<Sum>k\<in>dom (locks s). card (write_held (lock_of s k)))
   | Inl e \<Rightarrow> e = UndefinedBehaviour \<and> \<not> retry \<and>
       (\<exists>cs1 c cs2 s k h. cs = cs1 @ c # cs2 \<and> fold_r lock_step (LockServer_new retry) cs1 = Inr s \<and>
          c \<in> {ReleaseForRead k h, ReleaseForWrite k h} \<and> lk_waitQ (lock_of s k) \<noteq> [])"
proof (cases "fold_r lock_step (LockServer_new retry) cs")
  case (Inr s)
  then have ok: "server_ok s" using lock_run_ends [of retry cs] by simp
  have w: "\<forall>k w. w \<in> write_held (lock_of s k) \<longrightarrow> write_held (lock_of s k) = {w} \<and> read_held (lock_of s k) \<subseteq> {w}"
    by (intro allI impI) (rule mutual_exclusion [OF ok])
  have q: "\<forall>k. distinct (lk_waitQ (lock_of s k)) \<and> set (lk_waitQ (lock_of s k)) = dom (lk_waiters (lock_of s k))"
    using ok by (simp add: server_ok_def lock_ok_def)
  have n: "readers s = word_of_nat (\<Sum>k\<in>dom (locks s). card (read_held (lock_of s k)))"
    "writers s = word_of_nat (\<Sum>k\<in>dom (locks s). card (write_held (lock_of s k)))"
    using ok by (simp_all add: server_ok_def held_sum_def)
  show ?thesis unfolding Inr sum.case by (intro conjI) (rule w, rule q, rule n(1), rule n(2))
next
  case (Inl e)
  then have e: "e = UndefinedBehaviour" "\<not> retry" using lock_run_ends [of retry cs] by simp_all
  obtain cs1 c cs2 s where r: "cs = cs1 @ c # cs2" "fold_r lock_step (LockServer_new retry) cs1 = Inr s" "lock_step s c = Inl e"
    using fold_r_Inl [OF Inl] by blast
  have "server_ok s" using lock_run_ends [of retry cs1] r(2) by simp
  then have "\<not> uncontended s c" using lock_step_spec [of s c] r(3) by auto
  then have "\<exists>k h. c \<in> {ReleaseForRead k h, ReleaseForWrite k h} \<and> lk_waitQ (lock_of s k) \<noteq> []"
    by (cases c) (auto simp: uncontended_def)
  then show ?thesis unfolding Inl sum.case using e r(1,2) by blast
qed

definition lock_calls_sample :: "lock_call list" where
  "lock_calls_sample = [LockForRead ''x'' 1, LockForRead ''x'' 2, LockForWrite ''x'' 3, ReleaseForRead ''x'' 1,
     LockForWrite ''y'' 1, LockForRead ''x'' 4, ReleaseForRead ''x'' 2]"

theorem lock_run_safe_witness:
  "\<exists>s. fold_r lock_step (LockServer_new False) lock_calls_sample = Inr s \<and>
     write_held (lock_of s ''x'') = {3} \<and> read_held (lock_of s ''x'') \<subseteq> {3}"
proof -
  have "case fold_r lock_step (LockServer_new False) lock_calls_sample of Inl _ \<Rightarrow> False
     | Inr s \<Rightarrow> 3 \<in> write_held (lock_of s ''x'')"
    by code_simp
  then show ?thesis using lock_run_safe [of False lock_calls_sample] by (auto split: sum.splits)
qed

text \<open>Granting follows the multi-reader, single-writer discipline: a request returns; if it is granted, the
  requester holds the lock in the requested mode, a read lock only while nobody else holds it for
  writing and a write lock only while nobody else holds it at all; if it is refused, nobody's
  hold changes; other locks never change.\<close>

theorem grants_respect_modes:
  assumes "server_ok s"
  shows "(\<exists>s' got. lockForRead s k r = Inr (s', got) \<and> (\<forall>j. j \<noteq> k \<longrightarrow> lock_of s' j = lock_of s j) \<and>
       write_held (lock_of s' k) = write_held (lock_of s k) \<and>
       (if got then read_held (lock_of s' k) = insert r (read_held (lock_of s k)) \<and> write_held (lock_of s k) \<subseteq> {r}
        else read_held (lock_of s' k) = read_held (lock_of s k))) \<and>
     (\<exists>s' got. lockForWrite s k r = Inr (s', got) \<and> (\<forall>j. j \<noteq> k \<longrightarrow> lock_of s' j = lock_of s j) \<and>
       read_held (lock_of s' k) = read_held (lock_of s k) \<and>
       (if got then write_held (lock_of s' k) = {r} \<and> read_held (lock_of s k) \<union> write_held (lock_of s k) \<subseteq> {r}
        else write_held (lock_of s' k) = write_held (lock_of s k)))"
proof
  show "\<exists>s' got. lockForRead s k r = Inr (s', got) \<and> (\<forall>j. j \<noteq> k \<longrightarrow> lock_of s' j = lock_of s j) \<and>
       write_held (lock_of s' k) = write_held (lock_of s k) \<and>
       (if got then read_held (lock_of s' k) = insert r (read_held (lock_of s k)) \<and> write_held (lock_of s k) \<subseteq> {r}
        else read_held (lock_of s' k) = read_held (lock_of s k))"
  proof -
    obtain s' got where "lockForRead s k r = Inr (s', got)" "\<forall>j. j \<noteq> k \<longrightarrow> lock_of s' j = lock_of s j"
      "write_held (lock_of s' k) = write_held (lock_of s k)"
      "read_held (lock_of s' k) = (if got then insert r (read_held (lock_of s k)) else read_held (lock_of s k))"
      "got \<longrightarrow> write_held (lock_of s k) \<subseteq> {r}"
      using lockForRead_spec [OF assms, of k r] by (elim exE conjE)
    then show ?thesis by (intro exI [of _ s'] exI [of _ got]) simp
  qed
  show "\<exists>s' got. lockForWrite s k r = Inr (s', got) \<and> (\<forall>j. j \<noteq> k \<longrightarrow> lock_of s' j = lock_of s j) \<and>
       read_held (lock_of s' k) = read_held (lock_of s k) \<and>
       (if got then write_held (lock_of s' k) = {r} \<and> read_held (lock_of s k) \<union> write_held (lock_of s k) \<subseteq> {r}
        else write_held (lock_of s' k) = write_held (lock_of s k))"
  proof -
    obtain s' got where "lockForWrite s k r = Inr (s', got)" "\<forall>j. j \<noteq> k \<longrightarrow> lock_of s' j = lock_of s j"
      "read_held (lock_of s' k) = read_held (lock_of s k)"
      "write_held (lock_of s' k) = (if got then {r} else write_held (lock_of s k))"
      "got \<longrightarrow> read_held (lock_of s k) \<union> write_held (lock_of s k) \<subseteq> {r}"
      using lockForWrite_spec [OF assms, of k r] by (elim exE conjE)
    then show ?thesis by (intro exI [of _ s'] exI [of _ got]) simp
  qed
qed

theorem grants_respect_modes_witness:
  "\<exists>s' got. lockForWrite (LockServer_new False) ''x'' 5 = Inr (s', got) \<and>
     (if got then write_held (lock_of s' ''x'') = {5} else write_held (lock_of s' ''x'') = {})"
  using grants_respect_modes [OF server_ok_new, of False "''x''" 5]
  by (elim conjE exE) (intro exI conjI, assumption, auto simp: lock_of_def LockServer_new_def split: if_splits)

text \<open>The front waiter of an unlocked lock gets what it waits for.\<close>

lemma front_waiter_goes:
  assumes ok: "server_ok s" and q: "lk_waitQ (lock_of s k) = r # q" and st: "lk_state (lock_of s k) = UNLOCKED"
    and run: "waiter_round s k n r = Inr (s', n', go)"
  shows go
proof -
  let ?l = "lock_of s k"
  have l: "lock_ok ?l" using ok by (simp add: server_ok_def)
  then have h: "lk_holders ?l = {}" using st unfolding lock_ok_def by blast
  obtain x where x: "lk_waiters ?l r = Some x" "wt_read x \<or> wt_write x" using front_waiter(2) [OF l q] by blast
  have t: "tryAcquireLock ?l r b = Inr (?l\<lparr>lk_waitQ := q, lk_waiters := (lk_waiters ?l)(r := None)\<rparr>, True)" for b
    using q x by (simp add: tryAcquireLock_def)
  have "\<exists>s'. acquire_for s k r x = Inr (s', True)"
    using x(2) st h t
    by (cases "wt_write x"; cases "wt_read x")
      (auto simp: acquire_for_def lockForWrite_def lockForRead_def write_switch_def read_switch_def)
  then show ?thesis using run x(1) by (auto simp: waiter_round_def)
qed

text \<open>A released lock is handed to the waiter at the front of the queue: when the holder of a write lock
  releases it, waiters are served by the server and the release returns, the first waiter becomes a
  holder and is reported among the new holders, and everyone reported had been waiting and now holds the lock.\<close>

theorem release_serves_front_waiter:
  assumes ok: "server_ok s" and serve: "\<not> retryLock s"
    and l: "locks s k = Some l" "lk_state l = LOCKED_FOR_WRITE" "h \<in> lk_holders l" "lk_waitQ l = w # q"
  shows "case releaseForWrite s k h {} of
       Inr (s', n) \<Rightarrow> w \<in> n \<and> n \<subseteq> set (w # q) \<inter> lk_holders (lock_of s' k)
     | Inl e \<Rightarrow> e = UndefinedBehaviour"
proof -
  have lo: "lock_of s k = l" "lock_ok l" using lock_of_Some [OF ok l(1)] by auto
  have h: "lk_holders l = {h}" using lo(2) l(2,3) by (auto simp: lock_ok_def)
  define t where "t = put_lock (s\<lparr>writers := writers s - 1\<rparr>) k (write_released l)"
  have okt: "server_ok t" unfolding t_def using l(2) by (intro write_released_ok [OF ok lo(1)]) simp
  have q: "lk_waitQ (lock_of t k) = w # q" "lk_state (lock_of t k) = UNLOCKED" by (simp_all add: t_def l(2,4) write_released_def)
  have run: "releaseForWrite s k h {} = TryAcquireForWaiters t k {}"
    using l serve unfolding releaseForWrite_cases [OF l(1) lo(2)] by (simp add: Let_def t_def)
  note T = TryAcquireForWaiters_spec [OF okt, of k "{}"]
  show ?thesis
  proof (cases "TryAcquireForWaiters t k {}")
    case (Inl e)
    then show ?thesis using T run by simp
  next
    case (Inr y)
    obtain u m go where u: "waiter_round t k {} w = Inr (u, m, go)"
      and rest: "(if go then TryAcquireForWaiters u k m else Inr (u, m)) = Inr y"
      using Inr q(1) by (auto simp: TryAcquireForWaiters.simps [of t])
    have go using front_waiter_goes [OF okt q u] .
    then have m: "m = {w}" "server_ok u" using waiter_round_spec [OF okt q(1), of "{}"] u by auto
    have "{w} \<subseteq> snd y" using TryAcquireForWaiters_spec [OF m(2), of k m] rest \<open>go\<close> m(1) by auto
    then show ?thesis using Inr T run q(1) by (cases y) auto
  qed
qed

theorem release_serves_front_waiter_witness:
  "\<exists>s s' n. fold_r lock_step (LockServer_new False) [LockForWrite ''x'' 1, LockForWrite ''x'' 2, LockForRead ''x'' 3] = Inr s \<and>
     releaseForWrite s ''x'' 1 {} = Inr (s', n) \<and> 2 \<in> n"
proof -
  let ?cs = "[LockForWrite ''x'' 1, LockForWrite ''x'' 2, LockForRead ''x'' 3]"
  have "case fold_r lock_step (LockServer_new False) ?cs of Inl _ \<Rightarrow> False
     | Inr s \<Rightarrow> \<not> retryLock s \<and> (case locks s ''x'' of None \<Rightarrow> False
         | Some l \<Rightarrow> lk_state l = LOCKED_FOR_WRITE \<and> 1 \<in> lk_holders l \<and> lk_waitQ l = 2 # [3]) \<and>
         (case releaseForWrite s ''x'' 1 {} of Inl _ \<Rightarrow> False | Inr _ \<Rightarrow> True)"
    by code_simp
  then obtain s l y where s: "fold_r lock_step (LockServer_new False) ?cs = Inr s" "\<not> retryLock s"
    "locks s ''x'' = Some l" "lk_state l = LOCKED_FOR_WRITE" "1 \<in> lk_holders l" "lk_waitQ l = 2 # [3]"
    and y: "releaseForWrite s ''x'' 1 {} = Inr y"
    by (auto split: sum.splits option.splits)
  have "server_ok s" using ends_returns [OF lock_run_ends s(1)] ..
  from release_serves_front_waiter [OF this s(2-6)] show ?thesis using s(1) y by (cases y) auto
qed

text \<open>A waiting upgrade is forgotten: when a transaction that reads a lock waits to write it and the other
  reader releases, nobody is woken up although the upgrade could be granted; the same request made again
  succeeds.\<close>

theorem upgrade_not_woken:
  "(case fold_r lock_step (LockServer_new False) [LockForRead ''x'' 1, LockForRead ''x'' 2, LockForWrite ''x'' 1] of
      Inl _ \<Rightarrow> False
    | Inr s \<Rightarrow> (case releaseForRead s ''x'' 2 {} of
         Inl _ \<Rightarrow> False
       | Inr (s', n) \<Rightarrow> n = {} \<and> lk_waitQ (lock_of s' ''x'') = [1] \<and> lk_holders (lock_of s' ''x'') = {1} \<and>
           (case lockForWrite s' ''x'' 1 of Inl _ \<Rightarrow> False | Inr (_, got) \<Rightarrow> got)))"
  by code_simp

text \<open>Handing a lock to its only waiter reads the front of the queue after the waiter has been removed from
  it: whoever waits alone for an unlocked lock is granted it by a release that runs into undefined behaviour.\<close>

theorem empty_queue_front_read:
  assumes ok: "server_ok s" and serve: "\<not> retryLock s"
    and l: "locks s k = Some l" "lk_state l = LOCKED_FOR_WRITE" "h \<in> lk_holders l" "lk_waitQ l = [w]"
  shows "releaseForWrite s k h {} = Inl UndefinedBehaviour"
proof -
  have lo: "lock_of s k = l" "lock_ok l" using lock_of_Some [OF ok l(1)] by auto
  let ?l1 = "write_released l"
  let ?t = "put_lock (s\<lparr>writers := writers s - 1\<rparr>) k ?l1"
  have t: "lk_state ?l1 = UNLOCKED" "lk_holders ?l1 = {}" "lk_waitQ ?l1 = [w]" "lk_waiters ?l1 = lk_waiters l"
    using l by (simp_all add: write_released_def)
  obtain x where x: "lk_waiters l w = Some x" "wt_read x \<or> wt_write x" using front_waiter(2) [OF lo(2), of w "[]"] l(4) by blast
  have "drop_waiter u k w = Inl UndefinedBehaviour" if "acquire_for ?t k w x = Inr (u, True)" for u
    using that x t
    by (cases "wt_write x"; cases "wt_read x")
      (auto simp: drop_waiter_def acquire_for_def lockForWrite_def lockForRead_def write_switch_def read_switch_def tryAcquireLock_def)
  moreover have "\<exists>u. acquire_for ?t k w x = Inr (u, True)"
    using x t
    by (cases "wt_write x"; cases "wt_read x")
      (auto simp: acquire_for_def lockForWrite_def lockForRead_def write_switch_def read_switch_def tryAcquireLock_def)
  ultimately have "waiter_round ?t k {} w = Inl UndefinedBehaviour" using x(1) t(4) by (auto simp: waiter_round_def)
  then have "TryAcquireForWaiters ?t k {} = Inl UndefinedBehaviour" using t(3) by (simp add: TryAcquireForWaiters.simps [of ?t])
  then show ?thesis using l serve unfolding releaseForWrite_cases [OF l(1) lo(2)] by (simp add: Let_def)
qed

theorem empty_queue_front_read_witness:
  "\<exists>s. fold_r lock_step (LockServer_new False) [LockForWrite ''x'' 1, LockForWrite ''x'' 2] = Inr s \<and>
     releaseForWrite s ''x'' 1 {} = Inl UndefinedBehaviour"
proof -
  let ?cs = "[LockForWrite ''x'' 1, LockForWrite ''x'' 2]"
  have "case fold_r lock_step (LockServer_new False) ?cs of Inl _ \<Rightarrow> False
     | Inr s \<Rightarrow> \<not> retryLock s \<and> (case locks s ''x'' of None \<Rightarrow> False
         | Some l \<Rightarrow> lk_state l = LOCKED_FOR_WRITE \<and> 1 \<in> lk_holders l \<and> lk_waitQ l = [2])"
    by code_simp
  then obtain s l where s: "fold_r lock_step (LockServer_new False) ?cs = Inr s" "\<not> retryLock s"
    "locks s ''x'' = Some l" "lk_state l = LOCKED_FOR_WRITE" "1 \<in> lk_holders l" "lk_waitQ l = [2]"
    by (auto split: sum.splits option.splits)
  have "server_ok s" using ends_returns [OF lock_run_ends s(1)] ..
  from empty_queue_front_read [OF this s(2-6)] show ?thesis using s(1) by blast
qed

end
