(* ===== verification/Stores.thy ===== *)
theory Stores
  imports Viewstamps
begin

text \<open>
  The stores of the transaction back ends: \<^verbatim>\<open>KVStore\<close> (\<^verbatim>\<open>transaction/common/backend/kvstore.cc\<close>), which keeps one
  value per key, and \<^verbatim>\<open>VersionedKVStore\<close> (\<^verbatim>\<open>versionstore.cc\<close>), which keeps every version of a key in a
  \<^verbatim>\<open>std::set\<close> ordered by write timestamp; and \<^verbatim>\<open>Transaction\<close> (\<^verbatim>\<open>transaction/common/transaction.cc\<close>), the read and
  write sets a client sends.

  A \<^verbatim>\<open>std::set\<close> ordered by a comparator is the list of its elements in increasing order, and an iterator into it
  is an index, the length of the list being the end.  Reference parameters that a function fills in are
  results: where the code leaves the parameter alone, the result carries the old value or nothing.
\<close>

section \<open>The single-version store\<close>

record KVStore =
  kv_store :: "string \<Rightarrow> string option"

definition KVStore_new :: KVStore where
  "KVStore_new = \<lparr>kv_store = (\<lambda>_. None)\<rparr>"

text \<open>\<^verbatim>\<open>get\<close> and \<^verbatim>\<open>remove\<close> take the value by reference; both return whether they succeeded.\<close>

definition kv_get :: "KVStore \<Rightarrow> string \<Rightarrow> string \<times> bool" where
  "kv_get s key = (case kv_store s key of None \<Rightarrow> '''' | Some v \<Rightarrow> v, True)"

definition kv_put :: "KVStore \<Rightarrow> string \<Rightarrow> string \<Rightarrow> KVStore \<times> bool" where
  "kv_put s key v = (s\<lparr>kv_store := (kv_store s)(key \<mapsto> v)\<rparr>, True)"

definition kv_remove :: "KVStore \<Rightarrow> string \<Rightarrow> string \<Rightarrow> KVStore \<times> string \<times> bool" where
  "kv_remove s key v =
     (case kv_store s key of
        None \<Rightarrow> (s, v, True)
      | Some _ \<Rightarrow> (s\<lparr>kv_store := (kv_store s)(key := None)\<rparr>, v, True))"

section \<open>The versioned store\<close>

datatype VersionedValue = VersionedValue (vv_write: Timestamp) (vv_value: string)

definition vv_lt :: "VersionedValue \<Rightarrow> VersionedValue \<Rightarrow> bool" where
  "vv_lt v1 v2 \<longleftrightarrow> timestamp_lt (vv_write v1) (vv_write v2)"

record VersionedKVStore =
  vs_store :: "string \<Rightarrow> VersionedValue list option"
  vs_lastReads :: "string \<Rightarrow> (Timestamp \<Rightarrow> Timestamp option) option"

definition VersionedKVStore_new :: VersionedKVStore where
  "VersionedKVStore_new = \<lparr>vs_store = (\<lambda>_. None), vs_lastReads = (\<lambda>_. None)\<rparr>"

text \<open>\<^verbatim>\<open>std::set::insert\<close>, which keeps an equivalent element, and \<^verbatim>\<open>std::set::upper_bound\<close>.\<close>

fun set_insert :: "VersionedValue \<Rightarrow> VersionedValue list \<Rightarrow> VersionedValue list" where
  "set_insert v [] = [v]"
| "set_insert v (x # xs) =
     (if vv_lt v x then v # x # xs
      else if vv_lt x v then x # set_insert v xs
      else x # xs)"

definition upper_bound :: "VersionedValue list \<Rightarrow> VersionedValue \<Rightarrow> nat" where
  "upper_bound xs v = length (takeWhile (\<lambda>x. \<not> vv_lt v x) xs)"

definition versions_of :: "VersionedKVStore \<Rightarrow> string \<Rightarrow> VersionedValue list" where
  "versions_of s key = (case vs_store s key of None \<Rightarrow> [] | Some xs \<Rightarrow> xs)"

definition inStore :: "VersionedKVStore \<Rightarrow> string \<Rightarrow> bool" where
  "inStore s key \<longleftrightarrow> vs_store s key \<noteq> None \<and> 0 < length (versions_of s key)"

text \<open>The iterator \<^verbatim>\<open>getValue\<close> leaves in its argument.\<close>

definition getValue :: "VersionedKVStore \<Rightarrow> string \<Rightarrow> Timestamp \<Rightarrow> nat" where
  "getValue s key t =
     (let xs = versions_of s key; it = upper_bound xs (VersionedValue t ''tmp'')
      in if it = 0 then length xs else it - 1)"

definition vs_get :: "VersionedKVStore \<Rightarrow> string \<Rightarrow> (Timestamp \<times> string) option" where
  "vs_get s key =
     (if inStore s key
      then let v = last (versions_of s key) in Some (vv_write v, vv_value v)
      else None)"

definition vs_get_at :: "VersionedKVStore \<Rightarrow> string \<Rightarrow> Timestamp \<Rightarrow> (Timestamp \<times> string) option" where
  "vs_get_at s key t =
     (if inStore s key
      then let xs = versions_of s key; it = getValue s key t
           in if it \<noteq> length xs then Some (vv_write (xs ! it), vv_value (xs ! it)) else None
      else None)"

definition getRange ::
  "VersionedKVStore \<Rightarrow> string \<Rightarrow> Timestamp \<Rightarrow> Timestamp \<times> Timestamp \<Rightarrow> (Timestamp \<times> Timestamp) \<times> bool" where
  "getRange s key t rng =
     (if inStore s key
      then let xs = versions_of s key; it = getValue s key t
           in if it \<noteq> length xs
              then ((vv_write (xs ! it), if it + 1 \<noteq> length xs then vv_write (xs ! (it + 1)) else snd rng), True)
              else (rng, False)
      else (rng, False))"

definition vs_put :: "VersionedKVStore \<Rightarrow> string \<Rightarrow> string \<Rightarrow> Timestamp \<Rightarrow> VersionedKVStore" where
  "vs_put s key v t = s\<lparr>vs_store := (vs_store s)(key \<mapsto> set_insert (VersionedValue t v) (versions_of s key))\<rparr>"

definition commitGet :: "VersionedKVStore \<Rightarrow> string \<Rightarrow> Timestamp \<Rightarrow> Timestamp \<Rightarrow> VersionedKVStore" where
  "commitGet s key readTime commit =
     (if inStore s key
      then let xs = versions_of s key; it = getValue s key readTime
           in if it \<noteq> length xs
              then (case vs_lastReads s key of
                      None \<Rightarrow> s
                    | Some m \<Rightarrow>
                        (case m (vv_write (xs ! it)) of
                           None \<Rightarrow> s
                         | Some r \<Rightarrow>
                             if timestamp_lt r commit
                             then s\<lparr>vs_lastReads := (vs_lastReads s)(key \<mapsto> m(vv_write (xs ! it) \<mapsto> commit))\<rparr>
                             else s))
              else s
      else s)"

definition getLastRead :: "VersionedKVStore \<Rightarrow> string \<Rightarrow> Timestamp option" where
  "getLastRead s key =
     (if inStore s key
      then (case vs_lastReads s key of
              None \<Rightarrow> None
            | Some m \<Rightarrow> m (vv_write (last (versions_of s key))))
      else None)"

definition getLastRead_at :: "VersionedKVStore \<Rightarrow> string \<Rightarrow> Timestamp \<Rightarrow> Timestamp option result" where
  "getLastRead_at s key t =
     (if inStore s key
      then let xs = versions_of s key; it = getValue s key t
           in check (it \<noteq> length xs) AssertFailed
                (case vs_lastReads s key of
                   None \<Rightarrow> Inr None
                 | Some m \<Rightarrow> Inr (m (vv_write (xs ! it))))
      else Inr None)"

text \<open>The calls that change the store, as events.\<close>

datatype store_call =
    StorePut string string Timestamp
  | StoreCommitGet string Timestamp Timestamp

definition store_step :: "VersionedKVStore \<Rightarrow> store_call \<Rightarrow> VersionedKVStore" where
  "store_step s c = (case c of StorePut k v t \<Rightarrow> vs_put s k v t | StoreCommitGet k r t \<Rightarrow> commitGet s k r t)"

section \<open>The contract of a multi-version store\<close>

text \<open>
  What a client that reads at a timestamp relies on: each key has finitely many versions, a write adds one unless
  the timestamp is taken, and a read at \<open>t\<close> finds the newest version that is not newer than \<open>t\<close>.
\<close>

locale snapshot_store =
  fixes inv :: "'s \<Rightarrow> bool"
    and versions :: "'s \<Rightarrow> 'k \<Rightarrow> 't::linorder \<Rightarrow> 'v option"
    and read_at :: "'s \<Rightarrow> 'k \<Rightarrow> 't \<Rightarrow> ('t \<times> 'v) option"
    and insert_version :: "'s \<Rightarrow> 'k \<Rightarrow> 'v \<Rightarrow> 't \<Rightarrow> 's"
  assumes inv_insert: "inv s \<Longrightarrow> inv (insert_version s k v t)"
    and finite_versions: "inv s \<Longrightarrow> finite (dom (versions s k))"
    and versions_insert: "inv s \<Longrightarrow> versions (insert_version s k v t) j =
          (if j = k \<and> versions s k t = None then (versions s k)(t \<mapsto> v) else versions s j)"
    and read_at_newest: "inv s \<Longrightarrow> read_at s k t = Some (u, v) \<longleftrightarrow>
          versions s k u = Some v \<and> u \<le> t \<and> (\<forall>w. w \<in> dom (versions s k) \<and> w \<le> t \<longrightarrow> w \<le> u)"
begin

lemma read_at_cong:
  assumes "inv s" and "inv s'" and "\<And>w. w \<le> t \<Longrightarrow> versions s' k w = versions s k w"
  shows "read_at s' k t = read_at s k t"
proof -
  have "read_at s' k t = Some (u, v) \<longleftrightarrow> read_at s k t = Some (u, v)" for u v
    unfolding read_at_newest [OF assms(1)] read_at_newest [OF assms(2)] using assms(3) by (auto simp: domIff)
  then have "read_at s' k t = Some p \<longleftrightarrow> read_at s k t = Some p" for p by (cases p) simp
  then show ?thesis by (metis not_None_eq)
qed

text \<open>A snapshot is stable: writes that are newer than \<open>t\<close>, or of other keys, do not change a read at \<open>t\<close>.\<close>

lemma snapshot_stable:
  assumes "inv s" and "\<forall>(j, v, u)\<in>set ws. j = k \<longrightarrow> t < u"
  shows "read_at (foldl (\<lambda>s (j, v, u). insert_version s j v u) s ws) k t = read_at s k t"
  using assms
proof (induction ws arbitrary: s)
  case (Cons w ws)
  obtain j v u where w: "w = (j, v, u)" by (cases w)
  have ok: "inv (insert_version s j v u)" using Cons.prems(1) by (rule inv_insert)
  have "read_at (insert_version s j v u) k t = read_at s k t"
    using Cons.prems w by (intro read_at_cong ok) (auto simp: versions_insert)
  moreover have "\<forall>(j, v, u)\<in>set ws. j = k \<longrightarrow> t < u" using Cons.prems(2) by simp
  ultimately show ?case using Cons.IH [OF ok] w by simp
qed simp

lemma read_own_write:
  assumes "inv s" and "versions s k t = None"
  shows "read_at (insert_version s k v t) k t = Some (t, v)"
  using assms by (simp add: read_at_newest inv_insert versions_insert)

text \<open>The history of writes determines the versions: the first write of a timestamp counts.\<close>

lemma versions_run:
  assumes "inv s" and "\<And>j. versions s j = Map.empty"
  shows "inv (foldl (\<lambda>s (j, v, u). insert_version s j v u) s ws) \<and>
    versions (foldl (\<lambda>s (j, v, u). insert_version s j v u) s ws) k u = map_of (map (\<lambda>(j, v, u). ((j, u), v)) ws) (k, u)"
proof (induction ws arbitrary: k u rule: rev_induct)
  case (snoc w ws)
  obtain j v u' where w: "w = (j, v, u')" by (cases w)
  show ?case
    using snoc.IH by (auto simp: w inv_insert versions_insert map_add_def split: option.splits)
qed (use assms in auto)

end

section \<open>The versioned store keeps the contract\<close>

definition store_ok :: "VersionedKVStore \<Rightarrow> bool" where
  "store_ok s \<longleftrightarrow> (\<forall>key. sorted_wrt (<) (map vv_write (versions_of s key)))"

definition version_map :: "VersionedKVStore \<Rightarrow> string \<Rightarrow> Timestamp \<Rightarrow> string option" where
  "version_map s key = map_of (map (\<lambda>x. (vv_write x, vv_value x)) (versions_of s key))"

lemma vv_lt_iff [simp]: "vv_lt x y \<longleftrightarrow> vv_write x < vv_write y"
  by (simp add: vv_lt_def timestamp_ops_order)

lemma set_set_insert:
  "set (set_insert v xs) = (if \<exists>x\<in>set xs. vv_write x = vv_write v then set xs else insert v (set xs))"
  if "sorted_wrt (<) (map vv_write xs)"
  using that
proof (induction xs)
  case (Cons x xs)
  then show ?case by (cases "vv_write v" "vv_write x" rule: linorder_cases) force+
qed simp

lemma sorted_set_insert: "sorted_wrt (<) (map vv_write xs) \<Longrightarrow> sorted_wrt (<) (map vv_write (set_insert v xs))"
proof (induction xs)
  case (Cons x xs)
  then show ?case by (auto simp: set_set_insert split: if_splits)
qed simp

lemma sorted_map_of:
  assumes "sorted_wrt (<) (map vv_write xs)"
  shows "map_of (map (\<lambda>x. (vv_write x, vv_value x)) xs) u = Some v \<longleftrightarrow> VersionedValue u v \<in> set xs"
proof -
  have "distinct (map fst (map (\<lambda>x. (vv_write x, vv_value x)) xs))"
    using assms by (induction xs) auto
  then have "map_of (map (\<lambda>x. (vv_write x, vv_value x)) xs) u = Some v \<longleftrightarrow>
      (u, v) \<in> set (map (\<lambda>x. (vv_write x, vv_value x)) xs)" by (rule map_of_eq_Some_iff)
  also have "\<dots> \<longleftrightarrow> VersionedValue u v \<in> set xs"
    by (force simp: image_iff)
  finally show ?thesis .
qed

lemma sorted_last: "\<lbrakk> sorted_wrt (<) (map vv_write xs); x \<in> set xs \<rbrakk> \<Longrightarrow> vv_write x \<le> vv_write (last xs)"
  by (induction xs) (auto simp: less_imp_le)

lemma vs_get_at_last:
  "vs_get_at s key t = (let ys = takeWhile (\<lambda>x. vv_write x \<le> t) (versions_of s key)
     in if ys = [] then None else Some (vv_write (last ys), vv_value (last ys)))"
proof -
  let ?xs = "versions_of s key" and ?P = "\<lambda>x. vv_write x \<le> t"
  have ub: "upper_bound ?xs (VersionedValue t ''tmp'') = length (takeWhile ?P ?xs)"
    by (simp add: upper_bound_def not_less)
  have le: "length (takeWhile ?P ?xs) \<le> length ?xs" by (rule length_takeWhile_le)
  have "takeWhile ?P ?xs \<noteq> [] \<Longrightarrow> ?xs ! (length (takeWhile ?P ?xs) - 1) = last (takeWhile ?P ?xs)"
    by (simp add: last_conv_nth takeWhile_nth)
  moreover have "takeWhile ?P ?xs \<noteq> [] \<Longrightarrow> inStore s key"
    by (auto simp: inStore_def versions_of_def split: option.splits)
  moreover have "takeWhile ?P ?xs \<noteq> [] \<Longrightarrow> length (takeWhile ?P ?xs) - 1 \<noteq> length ?xs"
    using le by (cases "takeWhile ?P ?xs") auto
  ultimately show ?thesis unfolding vs_get_at_def getValue_def ub Let_def by auto
qed

lemma takeWhile_sorted:
  "sorted_wrt (<) (map vv_write xs) \<Longrightarrow> takeWhile (\<lambda>x. vv_write x \<le> t) xs = filter (\<lambda>x. vv_write x \<le> t) xs"
proof (induction xs)
  case (Cons x xs)
  then have "vv_write x \<le> vv_write y" if "y \<in> set xs" for y using that by (simp add: less_imp_le)
  then have "\<not> vv_write x \<le> t \<Longrightarrow> filter (\<lambda>x. vv_write x \<le> t) xs = []"
    unfolding filter_empty_conv by (meson order_trans)
  then show ?case using Cons by auto
qed simp

lemma vs_get_at_newest:
  assumes "store_ok s"
  shows "vs_get_at s k t = Some (u, v) \<longleftrightarrow>
     version_map s k u = Some v \<and> u \<le> t \<and> (\<forall>w. w \<in> dom (version_map s k) \<and> w \<le> t \<longrightarrow> w \<le> u)"
proof -
  let ?xs = "versions_of s k"
  define ys where "ys = filter (\<lambda>x. vv_write x \<le> t) ?xs"
  have so: "sorted_wrt (<) (map vv_write ?xs)" using assms by (simp add: store_ok_def)
  then have ys: "sorted_wrt (<) (map vv_write ys)" "takeWhile (\<lambda>x. vv_write x \<le> t) ?xs = ys"
    unfolding ys_def by (simp_all add: takeWhile_sorted sorted_wrt_map sorted_wrt_filter)
  have vm: "version_map s k w = Some x \<longleftrightarrow> VersionedValue w x \<in> set ?xs" for w x
    unfolding version_map_def by (rule sorted_map_of [OF so])
  have in_ys: "VersionedValue w x \<in> set ys \<longleftrightarrow> version_map s k w = Some x \<and> w \<le> t" for w x
    by (auto simp: vm ys_def)
  have get: "vs_get_at s k t = (if ys = [] then None else Some (vv_write (last ys), vv_value (last ys)))"
    unfolding vs_get_at_last ys(2) Let_def by (rule refl)
  show ?thesis
  proof
    assume a: "vs_get_at s k t = Some (u, v)"
    then have l: "last ys = VersionedValue u v" "ys \<noteq> []"
      by (auto simp: get split: if_splits)
    then have "VersionedValue u v \<in> set ys" by (metis last_in_set)
    moreover have "w \<le> u" if "version_map s k w = Some x" "w \<le> t" for w x
      using sorted_last [OF ys(1), of "VersionedValue w x"] that in_ys l by simp
    ultimately show "version_map s k u = Some v \<and> u \<le> t \<and> (\<forall>w. w \<in> dom (version_map s k) \<and> w \<le> t \<longrightarrow> w \<le> u)"
      by (auto simp: in_ys)
  next
    assume a: "version_map s k u = Some v \<and> u \<le> t \<and> (\<forall>w. w \<in> dom (version_map s k) \<and> w \<le> t \<longrightarrow> w \<le> u)"
    then have m: "VersionedValue u v \<in> set ys" by (simp add: in_ys)
    then have ne: "ys \<noteq> []" by auto
    obtain w x where l: "last ys = VersionedValue w x" by (cases "last ys")
    then have lm: "VersionedValue w x \<in> set ys" using ne by (metis last_in_set)
    have "u \<le> w" using sorted_last [OF ys(1) m] l by simp
    moreover have "w \<le> u" using a lm by (auto simp: in_ys)
    ultimately have "w = u" by simp
    then have "x = v" using lm m by (simp add: in_ys)
    then show "vs_get_at s k t = Some (u, v)" using l ne \<open>w = u\<close> by (simp add: get)
  qed
qed

lemma versions_of_put [simp]:
  "versions_of (vs_put s k v t) j = (if j = k then set_insert (VersionedValue t v) (versions_of s k) else versions_of s j)"
  by (simp add: versions_of_def vs_put_def)

lemma store_ok_put: "store_ok s \<Longrightarrow> store_ok (vs_put s k v t)"
  by (simp add: store_ok_def sorted_set_insert)

lemma version_map_put:
  assumes "store_ok s"
  shows "version_map (vs_put s k v t) j =
     (if j = k \<and> version_map s k t = None then (version_map s k)(t \<mapsto> v) else version_map s j)"
proof (cases "j = k")
  case True
  have so: "sorted_wrt (<) (map vv_write (versions_of s k))" using assms by (simp add: store_ok_def)
  have vm: "version_map s k w = Some x \<longleftrightarrow> VersionedValue w x \<in> set (versions_of s k)" for w x
    unfolding version_map_def by (rule sorted_map_of [OF so])
  have taken: "(\<exists>x\<in>set (versions_of s k). vv_write x = t) \<longleftrightarrow> version_map s k t \<noteq> None"
    unfolding not_None_eq vm by (metis VersionedValue.collapse VersionedValue.sel(1))
  have "version_map (vs_put s k v t) k w = Some x \<longleftrightarrow>
      (if version_map s k t = None then (version_map s k)(t \<mapsto> v) else version_map s k) w = Some x" for w x
  proof -
    have "version_map (vs_put s k v t) k w = Some x \<longleftrightarrow> VersionedValue w x \<in> set (set_insert (VersionedValue t v) (versions_of s k))"
      unfolding version_map_def versions_of_put by (simp add: sorted_map_of sorted_set_insert so)
    also have "\<dots> \<longleftrightarrow> (if version_map s k t = None then (version_map s k)(t \<mapsto> v) else version_map s k) w = Some x"
    proof (cases "version_map s k t")
      case None
      then have free: "\<forall>x\<in>set (versions_of s k). vv_write x \<noteq> t" using taken by blast
      then have "set (set_insert (VersionedValue t v) (versions_of s k)) = insert (VersionedValue t v) (set (versions_of s k))"
        using set_set_insert [OF so, of "VersionedValue t v"] by auto
      then show ?thesis using None free vm by auto
    next
      case (Some y)
      then have "set (set_insert (VersionedValue t v) (versions_of s k)) = set (versions_of s k)"
        using set_set_insert [OF so, of "VersionedValue t v"] taken by auto
      moreover have "(if version_map s k t = None then (version_map s k)(t \<mapsto> v) else version_map s k) = version_map s k"
        using Some by simp
      ultimately show ?thesis by (simp only: vm)
    qed
    finally show ?thesis .
  qed
  then have "version_map (vs_put s k v t) k = (if version_map s k t = None then (version_map s k)(t \<mapsto> v) else version_map s k)"
    by (intro ext) (metis not_None_eq)
  then show ?thesis using True by simp
qed (simp add: version_map_def)

interpretation versioned: snapshot_store store_ok version_map vs_get_at vs_put
proof
  show "store_ok (vs_put s k v t)" if "store_ok s" for s k v t using that by (rule store_ok_put)
  show "finite (dom (version_map s k))" for s k unfolding version_map_def by (rule finite_dom_map_of)
qed (rule version_map_put vs_get_at_newest; assumption)+

lemma store_ok_new: "store_ok VersionedKVStore_new"
  by (simp add: store_ok_def versions_of_def VersionedKVStore_new_def)

lemma version_map_new: "version_map VersionedKVStore_new k = Map.empty"
  by (simp add: version_map_def versions_of_def VersionedKVStore_new_def)

lemma version_map_sorted:
  assumes "store_ok s"
  shows "version_map s k u = Some v \<longleftrightarrow> VersionedValue u v \<in> set (versions_of s k)"
  using assms unfolding version_map_def store_ok_def by (simp add: sorted_map_of)

lemma vs_get_newest:
  assumes "store_ok s"
  shows "vs_get s k = Some (u, v) \<longleftrightarrow> version_map s k u = Some v \<and> (\<forall>w\<in>dom (version_map s k). w \<le> u)"
proof -
  let ?xs = "versions_of s k"
  have so: "sorted_wrt (<) (map vv_write ?xs)" using assms by (simp add: store_ok_def)
  have get: "vs_get s k = (if ?xs = [] then None else Some (vv_write (last ?xs), vv_value (last ?xs)))"
    by (auto simp: vs_get_def inStore_def versions_of_def Let_def split: option.splits)
  have last: "?xs \<noteq> [] \<Longrightarrow> last ?xs \<in> set ?xs \<and> (\<forall>x\<in>set ?xs. vv_write x \<le> vv_write (last ?xs))"
    using sorted_last [OF so] by simp
  have dom: "(\<forall>w\<in>dom (version_map s k). w \<le> u) \<longleftrightarrow> (\<forall>x\<in>set ?xs. vv_write x \<le> u)" for u
    by (auto simp: dom_def version_map_sorted [OF assms]) (metis VersionedValue.collapse)
  show ?thesis
  proof
    assume "vs_get s k = Some (u, v)"
    then have "last ?xs = VersionedValue u v" "?xs \<noteq> []" by (auto simp: get split: if_splits)
    then show "version_map s k u = Some v \<and> (\<forall>w\<in>dom (version_map s k). w \<le> u)"
      using last unfolding dom version_map_sorted [OF assms] by auto
  next
    assume a: "version_map s k u = Some v \<and> (\<forall>w\<in>dom (version_map s k). w \<le> u)"
    then have m: "VersionedValue u v \<in> set ?xs" "\<forall>x\<in>set ?xs. vv_write x \<le> u"
      unfolding dom version_map_sorted [OF assms] by auto
    then have ne: "?xs \<noteq> []" by auto
    obtain w x where l: "last ?xs = VersionedValue w x" by (cases "last ?xs")
    have "w = u" using last [OF ne] m l by (metis VersionedValue.sel(1) order_antisym)
    then have "version_map s k u = Some x" using last [OF ne] l unfolding version_map_sorted [OF assms] by simp
    then show "vs_get s k = Some (u, v)" using a l ne \<open>w = u\<close> by (simp add: get)
  qed
qed

section \<open>Properties of the versioned store\<close>

text \<open>C35. The versioned store is a multi-version map.  After any history of puts on a fresh store, a read at a timestamp
  returns the newest version of the key that is not newer than the timestamp, the plain read returns
  the newest version of all, and the version at a timestamp is the value of the first put that used the timestamp.\<close>

theorem versioned_reads_history:
  "let s = foldl (\<lambda>s (j, v, u). vs_put s j v u) VersionedKVStore_new ws;
       history = (\<lambda>u. map_of (map (\<lambda>(j, v, u). ((j, u), v)) ws) (k, u))
   in (\<forall>u v. vs_get_at s k t = Some (u, v) \<longleftrightarrow> history u = Some v \<and> u \<le> t \<and> (\<forall>w\<in>dom history. w \<le> t \<longrightarrow> w \<le> u)) \<and>
      (\<forall>u v. vs_get s k = Some (u, v) \<longleftrightarrow> history u = Some v \<and> (\<forall>w\<in>dom history. w \<le> u))"
proof -
  define s where "s = foldl (\<lambda>s (j, v, u). vs_put s j v u) VersionedKVStore_new ws"
  have ok: "store_ok s" and "\<And>u. version_map s k u = map_of (map (\<lambda>(j, v, u). ((j, u), v)) ws) (k, u)"
    using versioned.versions_run [OF store_ok_new version_map_new] unfolding s_def by blast+
  then have vm: "version_map s k = (\<lambda>u. map_of (map (\<lambda>(j, v, u). ((j, u), v)) ws) (k, u))" by (intro ext)
  show ?thesis
    unfolding Let_def s_def [symmetric] vm [symmetric]
    using vs_get_at_newest [OF ok] vs_get_newest [OF ok] by blast
qed

definition store_history :: "(string \<times> string \<times> Timestamp) list" where
  "store_history = [(''x'', ''a'', Timestamp 3 0), (''x'', ''b'', Timestamp 7 1), (''y'', ''c'', Timestamp 5 0),
     (''x'', ''d'', Timestamp 3 0), (''x'', ''e'', Timestamp 5 2)]"

theorem versioned_reads_history_witness:
  "vs_get_at (foldl (\<lambda>s (j, v, u). vs_put s j v u) VersionedKVStore_new store_history) ''x'' (Timestamp 4 9) =
     Some (Timestamp 3 0, ''a'') \<and>
   map_of (map (\<lambda>(j, v, u). ((j, u), v)) store_history) (''x'', Timestamp 3 0) = Some ''a'' \<and> Timestamp 3 0 \<le> Timestamp 4 9"
proof -
  have e: "vs_get_at (foldl (\<lambda>s (j, v, u). vs_put s j v u) VersionedKVStore_new store_history) ''x'' (Timestamp 4 9) =
      Some (Timestamp 3 0, ''a'')" by code_simp
  then show ?thesis
    using versioned_reads_history [of store_history "''x''" "Timestamp 4 9"] unfolding Let_def by blast
qed

text \<open>Snapshots are stable: what a transaction reads at a timestamp does not change whatever is put later
  under newer timestamps or under other keys.\<close>

theorem snapshot_reads_stable:
  assumes "\<forall>(j, v, u)\<in>set ws'. j = k \<longrightarrow> t < u"
  shows "vs_get_at (foldl (\<lambda>s (j, v, u). vs_put s j v u) VersionedKVStore_new (ws @ ws')) k t =
    vs_get_at (foldl (\<lambda>s (j, v, u). vs_put s j v u) VersionedKVStore_new ws) k t"
proof -
  have "store_ok (foldl (\<lambda>s (j, v, u). vs_put s j v u) VersionedKVStore_new ws)"
    using versioned.versions_run [OF store_ok_new version_map_new] by blast
  then show ?thesis using versioned.snapshot_stable [OF _ assms] by simp
qed

theorem snapshot_reads_stable_witness:
  "vs_get_at (foldl (\<lambda>s (j, v, u). vs_put s j v u) VersionedKVStore_new
      ([(''x'', ''a'', Timestamp 3 0)] @ [(''y'', ''c'', Timestamp 1 0), (''x'', ''b'', Timestamp 7 1)])) ''x'' (Timestamp 5 0) =
    Some (Timestamp 3 0, ''a'')"
proof -
  have c: "\<forall>(j, v, u)\<in>set [(''y'', ''c'', Timestamp 1 0), (''x'', ''b'', Timestamp 7 1)]. j = ''x'' \<longrightarrow> Timestamp 5 0 < u"
    by code_simp
  have "vs_get_at (foldl (\<lambda>s (j, v, u). vs_put s j v u) VersionedKVStore_new [(''x'', ''a'', Timestamp 3 0)]) ''x'' (Timestamp 5 0) =
      Some (Timestamp 3 0, ''a'')" by code_simp
  then show ?thesis using snapshot_reads_stable [OF c, of "[(''x'', ''a'', Timestamp 3 0)]"] by simp
qed

text \<open>\<^verbatim>\<open>getRange\<close> brackets the version that is valid at a timestamp: it succeeds exactly when the read at the
  timestamp does, starts at the version read, and ends at the oldest version that is newer than
  the timestamp; when there is none, the end the caller passed in stays.\<close>

theorem getRange_brackets:
  assumes ok: "store_ok s"
  shows "case vs_get_at s k t of
      None \<Rightarrow> getRange s k t rng = (rng, False)
    | Some (u, v) \<Rightarrow> \<exists>e. getRange s k t rng = ((u, e), True) \<and>
        (if \<forall>w\<in>dom (version_map s k). w \<le> t then e = snd rng
         else e \<in> dom (version_map s k) \<and> t < e \<and> (\<forall>w\<in>dom (version_map s k). t < w \<longrightarrow> e \<le> w))"
proof -
  let ?xs = "versions_of s k" and ?P = "\<lambda>x. vv_write x \<le> t"
  define n where "n = length (takeWhile ?P ?xs)"
  have so: "sorted_wrt (<) (map vv_write ?xs)" using ok by (simp add: store_ok_def)
  have dom: "dom (version_map s k) = vv_write ` set ?xs"
    by (auto simp: dom_def version_map_sorted [OF ok] image_iff) (metis VersionedValue.sel(1), metis VersionedValue.collapse)
  have gv: "getValue s k t = (if n = 0 then length ?xs else n - 1)"
    by (simp add: getValue_def upper_bound_def Let_def not_less n_def)
  have nle: "n \<le> length ?xs" unfolding n_def by (rule length_takeWhile_le)
  have before: "vv_write (?xs ! i) \<le> t" if "i < n" for i
    using that nth_mem [of i "takeWhile ?P ?xs"] unfolding n_def by (metis set_takeWhileD takeWhile_nth)
  have after: "t < vv_write (?xs ! n)" if "n < length ?xs"
    using that nth_length_takeWhile [of ?P ?xs] unfolding n_def by simp
  have mono: "vv_write (?xs ! i) \<le> vv_write (?xs ! j)" if "i \<le> j" "j < length ?xs" for i j
    using so that by (cases "i = j") (auto simp: sorted_wrt_iff_nth_less less_imp_le)
  show ?thesis
  proof (cases "n = 0")
    case True
    then have "takeWhile ?P ?xs = []" by (simp add: n_def)
    then show ?thesis using True by (simp add: vs_get_at_last getRange_def gv)
  next
    case False
    have lt: "n - 1 < length ?xs" using False nle by linarith
    have "inStore s k" using False nle by (auto simp: inStore_def versions_of_def split: option.splits)
    then have get: "vs_get_at s k t = Some (vv_write (?xs ! (n - 1)), vv_value (?xs ! (n - 1)))"
      and rng: "getRange s k t rng = ((vv_write (?xs ! (n - 1)), if n \<noteq> length ?xs then vv_write (?xs ! n) else snd rng), True)"
      using False lt by (auto simp: vs_get_at_def getRange_def gv Let_def)
    have all: "(\<forall>w\<in>dom (version_map s k). w \<le> t) \<longleftrightarrow> n = length ?xs"
      unfolding dom using before after nle by (auto simp: all_set_conv_all_nth) (metis le_neq_implies_less not_le)
    have "e \<le> w" if "n < length ?xs" "w \<in> dom (version_map s k)" "t < w" "e = vv_write (?xs ! n)" for e w
      using that before mono unfolding dom by (auto simp: in_set_conv_nth) (metis not_le not_less)
    then show ?thesis using all after nle unfolding get rng by (auto simp: dom)
  qed
qed

theorem getRange_brackets_witness:
  "getRange (vs_put (vs_put VersionedKVStore_new ''x'' ''a'' (Timestamp 3 0)) ''x'' ''b'' (Timestamp 7 1)) ''x''
     (Timestamp 4 0) (Timestamp 0 0, Timestamp 0 0) = ((Timestamp 3 0, Timestamp 7 1), True)"
proof -
  let ?s = "vs_put (vs_put VersionedKVStore_new ''x'' ''a'' (Timestamp 3 0)) ''x'' ''b'' (Timestamp 7 1)"
  have ok: "store_ok ?s" by (intro store_ok_put store_ok_new)
  have g: "vs_get_at ?s ''x'' (Timestamp 4 0) = Some (Timestamp 3 0, ''a'')" by code_simp
  have d: "dom (version_map ?s ''x'') = {Timestamp 3 0, Timestamp 7 1}"
    by (auto simp: version_map_put store_ok_put store_ok_new version_map_new)
  have "Timestamp 3 0 \<le> Timestamp 4 0" "Timestamp 4 0 < Timestamp 7 1" by code_simp+
  then show ?thesis using getRange_brackets [OF ok, of "''x''" "Timestamp 4 0" "(Timestamp 0 0, Timestamp 0 0)"]
    unfolding g d by (auto split: if_splits)
qed

text \<open>No read is ever recorded: \<^verbatim>\<open>commitGet\<close> only raises a timestamp that is already in \<^verbatim>\<open>lastReads\<close> and nothing
  else writes that map, so after any history of puts and committed reads \<^verbatim>\<open>getLastRead\<close> finds nothing and committing a
  read changes nothing.\<close>

theorem reads_never_recorded:
  "let s = foldl store_step VersionedKVStore_new cs
   in getLastRead s k = None \<and> getLastRead_at s k t \<in> {Inr None, Inl AssertFailed} \<and> commitGet s k r c = s"
proof -
  have "vs_lastReads (foldl store_step VersionedKVStore_new cs) = (\<lambda>_. None)"
  proof (induction cs rule: rev_induct)
    case Nil
    then show ?case by (simp add: VersionedKVStore_new_def)
  next
    case (snoc c cs)
    then show ?case by (cases c) (auto simp: store_step_def vs_put_def commitGet_def Let_def)
  qed
  then show ?thesis by (auto simp: Let_def getLastRead_def getLastRead_at_def commitGet_def check_def)
qed

section \<open>Transactions\<close>

text \<open>
  The read and write sets of a transaction and the message that carries them.  The code iterates over
  unordered maps, whose iteration order it cannot know: \<open>serialize\<close> takes the two orders as arguments.
\<close>

record TimestampMessage =
  tsm_id :: u64
  tsm_timestamp :: u64

definition timestamp_serialize :: "Timestamp \<Rightarrow> TimestampMessage" where
  "timestamp_serialize t = \<lparr>tsm_id = ts_id t, tsm_timestamp = ts_timestamp t\<rparr>"

definition Timestamp_of_message :: "TimestampMessage \<Rightarrow> Timestamp" where
  "Timestamp_of_message m = Timestamp (tsm_timestamp m) (tsm_id m)"

record ReadMessage =
  rdm_key :: string
  rdm_readtime :: TimestampMessage

record WriteMessage =
  wrm_key :: string
  wrm_value :: string

record TransactionMessage =
  tm_readset :: "ReadMessage list"
  tm_writeset :: "WriteMessage list"

record Transaction =
  tx_readSet :: "string \<Rightarrow> Timestamp option"
  tx_writeSet :: "string \<Rightarrow> string option"

definition Transaction_new :: Transaction where
  "Transaction_new = \<lparr>tx_readSet = (\<lambda>_. None), tx_writeSet = (\<lambda>_. None)\<rparr>"

definition addReadSet :: "Transaction \<Rightarrow> string \<Rightarrow> Timestamp \<Rightarrow> Transaction" where
  "addReadSet tx key readTime = tx\<lparr>tx_readSet := (tx_readSet tx)(key \<mapsto> readTime)\<rparr>"

definition addWriteSet :: "Transaction \<Rightarrow> string \<Rightarrow> string \<Rightarrow> Transaction" where
  "addWriteSet tx key v = tx\<lparr>tx_writeSet := (tx_writeSet tx)(key \<mapsto> v)\<rparr>"

definition Transaction_of_message :: "TransactionMessage \<Rightarrow> Transaction" where
  "Transaction_of_message msg =
     \<lparr>tx_readSet = foldl (\<lambda>m r. m(rdm_key r \<mapsto> Timestamp_of_message (rdm_readtime r))) (\<lambda>_. None) (tm_readset msg),
      tx_writeSet = foldl (\<lambda>m w. m(wrm_key w \<mapsto> wrm_value w)) (\<lambda>_. None) (tm_writeset msg)\<rparr>"

text \<open>The pairs of an unordered map in an iteration order.\<close>

definition iterate_map :: "(string \<Rightarrow> 'v option) \<Rightarrow> string list \<Rightarrow> (string \<times> 'v) list" where
  "iterate_map m ks = List.map_filter (\<lambda>k. map_option (\<lambda>v. (k, v)) (m k)) ks"

definition Transaction_serialize :: "Transaction \<Rightarrow> string list \<Rightarrow> string list \<Rightarrow> TransactionMessage" where
  "Transaction_serialize tx reads writes =
     \<lparr>tm_readset = map (\<lambda>(k, t). \<lparr>rdm_key = k, rdm_readtime = timestamp_serialize t\<rparr>) (iterate_map (tx_readSet tx) reads),
      tm_writeset = map (\<lambda>(k, v). \<lparr>wrm_key = k, wrm_value = v\<rparr>) (iterate_map (tx_writeSet tx) writes)\<rparr>"

lemma timestamp_roundtrip [simp]: "Timestamp_of_message (timestamp_serialize t) = t"
  by (simp add: Timestamp_of_message_def timestamp_serialize_def)

lemma iterate_map_Cons [simp]:
  "iterate_map m [] = []"
  "iterate_map m (k # ks) = (case m k of None \<Rightarrow> iterate_map m ks | Some v \<Rightarrow> (k, v) # iterate_map m ks)"
  by (auto simp: iterate_map_def map_filter_simps split: option.splits)

lemma fold_iterate_map:
  "foldl (\<lambda>n (k, v). n(k \<mapsto> v)) n (iterate_map m ks) = (\<lambda>k. if k \<in> set ks \<and> m k \<noteq> None then m k else n k)"
  by (induction ks arbitrary: n) (auto simp: fun_eq_iff split: option.splits)

lemma fold_iterate_dom:
  "set ks = dom m \<Longrightarrow> foldl (\<lambda>n (k, v). n(k \<mapsto> v)) Map.empty (iterate_map m ks) = m"
  by (auto simp: fold_iterate_map fun_eq_iff)

text \<open>C39. A transaction survives its message: in whatever order the code iterates over the two unordered maps, reading the
  serialized message back gives the same read set with the same timestamps and the same write set.\<close>

theorem Transaction_roundtrip:
  assumes "set reads = dom (tx_readSet tx)" and "set writes = dom (tx_writeSet tx)"
  shows "Transaction_of_message (Transaction_serialize tx reads writes) = (tx :: Transaction)"
proof -
  have "foldl (\<lambda>m r. m(rdm_key r \<mapsto> Timestamp_of_message (rdm_readtime r))) Map.empty (tm_readset (Transaction_serialize tx reads writes)) =
      foldl (\<lambda>n (k, v). n(k \<mapsto> v)) Map.empty (iterate_map (tx_readSet tx) reads)"
    by (simp add: Transaction_serialize_def foldl_map case_prod_unfold)
  moreover have "foldl (\<lambda>m w. m(wrm_key w \<mapsto> wrm_value w)) Map.empty (tm_writeset (Transaction_serialize tx reads writes)) =
      foldl (\<lambda>n (k, v). n(k \<mapsto> v)) Map.empty (iterate_map (tx_writeSet tx) writes)"
    by (simp add: Transaction_serialize_def foldl_map case_prod_unfold)
  ultimately show ?thesis
    unfolding Transaction_of_message_def by (simp add: fold_iterate_dom assms)
qed

theorem Transaction_roundtrip_witness:
  "Transaction_of_message (Transaction_serialize
     (addWriteSet (addReadSet (addReadSet Transaction_new ''x'' (Timestamp 3 1)) ''y'' (Timestamp 2 0)) ''z'' ''v'')
     [''y'', ''x''] [''z'']) =
   addWriteSet (addReadSet (addReadSet Transaction_new ''x'' (Timestamp 3 1)) ''y'' (Timestamp 2 0)) ''z'' ''v''"
  by (rule Transaction_roundtrip) (auto simp: addWriteSet_def addReadSet_def Transaction_new_def)

end
