(* ===== verification/KVTxnServer.thy ===== *)
theory KVTxnServer
  imports LockServer Stores "HOL-Library.List_Lexorder" "HOL-Library.Char_ord" "HOL-Library.Product_Lexorder"
begin

text \<open>
  The transactional key-value server, \<^verbatim>\<open>transaction/apps/kvstore/txnserver.cc\<close>: it parses a transaction into a read
  and a write set, acquires the locks of both from its \<^verbatim>\<open>LockServer\<close>, runs the reads and writes against its
  \<^verbatim>\<open>KVStore\<close> and releases the locks, reporting the transactions the release has unblocked.

  A pending transaction is shared through a pointer: the model keeps it in \<^verbatim>\<open>pendingTxns\<close> only and writes it back
  after every change.  Messages are records; an empty request string is \<open>None\<close>.  The code iterates over
  two unordered sets (the read set and the new holders of a lock) in an order it does not determine: \<open>rord\<close> and
  \<open>hord\<close> give the order in which the elements of a set are visited.
\<close>

section \<open>Data\<close>

datatype txntype_t = TXN_PREPARE | TXN_COMMIT | TXN_ABORT | TXN_INDEP

datatype servermode_t = MODE_NORMAL | MODE_LOCKING

record txnarg_t =
  ta_txnid :: u64
  ta_type :: txntype_t

record txnret_t =
  tr_txnid :: u64
  tr_blocked :: bool
  tr_commit :: bool
  tr_unblocked_txns :: "u64 set"
  tr_mode :: servermode_t

record KVTxnMessage =
  kvm_gets :: "string list"
  kvm_puts :: "(string \<times> string) list"

record KVTxnReplyMessage =
  kvr_success :: bool
  kvr_rgets :: "(string \<times> string) list"

text \<open>The write set is a \<^verbatim>\<open>std::set\<close> of pairs, kept in the lexicographic order of keys and values.\<close>

record kvtxn_t =
  kt_txnarg :: txnarg_t
  kt_readSet :: "string set"
  kt_writeSet :: "(string \<times> string) list"
  kt_blockedKeys :: "string set"

record KVTxnServer =
  kvs_retryLock :: bool
  kvs_store :: KVStore
  kvs_lockServer :: LockServer
  kvs_mode :: servermode_t
  kvs_pendingTxns :: "(u64 \<times> kvtxn_t) list"

definition put_txn :: "KVTxnServer \<Rightarrow> u64 \<Rightarrow> kvtxn_t \<Rightarrow> KVTxnServer" where
  "put_txn s h tx = s\<lparr>kvs_pendingTxns := smap_put h tx (kvs_pendingTxns s)\<rparr>"

section \<open>Construction\<close>

text \<open>The hash that places a key on a shard, computed by the server and by \<^verbatim>\<open>KVClient::key_to_shard\<close>; a \<^verbatim>\<open>char\<close> is
  signed on the platforms the repository builds for, so its conversion to 64 bits extends the sign.\<close>

definition char_u64 :: "char \<Rightarrow> u64" where
  "char_u64 c = (let n = of_char c :: int in word_of_int (if 128 \<le> n then n - 256 else n))"

definition key_hash :: "string \<Rightarrow> u64" where
  "key_hash key = foldl (\<lambda>hash c. (push_bit 5 hash + hash) + char_u64 c) 5381 key"

definition key_to_shard :: "string \<Rightarrow> u32 \<Rightarrow> u32 result" where
  "key_to_shard key nshards =
     (if nshards = 0 then Inl UndefinedBehaviour else Inr (ucast (key_hash key mod ucast nshards)))"

text \<open>The constructor loads the keys of its shard; \<open>keys\<close> are the lines it reads from the key file, none when it is
  given no file.\<close>

definition load_key :: "u32 \<Rightarrow> u32 \<Rightarrow> KVStore \<Rightarrow> string \<Rightarrow> KVStore result" where
  "load_key myShard nShards store key =
     (if nShards = 0 then Inl UndefinedBehaviour
      else Inr (if key_hash key mod ucast nShards = ucast myShard then fst (kv_put store key ''null'') else store))"

definition KVTxnServer_new :: "bool \<Rightarrow> u32 \<Rightarrow> u32 \<Rightarrow> string list \<Rightarrow> KVTxnServer result" where
  "KVTxnServer_new retry myShard nShards keys =
     rbind (fold_r (load_key myShard nShards) KVStore_new keys) (\<lambda>store.
       Inr \<lparr>kvs_retryLock = retry, kvs_store = store, kvs_lockServer = LockServer_new retry,
            kvs_mode = MODE_NORMAL, kvs_pendingTxns = []\<rparr>)"

section \<open>Releasing locks\<close>

definition unblock :: "string \<Rightarrow> KVTxnServer \<times> u64 set \<Rightarrow> u64 \<Rightarrow> (KVTxnServer \<times> u64 set) result" where
  "unblock key su holder =
     (case map_of (kvs_pendingTxns (fst su)) holder of
        None \<Rightarrow> Inl AssertFailed
      | Some tx \<Rightarrow>
          check (key \<in> kt_blockedKeys tx) AssertFailed
            (let tx' = tx\<lparr>kt_blockedKeys := kt_blockedKeys tx - {key}\<rparr>
             in Inr (put_txn (fst su) holder tx', if kt_blockedKeys tx' = {} then insert holder (snd su) else snd su)))"

definition release_key ::
  "(LockServer \<Rightarrow> string \<Rightarrow> u64 \<Rightarrow> u64 set \<Rightarrow> (LockServer \<times> u64 set) result) \<Rightarrow> (u64 set \<Rightarrow> u64 list) \<Rightarrow> u64 \<Rightarrow>
   KVTxnServer \<times> u64 set \<Rightarrow> string \<Rightarrow> (KVTxnServer \<times> u64 set) result" where
  "release_key release hord txnid su key =
     rbind (release (kvs_lockServer (fst su)) key txnid {}) (\<lambda>(ls, newholders).
       check (kvs_retryLock (fst su) \<longrightarrow> newholders = {}) AssertFailed
         (fold_r (unblock key) ((fst su)\<lparr>kvs_lockServer := ls\<rparr>, snd su) (hord newholders)))"

definition ReleaseLocks ::
  "(string set \<Rightarrow> string list) \<Rightarrow> (u64 set \<Rightarrow> u64 list) \<Rightarrow> KVTxnServer \<Rightarrow> kvtxn_t \<Rightarrow> u64 set \<Rightarrow>
   (KVTxnServer \<times> u64 set) result" where
  "ReleaseLocks rord hord s tx unblocked =
     rbind (fold_r (release_key releaseForRead hord (ta_txnid (kt_txnarg tx))) (s, unblocked) (rord (kt_readSet tx)))
       (\<lambda>su. fold_r (release_key releaseForWrite hord (ta_txnid (kt_txnarg tx))) su (map fst (kt_writeSet tx)))"

text \<open>\<^verbatim>\<open>txn\<close> is pending when it is cleaned up, so its blocked keys are those of the pending entry.\<close>

definition CleanupTxn ::
  "(string set \<Rightarrow> string list) \<Rightarrow> (u64 set \<Rightarrow> u64 list) \<Rightarrow> KVTxnServer \<Rightarrow> kvtxn_t \<Rightarrow> u64 set \<Rightarrow>
   (KVTxnServer \<times> u64 set) result" where
  "CleanupTxn rord hord s tx unblocked =
     rbind (ReleaseLocks rord hord s tx unblocked) (\<lambda>(s', u).
       case map_of (kvs_pendingTxns s') (ta_txnid (kt_txnarg tx)) of
         None \<Rightarrow> Inl UndefinedBehaviour
       | Some tx' \<Rightarrow>
           check (kt_blockedKeys tx' = {}) AssertFailed
             (Inr (s'\<lparr>kvs_pendingTxns := filter (\<lambda>(h, _). h \<noteq> ta_txnid (kt_txnarg tx)) (kvs_pendingTxns s')\<rparr>, u)))"

section \<open>Executing a transaction\<close>

definition read_keys :: "KVStore \<Rightarrow> string list \<Rightarrow> (string \<times> string) list \<times> bool" where
  "read_keys store keys = (map (\<lambda>k. (k, fst (kv_get store k))) keys, list_all (\<lambda>k. snd (kv_get store k)) keys)"

definition write_pairs :: "KVStore \<Rightarrow> (string \<times> string) list \<Rightarrow> KVStore" where
  "write_pairs store kvs = foldl (\<lambda>st (k, v). fst (kv_put st k v)) store kvs"

definition ExecuteTransaction ::
  "(string set \<Rightarrow> string list) \<Rightarrow> (u64 set \<Rightarrow> u64 list) \<Rightarrow> KVTxnServer \<Rightarrow> kvtxn_t \<Rightarrow>
   (KVTxnServer \<times> KVTxnReplyMessage \<times> bool \<times> u64 set) result" where
  "ExecuteTransaction rord hord s tx =
     check (kt_blockedKeys tx = {}) AssertFailed
       (let ty = ta_type (kt_txnarg tx);
            (rgets, status) = (if ty = TXN_PREPARE \<or> ty = TXN_INDEP then read_keys (kvs_store s) (rord (kt_readSet tx)) else ([], True));
            s1 = (if ty = TXN_INDEP \<or> ty = TXN_COMMIT then s\<lparr>kvs_store := write_pairs (kvs_store s) (kt_writeSet tx)\<rparr> else s)
        in rbind (if ty \<noteq> TXN_PREPARE \<and> map_of (kvs_pendingTxns s1) (ta_txnid (kt_txnarg tx)) \<noteq> None
                  then CleanupTxn rord hord s1 tx {} else Inr (s1, {}))
             (\<lambda>(s2, u). Inr (s2, \<lparr>kvr_success = status, kvr_rgets = rgets\<rparr>, status, u)))"

section \<open>Invoking a transaction\<close>

definition acquire_key ::
  "(LockServer \<Rightarrow> string \<Rightarrow> u64 \<Rightarrow> (LockServer \<times> bool) result) \<Rightarrow> bool \<Rightarrow> u64 \<Rightarrow>
   LockServer \<times> kvtxn_t \<times> bool \<Rightarrow> string \<Rightarrow> (LockServer \<times> kvtxn_t \<times> bool) result" where
  "acquire_key lock retry txnid st key =
     (case st of (ls, tx, blocked) \<Rightarrow>
        rbind (lock ls key txnid) (\<lambda>(ls', got).
          if got then Inr (ls', tx, blocked)
          else Inr (ls', if retry then tx else tx\<lparr>kt_blockedKeys := insert key (kt_blockedKeys tx)\<rparr>, True)))"

definition acquire_locks ::
  "(string set \<Rightarrow> string list) \<Rightarrow> bool \<Rightarrow> LockServer \<Rightarrow> kvtxn_t \<Rightarrow> (LockServer \<times> kvtxn_t \<times> bool) result" where
  "acquire_locks rord retry ls tx =
     rbind (fold_r (acquire_key lockForRead retry (ta_txnid (kt_txnarg tx))) (ls, tx, False) (rord (kt_readSet tx)))
       (\<lambda>st. fold_r (acquire_key lockForWrite retry (ta_txnid (kt_txnarg tx))) st (map fst (kt_writeSet tx)))"

definition add_ops :: "kvtxn_t \<Rightarrow> KVTxnMessage \<Rightarrow> kvtxn_t" where
  "add_ops tx m = tx\<lparr>kt_readSet := kt_readSet tx \<union> set (kvm_gets m),
     kt_writeSet := foldl (\<lambda>ws p. insort_insert p ws) (kt_writeSet tx) (kvm_puts m)\<rparr>"

text \<open>The transaction the call works on: the pending one or a new one, with the argument and the parsed request.\<close>

definition current_txn :: "KVTxnServer \<Rightarrow> KVTxnMessage option \<Rightarrow> txnarg_t \<Rightarrow> kvtxn_t" where
  "current_txn s txn arg =
     (let tx = (case map_of (kvs_pendingTxns s) (ta_txnid arg) of
                  Some t \<Rightarrow> t\<lparr>kt_txnarg := arg\<rparr>
                | None \<Rightarrow> \<lparr>kt_txnarg = arg, kt_readSet = {}, kt_writeSet = [], kt_blockedKeys = {}\<rparr>)
      in if ta_type arg = TXN_PREPARE \<or> ta_type arg = TXN_INDEP
         then (case txn of None \<Rightarrow> tx | Some m \<Rightarrow> add_ops tx m) else tx)"

definition lock_phase ::
  "(string set \<Rightarrow> string list) \<Rightarrow> KVTxnServer \<Rightarrow> kvtxn_t \<Rightarrow> (KVTxnServer \<times> kvtxn_t \<times> bool) result" where
  "lock_phase rord s tx =
     (let id = ta_txnid (kt_txnarg tx); ty = ta_type (kt_txnarg tx)
      in if ty = TXN_PREPARE \<or> (ty = TXN_INDEP \<and> kvs_mode s = MODE_LOCKING)
         then rbind (acquire_locks rord (kvs_retryLock s) (kvs_lockServer s) tx) (\<lambda>(ls, tx', blocked).
                Inr (put_txn (s\<lparr>kvs_lockServer := ls\<rparr>) id tx', tx', blocked))
         else Inr (if map_of (kvs_pendingTxns s) id \<noteq> None then put_txn s id tx else s, tx, False))"

definition InvokeTransaction ::
  "(string set \<Rightarrow> string list) \<Rightarrow> (u64 set \<Rightarrow> u64 list) \<Rightarrow> KVTxnServer \<Rightarrow> KVTxnMessage option \<Rightarrow> txnarg_t \<Rightarrow>
   (KVTxnServer \<times> KVTxnReplyMessage option \<times> txnret_t) result" where
  "InvokeTransaction rord hord s txn arg =
     rbind (lock_phase rord s (current_txn s txn arg)) (\<lambda>(s1, tx, blocked).
     rbind (if blocked then Inr (s1, None, False, {})
            else rbind (ExecuteTransaction rord hord s1 tx) (\<lambda>(s2, reply, status, u). Inr (s2, Some reply, status, u)))
       (\<lambda>(s2, reply, commit, u).
          let s3 = s2\<lparr>kvs_mode := (if kvs_pendingTxns s2 = [] then MODE_NORMAL else MODE_LOCKING)\<rparr>
          in Inr (s3, reply, \<lparr>tr_txnid = ta_txnid arg, tr_blocked = blocked, tr_commit = commit,
                    tr_unblocked_txns = u, tr_mode = kvs_mode s3\<rparr>)))"

definition kv_step ::
  "(string set \<Rightarrow> string list) \<Rightarrow> (u64 set \<Rightarrow> u64 list) \<Rightarrow> KVTxnServer \<Rightarrow> KVTxnMessage option \<times> txnarg_t \<Rightarrow>
   KVTxnServer result" where
  "kv_step rord hord s ev = rbind (InvokeTransaction rord hord s (fst ev) (snd ev)) (\<lambda>(s', _, _). Inr s')"

end
