(* ===== verification/LockHandoff.thy ===== *)
theory LockHandoff
  imports LockServer
begin

text \<open>
  Who gets a lock.  The clients of the lock server need more than mutual exclusion: a request changes nothing
  but the requester's own hold and place in the queue, and a release hands the lock exactly to the waiters it
  reports, in the modes they were waiting for, and takes them out of the queue.
\<close>

definition waiting :: "LockServer \<Rightarrow> string \<Rightarrow> u64 \<Rightarrow> Waiter option" where
  "waiting s k h = lk_waiters (lock_of s k) h"

lemma waiting_counters [simp]:
  "waiting (s\<lparr>readers := x\<rparr>) k = waiting s k" "waiting (s\<lparr>writers := x\<rparr>) k = waiting s k"
  by (simp_all add: waiting_def fun_eq_iff)

lemma waiting_put [simp]: "waiting (put_lock s k l) j h = (if j = k then lk_waiters l h else waiting s j h)"
  by (simp add: waiting_def)

lemma held_waiters [simp]:
  "read_held (l\<lparr>lk_waiters := m\<rparr>) = read_held l" "write_held (l\<lparr>lk_waiters := m\<rparr>) = write_held l"
  by (simp_all add: read_held_def write_held_def)

section \<open>Requests\<close>

lemma read_switch_waiters:
  assumes "read_switch l r = Inr (l', d, got)"
  shows "(\<forall>h. h \<noteq> r \<longrightarrow> lk_waiters l' h = lk_waiters l h) \<and>
    (got \<longrightarrow> lk_waiters l' r \<in> {lk_waiters l r, None}) \<and>
    (\<not> got \<longrightarrow> lk_waiters l' r = Some (case lk_waiters l r of None \<Rightarrow> Waiter_new False | Some x \<Rightarrow> x\<lparr>wt_read := True\<rparr>))"
  using assms
  by (cases "lk_state l") (auto simp: read_switch_def tryAcquireLock_def waitForLock_def
      split: if_splits list.splits option.splits)

lemma write_switch_waiters:
  assumes "write_switch l r = Inr (l', d, got)"
  shows "(\<forall>h. h \<noteq> r \<longrightarrow> lk_waiters l' h = lk_waiters l h) \<and>
    (got \<longrightarrow> lk_waiters l' r \<in> {lk_waiters l r, None}) \<and>
    (\<not> got \<longrightarrow> lk_waiters l' r = Some (case lk_waiters l r of None \<Rightarrow> Waiter_new True | Some x \<Rightarrow> x\<lparr>wt_write := True\<rparr>))"
  using assms
  by (cases "lk_state l") (auto simp: write_switch_def tryAcquireLock_def waitForLock_def
      split: if_splits list.splits option.splits)

lemma lockForRead_waiting:
  assumes "lockForRead s k r = Inr (s', got)"
  shows "(\<forall>h. h \<noteq> r \<longrightarrow> waiting s' k h = waiting s k h) \<and> (got \<longrightarrow> waiting s' k r \<in> {waiting s k r, None}) \<and>
    (\<not> got \<longrightarrow> waiting s' k r = Some (case waiting s k r of None \<Rightarrow> Waiter_new False | Some x \<Rightarrow> x\<lparr>wt_read := True\<rparr>))"
  using assms by (auto simp: lockForRead_def waiting_def dest: read_switch_waiters)

lemma lockForWrite_waiting:
  assumes "lockForWrite s k r = Inr (s', got)"
  shows "(\<forall>h. h \<noteq> r \<longrightarrow> waiting s' k h = waiting s k h) \<and> (got \<longrightarrow> waiting s' k r \<in> {waiting s k r, None}) \<and>
    (\<not> got \<longrightarrow> waiting s' k r = Some (case waiting s k r of None \<Rightarrow> Waiter_new True | Some x \<Rightarrow> x\<lparr>wt_write := True\<rparr>))"
  using assms by (auto simp: lockForWrite_def waiting_def dest: write_switch_waiters)

section \<open>Releases\<close>

definition handoff :: "string \<Rightarrow> LockServer \<Rightarrow> LockServer \<Rightarrow> u64 set \<Rightarrow> bool" where
  "handoff k s s' N \<longleftrightarrow> wakes k s s' \<and> N \<subseteq> dom (waiting s k) \<and>
     (\<forall>h. h \<in> read_held (lock_of s' k) \<longrightarrow>
        h \<in> read_held (lock_of s k) \<or> h \<in> N \<and> (\<exists>x. waiting s k h = Some x \<and> wt_read x)) \<and>
     (\<forall>h. h \<in> write_held (lock_of s' k) \<longrightarrow>
        h \<in> write_held (lock_of s k) \<or> h \<in> N \<and> (\<exists>x. waiting s k h = Some x \<and> wt_write x)) \<and>
     (\<forall>h x. waiting s' k h = Some x \<longrightarrow> h \<notin> N \<and> waiting s k h = Some x)"

lemma handoff_refl: "handoff k s s {}"
  by (simp add: handoff_def)

text \<open>A refused requester changes nothing that counts.\<close>

lemma handoff_none:
  assumes "wakes k s s'" and "read_held (lock_of s' k) = read_held (lock_of s k)"
    and "write_held (lock_of s' k) = write_held (lock_of s k)"
    and "\<forall>h. h \<noteq> r \<longrightarrow> waiting s' k h = waiting s k h" and "waiting s' k r = waiting s k r"
  shows "handoff k s s' {}"
proof -
  have "waiting s' k h = waiting s k h" for h using assms(4,5) by (cases "h = r") auto
  then show ?thesis using assms(1,2,3) by (auto simp: handoff_def)
qed

lemma handoff_trans:
  assumes "handoff k s t {r}" and "handoff k t u N"
  shows "handoff k s u (insert r N)"
proof -
  have "wakes k s u" using assms wakes_trans unfolding handoff_def by blast
  then show ?thesis using assms unfolding handoff_def by (fastforce simp: dom_def)
qed

text \<open>A waiter at the front that is refused a write gets no read either, so nobody obtains a lock in part.\<close>

lemma refused_write_no_read:
  assumes ok: "lock_ok l" and q: "lk_waitQ l = r # q" and x: "lk_waiters l r = Some x" "wt_write x"
    and w: "write_switch l r = Inr (l1, d1, False)" and g: "read_switch l1 r = Inr (l2, d2, g)"
  shows "read_held l2 = read_held l \<and> write_held l2 = write_held l \<and> lk_waiters l2 r = (if wt_read x \<or> g then Some x else Some (x\<lparr>wt_read := True\<rparr>))"
proof -
  have nu: "lk_state l \<noteq> UNLOCKED" using w q by (auto simp: write_switch_def tryAcquireLock_def)
  have l1: "l1 = waitForLock l r True"
    using w nu by (cases "lk_state l") (auto simp: write_switch_def split: if_splits)
  have e: "waitForLock l r True = l" using x by (simp add: waitForLock_def fun_upd_idem)
  have l: "l1 = l" unfolding l1 e ..
  have wn: "isWriteNext l = Inr True" using q x by (simp add: isWriteNext_def)
  have nh: "r \<notin> lk_holders l" if "lk_state l \<noteq> LOCKED_FOR_READ"
    using w nu that ok by (cases "lk_state l") (auto simp: write_switch_def split: if_splits)
  have "(l2 = l \<and> g) \<or> (l2 = waitForLock l r False \<and> \<not> g)"
    using g nu nh wn unfolding l by (cases "lk_state l") (auto simp: read_switch_def split: if_splits)
  then show ?thesis using x by (auto simp: waitForLock_def)
qed

lemma writer_reads:
  assumes "r \<in> write_held l" and "read_switch l r = Inr (l', d, g)"
  shows g
  using assms by (cases "lk_state l") (auto simp: read_switch_def write_held_def)

lemma waiter_set_same: "wt_read x \<Longrightarrow> x\<lparr>wt_read := True\<rparr> = x" "wt_write x \<Longrightarrow> x\<lparr>wt_write := True\<rparr> = x"
  by simp_all

lemma read_waiter_handoff:
  assumes ok: "server_ok s" and x: "waiting s k r = Some x" "wt_read x"
    and run: "lockForRead s k r = Inr (s', got)"
  shows "(\<forall>h. h \<noteq> r \<longrightarrow> waiting s' k h = waiting s k h) \<and> waiting s' k r \<in> {Some x, None} \<and>
    (\<not> got \<longrightarrow> handoff k s s' {}) \<and> wakes k s s' \<and> write_held (lock_of s' k) = write_held (lock_of s k) \<and>
    read_held (lock_of s' k) \<subseteq> insert r (read_held (lock_of s k))"
proof -
  have S: "write_held (lock_of s' k) = write_held (lock_of s k)"
    "read_held (lock_of s' k) = (if got then insert r (read_held (lock_of s k)) else read_held (lock_of s k))"
    "wakes k s s'"
    using lockForRead_spec [OF ok, of k r] run by (auto simp: wakes_def)
  have W: "\<forall>h. h \<noteq> r \<longrightarrow> waiting s' k h = waiting s k h" "got \<longrightarrow> waiting s' k r \<in> {Some x, None}" "\<not> got \<longrightarrow> waiting s' k r = Some x"
    using lockForRead_waiting [OF run] x by (simp_all add: waiter_set_same)
  moreover have "\<not> got \<longrightarrow> handoff k s s' {}" using S W x(1) by (intro impI handoff_none) auto
  ultimately show ?thesis using S by auto
qed

lemma acquire_for_handoff:
  assumes ok: "server_ok s" and q: "lk_waitQ (lock_of s k) = r # q" and x: "waiting s k r = Some x"
    and run: "acquire_for s k r x = Inr (s', got)"
  shows "(\<forall>h. h \<noteq> r \<longrightarrow> waiting s' k h = waiting s k h) \<and> waiting s' k r \<in> {Some x, None} \<and>
    (\<not> got \<longrightarrow> handoff k s s' {}) \<and> wakes k s s' \<and>
    read_held (lock_of s' k) \<subseteq> read_held (lock_of s k) \<union> (if wt_read x then {r} else {}) \<and>
    write_held (lock_of s' k) \<subseteq> write_held (lock_of s k) \<union> (if wt_write x then {r} else {})"
proof (cases "wt_write x")
  case False
  have "wt_read x" using ok x False by (auto simp: server_ok_def lock_ok_def waiting_def)
  then have "lockForRead s k r = Inr (s', got)" using run False by (auto simp: acquire_for_def)
  from read_waiter_handoff [OF ok x \<open>wt_read x\<close> this] show ?thesis using \<open>wt_read x\<close> by auto
next
  case True
  obtain s1 w where s1: "lockForWrite s k r = Inr (s1, w)" using run True by (auto simp: acquire_for_def)
  have S: "server_ok s1" "wakes k s s1" "read_held (lock_of s1 k) = read_held (lock_of s k)"
    "write_held (lock_of s1 k) = (if w then {r} else write_held (lock_of s k))"
    "w \<longrightarrow> write_held (lock_of s k) \<subseteq> {r}"
    using lockForWrite_spec [OF ok, of k r] s1 by (auto simp: wakes_def split: if_splits)
  have W: "\<forall>h. h \<noteq> r \<longrightarrow> waiting s1 k h = waiting s k h" "waiting s1 k r \<in> {Some x, None}" "\<not> w \<longrightarrow> waiting s1 k r = Some x"
    using lockForWrite_waiting [OF s1] x True by (cases w; simp add: waiter_set_same)+
  show ?thesis
  proof (cases "wt_read x")
    case False
    then have "s' = s1" "got = w" using run True s1 by (auto simp: acquire_for_def)
    moreover have "\<not> w \<longrightarrow> handoff k s s1 {}" using S W x by (intro impI handoff_none) auto
    ultimately show ?thesis using S W True by auto
  next
    case read: True
    obtain g where g: "lockForRead s1 k r = Inr (s', g)" "got = (w \<and> g)" using run True s1 read by (auto simp: acquire_for_def)
    obtain l2 d where l2: "read_switch (lock_of s1 k) r = Inr (l2, d, g)" "lock_of s' k = l2" using g(1) by (auto simp: lockForRead_def)
    have R: "wakes k s1 s'" "write_held (lock_of s' k) = write_held (lock_of s1 k)"
      "read_held (lock_of s' k) \<subseteq> insert r (read_held (lock_of s1 k))"
      using lockForRead_spec [OF S(1), of k r] g(1) by (auto simp: wakes_def split: if_splits)
    have wk: "wakes k s s'" using S(2) R(1) by (rule wakes_trans)
    show ?thesis
    proof (cases w)
      case w: True
      have "g" using writer_reads [OF _ l2(1)] S(4) w by simp
      moreover have "\<forall>h. h \<noteq> r \<longrightarrow> waiting s' k h = waiting s k h" "waiting s' k r \<in> {Some x, None}"
        using lockForRead_waiting [OF g(1)] W \<open>g\<close> by auto
      ultimately show ?thesis using R S wk w True read g(2) by auto
    next
      case w: False
      obtain l1 d1 where l1: "write_switch (lock_of s k) r = Inr (l1, d1, False)" "lock_of s1 k = l1"
        using s1 w by (auto simp: lockForWrite_def)
      have lo: "lock_ok (lock_of s k)" using ok by (simp add: server_ok_def)
      have same: "read_held l2 = read_held (lock_of s k) \<and> write_held l2 = write_held (lock_of s k) \<and> lk_waiters l2 r = Some x"
        using refused_write_no_read [OF lo q _ True l1(1)] x l2(1) l1(2) read by (auto simp: waiting_def)
      moreover have "\<forall>h. h \<noteq> r \<longrightarrow> waiting s' k h = waiting s k h"
        using lockForRead_waiting [OF g(1)] W by simp
      moreover have "waiting s' k r = Some x" using same l2(2) by (simp add: waiting_def)
      moreover have "handoff k s s' {}"
        using calculation wk l2(2) x by (intro handoff_none [where r = r]) auto
      ultimately show ?thesis using wk l2(2) by auto
    qed
  qed
qed

lemma drop_waiter_waiting:
  assumes "drop_waiter s k r = Inr s'"
  shows "lock_of s' j = lock_of s j \<or> j = k \<and> read_held (lock_of s' k) = read_held (lock_of s k) \<and>
    write_held (lock_of s' k) = write_held (lock_of s k) \<and> lk_waiters (lock_of s' k) = (lk_waiters (lock_of s k))(r := None)"
  using assms
  by (auto simp: drop_waiter_def Let_def read_held_def write_held_def split: list.splits if_splits)

lemma waiter_round_handoff:
  assumes ok: "server_ok s" and q: "lk_waitQ (lock_of s k) = r # q" and run: "waiter_round s k n r = Inr (s', n', go)"
  shows "handoff k s s' (if go then {r} else {}) \<and> n' = (if go then insert r n else n) \<and> server_ok s'"
proof -
  have W: "n' = (if go then insert r n else n)" "server_ok s'" "wakes k s s'" "go \<longrightarrow> r \<notin> set (lk_waitQ (lock_of s' k))"
    using waiter_round_spec [OF ok q, of n] run by auto
  have lo: "lock_ok (lock_of s' k)" using W(2) by (auto simp: server_ok_def)
  obtain x where x: "waiting s k r = Some x" using run by (auto simp: waiter_round_def waiting_def split: option.splits)
  obtain s1 got where s1: "acquire_for s k r x = Inr (s1, got)"
    using run x by (auto simp: waiter_round_def waiting_def)
  note A = acquire_for_handoff [OF ok q x s1]
  show ?thesis
  proof (cases got)
    case False
    then have "s' = s1" "\<not> go" using run x s1 by (auto simp: waiter_round_def waiting_def)
    then show ?thesis using A False W by simp
  next
    case True
    then have d: "drop_waiter s1 k r = Inr s'" and go using run x s1 by (auto simp: waiter_round_def waiting_def)
    have n: "waiting s' k r = None"
    proof -
      have "r \<notin> set (lk_waitQ (lock_of s' k))" using W(4) \<open>go\<close> by simp
      moreover have "set (lk_waitQ (lock_of s' k)) = dom (lk_waiters (lock_of s' k))" using lo by (simp add: lock_ok_def)
      ultimately show ?thesis by (auto simp: waiting_def domIff)
    qed
    have D: "read_held (lock_of s' k) = read_held (lock_of s1 k)" "write_held (lock_of s' k) = write_held (lock_of s1 k)"
      "\<forall>h. h \<noteq> r \<longrightarrow> waiting s' k h = waiting s1 k h"
      using drop_waiter_waiting [OF d, of k] by (auto simp: waiting_def)
    have "handoff k s s' {r}"
      unfolding handoff_def
    proof (intro conjI allI impI)
      show "wakes k s s'" using W(3) .
      show "{r} \<subseteq> dom (waiting s k)" using x by auto
      show "h \<in> read_held (lock_of s k) \<or> h \<in> {r} \<and> (\<exists>x. waiting s k h = Some x \<and> wt_read x)"
        if "h \<in> read_held (lock_of s' k)" for h using that A D(1) x by (auto split: if_splits)
      show "h \<in> write_held (lock_of s k) \<or> h \<in> {r} \<and> (\<exists>x. waiting s k h = Some x \<and> wt_write x)"
        if "h \<in> write_held (lock_of s' k)" for h using that A D(2) x by (auto split: if_splits)
      show "h \<notin> {r}" "waiting s k h = Some y" if "waiting s' k h = Some y" for h y
        using that n D(3) A by (cases "h = r"; simp)+
    qed
    then show ?thesis using \<open>go\<close> W by simp
  qed
qed

lemma TryAcquireForWaiters_handoff:
  assumes "server_ok s" and "TryAcquireForWaiters s k n = Inr (s', n')"
  shows "\<exists>N. n' = n \<union> N \<and> handoff k s s' N \<and> server_ok s'"
  using assms
proof (induction s k n arbitrary: s' n' rule: TryAcquireForWaiters.induct)
  case (1 s k n)
  show ?case
  proof (cases "lk_waitQ (lock_of s k)")
    case Nil
    then have "s' = s" "n' = n" using "1.prems" by (simp_all add: TryAcquireForWaiters.simps [of s])
    then show ?thesis using handoff_refl "1.prems"(1) by blast
  next
    case (Cons r q)
    obtain t m go where t: "waiter_round s k n r = Inr (t, m, go)"
      and rest: "(if go then TryAcquireForWaiters t k m else Inr (t, m)) = Inr (s', n')"
      using "1.prems"(2) Cons by (auto simp: TryAcquireForWaiters.simps [of s])
    note H = waiter_round_handoff [OF "1.prems"(1) Cons t]
    show ?thesis
    proof (cases go)
      case False
      then show ?thesis using H rest by auto
    next
      case True
      then obtain N where N: "n' = m \<union> N" "handoff k t s' N" "server_ok s'"
        using "1.IH" [OF Cons t refl refl] H rest by auto
      have "handoff k s s' (insert r N)" using H N(2) True handoff_trans by auto
      then show ?thesis using N H True by (intro exI [of _ "insert r N"]) auto
    qed
  qed
qed

text \<open>What a release does to one lock: \<open>R\<close> and \<open>W\<close> bound who keeps it for reading and for writing, \<open>N\<close> are the waiters it is
  handed to.\<close>

definition released :: "string \<Rightarrow> u64 set \<Rightarrow> u64 set \<Rightarrow> LockServer \<Rightarrow> LockServer \<Rightarrow> u64 set \<Rightarrow> bool" where
  "released k R W s s' N \<longleftrightarrow> retryLock s' = retryLock s \<and> (\<forall>j. j \<noteq> k \<longrightarrow> lock_of s' j = lock_of s j) \<and>
     N \<subseteq> dom (waiting s k) \<and> (retryLock s \<longrightarrow> N = {}) \<and>
     (\<forall>g. g \<in> read_held (lock_of s' k) \<longrightarrow> g \<in> R \<or> g \<in> N \<and> (\<exists>x. waiting s k g = Some x \<and> wt_read x)) \<and>
     (\<forall>g. g \<in> write_held (lock_of s' k) \<longrightarrow> g \<in> W \<or> g \<in> N \<and> (\<exists>x. waiting s k g = Some x \<and> wt_write x)) \<and>
     (\<forall>g x. waiting s' k g = Some x \<longrightarrow> g \<notin> N \<and> waiting s k g = Some x)"

lemma released_same:
  "\<lbrakk> read_held (lock_of s k) \<subseteq> R; write_held (lock_of s k) \<subseteq> W \<rbrakk> \<Longrightarrow> released k R W s s {}"
  by (auto simp: released_def)

lemma released_put:
  assumes "lk_waiters l = lk_waiters (lock_of s k)" and "read_held l \<subseteq> R" and "write_held l \<subseteq> W"
  shows "released k R W s ((put_lock s k l)\<lparr>readers := a, writers := b\<rparr>) {}"
  using assms by (auto simp: released_def waiting_def)

lemma released_wake:
  assumes ok: "server_ok t" and t: "released k R W s t {}"
    and run: "(if \<not> retryLock t then TryAcquireForWaiters t k {} else Inr (t, {})) = Inr (s', N)"
  shows "released k R W s s' N"
proof (cases "retryLock t")
  case True
  then show ?thesis using t run by auto
next
  case False
  then have h: "handoff k t s' N" using TryAcquireForWaiters_handoff [OF ok, of k "{}" s' N] run by auto
  have w: "waiting s k g = Some x" if "waiting t k g = Some x" for g x using t that by (auto simp: released_def)
  show ?thesis
    unfolding released_def
  proof (intro conjI allI impI)
    show "retryLock s' = retryLock s" "\<And>j. j \<noteq> k \<Longrightarrow> lock_of s' j = lock_of s j"
      using h t by (auto simp: handoff_def wakes_def released_def)
    show "N \<subseteq> dom (waiting s k)" using h w unfolding handoff_def by (auto simp: dom_def)
    show "N = {}" if "retryLock s" using that False t by (simp add: released_def)
    show "g \<in> R \<or> g \<in> N \<and> (\<exists>x. waiting s k g = Some x \<and> wt_read x)" if "g \<in> read_held (lock_of s' k)" for g
      using that h t w unfolding handoff_def released_def by blast
    show "g \<in> W \<or> g \<in> N \<and> (\<exists>x. waiting s k g = Some x \<and> wt_write x)" if "g \<in> write_held (lock_of s' k)" for g
      using that h t w unfolding handoff_def released_def by blast
    show "g \<notin> N" "waiting s k g = Some x" if "waiting s' k g = Some x" for g x
      using that h w unfolding handoff_def by blast+
  qed
qed

lemma releaseForRead_released:
  assumes ok: "server_ok s" and run: "releaseForRead s k h {} = Inr (s', N)"
  shows "released k (read_held (lock_of s k) - {h}) (write_held (lock_of s k)) s s' N"
proof (cases "locks s k")
  case None
  then have "lock_of s k = Lock_new" "s' = s" "N = {}" using run by (auto simp: releaseForRead_def lock_of_def)
  then show ?thesis by (auto intro: released_same)
next
  case (Some l)
  note l = lock_of_Some [OF ok Some]
  consider (R) "h \<in> lk_holders l" "lk_state l = LOCKED_FOR_READ" | (RW) "h \<in> lk_holders l" "lk_state l = LOCKED_FOR_READ_WRITE"
    | (other) "\<not> (h \<in> lk_holders l \<and> lk_state l \<in> {LOCKED_FOR_READ, LOCKED_FOR_READ_WRITE})" by auto
  then show ?thesis
  proof cases
    case R
    let ?t = "put_lock (s\<lparr>readers := readers s - 1\<rparr>) k (read_released l h)"
    have "server_ok ?t" using ok l R by (intro read_released_ok) auto
    moreover have "released k (read_held l - {h}) (write_held l) s ?t {}"
      using l read_released_held [OF R(2)] by (auto simp: released_def waiting_def read_released_def)
    ultimately show ?thesis
      using run R l released_wake [of ?t k _ _ s s' N] by (auto simp: releaseForRead_cases [OF Some] Let_def split: if_splits)
  next
    case RW
    have "s' = put_lock (s\<lparr>readers := readers s - 1\<rparr>) k (l\<lparr>lk_state := LOCKED_FOR_WRITE\<rparr>)" "N = {}"
      using run RW by (auto simp: releaseForRead_cases [OF Some])
    then show ?thesis using l RW by (auto simp: released_def waiting_def read_held_def write_held_def)
  next
    case other
    then have "s' = s" "N = {}" using run by (auto simp: releaseForRead_cases [OF Some])
    moreover have "h \<notin> read_held l" using other by (auto simp: read_held_def)
    ultimately show ?thesis using l by (auto intro: released_same)
  qed
qed

lemma releaseForWrite_released:
  assumes ok: "server_ok s" and run: "releaseForWrite s k h {} = Inr (s', N)"
  shows "released k (read_held (lock_of s k)) (write_held (lock_of s k) - {h}) s s' N"
proof (cases "locks s k")
  case None
  then have "lock_of s k = Lock_new" "s' = s" "N = {}" using run by (auto simp: releaseForWrite_def lock_of_def)
  then show ?thesis by (auto intro: released_same)
next
  case (Some l)
  note l = lock_of_Some [OF ok Some]
  then have lo: "lock_ok l" by simp
  show ?thesis
  proof (cases "h \<in> lk_holders l \<and> lk_state l \<in> {LOCKED_FOR_WRITE, LOCKED_FOR_READ_WRITE}")
    case False
    then have "s' = s" "N = {}" using run unfolding releaseForWrite_cases [OF Some lo] by (auto split: if_splits)
    moreover have "h \<notin> write_held l" using False by (auto simp: write_held_def)
    ultimately show ?thesis using l by (auto intro: released_same)
  next
    case True
    let ?t = "put_lock (s\<lparr>writers := writers s - 1\<rparr>) k (write_released l)"
    have x: "lk_holders l = {h}" using l True by (auto simp: lock_ok_def)
    have okt: "server_ok ?t" using ok l True by (intro write_released_ok) auto
    have t: "released k (read_held l) (write_held l - {h}) s ?t {}"
      using x l True by (auto simp: released_def waiting_def write_released_def read_held_def write_held_def)
    have "(if \<not> retryLock ?t then TryAcquireForWaiters ?t k {} else Inr (?t, {})) = Inr (s', N)"
      using run True unfolding releaseForWrite_cases [OF Some lo] Let_def by (simp only: if_True simp_thms)
    from released_wake [OF okt t this] show ?thesis using l by simp
  qed
qed

end
