(* ===== verification/KVTxnInvariant.thy ===== *)
theory KVTxnInvariant
  imports KVTxnServer LockHandoff
begin

text \<open>
  The invariant of the transactional key-value server and the steps that keep it: every holder of a lock is a
  pending transaction that asked for the key in that mode, and, where the lock server wakes waiters up, everyone who waits for
  a key is a pending transaction that is blocked on it.  The two locales are the interfaces through which
  the server acquires and releases keys; each is interpreted for the read and for the write operations of
  the lock server.
\<close>

section \<open>The invariant\<close>

definition writeKeys :: "kvtxn_t \<Rightarrow> string set" where
  "writeKeys tx = fst ` set (kt_writeSet tx)"

definition covers :: "(u64 \<times> kvtxn_t) list \<Rightarrow> LockServer \<Rightarrow> bool" where
  "covers P ls \<longleftrightarrow>
     (\<forall>k h. h \<in> read_held (lock_of ls k) \<longrightarrow> (\<exists>t. map_of P h = Some t \<and> k \<in> kt_readSet t)) \<and>
     (\<forall>k h. h \<in> write_held (lock_of ls k) \<longrightarrow> (\<exists>t. map_of P h = Some t \<and> k \<in> writeKeys t))"

lemma coversD:
  "\<lbrakk> covers P ls; h \<in> read_held (lock_of ls k) \<rbrakk> \<Longrightarrow> \<exists>t. map_of P h = Some t \<and> k \<in> kt_readSet t"
  "\<lbrakk> covers P ls; h \<in> write_held (lock_of ls k) \<rbrakk> \<Longrightarrow> \<exists>t. map_of P h = Some t \<and> k \<in> writeKeys t"
  by (simp_all add: covers_def)

definition queued :: "(u64 \<times> kvtxn_t) list \<Rightarrow> LockServer \<Rightarrow> bool" where
  "queued P ls \<longleftrightarrow> (\<forall>k h x. waiting ls k h = Some x \<longrightarrow>
     (\<exists>t. map_of P h = Some t \<and> k \<in> kt_blockedKeys t \<and> (wt_read x \<longrightarrow> k \<in> kt_readSet t) \<and> (wt_write x \<longrightarrow> k \<in> writeKeys t)))"

definition txns_ok :: "bool \<Rightarrow> (u64 \<times> kvtxn_t) list \<Rightarrow> bool" where
  "txns_ok retry P \<longleftrightarrow> smap_ok P \<and> (\<forall>h t. map_of P h = Some t \<longrightarrow>
     ta_txnid (kt_txnarg t) = h \<and> finite (kt_readSet t) \<and> (retry \<longrightarrow> kt_blockedKeys t = {}))"

lemma txns_okD:
  "\<lbrakk> txns_ok retry P; map_of P h = Some t \<rbrakk> \<Longrightarrow>
     ta_txnid (kt_txnarg t) = h \<and> finite (kt_readSet t) \<and> (retry \<longrightarrow> kt_blockedKeys t = {})"
  by (simp add: txns_ok_def)

definition kv_core :: "bool \<Rightarrow> (u64 \<times> kvtxn_t) list \<Rightarrow> LockServer \<Rightarrow> bool" where
  "kv_core retry P ls \<longleftrightarrow> server_ok ls \<and> retryLock ls = retry \<and> txns_ok retry P \<and> covers P ls \<and>
     (\<not> retry \<longrightarrow> queued P ls)"

definition kv_ok :: "KVTxnServer \<Rightarrow> bool" where
  "kv_ok s \<longleftrightarrow> kv_core (kvs_retryLock s) (kvs_pendingTxns s) (kvs_lockServer s) \<and>
     kvs_mode s = (if kvs_pendingTxns s = [] then MODE_NORMAL else MODE_LOCKING)"

definition keeps :: "LockServer \<Rightarrow> LockServer \<Rightarrow> bool" where
  "keeps ls ls' \<longleftrightarrow> (\<forall>k. read_held (lock_of ls k) \<subseteq> read_held (lock_of ls' k) \<and> write_held (lock_of ls k) \<subseteq> write_held (lock_of ls' k))"

definition keeps_but :: "u64 \<Rightarrow> LockServer \<Rightarrow> LockServer \<Rightarrow> bool" where
  "keeps_but me ls ls' \<longleftrightarrow> (\<forall>k. read_held (lock_of ls k) - {me} \<subseteq> read_held (lock_of ls' k) \<and>
     write_held (lock_of ls k) - {me} \<subseteq> write_held (lock_of ls' k))"

lemma keeps_refl [simp]: "keeps ls ls" and keeps_but_refl [simp]: "keeps_but me ls ls"
  by (auto simp: keeps_def keeps_but_def)

lemma keeps_trans: "\<lbrakk> keeps a b; keeps b c \<rbrakk> \<Longrightarrow> keeps a c"
  unfolding keeps_def by (meson order_trans)

lemma keeps_but_trans: "\<lbrakk> keeps_but me a b; keeps_but me b c \<rbrakk> \<Longrightarrow> keeps_but me a c"
  by (fastforce simp: keeps_but_def)

lemma keeps_imp_but: "keeps a b \<Longrightarrow> keeps_but me a b"
  by (auto simp: keeps_def keeps_but_def)

text \<open>A transaction may grow.\<close>

definition extends :: "kvtxn_t \<Rightarrow> kvtxn_t option \<Rightarrow> bool" where
  "extends tx old \<longleftrightarrow> (\<forall>t. old = Some t \<longrightarrow> kt_readSet t \<subseteq> kt_readSet tx \<and> writeKeys t \<subseteq> writeKeys tx \<and> kt_blockedKeys t \<subseteq> kt_blockedKeys tx)"

lemma kv_core_put:
  assumes core: "kv_core retry P ls" and ext: "extends tx (map_of P me)" and me: "ta_txnid (kt_txnarg tx) = me"
    and fin: "finite (kt_readSet tx)" and b: "retry \<longrightarrow> kt_blockedKeys tx = {}"
  shows "kv_core retry (smap_put me tx P) ls"
proof -
  have "covers (smap_put me tx P) ls" using core ext by (fastforce simp: kv_core_def covers_def extends_def)
  moreover have "queued (smap_put me tx P) ls" if "\<not> retry"
    using core ext that by (fastforce simp: kv_core_def queued_def extends_def)
  moreover have "txns_ok retry (smap_put me tx P)" using core me fin b by (auto simp: kv_core_def txns_ok_def)
  ultimately show ?thesis using core by (simp add: kv_core_def)
qed

section \<open>Acquiring keys\<close>

definition block :: "bool \<Rightarrow> bool \<Rightarrow> kvtxn_t \<Rightarrow> string \<Rightarrow> kvtxn_t" where
  "block retry got tx key = (if got \<or> retry then tx else tx\<lparr>kt_blockedKeys := insert key (kt_blockedKeys tx)\<rparr>)"

lemma block_sets [simp]:
  "kt_readSet (block retry got tx key) = kt_readSet tx" "writeKeys (block retry got tx key) = writeKeys tx"
  "kt_txnarg (block retry got tx key) = kt_txnarg tx" "kt_writeSet (block retry got tx key) = kt_writeSet tx"
  "block retry True tx key = tx"
  by (simp_all add: block_def writeKeys_def)

lemma block_blocked: "j \<in> kt_blockedKeys tx \<Longrightarrow> j \<in> kt_blockedKeys (block retry got tx key)"
  by (simp add: block_def)

lemma smap_put_same_keys: "map fst (smap_put k v m) = map fst (smap_put k v' m)"
  by (induction k v m rule: smap_put.induct) auto

lemma txns_ok_replace:
  assumes ok: "txns_ok retry (smap_put me tx P)" and tx: "kt_txnarg tx' = kt_txnarg tx" "kt_readSet tx' = kt_readSet tx"
    "retry \<longrightarrow> kt_blockedKeys tx' = {}"
  shows "txns_ok retry (smap_put me tx' P)"
proof -
  have "smap_ok (smap_put me tx' P)"
    using ok unfolding txns_ok_def smap_ok_def by (metis smap_put_same_keys)
  moreover have "ta_txnid (kt_txnarg tx) = me" "finite (kt_readSet tx)" using txns_okD [OF ok, of me tx] by simp_all
  moreover have "ta_txnid (kt_txnarg t) = h \<and> finite (kt_readSet t) \<and> (retry \<longrightarrow> kt_blockedKeys t = {})"
    if "map_of P h = Some t" "h \<noteq> me" for h t
    using ok that unfolding txns_ok_def by (metis fun_upd_other map_of_smap_put)
  ultimately show ?thesis using tx by (auto simp: txns_ok_def)
qed

locale key_acquisition =
  fixes lock :: "LockServer \<Rightarrow> string \<Rightarrow> u64 \<Rightarrow> (LockServer \<times> bool) result"
    and keys_of :: "kvtxn_t \<Rightarrow> string set"
    and held :: "Lock \<Rightarrow> u64 set"
  assumes acquire_step: "\<lbrakk> kv_core retry (smap_put me tx P) ls; k \<in> keys_of tx \<rbrakk> \<Longrightarrow>
      \<exists>ls' got. lock ls k me = Inr (ls', got) \<and> kv_core retry (smap_put me (block retry got tx k) P) ls' \<and>
        keeps ls ls' \<and> (got \<longrightarrow> me \<in> held (lock_of ls' k))"
    and keys_block: "keys_of (block retry got tx k) = keys_of tx"
    and held_keeps: "keeps ls ls' \<Longrightarrow> held (lock_of ls k) \<subseteq> held (lock_of ls' k)"
begin

lemma acquire_all:
  assumes "kv_core retry (smap_put me tx P) ls" and "set ks \<subseteq> keys_of tx"
  shows "\<exists>ls' tx' b'. fold_r (acquire_key lock retry me) (ls, tx, b) ks = Inr (ls', tx', b') \<and>
    kv_core retry (smap_put me tx' P) ls' \<and> keeps ls ls' \<and>
    kt_readSet tx' = kt_readSet tx \<and> kt_writeSet tx' = kt_writeSet tx \<and> kt_txnarg tx' = kt_txnarg tx \<and>
    (\<not> b' \<longrightarrow> \<not> b \<and> tx' = tx \<and> (\<forall>k\<in>set ks. me \<in> held (lock_of ls' k)))"
  using assms
proof (induction ks arbitrary: ls tx b)
  case (Cons k ks)
  have "k \<in> keys_of tx" using Cons.prems(2) by simp
  from acquire_step [OF Cons.prems(1) this]
  obtain ls1 got where L: "lock ls k me = Inr (ls1, got)" "kv_core retry (smap_put me (block retry got tx k) P) ls1"
    "keeps ls ls1" "got \<longrightarrow> me \<in> held (lock_of ls1 k)"
    by blast
  let ?tx = "block retry got tx k" and ?b = "b \<or> \<not> got"
  have step: "acquire_key lock retry me (ls, tx, b) k = Inr (ls1, ?tx, ?b)"
    using L(1) by (simp add: acquire_key_def block_def)
  have "set ks \<subseteq> keys_of ?tx" using Cons.prems(2) by (simp add: keys_block)
  from Cons.IH [OF L(2) this, of ?b] obtain ls' tx' b' where
    R: "fold_r (acquire_key lock retry me) (ls1, ?tx, ?b) ks = Inr (ls', tx', b')" "kv_core retry (smap_put me tx' P) ls'"
      "keeps ls1 ls'" "kt_readSet tx' = kt_readSet tx" "kt_writeSet tx' = kt_writeSet tx" "kt_txnarg tx' = kt_txnarg tx"
      "\<not> b' \<longrightarrow> \<not> ?b \<and> tx' = ?tx \<and> (\<forall>k\<in>set ks. me \<in> held (lock_of ls' k))"
    by auto
  have "\<not> b' \<longrightarrow> \<not> b \<and> tx' = tx \<and> (\<forall>k\<in>set (k # ks). me \<in> held (lock_of ls' k))"
    using R(7) L(4) held_keeps [OF R(3), of k] by (auto simp: block_def)
  moreover have "fold_r (acquire_key lock retry me) (ls, tx, b) (k # ks) = Inr (ls', tx', b')"
    using step R(1) by simp
  ultimately show ?case using R(2-6) keeps_trans [OF L(3) R(3)] by blast
qed simp

end

lemma acquire_core:
  assumes core: "kv_core retry (smap_put me tx P) ls" and ls': "server_ok ls'" "retryLock ls' = retry"
    and other: "\<forall>j. j \<noteq> k \<longrightarrow> lock_of ls' j = lock_of ls j"
    and r: "read_held (lock_of ls' k) \<subseteq> read_held (lock_of ls k) \<union> (if k \<in> kt_readSet tx then {me} else {})"
    and w: "write_held (lock_of ls' k) \<subseteq> write_held (lock_of ls k) \<union> (if k \<in> writeKeys tx then {me} else {})"
    and wait: "\<forall>h. h \<noteq> me \<longrightarrow> waiting ls' k h = waiting ls k h"
    and own: "\<And>x. \<lbrakk> \<not> retry; waiting ls' k me = Some x \<rbrakk> \<Longrightarrow> waiting ls k me = Some x \<or>
      \<not> got \<and> (wt_read x \<longrightarrow> k \<in> kt_readSet tx) \<and> (wt_write x \<longrightarrow> k \<in> writeKeys tx)"
  shows "kv_core retry (smap_put me (block retry got tx k) P) ls'"
proof -
  let ?P = "smap_put me tx P" and ?P' = "smap_put me (block retry got tx k) P"
  have cov: "covers ?P ls" "txns_ok retry ?P" using core by (auto simp: kv_core_def)
  have "covers ?P' ls'"
    unfolding covers_def
  proof (intro conjI allI impI)
    show "\<exists>t. map_of ?P' h = Some t \<and> j \<in> kt_readSet t" if h: "h \<in> read_held (lock_of ls' j)" for j h
    proof -
      have "h \<in> read_held (lock_of ls j) \<or> h = me \<and> j = k \<and> k \<in> kt_readSet tx"
        using h r other by (cases "j = k") (auto split: if_splits)
      then show ?thesis using coversD(1) [OF cov(1), of h j] by (cases "h = me") auto
    qed
    show "\<exists>t. map_of ?P' h = Some t \<and> j \<in> writeKeys t" if h: "h \<in> write_held (lock_of ls' j)" for j h
    proof -
      have "h \<in> write_held (lock_of ls j) \<or> h = me \<and> j = k \<and> k \<in> writeKeys tx"
        using h w other by (cases "j = k") (auto split: if_splits)
      then show ?thesis using coversD(2) [OF cov(1), of h j] by (cases "h = me") auto
    qed
  qed
  moreover have "queued ?P' ls'" if "\<not> retry"
    unfolding queued_def
  proof (intro allI impI)
    fix j h x assume x: "waiting ls' j h = Some x"
    have q: "queued ?P ls" using core that by (simp add: kv_core_def)
    show "\<exists>t. map_of ?P' h = Some t \<and> j \<in> kt_blockedKeys t \<and> (wt_read x \<longrightarrow> j \<in> kt_readSet t) \<and> (wt_write x \<longrightarrow> j \<in> writeKeys t)"
    proof (cases "j = k \<and> h = me \<and> waiting ls k me \<noteq> Some x")
      case True
      then have "\<not> got \<and> (wt_read x \<longrightarrow> k \<in> kt_readSet tx) \<and> (wt_write x \<longrightarrow> k \<in> writeKeys tx)" using own that x by blast
      then show ?thesis using True that by (auto simp: block_def writeKeys_def)
    next
      case False
      have "waiting ls j h = Some x"
      proof (cases "j = k")
        case True
        then show ?thesis using False x wait by (cases "h = me") simp_all
      next
        case False
        then have "lock_of ls' j = lock_of ls j" using other by simp
        then show ?thesis using x by (simp add: waiting_def)
      qed
      then obtain t where t: "map_of ?P h = Some t" "j \<in> kt_blockedKeys t" "wt_read x \<longrightarrow> j \<in> kt_readSet t" "wt_write x \<longrightarrow> j \<in> writeKeys t"
        using q unfolding queued_def by blast
      show ?thesis
      proof (cases "h = me")
        case True
        then have "t = tx" using t(1) by simp
        then show ?thesis using True t(2-4) block_blocked by auto
      next
        case False
        then show ?thesis using t by simp
      qed
    qed
  qed
  moreover have "txns_ok retry ?P'" 
  proof (rule txns_ok_replace [OF cov(2)])
    have "kt_blockedKeys tx = {}" if retry using txns_okD [OF cov(2), of me tx] that by simp
    then show "retry \<longrightarrow> kt_blockedKeys (block retry got tx k) = {}" by (simp add: block_def)
  qed simp_all
  ultimately show ?thesis using ls' by (simp add: kv_core_def)
qed

lemma own_wait:
  assumes core: "kv_core retry (smap_put me tx P) ls" and "\<not> retry" and "waiting ls k me = Some x"
  shows "(wt_read x \<longrightarrow> k \<in> kt_readSet tx) \<and> (wt_write x \<longrightarrow> k \<in> writeKeys tx) \<and> k \<in> kt_blockedKeys tx"
  using assms by (fastforce simp: kv_core_def queued_def)

interpretation reads: key_acquisition lockForRead kt_readSet read_held
proof
  fix retry me tx P ls k
  assume core: "kv_core retry (smap_put me tx P) ls" and k: "k \<in> kt_readSet tx"
  have ok: "server_ok ls" "retryLock ls = retry" using core by (auto simp: kv_core_def)
  obtain ls' got where L: "lockForRead ls k me = Inr (ls', got)" "server_ok ls'" "retryLock ls' = retry"
    "\<forall>j. j \<noteq> k \<longrightarrow> lock_of ls' j = lock_of ls j" "write_held (lock_of ls' k) = write_held (lock_of ls k)"
    "read_held (lock_of ls' k) = (if got then insert me (read_held (lock_of ls k)) else read_held (lock_of ls k))"
    using lockForRead_spec [OF ok(1), of k me] ok(2) by auto
  note W = lockForRead_waiting [OF L(1)]
  have "keeps ls ls'" unfolding keeps_def using L(4-6) by (intro allI) (metis order_refl subset_insertI)
  moreover have "kv_core retry (smap_put me (block retry got tx k) P) ls'"
  proof (rule acquire_core [OF core L(2-4)])
    show "waiting ls k me = Some x \<or> \<not> got \<and> (wt_read x \<longrightarrow> k \<in> kt_readSet tx) \<and> (wt_write x \<longrightarrow> k \<in> writeKeys tx)"
      if "\<not> retry" "waiting ls' k me = Some x" for x
      using W k that own_wait [OF core that(1), of k]
      by (cases got) (auto simp: Waiter_new_def split: option.splits)
  qed (use L W k in auto)
  ultimately show "\<exists>ls' got. lockForRead ls k me = Inr (ls', got) \<and> kv_core retry (smap_put me (block retry got tx k) P) ls' \<and>
      keeps ls ls' \<and> (got \<longrightarrow> me \<in> read_held (lock_of ls' k))" using L by auto
qed (auto simp: keeps_def)

interpretation writes: key_acquisition lockForWrite writeKeys write_held
proof
  fix retry me tx P ls k
  assume core: "kv_core retry (smap_put me tx P) ls" and k: "k \<in> writeKeys tx"
  have ok: "server_ok ls" "retryLock ls = retry" using core by (auto simp: kv_core_def)
  obtain ls' got where L: "lockForWrite ls k me = Inr (ls', got)" "server_ok ls'" "retryLock ls' = retry"
    "\<forall>j. j \<noteq> k \<longrightarrow> lock_of ls' j = lock_of ls j" "read_held (lock_of ls' k) = read_held (lock_of ls k)"
    "write_held (lock_of ls' k) = (if got then {me} else write_held (lock_of ls k))"
    "got \<longrightarrow> write_held (lock_of ls k) \<subseteq> {me}"
    using lockForWrite_spec [OF ok(1), of k me] ok(2) by auto
  note W = lockForWrite_waiting [OF L(1)]
  have "keeps ls ls'" unfolding keeps_def using L(4-7) by (intro allI) (metis order_refl)
  moreover have "kv_core retry (smap_put me (block retry got tx k) P) ls'"
  proof (rule acquire_core [OF core L(2-4)])
    show "waiting ls k me = Some x \<or> \<not> got \<and> (wt_read x \<longrightarrow> k \<in> kt_readSet tx) \<and> (wt_write x \<longrightarrow> k \<in> writeKeys tx)"
      if "\<not> retry" "waiting ls' k me = Some x" for x
      using W k that own_wait [OF core that(1), of k]
      by (cases got) (auto simp: Waiter_new_def split: option.splits)
  qed (use L W k in auto)
  ultimately show "\<exists>ls' got. lockForWrite ls k me = Inr (ls', got) \<and> kv_core retry (smap_put me (block retry got tx k) P) ls' \<and>
      keeps ls ls' \<and> (got \<longrightarrow> me \<in> write_held (lock_of ls' k))" using L by auto
qed (auto simp: keeps_def)

section \<open>Releasing keys\<close>

definition iterates :: "('a set \<Rightarrow> 'a list) \<Rightarrow> bool" where
  "iterates ord \<longleftrightarrow> (\<forall>S. finite S \<longrightarrow> set (ord S) = S \<and> distinct (ord S))"

text \<open>Unblocking a key for a set of transactions.\<close>

definition unblocked_from :: "(u64 \<times> kvtxn_t) list \<Rightarrow> string \<Rightarrow> u64 set \<Rightarrow> (u64 \<times> kvtxn_t) list \<Rightarrow> bool" where
  "unblocked_from P k N P' \<longleftrightarrow> smap_ok P' \<and> (\<forall>g. map_of P' g =
     (if g \<in> N then map_option (\<lambda>t. t\<lparr>kt_blockedKeys := kt_blockedKeys t - {k}\<rparr>) (map_of P g) else map_of P g))"

lemma unblock_all:
  assumes "distinct hs" and "smap_ok (kvs_pendingTxns s)"
    and "\<forall>h\<in>set hs. \<exists>t. map_of (kvs_pendingTxns s) h = Some t \<and> k \<in> kt_blockedKeys t"
  shows "\<exists>P' u'. fold_r (unblock k) (s, u) hs = Inr (s\<lparr>kvs_pendingTxns := P'\<rparr>, u') \<and>
    unblocked_from (kvs_pendingTxns s) k (set hs) P' \<and>
    u' = u \<union> {h \<in> set hs. \<exists>t. map_of (kvs_pendingTxns s) h = Some t \<and> kt_blockedKeys t = {k}}"
  using assms
proof (induction hs arbitrary: s u)
  case Nil
  then show ?case by (intro exI [of _ "kvs_pendingTxns s"]) (simp add: unblocked_from_def)
next
  case (Cons h hs)
  obtain t where t: "map_of (kvs_pendingTxns s) h = Some t" "k \<in> kt_blockedKeys t" using Cons.prems(3) by auto
  define t' where "t' = t\<lparr>kt_blockedKeys := kt_blockedKeys t - {k}\<rparr>"
  define s1 where "s1 = put_txn s h t'"
  define u1 where "u1 = (if kt_blockedKeys t' = {} then insert h u else u)"
  have step: "unblock k (s, u) h = Inr (s1, u1)" using t by (simp add: unblock_def t'_def s1_def u1_def Let_def)
  have P1: "map_of (kvs_pendingTxns s1) = (map_of (kvs_pendingTxns s))(h \<mapsto> t')" "smap_ok (kvs_pendingTxns s1)"
    using Cons.prems(2) by (simp_all add: s1_def put_txn_def)
  have h: "h \<notin> set hs" "distinct hs" using Cons.prems(1) by auto
  have "\<forall>g\<in>set hs. \<exists>t. map_of (kvs_pendingTxns s1) g = Some t \<and> k \<in> kt_blockedKeys t"
    using Cons.prems(3) h(1) P1(1) by auto
  from Cons.IH [OF h(2) P1(2) this, of u1] obtain P' u' where
    R: "fold_r (unblock k) (s1, u1) hs = Inr (s1\<lparr>kvs_pendingTxns := P'\<rparr>, u')"
      "unblocked_from (kvs_pendingTxns s1) k (set hs) P'"
      "u' = u1 \<union> {g \<in> set hs. \<exists>t. map_of (kvs_pendingTxns s1) g = Some t \<and> kt_blockedKeys t = {k}}"
    by blast
  have "unblocked_from (kvs_pendingTxns s) k (set (h # hs)) P'"
    using R(2) P1(1) h(1) t by (auto simp: unblocked_from_def t'_def)
  moreover have "u' = u \<union> {g \<in> set (h # hs). \<exists>t. map_of (kvs_pendingTxns s) g = Some t \<and> kt_blockedKeys t = {k}}"
  proof -
    have "{g \<in> set hs. \<exists>t. map_of (kvs_pendingTxns s1) g = Some t \<and> kt_blockedKeys t = {k}} =
        {g \<in> set hs. \<exists>t. map_of (kvs_pendingTxns s) g = Some t \<and> kt_blockedKeys t = {k}}"
      using h(1) by (auto simp: P1(1))
    moreover have "kt_blockedKeys t' = {} \<longleftrightarrow> kt_blockedKeys t = {k}" using t(2) by (auto simp: t'_def)
    ultimately show ?thesis using R(3) t(1) by (auto simp: u1_def)
  qed
  moreover have "s1\<lparr>kvs_pendingTxns := P'\<rparr> = s\<lparr>kvs_pendingTxns := P'\<rparr>" by (simp add: s1_def put_txn_def)
  ultimately show ?case using step R(1) by auto
qed

lemma release_core:
  assumes core: "kv_core retry P ls" and ls': "server_ok ls'"
    and rel: "released k (read_held (lock_of ls k)) (write_held (lock_of ls k)) ls ls' N"
    and un: "unblocked_from P k N P'"
  shows "kv_core retry P' ls'"
proof -
  have C: "covers P ls" "txns_ok retry P" "retryLock ls = retry" using core by (auto simp: kv_core_def)
  have m: "\<exists>t'. map_of P' h = Some t' \<and> kt_readSet t' = kt_readSet t \<and> writeKeys t' = writeKeys t \<and> kt_txnarg t' = kt_txnarg t \<and>
      kt_blockedKeys t' = (if h \<in> N then kt_blockedKeys t - {k} else kt_blockedKeys t)" if "map_of P h = Some t" for h t
    using un that by (auto simp: unblocked_from_def writeKeys_def)
  have m': "\<exists>t. map_of P h = Some t" if "map_of P' h = Some t'" for h t'
    using un that by (auto simp: unblocked_from_def split: if_splits)
  have N: "\<exists>t. map_of P g = Some t \<and> (wt_read x \<longrightarrow> k \<in> kt_readSet t) \<and> (wt_write x \<longrightarrow> k \<in> writeKeys t)"
    if "g \<in> N" "waiting ls k g = Some x" for g x
    using core rel that unfolding kv_core_def queued_def released_def by blast
  have "covers P' ls'"
    unfolding covers_def
  proof (intro conjI allI impI)
    show "\<exists>t. map_of P' h = Some t \<and> j \<in> kt_readSet t" if h: "h \<in> read_held (lock_of ls' j)" for j h
    proof -
      have "\<exists>t. map_of P h = Some t \<and> j \<in> kt_readSet t"
        using h rel N coversD(1) [OF C(1)] unfolding released_def by (cases "j = k") (metis, metis)
      then show ?thesis using m by metis
    qed
    show "\<exists>t. map_of P' h = Some t \<and> j \<in> writeKeys t" if h: "h \<in> write_held (lock_of ls' j)" for j h
    proof -
      have "\<exists>t. map_of P h = Some t \<and> j \<in> writeKeys t"
        using h rel N coversD(2) [OF C(1)] unfolding released_def by (cases "j = k") (metis, metis)
      then show ?thesis using m by metis
    qed
  qed
  moreover have "queued P' ls'" if nr: "\<not> retry"
    unfolding queued_def
  proof (intro allI impI)
    fix j h x assume x: "waiting ls' j h = Some x"
    have "waiting ls j h = Some x \<and> (j = k \<longrightarrow> h \<notin> N)"
    proof (cases "j = k")
      case True
      then show ?thesis using x rel unfolding released_def by blast
    next
      case False
      then have "lock_of ls' j = lock_of ls j" using rel by (simp add: released_def)
      then show ?thesis using x False by (simp add: waiting_def)
    qed
    moreover from this obtain t where "map_of P h = Some t" "j \<in> kt_blockedKeys t" "wt_read x \<longrightarrow> j \<in> kt_readSet t" "wt_write x \<longrightarrow> j \<in> writeKeys t"
      using core nr unfolding kv_core_def queued_def by blast
    moreover from m [OF this(1)] obtain t' where "map_of P' h = Some t'" "kt_readSet t' = kt_readSet t" "writeKeys t' = writeKeys t"
      "kt_blockedKeys t' = (if h \<in> N then kt_blockedKeys t - {k} else kt_blockedKeys t)" by blast
    ultimately show "\<exists>t. map_of P' h = Some t \<and> j \<in> kt_blockedKeys t \<and> (wt_read x \<longrightarrow> j \<in> kt_readSet t) \<and> (wt_write x \<longrightarrow> j \<in> writeKeys t)"
      by (intro exI [of _ t']) auto
  qed
  moreover have "txns_ok retry P'"
    unfolding txns_ok_def
  proof (intro conjI allI impI)
    show "smap_ok P'" using un by (simp add: unblocked_from_def)
    fix h t' assume t': "map_of P' h = Some t'"
    then obtain t where t: "map_of P h = Some t" using m' by blast
    from m [OF t] txns_okD [OF C(2) t] t'
    show "ta_txnid (kt_txnarg t') = h" "finite (kt_readSet t')" "retry \<Longrightarrow> kt_blockedKeys t' = {}" by (auto split: if_splits)
  qed
  moreover have "retryLock ls' = retry" using rel C(3) by (simp add: released_def)
  ultimately show ?thesis using ls' by (simp add: kv_core_def)
qed

text \<open>A transaction that is being cleaned up is pending and blocked on nothing, so it waits for no key.\<close>

definition cleaning :: "u64 \<Rightarrow> kvtxn_t \<Rightarrow> KVTxnServer \<Rightarrow> bool" where
  "cleaning me tx s \<longleftrightarrow> kv_core (kvs_retryLock s) (kvs_pendingTxns s) (kvs_lockServer s) \<and>
     map_of (kvs_pendingTxns s) me = Some tx \<and> kt_blockedKeys tx = {}"

text \<open>What releasing keys leaves alone.\<close>

definition release_frame :: "u64 \<Rightarrow> KVTxnServer \<Rightarrow> KVTxnServer \<Rightarrow> bool" where
  "release_frame me s s' \<longleftrightarrow> kvs_store s' = kvs_store s \<and> kvs_retryLock s' = kvs_retryLock s \<and> kvs_mode s' = kvs_mode s \<and>
     keeps_but me (kvs_lockServer s) (kvs_lockServer s') \<and>
     (\<forall>j. me \<in> read_held (lock_of (kvs_lockServer s') j) \<longrightarrow> me \<in> read_held (lock_of (kvs_lockServer s) j)) \<and>
     (\<forall>j. me \<in> write_held (lock_of (kvs_lockServer s') j) \<longrightarrow> me \<in> write_held (lock_of (kvs_lockServer s) j))"

lemma release_frame_refl [simp]: "release_frame me s s"
  by (simp add: release_frame_def)

lemma release_frame_trans: "\<lbrakk> release_frame me s t; release_frame me t u \<rbrakk> \<Longrightarrow> release_frame me s u"
  by (auto simp: release_frame_def intro: keeps_but_trans)

locale key_release =
  fixes release :: "LockServer \<Rightarrow> string \<Rightarrow> u64 \<Rightarrow> u64 set \<Rightarrow> (LockServer \<times> u64 set) result"
    and held :: "Lock \<Rightarrow> u64 set"
  assumes release_step: "server_ok ls \<Longrightarrow> ends (retryLock ls) (release ls k h {}) (\<lambda>(ls', N). server_ok ls' \<and> gives_up k h ls ls' \<and>
      released k (read_held (lock_of ls k)) (write_held (lock_of ls k)) ls ls' N \<and> (h \<in> held (lock_of ls' k) \<longrightarrow> h \<in> N))"
    and held_modes: "held = read_held \<or> held = write_held"
begin

lemma release_one:
  assumes cl: "cleaning me tx s" and hord: "iterates hord"
  shows "ends (kvs_retryLock s) (release_key release hord me (s, u) k)
    (\<lambda>(s', u'). cleaning me tx s' \<and> release_frame me s s' \<and> me \<notin> held (lock_of (kvs_lockServer s') k))"
proof (cases "release (kvs_lockServer s) k me {}")
  case (Inl e)
  have "server_ok (kvs_lockServer s)" "retryLock (kvs_lockServer s) = kvs_retryLock s"
    using cl by (auto simp: cleaning_def kv_core_def)
  then show ?thesis using release_step [of "kvs_lockServer s" k me] Inl by (simp add: release_key_def)
next
  case (Inr y)
  let ?ls = "kvs_lockServer s" and ?P = "kvs_pendingTxns s" and ?retry = "kvs_retryLock s"
  have core: "kv_core ?retry ?P ?ls" and tx: "map_of ?P me = Some tx" "kt_blockedKeys tx = {}"
    using cl by (auto simp: cleaning_def)
  have ok: "server_ok ?ls" "retryLock ?ls = ?retry" "smap_ok ?P" using core by (auto simp: kv_core_def txns_ok_def)
  obtain ls' N where L: "release ?ls k me {} = Inr (ls', N)" "server_ok ls'" "gives_up k me ?ls ls'"
    "released k (read_held (lock_of ?ls k)) (write_held (lock_of ?ls k)) ?ls ls' N" "me \<in> held (lock_of ls' k) \<longrightarrow> me \<in> N"
    using release_step [OF ok(1), of k me] Inr by (cases y) simp
  have retry: "?retry \<longrightarrow> N = {}" using L(4) ok(2) by (simp add: released_def)
  have N: "\<forall>h\<in>N. \<exists>t. map_of ?P h = Some t \<and> k \<in> kt_blockedKeys t"
  proof
    fix h assume h: "h \<in> N"
    then have nr: "\<not> ?retry" using retry by auto
    obtain x where "waiting ?ls k h = Some x" using h L(4) unfolding released_def by blast
    then show "\<exists>t. map_of ?P h = Some t \<and> k \<in> kt_blockedKeys t" using core nr unfolding kv_core_def queued_def by blast
  qed
  then have me: "me \<notin> N" using tx by force
  have ord: "set (hord N) = N" "distinct (hord N)" using hord by (auto simp: iterates_def)
  let ?s = "s\<lparr>kvs_lockServer := ls'\<rparr>"
  obtain P' u' where U: "fold_r (unblock k) (?s, u) (hord N) = Inr (?s\<lparr>kvs_pendingTxns := P'\<rparr>, u')"
    "unblocked_from ?P k N P'"
    using unblock_all [OF ord(2), of ?s k u] ok(3) N ord(1) by auto
  let ?s' = "?s\<lparr>kvs_pendingTxns := P'\<rparr>"
  have run: "release_key release hord me (s, u) k = Inr (?s', u')"
    using L(1) retry U(1) by (simp add: release_key_def)
  have "map_of P' me = Some tx" using U(2) me tx(1) by (simp add: unblocked_from_def)
  then have cl': "cleaning me tx ?s'" using release_core [OF core L(2,4) U(2)] tx(2) by (simp add: cleaning_def)
  have R: "me \<in> read_held (lock_of ls' j) \<longrightarrow> me \<in> read_held (lock_of ?ls j)" for j
    using L(4) me unfolding released_def by (cases "j = k") auto
  have W: "me \<in> write_held (lock_of ls' j) \<longrightarrow> me \<in> write_held (lock_of ?ls j)" for j
    using L(4) me unfolding released_def by (cases "j = k") auto
  have "keeps_but me ?ls ls'"
    using L(3) unfolding keeps_but_def gives_up_def by (metis Diff_subset)
  then have "release_frame me s ?s'" using R W by (simp add: release_frame_def)
  then show ?thesis using run cl' L(5) me by auto
qed

lemma release_all:
  assumes "cleaning me tx s" and "iterates hord"
  shows "ends (kvs_retryLock s) (fold_r (release_key release hord me) (s, u) ks)
    (\<lambda>(s', u'). cleaning me tx s' \<and> release_frame me s s' \<and> (\<forall>k\<in>set ks. me \<notin> held (lock_of (kvs_lockServer s') k)))"
  using assms(1)
proof (induction ks arbitrary: s u)
  case (Cons k ks)
  have later: "ends (kvs_retryLock s) (fold_r (release_key release hord me) (s1, u1) ks) (\<lambda>(s', u'). cleaning me tx s' \<and>
      release_frame me s s' \<and> (\<forall>k\<in>set (k # ks). me \<notin> held (lock_of (kvs_lockServer s') k)))"
    if S: "cleaning me tx s1" "release_frame me s s1" "me \<notin> held (lock_of (kvs_lockServer s1) k)" for s1 u1
  proof (rule ends_mono [OF Cons.IH [OF S(1), of u1]])
    show "kvs_retryLock s1" if "kvs_retryLock s" using that S(2) by (simp add: release_frame_def)
    show "case y of (s', u') \<Rightarrow> cleaning me tx s' \<and> release_frame me s s' \<and> (\<forall>k\<in>set (k # ks). me \<notin> held (lock_of (kvs_lockServer s') k))"
      if "case y of (s', u') \<Rightarrow> cleaning me tx s' \<and> release_frame me s1 s' \<and> (\<forall>k\<in>set ks. me \<notin> held (lock_of (kvs_lockServer s') k))" for y
    proof -
      obtain s' u' where y: "y = (s', u')" by force
      have R: "cleaning me tx s'" "release_frame me s1 s'" "\<forall>k\<in>set ks. me \<notin> held (lock_of (kvs_lockServer s') k)" using that y by auto
      have "me \<notin> held (lock_of (kvs_lockServer s') k)" using S(3) R(2) held_modes by (auto simp: release_frame_def)
      then show ?thesis using R release_frame_trans [OF S(2) R(2)] y by simp
    qed
  qed
  have "ends (kvs_retryLock s) (rbind (release_key release hord me (s, u) k) (\<lambda>su. fold_r (release_key release hord me) su ks))
      (\<lambda>(s', u'). cleaning me tx s' \<and> release_frame me s s' \<and> (\<forall>k\<in>set (k # ks). me \<notin> held (lock_of (kvs_lockServer s') k)))"
    by (rule ends_rbind [OF release_one [OF Cons.prems assms(2)]]) (use later in auto)
  then show ?case by (simp only: fold_r.simps)
qed simp

end

lemma released_weaken: "\<lbrakk> released k R W s s' N; R \<subseteq> R'; W \<subseteq> W' \<rbrakk> \<Longrightarrow> released k R' W' s s' N"
  unfolding released_def by blast

interpretation read_release: key_release releaseForRead read_held
proof
  fix ls k h assume ok: "server_ok ls"
  show "ends (retryLock ls) (releaseForRead ls k h {}) (\<lambda>(ls', N). server_ok ls' \<and> gives_up k h ls ls' \<and>
      released k (read_held (lock_of ls k)) (write_held (lock_of ls k)) ls ls' N \<and> (h \<in> read_held (lock_of ls' k) \<longrightarrow> h \<in> N))"
  proof (rule ends_mono [OF releaseForRead_spec [OF ok, of k h "{}"]], goal_cases)
    case (1 y)
    obtain ls' N where y: "y = (ls', N)" by force
    have R: "released k (read_held (lock_of ls k) - {h}) (write_held (lock_of ls k)) ls ls' N"
      using releaseForRead_released [OF ok] 1(1) y by simp
    have "h \<in> read_held (lock_of ls' k) \<longrightarrow> h \<in> N" using R unfolding released_def by blast
    moreover have "released k (read_held (lock_of ls k)) (write_held (lock_of ls k)) ls ls' N" using R by (rule released_weaken) auto
    ultimately show ?case using 1(2) y by simp
  qed simp
qed simp

interpretation write_release: key_release releaseForWrite write_held
proof
  fix ls k h assume ok: "server_ok ls"
  show "ends (retryLock ls) (releaseForWrite ls k h {}) (\<lambda>(ls', N). server_ok ls' \<and> gives_up k h ls ls' \<and>
      released k (read_held (lock_of ls k)) (write_held (lock_of ls k)) ls ls' N \<and> (h \<in> write_held (lock_of ls' k) \<longrightarrow> h \<in> N))"
  proof (rule ends_mono [OF releaseForWrite_spec [OF ok, of k h "{}"]], goal_cases)
    case (1 y)
    obtain ls' N where y: "y = (ls', N)" by force
    have R: "released k (read_held (lock_of ls k)) (write_held (lock_of ls k) - {h}) ls ls' N"
      using releaseForWrite_released [OF ok] 1(1) y by simp
    have "h \<in> write_held (lock_of ls' k) \<longrightarrow> h \<in> N" using R unfolding released_def by blast
    moreover have "released k (read_held (lock_of ls k)) (write_held (lock_of ls k)) ls ls' N" using R by (rule released_weaken) auto
    ultimately show ?case using 1(2) y by simp
  qed simp
qed simp

section \<open>The whole call\<close>

lemma map_of_erase: "map_of (filter (\<lambda>(h, _). h \<noteq> me) P) g = (if g = me then None else map_of P g)"
  by (induction P) auto

lemma smap_ok_filter: "smap_ok P \<Longrightarrow> smap_ok (filter Q P)"
  by (induction P) (auto simp: smap_ok_Cons)

lemma ReleaseLocks_spec:
  assumes cl: "cleaning me tx s" and ord: "iterates rord" "iterates hord"
  shows "ends (kvs_retryLock s) (ReleaseLocks rord hord s tx u) (\<lambda>(s', u'). cleaning me tx s' \<and> release_frame me s s' \<and>
    (\<forall>k\<in>kt_readSet tx. me \<notin> read_held (lock_of (kvs_lockServer s') k)) \<and>
    (\<forall>k\<in>writeKeys tx. me \<notin> write_held (lock_of (kvs_lockServer s') k)))"
proof -
  let ?Q = "\<lambda>(s', u'). cleaning me tx s' \<and> release_frame me s s' \<and>
    (\<forall>k\<in>kt_readSet tx. me \<notin> read_held (lock_of (kvs_lockServer s') k)) \<and>
    (\<forall>k\<in>writeKeys tx. me \<notin> write_held (lock_of (kvs_lockServer s') k))"
  have tx: "ta_txnid (kt_txnarg tx) = me" "finite (kt_readSet tx)"
    using cl txns_okD [of "kvs_retryLock s" "kvs_pendingTxns s" me tx] by (auto simp: cleaning_def kv_core_def)
  then have r: "set (rord (kt_readSet tx)) = kt_readSet tx" using ord(1) by (simp add: iterates_def)
  have later: "ends (kvs_retryLock s) (fold_r (release_key releaseForWrite hord me) (s1, u1) (map fst (kt_writeSet tx))) ?Q"
    if S: "cleaning me tx s1" "release_frame me s s1" "\<forall>k\<in>kt_readSet tx. me \<notin> read_held (lock_of (kvs_lockServer s1) k)" for s1 u1
    by (rule ends_mono [OF write_release.release_all [OF S(1) ord(2)]])
      (use S(2,3) release_frame_trans [OF S(2)] in \<open>auto simp: release_frame_def writeKeys_def\<close>)
  show ?thesis
    unfolding ReleaseLocks_def tx(1)
    by (rule ends_rbind [OF read_release.release_all [OF cl ord(2)]]) (use later r in auto)
qed

lemma CleanupTxn_spec:
  assumes cl: "cleaning me tx s" and ord: "iterates rord" "iterates hord"
  shows "ends (kvs_retryLock s) (CleanupTxn rord hord s tx {}) (\<lambda>(s', u).
    kv_core (kvs_retryLock s') (kvs_pendingTxns s') (kvs_lockServer s') \<and>
    release_frame me s s' \<and> map_of (kvs_pendingTxns s') me = None)"
proof (cases "ReleaseLocks rord hord s tx {}")
  case (Inl e)
  then show ?thesis using ReleaseLocks_spec [OF cl ord, of "{}"] by (simp add: CleanupTxn_def)
next
  case (Inr y)
  obtain s2 u2 where y: "y = (s2, u2)" by force
  have C: "kv_core (kvs_retryLock s) (kvs_pendingTxns s) (kvs_lockServer s)" "map_of (kvs_pendingTxns s) me = Some tx"
    using cl by (auto simp: cleaning_def)
  then have tx: "ta_txnid (kt_txnarg tx) = me" "finite (kt_readSet tx)"
    using txns_okD [of "kvs_retryLock s" "kvs_pendingTxns s" me tx] by (auto simp: kv_core_def)
  have S2: "cleaning me tx s2" "release_frame me s s2" "\<forall>k\<in>kt_readSet tx. me \<notin> read_held (lock_of (kvs_lockServer s2) k)"
    "\<forall>k\<in>writeKeys tx. me \<notin> write_held (lock_of (kvs_lockServer s2) k)"
    using ReleaseLocks_spec [OF cl ord, of "{}"] Inr y by auto
  define P where "P = filter (\<lambda>(h, _). h \<noteq> me) (kvs_pendingTxns s2)"
  have run: "CleanupTxn rord hord s tx {} = Inr (s2\<lparr>kvs_pendingTxns := P\<rparr>, u2)"
    using Inr y S2(1) tx(1) by (simp add: CleanupTxn_def cleaning_def P_def)
  have K: "kv_core (kvs_retryLock s2) (kvs_pendingTxns s2) (kvs_lockServer s2)" "map_of (kvs_pendingTxns s2) me = Some tx" "kt_blockedKeys tx = {}"
    using S2(1) by (auto simp: cleaning_def)
  have cov: "covers (kvs_pendingTxns s2) (kvs_lockServer s2)" using K(1) by (simp add: kv_core_def)
  have nr: "me \<notin> read_held (lock_of (kvs_lockServer s2) k)" for k
    using coversD(1) [OF cov, of me k] K(2) S2(3) by auto
  have nw: "me \<notin> write_held (lock_of (kvs_lockServer s2) k)" for k
    using coversD(2) [OF cov, of me k] K(2) S2(4) by auto
  have "covers P (kvs_lockServer s2)"
    using cov nr nw unfolding covers_def P_def map_of_erase by (metis)
  moreover have "queued P (kvs_lockServer s2)" if r: "\<not> kvs_retryLock s2"
  proof -
    have q: "queued (kvs_pendingTxns s2) (kvs_lockServer s2)" using K(1) r by (simp add: kv_core_def)
    then have "waiting (kvs_lockServer s2) k me = None" for k using K(2,3) unfolding queued_def by (metis emptyE not_Some_eq option.inject)
    then show ?thesis using q unfolding queued_def P_def map_of_erase by (metis option.distinct(1))
  qed
  moreover have "txns_ok (kvs_retryLock s2) P"
    using K(1) by (auto simp: kv_core_def txns_ok_def P_def map_of_erase smap_ok_filter split: if_splits)
  ultimately have "kv_core (kvs_retryLock s2) P (kvs_lockServer s2)" using K(1) by (simp add: kv_core_def)
  moreover have "release_frame me s (s2\<lparr>kvs_pendingTxns := P\<rparr>)"
    using S2(2) by (simp add: release_frame_def)
  moreover have "map_of P me = None" by (simp add: P_def map_of_erase)
  ultimately show ?thesis using run by simp
qed

text \<open>The store and the reply of a transaction that was not blocked.\<close>

definition store_after :: "kvtxn_t \<Rightarrow> KVStore \<Rightarrow> KVStore" where
  "store_after tx st = (if ta_type (kt_txnarg tx) = TXN_INDEP \<or> ta_type (kt_txnarg tx) = TXN_COMMIT
     then write_pairs st (kt_writeSet tx) else st)"

definition reply_for :: "(string set \<Rightarrow> string list) \<Rightarrow> kvtxn_t \<Rightarrow> KVStore \<Rightarrow> KVTxnReplyMessage" where
  "reply_for rord tx st = \<lparr>kvr_success = True, kvr_rgets =
     (if ta_type (kt_txnarg tx) = TXN_PREPARE \<or> ta_type (kt_txnarg tx) = TXN_INDEP
      then map (\<lambda>k. (k, fst (kv_get st k))) (rord (kt_readSet tx)) else [])\<rparr>"

lemma ExecuteTransaction_spec:
  assumes core: "kv_core (kvs_retryLock s) (kvs_pendingTxns s) (kvs_lockServer s)" and ord: "iterates rord" "iterates hord"
    and tx: "kt_blockedKeys tx = {}" "ta_txnid (kt_txnarg tx) = me" "map_of (kvs_pendingTxns s) me \<in> {None, Some tx}"
  shows "ends (kvs_retryLock s \<or> ta_type (kt_txnarg tx) = TXN_PREPARE) (ExecuteTransaction rord hord s tx) (\<lambda>(s', reply, status, u).
    reply = reply_for rord tx (kvs_store s) \<and> status \<and>
    kv_core (kvs_retryLock s') (kvs_pendingTxns s') (kvs_lockServer s') \<and> kvs_retryLock s' = kvs_retryLock s \<and>
    kvs_store s' = store_after tx (kvs_store s) \<and> keeps_but me (kvs_lockServer s) (kvs_lockServer s') \<and>
    (ta_type (kt_txnarg tx) = TXN_PREPARE \<longrightarrow> s' = s))"
proof -
  let ?ty = "ta_type (kt_txnarg tx)"
  define s1 where "s1 = s\<lparr>kvs_store := store_after tx (kvs_store s)\<rparr>"
  have s1: "kvs_retryLock s1 = kvs_retryLock s" "kvs_pendingTxns s1 = kvs_pendingTxns s" "kvs_lockServer s1 = kvs_lockServer s"
    "kvs_store s1 = store_after tx (kvs_store s)" by (simp_all add: s1_def)
  have s1': "(if ?ty = TXN_INDEP \<or> ?ty = TXN_COMMIT then s\<lparr>kvs_store := write_pairs (kvs_store s) (kt_writeSet tx)\<rparr> else s) = s1"
    by (simp add: s1_def store_after_def)
  have reads: "(if ?ty = TXN_PREPARE \<or> ?ty = TXN_INDEP then read_keys (kvs_store s) (rord (kt_readSet tx)) else ([], True)) =
      (kvr_rgets (reply_for rord tx (kvs_store s)), True)"
    by (simp add: read_keys_def kv_get_def reply_for_def list_all_iff)
  have E: "ExecuteTransaction rord hord s tx =
      rbind (if ?ty \<noteq> TXN_PREPARE \<and> map_of (kvs_pendingTxns s) me \<noteq> None then CleanupTxn rord hord s1 tx {} else Inr (s1, {}))
        (\<lambda>(s2, u). Inr (s2, reply_for rord tx (kvs_store s), True, u))"
    unfolding ExecuteTransaction_def s1' reads tx(2) Let_def using tx(1) by (simp add: s1(2) reply_for_def)
  show ?thesis
  proof (cases "?ty \<noteq> TXN_PREPARE \<and> map_of (kvs_pendingTxns s) me \<noteq> None")
    case True
    then have "cleaning me tx s1" using core tx by (auto simp: cleaning_def s1)
    from CleanupTxn_spec [OF this ord]
    have C: "ends (kvs_retryLock s \<or> ?ty = TXN_PREPARE) (CleanupTxn rord hord s1 tx {}) (\<lambda>(s', u).
        kv_core (kvs_retryLock s') (kvs_pendingTxns s') (kvs_lockServer s') \<and> release_frame me s1 s')"
      by (rule ends_mono) (use True in \<open>auto simp: s1\<close>)
    show ?thesis
      unfolding E if_P [OF True] by (rule ends_rbind [OF C]) (use True in \<open>auto simp: release_frame_def s1\<close>)
  next
    case False
    have "?ty = TXN_PREPARE \<longrightarrow> s1 = s" by (simp add: s1_def store_after_def)
    then show ?thesis using False core by (auto simp: E s1)
  qed
qed

definition locking :: "KVTxnServer \<Rightarrow> txntype_t \<Rightarrow> bool" where
  "locking s ty \<longleftrightarrow> ty = TXN_PREPARE \<or> ty = TXN_INDEP \<and> kvs_mode s = MODE_LOCKING"

definition holds_all :: "u64 \<Rightarrow> kvtxn_t \<Rightarrow> LockServer \<Rightarrow> bool" where
  "holds_all me tx ls \<longleftrightarrow> (\<forall>k\<in>kt_readSet tx. me \<in> read_held (lock_of ls k)) \<and> (\<forall>k\<in>writeKeys tx. me \<in> write_held (lock_of ls k))"

lemma acquire_locks_spec:
  assumes core: "kv_core retry (smap_put me tx P) ls" and tx: "ta_txnid (kt_txnarg tx) = me" "finite (kt_readSet tx)"
    and ord: "iterates rord"
  shows "\<exists>ls' tx' b. acquire_locks rord retry ls tx = Inr (ls', tx', b) \<and> kv_core retry (smap_put me tx' P) ls' \<and> keeps ls ls' \<and>
    kt_readSet tx' = kt_readSet tx \<and> kt_writeSet tx' = kt_writeSet tx \<and> kt_txnarg tx' = kt_txnarg tx \<and>
    (\<not> b \<longrightarrow> tx' = tx \<and> holds_all me tx ls')"
proof -
  have r: "set (rord (kt_readSet tx)) = kt_readSet tx" using ord tx(2) by (simp add: iterates_def)
  obtain ls1 tx1 b1 where A: "fold_r (acquire_key lockForRead retry me) (ls, tx, False) (rord (kt_readSet tx)) = Inr (ls1, tx1, b1)"
    "kv_core retry (smap_put me tx1 P) ls1" "keeps ls ls1"
    "kt_readSet tx1 = kt_readSet tx" "kt_writeSet tx1 = kt_writeSet tx" "kt_txnarg tx1 = kt_txnarg tx"
    "\<not> b1 \<longrightarrow> tx1 = tx \<and> (\<forall>k\<in>kt_readSet tx. me \<in> read_held (lock_of ls1 k))"
    using reads.acquire_all [OF core, of "rord (kt_readSet tx)" False] unfolding r by blast
  have w: "set (map fst (kt_writeSet tx)) = writeKeys tx1" using A(5) by (simp add: writeKeys_def)
  obtain ls2 tx2 b2 where B: "fold_r (acquire_key lockForWrite retry me) (ls1, tx1, b1) (map fst (kt_writeSet tx)) = Inr (ls2, tx2, b2)"
    "kv_core retry (smap_put me tx2 P) ls2" "keeps ls1 ls2"
    "kt_readSet tx2 = kt_readSet tx1" "kt_writeSet tx2 = kt_writeSet tx1" "kt_txnarg tx2 = kt_txnarg tx1"
    "\<not> b2 \<longrightarrow> \<not> b1 \<and> tx2 = tx1 \<and> (\<forall>k\<in>writeKeys tx1. me \<in> write_held (lock_of ls2 k))"
    using writes.acquire_all [OF A(2), of "map fst (kt_writeSet tx)" b1] unfolding w by blast
  have "\<not> b2 \<longrightarrow> tx2 = tx \<and> holds_all me tx ls2"
    using A(7) B(3,7) unfolding holds_all_def keeps_def by blast
  moreover have "acquire_locks rord retry ls tx = Inr (ls2, tx2, b2)" using A(1) B(1) tx(1) by (simp add: acquire_locks_def)
  ultimately show ?thesis using A(4-6) B(2,4-6) keeps_trans [OF A(3) B(3)] by auto
qed

lemma lock_phase_spec:
  assumes core: "kv_core (kvs_retryLock s) (kvs_pendingTxns s) (kvs_lockServer s)"
    and tx: "ta_txnid (kt_txnarg tx) = me" "finite (kt_readSet tx)" "kvs_retryLock s \<longrightarrow> kt_blockedKeys tx = {}" "extends tx (map_of (kvs_pendingTxns s) me)"
    and ord: "iterates rord"
  shows "\<exists>s1 tx1 b. lock_phase rord s tx = Inr (s1, tx1, b) \<and> kv_core (kvs_retryLock s1) (kvs_pendingTxns s1) (kvs_lockServer s1) \<and>
    kvs_retryLock s1 = kvs_retryLock s \<and> kvs_store s1 = kvs_store s \<and> keeps (kvs_lockServer s) (kvs_lockServer s1) \<and>
    (b \<longrightarrow> locking s (ta_type (kt_txnarg tx)) \<and> map_of (kvs_pendingTxns s1) me = Some tx1) \<and>
    (\<not> b \<longrightarrow> tx1 = tx \<and> map_of (kvs_pendingTxns s1) me = (if locking s (ta_type (kt_txnarg tx)) \<or> map_of (kvs_pendingTxns s) me \<noteq> None then Some tx else None)) \<and>
    (\<not> b \<and> locking s (ta_type (kt_txnarg tx)) \<longrightarrow> holds_all me tx (kvs_lockServer s1))"
proof -
  let ?P = "kvs_pendingTxns s" and ?ls = "kvs_lockServer s"
  have put: "kv_core (kvs_retryLock s) (smap_put me tx ?P) ?ls" using core tx by (intro kv_core_put) auto
  show ?thesis
  proof (cases "locking s (ta_type (kt_txnarg tx))")
    case True
    obtain ls' tx' b where A: "acquire_locks rord (kvs_retryLock s) ?ls tx = Inr (ls', tx', b)"
      "kv_core (kvs_retryLock s) (smap_put me tx' ?P) ls'" "keeps ?ls ls'" "\<not> b \<longrightarrow> tx' = tx \<and> holds_all me tx ls'"
      using acquire_locks_spec [OF put tx(1,2) ord] by blast
    have "lock_phase rord s tx = Inr (put_txn (s\<lparr>kvs_lockServer := ls'\<rparr>) me tx', tx', b)"
      using True A(1) tx(1) by (simp add: lock_phase_def locking_def Let_def)
    then show ?thesis using A True by (auto simp: put_txn_def)
  next
    case False
    then have "lock_phase rord s tx = Inr (if map_of ?P me \<noteq> None then put_txn s me tx else s, tx, False)"
      using tx(1) by (auto simp: lock_phase_def locking_def Let_def)
    then show ?thesis using False core put by (auto simp: put_txn_def)
  qed
qed

lemma set_write_set: "set (foldl (\<lambda>ws p. insort_insert p ws) ws ps) = set ws \<union> set (ps :: (string \<times> string) list)"
  by (induction ps arbitrary: ws) (simp_all add: set_insort_insert)

lemma current_txn_facts:
  assumes "txns_ok retry (kvs_pendingTxns s)"
  shows "kt_txnarg (current_txn s txn arg) = arg" "finite (kt_readSet (current_txn s txn arg))"
    "extends (current_txn s txn arg) (map_of (kvs_pendingTxns s) (ta_txnid arg))"
    "kt_blockedKeys (current_txn s txn arg) =
       (case map_of (kvs_pendingTxns s) (ta_txnid arg) of None \<Rightarrow> {} | Some t \<Rightarrow> kt_blockedKeys t)"
proof -
  show "kt_txnarg (current_txn s txn arg) = arg"
    by (auto simp: current_txn_def add_ops_def Let_def split: option.splits)
  show "finite (kt_readSet (current_txn s txn arg))"
    using txns_okD [OF assms, of "ta_txnid arg"] by (auto simp: current_txn_def add_ops_def Let_def split: option.splits)
  show "extends (current_txn s txn arg) (map_of (kvs_pendingTxns s) (ta_txnid arg))"
    by (auto simp: extends_def current_txn_def add_ops_def Let_def writeKeys_def set_write_set split: option.splits)
  show "kt_blockedKeys (current_txn s txn arg) =
       (case map_of (kvs_pendingTxns s) (ta_txnid arg) of None \<Rightarrow> {} | Some t \<Rightarrow> kt_blockedKeys t)"
    by (auto simp: current_txn_def add_ops_def Let_def split: option.splits)
qed

end
