(* ===== verification/KVTxnProperties.thy ===== *)
theory KVTxnProperties
  imports KVTxnInvariant
begin

text \<open>
  What the transactional key-value server promises: every call keeps the invariant, and in retry mode returns;
  an unblocked prepare holds all the locks of its transaction, and a key that a transaction has
  locked does not change until that transaction is finished.
\<close>

section \<open>One call\<close>

text \<open>A call that does not come while its transaction is blocked.  The server does not check this: it asserts, when it executes a
  transaction, that the transaction is blocked on no key.\<close>

definition call_ok :: "KVTxnServer \<Rightarrow> KVTxnMessage option \<times> txnarg_t \<Rightarrow> bool" where
  "call_ok s ev \<longleftrightarrow>
     (case map_of (kvs_pendingTxns s) (ta_txnid (snd ev)) of None \<Rightarrow> True | Some t \<Rightarrow> kt_blockedKeys t = {})"

lemma InvokeTransaction_spec:
  assumes ok: "kv_ok s" and ord: "iterates rord" "iterates hord"
    and me: "me = ta_txnid arg" and tx: "tx = current_txn s txn arg"
  shows "case InvokeTransaction rord hord s txn arg of
    Inl e \<Rightarrow> \<not> kvs_retryLock s \<and> (if call_ok s (txn, arg) then e = UndefinedBehaviour \<and> ta_type arg \<noteq> TXN_PREPARE else e = AssertFailed)
  | Inr (s', reply, ret) \<Rightarrow> kv_ok s' \<and>
    keeps_but me (kvs_lockServer s) (kvs_lockServer s') \<and> kvs_retryLock s' = kvs_retryLock s \<and> tr_txnid ret = me \<and> tr_mode ret = kvs_mode s' \<and>
    (if tr_blocked ret
     then reply = None \<and> \<not> tr_commit ret \<and> tr_unblocked_txns ret = {} \<and> kvs_store s' = kvs_store s \<and> locking s (ta_type arg) \<and>
       map_of (kvs_pendingTxns s') me \<noteq> None \<and> keeps (kvs_lockServer s) (kvs_lockServer s')
     else reply = Some (reply_for rord tx (kvs_store s)) \<and> tr_commit ret \<and> kvs_store s' = store_after tx (kvs_store s) \<and>
       (locking s (ta_type arg) \<longrightarrow> (\<exists>ls. server_ok ls \<and> keeps (kvs_lockServer s) ls \<and> holds_all me tx ls)) \<and>
       (ta_type arg = TXN_PREPARE \<longrightarrow> holds_all me tx (kvs_lockServer s') \<and> map_of (kvs_pendingTxns s') me = Some tx))"
proof -
  have core: "kv_core (kvs_retryLock s) (kvs_pendingTxns s) (kvs_lockServer s)" using ok by (simp add: kv_ok_def)
  then have txns: "txns_ok (kvs_retryLock s) (kvs_pendingTxns s)" by (simp add: kv_core_def)
  have T: "kt_txnarg tx = arg" "finite (kt_readSet tx)" "extends tx (map_of (kvs_pendingTxns s) me)"
    "kt_blockedKeys tx = {} \<longleftrightarrow> call_ok s (txn, arg)" "kvs_retryLock s \<longrightarrow> kt_blockedKeys tx = {}"
    using current_txn_facts [OF txns, of txn arg] txns_okD [OF txns, of me] by (auto simp: tx me call_ok_def split: option.splits)
  obtain s1 tx1 b where L: "lock_phase rord s tx = Inr (s1, tx1, b)"
    "kv_core (kvs_retryLock s1) (kvs_pendingTxns s1) (kvs_lockServer s1)"
    "kvs_retryLock s1 = kvs_retryLock s" "kvs_store s1 = kvs_store s" "keeps (kvs_lockServer s) (kvs_lockServer s1)"
    "b \<longrightarrow> locking s (ta_type arg) \<and> map_of (kvs_pendingTxns s1) me = Some tx1"
    "\<not> b \<longrightarrow> tx1 = tx \<and> map_of (kvs_pendingTxns s1) me = (if locking s (ta_type arg) \<or> map_of (kvs_pendingTxns s) me \<noteq> None then Some tx else None)"
    "\<not> b \<and> locking s (ta_type arg) \<longrightarrow> holds_all me tx (kvs_lockServer s1)"
    using lock_phase_spec [OF core _ T(2,5,3) ord(1)] unfolding T(1) me by blast
  have mode: "kv_ok (t\<lparr>kvs_mode := (if kvs_pendingTxns t = [] then MODE_NORMAL else MODE_LOCKING)\<rparr>)"
    if "kv_core (kvs_retryLock t) (kvs_pendingTxns t) (kvs_lockServer t)" for t
    using that by (simp add: kv_ok_def)
  show ?thesis
  proof (cases b)
    case True
    then have "InvokeTransaction rord hord s txn arg = Inr (s1\<lparr>kvs_mode := (if kvs_pendingTxns s1 = [] then MODE_NORMAL else MODE_LOCKING)\<rparr>, None,
        \<lparr>tr_txnid = me, tr_blocked = True, tr_commit = False, tr_unblocked_txns = {}, tr_mode = (if kvs_pendingTxns s1 = [] then MODE_NORMAL else MODE_LOCKING)\<rparr>)"
      using L(1) by (simp add: InvokeTransaction_def tx me Let_def)
    then show ?thesis using True L mode [OF L(2)] by (simp add: keeps_imp_but)
  next
    case False
    then have tx1: "tx1 = tx" "map_of (kvs_pendingTxns s1) me \<in> {None, Some tx}" using L(7) by (auto split: if_splits)
    have inv: "InvokeTransaction rord hord s txn arg = rbind (ExecuteTransaction rord hord s1 tx) (\<lambda>(s2, reply, status, u).
        let s3 = s2\<lparr>kvs_mode := (if kvs_pendingTxns s2 = [] then MODE_NORMAL else MODE_LOCKING)\<rparr>
        in Inr (s3, Some reply, \<lparr>tr_txnid = me, tr_blocked = False, tr_commit = status, tr_unblocked_txns = u, tr_mode = kvs_mode s3\<rparr>))"
      using L(1) False tx1(1) by (cases "ExecuteTransaction rord hord s1 tx") (auto simp: InvokeTransaction_def tx me Let_def)
    show ?thesis
    proof (cases "call_ok s (txn, arg)")
      case blocked: False
      then have "ExecuteTransaction rord hord s1 tx = Inl AssertFailed" using T(4) by (simp add: ExecuteTransaction_def)
      then show ?thesis using inv blocked T(4,5) by simp
    next
      case call: True
      then have free: "kt_blockedKeys tx = {}" using T(4) by simp
      have E: "ends (kvs_retryLock s1 \<or> ta_type arg = TXN_PREPARE) (ExecuteTransaction rord hord s1 tx) (\<lambda>(s2, reply, status, u).
          reply = reply_for rord tx (kvs_store s1) \<and> status \<and> kv_core (kvs_retryLock s2) (kvs_pendingTxns s2) (kvs_lockServer s2) \<and>
          kvs_retryLock s2 = kvs_retryLock s1 \<and> kvs_store s2 = store_after tx (kvs_store s1) \<and>
          keeps_but me (kvs_lockServer s1) (kvs_lockServer s2) \<and> (ta_type arg = TXN_PREPARE \<longrightarrow> s2 = s1))"
        using ExecuteTransaction_spec [OF L(2) ord free _ tx1(2)] unfolding T(1) me by simp
      have k: "keeps_but me (kvs_lockServer s1) ls \<Longrightarrow> keeps_but me (kvs_lockServer s) ls" for ls
        using keeps_imp_but [OF L(5)] by (rule keeps_but_trans)
      have ls: "locking s (ta_type arg) \<longrightarrow> (\<exists>ls. server_ok ls \<and> keeps (kvs_lockServer s) ls \<and> holds_all me tx ls)"
        using L(2,5,8) False by (auto simp: kv_core_def)
      have p: "ta_type arg = TXN_PREPARE \<longrightarrow> holds_all me tx (kvs_lockServer s1) \<and> map_of (kvs_pendingTxns s1) me = Some tx"
        using L(7,8) False by (simp add: locking_def)
      show ?thesis
      proof (cases "ExecuteTransaction rord hord s1 tx")
        case (Inl e)
        then show ?thesis using inv E call L(3) by simp
      next
        case (Inr y)
        obtain s2 reply status u where y: "y = (s2, reply, status, u)" by (cases y)
        note E2 = ends_returns [OF E Inr, unfolded y prod.case]
        then have "kv_core (kvs_retryLock s2) (kvs_pendingTxns s2) (kvs_lockServer s2)" by blast
        note ok2 = mode [OF this]
        show ?thesis using y Inr inv E2 k ls p L(3,4) ok2 by (simp add: Let_def)
      qed
    qed
  qed
qed

lemma kv_ok_new: "KVTxnServer_new retry myShard nShards keys = Inr s \<Longrightarrow> kv_ok s"
  using server_ok_new [of retry]
  by (auto simp: KVTxnServer_new_def kv_ok_def kv_core_def txns_ok_def covers_def queued_def waiting_def
      lock_of_def LockServer_new_def Lock_new_def read_held_def write_held_def)

lemma kv_step_spec:
  assumes "kv_ok s" and "iterates rord" and "iterates hord"
  shows "case kv_step rord hord s ev of
    Inl e \<Rightarrow> \<not> kvs_retryLock s \<and> (if call_ok s ev then e = UndefinedBehaviour else e = AssertFailed)
  | Inr s' \<Rightarrow> kv_ok s' \<and> kvs_retryLock s' = kvs_retryLock s"
  using InvokeTransaction_spec [OF assms refl refl, of "fst ev" "snd ev"]
  by (auto simp: kv_step_def split: sum.splits prod.splits if_splits)

text \<open>A run keeps the invariant whatever is called; in retry mode every run returns.\<close>

lemma kv_handler:
  assumes "iterates rord" and "iterates hord"
  shows "handler_system (kv_step rord hord) (\<lambda>_ _. True) (\<lambda>s. kv_ok s \<and> kvs_retryLock s = retry)"
proof
  show "kv_ok s' \<and> kvs_retryLock s' = retry" if "kv_ok s \<and> kvs_retryLock s = retry" "kv_step rord hord s ev = Inr s'" for s ev s'
    using kv_step_spec [OF _ assms, of s ev] that by simp
qed

lemma iterates_sorted: "iterates (sorted_list_of_set :: ('a::linorder) set \<Rightarrow> 'a list)"
  by (simp add: iterates_def)

interpretation kv_sorted: total_system "kv_step sorted_list_of_set sorted_list_of_set" "\<lambda>_ _. True" "\<lambda>s. kv_ok s \<and> kvs_retryLock s = True"
proof (intro total_system.intro kv_handler iterates_sorted total_system_axioms.intro)
  show "\<exists>s'. kv_step sorted_list_of_set sorted_list_of_set s ev = Inr s'" if "kv_ok s \<and> kvs_retryLock s = True" for s ev
    using kv_step_spec [OF _ iterates_sorted iterates_sorted, of s ev] that by (auto split: sum.splits)
qed

section \<open>Runs\<close>

lemma kv_run_inv:
  assumes "KVTxnServer_new retry myShard nShards keys = Inr s0" and "iterates rord" and "iterates hord"
    and "fold_r (kv_step rord hord) s0 evs = Inr s"
  shows "kv_ok s \<and> kvs_retryLock s = retry"
proof (rule handler_system.run_inv [OF kv_handler [OF assms(2,3)] _ accepts_any assms(4)])
  show "kv_ok s0 \<and> kvs_retryLock s0 = retry" using kv_ok_new [OF assms(1)] assms(1) by (auto simp: KVTxnServer_new_def)
qed

text \<open>C15. The locks of the transactional server stay consistent with its transactions, and how the server can stop.  From its constructor,
  whatever transactions are prepared, committed, aborted or run independently, in any interleaving: when the run
  returns, no two transactions hold a key in conflicting modes, whoever holds a key is a pending transaction that asked
  for it in that mode, and the server is in locking mode exactly while transactions are pending.  When clients retry
  blocked transactions, every run returns.  When the server hands locks over itself, a run can stop in two ways only: a
  call for a transaction that is still blocked (not \<open>call_ok\<close>) fails an assertion, or another call runs into the
  undefined behaviour of the lock server.\<close>

theorem kv_run_total:
  assumes new: "KVTxnServer_new retry myShard nShards keys = Inr s0" and ord: "iterates rord" "iterates hord"
  shows "case fold_r (kv_step rord hord) s0 evs of
     Inr s \<Rightarrow>
       (\<forall>k w. w \<in> write_held (lock_of (kvs_lockServer s) k) \<longrightarrow>
          write_held (lock_of (kvs_lockServer s) k) = {w} \<and> read_held (lock_of (kvs_lockServer s) k) \<subseteq> {w}) \<and>
       (\<forall>k h. h \<in> read_held (lock_of (kvs_lockServer s) k) \<longrightarrow> (\<exists>t. map_of (kvs_pendingTxns s) h = Some t \<and> k \<in> kt_readSet t)) \<and>
       (\<forall>k h. h \<in> write_held (lock_of (kvs_lockServer s) k) \<longrightarrow> (\<exists>t. map_of (kvs_pendingTxns s) h = Some t \<and> k \<in> fst ` set (kt_writeSet t))) \<and>
       (kvs_mode s = MODE_LOCKING \<longleftrightarrow> kvs_pendingTxns s \<noteq> [])
   | Inl e \<Rightarrow> \<not> retry \<and> (\<exists>evs1 ev evs2 s. evs = evs1 @ ev # evs2 \<and> fold_r (kv_step rord hord) s0 evs1 = Inr s \<and>
       (if call_ok s ev then e = UndefinedBehaviour else e = AssertFailed))"
proof (cases "fold_r (kv_step rord hord) s0 evs")
  case (Inr s)
  then have kv: "kv_ok s" using kv_run_inv [OF new ord] by blast
  then have ok: "server_ok (kvs_lockServer s)" "covers (kvs_pendingTxns s) (kvs_lockServer s)"
    by (simp_all add: kv_ok_def kv_core_def)
  show ?thesis
    unfolding Inr sum.case
  proof (intro conjI)
    show "\<forall>k w. w \<in> write_held (lock_of (kvs_lockServer s) k) \<longrightarrow>
       write_held (lock_of (kvs_lockServer s) k) = {w} \<and> read_held (lock_of (kvs_lockServer s) k) \<subseteq> {w}"
      by (intro allI impI) (rule mutual_exclusion [OF ok(1)])
    show "kvs_mode s = MODE_LOCKING \<longleftrightarrow> kvs_pendingTxns s \<noteq> []" using kv by (simp add: kv_ok_def)
  qed (use ok(2) in \<open>simp_all add: covers_def writeKeys_def\<close>)
next
  case (Inl e)
  obtain evs1 ev evs2 s where r: "evs = evs1 @ ev # evs2" "fold_r (kv_step rord hord) s0 evs1 = Inr s" "kv_step rord hord s ev = Inl e"
    using fold_r_Inl [OF Inl] by blast
  have "kv_ok s" "kvs_retryLock s = retry" using kv_run_inv [OF new ord r(2)] by simp_all
  then have "\<not> retry" "if call_ok s ev then e = UndefinedBehaviour else e = AssertFailed"
    using kv_step_spec [OF _ ord, of s ev] r(3) by simp_all
  then show ?thesis unfolding Inl sum.case using r(1,2) by blast
qed

definition kv_prepare :: "u64 \<Rightarrow> string list \<Rightarrow> (string \<times> string) list \<Rightarrow> KVTxnMessage option \<times> txnarg_t" where
  "kv_prepare i gs ps = (Some \<lparr>kvm_gets = gs, kvm_puts = ps\<rparr>, \<lparr>ta_txnid = i, ta_type = TXN_PREPARE\<rparr>)"

definition kv_indep :: "u64 \<Rightarrow> string list \<Rightarrow> (string \<times> string) list \<Rightarrow> KVTxnMessage option \<times> txnarg_t" where
  "kv_indep i gs ps = (Some \<lparr>kvm_gets = gs, kvm_puts = ps\<rparr>, \<lparr>ta_txnid = i, ta_type = TXN_INDEP\<rparr>)"

definition kv_finish :: "u64 \<Rightarrow> txntype_t \<Rightarrow> KVTxnMessage option \<times> txnarg_t" where
  "kv_finish i ty = (None, \<lparr>ta_txnid = i, ta_type = ty\<rparr>)"

definition kv_server :: "bool \<Rightarrow> KVTxnServer" where
  "kv_server retry = \<lparr>kvs_retryLock = retry, kvs_store = KVStore_new, kvs_lockServer = LockServer_new retry,
     kvs_mode = MODE_NORMAL, kvs_pendingTxns = []\<rparr>"

lemma kv_server_new: "KVTxnServer_new retry 0 1 [] = Inr (kv_server retry)"
  by (simp add: KVTxnServer_new_def kv_server_def)

text \<open>A transaction is prepared, another blocks on it, a third runs independently, the first commits and
  the second is prepared again and gets its locks.\<close>

definition kv_events :: "(KVTxnMessage option \<times> txnarg_t) list" where
  "kv_events = [kv_prepare 1 [''x''] [(''y'', ''v'')], kv_prepare 2 [''y''] [(''x'', ''w'')], kv_indep 3 [''z''] [(''z'', ''u'')],
     kv_finish 1 TXN_COMMIT, kv_prepare 2 [''y''] [(''x'', ''w'')]]"

theorem kv_run_total_witness:
  "\<exists>s. fold_r (kv_step sorted_list_of_set sorted_list_of_set) (kv_server True) kv_events = Inr s \<and>
     write_held (lock_of (kvs_lockServer s) ''x'') = {2} \<and> (\<exists>t. map_of (kvs_pendingTxns s) 2 = Some t \<and> ''x'' \<in> fst ` set (kt_writeSet t))"
proof -
  let ?run = "fold_r (kv_step sorted_list_of_set sorted_list_of_set) (kv_server True) kv_events"
  have "case ?run of Inl _ \<Rightarrow> False | Inr s \<Rightarrow> 2 \<in> write_held (lock_of (kvs_lockServer s) ''x'')" by code_simp
  then show ?thesis using kv_run_total [OF kv_server_new iterates_sorted iterates_sorted, of True kv_events] by (auto split: sum.splits)
qed

section \<open>Preparing\<close>

text \<open>What a call adds to the sets of its transaction.\<close>

definition reads_of :: "KVTxnServer \<Rightarrow> u64 \<Rightarrow> KVTxnMessage \<Rightarrow> string set" where
  "reads_of s me m = (case map_of (kvs_pendingTxns s) me of None \<Rightarrow> {} | Some t \<Rightarrow> kt_readSet t) \<union> set (kvm_gets m)"

definition writes_of :: "KVTxnServer \<Rightarrow> u64 \<Rightarrow> KVTxnMessage \<Rightarrow> string set" where
  "writes_of s me m = (case map_of (kvs_pendingTxns s) me of None \<Rightarrow> {} | Some t \<Rightarrow> fst ` set (kt_writeSet t)) \<union> fst ` set (kvm_puts m)"

text \<open>C34. A prepare either takes all the locks of its transaction or none of its effects.  In every state the server can be in
  (\<open>kv_ok\<close>, which holds in every state a run reaches), for a new transaction or one that is prepared again, the
  call never changes the store and the transaction is pending afterwards; if it is not blocked, the transaction holds
  every key it reads, earlier calls included, for reading and every key it writes for writing, and the reply
  carries the current values of all keys it reads; if it is blocked, there is no reply.  The call can fail in one way only: by an
  assertion, when the transaction is pending and blocked already and the server hands locks over itself.\<close>

theorem prepare_locks_or_blocks:
  assumes "kv_ok s" and "iterates rord" and "iterates hord"
  shows "case InvokeTransaction rord hord s (Some m) \<lparr>ta_txnid = me, ta_type = TXN_PREPARE\<rparr> of
     Inr (s', reply, ret) \<Rightarrow> kvs_store s' = kvs_store s \<and> map_of (kvs_pendingTxns s') me \<noteq> None \<and>
       (if tr_blocked ret then reply = None \<and> \<not> tr_commit ret
        else tr_commit ret \<and> (\<forall>k\<in>reads_of s me m. me \<in> read_held (lock_of (kvs_lockServer s') k)) \<and>
          (\<forall>k\<in>writes_of s me m. me \<in> write_held (lock_of (kvs_lockServer s') k)) \<and>
          (\<exists>r. reply = Some r \<and> kvr_success r \<and> set (kvr_rgets r) =
             (\<lambda>k. (k, case kv_store (kvs_store s) k of None \<Rightarrow> '''' | Some v \<Rightarrow> v)) ` reads_of s me m))
   | Inl e \<Rightarrow> e = AssertFailed \<and> \<not> kvs_retryLock s \<and>
       (\<exists>t. map_of (kvs_pendingTxns s) me = Some t \<and> kt_blockedKeys t \<noteq> {})"
proof -
  let ?arg = "\<lparr>ta_txnid = me, ta_type = TXN_PREPARE\<rparr>"
  define tx where "tx = current_txn s (Some m) ?arg"
  have T: "kt_readSet tx = reads_of s me m" "writeKeys tx = writes_of s me m" "ta_type (kt_txnarg tx) = TXN_PREPARE"
    by (auto simp: tx_def current_txn_def add_ops_def writeKeys_def set_write_set reads_of_def writes_of_def Let_def split: option.splits)
  have "txns_ok (kvs_retryLock s) (kvs_pendingTxns s)" using assms(1) by (simp add: kv_ok_def kv_core_def)
  then have "finite (kt_readSet tx)" unfolding tx_def by (rule current_txn_facts(2))
  then have r: "set (rord (kt_readSet tx)) = reads_of s me m" using assms(2) T(1) by (simp add: iterates_def)
  note I = InvokeTransaction_spec [OF assms, where me = me, OF _ tx_def]
  show ?thesis
  proof (cases "InvokeTransaction rord hord s (Some m) ?arg")
    case (Inl e)
    then show ?thesis using I by (auto simp: call_ok_def split: option.splits if_splits)
  next
    case (Inr y)
    obtain s' reply ret where y: "y = (s', reply, ret)" by (cases y)
    show ?thesis
    proof (cases "tr_blocked ret")
      case True
      then show ?thesis using I Inr y by simp
    next
      case False
      then have "kvs_store s' = kvs_store s" using I Inr y T(3) by (simp add: store_after_def)
      then show ?thesis using False I Inr y T r by (simp add: holds_all_def reply_for_def kv_get_def)
    qed
  qed
qed

theorem prepare_locks_or_blocks_witness:
  "\<exists>s' reply ret. InvokeTransaction sorted_list_of_set sorted_list_of_set (kv_server True)
      (Some \<lparr>kvm_gets = [''x''], kvm_puts = [(''y'', ''v'')]\<rparr>) \<lparr>ta_txnid = 1, ta_type = TXN_PREPARE\<rparr> = Inr (s', reply, ret) \<and>
    \<not> tr_blocked ret \<and> 1 \<in> read_held (lock_of (kvs_lockServer s') ''x'') \<and> 1 \<in> write_held (lock_of (kvs_lockServer s') ''y'')"
proof -
  let ?m = "\<lparr>kvm_gets = [''x''], kvm_puts = [(''y'', ''v'')]\<rparr>"
  have s: "reads_of (kv_server True) 1 ?m = {''x''}" "writes_of (kv_server True) 1 ?m = {''y''}"
    by (simp_all add: reads_of_def writes_of_def kv_server_def)
  have b: "case InvokeTransaction sorted_list_of_set sorted_list_of_set (kv_server True) (Some ?m) \<lparr>ta_txnid = 1, ta_type = TXN_PREPARE\<rparr> of
      Inl _ \<Rightarrow> False | Inr (s', reply, ret) \<Rightarrow> \<not> tr_blocked ret" by code_simp
  from prepare_locks_or_blocks [OF kv_ok_new [OF kv_server_new [of True]] iterates_sorted iterates_sorted, where m = ?m and me = 1] show ?thesis
    using b unfolding s by (auto split: sum.splits prod.splits)
qed

section \<open>Isolation\<close>

text \<open>The calls of other transactions, which commit only what they hold locked.  The server does not check this: it executes
  the COMMIT of any transaction it finds pending and not blocked.\<close>

definition other_call :: "u64 \<Rightarrow> KVTxnServer \<Rightarrow> KVTxnMessage option \<times> txnarg_t \<Rightarrow> bool" where
  "other_call me s ev \<longleftrightarrow> ta_txnid (snd ev) \<noteq> me \<and>
     (ta_type (snd ev) = TXN_COMMIT \<longrightarrow>
        (case map_of (kvs_pendingTxns s) (ta_txnid (snd ev)) of None \<Rightarrow> True
         | Some t \<Rightarrow> \<forall>(k, v)\<in>set (kt_writeSet t). ta_txnid (snd ev) \<in> write_held (lock_of (kvs_lockServer s) k)))"

definition undisturbed :: "u64 \<Rightarrow> KVTxnServer \<Rightarrow> KVTxnServer \<Rightarrow> bool" where
  "undisturbed me s s' \<longleftrightarrow> (\<forall>k.
     (me \<in> read_held (lock_of (kvs_lockServer s) k) \<longrightarrow>
        me \<in> read_held (lock_of (kvs_lockServer s') k) \<and> kv_store (kvs_store s') k = kv_store (kvs_store s) k) \<and>
     (me \<in> write_held (lock_of (kvs_lockServer s) k) \<longrightarrow>
        me \<in> write_held (lock_of (kvs_lockServer s') k) \<and> kv_store (kvs_store s') k = kv_store (kvs_store s) k))"

lemma write_pairs_other: "k \<notin> fst ` set ws \<Longrightarrow> kv_store (write_pairs st ws) k = kv_store st k"
proof (induction ws arbitrary: st)
  case (Cons w ws)
  obtain j v where w: "w = (j, v)" by (cases w)
  have "write_pairs st (w # ws) = write_pairs (fst (kv_put st j v)) ws" by (simp add: write_pairs_def w)
  then show ?case using Cons w by (simp add: kv_put_def)
qed (simp add: write_pairs_def)

lemma no_conflict:
  assumes "server_ok ls" and "i \<in> write_held (lock_of ls k)" and "me \<in> read_held (lock_of ls k) \<union> write_held (lock_of ls k)"
  shows "me = i"
  using mutual_exclusion [OF assms(1,2)] assms(3) by auto

text \<open>A transaction writes only keys that nobody else has locked.\<close>

lemma writes_unlocked:
  assumes ok: "kv_ok s" and oc: "other_call me s (txn, arg)" and tx: "tx = current_txn s txn arg"
    and held: "me \<in> read_held (lock_of (kvs_lockServer s) k) \<union> write_held (lock_of (kvs_lockServer s) k)"
    and lk: "locking s (ta_type arg) \<longrightarrow> (\<exists>ls. server_ok ls \<and> keeps (kvs_lockServer s) ls \<and> holds_all (ta_txnid arg) tx ls)"
  shows "kv_store (store_after tx (kvs_store s)) k = kv_store (kvs_store s) k"
proof -
  let ?i = "ta_txnid arg"
  have C: "server_ok (kvs_lockServer s)" "covers (kvs_pendingTxns s) (kvs_lockServer s)"
      "txns_ok (kvs_retryLock s) (kvs_pendingTxns s)"
    using ok by (auto simp: kv_ok_def kv_core_def)
  have arg: "kt_txnarg tx = arg" using current_txn_facts(1) [OF C(3)] tx by simp
  have i: "?i \<noteq> me" using oc by (simp add: other_call_def)
  have "k \<notin> fst ` set (kt_writeSet tx)" if ty: "ta_type arg = TXN_INDEP \<or> ta_type arg = TXN_COMMIT"
  proof
    assume k: "k \<in> fst ` set (kt_writeSet tx)"
    show False
    proof (cases "locking s (ta_type arg)")
      case True
      then obtain ls where ls: "server_ok ls" "keeps (kvs_lockServer s) ls" "holds_all ?i tx ls" using lk by blast
      have "?i \<in> write_held (lock_of ls k)" using ls(3) k by (auto simp: holds_all_def writeKeys_def)
      moreover have "me \<in> read_held (lock_of ls k) \<union> write_held (lock_of ls k)" using held ls(2) unfolding keeps_def by blast
      ultimately show False using no_conflict [OF ls(1)] i by blast
    next
      case False
      have "map_of (kvs_pendingTxns s) me \<noteq> None" using held coversD [OF C(2), of me k] by auto
      then have "kvs_mode s = MODE_LOCKING" using ok by (auto simp: kv_ok_def)
      then have c: "ta_type arg = TXN_COMMIT" using ty False by (auto simp: locking_def)
      then obtain t where t: "map_of (kvs_pendingTxns s) ?i = Some t" "kt_writeSet tx = kt_writeSet t"
        using k tx by (auto simp: current_txn_def Let_def split: option.splits)
      then have "?i \<in> write_held (lock_of (kvs_lockServer s) k)" using oc c k by (auto simp: other_call_def)
      then show False using no_conflict [OF C(1) _ held] i by blast
    qed
  qed
  then show ?thesis using arg by (auto simp: store_after_def write_pairs_other)
qed

lemma kv_step_undisturbed:
  assumes ok: "kv_ok s" and oc: "other_call me s ev" and ord: "iterates rord" "iterates hord"
    and run: "kv_step rord hord s ev = Inr s'"
  shows "undisturbed me s s'"
proof -
  let ?arg = "snd ev"
  have i: "ta_txnid ?arg \<noteq> me" using oc by (auto simp: other_call_def)
  define tx where "tx = current_txn s (fst ev) ?arg"
  let ?locked = "locking s (ta_type ?arg) \<longrightarrow> (\<exists>ls. server_ok ls \<and> keeps (kvs_lockServer s) ls \<and> holds_all (ta_txnid ?arg) tx ls)"
  obtain reply ret where R: "InvokeTransaction rord hord s (fst ev) ?arg = Inr (s', reply, ret)" using run by (auto simp: kv_step_def)
  have I: "keeps_but (ta_txnid ?arg) (kvs_lockServer s) (kvs_lockServer s')"
    "kvs_store s' = kvs_store s \<or> kvs_store s' = store_after tx (kvs_store s) \<and> ?locked"
    using InvokeTransaction_spec [OF ok ord refl tx_def] unfolding R sum.case prod.case by (simp, metis)
  have st: "kv_store (kvs_store s') k = kv_store (kvs_store s) k"
    if "me \<in> read_held (lock_of (kvs_lockServer s) k) \<union> write_held (lock_of (kvs_lockServer s) k)" for k
    using I(2) writes_unlocked [OF ok _ tx_def that] oc by (metis prod.collapse)
  then show ?thesis using I(1) i unfolding undisturbed_def keeps_but_def by blast
qed

lemma kv_isolation:
  assumes "iterates rord" and "iterates hord"
  shows "progress_system (kv_step rord hord) (other_call me) kv_ok (undisturbed me)"
proof
  show "kv_ok s'" if "kv_ok s" "kv_step rord hord s ev = Inr s'" for s ev s'
    using kv_step_spec [OF that(1) assms, of ev] that(2) by simp
  show "undisturbed me s s'" if "kv_ok s" "other_call me s ev" "kv_step rord hord s ev = Inr s'" for s ev s'
    using kv_step_undisturbed [OF that(1,2) assms that(3)] .
qed (auto simp: undisturbed_def)

text \<open>C6. Strict two-phase locking isolates transactions whose commits are preceded by successful prepares.  Take any state
  the server reaches and a key some transaction has locked, for reading or for writing.  Through any sequence
  of further calls of other transactions, prepared, committed, aborted or independent, in any interleaving, that return and in
  which a COMMIT comes only for a transaction that holds the write locks of its write set, the transaction keeps the lock and the
  value of the key does not change.  The condition on COMMIT is the protocols' duty: the server executes a COMMIT without
  checking the locks, and the COMMIT of a transaction whose prepare was blocked overwrites keys others have locked.\<close>

theorem two_phase_isolation:
  assumes new: "KVTxnServer_new retry myShard nShards keys = Inr s0" and ord: "iterates rord" "iterates hord"
    and before: "fold_r (kv_step rord hord) s0 evs = Inr s"
    and held: "me \<in> read_held (lock_of (kvs_lockServer s) k) \<or> me \<in> write_held (lock_of (kvs_lockServer s) k)"
    and others: "accepts (kv_step rord hord) (other_call me) s evs'" "fold_r (kv_step rord hord) s evs' = Inr s'"
  shows "kv_store (kvs_store s') k = kv_store (kvs_store s) k \<and>
    (me \<in> read_held (lock_of (kvs_lockServer s) k) \<longrightarrow> me \<in> read_held (lock_of (kvs_lockServer s') k)) \<and>
    (me \<in> write_held (lock_of (kvs_lockServer s) k) \<longrightarrow> me \<in> write_held (lock_of (kvs_lockServer s') k))"
proof -
  have "kv_ok s" using kv_run_inv [OF new ord before] by blast
  then have "undisturbed me s s'" using progress_system.run_rel [OF kv_isolation [OF ord] _ others] by blast
  then show ?thesis using held unfolding undisturbed_def by blast
qed

theorem two_phase_isolation_witness:
  "\<exists>s s'. fold_r (kv_step sorted_list_of_set sorted_list_of_set) (kv_server False) [kv_indep 9 [] [(''x'', ''a'')], kv_prepare 1 [''x''] []] = Inr s \<and>
    fold_r (kv_step sorted_list_of_set sorted_list_of_set) s
      [kv_prepare 2 [] [(''x'', ''b'')], kv_prepare 3 [''x''] [(''y'', ''c'')], kv_indep 4 [] [(''z'', ''d'')]] = Inr s' \<and>
    kv_store (kvs_store s') ''x'' = kv_store (kvs_store s) ''x'' \<and> 1 \<in> read_held (lock_of (kvs_lockServer s') ''x'')"
proof -
  let ?step = "kv_step sorted_list_of_set sorted_list_of_set" and ?e1 = "[kv_indep 9 [] [(''x'', ''a'')], kv_prepare 1 [''x''] []]"
    and ?e2 = "[kv_prepare 2 [] [(''x'', ''b'')], kv_prepare 3 [''x''] [(''y'', ''c'')], kv_indep 4 [] [(''z'', ''d'')]]"
  have b: "case fold_r ?step (kv_server False) ?e1 of Inl _ \<Rightarrow> False
     | Inr s \<Rightarrow> 1 \<in> read_held (lock_of (kvs_lockServer s) ''x'') \<and> accepts ?step (other_call 1) s ?e2 \<and>
         (case fold_r ?step s ?e2 of Inl _ \<Rightarrow> False | Inr _ \<Rightarrow> True)" by code_simp
  then obtain s where s: "fold_r ?step (kv_server False) ?e1 = Inr s" "1 \<in> read_held (lock_of (kvs_lockServer s) ''x'')"
    "accepts ?step (other_call 1) s ?e2" "case fold_r ?step s ?e2 of Inl _ \<Rightarrow> False | Inr _ \<Rightarrow> True" by (auto split: sum.splits)
  then obtain s' where s': "fold_r ?step s ?e2 = Inr s'" by (auto split: sum.splits)
  from two_phase_isolation [OF kv_server_new iterates_sorted iterates_sorted s(1) disjI1 [OF s(2)] s(3) s']
  show ?thesis using s(1,2) s' by blast
qed

text \<open>The condition on COMMIT is needed: with retries, a transaction that reads a key does not keep another one, whose prepare to
  write that key was blocked, from overwriting it when it is committed all the same.\<close>

theorem blocked_commit_overwrites:
  "(case fold_r (kv_step sorted_list_of_set sorted_list_of_set) (kv_server True)
      [kv_prepare 1 [''x''] [], kv_prepare 2 [] [(''x'', ''b'')], kv_finish 2 TXN_COMMIT] of
      Inl _ \<Rightarrow> False
    | Inr s \<Rightarrow> kv_store (kvs_store s) ''x'' = Some ''b'' \<and> 1 \<in> read_held (lock_of (kvs_lockServer s) ''x''))"
  by code_simp

section \<open>Independent transactions\<close>

lemma sorted_write_set: "sorted ws \<Longrightarrow> sorted (foldl (\<lambda>ws p. insort_insert p ws) ws (ps :: (string \<times> string) list))"
  by (induction ps arbitrary: ws) (simp_all add: sorted_insort_insert)

lemma write_pairs_sorted:
  assumes "sorted ws"
  shows "kv_store (write_pairs st ws) k = (if k \<in> fst ` set ws then Some (Max {v. (k, v) \<in> set ws}) else kv_store st k)"
  using assms
proof (induction ws rule: rev_induct)
  case (snoc w ws)
  obtain j v where w: "w = (j, v)" by (cases w)
  have put: "kv_store (write_pairs st (ws @ [w])) = (kv_store (write_pairs st ws))(j \<mapsto> v)"
    by (simp add: write_pairs_def w kv_put_def)
  have so: "sorted ws" "\<forall>p\<in>set ws. p \<le> (j, v)" using snoc.prems w by (auto simp: sorted_append)
  show ?case
  proof (cases "k = j")
    case True
    have fin: "finite {x. (j, x) \<in> set (ws @ [w])}"
    proof (rule finite_subset)
      show "{x. (j, x) \<in> set (ws @ [w])} \<subseteq> snd ` set (ws @ [w])" by force
    qed simp
    moreover have "x \<le> v" if "(j, x) \<in> set (ws @ [w])" for x using that so(2) w by auto
    ultimately have "Max {x. (j, x) \<in> set (ws @ [w])} = v" using w by (intro Max_eqI) auto
    then show ?thesis using True put w by simp
  next
    case False
    then show ?thesis using snoc.IH [OF so(1)] put w by auto
  qed
qed (simp add: write_pairs_def)

text \<open>C38. An independent transaction on an idle server runs at once: it is not blocked, its reads all see the store before its writes,
  and afterwards every key it puts holds the largest of the values put under that key, in the order of the strings,
  whatever the order of the puts in the request; nothing stays pending.\<close>

theorem indep_execution:
  assumes ok: "kv_ok s" and idle: "kvs_pendingTxns s = []" and ord: "iterates rord" "iterates hord"
  shows "\<exists>s' r ret. InvokeTransaction rord hord s (Some m) \<lparr>ta_txnid = me, ta_type = TXN_INDEP\<rparr> = Inr (s', Some r, ret) \<and>
    \<not> tr_blocked ret \<and> tr_commit ret \<and> kvr_success r \<and>
    set (kvr_rgets r) = (\<lambda>k. (k, case kv_store (kvs_store s) k of None \<Rightarrow> '''' | Some v \<Rightarrow> v)) ` set (kvm_gets m) \<and>
    (\<forall>k. kv_store (kvs_store s') k =
       (if k \<in> fst ` set (kvm_puts m) then Some (Max {v. (k, v) \<in> set (kvm_puts m)}) else kv_store (kvs_store s) k)) \<and>
    kvs_pendingTxns s' = [] \<and> kvs_mode s' = MODE_NORMAL"
proof -
  let ?arg = "\<lparr>ta_txnid = me, ta_type = TXN_INDEP\<rparr>"
  define tx where "tx = current_txn s (Some m) ?arg"
  have mode: "kvs_mode s = MODE_NORMAL" using ok idle by (simp add: kv_ok_def)
  have T: "kt_readSet tx = set (kvm_gets m)" "set (kt_writeSet tx) = set (kvm_puts m)" "sorted (kt_writeSet tx)"
    "kt_txnarg tx = ?arg" "kt_blockedKeys tx = {}"
    using idle by (auto simp: tx_def current_txn_def add_ops_def set_write_set sorted_write_set)
  have r: "set (rord (kt_readSet tx)) = set (kvm_gets m)" using ord(1) T(1) by (simp add: iterates_def)
  have L: "lock_phase rord s tx = Inr (s, tx, False)" using T(4) idle mode by (simp add: lock_phase_def Let_def)
  have E: "ExecuteTransaction rord hord s tx = Inr (s\<lparr>kvs_store := write_pairs (kvs_store s) (kt_writeSet tx)\<rparr>,
      \<lparr>kvr_success = True, kvr_rgets = map (\<lambda>k. (k, fst (kv_get (kvs_store s) k))) (rord (kt_readSet tx))\<rparr>, True, {})"
    using T(4,5) idle by (simp add: ExecuteTransaction_def read_keys_def kv_get_def list_all_iff Let_def)
  have "InvokeTransaction rord hord s (Some m) ?arg = Inr (s\<lparr>kvs_store := write_pairs (kvs_store s) (kt_writeSet tx), kvs_mode := MODE_NORMAL\<rparr>,
      Some \<lparr>kvr_success = True, kvr_rgets = map (\<lambda>k. (k, fst (kv_get (kvs_store s) k))) (rord (kt_readSet tx))\<rparr>,
      \<lparr>tr_txnid = me, tr_blocked = False, tr_commit = True, tr_unblocked_txns = {}, tr_mode = MODE_NORMAL\<rparr>)"
    using L E idle by (simp add: InvokeTransaction_def tx_def Let_def)
  then show ?thesis using r idle write_pairs_sorted [OF T(3)] T(2) by (simp add: kv_get_def)
qed

theorem indep_execution_witness:
  "\<exists>s' r ret. InvokeTransaction sorted_list_of_set sorted_list_of_set (kv_server False)
      (Some \<lparr>kvm_gets = [''x''], kvm_puts = [(''x'', ''b''), (''x'', ''a'')]\<rparr>) \<lparr>ta_txnid = 1, ta_type = TXN_INDEP\<rparr> = Inr (s', Some r, ret) \<and>
    kv_store (kvs_store s') ''x'' = Some ''b'' \<and> set (kvr_rgets r) = {(''x'', '''')}"
proof -
  let ?m = "\<lparr>kvm_gets = [''x''], kvm_puts = [(''x'', ''b''), (''x'', ''a'')]\<rparr>"
  have i: "kvs_pendingTxns (kv_server False) = []" "kv_store (kvs_store (kv_server False)) ''x'' = None"
    by (simp_all add: kv_server_def KVStore_new_def)
  have "{v. (''x'', v) \<in> set (kvm_puts ?m)} = {''b'', ''a''}" by auto
  moreover have "Max {''b'', ''a''} = ''b''" by code_simp
  ultimately have mx: "Max {v. (''x'', v) \<in> set (kvm_puts ?m)} = ''b''" by simp
  show ?thesis
    using indep_execution [OF kv_ok_new [OF kv_server_new] i(1) iterates_sorted iterates_sorted, of ?m 1] mx i(2)
    by (elim exE conjE) (intro exI conjI, assumption, simp_all)
qed

section \<open>Transactions that give up\<close>

text \<open>A transaction that gives up while it waits blocks the key for everybody else.  With locks that clients retry, a transaction that is
  blocked and then aborted stays in the waiting queue: after the holder has committed nobody holds the key, yet
  every later transaction is refused it, however often it tries.\<close>

theorem aborted_waiter_starves:
  "(case fold_r (kv_step sorted_list_of_set sorted_list_of_set) (kv_server True)
      [kv_prepare 1 [] [(''x'', ''a'')], kv_prepare 2 [''x''] [], kv_finish 2 TXN_ABORT, kv_finish 1 TXN_COMMIT] of
      Inl _ \<Rightarrow> False
    | Inr s \<Rightarrow> kvs_pendingTxns s = [] \<and> lk_holders (lock_of (kvs_lockServer s) ''x'') = {} \<and>
        (case fold_r (kv_step sorted_list_of_set sorted_list_of_set) s [kv_prepare 3 [''x''] [], kv_prepare 3 [''x''] []] of
           Inl _ \<Rightarrow> False
         | Inr s' \<Rightarrow> (case InvokeTransaction sorted_list_of_set sorted_list_of_set s' (fst (kv_prepare 3 [''x''] [])) (snd (kv_prepare 3 [''x''] [])) of
              Inl _ \<Rightarrow> False | Inr (_, _, ret) \<Rightarrow> tr_blocked ret)))"
  by code_simp

text \<open>Aborting a blocked transaction stops the server when the server itself hands locks over: the blocked keys are still
  recorded and the assertion that there are none fails.\<close>

theorem blocked_abort_stops_server:
  "(case fold_r (kv_step sorted_list_of_set sorted_list_of_set) (kv_server False)
      [kv_prepare 1 [] [(''x'', ''a'')], kv_prepare 2 [''x''] []] of
      Inl _ \<Rightarrow> False
    | Inr s \<Rightarrow> (case kv_step sorted_list_of_set sorted_list_of_set s (kv_finish 2 TXN_ABORT) of Inl e \<Rightarrow> e = AssertFailed | Inr _ \<Rightarrow> False))"
  by code_simp

section \<open>Placement of keys\<close>

lemma unat_ucast_up: "unat (ucast (n :: u32) :: u64) = unat n"
proof -
  have "unat n < 2 ^ 32" using unsigned_less [of n] by simp
  then have "unat n < 2 ^ 64" by simp
  then show ?thesis by (simp add: unsigned_ucast_eq take_bit_nat_eq_self_iff)
qed

lemma ucast_u32_u64:
  assumes "(x :: u64) < ucast (n :: u32)"
  shows "(ucast x :: u32) = m \<longleftrightarrow> x = ucast m"
proof -
  have "unat x < unat n" using assms by (simp add: word_less_nat_alt unat_ucast_up)
  moreover have "unat n < 2 ^ 32" using unsigned_less [of n] by simp
  ultimately have "unat x < 2 ^ 32" by linarith
  then have down: "unat (ucast x :: u32) = unat x" by (simp add: unsigned_ucast_eq take_bit_nat_eq_self_iff)
  show ?thesis
  proof
    assume "(ucast x :: u32) = m"
    then have "unat x = unat (ucast m :: u64)" using down unat_ucast_up [of m] by simp
    then show "x = ucast m" by (rule u64_eqI)
  next
    assume "x = ucast m"
    then have "unat (ucast x :: u32) = unat m" using down unat_ucast_up [of m] by simp
    then show "(ucast x :: u32) = m" by (rule unsigned_word_eqI)
  qed
qed

text \<open>Server and clients agree on where a key lives: the constructor loads exactly those keys of the file that
  \<^verbatim>\<open>KVClient::key_to_shard\<close> sends to the server's shard, each with the value \<open>null\<close>, and with no shards at
  all it divides by zero as soon as there is a key.\<close>

theorem keys_loaded_by_shard:
  "(case KVTxnServer_new retry myShard nShards keys of
      Inr s \<Rightarrow> \<forall>k. kv_store (kvs_store s) k = (if k \<in> set keys \<and> key_to_shard k nShards = Inr myShard then Some ''null'' else None)
    | Inl e \<Rightarrow> nShards = 0 \<and> keys \<noteq> [] \<and> e = UndefinedBehaviour)"
proof (cases "nShards = 0")
  case True
  then show ?thesis by (cases keys) (auto simp: KVTxnServer_new_def load_key_def KVStore_new_def)
next
  case False
  then have pos: "(ucast nShards :: u64) \<noteq> 0" by (metis unat_ucast_up unat_eq_zero unsigned_0)
  have "key_hash k mod ucast nShards < ucast nShards" for k using pos by (simp add: word_mod_less_divisor word_gt_0)
  then have "(ucast (key_hash k mod ucast nShards) :: u32) = myShard \<longleftrightarrow> key_hash k mod ucast nShards = ucast myShard" for k
    by (rule ucast_u32_u64)
  then have shard: "key_to_shard k nShards = Inr myShard \<longleftrightarrow> key_hash k mod ucast nShards = ucast myShard" for k
    using False by (simp add: key_to_shard_def)
  have "\<exists>st'. fold_r (load_key myShard nShards) st keys = Inr st' \<and>
      (\<forall>k. kv_store st' k = (if k \<in> set keys \<and> key_to_shard k nShards = Inr myShard then Some ''null'' else kv_store st k))" for st
  proof (induction keys arbitrary: st)
    case (Cons key keys)
    let ?st = "if key_hash key mod ucast nShards = ucast myShard then fst (kv_put st key ''null'') else st"
    have "load_key myShard nShards st key = Inr ?st" using False by (simp add: load_key_def)
    moreover obtain st' where "fold_r (load_key myShard nShards) ?st keys = Inr st'"
      "\<forall>k. kv_store st' k = (if k \<in> set keys \<and> key_to_shard k nShards = Inr myShard then Some ''null'' else kv_store ?st k)"
      using Cons.IH by blast
    ultimately show ?case by (auto simp: shard kv_put_def)
  qed simp
  from this [of KVStore_new] show ?thesis by (auto simp: KVTxnServer_new_def KVStore_new_def)
qed

end
