(* ===== verification/TxnApps.thy ===== *)
theory TxnApps
  imports KVTxnProperties ReplicaCommon
begin

text \<open>
  The application of the transactional protocols, \<^verbatim>\<open>transaction/common/backend/txnserver.cc\<close>: an \<^verbatim>\<open>AppReplica\<close> whose upcall
  runs a transaction.  A protocol server sees it as a function from the application's state, the request
  and the argument to the new state, the reply and what \<^verbatim>\<open>InvokeTransaction\<close> returns.  \<open>kv_app\<close> is
  the key-value server behind this interface, with the encoding of its messages as a parameter.
\<close>

type_synonym 'a txn_app = "'a \<Rightarrow> string \<Rightarrow> txnarg_t \<Rightarrow> ('a \<times> string \<times> txnret_t) result"

text \<open>\<^verbatim>\<open>TxnServer::ReplicaUpcall\<close> hands both pointers through; the servers always pass them.\<close>

definition TxnServer_ReplicaUpcall :: "'a txn_app \<Rightarrow> 'a \<Rightarrow> u64 \<Rightarrow> string \<Rightarrow> txnarg_t \<Rightarrow> ('a \<times> string \<times> txnret_t) result" where
  "TxnServer_ReplicaUpcall app a opnum str1 arg = app a str1 arg"

definition Execute_txn :: "'a txn_app \<Rightarrow> 'a \<Rightarrow> u64 \<Rightarrow> Request \<Rightarrow> txnarg_t \<Rightarrow> ('a \<times> string \<times> txnret_t) result" where
  "Execute_txn app a opnum req arg = TxnServer_ReplicaUpcall app a opnum (req_op req) arg"

record kv_params =
  kvp_parse :: "string \<Rightarrow> KVTxnMessage"
  kvp_print :: "KVTxnReplyMessage \<Rightarrow> string"
  kvp_rord :: "string set \<Rightarrow> string list"
  kvp_hord :: "u64 set \<Rightarrow> u64 list"

definition kv_request :: "kv_params \<Rightarrow> string \<Rightarrow> KVTxnMessage option" where
  "kv_request P txn = (if txn = '''' then None else Some (kvp_parse P txn))"

definition kv_app :: "kv_params \<Rightarrow> KVTxnServer txn_app" where
  "kv_app P s txn arg =
     rbind (InvokeTransaction (kvp_rord P) (kvp_hord P) s (kv_request P txn) arg) (\<lambda>(s', reply, ret).
       Inr (s', case reply of None \<Rightarrow> '''' | Some r \<Rightarrow> kvp_print P r, ret))"

text \<open>
  What a protocol that makes blocked clients retry relies on: transactions the application accepts
  never stop it, it never reports that another transaction was unblocked, and finishing a
  transaction always succeeds.
\<close>

locale retry_app =
  fixes app :: "'a txn_app"
    and app_ok :: "'a \<Rightarrow> bool"
    and accepts_txn :: "string \<Rightarrow> txnarg_t \<Rightarrow> bool"
  assumes app_total: "\<lbrakk> app_ok a; accepts_txn txn arg \<rbrakk> \<Longrightarrow> \<exists>a' res ret. app a txn arg = Inr (a', res, ret) \<and> app_ok a'"
    and app_unblocks: "\<lbrakk> app_ok a; accepts_txn txn arg; app a txn arg = Inr (a', res, ret) \<rbrakk> \<Longrightarrow> tr_unblocked_txns ret = {}"
    and app_finishes: "\<lbrakk> app_ok a; accepts_txn txn arg; ta_type arg = TXN_COMMIT \<or> ta_type arg = TXN_ABORT;
       app a txn arg = Inr (a', res, ret) \<rbrakk> \<Longrightarrow> tr_commit ret \<and> \<not> tr_blocked ret"

section \<open>The key-value server in retry mode\<close>

definition kv_retry_ok :: "kv_params \<Rightarrow> KVTxnServer \<Rightarrow> bool" where
  "kv_retry_ok P s \<longleftrightarrow> kv_ok s \<and> kvs_retryLock s \<and> iterates (kvp_rord P) \<and> iterates (kvp_hord P)"

text \<open>With retries no transaction waits for a lock, so every call is acceptable.\<close>

definition any_txn :: "string \<Rightarrow> txnarg_t \<Rightarrow> bool" where
  "any_txn txn arg = True"

lemma iterates_empty: "iterates f \<Longrightarrow> f {} = []"
  by (metis finite.emptyI iterates_def set_empty)

lemma release_key_retry:
  assumes "kvs_retryLock (fst su) \<and> snd su = {}" and "iterates hord" and "release_key rel hord me su key = Inr su'"
  shows "kvs_retryLock (fst su') \<and> snd su' = {}"
  using assms by (auto simp: release_key_def iterates_empty split: prod.splits)

lemma ReleaseLocks_retry:
  assumes "kvs_retryLock s" and "iterates hord" and "ReleaseLocks rord hord s tx {} = Inr (s', u)"
  shows "u = {}"
proof -
  obtain su where su: "fold_r (release_key releaseForRead hord (ta_txnid (kt_txnarg tx))) (s, {}) (rord (kt_readSet tx)) = Inr su"
    "fold_r (release_key releaseForWrite hord (ta_txnid (kt_txnarg tx))) su (map fst (kt_writeSet tx)) = Inr (s', u)"
    using assms(3) by (auto simp: ReleaseLocks_def)
  let ?retry = "\<lambda>su. kvs_retryLock (fst su) \<and> snd su = {}"
  have "?retry (s, {})" using assms(1) by simp
  then have "?retry su" using su(1) by (rule fold_r_invariant) (rule release_key_retry [OF _ assms(2)])
  then have "?retry (s', u)" using su(2) by (rule fold_r_invariant) (rule release_key_retry [OF _ assms(2)])
  then show ?thesis by simp
qed

lemma ExecuteTransaction_retry:
  assumes "kvs_retryLock s" and "iterates hord" and "ExecuteTransaction rord hord s tx = Inr (s', reply, status, u)"
  shows "u = {}"
proof -
  have clean: "v = {}" if "CleanupTxn rord hord t tx {} = Inr (t', v)" "kvs_retryLock t" for t t' v
    using that by (auto simp: CleanupTxn_def split: option.splits dest: ReleaseLocks_retry [OF that(2) assms(2)])
  show ?thesis
    using assms(1,3) by (auto simp: ExecuteTransaction_def Let_def split: prod.splits if_splits dest!: clean)
qed

lemma kv_app_retry:
  assumes "kv_retry_ok P s"
  shows "\<exists>s' res ret. kv_app P s txn arg = Inr (s', res, ret) \<and> kv_retry_ok P s' \<and> tr_unblocked_txns ret = {} \<and>
     (tr_blocked ret \<longrightarrow> ta_type arg = TXN_PREPARE \<or> ta_type arg = TXN_INDEP) \<and> (\<not> tr_blocked ret \<longrightarrow> tr_commit ret)"
proof -
  let ?inv = "InvokeTransaction (kvp_rord P) (kvp_hord P) s (kv_request P txn) arg"
  have ok: "kv_ok s" "kvs_retryLock s" "iterates (kvp_rord P)" "iterates (kvp_hord P)"
    using assms by (simp_all add: kv_retry_ok_def)
  obtain s' reply ret where I: "?inv = Inr (s', reply, ret)" "kv_ok s'" "kvs_retryLock s' = kvs_retryLock s"
    "tr_blocked ret \<longrightarrow> locking s (ta_type arg)" "\<not> tr_blocked ret \<longrightarrow> tr_commit ret"
    using InvokeTransaction_spec [OF ok(1,3,4) refl refl, of "kv_request P txn" arg] ok(2)
    by (auto split: sum.splits prod.splits if_splits)
  obtain s1 tx b where L: "lock_phase (kvp_rord P) s (current_txn s (kv_request P txn) arg) = Inr (s1, tx, b)"
    and R: "(if b then tr_unblocked_txns ret = {} else \<exists>s2 r st. ExecuteTransaction (kvp_rord P) (kvp_hord P) s1 tx = Inr (s2, r, st, tr_unblocked_txns ret))"
    using I(1) by (auto simp: InvokeTransaction_def Let_def split: if_splits)
  have "kvs_retryLock s1"
    using L ok(2) by (auto simp: lock_phase_def Let_def put_txn_def split: if_splits)
  then have "tr_unblocked_txns ret = {}" using R ExecuteTransaction_retry [OF _ ok(4)] by (metis (full_types))
  then show ?thesis using I ok by (auto simp: kv_app_def kv_retry_ok_def locking_def)
qed

interpretation kv_retry: retry_app "kv_app P" "kv_retry_ok P" any_txn for P
proof
  fix a :: KVTxnServer and txn arg assume ok: "kv_retry_ok P a"
  note R = kv_app_retry [OF ok, of txn arg]
  show "\<exists>a' res ret. kv_app P a txn arg = Inr (a', res, ret) \<and> kv_retry_ok P a'" using R by blast
  show "tr_unblocked_txns ret = {}" if "kv_app P a txn arg = Inr (a', res, ret)" for a' res ret using R that by simp
  show "tr_commit ret \<and> \<not> tr_blocked ret"
    if "ta_type arg = TXN_COMMIT \<or> ta_type arg = TXN_ABORT" "kv_app P a txn arg = Inr (a', res, ret)" for a' res ret
    using R that by auto
qed

lemma kv_retry_new:
  assumes "KVTxnServer_new True myShard nShards keys = Inr kv" and "iterates (kvp_rord P)" and "iterates (kvp_hord P)"
  shows "kv_retry_ok P kv"
  using kv_ok_new [OF assms(1)] assms by (auto simp: kv_retry_ok_def KVTxnServer_new_def)

text \<open>A key-value server for the witnesses: a request reads and writes the key it names.\<close>

definition sample_kv :: kv_params where
  "sample_kv = \<lparr>kvp_parse = (\<lambda>s. \<lparr>kvm_gets = [s], kvm_puts = [(s, ''v'')]\<rparr>), kvp_print = (\<lambda>_. ''done''),
     kvp_rord = sorted_list_of_set, kvp_hord = sorted_list_of_set\<rparr>"

lemma sample_orders: "iterates (kvp_rord sample_kv)" "iterates (kvp_hord sample_kv)"
  by (simp_all add: sample_kv_def iterates_sorted)

end
