(* ===== verification/SpannerServer.thy ===== *)
theory SpannerServer
  imports TxnApps
begin

text \<open>
  The server of the Spanner-style transaction protocol, \<^verbatim>\<open>transaction/spanner/server.h\<close>,
  \<^verbatim>\<open>transaction/spanner/server.cc\<close> and the messages of \<^verbatim>\<open>spanner-proto.proto\<close>: a leader appends the
  phases of two-phase commit to a replicated log and executes an entry once a majority has
  acknowledged it.  A handler takes the server's state and returns the next one; the messages it
  sends are appended to \<open>sp_outbox\<close> in order.  The log's entries are \<^verbatim>\<open>SpannerLogEntry\<close> objects: the
  \<^verbatim>\<open>LogEntry\<close> part is in \<open>sp_log\<close> and the \<^verbatim>\<open>txnData\<close> the subclass adds is in \<open>sp_txnData\<close>, by operation
  number.  The application is a parameter (\<open>se_app\<close>), as is the hash the log never uses.
\<close>

section \<open>Messages\<close>

datatype ReplyType = OK | FAIL | RETRY | ACK

datatype RequestType = UNKNOWN | PREPARE | COMMIT | ABORT

record ReplyMessage =
  rm_clientreqid :: u64
  rm_shard_num :: u32
  rm_type :: ReplyType
  rm_reply :: string

definition ReplyMessage_empty :: ReplyMessage where
  "ReplyMessage_empty = \<lparr>rm_clientreqid = 0, rm_shard_num = 0, rm_type = OK, rm_reply = ''''\<rparr>"

record RequestMessage =
  rq_txnid :: u64
  rq_type :: RequestType
  rq_request :: Request

record PrepareMessage =
  pm_view :: u64
  pm_opnum :: u64
  pm_txnid :: u64
  pm_type :: RequestType
  pm_request :: Request

record PrepareOKMessage =
  pk_view :: u64
  pk_opnum :: u64
  pk_replica_num :: int

record CommitMessage =
  cm_view :: u64
  cm_opnum :: u64

datatype ToServerMessage =
    SpRequest RequestMessage
  | SpPrepare PrepareMessage
  | SpPrepareOK PrepareOKMessage
  | SpCommit CommitMessage
  | SpNotSet

datatype destination = ReplicaDest int | AllReplicas | AddressDest TransportAddress

datatype outgoing = OutServer ToServerMessage | OutClient ReplyMessage

section \<open>State\<close>

record TxnData =
  td_txnid :: u64
  td_type :: RequestType
  td_decided :: bool

definition TxnData_default :: TxnData where
  "TxnData_default = \<lparr>td_txnid = 0, td_type = UNKNOWN, td_decided = False\<rparr>"

definition TxnData_new :: "u64 \<Rightarrow> RequestType \<Rightarrow> TxnData" where
  "TxnData_new txnid type = \<lparr>td_txnid = txnid, td_type = type, td_decided = False\<rparr>"

record ClientTableEntry =
  ct_lastReqId :: u64
  ct_replied :: bool
  ct_reply :: ReplyMessage

definition ClientTableEntry_default :: ClientTableEntry where
  "ClientTableEntry_default = \<lparr>ct_lastReqId = 0, ct_replied = False, ct_reply = ReplyMessage_empty\<rparr>"

record 'a SpannerServer =
  sp_configuration :: Configuration
  sp_groupIdx :: int
  sp_replicaIdx :: int
  sp_log :: Log
  sp_txnData :: "u64 \<Rightarrow> TxnData"
  sp_view :: u64
  sp_lastOp :: u64
  sp_lastCommitted :: u64
  sp_clientAddresses :: "u64 \<Rightarrow> TransportAddress option"
  sp_clientTable :: "u64 \<Rightarrow> ClientTableEntry option"
  sp_prepareOKQuorum :: "(viewstamp_t, PrepareOKMessage) QuorumSet"
  sp_resendPrepareTimeout :: bool
  sp_app_state :: 'a
  sp_outbox :: "(destination \<times> outgoing) list"

record 'a spanner_env =
  se_app :: "'a txn_app"
  se_sha1 :: "string \<Rightarrow> string"

definition SpannerServer_new :: "Configuration \<Rightarrow> int \<Rightarrow> int \<Rightarrow> 'a \<Rightarrow> 'a SpannerServer result" where
  "SpannerServer_new config myShard myIdx a =
     rbind (Log_new False 1 EMPTY_HASH) (\<lambda>l.
       Inr \<lparr>sp_configuration = config, sp_groupIdx = myShard, sp_replicaIdx = myIdx, sp_log = l,
            sp_txnData = (\<lambda>_. TxnData_default), sp_view = 0, sp_lastOp = 0, sp_lastCommitted = 0,
            sp_clientAddresses = Map.empty, sp_clientTable = Map.empty,
            sp_prepareOKQuorum = QuorumSet_new (QuorumSize config - 1),
            sp_resendPrepareTimeout = False, sp_app_state = a, sp_outbox = []\<rparr>)"

section \<open>Helpers\<close>

definition send :: "'a SpannerServer \<Rightarrow> destination \<Rightarrow> outgoing \<Rightarrow> 'a SpannerServer" where
  "send s d m = s\<lparr>sp_outbox := sp_outbox s @ [(d, m)]\<rparr>"

definition AmLeader :: "'a SpannerServer \<Rightarrow> bool" where
  "AmLeader s \<longleftrightarrow> GetLeaderIndex (sp_configuration s) (sp_view s) = sp_replicaIdx s"

definition leader_of :: "'a SpannerServer \<Rightarrow> int" where
  "leader_of s = GetLeaderIndex (sp_configuration s) (sp_view s)"

text \<open>\<^verbatim>\<open>log.Append(new SpannerLogEntry(...))\<close>.\<close>

definition append_entry ::
  "'a spanner_env \<Rightarrow> 'a SpannerServer \<Rightarrow> viewstamp_t \<Rightarrow> LogEntryState \<Rightarrow> Request \<Rightarrow> TxnData \<Rightarrow> 'a SpannerServer result" where
  "append_entry env s vs st req td =
     rbind (Append (se_sha1 env) (sp_log s) (LogEntry_new vs st req)) (\<lambda>l.
       Inr (s\<lparr>sp_log := l, sp_txnData := (sp_txnData s)(vs_opnum vs := td)\<rparr>))"

text \<open>\<^verbatim>\<open>clientTable[id]\<close> creates a zeroed entry when there is none.\<close>

definition client_entry :: "'a SpannerServer \<Rightarrow> u64 \<Rightarrow> ClientTableEntry" where
  "client_entry s c = (case sp_clientTable s c of None \<Rightarrow> ClientTableEntry_default | Some e \<Rightarrow> e)"

definition put_client :: "'a SpannerServer \<Rightarrow> u64 \<Rightarrow> ClientTableEntry \<Rightarrow> 'a SpannerServer" where
  "put_client s c e = s\<lparr>sp_clientTable := (sp_clientTable s)(c \<mapsto> e)\<rparr>"

definition UpdateClientTable :: "'a SpannerServer \<Rightarrow> Request \<Rightarrow> 'a SpannerServer result" where
  "UpdateClientTable s req =
     (let e = client_entry s (req_clientid req)
      in check (ct_lastReqId e \<le> req_clientreqid req) AssertFailed
           (if ct_lastReqId e = req_clientreqid req then Inr (put_client s (req_clientid req) e)
            else Inr (put_client s (req_clientid req)
                        \<lparr>ct_lastReqId = req_clientreqid req, ct_replied = False, ct_reply = ReplyMessage_empty\<rparr>)))"

definition prepare_message :: "LogEntry \<Rightarrow> TxnData \<Rightarrow> PrepareMessage" where
  "prepare_message e td =
     \<lparr>pm_view = vs_view (le_viewstamp e), pm_opnum = vs_opnum (le_viewstamp e), pm_txnid = td_txnid td,
      pm_type = td_type td, pm_request = le_request e\<rparr>"

definition SendPrepare :: "'a SpannerServer \<Rightarrow> 'a SpannerServer result" where
  "SendPrepare s =
     rbind (Find (sp_log s) (sp_lastOp s)) (\<lambda>r. case r of
       None \<Rightarrow> Inl AssertFailed
     | Some e \<Rightarrow> Inr ((send s AllReplicas (OutServer (SpPrepare (prepare_message e (sp_txnData s (sp_lastOp s))))))
                       \<lparr>sp_resendPrepareTimeout := True\<rparr>))"

section \<open>Execution\<close>

definition txn_type :: "RequestType \<Rightarrow> txntype_t" where
  "txn_type t = (if t = PREPARE then TXN_PREPARE else if t = COMMIT then TXN_COMMIT else TXN_ABORT)"

definition reply_type :: "RequestType \<Rightarrow> txnret_t \<Rightarrow> ReplyType result" where
  "reply_type t ret =
     (if t = COMMIT \<or> t = ABORT
      then check (tr_commit ret) AssertFailed (check (\<not> tr_blocked ret) AssertFailed (Inr ACK))
      else Inr (if tr_blocked ret then RETRY else if tr_commit ret then OK else FAIL))"

text \<open>The end of \<^verbatim>\<open>ExecuteTxn\<close>: the client table is overwritten, and only the leader of the entry's view
  replies.\<close>

definition record_reply :: "'a SpannerServer \<Rightarrow> LogEntry \<Rightarrow> ReplyMessage \<Rightarrow> 'a SpannerServer" where
  "record_reply s e reply =
     (let s1 = put_client s (req_clientid (le_request e))
                 \<lparr>ct_lastReqId = req_clientreqid (le_request e), ct_replied = True, ct_reply = reply\<rparr>
      in if GetLeaderIndex (sp_configuration s1) (vs_view (le_viewstamp e)) = sp_replicaIdx s1
         then (case sp_clientAddresses s1 (req_clientid (le_request e)) of
                 None \<Rightarrow> s1
               | Some addr \<Rightarrow> send s1 (AddressDest addr) (OutClient reply))
         else s1)"

definition txn_arg :: "TxnData \<Rightarrow> txnarg_t" where
  "txn_arg td = \<lparr>ta_txnid = td_txnid td, ta_type = txn_type (td_type td)\<rparr>"

definition txn_reply :: "'a SpannerServer \<Rightarrow> Request \<Rightarrow> ReplyType \<Rightarrow> string \<Rightarrow> ReplyMessage" where
  "txn_reply s req rt res =
     \<lparr>rm_clientreqid = req_clientreqid req, rm_shard_num = word_of_int (sp_groupIdx s), rm_type = rt, rm_reply = res\<rparr>"

definition ExecuteTxn :: "'a spanner_env \<Rightarrow> 'a SpannerServer \<Rightarrow> LogEntry \<Rightarrow> TxnData \<Rightarrow> 'a SpannerServer result" where
  "ExecuteTxn env s e td =
     check (le_state e = LOG_STATE_COMMITTED) AssertFailed
       (check (td_type td \<noteq> UNKNOWN) AssertFailed
         (rbind (Execute_txn (se_app env) (sp_app_state s) (vs_opnum (le_viewstamp e)) (le_request e) (txn_arg td)) (\<lambda>(a, res, ret).
          check (tr_unblocked_txns ret = {}) AssertFailed
            (rbind (reply_type (td_type td) ret) (\<lambda>rt.
               Inr (record_reply (s\<lparr>sp_app_state := a\<rparr>) e (txn_reply s (le_request e) rt res)))))))"

lemma sp_record_reply_frame [simp]:
  "sp_configuration (record_reply s e m) = sp_configuration s" "sp_groupIdx (record_reply s e m) = sp_groupIdx s"
  "sp_replicaIdx (record_reply s e m) = sp_replicaIdx s" "sp_log (record_reply s e m) = sp_log s"
  "sp_txnData (record_reply s e m) = sp_txnData s" "sp_view (record_reply s e m) = sp_view s"
  "sp_lastOp (record_reply s e m) = sp_lastOp s" "sp_lastCommitted (record_reply s e m) = sp_lastCommitted s"
  "sp_clientAddresses (record_reply s e m) = sp_clientAddresses s"
  "sp_prepareOKQuorum (record_reply s e m) = sp_prepareOKQuorum s"
  "sp_resendPrepareTimeout (record_reply s e m) = sp_resendPrepareTimeout s"
  "sp_app_state (record_reply s e m) = sp_app_state s"
  by (simp_all add: record_reply_def Let_def put_client_def send_def split: option.splits)

text \<open>The body of the loop of \<^verbatim>\<open>CommitUpTo\<close>: \<^verbatim>\<open>SetStatus\<close> changes the entry the pointer refers to.\<close>

definition commit_next :: "'a spanner_env \<Rightarrow> 'a SpannerServer \<Rightarrow> 'a SpannerServer result" where
  "commit_next env s =
     (let op = sp_lastCommitted s + 1; s1 = s\<lparr>sp_lastCommitted := op\<rparr> in
      rbind (Find (sp_log s1) op) (\<lambda>r. case r of
        None \<Rightarrow> Inl AssertFailed
      | Some e \<Rightarrow>
          if le_state e \<noteq> LOG_STATE_EXECUTED
          then rbind (SetStatus (sp_log s1) op LOG_STATE_COMMITTED) (\<lambda>(l, _).
                 ExecuteTxn env (s1\<lparr>sp_log := l\<rparr>) (e\<lparr>le_state := LOG_STATE_COMMITTED\<rparr>) (sp_txnData s1 op))
          else Inr s1))"

lemma ExecuteTxn_Inr:
  assumes "ExecuteTxn env s e td = Inr s'"
  obtains a res ret rt where "le_state e = LOG_STATE_COMMITTED" "td_type td \<noteq> UNKNOWN"
    "se_app env (sp_app_state s) (req_op (le_request e)) (txn_arg td) = Inr (a, res, ret)"
    "tr_unblocked_txns ret = {}" "reply_type (td_type td) ret = Inr rt"
    "s' = record_reply (s\<lparr>sp_app_state := a\<rparr>) e (txn_reply s (le_request e) rt res)"
  using assms by (auto simp: ExecuteTxn_def Execute_txn_def TxnServer_ReplicaUpcall_def)

lemma sp_commit_next_Inr:
  assumes "commit_next env s = Inr s'"
  obtains (filler) e where "Find (sp_log s) (sp_lastCommitted s + 1) = Inr (Some e)" "le_state e = LOG_STATE_EXECUTED"
      "s' = s\<lparr>sp_lastCommitted := sp_lastCommitted s + 1\<rparr>"
  | (txn) e l b where "Find (sp_log s) (sp_lastCommitted s + 1) = Inr (Some e)" "le_state e \<noteq> LOG_STATE_EXECUTED"
      "SetStatus (sp_log s) (sp_lastCommitted s + 1) LOG_STATE_COMMITTED = Inr (l, b)"
      "ExecuteTxn env (s\<lparr>sp_lastCommitted := sp_lastCommitted s + 1, sp_log := l\<rparr>) (e\<lparr>le_state := LOG_STATE_COMMITTED\<rparr>)
         (sp_txnData s (sp_lastCommitted s + 1)) = Inr s'"
proof -
  obtain r where r: "Find (sp_log s) (sp_lastCommitted s + 1) = Inr r"
    using assms by (auto simp: commit_next_def Let_def)
  then obtain e where e: "r = Some e" using assms by (cases r) (simp_all add: commit_next_def Let_def)
  show ?thesis
  proof (cases "le_state e = LOG_STATE_EXECUTED")
    case True
    then show ?thesis using assms r e by (intro filler [of e]) (simp_all add: commit_next_def Let_def)
  next
    case False
    then obtain l b where "SetStatus (sp_log s) (sp_lastCommitted s + 1) LOG_STATE_COMMITTED = Inr (l, b)"
      using assms r e by (auto simp: commit_next_def Let_def)
    then show ?thesis using False assms r e by (intro txn [of e l b]) (simp_all add: commit_next_def Let_def)
  qed
qed

lemma sp_commit_next_lastCommitted:
  assumes "commit_next env s = Inr s'"
  shows "sp_lastCommitted s' = sp_lastCommitted s + 1"
  using assms by (cases rule: sp_commit_next_Inr) (auto elim!: ExecuteTxn_Inr)

function commit_loop :: "'a spanner_env \<Rightarrow> 'a SpannerServer \<Rightarrow> u64 \<Rightarrow> 'a SpannerServer result" where
  "commit_loop env s opnum =
     (if sp_lastCommitted s < opnum then rbind (commit_next env s) (\<lambda>s'. commit_loop env s' opnum) else Inr s)"
  by pat_completeness auto
termination
proof (relation "measure (\<lambda>(env, s, opnum). unat opnum - unat (sp_lastCommitted s))")
  fix env :: "'a spanner_env" and s opnum s'
  assume lt: "sp_lastCommitted s < opnum" and step: "commit_next env s = Inr s'"
  have "unat (sp_lastCommitted s') = Suc (unat (sp_lastCommitted s))"
    using unat_Suc_less [OF lt] sp_commit_next_lastCommitted [OF step] by simp
  then show "((env, s', opnum), (env, s, opnum)) \<in> measure (\<lambda>(env, s, opnum). unat opnum - unat (sp_lastCommitted s))"
    using lt by (simp add: word_less_nat_alt)
qed simp

declare commit_loop.simps [simp del]

definition CommitUpTo :: "'a spanner_env \<Rightarrow> 'a SpannerServer \<Rightarrow> u64 \<Rightarrow> 'a SpannerServer result" where
  "CommitUpTo env s opnum =
     (let s1 = (if sp_lastCommitted s < opnum \<and> AmLeader s
                then send s AllReplicas (OutServer (SpCommit \<lparr>cm_view = sp_view s, cm_opnum = opnum\<rparr>)) else s);
          s2 = (if sp_lastCommitted s1 < opnum then s1\<lparr>sp_resendPrepareTimeout := False\<rparr> else s1)
      in commit_loop env s2 opnum)"

section \<open>Handlers\<close>

text \<open>The client's address is saved the first time, before the leader check.\<close>

definition save_address :: "'a SpannerServer \<Rightarrow> TransportAddress \<Rightarrow> u64 \<Rightarrow> 'a SpannerServer" where
  "save_address s remote c =
     (if sp_clientAddresses s c = None then s\<lparr>sp_clientAddresses := (sp_clientAddresses s)(c \<mapsto> remote)\<rparr> else s)"

definition append_request :: "'a spanner_env \<Rightarrow> 'a SpannerServer \<Rightarrow> RequestMessage \<Rightarrow> 'a SpannerServer result" where
  "append_request env s msg =
     rbind (UpdateClientTable s (rq_request msg)) (\<lambda>s1.
       let s2 = s1\<lparr>sp_lastOp := sp_lastOp s1 + 1\<rparr>; v = viewstamp2 (sp_view s2) (sp_lastOp s2)
       in check (rq_type msg \<noteq> UNKNOWN) AssertFailed
            (rbind (append_entry env s2 v LOG_STATE_PREPARED (rq_request msg) (TxnData_new (rq_txnid msg) (rq_type msg)))
               SendPrepare))"

definition HandleClientRequest ::
  "'a spanner_env \<Rightarrow> 'a SpannerServer \<Rightarrow> TransportAddress \<Rightarrow> RequestMessage \<Rightarrow> 'a SpannerServer result" where
  "HandleClientRequest env s remote msg =
     (let s1 = save_address s remote (req_clientid (rq_request msg)) in
      if \<not> AmLeader s1 then Inr s1
      else case sp_clientTable s1 (req_clientid (rq_request msg)) of
             Some entry \<Rightarrow>
               if req_clientreqid (rq_request msg) < ct_lastReqId entry then Inr s1
               else if req_clientreqid (rq_request msg) = ct_lastReqId entry
               then if ct_replied entry then Inr (send s1 (AddressDest remote) (OutClient (ct_reply entry))) else Inr s1
               else append_request env s1 msg
           | None \<Rightarrow> append_request env s1 msg)"

definition prepare_ok :: "'a SpannerServer \<Rightarrow> PrepareMessage \<Rightarrow> 'a SpannerServer" where
  "prepare_ok s msg = send s (ReplicaDest (leader_of s)) (OutServer (SpPrepareOK
     \<lparr>pk_view = pm_view msg, pk_opnum = pm_opnum msg, pk_replica_num = sp_replicaIdx s\<rparr>))"

text \<open>The loop that fills the operations a backup has missed with empty entries in the executed
  state; it runs while \<^verbatim>\<open>lastOp + 1 < opnum\<close>.\<close>

definition fill_entry :: "'a spanner_env \<Rightarrow> u64 \<Rightarrow> 'a SpannerServer \<Rightarrow> u64 \<Rightarrow> 'a SpannerServer result" where
  "fill_entry env v s op =
     append_entry env (s\<lparr>sp_lastOp := op\<rparr>) (viewstamp2 v op) LOG_STATE_EXECUTED empty_Request TxnData_default"

definition fill_gap :: "'a spanner_env \<Rightarrow> 'a SpannerServer \<Rightarrow> PrepareMessage \<Rightarrow> 'a SpannerServer result" where
  "fill_gap env s msg = fold_r (fill_entry env (pm_view msg)) s (op_range (sp_lastOp s + 1) (pm_opnum msg))"

definition HandlePrepare :: "'a spanner_env \<Rightarrow> 'a SpannerServer \<Rightarrow> PrepareMessage \<Rightarrow> 'a SpannerServer result" where
  "HandlePrepare env s msg =
     check (\<not> AmLeader s) AssertFailed
       (if pm_opnum msg \<le> sp_lastOp s then Inr (prepare_ok s msg)
        else rbind (fill_gap env s msg) (\<lambda>s1.
               let s2 = s1\<lparr>sp_lastOp := sp_lastOp s1 + 1\<rparr>
               in check (pm_type msg \<noteq> UNKNOWN) AssertFailed
                    (rbind (append_entry env s2 (viewstamp2 (pm_view msg) (sp_lastOp s2)) LOG_STATE_PREPARED
                              (pm_request msg) (TxnData_new (pm_txnid msg) (pm_type msg))) (\<lambda>s3.
                     rbind (UpdateClientTable s3 (pm_request msg)) (\<lambda>s4. Inr (prepare_ok s4 msg))))))"

definition HandlePrepareOK :: "'a spanner_env \<Rightarrow> 'a SpannerServer \<Rightarrow> PrepareOKMessage \<Rightarrow> 'a SpannerServer result" where
  "HandlePrepareOK env s msg =
     check (AmLeader s) AssertFailed
       (let (q, msgs) = AddAndCheckForQuorum (sp_prepareOKQuorum s) (viewstamp2 (pk_view msg) (pk_opnum msg))
                          (pk_replica_num msg) msg;
            s1 = s\<lparr>sp_prepareOKQuorum := q\<rparr>
        in if msgs \<noteq> None then CommitUpTo env s1 (pk_opnum msg) else Inr s1)"

definition HandleCommit :: "'a spanner_env \<Rightarrow> 'a SpannerServer \<Rightarrow> CommitMessage \<Rightarrow> 'a SpannerServer result" where
  "HandleCommit env s msg =
     check (\<not> AmLeader s) AssertFailed
       (if sp_lastOp s < cm_opnum msg then Inr s
        else if cm_opnum msg \<le> sp_lastCommitted s then Inr s
        else CommitUpTo env s (cm_opnum msg))"

fun ReceiveMessage ::
  "'a spanner_env \<Rightarrow> 'a SpannerServer \<Rightarrow> TransportAddress \<Rightarrow> ToServerMessage \<Rightarrow> 'a SpannerServer result" where
  "ReceiveMessage env s remote (SpRequest m) = HandleClientRequest env s remote m"
| "ReceiveMessage env s remote (SpPrepare m) = HandlePrepare env s m"
| "ReceiveMessage env s remote (SpPrepareOK m) = HandlePrepareOK env s m"
| "ReceiveMessage env s remote (SpCommit m) = HandleCommit env s m"
| "ReceiveMessage env s remote SpNotSet = Inl Panicked"

text \<open>A timeout fires only while it is active.\<close>

definition PrepareTimeout :: "'a SpannerServer \<Rightarrow> 'a SpannerServer result" where
  "PrepareTimeout s = (if sp_resendPrepareTimeout s then SendPrepare s else Inr s)"

datatype spanner_event = Deliver TransportAddress ToServerMessage | ResendTimeout

fun spanner_handle :: "'a spanner_env \<Rightarrow> 'a SpannerServer \<Rightarrow> spanner_event \<Rightarrow> 'a SpannerServer result" where
  "spanner_handle env s (Deliver remote m) = ReceiveMessage env s remote m"
| "spanner_handle env s ResendTimeout = PrepareTimeout s"

end
