(* ===== verification/SpannerInvariant.thy ===== *)
theory SpannerInvariant
  imports SpannerServer
begin

text \<open>
  The invariant of one Spanner server and what its operations do under it: the loop of \<^verbatim>\<open>CommitUpTo\<close>
  runs the transactions between the old and the new commit point in log order and nothing else
  (\<open>run_txns\<close> is the reference), and with an application that makes blocked clients retry
  (\<open>retry_app\<close>) no handler aborts on the events a group exchanges.
\<close>

section \<open>The invariant\<close>

definition sp_log_inv :: "'a SpannerServer \<Rightarrow> bool" where
  "sp_log_inv s \<longleftrightarrow>
     log_wf (sp_log s) \<and> start (sp_log s) = 1 \<and> \<not> useHash (sp_log s) \<and> LastOpnum (sp_log s) \<noteq> - 1 \<and>
     sp_lastOp s = LastOpnum (sp_log s) \<and> sp_lastCommitted s \<le> LastOpnum (sp_log s)"

lemma sp_log_invD:
  assumes "sp_log_inv s"
  shows "log_wf (sp_log s)" "start (sp_log s) = 1" "\<not> useHash (sp_log s)" "sp_lastOp s = LastOpnum (sp_log s)"
    "sp_lastOp s \<noteq> - 1" "sp_lastCommitted s \<le> sp_lastOp s"
  using assms unfolding sp_log_inv_def by simp_all

text \<open>An entry is a filler or a transaction's phase, which is committed exactly up to the commit
  point.\<close>

definition entry_ok :: "u64 \<Rightarrow> u64 \<Rightarrow> LogEntry \<Rightarrow> TxnData \<Rightarrow> bool" where
  "entry_ok c op e td \<longleftrightarrow>
     (if le_state e = LOG_STATE_EXECUTED then le_request e = empty_Request
      else td_type td \<noteq> UNKNOWN \<and> le_state e = (if op \<le> c then LOG_STATE_COMMITTED else LOG_STATE_PREPARED))"

definition sp_inv :: "'a SpannerServer \<Rightarrow> bool" where
  "sp_inv s \<longleftrightarrow> sp_log_inv s \<and>
     (\<forall>op e. log_at (sp_log s) op = Some e \<longrightarrow> entry_ok (sp_lastCommitted s) op e (sp_txnData s op)) \<and>
     quorum_set_ok (sp_prepareOKQuorum s) \<and> numRequired (sp_prepareOKQuorum s) = QuorumSize (sp_configuration s) - 1 \<and>
     (sp_resendPrepareTimeout s \<longrightarrow> AmLeader s \<and> sp_lastOp s \<noteq> 0)"

definition identity :: "'a SpannerServer \<Rightarrow> Configuration \<times> int \<times> int \<times> u64" where
  "identity s = (sp_configuration s, sp_groupIdx s, sp_replicaIdx s, sp_view s)"

text \<open>What committing may change.\<close>

definition commit_frame :: "'a SpannerServer \<Rightarrow> 'a SpannerServer \<Rightarrow> bool" where
  "commit_frame s s' \<longleftrightarrow>
     s' = s\<lparr>sp_lastCommitted := sp_lastCommitted s', sp_app_state := sp_app_state s', sp_log := sp_log s',
            sp_clientTable := sp_clientTable s', sp_outbox := sp_outbox s'\<rparr>"

lemma sp_commit_frame_refl [simp]: "commit_frame s s"
  by (simp add: commit_frame_def)

lemma sp_commit_frame_trans: "\<lbrakk> commit_frame s t; commit_frame t u \<rbrakk> \<Longrightarrow> commit_frame s u"
  unfolding commit_frame_def by (cases s; cases t; cases u) simp

lemma sp_commit_frameD:
  assumes "commit_frame s s'"
  shows "identity s' = identity s" "sp_txnData s' = sp_txnData s" "sp_lastOp s' = sp_lastOp s"
    "sp_clientAddresses s' = sp_clientAddresses s" "sp_prepareOKQuorum s' = sp_prepareOKQuorum s"
    "sp_resendPrepareTimeout s' = sp_resendPrepareTimeout s"
  using assms by (cases s; cases s'; simp add: commit_frame_def identity_def)+

lemma identityD:
  assumes "identity s' = identity s"
  shows "sp_configuration s' = sp_configuration s" "sp_groupIdx s' = sp_groupIdx s" "sp_replicaIdx s' = sp_replicaIdx s"
    "sp_view s' = sp_view s" "AmLeader s' = AmLeader s" "leader_of s' = leader_of s"
  using assms by (simp_all add: identity_def AmLeader_def leader_of_def)

text \<open>Only replies to clients were sent.\<close>

definition only_replies :: "'a SpannerServer \<Rightarrow> 'a SpannerServer \<Rightarrow> bool" where
  "only_replies s s' \<longleftrightarrow> (\<exists>out. sp_outbox s' = sp_outbox s @ out \<and> (\<forall>p\<in>set out. \<exists>a m. p = (AddressDest a, OutClient m)))"

lemma only_replies_refl [simp]: "only_replies s s"
  by (simp add: only_replies_def)

lemma only_replies_trans:
  assumes "only_replies s t" and "only_replies t u"
  shows "only_replies s u"
  using assms unfolding only_replies_def by (elim exE conjE) (intro exI conjI, simp, auto)

lemma only_replies_messages:
  "only_replies s s' \<Longrightarrow> (d, OutServer m) \<in> set (sp_outbox s') \<longleftrightarrow> (d, OutServer m) \<in> set (sp_outbox s)"
  by (auto simp: only_replies_def)

section \<open>Committing\<close>

text \<open>The reference: run the transactions of the operations \<open>ops\<close>, one after the other, and skip the
  fillers.\<close>

definition run_txn :: "'a txn_app \<Rightarrow> Log \<Rightarrow> (u64 \<Rightarrow> TxnData) \<Rightarrow> 'a \<Rightarrow> u64 \<Rightarrow> 'a result" where
  "run_txn app l td a op =
     (case log_at l op of
        None \<Rightarrow> Inr a
      | Some e \<Rightarrow> if le_state e = LOG_STATE_EXECUTED then Inr a
                  else rbind (app a (req_op (le_request e)) (txn_arg (td op))) (\<lambda>(a', _, _). Inr a'))"

definition run_txns :: "'a txn_app \<Rightarrow> Log \<Rightarrow> (u64 \<Rightarrow> TxnData) \<Rightarrow> 'a \<Rightarrow> u64 list \<Rightarrow> 'a result" where
  "run_txns app l td a ops = fold_r (run_txn app l td) a ops"

definition settle :: "LogEntry \<Rightarrow> LogEntry" where
  "settle e = (if le_state e = LOG_STATE_EXECUTED then e else e\<lparr>le_state := LOG_STATE_COMMITTED\<rparr>)"

lemma settle_simps [simp]:
  "le_request (settle e) = le_request e" "le_viewstamp (settle e) = le_viewstamp e"
  "le_state (settle e) = LOG_STATE_EXECUTED \<longleftrightarrow> le_state e = LOG_STATE_EXECUTED"
  by (simp_all add: settle_def)

lemma fold_r_cong: "(\<And>x a. x \<in> set xs \<Longrightarrow> f a x = g a x) \<Longrightarrow> fold_r f a xs = fold_r g a xs"
proof (induction xs arbitrary: a)
  case (Cons x xs)
  then show ?case by (cases "g a x") simp_all
qed simp

lemma run_txns_cong:
  assumes "\<And>op. op \<in> set ops \<Longrightarrow> td op = td' op \<and>
     map_option (\<lambda>e. (le_request e, le_state e = LOG_STATE_EXECUTED)) (log_at l op) =
     map_option (\<lambda>e. (le_request e, le_state e = LOG_STATE_EXECUTED)) (log_at l' op)"
  shows "run_txns app l td a ops = run_txns app l' td' a ops"
  unfolding run_txns_def
proof (rule fold_r_cong)
  fix op a
  assume "op \<in> set ops"
  from assms [OF this] show "run_txn app l td a op = run_txn app l' td' a op"
    by (auto simp: run_txn_def split: option.splits)
qed

lemma only_replies_record: "sp_outbox t = sp_outbox s \<Longrightarrow> only_replies t (record_reply s e m)"
  by (auto simp: only_replies_def record_reply_def Let_def put_client_def send_def split: option.splits)

lemma commit_frame_record:
  "commit_frame s (record_reply (s\<lparr>sp_lastCommitted := c, sp_log := l, sp_app_state := a\<rparr>) e m)"
  by (simp add: commit_frame_def record_reply_def Let_def put_client_def send_def split: option.splits)

lemma commit_next_spec:
  assumes wf: "log_wf (sp_log s)" and step: "commit_next env s = Inr s'"
  shows "\<exists>e. log_at (sp_log s) (sp_lastCommitted s + 1) = Some e \<and> commit_frame s s' \<and> only_replies s s' \<and>
     sp_lastCommitted s' = sp_lastCommitted s + 1 \<and> log_wf (sp_log s') \<and> start (sp_log s') = start (sp_log s) \<and>
     useHash (sp_log s') = useHash (sp_log s) \<and> LastOpnum (sp_log s') = LastOpnum (sp_log s) \<and>
     (\<forall>i. log_at (sp_log s') i = (if i = sp_lastCommitted s + 1 then Some (settle e) else log_at (sp_log s) i)) \<and>
     run_txn (se_app env) (sp_log s) (sp_txnData s) (sp_app_state s) (sp_lastCommitted s + 1) = Inr (sp_app_state s')"
  using step
proof (cases rule: sp_commit_next_Inr)
  case (filler e)
  then show ?thesis
    using wf by (intro exI [of _ e]) (auto simp: Find_eq commit_frame_def run_txn_def settle_def only_replies_def)
next
  case (txn e l b)
  let ?s = "s\<lparr>sp_lastCommitted := sp_lastCommitted s + 1, sp_log := l\<rparr>"
  let ?e = "e\<lparr>le_state := LOG_STATE_COMMITTED\<rparr>"
  obtain a res ret rt
    where raw: "se_app env (sp_app_state ?s) (req_op (le_request ?e)) (txn_arg (sp_txnData s (sp_lastCommitted s + 1))) = Inr (a, res, ret)"
    and s': "s' = record_reply (?s\<lparr>sp_app_state := a\<rparr>) ?e (txn_reply ?s (le_request ?e) rt res)"
    using txn(4) by (rule ExecuteTxn_Inr) (rule that)
  have x: "se_app env (sp_app_state s) (req_op (le_request e)) (txn_arg (sp_txnData s (sp_lastCommitted s + 1))) = Inr (a, res, ret)"
    using raw by simp
  have e: "log_at (sp_log s) (sp_lastCommitted s + 1) = Some e" using txn(1) wf by (simp add: Find_eq)
  have fr: "commit_frame s s'" unfolding s' by (rule commit_frame_record)
  have out: "only_replies s s'"
    unfolding s' by (rule only_replies_record) simp
  show ?thesis
    using SetStatus_wf [OF wf txn(3)] e fr out txn(2) x
    by (intro exI [of _ e]) (simp add: s' settle_def run_txn_def)
qed

lemma commit_next_inv:
  assumes inv: "sp_inv s" and step: "commit_next env s = Inr s'"
  shows "sp_inv s' \<and> unat (sp_lastCommitted s') = Suc (unat (sp_lastCommitted s))"
proof -
  have L: "sp_log_inv s" using inv by (simp add: sp_inv_def)
  note I = sp_log_invD [OF L]
  let ?c = "sp_lastCommitted s + 1"
  obtain e where e: "log_at (sp_log s) ?c = Some e" and fr: "commit_frame s s'" and c: "sp_lastCommitted s' = ?c"
    and l: "log_wf (sp_log s')" "start (sp_log s') = start (sp_log s)" "useHash (sp_log s') = useHash (sp_log s)"
      "LastOpnum (sp_log s') = LastOpnum (sp_log s)"
    and at: "\<forall>i. log_at (sp_log s') i = (if i = ?c then Some (settle e) else log_at (sp_log s) i)"
    using commit_next_spec [OF I(1) step] by (elim exE conjE) simp
  note F = sp_commit_frameD [OF fr]
  have "?c \<le> LastOpnum (sp_log s)" using log_at_dom [OF I(1)] e by fastforce
  then have log: "sp_log_inv s'" using I l F(3) c unfolding sp_log_inv_def by simp
  have u: "unat ?c = Suc (unat (sp_lastCommitted s))"
    using I(5,6) unat_add_of_nat [of "sp_lastCommitted s" 1] unfolding u64_not_max word_le_nat_alt by simp
  have "entry_ok ?c op e' (sp_txnData s op)" if "log_at (sp_log s') op = Some e'" for op e'
  proof (cases "op = ?c")
    case True
    have "entry_ok (sp_lastCommitted s) ?c e (sp_txnData s ?c)" using inv e by (simp add: sp_inv_def)
    with that at True show ?thesis by (auto simp: entry_ok_def settle_def split: if_splits)
  next
    case False
    then have le: "op \<le> ?c \<longleftrightarrow> op \<le> sp_lastCommitted s"
      using u u64_eqI [of op ?c] unfolding word_le_nat_alt by linarith
    have "log_at (sp_log s) op = Some e'" using that at False by simp
    then show ?thesis using inv le by (simp add: sp_inv_def entry_ok_def)
  qed
  then show ?thesis
    using log inv F identityD [OF F(1)] c u by (auto simp: sp_inv_def)
qed

lemma commit_loop_done: "\<not> sp_lastCommitted s < k \<Longrightarrow> commit_loop env s k = Inr s"
  by (simp add: commit_loop.simps)

lemma commit_loop_step:
  "sp_lastCommitted s < k \<Longrightarrow> commit_loop env s k = rbind (commit_next env s) (\<lambda>s'. commit_loop env s' k)"
  by (simp add: commit_loop.simps [of env s])

lemma op_range_next:
  fixes c k :: u64
  assumes "c < k" and "k \<noteq> - 1"
  shows "op_range (c + 1) (k + 1) = (c + 1) # op_range (c + 1 + 1) (k + 1)"
proof (rule op_range_Cons)
  have "unat (k + 1) = unat k + 1" using assms(2) unat_add_of_nat [of k 1] unfolding u64_not_max by simp
  then show "c + 1 < k + 1" using assms(1) unat_Suc_less [OF assms(1)] by (simp add: word_less_nat_alt)
qed

text \<open>What a successful loop has done.\<close>

definition committed_to :: "'a txn_app \<Rightarrow> 'a SpannerServer \<Rightarrow> u64 \<Rightarrow> 'a SpannerServer \<Rightarrow> bool" where
  "committed_to app s k s' \<longleftrightarrow> commit_frame s s' \<and> only_replies s s' \<and> sp_lastCommitted s' = max (sp_lastCommitted s) k \<and>
     (\<forall>i. log_at (sp_log s') i = (if sp_lastCommitted s < i \<and> i \<le> k then map_option settle (log_at (sp_log s) i) else log_at (sp_log s) i)) \<and>
     run_txns app (sp_log s) (sp_txnData s) (sp_app_state s) (op_range (sp_lastCommitted s + 1) (k + 1)) = Inr (sp_app_state s')"

lemma committed_to_refl:
  assumes "sp_log_inv s" and "\<not> sp_lastCommitted s < k"
  shows "committed_to app s k s"
proof -
  note I = sp_log_invD [OF assms(1)]
  have "unat (sp_lastCommitted s + 1) = unat (sp_lastCommitted s) + 1"
    using I(5,6) unat_add_of_nat [of "sp_lastCommitted s" 1] unfolding u64_not_max word_le_nat_alt by simp
  moreover have "unat (k + 1) = unat k + 1"
    using assms(2) I(5,6) unat_add_of_nat [of k 1] unfolding u64_not_max word_le_nat_alt word_less_nat_alt by simp
  ultimately have "op_range (sp_lastCommitted s + 1) (k + 1) = []"
    using assms(2) by (simp add: op_range_def word_less_nat_alt)
  then show ?thesis using assms(2) by (auto simp: committed_to_def run_txns_def max_def)
qed

lemma committed_to_step:
  assumes inv: "sp_inv s" and step: "commit_next env s = Inr t" and lt: "sp_lastCommitted s < k" and k: "k \<noteq> - 1"
    and rest: "committed_to (se_app env) t k u"
  shows "committed_to (se_app env) s k u"
proof -
  let ?c = "sp_lastCommitted s + 1"
  have wf: "log_wf (sp_log s)" using inv by (simp add: sp_inv_def sp_log_inv_def)
  obtain e where e: "log_at (sp_log s) ?c = Some e" and fr: "commit_frame s t" "only_replies s t"
    and c: "sp_lastCommitted t = ?c"
    and at: "\<forall>i. log_at (sp_log t) i = (if i = ?c then Some (settle e) else log_at (sp_log s) i)"
    and run: "run_txn (se_app env) (sp_log s) (sp_txnData s) (sp_app_state s) ?c = Inr (sp_app_state t)"
    using commit_next_spec [OF wf step] by (elim exE conjE) simp
  have u: "unat ?c = Suc (unat (sp_lastCommitted s))" using lt by (rule unat_Suc_less)
  have "max ?c k = max (sp_lastCommitted s) k"
    using u lt by (auto simp: max_def word_le_nat_alt word_less_nat_alt intro: u64_eqI)
  moreover have "log_at (sp_log u) i = (if sp_lastCommitted s < i \<and> i \<le> k then map_option settle (log_at (sp_log s) i) else log_at (sp_log s) i)" for i
  proof (cases "i = ?c")
    case True
    then have "sp_lastCommitted s < i" "i \<le> k" "\<not> sp_lastCommitted t < i" using u lt c by (simp_all add: word_le_nat_alt word_less_nat_alt)
    then show ?thesis using True rest at e by (simp add: committed_to_def)
  next
    case False
    then have "?c < i \<longleftrightarrow> sp_lastCommitted s < i"
      using u u64_eqI [of i ?c] unfolding word_less_nat_alt by linarith
    then show ?thesis using False rest at c by (simp add: committed_to_def)
  qed
  moreover have "run_txns (se_app env) (sp_log t) (sp_txnData t) (sp_app_state t) ops = run_txns (se_app env) (sp_log s) (sp_txnData s) (sp_app_state t) ops" for ops
    using at e sp_commit_frameD(2) [OF fr(1)] by (intro run_txns_cong) simp
  then have "run_txns (se_app env) (sp_log s) (sp_txnData s) (sp_app_state s) (op_range ?c (k + 1)) = Inr (sp_app_state u)"
    using rest run c unfolding op_range_next [OF lt k] by (simp add: committed_to_def run_txns_def)
  ultimately show ?thesis
    using rest c sp_commit_frame_trans [OF fr(1)] only_replies_trans [OF fr(2)] unfolding committed_to_def by simp
qed

lemma commit_loop_spec:
  assumes "sp_inv s" and "k \<noteq> - 1" and "commit_loop env s k = Inr s'"
  shows "sp_inv s' \<and> committed_to (se_app env) s k s'"
  using assms
proof (induction env s k rule: commit_loop.induct)
  case (1 env s k)
  show ?case
  proof (cases "sp_lastCommitted s < k")
    case True
    then obtain t where t: "commit_next env s = Inr t" and rest: "commit_loop env t k = Inr s'"
      using "1.prems"(3) by (auto simp: commit_loop_step)
    have "sp_inv t" using commit_next_inv [OF "1.prems"(1) t] by simp
    from "1.IH" [OF True t this "1.prems"(2) rest] show ?thesis
      using committed_to_step [OF "1.prems"(1) t True "1.prems"(2)] by simp
  next
    case False
    then show ?thesis
      using "1.prems" committed_to_refl [of s k] by (simp add: commit_loop_done sp_inv_def)
  qed
qed

section \<open>Appending\<close>

definition pushed :: "'a SpannerServer \<Rightarrow> u64 \<Rightarrow> LogEntryState \<Rightarrow> Request \<Rightarrow> TxnData \<Rightarrow> 'a SpannerServer \<Rightarrow> bool" where
  "pushed s v st req td s' \<longleftrightarrow> sp_log_inv s' \<and>
     (\<exists>l. s' = s\<lparr>sp_lastOp := sp_lastOp s + 1, sp_log := l, sp_txnData := (sp_txnData s)(sp_lastOp s + 1 := td)\<rparr>) \<and>
     (\<forall>i. log_at (sp_log s') i =
        (if i = sp_lastOp s + 1 then Some (LogEntry_new (viewstamp2 v (sp_lastOp s + 1)) st req) else log_at (sp_log s) i))"

lemma pushedD:
  assumes "pushed s v st req td s'"
  shows "identity s' = identity s" "sp_lastOp s' = sp_lastOp s + 1" "sp_lastCommitted s' = sp_lastCommitted s"
    "sp_prepareOKQuorum s' = sp_prepareOKQuorum s" "sp_resendPrepareTimeout s' = sp_resendPrepareTimeout s"
    "sp_txnData s' = (sp_txnData s)(sp_lastOp s + 1 := td)" "sp_app_state s' = sp_app_state s" "sp_outbox s' = sp_outbox s"
    "sp_clientTable s' = sp_clientTable s"
  using assms by (auto simp: pushed_def identity_def)

lemma append_entry_pushed:
  assumes inv: "sp_log_inv s" and nm: "sp_lastOp s + 1 \<noteq> - 1"
  shows "\<exists>s'. append_entry env (s\<lparr>sp_lastOp := sp_lastOp s + 1\<rparr>) (viewstamp2 v (sp_lastOp s + 1)) st req td = Inr s' \<and>
     pushed s v st req td s'"
proof -
  note I = sp_log_invD [OF inv]
  let ?e = "LogEntry_new (viewstamp2 v (sp_lastOp s + 1)) st req"
  have opn: "vs_opnum (le_viewstamp ?e) = LastOpnum (sp_log s) + 1"
    by (simp add: LogEntry_new_def viewstamp2_def I(4))
  define l where "l = (sp_log s)\<lparr>entries := entries (sp_log s) @ [?e]\<rparr>"
  have app: "Append (se_sha1 env) (sp_log s) ?e = Inr l"
    using opn I(3) by (simp add: Append_def l_def LastOpnum_def Let_def)
  have room: "LastOpnum (sp_log s) \<noteq> - 1" using I(4,5) by simp
  note A = Append_wf [OF I(1) room app] Append_fields [OF app]
  have "log_at l i = (if i = sp_lastOp s + 1 then Some ?e else log_at (sp_log s) i)" for i
    using log_at_append [OF I(1) room app, of i] I(4) by (simp add: l_def)
  moreover have "sp_lastCommitted s \<le> LastOpnum l"
    using I(4,5,6) A(2) unat_add_of_nat [of "sp_lastOp s" 1] unfolding u64_not_max word_le_nat_alt by simp
  ultimately show ?thesis
    using I A nm app by (auto simp: append_entry_def pushed_def sp_log_inv_def viewstamp2_def)
qed

lemma unat_next:
  fixes x :: u64
  shows "x \<noteq> - 1 \<Longrightarrow> unat (x + 1) = Suc (unat x)"
  using unat_add_of_nat [of x 1] unfolding u64_not_max by simp

lemma pushed_inv:
  assumes "sp_inv s" and "pushed s v st req td s'"
    and "if st = LOG_STATE_EXECUTED then req = empty_Request else st = LOG_STATE_PREPARED \<and> td_type td \<noteq> UNKNOWN"
  shows "sp_inv s'"
proof -
  have L: "sp_log_inv s" "sp_log_inv s'" using assms(1,2) by (auto simp: sp_inv_def pushed_def)
  note I = sp_log_invD [OF L(1)]
  note s' = pushedD [OF assms(2)] identityD [OF pushedD(1) [OF assms(2)]]
  have gt: "\<not> sp_lastOp s + 1 \<le> sp_lastCommitted s" and nz: "sp_lastOp s + 1 \<noteq> 0"
    using I(6) unat_next [OF I(5)] by (auto simp: word_le_nat_alt)
  have "entry_ok (sp_lastCommitted s) op e (sp_txnData s' op)" if "log_at (sp_log s') op = Some e" for op e
  proof (cases "op = sp_lastOp s + 1")
    case True
    then show ?thesis using that assms(2,3) gt by (auto simp: pushed_def s'(6) entry_ok_def LogEntry_new_def split: if_splits)
  next
    case False
    then show ?thesis using that assms(1,2) by (simp add: pushed_def s'(6) sp_inv_def)
  qed
  then show ?thesis using assms(1) L(2) s' nz by (simp add: sp_inv_def)
qed

definition filler :: "u64 \<Rightarrow> u64 \<Rightarrow> LogEntry" where
  "filler v op = LogEntry_new (viewstamp2 v op) LOG_STATE_EXECUTED empty_Request"

definition filled :: "'a SpannerServer \<Rightarrow> u64 \<Rightarrow> u64 \<Rightarrow> 'a SpannerServer \<Rightarrow> bool" where
  "filled s v k s' \<longleftrightarrow> sp_lastOp s' + 1 = k \<and>
     (\<exists>op l td. s' = s\<lparr>sp_lastOp := op, sp_log := l, sp_txnData := td\<rparr>) \<and>
     (\<forall>i. log_at (sp_log s') i = (if sp_lastOp s < i \<and> i < k then Some (filler v i) else log_at (sp_log s) i)) \<and>
     (\<forall>i. sp_txnData s' i = (if sp_lastOp s < i \<and> i < k then TxnData_default else sp_txnData s i))"

lemma filledD:
  assumes "filled s v k s'"
  shows "identity s' = identity s" "sp_lastCommitted s' = sp_lastCommitted s"
    "sp_prepareOKQuorum s' = sp_prepareOKQuorum s" "sp_resendPrepareTimeout s' = sp_resendPrepareTimeout s"
    "sp_app_state s' = sp_app_state s" "sp_outbox s' = sp_outbox s" "sp_clientTable s' = sp_clientTable s"
  using assms by (auto simp: filled_def identity_def)

lemma fill_entries:
  assumes "sp_inv s" and "sp_lastOp s < k" and "k \<noteq> - 1" and "n = unat k - unat (sp_lastOp s + 1)"
  shows "\<exists>s'. fold_r (fill_entry env v) s (op_range (sp_lastOp s + 1) k) = Inr s' \<and> sp_inv s' \<and> filled s v k s'"
  using assms
proof (induction n arbitrary: s)
  case 0
  have "unat (sp_lastOp s + 1) = Suc (unat (sp_lastOp s))" using "0.prems"(2) by (rule unat_Suc_less)
  then have k: "sp_lastOp s + 1 = k" using 0 by (auto simp: word_less_nat_alt intro: u64_eqI)
  have "\<not> (sp_lastOp s < i \<and> i < k)" for i
    using k unat_Suc_less [OF "0.prems"(2)] by (auto simp: word_less_nat_alt)
  moreover have "s = s\<lparr>sp_lastOp := sp_lastOp s, sp_log := sp_log s, sp_txnData := sp_txnData s\<rparr>" by simp
  then have "\<exists>op l td. s = s\<lparr>sp_lastOp := op, sp_log := l, sp_txnData := td\<rparr>" by blast
  ultimately have "filled s v k s" using k by (auto simp: filled_def)
  then show ?case using k "0.prems"(1) by auto
next
  case (Suc n)
  let ?op = "sp_lastOp s + 1"
  have u: "unat ?op = Suc (unat (sp_lastOp s))" using Suc.prems(2) by (rule unat_Suc_less)
  then have lt: "?op < k" using Suc.prems(4) by (simp add: word_less_nat_alt)
  have "sp_log_inv s" using Suc.prems(1) by (simp add: sp_inv_def)
  moreover have "?op \<noteq> - 1" using lt unat_u64_bound [of k] unfolding u64_not_max word_less_nat_alt by simp
  ultimately obtain t where t: "fill_entry env v s ?op = Inr t" "pushed s v LOG_STATE_EXECUTED empty_Request TxnData_default t"
    unfolding fill_entry_def using append_entry_pushed by blast
  note T = pushedD [OF t(2)]
  have "sp_inv t" using pushed_inv [OF Suc.prems(1) t(2)] by simp
  moreover have "n = unat k - unat (sp_lastOp t + 1)" using Suc.prems(4) T(2) unat_Suc_less [OF lt] by simp
  ultimately obtain s' where s': "fold_r (fill_entry env v) t (op_range (?op + 1) k) = Inr s'" "sp_inv s'" "filled t v k s'"
    using Suc.IH [of t] lt Suc.prems(3) T(2) by auto
  have split: "sp_lastOp s < i \<longleftrightarrow> i = ?op \<or> ?op < i" for i
    using u u64_eqI [of i ?op] by (cases "unat i = unat ?op") (auto simp: word_less_nat_alt)
  have "log_at (sp_log s') i = (if sp_lastOp s < i \<and> i < k then Some (filler v i) else log_at (sp_log s) i)" for i
    using s'(3) t(2) lt T(2) split [of i] by (simp add: filled_def pushed_def filler_def)
  moreover have "sp_txnData s' i = (if sp_lastOp s < i \<and> i < k then TxnData_default else sp_txnData s i)" for i
    using s'(3) lt T(2,6) split [of i] by (simp add: filled_def)
  moreover obtain op l td l0 where "s' = t\<lparr>sp_lastOp := op, sp_log := l, sp_txnData := td\<rparr>"
      "t = s\<lparr>sp_lastOp := ?op, sp_log := l0, sp_txnData := (sp_txnData s)(?op := TxnData_default)\<rparr>"
    using s'(3) t(2) unfolding filled_def pushed_def by blast
  then have "s' = s\<lparr>sp_lastOp := op, sp_log := l, sp_txnData := td\<rparr>" by simp
  ultimately have "filled s v k s'" using s'(3) unfolding filled_def by blast
  then show ?case using s' t(1) op_range_Cons [OF lt] by simp
qed

lemma fill_gap_filled:
  assumes "sp_inv s" and "sp_lastOp s < pm_opnum msg" and "pm_opnum msg \<noteq> - 1"
  shows "\<exists>s'. fill_gap env s msg = Inr s' \<and> sp_inv s' \<and> filled s (pm_view msg) (pm_opnum msg) s'"
  unfolding fill_gap_def using fill_entries [OF assms refl] .

section \<open>What the handlers do\<close>

text \<open>The view of a server the rest of its group has: the log's cells (whether an entry is a filler, its
  request and its transaction), the counters, the votes and the messages sent to servers.\<close>

definition cell :: "'a SpannerServer \<Rightarrow> u64 \<Rightarrow> (bool \<times> Request \<times> TxnData) option" where
  "cell s op = map_option (\<lambda>e. (le_state e = LOG_STATE_EXECUTED, le_request e, sp_txnData s op)) (log_at (sp_log s) op)"

definition sent :: "'a SpannerServer \<Rightarrow> (destination \<times> ToServerMessage) set" where
  "sent s = {(d, m). (d, OutServer m) \<in> set (sp_outbox s)}"

definition same_core :: "'a SpannerServer \<Rightarrow> 'a SpannerServer \<Rightarrow> bool" where
  "same_core s s' \<longleftrightarrow> identity s' = identity s \<and> cell s' = cell s \<and> sp_lastOp s' = sp_lastOp s \<and>
     sp_lastCommitted s' = sp_lastCommitted s \<and> sp_app_state s' = sp_app_state s"

definition txn_of :: "u64 \<Rightarrow> RequestType \<Rightarrow> Request \<Rightarrow> bool \<times> Request \<times> TxnData" where
  "txn_of txnid type req = (False, req, TxnData_new txnid type)"

definition filler_cell :: "bool \<times> Request \<times> TxnData" where
  "filler_cell = (True, empty_Request, TxnData_default)"

lemma same_core_refl [simp]: "same_core s s"
  by (simp add: same_core_def)

lemma core_updates [simp]:
  "same_core s (s\<lparr>sp_clientAddresses := x\<rparr>)" "same_core s (s\<lparr>sp_clientTable := y\<rparr>)" "same_core s (s\<lparr>sp_prepareOKQuorum := q\<rparr>)"
  "same_core s (s\<lparr>sp_resendPrepareTimeout := t\<rparr>)" "same_core s (send s d m)"
  by (simp_all add: same_core_def cell_def identity_def send_def fun_eq_iff)

lemma same_core_trans: "\<lbrakk> same_core s t; same_core t u \<rbrakk> \<Longrightarrow> same_core s u"
  by (simp add: same_core_def)

lemma send_frame [simp]:
  "sp_prepareOKQuorum (send s d m) = sp_prepareOKQuorum s" "sp_lastOp (send s d m) = sp_lastOp s" "AmLeader (send s d m) = AmLeader s"
  "sp_lastCommitted (send s d m) = sp_lastCommitted s" "sp_resendPrepareTimeout (send s d m) = sp_resendPrepareTimeout s"
  "sp_log (send s d m) = sp_log s" "sp_txnData (send s d m) = sp_txnData s"
  by (simp_all add: send_def AmLeader_def)

lemma sent_simps [simp]:
  "sent (send s d (OutServer m)) = insert (d, m) (sent s)" "sent (send s d (OutClient r)) = sent s"
  "sent (s\<lparr>sp_clientAddresses := x\<rparr>) = sent s" "sent (s\<lparr>sp_clientTable := y\<rparr>) = sent s"
  "sent (s\<lparr>sp_prepareOKQuorum := q\<rparr>) = sent s" "sent (s\<lparr>sp_resendPrepareTimeout := t\<rparr>) = sent s"
  by (auto simp: sent_def send_def)

lemma sent_eqI: "sp_outbox s' = sp_outbox s \<Longrightarrow> sent s' = sent s"
  by (simp add: sent_def)

lemma inv_updates:
  assumes "sp_inv s"
  shows "sp_inv (s\<lparr>sp_clientAddresses := x\<rparr>)" "sp_inv (s\<lparr>sp_clientTable := y\<rparr>)" "sp_inv (send s d m)"
    "sp_inv (s\<lparr>sp_resendPrepareTimeout := False\<rparr>)"
    "\<lbrakk> quorum_set_ok q; numRequired q = numRequired (sp_prepareOKQuorum s) \<rbrakk> \<Longrightarrow> sp_inv (s\<lparr>sp_prepareOKQuorum := q\<rparr>)"
    "\<lbrakk> AmLeader s; sp_lastOp s \<noteq> 0 \<rbrakk> \<Longrightarrow> sp_inv (s\<lparr>sp_resendPrepareTimeout := True\<rparr>)"
  using assms by (auto simp: sp_inv_def sp_log_inv_def AmLeader_def send_def)

lemma cell_dom:
  assumes "sp_inv s"
  shows "cell s op \<noteq> None \<longleftrightarrow> 1 \<le> op \<and> op \<le> sp_lastOp s"
  using assms log_at_dom [of "sp_log s" op] by (simp add: cell_def sp_inv_def sp_log_inv_def)

lemma pushed_cell:
  assumes "pushed s v st req td s'"
  shows "cell s' = (cell s)(sp_lastOp s + 1 \<mapsto> (st = LOG_STATE_EXECUTED, req, td))"
  using assms pushedD(6) [OF assms] by (auto simp: pushed_def cell_def fun_eq_iff LogEntry_new_def)

lemma filled_cell:
  assumes "filled s v k s'"
  shows "cell s' i = (if sp_lastOp s < i \<and> i < k then Some filler_cell else cell s i)"
  using assms by (auto simp: filled_def cell_def filler_def LogEntry_new_def filler_cell_def)

lemma committed_cell: "committed_to app s k s' \<Longrightarrow> cell s' = cell s"
  using sp_commit_frameD(2) [of s s']
  by (auto simp: committed_to_def cell_def fun_eq_iff option.map_comp comp_def)

lemma run_txns_cell:
  assumes "\<And>op. op \<in> set ops \<Longrightarrow> cell s op = cell s' op \<and> cell s op \<noteq> None"
  shows "run_txns app (sp_log s) (sp_txnData s) a ops = run_txns app (sp_log s') (sp_txnData s') a ops"
proof (rule run_txns_cong)
  fix op
  assume "op \<in> set ops"
  from assms [OF this] show "sp_txnData s op = sp_txnData s' op \<and>
     map_option (\<lambda>e. (le_request e, le_state e = LOG_STATE_EXECUTED)) (log_at (sp_log s) op) =
     map_option (\<lambda>e. (le_request e, le_state e = LOG_STATE_EXECUTED)) (log_at (sp_log s') op)"
    by (auto simp: cell_def map_option_case split: option.splits)
qed

lemma UpdateClientTable_Inr: "UpdateClientTable s req = Inr s' \<Longrightarrow> \<exists>ct. s' = s\<lparr>sp_clientTable := ct\<rparr>"
  by (auto simp: UpdateClientTable_def Let_def put_client_def split: if_splits)

lemma UpdateClientTable_total:
  assumes "ct_lastReqId (client_entry s (req_clientid req)) \<le> req_clientreqid req"
  shows "\<exists>s'. UpdateClientTable s req = Inr s'"
  using assms by (simp add: UpdateClientTable_def Let_def)

text \<open>The PREPARE for an operation carries what its cell holds.\<close>

definition prepare_for :: "'a SpannerServer \<Rightarrow> u64 \<Rightarrow> PrepareMessage \<Rightarrow> bool" where
  "prepare_for s op p \<longleftrightarrow> pm_opnum p = op \<and>
     (\<exists>b td. cell s op = Some (b, pm_request p, td) \<and> td_txnid td = pm_txnid p \<and> td_type td = pm_type p)"

lemma SendPrepare_spec:
  assumes inv: "sp_inv s" and lead: "AmLeader s" and nz: "sp_lastOp s \<noteq> 0"
  shows "\<exists>s' p. SendPrepare s = Inr s' \<and> sp_inv s' \<and> same_core s s' \<and> sp_prepareOKQuorum s' = sp_prepareOKQuorum s \<and>
     prepare_for s (sp_lastOp s) p \<and> sent s' = insert (AllReplicas, SpPrepare p) (sent s) \<and> sp_resendPrepareTimeout s'"
proof -
  have wf: "log_wf (sp_log s)" using inv by (simp add: sp_inv_def sp_log_inv_def)
  have "cell s (sp_lastOp s) \<noteq> None" using cell_dom [OF inv] nz by (simp add: word_le_nat_alt Suc_le_eq unat_gt_0)
  then obtain e where e: "log_at (sp_log s) (sp_lastOp s) = Some e" by (auto simp: cell_def)
  let ?p = "prepare_message e (sp_txnData s (sp_lastOp s))"
  let ?t = "send s AllReplicas (OutServer (SpPrepare ?p))"
  have "prepare_for s (sp_lastOp s) ?p"
    using e log_at_opnum [OF wf e] by (auto simp: prepare_for_def prepare_message_def cell_def)
  moreover have "SendPrepare s = Inr (?t\<lparr>sp_resendPrepareTimeout := True\<rparr>)"
    using e by (simp add: SendPrepare_def Find_eq [OF wf])
  moreover have "sp_inv (?t\<lparr>sp_resendPrepareTimeout := True\<rparr>)"
    using inv_updates(6) [OF inv_updates(3) [OF inv]] lead nz by simp
  moreover have "same_core s (?t\<lparr>sp_resendPrepareTimeout := True\<rparr>)"
    by (rule same_core_trans [OF core_updates(5) core_updates(4)])
  ultimately show ?thesis by (intro exI conjI) (assumption | simp)+
qed

lemma append_request_Inr:
  assumes inv: "sp_inv s" and lead: "AmLeader s" and nm: "sp_lastOp s + 1 \<noteq> - 1" and run: "append_request env s msg = Inr s'"
  shows "sp_inv s' \<and> identity s' = identity s \<and> rq_type msg \<noteq> UNKNOWN \<and>
     sp_lastOp s' = sp_lastOp s + 1 \<and> sp_lastCommitted s' = sp_lastCommitted s \<and> sp_app_state s' = sp_app_state s \<and>
     cell s' = (cell s)(sp_lastOp s + 1 \<mapsto> txn_of (rq_txnid msg) (rq_type msg) (rq_request msg)) \<and>
     sp_prepareOKQuorum s' = sp_prepareOKQuorum s \<and>
     (\<exists>p. prepare_for s' (sp_lastOp s + 1) p \<and> sent s' = insert (AllReplicas, SpPrepare p) (sent s)) \<and> sp_resendPrepareTimeout s'"
proof -
  obtain ct where u: "UpdateClientTable s (rq_request msg) = Inr (s\<lparr>sp_clientTable := ct\<rparr>)"
    using run UpdateClientTable_Inr by (fastforce simp: append_request_def)
  let ?s = "s\<lparr>sp_clientTable := ct\<rparr>"
  have inv1: "sp_inv ?s" using inv by (rule inv_updates)
  then have "sp_log_inv ?s" by (simp add: sp_inv_def)
  moreover have "sp_lastOp ?s + 1 \<noteq> - 1" using nm by simp
  ultimately obtain t where
    t: "append_entry env (?s\<lparr>sp_lastOp := sp_lastOp ?s + 1\<rparr>) (viewstamp2 (sp_view s) (sp_lastOp ?s + 1)) LOG_STATE_PREPARED
         (rq_request msg) (TxnData_new (rq_txnid msg) (rq_type msg)) = Inr t"
      "pushed ?s (sp_view s) LOG_STATE_PREPARED (rq_request msg) (TxnData_new (rq_txnid msg) (rq_type msg)) t"
    using append_entry_pushed by blast
  note T = pushedD [OF t(2)]
  have ty: "rq_type msg \<noteq> UNKNOWN" and send: "SendPrepare t = Inr s'"
    using run u t(1) by (simp_all add: append_request_def Let_def)
  have inv2: "sp_inv t" using pushed_inv [OF inv1 t(2)] ty by (simp add: TxnData_new_def)
  have "AmLeader t" using lead identityD(5) [OF T(1)] by (simp add: AmLeader_def)
  moreover have "sp_lastOp t \<noteq> 0" using T(2) inv unat_next [of "sp_lastOp s"] by (auto simp: sp_inv_def sp_log_inv_def)
  ultimately obtain p where p: "sp_inv s'" "same_core t s'" "sp_prepareOKQuorum s' = sp_prepareOKQuorum t"
    "prepare_for t (sp_lastOp t) p" "sent s' = insert (AllReplicas, SpPrepare p) (sent t)" "sp_resendPrepareTimeout s'"
    using SendPrepare_spec [OF inv2] send by auto
  have "cell t = (cell s)(sp_lastOp s + 1 \<mapsto> txn_of (rq_txnid msg) (rq_type msg) (rq_request msg))"
    using pushed_cell [OF t(2)] core_updates(2) [of s ct] by (simp add: same_core_def txn_of_def)
  moreover have "sent t = sent s" using T(8) by (intro sent_eqI) simp
  moreover have "identity t = identity s" using T(1) by (simp add: identity_def)
  ultimately show ?thesis
    using p T ty by (auto simp: same_core_def prepare_for_def)
qed

lemma HandleClientRequest_cases:
  assumes "HandleClientRequest env s remote msg = Inr s'" and "t = save_address s remote (req_clientid (rq_request msg))"
  obtains (quiet) "s' = t" | (again) r where "s' = send t (AddressDest remote) (OutClient r)"
    | (new) "AmLeader t" "append_request env t msg = Inr s'"
proof (cases "AmLeader t")
  case True
  note run = assms(1) [unfolded HandleClientRequest_def assms(2) [symmetric] Let_def]
  show ?thesis
  proof (cases "sp_clientTable t (req_clientid (rq_request msg))")
    case None
    then show ?thesis using run True by (intro new) simp_all
  next
    case (Some entry)
    let ?r = "req_clientreqid (rq_request msg)"
    consider (stale) "?r < ct_lastReqId entry \<or> ?r = ct_lastReqId entry \<and> \<not> ct_replied entry"
      | (dup) "\<not> ?r < ct_lastReqId entry" "?r = ct_lastReqId entry" "ct_replied entry"
      | (fresh) "\<not> ?r < ct_lastReqId entry" "?r \<noteq> ct_lastReqId entry" by blast
    then show ?thesis
    proof cases
      case stale
      then have "s' = t" using run True Some by auto
      then show ?thesis by (rule quiet)
    next
      case dup
      then have "s' = send t (AddressDest remote) (OutClient (ct_reply entry))" using run True Some by simp
      then show ?thesis by (rule again)
    next
      case fresh
      then have "append_request env t msg = Inr s'" using run True Some by simp
      then show ?thesis using True by (intro new)
    qed
  qed
next
  case False
  then show ?thesis
    using assms(1) unfolding HandleClientRequest_def assms(2) [symmetric] Let_def by (intro quiet) simp
qed

lemma HandleClientRequest_Inr:
  assumes inv: "sp_inv s" and nm: "sp_lastOp s + 1 \<noteq> - 1" and run: "HandleClientRequest env s remote msg = Inr s'"
  shows "sp_inv s' \<and> sp_prepareOKQuorum s' = sp_prepareOKQuorum s \<and>
     (same_core s s' \<and> sent s' = sent s \<or>
      AmLeader s \<and> rq_type msg \<noteq> UNKNOWN \<and> identity s' = identity s \<and>
      sp_lastOp s' = sp_lastOp s + 1 \<and> sp_lastCommitted s' = sp_lastCommitted s \<and> sp_app_state s' = sp_app_state s \<and>
      cell s' = (cell s)(sp_lastOp s + 1 \<mapsto> txn_of (rq_txnid msg) (rq_type msg) (rq_request msg)) \<and>
      (\<exists>p. prepare_for s' (sp_lastOp s + 1) p \<and> sent s' = insert (AllReplicas, SpPrepare p) (sent s)))"
proof -
  obtain ca where s1: "save_address s remote (req_clientid (rq_request msg)) = s\<lparr>sp_clientAddresses := ca\<rparr>"
    by (cases "sp_clientAddresses s (req_clientid (rq_request msg)) = None") (auto simp: save_address_def intro: that [of "sp_clientAddresses s"])
  let ?s = "s\<lparr>sp_clientAddresses := ca\<rparr>"
  have i1: "sp_inv ?s" using inv by (rule inv_updates)
  have c1: "cell ?s = cell s" "identity ?s = identity s" using core_updates(1) [of s ca] by (simp_all add: same_core_def)
  have l1: "AmLeader ?s = AmLeader s" by (simp add: AmLeader_def)
  from run s1 [symmetric] show ?thesis
  proof (cases rule: HandleClientRequest_cases)
    case quiet
    then show ?thesis using i1 by simp
  next
    case again
    then show ?thesis
      using inv_updates(3) [OF i1] same_core_trans [OF core_updates(1) core_updates(5)] by simp
  next
    case new
    from append_request_Inr [OF i1 new(1) _ new(2)] nm new(1) l1 show ?thesis by (simp add: c1)
  qed
qed

lemma prepare_ok_spec:
  "same_core s (prepare_ok s msg)" "sp_prepareOKQuorum (prepare_ok s msg) = sp_prepareOKQuorum s"
  "sent (prepare_ok s msg) = insert (ReplicaDest (leader_of s),
     SpPrepareOK \<lparr>pk_view = pm_view msg, pk_opnum = pm_opnum msg, pk_replica_num = sp_replicaIdx s\<rparr>) (sent s)"
  "sp_inv s \<Longrightarrow> sp_inv (prepare_ok s msg)"
  by (simp_all add: prepare_ok_def inv_updates)

text \<open>A backup that takes a PREPARE has put it at its operation number, with fillers below.\<close>

definition accepted_at :: "'a SpannerServer \<Rightarrow> PrepareMessage \<Rightarrow> 'a SpannerServer \<Rightarrow> bool" where
  "accepted_at s msg s' \<longleftrightarrow> identity s' = identity s \<and> sp_lastOp s < pm_opnum msg \<and> sp_lastOp s' = pm_opnum msg \<and>
     sp_lastCommitted s' = sp_lastCommitted s \<and> sp_app_state s' = sp_app_state s \<and> pm_type msg \<noteq> UNKNOWN \<and>
     (\<forall>i. cell s' i = (if i = pm_opnum msg then Some (txn_of (pm_txnid msg) (pm_type msg) (pm_request msg))
        else if sp_lastOp s < i \<and> i < pm_opnum msg then Some filler_cell else cell s i))"

lemma prepare_pushed:
  assumes inv: "sp_inv s" and lt: "sp_lastOp s < pm_opnum msg" and nm: "pm_opnum msg \<noteq> - 1"
  shows "\<exists>t u. fill_gap env s msg = Inr t \<and>
     append_entry env (t\<lparr>sp_lastOp := sp_lastOp t + 1\<rparr>) (viewstamp2 (pm_view msg) (sp_lastOp t + 1)) LOG_STATE_PREPARED
       (pm_request msg) (TxnData_new (pm_txnid msg) (pm_type msg)) = Inr u \<and>
     (pm_type msg \<noteq> UNKNOWN \<longrightarrow> sp_inv u \<and> accepted_at s msg u) \<and> sp_clientTable u = sp_clientTable s \<and>
     sp_prepareOKQuorum u = sp_prepareOKQuorum s \<and> sent u = sent s"
proof -
  obtain t where t: "fill_gap env s msg = Inr t" "sp_inv t" "filled s (pm_view msg) (pm_opnum msg) t"
    using fill_gap_filled [OF inv lt nm] by blast
  note T = filledD [OF t(3)]
  have op: "sp_lastOp t + 1 = pm_opnum msg" using t(3) by (simp add: filled_def)
  have "sp_log_inv t" using t(2) by (simp add: sp_inv_def)
  moreover have "sp_lastOp t + 1 \<noteq> - 1" using nm op by simp
  ultimately obtain u where u: "append_entry env (t\<lparr>sp_lastOp := sp_lastOp t + 1\<rparr>) (viewstamp2 (pm_view msg) (sp_lastOp t + 1)) LOG_STATE_PREPARED
       (pm_request msg) (TxnData_new (pm_txnid msg) (pm_type msg)) = Inr u"
     "pushed t (pm_view msg) LOG_STATE_PREPARED (pm_request msg) (TxnData_new (pm_txnid msg) (pm_type msg)) u"
    using append_entry_pushed by blast
  note U = pushedD [OF u(2)]
  have "accepted_at s msg u" if "pm_type msg \<noteq> UNKNOWN"
    using that T U lt op pushed_cell [OF u(2)] filled_cell [OF t(3)] by (simp add: accepted_at_def txn_of_def)
  moreover have "sp_inv u" if "pm_type msg \<noteq> UNKNOWN"
    using that pushed_inv [OF t(2) u(2)] by (simp add: TxnData_new_def)
  ultimately show ?thesis using t u T U sent_eqI by metis
qed

lemma HandlePrepare_Inr:
  assumes inv: "sp_inv s" and nm: "pm_opnum msg \<noteq> - 1" and run: "HandlePrepare env s msg = Inr s'"
  shows "sp_inv s' \<and> \<not> AmLeader s \<and> sp_prepareOKQuorum s' = sp_prepareOKQuorum s \<and>
     (pm_opnum msg \<le> sp_lastOp s \<and> same_core s s' \<or> accepted_at s msg s') \<and>
     sent s' = insert (ReplicaDest (leader_of s),
       SpPrepareOK \<lparr>pk_view = pm_view msg, pk_opnum = pm_opnum msg, pk_replica_num = sp_replicaIdx s\<rparr>) (sent s)"
proof (cases "pm_opnum msg \<le> sp_lastOp s")
  case True
  then have "s' = prepare_ok s msg" "\<not> AmLeader s" using run by (auto simp: HandlePrepare_def)
  then show ?thesis using inv True by (simp add: prepare_ok_spec)
next
  case False
  then have lt: "sp_lastOp s < pm_opnum msg" by simp
  obtain t u where tu: "fill_gap env s msg = Inr t"
    "append_entry env (t\<lparr>sp_lastOp := sp_lastOp t + 1\<rparr>) (viewstamp2 (pm_view msg) (sp_lastOp t + 1)) LOG_STATE_PREPARED
       (pm_request msg) (TxnData_new (pm_txnid msg) (pm_type msg)) = Inr u"
    "pm_type msg \<noteq> UNKNOWN \<longrightarrow> sp_inv u \<and> accepted_at s msg u"
    "sp_prepareOKQuorum u = sp_prepareOKQuorum s" "sent u = sent s"
    using prepare_pushed [OF inv lt nm, of env] by blast
  have ty: "pm_type msg \<noteq> UNKNOWN" and led: "\<not> AmLeader s" and up: "rbind (UpdateClientTable u (pm_request msg)) (\<lambda>w. Inr (prepare_ok w msg)) = Inr s'"
    using run False tu by (simp_all add: HandlePrepare_def Let_def)
  obtain w where w: "UpdateClientTable u (pm_request msg) = Inr w" "prepare_ok w msg = s'" using up by auto
  obtain ct where ct: "w = u\<lparr>sp_clientTable := ct\<rparr>" using UpdateClientTable_Inr [OF w(1)] by blast
  have wu: "sp_inv w" "same_core u w" "sent w = sent s" "sp_prepareOKQuorum w = sp_prepareOKQuorum s"
    using tu ty inv_updates(2) [of u ct] by (simp_all add: ct)
  have acc: "accepted_at s msg s'" and core: "same_core u s'"
    using same_core_trans [OF wu(2) prepare_ok_spec(1) [of w msg]] tu(3) ty w(2) by (simp_all add: same_core_def accepted_at_def)
  have "leader_of w = leader_of s" "sp_replicaIdx w = sp_replicaIdx s"
    using wu(2) tu(3) ty identityD(3,6) [of w s] by (simp_all add: same_core_def accepted_at_def)
  then show ?thesis
    using acc wu led prepare_ok_spec [of w msg] w(2) by simp
qed

text \<open>Committing: the transactions up to \<open>k\<close> have run and the cells are as before.\<close>

definition executed_to :: "'a txn_app \<Rightarrow> 'a SpannerServer \<Rightarrow> u64 \<Rightarrow> 'a SpannerServer \<Rightarrow> bool" where
  "executed_to app s k s' \<longleftrightarrow> identity s' = identity s \<and> cell s' = cell s \<and> sp_lastOp s' = sp_lastOp s \<and> k \<le> sp_lastOp s \<and>
     sp_lastCommitted s' = max (sp_lastCommitted s) k \<and>
     run_txns app (sp_log s) (sp_txnData s) (sp_app_state s) (op_range (sp_lastCommitted s + 1) (k + 1)) = Inr (sp_app_state s')"

lemma commit_loop_core:
  assumes inv: "sp_inv s" and nm: "k \<noteq> - 1" and run: "commit_loop env s k = Inr s'"
  shows "sp_inv s' \<and> executed_to (se_app env) s k s' \<and> sent s' = sent s \<and> sp_prepareOKQuorum s' = sp_prepareOKQuorum s \<and>
     sp_resendPrepareTimeout s' = sp_resendPrepareTimeout s"
proof -
  from commit_loop_spec [OF inv nm run] have c: "sp_inv s'" "committed_to (se_app env) s k s'" by simp_all
  then have fr: "commit_frame s s'" and out: "only_replies s s'" and lc: "sp_lastCommitted s' = max (sp_lastCommitted s) k"
    by (simp_all add: committed_to_def)
  note F = sp_commit_frameD [OF fr]
  have "sent s' = sent s" using only_replies_messages [OF out] by (auto simp: sent_def)
  moreover have "k \<le> sp_lastOp s"
    using c(1) lc F(3) by (auto simp: sp_inv_def sp_log_inv_def max_def split: if_splits)
  ultimately show ?thesis
    using c F committed_cell [OF c(2)] by (simp add: executed_to_def committed_to_def)
qed

lemma sp_CommitUpTo_Inr:
  assumes inv: "sp_inv s" and nm: "k \<noteq> - 1" and run: "CommitUpTo env s k = Inr s'"
  shows "sp_inv s' \<and> executed_to (se_app env) s k s' \<and> sp_prepareOKQuorum s' = sp_prepareOKQuorum s \<and>
     (sp_lastCommitted s < k \<longrightarrow> \<not> sp_resendPrepareTimeout s') \<and>
     sent s' = (if sp_lastCommitted s < k \<and> AmLeader s
                then insert (AllReplicas, SpCommit \<lparr>cm_view = sp_view s, cm_opnum = k\<rparr>) (sent s) else sent s)"
proof (cases "sp_lastCommitted s < k")
  case True
  define t where "t = (if AmLeader s then send s AllReplicas (OutServer (SpCommit \<lparr>cm_view = sp_view s, cm_opnum = k\<rparr>)) else s)"
  define u where "u = t\<lparr>sp_resendPrepareTimeout := False\<rparr>"
  have loop: "commit_loop env u k = Inr s'"
    using run True by (simp add: CommitUpTo_def u_def t_def Let_def split: if_splits)
  have t: "sp_inv t" "same_core s t" "sp_prepareOKQuorum t = sp_prepareOKQuorum s" "sp_log t = sp_log s" "sp_txnData t = sp_txnData s"
    using inv inv_updates(3) by (auto simp: t_def)
  have u: "sp_inv u" "same_core s u" "sp_prepareOKQuorum u = sp_prepareOKQuorum s" "sp_log u = sp_log s" "sp_txnData u = sp_txnData s"
     "sent u = sent t" "\<not> sp_resendPrepareTimeout u"
    using t inv_updates(4) same_core_trans [OF t(2) core_updates(4)] by (simp_all add: u_def)
  from commit_loop_core [OF u(1) nm loop] u True show ?thesis
    by (simp add: executed_to_def same_core_def t_def)
next
  case False
  then show ?thesis using commit_loop_core [OF inv nm, of env s'] run by (simp add: CommitUpTo_def)
qed

lemma HandlePrepareOK_Inr:
  assumes inv: "sp_inv s" and nm: "pk_opnum msg \<noteq> - 1" and run: "HandlePrepareOK env s msg = Inr s'"
    and vs: "vs = viewstamp2 (pk_view msg) (pk_opnum msg)"
  shows "sp_inv s' \<and> AmLeader s \<and>
     sp_prepareOKQuorum s' = fst (AddAndCheckForQuorum (sp_prepareOKQuorum s) vs (pk_replica_num msg) msg) \<and>
     (if snd (AddAndCheckForQuorum (sp_prepareOKQuorum s) vs (pk_replica_num msg) msg) \<noteq> None
      then executed_to (se_app env) s (pk_opnum msg) s' \<and>
        sent s' = (if sp_lastCommitted s < pk_opnum msg
                   then insert (AllReplicas, SpCommit \<lparr>cm_view = sp_view s, cm_opnum = pk_opnum msg\<rparr>) (sent s) else sent s)
      else same_core s s' \<and> sent s' = sent s)"
proof -
  obtain q ms where q: "AddAndCheckForQuorum (sp_prepareOKQuorum s) vs (pk_replica_num msg) msg = (q, ms)"
    by (cases "AddAndCheckForQuorum (sp_prepareOKQuorum s) vs (pk_replica_num msg) msg")
  define t where "t = s\<lparr>sp_prepareOKQuorum := q\<rparr>"
  have lead: "AmLeader s" and cont: "(if ms \<noteq> None then CommitUpTo env t (pk_opnum msg) else Inr t) = Inr s'"
    using run q by (auto simp: HandlePrepareOK_def vs t_def Let_def)
  have "quorum_set_ok q" "numRequired q = numRequired (sp_prepareOKQuorum s)"
    using quorum_set_ok_add [of "sp_prepareOKQuorum s" vs "pk_replica_num msg" msg] inv q
    by (auto simp: sp_inv_def AddAndCheckForQuorum_def Let_def)
  then have inv1: "sp_inv t" unfolding t_def using inv by (intro inv_updates)
  have t: "same_core s t" "sent t = sent s" "AmLeader t = AmLeader s" "sp_log t = sp_log s" "sp_txnData t = sp_txnData s" "sp_view t = sp_view s"
    "sp_prepareOKQuorum t = q"
    by (simp_all add: t_def AmLeader_def)
  show ?thesis
  proof (cases "ms = None")
    case True
    then show ?thesis using cont lead inv1 t q by simp
  next
    case False
    then have "CommitUpTo env t (pk_opnum msg) = Inr s'" using cont by simp
    from sp_CommitUpTo_Inr [OF inv1 nm this] lead t q False show ?thesis
      by (simp add: executed_to_def same_core_def)
  qed
qed

lemma HandleCommit_Inr:
  assumes inv: "sp_inv s" and run: "HandleCommit env s msg = Inr s'"
  shows "sp_inv s' \<and> \<not> AmLeader s \<and> sp_prepareOKQuorum s' = sp_prepareOKQuorum s \<and> sent s' = sent s \<and>
     (same_core s s' \<or> sp_lastCommitted s < cm_opnum msg \<and> executed_to (se_app env) s (cm_opnum msg) s')"
proof -
  have lead: "\<not> AmLeader s" using run by (simp add: HandleCommit_def)
  show ?thesis
  proof (cases "sp_lastOp s < cm_opnum msg \<or> cm_opnum msg \<le> sp_lastCommitted s")
    case False
    then have run: "CommitUpTo env s (cm_opnum msg) = Inr s'" "\<not> sp_lastOp s < cm_opnum msg" "\<not> cm_opnum msg \<le> sp_lastCommitted s"
      using run lead by (simp_all add: HandleCommit_def)
    have "sp_lastOp s \<noteq> - 1" using inv by (simp add: sp_inv_def sp_log_inv_def)
    then have "cm_opnum msg \<noteq> - 1" using run(2) unfolding u64_not_max word_less_nat_alt by simp
    from sp_CommitUpTo_Inr [OF inv this run(1)] lead run(3) show ?thesis by (simp add: not_le)
  next
    case True
    then have "s' = s" using run lead by (auto simp: HandleCommit_def split: if_splits)
    then show ?thesis using inv lead by simp
  qed
qed

lemma PrepareTimeout_Inr:
  assumes inv: "sp_inv s" and run: "PrepareTimeout s = Inr s'"
  shows "sp_inv s' \<and> same_core s s' \<and> sp_prepareOKQuorum s' = sp_prepareOKQuorum s \<and>
     (sent s' = sent s \<or> AmLeader s \<and> (\<exists>p. prepare_for s (sp_lastOp s) p \<and> sent s' = insert (AllReplicas, SpPrepare p) (sent s)))"
proof (cases "sp_resendPrepareTimeout s")
  case True
  then have "AmLeader s" "sp_lastOp s \<noteq> 0" using inv by (simp_all add: sp_inv_def)
  from SendPrepare_spec [OF inv this] True run \<open>AmLeader s\<close> show ?thesis by (auto simp: PrepareTimeout_def)
next
  case False
  then show ?thesis using inv run by (simp add: PrepareTimeout_def)
qed

end
