(* ===== verification/SpannerProperties.thy ===== *)
theory SpannerProperties
  imports SpannerInvariant
begin

text \<open>
  The Spanner server never aborts: with an application that meets the contract \<open>retry_app\<close> every event
  that \<open>sp_expects\<close> admits is handled, and the invariant holds again.  The transactional key-value
  server in retry mode is such an application, so the two run together without ever failing an
  assertion of either.
\<close>

section \<open>Events a server is prepared for\<close>

text \<open>\<open>sp_expects\<close> leaves out what the code itself asserts of its peers: messages of known types reach the role they are for, an acknowledgement is
  for an operation the leader has, and the request in a \<^verbatim>\<open>PREPARE\<close> for a new operation is not older than the last one of its client in
  the client table, which \<^verbatim>\<open>UpdateClientTable\<close> asserts and a backup does not check.\<close>

definition txns_accepted :: "(string \<Rightarrow> txnarg_t \<Rightarrow> bool) \<Rightarrow> 'a SpannerServer \<Rightarrow> bool" where
  "txns_accepted acc s \<longleftrightarrow> (\<forall>op req td. cell s op = Some (False, req, td) \<longrightarrow> acc (req_op req) (txn_arg td))"

definition sp_safe :: "('a \<Rightarrow> bool) \<Rightarrow> (string \<Rightarrow> txnarg_t \<Rightarrow> bool) \<Rightarrow> 'a SpannerServer \<Rightarrow> bool" where
  "sp_safe app_ok acc s \<longleftrightarrow> sp_inv s \<and> app_ok (sp_app_state s) \<and> txns_accepted acc s"

fun sp_expects :: "(string \<Rightarrow> txnarg_t \<Rightarrow> bool) \<Rightarrow> 'a SpannerServer \<Rightarrow> spanner_event \<Rightarrow> bool" where
  "sp_expects acc s (Deliver _ (SpRequest m)) =
     (sp_lastOp s + 1 \<noteq> - 1 \<and> rq_type m \<noteq> UNKNOWN \<and>
      acc (req_op (rq_request m)) (txn_arg (TxnData_new (rq_txnid m) (rq_type m))))"
| "sp_expects acc s (Deliver _ (SpPrepare m)) =
     (\<not> AmLeader s \<and> pm_opnum m \<noteq> - 1 \<and>
      (sp_lastOp s < pm_opnum m \<longrightarrow> pm_type m \<noteq> UNKNOWN \<and>
         acc (req_op (pm_request m)) (txn_arg (TxnData_new (pm_txnid m) (pm_type m))) \<and>
         ct_lastReqId (client_entry s (req_clientid (pm_request m))) \<le> req_clientreqid (pm_request m)))"
| "sp_expects acc s (Deliver _ (SpPrepareOK m)) = (AmLeader s \<and> pk_opnum m \<le> sp_lastOp s)"
| "sp_expects acc s (Deliver _ (SpCommit m)) = (\<not> AmLeader s)"
| "sp_expects acc s (Deliver _ SpNotSet) = False"
| "sp_expects acc s ResendTimeout = True"

section \<open>No handler aborts\<close>

lemma reply_type_total:
  assumes "t = COMMIT \<or> t = ABORT \<Longrightarrow> tr_commit ret \<and> \<not> tr_blocked ret"
  shows "\<exists>rt. reply_type t ret = Inr rt"
  using assms by (auto simp: reply_type_def)

lemma txn_arg_finish:
  "td_type td = COMMIT \<or> td_type td = ABORT \<Longrightarrow> ta_type (txn_arg td) = TXN_COMMIT \<or> ta_type (txn_arg td) = TXN_ABORT"
  by (auto simp: txn_arg_def txn_type_def)

lemma executed_accepted:
  "executed_to app s k s' \<Longrightarrow> txns_accepted acc s' = txns_accepted acc s"
  by (simp add: txns_accepted_def executed_to_def)

lemma txns_accepted_new:
  assumes "txns_accepted acc s" and "acc (req_op r) (txn_arg (TxnData_new t ty))"
    and "\<And>i. cell s' i = cell s i \<or> cell s' i = Some filler_cell \<or> cell s' i = Some (txn_of t ty r)"
  shows "txns_accepted acc s'"
  unfolding txns_accepted_def
proof (intro allI impI)
  fix op req td
  assume "cell s' op = Some (False, req, td)"
  with assms(3) [of op] assms(1,2) show "acc (req_op req) (txn_arg td)"
    by (auto simp: txns_accepted_def txn_of_def filler_cell_def)
qed

context retry_app begin

lemma ExecuteTxn_total:
  assumes app: "se_app env = app" and ok: "app_ok (sp_app_state s)" and acc: "accepts_txn (req_op (le_request e)) (txn_arg td)"
    and st: "le_state e = LOG_STATE_COMMITTED" "td_type td \<noteq> UNKNOWN"
  shows "\<exists>s'. ExecuteTxn env s e td = Inr s' \<and> app_ok (sp_app_state s')"
proof -
  obtain a res ret where x: "app (sp_app_state s) (req_op (le_request e)) (txn_arg td) = Inr (a, res, ret)" "app_ok a"
    using app_total [OF ok acc] by blast
  have "tr_unblocked_txns ret = {}" using app_unblocks [OF ok acc x(1)] .
  moreover obtain rt where "reply_type (td_type td) ret = Inr rt"
    using reply_type_total app_finishes [OF ok acc txn_arg_finish x(1)] by blast
  ultimately show ?thesis
    using app x st by (simp add: ExecuteTxn_def Execute_txn_def TxnServer_ReplicaUpcall_def)
qed

lemma commit_next_total:
  assumes safe: "sp_safe app_ok accepts_txn s" and app: "se_app env = app" and lt: "sp_lastCommitted s < sp_lastOp s"
  shows "\<exists>s'. commit_next env s = Inr s' \<and> sp_safe app_ok accepts_txn s'"
proof -
  have inv: "sp_inv s" and ok: "app_ok (sp_app_state s)" using safe by (simp_all add: sp_safe_def)
  have wf: "log_wf (sp_log s)" using inv by (simp add: sp_inv_def sp_log_inv_def)
  let ?c = "sp_lastCommitted s + 1"
  have "1 \<le> ?c \<and> ?c \<le> sp_lastOp s" using lt unat_Suc_less [OF lt] by (simp add: word_le_nat_alt word_less_nat_alt)
  then have "cell s ?c \<noteq> None" using cell_dom [OF inv] by blast
  then obtain e where e: "log_at (sp_log s) ?c = Some e" by (auto simp: cell_def)
  have "\<exists>s'. commit_next env s = Inr s' \<and> app_ok (sp_app_state s')"
  proof (cases "le_state e = LOG_STATE_EXECUTED")
    case True
    then show ?thesis using e ok by (simp add: commit_next_def Find_eq [OF wf] Let_def)
  next
    case False
    obtain l b where l: "SetStatus (sp_log s) ?c LOG_STATE_COMMITTED = Inr (l, b)" using e by (simp add: SetStatus_eq [OF wf])
    have "cell s ?c = Some (False, le_request e, sp_txnData s ?c)" using e False by (simp add: cell_def)
    then have "accepts_txn (req_op (le_request e)) (txn_arg (sp_txnData s ?c))"
      using safe unfolding sp_safe_def txns_accepted_def by blast
    moreover have "entry_ok (sp_lastCommitted s) ?c e (sp_txnData s ?c)" using inv e by (simp add: sp_inv_def)
    then have "td_type (sp_txnData s ?c) \<noteq> UNKNOWN" using False by (simp add: entry_ok_def)
    ultimately show ?thesis
      using ExecuteTxn_total [OF app, of "s\<lparr>sp_lastCommitted := ?c, sp_log := l\<rparr>" "e\<lparr>le_state := LOG_STATE_COMMITTED\<rparr>" "sp_txnData s ?c"] ok e l False
      by (simp add: commit_next_def Find_eq [OF wf] Let_def)
  qed
  then obtain s' where s': "commit_next env s = Inr s'" "app_ok (sp_app_state s')" by blast
  obtain e' where "commit_frame s s'" "\<forall>i. log_at (sp_log s') i = (if i = ?c then Some (settle e') else log_at (sp_log s) i)"
    "log_at (sp_log s) ?c = Some e'"
    using commit_next_spec [OF wf s'(1)] by blast
  then have "cell s' = cell s" using sp_commit_frameD(2) by (fastforce simp: cell_def fun_eq_iff)
  then show ?thesis
    using s' commit_next_inv [OF inv s'(1)] safe by (simp add: sp_safe_def txns_accepted_def)
qed

lemma commit_loop_total:
  assumes "sp_safe app_ok accepts_txn s" and "se_app env = app" and "k \<le> sp_lastOp s"
  shows "\<exists>s'. commit_loop env s k = Inr s' \<and> sp_safe app_ok accepts_txn s'"
  using assms
proof (induction env s k rule: commit_loop.induct)
  case (1 env s k)
  show ?case
  proof (cases "sp_lastCommitted s < k")
    case True
    then have "sp_lastCommitted s < sp_lastOp s" using "1.prems"(3) by simp
    then obtain t where t: "commit_next env s = Inr t" "sp_safe app_ok accepts_txn t"
      using commit_next_total [OF "1.prems"(1,2)] by blast
    have "sp_lastOp t = sp_lastOp s"
      using commit_next_spec [OF _ t(1)] "1.prems"(1) sp_commit_frameD(3) by (fastforce simp: sp_safe_def sp_inv_def sp_log_inv_def)
    with "1.IH" [OF True t(1) t(2) "1.prems"(2)] "1.prems"(3) t(1) True show ?thesis by (simp add: commit_loop_step)
  qed (use "1.prems"(1) in \<open>simp add: commit_loop_done\<close>)
qed

lemma CommitUpTo_total:
  assumes safe: "sp_safe app_ok accepts_txn s" and app: "se_app env = app" and k: "k \<le> sp_lastOp s"
  shows "\<exists>s'. CommitUpTo env s k = Inr s' \<and> sp_safe app_ok accepts_txn s'"
proof -
  define t where "t = (if sp_lastCommitted s < k \<and> AmLeader s then send s AllReplicas (OutServer (SpCommit \<lparr>cm_view = sp_view s, cm_opnum = k\<rparr>)) else s)"
  define u where "u = (if sp_lastCommitted t < k then t\<lparr>sp_resendPrepareTimeout := False\<rparr> else t)"
  have t: "sp_inv t" "same_core s t" using safe inv_updates(3) by (auto simp: t_def sp_safe_def)
  have u: "sp_inv u" "same_core s u" using t inv_updates(4) same_core_trans [OF t(2) core_updates(4)] by (auto simp: u_def)
  then have "sp_safe app_ok accepts_txn u" using safe by (simp add: sp_safe_def same_core_def txns_accepted_def)
  from commit_loop_total [OF this app] u(2) k show ?thesis
    by (simp add: CommitUpTo_def t_def [symmetric] u_def [symmetric] Let_def same_core_def)
qed

lemma append_request_total:
  assumes safe: "sp_safe app_ok accepts_txn s" and lead: "AmLeader s" and nm: "sp_lastOp s + 1 \<noteq> - 1"
    and ty: "rq_type m \<noteq> UNKNOWN" "accepts_txn (req_op (rq_request m)) (txn_arg (TxnData_new (rq_txnid m) (rq_type m)))"
    and ct: "ct_lastReqId (client_entry s (req_clientid (rq_request m))) \<le> req_clientreqid (rq_request m)"
  shows "\<exists>s'. append_request env s m = Inr s' \<and> sp_safe app_ok accepts_txn s'"
proof -
  have inv: "sp_inv s" using safe by (simp add: sp_safe_def)
  obtain w where w: "UpdateClientTable s (rq_request m) = Inr w" using UpdateClientTable_total [OF ct] by blast
  obtain c where c: "w = s\<lparr>sp_clientTable := c\<rparr>" using UpdateClientTable_Inr [OF w] by blast
  have W: "sp_inv w" "AmLeader w" "sp_lastOp w = sp_lastOp s" "sp_view w = sp_view s"
    using inv inv_updates(2) lead by (auto simp: c AmLeader_def)
  then have "sp_log_inv w" "sp_lastOp w + 1 \<noteq> - 1" using nm by (simp_all add: sp_inv_def)
  from append_entry_pushed [OF this] obtain t where
    t: "append_entry env (w\<lparr>sp_lastOp := sp_lastOp w + 1\<rparr>) (viewstamp2 (sp_view w) (sp_lastOp w + 1)) LOG_STATE_PREPARED
         (rq_request m) (TxnData_new (rq_txnid m) (rq_type m)) = Inr t"
      "pushed w (sp_view w) LOG_STATE_PREPARED (rq_request m) (TxnData_new (rq_txnid m) (rq_type m)) t" by blast
  note T = pushedD [OF t(2)]
  have "sp_inv t" using pushed_inv [OF W(1) t(2)] ty by (simp add: TxnData_new_def)
  moreover have "AmLeader t" using W(2) identityD(5) [OF T(1)] by simp
  moreover have "sp_lastOp t \<noteq> 0" using T(2) W(1) unat_next [of "sp_lastOp w"] by (auto simp: sp_inv_def sp_log_inv_def)
  ultimately obtain s' where s': "SendPrepare t = Inr s'" using SendPrepare_spec by blast
  have run: "append_request env s m = Inr s'" using w t(1) s' ty by (simp add: append_request_def Let_def)
  from append_request_Inr [OF inv lead nm run] safe ty run show ?thesis
    by (auto simp: sp_safe_def txns_accepted_def txn_of_def)
qed

lemma request_total:
  assumes safe: "sp_safe app_ok accepts_txn s" and ex: "sp_expects accepts_txn s (Deliver remote (SpRequest m))"
  shows "\<exists>s'. HandleClientRequest env s remote m = Inr s' \<and> sp_safe app_ok accepts_txn s'"
proof -
  define t where "t = save_address s remote (req_clientid (rq_request m))"
  obtain ca where "t = s\<lparr>sp_clientAddresses := ca\<rparr>"
    by (cases "sp_clientAddresses s (req_clientid (rq_request m)) = None") (auto simp: t_def save_address_def intro: that [of "sp_clientAddresses s"])
  then have t: "sp_inv t" "same_core s t" using safe inv_updates(1) by (auto simp: sp_safe_def)
  then have safe_t: "sp_safe app_ok accepts_txn t" using safe by (simp add: sp_safe_def same_core_def txns_accepted_def)
  have new: "\<exists>s'. append_request env t m = Inr s' \<and> sp_safe app_ok accepts_txn s'"
    if "AmLeader t" "ct_lastReqId (client_entry t (req_clientid (rq_request m))) \<le> req_clientreqid (rq_request m)"
    using append_request_total [OF safe_t that(1) _ _ _ that(2)] ex t(2) by (simp add: same_core_def)
  have "\<exists>s'. HandleClientRequest env s remote m = Inr s'"
  proof (cases "AmLeader t")
    case True
    then show ?thesis
      using new by (auto simp: HandleClientRequest_def t_def [symmetric] Let_def client_entry_def ClientTableEntry_default_def not_less
          split: option.splits)
  qed (simp add: HandleClientRequest_def t_def [symmetric] Let_def)
  then obtain s' where s': "HandleClientRequest env s remote m = Inr s'" by blast
  have inv: "sp_inv s" and nm: "sp_lastOp s + 1 \<noteq> - 1" using safe ex by (simp_all add: sp_safe_def)
  note H = HandleClientRequest_Inr [OF inv nm s']
  have "cell s' i = cell s i \<or> cell s' i = Some filler_cell \<or> cell s' i = Some (txn_of (rq_txnid m) (rq_type m) (rq_request m))" for i
    using H by (elim conjE disjE) (simp_all add: same_core_def)
  moreover have "txns_accepted accepts_txn s" "accepts_txn (req_op (rq_request m)) (txn_arg (TxnData_new (rq_txnid m) (rq_type m)))"
    using safe ex by (simp_all add: sp_safe_def)
  ultimately have "txns_accepted accepts_txn s'" by (metis txns_accepted_new)
  moreover have "sp_app_state s' = sp_app_state s" using H by (elim conjE disjE) (simp_all add: same_core_def)
  ultimately show ?thesis using s' safe H by (simp add: sp_safe_def)
qed

lemma prepare_total:
  assumes safe: "sp_safe app_ok accepts_txn s" and ex: "sp_expects accepts_txn s (Deliver remote (SpPrepare m))"
  shows "\<exists>s'. HandlePrepare env s m = Inr s' \<and> sp_safe app_ok accepts_txn s'"
proof -
  have inv: "sp_inv s" and nm: "pm_opnum m \<noteq> - 1" using safe ex by (simp_all add: sp_safe_def)
  have "\<exists>s'. HandlePrepare env s m = Inr s'"
  proof (cases "sp_lastOp s < pm_opnum m")
    case True
    obtain t u where tu: "fill_gap env s m = Inr t"
      "append_entry env (t\<lparr>sp_lastOp := sp_lastOp t + 1\<rparr>) (viewstamp2 (pm_view m) (sp_lastOp t + 1)) LOG_STATE_PREPARED
         (pm_request m) (TxnData_new (pm_txnid m) (pm_type m)) = Inr u" "sp_clientTable u = sp_clientTable s"
      using prepare_pushed [OF inv True nm, of env] by blast
    moreover have "\<exists>w. UpdateClientTable u (pm_request m) = Inr w"
      using ex True tu(3) by (intro UpdateClientTable_total) (simp add: client_entry_def)
    ultimately show ?thesis using ex True by (auto simp: HandlePrepare_def Let_def)
  qed (use ex in \<open>simp add: HandlePrepare_def not_less\<close>)
  then obtain s' where s': "HandlePrepare env s m = Inr s'" by blast
  note H = HandlePrepare_Inr [OF inv nm s']
  have "txns_accepted accepts_txn s'"
  proof (cases "same_core s s'")
    case False
    then have acc: "accepted_at s m s'" using H by blast
    then have "cell s' i = cell s i \<or> cell s' i = Some filler_cell \<or> cell s' i = Some (txn_of (pm_txnid m) (pm_type m) (pm_request m))" for i
      by (simp add: accepted_at_def)
    moreover have "txns_accepted accepts_txn s" "accepts_txn (req_op (pm_request m)) (txn_arg (TxnData_new (pm_txnid m) (pm_type m)))"
      using safe ex acc by (simp_all add: sp_safe_def accepted_at_def)
    ultimately show ?thesis by (metis txns_accepted_new)
  qed (use safe in \<open>simp add: sp_safe_def same_core_def txns_accepted_def\<close>)
  moreover have "sp_app_state s' = sp_app_state s" using H by (elim conjE disjE) (simp_all add: same_core_def accepted_at_def)
  ultimately show ?thesis using s' safe H by (simp add: sp_safe_def)
qed

lemma prepare_ok_total:
  assumes safe: "sp_safe app_ok accepts_txn s" and app: "se_app env = app" and ex: "sp_expects accepts_txn s (Deliver remote (SpPrepareOK m))"
  shows "\<exists>s'. HandlePrepareOK env s m = Inr s' \<and> sp_safe app_ok accepts_txn s'"
proof -
  let ?add = "AddAndCheckForQuorum (sp_prepareOKQuorum s) (viewstamp2 (pk_view m) (pk_opnum m)) (pk_replica_num m) m"
  let ?t = "s\<lparr>sp_prepareOKQuorum := fst ?add\<rparr>"
  have inv: "sp_inv s" using safe by (simp add: sp_safe_def)
  then have "quorum_set_ok (fst ?add)" "numRequired (fst ?add) = numRequired (sp_prepareOKQuorum s)"
    by (simp_all add: sp_inv_def AddAndCheckForQuorum_def Let_def quorum_set_ok_def)
  then have "sp_inv ?t" using inv by (intro inv_updates)
  moreover have "same_core s ?t" by simp
  ultimately have safe_t: "sp_safe app_ok accepts_txn ?t" using safe by (simp add: sp_safe_def same_core_def txns_accepted_def)
  have "HandlePrepareOK env s m = (if snd ?add \<noteq> None then CommitUpTo env ?t (pk_opnum m) else Inr ?t)"
    using ex by (simp add: HandlePrepareOK_def Let_def split: prod.splits)
  then show ?thesis using CommitUpTo_total [OF safe_t app, of "pk_opnum m"] safe_t ex by (auto split: if_splits)
qed

lemma event_total:
  assumes safe: "sp_safe app_ok accepts_txn s" and app: "se_app env = app" and ex: "sp_expects accepts_txn s ev"
  shows "\<exists>s'. spanner_handle env s ev = Inr s' \<and> sp_safe app_ok accepts_txn s'"
proof (cases ev)
  case (Deliver remote msg)
  show ?thesis
  proof (cases msg)
    case (SpRequest m)
    then show ?thesis using request_total [OF safe] ex Deliver by simp
  next
    case (SpPrepare m)
    then show ?thesis using prepare_total [OF safe] ex Deliver by simp
  next
    case (SpPrepareOK m)
    then show ?thesis using prepare_ok_total [OF safe app] ex Deliver by simp
  next
    case (SpCommit m)
    then show ?thesis using CommitUpTo_total [OF safe app, of "cm_opnum m"] safe ex Deliver by (auto simp: HandleCommit_def)
  qed (use ex Deliver in simp)
next
  case ResendTimeout
  have inv: "sp_inv s" using safe by (simp add: sp_safe_def)
  have "\<exists>s'. PrepareTimeout s = Inr s'"
    using SendPrepare_spec [OF inv] inv by (auto simp: PrepareTimeout_def sp_inv_def)
  then obtain s' where s': "PrepareTimeout s = Inr s'" by blast
  from PrepareTimeout_Inr [OF inv s'] safe s' ResendTimeout show ?thesis
    by (simp add: sp_safe_def same_core_def txns_accepted_def)
qed

end

section \<open>The key-value server behind the protocol\<close>

definition kv_env :: "kv_params \<Rightarrow> (string \<Rightarrow> string) \<Rightarrow> KVTxnServer spanner_env" where
  "kv_env P h = \<lparr>se_app = kv_app P, se_sha1 = h\<rparr>"

interpretation sp_kv: total_system "spanner_handle (kv_env P h)" "sp_expects any_txn" "sp_safe (kv_retry_ok P) any_txn" for P h
proof
  have app: "se_app (kv_env P h) = kv_app P" by (simp add: kv_env_def)
  show "sp_safe (kv_retry_ok P) any_txn s'"
    if "sp_safe (kv_retry_ok P) any_txn s" "sp_expects any_txn s ev" "spanner_handle (kv_env P h) s ev = Inr s'" for s ev s'
    using kv_retry.event_total [OF that(1) app that(2)] that(3) by auto
  show "\<exists>s'. spanner_handle (kv_env P h) s ev = Inr s'"
    if "sp_safe (kv_retry_ok P) any_txn s" "sp_expects any_txn s ev" for s ev
    using kv_retry.event_total [OF that(1) app that(2)] by blast
qed

end
