(* ===== verification/SpannerGroup.thy ===== *)
theory SpannerGroup
  imports SpannerProperties
begin

text \<open>
  A group of Spanner servers exchanging their messages over a network that loses, delays, duplicates and
  reorders them: an event lets a client send a request to a server, delivers any message some server
  has ever sent, or fires a timeout.  Server 0 leads, since the protocol never leaves view 0.  The
  invariant \<open>group_inv\<close> relates every backup's log to the leader's.
\<close>

section \<open>The group\<close>

type_synonym 'a group = "int \<Rightarrow> 'a SpannerServer"

datatype group_event = ClientSends int TransportAddress RequestMessage | Delivers int nat int TransportAddress | Fires int

text \<open>\<open>Delivers j k i a\<close> hands the \<open>k\<close>th message \<open>j\<close> has sent to server \<open>i\<close>.\<close>

definition update_server :: "'a group \<Rightarrow> int \<Rightarrow> 'a SpannerServer result \<Rightarrow> 'a group result" where
  "update_server g i r = rbind r (\<lambda>s. Inr (g(i := s)))"

fun group_handle :: "'a spanner_env \<Rightarrow> 'a group \<Rightarrow> group_event \<Rightarrow> 'a group result" where
  "group_handle env g (ClientSends i a m) = update_server g i (spanner_handle env (g i) (Deliver a (SpRequest m)))"
| "group_handle env g (Delivers j k i a) =
     (case sp_outbox (g j) ! k of
        (d, OutServer m) \<Rightarrow> update_server g i (spanner_handle env (g i) (Deliver a m))
      | (d, OutClient m) \<Rightarrow> Inr g)"
| "group_handle env g (Fires i) = update_server g i (spanner_handle env (g i) ResendTimeout)"

definition reaches :: "destination \<Rightarrow> int \<Rightarrow> int \<Rightarrow> bool" where
  "reaches d j i = (case d of ReplicaDest r \<Rightarrow> r = i | AllReplicas \<Rightarrow> i \<noteq> j | AddressDest _ \<Rightarrow> False)"

fun group_ok :: "int \<Rightarrow> 'a group \<Rightarrow> group_event \<Rightarrow> bool" where
  "group_ok n g (ClientSends i _ _) = (0 \<le> i \<and> i < n \<and> sp_lastOp (g i) + 1 \<noteq> - 1)"
| "group_ok n g (Delivers j k i _) = (0 \<le> j \<and> j < n \<and> 0 \<le> i \<and> i < n \<and> k < length (sp_outbox (g j)) \<and> reaches (fst (sp_outbox (g j) ! k)) j i)"
| "group_ok n g (Fires i) = (0 \<le> i \<and> i < n)"

definition group_new :: "Configuration \<Rightarrow> int \<Rightarrow> 'a \<Rightarrow> 'a group result" where
  "group_new cfg shard a = rbind (SpannerServer_new cfg shard 0 a) (\<lambda>s. Inr (\<lambda>i. s\<lparr>sp_replicaIdx := i\<rparr>))"

section \<open>What relates a member to its leader\<close>

definition follows :: "'a SpannerServer \<Rightarrow> 'a SpannerServer \<Rightarrow> bool" where
  "follows L s \<longleftrightarrow> (\<forall>op x. cell s op = Some x \<longrightarrow> x = filler_cell \<or> cell L op = Some x) \<and>
     sp_lastOp s \<le> sp_lastOp L \<and> sp_lastCommitted s \<le> sp_lastCommitted L"

definition grows :: "'a SpannerServer \<Rightarrow> 'a SpannerServer \<Rightarrow> bool" where
  "grows L L' \<longleftrightarrow> (\<forall>op x. cell L op = Some x \<longrightarrow> cell L' op = Some x) \<and>
     sp_lastOp L \<le> sp_lastOp L' \<and> sp_lastCommitted L \<le> sp_lastCommitted L'"

fun sent_ok :: "'a SpannerServer \<Rightarrow> int \<Rightarrow> 'a SpannerServer \<Rightarrow> ToServerMessage \<Rightarrow> bool" where
  "sent_ok L i s (SpPrepare p) = (i = 0 \<and> cell L (pm_opnum p) = Some (txn_of (pm_txnid p) (pm_type p) (pm_request p)))"
| "sent_ok L i s (SpPrepareOK k) = (i \<noteq> 0 \<and> pk_replica_num k = i \<and> pk_opnum k \<le> sp_lastOp s)"
| "sent_ok L i s (SpCommit c) = (i = 0 \<and> cm_opnum c \<le> sp_lastCommitted L)"
| "sent_ok L i s (SpRequest _) = False"
| "sent_ok L i s SpNotSet = False"

definition history :: "'a txn_app \<Rightarrow> 'a \<Rightarrow> 'a SpannerServer \<Rightarrow> bool" where
  "history app a0 s \<longleftrightarrow> run_txns app (sp_log s) (sp_txnData s) a0 (op_range 1 (sp_lastCommitted s + 1)) = Inr (sp_app_state s)"

definition member_ok :: "'a txn_app \<Rightarrow> 'a \<Rightarrow> Configuration \<Rightarrow> 'a SpannerServer \<Rightarrow> int \<Rightarrow> 'a SpannerServer \<Rightarrow> bool" where
  "member_ok app a0 cfg L i s \<longleftrightarrow> sp_inv s \<and> sp_configuration s = cfg \<and> sp_replicaIdx s = i \<and> sp_view s = 0 \<and>
     follows L s \<and> (\<forall>d m. (d, m) \<in> sent s \<longrightarrow> sent_ok L i s m) \<and> history app a0 s"

text \<open>The leader's log has no fillers.\<close>

definition leader_ok :: "'a SpannerServer \<Rightarrow> bool" where
  "leader_ok L \<longleftrightarrow> (\<forall>op x. cell L op = Some x \<longrightarrow> (\<exists>t ty r. x = txn_of t ty r))"

text \<open>The votes the leader counts come from backups that have got that far; so have enough backups for
  what the leader has committed.\<close>

definition voters :: "'a SpannerServer \<Rightarrow> viewstamp_t \<Rightarrow> int set" where
  "voters s vs = fst ` set (GetMessages (sp_prepareOKQuorum s) vs)"

definition votes_ok :: "int \<Rightarrow> 'a group \<Rightarrow> bool" where
  "votes_ok n g \<longleftrightarrow> (\<forall>vs r. r \<in> voters (g 0) vs \<longrightarrow> 0 < r \<and> r < n \<and> vs_opnum vs \<le> sp_lastOp (g r))"

definition majority :: "int \<Rightarrow> 'a group \<Rightarrow> u64 \<Rightarrow> bool" where
  "majority n g k \<longleftrightarrow> (\<exists>Q. Q \<subseteq> {0<..<n} \<and> QuorumSize (sp_configuration (g 0)) - 1 \<le> int (card Q) \<and> (\<forall>r\<in>Q. k \<le> sp_lastOp (g r)))"

definition group_inv :: "'a txn_app \<Rightarrow> 'a \<Rightarrow> Configuration \<Rightarrow> 'a group \<Rightarrow> bool" where
  "group_inv app a0 cfg g \<longleftrightarrow> (\<forall>i. 0 \<le> i \<and> i < cfg_n cfg \<longrightarrow> member_ok app a0 cfg (g 0) i (g i)) \<and> leader_ok (g 0) \<and>
     votes_ok (cfg_n cfg) g \<and> (sp_lastCommitted (g 0) \<noteq> 0 \<longrightarrow> majority (cfg_n cfg) g (sp_lastCommitted (g 0)))"

section \<open>Histories\<close>

lemma op_range_split:
  assumes "a \<le> b" and "b \<le> c"
  shows "op_range a c = op_range a b @ op_range b c"
proof -
  have "[unat a..<unat c] = [unat a..<unat b] @ [unat b..<unat c]"
    using assms by (metis le_Suc_ex upt_add_eq_append word_le_nat_alt)
  then show ?thesis by (simp add: op_range_def)
qed

lemma history_same:
  assumes inv: "sp_inv s" and h: "history app a0 s" and same: "sp_lastCommitted s' = sp_lastCommitted s" "sp_app_state s' = sp_app_state s"
    and cells: "\<And>op x. cell s op = Some x \<Longrightarrow> cell s' op = Some x"
  shows "history app a0 s'"
proof -
  have le: "sp_lastCommitted s \<le> sp_lastOp s" and nm: "sp_lastOp s \<noteq> - 1" using inv by (simp_all add: sp_inv_def sp_log_inv_def)
  have "cell s op = cell s' op \<and> cell s op \<noteq> None" if "op \<in> set (op_range 1 (sp_lastCommitted s + 1))" for op
  proof -
    have "1 \<le> op" using that by simp
    moreover have "unat op \<le> unat (sp_lastCommitted s)"
      using that le nm unat_next [of "sp_lastCommitted s"] unfolding u64_not_max word_le_nat_alt by (auto simp: word_less_nat_alt)
    ultimately have "cell s op \<noteq> None" using cell_dom [OF inv] le by (simp add: word_le_nat_alt)
    then show ?thesis using cells by fastforce
  qed
  then have "run_txns app (sp_log s) (sp_txnData s) a0 (op_range 1 (sp_lastCommitted s + 1)) =
      run_txns app (sp_log s') (sp_txnData s') a0 (op_range 1 (sp_lastCommitted s + 1))" by (rule run_txns_cell)
  then show ?thesis using h same by (simp add: history_def)
qed

lemma history_executed:
  assumes inv: "sp_inv s" and h: "history app a0 s" and ex: "executed_to app s k s'"
  shows "history app a0 s'"
proof (cases "sp_lastCommitted s < k")
  case True
  have k: "k \<le> sp_lastOp s" "sp_lastOp s \<noteq> - 1" using ex inv by (simp_all add: executed_to_def sp_inv_def sp_log_inv_def)
  then have nm: "k \<noteq> - 1" unfolding u64_not_max word_le_nat_alt by simp
  have c: "sp_lastCommitted s' = k" using ex True by (simp add: executed_to_def max.absorb2)
  have "1 \<le> sp_lastCommitted s + 1" "sp_lastCommitted s + 1 \<le> k + 1"
    using unat_Suc_less [OF True] unat_next [OF nm] True by (simp_all add: word_le_nat_alt word_less_nat_alt)
  from op_range_split [OF this]
  have "run_txns app (sp_log s) (sp_txnData s) a0 (op_range 1 (k + 1)) = Inr (sp_app_state s')"
    using h ex by (simp add: history_def executed_to_def run_txns_def)
  moreover have "run_txns app (sp_log s) (sp_txnData s) a0 (op_range 1 (k + 1)) = run_txns app (sp_log s') (sp_txnData s') a0 (op_range 1 (k + 1))"
  proof (rule run_txns_cell)
    fix op
    assume "op \<in> set (op_range 1 (k + 1))"
    then have "1 \<le> op" "op \<le> sp_lastOp s" using k unat_next [OF nm] by (auto simp: word_le_nat_alt word_less_nat_alt)
    then show "cell s op = cell s' op \<and> cell s op \<noteq> None" using cell_dom [OF inv] ex by (simp add: executed_to_def)
  qed
  ultimately show ?thesis by (simp add: history_def c)
next
  case False
  have "op_range (sp_lastCommitted s + 1) (k + 1) = []"
  proof -
    have "sp_lastCommitted s \<noteq> - 1" using inv unfolding sp_inv_def sp_log_inv_def u64_not_max word_le_nat_alt by simp
    moreover have "k \<noteq> - 1" using False calculation unfolding u64_not_max word_less_nat_alt by simp
    ultimately show ?thesis using False unat_next by (auto simp: op_range_def word_less_nat_alt)
  qed
  then show ?thesis
    using history_same [OF inv h, of s'] ex False by (simp add: executed_to_def run_txns_def max_def)
qed

section \<open>Steps of a backup\<close>

lemma follows_grows: "\<lbrakk> follows L s; grows L L' \<rbrakk> \<Longrightarrow> follows L' s"
  unfolding follows_def grows_def by fastforce

lemma sent_ok_grows: "\<lbrakk> sent_ok L i s m; grows L L'; sp_lastOp s \<le> sp_lastOp s' \<rbrakk> \<Longrightarrow> sent_ok L' i s' m"
  by (cases m) (auto simp: grows_def txn_of_def)

lemma grows_refl [simp]: "grows L L"
  by (simp add: grows_def)

lemma member_grows: "\<lbrakk> member_ok app a0 cfg L i s; grows L L' \<rbrakk> \<Longrightarrow> member_ok app a0 cfg L' i s"
  unfolding member_ok_def using follows_grows sent_ok_grows by blast

lemma member_leader:
  assumes "member_ok app a0 cfg L i s" and "0 \<le> i" and "i < cfg_n cfg"
  shows "AmLeader s \<longleftrightarrow> i = 0" "leader_of s = 0"
  using assms by (auto simp: member_ok_def AmLeader_def leader_of_def GetLeaderIndex_def)

lemma member_step:
  assumes mem: "member_ok app a0 cfg L i s" and L: "grows L L'" and inv: "sp_inv s'" and id: "identity s' = identity s"
    and foll: "follows L' s'" and hist: "history app a0 s'" and le: "sp_lastOp s \<le> sp_lastOp s'"
    and new: "\<And>d m. \<lbrakk> (d, m) \<in> sent s'; (d, m) \<notin> sent s \<rbrakk> \<Longrightarrow> sent_ok L' i s' m"
  shows "member_ok app a0 cfg L' i s'"
proof -
  have "sent_ok L' i s' m" if "(d, m) \<in> sent s'" for d m
    using that new mem sent_ok_grows [OF _ L le] unfolding member_ok_def by blast
  then show ?thesis using mem inv foll hist identityD [OF id] unfolding member_ok_def by simp
qed

lemma follows_same_core: "\<lbrakk> follows L s; same_core s s' \<rbrakk> \<Longrightarrow> follows L s'"
  by (simp add: follows_def same_core_def)

lemma history_same_core: "\<lbrakk> sp_inv s; history app a0 s; same_core s s' \<rbrakk> \<Longrightarrow> history app a0 s'"
  by (rule history_same) (simp_all add: same_core_def)

lemma member_same_core:
  assumes "member_ok app a0 cfg L i s" and "sp_inv s'" and "same_core s s'"
    and "\<And>d m. \<lbrakk> (d, m) \<in> sent s'; (d, m) \<notin> sent s \<rbrakk> \<Longrightarrow> sent_ok L i s' m"
  shows "member_ok app a0 cfg L i s'"
  using assms(1) grows_refl assms(2)
proof (rule member_step)
  show "follows L s'" using assms(1) by (intro follows_same_core [OF _ assms(3)]) (simp add: member_ok_def)
  show "history app a0 s'" using assms(1) by (intro history_same_core [OF _ _ assms(3)]) (simp_all add: member_ok_def)
qed (use assms(3,4) in \<open>simp_all add: same_core_def\<close>)

lemma prepare_step:
  assumes mem: "member_ok app a0 cfg L i s" and i: "i \<noteq> 0" and L: "sp_inv L"
    and msg: "cell L (pm_opnum p) = Some (txn_of (pm_txnid p) (pm_type p) (pm_request p))"
    and run: "HandlePrepare env s p = Inr s'"
  shows "member_ok app a0 cfg L i s' \<and> sp_lastOp s \<le> sp_lastOp s'"
proof -
  have inv: "sp_inv s" and idx: "sp_replicaIdx s = i" using mem by (simp_all add: member_ok_def)
  have "cell L (pm_opnum p) \<noteq> None" using msg by simp
  then have dom: "1 \<le> pm_opnum p" "pm_opnum p \<le> sp_lastOp L" unfolding cell_dom [OF L] by simp_all
  have "sp_lastOp L \<noteq> - 1" using L by (simp add: sp_inv_def sp_log_inv_def)
  then have nm: "pm_opnum p \<noteq> - 1" using dom(2) unfolding u64_not_max word_le_nat_alt by simp
  note H = HandlePrepare_Inr [OF inv nm run]
  have new: "\<exists>k. m = SpPrepareOK k \<and> pk_replica_num k = i \<and> pk_opnum k = pm_opnum p" if "(d, m) \<in> sent s'" "(d, m) \<notin> sent s" for d m
    using that H idx by auto
  show ?thesis
  proof (cases "accepted_at s p s'")
    case True
    have "follows L s'"
      using mem msg True dom(2) unfolding member_ok_def follows_def accepted_at_def by auto
    moreover have "history app a0 s'"
    proof (rule history_same [OF inv])
      show "history app a0 s" using mem by (simp add: member_ok_def)
      show "cell s' op = Some x" if "cell s op = Some x" for op x
        using that True cell_dom [OF inv, of op] by (auto simp: accepted_at_def)
    qed (use True in \<open>simp_all add: accepted_at_def\<close>)
    ultimately show ?thesis
      using True H new i by (intro conjI member_step [OF mem grows_refl]) (fastforce simp: accepted_at_def)+
  next
    case False
    then have "same_core s s'" "pm_opnum p \<le> sp_lastOp s" using H by blast+
    then show ?thesis
      using H new i by (intro conjI member_same_core [OF mem]) (fastforce simp: same_core_def)+
  qed
qed

lemma commit_step:
  assumes mem: "member_ok app a0 cfg L i s" and app: "se_app env = app" and msg: "cm_opnum c \<le> sp_lastCommitted L"
    and run: "HandleCommit env s c = Inr s'"
  shows "member_ok app a0 cfg L i s' \<and> sp_lastOp s \<le> sp_lastOp s'"
proof -
  have inv: "sp_inv s" using mem by (simp add: member_ok_def)
  note H = HandleCommit_Inr [OF inv run]
  show ?thesis
  proof (cases "same_core s s'")
    case True
    then show ?thesis using H by (intro conjI member_same_core [OF mem]) (auto simp: same_core_def)
  next
    case False
    then have ex: "executed_to app s (cm_opnum c) s'" using H app by blast
    have "history app a0 s'" using mem by (intro history_executed [OF inv _ ex]) (simp add: member_ok_def)
    moreover have "follows L s'" using mem ex msg by (auto simp: follows_def member_ok_def executed_to_def max_def)
    ultimately show ?thesis
      using H ex by (intro conjI member_step [OF mem grows_refl]) (auto simp: executed_to_def)
  qed
qed

section \<open>Steps of the leader\<close>

text \<open>What a step of the leader does: its log grows, and it commits only what enough votes cover.\<close>

definition leader_step :: "'a txn_app \<Rightarrow> 'a \<Rightarrow> Configuration \<Rightarrow> 'a SpannerServer \<Rightarrow> 'a SpannerServer \<Rightarrow> bool" where
  "leader_step app a0 cfg L L' \<longleftrightarrow> grows L L' \<and> leader_ok L' \<and> member_ok app a0 cfg L' 0 L'"

lemma follows_self: "follows L L"
  by (simp add: follows_def)

lemma prepare_for_sent:
  assumes "leader_ok L" and "prepare_for L op p"
  shows "sent_ok L 0 L (SpPrepare p)"
proof -
  obtain b td where c: "cell L op = Some (b, pm_request p, td)" "pm_opnum p = op" "td_txnid td = pm_txnid p" "td_type td = pm_type p"
    using assms(2) unfolding prepare_for_def by blast
  then obtain t ty r where "(b, pm_request p, td) = txn_of t ty r" using assms(1) unfolding leader_ok_def by blast
  then show ?thesis using c by (simp add: txn_of_def TxnData_new_def)
qed

lemma leader_same_core:
  assumes mem: "member_ok app a0 cfg L 0 L" and lead: "leader_ok L" and inv: "sp_inv L'" and core: "same_core L L'"
    and new: "\<And>d m. \<lbrakk> (d, m) \<in> sent L'; (d, m) \<notin> sent L \<rbrakk> \<Longrightarrow> sent_ok L' 0 L' m"
  shows "leader_step app a0 cfg L L'"
proof -
  have g: "grows L L'" using core by (simp add: grows_def same_core_def)
  have "history app a0 L'" using mem by (intro history_same_core [OF _ _ core]) (simp_all add: member_ok_def)
  then have "member_ok app a0 cfg L' 0 L'"
    using core new by (intro member_step [OF mem g inv _ follows_self]) (simp_all add: same_core_def)
  then show ?thesis using g lead core by (simp add: leader_step_def leader_ok_def same_core_def)
qed

lemma request_step:
  assumes mem: "member_ok app a0 cfg L 0 L" and lead: "leader_ok L" and nm: "sp_lastOp L + 1 \<noteq> - 1"
    and run: "HandleClientRequest env L a m = Inr L'"
  shows "leader_step app a0 cfg L L' \<and> sp_prepareOKQuorum L' = sp_prepareOKQuorum L \<and> sp_lastCommitted L' = sp_lastCommitted L"
proof -
  have inv: "sp_inv L" using mem by (simp add: member_ok_def)
  note H = HandleClientRequest_Inr [OF inv nm run]
  show ?thesis
  proof (cases "same_core L L' \<and> sent L' = sent L")
    case True
    then show ?thesis using H by (intro conjI leader_same_core [OF mem lead]) (simp_all add: same_core_def)
  next
    case False
    let ?op = "sp_lastOp L + 1"
    from H False obtain p where ap: "identity L' = identity L" "sp_lastOp L' = ?op" "sp_lastCommitted L' = sp_lastCommitted L"
      "sp_app_state L' = sp_app_state L" "cell L' = (cell L)(?op \<mapsto> txn_of (rq_txnid m) (rq_type m) (rq_request m))"
      "prepare_for L' ?op p" "sent L' = insert (AllReplicas, SpPrepare p) (sent L)" by blast
    have un: "unat ?op = Suc (unat (sp_lastOp L))" using inv by (intro unat_next) (simp add: sp_inv_def sp_log_inv_def)
    have "\<not> ?op \<le> sp_lastOp L" using un by (simp add: word_le_nat_alt)
    then have "cell L ?op = None" using cell_dom [OF inv, of ?op] by blast
    then have keep: "cell L' op = Some x" if "cell L op = Some x" for op x using that ap(5) by auto
    have g: "grows L L'" using keep ap un by (simp add: grows_def word_le_nat_alt)
    have lead': "leader_ok L'"
      unfolding leader_ok_def
    proof (intro allI impI)
      fix op x
      assume "cell L' op = Some x"
      then show "\<exists>t ty r. x = txn_of t ty r"
        using ap(5) lead [unfolded leader_ok_def, rule_format, of op x] by (cases "op = ?op") auto
    qed
    have "history app a0 L" using mem by (simp add: member_ok_def)
    then have "history app a0 L'" using ap(3,4) keep by (rule history_same [OF inv])
    moreover have "sent_ok L' 0 L' m'" if "(d, m') \<in> sent L'" "(d, m') \<notin> sent L" for d m'
      using that ap(7) prepare_for_sent [OF lead' ap(6)] by auto
    ultimately have "member_ok app a0 cfg L' 0 L'"
      using H ap g by (intro member_step [OF mem g _ _ follows_self]) (simp_all add: grows_def)
    then show ?thesis using g lead' H ap(3) by (simp add: leader_step_def)
  qed
qed

lemma vote_step:
  assumes mem: "member_ok app a0 cfg L 0 L" and lead: "leader_ok L" and app: "se_app env = app"
    and nm: "pk_opnum k \<le> sp_lastOp L" and run: "HandlePrepareOK env L k = Inr L'"
    and vs: "vs = viewstamp2 (pk_view k) (pk_opnum k)" and q: "q = AddAndCheckForQuorum (sp_prepareOKQuorum L) vs (pk_replica_num k) k"
  shows "leader_step app a0 cfg L L' \<and> sp_prepareOKQuorum L' = fst q \<and>
     (sp_lastCommitted L' = sp_lastCommitted L \<or> snd q \<noteq> None \<and> sp_lastCommitted L' = pk_opnum k)"
proof -
  have inv: "sp_inv L" using mem by (simp add: member_ok_def)
  have "sp_lastOp L \<noteq> - 1" using inv by (simp add: sp_inv_def sp_log_inv_def)
  then have "pk_opnum k \<noteq> - 1" using nm unfolding u64_not_max word_le_nat_alt by simp
  note H = HandlePrepareOK_Inr [OF inv this run vs, folded q]
  show ?thesis
  proof (cases "snd q = None")
    case True
    then have "same_core L L'" "sent L' = sent L" using H by simp_all
    then show ?thesis using H by (intro conjI leader_same_core [OF mem lead]) (simp_all add: same_core_def)
  next
    case False
    then have ex: "executed_to app L (pk_opnum k) L'"
      and snt: "sent L' = (if sp_lastCommitted L < pk_opnum k
                   then insert (AllReplicas, SpCommit \<lparr>cm_view = sp_view L, cm_opnum = pk_opnum k\<rparr>) (sent L) else sent L)"
      using H app by simp_all
    have c: "sp_lastCommitted L' = max (sp_lastCommitted L) (pk_opnum k)" using ex by (simp add: executed_to_def)
    have g: "grows L L'" using ex by (simp add: grows_def executed_to_def)
    have "history app a0 L'" using mem by (intro history_executed [OF inv _ ex]) (simp add: member_ok_def)
    moreover have "sent_ok L' 0 L' m" if "(d, m) \<in> sent L'" "(d, m) \<notin> sent L" for d m
      using that snt c by (auto split: if_splits)
    ultimately have "member_ok app a0 cfg L' 0 L'"
      using H ex g by (intro member_step [OF mem g _ _ follows_self]) (simp_all add: executed_to_def)
    moreover have "leader_ok L'" using lead ex by (simp add: leader_ok_def executed_to_def)
    moreover have "sp_lastCommitted L' = sp_lastCommitted L \<or> sp_lastCommitted L' = pk_opnum k" using c by (auto simp: max_def)
    ultimately show ?thesis using g H False by (auto simp: leader_step_def)
  qed
qed

lemma timeout_step:
  assumes mem: "member_ok app a0 cfg L 0 L" and lead: "leader_ok L" and run: "PrepareTimeout L = Inr L'"
  shows "leader_step app a0 cfg L L' \<and> sp_prepareOKQuorum L' = sp_prepareOKQuorum L \<and> sp_lastCommitted L' = sp_lastCommitted L"
proof -
  have inv: "sp_inv L" using mem by (simp add: member_ok_def)
  note H = PrepareTimeout_Inr [OF inv run]
  have lead': "leader_ok L'" using lead H by (simp add: leader_ok_def same_core_def)
  have "sent_ok L' 0 L' m" if "(d, m) \<in> sent L'" "(d, m) \<notin> sent L" for d m
  proof -
    from that H obtain p where "prepare_for L (sp_lastOp L) p" "m = SpPrepare p" by auto
    moreover have "prepare_for L' (sp_lastOp L) p = prepare_for L (sp_lastOp L) p" for p using H by (simp add: prepare_for_def same_core_def)
    ultimately show ?thesis using prepare_for_sent [OF lead'] by blast
  qed
  then show ?thesis using H by (intro conjI leader_same_core [OF mem lead]) (auto simp: same_core_def)
qed

section \<open>The invariant of the group\<close>

lemma group_invD:
  assumes "group_inv app a0 cfg g" and "0 \<le> i" and "i < cfg_n cfg"
  shows "member_ok app a0 cfg (g 0) i (g i)" "member_ok app a0 cfg (g 0) 0 (g 0)" "leader_ok (g 0)" "votes_ok (cfg_n cfg) g"
    "sp_lastCommitted (g 0) \<noteq> 0 \<Longrightarrow> majority (cfg_n cfg) g (sp_lastCommitted (g 0))"
  using assms unfolding group_inv_def by (auto simp del: One_nat_def)

lemma backup_preserves:
  assumes inv: "group_inv app a0 cfg g" and i: "0 \<le> i" "i < cfg_n cfg" "i \<noteq> 0"
    and mem: "member_ok app a0 cfg (g 0) i s'" and le: "sp_lastOp (g i) \<le> sp_lastOp s'"
  shows "group_inv app a0 cfg (g(i := s'))"
proof -
  note I = group_invD [OF inv i(1,2)]
  have up: "sp_lastOp (g r) \<le> sp_lastOp ((g(i := s')) r)" for r using le by simp
  have "votes_ok (cfg_n cfg) (g(i := s'))"
    unfolding votes_ok_def
  proof (intro allI impI)
    fix vs r
    assume "r \<in> voters ((g(i := s')) 0) vs"
    then have "r \<in> voters (g 0) vs" using i(3) by simp
    then have "0 < r \<and> r < cfg_n cfg \<and> vs_opnum vs \<le> sp_lastOp (g r)" using I(4) unfolding votes_ok_def by blast
    then show "0 < r \<and> r < cfg_n cfg \<and> vs_opnum vs \<le> sp_lastOp ((g(i := s')) r)" using up [of r] by auto
  qed
  moreover have "majority (cfg_n cfg) (g(i := s')) k" if maj: "majority (cfg_n cfg) g k" for k
  proof -
    obtain Q where Q: "Q \<subseteq> {0<..<cfg_n cfg}" "QuorumSize (sp_configuration (g 0)) - 1 \<le> int (card Q)" "\<forall>r\<in>Q. k \<le> sp_lastOp (g r)"
      using maj unfolding majority_def by blast
    moreover have "k \<le> sp_lastOp ((g(i := s')) r)" if "r \<in> Q" for r by (rule order_trans [OF Q(3) [rule_format, OF that] up])
    moreover have "(g(i := s')) 0 = g 0" using i(3) by simp
    ultimately show ?thesis unfolding majority_def by (metis (no_types, lifting))
  qed
  ultimately show ?thesis using inv I i(3) mem unfolding group_inv_def by simp
qed

lemma leader_preserves:
  assumes inv: "group_inv app a0 cfg g" and n: "0 < cfg_n cfg" and step: "leader_step app a0 cfg (g 0) L'"
    and votes: "votes_ok (cfg_n cfg) (g(0 := L'))"
    and maj: "sp_lastCommitted L' = sp_lastCommitted (g 0) \<or> majority (cfg_n cfg) (g(0 := L')) (sp_lastCommitted L')"
  shows "group_inv app a0 cfg (g(0 := L'))"
proof -
  have g: "grows (g 0) L'" and lead: "leader_ok L'" and mem: "member_ok app a0 cfg L' 0 L'"
    using step by (simp_all add: leader_step_def)
  have I: "member_ok app a0 cfg (g 0) 0 (g 0)" using group_invD(2) [OF inv order_refl n] .
  have "member_ok app a0 cfg L' i ((g(0 := L')) i)" if "0 \<le> i" "i < cfg_n cfg" for i
    using member_grows [OF group_invD(1) [OF inv that] g] mem by simp
  moreover have "majority (cfg_n cfg) (g(0 := L')) (sp_lastCommitted L')" if "sp_lastCommitted L' \<noteq> 0"
  proof (cases "sp_lastCommitted L' = sp_lastCommitted (g 0)")
    case True
    then have "majority (cfg_n cfg) g (sp_lastCommitted L')" using group_invD(5) [OF inv order_refl n] that by simp
    then obtain Q where "Q \<subseteq> {0<..<cfg_n cfg}" "QuorumSize (sp_configuration (g 0)) - 1 \<le> int (card Q)" "\<forall>r\<in>Q. sp_lastCommitted L' \<le> sp_lastOp (g r)"
      unfolding majority_def by blast
    moreover have "sp_configuration L' = sp_configuration (g 0)" using I mem by (simp add: member_ok_def)
    ultimately show ?thesis unfolding majority_def by (intro exI [of _ Q]) auto
  qed (use maj in blast)
  ultimately show ?thesis using lead votes unfolding group_inv_def by simp
qed

lemma votes_unchanged:
  assumes "votes_ok n g" and "sp_prepareOKQuorum L' = sp_prepareOKQuorum (g 0)"
  shows "votes_ok n (g(0 := L'))"
  unfolding votes_ok_def
proof (intro allI impI)
  fix vs r
  assume "r \<in> voters ((g(0 := L')) 0) vs"
  then have "r \<in> voters (g 0) vs" using assms(2) by (simp add: voters_def)
  then have "0 < r \<and> r < n \<and> vs_opnum vs \<le> sp_lastOp (g r)" using assms(1) unfolding votes_ok_def by blast
  then show "0 < r \<and> r < n \<and> vs_opnum vs \<le> sp_lastOp ((g(0 := L')) r)" by auto
qed

lemma vote_preserves:
  assumes inv: "group_inv app a0 cfg g" and app: "se_app env = app" and r: "0 < r" "r < cfg_n cfg"
    and msg: "sent_ok (g 0) r (g r) (SpPrepareOK k)" and run: "HandlePrepareOK env (g 0) k = Inr L'"
  shows "group_inv app a0 cfg (g(0 := L'))"
proof -
  have n: "0 < cfg_n cfg" using r by simp
  note I = group_invD [OF inv order_refl n]
  have k: "pk_replica_num k = r" "pk_opnum k \<le> sp_lastOp (g r)" using msg by simp_all
  have mr: "member_ok app a0 cfg (g 0) r (g r)" using group_invD(1) [OF inv _ r(2)] r(1) by simp
  then have "pk_opnum k \<le> sp_lastOp (g 0)" using k(2) by (auto simp: member_ok_def follows_def)
  define vs where "vs = viewstamp2 (pk_view k) (pk_opnum k)"
  define q where "q = AddAndCheckForQuorum (sp_prepareOKQuorum (g 0)) vs r k"
  from vote_step [OF I(2,3) app \<open>pk_opnum k \<le> sp_lastOp (g 0)\<close> run vs_def] k(1) q_def
  have V: "leader_step app a0 cfg (g 0) L'" "sp_prepareOKQuorum L' = fst q"
     "sp_lastCommitted L' = sp_lastCommitted (g 0) \<or> snd q \<noteq> None \<and> sp_lastCommitted L' = pk_opnum k" by blast+
  have voters: "voters L' v = (if v = vs then insert r (voters (g 0) v) else voters (g 0) v)" for v
    unfolding voters_def V(2) q_def by (simp add: GetMessages_def AddAndCheckForQuorum_messages)
  have vop: "vs_opnum vs = pk_opnum k" by (simp add: vs_def viewstamp2_def)
  have votes: "votes_ok (cfg_n cfg) (g(0 := L'))"
    unfolding votes_ok_def
  proof (intro allI impI)
    fix v x
    assume "x \<in> voters ((g(0 := L')) 0) v"
    then consider "x \<in> voters (g 0) v" | "v = vs" "x = r" using voters [of v] by (auto split: if_splits)
    then have "0 < x \<and> x < cfg_n cfg \<and> vs_opnum v \<le> sp_lastOp (g x)"
    proof cases
      case 1
      then show ?thesis using I(4) unfolding votes_ok_def by blast
    next
      case 2
      then show ?thesis using r k(2) vop by simp
    qed
    then show "0 < x \<and> x < cfg_n cfg \<and> vs_opnum v \<le> sp_lastOp ((g(0 := L')) x)" by auto
  qed
  have "majority (cfg_n cfg) (g(0 := L')) (pk_opnum k)" if "snd q \<noteq> None"
  proof -
    let ?Q = "insert r (voters (g 0) vs)"
    have "sp_inv (g 0)" using I(2) by (simp add: member_ok_def)
    then have "quorum_set_ok (sp_prepareOKQuorum (g 0))" "numRequired (sp_prepareOKQuorum (g 0)) = QuorumSize (sp_configuration (g 0)) - 1"
      by (simp_all add: sp_inv_def)
    then have "QuorumSize (sp_configuration (g 0)) - 1 \<le> int (card ?Q)"
      using quorum_add_card that unfolding q_def voters_def by metis
    moreover have "0 < x \<and> x < cfg_n cfg \<and> pk_opnum k \<le> sp_lastOp (g x)" if "x \<in> ?Q" for x
      using that I(4) [unfolded votes_ok_def, rule_format, of x vs] r k(2) vop by auto
    moreover have "sp_configuration L' = sp_configuration (g 0)" using V(1) I(2) by (simp add: leader_step_def member_ok_def)
    ultimately show ?thesis unfolding majority_def by (intro exI [of _ ?Q]) fastforce
  qed
  then show ?thesis using leader_preserves [OF inv n V(1) votes] V(3) by metis
qed

lemma backup_event:
  assumes inv: "group_inv app a0 cfg g" and app: "se_app env = app" and i: "0 \<le> i" "i < cfg_n cfg" "i \<noteq> 0"
    and frm: "0 \<le> j" "j < cfg_n cfg" "sent_ok (g 0) j (g j) m" and run: "ReceiveMessage env (g i) a m = Inr s'"
  shows "group_inv app a0 cfg (g(i := s'))"
proof -
  note I = group_invD [OF inv i(1,2)]
  have L: "sp_inv (g 0)" using I(2) by (simp add: member_ok_def)
  have "\<not> AmLeader (g i)" using member_leader(1) [OF I(1) i(1,2)] i(3) by simp
  then have "member_ok app a0 cfg (g 0) i s' \<and> sp_lastOp (g i) \<le> sp_lastOp s'"
  proof (cases m)
    case (SpPrepare p)
    then show ?thesis using prepare_step [OF I(1) i(3) L, of p env] frm(3) run by simp
  next
    case (SpCommit c)
    then show ?thesis using commit_step [OF I(1) app, of c] frm(3) run by simp
  qed (use frm run \<open>\<not> AmLeader (g i)\<close> in \<open>simp_all add: HandlePrepareOK_def\<close>)
  then show ?thesis using backup_preserves [OF inv i] by blast
qed

lemma backup_quiet:
  assumes inv: "group_inv app a0 cfg g" and i: "0 \<le> i" "i < cfg_n cfg" "i \<noteq> 0"
    and new: "sp_inv s'" "same_core (g i) s'" "sent s' = sent (g i)"
  shows "group_inv app a0 cfg (g(i := s'))"
  using member_same_core [OF group_invD(1) [OF inv i(1,2)] new(1,2)] new(2,3) backup_preserves [OF inv i]
  by (simp add: same_core_def)

lemma leader_event:
  assumes inv: "group_inv app a0 cfg g" and app: "se_app env = app" and n: "0 < cfg_n cfg"
    and frm: "0 \<le> j" "j < cfg_n cfg" "sent_ok (g 0) j (g j) m" and run: "ReceiveMessage env (g 0) a m = Inr s'"
  shows "group_inv app a0 cfg (g(0 := s'))"
proof -
  have "AmLeader (g 0)" using member_leader(1) [OF group_invD(2) [OF inv order_refl n]] n by simp
  then show ?thesis
  proof (cases m)
    case (SpPrepareOK k)
    then have "0 < j" using frm by simp
    then show ?thesis using vote_preserves [OF inv app _ frm(2), of k] frm(3) run SpPrepareOK by simp
  qed (use frm run \<open>AmLeader (g 0)\<close> in \<open>simp_all add: HandlePrepare_def HandleCommit_def\<close>)
qed

lemma leader_quiet:
  assumes inv: "group_inv app a0 cfg g" and n: "0 < cfg_n cfg"
    and step: "leader_step app a0 cfg (g 0) L' \<and> sp_prepareOKQuorum L' = sp_prepareOKQuorum (g 0) \<and> sp_lastCommitted L' = sp_lastCommitted (g 0)"
  shows "group_inv app a0 cfg (g(0 := L'))"
  using leader_preserves [OF inv n] votes_unchanged [OF group_invD(4) [OF inv order_refl n]] step by blast

lemma group_step_inv:
  assumes inv: "group_inv app a0 cfg g" and app: "se_app env = app" and ok: "group_ok (cfg_n cfg) g ev" and run: "group_handle env g ev = Inr g'"
  shows "group_inv app a0 cfg g'"
proof (cases ev)
  case (ClientSends i a m)
  then have i: "0 \<le> i" "i < cfg_n cfg" "sp_lastOp (g i) + 1 \<noteq> - 1" using ok by simp_all
  obtain s' where s': "HandleClientRequest env (g i) a m = Inr s'" "g' = g(i := s')" using run ClientSends by (auto simp: update_server_def)
  note I = group_invD [OF inv i(1,2)]
  show ?thesis
  proof (cases "i = 0")
    case True
    then show ?thesis using request_step [OF I(2,3), of env a m s'] i s' leader_quiet [OF inv] by simp
  next
    case False
    have "sp_inv (g i)" using I(1) by (simp add: member_ok_def)
    moreover have "\<not> AmLeader (g i)" using member_leader(1) [OF I(1) i(1,2)] False by simp
    ultimately have "sp_inv s'" "same_core (g i) s'" "sent s' = sent (g i)" using HandleClientRequest_Inr [OF _ i(3) s'(1)] by blast+
    then show ?thesis using backup_quiet [OF inv i(1,2) False] s'(2) by simp
  qed
next
  case (Delivers j k i a)
  then have j: "0 \<le> j" "j < cfg_n cfg" and i: "0 \<le> i" "i < cfg_n cfg" and k: "k < length (sp_outbox (g j))" using ok by simp_all
  obtain d x where dx: "sp_outbox (g j) ! k = (d, x)" by (cases "sp_outbox (g j) ! k")
  show ?thesis
  proof (cases x)
    case (OutServer m)
    then have "(d, m) \<in> sent (g j)" using dx nth_mem [OF k] by (simp add: sent_def)
    then have frm: "sent_ok (g 0) j (g j) m" using group_invD(1) [OF inv j] by (auto simp: member_ok_def)
    obtain s' where s': "ReceiveMessage env (g i) a m = Inr s'" "g' = g(i := s')" using run Delivers dx OutServer by (auto simp: update_server_def)
    show ?thesis
    proof (cases "i = 0")
      case True
      then show ?thesis using leader_event [OF inv app _ j frm] s' i by simp
    next
      case False
      then show ?thesis using backup_event [OF inv app i False j frm s'(1)] s'(2) by simp
    qed
  next
    case (OutClient m)
    then show ?thesis using run Delivers dx inv by simp
  qed
next
  case (Fires i)
  then have i: "0 \<le> i" "i < cfg_n cfg" using ok by simp_all
  obtain s' where s': "PrepareTimeout (g i) = Inr s'" "g' = g(i := s')" using run Fires by (auto simp: update_server_def)
  note I = group_invD [OF inv i]
  show ?thesis
  proof (cases "i = 0")
    case True
    then show ?thesis using timeout_step [OF I(2,3), of s'] i s' leader_quiet [OF inv] by simp
  next
    case False
    have "sp_inv (g i)" using I(1) by (simp add: member_ok_def)
    moreover have "\<not> AmLeader (g i)" using member_leader(1) [OF I(1) i] False by simp
    ultimately have "sp_inv s'" "same_core (g i) s'" "sent s' = sent (g i)" using PrepareTimeout_Inr [OF _ s'(1)] by blast+
    then show ?thesis using backup_quiet [OF inv i False] s'(2) by simp
  qed
qed

interpretation sp_group: handler_system "group_handle env" "group_ok (cfg_n cfg)" "group_inv (se_app env) a0 cfg" for env cfg a0
  by unfold_locales (rule group_step_inv [OF _ refl])

section \<open>Agreement\<close>

lemma sp_inv_new:
  assumes "SpannerServer_new cfg shard idx a = Inr s"
  shows "sp_inv s" "cell s = Map.empty" "sp_lastCommitted s = 0" "sp_app_state s = a" "sent s = {}"
    "sp_configuration s = cfg" "sp_replicaIdx s = idx" "sp_view s = 0" "sp_lastOp s = 0"
    "sp_prepareOKQuorum s = QuorumSet_new (QuorumSize cfg - 1)"
proof -
  obtain l where l: "Log_new False 1 EMPTY_HASH = Inr l" using assms by (auto simp: SpannerServer_new_def)
  have e: "entries l = []" "start l = 1" "useHash l = False" "log_wf l"
    using l log_wf_new [OF order_refl l] by (auto simp: Log_new_def)
  then have at: "log_at l = Map.empty" by (simp add: log_at_def fun_eq_iff)
  show "sp_inv s" "cell s = Map.empty" "sp_lastCommitted s = 0" "sp_app_state s = a" "sent s = {}"
    "sp_configuration s = cfg" "sp_replicaIdx s = idx" "sp_view s = 0" "sp_lastOp s = 0"
    "sp_prepareOKQuorum s = QuorumSet_new (QuorumSize cfg - 1)"
    using assms l e at by (auto simp: SpannerServer_new_def sp_inv_def sp_log_inv_def LastOpnum_def cell_def fun_eq_iff sent_def QuorumSet_new_def quorum_set_ok_def)
qed

lemma group_inv_new:
  assumes "group_new cfg shard a0 = Inr g"
  shows "group_inv app a0 cfg g"
proof -
  obtain s where s: "SpannerServer_new cfg shard 0 a0 = Inr s" and g: "g = (\<lambda>i. s\<lparr>sp_replicaIdx := i\<rparr>)"
    using assms by (auto simp: group_new_def)
  have mk: "SpannerServer_new cfg shard i a0 = Inr (g i)" for i using s by (auto simp: SpannerServer_new_def g)
  note N = sp_inv_new [OF mk]
  have "history app a0 (g i)" for i by (simp add: history_def run_txns_def N)
  then show ?thesis
    by (simp add: group_inv_def member_ok_def N follows_def leader_ok_def votes_ok_def voters_def GetMessages_def QuorumSet_new_def)
qed

text \<open>A group of three over the key-value server.\<close>

definition sample_env :: "KVTxnServer spanner_env" where
  "sample_env = kv_env sample_kv (\<lambda>s. s)"

definition sample_server :: "int \<Rightarrow> KVTxnServer SpannerServer" where
  "sample_server i = \<lparr>sp_configuration = sample_config 1, sp_groupIdx = 0, sp_replicaIdx = i,
     sp_log = \<lparr>entries = [], initialHash = EMPTY_HASH, start = 1, useHash = False\<rparr>, sp_txnData = (\<lambda>_. TxnData_default), sp_view = 0,
     sp_lastOp = 0, sp_lastCommitted = 0, sp_clientAddresses = Map.empty, sp_clientTable = Map.empty,
     sp_prepareOKQuorum = QuorumSet_new 1, sp_resendPrepareTimeout = False, sp_app_state = kv_server True, sp_outbox = []\<rparr>"

lemma sample_server_new: "SpannerServer_new (sample_config 1) 0 i (kv_server True) = Inr (sample_server i)"
  by (simp add: SpannerServer_new_def sample_server_def Log_new_def QuorumSize_def sample_config_def)

lemma sample_group_new: "group_new (sample_config 1) 0 (kv_server True) = Inr sample_server"
  by (simp add: group_new_def sample_server_new fun_eq_iff) (simp add: sample_server_def)

definition sample_txn :: "RequestType \<Rightarrow> string \<Rightarrow> u64 \<Rightarrow> RequestMessage" where
  "sample_txn type op r = \<lparr>rq_txnid = 7, rq_type = type, rq_request = sample_req op 5 r\<rparr>"

text \<open>A transaction is prepared and committed with the votes of server 1, which learns of the first commit.\<close>

definition sample_group_run :: "group_event list" where
  "sample_group_run = [ClientSends 0 100 (sample_txn PREPARE ''x'' 1), Delivers 0 0 1 0, Delivers 1 0 0 1, Delivers 0 1 1 0,
     ClientSends 0 100 (sample_txn COMMIT '''' 2), Delivers 0 3 1 0, Delivers 1 1 0 1, Fires 2]"

text \<open>C7. The servers of a group agree on the transactions they run.  However messages are lost, delayed, repeated or
  reordered, every entry of a backup's log is either a filler for an operation it missed or the leader's
  entry for that operation; no backup commits more than the leader; a backup without fillers in what
  it has committed has exactly the state of running the leader's log that far; and whatever the
  leader has committed, \<open>f\<close> backups have got as far in their logs.\<close>

theorem spanner_group_agrees:
  assumes new: "group_new cfg shard a0 = Inr g0" and n: "0 < cfg_n cfg"
    and ok: "accepts (group_handle env) (group_ok (cfg_n cfg)) g0 evs" and run: "fold_r (group_handle env) g0 evs = Inr g"
  shows "(\<forall>i op x. 0 \<le> i \<and> i < cfg_n cfg \<and> cell (g i) op = Some x \<longrightarrow> x = filler_cell \<or> cell (g 0) op = Some x) \<and>
     (\<forall>i. 0 \<le> i \<and> i < cfg_n cfg \<longrightarrow> sp_lastCommitted (g i) \<le> sp_lastCommitted (g 0) \<and>
        ((\<forall>op. op \<le> sp_lastCommitted (g i) \<longrightarrow> cell (g i) op \<noteq> Some filler_cell) \<longrightarrow>
         run_txns (se_app env) (sp_log (g 0)) (sp_txnData (g 0)) a0 (op_range 1 (sp_lastCommitted (g i) + 1)) = Inr (sp_app_state (g i)))) \<and>
     (sp_lastCommitted (g 0) \<noteq> 0 \<longrightarrow>
        (\<exists>Q. Q \<subseteq> {0<..<cfg_n cfg} \<and> cfg_f cfg \<le> int (card Q) \<and> (\<forall>r\<in>Q. sp_lastCommitted (g 0) \<le> sp_lastOp (g r))))"
proof -
  have inv: "group_inv (se_app env) a0 cfg g" using sp_group.run_inv [OF group_inv_new [OF new] ok run] .
  have mem: "member_ok (se_app env) a0 cfg (g 0) i (g i)" if "0 \<le> i" "i < cfg_n cfg" for i using group_invD(1) [OF inv that] .
  have state: "run_txns (se_app env) (sp_log (g 0)) (sp_txnData (g 0)) a0 (op_range 1 (sp_lastCommitted (g i) + 1)) = Inr (sp_app_state (g i))"
    if i: "0 \<le> i" "i < cfg_n cfg" and nf: "\<forall>op. op \<le> sp_lastCommitted (g i) \<longrightarrow> cell (g i) op \<noteq> Some filler_cell" for i
  proof -
    note M = mem [OF i, unfolded member_ok_def]
    have inv_i: "sp_inv (g i)" using M by simp
    then have le: "sp_lastCommitted (g i) \<le> sp_lastOp (g i)" "sp_lastOp (g i) \<noteq> - 1" by (simp_all add: sp_inv_def sp_log_inv_def)
    have "cell (g i) op = cell (g 0) op \<and> cell (g i) op \<noteq> None" if op: "op \<in> set (op_range 1 (sp_lastCommitted (g i) + 1))" for op
    proof -
      have "unat op \<le> unat (sp_lastCommitted (g i))"
        using op le unat_next [of "sp_lastCommitted (g i)"] unfolding u64_not_max word_le_nat_alt by (auto simp: word_less_nat_alt)
      then have c: "op \<le> sp_lastCommitted (g i)" by (simp add: word_le_nat_alt)
      then have "cell (g i) op \<noteq> None" using cell_dom [OF inv_i] op le(1) by simp
      then obtain x where x: "cell (g i) op = Some x" by blast
      then have "cell (g 0) op = Some x" using M nf c unfolding follows_def by metis
      then show ?thesis using x by simp
    qed
    then have "run_txns (se_app env) (sp_log (g i)) (sp_txnData (g i)) a0 (op_range 1 (sp_lastCommitted (g i) + 1)) =
        run_txns (se_app env) (sp_log (g 0)) (sp_txnData (g 0)) a0 (op_range 1 (sp_lastCommitted (g i) + 1))" by (rule run_txns_cell)
    then show ?thesis using M by (simp add: history_def)
  qed
  have "\<exists>Q. Q \<subseteq> {0<..<cfg_n cfg} \<and> cfg_f cfg \<le> int (card Q) \<and> (\<forall>r\<in>Q. sp_lastCommitted (g 0) \<le> sp_lastOp (g r))"
    if "sp_lastCommitted (g 0) \<noteq> 0"
    using group_invD(5) [OF inv order_refl n that] mem [OF order_refl n] by (auto simp: majority_def QuorumSize_def member_ok_def)
  then show ?thesis using state mem unfolding member_ok_def follows_def by blast
qed

theorem spanner_group_agrees_witness:
  "\<exists>g. fold_r (group_handle sample_env) sample_server sample_group_run = Inr g \<and> sp_lastCommitted (g 0) = 2 \<and> sp_lastCommitted (g 1) = 1 \<and>
     run_txns (kv_app sample_kv) (sp_log (g 0)) (sp_txnData (g 0)) (kv_server True) (op_range 1 2) = Inr (sp_app_state (g 1))"
proof -
  let ?run = "fold_r (group_handle sample_env) sample_server sample_group_run"
  have ok: "accepts (group_handle sample_env) (group_ok (cfg_n (sample_config 1))) sample_server sample_group_run" by code_simp
  have end_state: "case ?run of Inl _ \<Rightarrow> False
     | Inr g \<Rightarrow> sp_lastCommitted (g 0) = 2 \<and> sp_lastCommitted (g 1) = 1 \<and> cell (g 1) 0 \<noteq> Some filler_cell \<and> cell (g 1) 1 \<noteq> Some filler_cell"
    by code_simp
  then obtain g where g: "?run = Inr g" "sp_lastCommitted (g 0) = 2" "sp_lastCommitted (g 1) = 1"
    "cell (g 1) 0 \<noteq> Some filler_cell" "cell (g 1) 1 \<noteq> Some filler_cell"
    by (cases ?run) simp_all
  have n: "0 < cfg_n (sample_config 1)" "1 < cfg_n (sample_config 1)" by (simp_all add: sample_config_def)
  have "cell (g 1) op \<noteq> Some filler_cell" if "op \<le> sp_lastCommitted (g 1)" for op
  proof -
    have "unat op \<le> 1" using that g(3) by (simp add: word_le_nat_alt)
    then have "unat op = unat (0 :: u64) \<or> unat op = unat (1 :: u64)" by auto
    then have "op = 0 \<or> op = 1" by (blast intro: u64_eqI)
    then show ?thesis using g(4,5) by blast
  qed
  then have "run_txns (se_app sample_env) (sp_log (g 0)) (sp_txnData (g 0)) (kv_server True) (op_range 1 (sp_lastCommitted (g 1) + 1)) = Inr (sp_app_state (g 1))"
    using spanner_group_agrees [OF sample_group_new n(1) ok g(1)] n(2) by (metis zero_le_one)
  then show ?thesis using g(1,2,3) by (simp add: sample_env_def kv_env_def)
qed

section \<open>The protocol and the key-value server together\<close>

lemma sp_safe_new:
  assumes "SpannerServer_new cfg shard idx a = Inr s" and "kv_retry_ok P a"
  shows "sp_safe (kv_retry_ok P) any_txn s"
  using sp_inv_new [OF assms(1)] assms(2) by (simp add: sp_safe_def txns_accepted_def)

text \<open>C20. The Spanner server and the key-value server run together without failing an assertion of either.  From the two
  constructors, with locks that are retried, whatever phases of whatever transactions arrive and whatever
  votes come back for operations the log has, every event is handled; the log's entries are committed
  exactly up to the commit point, and the key-value server's locks stay consistent with its pending transactions.\<close>

theorem spanner_kv_run:
  assumes kv: "KVTxnServer_new True myShard nShards keys = Inr kv" and new: "SpannerServer_new cfg shard idx kv = Inr s0"
    and ord: "iterates (kvp_rord P)" "iterates (kvp_hord P)"
    and evs: "accepts (spanner_handle (kv_env P h)) (sp_expects any_txn) s0 evs"
  shows "\<exists>s. fold_r (spanner_handle (kv_env P h)) s0 evs = Inr s \<and> sp_lastCommitted s \<le> sp_lastOp s \<and> sp_lastOp s = LastOpnum (sp_log s) \<and>
     (\<forall>op e. log_at (sp_log s) op = Some e \<and> le_state e \<noteq> LOG_STATE_EXECUTED \<longrightarrow>
        le_state e = (if op \<le> sp_lastCommitted s then LOG_STATE_COMMITTED else LOG_STATE_PREPARED)) \<and>
     kv_ok (sp_app_state s)"
proof -
  obtain s where s: "fold_r (spanner_handle (kv_env P h)) s0 evs = Inr s" "sp_safe (kv_retry_ok P) any_txn s"
    using sp_kv.run_total [OF sp_safe_new [OF new kv_retry_new [OF kv ord]] evs] by blast
  then show ?thesis by (auto simp: sp_safe_def sp_inv_def sp_log_inv_def entry_ok_def kv_retry_ok_def)
qed

definition sample_vote :: "u64 \<Rightarrow> int \<Rightarrow> spanner_event" where
  "sample_vote op r = Deliver 0 (SpPrepareOK \<lparr>pk_view = 0, pk_opnum = op, pk_replica_num = r\<rparr>)"

text \<open>The leader prepares and commits a transaction, resending the second PREPARE.\<close>

definition sample_leader_run :: "spanner_event list" where
  "sample_leader_run = [Deliver 100 (SpRequest (sample_txn PREPARE ''x'' 1)), sample_vote 1 2,
     Deliver 100 (SpRequest (sample_txn COMMIT '''' 2)), ResendTimeout, sample_vote 2 1, sample_vote 2 2]"

theorem spanner_kv_run_witness:
  "\<exists>s. fold_r (spanner_handle sample_env) (sample_server 0) sample_leader_run = Inr s \<and> sp_lastCommitted s = 2 \<and>
     map_option le_state (log_at (sp_log s) 2) = Some LOG_STATE_COMMITTED \<and> kv_ok (sp_app_state s)"
proof -
  let ?run = "fold_r (spanner_handle sample_env) (sample_server 0) sample_leader_run"
  have ok: "accepts (spanner_handle (kv_env sample_kv (\<lambda>s. s))) (sp_expects any_txn) (sample_server 0) sample_leader_run" by code_simp
  obtain s where s: "?run = Inr s" "kv_ok (sp_app_state s)"
    using spanner_kv_run [OF kv_server_new sample_server_new sample_orders ok] unfolding sample_env_def by blast
  have "case ?run of Inl _ \<Rightarrow> False
     | Inr s \<Rightarrow> sp_lastCommitted s = 2 \<and> map_option le_state (log_at (sp_log s) 2) = Some LOG_STATE_COMMITTED" by code_simp
  then show ?thesis using s by (simp add: sample_kv_def)
qed

section \<open>Gaps\<close>

text \<open>A backup acknowledges an operation it does not have.  When a PREPARE overtakes an earlier one, the backup fills
  the gap with an empty entry marked as executed; when the earlier PREPARE arrives after all, it answers PREPARE-OK and keeps
  the empty entry, so the leader counts a vote from a server that will never run the operation.\<close>

theorem missed_prepare_acknowledged:
  assumes "sp_inv s" and "HandlePrepare env s later = Inr s1" and "pm_opnum later \<noteq> - 1"
    and "sp_lastOp s + 1 < pm_opnum later" and "pm_opnum p = sp_lastOp s + 1"
  shows "\<exists>s2. HandlePrepare env s1 p = Inr s2 \<and> cell s2 (pm_opnum p) = Some filler_cell \<and>
     (ReplicaDest (leader_of s), SpPrepareOK \<lparr>pk_view = pm_view p, pk_opnum = pm_opnum p, pk_replica_num = sp_replicaIdx s\<rparr>) \<in> sent s2"
proof -
  have un: "unat (sp_lastOp s + 1) = Suc (unat (sp_lastOp s))" using assms(1) by (intro unat_next) (simp add: sp_inv_def sp_log_inv_def)
  then have "sp_lastOp s < pm_opnum later" using assms(4) by (simp add: word_less_nat_alt)
  then have H: "sp_inv s1" "\<not> AmLeader s" "accepted_at s later s1"
    using HandlePrepare_Inr [OF assms(1,3,2)] by auto
  note id = identityD [of s1 s]
  have A: "identity s1 = identity s" "sp_lastOp s1 = pm_opnum later" using H(3) by (simp_all add: accepted_at_def)
  have "sp_lastOp s < sp_lastOp s + 1" using un by (simp add: word_less_nat_alt)
  then have "cell s1 (pm_opnum p) = Some filler_cell" using H(3) assms(4,5) by (auto simp: accepted_at_def)
  moreover have "HandlePrepare env s1 p = Inr (prepare_ok s1 p)"
    using H(2) A(2) assms(4,5) id(5) [OF A(1)] by (simp add: HandlePrepare_def less_imp_le)
  ultimately show ?thesis
    using prepare_ok_spec(1,3) [of s1 p] id(3,6) [OF A(1)] by (simp add: same_core_def)
qed

text \<open>Committing one operation stops the retransmission of later ones.  A leader that commits up to \<open>k\<close> while
  operations after \<open>k\<close> are still waiting for votes has stopped its timeout, so it never sends their PREPARE
  again: firing the timeout changes nothing, and a client that repeats the last request while it is unanswered is ignored.\<close>

theorem later_prepare_not_resent:
  assumes "sp_inv s" and "sp_lastCommitted s < k" and "k < sp_lastOp s" and "CommitUpTo env s k = Inr s'"
  shows "sp_lastCommitted s' < sp_lastOp s' \<and> PrepareTimeout s' = Inr s' \<and>
     (\<forall>remote m entry. sp_clientTable s' (req_clientid (rq_request m)) = Some entry \<and>
        ct_lastReqId entry = req_clientreqid (rq_request m) \<and> \<not> ct_replied entry \<longrightarrow>
        (\<exists>t. HandleClientRequest env s' remote m = Inr t \<and> sent t = sent s'))"
proof -
  have ignored: "\<exists>t. HandleClientRequest env s' remote m = Inr t \<and> sent t = sent s'"
    if "sp_clientTable s' (req_clientid (rq_request m)) = Some entry" "ct_lastReqId entry = req_clientreqid (rq_request m)" "\<not> ct_replied entry"
    for remote m entry
    using that by (auto simp: HandleClientRequest_def Let_def save_address_def)
  have "k \<noteq> - 1" using assms(3) unat_u64_bound [of "sp_lastOp s"] unfolding u64_not_max word_less_nat_alt by simp
  from sp_CommitUpTo_Inr [OF assms(1) this assms(4)] assms(2,3)
  have "sp_lastCommitted s' < sp_lastOp s'" "PrepareTimeout s' = Inr s'"
    by (simp_all add: executed_to_def PrepareTimeout_def max.absorb2)
  then show ?thesis using ignored by blast
qed

definition sample_prepare :: "u64 \<Rightarrow> PrepareMessage" where
  "sample_prepare op = \<lparr>pm_view = 0, pm_opnum = op, pm_txnid = 7, pm_type = PREPARE, pm_request = sample_req ''x'' 5 op\<rparr>"

theorem missed_prepare_acknowledged_witness:
  "\<exists>s1 s2. HandlePrepare sample_env (sample_server 1) (sample_prepare 2) = Inr s1 \<and> HandlePrepare sample_env s1 (sample_prepare 1) = Inr s2 \<and>
     cell s2 1 = Some filler_cell \<and>
     (ReplicaDest 0, SpPrepareOK \<lparr>pk_view = 0, pk_opnum = 1, pk_replica_num = 1\<rparr>) \<in> sent s2"
proof -
  have "case HandlePrepare sample_env (sample_server 1) (sample_prepare 2) of Inl _ \<Rightarrow> False | Inr s \<Rightarrow> True" by code_simp
  then obtain s1 where s1: "HandlePrepare sample_env (sample_server 1) (sample_prepare 2) = Inr s1"
    by (cases "HandlePrepare sample_env (sample_server 1) (sample_prepare 2)") simp_all
  have "leader_of (sample_server 1) = 0" "sp_lastOp (sample_server 1) = 0" "sp_replicaIdx (sample_server 1) = 1"
    by (simp_all add: leader_of_def sample_server_def GetLeaderIndex_def)
  then show ?thesis
    using missed_prepare_acknowledged [OF sp_inv_new(1) [OF sample_server_new] s1, of "sample_prepare 1"] s1
    by (simp add: sample_prepare_def)
qed

text \<open>Two clients' requests are pending when the first is committed.\<close>

definition sample_two :: "spanner_event list" where
  "sample_two = [Deliver 100 (SpRequest (sample_txn PREPARE ''x'' 1)), Deliver 101 (SpRequest ((sample_txn PREPARE ''y'' 1)\<lparr>rq_txnid := 8, rq_request := sample_req ''y'' 6 1\<rparr>))]"

theorem later_prepare_not_resent_witness:
  "\<exists>s s'. fold_r (spanner_handle sample_env) (sample_server 0) sample_two = Inr s \<and> CommitUpTo sample_env s 1 = Inr s' \<and>
     sp_lastCommitted s' < sp_lastOp s' \<and> PrepareTimeout s' = Inr s'"
proof -
  let ?run = "fold_r (spanner_handle sample_env) (sample_server 0) sample_two"
  have ok: "accepts (spanner_handle (kv_env sample_kv (\<lambda>s. s))) (sp_expects any_txn) (sample_server 0) sample_two" by code_simp
  have "sp_safe (kv_retry_ok sample_kv) any_txn (sample_server 0)"
    using sp_safe_new [OF sample_server_new kv_retry_new [OF kv_server_new sample_orders]] .
  from sp_kv.run_total [OF this ok] obtain s where s: "?run = Inr s" "sp_inv s"
    unfolding sample_env_def by (auto simp: sp_safe_def)
  have "case ?run of Inl _ \<Rightarrow> False | Inr s \<Rightarrow> sp_lastCommitted s = 0 \<and> sp_lastOp s = 2 \<and>
     (case CommitUpTo sample_env s 1 of Inl _ \<Rightarrow> False | Inr t \<Rightarrow> True)" by code_simp
  then obtain s' where c: "sp_lastCommitted s = 0" "sp_lastOp s = 2" "CommitUpTo sample_env s 1 = Inr s'"
    using s(1) by (cases "CommitUpTo sample_env s 1") simp_all
  show ?thesis using later_prepare_not_resent [OF s(2), of 1 sample_env s'] c s(1) by auto
qed

end
