(* ===== verification/ShardReplies.thy ===== *)
theory ShardReplies
  imports QuorumSets
begin

text \<open>
  What the coordinators of distributed transactions share: a map from shards to operations, a
  \<^verbatim>\<open>MessageSet\<close> in which every shard answers under replica number 0, and the contract \<open>shard_collector\<close> of a client that
  records replies until all shards of its request have answered.
\<close>

type_synonym shard_map = "(u32 \<times> string) list"

definition shard_set :: "shard_map \<Rightarrow> int set" where
  "shard_set requests = sint ` fst ` set requests"

definition boxed :: "(int \<times> 'm) list \<Rightarrow> 'm shard_messages" where
  "boxed R = map (\<lambda>(shard, m). (shard, [(0, m)])) R"

definition unboxed :: "'m shard_messages \<Rightarrow> (int \<times> 'm) list" where
  "unboxed ms = map (\<lambda>(shard, b). (shard, snd (hd b))) ms"

lemma boxed_simps [simp]: "boxed [] = []" "boxed ((shard, m) # R) = (shard, [(0, m)]) # boxed R"
  by (simp_all add: boxed_def)

lemma unboxed_Nil [simp]: "unboxed [] = []"
  by (simp add: unboxed_def)

lemma smap_put_boxed: "smap_put shard [(0, m)] (boxed R) = boxed (smap_put shard m R)"
  by (induction shard m R rule: smap_put.induct) simp_all

lemma map_of_boxed: "map_of (boxed R) shard = map_option (\<lambda>m. [(0, m)]) (map_of R shard)"
  by (induction R) auto

lemma length_boxed [simp]: "length (boxed R) = length R"
  by (simp add: boxed_def)

lemma unbox [simp]: "unboxed (boxed R) = R"
  by (induction R) (auto simp: unboxed_def)

lemma add_boxed:
  assumes "ms_messages q rid = Some (boxed R, n)" and "replicaRequired q = 1"
  shows "ms_AddAndCheckForQuorum q rid shard 0 m =
    (q\<lparr>ms_messages := (ms_messages q)(rid \<mapsto> (boxed (smap_put shard m R), n))\<rparr>,
     if unat n \<le> length (smap_put shard m R) then Some (boxed (smap_put shard m R)) else None)"
proof -
  let ?R = "smap_put shard m R"
  have "(case map_of (boxed R) shard of None \<Rightarrow> [] | Some b \<Rightarrow> b) = [] \<or> (\<exists>x. (case map_of (boxed R) shard of None \<Rightarrow> [] | Some b \<Rightarrow> b) = [(0, x)])"
    by (cases "map_of R shard") (simp_all add: map_of_boxed)
  then have "smap_put 0 m (case map_of (boxed R) shard of None \<Rightarrow> [] | Some b \<Rightarrow> b) = [(0, m)]" by auto
  moreover have "\<not> (\<exists>p\<in>set (boxed ?R). length (snd p) < unat (1 :: u32))" by (auto simp: boxed_def)
  ultimately show ?thesis
    using assms by (simp add: ms_AddAndCheckForQuorum_def ms_CheckForQuorum_def Let_def smap_put_boxed)
qed

lemma smap_put_all: "\<lbrakk> P m; \<forall>x\<in>set R. P (snd x) \<rbrakk> \<Longrightarrow> \<forall>x\<in>set (smap_put shard m R). P (snd x)"
  using set_smap_put_subset [of shard m R] by auto

lemma shard_set_fst: "x \<in> set requests \<Longrightarrow> sint (fst x) \<in> shard_set requests"
  by (simp add: shard_set_def)

lemma shard_set_card: "smap_ok requests \<Longrightarrow> card (shard_set requests) = length requests"
  by (simp add: shard_set_def card_image inj_on_def smap_ok_length signed_word_eqI)

lemma all_answered:
  assumes "smap_ok requests" and "smap_ok R" and "fst ` set R \<subseteq> shard_set requests"
  shows "length requests \<le> length R \<longleftrightarrow> fst ` set R = shard_set requests"
proof -
  have fin: "finite (shard_set requests)" by (simp add: shard_set_def)
  have "length R = card (fst ` set R)" using smap_ok_length [OF assms(2)] .
  then show ?thesis
    using shard_set_card [OF assms(1)] card_mono [OF fin assms(3)] card_subset_eq [OF fin assms(3)] by (metis order_refl le_antisym)
qed

text \<open>Adding the reply of a shard: the quorum is there exactly when every shard has answered.\<close>

lemma add_reply:
  assumes "ms_messages q = [rid \<mapsto> (boxed R0, word_of_nat (length requests))]" and "replicaRequired q = 1"
    and "smap_ok requests" "int (length requests) < 2 ^ 32" and "smap_ok R0" "fst ` set R0 \<subseteq> shard_set requests" and "shard \<in> shard_set requests"
    and "R = smap_put shard m R0"
  shows "ms_AddAndCheckForQuorum q rid shard 0 m =
    (q\<lparr>ms_messages := [rid \<mapsto> (boxed R, word_of_nat (length requests))]\<rparr>, if fst ` set R = shard_set requests then Some (boxed R) else None)"
    "smap_ok R" "fst ` set R \<subseteq> shard_set requests"
proof -
  show R: "smap_ok R" "fst ` set R \<subseteq> shard_set requests" using assms(5-8) by simp_all
  have "unat (word_of_nat (length requests) :: u32) = length requests" using assms(4) by (simp add: unat_of_nat)
  then show "ms_AddAndCheckForQuorum q rid shard 0 m =
    (q\<lparr>ms_messages := [rid \<mapsto> (boxed R, word_of_nat (length requests))]\<rparr>, if fst ` set R = shard_set requests then Some (boxed R) else None)"
    using add_boxed [of q rid R0 "word_of_nat (length requests)" shard m] assms(1,2,8) all_answered [OF assms(3) R] by simp
qed

section \<open>Collecting replies\<close>

text \<open>The contract of a coordinator: a reply that fits is recorded as long as some shard of the request has not answered, and nothing
  else changes (\<open>frame\<close> is what stays: the pending request, the messages sent, the requests finished).\<close>

locale shard_collector =
  fixes reply :: "'s \<Rightarrow> 'm \<Rightarrow> 's result" and inv :: "'s \<Rightarrow> bool" and frame :: "'s \<Rightarrow> 'f" and waits_for :: "'f \<Rightarrow> int set"
    and fits :: "'f \<Rightarrow> 'm \<Rightarrow> bool" and shard_of :: "'m \<Rightarrow> int" and collected :: "'s \<Rightarrow> (int \<times> 'm) list"
  assumes reply_recorded: "\<lbrakk> inv s; fits (frame s) m; R = smap_put (shard_of m) m (collected s); fst ` set R \<noteq> waits_for (frame s) \<rbrakk> \<Longrightarrow>
     \<exists>s'. reply s m = Inr s' \<and> inv s' \<and> frame s' = frame s \<and> collected s' = R"
begin

text \<open>Replies of all but some shard are recorded, one per shard.\<close>

lemma replies_recorded:
  assumes "inv s" and "\<forall>m\<in>set ms. fits (frame s) m" and "z \<in> waits_for (frame s)" and "z \<notin> fst ` set (collected s) \<union> shard_of ` set ms"
  shows "\<exists>s'. fold_r reply s ms = Inr s' \<and> inv s' \<and> frame s' = frame s \<and>
     collected s' = fold (\<lambda>m. smap_put (shard_of m) m) ms (collected s)"
  using assms
proof (induction ms arbitrary: s)
  case (Cons m ms)
  let ?R = "smap_put (shard_of m) m (collected s)"
  have "z \<notin> fst ` set ?R" using Cons.prems(4) by simp
  then obtain t where "reply s m = Inr t" "inv t" "frame t = frame s" "collected t = ?R"
    using reply_recorded [OF Cons.prems(1) _ refl] Cons.prems(2,3) by force
  then show ?case using Cons.IH [of t] Cons.prems(2-4) by auto
qed simp

end

lemma collected_keys: "fst ` set (fold (\<lambda>m. smap_put (shard_of m) m) ms R) = fst ` set R \<union> shard_of ` set ms"
  by (induction ms arbitrary: R) auto

text \<open>The shards of a request but the last one do not include the last one.\<close>

lemma last_shard_missing:
  assumes "smap_ok (xs @ [x])"
  shows "sint (fst x) \<in> shard_set (xs @ [x]) \<and> sint (fst x) \<notin> sint ` fst ` set xs"
proof -
  have "distinct (map fst (xs @ [x]))" using assms by (simp add: smap_ok_def strict_sorted_iff)
  then show ?thesis by (auto simp: shard_set_def dest: signed_word_eqI)
qed

end
