(* ===== verification/SpannerClient.thy ===== *)
theory SpannerClient
  imports SpannerServer ShardReplies
begin

text \<open>
  The client of the Spanner-style protocol, \<^verbatim>\<open>transaction/spanner/client.h\<close> and
  \<^verbatim>\<open>transaction/spanner/client.cc\<close>: the coordinator of two-phase commit.  It sends PREPARE to every
  shard of a transaction, collects one reply per shard and commits, aborts or prepares again.

  A continuation is a token of type \<open>'k\<close>; what it does to the client is the list of \<^verbatim>\<open>Invoke\<close> calls it makes, which
  a parameter gives.  The shards of a request are an ordered map.  \<open>sc_outbox\<close> (the messages with
  the group they go to) and \<open>sc_finished\<close> (the continuations that were run) are histories.
\<close>

datatype Fate = FATE_COMMIT | FATE_ABORT | FATE_RETRY | FATE_ACKED

definition MAX_RETRIES :: int where
  "MAX_RETRIES = 5"

record 'k PendingRequest =
  sq_txnid :: u64
  sq_client_req_id :: u64
  sq_requests :: shard_map
  sq_replies :: shard_map
  sq_type :: RequestType
  sq_continuation :: 'k
  sq_num_retries :: int

definition PendingRequest_new :: "u64 \<Rightarrow> u64 \<Rightarrow> shard_map \<Rightarrow> RequestType \<Rightarrow> 'k \<Rightarrow> 'k PendingRequest" where
  "PendingRequest_new txnid client_req_id requests type continuation =
     \<lparr>sq_txnid = txnid, sq_client_req_id = client_req_id, sq_requests = requests, sq_replies = [], sq_type = type,
      sq_continuation = continuation, sq_num_retries = 0\<rparr>"

record 'k SpannerClient =
  sc_clientid :: u64
  sc_txnid :: u64
  sc_lastReqId :: u64
  sc_pendingRequest :: "'k PendingRequest option"
  sc_requestTimeout :: bool
  sc_replySet :: "(u64, ReplyMessage) MessageSet"
  sc_outbox :: "(u32 \<times> ToServerMessage) list"
  sc_finished :: "('k \<times> shard_map \<times> shard_map \<times> bool) list"

definition SpannerClient_new :: "u64 \<Rightarrow> 'k SpannerClient" where
  "SpannerClient_new clientid =
     \<lparr>sc_clientid = clientid, sc_txnid = clientid div 10000 * 10000, sc_lastReqId = 0, sc_pendingRequest = None,
      sc_requestTimeout = False, sc_replySet = MessageSet_new 1, sc_outbox = [], sc_finished = []\<rparr>"

text \<open>The message object is shared by the iterations of the loop: only its operation changes.\<close>

definition client_message :: "'k SpannerClient \<Rightarrow> 'k PendingRequest \<Rightarrow> string \<Rightarrow> ToServerMessage" where
  "client_message s p op = SpRequest \<lparr>rq_txnid = sq_txnid p, rq_type = sq_type p,
     rq_request = empty_Request\<lparr>req_clientid := sc_clientid s, req_clientreqid := sq_client_req_id p, req_op := op\<rparr>\<rparr>"

definition SendRequest :: "'k SpannerClient \<Rightarrow> 'k SpannerClient result" where
  "SendRequest s =
     (case sc_pendingRequest s of
        None \<Rightarrow> Inl UndefinedBehaviour
      | Some p \<Rightarrow>
          Inr (s\<lparr>sc_outbox := sc_outbox s @ map (\<lambda>(shard, op). (shard, client_message s p (if sq_type p = PREPARE then op else ''''))) (sq_requests p),
                 sc_requestTimeout := True\<rparr>))"

text \<open>\<^verbatim>\<open>Invoke\<close> with a null third argument fails an assertion; the other forms of invocation only warn.\<close>

definition Invoke :: "'k SpannerClient \<Rightarrow> shard_map \<Rightarrow> 'k \<Rightarrow> bool \<Rightarrow> 'k SpannerClient result" where
  "Invoke s requests continuation arg =
     check arg AssertFailed
       (check (sc_pendingRequest s = None) Panicked
         (let n = sc_lastReqId s + 1; t = sc_txnid s + 1
          in SendRequest (s\<lparr>sc_lastReqId := n, sc_txnid := t,
                 sc_pendingRequest := Some (PendingRequest_new t n requests PREPARE continuation),
                 sc_replySet := SetShardRequired (sc_replySet s) n (word_of_nat (length requests))\<rparr>)))"

definition Invoke_single :: "'k SpannerClient \<Rightarrow> string \<Rightarrow> 'k \<Rightarrow> 'k SpannerClient" where
  "Invoke_single s request continuation = s"

definition InvokeUnlogged :: "'k SpannerClient \<Rightarrow> int \<Rightarrow> string \<Rightarrow> 'k \<Rightarrow> 'k SpannerClient" where
  "InvokeUnlogged s replicaIdx request continuation = s"

type_synonym 'k calls = "'k \<Rightarrow> shard_map \<Rightarrow> shard_map \<Rightarrow> bool \<Rightarrow> (shard_map \<times> 'k) list"

definition CompleteOperation :: "'k calls \<Rightarrow> 'k SpannerClient \<Rightarrow> Fate \<Rightarrow> 'k SpannerClient result" where
  "CompleteOperation calls s fate =
     (let s1 = s\<lparr>sc_requestTimeout := False, sc_replySet := ms_Clear (sc_replySet s)\<rparr> in
      case sc_pendingRequest s1 of
        None \<Rightarrow> Inl UndefinedBehaviour
      | Some p \<Rightarrow>
          if fate = FATE_ACKED
          then check (sq_type p = COMMIT \<or> sq_type p = ABORT) AssertFailed
                 (let commit = (sq_type p = COMMIT)
                  in fold_r (\<lambda>s (reqs, k). Invoke s reqs k True)
                       (s1\<lparr>sc_pendingRequest := None, sc_finished := sc_finished s1 @ [(sq_continuation p, sq_requests p, sq_replies p, commit)]\<rparr>)
                       (calls (sq_continuation p) (sq_requests p) (sq_replies p) commit))
          else check (sq_type p = PREPARE) AssertFailed
                 (let n = sc_lastReqId s1 + 1;
                      p1 = p\<lparr>sq_client_req_id := n\<rparr>;
                      s2 = s1\<lparr>sc_lastReqId := n,
                              sc_replySet := SetShardRequired (sc_replySet s1) n (word_of_nat (length (sq_requests p)))\<rparr>;
                      p2 = (if fate = FATE_RETRY then p1\<lparr>sq_num_retries := sq_num_retries p1 + 1\<rparr> else p1)
                  in if fate = FATE_RETRY \<and> sq_num_retries p2 < MAX_RETRIES
                     then SendRequest (s2\<lparr>sc_pendingRequest := Some p2\<rparr>)
                     else SendRequest (s2\<lparr>sc_pendingRequest := Some (p2\<lparr>sq_type := (if fate = FATE_COMMIT then COMMIT else ABORT)\<rparr>)\<rparr>)))"

text \<open>The loop over the replies.  Its state is the fate so far and the recorded replies; \<open>Inl\<close> of the inner sum
  is the state after the \<^verbatim>\<open>break\<close>.\<close>

definition reply_step ::
  "RequestType \<Rightarrow> (Fate \<times> shard_map) + (Fate \<times> shard_map) \<Rightarrow> int \<times> (int \<times> ReplyMessage) list \<Rightarrow>
   ((Fate \<times> shard_map) + (Fate \<times> shard_map)) result" where
  "reply_step type st kv =
     (case st of
        Inl done \<Rightarrow> Inr (Inl done)
      | Inr (fate, replies) \<Rightarrow>
          check (length (snd kv) = 1) AssertFailed
            (case map_of (snd kv) 0 of
               None \<Rightarrow> Inl AssertFailed
             | Some m \<Rightarrow>
                 if rm_type m = ACK
                 then check (type = COMMIT \<or> type = ABORT) AssertFailed (Inr (Inr (FATE_ACKED, replies)))
                 else check (type = PREPARE) AssertFailed
                        (let replies' = smap_put (word_of_int (fst kv)) (rm_reply m) replies
                         in Inr (if rm_type m = FAIL then Inl (FATE_ABORT, replies')
                                 else if rm_type m = RETRY then Inr (FATE_RETRY, replies')
                                 else Inr (fate, replies')))))"

definition HandleReply :: "'k calls \<Rightarrow> 'k SpannerClient \<Rightarrow> ReplyMessage \<Rightarrow> 'k SpannerClient result" where
  "HandleReply calls s msg =
     (case sc_pendingRequest s of
        None \<Rightarrow> Inr s
      | Some p \<Rightarrow>
          if rm_clientreqid msg \<noteq> sq_client_req_id p then Inr s
          else let (q, msgs) = ms_AddAndCheckForQuorum (sc_replySet s) (rm_clientreqid msg) (sint (rm_shard_num msg)) 0 msg;
                   s1 = s\<lparr>sc_replySet := q\<rparr>
               in case msgs of
                    None \<Rightarrow> Inr s1
                  | Some ms \<Rightarrow>
                      rbind (fold_r (reply_step (sq_type p)) (Inr (FATE_COMMIT, sq_replies p)) ms) (\<lambda>st.
                        let (fate, replies) = (case st of Inl x \<Rightarrow> x | Inr x \<Rightarrow> x)
                        in CompleteOperation calls (s1\<lparr>sc_pendingRequest := Some (p\<lparr>sq_replies := replies\<rparr>)\<rparr>) fate))"

definition RequestTimeout :: "'k SpannerClient \<Rightarrow> 'k SpannerClient result" where
  "RequestTimeout s = (if sc_requestTimeout s then SendRequest s else Inr s)"

datatype 'k client_event = AppInvokes shard_map 'k | ReplyArrives ReplyMessage | TimeoutFires

fun client_handle :: "'k calls \<Rightarrow> 'k SpannerClient \<Rightarrow> 'k client_event \<Rightarrow> 'k SpannerClient result" where
  "client_handle calls s (AppInvokes requests k) = Invoke s requests k True"
| "client_handle calls s (ReplyArrives m) = HandleReply calls s m"
| "client_handle calls s TimeoutFires = RequestTimeout s"

section \<open>The invariant\<close>

text \<open>The replies collected for the pending request, one per shard.\<close>

definition collected :: "'k SpannerClient \<Rightarrow> (int \<times> ReplyMessage) list" where
  "collected s =
     (case sc_pendingRequest s of
        None \<Rightarrow> []
      | Some p \<Rightarrow> (case ms_messages (sc_replySet s) (sq_client_req_id p) of
                     None \<Rightarrow> []
                   | Some (ms, _) \<Rightarrow> unboxed ms))"

definition shards :: "'k PendingRequest \<Rightarrow> int set" where
  "shards p = shard_set (sq_requests p)"

definition reply_fits :: "'k PendingRequest \<Rightarrow> ReplyMessage \<Rightarrow> bool" where
  "reply_fits p m \<longleftrightarrow> (rm_type m = ACK \<longleftrightarrow> sq_type p \<noteq> PREPARE)"

definition pending_ok :: "'k SpannerClient \<Rightarrow> 'k PendingRequest \<Rightarrow> bool" where
  "pending_ok s p \<longleftrightarrow> sq_type p \<noteq> UNKNOWN \<and> sq_client_req_id p = sc_lastReqId s \<and> sq_txnid p = sc_txnid s \<and>
     smap_ok (sq_requests p) \<and> int (length (sq_requests p)) < 2 ^ 32 \<and>
     0 \<le> sq_num_retries p \<and> (sq_type p = PREPARE \<longrightarrow> sq_num_retries p < MAX_RETRIES) \<and>
     (\<exists>R. ms_messages (sc_replySet s) = [sq_client_req_id p \<mapsto> (boxed R, word_of_nat (length (sq_requests p)))] \<and>
        smap_ok R \<and> fst ` set R \<subseteq> shards p \<and> (\<forall>x\<in>set R. reply_fits p (snd x)))"

definition sc_inv :: "'k SpannerClient \<Rightarrow> bool" where
  "sc_inv s \<longleftrightarrow> replicaRequired (sc_replySet s) = 1 \<and>
     (case sc_pendingRequest s of
        None \<Rightarrow> \<not> sc_requestTimeout s \<and> ms_messages (sc_replySet s) = Map.empty
      | Some p \<Rightarrow> sc_requestTimeout s \<and> pending_ok s p)"

section \<open>The outcome of a round\<close>

text \<open>What the replies of all shards to a PREPARE amount to.\<close>

definition verdict :: "Fate \<Rightarrow> (int \<times> ReplyMessage) list \<Rightarrow> Fate" where
  "verdict f R = (if \<exists>x\<in>set R. rm_type (snd x) = FAIL then FATE_ABORT
     else if \<exists>x\<in>set R. rm_type (snd x) = RETRY then FATE_RETRY else f)"

lemma verdict_simps:
  "verdict f [] = f"
  "verdict f ((shard, m) # R) =
     (if rm_type m = FAIL then FATE_ABORT else if rm_type m = RETRY then verdict FATE_RETRY R else verdict f R)"
  by (simp_all add: verdict_def)

lemma verdict_commit:
  assumes "\<forall>x\<in>set R. rm_type (snd x) \<noteq> ACK"
  shows "verdict FATE_COMMIT R = FATE_COMMIT \<longleftrightarrow> (\<forall>x\<in>set R. rm_type (snd x) = OK)"
  using assms
proof (induction R)
  case (Cons x R)
  have "verdict FATE_RETRY R \<noteq> FATE_COMMIT" by (simp add: verdict_def)
  with Cons show ?case by (cases x; cases "rm_type (snd x)") (simp_all add: verdict_simps)
qed (simp add: verdict_simps)

lemma reply_step_simps:
  "rm_type m \<noteq> ACK \<Longrightarrow> reply_step PREPARE (Inr (f, reps)) (shard, [(0, m)]) =
     (let reps' = smap_put (word_of_int shard) (rm_reply m) reps
      in Inr (if rm_type m = FAIL then Inl (FATE_ABORT, reps') else if rm_type m = RETRY then Inr (FATE_RETRY, reps') else Inr (f, reps')))"
  "\<lbrakk> rm_type m = ACK; ty = COMMIT \<or> ty = ABORT \<rbrakk> \<Longrightarrow> reply_step ty (Inr (f, reps)) (shard, [(0, m)]) = Inr (Inr (FATE_ACKED, reps))"
  by (auto simp: reply_step_def)

lemma loop_broken: "fold_r (reply_step ty) (Inl d) xs = Inr (Inl d)"
  by (induction xs) (simp_all add: reply_step_def)

lemma prepare_loop:
  assumes "\<forall>x\<in>set R. rm_type (snd x) \<noteq> ACK"
  shows "\<exists>st. fold_r (reply_step PREPARE) (Inr (f, reps)) (boxed R) = Inr st \<and> fst (case st of Inl x \<Rightarrow> x | Inr x \<Rightarrow> x) = verdict f R"
  using assms
proof (induction R arbitrary: f reps)
  case Nil
  then show ?case by (simp add: verdict_simps)
next
  case (Cons x R)
  obtain shard m where x: "x = (shard, m)" by (cases x)
  let ?reps = "smap_put (word_of_int shard) (rm_reply m) reps"
  have box: "boxed (x # R) = (shard, [(0, m)]) # boxed R" by (simp add: x)
  have ack: "rm_type m \<noteq> ACK" "\<forall>x\<in>set R. rm_type (snd x) \<noteq> ACK" using Cons.prems x by auto
  consider "rm_type m = FAIL" | "rm_type m = RETRY" | "rm_type m = OK" using ack(1) by (cases "rm_type m") auto
  then show ?case
  proof cases
    case 1
    then show ?thesis unfolding box by (simp add: reply_step_simps Let_def loop_broken verdict_simps x)
  next
    case 2
    then show ?thesis using Cons.IH [OF ack(2), of FATE_RETRY ?reps] unfolding box by (simp add: reply_step_simps Let_def verdict_simps x)
  next
    case 3
    then show ?thesis using Cons.IH [OF ack(2), of f ?reps] unfolding box by (simp add: reply_step_simps Let_def verdict_simps x)
  qed
qed

lemma ack_loop:
  assumes "\<forall>x\<in>set R. rm_type (snd x) = ACK" and "ty = COMMIT \<or> ty = ABORT"
  shows "fold_r (reply_step ty) (Inr (f, reps)) (boxed R) = Inr (Inr (if R = [] then f else FATE_ACKED, reps))"
  using assms
proof (induction R arbitrary: f)
  case Nil
  then show ?case by simp
next
  case (Cons x R)
  obtain shard m where x: "x = (shard, m)" by (cases x)
  then show ?case using Cons x by (simp add: reply_step_simps)
qed

section \<open>Steps\<close>

lemma Invoke_inv:
  assumes "sc_inv s" and "sc_pendingRequest s = None" and "smap_ok requests" and "int (length requests) < 2 ^ 32"
  shows "\<exists>s'. Invoke s requests k True = Inr s' \<and> sc_inv s' \<and> sc_finished s' = sc_finished s \<and>
     (\<exists>p. sc_pendingRequest s' = Some p \<and> sq_requests p = requests \<and> sq_continuation p = k \<and> sq_type p = PREPARE \<and> sq_num_retries p = 0) \<and> collected s' = []"
proof -
  have "ms_messages (sc_replySet s) = Map.empty" "replicaRequired (sc_replySet s) = 1" using assms(1,2) by (simp_all add: sc_inv_def)
  then show ?thesis
    using assms by (auto simp: Invoke_def Let_def SendRequest_def sc_inv_def pending_ok_def PendingRequest_new_def SetShardRequired_def MAX_RETRIES_def collected_def
        intro!: exI [of _ "[]"])
qed

definition next_type :: "Fate \<Rightarrow> 'k PendingRequest \<Rightarrow> RequestType" where
  "next_type fate p = (if fate = FATE_COMMIT then COMMIT
     else if fate = FATE_RETRY \<and> sq_num_retries p + 1 < MAX_RETRIES then PREPARE else ABORT)"

definition phase_messages :: "'k SpannerClient \<Rightarrow> 'k PendingRequest \<Rightarrow> (u32 \<times> ToServerMessage) list" where
  "phase_messages s p = map (\<lambda>(shard, op). (shard, client_message s p (if sq_type p = PREPARE then op else ''''))) (sq_requests p)"

text \<open>The next phase of a transaction: the same transaction and shards under a fresh identifier.\<close>

definition next_phase :: "'k SpannerClient \<Rightarrow> 'k PendingRequest \<Rightarrow> Fate \<Rightarrow> 'k SpannerClient \<Rightarrow> bool" where
  "next_phase s p fate s' \<longleftrightarrow> (\<exists>p'. sc_pendingRequest s' = Some p' \<and> sq_client_req_id p' = sc_lastReqId s + 1 \<and>
     sq_txnid p' = sq_txnid p \<and> sq_requests p' = sq_requests p \<and> sq_continuation p' = sq_continuation p \<and> sq_type p' = next_type fate p \<and>
     sq_num_retries p' = (if fate = FATE_RETRY then sq_num_retries p + 1 else sq_num_retries p) \<and>
     sc_outbox s' = sc_outbox s @ phase_messages s p' \<and> sc_finished s' = sc_finished s \<and> collected s' = [])"

lemma CompleteOperation_phase:
  assumes p: "sc_pendingRequest s = Some p" and fate: "fate \<noteq> FATE_ACKED" and ty: "sq_type p = PREPARE" and rr: "replicaRequired (sc_replySet s) = 1"
    and ok: "smap_ok (sq_requests p)" "int (length (sq_requests p)) < 2 ^ 32" "0 \<le> sq_num_retries p" "sq_num_retries p < MAX_RETRIES" "sq_txnid p = sc_txnid s"
  shows "\<exists>s'. CompleteOperation calls s fate = Inr s' \<and> sc_inv s' \<and> next_phase s p fate s'"
proof -
  define p' where "p' = p\<lparr>sq_client_req_id := sc_lastReqId s + 1, sq_type := next_type fate p,
    sq_num_retries := (if fate = FATE_RETRY then sq_num_retries p + 1 else sq_num_retries p)\<rparr>"
  define s' where "s' = s\<lparr>sc_requestTimeout := True, sc_lastReqId := sc_lastReqId s + 1, sc_pendingRequest := Some p',
    sc_replySet := SetShardRequired (ms_Clear (sc_replySet s)) (sc_lastReqId s + 1) (word_of_nat (length (sq_requests p))),
    sc_outbox := sc_outbox s @ phase_messages s p'\<rparr>"
  have "CompleteOperation calls s fate = Inr s'"
  proof (cases "fate = FATE_RETRY \<and> sq_num_retries p + 1 < MAX_RETRIES")
    case True
    then show ?thesis using p ty
      by (simp add: CompleteOperation_def SendRequest_def Let_def s'_def p'_def next_type_def phase_messages_def client_message_def)
  next
    case False
    then have "p' = p\<lparr>sq_client_req_id := sc_lastReqId s + 1, sq_num_retries := (if fate = FATE_RETRY then sq_num_retries p + 1 else sq_num_retries p),
        sq_type := (if fate = FATE_COMMIT then COMMIT else ABORT)\<rparr>" by (simp add: p'_def next_type_def)
    then show ?thesis using False p ty fate
      by (auto simp: CompleteOperation_def SendRequest_def Let_def s'_def phase_messages_def client_message_def)
  qed
  moreover have ms: "ms_messages (sc_replySet s') = [sc_lastReqId s + 1 \<mapsto> (boxed [], word_of_nat (length (sq_requests p)))]"
    by (simp add: s'_def SetShardRequired_def ms_Clear_def boxed_def)
  then have "pending_ok s' p'"
    using ok by (auto simp: pending_ok_def s'_def p'_def next_type_def intro!: exI [of _ "[]"])
  then have "sc_inv s'" using rr by (simp add: sc_inv_def s'_def SetShardRequired_def ms_Clear_def)
  moreover have "collected s' = []" using ms by (simp add: collected_def s'_def p'_def boxed_def)
  then have "next_phase s p fate s'" by (simp add: next_phase_def s'_def p'_def)
  ultimately show ?thesis by blast
qed

text \<open>A continuation makes at most one call, for fewer shards than there are 32-bit numbers.\<close>

definition calls_ok :: "'k calls \<Rightarrow> bool" where
  "calls_ok calls \<longleftrightarrow> (\<forall>k reqs reps c. length (calls k reqs reps c) \<le> 1 \<and>
     (\<forall>x\<in>set (calls k reqs reps c). smap_ok (fst x) \<and> int (length (fst x)) < 2 ^ 32))"

lemma CompleteOperation_finish:
  assumes p: "sc_pendingRequest s = Some p" and ty: "sq_type p = COMMIT \<or> sq_type p = ABORT" and rr: "replicaRequired (sc_replySet s) = 1"
    and calls: "calls_ok calls"
  shows "\<exists>s'. CompleteOperation calls s FATE_ACKED = Inr s' \<and> sc_inv s' \<and>
     sc_finished s' = sc_finished s @ [(sq_continuation p, sq_requests p, sq_replies p, sq_type p = COMMIT)]"
proof -
  define t where "t = s\<lparr>sc_requestTimeout := False, sc_replySet := ms_Clear (sc_replySet s), sc_pendingRequest := None,
     sc_finished := sc_finished s @ [(sq_continuation p, sq_requests p, sq_replies p, sq_type p = COMMIT)]\<rparr>"
  let ?cs = "calls (sq_continuation p) (sq_requests p) (sq_replies p) (sq_type p = COMMIT)"
  have eq: "CompleteOperation calls s FATE_ACKED = fold_r (\<lambda>s (reqs, k). Invoke s reqs k True) t ?cs"
    using p ty by (simp add: CompleteOperation_def Let_def t_def)
  have t: "sc_inv t" "sc_pendingRequest t = None" using rr by (simp_all add: sc_inv_def t_def ms_Clear_def fun_eq_iff)
  have fin: "sc_finished t = sc_finished s @ [(sq_continuation p, sq_requests p, sq_replies p, sq_type p = COMMIT)]" by (simp add: t_def)
  have C: "length ?cs \<le> 1" "\<forall>x\<in>set ?cs. smap_ok (fst x) \<and> int (length (fst x)) < 2 ^ 32" using calls unfolding calls_ok_def by blast+
  show ?thesis
  proof (cases ?cs)
    case Nil
    then show ?thesis using eq t fin by simp
  next
    case (Cons c rest)
    then have "?cs = [c]" using C(1) by simp
    moreover obtain reqs k where c: "c = (reqs, k)" by (cases c)
    moreover obtain s' where "Invoke t reqs k True = Inr s'" "sc_inv s'" "sc_finished s' = sc_finished t"
      using Invoke_inv [OF t, of reqs k] C(2) calculation by auto
    ultimately show ?thesis using eq fin by simp
  qed
qed

section \<open>Replies\<close>

lemma HandleReply_other:
  assumes "\<And>p. sc_pendingRequest s = Some p \<Longrightarrow> rm_clientreqid m \<noteq> sq_client_req_id p"
  shows "HandleReply calls s m = Inr s"
  using assms by (simp add: HandleReply_def split: option.splits)

text \<open>A reply for the pending request is recorded for its shard; when the last shard has answered the round is over.\<close>

lemma HandleReply_spec:
  assumes inv: "sc_inv s" and p: "sc_pendingRequest s = Some p" and id: "rm_clientreqid m = sq_client_req_id p"
    and shard: "sint (rm_shard_num m) \<in> shards p" and fits: "reply_fits p m" and calls: "calls_ok calls"
    and R: "R = smap_put (sint (rm_shard_num m)) m (collected s)"
  shows "\<exists>s'. HandleReply calls s m = Inr s' \<and> sc_inv s' \<and>
     (if fst ` set R \<noteq> shards p
      then sc_pendingRequest s' = Some p \<and> collected s' = R \<and> sc_outbox s' = sc_outbox s \<and> sc_finished s' = sc_finished s
      else if sq_type p = PREPARE then next_phase s p (verdict FATE_COMMIT R) s'
      else sc_finished s' = sc_finished s @ [(sq_continuation p, sq_requests p, sq_replies p, sq_type p = COMMIT)])"
proof -
  have P: "pending_ok s p" and rr: "replicaRequired (sc_replySet s) = 1" and tm: "sc_requestTimeout s" using inv p by (simp_all add: sc_inv_def)
  then obtain R0 where R0: "ms_messages (sc_replySet s) = [sq_client_req_id p \<mapsto> (boxed R0, word_of_nat (length (sq_requests p)))]"
    "smap_ok R0" "fst ` set R0 \<subseteq> shards p" "\<forall>x\<in>set R0. reply_fits p (snd x)"
    unfolding pending_ok_def by blast
  have col: "collected s = R0" using p R0(1) by (simp add: collected_def)
  have ok: "smap_ok (sq_requests p)" "int (length (sq_requests p)) < 2 ^ 32" "0 \<le> sq_num_retries p" "sq_txnid p = sc_txnid s"
    "sq_type p \<noteq> UNKNOWN" "sq_type p = PREPARE \<Longrightarrow> sq_num_retries p < MAX_RETRIES" "sq_client_req_id p = sc_lastReqId s"
    using P by (simp_all add: pending_ok_def)
  have Rfit: "\<forall>x\<in>set R. reply_fits p (snd x)" unfolding R col by (rule smap_put_all [OF fits R0(4)])
  define t where "t = s\<lparr>sc_replySet := (sc_replySet s)\<lparr>ms_messages := [sq_client_req_id p \<mapsto> (boxed R, word_of_nat (length (sq_requests p)))]\<rparr>\<rparr>"
  note reply = add_reply [OF R0(1) rr ok(1,2) R0(2) R0(3) [unfolded shards_def] shard [unfolded shards_def] R [unfolded col], folded shards_def]
  note Rok = reply(2,3)
  have add: "ms_AddAndCheckForQuorum (sc_replySet s) (sq_client_req_id p) (sint (rm_shard_num m)) 0 m =
      (sc_replySet t, if fst ` set R = shards p then Some (boxed R) else None)" using reply(1) by (simp add: t_def)
  have t: "t = s\<lparr>sc_replySet := sc_replySet t\<rparr>" "replicaRequired (sc_replySet t) = 1" using rr by (simp_all add: t_def)
  show ?thesis
  proof (cases "fst ` set R = shards p")
    case False
    then have run: "HandleReply calls s m = Inr t" using p id add t(1) by (simp add: HandleReply_def Let_def)
    have "pending_ok t p" using ok Rok Rfit by (auto simp: pending_ok_def t_def)
    then have "sc_inv t" using p t(2) tm by (simp add: sc_inv_def t_def)
    moreover have "collected t = R" using p by (simp add: collected_def t_def)
    ultimately show ?thesis using False run p by (simp add: t_def)
  next
    case True
    have "shards p \<noteq> {}" using shard by blast
    then have ne: "R \<noteq> []" using True by auto
    show ?thesis
    proof (cases "sq_type p = PREPARE")
      case prep: True
      then have "\<forall>x\<in>set R. rm_type (snd x) \<noteq> ACK" using Rfit by (simp add: reply_fits_def)
      then obtain st where st: "fold_r (reply_step PREPARE) (Inr (FATE_COMMIT, sq_replies p)) (boxed R) = Inr st"
        "fst (case st of Inl x \<Rightarrow> x | Inr x \<Rightarrow> x) = verdict FATE_COMMIT R" using prepare_loop by blast
      obtain reps where reps: "(case st of Inl x \<Rightarrow> x | Inr x \<Rightarrow> x) = (verdict FATE_COMMIT R, reps)"
        using st(2) by (cases "case st of Inl x \<Rightarrow> x | Inr x \<Rightarrow> x") simp
      let ?p = "p\<lparr>sq_replies := reps\<rparr>"
      let ?t = "t\<lparr>sc_pendingRequest := Some ?p\<rparr>"
      have run: "HandleReply calls s m = CompleteOperation calls ?t (verdict FATE_COMMIT R)"
        using p id add t(1) True prep st(1) reps by (simp add: HandleReply_def Let_def)
      have "verdict FATE_COMMIT R \<noteq> FATE_ACKED" by (simp add: verdict_def)
      then obtain s' where "CompleteOperation calls ?t (verdict FATE_COMMIT R) = Inr s'" "sc_inv s'" "next_phase ?t ?p (verdict FATE_COMMIT R) s'"
        using CompleteOperation_phase [of ?t ?p "verdict FATE_COMMIT R" calls] prep ok t(2) by (auto simp: t_def)
      moreover have "next_phase ?t ?p f s' = next_phase s p f s'" for f
        by (simp add: next_phase_def next_type_def phase_messages_def client_message_def t_def)
      ultimately show ?thesis using run True prep by auto
    next
      case False
      then have ty: "sq_type p = COMMIT \<or> sq_type p = ABORT" using ok(5) by (cases "sq_type p") auto
      have "\<forall>x\<in>set R. rm_type (snd x) = ACK" using Rfit False by (simp add: reply_fits_def)
      from ack_loop [OF this ty, of FATE_COMMIT "sq_replies p"] ne
      have "HandleReply calls s m = CompleteOperation calls (t\<lparr>sc_pendingRequest := Some p\<rparr>) FATE_ACKED"
        using p id add t(1) True by (simp add: HandleReply_def Let_def)
      moreover have "t\<lparr>sc_pendingRequest := Some p\<rparr> = t" using p by (simp add: t_def)
      ultimately have "HandleReply calls s m = CompleteOperation calls t FATE_ACKED" by simp
      then show ?thesis
        using CompleteOperation_finish [of t p calls] ty t(2) calls p True False by (auto simp: t_def)
    qed
  qed
qed

section \<open>The decision\<close>

text \<open>C16. Two-phase commit decides as it must.  When the last shard's reply to a PREPARE arrives, the client starts exactly one
  new phase of the same transaction, under a fresh request identifier and with one message for each shard:
  COMMIT if and only if every shard said OK, ABORT if some shard said FAIL or retries are used up, and
  PREPARE again only if some shard asked for it.  Before the last reply it sends nothing.\<close>

theorem two_phase_decision:
  assumes "sc_inv s" and "sc_pendingRequest s = Some p" and "sq_type p = PREPARE" and "rm_clientreqid m = sq_client_req_id p"
    and "sint (rm_shard_num m) \<in> shards p" and "rm_type m \<noteq> ACK" and "calls_ok calls"
    and "R = smap_put (sint (rm_shard_num m)) m (collected s)"
  shows "\<exists>s' p'. HandleReply calls s m = Inr s' \<and> sc_pendingRequest s' = Some p' \<and>
     sq_txnid p' = sq_txnid p \<and> sq_requests p' = sq_requests p \<and> sc_finished s' = sc_finished s \<and>
     (if fst ` set R \<noteq> shards p then p' = p \<and> sc_outbox s' = sc_outbox s
      else sq_client_req_id p' = sc_lastReqId s + 1 \<and> sc_outbox s' = sc_outbox s @ phase_messages s p' \<and>
        (sq_type p' = COMMIT \<longleftrightarrow> (\<forall>x\<in>set R. rm_type (snd x) = OK)) \<and>
        ((\<exists>x\<in>set R. rm_type (snd x) = FAIL) \<longrightarrow> sq_type p' = ABORT) \<and>
        (sq_type p' = PREPARE \<longrightarrow> (\<exists>x\<in>set R. rm_type (snd x) = RETRY) \<and> sq_num_retries p' = sq_num_retries p + 1 \<and> sq_num_retries p' < MAX_RETRIES))"
proof -
  have fits: "reply_fits p m" using assms(3,6) by (simp add: reply_fits_def)
  obtain s' where s': "HandleReply calls s m = Inr s'" "sc_inv s'"
    "if fst ` set R \<noteq> shards p
     then sc_pendingRequest s' = Some p \<and> collected s' = R \<and> sc_outbox s' = sc_outbox s \<and> sc_finished s' = sc_finished s
     else next_phase s p (verdict FATE_COMMIT R) s'"
    using HandleReply_spec [OF assms(1,2,4,5) fits assms(7,8)] assms(3) by auto
  show ?thesis
  proof (cases "fst ` set R = shards p")
    case True
    then obtain p' where p': "sc_pendingRequest s' = Some p'" "sq_client_req_id p' = sc_lastReqId s + 1" "sq_txnid p' = sq_txnid p"
      "sq_requests p' = sq_requests p" "sq_type p' = next_type (verdict FATE_COMMIT R) p"
      "sq_num_retries p' = (if verdict FATE_COMMIT R = FATE_RETRY then sq_num_retries p + 1 else sq_num_retries p)"
      "sc_outbox s' = sc_outbox s @ phase_messages s p'" "sc_finished s' = sc_finished s"
      using s'(3) unfolding next_phase_def by auto
    have no_ack: "\<forall>x\<in>set R. rm_type (snd x) \<noteq> ACK"
    proof -
      obtain R0 where R0: "ms_messages (sc_replySet s) = [sq_client_req_id p \<mapsto> (boxed R0, word_of_nat (length (sq_requests p)))]"
        "smap_ok R0" "\<forall>x\<in>set R0. reply_fits p (snd x)"
        using assms(1,2) by (auto simp: sc_inv_def pending_ok_def)
      then have "R = smap_put (sint (rm_shard_num m)) m R0" using assms(2,8) by (simp add: collected_def)
      then show ?thesis using smap_put_all [OF fits R0(3)] assms(3) by (simp add: reply_fits_def)
    qed
    have all_ok: "verdict FATE_COMMIT R = FATE_COMMIT \<longleftrightarrow> (\<forall>x\<in>set R. rm_type (snd x) = OK)"
      using no_ack by (rule verdict_commit)
    have v: "(\<exists>x\<in>set R. rm_type (snd x) = FAIL) \<Longrightarrow> verdict FATE_COMMIT R = FATE_ABORT"
      "verdict FATE_COMMIT R = FATE_RETRY \<Longrightarrow> \<exists>x\<in>set R. rm_type (snd x) = RETRY" by (auto simp: verdict_def split: if_splits)
    have ty: "sq_type p' = COMMIT \<longleftrightarrow> (\<forall>x\<in>set R. rm_type (snd x) = OK)"
      using p'(5) all_ok by (simp add: next_type_def)
    have ab: "(\<exists>x\<in>set R. rm_type (snd x) = FAIL) \<longrightarrow> sq_type p' = ABORT"
      using v(1) p'(5) by (auto simp: next_type_def)
    have again: "sq_type p' = PREPARE \<longrightarrow> (\<exists>x\<in>set R. rm_type (snd x) = RETRY) \<and> sq_num_retries p' = sq_num_retries p + 1 \<and> sq_num_retries p' < MAX_RETRIES"
      using v(2) p'(5,6) by (simp add: next_type_def split: if_splits)
    show ?thesis using s'(1) p'(1-4,7,8) True ty ab again by (intro exI [of _ s'] exI [of _ p']) auto
  next
    case False
    then show ?thesis using s'(1,3) assms(2) by auto
  qed
qed

section \<open>Transactions finish\<close>

text \<open>A round: every shard answers the current phase; \<open>f\<close> gives the answers to a PREPARE, other phases are
  acknowledged.\<close>

type_synonym answers = "u32 \<Rightarrow> ReplyType \<times> string"

definition reply_for :: "'k PendingRequest \<Rightarrow> answers \<Rightarrow> u32 \<Rightarrow> ReplyMessage" where
  "reply_for p f shard = \<lparr>rm_clientreqid = sq_client_req_id p, rm_shard_num = shard,
     rm_type = (if sq_type p = PREPARE then fst (f shard) else ACK), rm_reply = snd (f shard)\<rparr>"

definition round_of :: "'k calls \<Rightarrow> 'k SpannerClient \<Rightarrow> answers \<Rightarrow> 'k SpannerClient result" where
  "round_of calls s f =
     (case sc_pendingRequest s of
        None \<Rightarrow> Inr s
      | Some p \<Rightarrow> fold_r (HandleReply calls) s (map (\<lambda>x. reply_for p f (fst x)) (sq_requests p)))"

definition rounds_left :: "'k PendingRequest \<Rightarrow> nat" where
  "rounds_left p = (if sq_type p = PREPARE then nat (MAX_RETRIES - sq_num_retries p) + 1 else 1)"

lemma reply_for_fits: "fst (f shard) \<noteq> ACK \<Longrightarrow> reply_fits p (reply_for p f shard)"
  by (simp add: reply_fits_def reply_for_def)

text \<open>The client collects the replies of the shards of its pending request.\<close>

definition phase_frame :: "'k SpannerClient \<Rightarrow> 'k PendingRequest option \<times> ('k \<times> shard_map \<times> shard_map \<times> bool) list" where
  "phase_frame s = (sc_pendingRequest s, sc_finished s)"

definition phase_shards :: "'k PendingRequest option \<times> 'f \<Rightarrow> int set" where
  "phase_shards F = (case fst F of None \<Rightarrow> {} | Some p \<Rightarrow> shards p)"

definition phase_fits :: "'k PendingRequest option \<times> 'f \<Rightarrow> ReplyMessage \<Rightarrow> bool" where
  "phase_fits F m \<longleftrightarrow> (case fst F of None \<Rightarrow> False
     | Some p \<Rightarrow> rm_clientreqid m = sq_client_req_id p \<and> sint (rm_shard_num m) \<in> shards p \<and> reply_fits p m)"

lemma phase_collector:
  fixes calls :: "'k calls"
  assumes "calls_ok calls"
  shows "shard_collector (HandleReply calls) sc_inv phase_frame phase_shards phase_fits (\<lambda>m. sint (rm_shard_num m)) collected"
proof
  fix s :: "'k SpannerClient" and m R
  assume a: "sc_inv s" "phase_fits (phase_frame s) m" "R = smap_put (sint (rm_shard_num m)) m (collected s)" "fst ` set R \<noteq> phase_shards (phase_frame s)"
  then obtain p where p: "sc_pendingRequest s = Some p" "rm_clientreqid m = sq_client_req_id p" "sint (rm_shard_num m) \<in> shards p" "reply_fits p m"
    by (auto simp: phase_fits_def phase_frame_def split: option.splits)
  moreover have "fst ` set R \<noteq> shards p" using a(4) p(1) by (simp add: phase_shards_def phase_frame_def)
  ultimately show "\<exists>s'. HandleReply calls s m = Inr s' \<and> sc_inv s' \<and> phase_frame s' = phase_frame s \<and> collected s' = R"
    using HandleReply_spec [OF a(1) p assms a(3)] by (auto simp: phase_frame_def)
qed

lemma full_round:
  assumes inv: "sc_inv s" and p: "sc_pendingRequest s = Some p" and none: "collected s = []" and calls: "calls_ok calls"
    and f: "\<forall>x. fst (f x) \<noteq> ACK" and req: "sq_requests p \<noteq> []"
  shows "\<exists>s'. round_of calls s f = Inr s' \<and> sc_inv s' \<and>
     (if sq_type p = PREPARE
      then sc_finished s' = sc_finished s \<and> collected s' = [] \<and>
        (\<exists>p'. sc_pendingRequest s' = Some p' \<and> sq_requests p' = sq_requests p \<and> sq_continuation p' = sq_continuation p \<and> rounds_left p' < rounds_left p)
      else sc_finished s' = sc_finished s @ [(sq_continuation p, sq_requests p, sq_replies p, sq_type p = COMMIT)])"
proof -
  obtain xs x where xs: "sq_requests p = xs @ [x]" using req by (cases "sq_requests p" rule: rev_cases) auto
  have "smap_ok (sq_requests p)" using inv p by (simp add: sc_inv_def pending_ok_def)
  note last = last_shard_missing [of xs x, folded xs, OF this]
  have fits: "\<forall>m\<in>set (map (\<lambda>x. reply_for p f (fst x)) xs). phase_fits (phase_frame s) m"
    using p f xs reply_for_fits [of f _ p] shard_set_fst [of _ "sq_requests p"]
    by (auto simp: phase_fits_def phase_frame_def shards_def) (auto simp: reply_for_def)
  obtain t where t: "fold_r (HandleReply calls) s (map (\<lambda>x. reply_for p f (fst x)) xs) = Inr t" "sc_inv t" "sc_pendingRequest t = Some p"
     "fst ` set (collected t) = sint ` fst ` set xs" "sc_finished t = sc_finished s"
    using shard_collector.replies_recorded [OF phase_collector [OF calls] inv fits, of "sint (fst x)"] last none p
    by (auto simp: phase_shards_def phase_frame_def shards_def reply_for_def collected_keys image_image)
  let ?m = "reply_for p f (fst x)"
  define R where "R = smap_put (sint (rm_shard_num ?m)) ?m (collected t)"
  have all: "fst ` set R = shards p" using t(4) xs by (simp add: R_def reply_for_def shards_def shard_set_def)
  have "rm_clientreqid ?m = sq_client_req_id p" "sint (rm_shard_num ?m) \<in> shards p" using xs by (simp_all add: reply_for_def shards_def shard_set_def)
  from HandleReply_spec [OF t(2,3) this reply_for_fits [OF f [rule_format]] calls R_def] all
  obtain s' where s': "HandleReply calls t ?m = Inr s'" "sc_inv s'"
    "if sq_type p = PREPARE then next_phase t p (verdict FATE_COMMIT R) s'
     else sc_finished s' = sc_finished t @ [(sq_continuation p, sq_requests p, sq_replies p, sq_type p = COMMIT)]" by auto
  have run: "round_of calls s f = Inr s'" using t(1) s'(1) xs by (simp add: round_of_def p)
  have "0 \<le> sq_num_retries p" "sq_type p = PREPARE \<Longrightarrow> sq_num_retries p < MAX_RETRIES" using inv p by (simp_all add: sc_inv_def pending_ok_def)
  then have "rounds_left p' < rounds_left p"
    if "sq_type p = PREPARE" "sq_type p' = next_type fate p" "sq_num_retries p' = (if fate = FATE_RETRY then sq_num_retries p + 1 else sq_num_retries p)" for p' fate
    using that by (auto simp: rounds_left_def next_type_def)
  then show ?thesis using run s'(2,3) t(5) by (auto simp: next_phase_def)
qed

lemma rounds_finish:
  assumes "sc_inv s" and "sc_pendingRequest s = Some p" and "collected s = []" and "calls_ok calls" and "\<forall>f\<in>set fs. \<forall>x. fst (f x) \<noteq> ACK"
    and "sq_requests p \<noteq> []" and "rounds_left p \<le> length fs"
  shows "\<exists>n s' reps c. n \<le> rounds_left p \<and> fold_r (round_of calls) s (take n fs) = Inr s' \<and>
     sc_finished s' = sc_finished s @ [(sq_continuation p, sq_requests p, reps, c)]"
  using assms
proof (induction fs arbitrary: s p)
  case Nil
  then show ?case by (simp add: rounds_left_def split: if_splits)
next
  case (Cons f fs)
  have f: "\<forall>x. fst (f x) \<noteq> ACK" using Cons.prems(5) by simp
  from full_round [OF Cons.prems(1-4) f Cons.prems(6)] obtain t where t: "round_of calls s f = Inr t" "sc_inv t"
    "if sq_type p = PREPARE
      then sc_finished t = sc_finished s \<and> collected t = [] \<and>
        (\<exists>p'. sc_pendingRequest t = Some p' \<and> sq_requests p' = sq_requests p \<and> sq_continuation p' = sq_continuation p \<and> rounds_left p' < rounds_left p)
      else sc_finished t = sc_finished s @ [(sq_continuation p, sq_requests p, sq_replies p, sq_type p = COMMIT)]" by blast
  show ?case
  proof (cases "sq_type p = PREPARE")
    case True
    then obtain p' where p': "sc_pendingRequest t = Some p'" "sq_requests p' = sq_requests p" "sq_continuation p' = sq_continuation p" "rounds_left p' < rounds_left p"
      and T: "sc_finished t = sc_finished s" "collected t = []" using t(3) by auto
    have "\<forall>f\<in>set fs. \<forall>x. fst (f x) \<noteq> ACK" "sq_requests p' \<noteq> []" "rounds_left p' \<le> length fs" using Cons.prems(5,6,7) p'(2,4) by simp_all
    from Cons.IH [OF t(2) p'(1) T(2) Cons.prems(4) this] obtain n s' reps c where
      "n \<le> rounds_left p'" "fold_r (round_of calls) t (take n fs) = Inr s'" "sc_finished s' = sc_finished t @ [(sq_continuation p', sq_requests p', reps, c)]"
      by blast
    then show ?thesis using t(1) p' T by (intro exI [of _ "Suc n"]) auto
  next
    case False
    then show ?thesis using t by (intro exI [of _ 1]) (auto simp: rounds_left_def)
  qed
qed

text \<open>C19. Every transaction comes to an end.  However often shards refuse a PREPARE because of locks, once each phase has been
  answered by all shards the continuation runs after at most six phases: five attempts to prepare and
  one COMMIT or ABORT.\<close>

theorem transaction_finishes:
  assumes "sc_inv s" and "sc_pendingRequest s = None" and "smap_ok requests" and "requests \<noteq> []" and "int (length requests) < 2 ^ 32"
    and "calls_ok calls" and "\<forall>f\<in>set fs. \<forall>x. fst (f x) \<noteq> ACK" and "length fs = 6"
  shows "\<exists>s1 n s' reps c. Invoke s requests k True = Inr s1 \<and> n \<le> 6 \<and> fold_r (round_of calls) s1 (take n fs) = Inr s' \<and>
     sc_finished s' = sc_finished s @ [(k, requests, reps, c)]"
proof -
  obtain s1 p where s1: "Invoke s requests k True = Inr s1" "sc_inv s1" "sc_finished s1 = sc_finished s" "sc_pendingRequest s1 = Some p"
    "sq_requests p = requests" "sq_continuation p = k" "sq_type p = PREPARE" "sq_num_retries p = 0" "collected s1 = []"
    using Invoke_inv [OF assms(1,2,3,5), of k] by auto
  have "rounds_left p = 6" using s1(7,8) by (simp add: rounds_left_def MAX_RETRIES_def)
  then show ?thesis
    using rounds_finish [OF s1(2,4,9) assms(6,7)] s1 assms(4,8) by auto
qed

section \<open>Runs\<close>

fun client_ok :: "'k SpannerClient \<Rightarrow> 'k client_event \<Rightarrow> bool" where
  "client_ok s (AppInvokes requests k) = (sc_pendingRequest s = None \<and> smap_ok requests \<and> int (length requests) < 2 ^ 32)"
| "client_ok s (ReplyArrives m) =
     (case sc_pendingRequest s of
        None \<Rightarrow> True
      | Some p \<Rightarrow> rm_clientreqid m = sq_client_req_id p \<longrightarrow> sint (rm_shard_num m) \<in> shards p \<and> reply_fits p m)"
| "client_ok s TimeoutFires = True"

text \<open>What a server answers fits the phase it answers.\<close>

lemma server_reply_fits:
  assumes "reply_type (sq_type p) ret = Inr rt" and "sq_type p \<noteq> UNKNOWN"
  shows "reply_fits p (txn_reply srv req rt res)"
  using assms by (cases "sq_type p") (auto simp: reply_type_def reply_fits_def txn_reply_def split: if_splits)

lemma SendRequest_inv:
  assumes "sc_inv s" and "sc_requestTimeout s"
  shows "\<exists>s'. SendRequest s = Inr s' \<and> sc_inv s'"
proof -
  obtain p where p: "sc_pendingRequest s = Some p" using assms by (cases "sc_pendingRequest s") (simp_all add: sc_inv_def)
  then show ?thesis using assms by (auto simp: SendRequest_def sc_inv_def pending_ok_def)
qed

lemma client_step:
  assumes "calls_ok calls" and inv: "sc_inv s" and ok: "client_ok s ev"
  shows "\<exists>s'. client_handle calls s ev = Inr s' \<and> sc_inv s'"
proof (cases ev)
  case (AppInvokes requests k)
  then show ?thesis using Invoke_inv [OF inv, of requests k] ok by auto
next
  case (ReplyArrives m)
  show ?thesis
  proof (cases "\<exists>p. sc_pendingRequest s = Some p \<and> rm_clientreqid m = sq_client_req_id p")
    case True
    then obtain p where p: "sc_pendingRequest s = Some p" "rm_clientreqid m = sq_client_req_id p" by blast
    then show ?thesis using HandleReply_spec [OF inv p _ _ assms(1) refl] ok ReplyArrives by auto
  next
    case False
    then show ?thesis using HandleReply_other [of s m calls] inv ReplyArrives by auto
  qed
next
  case TimeoutFires
  then show ?thesis using SendRequest_inv [OF inv] inv by (cases "sc_requestTimeout s") (auto simp: RequestTimeout_def)
qed

lemma client_total: "calls_ok calls \<Longrightarrow> total_system (client_handle calls) client_ok sc_inv"
  by unfold_locales (use client_step in fastforce)+

definition no_calls :: "'k calls" where
  "no_calls k reqs reps c = []"

interpretation sp_client: total_system "client_handle no_calls" client_ok sc_inv
  by (rule client_total) (simp add: calls_ok_def no_calls_def)

interpretation sp_phase: shard_collector "HandleReply no_calls" sc_inv phase_frame phase_shards phase_fits "\<lambda>m. sint (rm_shard_num m)" collected
  by (rule phase_collector) (simp add: calls_ok_def no_calls_def)

lemma sc_inv_new: "sc_inv (SpannerClient_new c)"
  by (simp add: sc_inv_def SpannerClient_new_def MessageSet_new_def)

definition sample_shards :: shard_map where
  "sample_shards = [(0, ''a''), (1, ''b'')]"

definition sample_ok :: "u32 \<Rightarrow> ReplyMessage" where
  "sample_ok shard = \<lparr>rm_clientreqid = 1, rm_shard_num = shard, rm_type = OK, rm_reply = ''r''\<rparr>"

text \<open>Two shards agree to commit.\<close>

definition sample_client_events :: "string client_event list" where
  "sample_client_events = [AppInvokes sample_shards ''k'', ReplyArrives (sample_ok 0)]"

theorem two_phase_decision_witness:
  "\<exists>s s' p'. fold_r (client_handle no_calls) (SpannerClient_new 30001) sample_client_events = Inr s \<and>
     HandleReply no_calls s (sample_ok 1) = Inr s' \<and> sc_pendingRequest s' = Some p' \<and> sq_type p' = COMMIT \<and> sq_requests p' = sample_shards"
proof -
  let ?run = "fold_r (client_handle no_calls) (SpannerClient_new 30001) sample_client_events"
  have "accepts (client_handle no_calls) client_ok (SpannerClient_new 30001) sample_client_events" by code_simp
  then obtain s where s: "?run = Inr s" "sc_inv s" using sp_client.run_total [OF sc_inv_new] by blast
  have "case ?run of Inl _ \<Rightarrow> False
     | Inr s \<Rightarrow> (case sc_pendingRequest s of None \<Rightarrow> False
         | Some p \<Rightarrow> sq_type p = PREPARE \<and> sq_requests p = sample_shards \<and> rm_clientreqid (sample_ok 1) = sq_client_req_id p \<and>
             sint (rm_shard_num (sample_ok 1)) \<in> shards p \<and>
             (let R = smap_put (sint (rm_shard_num (sample_ok 1))) (sample_ok 1) (collected s)
              in fst ` set R = shards p \<and> (\<forall>x\<in>set R. rm_type (snd x) = OK)))" by code_simp
  note state = this [unfolded s(1) sum.case]
  obtain p where p: "sc_pendingRequest s = Some p" "sq_type p = PREPARE" "sq_requests p = sample_shards" "rm_clientreqid (sample_ok 1) = sq_client_req_id p"
    "sint (rm_shard_num (sample_ok 1)) \<in> shards p"
    and R: "fst ` set (smap_put (sint (rm_shard_num (sample_ok 1))) (sample_ok 1) (collected s)) = shards p"
      "\<forall>x\<in>set (smap_put (sint (rm_shard_num (sample_ok 1))) (sample_ok 1) (collected s)). rm_type (snd x) = OK"
    using state by (cases "sc_pendingRequest s") (simp_all add: Let_def)
  have "rm_type (sample_ok 1) \<noteq> ACK" "calls_ok no_calls" by (simp_all add: sample_ok_def calls_ok_def no_calls_def)
  from two_phase_decision [OF s(2) p(1,2,4,5) this refl] R p(3) s(1) show ?thesis by fastforce
qed

text \<open>Shards that always ask for a retry.\<close>

theorem transaction_finishes_witness:
  "\<exists>s1 n s' reps c. Invoke (SpannerClient_new 30001) sample_shards ''k'' True = Inr s1 \<and> n \<le> 6 \<and>
     fold_r (round_of no_calls) s1 (take n (replicate 6 (\<lambda>_. (RETRY, '''')))) = Inr s' \<and> sc_finished s' = [(''k'', sample_shards, reps, c)]"
proof -
  have a: "sc_pendingRequest (SpannerClient_new 30001 :: string SpannerClient) = None" "sc_finished (SpannerClient_new 30001 :: string SpannerClient) = []" by (simp_all add: SpannerClient_new_def)
  have b: "smap_ok sample_shards" "sample_shards \<noteq> []" "int (length sample_shards) < 2 ^ 32" by (simp_all add: sample_shards_def smap_ok_def)
  have c: "calls_ok no_calls" by (simp add: calls_ok_def no_calls_def)
  show ?thesis
    using transaction_finishes [OF sc_inv_new a(1) b c, of "replicate 6 (\<lambda>_. (RETRY, ''''))" "''k''"] a(2) by simp
qed

end
