(* ===== verification/TapirServer.thy ===== *)
theory TapirServer
  imports TxnApps
begin

text \<open>
  The server of the TAPIR protocol: the record of operations of \<^verbatim>\<open>transaction/tapir/record.h\<close> and
  \<^verbatim>\<open>transaction/tapir/record.cc\<close>, the handlers of \<^verbatim>\<open>transaction/tapir/server.cc\<close> and the messages of
  \<^verbatim>\<open>transaction/tapir/tapir-proto.proto\<close>.  A replica does not order operations.  A PREPARE is a consensus
  operation and runs when it is proposed; a COMMIT or an ABORT is an inconsistent operation and runs when
  it is finalized.

  The record, a \<^verbatim>\<open>std::map\<close> nothing iterates over, is a partial function.  What protobuf does with the strings
  inside requests and replies is a parameter (\<open>te_parse_txn\<close>, \<open>te_print_reply\<close>), and so is the application.
  The messages a handler sends are appended to \<open>ts_outbox\<close>.
\<close>

section \<open>Messages\<close>

datatype Operation = UNKNOWN | PREPARE | COMMIT | ABORT

record Transaction =
  tx_txnid :: u64
  tx_op :: Operation
  tx_txn :: string

datatype Status = OK | FAILED | RETRY

record ReplyMessage =
  rp_status :: Status
  rp_reply :: string

type_synonym opid_t = "u64 \<times> u64"

datatype ToServerMessage =
    ProposeInconsistent Request
  | FinalizeInconsistent opid_t
  | ProposeConsensus Request
  | FinalizeConsensus opid_t string
  | ToServerNotSet

text \<open>\<^verbatim>\<open>ReplyInconsistentMessage\<close>, \<^verbatim>\<open>ReplyConsensusMessage\<close> and \<^verbatim>\<open>ConfirmMessage\<close>: view, replica, operation and
  result.\<close>

datatype ToClientMessage =
    InconsistentReply u64 u32 opid_t
  | ConsensusReply u64 u32 opid_t string
  | Confirm u64 u32 opid_t
  | ToClientNotSet

section \<open>The record\<close>

datatype RecordEntryState = RECORD_STATE_TENTATIVE | RECORD_STATE_FINALIZED

record RecordEntry =
  re_view :: u64
  re_opid :: opid_t
  re_state :: RecordEntryState
  re_request :: Request
  re_result :: string

type_synonym Record = "opid_t \<rightharpoonup> RecordEntry"

text \<open>A new entry has the result its default constructor gives it, the empty string.\<close>

definition Record_Add :: "Record \<Rightarrow> u64 \<Rightarrow> opid_t \<Rightarrow> Request \<Rightarrow> RecordEntryState \<Rightarrow> (Record \<times> RecordEntry) result" where
  "Record_Add r view opid request state =
     (let entry = \<lparr>re_view = view, re_opid = opid, re_state = state, re_request = request, re_result = ''''\<rparr>
      in check (r opid = None) AssertFailed (Inr (r(opid \<mapsto> entry), entry)))"

text \<open>The second \<^verbatim>\<open>Add\<close> stores the result in a local copy of the entry and returns the entry of the map.\<close>

definition Record_Add_result ::
  "Record \<Rightarrow> u64 \<Rightarrow> opid_t \<Rightarrow> Request \<Rightarrow> RecordEntryState \<Rightarrow> string \<Rightarrow> (Record \<times> RecordEntry) result" where
  "Record_Add_result r view opid request state res =
     rbind (Record_Add r view opid request state) (\<lambda>(r1, e).
       let entry = e\<lparr>re_result := res\<rparr> in Inr (r1, e))"

definition Record_Find :: "Record \<Rightarrow> opid_t \<Rightarrow> RecordEntry option result" where
  "Record_Find r opid =
     (case r opid of
        None \<Rightarrow> Inr None
      | Some entry \<Rightarrow> check (re_opid entry = opid) AssertFailed (Inr (Some entry)))"

definition set_entry :: "(RecordEntry \<Rightarrow> RecordEntry) \<Rightarrow> Record \<Rightarrow> opid_t \<Rightarrow> (Record \<times> bool) result" where
  "set_entry f r opid =
     rbind (Record_Find r opid) (\<lambda>x. case x of
       None \<Rightarrow> Inr (r, False)
     | Some entry \<Rightarrow> Inr (r(opid \<mapsto> f entry), True))"

definition Record_SetStatus :: "Record \<Rightarrow> opid_t \<Rightarrow> RecordEntryState \<Rightarrow> (Record \<times> bool) result" where
  "Record_SetStatus r opid state = set_entry (re_state_update (\<lambda>_. state)) r opid"

definition Record_SetResult :: "Record \<Rightarrow> opid_t \<Rightarrow> string \<Rightarrow> (Record \<times> bool) result" where
  "Record_SetResult r opid res = set_entry (re_result_update (\<lambda>_. res)) r opid"

definition Record_SetRequest :: "Record \<Rightarrow> opid_t \<Rightarrow> Request \<Rightarrow> (Record \<times> bool) result" where
  "Record_SetRequest r opid req = set_entry (re_request_update (\<lambda>_. req)) r opid"

definition Record_Remove :: "Record \<Rightarrow> opid_t \<Rightarrow> Record" where
  "Record_Remove r opid = r(opid := None)"

definition Record_Empty :: "Record \<Rightarrow> bool" where
  "Record_Empty r \<longleftrightarrow> r = Map.empty"

section \<open>The server\<close>

record 'a TapirServer =
  ts_groupIdx :: int
  ts_replicaIdx :: int
  ts_view :: u64
  ts_record :: Record
  ts_app_state :: 'a
  ts_outbox :: "(TransportAddress \<times> ToClientMessage) list"

record 'a tapir_env =
  te_app :: "'a txn_app"
  te_parse_txn :: "string \<Rightarrow> Transaction"
  te_print_reply :: "ReplyMessage \<Rightarrow> string"

definition TapirServer_new :: "int \<Rightarrow> int \<Rightarrow> 'a \<Rightarrow> 'a TapirServer" where
  "TapirServer_new myShard myIdx a =
     \<lparr>ts_groupIdx = myShard, ts_replicaIdx = myIdx, ts_view = 0, ts_record = Map.empty, ts_app_state = a, ts_outbox = []\<rparr>"

definition send :: "'a TapirServer \<Rightarrow> TransportAddress \<Rightarrow> ToClientMessage \<Rightarrow> 'a TapirServer" where
  "send s remote m = s\<lparr>ts_outbox := ts_outbox s @ [(remote, m)]\<rparr>"

definition my_idx :: "'a TapirServer \<Rightarrow> u32" where
  "my_idx s = word_of_int (ts_replicaIdx s)"

definition opid_of :: "Request \<Rightarrow> opid_t" where
  "opid_of req = (req_clientid req, req_clientreqid req)"

definition HandleProposeInconsistent :: "'a TapirServer \<Rightarrow> TransportAddress \<Rightarrow> Request \<Rightarrow> 'a TapirServer result" where
  "HandleProposeInconsistent s remote req =
     (let opid = opid_of req in
      rbind (Record_Find (ts_record s) opid) (\<lambda>x. case x of
        Some entry \<Rightarrow> Inr (send s remote (InconsistentReply (re_view entry) (my_idx s) opid))
      | None \<Rightarrow>
          rbind (Record_Add (ts_record s) (ts_view s) opid req RECORD_STATE_TENTATIVE) (\<lambda>(r, _).
            Inr (send (s\<lparr>ts_record := r\<rparr>) remote (InconsistentReply (ts_view s) (my_idx s) opid)))))"

definition finish_arg :: "Transaction \<Rightarrow> txnarg_t" where
  "finish_arg t = \<lparr>ta_txnid = tx_txnid t, ta_type = (if tx_op t = COMMIT then TXN_COMMIT else TXN_ABORT)\<rparr>"

definition HandleFinalizeInconsistent ::
  "'a tapir_env \<Rightarrow> 'a TapirServer \<Rightarrow> TransportAddress \<Rightarrow> opid_t \<Rightarrow> 'a TapirServer result" where
  "HandleFinalizeInconsistent env s remote opid =
     rbind (Record_Find (ts_record s) opid) (\<lambda>x. case x of
       None \<Rightarrow> Inr s
     | Some entry \<Rightarrow>
         if re_state entry \<noteq> RECORD_STATE_TENTATIVE then Inr s
         else rbind (Record_SetStatus (ts_record s) opid RECORD_STATE_FINALIZED) (\<lambda>(r, _).
                let t = te_parse_txn env (req_op (re_request entry)) in
                check (tx_op t = COMMIT \<or> tx_op t = ABORT) AssertFailed
                  (rbind (TxnServer_ReplicaUpcall (te_app env) (ts_app_state s) 0 (tx_txn t) (finish_arg t)) (\<lambda>(a, res, ret).
                   check (\<not> tr_blocked ret) AssertFailed
                    (check (tr_unblocked_txns ret = {}) AssertFailed
                     (check (tr_commit ret) AssertFailed
                      (Inr (send (s\<lparr>ts_record := r, ts_app_state := a\<rparr>) remote (Confirm (ts_view s) (my_idx s) opid)))))))))"

definition prepare_arg :: "Transaction \<Rightarrow> txnarg_t" where
  "prepare_arg t = \<lparr>ta_txnid = tx_txnid t, ta_type = TXN_PREPARE\<rparr>"

definition prepare_reply :: "txnret_t \<Rightarrow> string \<Rightarrow> ReplyMessage" where
  "prepare_reply ret res =
     \<lparr>rp_status = (if tr_blocked ret then RETRY else if tr_commit ret then OK else RETRY), rp_reply = res\<rparr>"

definition HandleProposeConsensus ::
  "'a tapir_env \<Rightarrow> 'a TapirServer \<Rightarrow> TransportAddress \<Rightarrow> Request \<Rightarrow> 'a TapirServer result" where
  "HandleProposeConsensus env s remote req =
     (let opid = opid_of req in
      rbind (Record_Find (ts_record s) opid) (\<lambda>x. case x of
        Some entry \<Rightarrow> Inr (send s remote (ConsensusReply (re_view entry) (my_idx s) opid (re_result entry)))
      | None \<Rightarrow>
          let t = te_parse_txn env (req_op req) in
          check (tx_op t = PREPARE) AssertFailed
            (rbind (TxnServer_ReplicaUpcall (te_app env) (ts_app_state s) 0 (tx_txn t) (prepare_arg t)) (\<lambda>(a, res, ret).
             let str = te_print_reply env (prepare_reply ret res) in
             rbind (Record_Add_result (ts_record s) (ts_view s) opid req RECORD_STATE_TENTATIVE str) (\<lambda>(r, _).
               Inr (send (s\<lparr>ts_record := r, ts_app_state := a\<rparr>) remote (ConsensusReply (ts_view s) (my_idx s) opid str)))))))"

definition HandleFinalizeConsensus :: "'a TapirServer \<Rightarrow> TransportAddress \<Rightarrow> opid_t \<Rightarrow> string \<Rightarrow> 'a TapirServer result" where
  "HandleFinalizeConsensus s remote opid res =
     rbind (Record_Find (ts_record s) opid) (\<lambda>x. case x of
       None \<Rightarrow> Inr s
     | Some entry \<Rightarrow>
         rbind (Record_SetStatus (ts_record s) opid RECORD_STATE_FINALIZED) (\<lambda>(r, _).
           let r1 = (if res \<noteq> re_result entry then r(opid := map_option (re_result_update (\<lambda>_. res)) (r opid)) else r)
           in Inr (send (s\<lparr>ts_record := r1\<rparr>) remote (Confirm (ts_view s) (my_idx s) opid))))"

fun ReceiveMessage :: "'a tapir_env \<Rightarrow> 'a TapirServer \<Rightarrow> TransportAddress \<times> ToServerMessage \<Rightarrow> 'a TapirServer result" where
  "ReceiveMessage env s (remote, ProposeInconsistent req) = HandleProposeInconsistent s remote req"
| "ReceiveMessage env s (remote, FinalizeInconsistent opid) = HandleFinalizeInconsistent env s remote opid"
| "ReceiveMessage env s (remote, ProposeConsensus req) = HandleProposeConsensus env s remote req"
| "ReceiveMessage env s (remote, FinalizeConsensus opid res) = HandleFinalizeConsensus s remote opid res"
| "ReceiveMessage env s (remote, ToServerNotSet) = Inl Panicked"

section \<open>What a replica has executed\<close>

definition record_ok :: "Record \<Rightarrow> bool" where
  "record_ok r \<longleftrightarrow> (\<forall>opid e. r opid = Some e \<longrightarrow> re_opid e = opid)"

definition txn_of :: "'a tapir_env \<Rightarrow> RecordEntry \<Rightarrow> Transaction" where
  "txn_of env e = te_parse_txn env (req_op (re_request e))"

definition executed :: "'a tapir_env \<Rightarrow> RecordEntry \<Rightarrow> bool" where
  "executed env e \<longleftrightarrow> tx_op (txn_of env e) = PREPARE \<or> re_state e = RECORD_STATE_FINALIZED"

text \<open>The call of the application a transaction stands for, and a sequence of such calls.\<close>

definition txn_call :: "Transaction \<Rightarrow> string \<times> txnarg_t" where
  "txn_call t = (tx_txn t, if tx_op t = PREPARE then prepare_arg t else finish_arg t)"

definition run_app :: "'a txn_app \<Rightarrow> 'a \<Rightarrow> (string \<times> txnarg_t) list \<Rightarrow> 'a result" where
  "run_app app = fold_r (\<lambda>a (txn, arg). rbind (app a txn arg) (\<lambda>(a', _, _). Inr a'))"

text \<open>What the clients keep to: an inconsistent operation finishes a transaction, a consensus operation prepares
  one, and an operation is finalized as what it was proposed.\<close>

definition finishes :: "Transaction \<Rightarrow> bool" where
  "finishes t \<longleftrightarrow> tx_op t = COMMIT \<or> tx_op t = ABORT"

fun client_message :: "'a tapir_env \<Rightarrow> 'a TapirServer \<Rightarrow> TransportAddress \<times> ToServerMessage \<Rightarrow> bool" where
  "client_message env s (remote, ProposeInconsistent req) \<longleftrightarrow> finishes (te_parse_txn env (req_op req))"
| "client_message env s (remote, FinalizeInconsistent opid) \<longleftrightarrow> (case ts_record s opid of None \<Rightarrow> True | Some e \<Rightarrow> finishes (txn_of env e))"
| "client_message env s (remote, ProposeConsensus req) \<longleftrightarrow> tx_op (te_parse_txn env (req_op req)) = PREPARE"
| "client_message env s (remote, FinalizeConsensus opid res) \<longleftrightarrow> (case ts_record s opid of None \<Rightarrow> True | Some e \<Rightarrow> tx_op (txn_of env e) = PREPARE)"
| "client_message env s (remote, ToServerNotSet) \<longleftrightarrow> False"

definition calls :: "'a tapir_env \<Rightarrow> Record \<Rightarrow> opid_t list \<Rightarrow> (string \<times> txnarg_t) list" where
  "calls env r ops = map (\<lambda>opid. txn_call (txn_of env (the (r opid)))) ops"

definition executed_ops :: "'a tapir_env \<Rightarrow> 'a \<Rightarrow> 'a TapirServer \<Rightarrow> opid_t list \<Rightarrow> bool" where
  "executed_ops env a0 s ops \<longleftrightarrow> distinct ops \<and>
     set ops = {opid. \<exists>e. ts_record s opid = Some e \<and> executed env e} \<and>
     run_app (te_app env) a0 (calls env (ts_record s) ops) = Inr (ts_app_state s)"

definition tapir_inv :: "'a tapir_env \<Rightarrow> 'a \<Rightarrow> 'a TapirServer \<Rightarrow> bool" where
  "tapir_inv env a0 s \<longleftrightarrow> record_ok (ts_record s) \<and> (\<exists>ops. executed_ops env a0 s ops)"

lemma Record_Find_ok: "record_ok r \<Longrightarrow> Record_Find r opid = Inr (r opid)"
  by (simp add: Record_Find_def record_ok_def del: split_paired_All split: option.splits)

lemma set_entry_ok: "\<lbrakk> record_ok r; r opid = Some e \<rbrakk> \<Longrightarrow> set_entry f r opid = Inr (r(opid \<mapsto> f e), True)"
  by (simp add: set_entry_def Record_Find_ok)

lemma record_ok_put: "\<lbrakk> record_ok r; re_opid e = opid \<rbrakk> \<Longrightarrow> record_ok (r(opid \<mapsto> e))"
  by (simp add: record_ok_def)

lemma record_okD: "\<lbrakk> record_ok r; r opid = Some e \<rbrakk> \<Longrightarrow> re_opid e = opid"
  by (simp add: record_ok_def del: split_paired_All)

lemma tapir_send_frame [simp]:
  "ts_record (send s remote m) = ts_record s" "ts_app_state (send s remote m) = ts_app_state s"
  "ts_replicaIdx (send s remote m) = ts_replicaIdx s" "ts_view (send s remote m) = ts_view s"
  "ts_outbox (send s remote m) = ts_outbox s @ [(remote, m)]"
  by (simp_all add: send_def)

lemma run_app_snoc: "run_app app a (xs @ [x]) = rbind (run_app app a xs) (\<lambda>b. rbind (app b (fst x) (snd x)) (\<lambda>(b', _, _). Inr b'))"
  by (simp add: run_app_def split_beta rbind_id)

text \<open>How an entry's change and an execution affect the list of executed operations.\<close>

lemma executed_ops_put:
  assumes "executed_ops env a0 s ops" and "case ts_record s opid of None \<Rightarrow> \<not> executed env e
      | Some e0 \<Rightarrow> re_request e = re_request e0 \<and> (executed env e \<longleftrightarrow> executed env e0)"
    and "ts_record s' = (ts_record s)(opid \<mapsto> e)" and "ts_app_state s' = ts_app_state s"
  shows "executed_ops env a0 s' ops"
proof -
  have same: "txn_of env (the (ts_record s' x)) = txn_of env (the (ts_record s x))" if "x \<in> set ops" for x
    using assms that by (auto simp: executed_ops_def txn_of_def split: option.splits)
  have "set ops = {opid. \<exists>e. ts_record s' opid = Some e \<and> executed env e}"
    using assms by (auto simp: executed_ops_def split: option.splits)
  moreover have "calls env (ts_record s') ops = calls env (ts_record s) ops"
    unfolding calls_def using same by (intro map_cong refl arg_cong [of _ _ txn_call])
  ultimately show ?thesis using assms(1,4) by (simp add: executed_ops_def)
qed

lemma executed_ops_snoc:
  assumes "executed_ops env a0 s ops" and "\<forall>e0. ts_record s opid = Some e0 \<longrightarrow> \<not> executed env e0" and "executed env e"
    and "ts_record s' = (ts_record s)(opid \<mapsto> e)"
    and "te_app env (ts_app_state s) (fst (txn_call (txn_of env e))) (snd (txn_call (txn_of env e))) = Inr (ts_app_state s', res, ret)"
  shows "executed_ops env a0 s' (ops @ [opid])"
proof -
  have new: "opid \<notin> set ops" using assms(1,2) by (auto simp: executed_ops_def)
  then have same: "calls env (ts_record s') ops = calls env (ts_record s) ops"
    unfolding calls_def using assms(4) by (intro map_cong) auto
  have "set (ops @ [opid]) = {opid. \<exists>e. ts_record s' opid = Some e \<and> executed env e}"
    using assms(1,3,4) new by (auto simp: executed_ops_def)
  moreover have "calls env (ts_record s') (ops @ [opid]) = calls env (ts_record s) ops @ [txn_call (txn_of env e)]"
    using same assms(4) by (simp add: calls_def)
  ultimately show ?thesis using assms(1,5) new unfolding executed_ops_def by (simp add: run_app_snoc)
qed

lemma tapir_new_inv: "tapir_inv env a0 (TapirServer_new g i a0)"
proof -
  have "executed_ops env a0 (TapirServer_new g i a0) []"
    by (simp add: executed_ops_def TapirServer_new_def calls_def run_app_def)
  then show ?thesis unfolding tapir_inv_def by (auto simp: TapirServer_new_def record_ok_def)
qed

text \<open>Every handler leaves the record as it was, changes an entry, or runs one operation; these are the
  ways in which the invariant is kept.\<close>

lemma tapir_inv_keep: "\<lbrakk> tapir_inv env a0 s; ts_record s' = ts_record s; ts_app_state s' = ts_app_state s \<rbrakk> \<Longrightarrow> tapir_inv env a0 s'"
  by (simp add: tapir_inv_def executed_ops_def)

lemma tapir_inv_put:
  assumes "tapir_inv env a0 s" and "re_opid e = opid"
    and "case ts_record s opid of None \<Rightarrow> \<not> executed env e
      | Some e0 \<Rightarrow> re_request e = re_request e0 \<and> (executed env e \<longleftrightarrow> executed env e0)"
    and "ts_record s' = (ts_record s)(opid \<mapsto> e)" and "ts_app_state s' = ts_app_state s"
  shows "tapir_inv env a0 s'"
  using assms executed_ops_put [OF _ assms(3-5)] record_ok_put unfolding tapir_inv_def by metis

lemma tapir_inv_run:
  assumes "tapir_inv env a0 s" and "re_opid e = opid"
    and "\<forall>e0. ts_record s opid = Some e0 \<longrightarrow> \<not> executed env e0" and "executed env e"
    and "ts_record s' = (ts_record s)(opid \<mapsto> e)"
    and "te_app env (ts_app_state s) (fst (txn_call (txn_of env e))) (snd (txn_call (txn_of env e))) = Inr (ts_app_state s', res, ret)"
  shows "tapir_inv env a0 s'"
  using assms executed_ops_snoc [OF _ assms(3-6)] record_ok_put unfolding tapir_inv_def by metis

lemma HandleProposeInconsistent_inv:
  assumes "tapir_inv env a0 s" and "client_message env s (remote, ProposeInconsistent req)"
    and "HandleProposeInconsistent s remote req = Inr s'"
  shows "tapir_inv env a0 s'"
proof (cases "ts_record s (opid_of req)")
  case None
  let ?e = "\<lparr>re_view = ts_view s, re_opid = opid_of req, re_state = RECORD_STATE_TENTATIVE, re_request = req, re_result = ''''\<rparr>"
  have "ts_record s' = (ts_record s)(opid_of req \<mapsto> ?e)" "ts_app_state s' = ts_app_state s"
    using assms(1,3) None by (auto simp: HandleProposeInconsistent_def tapir_inv_def Record_Find_ok Record_Add_def Let_def)
  moreover have "\<not> executed env ?e" using assms(2) by (auto simp: executed_def txn_of_def finishes_def)
  ultimately show ?thesis using None by (intro tapir_inv_put [OF assms(1), of ?e]) simp_all
next
  case (Some e)
  then have "ts_record s' = ts_record s" "ts_app_state s' = ts_app_state s"
    using assms(1,3) by (auto simp: HandleProposeInconsistent_def tapir_inv_def Record_Find_ok Let_def)
  then show ?thesis by (rule tapir_inv_keep [OF assms(1)])
qed

lemma HandleFinalizeInconsistent_Inr:
  assumes "record_ok (ts_record s)" and "HandleFinalizeInconsistent env s remote opid = Inr s'"
  obtains (ignored) "s' = s" "\<forall>e. ts_record s opid = Some e \<longrightarrow> re_state e \<noteq> RECORD_STATE_TENTATIVE"
  | (runs) e a res ret where "ts_record s opid = Some e" "re_state e = RECORD_STATE_TENTATIVE" "finishes (txn_of env e)"
      "te_app env (ts_app_state s) (tx_txn (txn_of env e)) (finish_arg (txn_of env e)) = Inr (a, res, ret)"
      "s' = send (s\<lparr>ts_record := (ts_record s)(opid \<mapsto> e\<lparr>re_state := RECORD_STATE_FINALIZED\<rparr>), ts_app_state := a\<rparr>) remote
              (Confirm (ts_view s) (my_idx s) opid)"
proof (cases "\<exists>e. ts_record s opid = Some e \<and> re_state e = RECORD_STATE_TENTATIVE")
  case True
  then obtain e where e: "ts_record s opid = Some e" "re_state e = RECORD_STATE_TENTATIVE" by blast
  then have set: "Record_SetStatus (ts_record s) opid RECORD_STATE_FINALIZED = Inr ((ts_record s)(opid \<mapsto> e\<lparr>re_state := RECORD_STATE_FINALIZED\<rparr>), True)"
    using assms(1) by (simp add: Record_SetStatus_def set_entry_ok)
  obtain a res ret where
    "te_app env (ts_app_state s) (tx_txn (txn_of env e)) (finish_arg (txn_of env e)) = Inr (a, res, ret)"
    "finishes (txn_of env e)"
    "s' = send (s\<lparr>ts_record := (ts_record s)(opid \<mapsto> e\<lparr>re_state := RECORD_STATE_FINALIZED\<rparr>), ts_app_state := a\<rparr>) remote
              (Confirm (ts_view s) (my_idx s) opid)"
    using assms e set
    by (auto simp: HandleFinalizeInconsistent_def Record_Find_ok Let_def TxnServer_ReplicaUpcall_def txn_of_def finishes_def)
  then show ?thesis using e runs by blast
next
  case False
  then have "s' = s" using assms by (auto simp: HandleFinalizeInconsistent_def Record_Find_ok split: option.splits if_splits)
  then show ?thesis using False ignored by blast
qed

lemma HandleFinalizeInconsistent_inv:
  assumes "tapir_inv env a0 s" and "HandleFinalizeInconsistent env s remote opid = Inr s'"
  shows "tapir_inv env a0 s'"
proof -
  have rec: "record_ok (ts_record s)" using assms(1) by (simp add: tapir_inv_def)
  from rec assms(2) show ?thesis
  proof (cases rule: HandleFinalizeInconsistent_Inr)
    case (runs e a res ret)
    let ?e = "e\<lparr>re_state := RECORD_STATE_FINALIZED\<rparr>"
    have "txn_of env ?e = txn_of env e" by (simp add: txn_of_def)
    then show ?thesis using runs record_okD [OF rec runs(1)]
      by (intro tapir_inv_run [OF assms(1), of ?e]) (auto simp: executed_def finishes_def txn_call_def)
  qed (use assms(1) in simp)
qed

lemma HandleProposeConsensus_Inr:
  assumes "record_ok (ts_record s)" and "HandleProposeConsensus env s remote req = Inr s'"
  obtains (again) e where "ts_record s (opid_of req) = Some e"
      "s' = send s remote (ConsensusReply (re_view e) (my_idx s) (opid_of req) (re_result e))"
  | (runs) t a res ret where "ts_record s (opid_of req) = None" "t = te_parse_txn env (req_op req)" "tx_op t = PREPARE"
      "te_app env (ts_app_state s) (tx_txn t) (prepare_arg t) = Inr (a, res, ret)"
      "s' = send (s\<lparr>ts_record := (ts_record s)(opid_of req \<mapsto> \<lparr>re_view = ts_view s, re_opid = opid_of req,
                re_state = RECORD_STATE_TENTATIVE, re_request = req, re_result = ''''\<rparr>), ts_app_state := a\<rparr>) remote
              (ConsensusReply (ts_view s) (my_idx s) (opid_of req) (te_print_reply env (prepare_reply ret res)))"
  using assms by (cases "ts_record s (opid_of req)")
    (auto simp: HandleProposeConsensus_def Record_Find_ok Let_def TxnServer_ReplicaUpcall_def Record_Add_result_def Record_Add_def)

lemma HandleProposeConsensus_inv:
  assumes "tapir_inv env a0 s" and "HandleProposeConsensus env s remote req = Inr s'"
  shows "tapir_inv env a0 s'"
proof -
  have rec: "record_ok (ts_record s)" using assms(1) by (simp add: tapir_inv_def)
  from rec assms(2) show ?thesis
  proof (cases rule: HandleProposeConsensus_Inr)
    case (runs t a res ret)
    let ?e = "\<lparr>re_view = ts_view s, re_opid = opid_of req, re_state = RECORD_STATE_TENTATIVE, re_request = req, re_result = ''''\<rparr>"
    have "txn_of env ?e = t" using runs(2) by (simp add: txn_of_def)
    then show ?thesis using runs
      by (intro tapir_inv_run [OF assms(1), of ?e]) (auto simp: executed_def txn_call_def)
  qed (use tapir_inv_keep [OF assms(1)] in simp)
qed

lemma HandleFinalizeConsensus_Inr:
  assumes "record_ok (ts_record s)"
  shows "HandleFinalizeConsensus s remote opid res =
    (case ts_record s opid of
       None \<Rightarrow> Inr s
     | Some e \<Rightarrow> Inr (send (s\<lparr>ts_record := (ts_record s)(opid \<mapsto> e\<lparr>re_state := RECORD_STATE_FINALIZED, re_result := res\<rparr>)\<rparr>) remote
                        (Confirm (ts_view s) (my_idx s) opid)))"
  using assms by (auto simp: HandleFinalizeConsensus_def Record_Find_ok Record_SetStatus_def set_entry_ok Let_def split: option.splits)

lemma HandleFinalizeConsensus_inv:
  assumes "tapir_inv env a0 s" and "client_message env s (remote, FinalizeConsensus opid res)"
    and "HandleFinalizeConsensus s remote opid res = Inr s'"
  shows "tapir_inv env a0 s'"
proof -
  have rec: "record_ok (ts_record s)" using assms(1) by (simp add: tapir_inv_def)
  show ?thesis
  proof (cases "ts_record s opid")
    case None
    then show ?thesis using assms HandleFinalizeConsensus_Inr [OF rec] by simp
  next
    case (Some e)
    let ?e = "e\<lparr>re_state := RECORD_STATE_FINALIZED, re_result := res\<rparr>"
    have "executed env ?e \<longleftrightarrow> executed env e" using assms(2) Some by (simp add: executed_def txn_of_def)
    then show ?thesis using assms(3) Some HandleFinalizeConsensus_Inr [OF rec] record_okD [OF rec Some]
      by (intro tapir_inv_put [OF assms(1), of ?e]) auto
  qed
qed

lemma ReceiveMessage_inv:
  assumes "tapir_inv env a0 s" and "client_message env s m" and "ReceiveMessage env s m = Inr s'"
  shows "tapir_inv env a0 s'"
  using assms
  by (cases "(env, s, m)" rule: ReceiveMessage.cases)
    (auto intro: HandleProposeInconsistent_inv HandleFinalizeInconsistent_inv HandleProposeConsensus_inv HandleFinalizeConsensus_inv
      simp del: client_message.simps)

interpretation tapir: handler_system "ReceiveMessage env" "client_message env" "tapir_inv env a0" for env a0
  by unfold_locales (rule ReceiveMessage_inv)

section \<open>Theorems\<close>

text \<open>C8. A TAPIR replica executes every operation at most once and knows which it has executed.  After any run
  of messages from well-behaved clients, retransmissions included, the application is in the state it
  reaches by running, in some order and each once, exactly the recorded operations that prepare a transaction and those that
  finish one and have been finalized.\<close>

theorem tapir_executes_once:
  assumes "accepts (ReceiveMessage env) (client_message env) (TapirServer_new g i a0) ms"
    and "fold_r (ReceiveMessage env) (TapirServer_new g i a0) ms = Inr s"
  shows "\<exists>ops. distinct ops \<and>
     set ops = {opid. \<exists>e. ts_record s opid = Some e \<and> (tx_op (txn_of env e) = PREPARE \<or> re_state e = RECORD_STATE_FINALIZED)} \<and>
     run_app (te_app env) a0 (map (\<lambda>opid. txn_call (txn_of env (the (ts_record s opid)))) ops) = Inr (ts_app_state s)"
  using tapir.run_inv [OF tapir_new_inv assms] unfolding tapir_inv_def executed_ops_def executed_def calls_def by blast

text \<open>Encodings for the witnesses: the first character of an operation says what it does.\<close>

definition sample_parse :: "string \<Rightarrow> Transaction" where
  "sample_parse s = (case s of
     CHR ''P'' # k \<Rightarrow> \<lparr>tx_txnid = 7, tx_op = PREPARE, tx_txn = k\<rparr>
   | CHR ''C'' # k \<Rightarrow> \<lparr>tx_txnid = 7, tx_op = COMMIT, tx_txn = ''''\<rparr>
   | _ \<Rightarrow> \<lparr>tx_txnid = 7, tx_op = ABORT, tx_txn = ''''\<rparr>)"

definition sample_print :: "ReplyMessage \<Rightarrow> string" where
  "sample_print m = (case rp_status m of OK \<Rightarrow> ''O'' | FAILED \<Rightarrow> ''F'' | RETRY \<Rightarrow> ''R'') @ rp_reply m"

definition sample_tapir :: "KVTxnServer tapir_env" where
  "sample_tapir = \<lparr>te_app = kv_app sample_kv, te_parse_txn = sample_parse, te_print_reply = sample_print\<rparr>"

text \<open>A PREPARE that is sent twice, and a COMMIT that is finalized twice.\<close>

definition sample_messages :: "(TransportAddress \<times> ToServerMessage) list" where
  "sample_messages = [(9, ProposeConsensus (sample_req ''Px'' 3 1)), (9, ProposeConsensus (sample_req ''Px'' 3 1)),
     (9, FinalizeConsensus (3, 1) ''Odone''), (9, ProposeInconsistent (sample_req ''C'' 3 2)),
     (9, FinalizeInconsistent (3, 2)), (9, FinalizeInconsistent (3, 2))]"

theorem tapir_executes_once_witness:
  "\<exists>s ops. fold_r (ReceiveMessage sample_tapir) (TapirServer_new 0 0 (kv_server True)) sample_messages = Inr s \<and>
     distinct ops \<and> (3, 1) \<in> set ops \<and> (3, 2) \<in> set ops \<and>
     run_app (te_app sample_tapir) (kv_server True) (map (\<lambda>opid. txn_call (txn_of sample_tapir (the (ts_record s opid)))) ops) = Inr (ts_app_state s)"
proof -
  let ?s0 = "TapirServer_new 0 0 (kv_server True)"
  let ?run = "fold_r (ReceiveMessage sample_tapir) ?s0 sample_messages"
  let ?done = "\<lambda>s opid. case ts_record s opid of None \<Rightarrow> False | Some e \<Rightarrow> tx_op (txn_of sample_tapir e) = PREPARE \<or> re_state e = RECORD_STATE_FINALIZED"
  have ok: "accepts (ReceiveMessage sample_tapir) (client_message sample_tapir) ?s0 sample_messages" by code_simp
  have "case ?run of Inl _ \<Rightarrow> False | Inr s \<Rightarrow> ?done s (3, 1) \<and> ?done s (3, 2)" by code_simp
  then obtain s where s: "?run = Inr s" "?done s (3, 1)" "?done s (3, 2)" by (auto split: sum.splits)
  from tapir_executes_once [OF ok s(1)] obtain ops where ops: "distinct ops"
    "set ops = {opid. \<exists>e. ts_record s opid = Some e \<and> (tx_op (txn_of sample_tapir e) = PREPARE \<or> re_state e = RECORD_STATE_FINALIZED)}"
    "run_app (te_app sample_tapir) (kv_server True) (map (\<lambda>opid. txn_call (txn_of sample_tapir (the (ts_record s opid)))) ops) = Inr (ts_app_state s)" by blast
  have "(3, 1) \<in> set ops" "(3, 2) \<in> set ops" using s(2,3) ops(2) by (auto split: option.splits)
  then show ?thesis using s(1) ops(1,3) by blast
qed

text \<open>The record loses the result of a consensus operation.  A replica that answers a new PREPARE with the
  application's verdict answers every retransmission of it with the empty string, until the operation is finalized: \<^verbatim>\<open>Record::Add\<close>
  assigns the result to a copy of the entry.\<close>

theorem proposed_result_lost:
  assumes "record_ok (ts_record s)" and "ts_record s (opid_of req) = None" and "HandleProposeConsensus env s remote req = Inr s1"
  shows "\<exists>a res ret s2.
     te_app env (ts_app_state s) (tx_txn (te_parse_txn env (req_op req))) (prepare_arg (te_parse_txn env (req_op req))) = Inr (a, res, ret) \<and>
     ts_outbox s1 = ts_outbox s @ [(remote, ConsensusReply (ts_view s) (my_idx s) (opid_of req) (te_print_reply env (prepare_reply ret res)))] \<and>
     HandleProposeConsensus env s1 remote2 req = Inr s2 \<and>
     ts_outbox s2 = ts_outbox s1 @ [(remote2, ConsensusReply (ts_view s) (my_idx s) (opid_of req) '''')]"
  using assms(1,3)
proof (cases rule: HandleProposeConsensus_Inr)
  case (runs t a res ret)
  have "record_ok (ts_record s1)" using runs(5) assms(1) by (simp add: record_ok_put)
  moreover have "my_idx s1 = my_idx s" using runs(5) by (simp add: my_idx_def)
  ultimately have "HandleProposeConsensus env s1 remote2 req = Inr (send s1 remote2 (ConsensusReply (ts_view s) (my_idx s) (opid_of req) ''''))"
    using runs(5) by (simp add: HandleProposeConsensus_def Record_Find_ok Let_def)
  then show ?thesis using runs by simp
qed (use assms(2) in simp)

theorem proposed_result_lost_witness:
  "\<exists>s1 s2. HandleProposeConsensus sample_tapir (TapirServer_new 0 0 (kv_server True)) 9 (sample_req ''Px'' 3 1) = Inr s1 \<and>
     HandleProposeConsensus sample_tapir s1 9 (sample_req ''Px'' 3 1) = Inr s2 \<and>
     ts_outbox s2 = [(9, ConsensusReply 0 0 (3, 1) ''Odone''), (9, ConsensusReply 0 0 (3, 1) '''')]"
proof -
  let ?s0 = "TapirServer_new 0 0 (kv_server True)"
  let ?req = "sample_req ''Px'' 3 1"
  have "case HandleProposeConsensus sample_tapir ?s0 9 ?req of Inl _ \<Rightarrow> False | Inr s1 \<Rightarrow> ts_outbox s1 = [(9, ConsensusReply 0 0 (3, 1) ''Odone'')]"
    by code_simp
  then obtain s1 where s1: "HandleProposeConsensus sample_tapir ?s0 9 ?req = Inr s1" "ts_outbox s1 = [(9, ConsensusReply 0 0 (3, 1) ''Odone'')]"
    by (auto split: sum.splits)
  have new: "record_ok (ts_record ?s0)" "ts_record ?s0 (opid_of ?req) = None" "ts_view ?s0 = 0" "my_idx ?s0 = 0" "opid_of ?req = (3, 1)"
    by (simp_all add: TapirServer_new_def record_ok_def my_idx_def opid_of_def sample_req_def)
  from proposed_result_lost [OF new(1,2) s1(1), of 9] show ?thesis using s1 new(3-5) by auto
qed

section \<open>Over the key-value server\<close>

text \<open>The application's contract makes the assertions of the handlers hold.\<close>

fun accepted_message :: "(string \<Rightarrow> txnarg_t \<Rightarrow> bool) \<Rightarrow> 'a tapir_env \<Rightarrow> TransportAddress \<times> ToServerMessage \<Rightarrow> bool" where
  "accepted_message acc env (remote, ProposeInconsistent req) \<longleftrightarrow> (let t = te_parse_txn env (req_op req) in acc (tx_txn t) (finish_arg t))"
| "accepted_message acc env (remote, ProposeConsensus req) \<longleftrightarrow> (let t = te_parse_txn env (req_op req) in acc (tx_txn t) (prepare_arg t))"
| "accepted_message acc env _ \<longleftrightarrow> True"

definition tapir_safe :: "('a \<Rightarrow> bool) \<Rightarrow> (string \<Rightarrow> txnarg_t \<Rightarrow> bool) \<Rightarrow> 'a tapir_env \<Rightarrow> 'a \<Rightarrow> 'a TapirServer \<Rightarrow> bool" where
  "tapir_safe app_ok acc env a0 s \<longleftrightarrow> tapir_inv env a0 s \<and> app_ok (ts_app_state s) \<and>
     (\<forall>opid e. ts_record s opid = Some e \<and> finishes (txn_of env e) \<longrightarrow> acc (tx_txn (txn_of env e)) (finish_arg (txn_of env e)))"

locale tapir_over = retry_app "te_app env" app_ok accepts_txn for env :: "'a tapir_env" and app_ok accepts_txn
begin

lemma step_safe:
  assumes safe: "tapir_safe app_ok accepts_txn env a0 s" and msg: "client_message env s m" "accepted_message accepts_txn env m"
  shows "\<exists>s'. ReceiveMessage env s m = Inr s' \<and> tapir_safe app_ok accepts_txn env a0 s'"
proof -
  have inv: "tapir_inv env a0 s" "record_ok (ts_record s)" "app_ok (ts_app_state s)"
    and acc: "\<And>opid e. \<lbrakk> ts_record s opid = Some e; finishes (txn_of env e) \<rbrakk> \<Longrightarrow> accepts_txn (tx_txn (txn_of env e)) (finish_arg (txn_of env e))"
    using safe by (auto simp: tapir_safe_def tapir_inv_def simp del: split_paired_All)
  obtain remote msg where m: "m = (remote, msg)" by fastforce
  have "\<exists>s'. ReceiveMessage env s m = Inr s' \<and> app_ok (ts_app_state s') \<and>
     (\<forall>opid e. ts_record s' opid = Some e \<and> finishes (txn_of env e) \<longrightarrow> accepts_txn (tx_txn (txn_of env e)) (finish_arg (txn_of env e)))"
  proof (cases msg)
    case (ProposeInconsistent req)
    then show ?thesis using msg inv m acc
      by (cases "ts_record s (opid_of req)")
        (auto simp: HandleProposeInconsistent_def Record_Find_ok Record_Add_def Let_def txn_of_def)
  next
    case (FinalizeInconsistent opid)
    show ?thesis
    proof (cases "\<exists>e. ts_record s opid = Some e \<and> re_state e = RECORD_STATE_TENTATIVE")
      case True
      then obtain e where e: "ts_record s opid = Some e" "re_state e = RECORD_STATE_TENTATIVE" by blast
      have fin: "finishes (txn_of env e)" using msg(1) m FinalizeInconsistent e(1) by simp
      let ?call = "te_app env (ts_app_state s) (tx_txn (txn_of env e)) (finish_arg (txn_of env e))"
      obtain a res ret where call: "?call = Inr (a, res, ret)" "app_ok a" using app_total [OF inv(3) acc [OF e(1) fin]] by blast
      have type: "ta_type (finish_arg (txn_of env e)) = TXN_COMMIT \<or> ta_type (finish_arg (txn_of env e)) = TXN_ABORT" by (simp add: finish_arg_def)
      have ret: "tr_unblocked_txns ret = {}" "tr_commit ret" "\<not> tr_blocked ret"
        using app_unblocks [OF inv(3) acc [OF e(1) fin] call(1)] app_finishes [OF inv(3) acc [OF e(1) fin] type call(1)] by simp_all
      show ?thesis using m FinalizeInconsistent e fin call ret inv(2) acc
        by (auto simp: HandleFinalizeInconsistent_def Record_Find_ok Record_SetStatus_def set_entry_ok Let_def TxnServer_ReplicaUpcall_def
            txn_of_def finishes_def split: if_splits)
    next
      case False
      then show ?thesis using m FinalizeInconsistent inv acc
        by (auto simp: HandleFinalizeInconsistent_def Record_Find_ok split: option.splits)
    qed
  next
    case (ProposeConsensus req)
    let ?t = "te_parse_txn env (req_op req)"
    have "accepts_txn (tx_txn ?t) (prepare_arg ?t)" "tx_op ?t = PREPARE" using msg m ProposeConsensus by (simp_all add: Let_def)
    then show ?thesis using app_total [OF inv(3), of "tx_txn ?t" "prepare_arg ?t"] m ProposeConsensus inv acc
      by (cases "ts_record s (opid_of req)")
        (auto simp: HandleProposeConsensus_def Record_Find_ok Let_def TxnServer_ReplicaUpcall_def Record_Add_result_def Record_Add_def
          txn_of_def finishes_def)
  next
    case (FinalizeConsensus opid res)
    then show ?thesis using m inv acc
      by (auto simp: HandleFinalizeConsensus_Inr txn_of_def split: option.splits)
  next
    case ToServerNotSet
    then show ?thesis using msg(1) m by simp
  qed
  then show ?thesis using ReceiveMessage_inv [OF inv(1) msg(1)] by (auto simp: tapir_safe_def)
qed

sublocale tapir_total: total_system "ReceiveMessage env" "\<lambda>s m. client_message env s m \<and> accepted_message accepts_txn env m"
  "tapir_safe app_ok accepts_txn env a0" for a0
proof
  fix s m s'
  assume "tapir_safe app_ok accepts_txn env a0 s" "client_message env s m \<and> accepted_message accepts_txn env m" "ReceiveMessage env s m = Inr s'"
  then show "tapir_safe app_ok accepts_txn env a0 s'" using step_safe [of a0 s m] by auto
next
  fix s m
  assume "tapir_safe app_ok accepts_txn env a0 s" "client_message env s m \<and> accepted_message accepts_txn env m"
  then show "\<exists>s'. ReceiveMessage env s m = Inr s'" using step_safe [of a0 s m] by blast
qed

end

definition kv_tapir :: "kv_params \<Rightarrow> (string \<Rightarrow> Transaction) \<Rightarrow> (ReplyMessage \<Rightarrow> string) \<Rightarrow> KVTxnServer tapir_env" where
  "kv_tapir P parse print = \<lparr>te_app = kv_app P, te_parse_txn = parse, te_print_reply = print\<rparr>"

interpretation tapir_kv: tapir_over "kv_tapir P parse print" "kv_retry_ok P" any_txn for P parse print
proof -
  have "te_app (kv_tapir P parse print) = kv_app P" by (simp add: kv_tapir_def)
  then show "tapir_over (kv_tapir P parse print) (kv_retry_ok P) any_txn"
    using kv_retry.retry_app_axioms by (simp add: tapir_over_def)
qed

text \<open>C21. The TAPIR server and the key-value server run together without failing an assertion of either: from
  their constructors, with locks that are retried, every run of well-behaved clients' messages is handled to its end, the locks of the
  key-value server stay consistent with its pending transactions, and a transaction is finished on this replica only
  by the finalization of its COMMIT or ABORT.\<close>

theorem tapir_kv_run:
  assumes kv: "KVTxnServer_new True myShard nShards keys = Inr kv" and ord: "iterates (kvp_rord P)" "iterates (kvp_hord P)"
    and ms: "accepts (ReceiveMessage (kv_tapir P parse print))
       (\<lambda>s m. client_message (kv_tapir P parse print) s m \<and> accepted_message any_txn (kv_tapir P parse print) m)
       (TapirServer_new g i kv) ms"
  shows "\<exists>s. fold_r (ReceiveMessage (kv_tapir P parse print)) (TapirServer_new g i kv) ms = Inr s \<and> kv_ok (ts_app_state s) \<and>
     (\<exists>ops. executed_ops (kv_tapir P parse print) kv s ops)"
proof -
  have "tapir_safe (kv_retry_ok P) any_txn (kv_tapir P parse print) kv (TapirServer_new g i kv)"
    using tapir_new_inv kv_retry_new [OF kv ord] by (simp add: tapir_safe_def TapirServer_new_def)
  from tapir_kv.tapir_total.run_total [OF this ms] show ?thesis by (auto simp: tapir_safe_def tapir_inv_def kv_retry_ok_def)
qed

theorem tapir_kv_run_witness:
  "\<exists>s. fold_r (ReceiveMessage (kv_tapir sample_kv sample_parse sample_print)) (TapirServer_new 0 0 (kv_server True)) sample_messages = Inr s \<and>
     kv_ok (ts_app_state s) \<and> length (ts_outbox s) = 5"
proof -
  let ?env = "kv_tapir sample_kv sample_parse sample_print"
  let ?run = "fold_r (ReceiveMessage ?env) (TapirServer_new 0 0 (kv_server True)) sample_messages"
  have ok: "accepts (ReceiveMessage ?env) (\<lambda>s m. client_message ?env s m \<and> accepted_message any_txn ?env m)
     (TapirServer_new 0 0 (kv_server True)) sample_messages" by code_simp
  have "case ?run of Inl _ \<Rightarrow> False | Inr s \<Rightarrow> length (ts_outbox s) = 5" by code_simp
  then show ?thesis using tapir_kv_run [OF kv_server_new sample_orders ok] by (auto simp: sample_kv_def)
qed

end
