(* ===== verification/TapirClient.thy ===== *)
theory TapirClient
  imports TapirServer
begin

text \<open>
  The client of the TAPIR protocol: \<^verbatim>\<open>IRClient\<close> of \<^verbatim>\<open>transaction/tapir/irclient.h\<close> and
  \<^verbatim>\<open>transaction/tapir/irclient.cc\<close>, which drives one operation of one shard, and \<^verbatim>\<open>TapirClient\<close> of
  \<^verbatim>\<open>transaction/tapir/client.cc\<close>, the coordinator of a transaction.

  The two subclasses of \<^verbatim>\<open>PendingRequest\<close> are the values of its field \<open>pq_sub\<close>; a \<^verbatim>\<open>static_cast\<close> to the wrong one
  is undefined behaviour.  A \<^verbatim>\<open>Timeout\<close> is what it calls (\<open>pq_timer\<close>) and whether it is active.  The continuations are the two
  callbacks the class itself binds.  A handler takes, as \<open>tr\<close>, which messages the transport manages to send
  during the call, since a failed send changes the client's state.  Deferred work (\<^verbatim>\<open>transport->Timer(0, ...)\<close>) is
  a list.  The promises are numbers; \<open>ic_promised\<close> is the history of what they were answered, \<open>ic_answered\<close> the
  history of the requests whose continuation ran, and \<open>ic_outbox\<close> that of the messages sent to the shard.
  The promise behind \<^verbatim>\<open>blockingPrepare\<close> is whether it has been answered.
\<close>

section \<open>State\<close>

datatype callback = PrepareCb | CommitAbortCb

datatype timer = ResendInconsistentTimer | SlowPathTimer | SlowResendTimer | ConfirmTimer bool

datatype pending_kind =
    PendingInconsistentRequest "(viewstamp_t, ToClientMessage) QuorumSet"
  | PendingConsensusRequest "(viewstamp_t, ToClientMessage) QuorumSet" string

record PendingRequest =
  pq_request :: string
  pq_clientReqId :: u64
  pq_continuation :: callback
  pq_continuationInvoked :: bool
  pq_timer :: timer
  pq_active :: bool
  pq_confirmQuorum :: "(viewstamp_t, ToClientMessage) QuorumSet"
  pq_sub :: pending_kind

datatype deferred = DeferPrepare string nat | DeferCommitAbort string

record IRClient =
  ic_config :: Configuration
  ic_clientid :: u64
  ic_view :: u64
  ic_lastReqId :: u64
  ic_pendingReqs :: "u64 \<rightharpoonup> PendingRequest"
  ic_waiting :: "nat option"
  ic_blockingPrepare :: "bool option"
  ic_deferred :: "deferred list"
  ic_outbox :: "ToServerMessage list"
  ic_answered :: "u64 list"
  ic_promised :: "(nat \<times> Status \<times> bool \<times> string) list"

record ir_env =
  ie_print_txn :: "Transaction \<Rightarrow> string"
  ie_parse_reply :: "string \<Rightarrow> ReplyMessage"
  ie_print_reply :: "ReplyMessage \<Rightarrow> string"

definition IRClient_new :: "Configuration \<Rightarrow> u64 \<Rightarrow> IRClient" where
  "IRClient_new config clientid =
     \<lparr>ic_config = config, ic_clientid = clientid, ic_view = 0, ic_lastReqId = 0, ic_pendingReqs = Map.empty, ic_waiting = None,
      ic_blockingPrepare = None, ic_deferred = [], ic_outbox = [], ic_answered = [], ic_promised = []\<rparr>"

text \<open>A call sends at most one proposal and at most one finalization, so what the transport manages to send is a pair.\<close>

type_synonym transport = "bool \<times> bool"

fun sends :: "transport \<Rightarrow> ToServerMessage \<Rightarrow> bool" where
  "sends tr (ProposeInconsistent _) = fst tr"
| "sends tr (ProposeConsensus _) = fst tr"
| "sends tr (FinalizeInconsistent _) = snd tr"
| "sends tr (FinalizeConsensus _ _) = snd tr"
| "sends tr ToServerNotSet = True"

definition put_req :: "IRClient \<Rightarrow> u64 \<Rightarrow> PendingRequest \<Rightarrow> IRClient" where
  "put_req s reqId req = s\<lparr>ic_pendingReqs := (ic_pendingReqs s)(reqId \<mapsto> req)\<rparr>"

definition erase_req :: "IRClient \<Rightarrow> u64 \<Rightarrow> IRClient" where
  "erase_req s reqId = s\<lparr>ic_pendingReqs := (ic_pendingReqs s)(reqId := None)\<rparr>"

definition SendMessageToGroup :: "IRClient \<Rightarrow> ToServerMessage \<Rightarrow> IRClient" where
  "SendMessageToGroup s m = s\<lparr>ic_outbox := ic_outbox s @ [m]\<rparr>"

section \<open>Invoking operations\<close>

definition propose_request :: "IRClient \<Rightarrow> string \<Rightarrow> u64 \<Rightarrow> Request" where
  "propose_request s op reqId = empty_Request\<lparr>req_op := op, req_clientid := ic_clientid s, req_clientreqid := reqId\<rparr>"

definition SendInconsistent :: "transport \<Rightarrow> IRClient \<Rightarrow> PendingRequest \<Rightarrow> IRClient" where
  "SendInconsistent tr s req =
     (let m = ProposeInconsistent (propose_request s (pq_request req) (pq_clientReqId req))
      in if sends tr m then put_req (SendMessageToGroup s m) (pq_clientReqId req) (req\<lparr>pq_active := True\<rparr>)
         else erase_req s (pq_clientReqId req))"

definition InvokeInconsistent :: "transport \<Rightarrow> IRClient \<Rightarrow> string \<Rightarrow> callback \<Rightarrow> IRClient" where
  "InvokeInconsistent tr s request continuation =
     (let reqId = ic_lastReqId s + 1;
          req = \<lparr>pq_request = request, pq_clientReqId = reqId, pq_continuation = continuation, pq_continuationInvoked = False,
                 pq_timer = ResendInconsistentTimer, pq_active = False, pq_confirmQuorum = QuorumSet_new (QuorumSize (ic_config s)),
                 pq_sub = PendingInconsistentRequest (QuorumSet_new (QuorumSize (ic_config s)))\<rparr>
      in SendInconsistent tr (put_req (s\<lparr>ic_lastReqId := reqId\<rparr>) reqId req) req)"

definition SuperQuorum :: "Configuration \<Rightarrow> int" where
  "SuperQuorum c = QuorumSize c + (QuorumSize c + 1) div 2"

definition InvokeConsensus :: "transport \<Rightarrow> IRClient \<Rightarrow> string \<Rightarrow> callback \<Rightarrow> IRClient" where
  "InvokeConsensus tr s request continuation =
     (let reqId = ic_lastReqId s + 1;
          s1 = s\<lparr>ic_lastReqId := reqId\<rparr>;
          req = \<lparr>pq_request = request, pq_clientReqId = reqId, pq_continuation = continuation, pq_continuationInvoked = False,
                 pq_timer = SlowPathTimer, pq_active = False, pq_confirmQuorum = QuorumSet_new (QuorumSize (ic_config s)),
                 pq_sub = PendingConsensusRequest (QuorumSet_new (SuperQuorum (ic_config s))) ''''\<rparr>;
          m = ProposeConsensus (propose_request s request reqId)
      in if sends tr m then put_req (SendMessageToGroup s1 m) reqId (req\<lparr>pq_active := True\<rparr>) else s1)"

text \<open>\<^verbatim>\<open>Prepare\<close>, \<^verbatim>\<open>CommitAbort\<close> and \<^verbatim>\<open>Done\<close> run in the application's thread.  While the promise of the last commit is
  unanswered, \<^verbatim>\<open>Prepare\<close> and \<^verbatim>\<open>Done\<close> wait: no step of theirs is possible, which is the outcome \<open>Diverges\<close>.\<close>

definition Done :: "IRClient \<Rightarrow> IRClient result" where
  "Done s =
     (case ic_blockingPrepare s of
        None \<Rightarrow> Inr s
      | Some answered \<Rightarrow> check answered Diverges (Inr (s\<lparr>ic_blockingPrepare := None\<rparr>)))"

definition Prepare :: "ir_env \<Rightarrow> IRClient \<Rightarrow> u64 \<Rightarrow> string \<Rightarrow> nat \<Rightarrow> IRClient result" where
  "Prepare env s txnid txn promise =
     (let txnstr = ie_print_txn env \<lparr>tx_txnid = txnid, tx_op = PREPARE, tx_txn = txn\<rparr> in
      rbind (case ic_blockingPrepare s of
               None \<Rightarrow> Inr s
             | Some answered \<Rightarrow> check answered Diverges (Inr (s\<lparr>ic_blockingPrepare := None\<rparr>))) (\<lambda>s1.
        Inr (s1\<lparr>ic_deferred := ic_deferred s1 @ [DeferPrepare txnstr promise]\<rparr>)))"

definition CommitAbort :: "ir_env \<Rightarrow> IRClient \<Rightarrow> u64 \<Rightarrow> bool \<Rightarrow> IRClient" where
  "CommitAbort env s txnid commit =
     (let txnstr = ie_print_txn env \<lparr>tx_txnid = txnid, tx_op = (if commit then COMMIT else ABORT), tx_txn = ''''\<rparr>
      in s\<lparr>ic_blockingPrepare := Some False, ic_deferred := ic_deferred s @ [DeferCommitAbort txnstr]\<rparr>)"

fun run_deferred :: "transport \<Rightarrow> IRClient \<Rightarrow> deferred \<Rightarrow> IRClient" where
  "run_deferred tr s (DeferPrepare txnstr promise) = InvokeConsensus tr (s\<lparr>ic_waiting := Some promise\<rparr>) txnstr PrepareCb"
| "run_deferred tr s (DeferCommitAbort txnstr) = InvokeInconsistent tr s txnstr CommitAbortCb"

section \<open>Callbacks\<close>

definition PrepareCallback :: "ir_env \<Rightarrow> IRClient \<Rightarrow> string \<Rightarrow> IRClient" where
  "PrepareCallback env s reply =
     (let m = ie_parse_reply env reply in
      case ic_waiting s of
        None \<Rightarrow> s
      | Some w \<Rightarrow> s\<lparr>ic_waiting := None, ic_promised := ic_promised s @ [(w, rp_status m, rp_status m = OK, rp_reply m)]\<rparr>)"

definition CommitAbortCallback :: "IRClient \<Rightarrow> IRClient result" where
  "CommitAbortCallback s =
     check (ic_blockingPrepare s \<noteq> None) AssertFailed (Inr (s\<lparr>ic_blockingPrepare := Some True, ic_waiting := None\<rparr>))"

definition run_continuation :: "ir_env \<Rightarrow> IRClient \<Rightarrow> PendingRequest \<Rightarrow> string \<Rightarrow> IRClient result" where
  "run_continuation env s req reply =
     (let s1 = s\<lparr>ic_answered := ic_answered s @ [pq_clientReqId req]\<rparr> in
      case pq_continuation req of
        PrepareCb \<Rightarrow> Inr (PrepareCallback env s1 reply)
      | CommitAbortCb \<Rightarrow> CommitAbortCallback s1)"

text \<open>\<^verbatim>\<open>PrepareDecide\<close> takes a \<^verbatim>\<open>std::set\<close> of results, here its elements in increasing order.  The loop carries the number of
  accepting results and the last reply.\<close>

fun decide_loop :: "ir_env \<Rightarrow> int \<Rightarrow> string \<Rightarrow> string list \<Rightarrow> string + (int \<times> string)" where
  "decide_loop env ok_count reply [] = Inr (ok_count, reply)"
| "decide_loop env ok_count reply (s # results) =
     (let m = ie_parse_reply env s in
      if rp_status m = OK then decide_loop env (ok_count + 1) (rp_reply m) results
      else if rp_status m = FAILED then Inl s
      else decide_loop env ok_count reply results)"

definition PrepareDecide :: "ir_env \<Rightarrow> Configuration \<Rightarrow> string list \<Rightarrow> string" where
  "PrepareDecide env config results =
     (case decide_loop env 0 '''' results of
        Inl s \<Rightarrow> s
      | Inr (ok_count, reply) \<Rightarrow>
          ie_print_reply env \<lparr>rp_status = (if ok_count \<ge> QuorumSize config then OK else RETRY), rp_reply = reply\<rparr>)"

section \<open>The slow path and confirmations\<close>

definition msg_result :: "ToClientMessage \<Rightarrow> string" where
  "msg_result m = (case m of ConsensusReply _ _ _ res \<Rightarrow> res | _ \<Rightarrow> '''')"

definition result_set :: "(int \<times> ToClientMessage) list \<Rightarrow> string list" where
  "result_set msgs = sorted_list_of_set (msg_result ` snd ` set msgs)"

definition ConsensusSlowPath :: "ir_env \<Rightarrow> transport \<Rightarrow> IRClient \<Rightarrow> u64 \<Rightarrow> IRClient result" where
  "ConsensusSlowPath env tr s reqId =
     (case ic_pendingReqs s reqId of
        None \<Rightarrow> Inl AssertFailed
      | Some req \<Rightarrow>
          (case pq_sub req of
             PendingInconsistentRequest _ \<Rightarrow> Inl UndefinedBehaviour
           | PendingConsensusRequest q _ \<Rightarrow>
               let results = result_set (GetMessages q (viewstamp2 (ic_view s) reqId));
                   res = PrepareDecide env (ic_config s) results;
                   req1 = req\<lparr>pq_timer := SlowResendTimer, pq_active := False, pq_sub := PendingConsensusRequest q res\<rparr>;
                   m = FinalizeConsensus (ic_clientid s, pq_clientReqId req) res
               in if sends tr m then Inr (put_req (SendMessageToGroup s m) reqId (req1\<lparr>pq_active := True\<rparr>))
                  else Inr (erase_req s reqId)))"

definition ResendConfirmation :: "transport \<Rightarrow> IRClient \<Rightarrow> u64 \<Rightarrow> bool \<Rightarrow> IRClient result" where
  "ResendConfirmation tr s reqId isConsensus =
     (case ic_pendingReqs s reqId of
        None \<Rightarrow> Inr s
      | Some req \<Rightarrow>
          rbind (case pq_sub req of
                   PendingConsensusRequest _ res \<Rightarrow>
                     check isConsensus UndefinedBehaviour (Inr (FinalizeConsensus (ic_clientid s, pq_clientReqId req) res))
                 | PendingInconsistentRequest _ \<Rightarrow>
                     check (\<not> isConsensus) UndefinedBehaviour (Inr (FinalizeInconsistent (ic_clientid s, pq_clientReqId req)))) (\<lambda>m.
          if sends tr m then Inr (put_req (SendMessageToGroup s m) reqId (req\<lparr>pq_active := True\<rparr>))
          else Inr (erase_req s reqId)))"

text \<open>What the timer of a pending request does.\<close>

definition TimerFires :: "ir_env \<Rightarrow> transport \<Rightarrow> IRClient \<Rightarrow> u64 \<Rightarrow> IRClient result" where
  "TimerFires env tr s reqId =
     (case ic_pendingReqs s reqId of
        None \<Rightarrow> Inr s
      | Some req \<Rightarrow>
          if \<not> pq_active req then Inr s
          else (case pq_timer req of
                  ResendInconsistentTimer \<Rightarrow> Inr (SendInconsistent tr s req)
                | SlowPathTimer \<Rightarrow> ConsensusSlowPath env tr s reqId
                | SlowResendTimer \<Rightarrow>
                    let m = ProposeConsensus (propose_request s (pq_request req) (pq_clientReqId req))
                    in ResendConfirmation tr (if sends tr m then SendMessageToGroup s m else s) reqId True
                | ConfirmTimer isConsensus \<Rightarrow> ResendConfirmation tr s reqId isConsensus))"

section \<open>Replies\<close>

definition HandleInconsistentReply :: "ir_env \<Rightarrow> transport \<Rightarrow> IRClient \<Rightarrow> u64 \<Rightarrow> u32 \<Rightarrow> opid_t \<Rightarrow> IRClient result" where
  "HandleInconsistentReply env tr s view replicaIdx opid =
     (let reqId = snd opid in
      case ic_pendingReqs s reqId of
        None \<Rightarrow> Inr s
      | Some req \<Rightarrow>
          (case pq_sub req of
             PendingConsensusRequest _ _ \<Rightarrow> Inl UndefinedBehaviour
           | PendingInconsistentRequest q \<Rightarrow>
               let (q1, msgs) = AddAndCheckForQuorum q (viewstamp2 view reqId) (sint replicaIdx) (InconsistentReply view replicaIdx opid);
                   req1 = req\<lparr>pq_sub := PendingInconsistentRequest q1\<rparr>
               in if msgs \<noteq> None \<and> \<not> pq_continuationInvoked req1
                  then let m = FinalizeInconsistent opid;
                           req2 = req1\<lparr>pq_timer := ConfirmTimer False, pq_active := sends tr m, pq_continuationInvoked := True\<rparr>;
                           s1 = (if sends tr m then SendMessageToGroup s m else s)
                       in rbind (run_continuation env s1 req2 '''') (\<lambda>s2. Inr (put_req s2 reqId req2))
                  else Inr (put_req s reqId req1)))"

text \<open>The results are counted in an ordered map; the first result with enough votes is taken.\<close>

definition count_results :: "(int \<times> ToClientMessage) list \<Rightarrow> (string \<times> int) list" where
  "count_results msgs =
     fold (\<lambda>(_, m) results. smap_put (msg_result m) (case map_of results (msg_result m) of Some n \<Rightarrow> n + 1 | None \<Rightarrow> 1) results) msgs []"

definition HandleConsensusReply :: "ir_env \<Rightarrow> transport \<Rightarrow> IRClient \<Rightarrow> u64 \<Rightarrow> u32 \<Rightarrow> opid_t \<Rightarrow> string \<Rightarrow> IRClient result" where
  "HandleConsensusReply env tr s view replicaIdx opid res =
     (let reqId = snd opid in
      case ic_pendingReqs s reqId of
        None \<Rightarrow> Inr s
      | Some req \<Rightarrow>
          (case pq_sub req of
             PendingInconsistentRequest _ \<Rightarrow> Inl UndefinedBehaviour
           | PendingConsensusRequest q decideResult \<Rightarrow>
               let (q1, msgs) = AddAndCheckForQuorum q (viewstamp2 view reqId) (sint replicaIdx) (ConsensusReply view replicaIdx opid res);
                   s1 = put_req s reqId (req\<lparr>pq_sub := PendingConsensusRequest q1 decideResult\<rparr>)
               in case msgs of
                    None \<Rightarrow> Inr s1
                  | Some ms \<Rightarrow>
                      (case find (\<lambda>(_, n). n \<ge> numRequired q1) (count_results ms) of
                         None \<Rightarrow> ConsensusSlowPath env tr s1 reqId
                       | Some (r, _) \<Rightarrow>
                           let m = FinalizeConsensus opid r;
                               req2 = req\<lparr>pq_timer := ConfirmTimer True, pq_active := True, pq_sub := PendingConsensusRequest q1 r\<rparr>
                           in check (sends tr m) UndefinedBehaviour
                                (if pq_continuationInvoked req then Inr (put_req (SendMessageToGroup s1 m) reqId req2)
                                 else rbind (run_continuation env (SendMessageToGroup s1 m) req2 r) (\<lambda>s2.
                                        Inr (put_req s2 reqId (req2\<lparr>pq_continuationInvoked := True\<rparr>)))))))"

definition HandleConfirm :: "ir_env \<Rightarrow> IRClient \<Rightarrow> u64 \<Rightarrow> u32 \<Rightarrow> opid_t \<Rightarrow> IRClient result" where
  "HandleConfirm env s view replicaIdx opid =
     (let reqId = snd opid in
      case ic_pendingReqs s reqId of
        None \<Rightarrow> Inr s
      | Some req \<Rightarrow>
          let (q1, msgs) = AddAndCheckForQuorum (pq_confirmQuorum req) (viewstamp2 view reqId) (sint replicaIdx) (Confirm view replicaIdx opid)
          in if msgs = None then Inr (put_req s reqId (req\<lparr>pq_confirmQuorum := q1\<rparr>))
             else if pq_continuationInvoked req then Inr (erase_req s reqId)
             else (case pq_sub req of
                     PendingInconsistentRequest _ \<Rightarrow> Inl UndefinedBehaviour
                   | PendingConsensusRequest _ decideResult \<Rightarrow> run_continuation env (erase_req s reqId) req decideResult))"

fun ReceiveMessage_ir :: "ir_env \<Rightarrow> transport \<Rightarrow> IRClient \<Rightarrow> ToClientMessage \<Rightarrow> IRClient result" where
  "ReceiveMessage_ir env tr s (InconsistentReply view replicaIdx opid) = HandleInconsistentReply env tr s view replicaIdx opid"
| "ReceiveMessage_ir env tr s (ConsensusReply view replicaIdx opid res) = HandleConsensusReply env tr s view replicaIdx opid res"
| "ReceiveMessage_ir env tr s (Confirm view replicaIdx opid) = HandleConfirm env s view replicaIdx opid"
| "ReceiveMessage_ir env tr s ToClientNotSet = Inl Panicked"

datatype ir_event =
    AppPrepare u64 string nat
  | AppCommitAbort u64 bool
  | AppDone
  | DeferredRuns
  | ReplyArrives ToClientMessage
  | RequestTimer u64

fun ir_handle :: "ir_env \<Rightarrow> IRClient \<Rightarrow> transport \<times> ir_event \<Rightarrow> IRClient result" where
  "ir_handle env s (tr, AppPrepare txnid txn promise) = Prepare env s txnid txn promise"
| "ir_handle env s (tr, AppCommitAbort txnid commit) = Inr (CommitAbort env s txnid commit)"
| "ir_handle env s (tr, AppDone) = Done s"
| "ir_handle env s (tr, DeferredRuns) =
     (case ic_deferred s of [] \<Rightarrow> Inr s | d # ds \<Rightarrow> Inr (run_deferred tr (s\<lparr>ic_deferred := ds\<rparr>) d))"
| "ir_handle env s (tr, ReplyArrives m) = ReceiveMessage_ir env tr s m"
| "ir_handle env s (tr, RequestTimer reqId) = TimerFires env tr s reqId"

section \<open>The invariant\<close>

fun is_commit :: "deferred \<Rightarrow> bool" where
  "is_commit (DeferCommitAbort _) = True"
| "is_commit (DeferPrepare _ _) = False"

definition req_ok :: "u64 \<Rightarrow> u64 list \<Rightarrow> u64 \<Rightarrow> PendingRequest \<Rightarrow> bool" where
  "req_ok n A reqId req \<longleftrightarrow> pq_clientReqId req = reqId \<and> reqId \<le> n \<and> (pq_continuationInvoked req \<longleftrightarrow> reqId \<in> set A) \<and>
     (case pq_sub req of
        PendingInconsistentRequest _ \<Rightarrow> pq_continuation req = CommitAbortCb \<and> pq_timer req \<in> {ResendInconsistentTimer, ConfirmTimer False}
      | PendingConsensusRequest _ _ \<Rightarrow> pq_continuation req = PrepareCb \<and> pq_timer req \<notin> {ResendInconsistentTimer, ConfirmTimer False})"

definition unanswered :: "(u64 \<rightharpoonup> PendingRequest) \<Rightarrow> u64 set" where
  "unanswered P = {r. \<exists>req. P r = Some req \<and> \<not> pq_continuationInvoked req \<and> pq_continuation req = CommitAbortCb}"

text \<open>At most one commit or abort is on its way, and its promise is unanswered until then.\<close>

definition commits_ok :: "(u64 \<rightharpoonup> PendingRequest) \<Rightarrow> bool option \<Rightarrow> deferred list \<Rightarrow> bool" where
  "commits_ok P b D \<longleftrightarrow> (let c = filter is_commit D in
     if b = Some False then length c \<le> 1 \<and> (if c = [] then \<exists>r. unanswered P \<subseteq> {r} else unanswered P = {})
     else c = [] \<and> unanswered P = {})"

definition ir_inv :: "IRClient \<Rightarrow> bool" where
  "ir_inv s \<longleftrightarrow> distinct (ic_answered s) \<and> (\<forall>r\<in>set (ic_answered s). r \<le> ic_lastReqId s) \<and>
     (\<forall>r req. ic_pendingReqs s r = Some req \<longrightarrow> req_ok (ic_lastReqId s) (ic_answered s) r req) \<and>
     commits_ok (ic_pendingReqs s) (ic_blockingPrepare s) (ic_deferred s)"

text \<open>What is expected of the application and of the servers: the application waits for a commit
  before the next one, request numbers do not run out, and replies fit the operation they answer.\<close>

definition expects_reply :: "IRClient \<Rightarrow> transport \<Rightarrow> ToClientMessage \<Rightarrow> bool" where
  "expects_reply s tr m =
     (case m of
        InconsistentReply _ _ opid \<Rightarrow>
          (case ic_pendingReqs s (snd opid) of None \<Rightarrow> True | Some req \<Rightarrow> pq_continuation req = CommitAbortCb)
      | ConsensusReply _ _ opid _ \<Rightarrow>
          (case ic_pendingReqs s (snd opid) of None \<Rightarrow> True | Some req \<Rightarrow> pq_continuation req = PrepareCb)
      | Confirm _ _ opid \<Rightarrow>
          (case ic_pendingReqs s (snd opid) of None \<Rightarrow> True | Some req \<Rightarrow> pq_continuation req = PrepareCb \<or> pq_continuationInvoked req)
      | ToClientNotSet \<Rightarrow> False)"

fun ir_expects :: "IRClient \<Rightarrow> transport \<times> ir_event \<Rightarrow> bool" where
  "ir_expects s (tr, AppPrepare txnid txn promise) \<longleftrightarrow> ic_blockingPrepare s \<noteq> Some False"
| "ir_expects s (tr, AppCommitAbort txnid commit) \<longleftrightarrow> ic_blockingPrepare s = None"
| "ir_expects s (tr, AppDone) \<longleftrightarrow> ic_blockingPrepare s \<noteq> Some False"
| "ir_expects s (tr, DeferredRuns) \<longleftrightarrow> ic_lastReqId s \<noteq> - 1"
| "ir_expects s (tr, ReplyArrives m) \<longleftrightarrow> expects_reply s tr m"
| "ir_expects s (tr, RequestTimer reqId) \<longleftrightarrow> True"

text \<open>The only events that can run into undefined behaviour: replies on which the decided result cannot be sent.\<close>

fun finalize_sent :: "transport \<times> ir_event \<Rightarrow> bool" where
  "finalize_sent (tr, ReplyArrives (ConsensusReply v i opid res)) = snd tr"
| "finalize_sent _ = True"

lemma ir_inv_new: "ir_inv (IRClient_new config clientid)"
  by (simp add: ir_inv_def IRClient_new_def commits_ok_def unanswered_def)

lemmas ic_frame [simp] = put_req_def erase_req_def SendMessageToGroup_def

text \<open>The ways in which a step changes the pending requests.\<close>

lemma unanswered_put:
  "unanswered (P(r \<mapsto> req)) = (if \<not> pq_continuationInvoked req \<and> pq_continuation req = CommitAbortCb then insert r (unanswered P) else unanswered P - {r})"
  by (auto simp: unanswered_def)

lemma unanswered_erase: "unanswered (P(r := None)) = unanswered P - {r}"
  by (auto simp: unanswered_def)

lemma commits_ok_mono: "\<lbrakk> commits_ok P b D; unanswered P' \<subseteq> unanswered P \<rbrakk> \<Longrightarrow> commits_ok P' b D"
  by (auto simp: commits_ok_def Let_def split: if_splits)

lemma commits_okI: "\<lbrakk> b = Some False; filter is_commit D = []; unanswered P \<subseteq> {r} \<rbrakk> \<Longrightarrow> commits_ok P b D"
  by (auto simp: commits_ok_def Let_def)

lemma ir_inv_erase:
  assumes "ir_inv s" and "ic_pendingReqs s' = (ic_pendingReqs s)(r := None)" and "ic_lastReqId s' = ic_lastReqId s"
    and "ic_answered s' = ic_answered s" and "ic_blockingPrepare s' = ic_blockingPrepare s" and "ic_deferred s' = ic_deferred s"
  shows "ir_inv s'"
  using assms commits_ok_mono [of "ic_pendingReqs s" _ _ "ic_pendingReqs s'"]
  by (auto simp: ir_inv_def unanswered_erase split: if_splits)

lemma ir_inv_put:
  assumes "ir_inv s" and "ic_pendingReqs s r = Some req" and "req_ok (ic_lastReqId s) (ic_answered s) r req'"
    and "pq_continuation req' = pq_continuation req"
    and "ic_pendingReqs s' = (ic_pendingReqs s)(r \<mapsto> req')" and "ic_lastReqId s' = ic_lastReqId s"
    and "ic_answered s' = ic_answered s" and "ic_blockingPrepare s' = ic_blockingPrepare s" and "ic_deferred s' = ic_deferred s"
  shows "ir_inv s'"
proof -
  have "pq_continuationInvoked req' = pq_continuationInvoked req"
    using assms(1-3) by (auto simp: ir_inv_def req_ok_def)
  then have "unanswered (ic_pendingReqs s') \<subseteq> unanswered (ic_pendingReqs s)"
    using assms(2,4,5) by (auto simp: unanswered_put) (auto simp: unanswered_def)
  then have "commits_ok (ic_pendingReqs s') (ic_blockingPrepare s') (ic_deferred s')"
    using assms(1,8,9) commits_ok_mono by (auto simp: ir_inv_def)
  then show ?thesis using assms(1,3,5-7) by (auto simp: ir_inv_def)
qed

lemma ir_inv_req: "\<lbrakk> ir_inv s; ic_pendingReqs s r = Some req \<rbrakk> \<Longrightarrow> req_ok (ic_lastReqId s) (ic_answered s) r req"
  by (simp add: ir_inv_def)

lemma commit_outstanding:
  assumes "ir_inv s" and "ic_pendingReqs s r = Some req" and "\<not> pq_continuationInvoked req" and "pq_continuation req = CommitAbortCb"
  shows "ic_blockingPrepare s = Some False" "filter is_commit (ic_deferred s) = []" "unanswered (ic_pendingReqs s) = {r}"
proof -
  have "r \<in> unanswered (ic_pendingReqs s)" using assms(2-4) by (auto simp: unanswered_def)
  then show "ic_blockingPrepare s = Some False" "filter is_commit (ic_deferred s) = []" "unanswered (ic_pendingReqs s) = {r}"
    using assms(1) by (auto simp: ir_inv_def commits_ok_def Let_def subset_singleton_iff split: if_splits)
qed

lemma ir_inv_answer:
  assumes inv: "ir_inv s" and req: "ic_pendingReqs s r = Some req" "\<not> pq_continuationInvoked req"
    and x: "pred_option (req_ok (ic_lastReqId s) (ic_answered s @ [r]) r) x"
    and s': "ic_pendingReqs s' = (ic_pendingReqs s)(r := x)" "ic_lastReqId s' = ic_lastReqId s" "ic_answered s' = ic_answered s @ [r]"
      "ic_deferred s' = ic_deferred s"
      "ic_blockingPrepare s' = (if pq_continuation req = CommitAbortCb then Some True else ic_blockingPrepare s)"
  shows "ir_inv s'"
proof -
  have ok: "req_ok (ic_lastReqId s) (ic_answered s) r req" using ir_inv_req [OF inv req(1)] .
  have un: "unanswered (ic_pendingReqs s') = unanswered (ic_pendingReqs s) - {r}"
  proof (cases x)
    case (Some req')
    then have "pq_continuationInvoked req'" using x by (simp add: req_ok_def)
    then show ?thesis using Some s'(1) by (simp add: unanswered_put)
  qed (simp add: s'(1) unanswered_erase)
  have "commits_ok (ic_pendingReqs s') (ic_blockingPrepare s') (ic_deferred s')"
  proof (cases "pq_continuation req = CommitAbortCb")
    case True
    then show ?thesis using commit_outstanding [OF inv req True] s'(4,5) un by (simp add: commits_ok_def)
  next
    case False
    then show ?thesis using inv s'(4,5) un commits_ok_mono [of "ic_pendingReqs s"] by (auto simp: ir_inv_def)
  qed
  moreover have "req_ok (ic_lastReqId s) (ic_answered s @ [r]) r2 req2" if "ic_pendingReqs s' r2 = Some req2" for r2 req2
  proof (cases "r2 = r")
    case False
    then have "req_ok (ic_lastReqId s) (ic_answered s) r2 req2" using that s'(1) ir_inv_req [OF inv] by simp
    then show ?thesis using False by (simp add: req_ok_def)
  qed (use that s'(1) x in simp)
  ultimately show ?thesis using inv ok req(2) s'(2,3) by (auto simp: ir_inv_def req_ok_def)
qed

text \<open>A new request.\<close>

lemma ir_inv_new_req:
  assumes inv: "ir_inv s" and n: "ic_lastReqId s \<noteq> - 1"
    and pend: "\<And>r req. \<lbrakk> ic_pendingReqs s' r = Some req; ic_pendingReqs s r \<noteq> Some req \<rbrakk> \<Longrightarrow>
        req_ok (ic_lastReqId s + 1) (ic_answered s) r req"
    and s': "ic_lastReqId s' = ic_lastReqId s + 1" "ic_answered s' = ic_answered s"
    and com: "commits_ok (ic_pendingReqs s') (ic_blockingPrepare s') (ic_deferred s')"
  shows "ir_inv s'"
proof -
  have lt: "ic_lastReqId s < ic_lastReqId s + 1"
    using n unat_add_of_nat [of "ic_lastReqId s" 1] unfolding u64_not_max by (simp add: word_less_nat_alt)
  have "req_ok (ic_lastReqId s') (ic_answered s') r2 req2" if "ic_pendingReqs s' r2 = Some req2" for r2 req2
  proof (cases "ic_pendingReqs s r2 = Some req2")
    case True
    then have "req_ok (ic_lastReqId s) (ic_answered s) r2 req2" by (rule ir_inv_req [OF inv])
    then show ?thesis using lt s' by (auto simp: req_ok_def)
  qed (use pend [OF that] s' in simp)
  then show ?thesis using inv s' com lt by (fastforce simp: ir_inv_def)
qed

lemma new_req_unused: "\<lbrakk> ir_inv s; ic_lastReqId s \<noteq> - 1 \<rbrakk> \<Longrightarrow> ic_lastReqId s + 1 \<notin> set (ic_answered s)"
proof -
  assume inv: "ir_inv s" and n: "ic_lastReqId s \<noteq> - 1"
  have "\<not> ic_lastReqId s + 1 \<le> ic_lastReqId s"
    using n unat_add_of_nat [of "ic_lastReqId s" 1] unfolding u64_not_max by (simp add: word_le_nat_alt)
  then show ?thesis using inv by (auto simp: ir_inv_def)
qed

lemma run_deferred_inv:
  assumes inv: "ir_inv s" and n: "ic_lastReqId s \<noteq> - 1" and d: "ic_deferred s = d # ds"
  shows "ir_inv (run_deferred tr (s\<lparr>ic_deferred := ds\<rparr>) d)"
proof (cases d)
  case (DeferPrepare txnstr promise)
  let ?s' = "run_deferred tr (s\<lparr>ic_deferred := ds\<rparr>) d"
  have "unanswered (ic_pendingReqs ?s') \<subseteq> unanswered (ic_pendingReqs s)"
    using DeferPrepare by (auto simp: InvokeConsensus_def Let_def unanswered_put)
  moreover have "commits_ok (ic_pendingReqs s) (ic_blockingPrepare s) ds" using inv d DeferPrepare by (simp add: ir_inv_def commits_ok_def)
  ultimately have com: "commits_ok (ic_pendingReqs ?s') (ic_blockingPrepare s) ds" using commits_ok_mono by blast
  show ?thesis using com DeferPrepare new_req_unused [OF inv n]
    by (intro ir_inv_new_req [OF inv n, of ?s']) (auto simp: InvokeConsensus_def Let_def req_ok_def split: if_splits)
next
  case (DeferCommitAbort txnstr)
  let ?s' = "run_deferred tr (s\<lparr>ic_deferred := ds\<rparr>) d"
  have b: "ic_blockingPrepare s = Some False" "filter is_commit ds = []" "unanswered (ic_pendingReqs s) = {}"
    using inv d DeferCommitAbort by (auto simp: ir_inv_def commits_ok_def Let_def split: if_splits)
  have "unanswered (ic_pendingReqs ?s') \<subseteq> {ic_lastReqId s + 1}"
    using DeferCommitAbort b(3) by (auto simp: InvokeInconsistent_def SendInconsistent_def Let_def unanswered_put unanswered_erase)
  then have "commits_ok (ic_pendingReqs ?s') (ic_blockingPrepare ?s') (ic_deferred ?s')"
    using b by (intro commits_okI) (simp_all add: DeferCommitAbort InvokeInconsistent_def SendInconsistent_def Let_def)
  then show ?thesis using DeferCommitAbort new_req_unused [OF inv n]
    by (intro ir_inv_new_req [OF inv n, of ?s']) (auto simp: InvokeInconsistent_def SendInconsistent_def Let_def req_ok_def split: if_splits)
qed

lemma req_ok_active [simp]: "req_ok n A r (req\<lparr>pq_active := b\<rparr>) = req_ok n A r req"
  by (simp add: req_ok_def split: pending_kind.splits)

lemma ResendConfirmation_ok:
  assumes "ir_inv s" and "\<And>req. ic_pendingReqs s r = Some req \<Longrightarrow> pq_continuation req = (if isConsensus then PrepareCb else CommitAbortCb)"
  shows "\<exists>s'. ResendConfirmation tr s r isConsensus = Inr s' \<and> ir_inv s'"
proof (cases "ic_pendingReqs s r")
  case (Some req)
  have ok: "req_ok (ic_lastReqId s) (ic_answered s) r req" using ir_inv_req [OF assms(1) Some] .
  obtain m where m: "(case pq_sub req of
                   PendingConsensusRequest _ res \<Rightarrow>
                     check isConsensus UndefinedBehaviour (Inr (FinalizeConsensus (ic_clientid s, pq_clientReqId req) res))
                 | PendingInconsistentRequest _ \<Rightarrow>
                     check (\<not> isConsensus) UndefinedBehaviour (Inr (FinalizeInconsistent (ic_clientid s, pq_clientReqId req)))) = Inr m"
    using ok assms(2) [OF Some] by (cases "pq_sub req") (auto simp: req_ok_def split: if_splits)
  have "ir_inv (put_req (SendMessageToGroup s m) r (req\<lparr>pq_active := True\<rparr>))" using ok by (intro ir_inv_put [OF assms(1) Some]) simp_all
  moreover have "ir_inv (erase_req s r)" by (rule ir_inv_erase [OF assms(1)]) simp_all
  ultimately show ?thesis using Some m by (simp add: ResendConfirmation_def)
qed (use assms(1) in \<open>simp add: ResendConfirmation_def\<close>)

lemma ConsensusSlowPath_ok:
  assumes "ir_inv s" and "ic_pendingReqs s r = Some req" and "pq_continuation req = PrepareCb"
  shows "\<exists>s'. ConsensusSlowPath env tr s r = Inr s' \<and> ir_inv s'"
proof -
  have ok: "req_ok (ic_lastReqId s) (ic_answered s) r req" using ir_inv_req [OF assms(1,2)] .
  then obtain q d where q: "pq_sub req = PendingConsensusRequest q d" using assms(3) by (cases "pq_sub req") (auto simp: req_ok_def)
  let ?res = "PrepareDecide env (ic_config s) (result_set (GetMessages q (viewstamp2 (ic_view s) r)))"
  let ?req = "req\<lparr>pq_timer := SlowResendTimer, pq_active := False, pq_sub := PendingConsensusRequest q ?res, pq_active := True\<rparr>"
  have "req_ok (ic_lastReqId s) (ic_answered s) r ?req" using ok q by (simp add: req_ok_def)
  then have "ir_inv (put_req (SendMessageToGroup s m) r ?req)" for m by (rule ir_inv_put [OF assms(1,2)]) simp_all
  moreover have "ir_inv (erase_req s r)" by (rule ir_inv_erase [OF assms(1)]) simp_all
  ultimately show ?thesis using assms(2) q by (simp add: ConsensusSlowPath_def Let_def)
qed

lemma SendMessageToGroup_inv: "ir_inv s \<Longrightarrow> ir_inv (SendMessageToGroup s m)"
  by (simp add: ir_inv_def)

lemma TimerFires_ok:
  assumes "ir_inv s"
  shows "\<exists>s'. TimerFires env tr s r = Inr s' \<and> ir_inv s'"
proof (cases "ic_pendingReqs s r")
  case (Some req)
  have ok: "req_ok (ic_lastReqId s) (ic_answered s) r req" using ir_inv_req [OF assms Some] .
  then have act: "ir_inv (put_req (SendMessageToGroup s m) r (req\<lparr>pq_active := True\<rparr>))" for m
    by (intro ir_inv_put [OF assms Some]) simp_all
  have er: "ir_inv (erase_req s r)" by (rule ir_inv_erase [OF assms]) simp_all
  show ?thesis
  proof (cases "pq_active req")
    case active: True
    show ?thesis
    proof (cases "pq_timer req")
      case ResendInconsistentTimer
      moreover have "pq_clientReqId req = r" using ok by (simp add: req_ok_def)
      ultimately show ?thesis using active Some act er by (simp add: TimerFires_def SendInconsistent_def Let_def)
    next
      case SlowPathTimer
      then show ?thesis using active Some ok ConsensusSlowPath_ok [OF assms Some]
        by (auto simp: TimerFires_def req_ok_def split: pending_kind.splits)
    next
      case SlowResendTimer
      let ?m = "ProposeConsensus (propose_request s (pq_request req) (pq_clientReqId req))"
      let ?s = "if sends tr ?m then SendMessageToGroup s ?m else s"
      have inv: "ir_inv ?s" using assms SendMessageToGroup_inv by presburger
      have "pq_continuation req = PrepareCb" using ok SlowResendTimer by (simp add: req_ok_def split: pending_kind.splits)
      then have "\<exists>s'. ResendConfirmation tr ?s r True = Inr s' \<and> ir_inv s'"
        by (intro ResendConfirmation_ok [OF inv]) (use Some in \<open>simp split: if_splits\<close>)
      moreover have "TimerFires env tr s r = ResendConfirmation tr ?s r True"
        using active Some SlowResendTimer by (simp add: TimerFires_def Let_def del: ic_frame)
      ultimately show ?thesis by presburger
    next
      case (ConfirmTimer b)
      then show ?thesis using active Some ok ResendConfirmation_ok [OF assms, of r b tr]
        by (cases b) (auto simp: TimerFires_def req_ok_def split: pending_kind.splits)
    qed
  qed (use Some assms in \<open>simp add: TimerFires_def\<close>)
qed (use assms in \<open>simp add: TimerFires_def\<close>)

lemma run_continuation_ok:
  assumes inv: "ir_inv s" and req: "ic_pendingReqs s r = Some req0" "\<not> pq_continuationInvoked req0"
    and k: "pq_continuation req = pq_continuation req0" "pq_clientReqId req = r"
    and x: "pred_option (req_ok (ic_lastReqId s) (ic_answered s @ [r]) r) x"
    and t: "ic_lastReqId t = ic_lastReqId s" "ic_answered t = ic_answered s" "ic_deferred t = ic_deferred s"
      "ic_blockingPrepare t = ic_blockingPrepare s"
  shows "\<exists>s'. run_continuation env t req reply = Inr s' \<and> ic_pendingReqs s' = ic_pendingReqs t \<and>
     (\<forall>s''. ic_pendingReqs s'' = (ic_pendingReqs s)(r := x) \<and> ic_lastReqId s'' = ic_lastReqId s' \<and> ic_answered s'' = ic_answered s' \<and>
        ic_deferred s'' = ic_deferred s' \<and> ic_blockingPrepare s'' = ic_blockingPrepare s' \<longrightarrow> ir_inv s'')"
proof (cases "pq_continuation req0")
  case PrepareCb
  then show ?thesis using k t
    by (auto simp: run_continuation_def PrepareCallback_def Let_def split: option.splits intro!: ir_inv_answer [OF inv req x])
next
  case CommitAbortCb
  then show ?thesis using k t commit_outstanding [OF inv req CommitAbortCb]
    by (auto simp: run_continuation_def CommitAbortCallback_def intro!: ir_inv_answer [OF inv req x])
qed

lemma req_ok_sub:
  assumes "req_ok n A r req"
  shows "pq_sub req = PendingInconsistentRequest q \<Longrightarrow> req_ok n A r (req\<lparr>pq_sub := PendingInconsistentRequest q'\<rparr>)"
    "pq_sub req = PendingConsensusRequest q d \<Longrightarrow> req_ok n A r (req\<lparr>pq_sub := PendingConsensusRequest q' d'\<rparr>)"
  using assms by (simp_all add: req_ok_def)

lemma HandleInconsistentReply_ok:
  assumes inv: "ir_inv s" and msg: "expects_reply s tr (InconsistentReply v i opid)"
  shows "\<exists>s'. HandleInconsistentReply env tr s v i opid = Inr s' \<and> ir_inv s'"
proof (cases "ic_pendingReqs s (snd opid)")
  case (Some req)
  let ?r = "snd opid"
  have ok: "req_ok (ic_lastReqId s) (ic_answered s) ?r req" using ir_inv_req [OF inv Some] .
  then obtain q where q: "pq_sub req = PendingInconsistentRequest q" using msg Some
    by (cases "pq_sub req") (auto simp: req_ok_def expects_reply_def)
  obtain q1 msgs where add: "AddAndCheckForQuorum q (viewstamp2 v ?r) (sint i) (InconsistentReply v i opid) = (q1, msgs)" by fastforce
  let ?req1 = "req\<lparr>pq_sub := PendingInconsistentRequest q1\<rparr>"
  show ?thesis
  proof (cases "msgs \<noteq> None \<and> \<not> pq_continuationInvoked req")
    case False
    have "ir_inv (put_req s ?r ?req1)" using ok q by (intro ir_inv_put [OF inv Some]) (simp_all add: req_ok_sub)
    moreover have "HandleInconsistentReply env tr s v i opid = Inr (put_req s ?r ?req1)"
      using False Some q add by (auto simp: HandleInconsistentReply_def Let_def)
    ultimately show ?thesis by blast
  next
    case True
    let ?m = "FinalizeInconsistent opid"
    let ?req2 = "?req1\<lparr>pq_timer := ConfirmTimer False, pq_active := sends tr ?m, pq_continuationInvoked := True\<rparr>"
    let ?t = "if sends tr ?m then SendMessageToGroup s ?m else s"
    have "req_ok (ic_lastReqId s) (ic_answered s @ [?r]) ?r ?req2" using ok q by (simp add: req_ok_def)
    then have "\<exists>s'. run_continuation env ?t ?req2 '''' = Inr s' \<and> ic_pendingReqs s' = ic_pendingReqs ?t \<and>
       (\<forall>s''. ic_pendingReqs s'' = (ic_pendingReqs s)(?r := Some ?req2) \<and> ic_lastReqId s'' = ic_lastReqId s' \<and> ic_answered s'' = ic_answered s' \<and>
        ic_deferred s'' = ic_deferred s' \<and> ic_blockingPrepare s'' = ic_blockingPrepare s' \<longrightarrow> ir_inv s'')"
      using True ok by (intro run_continuation_ok [OF inv Some]) (simp_all add: req_ok_def)
    then obtain s' where s': "run_continuation env ?t ?req2 '''' = Inr s'" "ic_pendingReqs s' = ic_pendingReqs ?t"
      "ir_inv (put_req s' ?r ?req2)" by auto
    moreover have "HandleInconsistentReply env tr s v i opid = Inr (put_req s' ?r ?req2)"
      using True Some q add s'(1) by (simp add: HandleInconsistentReply_def Let_def del: ic_frame)
    ultimately show ?thesis by blast
  qed
qed (use inv in \<open>simp add: HandleInconsistentReply_def\<close>)

lemma HandleConfirm_ok:
  assumes inv: "ir_inv s" and msg: "expects_reply s tr (Confirm v i opid)"
  shows "\<exists>s'. HandleConfirm env s v i opid = Inr s' \<and> ir_inv s'"
proof (cases "ic_pendingReqs s (snd opid)")
  case (Some req)
  let ?r = "snd opid"
  have ok: "req_ok (ic_lastReqId s) (ic_answered s) ?r req" using ir_inv_req [OF inv Some] .
  obtain q1 msgs where add: "AddAndCheckForQuorum (pq_confirmQuorum req) (viewstamp2 v ?r) (sint i) (Confirm v i opid) = (q1, msgs)" by fastforce
  show ?thesis
  proof (cases "msgs = None \<or> pq_continuationInvoked req")
    case True
    have "req_ok (ic_lastReqId s) (ic_answered s) ?r (req\<lparr>pq_confirmQuorum := q1\<rparr>)" using ok by (simp add: req_ok_def split: pending_kind.splits)
    then have "ir_inv (put_req s ?r (req\<lparr>pq_confirmQuorum := q1\<rparr>))" by (intro ir_inv_put [OF inv Some]) simp_all
    moreover have "ir_inv (erase_req s ?r)" by (rule ir_inv_erase [OF inv]) simp_all
    ultimately show ?thesis using True Some add by (auto simp: HandleConfirm_def Let_def)
  next
    case False
    then obtain q d where q: "pq_sub req = PendingConsensusRequest q d" using msg Some ok
      by (cases "pq_sub req") (auto simp: req_ok_def expects_reply_def)
    have "\<exists>s'. run_continuation env (erase_req s ?r) req d = Inr s' \<and> ic_pendingReqs s' = ic_pendingReqs (erase_req s ?r) \<and>
       (\<forall>s''. ic_pendingReqs s'' = (ic_pendingReqs s)(?r := None) \<and> ic_lastReqId s'' = ic_lastReqId s' \<and> ic_answered s'' = ic_answered s' \<and>
        ic_deferred s'' = ic_deferred s' \<and> ic_blockingPrepare s'' = ic_blockingPrepare s' \<longrightarrow> ir_inv s'')"
      using False ok by (intro run_continuation_ok [OF inv Some]) (simp_all add: req_ok_def)
    then show ?thesis using False Some q add by (auto simp: HandleConfirm_def Let_def)
  qed
qed (use inv in \<open>simp add: HandleConfirm_def\<close>)

lemma HandleConsensusReply_ok:
  assumes inv: "ir_inv s" and msg: "expects_reply s tr (ConsensusReply v i opid res)"
  shows "ends (snd tr) (HandleConsensusReply env tr s v i opid res) ir_inv"
proof (cases "ic_pendingReqs s (snd opid)")
  case (Some req)
  let ?r = "snd opid"
  have ok: "req_ok (ic_lastReqId s) (ic_answered s) ?r req" using ir_inv_req [OF inv Some] .
  have k: "pq_continuation req = PrepareCb" using msg Some by (simp add: expects_reply_def)
  then obtain q d where q: "pq_sub req = PendingConsensusRequest q d" using ok by (cases "pq_sub req") (auto simp: req_ok_def)
  obtain q1 msgs where add: "AddAndCheckForQuorum q (viewstamp2 v ?r) (sint i) (ConsensusReply v i opid res) = (q1, msgs)" by fastforce
  let ?req1 = "req\<lparr>pq_sub := PendingConsensusRequest q1 d\<rparr>"
  let ?s1 = "put_req s ?r ?req1"
  note def = HandleConsensusReply_def [of env tr s v i opid res]
  have s1: "ir_inv ?s1" using ok q by (intro ir_inv_put [OF inv Some]) (simp_all add: req_ok_sub)
  show ?thesis
  proof (cases msgs)
    case None
    then have "HandleConsensusReply env tr s v i opid res = Inr ?s1" using Some q add by (simp add: def Let_def del: ic_frame)
    then show ?thesis using s1 by simp
  next
    case (Some ms)
    note ms = this \<open>ic_pendingReqs s ?r = Some req\<close>
    show ?thesis
    proof (cases "find (\<lambda>(_, n). n \<ge> numRequired q1) (count_results ms)")
      case None
      then have "HandleConsensusReply env tr s v i opid res = ConsensusSlowPath env tr ?s1 ?r"
        using ms q add by (simp add: def Let_def del: ic_frame)
      moreover have "\<exists>s'. ConsensusSlowPath env tr ?s1 ?r = Inr s' \<and> ir_inv s'"
        by (rule ConsensusSlowPath_ok [OF s1, of _ ?req1]) (simp_all add: k)
      ultimately show ?thesis by auto
    next
      case (Some rn)
      obtain x n where rn: "rn = (x, n)" by fastforce
      let ?m = "FinalizeConsensus opid x"
      let ?req2 = "req\<lparr>pq_timer := ConfirmTimer True, pq_active := True, pq_sub := PendingConsensusRequest q1 x\<rparr>"
      have H: "HandleConsensusReply env tr s v i opid res = check (snd tr) UndefinedBehaviour
        (if pq_continuationInvoked req then Inr (put_req (SendMessageToGroup ?s1 ?m) ?r ?req2)
         else rbind (run_continuation env (SendMessageToGroup ?s1 ?m) ?req2 x) (\<lambda>s2. Inr (put_req s2 ?r (?req2\<lparr>pq_continuationInvoked := True\<rparr>))))"
        using ms q add Some rn by (simp add: def Let_def del: ic_frame)
      show ?thesis
      proof (cases "pq_continuationInvoked req")
        case True
        have "ir_inv (put_req (SendMessageToGroup ?s1 ?m) ?r ?req2)"
          using ok q by (intro ir_inv_put [OF inv ms(2)]) (simp_all add: req_ok_def)
        then show ?thesis using H True by (cases "snd tr") (simp_all del: ic_frame)
      next
        case False
        let ?req3 = "?req2\<lparr>pq_continuationInvoked := True\<rparr>"
        have "\<exists>s'. run_continuation env (SendMessageToGroup ?s1 ?m) ?req2 x = Inr s' \<and> ic_pendingReqs s' = ic_pendingReqs (SendMessageToGroup ?s1 ?m) \<and>
         (\<forall>s''. ic_pendingReqs s'' = (ic_pendingReqs s)(?r := Some ?req3) \<and> ic_lastReqId s'' = ic_lastReqId s' \<and> ic_answered s'' = ic_answered s' \<and>
           ic_deferred s'' = ic_deferred s' \<and> ic_blockingPrepare s'' = ic_blockingPrepare s' \<longrightarrow> ir_inv s'')"
          using False ok q by (intro run_continuation_ok [OF inv ms(2)]) (simp_all add: req_ok_def)
        then obtain s' where "run_continuation env (SendMessageToGroup ?s1 ?m) ?req2 x = Inr s'" "ir_inv (put_req s' ?r ?req3)" by auto
        then show ?thesis using H False by (cases "snd tr") (auto simp del: ic_frame)
      qed
    qed
  qed
qed (use inv in \<open>simp add: HandleConsensusReply_def\<close>)

lemma ir_handle_ok:
  assumes inv: "ir_inv s" and ev: "ir_expects s e"
  shows "ends (finalize_sent e) (ir_handle env s e) ir_inv"
proof -
  obtain tr ev where e: "e = (tr, ev)" by fastforce
  show ?thesis
  proof (cases ev)
    case (AppPrepare txnid txn promise)
    then show ?thesis using assms e
      by (cases "ic_blockingPrepare s") (auto simp: Prepare_def Let_def ir_inv_def commits_ok_def)
  next
    case (AppCommitAbort txnid commit)
    then show ?thesis using assms e
      by (auto simp: CommitAbort_def Let_def ir_inv_def commits_ok_def)
  next
    case AppDone
    then show ?thesis using assms e
      by (cases "ic_blockingPrepare s") (auto simp: Done_def ir_inv_def commits_ok_def)
  next
    case DeferredRuns
    then show ?thesis using assms e run_deferred_inv [OF inv, of _ _ tr]
      by (cases "ic_deferred s") auto
  next
    case (ReplyArrives m)
    then have ex: "expects_reply s tr m" using ev e by simp
    show ?thesis
    proof (cases m)
      case (InconsistentReply v i opid)
      then show ?thesis using ReplyArrives e HandleInconsistentReply_ok [OF inv ex [unfolded InconsistentReply], of env] by auto
    next
      case (ConsensusReply v i opid res)
      then show ?thesis using ReplyArrives e HandleConsensusReply_ok [OF inv ex [unfolded ConsensusReply]] by simp
    next
      case (Confirm v i opid)
      then show ?thesis using ReplyArrives e HandleConfirm_ok [OF inv ex [unfolded Confirm], of env] by auto
    next
      case ToClientNotSet
      then show ?thesis using ex by (simp add: expects_reply_def)
    qed
  next
    case (RequestTimer reqId)
    then show ?thesis using e TimerFires_ok [OF inv, of env tr reqId] by auto
  qed
qed

interpretation ir: handler_system "ir_handle env" ir_expects ir_inv for env
proof
  fix s e s'
  assume "ir_inv s" "ir_expects s e" "ir_handle env s e = Inr s'"
  then show "ir_inv s'" using ir_handle_ok [of s e env] by simp
qed

section \<open>Why a continuation runs\<close>

text \<open>The replicas whose replies to request \<open>r\<close> in view \<open>v\<close> have arrived.\<close>

definition replied :: "(transport \<times> ir_event) list \<Rightarrow> u64 \<Rightarrow> u64 \<Rightarrow> u32 set" where
  "replied es r v = {i. \<exists>tr c. (tr, ReplyArrives (InconsistentReply v i (c, r))) \<in> set es}"

definition answered_with :: "(transport \<times> ir_event) list \<Rightarrow> u64 \<Rightarrow> u64 \<Rightarrow> string \<Rightarrow> u32 set" where
  "answered_with es r v x = {i. \<exists>tr c. (tr, ReplyArrives (ConsensusReply v i (c, r) x)) \<in> set es}"

definition confirmed :: "(transport \<times> ir_event) list \<Rightarrow> u64 \<Rightarrow> u64 \<Rightarrow> u32 set" where
  "confirmed es r v = {i. \<exists>tr c. (tr, ReplyArrives (Confirm v i (c, r))) \<in> set es}"

definition justified :: "Configuration \<Rightarrow> (transport \<times> ir_event) list \<Rightarrow> u64 \<Rightarrow> bool" where
  "justified config es r \<longleftrightarrow>
     (\<exists>v. QuorumSize config \<le> int (card (replied es r v))) \<or>
     (\<exists>v x. SuperQuorum config \<le> int (card (answered_with es r v x))) \<or>
     (\<exists>v. QuorumSize config \<le> int (card (confirmed es r v)))"

lemma heard_mono:
  "replied es r v \<subseteq> replied (es @ [e]) r v" "answered_with es r v x \<subseteq> answered_with (es @ [e]) r v x" "confirmed es r v \<subseteq> confirmed (es @ [e]) r v"
  by (auto simp: replied_def answered_with_def confirmed_def)

lemma justified_mono: "justified config es r \<Longrightarrow> justified config (es @ [e]) r"
  unfolding justified_def by (meson card_mono finite heard_mono of_nat_le_iff order_trans)

text \<open>A quorum set whose votes for request \<open>r\<close> come from replicas in given sets.\<close>

definition backed :: "(viewstamp_t, 'm) QuorumSet \<Rightarrow> int \<Rightarrow> u64 \<Rightarrow> (u64 \<Rightarrow> 'm \<Rightarrow> u32 set) \<Rightarrow> bool" where
  "backed q k r H \<longleftrightarrow> quorum_set_ok q \<and> numRequired q = k \<and>
     (\<forall>v j m. (j, m) \<in> set (messages q (viewstamp2 v r)) \<longrightarrow> j \<in> sint ` H v m)"

lemma backed_new [simp]: "backed (QuorumSet_new k) k r H"
  by (simp add: backed_def) (simp add: QuorumSet_new_def)

lemma backed_mono: "\<lbrakk> backed q k r H; \<And>v m. H v m \<subseteq> H' v m \<rbrakk> \<Longrightarrow> backed q k r H'"
  unfolding backed_def by blast

lemma viewstamp2_inject [simp]: "viewstamp2 v r = viewstamp2 w r' \<longleftrightarrow> v = w \<and> r = r'"
  by (simp add: viewstamp2_def)

lemma backed_add:
  assumes "backed q k r H" and "AddAndCheckForQuorum q (viewstamp2 v r) (sint i) m = (q1, msgs)" and "i \<in> H v m"
  shows "backed q1 k r H"
proof -
  have q1: "q1 = q\<lparr>messages := (messages q)(viewstamp2 v r := smap_put (sint i) m (messages q (viewstamp2 v r)))\<rparr>"
    using assms(2) by (simp add: AddAndCheckForQuorum_def Let_def)
  have "quorum_set_ok q1" using assms(1) quorum_set_ok_add [of q "viewstamp2 v r" "sint i" m] assms(2) by (simp add: backed_def)
  moreover have "j \<in> sint ` H w n" if "(j, n) \<in> set (messages q1 (viewstamp2 w r))" for w j n
    using that assms(1,3) q1 set_smap_put_subset [of "sint i" m "messages q (viewstamp2 v r)"] by (auto simp: backed_def split: if_splits)
  ultimately show ?thesis using assms(1) q1 by (simp add: backed_def)
qed

lemma backed_votes:
  assumes "backed q k r H" and "AddAndCheckForQuorum q (viewstamp2 v r) (sint i) m = (q1, Some ms)"
  shows "ms = messages q1 (viewstamp2 v r)" "k \<le> int (length ms)"
  using assms by (auto simp: AddAndCheckForQuorum_def CheckForQuorum_def Let_def backed_def split: if_splits)

lemma backedD: "\<lbrakk> backed q k r H; (j, m) \<in> set (messages q (viewstamp2 v r)) \<rbrakk> \<Longrightarrow> j \<in> sint ` H v m"
  by (simp add: backed_def)

lemma backed_ok: "backed q k r H \<Longrightarrow> smap_ok (messages q vs)"
  by (simp add: backed_def quorum_set_ok_def)

lemma voters_card:
  assumes "smap_ok ms" and "\<And>j m. \<lbrakk> (j, m) \<in> set ms; P m \<rbrakk> \<Longrightarrow> j \<in> sint ` (S :: u32 set)"
  shows "length (filter (\<lambda>(_, m). P m) ms) \<le> card S"
proof -
  have "distinct (map fst ms)" using assms(1) by (simp add: smap_ok_def strict_sorted_iff)
  then have "distinct (map fst (filter (\<lambda>(_, m). P m) ms))" by (rule distinct_map_filter)
  then have "length (filter (\<lambda>(_, m). P m) ms) = card (fst ` set (filter (\<lambda>(_, m). P m) ms))"
    by (metis distinct_card length_map set_map)
  also have "\<dots> \<le> card (sint ` S)" using assms(2) by (intro card_mono) auto
  also have "\<dots> \<le> card S" by (rule card_image_le) simp
  finally show ?thesis .
qed

text \<open>The ordered map counts how often each result occurs.\<close>

lemma count_results_spec:
  "smap_ok (count_results ms) \<and>
   map_of (count_results ms) x = (let c = length (filter (\<lambda>(_, m). msg_result m = x) ms) in if c = 0 then None else Some (int c))"
proof (induction ms arbitrary: x rule: rev_induct)
  case (snoc jm ms)
  obtain j m where jm: "jm = (j, m)" by fastforce
  have step: "count_results (ms @ [jm]) =
    smap_put (msg_result m) (case map_of (count_results ms) (msg_result m) of Some n \<Rightarrow> n + 1 | None \<Rightarrow> 1) (count_results ms)"
    by (simp add: count_results_def jm)
  show ?case unfolding step using snoc.IH [of x] snoc.IH [of "msg_result m"] jm by (auto simp: Let_def)
qed (simp add: count_results_def)

lemma matching_result:
  assumes "backed q k r H" and "AddAndCheckForQuorum q (viewstamp2 v r) (sint i) m = (q1, Some ms)" and "i \<in> H v m"
    and "find (\<lambda>(_, n). n \<ge> numRequired q1) (count_results ms) = Some (x, n)"
    and "\<And>m'. msg_result m' = x \<Longrightarrow> H v m' \<subseteq> S"
  shows "k \<le> int (card S)"
proof -
  have b: "backed q1 k r H" by (rule backed_add [OF assms(1-3)])
  have ms: "ms = messages q1 (viewstamp2 v r)" using backed_votes [OF assms(1,2)] by simp
  have "(x, n) \<in> set (count_results ms)" "k \<le> n" using assms(4) b by (auto simp: find_Some_iff backed_def in_set_conv_nth)
  then have "map_of (count_results ms) x = Some n" using count_results_spec smap_map_of by metis
  then have "n = int (length (filter (\<lambda>(_, m). msg_result m = x) ms))"
    using count_results_spec [of ms x] by (simp add: Let_def split: if_splits)
  moreover have "length (filter (\<lambda>(_, m). msg_result m = x) ms) \<le> card S"
    unfolding ms using assms(5) backedD [OF b] backed_ok [OF b] by (intro voters_card) (blast, metis image_mono subsetD)
  ultimately show ?thesis using \<open>k \<le> n\<close> by linarith
qed

lemma enough_votes:
  assumes "backed q k r (\<lambda>v m. S v)" and "AddAndCheckForQuorum q (viewstamp2 v r) (sint i) m = (q1, Some ms)" and "i \<in> S v"
  shows "k \<le> int (card (S v))"
proof -
  have b: "backed q1 k r (\<lambda>v m. S v)" by (rule backed_add [OF assms])
  have "length (filter (\<lambda>(_, m). True) ms) \<le> card (S v)"
    unfolding backed_votes(1) [OF assms(1,2)] using backedD [OF b] backed_ok [OF b] by (intro voters_card) blast+
  then show ?thesis using backed_votes(2) [OF assms(1,2)] by (simp add: split_beta)
qed

text \<open>The votes of a pending request are replies that have arrived.\<close>

definition req_heard :: "Configuration \<Rightarrow> (transport \<times> ir_event) list \<Rightarrow> u64 \<Rightarrow> PendingRequest \<Rightarrow> bool" where
  "req_heard config es r req \<longleftrightarrow> pq_clientReqId req = r \<and>
     backed (pq_confirmQuorum req) (QuorumSize config) r (\<lambda>v m. confirmed es r v) \<and>
     (case pq_sub req of
        PendingInconsistentRequest q \<Rightarrow> backed q (QuorumSize config) r (\<lambda>v m. replied es r v)
      | PendingConsensusRequest q _ \<Rightarrow> backed q (SuperQuorum config) r (\<lambda>v m. answered_with es r v (msg_result m)))"

definition heard_inv :: "Configuration \<Rightarrow> (transport \<times> ir_event) list \<Rightarrow> IRClient \<Rightarrow> bool" where
  "heard_inv config es s \<longleftrightarrow> ic_config s = config \<and> (\<forall>r\<in>set (ic_answered s). justified config es r) \<and>
     (\<forall>r req. ic_pendingReqs s r = Some req \<longrightarrow> req_heard config es r req)"

lemma backed_snoc:
  "backed q k r (\<lambda>v m. confirmed es r v) \<Longrightarrow> backed q k r (\<lambda>v m. confirmed (es @ [e]) r v)"
  "backed q k r (\<lambda>v m. replied es r v) \<Longrightarrow> backed q k r (\<lambda>v m. replied (es @ [e]) r v)"
  "backed q k r (\<lambda>v m. answered_with es r v (msg_result m)) \<Longrightarrow> backed q k r (\<lambda>v m. answered_with (es @ [e]) r v (msg_result m))"
  by (erule backed_mono; rule heard_mono)+

lemma req_heard_mono: "req_heard config es r req \<Longrightarrow> req_heard config (es @ [e]) r req"
  unfolding req_heard_def by (auto split: pending_kind.splits intro: backed_snoc)

lemma heard_inv_mono: "heard_inv config es s \<Longrightarrow> heard_inv config (es @ [e]) s"
  by (simp add: heard_inv_def justified_mono req_heard_mono)

lemma heard_put: "\<lbrakk> heard_inv config es s; req_heard config es r req; ic_config s' = ic_config s; ic_answered s' = ic_answered s;
    ic_pendingReqs s' = (ic_pendingReqs s)(r \<mapsto> req) \<rbrakk> \<Longrightarrow> heard_inv config es s'"
  by (simp add: heard_inv_def)

lemma heard_erase: "\<lbrakk> heard_inv config es s; ic_config s' = ic_config s; ic_answered s' = ic_answered s;
    ic_pendingReqs s' = (ic_pendingReqs s)(r := None) \<rbrakk> \<Longrightarrow> heard_inv config es s'"
  by (simp add: heard_inv_def)

lemma heard_keep: "\<lbrakk> heard_inv config es s; ic_config s' = ic_config s; ic_answered s' = ic_answered s; ic_pendingReqs s' = ic_pendingReqs s \<rbrakk>
    \<Longrightarrow> heard_inv config es s'"
  by (simp add: heard_inv_def)

lemma heard_req: "\<lbrakk> heard_inv config es s; ic_pendingReqs s r = Some req \<rbrakk> \<Longrightarrow> req_heard config es r req"
  by (simp add: heard_inv_def)

lemma heard_answer:
  assumes "heard_inv config es s" and "justified config es (pq_clientReqId req)" and "run_continuation env s req reply = Inr s'"
  shows "heard_inv config es s'" "ic_pendingReqs s' = ic_pendingReqs s"
proof -
  have "ic_config s' = ic_config s \<and> ic_pendingReqs s' = ic_pendingReqs s \<and> ic_answered s' = ic_answered s @ [pq_clientReqId req]"
    using assms(3) by (cases "pq_continuation req") (auto simp: run_continuation_def PrepareCallback_def CommitAbortCallback_def Let_def split: option.splits)
  then show "heard_inv config es s'" "ic_pendingReqs s' = ic_pendingReqs s" using assms(1,2) by (auto simp: heard_inv_def)
qed

lemma req_heard_frame:
  "req_heard config es r (req\<lparr>pq_active := b\<rparr>) = req_heard config es r req"
  "req_heard config es r (req\<lparr>pq_timer := t\<rparr>) = req_heard config es r req"
  "req_heard config es r (req\<lparr>pq_continuationInvoked := b\<rparr>) = req_heard config es r req"
  by (simp_all add: req_heard_def split: pending_kind.splits)

lemma slow_path_heard:
  assumes "heard_inv config es s" and "ConsensusSlowPath env tr s r = Inr s'"
  shows "heard_inv config es s'"
proof -
  obtain req q d where req: "ic_pendingReqs s r = Some req" "pq_sub req = PendingConsensusRequest q d"
    using assms(2) by (auto simp: ConsensusSlowPath_def split: option.splits pending_kind.splits)
  have "req_heard config es r req" using heard_req [OF assms(1) req(1)] .
  then have ok: "req_heard config es r (req\<lparr>pq_timer := SlowResendTimer, pq_active := b, pq_sub := PendingConsensusRequest q d', pq_active := b'\<rparr>)" for b b' d'
    using req(2) by (simp add: req_heard_def)
  show ?thesis using assms req
    by (auto simp: ConsensusSlowPath_def Let_def split: if_splits intro: heard_put [OF assms(1) ok] heard_erase [OF assms(1)])
qed

lemma resend_heard:
  assumes "heard_inv config es s" and "ResendConfirmation tr s r b = Inr s'"
  shows "heard_inv config es s'"
proof (cases "ic_pendingReqs s r")
  case (Some req)
  have ok: "req_heard config es r (req\<lparr>pq_active := True\<rparr>)" using heard_req [OF assms(1) Some] by (simp add: req_heard_frame)
  show ?thesis using assms(2) Some
    by (auto simp: ResendConfirmation_def split: if_splits intro: heard_put [OF assms(1) ok] heard_erase [OF assms(1)])
qed (use assms in \<open>simp add: ResendConfirmation_def\<close>)

lemma timer_heard:
  assumes "heard_inv config es s" and "TimerFires env tr s r = Inr s'"
  shows "heard_inv config es s'"
proof (cases "ic_pendingReqs s r")
  case (Some req)
  have ok: "req_heard config es r (req\<lparr>pq_active := True\<rparr>)" using heard_req [OF assms(1) Some] by (simp add: req_heard_frame)
  have id: "pq_clientReqId req = r" using heard_req [OF assms(1) Some] by (simp add: req_heard_def)
  have sent: "heard_inv config es (s\<lparr>ic_outbox := X\<rparr>)" for X by (rule heard_keep [OF assms(1)]) simp_all
  show ?thesis
  proof (cases "pq_active req")
    case True
    then show ?thesis using assms(2) Some id
      by (auto simp: TimerFires_def SendInconsistent_def Let_def split: if_splits timer.splits
          intro: heard_put [OF assms(1) ok] heard_erase [OF assms(1)] slow_path_heard [OF assms(1)] resend_heard [OF assms(1)] resend_heard [OF sent])
  qed (use assms Some in \<open>simp add: TimerFires_def\<close>)
qed (use assms in \<open>simp add: TimerFires_def\<close>)

lemma inconsistent_heard:
  assumes "heard_inv config es s" and "HandleInconsistentReply env tr s v i opid = Inr s'" and "i \<in> replied es (snd opid) v"
  shows "heard_inv config es s'"
proof (cases "ic_pendingReqs s (snd opid)")
  case (Some req)
  let ?r = "snd opid"
  obtain q where q: "pq_sub req = PendingInconsistentRequest q" using assms(2) Some
    by (auto simp: HandleInconsistentReply_def Let_def split: pending_kind.splits)
  obtain q1 msgs where add: "AddAndCheckForQuorum q (viewstamp2 v ?r) (sint i) (InconsistentReply v i opid) = (q1, msgs)" by fastforce
  have old: "pq_clientReqId req = ?r" "backed q (QuorumSize config) ?r (\<lambda>v m. replied es ?r v)"
    using heard_req [OF assms(1) Some] q by (simp_all add: req_heard_def)
  have "backed q1 (QuorumSize config) ?r (\<lambda>v m. replied es ?r v)" by (rule backed_add [OF old(2) add assms(3)])
  then have ok: "req_heard config es ?r (req\<lparr>pq_sub := PendingInconsistentRequest q1\<rparr>)"
    using heard_req [OF assms(1) Some] by (simp add: req_heard_def)
  show ?thesis
  proof (cases "msgs \<noteq> None \<and> \<not> pq_continuationInvoked req")
    case True
    let ?req2 = "req\<lparr>pq_sub := PendingInconsistentRequest q1, pq_timer := ConfirmTimer False, pq_active := snd tr, pq_continuationInvoked := True\<rparr>"
    let ?s1 = "if snd tr then SendMessageToGroup s (FinalizeInconsistent opid) else s"
    obtain s2 where s2: "run_continuation env ?s1 ?req2 '''' = Inr s2" "s' = put_req s2 ?r ?req2"
      using True assms(2) Some q add by (auto simp: HandleInconsistentReply_def Let_def simp del: ic_frame)
    have "justified config es ?r" using True enough_votes [OF old(2), of v i _ q1] add assms(3) unfolding justified_def by blast
    moreover have "heard_inv config es ?s1" by (rule heard_keep [OF assms(1)]) simp_all
    ultimately have h: "heard_inv config es s2" using heard_answer(1) [OF _ _ s2(1)] old(1) by simp
    have "req_heard config es ?r ?req2" using ok by (simp add: req_heard_frame)
    then show ?thesis unfolding s2(2) by (rule heard_put [OF h]) simp_all
  next
    case False
    then have "s' = put_req s ?r (req\<lparr>pq_sub := PendingInconsistentRequest q1\<rparr>)"
      using assms(2) Some q add by (auto simp: HandleInconsistentReply_def Let_def)
    then show ?thesis using heard_put [OF assms(1) ok] by simp
  qed
qed (use assms in \<open>simp add: HandleInconsistentReply_def\<close>)

lemma confirm_heard:
  assumes "heard_inv config es s" and "HandleConfirm env s v i opid = Inr s'" and "i \<in> confirmed es (snd opid) v"
  shows "heard_inv config es s'"
proof (cases "ic_pendingReqs s (snd opid)")
  case (Some req)
  let ?r = "snd opid"
  obtain q1 msgs where add: "AddAndCheckForQuorum (pq_confirmQuorum req) (viewstamp2 v ?r) (sint i) (Confirm v i opid) = (q1, msgs)" by fastforce
  have old: "pq_clientReqId req = ?r" "backed (pq_confirmQuorum req) (QuorumSize config) ?r (\<lambda>v m. confirmed es ?r v)"
    using heard_req [OF assms(1) Some] by (simp_all add: req_heard_def)
  have er: "heard_inv config es (erase_req s ?r)" by (rule heard_erase [OF assms(1)]) simp_all
  have "backed q1 (QuorumSize config) ?r (\<lambda>v m. confirmed es ?r v)" by (rule backed_add [OF old(2) add assms(3)])
  then have ok: "req_heard config es ?r (req\<lparr>pq_confirmQuorum := q1\<rparr>)"
    using heard_req [OF assms(1) Some] by (simp add: req_heard_def split: pending_kind.splits)
  show ?thesis
  proof (cases msgs)
    case None
    then show ?thesis using assms(2) Some add heard_put [OF assms(1) ok] by (auto simp: HandleConfirm_def Let_def)
  next
    case (Some ms)
    then have "QuorumSize config \<le> int (card (confirmed es ?r v))" using enough_votes [OF old(2), of v i _ q1] add assms(3) by blast
    then have "justified config es (pq_clientReqId req)" unfolding justified_def old(1) by blast
    then show ?thesis using assms(2) \<open>ic_pendingReqs s ?r = Some req\<close> Some add er heard_answer(1) [OF er]
      by (auto simp: HandleConfirm_def Let_def split: if_splits pending_kind.splits simp del: ic_frame)
  qed
qed (use assms in \<open>simp add: HandleConfirm_def\<close>)

lemma consensus_heard:
  assumes "heard_inv config es s" and "HandleConsensusReply env tr s v i opid res = Inr s'" and "i \<in> answered_with es (snd opid) v res"
  shows "heard_inv config es s'"
proof (cases "ic_pendingReqs s (snd opid)")
  case (Some req)
  let ?r = "snd opid"
  let ?H = "\<lambda>v m. answered_with es ?r v (msg_result m)"
  obtain q d where q: "pq_sub req = PendingConsensusRequest q d" using assms(2) Some
    by (auto simp: HandleConsensusReply_def Let_def split: pending_kind.splits)
  let ?m = "ConsensusReply v i opid res"
  obtain q1 msgs where add: "AddAndCheckForQuorum q (viewstamp2 v ?r) (sint i) ?m = (q1, msgs)" by fastforce
  have old: "pq_clientReqId req = ?r" "backed q (SuperQuorum config) ?r ?H" using heard_req [OF assms(1) Some] q by (simp_all add: req_heard_def)
  have i: "i \<in> ?H v ?m" using assms(3) by (simp add: msg_result_def)
  have "backed q1 (SuperQuorum config) ?r ?H" by (rule backed_add [OF old(2) add i])
  then have ok: "req_heard config es ?r (req\<lparr>pq_sub := PendingConsensusRequest q1 d'\<rparr>)" for d'
    using heard_req [OF assms(1) Some] by (simp add: req_heard_def)
  let ?s1 = "put_req s ?r (req\<lparr>pq_sub := PendingConsensusRequest q1 d\<rparr>)"
  have s1: "heard_inv config es ?s1" using heard_put [OF assms(1) ok] by simp
  note def = HandleConsensusReply_def [of env tr s v i opid res]
  show ?thesis
  proof (cases "case msgs of None \<Rightarrow> None | Some ms \<Rightarrow> find (\<lambda>(_, n). n \<ge> numRequired q1) (count_results ms)")
    case None
    then have "s' = ?s1 \<or> ConsensusSlowPath env tr ?s1 ?r = Inr s'"
      using assms(2) Some q add by (auto simp: def Let_def split: option.splits simp del: ic_frame)
    then show ?thesis using s1 slow_path_heard by blast
  next
    case found: (Some xn)
    obtain x n where xn: "xn = (x, n)" by fastforce
    obtain ms where ms: "msgs = Some ms" "find (\<lambda>(_, n). n \<ge> numRequired q1) (count_results ms) = Some (x, n)"
      using found xn by (auto split: option.splits)
    have "SuperQuorum config \<le> int (card (answered_with es ?r v x))"
      using matching_result [OF old(2) _ i ms(2)] add ms(1) by auto
    then have just: "justified config es ?r" unfolding justified_def by blast
    let ?req2 = "req\<lparr>pq_timer := ConfirmTimer True, pq_active := True, pq_sub := PendingConsensusRequest q1 x\<rparr>"
    let ?s2 = "SendMessageToGroup ?s1 (FinalizeConsensus opid x)"
    have ok2: "req_heard config es ?r ?req2" "req_heard config es ?r (?req2\<lparr>pq_continuationInvoked := True\<rparr>)"
      using ok [of x] by (simp_all add: req_heard_def)
    have s2: "heard_inv config es ?s2" by (rule heard_keep [OF s1]) simp_all
    have "s' = put_req ?s2 ?r ?req2 \<or> (\<exists>s3. run_continuation env ?s2 ?req2 x = Inr s3 \<and> s' = put_req s3 ?r (?req2\<lparr>pq_continuationInvoked := True\<rparr>))"
      using assms(2) Some q add ms by (auto simp: def Let_def split: if_splits simp del: ic_frame)
    then show ?thesis
    proof (elim disjE exE conjE)
      fix s3 assume s3: "run_continuation env ?s2 ?req2 x = Inr s3" "s' = put_req s3 ?r (?req2\<lparr>pq_continuationInvoked := True\<rparr>)"
      have "heard_inv config es s3" using heard_answer(1) [OF s2 _ s3(1)] just old(1) by simp
      then show ?thesis using heard_put [OF _ ok2(2)] s3(2) by simp
    qed (use heard_put [OF s2 ok2(1)] in simp)
  qed
qed (use assms in \<open>simp add: HandleConsensusReply_def\<close>)

lemma deferred_heard:
  assumes "heard_inv config es s"
  shows "heard_inv config es (run_deferred tr s d)"
  using assms
  by (cases d) (auto simp: heard_inv_def InvokeConsensus_def InvokeInconsistent_def SendInconsistent_def Let_def req_heard_def)

lemma step_heard:
  assumes "heard_inv config es s" and "ir_handle env s e = Inr s'"
  shows "heard_inv config (es @ [e]) s'"
proof -
  have h: "heard_inv config (es @ [e]) s" by (rule heard_inv_mono [OF assms(1)])
  obtain tr ev where e: "e = (tr, ev)" by fastforce
  show ?thesis
  proof (cases ev)
    case (AppPrepare txnid txn promise)
    then show ?thesis using assms(2) h e by (auto simp: Prepare_def Let_def heard_inv_def split: option.splits)
  next
    case (AppCommitAbort txnid commit)
    then show ?thesis using assms(2) h e by (auto simp: CommitAbort_def Let_def heard_inv_def)
  next
    case AppDone
    then show ?thesis using assms(2) h e by (auto simp: Done_def heard_inv_def split: option.splits)
  next
    case DeferredRuns
    have "heard_inv config (es @ [e]) (s\<lparr>ic_deferred := ds\<rparr>)" for ds by (rule heard_keep [OF h]) simp_all
    note run = deferred_heard [OF this]
    show ?thesis
    proof (cases "ic_deferred s")
      case Nil
      then show ?thesis using DeferredRuns assms(2) h e by simp
    next
      case (Cons d ds)
      then have "s' = run_deferred tr (s\<lparr>ic_deferred := ds\<rparr>) d" using DeferredRuns assms(2) e by simp
      then show ?thesis using run by metis
    qed
  next
    case (ReplyArrives m)
    have last: "(tr, ReplyArrives m) \<in> set (es @ [e])" using e ReplyArrives by simp
    show ?thesis
    proof (cases m)
      case (InconsistentReply v i opid)
      moreover have "i \<in> replied (es @ [e]) (snd opid) v" using last unfolding replied_def InconsistentReply by (metis (mono_tags, lifting) mem_Collect_eq prod.collapse)
      ultimately show ?thesis using inconsistent_heard [OF h] assms(2) e ReplyArrives by simp
    next
      case (ConsensusReply v i opid res)
      moreover have "i \<in> answered_with (es @ [e]) (snd opid) v res" using last unfolding answered_with_def ConsensusReply by (metis (mono_tags, lifting) mem_Collect_eq prod.collapse)
      ultimately show ?thesis using consensus_heard [OF h] assms(2) e ReplyArrives by simp
    next
      case (Confirm v i opid)
      moreover have "i \<in> confirmed (es @ [e]) (snd opid) v" using last unfolding confirmed_def Confirm by (metis (mono_tags, lifting) mem_Collect_eq prod.collapse)
      ultimately show ?thesis using confirm_heard [OF h] assms(2) e ReplyArrives by simp
    qed (use assms(2) e ReplyArrives in simp)
  next
    case (RequestTimer reqId)
    then show ?thesis using assms(2) e timer_heard [OF h] by simp
  qed
qed

lemma run_heard:
  "fold_r (ir_handle env) (IRClient_new config clientid) es = Inr s \<Longrightarrow> heard_inv config es s"
proof (induction es arbitrary: s rule: rev_induct)
  case Nil
  then show ?case by (auto simp: heard_inv_def IRClient_new_def)
next
  case (snoc e es)
  then obtain t where t: "fold_r (ir_handle env) (IRClient_new config clientid) es = Inr t" "ir_handle env t e = Inr s"
    by (auto simp: rbind_id)
  show ?case by (rule step_heard [OF snoc.IH [OF t(1)] t(2)])
qed

text \<open>C17. The client of one shard runs a continuation at most once and only with a quorum behind it.  Replies, retransmissions,
  timeouts and calls may come in any order, and sends may fail, as long as the application waits for a commit or abort to be
  answered before its next call, request numbers do not run out, and a reply is of the kind of the operation it answers (\<open>ir_expects\<close>).
  Then no assertion fails; when the run returns, every request has been answered at most once, and an answered request has had
  replies from a majority, or the same result from a super quorum, or confirmations from a majority, all from distinct replicas
  in one view.  The run can stop only with undefined behaviour, at a consensus reply on which the send of the decided
  result fails: the code then uses the request it has deleted.\<close>

theorem ir_client_run:
  assumes "accepts (ir_handle env) ir_expects (IRClient_new config clientid) es"
  shows "case fold_r (ir_handle env) (IRClient_new config clientid) es of
     Inr s \<Rightarrow> distinct (ic_answered s) \<and> (\<forall>r\<in>set (ic_answered s). justified config es r)
   | Inl e \<Rightarrow> e = UndefinedBehaviour \<and>
       (\<exists>es1 tr v i opid res es2. es = es1 @ (tr, ReplyArrives (ConsensusReply v i opid res)) # es2 \<and> \<not> snd tr)"
proof (cases "fold_r (ir_handle env) (IRClient_new config clientid) es")
  case (Inr s)
  have "ir_inv s" using ir.run_inv [OF ir_inv_new assms Inr] .
  then show ?thesis using run_heard [OF Inr] Inr by (auto simp: heard_inv_def ir_inv_def)
next
  case (Inl e)
  obtain es1 x es2 t where r: "es = es1 @ x # es2" "fold_r (ir_handle env) (IRClient_new config clientid) es1 = Inr t" "ir_handle env t x = Inl e"
    using fold_r_Inl [OF Inl] by blast
  have a: "accepts (ir_handle env) ir_expects (IRClient_new config clientid) es1" "ir_expects t x"
    using accepts_split [OF assms [unfolded r(1)] r(2)] by simp_all
  have "ir_inv t" using ir.run_inv [OF ir_inv_new a(1) r(2)] .
  then have "e = UndefinedBehaviour" "\<not> finalize_sent x" using ir_handle_ok [OF _ a(2), of env] r(3) by simp_all
  then have "\<exists>tr v i opid res. x = (tr, ReplyArrives (ConsensusReply v i opid res)) \<and> \<not> snd tr"
    by (cases x rule: finalize_sent.cases) auto
  then show ?thesis unfolding Inl sum.case using r(1) \<open>e = UndefinedBehaviour\<close> by blast
qed

text \<open>An encoding for the witnesses.  Parsing the empty string leaves a message with its default
  values, whose status is the first of the enumeration.\<close>

definition sample_ir :: ir_env where
  "sample_ir = \<lparr>ie_print_txn = (\<lambda>t. (case tx_op t of PREPARE \<Rightarrow> ''P'' | COMMIT \<Rightarrow> ''C'' | _ \<Rightarrow> ''A'') @ tx_txn t),
     ie_parse_reply = (\<lambda>s. case s of
        CHR ''O'' # k \<Rightarrow> \<lparr>rp_status = OK, rp_reply = k\<rparr>
      | CHR ''F'' # k \<Rightarrow> \<lparr>rp_status = FAILED, rp_reply = k\<rparr>
      | CHR ''R'' # k \<Rightarrow> \<lparr>rp_status = RETRY, rp_reply = k\<rparr>
      | _ \<Rightarrow> \<lparr>rp_status = OK, rp_reply = ''''\<rparr>),
     ie_print_reply = sample_print\<rparr>"

text \<open>A PREPARE answered on the fast path, its confirmation, and a COMMIT.\<close>

definition sample_ir_run :: "(transport \<times> ir_event) list" where
  "sample_ir_run = map (Pair (True, True))
     [AppPrepare 7 ''x'' 0, DeferredRuns, ReplyArrives (ConsensusReply 0 0 (3, 1) ''Odone''), ReplyArrives (ConsensusReply 0 0 (3, 1) ''Odone''),
      ReplyArrives (ConsensusReply 0 1 (3, 1) ''Odone''), ReplyArrives (ConsensusReply 0 2 (3, 1) ''Odone''), AppCommitAbort 7 True, DeferredRuns,
      ReplyArrives (Confirm 0 2 (3, 1)), RequestTimer 2, ReplyArrives (InconsistentReply 0 1 (3, 2)), ReplyArrives (InconsistentReply 0 0 (3, 2)),
      ReplyArrives (Confirm 0 0 (3, 1)), AppDone]"

theorem ir_client_run_witness:
  "\<exists>s. fold_r (ir_handle sample_ir) (IRClient_new (sample_config 1) 3) sample_ir_run = Inr s \<and> ic_answered s = [1, 2] \<and>
     justified (sample_config 1) sample_ir_run 1 \<and> justified (sample_config 1) sample_ir_run 2"
proof -
  let ?run = "fold_r (ir_handle sample_ir) (IRClient_new (sample_config 1) 3) sample_ir_run"
  have ok: "accepts (ir_handle sample_ir) ir_expects (IRClient_new (sample_config 1) 3) sample_ir_run" by code_simp
  have "case ?run of Inl _ \<Rightarrow> False | Inr s \<Rightarrow> ic_answered s = [1, 2]" by code_simp
  then show ?thesis using ir_client_run [OF ok] by (auto split: sum.splits)
qed

section \<open>Decisions\<close>

lemma decide_loop_spec:
  "decide_loop env n rep xs =
     (case find (\<lambda>s. rp_status (ie_parse_reply env s) = FAILED) xs of
        Some s \<Rightarrow> Inl s
      | None \<Rightarrow> Inr (n + int (length (filter (\<lambda>s. rp_status (ie_parse_reply env s) = OK) xs)),
                     foldl (\<lambda>r s. if rp_status (ie_parse_reply env s) = OK then rp_reply (ie_parse_reply env s) else r) rep xs))"
  by (induction env n rep xs rule: decide_loop.induct) (auto simp: Let_def split: option.splits)

text \<open>On the slow path a PREPARE that the replicas accepted with the same reply is retried.  \<^verbatim>\<open>PrepareDecide\<close> is documented to accept when a
  majority accepted, but it is given the set of the results: however many replicas returned the accepting result, it occurs
  once, and with a quorum of two or more the decision is RETRY.\<close>

theorem slow_path_counts_results:
  assumes "QuorumSize config \<ge> 2" and "ms \<noteq> []" and "\<forall>m\<in>set ms. msg_result (snd m) = x" and "rp_status (ie_parse_reply env x) = OK"
  shows "PrepareDecide env config (result_set ms) = ie_print_reply env \<lparr>rp_status = RETRY, rp_reply = rp_reply (ie_parse_reply env x)\<rparr>"
proof -
  have "msg_result ` snd ` set ms = {x}" using assms(2,3) by (cases ms) auto
  then have "result_set ms = [x]" by (simp add: result_set_def)
  then show ?thesis using assms(1,4) by (simp add: PrepareDecide_def)
qed

theorem slow_path_counts_results_witness:
  "PrepareDecide sample_ir (sample_config 1) (result_set [(0, ConsensusReply 0 0 (3, 1) ''Odone''), (1, ConsensusReply 0 1 (3, 1) ''Odone'')]) = ''Rdone''"
  using slow_path_counts_results [of "sample_config 1" "[(0, ConsensusReply 0 0 (3, 1) ''Odone''), (1, ConsensusReply 0 1 (3, 1) ''Odone'')]" "''Odone''" sample_ir]
  by (simp add: QuorumSize_def sample_config_def msg_result_def sample_ir_def sample_print_def)

text \<open>What \<^verbatim>\<open>PrepareDecide\<close> does decide.\<close>

lemma PrepareDecide_OK:
  assumes "\<forall>x\<in>set xs. rp_status (ie_parse_reply env x) \<noteq> FAILED"
  shows "\<exists>rep. PrepareDecide env config xs = ie_print_reply env
     \<lparr>rp_status = (if QuorumSize config \<le> int (length (filter (\<lambda>s. rp_status (ie_parse_reply env s) = OK) xs)) then OK else RETRY), rp_reply = rep\<rparr>"
proof -
  have "find (\<lambda>s. rp_status (ie_parse_reply env s) = FAILED) xs = None" using assms by (simp add: find_None_iff)
  then show ?thesis by (auto simp: PrepareDecide_def decide_loop_spec)
qed

section \<open>A refused PREPARE reported as prepared\<close>

text \<open>Three replicas on which another transaction holds the lock of a key, and a client that prepares a
  transaction on that key.\<close>

definition locked_replica :: "u32 \<Rightarrow> KVTxnServer TapirServer result" where
  "locked_replica i = HandleProposeConsensus (sample_tapir\<lparr>te_parse_txn := (\<lambda>s. \<lparr>tx_txnid = 8, tx_op = PREPARE, tx_txn = tl s\<rparr>)\<rparr>)
     (TapirServer_new 0 (uint i) (kv_server True)) 5 (sample_req ''Px'' 4 1)"

fun deliver_all :: "'a tapir_env \<Rightarrow> 'a TapirServer \<Rightarrow> ToServerMessage list \<Rightarrow> 'a TapirServer result" where
  "deliver_all env s [] = Inr s"
| "deliver_all env s (m # ms) = rbind (ReceiveMessage env s (9, m)) (\<lambda>s'. deliver_all env s' ms)"

definition replies :: "'a TapirServer result \<Rightarrow> ToClientMessage list" where
  "replies r = (case r of Inl _ \<Rightarrow> [] | Inr s \<Rightarrow> map snd (filter (\<lambda>x. fst x = 9) (ts_outbox s)))"

definition the_proposal :: ToServerMessage where
  "the_proposal = ProposeConsensus (sample_req ''Px'' 3 1)"

text \<open>The client's run: the first replies and the finalizations are lost, the second replies arrive.\<close>

definition lossy_run :: "(transport \<times> ir_event) list" where
  "lossy_run = map (Pair (True, True)) ([AppPrepare 7 ''x'' 0, DeferredRuns, RequestTimer 1, RequestTimer 1] @
     concat (map (\<lambda>i. map ReplyArrives (drop 1 (replies (rbind (locked_replica i) (\<lambda>s. deliver_all sample_tapir s [the_proposal, the_proposal]))))) [0, 1, 2]))"

text \<open>A transaction can commit although every replica refused to prepare it.  Each of three replicas answers the proposal with
  RETRY; these answers and the finalizations are lost; the client repeats its proposal, the replicas answer from their record with the
  empty result, and the client's super quorum of empty results answers the promise with OK.  The computation rests on the sample encoding, in
  which the empty string is read as a reply with the default status, OK: the client ignores that parsing fails.\<close>

theorem refused_prepare_reported_ok:
  "map (\<lambda>i. replies (rbind (locked_replica i) (\<lambda>s. deliver_all sample_tapir s [the_proposal, the_proposal]))) [0, 1, 2] =
     map (\<lambda>i. [ConsensusReply 0 i (3, 1) ''R'', ConsensusReply 0 i (3, 1) '''']) [0, 1, 2] \<and>
   (case fold_r (ir_handle sample_ir) (IRClient_new (sample_config 1) 3) lossy_run of
      Inl _ \<Rightarrow> False
    | Inr s \<Rightarrow> ic_promised s = [(0, OK, True, '''')] \<and>
        ic_outbox s = [the_proposal, FinalizeConsensus (3, 1) ''R'', the_proposal, FinalizeConsensus (3, 1) ''R'', FinalizeConsensus (3, 1) ''''])"
  by code_simp

section \<open>The coordinator\<close>

text \<open>\<^verbatim>\<open>TapirClient\<close> talks to one \<^verbatim>\<open>IRClient\<close> per shard.  What the promises of attempt \<open>i\<close> answer is a parameter,
  \<open>ans i shard\<close>, the pair of \<^verbatim>\<open>GetReply()\<close> and \<^verbatim>\<open>GetValue()\<close>; the calls made to the clients of the shards are returned in
  order.  \<^verbatim>\<open>irClients[shard]\<close> is undefined behaviour beyond the number of groups.\<close>

type_synonym shard_map = "(u32 \<times> string) list"

datatype ir_call = CallPrepare u32 u64 string | CallCommitAbort u32 u64 bool | CallDone u32

definition REPLY_OK :: int where "REPLY_OK = 0"
definition REPLY_FAIL :: int where "REPLY_FAIL = 1"
definition REPLY_RETRY :: int where "REPLY_RETRY = 2"

definition MAX_RETRIES :: nat where
  "MAX_RETRIES = 5"

record TapirClient =
  tc_txnid :: u64
  tc_groups :: int

definition TapirClient_new :: "int \<Rightarrow> u64 \<Rightarrow> TapirClient" where
  "TapirClient_new g clientid = \<lparr>tc_txnid = clientid div 10000 * 10000, tc_groups = g\<rparr>"

text \<open>The loop over the promises; a failed one ends it.\<close>

fun collect :: "(u32 \<Rightarrow> int \<times> string) \<Rightarrow> int \<Rightarrow> shard_map \<Rightarrow> shard_map \<Rightarrow> int \<times> shard_map" where
  "collect ans status results [] = (status, results)"
| "collect ans status results ((shard, _) # participants) =
     (if fst (ans shard) = REPLY_OK then collect ans status (smap_put shard (snd (ans shard)) results) participants
      else if fst (ans shard) = REPLY_FAIL then (REPLY_FAIL, results)
      else if fst (ans shard) = REPLY_RETRY then collect ans REPLY_RETRY results participants
      else collect ans status results participants)"

definition Prepare_all :: "(u32 \<Rightarrow> int \<times> string) \<Rightarrow> TapirClient \<Rightarrow> shard_map \<Rightarrow> (int \<times> shard_map \<times> ir_call list) result" where
  "Prepare_all ans s requests =
     check (\<forall>r\<in>set requests. uint (fst r) < tc_groups s) UndefinedBehaviour
       (let (status, results) = collect ans REPLY_OK [] requests
        in Inr (status, results, map (\<lambda>(shard, op). CallPrepare shard (tc_txnid s) op) requests))"

fun prepare_loop :: "(nat \<Rightarrow> u32 \<Rightarrow> int \<times> string) \<Rightarrow> TapirClient \<Rightarrow> shard_map \<Rightarrow> nat \<Rightarrow> nat \<Rightarrow> (int \<times> shard_map \<times> ir_call list) result" where
  "prepare_loop ans s requests i 0 = Inl UndefinedBehaviour"
| "prepare_loop ans s requests i (Suc left) =
     rbind (Prepare_all (ans i) s requests) (\<lambda>(status, results, calls).
       if status = REPLY_RETRY \<and> left > 0
       then rbind (prepare_loop ans s requests (Suc i) left) (\<lambda>(status', results', calls'). Inr (status', results', calls @ calls'))
       else Inr (status, results, calls))"

definition Invoke :: "(nat \<Rightarrow> u32 \<Rightarrow> int \<times> string) \<Rightarrow> TapirClient \<Rightarrow> shard_map \<Rightarrow> (TapirClient \<times> bool \<times> shard_map \<times> ir_call list) result" where
  "Invoke ans s0 requests =
     (let s = s0\<lparr>tc_txnid := tc_txnid s0 + 1\<rparr> in
      rbind (prepare_loop ans s requests 0 MAX_RETRIES) (\<lambda>(status, results, calls).
        let commit = (status = REPLY_OK)
        in Inr (s, commit, results, calls @ map (\<lambda>(shard, _). CallCommitAbort shard (tc_txnid s) commit) requests)))"

definition Done_all :: "TapirClient \<Rightarrow> ir_call list" where
  "Done_all s = map (\<lambda>i. CallDone (word_of_int i)) [0..tc_groups s - 1]"

definition answers_ok :: "(u32 \<Rightarrow> int \<times> string) \<Rightarrow> shard_map \<Rightarrow> bool" where
  "answers_ok ans requests \<longleftrightarrow> (\<forall>r\<in>set requests. fst (ans (fst r)) \<in> {REPLY_OK, REPLY_FAIL, REPLY_RETRY})"

definition all_prepared :: "(u32 \<Rightarrow> int \<times> string) \<Rightarrow> shard_map \<Rightarrow> bool" where
  "all_prepared ans requests \<longleftrightarrow> (\<forall>r\<in>set requests. fst (ans (fst r)) = REPLY_OK)"

lemmas reply_codes = REPLY_OK_def REPLY_FAIL_def REPLY_RETRY_def

lemma collect_status:
  assumes "answers_ok ans requests" and "status \<in> {REPLY_OK, REPLY_RETRY}"
  shows "fst (collect ans status results requests) =
    (if \<exists>r\<in>set requests. fst (ans (fst r)) = REPLY_FAIL then REPLY_FAIL
     else if all_prepared ans requests then status else REPLY_RETRY)"
  using assms by (induction ans status results requests rule: collect.induct) (auto simp: answers_ok_def all_prepared_def reply_codes)

lemma collect_OK: "\<lbrakk> answers_ok ans requests; all_prepared ans requests \<rbrakk> \<Longrightarrow> fst (collect ans REPLY_OK results requests) = REPLY_OK"
  by (subst collect_status) (auto simp: all_prepared_def reply_codes)

lemma collect_OK_iff: "answers_ok ans requests \<Longrightarrow> fst (collect ans REPLY_OK results requests) = REPLY_OK \<longleftrightarrow> all_prepared ans requests"
  by (subst collect_status) (auto simp: all_prepared_def reply_codes)

lemma collect_RETRY_iff: "answers_ok ans requests \<Longrightarrow> fst (collect ans REPLY_OK results requests) = REPLY_RETRY \<longleftrightarrow>
    \<not> all_prepared ans requests \<and> (\<forall>r\<in>set requests. fst (ans (fst r)) \<noteq> REPLY_FAIL)"
  by (subst collect_status) (auto simp: reply_codes)

lemma collect_results:
  assumes "all_prepared ans requests"
  shows "map_of (snd (collect ans status results requests)) shard =
    (if shard \<in> fst ` set requests then Some (snd (ans shard)) else map_of results shard)"
  using assms by (induction ans status results requests rule: collect.induct) (auto simp: all_prepared_def)

definition prepare_calls :: "TapirClient \<Rightarrow> shard_map \<Rightarrow> ir_call list" where
  "prepare_calls s requests = map (\<lambda>(shard, op). CallPrepare shard (tc_txnid s) op) requests"

lemma prepare_loop_spec:
  assumes "\<forall>r\<in>set requests. uint (fst r) < tc_groups s" and "\<And>i. answers_ok (ans i) requests" and "left > 0"
  shows "\<exists>k<left. \<exists>status results. prepare_loop ans s requests i left = Inr (status, results, concat (replicate (Suc k) (prepare_calls s requests))) \<and>
     (status, results) = collect (ans (i + k)) REPLY_OK [] requests \<and>
     (\<forall>j<k. \<not> all_prepared (ans (i + j)) requests \<and> (\<forall>r\<in>set requests. fst (ans (i + j) (fst r)) \<noteq> REPLY_FAIL)) \<and>
     (status = REPLY_RETRY \<longrightarrow> k = left - 1)"
  using assms(3)
proof (induction left arbitrary: i)
  case (Suc left)
  obtain status results where c: "collect (ans i) REPLY_OK [] requests = (status, results)" by fastforce
  have P: "Prepare_all (ans i) s requests = Inr (status, results, prepare_calls s requests)"
    using assms(1) c by (simp add: Prepare_all_def prepare_calls_def)
  show ?case
  proof (cases "status = REPLY_RETRY \<and> left > 0")
    case True
    then have retry: "\<not> all_prepared (ans i) requests" "\<forall>r\<in>set requests. fst (ans i (fst r)) \<noteq> REPLY_FAIL"
      using collect_RETRY_iff [OF assms(2), of i "[]"] c by simp_all
    from Suc.IH [of "Suc i"] True obtain k st res where IH: "k < left"
      "prepare_loop ans s requests (Suc i) left = Inr (st, res, concat (replicate (Suc k) (prepare_calls s requests)))"
      "(st, res) = collect (ans (Suc i + k)) REPLY_OK [] requests"
      "\<forall>j<k. \<not> all_prepared (ans (Suc i + j)) requests \<and> (\<forall>r\<in>set requests. fst (ans (Suc i + j) (fst r)) \<noteq> REPLY_FAIL)"
      "st = REPLY_RETRY \<longrightarrow> k = left - 1" by blast
    have "\<forall>j<Suc k. \<not> all_prepared (ans (i + j)) requests \<and> (\<forall>r\<in>set requests. fst (ans (i + j) (fst r)) \<noteq> REPLY_FAIL)"
    proof (intro allI impI)
      fix j assume "j < Suc k"
      then show "\<not> all_prepared (ans (i + j)) requests \<and> (\<forall>r\<in>set requests. fst (ans (i + j) (fst r)) \<noteq> REPLY_FAIL)"
        using IH(4) retry by (cases j) auto
    qed
    then show ?thesis using IH P True by (intro exI [of _ "Suc k"]) auto
  next
    case False
    then show ?thesis using P c by (intro exI [of _ 0]) auto
  qed
qed simp

text \<open>C18. A TAPIR transaction is decided the same way on all its shards.  The coordinator prepares on every shard in at most five attempts,
  going on only while no shard failed and some shard asked to retry; then it tells every shard to commit, if all
  shards accepted the last attempt, and every shard to abort otherwise; a commit returns the shards' replies of that attempt.\<close>

theorem tapir_decides_uniformly:
  assumes "\<forall>r\<in>set requests. uint (fst r) < tc_groups s" and "\<And>i. answers_ok (ans i) requests"
  shows "\<exists>k<MAX_RETRIES. \<exists>commit results. Invoke ans s requests = Inr (s\<lparr>tc_txnid := tc_txnid s + 1\<rparr>, commit, results,
       concat (replicate (Suc k) (map (\<lambda>(shard, op). CallPrepare shard (tc_txnid s + 1) op) requests)) @
       map (\<lambda>(shard, _). CallCommitAbort shard (tc_txnid s + 1) commit) requests) \<and>
     (commit \<longleftrightarrow> all_prepared (ans k) requests) \<and>
     (\<forall>j<k. \<not> all_prepared (ans j) requests \<and> (\<forall>r\<in>set requests. fst (ans j (fst r)) \<noteq> REPLY_FAIL)) \<and>
     (commit \<longrightarrow> (\<forall>r\<in>set requests. map_of results (fst r) = Some (snd (ans k (fst r)))))"
proof -
  let ?s = "s\<lparr>tc_txnid := tc_txnid s + 1\<rparr>"
  have g: "\<forall>r\<in>set requests. uint (fst r) < tc_groups ?s" using assms(1) by simp
  obtain k status results where L: "k < MAX_RETRIES"
    "prepare_loop ans ?s requests 0 MAX_RETRIES = Inr (status, results, concat (replicate (Suc k) (prepare_calls ?s requests)))"
    "(status, results) = collect (ans k) REPLY_OK [] requests"
    "\<forall>j<k. \<not> all_prepared (ans j) requests \<and> (\<forall>r\<in>set requests. fst (ans j (fst r)) \<noteq> REPLY_FAIL)"
    using prepare_loop_spec [OF g, where ans = ans and left = MAX_RETRIES and i = 0] assms(2) by (auto simp: MAX_RETRIES_def)
  have st: "status = REPLY_OK \<longleftrightarrow> all_prepared (ans k) requests" using collect_OK_iff [OF assms(2), of k "[]"] L(3) by (metis fst_conv)
  have res: "results = snd (collect (ans k) REPLY_OK [] requests)" using L(3) by (metis snd_conv)
  have "map_of results (fst r) = Some (snd (ans k (fst r)))" if "all_prepared (ans k) requests" "r \<in> set requests" for r
    using that by (simp add: res collect_results)
  then show ?thesis using L st
    by (intro exI [of _ k] conjI exI [of _ "status = REPLY_OK"] exI [of _ results]) (auto simp: Invoke_def Let_def prepare_calls_def)
qed

theorem tapir_decides_uniformly_witness:
  "\<exists>results. Invoke (\<lambda>i shard. (if i = 0 \<and> shard = 1 then 2 else 0, ''v'')) (TapirClient_new 2 20000) [(0, ''a''), (1, ''b'')] =
     Inr (\<lparr>tc_txnid = 20001, tc_groups = 2\<rparr>, True, results,
       [CallPrepare 0 20001 ''a'', CallPrepare 1 20001 ''b'', CallPrepare 0 20001 ''a'', CallPrepare 1 20001 ''b'',
        CallCommitAbort 0 20001 True, CallCommitAbort 1 20001 True]) \<and> map_of results 1 = Some ''v''"
proof -
  let ?ans = "\<lambda>i shard. (if i = (0 :: nat) \<and> shard = (1 :: u32) then 2 else 0, ''v'') :: int \<times> string"
  let ?reqs = "[(0, ''a''), (1, ''b'')] :: shard_map"
  have "\<forall>r\<in>set ?reqs. uint (fst r) < tc_groups (TapirClient_new 2 20000)" by (simp add: TapirClient_new_def)
  moreover have "\<And>i. answers_ok (?ans i) ?reqs" by (simp add: answers_ok_def reply_codes)
  ultimately obtain k commit results where I: "Invoke ?ans (TapirClient_new 2 20000) ?reqs = Inr ((TapirClient_new 2 20000)\<lparr>tc_txnid := tc_txnid (TapirClient_new 2 20000) + 1\<rparr>, commit, results,
       concat (replicate (Suc k) (map (\<lambda>(shard, op). CallPrepare shard (tc_txnid (TapirClient_new 2 20000) + 1) op) ?reqs)) @
       map (\<lambda>(shard, _). CallCommitAbort shard (tc_txnid (TapirClient_new 2 20000) + 1) commit) ?reqs)"
     "commit \<longleftrightarrow> all_prepared (?ans k) ?reqs" "\<forall>j<k. \<not> all_prepared (?ans j) ?reqs \<and> (\<forall>r\<in>set ?reqs. fst (?ans j (fst r)) \<noteq> REPLY_FAIL)"
     "commit \<longrightarrow> (\<forall>r\<in>set ?reqs. map_of results (fst r) = Some (snd (?ans k (fst r))))"
    using tapir_decides_uniformly [of ?reqs "TapirClient_new 2 20000" ?ans] by blast
  have "case Invoke ?ans (TapirClient_new 2 20000) ?reqs of Inl _ \<Rightarrow> False | Inr (s, c, r, cs) \<Rightarrow> c \<and> s = \<lparr>tc_txnid = 20001, tc_groups = 2\<rparr> \<and>
     cs = [CallPrepare 0 20001 ''a'', CallPrepare 1 20001 ''b'', CallPrepare 0 20001 ''a'', CallPrepare 1 20001 ''b'',
        CallCommitAbort 0 20001 True, CallCommitAbort 1 20001 True]" by code_simp
  then obtain r where E: "Invoke ?ans (TapirClient_new 2 20000) ?reqs = Inr (\<lparr>tc_txnid = 20001, tc_groups = 2\<rparr>, True, r,
     [CallPrepare 0 20001 ''a'', CallPrepare 1 20001 ''b'', CallPrepare 0 20001 ''a'', CallPrepare 1 20001 ''b'',
      CallCommitAbort 0 20001 True, CallCommitAbort 1 20001 True])" by (auto split: sum.splits prod.splits)
  have "commit" "results = r" using I(1) unfolding E by simp_all
  then show ?thesis using E I(4) by auto
qed

end
