(* ===== verification/VRClient.thy ===== *)
theory VRClient
  imports VRReplica ClientCommon
begin

text \<open>
  The VR client, \<^verbatim>\<open>replication/vr/client.h\<close> and \<^verbatim>\<open>replication/vr/client.cc\<close>: a request goes to all replicas and
  the first reply that carries its identifier answers it.  \<open>vc_answered\<close> records the continuations that were run
  for replies, and \<open>vc_outbox\<close> what was sent; both are histories the code does not keep.
\<close>

record 'k VRClient =
  vc_clientid :: u64
  vc_lastReqId :: u64
  vc_pendingRequest :: "'k PendingRequest option"
  vc_pendingUnloggedRequest :: "'k PendingRequest option"
  vc_requestTimeout :: bool
  vc_unloggedRequestTimeout :: bool
  vc_outbox :: "(destination \<times> ToReplicaMessage) list"
  vc_answered :: "(u64 \<times> 'k \<times> string \<times> string) list"

definition VRClient_new :: "u64 \<Rightarrow> 'k VRClient" where
  "VRClient_new clientid =
     \<lparr>vc_clientid = clientid, vc_lastReqId = 0, vc_pendingRequest = None, vc_pendingUnloggedRequest = None,
      vc_requestTimeout = False, vc_unloggedRequestTimeout = False, vc_outbox = [], vc_answered = []\<rparr>"

definition send_vc :: "'k VRClient \<Rightarrow> destination \<Rightarrow> ToReplicaMessage \<Rightarrow> 'k VRClient" where
  "send_vc s d m = s\<lparr>vc_outbox := vc_outbox s @ [(d, m)]\<rparr>"

definition request_message :: "'k VRClient \<Rightarrow> string \<Rightarrow> u64 \<Rightarrow> ToReplicaMessage" where
  "request_message s op reqId =
     MsgRequest (empty_Request\<lparr>req_op := op, req_clientid := vc_clientid s, req_clientreqid := reqId\<rparr>)"

definition SendRequest :: "'k VRClient \<Rightarrow> 'k VRClient result" where
  "SendRequest s =
     (case vc_pendingRequest s of
        None \<Rightarrow> Inl UndefinedBehaviour
      | Some p \<Rightarrow> Inr ((send_vc s AllReplicas (request_message s (PendingRequest.pr_request p) (pr_clientReqId p)))\<lparr>vc_requestTimeout := True\<rparr>))"

definition ResendRequest :: "'k VRClient \<Rightarrow> 'k VRClient result" where
  "ResendRequest s = SendRequest s"

definition Invoke :: "'k VRClient \<Rightarrow> string \<Rightarrow> 'k \<Rightarrow> 'k VRClient result" where
  "Invoke s request continuation =
     check (vc_pendingRequest s = None) Panicked
       (let n = vc_lastReqId s + 1
        in SendRequest (s\<lparr>vc_lastReqId := n, vc_pendingRequest := Some (PendingRequest_new request n continuation)\<rparr>))"

definition InvokeUnlogged :: "'k VRClient \<Rightarrow> int \<Rightarrow> string \<Rightarrow> 'k \<Rightarrow> 'k option \<Rightarrow> 'k VRClient result" where
  "InvokeUnlogged s idx request continuation timeoutContinuation =
     check (vc_pendingUnloggedRequest s = None) Panicked
       (let n = vc_lastReqId s + 1;
            p = (PendingRequest_new request n continuation)\<lparr>pr_timeoutContinuation := timeoutContinuation\<rparr>;
            s1 = s\<lparr>vc_lastReqId := n, vc_pendingUnloggedRequest := Some p\<rparr>
        in check (\<not> vc_unloggedRequestTimeout s1) AssertFailed
             (Inr (send_vc (s1\<lparr>vc_unloggedRequestTimeout := True\<rparr>) (ReplicaDest idx)
                     (MsgUnloggedRequest request (vc_clientid s1) n))))"

text \<open>A request nobody waits for.\<close>

definition InvokeAsync :: "'k VRClient \<Rightarrow> string \<Rightarrow> 'k VRClient result" where
  "InvokeAsync s request =
     check (vc_pendingRequest s = None) Panicked
       (let n = vc_lastReqId s + 1
        in Inr (send_vc (s\<lparr>vc_lastReqId := n\<rparr>) AllReplicas (request_message s request n)))"

definition make_call :: "'k VRClient \<Rightarrow> 'k client_call \<Rightarrow> 'k VRClient result" where
  "make_call s c =
     (case c of
        CallInvoke request k \<Rightarrow> Invoke s request k
      | CallInvokeUnlogged i request k kt \<Rightarrow> InvokeUnlogged s i request k kt)"

definition HandleReply :: "'k continuations \<Rightarrow> 'k VRClient \<Rightarrow> ReplyMessage \<Rightarrow> 'k VRClient result" where
  "HandleReply calls s msg =
     (case vc_pendingRequest s of
        None \<Rightarrow> Inr s
      | Some req \<Rightarrow>
          if rep_clientreqid msg \<noteq> pr_clientReqId req then Inr s
          else fold_r make_call
                 (s\<lparr>vc_requestTimeout := False, vc_pendingRequest := None,
                    vc_answered := vc_answered s @ [(pr_clientReqId req, pr_continuation req, PendingRequest.pr_request req, rep_reply msg)]\<rparr>)
                 (calls (pr_continuation req) (PendingRequest.pr_request req) (Some (rep_reply msg))))"

definition HandleUnloggedReply :: "'k continuations \<Rightarrow> 'k VRClient \<Rightarrow> string \<Rightarrow> 'k VRClient result" where
  "HandleUnloggedReply calls s r =
     (case vc_pendingUnloggedRequest s of
        None \<Rightarrow> Inr s
      | Some req \<Rightarrow>
          fold_r make_call (s\<lparr>vc_unloggedRequestTimeout := False, vc_pendingUnloggedRequest := None\<rparr>)
            (calls (pr_continuation req) (PendingRequest.pr_request req) (Some r)))"

text \<open>The callback runs the timeout continuation without asking whether there is one.\<close>

definition UnloggedRequestTimeoutCallback :: "'k continuations \<Rightarrow> 'k VRClient \<Rightarrow> 'k VRClient result" where
  "UnloggedRequestTimeoutCallback calls s =
     (case vc_pendingUnloggedRequest s of
        None \<Rightarrow> Inl UndefinedBehaviour
      | Some req \<Rightarrow>
          (case pr_timeoutContinuation req of
             None \<Rightarrow> Inl Panicked
           | Some k \<Rightarrow>
               fold_r make_call (s\<lparr>vc_pendingUnloggedRequest := None, vc_unloggedRequestTimeout := False\<rparr>)
                 (calls k (PendingRequest.pr_request req) None)))"

fun ReceiveMessage_vc :: "'k continuations \<Rightarrow> 'k VRClient \<Rightarrow> ToClientMessage \<Rightarrow> 'k VRClient result" where
  "ReceiveMessage_vc calls s (ToClientReply m) = HandleReply calls s m"
| "ReceiveMessage_vc calls s (ToClientUnloggedReply r) = HandleUnloggedReply calls s r"
| "ReceiveMessage_vc calls s ToClientNotSet = Inl Panicked"

datatype 'k client_event =
    ClientCall "'k client_call"
  | ClientAsync string
  | ClientReceive ToClientMessage
  | RequestTimer
  | UnloggedTimer

fun client_step :: "'k continuations \<Rightarrow> 'k VRClient \<Rightarrow> 'k client_event \<Rightarrow> 'k VRClient result" where
  "client_step calls s (ClientCall c) = make_call s c"
| "client_step calls s (ClientAsync request) = InvokeAsync s request"
| "client_step calls s (ClientReceive m) = ReceiveMessage_vc calls s m"
| "client_step calls s RequestTimer = (if vc_requestTimeout s then ResendRequest s else Inr s)"
| "client_step calls s UnloggedTimer = (if vc_unloggedRequestTimeout s then UnloggedRequestTimeoutCallback calls s else Inr s)"

section \<open>The invariant\<close>

definition client_inv :: "'k VRClient \<Rightarrow> bool" where
  "client_inv s \<longleftrightarrow> (vc_requestTimeout s \<longleftrightarrow> vc_pendingRequest s \<noteq> None) \<and>
     (vc_unloggedRequestTimeout s \<longleftrightarrow> vc_pendingUnloggedRequest s \<noteq> None)"

definition client_ids :: "'k VRClient \<Rightarrow> client_view" where
  "client_ids s = (vc_lastReqId s, map_option pr_clientReqId (vc_pendingRequest s), map fst (vc_answered s))"

definition client_permits :: "'k VRClient \<Rightarrow> 'k client_call list \<Rightarrow> bool" where
  "client_permits s cs \<longleftrightarrow> calls_permitted (vc_lastReqId s) (vc_pendingRequest s \<noteq> None) (vc_pendingUnloggedRequest s \<noteq> None) cs"

fun client_ok :: "'k continuations \<Rightarrow> 'k VRClient \<Rightarrow> 'k client_event \<Rightarrow> bool" where
  "client_ok calls s (ClientCall c) \<longleftrightarrow> client_permits s [c]"
| "client_ok calls s (ClientAsync request) \<longleftrightarrow> vc_pendingRequest s = None \<and> vc_lastReqId s \<noteq> - 1"
| "client_ok calls s (ClientReceive (ToClientReply m)) \<longleftrightarrow>
     (case vc_pendingRequest s of
        None \<Rightarrow> True
      | Some p \<Rightarrow> client_permits (s\<lparr>vc_pendingRequest := None\<rparr>) (calls (pr_continuation p) (PendingRequest.pr_request p) (Some (rep_reply m))))"
| "client_ok calls s (ClientReceive (ToClientUnloggedReply r)) \<longleftrightarrow>
     (case vc_pendingUnloggedRequest s of
        None \<Rightarrow> True
      | Some p \<Rightarrow> client_permits (s\<lparr>vc_pendingUnloggedRequest := None\<rparr>) (calls (pr_continuation p) (PendingRequest.pr_request p) (Some r)))"
| "client_ok calls s (ClientReceive ToClientNotSet) \<longleftrightarrow> False"
| "client_ok calls s RequestTimer \<longleftrightarrow> True"
| "client_ok calls s UnloggedTimer \<longleftrightarrow>
     (case vc_pendingUnloggedRequest s of
        None \<Rightarrow> True
      | Some p \<Rightarrow>
          (case pr_timeoutContinuation p of
             None \<Rightarrow> False
           | Some k \<Rightarrow> client_permits (s\<lparr>vc_pendingUnloggedRequest := None\<rparr>) (calls k (PendingRequest.pr_request p) None)))"

lemma vc_make_call_total:
  assumes "client_inv s" and "client_permits s (c # cs)"
  shows "\<exists>s'. make_call s c = Inr s' \<and> client_inv s' \<and> client_permits s' cs \<and> client_move (client_ids s) (client_ids s')"
proof -
  note P = calls_permitted_Cons [OF assms(2) [unfolded client_permits_def]]
  have max: "vc_lastReqId s \<noteq> - 1" using u64_next [OF P(1)] by simp
  show ?thesis
  proof (cases c)
    case (CallInvoke request k)
    then show ?thesis using P(2) assms(1) client_move.start [OF max, of "map fst (vc_answered s)"]
      by (auto simp: is_invoke_def make_call_def Invoke_def SendRequest_def send_vc_def Let_def client_inv_def client_permits_def
          client_ids_def PendingRequest_new_def)
  next
    case (CallInvokeUnlogged i request k kt)
    then show ?thesis
      using P(3) assms(1) client_move.other [OF max, of "map_option pr_clientReqId (vc_pendingRequest s)" "map fst (vc_answered s)"]
      by (auto simp: is_invoke_def make_call_def InvokeUnlogged_def send_vc_def Let_def client_inv_def client_permits_def
          client_ids_def PendingRequest_new_def)
  qed
qed

lemma vc_make_calls_total:
  assumes "client_inv s" and "client_permits s cs"
  shows "\<exists>s'. fold_r make_call s cs = Inr s' \<and> client_inv s' \<and> client_move\<^sup>*\<^sup>* (client_ids s) (client_ids s')"
  using assms
proof (induction cs arbitrary: s)
  case (Cons c cs)
  obtain t where t: "make_call s c = Inr t" "client_inv t" "client_permits t cs" "client_move (client_ids s) (client_ids t)"
    using vc_make_call_total [OF Cons.prems] by blast
  with Cons.IH [OF t(2,3)] show ?case by (auto intro: converse_rtranclp_into_rtranclp)
qed auto

lemma vc_HandleReply_total:
  assumes "client_inv s" and "client_ok calls s (ClientReceive (ToClientReply m))"
  shows "\<exists>s'. HandleReply calls s m = Inr s' \<and> client_inv s' \<and> client_move\<^sup>*\<^sup>* (client_ids s) (client_ids s')"
proof (cases "\<exists>req. vc_pendingRequest s = Some req \<and> rep_clientreqid m = pr_clientReqId req")
  case True
  then obtain req where req: "vc_pendingRequest s = Some req" "rep_clientreqid m = pr_clientReqId req" by blast
  let ?s = "s\<lparr>vc_requestTimeout := False, vc_pendingRequest := None,
     vc_answered := vc_answered s @ [(pr_clientReqId req, pr_continuation req, PendingRequest.pr_request req, rep_reply m)]\<rparr>"
  let ?cs = "calls (pr_continuation req) (PendingRequest.pr_request req) (Some (rep_reply m))"
  have "client_inv ?s" "client_permits ?s ?cs" using assms req by (simp_all add: client_inv_def client_permits_def)
  moreover have "client_move (client_ids s) (client_ids ?s)"
    using req client_move.answer [of "vc_lastReqId s" "pr_clientReqId req" "map fst (vc_answered s)"] by (simp add: client_ids_def)
  ultimately show ?thesis using vc_make_calls_total [of ?s ?cs] req
    by (auto simp: HandleReply_def intro: converse_rtranclp_into_rtranclp)
next
  case False
  then show ?thesis using assms(1) by (auto simp: HandleReply_def split: option.splits)
qed

lemma unlogged_total:
  assumes "client_inv s" and "client_permits (s\<lparr>vc_pendingUnloggedRequest := None\<rparr>) cs"
  shows "\<exists>s'. fold_r make_call (s\<lparr>vc_unloggedRequestTimeout := False, vc_pendingUnloggedRequest := None\<rparr>) cs = Inr s' \<and>
     client_inv s' \<and> client_move\<^sup>*\<^sup>* (client_ids s) (client_ids s')"
proof -
  let ?s = "s\<lparr>vc_unloggedRequestTimeout := False, vc_pendingUnloggedRequest := None\<rparr>"
  have "client_inv ?s" "client_permits ?s cs" "client_ids ?s = client_ids s"
    using assms by (simp_all add: client_inv_def client_permits_def client_ids_def)
  then show ?thesis using vc_make_calls_total [of ?s cs] by simp
qed

lemma vc_client_step_total:
  assumes "client_inv s" and "client_ok calls s ev"
  shows "\<exists>s'. client_step calls s ev = Inr s' \<and> client_inv s' \<and> client_move\<^sup>*\<^sup>* (client_ids s) (client_ids s')"
proof (cases ev)
  case (ClientCall c)
  then show ?thesis using vc_make_call_total [OF assms(1), of c "[]"] assms(2) by auto
next
  case (ClientAsync request)
  then show ?thesis
    using assms client_move.other [of "vc_lastReqId s" "map_option pr_clientReqId (vc_pendingRequest s)" "map fst (vc_answered s)"]
    by (auto simp: InvokeAsync_def send_vc_def Let_def client_inv_def client_ids_def)
next
  case (ClientReceive m)
  then show ?thesis
  proof (cases m)
    case (ToClientUnloggedReply r)
    then show ?thesis using ClientReceive assms unlogged_total [OF assms(1)]
      by (auto simp: HandleUnloggedReply_def split: option.splits)
  qed (use ClientReceive assms vc_HandleReply_total [OF assms(1)] in auto)
next
  case RequestTimer
  then show ?thesis using assms
    by (auto simp: ResendRequest_def SendRequest_def send_vc_def client_inv_def client_ids_def)
next
  case UnloggedTimer
  have swap: "s\<lparr>vc_pendingUnloggedRequest := None, vc_unloggedRequestTimeout := False\<rparr> =
      s\<lparr>vc_unloggedRequestTimeout := False, vc_pendingUnloggedRequest := None\<rparr>" by simp
  show ?thesis
  proof (cases "vc_pendingUnloggedRequest s")
    case None
    then show ?thesis using UnloggedTimer assms by (simp add: client_inv_def)
  next
    case (Some p)
    then show ?thesis using UnloggedTimer assms unlogged_total [OF assms(1)]
      by (auto simp: UnloggedRequestTimeoutCallback_def swap split: option.splits)
  qed
qed

interpretation vc: total_system "client_step calls" "client_ok calls" client_inv for calls
  using vc_client_step_total by unfold_locales fastforce+

interpretation vc_ids: sequential_client "client_step calls" "client_ok calls" client_inv client_ids for calls
  using vc_client_step_total by unfold_locales fastforce+

lemma VRClient_new_inv: "client_inv (VRClient_new i)" "client_history (client_ids (VRClient_new i))"
  by (simp_all add: client_inv_def client_ids_def VRClient_new_def client_history_def)

text \<open>A VR client that is used as it expects never aborts, whatever replies come and whatever calls its continuations
  make, and answers every request at most once and in the order in which the requests were made.\<close>

theorem vr_client_run:
  assumes "accepts (client_step calls) (client_ok calls) (VRClient_new i) evs"
  shows "\<exists>s. fold_r (client_step calls) (VRClient_new i) evs = Inr s \<and> client_inv s \<and> sorted_wrt (<) (map fst (vc_answered s)) \<and>
     (\<forall>p. vc_pendingRequest s = Some p \<longrightarrow> (\<forall>x\<in>set (vc_answered s). fst x < pr_clientReqId p))"
proof -
  obtain s where s: "fold_r (client_step calls) (VRClient_new i) evs = Inr s" "client_inv s"
    using vc.run_total [OF VRClient_new_inv(1) assms] by blast
  have "client_history (client_ids s)" using vc_ids.answered_in_order [OF VRClient_new_inv assms s(1)] by simp
  then show ?thesis using s by (auto simp: client_history_def client_ids_def)
qed

theorem vr_client_run_witness:
  "\<exists>s. fold_r (client_step (\<lambda>k _ _. if k = 5 then [CallInvoke ''next'' (6 :: nat)] else [])) (VRClient_new 7)
     [ClientCall (CallInvoke ''get'' 5), RequestTimer, ClientReceive (ToClientReply \<lparr>rep_view = 0, rep_opnum = 1, rep_reply = ''v'', rep_clientreqid = 1\<rparr>),
      ClientReceive (ToClientReply \<lparr>rep_view = 0, rep_opnum = 1, rep_reply = ''v'', rep_clientreqid = 1\<rparr>)] = Inr s \<and>
     map fst (vc_answered s) = [1] \<and> map_option pr_clientReqId (vc_pendingRequest s) = Some 2"
proof -
  let ?k = "\<lambda>k _ _. if k = 5 then [CallInvoke ''next'' (6 :: nat)] else []"
  let ?r = "ClientReceive (ToClientReply \<lparr>rep_view = 0, rep_opnum = 1, rep_reply = ''v'', rep_clientreqid = 1\<rparr>)"
  let ?evs = "[ClientCall (CallInvoke ''get'' 5), RequestTimer, ?r, ?r]"
  have acc: "accepts (client_step ?k) (client_ok ?k) (VRClient_new 7) ?evs" by code_simp
  have "case fold_r (client_step ?k) (VRClient_new 7) ?evs of Inl _ \<Rightarrow> False
     | Inr s \<Rightarrow> map fst (vc_answered s) = [1] \<and> map_option pr_clientReqId (vc_pendingRequest s) = Some 2" by code_simp
  then show ?thesis using vr_client_run [OF acc] by (auto simp del: fold_r.simps)
qed

text \<open>An unlogged reply answers whichever unlogged request is pending.  After an unlogged request has timed out, its late reply is
  handed to the continuation of the next unlogged request: the handler does not compare identifiers.\<close>

theorem late_unlogged_reply:
  assumes "vc_pendingUnloggedRequest s = Some p" and "pr_timeoutContinuation p = Some kt" and "calls kt (PendingRequest.pr_request p) None = []"
    and "UnloggedRequestTimeoutCallback calls s = Inr s1" and "InvokeUnlogged s1 i op2 k2 kt2 = Inr s2"
  shows "HandleUnloggedReply calls s2 late =
    fold_r make_call (s2\<lparr>vc_unloggedRequestTimeout := False, vc_pendingUnloggedRequest := None\<rparr>) (calls k2 op2 (Some late))"
  using assms by (auto simp: UnloggedRequestTimeoutCallback_def InvokeUnlogged_def HandleUnloggedReply_def send_vc_def Let_def PendingRequest_new_def)

end
