(* ===== verification/Unreplicated.thy ===== *)
theory Unreplicated
  imports ReplicaCommon ClientCommon
begin

text \<open>
  The unreplicated baseline of \<^verbatim>\<open>replication/unreplicated\<close>: the replica of \<^verbatim>\<open>replica.cc\<close>, the client of \<^verbatim>\<open>client.cc\<close> and their
  messages, and the two together over a network that loses, repeats and reorders messages.  What each side
  sends is a history (\<open>ur_outbox\<close>, \<open>uc_outbox\<close>); the network delivers any message of a history at any time, so the two
  histories are the network.
\<close>

section \<open>Messages\<close>

record ReplyMessage =
  urep_view :: u64
  urep_opnum :: u64
  urep_req :: Request
  urep_reply :: string

datatype ToReplicaMessage = URequest Request | UUnloggedRequest string u64 u64 | ToReplicaNotSet

datatype ToClientMessage = UReply ReplyMessage | UUnloggedReply string | ToClientNotSet

section \<open>The replica\<close>

record ClientTableEntry =
  uct_lastReqId :: u64
  uct_reply :: ToClientMessage

definition ClientTableEntry_default :: ClientTableEntry where
  "ClientTableEntry_default = \<lparr>uct_lastReqId = 0, uct_reply = ToClientNotSet\<rparr>"

record 'a UnreplicatedReplica =
  ur_last_op :: u64
  ur_log :: Log
  ur_clientTable :: "u64 \<rightharpoonup> ClientTableEntry"
  ur_app_state :: 'a
  ur_outbox :: "(TransportAddress \<times> ToClientMessage) list"

record 'a unreplicated_env =
  ue_app :: "'a AppReplica"
  ue_sha1 :: "string \<Rightarrow> string"

definition UnreplicatedReplica_new :: "bool \<Rightarrow> 'a \<Rightarrow> 'a UnreplicatedReplica result" where
  "UnreplicatedReplica_new initialize a =
     check initialize Panicked
       (rbind (Log_new False 1 EMPTY_HASH) (\<lambda>l.
          Inr \<lparr>ur_last_op = 0, ur_log = l, ur_clientTable = Map.empty, ur_app_state = a, ur_outbox = []\<rparr>))"

definition send_ur :: "'a UnreplicatedReplica \<Rightarrow> TransportAddress \<Rightarrow> ToClientMessage \<Rightarrow> 'a UnreplicatedReplica" where
  "send_ur s remote m = s\<lparr>ur_outbox := ur_outbox s @ [(remote, m)]\<rparr>"

definition UpdateClientTable :: "'a UnreplicatedReplica \<Rightarrow> Request \<Rightarrow> ToClientMessage \<Rightarrow> 'a UnreplicatedReplica result" where
  "UpdateClientTable s req reply =
     (let entry = (case ur_clientTable s (req_clientid req) of None \<Rightarrow> ClientTableEntry_default | Some e \<Rightarrow> e);
          put = (\<lambda>e. s\<lparr>ur_clientTable := (ur_clientTable s)(req_clientid req \<mapsto> e)\<rparr>)
      in check (uct_lastReqId entry \<le> req_clientreqid req) AssertFailed
           (if uct_lastReqId entry = req_clientreqid req then Inr (put entry)
            else Inr (put \<lparr>uct_lastReqId = req_clientreqid req, uct_reply = reply\<rparr>)))"

definition execute_request :: "'a unreplicated_env \<Rightarrow> 'a UnreplicatedReplica \<Rightarrow> TransportAddress \<Rightarrow> Request \<Rightarrow> 'a UnreplicatedReplica result" where
  "execute_request env s remote req =
     (let s1 = s\<lparr>ur_last_op := ur_last_op s + 1\<rparr> in
      rbind (Append (ue_sha1 env) (ur_log s1) (LogEntry_new (viewstamp2 0 (ur_last_op s1)) LOG_STATE_RECEIVED req)) (\<lambda>l.
        let (a, res) = Execute (ue_app env) (ur_app_state s1) 0 req None;
            m = UReply \<lparr>urep_view = 0, urep_opnum = 0, urep_req = req, urep_reply = res\<rparr>
        in UpdateClientTable (send_ur (s1\<lparr>ur_log := l, ur_app_state := a\<rparr>) remote m) req m))"

definition HandleRequest :: "'a unreplicated_env \<Rightarrow> 'a UnreplicatedReplica \<Rightarrow> TransportAddress \<Rightarrow> Request \<Rightarrow> 'a UnreplicatedReplica result" where
  "HandleRequest env s remote req =
     (case ur_clientTable s (req_clientid req) of
        Some entry \<Rightarrow>
          if req_clientreqid req < uct_lastReqId entry then Inr s
          else if req_clientreqid req = uct_lastReqId entry then Inr (send_ur s remote (uct_reply entry))
          else execute_request env s remote req
      | None \<Rightarrow> execute_request env s remote req)"

definition HandleUnloggedRequest :: "'a unreplicated_env \<Rightarrow> 'a UnreplicatedReplica \<Rightarrow> TransportAddress \<Rightarrow> string \<Rightarrow> 'a UnreplicatedReplica result" where
  "HandleUnloggedRequest env s remote op =
     (let (a, res) = ExecuteUnlogged (ue_app env) (ur_app_state s) op
      in Inr (send_ur (s\<lparr>ur_app_state := a\<rparr>) remote (UUnloggedReply res)))"

fun ReceiveMessage_ur :: "'a unreplicated_env \<Rightarrow> 'a UnreplicatedReplica \<Rightarrow> TransportAddress \<Rightarrow> ToReplicaMessage \<Rightarrow> 'a UnreplicatedReplica result" where
  "ReceiveMessage_ur env s remote (URequest req) = HandleRequest env s remote req"
| "ReceiveMessage_ur env s remote (UUnloggedRequest op _ _) = HandleUnloggedRequest env s remote op"
| "ReceiveMessage_ur env s remote ToReplicaNotSet = Inl Panicked"

section \<open>The client\<close>

record 'k UnreplicatedClient =
  uc_clientid :: u64
  uc_lastReqId :: u64
  uc_pendingRequest :: "'k PendingRequest option"
  uc_pendingUnloggedRequest :: "'k PendingRequest option"
  uc_requestTimeout :: bool
  uc_outbox :: "ToReplicaMessage list"
  uc_answered :: "(u64 \<times> 'k \<times> string \<times> string) list"

definition UnreplicatedClient_new :: "u64 \<Rightarrow> 'k UnreplicatedClient" where
  "UnreplicatedClient_new clientid =
     \<lparr>uc_clientid = clientid, uc_lastReqId = 0, uc_pendingRequest = None, uc_pendingUnloggedRequest = None,
      uc_requestTimeout = False, uc_outbox = [], uc_answered = []\<rparr>"

definition client_request :: "u64 \<Rightarrow> string \<Rightarrow> u64 \<Rightarrow> Request" where
  "client_request clientid op reqId = empty_Request\<lparr>req_op := op, req_clientid := clientid, req_clientreqid := reqId\<rparr>"

text \<open>\<^verbatim>\<open>SendRequest\<close> sends to replica 0 and labels the request with \<^verbatim>\<open>lastReqId\<close>.\<close>

definition SendRequest :: "'k UnreplicatedClient \<Rightarrow> 'k UnreplicatedClient result" where
  "SendRequest s =
     (case uc_pendingRequest s of
        None \<Rightarrow> Inl UndefinedBehaviour
      | Some p \<Rightarrow> Inr (s\<lparr>uc_outbox := uc_outbox s @ [URequest (client_request (uc_clientid s) (pr_request p) (uc_lastReqId s))],
                         uc_requestTimeout := True\<rparr>))"

definition ResendRequest :: "'k UnreplicatedClient \<Rightarrow> 'k UnreplicatedClient result" where
  "ResendRequest s = SendRequest s"

definition Invoke :: "'k UnreplicatedClient \<Rightarrow> string \<Rightarrow> 'k \<Rightarrow> 'k UnreplicatedClient result" where
  "Invoke s request continuation =
     check (uc_pendingRequest s = None) Panicked
       (let n = uc_lastReqId s + 1
        in SendRequest (s\<lparr>uc_lastReqId := n, uc_pendingRequest := Some (PendingRequest_new request n continuation)\<rparr>))"

definition InvokeUnlogged :: "'k UnreplicatedClient \<Rightarrow> int \<Rightarrow> string \<Rightarrow> 'k \<Rightarrow> 'k option \<Rightarrow> 'k UnreplicatedClient result" where
  "InvokeUnlogged s replicaIdx request continuation timeoutContinuation =
     check (uc_pendingUnloggedRequest s = None) Panicked
       (check (replicaIdx = 0) Panicked
         (Inr (s\<lparr>uc_pendingUnloggedRequest := Some (PendingRequest_new request 0 continuation),
                 uc_outbox := uc_outbox s @ [UUnloggedRequest request (uc_clientid s) 0]\<rparr>)))"

definition make_call :: "'k UnreplicatedClient \<Rightarrow> 'k client_call \<Rightarrow> 'k UnreplicatedClient result" where
  "make_call s c =
     (case c of
        CallInvoke request k \<Rightarrow> Invoke s request k
      | CallInvokeUnlogged i request k kt \<Rightarrow> InvokeUnlogged s i request k kt)"

definition HandleReply :: "'k continuations \<Rightarrow> 'k UnreplicatedClient \<Rightarrow> ReplyMessage \<Rightarrow> 'k UnreplicatedClient result" where
  "HandleReply calls s msg =
     (case uc_pendingRequest s of
        None \<Rightarrow> Inr s
      | Some req \<Rightarrow>
          if req_clientreqid (urep_req msg) \<noteq> pr_clientReqId req then Inr s
          else fold_r make_call
                 (s\<lparr>uc_requestTimeout := False, uc_pendingRequest := None,
                    uc_answered := uc_answered s @ [(pr_clientReqId req, pr_continuation req, pr_request req, urep_reply msg)]\<rparr>)
                 (calls (pr_continuation req) (pr_request req) (Some (urep_reply msg))))"

text \<open>Without a pending request the handler warns, goes on, and calls through a null pointer.\<close>

definition HandleUnloggedReply :: "'k continuations \<Rightarrow> 'k UnreplicatedClient \<Rightarrow> string \<Rightarrow> 'k UnreplicatedClient result" where
  "HandleUnloggedReply calls s reply =
     (case uc_pendingUnloggedRequest s of
        None \<Rightarrow> Inl UndefinedBehaviour
      | Some req \<Rightarrow>
          fold_r make_call (s\<lparr>uc_pendingUnloggedRequest := None\<rparr>) (calls (pr_continuation req) (pr_request req) (Some reply)))"

fun ReceiveMessage_uc :: "'k continuations \<Rightarrow> 'k UnreplicatedClient \<Rightarrow> ToClientMessage \<Rightarrow> 'k UnreplicatedClient result" where
  "ReceiveMessage_uc calls s (UReply m) = HandleReply calls s m"
| "ReceiveMessage_uc calls s (UUnloggedReply r) = HandleUnloggedReply calls s r"
| "ReceiveMessage_uc calls s ToClientNotSet = Inl Panicked"

text \<open>A repeated unlogged reply, whatever was asked before, is undefined behaviour.\<close>

lemma repeated_unlogged_reply:
  assumes "uc_pendingUnloggedRequest s = Some p" and "calls (pr_continuation p) (pr_request p) (Some r) = []"
  shows "rbind (HandleUnloggedReply calls s r) (\<lambda>s'. HandleUnloggedReply calls s' r) = Inl UndefinedBehaviour"
  using assms by (simp add: HandleUnloggedReply_def)

section \<open>Client and replica together\<close>

type_synonym 'a system = "unit UnreplicatedClient \<times> 'a UnreplicatedReplica"

datatype system_event = SysInvoke string | SysTimeout | ToReplica nat | ToClient nat

text \<open>The application's continuation makes no calls of its own; the next call is the next \<open>SysInvoke\<close>.\<close>

definition no_calls :: "unit continuations" where
  "no_calls _ _ _ = []"

fun system_step :: "'a unreplicated_env \<Rightarrow> 'a system \<Rightarrow> system_event \<Rightarrow> 'a system result" where
  "system_step env (c, r) (SysInvoke op) = rbind (Invoke c op ()) (\<lambda>c'. Inr (c', r))"
| "system_step env (c, r) SysTimeout = (if uc_requestTimeout c then rbind (ResendRequest c) (\<lambda>c'. Inr (c', r)) else Inr (c, r))"
| "system_step env (c, r) (ToReplica n) =
     (if n < length (uc_outbox c) then rbind (ReceiveMessage_ur env r 0 (uc_outbox c ! n)) (\<lambda>r'. Inr (c, r')) else Inr (c, r))"
| "system_step env (c, r) (ToClient n) =
     (if n < length (ur_outbox r) then rbind (ReceiveMessage_uc no_calls c (snd (ur_outbox r ! n))) (\<lambda>c'. Inr (c', r)) else Inr (c, r))"

fun system_ok :: "'a system \<Rightarrow> system_event \<Rightarrow> bool" where
  "system_ok (c, r) (SysInvoke op) \<longleftrightarrow> uc_pendingRequest c = None \<and> uint (uc_lastReqId c) + 1 < 2 ^ 64"
| "system_ok (c, r) _ \<longleftrightarrow> True"

text \<open>The specification: the operations as local calls, one after the other.\<close>

definition local_call :: "'a unreplicated_env \<Rightarrow> 'a \<Rightarrow> string \<Rightarrow> 'a \<times> string" where
  "local_call env a op = app_ReplicaUpcall (ue_app env) a 0 op None"

definition local_state :: "'a unreplicated_env \<Rightarrow> 'a \<Rightarrow> string list \<Rightarrow> 'a" where
  "local_state env a ops = foldl (\<lambda>a op. fst (local_call env a op)) a ops"

definition local_result :: "'a unreplicated_env \<Rightarrow> 'a \<Rightarrow> string list \<Rightarrow> nat \<Rightarrow> string" where
  "local_result env a ops i = snd (local_call env (local_state env a (take i ops)) (ops ! i))"

lemma unat_of_nat_u64: "n < 2 ^ 64 \<Longrightarrow> unat (word_of_nat n :: u64) = n"
  by (simp add: unat_of_nat)

lemma u64_of_unat: "unat x = n \<Longrightarrow> x = (word_of_nat n :: u64)"
  by auto

lemma local_result_append: "i < length ops \<Longrightarrow> local_result env a (ops @ rest) i = local_result env a ops i"
  by (simp add: local_result_def nth_append)

definition call_request :: "u64 \<Rightarrow> string list \<Rightarrow> nat \<Rightarrow> Request" where
  "call_request cid ops i = client_request cid (ops ! i) (word_of_nat (Suc i))"

definition call_reply :: "'a unreplicated_env \<Rightarrow> 'a \<Rightarrow> u64 \<Rightarrow> string list \<Rightarrow> nat \<Rightarrow> ToClientMessage" where
  "call_reply env a0 cid ops i =
     UReply \<lparr>urep_view = 0, urep_opnum = 0, urep_req = call_request cid ops i, urep_reply = local_result env a0 ops i\<rparr>"

lemma call_append:
  "i < length ops \<Longrightarrow> call_request cid (ops @ rest) i = call_request cid ops i"
  "i < length ops \<Longrightarrow> call_reply env a0 cid (ops @ rest) i = call_reply env a0 cid ops i"
  by (simp_all add: call_request_def call_reply_def local_result_append nth_append)

text \<open>Where the two sides stand: \<open>ops\<close> are the operations invoked so far, of which the replica has executed \<open>k\<close> and the
  client has seen the answers of \<open>m\<close>.\<close>

definition client_at :: "'a unreplicated_env \<Rightarrow> 'a \<Rightarrow> u64 \<Rightarrow> string list \<Rightarrow> nat \<Rightarrow> unit UnreplicatedClient \<Rightarrow> bool" where
  "client_at env a0 cid ops m c \<longleftrightarrow> uc_clientid c = cid \<and> unat (uc_lastReqId c) = length ops \<and>
     uc_answered c = map (\<lambda>i. (word_of_nat (Suc i), (), ops ! i, local_result env a0 ops i)) [0..<m] \<and>
     uc_pendingRequest c = (if m = length ops then None else Some (PendingRequest_new (ops ! m) (word_of_nat (Suc m)) ())) \<and>
     (uc_requestTimeout c \<longleftrightarrow> m \<noteq> length ops) \<and>
     (\<forall>x\<in>set (uc_outbox c). \<exists>i<length ops. x = URequest (call_request cid ops i))"

definition replica_at :: "'a unreplicated_env \<Rightarrow> 'a \<Rightarrow> u64 \<Rightarrow> string list \<Rightarrow> nat \<Rightarrow> 'a UnreplicatedReplica \<Rightarrow> bool" where
  "replica_at env a0 cid ops k r \<longleftrightarrow>
     ur_clientTable r cid = (if k = 0 then None else Some \<lparr>uct_lastReqId = word_of_nat k, uct_reply = call_reply env a0 cid ops (k - 1)\<rparr>) \<and>
     ur_app_state r = local_state env a0 (take k ops) \<and>
     (\<forall>x\<in>set (ur_outbox r). \<exists>i<k. snd x = call_reply env a0 cid ops i) \<and>
     log_wf (ur_log r) \<and> LastOpnum (ur_log r) = ur_last_op r \<and> unat (ur_last_op r) = k"

definition system_inv :: "'a unreplicated_env \<Rightarrow> 'a \<Rightarrow> u64 \<Rightarrow> 'a system \<Rightarrow> bool" where
  "system_inv env a0 cid s \<longleftrightarrow> (\<exists>ops m k. m \<le> k \<and> k \<le> length ops \<and> length ops \<le> Suc m \<and>
     client_at env a0 cid ops m (fst s) \<and> replica_at env a0 cid ops k (snd s))"

lemma replica_at_append: "\<lbrakk> replica_at env a0 cid ops k r; k \<le> length ops \<rbrakk> \<Longrightarrow> replica_at env a0 cid (ops @ [op]) k r"
  by (fastforce simp: replica_at_def call_append)

lemma client_outbox: "\<lbrakk> client_at env a0 cid ops m c; x \<in> set (uc_outbox c) \<rbrakk> \<Longrightarrow> \<exists>i<length ops. x = URequest (call_request cid ops i)"
  by (simp add: client_at_def)

lemma replica_outbox: "\<lbrakk> replica_at env a0 cid ops k r; x \<in> set (ur_outbox r) \<rbrakk> \<Longrightarrow> \<exists>i<k. snd x = call_reply env a0 cid ops i"
  by (simp add: replica_at_def)

lemma invoke_at:
  assumes "client_at env a0 cid ops m c" and "uc_pendingRequest c = None" and "uint (uc_lastReqId c) + 1 < 2 ^ 64"
  shows "\<exists>c'. Invoke c op () = Inr c' \<and> client_at env a0 cid (ops @ [op]) m c' \<and> m = length ops"
proof -
  have m: "m = length ops" using assms(1,2) by (simp add: client_at_def split: if_splits)
  have len: "unat (uc_lastReqId c) = length ops" using assms(1) by (simp add: client_at_def)
  have max: "uc_lastReqId c \<noteq> - 1" using u64_next [OF assms(3)] by simp
  then have un: "unat (uc_lastReqId c + 1) = Suc (length ops)"
    using len unat_add_of_nat [of "uc_lastReqId c" 1] unfolding u64_not_max by simp
  have id: "uc_lastReqId c + 1 = word_of_nat (Suc m)" using un m by (intro u64_of_unat) simp
  show ?thesis
  proof (intro exI conjI)
    let ?c = "c\<lparr>uc_lastReqId := uc_lastReqId c + 1, uc_pendingRequest := Some (PendingRequest_new op (uc_lastReqId c + 1) ()),
       uc_outbox := uc_outbox c @ [URequest (client_request (uc_clientid c) op (uc_lastReqId c + 1))], uc_requestTimeout := True\<rparr>"
    show "Invoke c op () = Inr ?c" using assms(2) by (simp add: Invoke_def SendRequest_def Let_def PendingRequest_new_def)
    have msg: "URequest (client_request cid op (uc_lastReqId c + 1)) = URequest (call_request cid (ops @ [op]) (length ops))"
      unfolding id m call_request_def by simp
    have old: "\<exists>i<Suc (length ops). x = URequest (call_request cid (ops @ [op]) i)" if "x \<in> set (uc_outbox c)" for x
      using client_outbox [OF assms(1) that] call_append(1) [of _ ops cid "[op]"] by (metis less_SucI)
    have out: "\<forall>x\<in>set (uc_outbox ?c). \<exists>i<length (ops @ [op]). x = URequest (call_request cid (ops @ [op]) i)"
    proof
      fix x assume "x \<in> set (uc_outbox ?c)"
      then have "x \<in> set (uc_outbox c) \<or> x = URequest (call_request cid (ops @ [op]) (length ops))"
        using msg assms(1) by (auto simp: client_at_def)
      then show "\<exists>i<length (ops @ [op]). x = URequest (call_request cid (ops @ [op]) i)"
        using old by (metis length_append_singleton lessI)
    qed
    have ans: "uc_answered c = map (\<lambda>i. (word_of_nat (Suc i), (), (ops @ [op]) ! i, local_result env a0 (ops @ [op]) i)) [0..<m]"
      using assms(1) m by (simp add: client_at_def nth_append local_result_append)
    show "client_at env a0 cid (ops @ [op]) m ?c"
      unfolding client_at_def using assms(1) out ans un id m by (simp add: client_at_def del: of_nat_Suc)
  qed (rule m)
qed

lemma resend_at:
  assumes "client_at env a0 cid ops m c" and "uc_requestTimeout c" and "m \<le> length ops" and "length ops \<le> Suc m"
  shows "\<exists>c'. ResendRequest c = Inr c' \<and> client_at env a0 cid ops m c'"
proof -
  have m: "length ops = Suc m" using assms by (simp add: client_at_def)
  have "uc_lastReqId c = word_of_nat (Suc m)"
    using assms(1) m by (intro u64_of_unat) (simp add: client_at_def)
  then show ?thesis using assms(1) m
    by (auto simp: ResendRequest_def SendRequest_def client_at_def PendingRequest_new_def call_request_def)
qed

lemma small_ids:
  assumes "client_at env a0 cid ops m c" and "i < length ops"
  shows "unat (word_of_nat (Suc i) :: u64) = Suc i"
proof -
  have "Suc i < 2 ^ 64" using assms unat_u64_bound [of "uc_lastReqId c"] by (simp add: client_at_def)
  then show ?thesis by (rule unat_of_nat_u64)
qed

lemma execute_at:
  assumes "replica_at env a0 cid ops k r" and "k < length ops" and "Suc k < 2 ^ 64"
  shows "\<exists>r'. execute_request env r 0 (call_request cid ops k) = Inr r' \<and> replica_at env a0 cid ops (Suc k) r'"
proof -
  let ?req = "call_request cid ops k"
  have req: "req_clientid ?req = cid" "req_op ?req = ops ! k" "req_clientreqid ?req = word_of_nat (Suc k)"
    by (simp_all add: call_request_def client_request_def)
  have R: "log_wf (ur_log r)" "LastOpnum (ur_log r) = ur_last_op r" "unat (ur_last_op r) = k"
    using assms(1) by (simp_all add: replica_at_def)
  have max: "LastOpnum (ur_log r) \<noteq> - 1" using R assms(3) by (simp add: u64_not_max)
  obtain l where l: "Append (ue_sha1 env) (ur_log r) (LogEntry_new (viewstamp2 0 (ur_last_op r + 1)) LOG_STATE_RECEIVED ?req) = Inr l"
    "log_wf l" "LastOpnum l = LastOpnum (ur_log r) + 1"
    using Append_then_Find [OF R(1) max, of "viewstamp2 0 (ur_last_op r + 1)" "ue_sha1 env" LOG_STATE_RECEIVED ?req] R(2)
    by (auto simp: viewstamp2_def)
  have un: "unat (ur_last_op r + 1) = Suc k" using R(2,3) max unat_add_of_nat [of "ur_last_op r" 1] unfolding u64_not_max by simp
  let ?a = "local_state env a0 (take k ops)"
  have ex: "Execute (ue_app env) (ur_app_state r) 0 ?req None = local_call env ?a (ops ! k)"
    using assms(1) by (simp add: Execute_def local_call_def req replica_at_def)
  have st: "fst (local_call env ?a (ops ! k)) = local_state env a0 (take (Suc k) ops)"
    using assms(2) by (simp add: local_state_def take_Suc_conv_app_nth)
  let ?m = "call_reply env a0 cid ops k"
  have m: "UReply \<lparr>urep_view = 0, urep_opnum = 0, urep_req = ?req, urep_reply = snd (local_call env ?a (ops ! k))\<rparr> = ?m"
    by (simp add: call_reply_def local_result_def)
  let ?entry = "\<lparr>uct_lastReqId = word_of_nat (Suc k), uct_reply = ?m\<rparr>"
  let ?r = "r\<lparr>ur_last_op := ur_last_op r + 1, ur_log := l, ur_app_state := local_state env a0 (take (Suc k) ops),
     ur_outbox := ur_outbox r @ [(0, ?m)], ur_clientTable := (ur_clientTable r)(cid \<mapsto> ?entry)\<rparr>"
  have k: "unat (word_of_nat k :: u64) = k" "unat (word_of_nat (Suc k) :: u64) = Suc k"
    using assms(3) by (intro unat_of_nat_u64, simp)+
  then have lt: "(word_of_nat k :: u64) < word_of_nat (Suc k)" "(0 :: u64) < word_of_nat (Suc k)"
    by (simp_all only: word_less_nat_alt) simp_all
  have "execute_request env r 0 ?req = Inr ?r"
    using l(1) ex m st assms(1) lt req
    by (auto simp: execute_request_def Let_def split_beta UpdateClientTable_def send_ur_def replica_at_def ClientTableEntry_default_def)
  moreover have "replica_at env a0 cid ops (Suc k) ?r"
    using assms(1) l un R(2) by (auto simp: replica_at_def less_Suc_eq)
  ultimately show ?thesis by blast
qed

lemma request_at:
  assumes c: "client_at env a0 cid ops m c" and r: "replica_at env a0 cid ops k r" and mk: "m \<le> k" "k \<le> length ops" "length ops \<le> Suc m"
    and i: "i < length ops"
  shows "\<exists>r' k'. HandleRequest env r 0 (call_request cid ops i) = Inr r' \<and> replica_at env a0 cid ops k' r' \<and> m \<le> k' \<and> k' \<le> length ops"
proof -
  let ?req = "call_request cid ops i"
  have req: "req_clientid ?req = cid" "req_clientreqid ?req = word_of_nat (Suc i)" by (simp_all add: call_request_def client_request_def)
  have bound: "length ops < 2 ^ 64" using c unat_u64_bound [of "uc_lastReqId c"] by (simp add: client_at_def)
  have un: "unat (word_of_nat (Suc i) :: u64) = Suc i" "unat (word_of_nat k :: u64) = k"
    using bound i mk(2) by (intro unat_of_nat_u64; linarith)+
  have run: ?thesis if "i = k" "HandleRequest env r 0 ?req = execute_request env r 0 ?req"
    using execute_at [OF r, of ] that i mk bound by fastforce
  show ?thesis
  proof (cases "k = 0")
    case True
    then have "HandleRequest env r 0 ?req = execute_request env r 0 ?req" using r req by (simp add: HandleRequest_def replica_at_def)
    then show ?thesis using run True i mk by simp
  next
    case False
    let ?e = "\<lparr>uct_lastReqId = word_of_nat k, uct_reply = call_reply env a0 cid ops (k - 1)\<rparr>"
    have e: "ur_clientTable r cid = Some ?e" using r False by (simp add: replica_at_def)
    have cmp: "(word_of_nat (Suc i) :: u64) < word_of_nat k \<longleftrightarrow> Suc i < k" "(word_of_nat (Suc i) :: u64) = word_of_nat k \<longleftrightarrow> Suc i = k"
      using un by (metis word_less_nat_alt, metis)
    consider "Suc i < k" | "Suc i = k" | "i = k" using i mk by linarith
    then show ?thesis
    proof cases
      case 1
      then have "HandleRequest env r 0 ?req = Inr r" using e req cmp by (simp add: HandleRequest_def del: of_nat_Suc)
      then show ?thesis using r mk by blast
    next
      case 2
      then have H: "HandleRequest env r 0 ?req = Inr (send_ur r 0 (call_reply env a0 cid ops (k - 1)))"
        using e req cmp by (simp add: HandleRequest_def del: of_nat_Suc)
      have "\<exists>i<k. call_reply env a0 cid ops (k - 1) = call_reply env a0 cid ops i" using False by (intro exI [of _ "k - 1"]) simp
      then have "replica_at env a0 cid ops k (send_ur r 0 (call_reply env a0 cid ops (k - 1)))"
        using r by (simp add: replica_at_def send_ur_def)
      then show ?thesis using H mk by blast
    next
      case 3
      then have "\<not> Suc i < k" "Suc i \<noteq> k" by simp_all
      then have "HandleRequest env r 0 ?req = execute_request env r 0 ?req" using e req cmp by (simp add: HandleRequest_def del: of_nat_Suc)
      then show ?thesis using run 3 by simp
    qed
  qed
qed

lemma reply_at:
  assumes c: "client_at env a0 cid ops m c" and mk: "m \<le> k" "k \<le> length ops" "length ops \<le> Suc m" and j: "j < k"
  shows "\<exists>c' m'. ReceiveMessage_uc no_calls c (call_reply env a0 cid ops j) = Inr c' \<and> client_at env a0 cid ops m' c' \<and> m' \<le> k \<and> length ops \<le> Suc m'"
proof -
  have bound: "length ops < 2 ^ 64" using c unat_u64_bound [of "uc_lastReqId c"] by (simp add: client_at_def)
  have id: "req_clientreqid (call_request cid ops j) = word_of_nat (Suc j)" by (simp add: call_request_def client_request_def)
  show ?thesis
  proof (cases "m = length ops")
    case True
    then have "ReceiveMessage_uc no_calls c (call_reply env a0 cid ops j) = Inr c"
      using c by (simp add: client_at_def call_reply_def HandleReply_def)
    then show ?thesis using c mk by blast
  next
    case False
    let ?p = "PendingRequest_new (ops ! m) (word_of_nat (Suc m)) ()"
    have p: "uc_pendingRequest c = Some ?p" "pr_clientReqId ?p = word_of_nat (Suc m)" "pr_request ?p = ops ! m"
      using c False by (simp_all add: client_at_def PendingRequest_new_def)
    have "unat (word_of_nat (Suc j) :: u64) = Suc j" "unat (word_of_nat (Suc m) :: u64) = Suc m"
      using bound j mk False by (intro unat_of_nat_u64; linarith)+
    then have eq: "(word_of_nat (Suc j) :: u64) = word_of_nat (Suc m) \<longleftrightarrow> j = m" by (metis nat.inject)
    show ?thesis
    proof (cases "j = m")
      case True
      let ?c = "c\<lparr>uc_requestTimeout := False, uc_pendingRequest := None,
        uc_answered := uc_answered c @ [(word_of_nat (Suc m), (), ops ! m, local_result env a0 ops m)]\<rparr>"
      have "ReceiveMessage_uc no_calls c (call_reply env a0 cid ops j) = Inr ?c"
        using p id eq True by (simp add: call_reply_def HandleReply_def no_calls_def PendingRequest_new_def del: of_nat_Suc)
      moreover have "client_at env a0 cid ops (Suc m) ?c" using c False mk by (auto simp: client_at_def)
      ultimately show ?thesis using j True mk by (metis Suc_leI le_SucI)
    next
      case neq: False
      then have "ReceiveMessage_uc no_calls c (call_reply env a0 cid ops j) = Inr c"
        using p id eq by (simp add: call_reply_def HandleReply_def del: of_nat_Suc)
      then show ?thesis using c mk by blast
    qed
  qed
qed

lemma system_step_ok:
  assumes "system_inv env a0 cid s" and "system_ok s e"
  shows "\<exists>s'. system_step env s e = Inr s' \<and> system_inv env a0 cid s'"
proof -
  obtain c r where s: "s = (c, r)" by fastforce
  obtain ops m k where mk: "m \<le> k" "k \<le> length ops" "length ops \<le> Suc m"
    and c: "client_at env a0 cid ops m c" and r: "replica_at env a0 cid ops k r"
    using assms(1) s by (auto simp: system_inv_def)
  show ?thesis
  proof (cases e)
    case (SysInvoke op)
    then obtain c' where c': "Invoke c op () = Inr c'" "client_at env a0 cid (ops @ [op]) m c'" "m = length ops"
      using invoke_at [OF c] assms(2) s by auto
    have "replica_at env a0 cid (ops @ [op]) k r" by (rule replica_at_append [OF r mk(2)])
    then have "system_inv env a0 cid (c', r)" unfolding system_inv_def using c' mk by (intro exI [of _ "ops @ [op]"] exI [of _ m] exI [of _ k]) simp
    then show ?thesis using SysInvoke s c' by simp
  next
    case SysTimeout
    then show ?thesis using s resend_at [OF c] mk r assms(1) by (auto simp: system_inv_def)
  next
    case (ToReplica n)
    show ?thesis
    proof (cases "n < length (uc_outbox c)")
      case True
      then obtain i where i: "i < length ops" "uc_outbox c ! n = URequest (call_request cid ops i)"
        using client_outbox [OF c nth_mem] by blast
      then show ?thesis using request_at [OF c r mk i(1)] ToReplica True s mk c by (auto simp: system_inv_def)
    qed (use ToReplica s assms(1) in simp)
  next
    case (ToClient n)
    show ?thesis
    proof (cases "n < length (ur_outbox r)")
      case True
      then obtain j where j: "j < k" "snd (ur_outbox r ! n) = call_reply env a0 cid ops j"
        using replica_outbox [OF r nth_mem] by blast
      then show ?thesis using reply_at [OF c mk j(1)] ToClient True s mk r by (auto simp: system_inv_def)
    qed (use ToClient s assms(1) in simp)
  qed
qed

interpretation unrep: total_system "system_step env" system_ok "system_inv env a0 cid" for env a0 cid
proof
  fix s e s'
  assume "system_inv env a0 cid s" "system_ok s e" "system_step env s e = Inr s'"
  then show "system_inv env a0 cid s'" using system_step_ok [of env a0 cid s e] by auto
next
  fix s e
  assume "system_inv env a0 cid s" "system_ok s e"
  then show "\<exists>s'. system_step env s e = Inr s'" using system_step_ok [of env a0 cid s e] by blast
qed

lemma system_inv_new: "UnreplicatedReplica_new True a0 = Inr r \<Longrightarrow> system_inv env a0 cid (UnreplicatedClient_new cid, r)"
  unfolding system_inv_def UnreplicatedReplica_new_def
  by (rule exI [of _ "[]"]) (auto simp: client_at_def replica_at_def UnreplicatedClient_new_def local_state_def LastOpnum_def Log_new_def log_wf_def)

text \<open>C9. Remote calls to the unreplicated server are local calls.  Over a network that loses, repeats and reorders messages, and
  with any timeouts, no assertion of the client, the replica or its log fails; the replies the client has received are, in
  order, the results of running its operations one after the other on the initial state; and the server is in the
  state after exactly these operations, or after these and the one the client is waiting for.\<close>

theorem remote_calls_are_local_calls:
  assumes "UnreplicatedReplica_new True a0 = Inr r0"
    and "accepts (system_step env) system_ok (UnreplicatedClient_new cid, r0) es"
  shows "\<exists>c r. fold_r (system_step env) (UnreplicatedClient_new cid, r0) es = Inr (c, r) \<and>
     (let ops = map (\<lambda>(_, _, op, _). op) (uc_answered c); results = map (\<lambda>(_, _, _, res). res) (uc_answered c)
      in results = map (local_result env a0 ops) [0..<length ops] \<and>
         (ur_app_state r = local_state env a0 ops \<or>
          (\<exists>p. uc_pendingRequest c = Some p \<and> ur_app_state r = local_state env a0 (ops @ [pr_request p]))))"
proof -
  obtain c r where run: "fold_r (system_step env) (UnreplicatedClient_new cid, r0) es = Inr (c, r)" and inv: "system_inv env a0 cid (c, r)"
    using unrep.run_total [OF system_inv_new [OF assms(1)] assms(2)] by (metis surj_pair)
  obtain all m k where mk: "m \<le> k" "k \<le> length all" "length all \<le> Suc m" and c: "client_at env a0 cid all m c" and r: "replica_at env a0 cid all k r"
    using inv by (auto simp: system_inv_def)
  let ?ops = "map (\<lambda>(_, _, op, _). op) (uc_answered c)"
  have ops: "?ops = take m all"
    using c mk by (auto simp: client_at_def intro!: nth_equalityI)
  have "local_result env a0 all i = local_result env a0 (take m all) i" if "i < m" for i
    using local_result_append [of i "take m all" env a0 "drop m all"] that mk by simp
  then have res: "map (\<lambda>(_, _, _, res). res) (uc_answered c) = map (local_result env a0 ?ops) [0..<length ?ops]"
    unfolding ops using c mk by (auto simp: client_at_def)
  have state: "ur_app_state r = local_state env a0 (take k all)" using r by (simp add: replica_at_def)
  consider "k = m" | "k = Suc m" using mk by linarith
  then have "ur_app_state r = local_state env a0 ?ops \<or>
     (\<exists>p. uc_pendingRequest c = Some p \<and> ur_app_state r = local_state env a0 (?ops @ [pr_request p]))"
  proof cases
    case 2
    have "take k all = take m all @ [all ! m]" unfolding 2 by (rule take_Suc_conv_app_nth) (use 2 mk in linarith)
    moreover have "uc_pendingRequest c = Some (PendingRequest_new (all ! m) (word_of_nat (Suc m)) ())"
      using 2 mk c by (simp add: client_at_def)
    ultimately show ?thesis unfolding ops state by (simp add: PendingRequest_new_def)
  qed (simp add: ops state)
  then show ?thesis using run res by (auto simp: Let_def)
qed

text \<open>The first request is sent twice and its second copy arrives late; the second request is executed but
  its reply has not arrived.\<close>

definition sample_unrep :: "string list unreplicated_env" where
  "sample_unrep = \<lparr>ue_app = sample_app, ue_sha1 = (\<lambda>s. s)\<rparr>"

definition sample_unrep_run :: "system_event list" where
  "sample_unrep_run = [SysInvoke ''a'', SysTimeout, ToReplica 0, ToClient 0, SysInvoke ''b'', ToReplica 1, ToReplica 2, ToReplica 0, ToClient 0]"

theorem remote_calls_are_local_calls_witness:
  "\<exists>c r r0. UnreplicatedReplica_new True [] = Inr r0 \<and>
     fold_r (system_step sample_unrep) (UnreplicatedClient_new 3, r0) sample_unrep_run = Inr (c, r) \<and>
     map (\<lambda>(_, _, op, _). op) (uc_answered c) = [''a''] \<and> ur_app_state r = [''a'', ''b''] \<and>
     map (\<lambda>(_, _, _, res). res) (uc_answered c) = map (local_result sample_unrep [] [''a'']) [0..<1]"
proof -
  obtain r0 where r0: "UnreplicatedReplica_new True [] = (Inr r0 :: string list UnreplicatedReplica result)"
    by (auto simp: UnreplicatedReplica_new_def Log_new_def)
  have eq: "r0 = projr (UnreplicatedReplica_new True [])" using r0 by simp
  have ok: "accepts (system_step sample_unrep) system_ok (UnreplicatedClient_new 3, r0) sample_unrep_run" unfolding eq by code_simp
  have "case fold_r (system_step sample_unrep) (UnreplicatedClient_new 3, r0) sample_unrep_run of Inl _ \<Rightarrow> False
     | Inr (c, r) \<Rightarrow> map (\<lambda>(_, _, op, _). op) (uc_answered c) = [''a''] \<and> ur_app_state r = [''a'', ''b'']" unfolding eq by code_simp
  then show ?thesis using remote_calls_are_local_calls [OF r0 ok] r0 by (auto simp: Let_def)
qed

end
