(* ===== verification/GranolaServer.thy ===== *)
theory GranolaServer
  imports TxnApps
begin

text \<open>
  The server of the Granola protocol, \<^verbatim>\<open>transaction/granola/server.h\<close>, \<^verbatim>\<open>transaction/granola/server.cc\<close> and the
  messages of \<^verbatim>\<open>granola-proto.proto\<close>.  A leader replicates a transaction in its group, exchanges votes with
  the leaders of the other shards and executes transactions in timestamp order, or, in locking mode, prepares them
  when they are replicated and finishes them when the votes are in.  The log's entries are \<^verbatim>\<open>GranolaLogEntry\<close> objects: the
  \<^verbatim>\<open>LogEntry\<close> part is in \<open>gs_log\<close> and the \<^verbatim>\<open>txnData\<close> the subclass adds in \<open>gs_txnData\<close>, by operation number; a pointer to an
  entry is its operation number.  The copy constructor of \<^verbatim>\<open>TxnData\<close> does not copy \<^verbatim>\<open>status\<close>, so a new entry has whatever its memory
  held: \<open>ge_junk\<close> is that value, by operation number, assumed to be one of the enumeration.
\<close>

section \<open>Messages\<close>

datatype Status = COMMIT | ABORT | CONFLICT

record ReplyMessage =
  gr_clientreqid :: u64
  gr_shard_num :: u32
  gr_status :: Status
  gr_reply :: string

definition ReplyMessage_empty :: ReplyMessage where
  "ReplyMessage_empty = \<lparr>gr_clientreqid = 0, gr_shard_num = 0, gr_status = COMMIT, gr_reply = ''''\<rparr>"

record RequestMessage =
  gq_txnid :: u64
  gq_indep :: bool
  gq_ro :: bool
  gq_request :: Request

record PrepareMessage =
  gp_view :: u64
  gp_opnum :: u64
  gp_txnid :: u64
  gp_indep :: bool
  gp_ro :: bool
  gp_request :: Request
  gp_timestamp :: u64

record PrepareOKMessage =
  go_view :: u64
  go_opnum :: u64
  go_replica_num :: int

record CommitMessage =
  gc_view :: u64
  gc_opnum :: u64

record VoteMessage =
  gv_clientid :: u64
  gv_clientreqid :: u64
  gv_shard_num :: u32
  gv_nshards :: u32
  gv_status :: Status

record VoteRequestMessage =
  vr_clientid :: u64
  vr_clientreqid :: u64

record FinalTimestampMessage =
  gf_view :: u64
  gf_opnum :: u64
  gf_timestamp :: u64
  gf_status :: Status

datatype ToServerMessage =
    GrRequest RequestMessage
  | GrPrepare PrepareMessage
  | GrPrepareOK PrepareOKMessage
  | GrCommit CommitMessage
  | GrVote VoteMessage
  | GrVoteRequest VoteRequestMessage
  | GrFinalTimestamp FinalTimestampMessage
  | GrNotSet

datatype destination = ReplicaDest int | AllReplicas | AddressDest TransportAddress | GroupsDest "int list"

datatype outgoing = OutServer ToServerMessage | OutClient ReplyMessage

section \<open>State\<close>

record TxnData =
  td_txnid :: u64
  td_indep :: bool
  td_ro :: bool
  td_proposed_ts :: u64
  td_final_ts :: u64
  td_ts_decided :: bool
  td_status :: Status

text \<open>\<^verbatim>\<open>TxnData()\<close> leaves \<^verbatim>\<open>status\<close> as it is, and so does the copy constructor.\<close>

definition TxnData_default :: "Status \<Rightarrow> TxnData" where
  "TxnData_default junk = \<lparr>td_txnid = 0, td_indep = False, td_ro = False, td_proposed_ts = 0, td_final_ts = 0,
     td_ts_decided = False, td_status = junk\<rparr>"

definition TxnData_copy :: "Status \<Rightarrow> TxnData \<Rightarrow> TxnData" where
  "TxnData_copy junk t = \<lparr>td_txnid = td_txnid t, td_indep = td_indep t, td_ro = td_ro t, td_proposed_ts = td_proposed_ts t,
     td_final_ts = td_final_ts t, td_ts_decided = td_ts_decided t, td_status = junk\<rparr>"

record ClientTableEntry =
  ct_lastReqId :: u64
  ct_replied :: bool
  ct_reply :: ReplyMessage

definition ClientTableEntry_default :: ClientTableEntry where
  "ClientTableEntry_default = \<lparr>ct_lastReqId = 0, ct_replied = False, ct_reply = ReplyMessage_empty\<rparr>"

type_synonym reqid = "u64 \<times> u64"

record 'a GranolaServer =
  gs_configuration :: Configuration
  gs_groupIdx :: int
  gs_replicaIdx :: int
  gs_log :: Log
  gs_clientReqMap :: "reqid \<Rightarrow> u64 option"
  gs_txnData :: "u64 \<Rightarrow> TxnData"
  gs_view :: u64
  gs_lastOp :: u64
  gs_lastCommitted :: u64
  gs_locking :: bool
  gs_clientAddresses :: "u64 \<Rightarrow> TransportAddress option"
  gs_clientTable :: "u64 \<Rightarrow> ClientTableEntry option"
  gs_localClock :: u64
  gs_pending :: "(u64 \<times> u64) list"
  gs_prepareOKQuorum :: "(viewstamp_t, PrepareOKMessage) QuorumSet"
  gs_voteQuorum :: "(reqid, VoteMessage) MessageSet"
  gs_resendPrepareTimeout :: bool
  gs_voteTimeouts :: "u64 \<Rightarrow> bool"
  gs_app_state :: 'a
  gs_outbox :: "(destination \<times> outgoing) list"

record 'a granola_env =
  ge_app :: "'a txn_app"
  ge_sha1 :: "string \<Rightarrow> string"
  ge_junk :: "u64 \<Rightarrow> Status"

definition GranolaServer_new :: "Configuration \<Rightarrow> int \<Rightarrow> int \<Rightarrow> bool \<Rightarrow> 'a \<Rightarrow> 'a GranolaServer result" where
  "GranolaServer_new config myShard myIdx lockingMode a =
     rbind (Log_new False 1 EMPTY_HASH) (\<lambda>l.
       Inr \<lparr>gs_configuration = config, gs_groupIdx = myShard, gs_replicaIdx = myIdx, gs_log = l,
            gs_clientReqMap = Map.empty, gs_txnData = (\<lambda>_. TxnData_default COMMIT), gs_view = 0, gs_lastOp = 0, gs_lastCommitted = 0,
            gs_locking = lockingMode, gs_clientAddresses = Map.empty, gs_clientTable = Map.empty, gs_localClock = 0,
            gs_pending = [], gs_prepareOKQuorum = QuorumSet_new (QuorumSize config - 1), gs_voteQuorum = MessageSet_new 1,
            gs_resendPrepareTimeout = False, gs_voteTimeouts = (\<lambda>_. False), gs_app_state = a, gs_outbox = []\<rparr>)"

definition SetMode :: "'a GranolaServer \<Rightarrow> bool \<Rightarrow> 'a GranolaServer" where
  "SetMode s lockingMode = s\<lparr>gs_locking := lockingMode\<rparr>"

section \<open>Helpers\<close>

definition send :: "'a GranolaServer \<Rightarrow> destination \<Rightarrow> outgoing \<Rightarrow> 'a GranolaServer" where
  "send s d m = s\<lparr>gs_outbox := gs_outbox s @ [(d, m)]\<rparr>"

definition AmLeader :: "'a GranolaServer \<Rightarrow> bool" where
  "AmLeader s \<longleftrightarrow> GetLeaderIndex (gs_configuration s) (gs_view s) = gs_replicaIdx s"

definition leads_view :: "'a GranolaServer \<Rightarrow> u64 \<Rightarrow> bool" where
  "leads_view s v \<longleftrightarrow> GetLeaderIndex (gs_configuration s) v = gs_replicaIdx s"

definition reqid_of :: "Request \<Rightarrow> reqid" where
  "reqid_of req = (req_clientid req, req_clientreqid req)"

text \<open>\<^verbatim>\<open>GranolaLog::Append\<close> of a new entry, and \<^verbatim>\<open>GranolaLog::Find\<close>.\<close>

definition store_entry :: "'a GranolaServer \<Rightarrow> u64 \<Rightarrow> Request \<Rightarrow> TxnData \<Rightarrow> Log \<Rightarrow> 'a GranolaServer result" where
  "store_entry s op req td l =
     Inr (s\<lparr>gs_clientReqMap := (gs_clientReqMap s)(reqid_of req \<mapsto> op), gs_log := l, gs_txnData := (gs_txnData s)(op := td)\<rparr>)"

definition append_entry ::
  "'a granola_env \<Rightarrow> 'a GranolaServer \<Rightarrow> viewstamp_t \<Rightarrow> LogEntryState \<Rightarrow> Request \<Rightarrow> TxnData \<Rightarrow> 'a GranolaServer result" where
  "append_entry env s vs st req td =
     rbind (Append (ge_sha1 env) (gs_log s) (LogEntry_new vs st req)) (store_entry s (vs_opnum vs) req td)"

definition Find_reqid :: "'a GranolaServer \<Rightarrow> reqid \<Rightarrow> (u64 \<times> LogEntry) option result" where
  "Find_reqid s rid =
     (case gs_clientReqMap s rid of
        None \<Rightarrow> Inr None
      | Some op \<Rightarrow> rbind (Find (gs_log s) op) (\<lambda>r. Inr (map_option (Pair op) r)))"

definition set_txnData :: "'a GranolaServer \<Rightarrow> u64 \<Rightarrow> TxnData \<Rightarrow> 'a GranolaServer" where
  "set_txnData s op td = s\<lparr>gs_txnData := (gs_txnData s)(op := td)\<rparr>"

definition set_state :: "'a GranolaServer \<Rightarrow> u64 \<Rightarrow> LogEntryState \<Rightarrow> 'a GranolaServer result" where
  "set_state s op st = rbind (SetStatus (gs_log s) op st) (\<lambda>(l, _). Inr (s\<lparr>gs_log := l\<rparr>))"

text \<open>The set of pending transactions is ordered by timestamp alone: an element whose timestamp is there already is not
  inserted.\<close>

fun pending_insert :: "u64 \<times> u64 \<Rightarrow> (u64 \<times> u64) list \<Rightarrow> (u64 \<times> u64) list" where
  "pending_insert p [] = [p]"
| "pending_insert p (q # qs) = (if snd p < snd q then p # q # qs else if snd q < snd p then q # pending_insert p qs else q # qs)"

definition pending_erase :: "u64 \<Rightarrow> (u64 \<times> u64) list \<Rightarrow> (u64 \<times> u64) list" where
  "pending_erase ts qs = filter (\<lambda>q. snd q \<noteq> ts) qs"

text \<open>\<^verbatim>\<open>clientTable[id]\<close> creates a zeroed entry when there is none.\<close>

definition client_entry :: "'a GranolaServer \<Rightarrow> u64 \<Rightarrow> ClientTableEntry" where
  "client_entry s c = (case gs_clientTable s c of None \<Rightarrow> ClientTableEntry_default | Some e \<Rightarrow> e)"

definition put_client :: "'a GranolaServer \<Rightarrow> u64 \<Rightarrow> ClientTableEntry \<Rightarrow> 'a GranolaServer" where
  "put_client s c e = s\<lparr>gs_clientTable := (gs_clientTable s)(c \<mapsto> e)\<rparr>"

definition UpdateClientTable :: "'a GranolaServer \<Rightarrow> Request \<Rightarrow> 'a GranolaServer result" where
  "UpdateClientTable s req =
     (let e = client_entry s (req_clientid req)
      in check (ct_lastReqId e \<le> req_clientreqid req) AssertFailed
           (if ct_lastReqId e = req_clientreqid req then Inr (put_client s (req_clientid req) e)
            else Inr (put_client s (req_clientid req)
                        \<lparr>ct_lastReqId = req_clientreqid req, ct_replied = False, ct_reply = ReplyMessage_empty\<rparr>)))"

definition prepare_message :: "LogEntry \<Rightarrow> TxnData \<Rightarrow> PrepareMessage" where
  "prepare_message e td =
     \<lparr>gp_view = vs_view (le_viewstamp e), gp_opnum = vs_opnum (le_viewstamp e), gp_txnid = td_txnid td,
      gp_indep = td_indep td, gp_ro = td_ro td, gp_request = le_request e, gp_timestamp = td_proposed_ts td\<rparr>"

definition SendPrepare :: "'a GranolaServer \<Rightarrow> 'a GranolaServer result" where
  "SendPrepare s =
     rbind (Find (gs_log s) (gs_lastOp s)) (\<lambda>r. case r of
       None \<Rightarrow> Inl AssertFailed
     | Some e \<Rightarrow> Inr ((send s AllReplicas (OutServer (GrPrepare (prepare_message e (gs_txnData s (gs_lastOp s))))))
                       \<lparr>gs_resendPrepareTimeout := True\<rparr>))"

definition other_shards :: "'a GranolaServer \<Rightarrow> Request \<Rightarrow> int list" where
  "other_shards s req = filter (\<lambda>i. i \<noteq> gs_groupIdx s) (map (\<lambda>so. sint (so_shard so)) (req_ops req))"

definition vote_message :: "'a GranolaServer \<Rightarrow> Request \<Rightarrow> Status \<Rightarrow> VoteMessage" where
  "vote_message s req st =
     \<lparr>gv_clientid = req_clientid req, gv_clientreqid = req_clientreqid req, gv_shard_num = word_of_int (gs_groupIdx s),
      gv_nshards = word_of_nat (length (req_ops req)), gv_status = st\<rparr>"

definition SendVoteRequest :: "'a GranolaServer \<Rightarrow> Request \<Rightarrow> 'a GranolaServer" where
  "SendVoteRequest s req =
     (case ms_GetMessages (gs_voteQuorum s) (reqid_of req) of
        None \<Rightarrow> s
      | Some votes \<Rightarrow>
          let shards = filter (\<lambda>i. map_of votes i = None) (other_shards s req)
          in if shards = [] then s
             else send s (GroupsDest shards) (OutServer (GrVoteRequest \<lparr>vr_clientid = req_clientid req, vr_clientreqid = req_clientreqid req\<rparr>)))"

section \<open>Execution\<close>

definition call_app :: "'a granola_env \<Rightarrow> 'a GranolaServer \<Rightarrow> LogEntry \<Rightarrow> u64 \<Rightarrow> txntype_t \<Rightarrow> ('a \<times> string \<times> txnret_t) result" where
  "call_app env s e txnid ty =
     Execute_txn (ge_app env) (gs_app_state s) (vs_opnum (le_viewstamp e)) (le_request e) \<lparr>ta_txnid = txnid, ta_type = ty\<rparr>"

definition reply_to :: "'a GranolaServer \<Rightarrow> LogEntry \<Rightarrow> ReplyMessage \<Rightarrow> 'a GranolaServer" where
  "reply_to s e reply =
     (if leads_view s (vs_view (le_viewstamp e))
      then (case gs_clientAddresses s (req_clientid (le_request e)) of
              None \<Rightarrow> s
            | Some addr \<Rightarrow> send s (AddressDest addr) (OutClient reply))
      else s)"

text \<open>\<^verbatim>\<open>ExecuteTxn\<close>, of locking mode: finish a prepared transaction.\<close>

definition finish_txn :: "'a granola_env \<Rightarrow> 'a GranolaServer \<Rightarrow> LogEntry \<Rightarrow> TxnData \<Rightarrow> 'a GranolaServer result" where
  "finish_txn env s e td =
     (if td_status td = COMMIT \<or> td_status td = ABORT
      then rbind (call_app env s e (td_txnid td) (if td_status td = COMMIT then TXN_COMMIT else TXN_ABORT)) (\<lambda>(a, res, ret).
             check (tr_commit ret) AssertFailed (check (\<not> tr_blocked ret) AssertFailed (Inr (s\<lparr>gs_app_state := a\<rparr>))))
      else Inr s)"

text \<open>The reply of the prepare phase goes out with the final status.\<close>

definition finish_reply :: "'a GranolaServer \<Rightarrow> LogEntry \<Rightarrow> Status \<Rightarrow> 'a GranolaServer" where
  "finish_reply s e st =
     (let c = req_clientid (le_request e); cte = client_entry s c; reply = (ct_reply cte)\<lparr>gr_status := st\<rparr> in
      if ct_lastReqId cte \<le> req_clientreqid (le_request e)
      then reply_to (put_client s c \<lparr>ct_lastReqId = req_clientreqid (le_request e), ct_replied = True, ct_reply = reply\<rparr>) e reply
      else put_client s c cte)"

definition ExecuteTxn :: "'a granola_env \<Rightarrow> 'a GranolaServer \<Rightarrow> u64 \<Rightarrow> 'a GranolaServer result" where
  "ExecuteTxn env s op =
     rbind (Find (gs_log s) op) (\<lambda>r. case r of
       None \<Rightarrow> Inl AssertFailed
     | Some e \<Rightarrow>
         if le_state e = LOG_STATE_EXECUTED then Inr s
         else check (le_state e = LOG_STATE_COMMITTED) AssertFailed
           (rbind (finish_txn env s e (gs_txnData s op)) (\<lambda>s1.
            rbind (set_state s1 op LOG_STATE_EXECUTED) (\<lambda>s2. Inr (finish_reply s2 e (td_status (gs_txnData s op)))))))"

definition indep_reply :: "'a GranolaServer \<Rightarrow> Request \<Rightarrow> string \<Rightarrow> ReplyMessage" where
  "indep_reply s req res =
     \<lparr>gr_clientreqid = req_clientreqid req, gr_shard_num = word_of_int (gs_groupIdx s), gr_status = COMMIT, gr_reply = res\<rparr>"

text \<open>The body of the loop of \<^verbatim>\<open>ExecuteTxns\<close> for an entry that can be executed.\<close>

definition execute_indep :: "'a granola_env \<Rightarrow> 'a GranolaServer \<Rightarrow> u64 \<Rightarrow> LogEntry \<Rightarrow> 'a GranolaServer result" where
  "execute_indep env s op e =
     rbind (call_app env s e (td_txnid (gs_txnData s op)) TXN_INDEP) (\<lambda>(a, res, ret).
     rbind (set_state (s\<lparr>gs_app_state := a\<rparr>) op LOG_STATE_EXECUTED) (\<lambda>s1.
       let c = req_clientid (le_request e); cte = client_entry s1 c; reply = indep_reply s1 (le_request e) res;
           s2 = put_client s1 c (if ct_lastReqId cte \<le> req_clientreqid (le_request e)
                  then \<lparr>ct_lastReqId = req_clientreqid (le_request e), ct_replied = True, ct_reply = reply\<rparr> else cte)
       in Inr (reply_to s2 e reply)))"

fun execute_pending :: "'a granola_env \<Rightarrow> 'a GranolaServer \<Rightarrow> (u64 \<times> u64) list \<Rightarrow> 'a GranolaServer result" where
  "execute_pending env s [] = Inr s"
| "execute_pending env s ((op, ts) # rest) =
     rbind (Find (gs_log s) op) (\<lambda>r. case r of
       None \<Rightarrow> Inl Panicked
     | Some e \<Rightarrow>
         if td_ts_decided (gs_txnData s op) \<and> le_state e = LOG_STATE_COMMITTED
         then rbind (execute_indep env s op e) (\<lambda>s1. execute_pending env (s1\<lparr>gs_pending := rest\<rparr>) rest)
         else Inr s)"

definition ExecuteTxns :: "'a granola_env \<Rightarrow> 'a GranolaServer \<Rightarrow> 'a GranolaServer result" where
  "ExecuteTxns env s = execute_pending env s (gs_pending s)"

section \<open>Votes\<close>

text \<open>The decision in locking mode, over the votes of the other shards.\<close>

fun decide :: "Status \<Rightarrow> VoteMessage shard_messages \<Rightarrow> Status result" where
  "decide st [] = Inr st"
| "decide st ((sh, ms) # rest) =
     (case map_of ms 0 of
        None \<Rightarrow> Inl AssertFailed
      | Some m \<Rightarrow> if gv_status m = ABORT then Inr ABORT
                  else decide (if gv_status m = CONFLICT then CONFLICT else st) rest)"

text \<open>The part of \<^verbatim>\<open>CheckVoteQuorum\<close> that runs when all votes are in.\<close>

definition repend :: "'a GranolaServer \<Rightarrow> u64 \<Rightarrow> TxnData \<Rightarrow> 'a GranolaServer result" where
  "repend s op td =
     (if td_final_ts td \<noteq> td_proposed_ts td
      then check (\<exists>q\<in>set (gs_pending s). snd q = td_proposed_ts td) AssertFailed
             (Inr (s\<lparr>gs_pending := pending_insert (op, td_final_ts td) (pending_erase (td_proposed_ts td) (gs_pending s))\<rparr>))
      else Inr s)"

definition decide_txn :: "'a GranolaServer \<Rightarrow> u64 \<Rightarrow> LogEntry \<Rightarrow> VoteMessage shard_messages \<Rightarrow> 'a GranolaServer result" where
  "decide_txn s op e msgs =
     (let td = (gs_txnData s op)\<lparr>td_final_ts := td_proposed_ts (gs_txnData s op), td_ts_decided := True\<rparr> in
      rbind (if gs_locking s
             then if td_status td \<noteq> ABORT
                  then rbind (decide (td_status td) msgs) (\<lambda>st. Inr (set_txnData s op (td\<lparr>td_status := st\<rparr>)))
                  else Inr (set_txnData s op td)
             else repend (set_txnData s op td) op td) (\<lambda>s1.
        let s2 = s1\<lparr>gs_voteQuorum := ms_Remove (gs_voteQuorum s1) (reqid_of (le_request e))\<rparr>
        in Inr (send s2 AllReplicas (OutServer (GrFinalTimestamp
             \<lparr>gf_view = gs_view s2, gf_opnum = vs_opnum (le_viewstamp e), gf_timestamp = td_final_ts (gs_txnData s2 op),
              gf_status = td_status (gs_txnData s2 op)\<rparr>)))))"

definition check_votes :: "'a GranolaServer \<Rightarrow> u64 \<Rightarrow> LogEntry \<Rightarrow> 'a GranolaServer result" where
  "check_votes s op e =
     check (length (req_ops (le_request e)) > 1) AssertFailed
       (case ms_CheckForQuorum (gs_voteQuorum s) (reqid_of (le_request e)) of
          None \<Rightarrow> Inr s
        | Some msgs \<Rightarrow>
            if leads_view s (vs_view (le_viewstamp e)) \<and> le_state e = LOG_STATE_COMMITTED
            then decide_txn s op e msgs else Inr s)"

definition CheckVoteQuorum :: "'a granola_env \<Rightarrow> 'a GranolaServer \<Rightarrow> u64 \<Rightarrow> 'a GranolaServer result" where
  "CheckVoteQuorum env s op =
     rbind (Find (gs_log s) op) (\<lambda>r. case r of
       None \<Rightarrow> Inl AssertFailed
     | Some e \<Rightarrow>
         if le_state e = LOG_STATE_EXECUTED then Inr s
         else rbind (if td_ts_decided (gs_txnData s op) then Inr s else check_votes s op e) (\<lambda>s1.
           if td_ts_decided (gs_txnData s1 op)
           then let s2 = s1\<lparr>gs_voteTimeouts := (gs_voteTimeouts s1)(op := False)\<rparr>
                in if gs_locking s2 then ExecuteTxn env s2 op else ExecuteTxns env s2
           else Inr s1))"

section \<open>Committing\<close>

text \<open>In locking mode a transaction is prepared when it is committed in the log.\<close>

definition prepare_txn :: "'a granola_env \<Rightarrow> 'a GranolaServer \<Rightarrow> u64 \<Rightarrow> LogEntry \<Rightarrow> 'a GranolaServer result" where
  "prepare_txn env s op e =
     rbind (call_app env s e (td_txnid (gs_txnData s op)) TXN_PREPARE) (\<lambda>(a, res, ret).
       let st = (if tr_blocked ret then CONFLICT else if tr_commit ret then COMMIT else ABORT);
           s1 = set_txnData (s\<lparr>gs_app_state := a\<rparr>) op ((gs_txnData s op)\<lparr>td_status := st\<rparr>);
           c = req_clientid (le_request e); cte = client_entry s1 c;
           reply = \<lparr>gr_clientreqid = req_clientreqid (le_request e), gr_shard_num = word_of_int (gs_groupIdx s1), gr_status = st, gr_reply = res\<rparr>
       in Inr (put_client s1 c (if ct_lastReqId cte \<le> req_clientreqid (le_request e)
                 then cte\<lparr>ct_lastReqId := req_clientreqid (le_request e), ct_reply := reply\<rparr> else cte)))"

definition send_vote :: "'a GranolaServer \<Rightarrow> u64 \<Rightarrow> LogEntry \<Rightarrow> 'a GranolaServer result" where
  "send_vote s op e =
     (if AmLeader s \<and> length (req_ops (le_request e)) > 1
      then let s1 = send s (GroupsDest (other_shards s (le_request e)))
                      (OutServer (GrVote (vote_message s (le_request e) (td_status (gs_txnData s op)))))
           in check (\<not> gs_voteTimeouts s1 op) AssertFailed (Inr (s1\<lparr>gs_voteTimeouts := (gs_voteTimeouts s1)(op := True)\<rparr>))
      else Inr s)"

definition commit_op :: "'a granola_env \<Rightarrow> 'a GranolaServer \<Rightarrow> u64 \<Rightarrow> 'a GranolaServer result" where
  "commit_op env s op =
     (let s0 = s\<lparr>gs_lastCommitted := op\<rparr> in
      rbind (Find (gs_log s0) op) (\<lambda>r. case r of
        None \<Rightarrow> Inl Panicked
      | Some e \<Rightarrow>
          if le_state e = LOG_STATE_EXECUTED then Inr s0
          else rbind (set_state s0 op LOG_STATE_COMMITTED) (\<lambda>s1.
               rbind (if gs_locking s1 then prepare_txn env s1 op e else Inr s1) (\<lambda>s2.
               rbind (send_vote s2 op e) (\<lambda>s3. CheckVoteQuorum env s3 op)))))"

text \<open>The operations a loop \<^verbatim>\<open>while (c < k) { c++; ... }\<close> visits.\<close>

definition ops_after :: "u64 \<Rightarrow> u64 \<Rightarrow> u64 list" where
  "ops_after c k = (if c < k then op_range (c + 1) k @ [k] else [])"

definition CommitUpTo :: "'a granola_env \<Rightarrow> 'a GranolaServer \<Rightarrow> u64 \<Rightarrow> 'a GranolaServer result" where
  "CommitUpTo env s opnum =
     (let s1 = (if gs_lastCommitted s < opnum \<and> AmLeader s
                then send s AllReplicas (OutServer (GrCommit \<lparr>gc_view = gs_view s, gc_opnum = opnum\<rparr>)) else s);
          s2 = (if gs_lastCommitted s1 < opnum then s1\<lparr>gs_resendPrepareTimeout := False\<rparr> else s1)
      in fold_r (commit_op env) s2 (ops_after (gs_lastCommitted s2) opnum))"

section \<open>Handlers\<close>

text \<open>The data of a new transaction: one for a single shard has its final timestamp at once.\<close>

definition new_txnData :: "u64 \<Rightarrow> bool \<Rightarrow> bool \<Rightarrow> u64 \<Rightarrow> Request \<Rightarrow> TxnData" where
  "new_txnData txnid indep ro ts req =
     (let td = (TxnData_default COMMIT)\<lparr>td_txnid := txnid, td_indep := indep, td_ro := ro, td_proposed_ts := ts, td_status := COMMIT\<rparr>
      in if length (req_ops req) = 1 then td\<lparr>td_final_ts := ts, td_ts_decided := True\<rparr> else td)"

definition add_pending :: "'a GranolaServer \<Rightarrow> u64 \<Rightarrow> 'a GranolaServer" where
  "add_pending s ts = (if gs_locking s then s else s\<lparr>gs_pending := pending_insert (gs_lastOp s, ts) (gs_pending s)\<rparr>)"

text \<open>The stages in which \<^verbatim>\<open>HandleClientRequest\<close> takes a new request: the operation number and the timestamp, the entry, the votes
  to wait for and the PREPARE.\<close>

definition announce :: "Request \<Rightarrow> 'a GranolaServer \<Rightarrow> 'a GranolaServer result" where
  "announce req s =
     SendPrepare (if length (req_ops req) > 1
       then s\<lparr>gs_voteQuorum := SetShardRequired (gs_voteQuorum s) (reqid_of req) (word_of_nat (length (req_ops req)) - 1)\<rparr> else s)"

definition log_request :: "'a granola_env \<Rightarrow> RequestMessage \<Rightarrow> 'a GranolaServer \<Rightarrow> 'a GranolaServer result" where
  "log_request env msg s =
     rbind (append_entry env (add_pending s (gs_localClock s)) (viewstamp2 (gs_view s) (gs_lastOp s)) LOG_STATE_PREPARED (gq_request msg)
              (TxnData_copy (ge_junk env (gs_lastOp s))
                 (new_txnData (gq_txnid msg) (gq_indep msg) (gq_ro msg) (gs_localClock s) (gq_request msg))))
       (announce (gq_request msg))"

definition stamp_request :: "'a granola_env \<Rightarrow> RequestMessage \<Rightarrow> 'a GranolaServer \<Rightarrow> 'a GranolaServer result" where
  "stamp_request env msg s = log_request env msg (s\<lparr>gs_lastOp := gs_lastOp s + 1, gs_localClock := gs_localClock s + 1\<rparr>)"

definition append_request :: "'a granola_env \<Rightarrow> 'a GranolaServer \<Rightarrow> RequestMessage \<Rightarrow> 'a GranolaServer result" where
  "append_request env s msg = rbind (UpdateClientTable s (gq_request msg)) (stamp_request env msg)"

definition save_address :: "'a GranolaServer \<Rightarrow> TransportAddress \<Rightarrow> u64 \<Rightarrow> 'a GranolaServer" where
  "save_address s remote c =
     (if gs_clientAddresses s c = None then s\<lparr>gs_clientAddresses := (gs_clientAddresses s)(c \<mapsto> remote)\<rparr> else s)"

definition HandleClientRequest ::
  "'a granola_env \<Rightarrow> 'a GranolaServer \<Rightarrow> TransportAddress \<Rightarrow> RequestMessage \<Rightarrow> 'a GranolaServer result" where
  "HandleClientRequest env s remote msg =
     (let s1 = save_address s remote (req_clientid (gq_request msg)) in
      if \<not> AmLeader s1 then Inr s1
      else case gs_clientTable s1 (req_clientid (gq_request msg)) of
             Some entry \<Rightarrow>
               if req_clientreqid (gq_request msg) < ct_lastReqId entry then Inr s1
               else if req_clientreqid (gq_request msg) = ct_lastReqId entry
               then if ct_replied entry then Inr (send s1 (AddressDest remote) (OutClient (ct_reply entry))) else Inr s1
               else append_request env s1 msg
           | None \<Rightarrow> append_request env s1 msg)"

definition prepare_ok :: "'a GranolaServer \<Rightarrow> PrepareMessage \<Rightarrow> 'a GranolaServer" where
  "prepare_ok s msg = send s (ReplicaDest (GetLeaderIndex (gs_configuration s) (gs_view s))) (OutServer (GrPrepareOK
     \<lparr>go_view = gp_view msg, go_opnum = gp_opnum msg, go_replica_num = gs_replicaIdx s\<rparr>))"

text \<open>Operations a backup has missed become empty entries in the executed state.\<close>

definition fill_entry :: "'a granola_env \<Rightarrow> u64 \<Rightarrow> 'a GranolaServer \<Rightarrow> u64 \<Rightarrow> 'a GranolaServer result" where
  "fill_entry env v s op =
     append_entry env (s\<lparr>gs_lastOp := op\<rparr>) (viewstamp2 v op) LOG_STATE_EXECUTED empty_Request (TxnData_default (ge_junk env op))"

definition acknowledge :: "PrepareMessage \<Rightarrow> 'a GranolaServer \<Rightarrow> 'a GranolaServer result" where
  "acknowledge msg s = rbind (UpdateClientTable s (gp_request msg)) (\<lambda>s1. Inr (prepare_ok s1 msg))"

definition log_prepare :: "'a granola_env \<Rightarrow> PrepareMessage \<Rightarrow> 'a GranolaServer \<Rightarrow> 'a GranolaServer result" where
  "log_prepare env msg s =
     rbind (append_entry env (add_pending s (gp_timestamp msg)) (viewstamp2 (gp_view msg) (gs_lastOp s)) LOG_STATE_PREPARED (gp_request msg)
              (TxnData_copy (ge_junk env (gs_lastOp s))
                 (new_txnData (gp_txnid msg) (gp_indep msg) (gp_ro msg) (gp_timestamp msg) (gp_request msg))))
       (acknowledge msg)"

definition accept_prepare :: "'a granola_env \<Rightarrow> PrepareMessage \<Rightarrow> 'a GranolaServer \<Rightarrow> 'a GranolaServer result" where
  "accept_prepare env msg s = log_prepare env msg (s\<lparr>gs_lastOp := gs_lastOp s + 1\<rparr>)"

definition HandlePrepare :: "'a granola_env \<Rightarrow> 'a GranolaServer \<Rightarrow> PrepareMessage \<Rightarrow> 'a GranolaServer result" where
  "HandlePrepare env s msg =
     check (\<not> AmLeader s) AssertFailed
       (if gp_opnum msg \<le> gs_lastOp s then Inr (prepare_ok s msg)
        else rbind (fold_r (fill_entry env (gp_view msg)) s (op_range (gs_lastOp s + 1) (gp_opnum msg)))
               (accept_prepare env msg))"

definition HandlePrepareOK :: "'a granola_env \<Rightarrow> 'a GranolaServer \<Rightarrow> PrepareOKMessage \<Rightarrow> 'a GranolaServer result" where
  "HandlePrepareOK env s msg =
     check (AmLeader s) AssertFailed
       (let (q, msgs) = AddAndCheckForQuorum (gs_prepareOKQuorum s) (viewstamp2 (go_view msg) (go_opnum msg))
                          (go_replica_num msg) msg;
            s1 = s\<lparr>gs_prepareOKQuorum := q\<rparr>
        in if msgs \<noteq> None then CommitUpTo env s1 (go_opnum msg) else Inr s1)"

definition HandleCommit :: "'a granola_env \<Rightarrow> 'a GranolaServer \<Rightarrow> CommitMessage \<Rightarrow> 'a GranolaServer result" where
  "HandleCommit env s msg =
     check (\<not> AmLeader s) AssertFailed
       (if gs_lastOp s < gc_opnum msg then Inr s
        else if gc_opnum msg \<le> gs_lastCommitted s then Inr s
        else CommitUpTo env s (gc_opnum msg))"

definition HandleVote :: "'a granola_env \<Rightarrow> 'a GranolaServer \<Rightarrow> VoteMessage \<Rightarrow> 'a GranolaServer result" where
  "HandleVote env s msg =
     check (1 < gv_nshards msg) AssertFailed
       (if \<not> AmLeader s then Inr s
        else let rid = (gv_clientid msg, gv_clientreqid msg) in
          rbind (Find_reqid s rid) (\<lambda>r. case r of
            Some (op, e) \<Rightarrow>
              if td_ts_decided (gs_txnData s op) then Inr s
              else CheckVoteQuorum env (s\<lparr>gs_voteQuorum := ms_Add (gs_voteQuorum s) rid (sint (gv_shard_num msg)) 0 msg\<rparr>) op
          | None \<Rightarrow> Inr (s\<lparr>gs_voteQuorum :=
              ms_Add (SetShardRequired (gs_voteQuorum s) rid (gv_nshards msg - 1)) rid (sint (gv_shard_num msg)) 0 msg\<rparr>)))"

definition HandleVoteRequest :: "'a GranolaServer \<Rightarrow> TransportAddress \<Rightarrow> VoteRequestMessage \<Rightarrow> 'a GranolaServer result" where
  "HandleVoteRequest s remote msg =
     (if \<not> AmLeader s then Inr s
      else rbind (Find_reqid s (vr_clientid msg, vr_clientreqid msg)) (\<lambda>r. case r of
             None \<Rightarrow> Inr s
           | Some (op, e) \<Rightarrow>
               if le_state e = LOG_STATE_COMMITTED \<or> le_state e = LOG_STATE_EXECUTED
               then Inr (send s (AddressDest remote) (OutServer (GrVote (vote_message s (le_request e) (td_status (gs_txnData s op))))))
               else Inr s))"

definition fill_final :: "'a granola_env \<Rightarrow> 'a GranolaServer \<Rightarrow> FinalTimestampMessage \<Rightarrow> 'a GranolaServer result" where
  "fill_final env s msg =
     (if gs_lastOp s < gf_opnum msg
      then rbind (fold_r (fill_entry env (gf_view msg)) s (ops_after (gs_lastOp s) (gf_opnum msg))) (\<lambda>s1.
           rbind (CommitUpTo env s1 (gf_opnum msg)) (\<lambda>s2. if gs_locking s2 then Inr s2 else ExecuteTxns env s2))
      else Inr s)"

definition HandleFinalTimestamp :: "'a granola_env \<Rightarrow> 'a GranolaServer \<Rightarrow> FinalTimestampMessage \<Rightarrow> 'a GranolaServer result" where
  "HandleFinalTimestamp env s msg =
     check (\<not> AmLeader s) AssertFailed
       (rbind (fill_final env s msg) (\<lambda>s1.
        rbind (Find (gs_log s1) (gf_opnum msg)) (\<lambda>r. case r of
          None \<Rightarrow> Inl AssertFailed
        | Some e \<Rightarrow>
            let s2 = set_txnData s1 (gf_opnum msg) ((gs_txnData s1 (gf_opnum msg))
                       \<lparr>td_final_ts := gf_timestamp msg, td_ts_decided := True, td_status := gf_status msg\<rparr>)
            in rbind (CommitUpTo env s2 (gf_opnum msg)) (\<lambda>s3.
                 if gs_locking s3 then ExecuteTxn env s3 (gf_opnum msg) else ExecuteTxns env s3))))"

fun ReceiveMessage ::
  "'a granola_env \<Rightarrow> 'a GranolaServer \<Rightarrow> TransportAddress \<Rightarrow> ToServerMessage \<Rightarrow> 'a GranolaServer result" where
  "ReceiveMessage env s remote (GrRequest m) = HandleClientRequest env s remote m"
| "ReceiveMessage env s remote (GrPrepare m) = HandlePrepare env s m"
| "ReceiveMessage env s remote (GrPrepareOK m) = HandlePrepareOK env s m"
| "ReceiveMessage env s remote (GrCommit m) = HandleCommit env s m"
| "ReceiveMessage env s remote (GrVote m) = HandleVote env s m"
| "ReceiveMessage env s remote (GrVoteRequest m) = HandleVoteRequest s remote m"
| "ReceiveMessage env s remote (GrFinalTimestamp m) = HandleFinalTimestamp env s m"
| "ReceiveMessage env s remote GrNotSet = Inl Panicked"

text \<open>Timeouts fire only while they are active; the callback of a vote timeout has the entry it was made for.\<close>

definition PrepareTimeout :: "'a GranolaServer \<Rightarrow> 'a GranolaServer result" where
  "PrepareTimeout s = (if gs_resendPrepareTimeout s then SendPrepare s else Inr s)"

definition VoteTimeout :: "'a GranolaServer \<Rightarrow> u64 \<Rightarrow> 'a GranolaServer result" where
  "VoteTimeout s op =
     (if gs_voteTimeouts s op
      then rbind (Find (gs_log s) op) (\<lambda>r. case r of
             None \<Rightarrow> Inl UndefinedBehaviour
           | Some e \<Rightarrow> Inr (SendVoteRequest s (le_request e)))
      else Inr s)"

datatype granola_event = Deliver TransportAddress ToServerMessage | ResendTimeout | VoteTimer u64

fun granola_handle :: "'a granola_env \<Rightarrow> 'a GranolaServer \<Rightarrow> granola_event \<Rightarrow> 'a GranolaServer result" where
  "granola_handle env s (Deliver remote m) = ReceiveMessage env s remote m"
| "granola_handle env s ResendTimeout = PrepareTimeout s"
| "granola_handle env s (VoteTimer op) = VoteTimeout s op"

end
