(* ===== verification/GranolaInvariant.thy ===== *)
theory GranolaInvariant
  imports GranolaServer
begin

text \<open>
  The invariant of a Granola server and the operations that keep it.  Without locks the transactions of the log
  split into those that have been executed, in log order, and those in \<open>gs_pending\<close> (\<open>in_order\<close>).  Every lemma on an operation
  says at once that it does not abort and what it keeps, over an application that meets \<open>retry_app\<close>.
\<close>

section \<open>The loop of consecutive operations\<close>

lemma ops_after_nat: "ops_after c k = map word_of_nat [Suc (unat c)..<Suc (unat k)]"
proof (cases "c < k")
  case True
  then have "unat (c + 1) = Suc (unat c)" "Suc (unat c) \<le> unat k" by (simp_all add: unat_Suc_less word_less_nat_alt Suc_le_eq)
  then show ?thesis using True by (simp add: ops_after_def op_range_def)
next
  case False
  then have "unat k \<le> unat c" by (simp add: word_less_nat_alt)
  then show ?thesis using False by (simp add: ops_after_def)
qed

lemma set_ops_after: "set (ops_after c k) = {i. c < i \<and> i \<le> k}"
proof (intro set_eqI iffI)
  fix i
  assume "i \<in> set (ops_after c k)"
  then obtain n where "n \<in> set [Suc (unat c)..<Suc (unat k)]" "i = word_of_nat n" unfolding ops_after_nat by (auto simp del: upt_Suc)
  then have n: "unat c < n" "n \<le> unat k" "i = word_of_nat n" by (simp_all add: Suc_le_eq less_Suc_eq_le del: upt_Suc)
  then have "unat i = n" using unat_u64_bound [of k] by (simp add: unat_of_nat)
  then show "i \<in> {i. c < i \<and> i \<le> k}" using n by (simp add: word_le_nat_alt word_less_nat_alt)
next
  fix i
  assume "i \<in> {i. c < i \<and> i \<le> k}"
  then have "unat i \<in> set [Suc (unat c)..<Suc (unat k)]" by (auto simp: word_le_nat_alt word_less_nat_alt)
  moreover have "i = word_of_nat (unat i)" by simp
  ultimately show "i \<in> set (ops_after c k)" unfolding ops_after_nat by (metis image_eqI list.set_map)
qed

lemma distinct_ops_after: "distinct (ops_after c k)"
proof -
  have "inj_on (word_of_nat :: nat \<Rightarrow> u64) {..unat k}"
    using unat_u64_bound [of k] by (intro inj_on_inverseI [of _ unat]) (simp add: unat_of_nat)
  moreover have "set [Suc (unat c)..<Suc (unat k)] \<subseteq> {..unat k}" by auto
  ultimately show ?thesis unfolding ops_after_nat distinct_map by (meson distinct_upt inj_on_subset)
qed

lemma ops_after_same [simp]: "ops_after c c = []"
  by (simp add: ops_after_def)

lemma next_op:
  fixes x :: u64
  assumes "x \<noteq> - 1"
  shows "unat (x + 1) = Suc (unat x)" "x < x + 1" "x + 1 \<noteq> 0" "i \<le> x + 1 \<longleftrightarrow> i \<le> x \<or> i = x + 1"
proof -
  show u: "unat (x + 1) = Suc (unat x)" using assms unat_add_of_nat [of x 1] unfolding u64_not_max by simp
  then show "x < x + 1" "x + 1 \<noteq> 0" by (auto simp: word_less_nat_alt)
  show "i \<le> x + 1 \<longleftrightarrow> i \<le> x \<or> i = x + 1"
    using u u64_eqI [of i "x + 1"] by (auto simp: word_le_nat_alt le_Suc_eq)
qed

lemma ops_after_snoc:
  assumes "c \<le> k" and "k \<noteq> - 1"
  shows "ops_after c (k + 1) = ops_after c k @ [k + 1]"
proof -
  have lt: "c < k + 1" using assms next_op(2) by (metis le_less_trans)
  then have "op_range (c + 1) (k + 1) = ops_after c k"
    using assms(2) unfolding op_range_def ops_after_nat by (simp add: unat_Suc_less next_op(1) del: upt_Suc)
  then show ?thesis using lt by (simp add: ops_after_def)
qed

lemma ops_after_Cons:
  fixes c k :: u64
  assumes "c < k"
  shows "ops_after c k = (c + 1) # ops_after (c + 1) k"
proof -
  have "[Suc (unat c)..<Suc (unat k)] = Suc (unat c) # [Suc (unat (c + 1))..<Suc (unat k)]"
    using assms by (simp add: unat_Suc_less upt_conv_Cons word_less_nat_alt)
  then show ?thesis unfolding ops_after_nat by (simp add: unat_Suc_less [OF assms])
qed

section \<open>The invariant\<close>

definition gr_log_inv :: "'a GranolaServer \<Rightarrow> bool" where
  "gr_log_inv s \<longleftrightarrow>
     log_wf (gs_log s) \<and> start (gs_log s) = 1 \<and> \<not> useHash (gs_log s) \<and> gs_lastOp s = LastOpnum (gs_log s) \<and>
     gs_lastOp s \<noteq> - 1 \<and> gs_lastCommitted s \<le> gs_lastOp s"

lemma gr_log_invD:
  assumes "gr_log_inv s"
  shows "log_wf (gs_log s)" "start (gs_log s) = 1" "\<not> useHash (gs_log s)" "gs_lastOp s = LastOpnum (gs_log s)"
    "gs_lastOp s \<noteq> - 1" "gs_lastCommitted s \<le> gs_lastOp s"
  using assms unfolding gr_log_inv_def by blast+

text \<open>An entry without operations is a filler.  A transaction is prepared beyond the commit point and committed or executed up to it;
  one for a single shard has its timestamp.\<close>

definition entry_ok :: "u64 \<Rightarrow> u64 \<Rightarrow> LogEntry \<Rightarrow> TxnData \<Rightarrow> bool" where
  "entry_ok c op e td \<longleftrightarrow>
     (if req_ops (le_request e) = [] then le_state e = LOG_STATE_EXECUTED
      else (if op \<le> c then le_state e \<in> {LOG_STATE_COMMITTED, LOG_STATE_EXECUTED} else le_state e = LOG_STATE_PREPARED) \<and>
           (length (req_ops (le_request e)) = 1 \<longrightarrow> td_ts_decided td))"

definition votes_ok :: "(reqid, VoteMessage) MessageSet \<Rightarrow> bool" where
  "votes_ok q \<longleftrightarrow> (\<forall>rid ss k. ms_messages q rid = Some (ss, k) \<longrightarrow> (\<forall>p\<in>set ss. map_of (snd p) 0 \<noteq> None))"

text \<open>What executing a transaction depends on.\<close>

definition cell :: "'a GranolaServer \<Rightarrow> u64 \<Rightarrow> (Request \<times> u64) option" where
  "cell s op = map_option (\<lambda>e. (le_request e, td_txnid (gs_txnData s op))) (log_at (gs_log s) op)"

definition is_txn :: "'a GranolaServer \<Rightarrow> u64 \<Rightarrow> bool" where
  "is_txn s op \<longleftrightarrow> (case cell s op of None \<Rightarrow> False | Some (req, _) \<Rightarrow> req_ops req \<noteq> [])"

definition executed_at :: "'a GranolaServer \<Rightarrow> u64 \<Rightarrow> bool" where
  "executed_at s op \<longleftrightarrow> (case log_at (gs_log s) op of None \<Rightarrow> False | Some e \<Rightarrow> le_state e = LOG_STATE_EXECUTED)"

definition executable :: "'a GranolaServer \<Rightarrow> u64 \<Rightarrow> bool" where
  "executable s op \<longleftrightarrow> td_ts_decided (gs_txnData s op) \<and>
     (case log_at (gs_log s) op of None \<Rightarrow> False | Some e \<Rightarrow> le_state e = LOG_STATE_COMMITTED)"

definition run_cell :: "'a txn_app \<Rightarrow> 'a \<Rightarrow> (Request \<times> u64) option \<Rightarrow> 'a result" where
  "run_cell app a c =
     (case c of
        None \<Rightarrow> Inr a
      | Some (req, txnid) \<Rightarrow> rbind (app a (req_op req) \<lparr>ta_txnid = txnid, ta_type = TXN_INDEP\<rparr>) (\<lambda>(a', _, _). Inr a'))"

text \<open>The transactions of the log, in order, are those executed and those pending.\<close>

definition in_order :: "'a txn_app \<Rightarrow> 'a \<Rightarrow> 'a GranolaServer \<Rightarrow> u64 list \<Rightarrow> bool" where
  "in_order app a0 s ops \<longleftrightarrow>
     filter (is_txn s) (ops_after 0 (gs_lastOp s)) = ops @ map fst (gs_pending s) \<and>
     fold_r (run_cell app) a0 (map (cell s) ops) = Inr (gs_app_state s) \<and>
     (\<forall>op\<in>set ops. executed_at s op) \<and> (\<forall>p\<in>set (gs_pending s). snd p = fst p \<and> \<not> executed_at s (fst p))"

definition acc_all :: "(string \<Rightarrow> txnarg_t \<Rightarrow> bool) \<Rightarrow> Request \<Rightarrow> u64 \<Rightarrow> bool" where
  "acc_all acc req txnid \<longleftrightarrow> list_all (\<lambda>ty. acc (req_op req) \<lparr>ta_txnid = txnid, ta_type = ty\<rparr>) [TXN_INDEP, TXN_PREPARE, TXN_COMMIT, TXN_ABORT]"

definition gr_inv :: "(string \<Rightarrow> txnarg_t \<Rightarrow> bool) \<Rightarrow> 'a GranolaServer \<Rightarrow> bool" where
  "gr_inv acc s \<longleftrightarrow> gr_log_inv s \<and>
     (\<forall>op e. log_at (gs_log s) op = Some e \<longrightarrow> entry_ok (gs_lastCommitted s) op e (gs_txnData s op)) \<and>
     votes_ok (gs_voteQuorum s) \<and> (\<forall>op. gs_voteTimeouts s op \<longrightarrow> op \<noteq> 0 \<and> op \<le> gs_lastCommitted s) \<and>
     (gs_resendPrepareTimeout s \<longrightarrow> gs_lastOp s \<noteq> 0) \<and> (AmLeader s \<longrightarrow> gs_localClock s = gs_lastOp s) \<and>
     (\<forall>op req txnid. cell s op = Some (req, txnid) \<longrightarrow> req_ops req \<noteq> [] \<longrightarrow> acc_all acc req txnid)"

definition gr_safe :: "'a txn_app \<Rightarrow> ('a \<Rightarrow> bool) \<Rightarrow> (string \<Rightarrow> txnarg_t \<Rightarrow> bool) \<Rightarrow> 'a \<Rightarrow> 'a GranolaServer \<Rightarrow> bool" where
  "gr_safe app app_ok acc a0 s \<longleftrightarrow> gr_inv acc s \<and> app_ok (gs_app_state s) \<and> (\<not> gs_locking s \<longrightarrow> (\<exists>ops. in_order app a0 s ops))"

text \<open>The first pending transaction has to wait.\<close>

definition settled :: "'a GranolaServer \<Rightarrow> bool" where
  "settled s \<longleftrightarrow> gs_locking s \<or> (case gs_pending s of [] \<Rightarrow> True | p # _ \<Rightarrow> \<not> executable s (fst p))"

text \<open>What only the arrival of transactions changes.\<close>

definition same :: "'a GranolaServer \<Rightarrow> 'a GranolaServer \<Rightarrow> bool" where
  "same s s' \<longleftrightarrow> cell s' = cell s \<and> gs_configuration s' = gs_configuration s \<and> gs_groupIdx s' = gs_groupIdx s \<and>
     gs_replicaIdx s' = gs_replicaIdx s \<and> gs_view s' = gs_view s \<and> gs_lastOp s' = gs_lastOp s \<and> gs_locking s' = gs_locking s \<and>
     gs_localClock s' = gs_localClock s"

lemma same_refl [simp]: "same s s"
  by (simp add: same_def)

lemma same_trans: "\<lbrakk> same s t; same t u \<rbrakk> \<Longrightarrow> same s u"
  by (simp add: same_def)

lemma sameD:
  assumes "same s s'"
  shows "cell s' = cell s" "is_txn s' = is_txn s" "gs_lastOp s' = gs_lastOp s" "gs_locking s' = gs_locking s"
    "AmLeader s' = AmLeader s" "gs_localClock s' = gs_localClock s"
  using assms by (simp_all add: same_def AmLeader_def is_txn_def fun_eq_iff)

section \<open>Bookkeeping\<close>

lemma reply_to_frame [simp]:
  "gs_configuration (reply_to s e m) = gs_configuration s" "gs_groupIdx (reply_to s e m) = gs_groupIdx s"
  "gs_replicaIdx (reply_to s e m) = gs_replicaIdx s" "gs_log (reply_to s e m) = gs_log s" "gs_txnData (reply_to s e m) = gs_txnData s"
  "gs_view (reply_to s e m) = gs_view s" "gs_lastOp (reply_to s e m) = gs_lastOp s" "gs_lastCommitted (reply_to s e m) = gs_lastCommitted s"
  "gs_locking (reply_to s e m) = gs_locking s" "gs_clientAddresses (reply_to s e m) = gs_clientAddresses s"
  "gs_clientTable (reply_to s e m) = gs_clientTable s" "gs_localClock (reply_to s e m) = gs_localClock s"
  "gs_pending (reply_to s e m) = gs_pending s" "gs_voteQuorum (reply_to s e m) = gs_voteQuorum s"
  "gs_resendPrepareTimeout (reply_to s e m) = gs_resendPrepareTimeout s" "gs_voteTimeouts (reply_to s e m) = gs_voteTimeouts s"
  "gs_app_state (reply_to s e m) = gs_app_state s"
  by (simp_all add: reply_to_def send_def split: option.splits)

lemma put_client_frame [simp]:
  "gs_configuration (put_client s c x) = gs_configuration s" "gs_groupIdx (put_client s c x) = gs_groupIdx s"
  "gs_replicaIdx (put_client s c x) = gs_replicaIdx s" "gs_log (put_client s c x) = gs_log s" "gs_txnData (put_client s c x) = gs_txnData s"
  "gs_view (put_client s c x) = gs_view s" "gs_lastOp (put_client s c x) = gs_lastOp s" "gs_lastCommitted (put_client s c x) = gs_lastCommitted s"
  "gs_locking (put_client s c x) = gs_locking s" "gs_clientAddresses (put_client s c x) = gs_clientAddresses s"
  "gs_localClock (put_client s c x) = gs_localClock s"
  "gs_pending (put_client s c x) = gs_pending s" "gs_voteQuorum (put_client s c x) = gs_voteQuorum s"
  "gs_resendPrepareTimeout (put_client s c x) = gs_resendPrepareTimeout s" "gs_voteTimeouts (put_client s c x) = gs_voteTimeouts s"
  "gs_app_state (put_client s c x) = gs_app_state s"
  by (simp_all add: put_client_def)

lemma gr_send_frame [simp]:
  "gs_configuration (send s d m) = gs_configuration s" "gs_groupIdx (send s d m) = gs_groupIdx s"
  "gs_replicaIdx (send s d m) = gs_replicaIdx s" "gs_log (send s d m) = gs_log s" "gs_txnData (send s d m) = gs_txnData s"
  "gs_view (send s d m) = gs_view s" "gs_lastOp (send s d m) = gs_lastOp s" "gs_lastCommitted (send s d m) = gs_lastCommitted s"
  "gs_locking (send s d m) = gs_locking s" "gs_clientAddresses (send s d m) = gs_clientAddresses s"
  "gs_clientTable (send s d m) = gs_clientTable s" "gs_localClock (send s d m) = gs_localClock s"
  "gs_pending (send s d m) = gs_pending s" "gs_voteQuorum (send s d m) = gs_voteQuorum s"
  "gs_resendPrepareTimeout (send s d m) = gs_resendPrepareTimeout s" "gs_voteTimeouts (send s d m) = gs_voteTimeouts s"
  "gs_app_state (send s d m) = gs_app_state s"
  by (simp_all add: send_def)

text \<open>States that differ only in what nothing here depends on.\<close>

definition core_eq :: "'a GranolaServer \<Rightarrow> 'a GranolaServer \<Rightarrow> bool" where
  "core_eq s s' \<longleftrightarrow> same s s' \<and> gs_log s' = gs_log s \<and> gs_txnData s' = gs_txnData s \<and> gs_lastCommitted s' = gs_lastCommitted s \<and>
     gs_pending s' = gs_pending s \<and> gs_voteQuorum s' = gs_voteQuorum s \<and> gs_resendPrepareTimeout s' = gs_resendPrepareTimeout s \<and>
     gs_voteTimeouts s' = gs_voteTimeouts s \<and> gs_app_state s' = gs_app_state s"

lemma core_eqI [simp]:
  "core_eq s s" "core_eq s (send t d m) = core_eq s t" "core_eq s (put_client t c x) = core_eq s t"
  "core_eq s (reply_to t e r) = core_eq s t" "core_eq s (save_address t remote c) = core_eq s t"
  "core_eq s (t\<lparr>gs_prepareOKQuorum := q\<rparr>) = core_eq s t"
  by (simp_all add: core_eq_def same_def cell_def fun_eq_iff save_address_def)

lemma core_eq_finish [simp]: "core_eq s (finish_reply t e st) = core_eq s t"
  by (simp add: finish_reply_def Let_def)

lemma core_eqD:
  assumes "core_eq s s'"
  shows "gr_inv acc s' = gr_inv acc s" "in_order app a0 s' ops = in_order app a0 s ops" "settled s' = settled s" "same s s'"
    "gr_safe app app_ok acc a0 s' = gr_safe app app_ok acc a0 s" "executable s' = executable s"
proof -
  have eq: "same s s'" "gs_log s' = gs_log s" "gs_txnData s' = gs_txnData s" "gs_lastCommitted s' = gs_lastCommitted s"
    "gs_pending s' = gs_pending s" "gs_voteQuorum s' = gs_voteQuorum s" "gs_resendPrepareTimeout s' = gs_resendPrepareTimeout s"
    "gs_voteTimeouts s' = gs_voteTimeouts s" "gs_app_state s' = gs_app_state s"
    using assms unfolding core_eq_def by blast+
  note S = sameD [OF eq(1)]
  show "same s s'" by (rule eq(1))
  show 1: "gr_inv acc s' = gr_inv acc s" unfolding gr_inv_def gr_log_inv_def S eq by (rule refl)
  show 2: "in_order app a0 s' ops = in_order app a0 s ops" for ops unfolding in_order_def executed_at_def S eq by (rule refl)
  show 3: "executable s' = executable s" unfolding executable_def eq by (rule refl)
  show "settled s' = settled s" unfolding settled_def 3 S eq by (rule refl)
  show "gr_safe app app_ok acc a0 s' = gr_safe app app_ok acc a0 s" unfolding gr_safe_def 1 2 S eq by (rule refl)
qed

lemma set_state_ok:
  assumes inv: "gr_log_inv s" and e: "log_at (gs_log s) op = Some e"
  shows "\<exists>l. set_state s op st = Inr (s\<lparr>gs_log := l\<rparr>) \<and> gr_log_inv (s\<lparr>gs_log := l\<rparr>) \<and>
     (\<forall>i. log_at l i = (if i = op then Some (e\<lparr>le_state := st\<rparr>) else log_at (gs_log s) i))"
proof -
  note I = gr_log_invD [OF inv]
  obtain l b where l: "SetStatus (gs_log s) op st = Inr (l, b)" using e by (simp add: SetStatus_eq [OF I(1)])
  note L = SetStatus_wf [OF I(1) l]
  have "gr_log_inv (s\<lparr>gs_log := l\<rparr>)" using I L by (simp add: gr_log_inv_def)
  then show ?thesis using l L e by (intro exI [of _ l]) (simp add: set_state_def)
qed

lemma cell_log:
  assumes "\<And>i. log_at l i = (if i = op then Some (e\<lparr>le_state := st\<rparr>) else log_at (gs_log s) i)" and "log_at (gs_log s) op = Some e"
  shows "cell (s\<lparr>gs_log := l\<rparr>) = cell s"
  using assms by (simp add: cell_def fun_eq_iff)

lemma gr_inv_entry:
  assumes "gr_inv acc s" and "log_at (gs_log s) op = Some e"
  shows "entry_ok (gs_lastCommitted s) op e (gs_txnData s op)"
  using assms by (simp add: gr_inv_def)

lemma gr_inv_acc:
  assumes "gr_inv acc s" and "log_at (gs_log s) op = Some e" and "req_ops (le_request e) \<noteq> []"
    and "ty \<in> {TXN_INDEP, TXN_PREPARE, TXN_COMMIT, TXN_ABORT}"
  shows "acc (req_op (le_request e)) \<lparr>ta_txnid = td_txnid (gs_txnData s op), ta_type = ty\<rparr>"
proof -
  have "cell s op = Some (le_request e, td_txnid (gs_txnData s op))" using assms(2) by (simp add: cell_def)
  then have "acc_all acc (le_request e) (td_txnid (gs_txnData s op))" using assms(1,3) unfolding gr_inv_def by blast
  then show ?thesis using assms(4) by (auto simp: acc_all_def)
qed

text \<open>Marking a committed transaction as executed.\<close>

lemma mark_executed:
  assumes inv: "gr_inv acc s" and e: "log_at (gs_log s) op = Some e" "le_state e = LOG_STATE_COMMITTED"
    and l: "gr_log_inv (s\<lparr>gs_log := l\<rparr>)" "\<And>i. log_at l i = (if i = op then Some (e\<lparr>le_state := LOG_STATE_EXECUTED\<rparr>) else log_at (gs_log s) i)"
  shows "gr_inv acc (s\<lparr>gs_log := l\<rparr>)"
proof -
  have "entry_ok (gs_lastCommitted s) op e (gs_txnData s op)" using gr_inv_entry [OF inv e(1)] .
  then have "entry_ok (gs_lastCommitted s) i x (gs_txnData s i)" if "log_at l i = Some x" for i x
    using that e(2) gr_inv_entry [OF inv, of i x] by (cases "i = op") (auto simp: l(2) entry_ok_def split: if_splits)
  then show ?thesis using inv l(1) cell_log [OF l(2) e(1)] by (simp add: gr_inv_def AmLeader_def)
qed

lemma gr_inv_app: "gr_inv acc (s\<lparr>gs_app_state := a\<rparr>) = gr_inv acc s"
  by (simp add: gr_inv_def gr_log_inv_def cell_def AmLeader_def)

text \<open>Updating the data of a transaction.\<close>

lemma set_txnData_frame [simp]:
  "gs_log (set_txnData s op td) = gs_log s" "gs_txnData (set_txnData s op td) = (gs_txnData s)(op := td)"
  "gs_lastCommitted (set_txnData s op td) = gs_lastCommitted s" "gs_pending (set_txnData s op td) = gs_pending s"
  "gs_locking (set_txnData s op td) = gs_locking s" "gs_app_state (set_txnData s op td) = gs_app_state s"
  "gs_voteQuorum (set_txnData s op td) = gs_voteQuorum s" "gs_clientTable (set_txnData s op td) = gs_clientTable s"
  "gs_lastOp (set_txnData s op td) = gs_lastOp s" "gs_voteTimeouts (set_txnData s op td) = gs_voteTimeouts s"
  by (simp_all add: set_txnData_def)

lemma set_txnData_safe:
  assumes "gr_safe app app_ok acc a0 s" and "td_txnid td = td_txnid (gs_txnData s op)"
    and "td_ts_decided (gs_txnData s op) \<longrightarrow> td_ts_decided td"
  shows "gr_safe app app_ok acc a0 (set_txnData s op td) \<and> same s (set_txnData s op td)"
proof -
  let ?t = "set_txnData s op td"
  have C: "cell ?t = cell s" using assms(2) by (simp add: cell_def fun_eq_iff)
  then have S: "same s ?t" by (simp add: same_def set_txnData_def)
  have inv: "gr_inv acc s" using assms(1) by (simp add: gr_safe_def)
  have "entry_ok (gs_lastCommitted s) i e (gs_txnData ?t i)" if "log_at (gs_log s) i = Some e" for i e
    using gr_inv_entry [OF inv that] assms(3) by (auto simp: entry_ok_def)
  moreover have "gr_log_inv ?t = gr_log_inv s" "AmLeader ?t = AmLeader s" "gs_localClock ?t = gs_localClock s"
    "gs_resendPrepareTimeout ?t = gs_resendPrepareTimeout s"
    by (simp_all add: gr_log_inv_def AmLeader_def set_txnData_def)
  ultimately have "gr_inv acc ?t"
    using inv C by (simp add: gr_inv_def)
  moreover have "in_order app a0 ?t ops = in_order app a0 s ops" for ops
    unfolding in_order_def executed_at_def sameD [OF S] by simp
  ultimately show ?thesis using assms(1) S by (simp add: gr_safe_def)
qed

lemma in_order_cong:
  assumes "same s t" and "gs_log t = gs_log s" and "gs_pending t = gs_pending s" and "gs_app_state t = gs_app_state s"
  shows "in_order app a0 t = in_order app a0 s"
  unfolding in_order_def [abs_def] executed_at_def sameD [OF assms(1)] assms(2-) by (rule refl)

lemma vote_updates:
  "gr_log_inv (s\<lparr>gs_voteQuorum := q\<rparr>) = gr_log_inv s" "gr_log_inv (s\<lparr>gs_voteTimeouts := v\<rparr>) = gr_log_inv s"
  "gr_log_inv (s\<lparr>gs_resendPrepareTimeout := b\<rparr>) = gr_log_inv s"
  "AmLeader (s\<lparr>gs_voteQuorum := q\<rparr>) = AmLeader s" "AmLeader (s\<lparr>gs_voteTimeouts := v\<rparr>) = AmLeader s"
  "AmLeader (s\<lparr>gs_resendPrepareTimeout := b\<rparr>) = AmLeader s"
  "cell (s\<lparr>gs_voteQuorum := q\<rparr>) = cell s" "cell (s\<lparr>gs_voteTimeouts := v\<rparr>) = cell s" "cell (s\<lparr>gs_resendPrepareTimeout := b\<rparr>) = cell s"
  "executable (s\<lparr>gs_voteQuorum := q\<rparr>) = executable s" "executable (s\<lparr>gs_voteTimeouts := v\<rparr>) = executable s"
  "executable (s\<lparr>gs_resendPrepareTimeout := b\<rparr>) = executable s" "executable (send s d m) = executable s"
  by (simp_all add: gr_log_inv_def AmLeader_def fun_eq_iff cell_def executable_def)

lemma in_order_votes:
  "in_order app a0 (s\<lparr>gs_voteQuorum := q\<rparr>) = in_order app a0 s"
  "in_order app a0 (s\<lparr>gs_voteTimeouts := v\<rparr>) = in_order app a0 s"
  "in_order app a0 (s\<lparr>gs_resendPrepareTimeout := b\<rparr>) = in_order app a0 s"
  by (rule in_order_cong; simp add: same_def vote_updates)+

lemma gr_safe_votes:
  "\<lbrakk> gr_safe app app_ok acc a0 s; votes_ok q \<rbrakk> \<Longrightarrow> gr_safe app app_ok acc a0 (s\<lparr>gs_voteQuorum := q\<rparr>)"
  "\<lbrakk> gr_safe app app_ok acc a0 s; \<And>op. v op \<Longrightarrow> op \<noteq> 0 \<and> op \<le> gs_lastCommitted s \<rbrakk> \<Longrightarrow> gr_safe app app_ok acc a0 (s\<lparr>gs_voteTimeouts := v\<rparr>)"
  "\<lbrakk> gr_safe app app_ok acc a0 s; b \<longrightarrow> gs_lastOp s \<noteq> 0 \<rbrakk> \<Longrightarrow> gr_safe app app_ok acc a0 (s\<lparr>gs_resendPrepareTimeout := b\<rparr>)"
  unfolding gr_safe_def gr_inv_def by (simp_all add: vote_updates in_order_votes)

lemma same_votes [simp]:
  "same s (t\<lparr>gs_voteQuorum := q\<rparr>) = same s t" "same s (t\<lparr>gs_voteTimeouts := v\<rparr>) = same s t"
  "same s (t\<lparr>gs_resendPrepareTimeout := b\<rparr>) = same s t" "same s (send t d m) = same s t"
  by (simp_all add: same_def cell_def fun_eq_iff)

lemma gr_safe_send [simp]: "gr_safe app app_ok acc a0 (send s d m) = gr_safe app app_ok acc a0 s"
  by (rule core_eqD(5)) simp

lemma settled_votes [simp]:
  "settled (s\<lparr>gs_voteQuorum := q\<rparr>) = settled s" "settled (s\<lparr>gs_voteTimeouts := v\<rparr>) = settled s"
  "settled (s\<lparr>gs_resendPrepareTimeout := b\<rparr>) = settled s" "settled (send s d m) = settled s"
  by (simp_all add: settled_def vote_updates split: list.splits)

lemma decide_total:
  "\<forall>p\<in>set msgs. map_of (snd p) 0 \<noteq> None \<Longrightarrow> \<exists>st'. decide st msgs = Inr st'"
  by (induction st msgs rule: decide.induct) (auto split: option.splits)

lemma votes_ok_Remove: "votes_ok q \<Longrightarrow> votes_ok (ms_Remove q rid)"
  by (simp add: votes_ok_def ms_Remove_def)

lemma votes_okD: "\<lbrakk> votes_ok q; ms_messages q rid = Some (ss, k); p \<in> set ss \<rbrakk> \<Longrightarrow> map_of (snd p) 0 \<noteq> None"
  unfolding votes_ok_def by blast

lemma votes_okI: "(\<And>rid ss k p. \<lbrakk> ms_messages q rid = Some (ss, k); p \<in> set ss \<rbrakk> \<Longrightarrow> map_of (snd p) 0 \<noteq> None) \<Longrightarrow> votes_ok q"
  unfolding votes_ok_def by blast

lemma votes_ok_quorum:
  assumes "votes_ok q" and "ms_CheckForQuorum q rid = Some msgs"
  shows "\<forall>p\<in>set msgs. map_of (snd p) 0 \<noteq> None"
proof -
  obtain k where "ms_messages q rid = Some (msgs, k)"
    using assms(2) by (auto simp: ms_CheckForQuorum_def split: option.splits if_splits)
  then show ?thesis using votes_okD [OF assms(1)] by blast
qed

lemma votes_ok_SetShardRequired:
  assumes "votes_ok q"
  shows "votes_ok (SetShardRequired q rid n)"
proof (rule votes_okI)
  fix rid' ss k p
  assume "ms_messages (SetShardRequired q rid n) rid' = Some (ss, k)" and p: "p \<in> set ss"
  then have "ss = [] \<or> (\<exists>k. ms_messages q rid' = Some (ss, k))"
    by (auto simp: SetShardRequired_def Let_def split: option.splits if_splits)
  then show "map_of (snd p) 0 \<noteq> None" using p votes_okD [OF assms] by fastforce
qed

lemma votes_ok_Add:
  assumes "votes_ok q"
  shows "votes_ok (ms_Add q rid sh 0 m)"
proof (cases "ms_messages q rid")
  case None
  then show ?thesis using assms by (simp add: ms_Add_def ms_AddAndCheckForQuorum_def)
next
  case (Some p)
  obtain ss k where p: "p = (ss, k)" by (cases p)
  define new where "new = smap_put sh (smap_put 0 m (case map_of ss sh of None \<Rightarrow> [] | Some x \<Rightarrow> x)) ss"
  have new: "map_of (snd x) 0 \<noteq> None" if "x \<in> set new" for x
  proof -
    have "x = (sh, smap_put 0 m (case map_of ss sh of None \<Rightarrow> [] | Some x \<Rightarrow> x)) \<or> x \<in> set ss"
      using that set_smap_put_subset unfolding new_def by fast
    then show ?thesis using votes_okD [OF assms, of rid ss k x] Some p by auto
  qed
  have upd: "ms_messages (ms_Add q rid sh 0 m) = (ms_messages q)(rid \<mapsto> (new, k))"
    using Some p by (simp add: ms_Add_def ms_AddAndCheckForQuorum_def Let_def new_def)
  show ?thesis
  proof (rule votes_okI)
    fix rid' ss' k' x
    assume "ms_messages (ms_Add q rid sh 0 m) rid' = Some (ss', k')" and x: "x \<in> set ss'"
    then have "ss' = new \<or> ms_messages q rid' = Some (ss', k')" by (auto simp: upd split: if_splits)
    then show "map_of (snd x) 0 \<noteq> None" using x new votes_okD [OF assms] by blast
  qed
qed

definition settled_but :: "u64 \<Rightarrow> 'a GranolaServer \<Rightarrow> bool" where
  "settled_but op s \<longleftrightarrow> gs_locking s \<or> (case gs_pending s of [] \<Rightarrow> True | p # _ \<Rightarrow> fst p = op \<or> \<not> executable s (fst p))"

lemma settled_imp_but: "settled s \<Longrightarrow> settled_but op s"
  by (auto simp: settled_def settled_but_def split: list.splits)

lemma settled_but_imp: "\<lbrakk> settled_but op s; \<not> executable s op \<rbrakk> \<Longrightarrow> settled s"
  by (auto simp: settled_def settled_but_def split: list.splits)

context retry_app begin

abbreviation "safe \<equiv> gr_safe app app_ok accepts_txn"

lemma execute_indep_ok:
  assumes safe: "safe a0 s" and mode: "\<not> gs_locking s" and env: "ge_app env = app" and pend: "gs_pending s = (op, ts) # rest"
    and ex: "executable s op"
  shows "\<exists>e s'. log_at (gs_log s) op = Some e \<and> le_state e = LOG_STATE_COMMITTED \<and> execute_indep env s op e = Inr s' \<and>
     safe a0 (s'\<lparr>gs_pending := rest\<rparr>) \<and> same s s' \<and> gs_lastCommitted s' = gs_lastCommitted s"
proof -
  obtain ops where inv: "gr_inv accepts_txn s" and ok: "app_ok (gs_app_state s)" and ord: "in_order app a0 s ops"
    using safe mode by (auto simp: gr_safe_def)
  obtain e where e: "log_at (gs_log s) op = Some e" "le_state e = LOG_STATE_COMMITTED"
    using ex by (auto simp: executable_def split: option.splits)
  have "op \<in> set (filter (is_txn s) (ops_after 0 (gs_lastOp s)))" using ord pend by (simp add: in_order_def)
  then have "req_ops (le_request e) \<noteq> []" using e by (simp add: is_txn_def cell_def)
  then have acc: "accepts_txn (req_op (le_request e)) \<lparr>ta_txnid = td_txnid (gs_txnData s op), ta_type = TXN_INDEP\<rparr>"
    using gr_inv_acc [OF inv e(1)] by simp
  obtain a res ret where a: "app (gs_app_state s) (req_op (le_request e)) \<lparr>ta_txnid = td_txnid (gs_txnData s op), ta_type = TXN_INDEP\<rparr> = Inr (a, res, ret)"
    "app_ok a" using app_total [OF ok acc] by blast
  let ?t = "s\<lparr>gs_app_state := a\<rparr>"
  have invt: "gr_inv accepts_txn ?t" using inv by (simp add: gr_inv_app)
  have "gr_log_inv ?t" "log_at (gs_log ?t) op = Some e" using invt e by (simp_all add: gr_inv_def)
  then obtain l where l: "set_state ?t op LOG_STATE_EXECUTED = Inr (?t\<lparr>gs_log := l\<rparr>)" "gr_log_inv (?t\<lparr>gs_log := l\<rparr>)"
    "\<And>i. log_at l i = (if i = op then Some (e\<lparr>le_state := LOG_STATE_EXECUTED\<rparr>) else log_at (gs_log ?t) i)"
    using set_state_ok [of ?t op e LOG_STATE_EXECUTED] by blast
  let ?u = "?t\<lparr>gs_log := l\<rparr>"
  have U: "gr_inv accepts_txn ?u" using mark_executed [OF invt _ e(2) l(2,3)] e(1) by simp
  have C: "cell ?u = cell s" using cell_log [OF l(3)] e(1) by (simp add: cell_def fun_eq_iff)
  then have S: "same s ?u" by (simp add: same_def)
  have "execute_indep env s op e = Inr s' \<longrightarrow> core_eq ?u s'" for s'
    using a env l(1) by (auto simp: execute_indep_def call_app_def Execute_txn_def TxnServer_ReplicaUpcall_def Let_def)
  moreover obtain s' where s': "execute_indep env s op e = Inr s'"
    using a env l(1) by (auto simp: execute_indep_def call_app_def Execute_txn_def TxnServer_ReplicaUpcall_def Let_def)
  ultimately have core: "core_eq ?u s'" by simp
  have ord': "in_order app a0 (?u\<lparr>gs_pending := rest\<rparr>) (ops @ [op])"
  proof -
    let ?v = "?u\<lparr>gs_pending := rest\<rparr>"
    have V: "cell ?v = cell s" "is_txn ?v = is_txn s" using C by (simp_all add: cell_def is_txn_def fun_eq_iff)
    have X: "executed_at ?v i \<longleftrightarrow> i = op \<or> executed_at s i" for i using l(3) by (simp add: executed_at_def)
    have "distinct (ops @ map fst (gs_pending s))" using ord unfolding in_order_def
      by (metis distinct_filter distinct_ops_after)
    then have "op \<notin> fst ` set rest" by (simp add: pend)
    then show ?thesis using ord pend a(1) e(1) unfolding in_order_def X V
      by (auto simp: run_cell_def cell_def)
  qed
  have core': "core_eq (?u\<lparr>gs_pending := rest\<rparr>) (s'\<lparr>gs_pending := rest\<rparr>)"
    using core by (auto simp: core_eq_def same_def cell_def fun_eq_iff)
  have "safe a0 (?u\<lparr>gs_pending := rest\<rparr>)"
    using U ord' a(2) by (auto simp: gr_safe_def gr_inv_def gr_log_inv_def cell_def AmLeader_def)
  then have "safe a0 (s'\<lparr>gs_pending := rest\<rparr>)" unfolding core_eqD(5) [OF core'] .
  moreover have "same s s'" using S core same_trans by (auto simp: core_eq_def)
  moreover have "gs_lastCommitted s' = gs_lastCommitted s" using core by (simp add: core_eq_def)
  ultimately show ?thesis using e s' by blast
qed

lemma ExecuteTxns_ok:
  assumes "safe a0 s" and "\<not> gs_locking s" and "ge_app env = app"
  shows "\<exists>s'. ExecuteTxns env s = Inr s' \<and> safe a0 s' \<and> same s s' \<and> gs_lastCommitted s' = gs_lastCommitted s \<and> settled s'"
proof -
  have "\<exists>s'. execute_pending env s ps = Inr s' \<and> safe a0 s' \<and> same s s' \<and> gs_lastCommitted s' = gs_lastCommitted s \<and> settled s'"
    if "safe a0 s" "\<not> gs_locking s" "gs_pending s = ps" for s ps
    using that
  proof (induction ps arbitrary: s)
    case Nil
    then show ?case by (simp add: settled_def)
  next
    case (Cons p rest)
    obtain op ts where p: "p = (op, ts)" by (cases p)
    obtain ops where inv: "gr_inv accepts_txn s" and ord: "in_order app a0 s ops" using Cons.prems by (auto simp: gr_safe_def)
    have wf: "log_wf (gs_log s)" using inv by (simp add: gr_inv_def gr_log_inv_def)
    have "op \<in> set (filter (is_txn s) (ops_after 0 (gs_lastOp s)))" using ord Cons.prems(3) p by (simp add: in_order_def)
    then obtain e where e: "log_at (gs_log s) op = Some e" by (auto simp: is_txn_def cell_def split: option.splits)
    show ?case
    proof (cases "executable s op")
      case True
      from execute_indep_ok [OF Cons.prems(1,2) assms(3) _ True] Cons.prems(3) p e obtain t
        where t: "le_state e = LOG_STATE_COMMITTED" "execute_indep env s op e = Inr t" "safe a0 (t\<lparr>gs_pending := rest\<rparr>)" "same s t"
          "gs_lastCommitted t = gs_lastCommitted s" by auto
      have S: "same s (t\<lparr>gs_pending := rest\<rparr>)" using t(4) by (simp add: same_def cell_def fun_eq_iff)
      then have "\<not> gs_locking (t\<lparr>gs_pending := rest\<rparr>)" using sameD(4) Cons.prems(2) by blast
      from Cons.IH [OF t(3) this] obtain s' where
        s': "execute_pending env (t\<lparr>gs_pending := rest\<rparr>) rest = Inr s'" "safe a0 s'" "same (t\<lparr>gs_pending := rest\<rparr>) s'"
        "gs_lastCommitted s' = gs_lastCommitted (t\<lparr>gs_pending := rest\<rparr>)" "settled s'" by auto
      then show ?thesis
        using same_trans [OF S s'(3)] t True p e by (simp add: Find_eq [OF wf] executable_def)
    next
      case False
      then show ?thesis using Cons.prems p e by (auto simp: Find_eq [OF wf] executable_def settled_def)
    qed
  qed
  then show ?thesis using assms(1,2) by (simp add: ExecuteTxns_def)
qed

lemma ExecuteTxn_ok:
  assumes safe: "safe a0 s" and mode: "gs_locking s" and env: "ge_app env = app" and e: "log_at (gs_log s) op = Some e"
    and st: "le_state e \<noteq> LOG_STATE_EXECUTED \<longrightarrow> le_state e = LOG_STATE_COMMITTED"
  shows "\<exists>s'. ExecuteTxn env s op = Inr s' \<and> safe a0 s' \<and> same s s' \<and> gs_lastCommitted s' = gs_lastCommitted s"
proof (cases "le_state e = LOG_STATE_EXECUTED")
  case False
  have inv: "gr_inv accepts_txn s" and ok: "app_ok (gs_app_state s)" using safe by (simp_all add: gr_safe_def)
  have wf: "log_wf (gs_log s)" using inv by (simp add: gr_inv_def gr_log_inv_def)
  let ?td = "gs_txnData s op"
  have "entry_ok (gs_lastCommitted s) op e ?td" using gr_inv_entry [OF inv e] .
  then have real: "req_ops (le_request e) \<noteq> []" using False by (auto simp: entry_ok_def split: if_splits)
  have "\<exists>a. finish_txn env s e ?td = Inr (s\<lparr>gs_app_state := a\<rparr>) \<and> app_ok a"
  proof (cases "td_status ?td = CONFLICT")
    case True
    then show ?thesis using ok by (intro exI [of _ "gs_app_state s"]) (simp add: finish_txn_def)
  next
    case False
    define ty where "ty = (if td_status ?td = COMMIT then TXN_COMMIT else TXN_ABORT)"
    have acc: "accepts_txn (req_op (le_request e)) \<lparr>ta_txnid = td_txnid ?td, ta_type = ty\<rparr>"
      using gr_inv_acc [OF inv e real, of ty] by (simp add: ty_def)
    obtain a res ret where a: "app (gs_app_state s) (req_op (le_request e)) \<lparr>ta_txnid = td_txnid ?td, ta_type = ty\<rparr> = Inr (a, res, ret)" "app_ok a"
      using app_total [OF ok acc] by blast
    have "tr_commit ret \<and> \<not> tr_blocked ret" using app_finishes [OF ok acc _ a(1)] by (simp add: ty_def)
    moreover have "td_status ?td = COMMIT \<or> td_status ?td = ABORT" using False by (cases "td_status ?td") auto
    ultimately show ?thesis
      using a env by (auto simp: finish_txn_def call_app_def Execute_txn_def TxnServer_ReplicaUpcall_def ty_def)
  qed
  then obtain a where a: "finish_txn env s e ?td = Inr (s\<lparr>gs_app_state := a\<rparr>)" "app_ok a" by blast
  let ?t = "s\<lparr>gs_app_state := a\<rparr>"
  have invt: "gr_inv accepts_txn ?t" using inv by (simp add: gr_inv_app)
  have "gr_log_inv ?t" "log_at (gs_log ?t) op = Some e" using invt e by (simp_all add: gr_inv_def)
  then obtain l where l: "set_state ?t op LOG_STATE_EXECUTED = Inr (?t\<lparr>gs_log := l\<rparr>)" "gr_log_inv (?t\<lparr>gs_log := l\<rparr>)"
    "\<And>i. log_at l i = (if i = op then Some (e\<lparr>le_state := LOG_STATE_EXECUTED\<rparr>) else log_at (gs_log ?t) i)"
    using set_state_ok [of ?t op e LOG_STATE_EXECUTED] by blast
  let ?u = "?t\<lparr>gs_log := l\<rparr>"
  have U: "gr_inv accepts_txn ?u" using mark_executed [OF invt _ _ l(2,3)] e False st by simp
  have S: "same s ?u" using cell_log [OF l(3)] e by (simp add: same_def cell_def fun_eq_iff)
  have "safe a0 ?u" using U a(2) mode by (simp add: gr_safe_def)
  moreover obtain s' where s': "ExecuteTxn env s op = Inr s'" "core_eq ?u s'"
    using False st e a(1) l(1) by (auto simp: ExecuteTxn_def Find_eq [OF wf] Let_def)
  ultimately show ?thesis
    using core_eqD(5) [OF s'(2)] same_trans [OF S core_eqD(4) [OF s'(2)]] by (auto simp: core_eq_def)
next
  case True
  have "log_wf (gs_log s)" using safe by (simp add: gr_safe_def gr_inv_def gr_log_inv_def)
  then show ?thesis using True e safe by (simp add: ExecuteTxn_def Find_eq)
qed

lemma decide_txn_ok:
  assumes safe: "safe a0 s" and votes: "\<forall>p\<in>set msgs. map_of (snd p) 0 \<noteq> None"
  shows "\<exists>s'. decide_txn s op e msgs = Inr s' \<and> safe a0 s' \<and> same s s' \<and> gs_lastCommitted s' = gs_lastCommitted s \<and>
     td_ts_decided (gs_txnData s' op) \<and> gs_log s' = gs_log s \<and> gs_pending s' = gs_pending s \<and> gs_voteTimeouts s' = gs_voteTimeouts s"
proof -
  define td where "td = (gs_txnData s op)\<lparr>td_final_ts := td_proposed_ts (gs_txnData s op), td_ts_decided := True\<rparr>"
  obtain st where st: "decide (td_status td) msgs = Inr st" using decide_total [OF votes] by blast
  define td' where "td' = (if gs_locking s \<and> td_status td \<noteq> ABORT then td\<lparr>td_status := st\<rparr> else td)"
  let ?t = "set_txnData s op td'"
  have td': "td_txnid td' = td_txnid (gs_txnData s op)" "td_ts_decided td'" by (simp_all add: td'_def td_def)
  have T: "safe a0 ?t \<and> same s ?t" using set_txnData_safe [OF safe td'(1)] td'(2) by blast
  then have "votes_ok (gs_voteQuorum ?t)" by (simp add: gr_safe_def gr_inv_def)
  then have "safe a0 (?t\<lparr>gs_voteQuorum := ms_Remove (gs_voteQuorum ?t) (reqid_of (le_request e))\<rparr>)"
    using T by (intro gr_safe_votes(1) votes_ok_Remove) simp_all
  moreover have "\<exists>d m. decide_txn s op e msgs = Inr (send (?t\<lparr>gs_voteQuorum := ms_Remove (gs_voteQuorum ?t) (reqid_of (le_request e))\<rparr>) d m)"
    using st by (auto simp: decide_txn_def td_def [symmetric] Let_def td'_def repend_def) (auto simp: td_def)
  ultimately show ?thesis using T td'(2) by auto
qed

lemma CheckVoteQuorum_ok:
  assumes safe: "safe a0 s" and env: "ge_app env = app" and e: "log_at (gs_log s) op = Some e"
    and st: "le_state e = LOG_STATE_PREPARED \<longrightarrow> \<not> td_ts_decided (gs_txnData s op)"
  shows "\<exists>s'. CheckVoteQuorum env s op = Inr s' \<and> safe a0 s' \<and> same s s' \<and> gs_lastCommitted s' = gs_lastCommitted s \<and>
     (settled_but op s \<longrightarrow> settled s')"
proof (cases "le_state e = LOG_STATE_EXECUTED")
  case True
  have "log_wf (gs_log s)" using safe by (simp add: gr_safe_def gr_inv_def gr_log_inv_def)
  moreover have "\<not> executable s op" using True e by (simp add: executable_def)
  ultimately show ?thesis using True e safe settled_but_imp by (auto simp: CheckVoteQuorum_def Find_eq)
next
  case False
  have inv: "gr_inv accepts_txn s" using safe by (simp add: gr_safe_def)
  have wf: "log_wf (gs_log s)" using inv by (simp add: gr_inv_def gr_log_inv_def)
  have ok: "entry_ok (gs_lastCommitted s) op e (gs_txnData s op)" using gr_inv_entry [OF inv e] .
  define r where "r = (if td_ts_decided (gs_txnData s op) then Inr s else check_votes s op e)"
  have "\<exists>t. r = Inr t \<and> safe a0 t \<and> same s t \<and> gs_lastCommitted t = gs_lastCommitted s \<and> gs_log t = gs_log s \<and>
     gs_pending t = gs_pending s \<and> gs_voteTimeouts t = gs_voteTimeouts s \<and>
     (td_ts_decided (gs_txnData t op) \<longrightarrow> le_state e = LOG_STATE_COMMITTED) \<and> (\<not> td_ts_decided (gs_txnData t op) \<longrightarrow> t = s)"
  proof (cases "td_ts_decided (gs_txnData s op)")
    case True
    then have "le_state e = LOG_STATE_COMMITTED" using ok False st by (auto simp: entry_ok_def split: if_splits)
    then show ?thesis using True safe by (simp add: r_def)
  next
    case undecided: False
    then have multi: "length (req_ops (le_request e)) > 1"
      using ok False by (cases "req_ops (le_request e)") (auto simp: entry_ok_def split: if_splits)
    show ?thesis
    proof (cases "\<exists>msgs. ms_CheckForQuorum (gs_voteQuorum s) (reqid_of (le_request e)) = Some msgs \<and>
        leads_view s (vs_view (le_viewstamp e)) \<and> le_state e = LOG_STATE_COMMITTED")
      case True
      then obtain msgs where m: "ms_CheckForQuorum (gs_voteQuorum s) (reqid_of (le_request e)) = Some msgs"
        "leads_view s (vs_view (le_viewstamp e))" "le_state e = LOG_STATE_COMMITTED" by blast
      have "\<forall>p\<in>set msgs. map_of (snd p) 0 \<noteq> None" using votes_ok_quorum [OF _ m(1)] inv by (simp add: gr_inv_def)
      from decide_txn_ok [OF safe this, of op e] show ?thesis using m multi undecided by (auto simp: r_def check_votes_def)
    next
      case False
      then have "r = Inr s" using multi undecided by (auto simp: r_def check_votes_def split: option.splits)
      then show ?thesis using safe undecided by simp
    qed
  qed
  then obtain t where t: "r = Inr t" "safe a0 t" "same s t" "gs_lastCommitted t = gs_lastCommitted s" "gs_log t = gs_log s"
    "gs_pending t = gs_pending s" "gs_voteTimeouts t = gs_voteTimeouts s"
    "td_ts_decided (gs_txnData t op) \<longrightarrow> le_state e = LOG_STATE_COMMITTED" "\<not> td_ts_decided (gs_txnData t op) \<longrightarrow> t = s" by blast
  have run: "CheckVoteQuorum env s op = (if td_ts_decided (gs_txnData t op)
      then let u = t\<lparr>gs_voteTimeouts := (gs_voteTimeouts t)(op := False)\<rparr> in if gs_locking u then ExecuteTxn env u op else ExecuteTxns env u
      else Inr t)"
    using t(1) False e unfolding r_def by (simp add: CheckVoteQuorum_def Find_eq [OF wf])
  show ?thesis
  proof (cases "td_ts_decided (gs_txnData t op)")
    case True
    let ?u = "t\<lparr>gs_voteTimeouts := (gs_voteTimeouts t)(op := False)\<rparr>"
    have "\<forall>i. gs_voteTimeouts t i \<longrightarrow> i \<noteq> 0 \<and> i \<le> gs_lastCommitted t" using t(2) by (simp add: gr_safe_def gr_inv_def)
    then have "safe a0 ?u" by (intro gr_safe_votes(2) [OF t(2)]) (simp split: if_splits)
    then have u: "safe a0 ?u" "same s ?u" using t(3) by simp_all
    show ?thesis
    proof (cases "gs_locking ?u")
      case True
      from ExecuteTxn_ok [OF u(1) this env, of op e] obtain s' where
        "ExecuteTxn env ?u op = Inr s'" "safe a0 s'" "same ?u s'" "gs_lastCommitted s' = gs_lastCommitted ?u"
        using e t(5,8) \<open>td_ts_decided (gs_txnData t op)\<close> by auto
      moreover then have "settled s'" using True sameD(4) by (fastforce simp: settled_def)
      ultimately show ?thesis
        using run \<open>td_ts_decided (gs_txnData t op)\<close> True same_trans [OF u(2)] t(4) by (auto simp: Let_def)
    next
      case False
      from ExecuteTxns_ok [OF u(1) this env] obtain s' where
        "ExecuteTxns env ?u = Inr s'" "safe a0 s'" "same ?u s'" "gs_lastCommitted s' = gs_lastCommitted ?u" "settled s'" by blast
      then show ?thesis
        using run True False same_trans [OF u(2)] t(4) by (auto simp: Let_def)
    qed
  next
    case undecided: False
    then have "t = s" using t(9) by blast
    then show ?thesis using run undecided safe settled_but_imp by (auto simp: executable_def)
  qed
qed

text \<open>A transaction becomes committed: the invariant holds with the new commit point.\<close>

lemma mark_committed:
  assumes safe: "safe a0 s" and op: "gs_lastCommitted s < op" "op \<le> gs_lastOp s" "\<And>i. gs_lastCommitted s < i \<Longrightarrow> op \<le> i"
    and e: "log_at (gs_log s) op = Some e"
    and l: "gr_log_inv (s\<lparr>gs_lastCommitted := op, gs_log := l\<rparr>)"
      "\<And>i. log_at l i = (if i = op \<and> le_state e \<noteq> LOG_STATE_EXECUTED then Some (e\<lparr>le_state := LOG_STATE_COMMITTED\<rparr>) else log_at (gs_log s) i)"
  shows "safe a0 (s\<lparr>gs_lastCommitted := op, gs_log := l\<rparr>) \<and> same s (s\<lparr>gs_lastCommitted := op, gs_log := l\<rparr>)"
proof -
  let ?t = "s\<lparr>gs_lastCommitted := op, gs_log := l\<rparr>"
  have inv: "gr_inv accepts_txn s" using safe by (simp add: gr_safe_def)
  have C: "cell ?t = cell s" using l(2) e by (auto simp: cell_def fun_eq_iff)
  then have S: "same s ?t" by (simp add: same_def)
  have le: "i \<le> op \<longleftrightarrow> i \<le> gs_lastCommitted s \<or> i = op" for i
  proof (cases "i \<le> gs_lastCommitted s")
    case True
    then have "i \<le> op" using op(1) by simp
    then show ?thesis using True by simp
  next
    case False
    then have "op \<le> i" using op(3) by (simp add: not_le)
    then show ?thesis using False by auto
  qed
  have "entry_ok op i x (gs_txnData s i)" if "log_at l i = Some x" for i x
  proof (cases "i = op \<and> le_state e \<noteq> LOG_STATE_EXECUTED")
    case True
    then show ?thesis using that gr_inv_entry [OF inv e] by (auto simp: l(2) entry_ok_def split: if_splits)
  next
    case False
    then have "log_at (gs_log s) i = Some x" using that unfolding l(2) by (simp split: if_splits)
    then show ?thesis using gr_inv_entry [OF inv, of i x] False e by (auto simp: entry_ok_def le split: if_splits)
  qed
  moreover have "gs_voteTimeouts s i \<longrightarrow> i \<noteq> 0 \<and> i \<le> op" for i using inv op(1) by (auto simp: gr_inv_def dest: less_imp_le order_trans)
  ultimately have "gr_inv accepts_txn ?t" using inv l(1) C by (simp add: gr_inv_def AmLeader_def)
  moreover have "executed_at ?t = executed_at s" using e by (auto simp: executed_at_def l(2) fun_eq_iff)
  then have "in_order app a0 ?t ops = in_order app a0 s ops" for ops
    unfolding in_order_def sameD [OF S] by simp
  ultimately show ?thesis using safe S by (simp add: gr_safe_def)
qed

lemma prepare_txn_ok:
  assumes safe: "safe a0 s" and mode: "gs_locking s" and env: "ge_app env = app" and e: "log_at (gs_log s) op = Some e'"
    and real: "le_request e = le_request e'" "req_ops (le_request e') \<noteq> []"
  shows "\<exists>s'. prepare_txn env s op e = Inr s' \<and> safe a0 s' \<and> same s s' \<and> gs_lastCommitted s' = gs_lastCommitted s \<and>
     gs_log s' = gs_log s \<and> gs_voteTimeouts s' = gs_voteTimeouts s"
proof -
  have inv: "gr_inv accepts_txn s" and ok: "app_ok (gs_app_state s)" using safe by (simp_all add: gr_safe_def)
  have acc: "accepts_txn (req_op (le_request e)) \<lparr>ta_txnid = td_txnid (gs_txnData s op), ta_type = TXN_PREPARE\<rparr>"
    using gr_inv_acc [OF inv e real(2)] real(1) by simp
  obtain a res ret where a: "app (gs_app_state s) (req_op (le_request e)) \<lparr>ta_txnid = td_txnid (gs_txnData s op), ta_type = TXN_PREPARE\<rparr> = Inr (a, res, ret)"
    "app_ok a" using app_total [OF ok acc] by blast
  let ?t = "s\<lparr>gs_app_state := a\<rparr>"
  define st where "st = (if tr_blocked ret then CONFLICT else if tr_commit ret then COMMIT else ABORT)"
  let ?u = "set_txnData ?t op ((gs_txnData s op)\<lparr>td_status := st\<rparr>)"
  have t: "safe a0 ?t" "same s ?t" using inv a(2) mode by (simp_all add: gr_safe_def gr_inv_app same_def cell_def fun_eq_iff)
  then have u: "safe a0 ?u \<and> same ?t ?u" by (intro set_txnData_safe) simp_all
  obtain s' where s': "prepare_txn env s op e = Inr s'" "core_eq ?u s'"
    using a(1) env by (auto simp: prepare_txn_def call_app_def Execute_txn_def TxnServer_ReplicaUpcall_def Let_def st_def)
  then show ?thesis
    using u same_trans [OF t(2)] same_trans core_eqD(4,5) [OF s'(2)] by (auto simp: core_eq_def)
qed

lemma commit_op_unfold:
  assumes "Find (gs_log s) op = Inr (Some e)" and "le_state e \<noteq> LOG_STATE_EXECUTED"
    and "set_state (s\<lparr>gs_lastCommitted := op\<rparr>) op LOG_STATE_COMMITTED = Inr t"
  shows "commit_op env s op = rbind (if gs_locking t then prepare_txn env t op e else Inr t)
     (\<lambda>t. rbind (send_vote t op e) (\<lambda>u. CheckVoteQuorum env u op))"
  using assms by (simp add: commit_op_def Let_def)

lemma send_vote_ok:
  assumes safe: "safe a0 s" and op: "\<not> gs_voteTimeouts s op" "op \<noteq> 0" "op \<le> gs_lastCommitted s"
  shows "\<exists>s'. send_vote s op e = Inr s' \<and> safe a0 s' \<and> same s s' \<and> gs_lastCommitted s' = gs_lastCommitted s \<and>
     gs_log s' = gs_log s \<and> gs_txnData s' = gs_txnData s \<and> gs_pending s' = gs_pending s"
proof (cases "AmLeader s \<and> length (req_ops (le_request e)) > 1")
  case True
  let ?t = "send s (GroupsDest (other_shards s (le_request e))) (OutServer (GrVote (vote_message s (le_request e) (td_status (gs_txnData s op)))))"
  have "\<forall>i. gs_voteTimeouts s i \<longrightarrow> i \<noteq> 0 \<and> i \<le> gs_lastCommitted s" using safe by (simp add: gr_safe_def gr_inv_def)
  then have "safe a0 (?t\<lparr>gs_voteTimeouts := (gs_voteTimeouts ?t)(op := True)\<rparr>)"
    using safe op by (intro gr_safe_votes(2)) (auto split: if_splits)
  then show ?thesis using True op(1) by (simp add: send_vote_def)
next
  case False
  then show ?thesis using safe by (auto simp: send_vote_def)
qed

lemma commit_op_ok:
  assumes safe: "safe a0 s" and env: "ge_app env = app" and lt: "gs_lastCommitted s < gs_lastOp s"
  shows "\<exists>s'. commit_op env s (gs_lastCommitted s + 1) = Inr s' \<and> safe a0 s' \<and> same s s' \<and>
     gs_lastCommitted s' = gs_lastCommitted s + 1 \<and> (settled s \<longrightarrow> settled s')"
proof -
  let ?op = "gs_lastCommitted s + 1"
  have inv: "gr_inv accepts_txn s" using safe by (simp add: gr_safe_def)
  then have L: "gr_log_inv s" by (simp add: gr_inv_def)
  note I = gr_log_invD [OF L]
  have u: "unat ?op = Suc (unat (gs_lastCommitted s))" by (rule unat_Suc_less [OF lt])
  then have op: "gs_lastCommitted s < ?op" "?op \<le> gs_lastOp s" "?op \<noteq> 0" "\<And>i. gs_lastCommitted s < i \<Longrightarrow> ?op \<le> i"
    using lt by (auto simp: word_less_nat_alt word_le_nat_alt)
  have "1 \<le> ?op" using u by (simp add: word_le_nat_alt)
  then obtain e where e: "log_at (gs_log s) ?op = Some e" using log_at_dom [OF I(1), of ?op] I(2,4) op(2) by auto
  have nt: "\<not> gs_voteTimeouts s ?op" using inv op(1) by (auto simp: gr_inv_def)
  show ?thesis
  proof (cases "le_state e = LOG_STATE_EXECUTED")
    case True
    have "gr_log_inv (s\<lparr>gs_lastCommitted := ?op, gs_log := gs_log s\<rparr>)" using I op(2) by (simp add: gr_log_inv_def)
    from mark_committed [OF safe op(1,2,4) e this] have "safe a0 (s\<lparr>gs_lastCommitted := ?op\<rparr>) \<and> same s (s\<lparr>gs_lastCommitted := ?op\<rparr>)"
      using True by simp
    then show ?thesis using True e by (simp add: commit_op_def Find_eq [OF I(1)] Let_def settled_def executable_def split: list.splits)
  next
    case False
    have real: "req_ops (le_request e) \<noteq> []" using gr_inv_entry [OF inv e] False by (auto simp: entry_ok_def split: if_splits)
    let ?s0 = "s\<lparr>gs_lastCommitted := ?op\<rparr>"
    have "gr_log_inv ?s0" using I op(2) by (simp add: gr_log_inv_def)
    then obtain l where l: "set_state ?s0 ?op LOG_STATE_COMMITTED = Inr (?s0\<lparr>gs_log := l\<rparr>)" "gr_log_inv (?s0\<lparr>gs_log := l\<rparr>)"
      "\<And>i. log_at l i = (if i = ?op then Some (e\<lparr>le_state := LOG_STATE_COMMITTED\<rparr>) else log_at (gs_log s) i)"
      using set_state_ok [of ?s0 ?op e LOG_STATE_COMMITTED] e by auto
    let ?s1 = "?s0\<lparr>gs_log := l\<rparr>"
    have s1: "safe a0 ?s1 \<and> same s ?s1" using mark_committed [OF safe op(1,2,4) e] l(2,3) False by simp
    have e1: "log_at (gs_log ?s1) ?op = Some (e\<lparr>le_state := LOG_STATE_COMMITTED\<rparr>)" using l(3) by simp
    have "\<exists>s2. (if gs_locking ?s1 then prepare_txn env ?s1 ?op e else Inr ?s1) = Inr s2 \<and> safe a0 s2 \<and> same ?s1 s2 \<and>
        gs_lastCommitted s2 = ?op \<and> gs_log s2 = l \<and> \<not> gs_voteTimeouts s2 ?op \<and> (\<not> gs_locking s \<longrightarrow> s2 = ?s1)"
      using prepare_txn_ok [OF conjunct1 [OF s1] _ env e1, of e] real s1 nt by auto
    then obtain s2 where s2: "(if gs_locking ?s1 then prepare_txn env ?s1 ?op e else Inr ?s1) = Inr s2" "safe a0 s2" "same ?s1 s2"
      "gs_lastCommitted s2 = ?op" "gs_log s2 = l" "\<not> gs_voteTimeouts s2 ?op" "\<not> gs_locking s \<longrightarrow> s2 = ?s1" by blast
    obtain s3 where s3: "send_vote s2 ?op e = Inr s3" "safe a0 s3" "same s2 s3" "gs_lastCommitted s3 = ?op" "gs_log s3 = l"
      "gs_txnData s3 = gs_txnData s2" "gs_pending s3 = gs_pending s2"
      using send_vote_ok [OF s2(2,6) op(3), of e] s2(4,5) by auto
    have but: "settled_but ?op s3" if "settled s"
    proof (cases "gs_locking s")
      case True
      then have "gs_locking s3" using sameD(4) s1 s2(3) s3(3) by metis
      then show ?thesis by (simp add: settled_but_def)
    next
      case False
      then have "executable s3 i = executable s i" if "i \<noteq> ?op" for i
        using that l(3) s2(7) s3(5,6) by (simp add: executable_def)
      then show ?thesis using that False s2(7) s3(7) by (auto simp: settled_def settled_but_def split: list.splits)
    qed
    from CheckVoteQuorum_ok [OF s3(2) env, of ?op "e\<lparr>le_state := LOG_STATE_COMMITTED\<rparr>"] obtain s' where
      s': "CheckVoteQuorum env s3 ?op = Inr s'" "safe a0 s'" "same s3 s'" "gs_lastCommitted s' = gs_lastCommitted s3" "settled_but ?op s3 \<longrightarrow> settled s'"
      using l(3) s3(5) by auto
    have "commit_op env s ?op = rbind (if gs_locking ?s1 then prepare_txn env ?s1 ?op e else Inr ?s1) (\<lambda>t. rbind (send_vote t ?op e) (\<lambda>u. CheckVoteQuorum env u ?op))"
      by (rule commit_op_unfold [OF _ False l(1)]) (simp add: Find_eq [OF I(1)] e)
    then have "commit_op env s ?op = Inr s'" unfolding s2(1) using s3(1) s'(1) by simp
    moreover have "same s s'" using s1 s2(3) s3(3) s'(3) same_trans by blast
    moreover have "gs_lastCommitted s' = ?op" using s'(4) s3(4) by simp
    moreover have "settled s \<longrightarrow> settled s'" using s'(5) but by simp
    ultimately show ?thesis using s'(2) by (intro exI [of _ s'] conjI)
  qed
qed

lemma commit_loop_ok:
  assumes "safe a0 s" and "ge_app env = app" and "k \<le> gs_lastOp s"
  shows "\<exists>s'. fold_r (commit_op env) s (ops_after (gs_lastCommitted s) k) = Inr s' \<and> safe a0 s' \<and> same s s' \<and>
     gs_lastCommitted s' = max (gs_lastCommitted s) k \<and> (settled s \<longrightarrow> settled s')"
  using assms
proof (induction "unat k - unat (gs_lastCommitted s)" arbitrary: s)
  case 0
  then have "\<not> gs_lastCommitted s < k" by (simp add: word_less_nat_alt)
  then show ?case using 0 by (simp add: ops_after_def max_def)
next
  case (Suc n)
  then have lt: "gs_lastCommitted s < k" by (simp add: word_less_nat_alt)
  then have lt': "gs_lastCommitted s < gs_lastOp s" using Suc.prems(3) by simp
  obtain t where t: "commit_op env s (gs_lastCommitted s + 1) = Inr t" "safe a0 t" "same s t" "gs_lastCommitted t = gs_lastCommitted s + 1"
    "settled s \<longrightarrow> settled t"
    using commit_op_ok [OF Suc.prems(1,2) lt'] by blast
  have "n = unat k - unat (gs_lastCommitted t)" using Suc.hyps(2) t(4) unat_Suc_less [OF lt] by simp
  moreover have "k \<le> gs_lastOp t" using Suc.prems(3) sameD(3) [OF t(3)] by simp
  ultimately obtain s' where s': "fold_r (commit_op env) t (ops_after (gs_lastCommitted t) k) = Inr s'" "safe a0 s'" "same t s'"
    "gs_lastCommitted s' = max (gs_lastCommitted t) k" "settled t \<longrightarrow> settled s'"
    using Suc.hyps(1) [OF _ t(2) Suc.prems(2)] by blast
  have "max (gs_lastCommitted t) k = max (gs_lastCommitted s) k"
    using lt t(4) unat_Suc_less [OF lt] by (auto simp: max_def word_less_nat_alt word_le_nat_alt intro: u64_eqI)
  then show ?case using t s' same_trans by (auto simp: ops_after_Cons [OF lt])
qed

lemma CommitUpTo_ok:
  assumes safe: "safe a0 s" and env: "ge_app env = app" and k: "k \<le> gs_lastOp s"
  shows "\<exists>s'. CommitUpTo env s k = Inr s' \<and> safe a0 s' \<and> same s s' \<and> gs_lastCommitted s' = max (gs_lastCommitted s) k \<and>
     (settled s \<longrightarrow> settled s')"
proof -
  define t where "t = (if gs_lastCommitted s < k \<and> AmLeader s then send s AllReplicas (OutServer (GrCommit \<lparr>gc_view = gs_view s, gc_opnum = k\<rparr>)) else s)"
  define u where "u = (if gs_lastCommitted t < k then t\<lparr>gs_resendPrepareTimeout := False\<rparr> else t)"
  have t: "safe a0 t" "same s t" "gs_lastCommitted t = gs_lastCommitted s" "settled t = settled s" using safe by (simp_all add: t_def)
  have u: "safe a0 u" "same s u" "gs_lastCommitted u = gs_lastCommitted s" "settled u = settled s"
    using t gr_safe_votes(3) [OF t(1), of False] by (simp_all add: u_def)
  have "k \<le> gs_lastOp u" using k sameD(3) [OF u(2)] by simp
  from commit_loop_ok [OF u(1) env this] u show ?thesis
    using same_trans by (auto simp: CommitUpTo_def t_def [symmetric] u_def [symmetric] Let_def)
qed

end

section \<open>New entries\<close>

lemma pending_insert_last: "\<forall>q\<in>set qs. snd q < snd p \<Longrightarrow> pending_insert p qs = qs @ [p]"
  by (induction qs) auto

lemma in_order_bound:
  assumes "in_order app a0 s ops" and "p \<in> set (gs_pending s)"
  shows "fst p \<le> gs_lastOp s" "snd p = fst p"
proof -
  have "set (ops @ map fst (gs_pending s)) \<subseteq> {i. 0 < i \<and> i \<le> gs_lastOp s}"
    using assms(1) unfolding in_order_def set_ops_after [symmetric] by (metis filter_is_subset)
  then show "fst p \<le> gs_lastOp s" using assms(2) by auto
  show "snd p = fst p" using assms by (simp add: in_order_def)
qed

definition appended :: "'a GranolaServer \<Rightarrow> u64 \<Rightarrow> LogEntry \<Rightarrow> TxnData \<Rightarrow> 'a GranolaServer \<Rightarrow> bool" where
  "appended t op e td s' \<longleftrightarrow> gr_log_inv s' \<and> (\<forall>i. log_at (gs_log s') i = (if i = op then Some e else log_at (gs_log t) i)) \<and>
     (\<exists>l m. s' = t\<lparr>gs_clientReqMap := m, gs_log := l, gs_txnData := (gs_txnData t)(op := td)\<rparr>)"

lemma appendedD:
  assumes "appended t op e td s'"
  shows "gr_log_inv s'" "log_at (gs_log s') i = (if i = op then Some e else log_at (gs_log t) i)"
    "gs_lastOp s' = gs_lastOp t" "gs_txnData s' = (gs_txnData t)(op := td)" "gs_lastCommitted s' = gs_lastCommitted t"
    "gs_locking s' = gs_locking t" "gs_voteQuorum s' = gs_voteQuorum t" "gs_voteTimeouts s' = gs_voteTimeouts t"
    "gs_app_state s' = gs_app_state t" "AmLeader s' = AmLeader t" "gs_localClock s' = gs_localClock t" "gs_pending s' = gs_pending t"
    "gs_clientTable s' = gs_clientTable t" "gs_resendPrepareTimeout s' = gs_resendPrepareTimeout t" "gs_view s' = gs_view t"
  using assms by (auto simp: appended_def AmLeader_def)

lemma append_entry_ok:
  assumes inv: "gr_log_inv s" and nm: "gs_lastOp s + 1 \<noteq> - 1"
    and t: "gs_log t = gs_log s" "gs_lastOp t = gs_lastOp s + 1" "gs_lastCommitted t = gs_lastCommitted s"
  shows "\<exists>s'. append_entry env t (viewstamp2 v (gs_lastOp s + 1)) st req td = Inr s' \<and>
     appended t (gs_lastOp s + 1) (LogEntry_new (viewstamp2 v (gs_lastOp s + 1)) st req) td s'"
proof -
  note I = gr_log_invD [OF inv]
  let ?e = "LogEntry_new (viewstamp2 v (gs_lastOp s + 1)) st req"
  have opn: "vs_opnum (le_viewstamp ?e) = LastOpnum (gs_log s) + 1" by (simp add: LogEntry_new_def viewstamp2_def I(4))
  define l where "l = (gs_log s)\<lparr>entries := entries (gs_log s) @ [?e]\<rparr>"
  have app: "Append (ge_sha1 env) (gs_log s) ?e = Inr l"
    using opn I(3) by (simp add: Append_def l_def LastOpnum_def Let_def)
  have room: "LastOpnum (gs_log s) \<noteq> - 1" using I(4,5) by simp
  note A = Append_wf [OF I(1) room app] Append_fields [OF app]
  have at: "log_at l i = (if i = gs_lastOp s + 1 then Some ?e else log_at (gs_log s) i)" for i
    using log_at_append [OF I(1) room app, of i] I(4) by (simp add: l_def)
  have "gs_lastCommitted s \<le> gs_lastOp s + 1" using I(6) next_op(2) [OF I(5)] by (meson less_imp_le order_trans)
  then have "gr_log_inv (t\<lparr>gs_clientReqMap := m, gs_log := l, gs_txnData := x\<rparr>)" for m x
    using A I t nm by (simp add: gr_log_inv_def)
  moreover have "vs_opnum (viewstamp2 v (gs_lastOp s + 1)) = gs_lastOp s + 1" by (simp add: viewstamp2_def)
  then have "append_entry env t (viewstamp2 v (gs_lastOp s + 1)) st req td =
      Inr (t\<lparr>gs_clientReqMap := (gs_clientReqMap t)(reqid_of req \<mapsto> gs_lastOp s + 1), gs_log := l, gs_txnData := (gs_txnData t)(gs_lastOp s + 1 := td)\<rparr>)"
    using app t(1) by (simp add: append_entry_def store_entry_def)
  ultimately show ?thesis using at t(1) unfolding appended_def by fastforce
qed

lemma append_safe:
  assumes safe: "gr_safe app app_ok acc a0 s" and log: "gr_log_inv s'" and op: "op = gs_lastOp s + 1" "gs_lastOp s' = op"
    and at: "\<And>i. log_at (gs_log s') i = (if i = op then Some (LogEntry_new vs st req) else log_at (gs_log s) i)"
    and td: "gs_txnData s' = (gs_txnData s)(op := td)"
    and eq: "gs_lastCommitted s' = gs_lastCommitted s" "gs_locking s' = gs_locking s" "gs_voteTimeouts s' = gs_voteTimeouts s"
      "gs_app_state s' = gs_app_state s" "AmLeader s' = AmLeader s"
    and ok: "votes_ok (gs_voteQuorum s')" "AmLeader s' \<longrightarrow> gs_localClock s' = op"
    and new: "if req_ops req = [] then st = LOG_STATE_EXECUTED \<and> gs_pending s' = gs_pending s
              else st = LOG_STATE_PREPARED \<and> (length (req_ops req) = 1 \<longrightarrow> td_ts_decided td) \<and> acc_all acc req (td_txnid td) \<and>
                   (\<not> gs_locking s \<longrightarrow> gs_pending s' = gs_pending s @ [(op, op)])"
  shows "gr_safe app app_ok acc a0 s'" "settled s \<longrightarrow> settled s'"
proof -
  have inv: "gr_inv acc s" using safe by (simp add: gr_safe_def)
  then have L: "gr_log_inv s" by (simp add: gr_inv_def)
  note I = gr_log_invD [OF L]
  note N = next_op [OF I(5), folded op(1)]
  have above: "\<not> op \<le> gs_lastOp s" "\<not> op \<le> gs_lastCommitted s" using N(2) I(6) by auto
  have C: "cell s' i = (if i = op then Some (req, td_txnid td) else cell s i)" for i
    by (simp add: cell_def at td LogEntry_new_def)
  have "entry_ok (gs_lastCommitted s) i e (gs_txnData s' i)" if "log_at (gs_log s') i = Some e" for i e
    using that gr_inv_entry [OF inv, of i e] above(2) new
    by (cases "i = op") (auto simp: at td entry_ok_def LogEntry_new_def split: if_splits)
  moreover have "acc_all acc r t" if "cell s' i = Some (r, t)" "req_ops r \<noteq> []" for i r t
    using that inv new by (auto simp: C gr_inv_def split: if_splits)
  ultimately have "gr_inv acc s'"
    using inv log ok eq op(2) N(3) unfolding gr_inv_def by simp
  moreover have "\<exists>ops. in_order app a0 s' ops" if mode: "\<not> gs_locking s"
  proof -
    obtain ops where ord: "in_order app a0 s ops" using safe mode by (auto simp: gr_safe_def)
    have txn: "is_txn s' i = is_txn s i" if "i \<noteq> op" for i using that by (simp add: is_txn_def C)
    have "filter (is_txn s') (ops_after 0 (gs_lastOp s)) = filter (is_txn s) (ops_after 0 (gs_lastOp s))"
      using txn above(1) by (intro filter_cong) (auto simp: set_ops_after)
    moreover have "is_txn s' op \<longleftrightarrow> req_ops req \<noteq> []" by (simp add: is_txn_def C)
    ultimately have "filter (is_txn s') (ops_after 0 op) = ops @ map fst (gs_pending s')"
      using ord new mode ops_after_snoc [of 0 "gs_lastOp s"] I(5) op(1) by (auto simp: in_order_def)
    moreover have sub: "i \<in> set ops \<union> fst ` set (gs_pending s) \<Longrightarrow> i \<noteq> op" for i
    proof -
      assume "i \<in> set ops \<union> fst ` set (gs_pending s)"
      then have "i \<in> set (filter (is_txn s) (ops_after 0 (gs_lastOp s)))" using ord unfolding in_order_def by simp
      then show "i \<noteq> op" using above(1) by (auto simp: set_ops_after)
    qed
    then have cells: "map (cell s') ops = map (cell s) ops" by (intro map_cong) (auto simp: C)
    have "fold_r (run_cell app) a0 (map (cell s') ops) = Inr (gs_app_state s')" unfolding cells eq(4) using ord by (simp add: in_order_def)
    moreover have "executed_at s' i = executed_at s i" if "i \<noteq> op" for i using that by (simp add: executed_at_def at)
    moreover have "req_ops req \<noteq> [] \<Longrightarrow> \<not> executed_at s' op" using new by (simp add: executed_at_def at LogEntry_new_def)
    ultimately have "in_order app a0 s' ops"
      using ord sub new mode op(2) eq(4) unfolding in_order_def by (auto split: if_splits)
    then show ?thesis by blast
  qed
  ultimately show "gr_safe app app_ok acc a0 s'" using safe eq by (simp add: gr_safe_def)
  show "settled s \<longrightarrow> settled s'"
  proof (cases "gs_locking s")
    case False
    obtain ops where ord: "in_order app a0 s ops" using safe False by (auto simp: gr_safe_def)
    have "executable s' i = executable s i" if "i \<le> gs_lastOp s" for i
      using that above(1) by (auto simp: executable_def at td)
    moreover have "req_ops req \<noteq> [] \<Longrightarrow> \<not> executable s' op" using new by (simp add: executable_def at LogEntry_new_def)
    ultimately show ?thesis
      using in_order_bound(1) [OF ord] new False eq(2) by (cases "gs_pending s") (auto simp: settled_def split: if_splits)
  qed (simp add: settled_def eq)
qed

end
