(* ===== verification/GranolaProperties.thy ===== *)
theory GranolaProperties
  imports GranolaInvariant
begin

text \<open>
  Runs of a Granola server: it handles every event of \<open>gr_expects\<close> without aborting, and without locks it executes
  the transactions of its log in order and as far as their timestamps are decided.  In locking mode all shards that have
  the same votes decide alike.  A backup ignores the decision a final timestamp carries, and
  computed executions show where else the code does not do what the protocol asks for.
\<close>

section \<open>Events a server is prepared for\<close>

text \<open>As for a Spanner server, messages reach the role they are for and the request in a \<^verbatim>\<open>PREPARE\<close> for a new operation is not older than the
  client table has it, which \<^verbatim>\<open>UpdateClientTable\<close> asserts and a backup does not check.  The timestamp of a \<^verbatim>\<open>PREPARE\<close> is its operation number: a
  leader takes it from \<^verbatim>\<open>localClock\<close>, which starts at 0 and is advanced together with \<^verbatim>\<open>lastOp\<close>.\<close>

fun gr_expects :: "(string \<Rightarrow> txnarg_t \<Rightarrow> bool) \<Rightarrow> 'a GranolaServer \<Rightarrow> granola_event \<Rightarrow> bool" where
  "gr_expects acc s (Deliver _ (GrRequest m)) =
     (gs_lastOp s + 1 \<noteq> - 1 \<and> req_ops (gq_request m) \<noteq> [] \<and> acc_all acc (gq_request m) (gq_txnid m))"
| "gr_expects acc s (Deliver _ (GrPrepare m)) =
     (\<not> AmLeader s \<and> gp_opnum m \<noteq> - 1 \<and>
      (gs_lastOp s < gp_opnum m \<longrightarrow> req_ops (gp_request m) \<noteq> [] \<and> acc_all acc (gp_request m) (gp_txnid m) \<and>
         ct_lastReqId (client_entry s (req_clientid (gp_request m))) \<le> req_clientreqid (gp_request m) \<and> gp_timestamp m = gp_opnum m))"
| "gr_expects acc s (Deliver _ (GrPrepareOK m)) = (AmLeader s \<and> go_opnum m \<le> gs_lastOp s)"
| "gr_expects acc s (Deliver _ (GrCommit m)) = (\<not> AmLeader s)"
| "gr_expects acc s (Deliver _ (GrVote m)) = (1 < gv_nshards m)"
| "gr_expects acc s (Deliver _ (GrVoteRequest m)) = True"
| "gr_expects acc s (Deliver _ (GrFinalTimestamp m)) = (\<not> AmLeader s \<and> gf_opnum m \<noteq> - 1 \<and> gf_opnum m \<noteq> 0)"
| "gr_expects acc s (Deliver _ GrNotSet) = False"
| "gr_expects acc s ResendTimeout = True"
| "gr_expects acc s (VoteTimer op) = True"

section \<open>Handlers\<close>

lemma op_range_ops_after:
  fixes c k :: u64
  assumes "c < k"
  shows "op_range (c + 1) k = ops_after c (k - 1)" "c \<le> k - 1" "k - 1 + 1 = k"
proof -
  have u: "unat (k - 1) = unat k - 1" "unat (c + 1) = Suc (unat c)"
    using assms by (simp_all add: unat_sub_1 unat_Suc_less word_less_nat_alt)
  then show "op_range (c + 1) k = ops_after c (k - 1)"
    using assms unfolding ops_after_nat op_range_def by (simp add: word_less_nat_alt del: upt_Suc)
  show "c \<le> k - 1" using assms u by (simp add: word_le_nat_alt word_less_nat_alt)
qed simp

lemma new_txnData_copy:
  "td_txnid (TxnData_copy j (new_txnData t i r ts req)) = t" "td_proposed_ts (TxnData_copy j (new_txnData t i r ts req)) = ts"
  "length (req_ops req) = 1 \<longrightarrow> td_ts_decided (TxnData_copy j (new_txnData t i r ts req))" "td_proposed_ts (new_txnData t i r ts req) = ts"
  by (simp_all add: TxnData_copy_def new_txnData_def TxnData_default_def Let_def)

lemma gr_UpdateClientTable:
  assumes "ct_lastReqId (client_entry s (req_clientid req)) \<le> req_clientreqid req"
  shows "\<exists>x. UpdateClientTable s req = Inr (put_client s (req_clientid req) x)"
  using assms by (auto simp: UpdateClientTable_def Let_def)

definition kept :: "'a GranolaServer \<Rightarrow> 'a GranolaServer \<Rightarrow> bool" where
  "kept s s' \<longleftrightarrow> (settled s \<longrightarrow> settled s') \<and> gs_locking s' = gs_locking s"

lemma kept_trans: "\<lbrakk> kept s t; kept t u \<rbrakk> \<Longrightarrow> kept s u"
  by (simp add: kept_def)

lemma kept_simps [simp]:
  "kept s s" "kept s (send t d m) = kept s t" "kept s (t\<lparr>gs_voteQuorum := q\<rparr>) = kept s t" "kept s (t\<lparr>gs_voteTimeouts := v\<rparr>) = kept s t"
  "kept s (t\<lparr>gs_resendPrepareTimeout := b\<rparr>) = kept s t" "kept s (prepare_ok t p) = kept s t" "kept s (put_client t c x) = kept s t"
  using core_eqD(3) [of t "put_client t c x"] by (simp_all add: kept_def prepare_ok_def)

lemma kept_same: "\<lbrakk> same s s'; settled s \<longrightarrow> settled s' \<rbrakk> \<Longrightarrow> kept s s'"
  by (simp add: kept_def same_def)

lemma Find_reqid_ok: "log_wf (gs_log s) \<Longrightarrow> \<exists>r. Find_reqid s rid = Inr r"
  by (cases "gs_clientReqMap s rid") (simp_all add: Find_reqid_def Find_eq)

context retry_app begin

lemma fill_entry_ok:
  assumes safe: "safe a0 s" and bk: "\<not> AmLeader s" and nm: "gs_lastOp s + 1 \<noteq> - 1"
  shows "\<exists>s'. fill_entry env v s (gs_lastOp s + 1) = Inr s' \<and> safe a0 s' \<and> (settled s \<longrightarrow> settled s') \<and> gs_lastOp s' = gs_lastOp s + 1 \<and>
     AmLeader s' = AmLeader s \<and> gs_locking s' = gs_locking s \<and> gs_clientTable s' = gs_clientTable s \<and> gs_lastCommitted s' = gs_lastCommitted s"
proof -
  have L: "gr_log_inv s" and votes: "votes_ok (gs_voteQuorum s)" using safe by (simp_all add: gr_safe_def gr_inv_def)
  let ?td = "TxnData_default (ge_junk env (gs_lastOp s + 1))"
  let ?t = "s\<lparr>gs_lastOp := gs_lastOp s + 1\<rparr>"
  obtain s' where A: "append_entry env ?t (viewstamp2 v (gs_lastOp s + 1)) LOG_STATE_EXECUTED empty_Request ?td = Inr s'"
    "appended ?t (gs_lastOp s + 1) (LogEntry_new (viewstamp2 v (gs_lastOp s + 1)) LOG_STATE_EXECUTED empty_Request) ?td s'"
    using append_entry_ok [OF L nm, of ?t env v LOG_STATE_EXECUTED empty_Request ?td] by auto
  note D = appendedD [OF A(2)]
  have B: "AmLeader s' = AmLeader s" using D(10) by (simp add: AmLeader_def)
  have "safe a0 s'" "settled s \<longrightarrow> settled s'"
    using append_safe [OF safe D(1) refl, of "viewstamp2 v (gs_lastOp s + 1)" LOG_STATE_EXECUTED empty_Request ?td] D B bk votes
    by (simp_all add: empty_Request_def)
  then show ?thesis using A(1) B D by (simp add: fill_entry_def)
qed

lemma fill_ok:
  assumes "safe a0 s" and "\<not> AmLeader s" and "gs_lastOp s \<le> k" and "k \<noteq> - 1"
  shows "\<exists>s'. fold_r (fill_entry env v) s (ops_after (gs_lastOp s) k) = Inr s' \<and> safe a0 s' \<and> (settled s \<longrightarrow> settled s') \<and> gs_lastOp s' = k \<and>
     \<not> AmLeader s' \<and> gs_locking s' = gs_locking s \<and> gs_clientTable s' = gs_clientTable s \<and> gs_lastCommitted s' = gs_lastCommitted s"
  using assms
proof (induction "unat k - unat (gs_lastOp s)" arbitrary: s)
  case 0
  then have "gs_lastOp s = k" by (auto simp: word_le_nat_alt intro: u64_eqI)
  then show ?case using 0 by simp
next
  case (Suc n)
  then have lt: "gs_lastOp s < k" by (simp add: word_less_nat_alt)
  have u: "unat (gs_lastOp s + 1) = Suc (unat (gs_lastOp s))" by (rule unat_Suc_less [OF lt])
  then have "gs_lastOp s + 1 \<noteq> - 1" using lt Suc.prems(4) unfolding u64_not_max by (simp add: word_less_nat_alt)
  from fill_entry_ok [OF Suc.prems(1,2) this, of env v] obtain t where t: "fill_entry env v s (gs_lastOp s + 1) = Inr t" "safe a0 t"
    "settled s \<longrightarrow> settled t" "gs_lastOp t = gs_lastOp s + 1" "\<not> AmLeader t" "gs_locking t = gs_locking s" "gs_clientTable t = gs_clientTable s"
    "gs_lastCommitted t = gs_lastCommitted s" using Suc.prems(2) by auto
  have "n = unat k - unat (gs_lastOp t)" "gs_lastOp t \<le> k" using Suc.hyps(2) t(4) u lt by (simp_all add: word_le_nat_alt word_less_nat_alt)
  from Suc.hyps(1) [OF this(1) t(2,5) this(2) Suc.prems(4)] t show ?case by (auto simp: ops_after_Cons [OF lt])
qed

text \<open>A new transaction, at the leader or at a backup.\<close>

lemma new_txn_ok:
  assumes safe: "safe a0 s" and nm: "gs_lastOp s + 1 \<noteq> - 1" and op: "op = gs_lastOp s + 1"
    and t: "gs_log t = gs_log s" "gs_lastOp t = op" "gs_lastCommitted t = gs_lastCommitted s" "gs_txnData t = gs_txnData s"
      "gs_locking t = gs_locking s" "gs_voteTimeouts t = gs_voteTimeouts s" "gs_app_state t = gs_app_state s" "AmLeader t = AmLeader s"
      "gs_voteQuorum t = gs_voteQuorum s" "AmLeader s \<longrightarrow> gs_localClock t = op"
      "gs_pending t = (if gs_locking s then gs_pending s else pending_insert (op, op) (gs_pending s))"
    and req: "req_ops req \<noteq> []" "acc_all accepts_txn req (td_txnid td)" "length (req_ops req) = 1 \<longrightarrow> td_ts_decided td"
  shows "\<exists>s'. append_entry env t (viewstamp2 v op) LOG_STATE_PREPARED req td = Inr s' \<and> safe a0 s' \<and> kept s s' \<and>
     appended t op (LogEntry_new (viewstamp2 v op) LOG_STATE_PREPARED req) td s'"
proof -
  have L: "gr_log_inv s" and votes: "votes_ok (gs_voteQuorum s)" using safe by (simp_all add: gr_safe_def gr_inv_def)
  obtain s' where A: "append_entry env t (viewstamp2 v op) LOG_STATE_PREPARED req td = Inr s'"
    "appended t op (LogEntry_new (viewstamp2 v op) LOG_STATE_PREPARED req) td s'"
    using append_entry_ok [OF L nm, of t env v LOG_STATE_PREPARED req td] t(1-3) op by auto
  note D = appendedD [OF A(2)]
  have pend: "gs_pending t = gs_pending s @ [(op, op)]" if mode: "\<not> gs_locking s"
  proof -
    obtain ops where ord: "in_order app a0 s ops" using safe mode by (auto simp: gr_safe_def)
    have "gs_lastOp s < op" using next_op(2) gr_log_invD(5) [OF L] op by blast
    then have "snd q < op" if "q \<in> set (gs_pending s)" for q using in_order_bound [OF ord that] by simp
    then show ?thesis using t(11) mode pending_insert_last [of "gs_pending s" "(op, op)"] by simp
  qed
  have "safe a0 s'" "settled s \<longrightarrow> settled s'"
    using append_safe [OF safe D(1) op, of "viewstamp2 v op" LOG_STATE_PREPARED req td] D t votes req pend by simp_all
  moreover have "gs_locking s' = gs_locking s" using D(6) t(5) by simp
  ultimately show ?thesis using A by (auto simp: kept_def)
qed

lemma SendPrepare_ok:
  assumes safe: "safe a0 s" and nz: "gs_lastOp s \<noteq> 0"
  shows "\<exists>s'. SendPrepare s = Inr s' \<and> safe a0 s' \<and> kept s s'"
proof -
  have L: "gr_log_inv s" using safe by (simp add: gr_safe_def gr_inv_def)
  note I = gr_log_invD [OF L]
  have "1 \<le> gs_lastOp s" using nz by (simp add: word_le_nat_alt) (metis One_nat_def Suc_leI unat_gt_0)
  then obtain e where e: "log_at (gs_log s) (gs_lastOp s) = Some e" using log_at_dom [OF I(1), of "gs_lastOp s"] I(2,4) by auto
  let ?t = "send s AllReplicas (OutServer (GrPrepare (prepare_message e (gs_txnData s (gs_lastOp s)))))"
  have "safe a0 ?t" using safe by simp
  then have "safe a0 (?t\<lparr>gs_resendPrepareTimeout := True\<rparr>)" by (rule gr_safe_votes(3)) (simp add: nz)
  then show ?thesis using e by (simp add: SendPrepare_def Find_eq [OF I(1)])
qed

lemma append_request_ok:
  assumes safe: "safe a0 s" and lead: "AmLeader s" and nm: "gs_lastOp s + 1 \<noteq> - 1"
    and req: "req_ops (gq_request m) \<noteq> []" "acc_all accepts_txn (gq_request m) (gq_txnid m)"
    and ct: "ct_lastReqId (client_entry s (req_clientid (gq_request m))) \<le> req_clientreqid (gq_request m)"
  shows "\<exists>s'. append_request env s m = Inr s' \<and> safe a0 s' \<and> kept s s'"
proof -
  obtain x where x: "UpdateClientTable s (gq_request m) = Inr (put_client s (req_clientid (gq_request m)) x)"
    using gr_UpdateClientTable [OF ct] by blast
  define op where "op = gs_lastOp s + 1"
  have clock: "gs_localClock s = gs_lastOp s" using safe lead by (simp add: gr_safe_def gr_inv_def)
  define t where "t = add_pending ((put_client s (req_clientid (gq_request m)) x)\<lparr>gs_lastOp := op, gs_localClock := op\<rparr>) op"
  let ?td = "TxnData_copy (ge_junk env op) (new_txnData (gq_txnid m) (gq_indep m) (gq_ro m) op (gq_request m))"
  have T: "gs_log t = gs_log s" "gs_lastOp t = op" "gs_lastCommitted t = gs_lastCommitted s" "gs_txnData t = gs_txnData s"
      "gs_locking t = gs_locking s" "gs_voteTimeouts t = gs_voteTimeouts s" "gs_app_state t = gs_app_state s" "AmLeader t = AmLeader s"
      "gs_voteQuorum t = gs_voteQuorum s" "AmLeader s \<longrightarrow> gs_localClock t = op" "gs_view t = gs_view s"
      "gs_pending t = (if gs_locking s then gs_pending s else pending_insert (op, op) (gs_pending s))"
    by (simp_all add: t_def AmLeader_def add_pending_def)
  obtain u where u: "append_entry env t (viewstamp2 (gs_view s) op) LOG_STATE_PREPARED (gq_request m) ?td = Inr u" "safe a0 u"
    "kept s u" "gs_lastOp u = op"
    using new_txn_ok [OF safe nm op_def T(1-10,12) req(1), of ?td env "gs_view s"] req(2) new_txnData_copy T(2) by (auto dest: appendedD(3))
  define w where "w = (if length (req_ops (gq_request m)) > 1
     then u\<lparr>gs_voteQuorum := SetShardRequired (gs_voteQuorum u) (reqid_of (gq_request m)) (word_of_nat (length (req_ops (gq_request m))) - 1)\<rparr> else u)"
  have "votes_ok (gs_voteQuorum u)" using u(2) by (simp add: gr_safe_def gr_inv_def)
  then have "safe a0 w" "kept s w" "gs_lastOp w = op"
    using u(2-4) gr_safe_votes(1) [OF u(2) votes_ok_SetShardRequired] by (simp_all add: w_def)
  moreover have "op \<noteq> 0" using next_op(3) safe unfolding op_def by (metis gr_safe_def gr_inv_def gr_log_invD(5))
  moreover have "append_request env s m = rbind (append_entry env t (viewstamp2 (gs_view s) op) LOG_STATE_PREPARED (gq_request m) ?td) (announce (gq_request m))"
    by (simp add: append_request_def stamp_request_def log_request_def x t_def op_def clock)
  then have "append_request env s m = SendPrepare w" unfolding u(1) rbind_simps w_def announce_def .
  ultimately show ?thesis using SendPrepare_ok [of a0 w] kept_trans [of s w] by auto
qed

lemma request_ok:
  assumes safe: "safe a0 s" and ex: "gr_expects accepts_txn s (Deliver remote (GrRequest m))"
  shows "\<exists>s'. HandleClientRequest env s remote m = Inr s' \<and> safe a0 s' \<and> kept s s'"
proof -
  define t where "t = save_address s remote (req_clientid (gq_request m))"
  have "core_eq s t" by (simp add: t_def)
  note C = core_eqD [OF this]
  have T: "safe a0 t" "kept s t" "gs_lastOp t = gs_lastOp s" using safe C sameD(3,4) [OF C(4)] by (simp_all add: kept_def)
  have new: "\<exists>s'. append_request env t m = Inr s' \<and> safe a0 s' \<and> kept s s'"
    if "AmLeader t" "ct_lastReqId (client_entry t (req_clientid (gq_request m))) \<le> req_clientreqid (gq_request m)"
    using append_request_ok [OF T(1) that(1) _ _ _ that(2), of env] ex T kept_trans [OF T(2)] by auto
  show ?thesis
    using T new by (cases "gs_clientTable t (req_clientid (gq_request m))")
      (auto simp: HandleClientRequest_def t_def [symmetric] Let_def client_entry_def ClientTableEntry_default_def not_less)
qed

lemma prepare_ok_safe: "safe a0 (prepare_ok s m) = safe a0 s"
  by (simp add: prepare_ok_def)

lemma accept_prepare_ok:
  assumes safe: "safe a0 s" and bk: "\<not> AmLeader s" and op: "gp_opnum m = gs_lastOp s + 1" "gp_opnum m \<noteq> - 1"
    and req: "req_ops (gp_request m) \<noteq> []" "acc_all accepts_txn (gp_request m) (gp_txnid m)" "gp_timestamp m = gp_opnum m"
    and ct: "ct_lastReqId (client_entry s (req_clientid (gp_request m))) \<le> req_clientreqid (gp_request m)"
  shows "\<exists>s'. accept_prepare env m s = Inr s' \<and> safe a0 s' \<and> kept s s'"
proof -
  let ?op = "gp_opnum m"
  define t where "t = add_pending (s\<lparr>gs_lastOp := ?op\<rparr>) ?op"
  let ?td = "TxnData_copy (ge_junk env ?op) (new_txnData (gp_txnid m) (gp_indep m) (gp_ro m) ?op (gp_request m))"
  have T: "gs_log t = gs_log s" "gs_lastOp t = ?op" "gs_lastCommitted t = gs_lastCommitted s" "gs_txnData t = gs_txnData s"
      "gs_locking t = gs_locking s" "gs_voteTimeouts t = gs_voteTimeouts s" "gs_app_state t = gs_app_state s" "AmLeader t = AmLeader s"
      "gs_voteQuorum t = gs_voteQuorum s" "AmLeader s \<longrightarrow> gs_localClock t = ?op" "gs_clientTable t = gs_clientTable s"
      "gs_pending t = (if gs_locking s then gs_pending s else pending_insert (?op, ?op) (gs_pending s))"
    using bk by (simp_all add: t_def AmLeader_def add_pending_def)
  have nm: "gs_lastOp s + 1 \<noteq> - 1" using op by simp
  obtain u where u: "append_entry env t (viewstamp2 (gp_view m) ?op) LOG_STATE_PREPARED (gp_request m) ?td = Inr u" "safe a0 u"
    "kept s u" "gs_clientTable u = gs_clientTable t"
    using new_txn_ok [OF safe nm op(1) T(1-10,12) req(1), of ?td env "gp_view m"] req(2) new_txnData_copy by (auto dest: appendedD(13))
  have "ct_lastReqId (client_entry u (req_clientid (gp_request m))) \<le> req_clientreqid (gp_request m)"
    using ct u(4) T(11) by (simp add: client_entry_def)
  then obtain x where x: "UpdateClientTable u (gp_request m) = Inr (put_client u (req_clientid (gp_request m)) x)"
    using gr_UpdateClientTable by blast
  have "accept_prepare env m s = rbind (append_entry env t (viewstamp2 (gp_view m) ?op) LOG_STATE_PREPARED (gp_request m) ?td) (acknowledge m)"
    by (simp add: accept_prepare_def log_prepare_def t_def op(1) [symmetric] req(3))
  then have run: "accept_prepare env m s = Inr (prepare_ok (put_client u (req_clientid (gp_request m)) x) m)"
    unfolding u(1) rbind_simps acknowledge_def x .
  have "core_eq u (put_client u (req_clientid (gp_request m)) x)" by simp
  from core_eqD(5) [OF this] show ?thesis using run u(2,3) by (simp add: prepare_ok_safe)
qed

lemma prepare_handled:
  assumes safe: "safe a0 s" and ex: "gr_expects accepts_txn s (Deliver remote (GrPrepare m))"
  shows "\<exists>s'. HandlePrepare env s m = Inr s' \<and> safe a0 s' \<and> kept s s'"
proof (cases "gp_opnum m \<le> gs_lastOp s")
  case True
  then show ?thesis using safe ex by (simp add: HandlePrepare_def prepare_ok_safe)
next
  case False
  then have lt: "gs_lastOp s < gp_opnum m" by simp
  note O = op_range_ops_after [OF lt]
  have bk: "\<not> AmLeader s" and nm: "gp_opnum m \<noteq> - 1" using ex by simp_all
  have "unat (gp_opnum m - 1) = unat (gp_opnum m) - 1" using lt by (intro unat_sub_1) (simp add: word_less_nat_alt)
  then have "gp_opnum m - 1 \<noteq> - 1" using unat_u64_bound [of "gp_opnum m"] lt unfolding u64_not_max by (simp add: word_less_nat_alt)
  from fill_ok [OF safe bk O(2) this, of env "gp_view m"] obtain t where
    t: "fold_r (fill_entry env (gp_view m)) s (ops_after (gs_lastOp s) (gp_opnum m - 1)) = Inr t" "safe a0 t" "kept s t"
      "gs_lastOp t = gp_opnum m - 1" "\<not> AmLeader t" "gs_clientTable t = gs_clientTable s" by (auto simp: kept_def)
  have "gp_opnum m = gs_lastOp t + 1" using t(4) O(3) by simp
  from accept_prepare_ok [OF t(2,5) this nm, of env] t(1,6) kept_trans [OF t(3)] ex lt show ?thesis
    by (auto simp: HandlePrepare_def O(1) client_entry_def)
qed

lemma vote_handled:
  assumes safe: "safe a0 s" and env: "ge_app env = app" and ex: "1 < gv_nshards m"
  shows "\<exists>s'. HandleVote env s m = Inr s' \<and> safe a0 s' \<and> kept s s'"
proof (cases "AmLeader s")
  case True
  have wf: "log_wf (gs_log s)" and votes: "votes_ok (gs_voteQuorum s)" using safe by (simp_all add: gr_safe_def gr_inv_def gr_log_inv_def)
  let ?rid = "(gv_clientid m, gv_clientreqid m)"
  obtain r where r: "Find_reqid s ?rid = Inr r" using Find_reqid_ok [OF wf] by blast
  show ?thesis
  proof (cases r)
    case None
    have "safe a0 (s\<lparr>gs_voteQuorum := ms_Add (SetShardRequired (gs_voteQuorum s) ?rid (gv_nshards m - 1)) ?rid (sint (gv_shard_num m)) 0 m\<rparr>)"
      using votes by (intro gr_safe_votes(1) [OF safe] votes_ok_Add votes_ok_SetShardRequired)
    then show ?thesis using True ex r None by (simp add: HandleVote_def Let_def)
  next
    case (Some p)
    obtain op e where p: "p = (op, e)" by (cases p)
    have e: "log_at (gs_log s) op = Some e"
      using r Some p by (auto simp: Find_reqid_def Find_eq [OF wf] split: option.splits)
    show ?thesis
    proof (cases "td_ts_decided (gs_txnData s op)")
      case True
      then show ?thesis using \<open>AmLeader s\<close> ex r Some p safe by (simp add: HandleVote_def Let_def)
    next
      case False
      let ?t = "s\<lparr>gs_voteQuorum := ms_Add (gs_voteQuorum s) ?rid (sint (gv_shard_num m)) 0 m\<rparr>"
      have "safe a0 ?t" using votes by (intro gr_safe_votes(1) [OF safe] votes_ok_Add)
      from CheckVoteQuorum_ok [OF this env, of op e] e False obtain s' where
        s': "CheckVoteQuorum env ?t op = Inr s'" "safe a0 s'" "same ?t s'" "settled_but op ?t \<longrightarrow> settled s'" by auto
      moreover have "settled s \<longrightarrow> settled_but op ?t" using settled_imp_but [of ?t] by simp
      ultimately have "kept s s'" using sameD(4) [OF s'(3)] by (simp add: kept_def)
      then show ?thesis using s'(1,2) \<open>AmLeader s\<close> ex r Some p False by (auto simp: HandleVote_def Let_def)
    qed
  qed
qed (use safe ex in \<open>simp add: HandleVote_def\<close>)

lemma vote_request_handled:
  assumes safe: "safe a0 s"
  shows "\<exists>s'. HandleVoteRequest s remote m = Inr s' \<and> safe a0 s' \<and> kept s s'"
proof (cases "AmLeader s")
  case True
  have wf: "log_wf (gs_log s)" using safe by (simp add: gr_safe_def gr_inv_def gr_log_inv_def)
  obtain r where "Find_reqid s (vr_clientid m, vr_clientreqid m) = Inr r" using Find_reqid_ok [OF wf] by blast
  then show ?thesis using True safe by (cases r) (auto simp: HandleVoteRequest_def)
qed (use safe in \<open>simp add: HandleVoteRequest_def\<close>)

lemma fill_final_ok:
  assumes safe: "safe a0 s" and env: "ge_app env = app" and bk: "\<not> AmLeader s" and nm: "gf_opnum m \<noteq> - 1"
  shows "\<exists>s'. fill_final env s m = Inr s' \<and> safe a0 s' \<and> gf_opnum m \<le> gs_lastOp s' \<and> gs_locking s' = gs_locking s"
proof (cases "gs_lastOp s < gf_opnum m")
  case True
  then have le: "gs_lastOp s \<le> gf_opnum m" by simp
  from fill_ok [OF safe bk le nm, of env "gf_view m"] obtain t where
    t: "fold_r (fill_entry env (gf_view m)) s (ops_after (gs_lastOp s) (gf_opnum m)) = Inr t" "safe a0 t" "gs_lastOp t = gf_opnum m" "gs_locking t = gs_locking s"
    by blast
  have "gf_opnum m \<le> gs_lastOp t" using t(3) by simp
  from CommitUpTo_ok [OF t(2) env this] obtain u where u: "CommitUpTo env t (gf_opnum m) = Inr u" "safe a0 u" "same t u" by blast
  note U = sameD(3,4) [OF u(3)]
  have "\<exists>s'. (if gs_locking u then Inr u else ExecuteTxns env u) = Inr s' \<and> safe a0 s' \<and> same u s'"
    using u(2) ExecuteTxns_ok [OF u(2) _ env] by auto
  then obtain s' where s': "(if gs_locking u then Inr u else ExecuteTxns env u) = Inr s'" "safe a0 s'" "same u s'" by blast
  have "fill_final env s m = (if gs_locking u then Inr u else ExecuteTxns env u)" using True t(1) u(1) by (simp add: fill_final_def)
  then show ?thesis using s' U t(3,4) sameD(3,4) [OF s'(3)] by simp
next
  case False
  then have "fill_final env s m = Inr s" by (simp add: fill_final_def)
  then show ?thesis using safe False by (simp add: not_less)
qed

lemma final_timestamp_handled:
  assumes safe: "safe a0 s" and env: "ge_app env = app" and ex: "gr_expects accepts_txn s (Deliver remote (GrFinalTimestamp m))"
  shows "\<exists>s'. HandleFinalTimestamp env s m = Inr s' \<and> safe a0 s' \<and> settled s' \<and> kept s s'"
proof -
  let ?op = "gf_opnum m"
  have bk: "\<not> AmLeader s" and nm: "?op \<noteq> - 1" "?op \<noteq> 0" using ex by simp_all
  obtain t where t: "fill_final env s m = Inr t" "safe a0 t" "?op \<le> gs_lastOp t" "gs_locking t = gs_locking s"
    using fill_final_ok [OF safe env bk nm(1)] by blast
  have inv: "gr_log_inv t" using t(2) by (simp add: gr_safe_def gr_inv_def)
  note I = gr_log_invD [OF inv]
  have one: "1 \<le> ?op" using nm(2) by (simp add: word_le_nat_alt) (metis One_nat_def Suc_leI unat_gt_0)
  then obtain e where e: "log_at (gs_log t) ?op = Some e" using log_at_dom [OF I(1), of ?op] I(2,4) t(3) by auto
  define td where "td = (gs_txnData t ?op)\<lparr>td_final_ts := gf_timestamp m, td_ts_decided := True, td_status := gf_status m\<rparr>"
  have u: "safe a0 (set_txnData t ?op td) \<and> same t (set_txnData t ?op td)" by (rule set_txnData_safe [OF t(2)]) (simp_all add: td_def)
  have "?op \<le> gs_lastOp (set_txnData t ?op td)" using t(3) by simp
  from CommitUpTo_ok [OF conjunct1 [OF u] env this] obtain w where
    w: "CommitUpTo env (set_txnData t ?op td) ?op = Inr w" "safe a0 w" "same (set_txnData t ?op td) w" "?op \<le> gs_lastCommitted w" by auto
  have run: "HandleFinalTimestamp env s m = (if gs_locking w then ExecuteTxn env w ?op else ExecuteTxns env w)"
    using bk t(1) e w(1) by (simp add: HandleFinalTimestamp_def Find_eq [OF I(1)] td_def [symmetric])
  have lock: "gs_locking w = gs_locking s" using sameD(4) [OF w(3)] t(4) by simp
  show ?thesis
  proof (cases "gs_locking w")
    case True
    have W: "gr_log_inv w" "gr_inv accepts_txn w" using w(2) by (simp_all add: gr_safe_def gr_inv_def)
    obtain x where x: "log_at (gs_log w) ?op = Some x"
      using sameD(1) [OF w(3)] sameD(1) [OF conjunct2 [OF u]] e by (metis (no_types, lifting) cell_def map_option_eq_Some option.simps(9))
    have "le_state x \<noteq> LOG_STATE_EXECUTED \<longrightarrow> le_state x = LOG_STATE_COMMITTED"
      using gr_inv_entry [OF W(2) x] w(4) by (auto simp: entry_ok_def split: if_splits)
    from ExecuteTxn_ok [OF w(2) True env x this] obtain s' where s': "ExecuteTxn env w ?op = Inr s'" "safe a0 s'" "same w s'" by blast
    have "settled s'" using True sameD(4) [OF s'(3)] by (simp add: settled_def)
    then show ?thesis using run True s' lock sameD(4) [OF s'(3)] by (simp add: kept_def)
  next
    case False
    from ExecuteTxns_ok [OF w(2) this env] obtain s' where "ExecuteTxns env w = Inr s'" "safe a0 s'" "same w s'" "settled s'" by blast
    then show ?thesis using run False lock sameD(4) [of w s'] by (auto simp: kept_def)
  qed
qed

lemma commit_handled:
  assumes safe: "safe a0 s" and env: "ge_app env = app"
  shows "AmLeader s \<Longrightarrow> go_opnum m \<le> gs_lastOp s \<Longrightarrow> \<exists>s'. HandlePrepareOK env s m = Inr s' \<and> safe a0 s' \<and> kept s s'"
    and "\<not> AmLeader s \<Longrightarrow> \<exists>s'. HandleCommit env s c = Inr s' \<and> safe a0 s' \<and> kept s s'"
proof -
  assume lead: "AmLeader s" and le: "go_opnum m \<le> gs_lastOp s"
  obtain q r where q: "AddAndCheckForQuorum (gs_prepareOKQuorum s) (viewstamp2 (go_view m) (go_opnum m)) (go_replica_num m) m = (q, r)"
    by (cases "AddAndCheckForQuorum (gs_prepareOKQuorum s) (viewstamp2 (go_view m) (go_opnum m)) (go_replica_num m) m") blast
  have "core_eq s (s\<lparr>gs_prepareOKQuorum := q\<rparr>)" by simp
  note C = core_eqD [OF this]
  have S: "safe a0 (s\<lparr>gs_prepareOKQuorum := q\<rparr>)" using safe unfolding C(5) .
  have K: "kept s (s\<lparr>gs_prepareOKQuorum := q\<rparr>)" using C(3) by (simp add: kept_def)
  have "go_opnum m \<le> gs_lastOp (s\<lparr>gs_prepareOKQuorum := q\<rparr>)" using le by simp
  from CommitUpTo_ok [OF S env this] obtain s' where
    s': "CommitUpTo env (s\<lparr>gs_prepareOKQuorum := q\<rparr>) (go_opnum m) = Inr s'" "safe a0 s'" "kept (s\<lparr>gs_prepareOKQuorum := q\<rparr>) s'"
    using kept_same by blast
  show "\<exists>s'. HandlePrepareOK env s m = Inr s' \<and> safe a0 s' \<and> kept s s'"
    using s' S K kept_trans [OF K s'(3)] lead q by (cases r) (auto simp: HandlePrepareOK_def Let_def)
next
  assume "\<not> AmLeader s"
  then show "\<exists>s'. HandleCommit env s c = Inr s' \<and> safe a0 s' \<and> kept s s'"
    using CommitUpTo_ok [OF safe env, of "gc_opnum c"] safe kept_same [of s] by (auto simp: HandleCommit_def not_less)
qed

lemma timeouts_handled:
  assumes safe: "safe a0 s"
  shows "\<exists>s'. PrepareTimeout s = Inr s' \<and> safe a0 s' \<and> kept s s'"
    and "\<exists>s'. VoteTimeout s op = Inr s' \<and> safe a0 s' \<and> kept s s'"
proof -
  have inv: "gr_inv accepts_txn s" using safe by (simp add: gr_safe_def)
  show "\<exists>s'. PrepareTimeout s = Inr s' \<and> safe a0 s' \<and> kept s s'"
    using SendPrepare_ok [OF safe] inv safe by (auto simp: PrepareTimeout_def gr_inv_def)
  show "\<exists>s'. VoteTimeout s op = Inr s' \<and> safe a0 s' \<and> kept s s'"
  proof (cases "gs_voteTimeouts s op")
    case True
    have L: "gr_log_inv s" using inv by (simp add: gr_inv_def)
    note I = gr_log_invD [OF L]
    have "op \<noteq> 0" "op \<le> gs_lastOp s" using inv True I(6) by (auto simp: gr_inv_def dest: order_trans)
    then have "1 \<le> op" "op \<le> gs_lastOp s" by (simp_all add: word_le_nat_alt) (metis One_nat_def Suc_leI unat_gt_0)
    then obtain e where e: "log_at (gs_log s) op = Some e" using log_at_dom [OF I(1), of op] I(2,4) by auto
    have "safe a0 (SendVoteRequest s (le_request e)) \<and> kept s (SendVoteRequest s (le_request e))"
      using safe by (simp add: SendVoteRequest_def Let_def split: option.splits)
    then show ?thesis using True e by (simp add: VoteTimeout_def Find_eq [OF I(1)])
  qed (use safe in \<open>simp add: VoteTimeout_def\<close>)
qed

lemma granola_step:
  assumes "safe a0 s" and "ge_app env = app" and "gr_expects accepts_txn s ev"
  shows "\<exists>s'. granola_handle env s ev = Inr s' \<and> safe a0 s' \<and> kept s s'"
proof (cases ev)
  case (Deliver remote m)
  then show ?thesis
    using assms request_ok [of a0 s remote _ env] prepare_handled [of a0 s remote _ env] commit_handled [of a0 s env] vote_handled [of a0 s env]
      vote_request_handled [of a0 s remote] final_timestamp_handled [of a0 s env remote]
    by (cases m) fastforce+
qed (use assms timeouts_handled [of a0 s] in fastforce)+

end

section \<open>Runs\<close>

lemma granola_new_safe:
  assumes "GranolaServer_new config g i lk a0 = Inr s" and "app_ok a0"
  shows "gr_safe app app_ok acc a0 s \<and> settled s \<and> gs_locking s = lk"
proof -
  obtain l where l: "Log_new False 1 EMPTY_HASH = Inr l"
    and s: "s = \<lparr>gs_configuration = config, gs_groupIdx = g, gs_replicaIdx = i, gs_log = l,
            gs_clientReqMap = Map.empty, gs_txnData = (\<lambda>_. TxnData_default COMMIT), gs_view = 0, gs_lastOp = 0, gs_lastCommitted = 0,
            gs_locking = lk, gs_clientAddresses = Map.empty, gs_clientTable = Map.empty, gs_localClock = 0,
            gs_pending = [], gs_prepareOKQuorum = QuorumSet_new (QuorumSize config - 1), gs_voteQuorum = MessageSet_new 1,
            gs_resendPrepareTimeout = False, gs_voteTimeouts = (\<lambda>_. False), gs_app_state = a0, gs_outbox = []\<rparr>"
    using assms(1) by (auto simp: GranolaServer_new_def)
  have L: "log_wf l" "entries l = []" "start l = 1" "\<not> useHash l" using l log_wf_new [of 1 False EMPTY_HASH l] by (auto simp: Log_new_def)
  then have at: "log_at l op = None" for op by (simp add: log_at_def)
  have inv: "gr_log_inv s" using L by (simp add: s gr_log_inv_def LastOpnum_def)
  have "cell s op = None" for op by (simp add: cell_def s at)
  then have "gr_inv acc s" using inv by (simp add: gr_inv_def s at votes_ok_def MessageSet_new_def)
  moreover have "in_order app a0 s []" by (simp add: in_order_def s)
  ultimately show ?thesis using assms(2) by (auto simp: gr_safe_def settled_def s)
qed

text \<open>The contract of a server over an application, and what it gives for every run.\<close>

locale granola_over = retry_app "ge_app env" app_ok accepts_txn for env :: "'a granola_env" and app_ok accepts_txn
begin

sublocale granola_total: total_system "granola_handle env" "gr_expects accepts_txn" "\<lambda>s. safe a0 s \<and> settled s \<and> gs_locking s = lk" for a0 lk
proof
  fix s :: "'a GranolaServer" and ev s'
  assume "safe a0 s \<and> settled s \<and> gs_locking s = lk" "gr_expects accepts_txn s ev" "granola_handle env s ev = Inr s'"
  then show "safe a0 s' \<and> settled s' \<and> gs_locking s' = lk" using granola_step [of a0 s env ev] by (auto simp: kept_def)
next
  fix s :: "'a GranolaServer" and ev
  assume "safe a0 s \<and> settled s \<and> gs_locking s = lk" "gr_expects accepts_txn s ev"
  then show "\<exists>s'. granola_handle env s ev = Inr s'" using granola_step [of a0 s env ev] by auto
qed

lemma granola_run:
  assumes "app_ok a0" and "GranolaServer_new config g i lk a0 = Inr s0" and "accepts (granola_handle env) (gr_expects accepts_txn) s0 es"
  shows "\<exists>s. fold_r (granola_handle env) s0 es = Inr s \<and> safe a0 s \<and> settled s \<and> gs_locking s = lk"
  by (rule granola_total.run_total [OF _ assms(3)]) (rule granola_new_safe [OF assms(2), of app_ok, OF assms(1)])

end

definition kv_granola :: "kv_params \<Rightarrow> (string \<Rightarrow> string) \<Rightarrow> (u64 \<Rightarrow> Status) \<Rightarrow> KVTxnServer granola_env" where
  "kv_granola P sha1 junk = \<lparr>ge_app = kv_app P, ge_sha1 = sha1, ge_junk = junk\<rparr>"

interpretation granola_kv: granola_over "kv_granola P sha1 junk" "kv_retry_ok P" any_txn for P sha1 junk
proof -
  have "ge_app (kv_granola P sha1 junk) = kv_app P" by (simp add: kv_granola_def)
  then show "granola_over (kv_granola P sha1 junk) (kv_retry_ok P) any_txn"
    using kv_retry.retry_app_axioms by (simp add: granola_over_def)
qed

text \<open>C22. Without locks a Granola server executes the transactions of its log one after the other, in log order, each once.  After
  any run of expected events from the constructor, over an application that accepts the transactions, no assertion has failed; the
  transactions in the log are those executed followed by those pending; the application is in the state of running exactly the
  executed ones; and the first pending one has no final timestamp yet or is not replicated, so nothing waits that could run.\<close>

theorem granola_executes_in_order:
  assumes app: "retry_app (ge_app env) app_ok acc" "app_ok a0" and new: "GranolaServer_new config g i False a0 = Inr s0"
    and es: "accepts (granola_handle env) (gr_expects acc) s0 es"
  shows "\<exists>s ops. fold_r (granola_handle env) s0 es = Inr s \<and>
     filter (is_txn s) (ops_after 0 (gs_lastOp s)) = ops @ map fst (gs_pending s) \<and>
     fold_r (run_cell (ge_app env)) a0 (map (cell s) ops) = Inr (gs_app_state s) \<and>
     (gs_pending s = [] \<or> \<not> executable s (fst (hd (gs_pending s))))"
proof -
  have "granola_over env app_ok acc" using app(1) by (simp add: granola_over_def)
  from granola_over.granola_run [OF this app(2) new es] obtain s where
    s: "fold_r (granola_handle env) s0 es = Inr s" "gr_safe (ge_app env) app_ok acc a0 s" "settled s" "\<not> gs_locking s" by blast
  then obtain ops where "in_order (ge_app env) a0 s ops" by (auto simp: gr_safe_def)
  then show ?thesis using s(1,3,4) by (cases "gs_pending s") (auto simp: in_order_def settled_def)
qed

text \<open>A leader for the witnesses: two clients' transactions on two shards, of which the second gets its vote first.\<close>

definition shard_req :: "string \<Rightarrow> u64 \<Rightarrow> u64 \<Rightarrow> Request" where
  "shard_req op c r = (sample_req op c r)\<lparr>req_ops := map (\<lambda>i. \<lparr>so_shard = i, so_op = '''', so_msgnum = 0\<rparr>) [0, 1]\<rparr>"

definition sample_request :: "u64 \<Rightarrow> string \<Rightarrow> u64 \<Rightarrow> granola_event" where
  "sample_request t op c = Deliver (unat c) (GrRequest \<lparr>gq_txnid = t, gq_indep = True, gq_ro = False, gq_request = shard_req op c 1\<rparr>)"

definition sample_ok :: "u64 \<Rightarrow> granola_event" where
  "sample_ok op = Deliver 0 (GrPrepareOK \<lparr>go_view = 0, go_opnum = op, go_replica_num = 1\<rparr>)"

definition vote_from :: "u32 \<Rightarrow> u64 \<Rightarrow> Status \<Rightarrow> granola_event" where
  "vote_from shard c st = Deliver 0 (GrVote \<lparr>gv_clientid = c, gv_clientreqid = 1, gv_shard_num = shard, gv_nshards = 2, gv_status = st\<rparr>)"

definition sample_shard :: "int \<Rightarrow> int \<Rightarrow> bool \<Rightarrow> 'a \<Rightarrow> 'a GranolaServer" where
  "sample_shard g i lk a = (case GranolaServer_new (sample_config 1) g i lk a of Inr s \<Rightarrow> s)"

lemma sample_shard_new: "GranolaServer_new (sample_config 1) g i lk a = Inr (sample_shard g i lk a)"
  by (simp add: sample_shard_def GranolaServer_new_def Log_new_def EMPTY_HASH_def)

definition sample_granola :: "KVTxnServer granola_env" where
  "sample_granola = kv_granola sample_kv (\<lambda>s. s) (\<lambda>_. COMMIT)"

definition sample_order_run :: "granola_event list" where
  "sample_order_run = [sample_request 7 ''x'' 3, sample_request 8 ''y'' 4, sample_ok 2, vote_from 1 4 COMMIT]"

theorem granola_executes_in_order_witness:
  "\<exists>s. fold_r (granola_handle sample_granola) (sample_shard 0 0 False (kv_server True)) sample_order_run = Inr s \<and>
     gs_pending s = [(1, 1), (2, 2)] \<and> gs_app_state s = kv_server True \<and> \<not> executable s 1"
proof -
  let ?s0 = "sample_shard 0 0 False (kv_server True)"
  let ?run = "fold_r (granola_handle sample_granola) ?s0 sample_order_run"
  have app: "retry_app (ge_app sample_granola) (kv_retry_ok sample_kv) any_txn" "kv_retry_ok sample_kv (kv_server True)"
    using kv_retry.retry_app_axioms kv_retry_new [OF kv_server_new sample_orders] by (simp_all add: sample_granola_def kv_granola_def)
  have ok: "accepts (granola_handle sample_granola) (gr_expects any_txn) ?s0 sample_order_run" by code_simp
  obtain s ops where s: "?run = Inr s" "filter (is_txn s) (ops_after 0 (gs_lastOp s)) = ops @ map fst (gs_pending s)"
    "fold_r (run_cell (ge_app sample_granola)) (kv_server True) (map (cell s) ops) = Inr (gs_app_state s)"
    "gs_pending s = [] \<or> \<not> executable s (fst (hd (gs_pending s)))"
    using granola_executes_in_order [OF app sample_shard_new ok] by blast
  have "case ?run of Inl _ \<Rightarrow> False | Inr s \<Rightarrow> gs_pending s = [(1, 1), (2, 2)] \<and> filter (is_txn s) (ops_after 0 (gs_lastOp s)) = [1, 2]" by code_simp
  then have p: "gs_pending s = [(1, 1), (2, 2)]" "ops = []" using s(1,2) by auto
  then show ?thesis using s(1,3,4) by simp
qed

text \<open>C24. In locking mode the Granola server and the key-value server run together without failing an assertion of either: whatever
  transactions, acknowledgements, votes and final timestamps arrive, every event is handled, the locks of the key-value server stay
  consistent with its pending transactions, and beyond the commit point nothing has been prepared.\<close>

theorem granola_locking_run:
  assumes kv: "KVTxnServer_new True myShard nShards keys = Inr kv" and new: "GranolaServer_new config g i True kv = Inr s0"
    and ord: "iterates (kvp_rord P)" "iterates (kvp_hord P)"
    and es: "accepts (granola_handle (kv_granola P sha1 junk)) (gr_expects any_txn) s0 es"
  shows "\<exists>s. fold_r (granola_handle (kv_granola P sha1 junk)) s0 es = Inr s \<and> kv_ok (gs_app_state s) \<and>
     gs_lastCommitted s \<le> gs_lastOp s \<and>
     (\<forall>op e. log_at (gs_log s) op = Some e \<and> req_ops (le_request e) \<noteq> [] \<longrightarrow> (le_state e = LOG_STATE_PREPARED \<longleftrightarrow> gs_lastCommitted s < op))"
proof -
  obtain s where s: "fold_r (granola_handle (kv_granola P sha1 junk)) s0 es = Inr s"
    "gr_safe (ge_app (kv_granola P sha1 junk)) (kv_retry_ok P) any_txn kv s"
    using granola_kv.granola_run [OF kv_retry_new [OF kv ord] new es] by blast
  then have inv: "gr_inv any_txn s" "kv_ok (gs_app_state s)" by (simp_all add: gr_safe_def kv_retry_ok_def)
  have "le_state e = LOG_STATE_PREPARED \<longleftrightarrow> gs_lastCommitted s < op"
    if "log_at (gs_log s) op = Some e" "req_ops (le_request e) \<noteq> []" for op e
    using gr_inv_entry [OF inv(1) that(1)] that(2) by (auto simp: entry_ok_def not_le split: if_splits)
  then show ?thesis using s(1) inv gr_log_invD(6) [of s] by (auto simp: gr_inv_def)
qed

definition sample_locking_run :: "granola_event list" where
  "sample_locking_run = [sample_request 7 ''x'' 3, sample_request 8 ''x'' 4, sample_ok 2, VoteTimer 1, vote_from 1 3 COMMIT, vote_from 1 4 COMMIT]"

theorem granola_locking_run_witness:
  "\<exists>s. fold_r (granola_handle (kv_granola sample_kv (\<lambda>s. s) (\<lambda>_. COMMIT))) (sample_shard 0 0 True (kv_server True)) sample_locking_run = Inr s \<and>
     kv_ok (gs_app_state s) \<and> kv_store (kvs_store (gs_app_state s)) ''x'' = Some ''v'' \<and> td_status (gs_txnData s 2) = CONFLICT"
proof -
  let ?env = "kv_granola sample_kv (\<lambda>s. s) (\<lambda>_. COMMIT)"
  let ?run = "fold_r (granola_handle ?env) (sample_shard 0 0 True (kv_server True)) sample_locking_run"
  have ok: "accepts (granola_handle ?env) (gr_expects any_txn) (sample_shard 0 0 True (kv_server True)) sample_locking_run" by code_simp
  have "case ?run of Inl _ \<Rightarrow> False
     | Inr s \<Rightarrow> kv_store (kvs_store (gs_app_state s)) ''x'' = Some ''v'' \<and> td_status (gs_txnData s 2) = CONFLICT" by code_simp
  then show ?thesis using granola_locking_run [OF kv_server_new sample_shard_new sample_orders ok] by (auto simp: sample_kv_def)
qed

section \<open>Decisions\<close>

text \<open>What shards should agree on: abort if one aborts, else retry if one has a conflict.\<close>

definition worst :: "Status set \<Rightarrow> Status" where
  "worst S = (if ABORT \<in> S then ABORT else if CONFLICT \<in> S then CONFLICT else COMMIT)"

definition votes_in :: "VoteMessage shard_messages \<Rightarrow> Status set" where
  "votes_in msgs = {gv_status m |p m. p \<in> set msgs \<and> map_of (snd p) 0 = Some m}"

lemma votes_in_Cons: "map_of ms 0 = Some m \<Longrightarrow> votes_in ((sh, ms) # rest) = insert (gv_status m) (votes_in rest)"
  by (auto simp: votes_in_def)

lemma decide_worst:
  assumes "\<forall>p\<in>set msgs. map_of (snd p) 0 \<noteq> None" and "st \<noteq> ABORT"
  shows "decide st msgs = Inr (worst (insert st (votes_in msgs)))"
  using assms
proof (induction st msgs rule: decide.induct)
  case (1 st)
  then show ?case by (cases st) (auto simp: votes_in_def worst_def)
next
  case (2 st sh ms rest)
  then obtain m where m: "map_of ms 0 = Some m" by auto
  show ?case using 2 m by (cases "gv_status m"; cases st) (auto simp: votes_in_Cons worst_def)
qed

text \<open>C23. Shards in locking mode decide a transaction alike.  When each of the shards of a transaction has the votes of all the
  others, every one decides, tells its replicas, and the decision is the same on all: to abort if one shard aborts,
  otherwise to retry if one has a conflict, otherwise to commit.\<close>

theorem shards_decide_alike:
  assumes "\<forall>i\<in>S. gs_locking (srv i) \<and> td_status (gs_txnData (srv i) (opn i)) = st i"
    and "\<forall>i\<in>S. \<forall>p\<in>set (msgs i). map_of (snd p) 0 \<noteq> None" and "\<forall>i\<in>S. votes_in (msgs i) = st ` (S - {i})"
  shows "\<forall>i\<in>S. \<exists>s' m. decide_txn (srv i) (opn i) (ent i) (msgs i) = Inr s' \<and>
     td_ts_decided (gs_txnData s' (opn i)) \<and> td_status (gs_txnData s' (opn i)) = worst (st ` S) \<and>
     gs_outbox s' = gs_outbox (srv i) @ [(AllReplicas, OutServer (GrFinalTimestamp m))] \<and> gf_status m = worst (st ` S)"
proof
  fix i
  assume i: "i \<in> S"
  have set: "insert (st i) (st ` (S - {i})) = st ` S" using i by auto
  have mode: "gs_locking (srv i)" "td_status (gs_txnData (srv i) (opn i)) = st i" using assms(1) i by auto
  have "(if st i \<noteq> ABORT then decide (st i) (msgs i) else Inr (st i)) = Inr (worst (st ` S))"
    using decide_worst [of "msgs i" "st i"] assms(2,3) i set by (auto simp: worst_def)
  then show "\<exists>s' m. decide_txn (srv i) (opn i) (ent i) (msgs i) = Inr s' \<and>
     td_ts_decided (gs_txnData s' (opn i)) \<and> td_status (gs_txnData s' (opn i)) = worst (st ` S) \<and>
     gs_outbox s' = gs_outbox (srv i) @ [(AllReplicas, OutServer (GrFinalTimestamp m))] \<and> gf_status m = worst (st ` S)"
    using mode by (cases "st i = ABORT") (auto simp: decide_txn_def Let_def set_txnData_def send_def)
qed

text \<open>Two shards, of which one has a conflict.\<close>

definition voting_shard :: "nat \<Rightarrow> Status \<Rightarrow> KVTxnServer GranolaServer" where
  "voting_shard g st = set_txnData (sample_shard (int g) 0 True (kv_server True)) 1 (TxnData_default st)"

definition vote_of :: "nat \<Rightarrow> Status \<Rightarrow> VoteMessage shard_messages" where
  "vote_of g st = [(int g, [(0, \<lparr>gv_clientid = 3, gv_clientreqid = 1, gv_shard_num = word_of_nat g, gv_nshards = 2, gv_status = st\<rparr>)])]"

theorem shards_decide_alike_witness:
  "\<exists>s t. decide_txn (voting_shard 0 COMMIT) 1 (LogEntry_new (viewstamp2 0 1) LOG_STATE_COMMITTED (shard_req ''x'' 3 1)) (vote_of 1 CONFLICT) = Inr s \<and>
     decide_txn (voting_shard 1 CONFLICT) 1 (LogEntry_new (viewstamp2 0 1) LOG_STATE_COMMITTED (shard_req ''x'' 3 1)) (vote_of 0 COMMIT) = Inr t \<and>
     td_status (gs_txnData s 1) = CONFLICT \<and> td_status (gs_txnData t 1) = CONFLICT"
proof -
  let ?st = "\<lambda>i. if i = 0 then COMMIT else CONFLICT"
  let ?e = "LogEntry_new (viewstamp2 0 1) LOG_STATE_COMMITTED (shard_req ''x'' 3 1)"
  let ?S = "{0, 1 :: nat}"
  have worst: "worst (?st ` ?S) = CONFLICT" by (simp add: worst_def)
  have 1: "\<forall>i\<in>?S. gs_locking (voting_shard i (?st i)) \<and> td_status (gs_txnData (voting_shard i (?st i)) 1) = ?st i"
    by (simp add: voting_shard_def sample_shard_def GranolaServer_new_def Log_new_def EMPTY_HASH_def TxnData_default_def)
  have 2: "\<forall>i\<in>?S. \<forall>p\<in>set (vote_of (1 - i) (?st (1 - i))). map_of (snd p) 0 \<noteq> None" by (simp add: vote_of_def)
  have "?S - {0} = {1}" "?S - {1} = {0}" by auto
  then have 3: "\<forall>i\<in>?S. votes_in (vote_of (1 - i) (?st (1 - i))) = ?st ` (?S - {i})" by (simp add: vote_of_def votes_in_def)
  have all: "\<forall>i\<in>?S. \<exists>s' m. decide_txn (voting_shard i (?st i)) 1 ?e (vote_of (1 - i) (?st (1 - i))) = Inr s' \<and>
     td_ts_decided (gs_txnData s' 1) \<and> td_status (gs_txnData s' 1) = worst (?st ` ?S) \<and>
     gs_outbox s' = gs_outbox (voting_shard i (?st i)) @ [(AllReplicas, OutServer (GrFinalTimestamp m))] \<and> gf_status m = worst (?st ` ?S)"
    using shards_decide_alike [of ?S "\<lambda>i. voting_shard i (?st i)" "\<lambda>_. 1" ?st "\<lambda>i. vote_of (1 - i) (?st (1 - i))" "\<lambda>_. ?e", OF 1 2 3] .
  from bspec [OF all, of 0] bspec [OF all, of 1] show ?thesis unfolding worst by auto
qed

section \<open>Where the protocol is not followed\<close>

definition abort_messages :: "bool \<Rightarrow> granola_event list" where
  "abort_messages lost = map (Deliver 0)
     ([GrPrepare \<lparr>gp_view = 0, gp_opnum = 1, gp_txnid = 7, gp_indep = False, gp_ro = False, gp_request = shard_req ''x'' 3 1, gp_timestamp = 1\<rparr>] @
      (if lost then [] else [GrCommit \<lparr>gc_view = 0, gc_opnum = 1\<rparr>]) @
      [GrFinalTimestamp \<lparr>gf_view = 0, gf_opnum = 1, gf_timestamp = 1, gf_status = ABORT\<rparr>])"

definition stored_x :: "KVTxnServer GranolaServer result \<Rightarrow> string option option" where
  "stored_x r = (case r of Inl _ \<Rightarrow> None | Inr s \<Rightarrow> Some (kv_store (kvs_store (gs_app_state s)) ''x''))"

text \<open>Preparing an entry overwrites the status it had.\<close>

lemma prepare_txn_status:
  "prepare_txn env (set_txnData s op ((gs_txnData s op)\<lparr>td_status := st\<rparr>)) op e = prepare_txn env s op e"
  by (simp add: prepare_txn_def call_app_def set_txnData_def client_entry_def Let_def)

lemma set_state_txnData:
  "set_state (set_txnData s op td) i st = rbind (set_state s i st) (\<lambda>t. Inr (set_txnData t op td))"
  by (cases "SetStatus (gs_log s) i st") (auto simp: set_state_def set_txnData_def)

lemma commit_op_status:
  assumes "gs_locking s" and "Find (gs_log s) op = Inr (Some e)" and "le_state e \<noteq> LOG_STATE_EXECUTED"
  shows "commit_op env (set_txnData s op ((gs_txnData s op)\<lparr>td_status := st\<rparr>)) op = commit_op env s op"
proof -
  let ?td = "(gs_txnData s op)\<lparr>td_status := st\<rparr>"
  have u: "(set_txnData s op ?td)\<lparr>gs_lastCommitted := op\<rparr> = set_txnData (s\<lparr>gs_lastCommitted := op\<rparr>) op ?td"
    by (simp add: set_txnData_def)
  show ?thesis
  proof (cases "set_state (s\<lparr>gs_lastCommitted := op\<rparr>) op LOG_STATE_COMMITTED")
    case (Inl d)
    then show ?thesis using assms unfolding commit_op_def Let_def u set_state_txnData by (simp add: set_txnData_def)
  next
    case (Inr t)
    then have t: "gs_txnData t op = gs_txnData s op" "gs_locking t" using assms(1) by (auto simp: set_state_def)
    have "prepare_txn env (set_txnData t op ?td) op e = prepare_txn env t op e"
      using prepare_txn_status [of env t op st e] unfolding t(1) .
    then show ?thesis
      using assms Inr t(2) unfolding commit_op_def Let_def u set_state_txnData by (simp add: set_txnData_def)
  qed
qed

text \<open>C27. A backup in locking mode that has not committed a transaction ignores the group's decision on it.  When the final timestamp of
  the next operation to commit arrives before its COMMIT message, the backup does the same whatever
  status the message carries: it stores the decision, then prepares the transaction, which
  overwrites the decision with the local result, and finishes it by that.  An aborted transaction is committed wherever
  it can be prepared.\<close>

theorem final_status_ignored:
  assumes lock: "gs_locking s" and next_one: "gf_opnum msg = gs_lastCommitted s + 1" "gs_lastCommitted s < gf_opnum msg"
    and known: "gf_opnum msg \<le> gs_lastOp s" "Find (gs_log s) (gf_opnum msg) = Inr (Some e)" "le_state e \<noteq> LOG_STATE_EXECUTED"
  shows "HandleFinalTimestamp env s msg = HandleFinalTimestamp env s (msg\<lparr>gf_status := st\<rparr>)"
proof (cases "AmLeader s")
  case True
  then show ?thesis by (simp add: HandleFinalTimestamp_def)
next
  case False
  let ?op = "gf_opnum msg"
  define d where "d = (\<lambda>st. set_txnData s ?op ((gs_txnData s ?op)\<lparr>td_final_ts := gf_timestamp msg, td_ts_decided := True, td_status := st\<rparr>))"
  have d: "gs_lastCommitted (d x) = gs_lastCommitted s" "AmLeader (d x) = AmLeader s" "gs_log (d x) = gs_log s" "gs_locking (d x)" for x
    using lock by (simp_all add: d_def set_txnData_def AmLeader_def)
  have eq: "(d x)\<lparr>gs_resendPrepareTimeout := False\<rparr> = set_txnData ((d y)\<lparr>gs_resendPrepareTimeout := False\<rparr>) ?op
      ((gs_txnData ((d y)\<lparr>gs_resendPrepareTimeout := False\<rparr>) ?op)\<lparr>td_status := x\<rparr>)" for x y
    by (simp add: d_def set_txnData_def)
  have ops: "ops_after (gs_lastCommitted s) ?op = [?op]"
    using ops_after_Cons [OF next_one(2)] next_one(1) by simp
  have C: "CommitUpTo env (d x) ?op = commit_op env ((d x)\<lparr>gs_resendPrepareTimeout := False\<rparr>) ?op" for x
    using next_one(2) False by (simp add: CommitUpTo_def Let_def d ops rbind_id)
  have same: "CommitUpTo env (d x) ?op = CommitUpTo env (d y) ?op" for x y
    unfolding C eq [of x y] using known(2,3) by (intro commit_op_status [of _ _ e]) (simp_all add: d)
  have H: "HandleFinalTimestamp env s (msg\<lparr>gf_status := x\<rparr>) = rbind (CommitUpTo env (d x) ?op) (\<lambda>s3.
      if gs_locking s3 then ExecuteTxn env s3 ?op else ExecuteTxns env s3)" for x
  proof -
    have f: "gf_opnum (msg\<lparr>gf_status := x\<rparr>) = ?op" by simp
    show ?thesis
      using False leD [OF known(1)] known(2) unfolding HandleFinalTimestamp_def fill_final_def f by (simp add: d_def)
  qed
  have "msg\<lparr>gf_status := gf_status msg\<rparr> = msg" by simp
  then show ?thesis using H [of "gf_status msg"] H [of st] same [of "gf_status msg" st] by simp
qed

theorem final_status_ignored_witness:
  "\<exists>s. fold_r (granola_handle sample_granola) (sample_shard 0 1 True (kv_server True)) (take 1 (abort_messages True)) = Inr s \<and>
     HandleFinalTimestamp sample_granola s \<lparr>gf_view = 0, gf_opnum = 1, gf_timestamp = 1, gf_status = ABORT\<rparr> =
     HandleFinalTimestamp sample_granola s \<lparr>gf_view = 0, gf_opnum = 1, gf_timestamp = 1, gf_status = COMMIT\<rparr>"
proof -
  let ?run = "fold_r (granola_handle sample_granola) (sample_shard 0 1 True (kv_server True)) (take 1 (abort_messages True))"
  have c: "case ?run of Inl _ \<Rightarrow> False | Inr s \<Rightarrow> gs_locking s \<and> gs_lastCommitted s = 0 \<and> 1 \<le> gs_lastOp s \<and>
      (case Find (gs_log s) 1 of Inr (Some e) \<Rightarrow> le_state e = LOG_STATE_PREPARED | _ \<Rightarrow> False)"
    by code_simp
  then obtain s e where s: "?run = Inr s" "gs_locking s" "gs_lastCommitted s = 0" "1 \<le> gs_lastOp s"
    "Find (gs_log s) 1 = Inr (Some e)" "le_state e \<noteq> LOG_STATE_EXECUTED"
    by (auto split: sum.splits option.splits)
  have "HandleFinalTimestamp sample_granola s \<lparr>gf_view = 0, gf_opnum = 1, gf_timestamp = 1, gf_status = ABORT\<rparr> =
     HandleFinalTimestamp sample_granola s (\<lparr>gf_view = 0, gf_opnum = 1, gf_timestamp = 1, gf_status = ABORT\<rparr>\<lparr>gf_status := COMMIT\<rparr>)"
    using s by (intro final_status_ignored [of s _ e]) simp_all
  then show ?thesis using s(1) by simp
qed

text \<open>The whole execution: a backup misses the COMMIT message and commits a transaction whose final timestamp says to abort it;
  with the COMMIT message in its place the same messages abort it.\<close>

theorem aborted_transaction_committed:
  "map (\<lambda>lost. stored_x (fold_r (granola_handle sample_granola) (sample_shard 0 1 True (kv_server True)) (abort_messages lost))) [True, False] =
     [Some (Some ''v''), Some None]"
  by code_simp

definition log_app :: "string list txn_app" where
  "log_app a txn arg =
     Inr (a @ [txn], txn, \<lparr>tr_txnid = ta_txnid arg, tr_blocked = False, tr_commit = True, tr_unblocked_txns = {}, tr_mode = MODE_NORMAL\<rparr>)"

definition log_granola :: "string list granola_env" where
  "log_granola = \<lparr>ge_app = log_app, ge_sha1 = (\<lambda>s. s), ge_junk = (\<lambda>_. COMMIT)\<rparr>"

definition shard_run :: "int \<Rightarrow> granola_event list \<Rightarrow> string list GranolaServer result" where
  "shard_run g requests = fold_r (granola_handle log_granola) (sample_shard g 0 False [])
     (requests @ [sample_ok 2, vote_from (word_of_int (1 - g)) 3 COMMIT, vote_from (word_of_int (1 - g)) 4 COMMIT])"

definition votes_sent :: "string list GranolaServer \<Rightarrow> granola_event list" where
  "votes_sent s = concat (map (\<lambda>(d, m). case m of OutServer (GrVote v) \<Rightarrow> [Deliver 0 (GrVote v)] | _ \<Rightarrow> []) (gs_outbox s))"

text \<open>Two shards execute the same two transactions in opposite orders.  Each shard takes its own clock as the final timestamp and
  the votes carry no timestamps, so a shard that receives the transactions in another order executes them in that order; every vote that
  is delivered here is one the other shard has sent.\<close>

theorem opposite_orders:
  "case (shard_run 0 [sample_request 7 ''T1'' 3, sample_request 8 ''T2'' 4], shard_run 1 [sample_request 8 ''T2'' 4, sample_request 7 ''T1'' 3]) of
     (Inr s0, Inr s1) \<Rightarrow> gs_app_state s0 = [''T1'', ''T2''] \<and> gs_app_state s1 = [''T2'', ''T1''] \<and> gs_pending s0 = [] \<and> gs_pending s1 = [] \<and>
       votes_sent s0 = [vote_from 0 3 COMMIT, vote_from 0 4 COMMIT] \<and> votes_sent s1 = [vote_from 1 4 COMMIT, vote_from 1 3 COMMIT]
   | _ \<Rightarrow> False"
  by code_simp

end
