(* ===== verification/GranolaClient.thy ===== *)
theory GranolaClient
  imports GranolaServer ShardReplies
begin

text \<open>
  The client of the Granola protocol, \<^verbatim>\<open>transaction/granola/client.h\<close> and \<^verbatim>\<open>transaction/granola/client.cc\<close>: it sends a
  transaction to all its shards, waits for one reply of each, and sends it again under a new request identifier while the
  shards report a conflict.  A continuation is a token of type \<open>'k\<close>; what it does to the client is the list of \<^verbatim>\<open>Invoke\<close>
  calls it makes, which a parameter gives.  \<open>gc_outbox\<close> and \<open>gc_finished\<close> are histories of the messages with their group and
  of the continuations that were run.
\<close>

record clientarg_t =
  ca_indep :: bool
  ca_ro :: bool

definition MAX_RETRIES :: int where
  "MAX_RETRIES = 5"

record 'k PendingRequest =
  gk_txnid :: u64
  gk_client_req_id :: u64
  gk_requests :: shard_map
  gk_replies :: shard_map
  gk_continuation :: 'k
  gk_arg :: clientarg_t
  gk_num_retries :: int

definition PendingRequest_new :: "u64 \<Rightarrow> u64 \<Rightarrow> shard_map \<Rightarrow> shard_map \<Rightarrow> 'k \<Rightarrow> clientarg_t \<Rightarrow> 'k PendingRequest" where
  "PendingRequest_new txnid client_req_id requests replies continuation arg =
     \<lparr>gk_txnid = txnid, gk_client_req_id = client_req_id, gk_requests = requests, gk_replies = replies, gk_continuation = continuation,
      gk_arg = arg, gk_num_retries = 0\<rparr>"

record 'k GranolaClient =
  gc_clientid :: u64
  gc_txnid :: u64
  gc_lastReqId :: u64
  gc_pendingRequest :: "'k PendingRequest option"
  gc_requestTimeout :: bool
  gc_replySet :: "(u64, ReplyMessage) MessageSet"
  gc_outbox :: "(u32 \<times> RequestMessage) list"
  gc_finished :: "('k \<times> shard_map \<times> shard_map \<times> bool) list"

definition GranolaClient_new :: "u64 \<Rightarrow> 'k GranolaClient" where
  "GranolaClient_new clientid =
     \<lparr>gc_clientid = clientid, gc_txnid = clientid div 10000 * 10000, gc_lastReqId = 0, gc_pendingRequest = None,
      gc_requestTimeout = False, gc_replySet = MessageSet_new 1, gc_outbox = [], gc_finished = []\<rparr>"

text \<open>The message lists all shards; its operation is set for each group in turn.\<close>

definition client_request :: "'k GranolaClient \<Rightarrow> 'k PendingRequest \<Rightarrow> string \<Rightarrow> RequestMessage" where
  "client_request s p op =
     \<lparr>gq_txnid = gk_txnid p, gq_indep = ca_indep (gk_arg p), gq_ro = ca_ro (gk_arg p),
      gq_request = empty_Request\<lparr>req_clientid := gc_clientid s, req_clientreqid := gk_client_req_id p, req_op := op,
        req_ops := map (\<lambda>kv. \<lparr>so_shard = fst kv, so_op = '''', so_msgnum = 0\<rparr>) (gk_requests p)\<rparr>\<rparr>"

definition SendRequest :: "'k GranolaClient \<Rightarrow> 'k GranolaClient result" where
  "SendRequest s =
     (case gc_pendingRequest s of
        None \<Rightarrow> Inl UndefinedBehaviour
      | Some p \<Rightarrow> Inr (s\<lparr>gc_outbox := gc_outbox s @ map (\<lambda>kv. (fst kv, client_request s p (snd kv))) (gk_requests p),
                          gc_requestTimeout := True\<rparr>))"

text \<open>\<^verbatim>\<open>Invoke\<close> with a null argument fails an assertion; the forms without shards only warn.\<close>

definition Invoke :: "'k GranolaClient \<Rightarrow> shard_map \<Rightarrow> 'k \<Rightarrow> clientarg_t option \<Rightarrow> 'k GranolaClient result" where
  "Invoke s requests continuation arg =
     (case arg of
        None \<Rightarrow> Inl AssertFailed
      | Some a \<Rightarrow>
          check (gc_pendingRequest s = None) Panicked
            (let n = gc_lastReqId s + 1; t = gc_txnid s + 1
             in SendRequest (s\<lparr>gc_lastReqId := n, gc_txnid := t,
                    gc_pendingRequest := Some (PendingRequest_new t n requests [] continuation a),
                    gc_replySet := SetShardRequired (gc_replySet s) n (word_of_nat (length requests))\<rparr>)))"

definition Invoke_single :: "'k GranolaClient \<Rightarrow> string \<Rightarrow> 'k \<Rightarrow> 'k GranolaClient" where
  "Invoke_single s request continuation = s"

definition InvokeUnlogged :: "'k GranolaClient \<Rightarrow> int \<Rightarrow> string \<Rightarrow> 'k \<Rightarrow> 'k GranolaClient" where
  "InvokeUnlogged s replicaIdx request continuation = s"

definition RetryTransaction :: "'k GranolaClient \<Rightarrow> 'k GranolaClient result" where
  "RetryTransaction s =
     (case gc_pendingRequest s of
        None \<Rightarrow> Inl AssertFailed
      | Some p \<Rightarrow>
          let n = gc_lastReqId s + 1
          in SendRequest (s\<lparr>gc_lastReqId := n, gc_pendingRequest := Some (p\<lparr>gk_replies := [], gk_client_req_id := n\<rparr>),
                 gc_replySet := SetShardRequired (gc_replySet s) n (word_of_nat (length (gk_requests p)))\<rparr>))"

type_synonym 'k calls = "'k \<Rightarrow> shard_map \<Rightarrow> shard_map \<Rightarrow> bool \<Rightarrow> (shard_map \<times> 'k \<times> clientarg_t) list"

definition run_continuation :: "'k calls \<Rightarrow> 'k GranolaClient \<Rightarrow> 'k PendingRequest \<Rightarrow> bool \<Rightarrow> 'k GranolaClient result" where
  "run_continuation calls s p commit =
     fold_r (\<lambda>s (reqs, k, a). Invoke s reqs k (Some a))
       (s\<lparr>gc_pendingRequest := None, gc_finished := gc_finished s @ [(gk_continuation p, gk_requests p, gk_replies p, commit)]\<rparr>)
       (calls (gk_continuation p) (gk_requests p) (gk_replies p) commit)"

definition CompleteOperation :: "'k calls \<Rightarrow> 'k GranolaClient \<Rightarrow> Status \<Rightarrow> 'k GranolaClient result" where
  "CompleteOperation calls s status =
     (let s1 = s\<lparr>gc_requestTimeout := False, gc_replySet := ms_Clear (gc_replySet s)\<rparr> in
      case gc_pendingRequest s1 of
        None \<Rightarrow> Inl UndefinedBehaviour
      | Some p \<Rightarrow>
          if status = CONFLICT
          then let p1 = p\<lparr>gk_num_retries := gk_num_retries p + 1\<rparr>
               in if gk_num_retries p1 < MAX_RETRIES then RetryTransaction (s1\<lparr>gc_pendingRequest := Some p1\<rparr>)
                  else run_continuation calls s1 p1 False
          else run_continuation calls s1 p (status = COMMIT))"

text \<open>The body of the loop that records the replies; its state is the recorded replies.\<close>

definition record_reply :: "shard_map \<Rightarrow> Status \<Rightarrow> shard_map \<Rightarrow> int \<times> (int \<times> ReplyMessage) list \<Rightarrow> shard_map result" where
  "record_reply requests status replies kv =
     check (fst kv \<in> shard_set requests) AssertFailed
       (check (length (snd kv) = 1) AssertFailed
         (case map_of (snd kv) 0 of
            None \<Rightarrow> Inl AssertFailed
          | Some m \<Rightarrow> check (gr_status m = status) AssertFailed (Inr (smap_put (word_of_int (fst kv)) (gr_reply m) replies))))"

definition first_status :: "ReplyMessage shard_messages \<Rightarrow> Status result" where
  "first_status msgs =
     (case msgs of
        [] \<Rightarrow> Inl UndefinedBehaviour
      | (shard, ms) # _ \<Rightarrow> (case map_of ms 0 of None \<Rightarrow> Inl Panicked | Some m \<Rightarrow> Inr (gr_status m)))"

definition accept_replies :: "'k calls \<Rightarrow> 'k GranolaClient \<Rightarrow> 'k PendingRequest \<Rightarrow> ReplyMessage shard_messages \<Rightarrow> 'k GranolaClient result" where
  "accept_replies calls s p msgs =
     check (length msgs = length (gk_requests p)) AssertFailed
       (rbind (first_status msgs) (\<lambda>status.
        rbind (fold_r (record_reply (gk_requests p) status) (gk_replies p) msgs) (\<lambda>replies.
          check (length (gk_requests p) = length replies) AssertFailed
            (CompleteOperation calls (s\<lparr>gc_pendingRequest := Some (p\<lparr>gk_replies := replies\<rparr>)\<rparr>) status))))"

definition HandleReply :: "'k calls \<Rightarrow> 'k GranolaClient \<Rightarrow> ReplyMessage \<Rightarrow> 'k GranolaClient result" where
  "HandleReply calls s msg =
     (case gc_pendingRequest s of
        None \<Rightarrow> Inr s
      | Some p \<Rightarrow>
          if gr_clientreqid msg \<noteq> gk_client_req_id p then Inr s
          else let (q, msgs) = ms_AddAndCheckForQuorum (gc_replySet s) (gr_clientreqid msg) (sint (gr_shard_num msg)) 0 msg;
                   s1 = s\<lparr>gc_replySet := q\<rparr>
               in case msgs of None \<Rightarrow> Inr s1 | Some ms \<Rightarrow> accept_replies calls s1 p ms)"

definition RequestTimeout :: "'k GranolaClient \<Rightarrow> 'k GranolaClient result" where
  "RequestTimeout s = (if gc_requestTimeout s then SendRequest s else Inr s)"

datatype 'k client_event = AppInvokes shard_map 'k clientarg_t | ReplyArrives ReplyMessage | TimeoutFires

fun client_handle :: "'k calls \<Rightarrow> 'k GranolaClient \<Rightarrow> 'k client_event \<Rightarrow> 'k GranolaClient result" where
  "client_handle calls s (AppInvokes requests k a) = Invoke s requests k (Some a)"
| "client_handle calls s (ReplyArrives m) = HandleReply calls s m"
| "client_handle calls s TimeoutFires = RequestTimeout s"

section \<open>The invariant\<close>

definition collected :: "'k GranolaClient \<Rightarrow> (int \<times> ReplyMessage) list" where
  "collected s =
     (case gc_pendingRequest s of
        None \<Rightarrow> []
      | Some p \<Rightarrow> (case ms_messages (gc_replySet s) (gk_client_req_id p) of
                     None \<Rightarrow> []
                   | Some (ms, _) \<Rightarrow> unboxed ms))"

definition pending_ok :: "'k GranolaClient \<Rightarrow> 'k PendingRequest \<Rightarrow> bool" where
  "pending_ok s p \<longleftrightarrow> gk_client_req_id p = gc_lastReqId s \<and> gk_txnid p = gc_txnid s \<and> gk_replies p = [] \<and>
     smap_ok (gk_requests p) \<and> int (length (gk_requests p)) < 2 ^ 32 \<and> 0 \<le> gk_num_retries p \<and> gk_num_retries p < MAX_RETRIES \<and>
     (\<exists>R st. ms_messages (gc_replySet s) = [gk_client_req_id p \<mapsto> (boxed R, word_of_nat (length (gk_requests p)))] \<and>
        smap_ok R \<and> fst ` set R \<subseteq> shard_set (gk_requests p) \<and> (\<forall>x\<in>set R. gr_status (snd x) = st))"

definition gc_inv :: "'k GranolaClient \<Rightarrow> bool" where
  "gc_inv s \<longleftrightarrow> replicaRequired (gc_replySet s) = 1 \<and>
     (case gc_pendingRequest s of
        None \<Rightarrow> \<not> gc_requestTimeout s \<and> ms_messages (gc_replySet s) = Map.empty
      | Some p \<Rightarrow> gc_requestTimeout s \<and> pending_ok s p)"

text \<open>The replies of a finished round, as the continuation gets them.\<close>

definition reply_map :: "(int \<times> ReplyMessage) list \<Rightarrow> shard_map \<Rightarrow> shard_map" where
  "reply_map R reps = fold (\<lambda>(shard, m). smap_put (word_of_int shard) (gr_reply m)) R reps"

lemma record_loop:
  assumes "fst ` set R \<subseteq> shard_set requests" and "\<forall>x\<in>set R. gr_status (snd x) = st"
  shows "fold_r (record_reply requests st) reps (boxed R) = Inr (reply_map R reps)"
  using assms
proof (induction R arbitrary: reps)
  case (Cons x R)
  obtain shard m where x: "x = (shard, m)" by (cases x)
  then show ?case using Cons by (simp add: record_reply_def reply_map_def)
qed (simp add: reply_map_def)

lemma reply_map_keys:
  assumes "smap_ok reps"
  shows "smap_ok (reply_map R reps)" "fst ` set (reply_map R reps) = fst ` set reps \<union> word_of_int ` fst ` set R"
  using assms by (induction R arbitrary: reps) (simp_all add: reply_map_def split_beta)

lemma reply_map_length:
  assumes "smap_ok requests" and "fst ` set R = shard_set requests"
  shows "length (reply_map R []) = length requests"
proof -
  have "word_of_int ` fst ` set R = (word_of_int ` sint ` fst ` set requests :: u32 set)" by (simp add: assms(2) shard_set_def)
  then have "fst ` set (reply_map R []) = fst ` set requests" using reply_map_keys(2) [of "[]" R] by (simp add: image_image)
  then show ?thesis using smap_ok_length [OF assms(1)] smap_ok_length [OF reply_map_keys(1) [of "[]" R]] by simp
qed

section \<open>Steps\<close>

lemma SendRequest_sends:
  assumes "gc_pendingRequest s = Some p"
  shows "SendRequest s = Inr (s\<lparr>gc_outbox := gc_outbox s @ map (\<lambda>kv. (fst kv, client_request s p (snd kv))) (gk_requests p), gc_requestTimeout := True\<rparr>)"
  using assms by (simp add: SendRequest_def)

lemma gr_Invoke_inv:
  assumes "gc_inv s" and "gc_pendingRequest s = None" and "smap_ok requests" and "int (length requests) < 2 ^ 32"
  shows "\<exists>s' p. Invoke s requests k (Some a) = Inr s' \<and> gc_inv s' \<and> gc_finished s' = gc_finished s \<and> gc_pendingRequest s' = Some p \<and>
     gk_requests p = requests \<and> gk_continuation p = k \<and> gk_num_retries p = 0 \<and> collected s' = []"
proof -
  have "ms_messages (gc_replySet s) = Map.empty" "replicaRequired (gc_replySet s) = 1" using assms(1,2) by (simp_all add: gc_inv_def)
  then show ?thesis
    using assms by (auto simp: Invoke_def Let_def SendRequest_def gc_inv_def pending_ok_def PendingRequest_new_def SetShardRequired_def MAX_RETRIES_def collected_def
        intro!: exI [of _ "[]"])
qed

text \<open>A continuation makes at most one call, for fewer shards than there are 32-bit numbers.\<close>

definition calls_ok :: "'k calls \<Rightarrow> bool" where
  "calls_ok calls \<longleftrightarrow> (\<forall>k reqs reps c. length (calls k reqs reps c) \<le> 1 \<and>
     (\<forall>x\<in>set (calls k reqs reps c). smap_ok (fst x) \<and> int (length (fst x)) < 2 ^ 32))"

lemma gr_run_continuation_ok:
  assumes calls: "calls_ok calls" and s: "replicaRequired (gc_replySet s) = 1" "ms_messages (gc_replySet s) = Map.empty" "\<not> gc_requestTimeout s"
  shows "\<exists>s'. run_continuation calls s p c = Inr s' \<and> gc_inv s' \<and>
     gc_finished s' = gc_finished s @ [(gk_continuation p, gk_requests p, gk_replies p, c)]"
proof -
  let ?cs = "calls (gk_continuation p) (gk_requests p) (gk_replies p) c"
  let ?t = "s\<lparr>gc_pendingRequest := None, gc_finished := gc_finished s @ [(gk_continuation p, gk_requests p, gk_replies p, c)]\<rparr>"
  have t: "gc_inv ?t" "gc_pendingRequest ?t = None" using s by (simp_all add: gc_inv_def)
  have C: "length ?cs \<le> 1" "\<forall>x\<in>set ?cs. smap_ok (fst x) \<and> int (length (fst x)) < 2 ^ 32" using calls unfolding calls_ok_def by blast+
  consider "?cs = []" | reqs k a where "?cs = [(reqs, k, a)]" using C(1) by (cases ?cs) auto
  then show ?thesis
  proof cases
    case 1
    then show ?thesis using t(1) by (simp add: run_continuation_def)
  next
    case 2
    then obtain s' where "Invoke ?t reqs k (Some a) = Inr s'" "gc_inv s'" "gc_finished s' = gc_finished ?t"
      using gr_Invoke_inv [OF t, of reqs k a] C(2) by auto
    then show ?thesis using 2 by (simp add: run_continuation_def)
  qed
qed

text \<open>The next round of a transaction: the same transaction to the same shards under a fresh request identifier.\<close>

definition next_round :: "'k GranolaClient \<Rightarrow> 'k PendingRequest \<Rightarrow> 'k GranolaClient \<Rightarrow> bool" where
  "next_round s p s' \<longleftrightarrow> (\<exists>p'. gc_pendingRequest s' = Some p' \<and> gk_client_req_id p' = gc_lastReqId s + 1 \<and> gk_txnid p' = gk_txnid p \<and>
     gk_requests p' = gk_requests p \<and> gk_continuation p' = gk_continuation p \<and> gk_num_retries p' = gk_num_retries p + 1 \<and>
     gc_outbox s' = gc_outbox s @ map (\<lambda>kv. (fst kv, client_request s p' (snd kv))) (gk_requests p) \<and>
     gc_finished s' = gc_finished s \<and> collected s' = [])"

text \<open>What the replies of a whole round lead to.\<close>

definition round_over :: "'k GranolaClient \<Rightarrow> 'k PendingRequest \<Rightarrow> Status \<Rightarrow> (int \<times> ReplyMessage) list \<Rightarrow> 'k GranolaClient \<Rightarrow> bool" where
  "round_over s p st R s' \<longleftrightarrow>
     (if st = CONFLICT \<and> gk_num_retries p + 1 < MAX_RETRIES then next_round s p s'
      else gc_finished s' = gc_finished s @ [(gk_continuation p, gk_requests p, reply_map R [], st = COMMIT)])"

lemma gr_CompleteOperation_ok:
  assumes p: "gc_pendingRequest s = Some p" and rr: "replicaRequired (gc_replySet s) = 1" and calls: "calls_ok calls"
    and ok: "smap_ok (gk_requests p)" "int (length (gk_requests p)) < 2 ^ 32" "0 \<le> gk_num_retries p" "gk_txnid p = gc_txnid s" "gk_replies p = reply_map R []"
  shows "\<exists>s'. CompleteOperation calls s st = Inr s' \<and> gc_inv s' \<and> round_over s p st R s'"
proof -
  let ?s = "s\<lparr>gc_requestTimeout := False, gc_replySet := ms_Clear (gc_replySet s)\<rparr>"
  let ?p = "p\<lparr>gk_num_retries := gk_num_retries p + 1\<rparr>"
  have clear: "replicaRequired (gc_replySet ?s) = 1" "ms_messages (gc_replySet ?s) = Map.empty" "\<not> gc_requestTimeout ?s"
    using rr by (simp_all add: ms_Clear_def fun_eq_iff)
  show ?thesis
  proof (cases "st = CONFLICT \<and> gk_num_retries p + 1 < MAX_RETRIES")
    case True
    define p' where "p' = ?p\<lparr>gk_replies := [], gk_client_req_id := gc_lastReqId s + 1\<rparr>"
    define s' where "s' = s\<lparr>gc_requestTimeout := True, gc_lastReqId := gc_lastReqId s + 1, gc_pendingRequest := Some p',
      gc_replySet := SetShardRequired (ms_Clear (gc_replySet s)) (gc_lastReqId s + 1) (word_of_nat (length (gk_requests p))),
      gc_outbox := gc_outbox s @ map (\<lambda>kv. (fst kv, client_request s p' (snd kv))) (gk_requests p)\<rparr>"
    have "CompleteOperation calls s st = Inr s'"
      using True p by (simp add: CompleteOperation_def RetryTransaction_def SendRequest_def Let_def s'_def p'_def client_request_def)
    moreover have ms: "ms_messages (gc_replySet s') = [gc_lastReqId s + 1 \<mapsto> (boxed [], word_of_nat (length (gk_requests p)))]"
      by (simp add: s'_def SetShardRequired_def ms_Clear_def)
    then have "pending_ok s' p'" using ok True by (auto simp: pending_ok_def s'_def p'_def intro!: exI [of _ "[]"])
    then have "gc_inv s'" using rr by (simp add: gc_inv_def s'_def SetShardRequired_def ms_Clear_def)
    moreover have "collected s' = []" using ms by (simp add: collected_def s'_def p'_def)
    then have "next_round s p s'" by (simp add: next_round_def s'_def p'_def)
    ultimately show ?thesis using True by (simp add: round_over_def)
  next
    case False
    then have run: "CompleteOperation calls s st = run_continuation calls ?s (if st = CONFLICT then ?p else p) (st = COMMIT)"
      using p by (auto simp: CompleteOperation_def Let_def)
    then show ?thesis
      using gr_run_continuation_ok [OF calls clear, of "if st = CONFLICT then ?p else p" "st = COMMIT"] False ok(5)
      by (auto simp: round_over_def split: if_splits)
  qed
qed

section \<open>Replies\<close>

definition reply_expected :: "'k PendingRequest \<Rightarrow> Status \<Rightarrow> ReplyMessage \<Rightarrow> bool" where
  "reply_expected p st m \<longleftrightarrow> gr_clientreqid m = gk_client_req_id p \<and> sint (gr_shard_num m) \<in> shard_set (gk_requests p) \<and> gr_status m = st"

lemma accept_replies_complete:
  assumes "smap_ok (gk_requests p)" "gk_replies p = []" "smap_ok R" "fst ` set R = shard_set (gk_requests p)" "\<forall>x\<in>set R. gr_status (snd x) = st" "R \<noteq> []"
  shows "accept_replies calls s p (boxed R) = CompleteOperation calls (s\<lparr>gc_pendingRequest := Some (p\<lparr>gk_replies := reply_map R []\<rparr>)\<rparr>) st"
proof -
  obtain shard m R' where R: "R = (shard, m) # R'" using assms(6) by (cases R) auto
  then have first: "first_status (boxed R) = Inr st" using assms(5) by (simp add: first_status_def)
  have "length R = length (gk_requests p)"
    using smap_ok_length [OF assms(3)] shard_set_card [OF assms(1)] assms(4) by simp
  then show ?thesis
    using first record_loop [of R "gk_requests p" st "[]"] assms(2,4,5) reply_map_length [OF assms(1,4)]
    by (simp add: accept_replies_def)
qed

definition client_frame ::
  "'k GranolaClient \<Rightarrow> 'k PendingRequest option \<times> ('k \<times> shard_map \<times> shard_map \<times> bool) list \<times> (u32 \<times> RequestMessage) list \<times> u64 \<times> u64" where
  "client_frame s = (gc_pendingRequest s, gc_finished s, gc_outbox s, gc_lastReqId s, gc_clientid s)"

lemma gr_HandleReply_spec:
  assumes inv: "gc_inv s" and p: "gc_pendingRequest s = Some p" and m: "reply_expected p st m" and calls: "calls_ok calls"
    and same: "\<forall>x\<in>set (collected s). gr_status (snd x) = st" and R: "R = smap_put (sint (gr_shard_num m)) m (collected s)"
  shows "\<exists>s'. HandleReply calls s m = Inr s' \<and> gc_inv s' \<and>
     (if fst ` set R \<noteq> shard_set (gk_requests p)
      then collected s' = R \<and> client_frame s' = client_frame s
      else round_over s p st R s')"
proof -
  have P: "pending_ok s p" and rr: "replicaRequired (gc_replySet s) = 1" and tm: "gc_requestTimeout s" using inv p by (simp_all add: gc_inv_def)
  then obtain R0 st0 where R0: "ms_messages (gc_replySet s) = [gk_client_req_id p \<mapsto> (boxed R0, word_of_nat (length (gk_requests p)))]"
    "smap_ok R0" "fst ` set R0 \<subseteq> shard_set (gk_requests p)"
    unfolding pending_ok_def by blast
  have col: "collected s = R0" using p R0(1) by (simp add: collected_def)
  have ok: "smap_ok (gk_requests p)" "int (length (gk_requests p)) < 2 ^ 32" "0 \<le> gk_num_retries p" "gk_txnid p = gc_txnid s" "gk_replies p = []"
    using P by (simp_all add: pending_ok_def)
  have m': "gr_clientreqid m = gk_client_req_id p" "sint (gr_shard_num m) \<in> shard_set (gk_requests p)" "gr_status m = st"
    using m by (simp_all add: reply_expected_def)
  have Rst: "\<forall>x\<in>set R. gr_status (snd x) = st" unfolding R col by (rule smap_put_all) (use m'(3) same col in simp_all)
  define t where "t = s\<lparr>gc_replySet := (gc_replySet s)\<lparr>ms_messages := [gk_client_req_id p \<mapsto> (boxed R, word_of_nat (length (gk_requests p)))]\<rparr>\<rparr>"
  note reply = add_reply [OF R0(1) rr ok(1,2) R0(2,3) m'(2) R [unfolded col]]
  have add: "ms_AddAndCheckForQuorum (gc_replySet s) (gk_client_req_id p) (sint (gr_shard_num m)) 0 m =
      (gc_replySet t, if fst ` set R = shard_set (gk_requests p) then Some (boxed R) else None)" using reply(1) by (simp add: t_def)
  have t: "t = s\<lparr>gc_replySet := gc_replySet t\<rparr>" "replicaRequired (gc_replySet t) = 1" using rr by (simp_all add: t_def)
  show ?thesis
  proof (cases "fst ` set R = shard_set (gk_requests p)")
    case False
    then have run: "HandleReply calls s m = Inr t" using p m'(1) add t(1) by (simp add: HandleReply_def Let_def)
    have "pending_ok t p" using P reply(2,3) Rst by (auto simp: pending_ok_def t_def)
    then have "gc_inv t" using p t(2) tm by (simp add: gc_inv_def t_def)
    moreover have "collected t = R" using p by (simp add: collected_def t_def)
    ultimately show ?thesis using False run by (simp add: client_frame_def t_def)
  next
    case True
    have ne: "R \<noteq> []" by (simp add: R)
    let ?p = "p\<lparr>gk_replies := reply_map R []\<rparr>"
    let ?t = "t\<lparr>gc_pendingRequest := Some ?p\<rparr>"
    have "HandleReply calls s m = CompleteOperation calls ?t st"
      using p m'(1) add t(1) True accept_replies_complete [OF ok(1,5) reply(2) True Rst ne] by (simp add: HandleReply_def Let_def)
    moreover have "\<exists>s'. CompleteOperation calls ?t st = Inr s' \<and> gc_inv s' \<and> round_over ?t ?p st R s'"
      by (rule gr_CompleteOperation_ok) (use ok t(2) calls in \<open>simp_all add: t_def\<close>)
    moreover have "round_over ?t ?p st R s' = round_over s p st R s'" for s'
      by (simp add: round_over_def next_round_def client_request_def t_def)
    ultimately show ?thesis using True by auto
  qed
qed

section \<open>Transactions finish\<close>

text \<open>A round: every shard answers the pending request with the same status and an operation result of its own.\<close>

type_synonym answers = "Status \<times> (u32 \<Rightarrow> string)"

definition reply_for :: "'k PendingRequest \<Rightarrow> answers \<Rightarrow> u32 \<Rightarrow> ReplyMessage" where
  "reply_for p f shard = \<lparr>gr_clientreqid = gk_client_req_id p, gr_shard_num = shard, gr_status = fst f, gr_reply = snd f shard\<rparr>"

definition round_of :: "'k calls \<Rightarrow> 'k GranolaClient \<Rightarrow> answers \<Rightarrow> 'k GranolaClient result" where
  "round_of calls s f =
     (case gc_pendingRequest s of
        None \<Rightarrow> Inr s
      | Some p \<Rightarrow> fold_r (HandleReply calls) s (map (\<lambda>x. reply_for p f (fst x)) (gk_requests p)))"

definition answer_map :: "shard_map \<Rightarrow> answers \<Rightarrow> shard_map" where
  "answer_map requests f = map (\<lambda>x. (fst x, snd f (fst x))) requests"

definition frame_shards :: "'k PendingRequest option \<times> 'f \<Rightarrow> int set" where
  "frame_shards F = (case fst F of None \<Rightarrow> {} | Some p \<Rightarrow> shard_set (gk_requests p))"

definition frame_expects :: "Status \<Rightarrow> 'k PendingRequest option \<times> 'f \<Rightarrow> ReplyMessage \<Rightarrow> bool" where
  "frame_expects st F m \<longleftrightarrow> (case fst F of None \<Rightarrow> False | Some p \<Rightarrow> reply_expected p st m)"

definition collecting :: "Status \<Rightarrow> 'k GranolaClient \<Rightarrow> bool" where
  "collecting st s \<longleftrightarrow> gc_inv s \<and> smap_ok (collected s) \<and> (\<forall>x\<in>set (collected s). gr_status (snd x) = st)"

lemma reply_collector:
  fixes calls :: "'k calls"
  assumes "calls_ok calls"
  shows "shard_collector (HandleReply calls) (collecting st) client_frame frame_shards (frame_expects st) (\<lambda>m. sint (gr_shard_num m)) collected"
proof
  fix s :: "'k GranolaClient" and m R
  assume a: "collecting st s" "frame_expects st (client_frame s) m" "R = smap_put (sint (gr_shard_num m)) m (collected s)"
    "fst ` set R \<noteq> frame_shards (client_frame s)"
  then obtain p where p: "gc_pendingRequest s = Some p" "reply_expected p st m" by (auto simp: frame_expects_def client_frame_def split: option.splits)
  have s: "gc_inv s" "smap_ok (collected s)" "\<forall>x\<in>set (collected s). gr_status (snd x) = st" using a(1) by (simp_all add: collecting_def)
  have "gr_status m = st" using p(2) by (simp add: reply_expected_def)
  from smap_put_all [of "\<lambda>m. gr_status m = st", OF this s(3)] have "\<forall>x\<in>set R. gr_status (snd x) = st" unfolding a(3) .
  moreover have "fst ` set R \<noteq> shard_set (gk_requests p)" "smap_ok R"
    using a(3,4) p s(2) by (simp_all add: frame_shards_def client_frame_def)
  ultimately show "\<exists>s'. HandleReply calls s m = Inr s' \<and> collecting st s' \<and> client_frame s' = client_frame s \<and> collected s' = R"
    using gr_HandleReply_spec [OF s(1) p assms s(3) a(3)] p(1) by (auto simp: collecting_def)
qed

lemma smap_eqI:
  assumes "smap_ok xs" and "smap_ok ys" and "fst ` set xs = fst ` set ys" and "\<forall>x\<in>set xs. snd x = g (fst x)" and "\<forall>y\<in>set ys. snd y = g (fst y)"
  shows "xs = ys"
proof -
  have "map fst xs = map fst ys"
    using assms(1-3) sorted_distinct_set_unique [of "map fst xs" "map fst ys"] by (simp add: smap_ok_def strict_sorted_iff)
  moreover have "xs = map (\<lambda>k. (k, g k)) (map fst xs)" "ys = map (\<lambda>k. (k, g k)) (map fst ys)"
    using assms(4,5) by (simp_all add: map_idI prod_eq_iff)
  ultimately show ?thesis by metis
qed

lemma reply_map_values:
  assumes "\<forall>x\<in>set R. gr_reply (snd x) = g (word_of_int (fst x))" and "smap_ok reps" and "\<forall>x\<in>set reps. snd x = g (fst x)"
  shows "\<forall>x\<in>set (reply_map R reps). snd x = g (fst x)"
  using assms
proof (induction R arbitrary: reps)
  case (Cons x R)
  have "\<forall>y\<in>set (smap_put (word_of_int (fst x)) (gr_reply (snd x)) reps). snd y = g (fst y)"
    using Cons.prems set_smap_put_subset [of "word_of_int (fst x)" "gr_reply (snd x)" reps] by auto
  moreover have "reply_map (x # R) reps = reply_map R (smap_put (word_of_int (fst x)) (gr_reply (snd x)) reps)"
    by (simp add: reply_map_def split_beta)
  ultimately show ?case using Cons.IH [of "smap_put (word_of_int (fst x)) (gr_reply (snd x)) reps"] Cons.prems(1,2) by simp
qed (simp add: reply_map_def)

lemma fold_put_from:
  "x \<in> set (fold (\<lambda>m. smap_put (key m) m) ms R) \<Longrightarrow> x \<in> set R \<or> (\<exists>m\<in>set ms. x = (key m, m))"
proof (induction ms arbitrary: R)
  case (Cons m ms)
  then show ?case using set_smap_put_subset [of "key m" m R] by fastforce
qed simp

text \<open>A whole round ends in the verdict of its status; the replies reported are those of the round.\<close>

lemma gr_full_round:
  assumes inv: "gc_inv s" and p: "gc_pendingRequest s = Some p" and none: "collected s = []" and calls: "calls_ok calls" and req: "gk_requests p \<noteq> []"
  shows "\<exists>s' R. round_of calls s f = Inr s' \<and> gc_inv s' \<and> round_over s p (fst f) R s' \<and> reply_map R [] = answer_map (gk_requests p) f"
proof -
  obtain xs x where xs: "gk_requests p = xs @ [x]" using req by (cases "gk_requests p" rule: rev_cases) auto
  have ok: "smap_ok (gk_requests p)" using inv p by (simp add: gc_inv_def pending_ok_def)
  note last = last_shard_missing [of xs x, folded xs, OF ok]
  let ?ms = "map (\<lambda>x. reply_for p f (fst x)) xs"
  let ?m = "reply_for p f (fst x)"
  have exp: "reply_expected p (fst f) (reply_for p f (fst y))" if "y \<in> set (gk_requests p)" for y
    using shard_set_fst [OF that] by (simp add: reply_expected_def reply_for_def)
  have fits: "\<forall>m\<in>set ?ms. frame_expects (fst f) (client_frame s) m" using exp xs p by (auto simp: frame_expects_def client_frame_def)
  have miss: "sint (fst x) \<notin> fst ` set (collected s) \<union> (\<lambda>m. sint (gr_shard_num m)) ` set ?ms"
    using last none by (simp add: reply_for_def image_image)
  obtain t where t: "fold_r (HandleReply calls) s ?ms = Inr t" "collecting (fst f) t" "client_frame t = client_frame s"
     "collected t = fold (\<lambda>m. smap_put (sint (gr_shard_num m)) m) ?ms []"
    using shard_collector.replies_recorded [OF reply_collector [OF calls] _ fits _ miss] last none p inv
    by (auto simp: frame_shards_def client_frame_def collecting_def smap_ok_def)
  have pt: "gc_pendingRequest t = Some p" using t(3) p by (simp add: client_frame_def)
  define R where "R = smap_put (sint (gr_shard_num ?m)) ?m (collected t)"
  have keys: "fst ` set R = shard_set (gk_requests p)"
    by (simp add: R_def t(4) collected_keys xs shard_set_def reply_for_def image_image)
  have T: "gc_inv t" "\<forall>x\<in>set (collected t). gr_status (snd x) = fst f" using t(2) by (simp_all add: collecting_def)
  from gr_HandleReply_spec [OF T(1) pt exp [of x] calls T(2) R_def] keys xs
  obtain s' where s': "HandleReply calls t ?m = Inr s'" "gc_inv s'" "round_over t p (fst f) R s'" by auto
  have R_fold: "R = fold (\<lambda>m. smap_put (sint (gr_shard_num m)) m) (?ms @ [?m]) []" by (simp add: R_def t(4))
  have "gr_reply (snd y) = snd f (word_of_int (fst y))" if y: "y \<in> set R" for y
  proof -
    obtain m where "m \<in> set (?ms @ [?m])" "y = (sint (gr_shard_num m), m)"
      using fold_put_from [OF y [unfolded R_fold]] by auto
    then show ?thesis by (auto simp: reply_for_def)
  qed
  then have "\<forall>x\<in>set (reply_map R []). snd x = snd f (fst x)" by (intro reply_map_values) (simp_all add: smap_ok_def)
  moreover have "fst ` set (reply_map R []) = fst ` set (gk_requests p)"
    using reply_map_keys(2) [of "[]" R] by (simp add: keys shard_set_def image_image smap_ok_def)
  ultimately have "reply_map R [] = answer_map (gk_requests p) f"
    using ok reply_map_keys(1) [of "[]" R]
    by (intro smap_eqI [where g = "snd f"]) (auto simp: answer_map_def smap_ok_def image_image comp_def)
  moreover have "round_over s p (fst f) R s' = round_over t p (fst f) R s'"
    using t(3) by (simp add: round_over_def next_round_def client_request_def client_frame_def)
  ultimately show ?thesis using t(1) s' xs p by (auto simp: round_of_def)
qed

lemma gr_rounds_finish:
  assumes "gc_inv s" and "gc_pendingRequest s = Some p" and "collected s = []" and "calls_ok calls" and "gk_requests p \<noteq> []"
    and "int (length fs) = MAX_RETRIES - gk_num_retries p" and "fs \<noteq> []"
  shows "\<exists>n s'. n < length fs \<and> (\<forall>i<n. fst (fs ! i) = CONFLICT) \<and> (Suc n < length fs \<longrightarrow> fst (fs ! n) \<noteq> CONFLICT) \<and>
     fold_r (round_of calls) s (take (Suc n) fs) = Inr s' \<and>
     gc_finished s' = gc_finished s @ [(gk_continuation p, gk_requests p, answer_map (gk_requests p) (fs ! n), fst (fs ! n) = COMMIT)]"
  using assms
proof (induction fs arbitrary: s p)
  case (Cons f fs)
  from gr_full_round [OF Cons.prems(1-5), of f] obtain t R where t: "round_of calls s f = Inr t" "gc_inv t" "round_over s p (fst f) R t"
    "reply_map R [] = answer_map (gk_requests p) f" by blast
  show ?case
  proof (cases "fst f = CONFLICT \<and> gk_num_retries p + 1 < MAX_RETRIES")
    case True
    then obtain p' where p': "gc_pendingRequest t = Some p'" "gk_requests p' = gk_requests p" "gk_continuation p' = gk_continuation p"
      "gk_num_retries p' = gk_num_retries p + 1" "gc_finished t = gc_finished s" "collected t = []"
      using t(3) by (auto simp: round_over_def next_round_def)
    have "gk_requests p' \<noteq> []" "int (length fs) = MAX_RETRIES - gk_num_retries p'" "fs \<noteq> []" using Cons.prems(5,6) p' True by auto
    from Cons.IH [OF t(2) p'(1,6) Cons.prems(4) this] obtain n s' where
      n: "n < length fs" "\<forall>i<n. fst (fs ! i) = CONFLICT" "Suc n < length fs \<longrightarrow> fst (fs ! n) \<noteq> CONFLICT" "fold_r (round_of calls) t (take (Suc n) fs) = Inr s'"
        "gc_finished s' = gc_finished t @ [(gk_continuation p', gk_requests p', answer_map (gk_requests p') (fs ! n), fst (fs ! n) = COMMIT)]" by blast
    have "\<forall>i<Suc n. fst ((f # fs) ! i) = CONFLICT" using n(2) True by (auto simp: nth_Cons split: nat.split)
    then show ?thesis using n t(1) p' by (intro exI [of _ "Suc n"] exI [of _ s']) auto
  next
    case False
    have "int (length fs) + 1 = MAX_RETRIES - gk_num_retries p" using Cons.prems(6) by simp
    then have "fs \<noteq> [] \<longrightarrow> fst f \<noteq> CONFLICT" using False by (cases fs) auto
    then show ?thesis using t False by (intro exI [of _ 0] exI [of _ t]) (auto simp: round_over_def)
  qed
qed simp

text \<open>C25. Every transaction of the Granola client comes to an end and its outcome is reported truthfully.  While the shards
  report conflicts the client repeats the transaction; it stops after the first round without a conflict and at the latest after the
  fifth, runs the continuation once with the results that the shards gave in that round, and reports a
  commit exactly if that round was one.\<close>

theorem granola_transaction_finishes:
  assumes "gc_inv s" and "gc_pendingRequest s = None" and "smap_ok requests" and "requests \<noteq> []" and "int (length requests) < 2 ^ 32"
    and "calls_ok calls" and "length fs = 5"
  shows "\<exists>s1 n s'. Invoke s requests k (Some a) = Inr s1 \<and> n < 5 \<and> fold_r (round_of calls) s1 (take (Suc n) fs) = Inr s' \<and>
     (\<forall>i<n. fst (fs ! i) = CONFLICT) \<and> (n < 4 \<longrightarrow> fst (fs ! n) \<noteq> CONFLICT) \<and>
     gc_finished s' = gc_finished s @ [(k, requests, answer_map requests (fs ! n), fst (fs ! n) = COMMIT)]"
proof -
  obtain s1 p where s1: "Invoke s requests k (Some a) = Inr s1" "gc_inv s1" "gc_finished s1 = gc_finished s" "gc_pendingRequest s1 = Some p"
    "gk_requests p = requests" "gk_continuation p = k" "gk_num_retries p = 0" "collected s1 = []"
    using gr_Invoke_inv [OF assms(1,2,3,5), of k a] by auto
  have "int (length fs) = MAX_RETRIES - gk_num_retries p" "fs \<noteq> []" "gk_requests p \<noteq> []" using s1(5,7) assms(4,7) by (auto simp: MAX_RETRIES_def)
  from gr_rounds_finish [OF s1(2,4,8) assms(6) this(3,1,2)] obtain n s' where
    "n < 5" "\<forall>i<n. fst (fs ! i) = CONFLICT" "Suc n < 5 \<longrightarrow> fst (fs ! n) \<noteq> CONFLICT" "fold_r (round_of calls) s1 (take (Suc n) fs) = Inr s'"
    "gc_finished s' = gc_finished s1 @ [(gk_continuation p, gk_requests p, answer_map (gk_requests p) (fs ! n), fst (fs ! n) = COMMIT)]"
    unfolding assms(7) by blast
  then show ?thesis using s1 by (intro exI [of _ s1] exI [of _ n] exI [of _ s']) auto
qed

section \<open>Runs\<close>

fun client_ok :: "'k GranolaClient \<Rightarrow> 'k client_event \<Rightarrow> bool" where
  "client_ok s (AppInvokes requests k a) = (gc_pendingRequest s = None \<and> smap_ok requests \<and> int (length requests) < 2 ^ 32)"
| "client_ok s (ReplyArrives m) =
     (case gc_pendingRequest s of
        None \<Rightarrow> True
      | Some p \<Rightarrow> gr_clientreqid m = gk_client_req_id p \<longrightarrow>
          sint (gr_shard_num m) \<in> shard_set (gk_requests p) \<and> (\<forall>x\<in>set (collected s). gr_status (snd x) = gr_status m))"
| "client_ok s TimeoutFires = True"

lemma gr_SendRequest_inv:
  assumes "gc_inv s" and "gc_requestTimeout s"
  shows "\<exists>s'. SendRequest s = Inr s' \<and> gc_inv s'"
proof -
  obtain p where p: "gc_pendingRequest s = Some p" using assms by (cases "gc_pendingRequest s") (simp_all add: gc_inv_def)
  then show ?thesis using assms by (auto simp: SendRequest_def gc_inv_def pending_ok_def)
qed

lemma gr_client_step:
  assumes "calls_ok calls" and inv: "gc_inv s" and ok: "client_ok s ev"
  shows "\<exists>s'. client_handle calls s ev = Inr s' \<and> gc_inv s'"
proof (cases ev)
  case (AppInvokes requests k a)
  then show ?thesis using gr_Invoke_inv [OF inv, of requests k a] ok by auto
next
  case (ReplyArrives m)
  show ?thesis
  proof (cases "\<exists>p. gc_pendingRequest s = Some p \<and> gr_clientreqid m = gk_client_req_id p")
    case True
    then obtain p where p: "gc_pendingRequest s = Some p" "gr_clientreqid m = gk_client_req_id p" by blast
    then have "reply_expected p (gr_status m) m" "\<forall>x\<in>set (collected s). gr_status (snd x) = gr_status m"
      using ok ReplyArrives by (auto simp: reply_expected_def)
    from gr_HandleReply_spec [OF inv p(1) this(1) assms(1) this(2) refl] show ?thesis using ReplyArrives by auto
  next
    case False
    then have "HandleReply calls s m = Inr s" by (simp add: HandleReply_def split: option.splits)
    then show ?thesis using inv ReplyArrives by simp
  qed
next
  case TimeoutFires
  then show ?thesis using gr_SendRequest_inv [OF inv] inv by (cases "gc_requestTimeout s") (auto simp: RequestTimeout_def)
qed

lemma gr_client_total: "calls_ok calls \<Longrightarrow> total_system (client_handle calls) client_ok gc_inv"
  by unfold_locales (use gr_client_step in fastforce)+

definition no_calls :: "'k calls" where
  "no_calls k reqs reps c = []"

lemma no_calls_ok: "calls_ok no_calls"
  by (simp add: calls_ok_def no_calls_def)

interpretation gr_client: total_system "client_handle no_calls" client_ok gc_inv
  by (rule gr_client_total [OF no_calls_ok])

interpretation gr_round: shard_collector "HandleReply no_calls" "collecting st" client_frame frame_shards "frame_expects st" "\<lambda>m. sint (gr_shard_num m)" collected
  for st by (rule reply_collector [OF no_calls_ok])

lemma gc_inv_new: "gc_inv (GranolaClient_new c)"
  by (simp add: gc_inv_def GranolaClient_new_def MessageSet_new_def)

definition two_shards :: shard_map where
  "two_shards = [(0, ''a''), (1, ''b'')]"

text \<open>Two conflicts, then a commit.\<close>

definition sample_answers :: "answers list" where
  "sample_answers = [(CONFLICT, \<lambda>_. ''''), (CONFLICT, \<lambda>_. ''''), (COMMIT, \<lambda>i. if i = 0 then ''r'' else ''s''), (ABORT, \<lambda>_. ''''), (ABORT, \<lambda>_. '''')]"

theorem granola_transaction_finishes_witness:
  "\<exists>s1 s'. Invoke (GranolaClient_new 30001) two_shards ''k'' (Some \<lparr>ca_indep = False, ca_ro = False\<rparr>) = Inr s1 \<and>
     fold_r (round_of no_calls) s1 (take 3 sample_answers) = Inr s' \<and> gc_finished s' = [(''k'', two_shards, [(0, ''r''), (1, ''s'')], True)]"
proof -
  let ?c = "GranolaClient_new 30001 :: string GranolaClient"
  have a: "gc_pendingRequest ?c = None" "gc_finished ?c = []" by (simp_all add: GranolaClient_new_def)
  have b: "smap_ok two_shards" "two_shards \<noteq> []" "int (length two_shards) < 2 ^ 32" by (simp_all add: two_shards_def smap_ok_def)
  have "length sample_answers = 5" by (simp add: sample_answers_def)
  from granola_transaction_finishes [OF gc_inv_new a(1) b no_calls_ok this, of "''k''" "\<lparr>ca_indep = False, ca_ro = False\<rparr>"] a(2)
  obtain s1 n s' where n: "Invoke ?c two_shards ''k'' (Some \<lparr>ca_indep = False, ca_ro = False\<rparr>) = Inr s1" "n < 5"
    "fold_r (round_of no_calls) s1 (take (Suc n) sample_answers) = Inr s'" "\<forall>i<n. fst (sample_answers ! i) = CONFLICT"
    "n < 4 \<longrightarrow> fst (sample_answers ! n) \<noteq> CONFLICT"
    "gc_finished s' = [(''k'', two_shards, answer_map two_shards (sample_answers ! n), fst (sample_answers ! n) = COMMIT)]" by auto
  have "n = 0 \<or> n = 1 \<or> n = 2 \<or> n = 3 \<or> n = 4" using n(2) by linarith
  moreover have "\<not> 2 < n" using n(4) [rule_format, of 2] by (auto simp: sample_answers_def)
  ultimately have "n = 2" using n(5) by (auto simp: sample_answers_def)
  then show ?thesis using n(1,3,6) by (auto simp: sample_answers_def answer_map_def two_shards_def numeral_3_eq_3 numeral_2_eq_2)
qed

end
