(* ===== verification/Spec2Isabelle.thy ===== *)
theory Spec2Isabelle
  imports VRProperties NOPaxosNetwork LockServer Stores KVTxnProperties SpannerGroup SpannerClient
    TapirClient VRClient Unreplicated GranolaProperties GranolaClient
begin

text \<open>
  A verification of the protocol core of the repository: state machine replication by Viewstamped
  Replication and by NOPaxos, and the transactional back end that runs on top of replicated groups.

  \<^bold>\<open>The program.\<close>  A replica (\<^verbatim>\<open>common/replica.h\<close>) belongs to a group described by a \<^verbatim>\<open>Configuration\<close>, keeps a
  \<^verbatim>\<open>Log\<close> of client requests, collects the answers of its peers in \<^verbatim>\<open>QuorumSet\<close>s and executes requests against an
  \<^verbatim>\<open>AppReplica\<close>.  \<^verbatim>\<open>VRReplica\<close> orders requests through its leader; \<^verbatim>\<open>NOPaxosReplica\<close> receives them stamped by a
  sequencer in the network and agrees only on the gaps.  Both are driven by messages and timeouts.  The application
  of the transactional systems is a \<^verbatim>\<open>TxnServer\<close>; \<^verbatim>\<open>KVTxnServer\<close> implements it with two-phase locking over a
  \<^verbatim>\<open>LockServer\<close> and a \<^verbatim>\<open>KVStore\<close>.  Of the protocols that run distributed transactions on it, three are here:
  \<^verbatim>\<open>SpannerClient\<close> coordinates two-phase commit between groups of \<^verbatim>\<open>SpannerServer\<close>s, each of which replicates the phases
  of transactions in a log and executes them against its \<^verbatim>\<open>TxnServer\<close>; \<^verbatim>\<open>TapirClient\<close> coordinates groups of \<^verbatim>\<open>TapirServer\<close>s through one
  \<^verbatim>\<open>IRClient\<close> each, which collects the verdicts of replicas that do not order their operations; the leaders of groups of \<^verbatim>\<open>GranolaServer\<close>s
  exchange votes themselves, and \<^verbatim>\<open>GranolaClient\<close> only repeats a transaction that met a conflict.

  \<^bold>\<open>How code becomes definitions.\<close>  A class is a record, an enumeration a datatype, a method a function from the
  state and the arguments to a result.  A result is \<open>Inr\<close> of the new state (and the return value) or \<open>Inl\<close> of
  what stops the process: a failed \<^verbatim>\<open>ASSERT\<close>, a \<^verbatim>\<open>Panic\<close>, unreachable code, undefined behaviour, or a counting loop whose
  bound is the largest number.  Operation numbers, views and identifiers are 64-bit words with their
  wrap-around; replica indices and quorum sizes are C++ \<^verbatim>\<open>int\<close>s, modelled by \<open>int\<close>.  Messages are records with the fields of
  the \<^verbatim>\<open>.proto\<close> files, and what a replica sends is appended to an outbox in program order.  A timeout is whether it is
  running.  Loops over messages, operations and keys are recursion over lists; no definition uses fuel:
  the loops that are not over a list (committing up to an operation number, \<^verbatim>\<open>ProcessNextOperation\<close> over committed
  gaps, \<^verbatim>\<open>TryAcquireForWaiters\<close>) are functions with a termination proof.

  \<^bold>\<open>Parameters.\<close>  The hash function of the log (OpenSSL), the encoding of protocol buffers, what a client's continuations call, the application behind a replica, whether the storage of
  two dead objects still has their contents when \<^verbatim>\<open>vr/replica.cc\<close> reads them (if not, the read is undefined behaviour), what an uninitialised field holds (\<^verbatim>\<open>TxnData\<close> of \<^verbatim>\<open>granola/server.h\<close>) and the iteration orders of unordered
  containers are arguments of the definitions that use them.

  \<^bold>\<open>The theories.\<close>
  \<^item> \<open>Prelude\<close>: results, loops, operation ranges, the ordered map, and the contracts \<open>handler_system\<close>,
    \<open>progress_system\<close>, \<open>total_system\<close> and \<open>partial_system\<close> of a message-driven component, each of which lifts a property of one step to
    every run; \<open>partial_system\<close> is about components that can stop, and says how (\<open>ends\<close>).
  \<^item> \<open>Viewstamps\<close> (\<^verbatim>\<open>lib/viewstamp.h\<close>, \<^verbatim>\<open>transaction/common/timestamp.cc\<close>): the code's comparisons are linear orders.
  \<^item> \<open>Configurations\<close> (\<^verbatim>\<open>lib/configuration.cc\<close>): addresses survive serialization; quorums intersect.
  \<^item> \<open>QuorumSets\<close> (\<^verbatim>\<open>common/quorumset.h\<close>, \<^verbatim>\<open>common/messageset.h\<close>): a quorum is reported exactly when enough distinct
    replicas, or shards, have answered.
  \<^item> \<open>ReplicaLog\<close> (\<^verbatim>\<open>common/log.cc\<close>): the log is an array of consecutive operations; what each operation does to it;
    dumping and installing a suffix.
  \<^item> \<open>ReplicaCommon\<close> (\<^verbatim>\<open>common/replica.cc\<close>): upcalls, execution and rollback.
  \<^item> \<open>VRReplica\<close> (\<^verbatim>\<open>replication/vr/replica.cc\<close>): the whole replica.  \<open>VRCommit\<close>: commitment executes the log in
    order.  \<open>VRInvariant\<close> and \<open>VRViewChange\<close>: every handler and timeout keeps the invariant.  \<open>VRProperties\<close>: runs keep the
    invariant, committed operations never change, commits need quorums, a view change selects the newest log, a
    request is logged once, and four executions in which the code loses its log or aborts.
  \<^item> \<open>NOPaxosReplica\<close> (\<^verbatim>\<open>replication/nopaxos/replica.cc\<close>): the whole replica.  \<open>NOPaxosInvariant\<close>: every handler keeps the
    log tied to the counters and to the committed gaps and never takes anything back, unless it rewinds.
    \<open>NOPaxosProperties\<close>: the same over runs, sequencing of requests, draining of the pending ones, execution in order and
    at most once, agreement on gaps and synchronization points, and what rewinding and state transfer really do.
  \<^item> \<open>Buffers\<close> and \<open>NOPaxosWire\<close> (\<^verbatim>\<open>common/pbmessage.cc\<close>, \<^verbatim>\<open>nopaxos/message.cc\<close>, \<^verbatim>\<open>nopaxos/sequencer.cc\<close>): packets as bytes; what a
    client sends arrives with the sequencer's stamp; which packets are read out of bounds.  \<open>ClientCommon\<close> and \<open>NOPaxosClient\<close>
    (\<^verbatim>\<open>nopaxos/client.cc\<close>): when replies decide a request; requests are answered in order and once.  \<open>NOPaxosNetwork\<close> composes
    client, sequencer and replicas: requests reach every replica's log in the sequencer's order, and an
    invoked request is answered.
  \<^item> \<open>LockServer\<close> (\<^verbatim>\<open>transaction/common/backend/lockserver.cc\<close>): locks exclude each other over every sequence of calls and
    no assertion fails; a server that hands locks over reads the front of an empty queue, which is undefined behaviour, when a release
    serves the last waiter, and stops in no other way.  \<open>LockHandoff\<close>: exactly who gets a released lock.
  \<^item> \<open>Stores\<close> (\<^verbatim>\<open>kvstore.cc\<close>, \<^verbatim>\<open>versionstore.cc\<close>, \<^verbatim>\<open>transaction/common/transaction.cc\<close>): the versioned store refines a
    multi-version map, snapshots are stable, transactions survive their message.
  \<^item> \<open>KVTxnServer\<close> (\<^verbatim>\<open>transaction/apps/kvstore/txnserver.cc\<close>): the transactional server over the two.
    \<open>KVTxnInvariant\<close>: acquiring and releasing keys, through two interfaces interpreted for read and write locks, keeps
    lock holders, waiters and pending transactions consistent.  \<open>KVTxnProperties\<close>: with retries no call aborts, and without them in two ways only; a prepared
    transaction holds all its locks; a locked key does not change until its holder is finished, as long as only prepared transactions are
    committed.
  \<^item> \<open>TxnApps\<close> (\<^verbatim>\<open>transaction/common/backend/txnserver.cc\<close>): the application as a protocol server sees it, the contract
    \<open>retry_app\<close> of one that makes blocked clients retry, and the key-value server as an instance.
  \<^item> \<open>SpannerServer\<close> (\<^verbatim>\<open>transaction/spanner/server.cc\<close>): the whole server.  \<open>SpannerInvariant\<close>: its invariant, what each
    handler does, execution in log order.  \<open>SpannerProperties\<close>: no handler aborts over a \<open>retry_app\<close>.  \<open>SpannerGroup\<close>: a group of
    servers and a network that loses, repeats and reorders messages; backups agree with their leader, commits are
    backed by \<open>f\<close> backups, and two executions in which a gap is not noticed.
  \<^item> \<open>ShardReplies\<close>: the replies of shards in a \<^verbatim>\<open>MessageSet\<close>, and the contract \<open>shard_collector\<close> of a client that waits for all of them,
    interpreted for the Spanner and the Granola client.
  \<^item> \<open>SpannerClient\<close> (\<^verbatim>\<open>transaction/spanner/client.cc\<close>): the coordinator commits exactly when all shards agree, and every
    transaction ends after at most six phases.

  \<^item> \<open>TapirServer\<close> (\<^verbatim>\<open>transaction/tapir/record.cc\<close>, \<^verbatim>\<open>server.cc\<close>): operations are executed once whatever is retransmitted; no handler
    aborts over a \<open>retry_app\<close>; the record loses results.  \<open>TapirClient\<close> (\<^verbatim>\<open>irclient.cc\<close>, \<^verbatim>\<open>client.cc\<close>): requests are answered once and only
    with a quorum, and the client stops only where a failed send makes it use a deleted request; the coordinator decides alike on all shards; an execution of client and replicas in which a refused transaction is
    reported as prepared.
  \<^item> \<open>GranolaServer\<close> (\<^verbatim>\<open>transaction/granola/server.cc\<close>): the whole server.  \<open>GranolaInvariant\<close>: log, pending transactions, votes and timeouts
    stay consistent, and execution follows the log.  \<open>GranolaProperties\<close>: over a \<open>retry_app\<close> no handler aborts, without locks transactions
    are executed in log order, with locks shards decide alike; a backup ignores the decision that
    comes with a final timestamp, and two executions in which the protocol is not followed.  \<open>GranolaClient\<close>
    (\<^verbatim>\<open>client.cc\<close>): a transaction ends within five rounds and is reported as its last round decided.
  \<^item> \<open>VRClient\<close> (\<^verbatim>\<open>replication/vr/client.cc\<close>): requests are answered in order and once.  \<open>Unreplicated\<close> (\<^verbatim>\<open>replication/unreplicated\<close>):
    the server, its client and a network between them; remote calls behave as local calls.

  \<^bold>\<open>What the theorems assume.\<close>  The theorems on runs start at the constructor.  What each assumes of the events is a predicate on the
  state and the next event:
  \<^item> \<open>vr_ok\<close>: messages are well formed and meet \<open>vr_expects\<close>: operation numbers do not run out, a \<^verbatim>\<open>STARTVIEW\<close> has entries unless the receiver's log
    is empty, view-change messages reach what the receiver has committed, a recovering replica has an empty log.  The code accepts messages
    that fail this (\<open>empty_startview_breaks_log\<close>).  That committed operations never change assumes \<open>vr_agrees\<close> as well: the entries of view-change
    messages have the views the receiver has committed, as quorum intersection gives.
  \<^item> \<open>np_ok\<close>: operation numbers do not run out, a state transfer carries requests and no-ops, and nothing is rewound; rewinding is
    broken in the code.
  \<^item> The lock server and the transactional server assume nothing of their calls.  Isolation assumes that a COMMIT comes only for a transaction that holds
    its write locks (\<open>other_call\<close>), which the server does not check (\<open>blocked_commit_overwrites\<close>).
  \<^item> \<open>sp_expects\<close> and \<open>gr_expects\<close>, for the theorems that no assertion of a Spanner or Granola server fails: operation numbers do not run out,
    messages are of known types and reach the role they are for, acknowledgements are for operations the leader has, and a backup gets a \<^verbatim>\<open>PREPARE\<close> for a
    new operation only when the request in it is not older than the client table has it, which the code asserts; for Granola also that the
    timestamp of a \<^verbatim>\<open>PREPARE\<close> is its operation number, that requests have operations, and that a vote is for a transaction of several shards.
  \<^item> \<open>client_message\<close> and \<open>ir_expects\<close>, for TAPIR: a consensus operation prepares a transaction and an inconsistent one finishes it, each is finalized as
    what it was proposed, and the application waits for a commit or abort to be answered before the next call.
  \<^item> \<open>client_ok\<close>, for the clients: the application does not invoke a second request while one is pending, and leaders' replies carry a result.

  \<^bold>\<open>Not modelled.\<close>  Transports, DPDK, the event loop, logging, latency measurement, signatures and memory
  utilities (I/O and wrappers of third-party code); the parser of the configuration file; the other replication
  protocols (SpecPaxos, Fast Paxos, PBFT, TOM-BFT) and their clients; the
  transaction protocol Eris; benchmarks, TPC-C and tests.
  Sending a message always succeeds, except in \<open>TapirClient\<close>, where a failure is an input.  Apart from the path of a NOPaxos request in normal operation, the group of
  Spanner servers and the unreplicated server, the theorems are about one replica and what it sends; agreement between replicas through view
  changes is not stated.
\<close>

end
